(* ===== verification/Prelude.thy ===== *)
theory Prelude
  imports Main "HOL-Library.Word"
begin

unbundle bit_operations_syntax

section \<open>Prelude: machine types, results, bytes and device memory\<close>

text \<open>
  Shared vocabulary of the development.
  \<^item> Fixed-width integers are words; \<open>size_t\<close> is 64 bits wide, as on every platform the
    library builds for.  A device pointer is a byte address, with 0 for \<open>nullptr\<close>.
  \<^item> A C++ exception is an \<open>Inl\<close> value of type \<open>'a res\<close>; it carries the fixed leading text
    of the message the source throws (the interpolated names and numbers are left out).
  \<^item> \<open>le_bytes\<close>/\<open>le_val\<close> are what \<open>memcpy\<close> of an unsigned integer to and from a byte buffer does
    on the little-endian hosts the library requires.
  \<^item> \<open>mem_write\<close>, \<open>mem_copy\<close> and \<open>mem_set\<close> are the memory effects of \<open>cudaMemcpyAsync\<close> and
    \<open>cudaMemsetAsync\<close>; \<open>stride_from\<close> is the grid-stride loop every kernel of the repository uses.
\<close>

named_theorems unat_simps \<open>rules that move word expressions to \<^typ>\<open>nat\<close>\<close>

type_synonym u8 = "8 word"
type_synonym u16 = "16 word"
type_synonym u32 = "32 word"
type_synonym u64 = "64 word"
type_synonym size_t = "64 word"
type_synonym dptr = nat
type_synonym dev_mem = "nat \<Rightarrow> u8"

datatype fz_error = RuntimeError string | InvalidArgument string | OutOfRange string

type_synonym 'a res = "fz_error + 'a"

definition res_bind :: "'a res \<Rightarrow> ('a \<Rightarrow> 'b res) \<Rightarrow> 'b res" where
  "res_bind r f = (case r of Inl e \<Rightarrow> Inl e | Inr x \<Rightarrow> f x)"

lemma res_bind_simps [simp]:
  "res_bind (Inl e) f = Inl e"
  "res_bind (Inr x) f = f x"
  by (simp_all add: res_bind_def)

lemma res_bind_eq_Inr: "res_bind r f = Inr y \<longleftrightarrow> (\<exists>x. r = Inr x \<and> f x = Inr y)"
  by (cases r) auto

text \<open>A loop whose body may throw: the first exception ends it.\<close>

fun res_fold :: "('a \<Rightarrow> 's \<Rightarrow> 's res) \<Rightarrow> 'a list \<Rightarrow> 's \<Rightarrow> 's res" where
  "res_fold f [] s = Inr s"
| "res_fold f (x # xs) s = res_bind (f x s) (res_fold f xs)"

lemma res_fold_append:
  "res_fold f (xs @ ys) s = res_bind (res_fold f xs s) (res_fold f ys)"
  by (induction xs arbitrary: s) (auto simp: res_bind_def split: sum.splits)

lemma res_fold_inv:
  assumes "res_fold f xs s = Inr t" "P s"
    and "\<And>x s t. x \<in> set xs \<Longrightarrow> P s \<Longrightarrow> f x s = Inr t \<Longrightarrow> P t"
  shows "P t"
  using assms
proof (induction xs arbitrary: s)
  case Nil
  then show ?case by simp
next
  case (Cons x xs)
  from Cons.prems(1) obtain u where u: "f x s = Inr u" "res_fold f xs u = Inr t"
    by (auto simp: res_bind_eq_Inr)
  moreover have "P u" using Cons.prems(2,3) u(1) by (meson list.set_intros(1))
  ultimately show ?case using Cons.IH Cons.prems(3) by (meson list.set_intros(2))
qed

subsection \<open>Little-endian integers\<close>

lemma unat_less_pow: "unat (w :: 'a::len word) < 2 ^ LENGTH('a)"
  by (rule unsigned_less)

lemma unat_less_256: "unat (b :: u8) < 256"
  using unsigned_less [of b] by simp

lemma unat_less_64 [unat_simps]: "unat (x :: size_t) < 2 ^ 64"
  using unsigned_less [of x] by simp

fun le_bytes :: "nat \<Rightarrow> nat \<Rightarrow> u8 list" where
  "le_bytes 0 v = []"
| "le_bytes (Suc n) v = word_of_nat v # le_bytes n (v div 256)"

fun le_val :: "u8 list \<Rightarrow> nat" where
  "le_val [] = 0"
| "le_val (b # bs) = unat b + 256 * le_val bs"

lemma length_le_bytes [simp]: "length (le_bytes n v) = n"
  by (induction n arbitrary: v) auto

lemma le_val_le_bytes: "le_val (le_bytes n v) = v mod 256 ^ n"
proof (induction n arbitrary: v)
  case 0
  then show ?case by simp
next
  case (Suc n)
  have "v mod 256 ^ Suc n = v mod 256 + 256 * (v div 256 mod 256 ^ n)"
    using mod_mult2_eq [of v 256 "256 ^ n"] by simp
  then show ?case using Suc by (simp add: unat_of_nat)
qed

lemma le_val_le_bytes_word:
  "le_val (le_bytes 2 (unat (x :: u16))) = unat x"
  "le_val (le_bytes 4 (unat (y :: u32))) = unat y"
  "le_val (le_bytes 8 (unat (z :: u64))) = unat z"
  using unat_less_pow [of x] unat_less_pow [of y] unat_less_pow [of z]
  by (simp_all add: le_val_le_bytes)

lemma le_val_less: "le_val bs < 256 ^ length bs"
proof (induction bs)
  case Nil
  then show ?case by simp
next
  case (Cons b bs)
  have "unat b < 256" using unat_less_256 .
  moreover have "256 * le_val bs + 256 \<le> 256 * 256 ^ length bs"
    using Cons by (metis Suc_leI add.commute mult_Suc_right mult_le_mono2)
  ultimately show ?case by simp
qed

lemma u8_256: "(256 :: u8) = 0"
  by (simp add: word_unat_eq_iff)

lemma le_bytes_le_val: "le_bytes (length bs) (le_val bs) = bs"
proof (induction bs)
  case Nil
  then show ?case by simp
next
  case (Cons b bs)
  have b: "unat b < 256" using unat_less_256 .
  then have "(unat b + 256 * le_val bs) div 256 = le_val bs" by simp
  moreover have "(word_of_nat (unat b + 256 * le_val bs) :: u8) = b"
    by (simp add: u8_256)
  ultimately show ?case using Cons by simp
qed

subsection \<open>Device memory\<close>

definition mem_write :: "dev_mem \<Rightarrow> dptr \<Rightarrow> u8 list \<Rightarrow> dev_mem" where
  "mem_write m p bs = (\<lambda>a. if p \<le> a \<and> a < p + length bs then bs ! (a - p) else m a)"

definition mem_copy :: "dev_mem \<Rightarrow> dptr \<Rightarrow> dptr \<Rightarrow> nat \<Rightarrow> dev_mem" where
  "mem_copy m dst src n = (\<lambda>a. if dst \<le> a \<and> a < dst + n then m (src + (a - dst)) else m a)"

definition mem_set :: "dev_mem \<Rightarrow> dptr \<Rightarrow> u8 \<Rightarrow> nat \<Rightarrow> dev_mem" where
  "mem_set m p v n = (\<lambda>a. if p \<le> a \<and> a < p + n then v else m a)"

definition mem_read :: "dev_mem \<Rightarrow> dptr \<Rightarrow> nat \<Rightarrow> u8 list" where
  "mem_read m p n = map (\<lambda>i. m (p + i)) [0..<n]"

lemma length_mem_read [simp]: "length (mem_read m p n) = n"
  by (simp add: mem_read_def)

lemma mem_read_nth [simp]: "i < n \<Longrightarrow> mem_read m p n ! i = m (p + i)"
  by (simp add: mem_read_def)

lemma mem_read_mem_write: "mem_read (mem_write m p bs) p (length bs) = bs"
  by (rule nth_equalityI) (simp_all add: mem_write_def)

lemma mem_read_append: "mem_read m p (a + b) = mem_read m p a @ mem_read m (p + a) b"
  by (rule nth_equalityI) (auto simp: nth_append add.assoc)

lemma mem_read_cong:
  "(\<And>a. p \<le> a \<Longrightarrow> a < p + n \<Longrightarrow> m a = m' a) \<Longrightarrow> mem_read m p n = mem_read m' p n"
  by (rule nth_equalityI) auto

subsection \<open>The grid-stride loop\<close>

text \<open>
  \<open>for (i = tid; i < n; i += stride)\<close>: the indices one thread of a grid visits.  The stride is
  the number of threads of the grid, so it is positive.
\<close>

function stride_from :: "nat \<Rightarrow> nat \<Rightarrow> nat \<Rightarrow> nat list" where
  "stride_from i stride n = (if i < n \<and> 0 < stride then i # stride_from (i + stride) stride n else [])"
  by pat_completeness auto
termination by (relation "measure (\<lambda>(i, stride, n). n - i)") auto

declare stride_from.simps [simp del]

lemma set_stride_from:
  "0 < stride \<Longrightarrow> set (stride_from i stride n) = {j. i \<le> j \<and> j < n \<and> (j - i) mod stride = 0}"
proof (induction i stride n rule: stride_from.induct)
  case (1 i stride n)
  show ?case
  proof (cases "i < n")
    case True
    have dvd: "stride dvd (j - i) \<longleftrightarrow> j = i \<or> (i + stride \<le> j \<and> stride dvd (j - (i + stride)))"
      if "i \<le> j" for j
    proof (cases "i + stride \<le> j")
      case True
      then have "j - i = stride + (j - (i + stride))" by simp
      with True \<open>0 < stride\<close> show ?thesis by (metis add_leD1 dvd_add_right_iff dvd_refl le_antisym
          add_diff_cancel_left' diff_self_eq_0 dvd_0_right)
    next
      case False
      with that show ?thesis by (auto dest: dvd_imp_le)
    qed
    from 1 True have "set (stride_from i stride n) =
        insert i {j. i + stride \<le> j \<and> j < n \<and> (j - (i + stride)) mod stride = 0}"
      by (subst stride_from.simps) simp
    with True dvd show ?thesis by (auto simp: mod_eq_0_iff_dvd)
  qed (subst stride_from.simps, auto)
qed

text \<open>Together the threads \<open>0..<stride\<close> of the grid visit exactly the indices \<open>0..<n\<close>.\<close>

lemma stride_from_cover:
  assumes "0 < stride"
  shows "(\<Union>tid\<in>{0..<stride}. set (stride_from tid stride n)) = {0..<n}"
proof
  show "(\<Union>tid\<in>{0..<stride}. set (stride_from tid stride n)) \<subseteq> {0..<n}"
    using assms by (auto simp: set_stride_from)
  show "{0..<n} \<subseteq> (\<Union>tid\<in>{0..<stride}. set (stride_from tid stride n))"
  proof
    fix j assume j: "j \<in> {0..<n}"
    have "j \<in> set (stride_from (j mod stride) stride n)"
      using j assms by (auto simp: set_stride_from minus_mod_eq_mult_div)
    then show "j \<in> (\<Union>tid\<in>{0..<stride}. set (stride_from tid stride n))"
      using assms by (auto intro!: bexI [of _ "j mod stride"])
  qed
qed

end
