(* ===== verification/Concat_Layout.thy ===== *)
theory Concat_Layout
  imports Prelude
begin

unbundle bit_operations_syntax

section \<open>The concat blob: layout, gather kernel and its inverse\<close>

text \<open>
  A pipeline with several outputs packs them into one blob,
  \<open>[u32 n][u64 s0]..[u64 sN-1][padding][slot0][slot1]..\<close>, and decompression finds the
  segments again from the blob's own header.  This theory models \<open>pipeline_utils.h\<close>
  (\<open>align16\<close>, \<open>ConcatLayout\<close>), the packing code of \<open>compressor.cpp\<close>
  (\<open>calculateConcatSize\<close>, \<open>writeConcatBuffer\<close>, \<open>concatOutputs\<close>), the gather kernel of
  \<open>concat_kernel.cu\<close> thread by thread, and the reading side in \<open>compressor_exec.cpp\<close>
  (\<open>readConcatSegmentSizes\<close>, \<open>mapCompressedBufferPointers\<close>).
\<close>

subsection \<open>Definitions\<close>

text \<open>
  \<open>(x + 15u) & ~15u\<close>: the mask is computed at \<open>unsigned\<close> width and only then widened to
  \<open>size_t\<close>, so its upper half is zero.
\<close>

definition align16 :: "size_t \<Rightarrow> size_t" where
  "align16 x = (x + 15) AND ucast (NOT (15 :: u32))"

definition headerSize :: "size_t \<Rightarrow> size_t" where
  "headerSize n = align16 (4 + n * 8)"

definition slotSize :: "size_t \<Rightarrow> size_t" where
  "slotSize actual_size = align16 actual_size"

record output_buffer_info =
  obi_buffer_id :: int
  obi_d_ptr :: dptr
  obi_actual_size :: size_t
  obi_stage_name :: string
  obi_output_name :: string

definition calculateConcatSize :: "output_buffer_info list \<Rightarrow> size_t" where
  "calculateConcatSize outputs =
     foldl (\<lambda>total out. total + slotSize (obi_actual_size out))
       (headerSize (word_of_nat (length outputs))) outputs"

record copy_desc =
  cd_src :: dptr
  cd_dst :: dptr
  cd_bytes :: size_t

text \<open>
  One thread of \<open>gather_kernel\<close> as the list of elementary copies \<open>(dst, src, bytes)\<close> it
  performs: 16-byte chunks and a byte-wise tail when both pointers are 16-byte aligned,
  bytes otherwise, nothing for a null pointer or an empty segment.
\<close>

definition gather_thread :: "copy_desc \<Rightarrow> nat \<Rightarrow> nat \<Rightarrow> (dptr \<times> dptr \<times> nat) list" where
  "gather_thread d stride tid =
     (let src = cd_src d; dst = cd_dst d; bytes = unat (cd_bytes d) in
      if src = 0 \<or> dst = 0 \<or> bytes = 0 then []
      else if src mod 16 = 0 \<and> dst mod 16 = 0 then
        let n_wide = bytes div 16; tail_start = n_wide * 16 in
        map (\<lambda>i. (dst + 16 * i, src + 16 * i, 16)) (stride_from tid stride n_wide) @
        map (\<lambda>i. (dst + (tail_start + i), src + (tail_start + i), 1))
          (stride_from tid stride (bytes - tail_start))
      else map (\<lambda>i. (dst + i, src + i, 1)) (stride_from tid stride bytes))"

fun run_copies :: "(dptr \<times> dptr \<times> nat) list \<Rightarrow> dev_mem \<Rightarrow> dev_mem" where
  "run_copies [] m = m"
| "run_copies ((d, s, n) # cs) m = run_copies cs (mem_copy m d s n)"

definition kGatherBlocksPerSegment :: nat where
  "kGatherBlocksPerSegment = 256"

text \<open>
  The launch: block row \<open>seg\<close> and in-row thread \<open>tid\<close> run in some order, the \<open>schedule\<close>; a row
  past \<open>n_segs\<close> returns at once.
\<close>

definition gather_grid :: "nat \<Rightarrow> nat \<Rightarrow> (nat \<times> nat) list" where
  "gather_grid n_segs block_dim =
     List.product [0..<n_segs] [0..<kGatherBlocksPerSegment * block_dim]"

definition gather_kernel ::
  "copy_desc list \<Rightarrow> nat \<Rightarrow> (nat \<times> nat) list \<Rightarrow> dev_mem \<Rightarrow> dev_mem" where
  "gather_kernel descs block_dim schedule m =
     run_copies (concat (map (\<lambda>(seg, tid).
        if length descs \<le> seg then []
        else gather_thread (descs ! seg) (kGatherBlocksPerSegment * block_dim) tid) schedule)) m"

definition concat_header :: "output_buffer_info list \<Rightarrow> u8 list" where
  "concat_header outputs =
     le_bytes 4 (length outputs) @ concat (map (\<lambda>out. le_bytes 8 (unat (obi_actual_size out))) outputs)"

fun concat_descs :: "dptr \<Rightarrow> size_t \<Rightarrow> output_buffer_info list \<Rightarrow> copy_desc list \<times> size_t" where
  "concat_descs base offset [] = ([], offset)"
| "concat_descs base offset (out # outs) =
     (let (ds, off') = concat_descs base (offset + slotSize (obi_actual_size out)) outs
      in (\<lparr>cd_src = obi_d_ptr out, cd_dst = base + unat offset, cd_bytes = obi_actual_size out\<rparr> # ds, off'))"

definition writeConcatBuffer ::
  "output_buffer_info list \<Rightarrow> dptr \<Rightarrow> (nat \<times> nat) list \<Rightarrow> dev_mem \<Rightarrow> size_t \<times> dev_mem" where
  "writeConcatBuffer outputs base schedule m =
     (let (descs, offset) = concat_descs base (headerSize (word_of_nat (length outputs))) outputs;
          m1 = mem_write m base (concat_header outputs)
      in (offset, gather_kernel descs 256 schedule m1))"

text \<open>
  \<open>concatOutputs\<close>: grow the pool buffer when its capacity is too small (\<open>alloc\<close> is the pool),
  zero it, pack.  The state is the concat buffer's pointer and capacity.
\<close>

record pool_buffer =
  pb_ptr :: dptr
  pb_capacity :: size_t

definition concatOutputs ::
  "(size_t \<Rightarrow> dptr option) \<Rightarrow> output_buffer_info list \<Rightarrow> (nat \<times> nat) list \<Rightarrow> pool_buffer \<Rightarrow> dev_mem
   \<Rightarrow> (dptr \<times> size_t \<times> pool_buffer \<times> dev_mem) res" where
  "concatOutputs alloc outputs schedule buf m =
     (let total_size = calculateConcatSize outputs;
          grown = (if pb_capacity buf < total_size
                   then case alloc total_size of
                          None \<Rightarrow> Inl (RuntimeError ''Failed to allocate concat output buffer'')
                        | Some p \<Rightarrow> Inr \<lparr>pb_ptr = p, pb_capacity = total_size\<rparr>
                   else Inr buf)
      in res_bind grown (\<lambda>buf'.
           let m1 = mem_set m (pb_ptr buf') 0 (unat total_size);
               (sz, m2) = writeConcatBuffer outputs (pb_ptr buf') schedule m1
           in Inr (pb_ptr buf', sz, buf', m2)))"

definition readConcatSegmentSizes :: "dev_mem \<Rightarrow> dptr \<Rightarrow> nat \<Rightarrow> size_t list res" where
  "readConcatSegmentSizes m d_blob n =
     (let host = mem_read m d_blob (4 + n * 8);
          count = le_val (take 4 host) in
      if count \<noteq> n
      then Inl (RuntimeError ''decompress: concat header segment count does not match'')
      else Inr (map (\<lambda>i. word_of_nat (le_val (take 8 (drop (4 + 8 * i) host)))) [0..<n]))"

text \<open>The pointer walk of \<open>mapCompressedBufferPointers\<close> over an external blob.\<close>

fun segment_pointers :: "dptr \<Rightarrow> size_t \<Rightarrow> size_t list \<Rightarrow> dptr list" where
  "segment_pointers d_input byte_offset [] = []"
| "segment_pointers d_input byte_offset (s # ss) =
     (d_input + unat byte_offset) # segment_pointers d_input (byte_offset + slotSize s) ss"

definition dag_getBuffer :: "(int \<rightharpoonup> dptr) \<Rightarrow> int \<Rightarrow> dptr res" where
  "dag_getBuffer bufs b =
     (case bufs b of None \<Rightarrow> Inl (RuntimeError ''Invalid buffer ID'') | Some p \<Rightarrow> Inr p)"

text \<open>
  \<open>compressed_ptrs\<close> is filled entry by entry, so a later entry for the same buffer id wins;
  \<open>buffer_metadata_[0]\<close> of an empty vector, undefined in the source, is an error here.
\<close>

definition compressed_pointers ::
  "bool \<Rightarrow> dptr \<Rightarrow> (int \<rightharpoonup> dptr) \<Rightarrow> int list \<Rightarrow> size_t list \<Rightarrow> (int \<rightharpoonup> dptr) res" where
  "compressed_pointers needs_concat d_input bufs meta_ids seg_sizes =
     (if d_input \<noteq> 0 then
        if \<not> needs_concat then
          (case meta_ids of [] \<Rightarrow> Inl (OutOfRange ''buffer_metadata_'') | b # _ \<Rightarrow> Inr [b \<mapsto> d_input])
        else Inr (map_of (rev (zip meta_ids
               (segment_pointers d_input (headerSize (word_of_nat (length meta_ids))) seg_sizes))))
      else res_fold (\<lambda>b mp. res_bind (dag_getBuffer bufs b) (\<lambda>p. Inr (mp(b \<mapsto> p)))) meta_ids Map.empty)"

definition mapCompressedBufferPointers ::
  "bool \<Rightarrow> dptr \<Rightarrow> (int \<rightharpoonup> dptr) \<Rightarrow> int list \<Rightarrow> size_t list \<Rightarrow> (int \<rightharpoonup> dptr \<times> size_t) res" where
  "mapCompressedBufferPointers needs_concat d_input bufs meta_ids seg_sizes =
     res_bind (compressed_pointers needs_concat d_input bufs meta_ids seg_sizes) (\<lambda>ptrs.
       res_fold (\<lambda>(b, sz) po_map.
         res_bind (case ptrs b of Some p \<Rightarrow> Inr p | None \<Rightarrow> dag_getBuffer bufs b)
           (\<lambda>p. Inr (po_map(b \<mapsto> (p, sz))))) (zip meta_ids seg_sizes) Map.empty)"

subsection \<open>Alignment\<close>

lemma mask_align16: "(ucast (NOT (15 :: u32)) :: size_t) = 0xFFFFFFF0"
  by simp

lemma and_mask_split: "(y :: size_t) AND 0xFFFFFFF0 = push_bit 4 (take_bit 28 (drop_bit 4 y))"
proof -
  have "(0xFFFFFFF0 :: size_t) = push_bit 4 (mask 28)"
    by (simp add: mask_eq_exp_minus_1 push_bit_eq_mult)
  then show ?thesis
    by (simp add: take_bit_eq_mask bit_eq_iff bit_simps) (auto simp: bit_simps)
qed


lemma unat_align16: "unat (align16 x) = 16 * ((unat x + 15) mod 2 ^ 32 div 16)"
proof -
  have "unat (align16 x) = unat (push_bit 4 (take_bit 28 (drop_bit 4 (x + 15))))"
    by (simp add: align16_def mask_align16 and_mask_split)
  also have "\<dots> = 16 * ((unat x + 15) mod 2 ^ 64 div 16 mod 2 ^ 28)"
    by (simp add: unsigned_push_bit_eq unsigned_take_bit_eq unsigned_drop_bit_eq push_bit_eq_mult
        take_bit_eq_mod drop_bit_eq_div unat_word_ariths)
  also have "\<dots> = 16 * ((unat x + 15) mod 2 ^ 32 div 16)"
  proof -
    have "y mod 2 ^ 64 div 16 mod 2 ^ 28 = y mod 2 ^ 32 div 16" for y :: nat
    proof -
      have "y mod 2 ^ 64 mod 2 ^ 32 = y mod 2 ^ 32"
        by (simp add: mod_mod_cancel)
      then show ?thesis
        using mod_mult2_eq [of "y mod 2 ^ 64" 16 "2 ^ 28"] by simp
    qed
    then show ?thesis by simp
  qed
  finally show ?thesis .
qed

definition round16 :: "nat \<Rightarrow> nat" where
  "round16 n = 16 * ((n + 15) div 16)"

lemma round16_bounds: "n \<le> round16 n" "round16 n < n + 16" "16 dvd round16 n"
  by (simp_all add: round16_def)

lemma align16_small [unat_simps]: "unat x + 15 < 2 ^ 32 \<Longrightarrow> unat (align16 x) = round16 (unat x)"
  by (simp add: unat_align16 round16_def)

text \<open>
  C36. The rounding helper of the blob layout is exact precisely for sizes that stay below
  4 GiB after adding 15: because the mask \<open>~15u\<close> is a 32-bit value, \<open>align16\<close> drops the
  upper half of every larger size.
\<close>

theorem align16_exact_iff: "unat (align16 x) = round16 (unat x) \<longleftrightarrow> unat x + 15 < 2 ^ 32"
proof
  assume eq: "unat (align16 x) = round16 (unat x)"
  have "16 * (y mod 2 ^ 32 div 16) < (2 ^ 32 - 15 :: nat)" for y :: nat
  proof -
    have "16 * (z div 16) < 4294967281" if "z < 4294967296" for z :: nat
      using that by presburger
    from this [of "y mod 4294967296"] show ?thesis by simp
  qed
  then have "unat (align16 x) < 2 ^ 32 - 15" by (simp only: unat_align16)
  with eq show "unat x + 15 < 2 ^ 32"
    using round16_bounds(1) [of "unat x"] round16_bounds(3) [of "unat x"] by simp
qed (rule align16_small)

subsection \<open>The gather kernel\<close>

definition written :: "(dptr \<times> dptr \<times> nat) list \<Rightarrow> nat set" where
  "written cs = (\<Union>(d, s, n)\<in>set cs. {d..<d + n})"

lemma run_copies_correct:
  assumes "\<And>d s n. (d, s, n) \<in> set cs \<Longrightarrow> {s..<s + n} \<subseteq> R \<and> {d..<d + n} \<inter> R = {}"
    and "\<And>d s n k. (d, s, n) \<in> set cs \<Longrightarrow> k < n \<Longrightarrow> T (d + k) = m0 (s + k)"
    and "\<And>a. a \<in> R \<Longrightarrow> m a = m0 a"
  shows "run_copies cs m a = (if a \<in> written cs then T a else m a)"
  using assms
proof (induction cs arbitrary: m)
  case Nil
  then show ?case by (simp add: written_def)
next
  case (Cons c cs)
  obtain d s n where c: "c = (d, s, n)" by (cases c)
  let ?m = "mem_copy m d s n"
  have R: "{s..<s + n} \<subseteq> R" "{d..<d + n} \<inter> R = {}" using Cons.prems(1) [of d s n] c by auto
  have "run_copies cs ?m a = (if a \<in> written cs then T a else ?m a)"
  proof (rule Cons.IH)
    show "?m x = m0 x" if "x \<in> R" for x
      using that R(2) Cons.prems(3) by (auto simp: mem_copy_def)
  qed (use Cons.prems(1,2) in \<open>meson list.set_intros(2)\<close>)+
  moreover have "?m a = (if a \<in> {d..<d + n} then T a else m a)"
  proof (cases "a \<in> {d..<d + n}")
    case True
    then have "T (d + (a - d)) = m0 (s + (a - d))" using Cons.prems(2) [of d s n "a - d"] c by auto
    moreover have "m (s + (a - d)) = m0 (s + (a - d))"
    proof (rule Cons.prems(3))
      show "s + (a - d) \<in> R" using True R(1) by (auto simp del: add_diff_assoc)
    qed
    ultimately show ?thesis using True by (simp add: mem_copy_def)
  qed (auto simp: mem_copy_def)
  ultimately show ?case by (auto simp: c written_def)
qed

definition desc_range :: "copy_desc \<Rightarrow> nat set" where
  "desc_range d = {cd_dst d..<cd_dst d + unat (cd_bytes d)}"

lemma gather_thread_within:
  assumes "(d, s, n) \<in> set (gather_thread desc stride tid)" "0 < stride"
  shows "\<exists>k. d = cd_dst desc + k \<and> s = cd_src desc + k \<and> k + n \<le> unat (cd_bytes desc)"
  using assms
  by (auto simp: gather_thread_def Let_def set_stride_from split: if_splits)

lemma gather_thread_cover:
  assumes "cd_src desc \<noteq> 0" "cd_dst desc \<noteq> 0" "j < unat (cd_bytes desc)" "0 < stride"
  shows "\<exists>tid < stride. cd_dst desc + j \<in> written (gather_thread desc stride tid)"
proof -
  have visit: "\<exists>tid < stride. i \<in> set (stride_from tid stride n)" if "i < n" for i n
    using stride_from_cover [OF assms(4), of n] that by (metis (no_types, lifting) UN_iff atLeastLessThan_iff zero_le)
  let ?b = "unat (cd_bytes desc)"
  have tail: "?b div 16 * 16 \<le> j \<Longrightarrow> j - ?b div 16 * 16 < ?b - ?b div 16 * 16"
    using assms(3) by simp
  show ?thesis
  proof (cases "cd_src desc mod 16 = 0 \<and> cd_dst desc mod 16 = 0")
    case al: True
    show ?thesis
    proof (cases "j div 16 < ?b div 16")
      case True
      from visit [OF this] obtain tid where t: "tid < stride"
        "j div 16 \<in> set (stride_from tid stride (?b div 16))" by blast
      have "cd_dst desc + j \<in> {cd_dst desc + 16 * (j div 16)..<cd_dst desc + 16 * (j div 16) + 16}"
        by simp
      then show ?thesis using t al assms
        by (intro exI [of _ tid]) (force simp: gather_thread_def Let_def written_def)
    next
      case False
      then have "?b div 16 * 16 \<le> j"
        by (metis div_le_mono div_times_less_eq_dividend linorder_not_less nonzero_mult_div_cancel_right
            order.trans mult_le_mono1)
      from visit [OF tail [OF this]] this obtain tid where t: "tid < stride"
        "j - ?b div 16 * 16 \<in> set (stride_from tid stride (?b - ?b div 16 * 16))" by blast
      have "cd_dst desc + j \<in> {cd_dst desc + (?b div 16 * 16 + (j - ?b div 16 * 16))..<
          cd_dst desc + (?b div 16 * 16 + (j - ?b div 16 * 16)) + 1}"
        using \<open>?b div 16 * 16 \<le> j\<close> by simp
      then show ?thesis using t al assms
        by (intro exI [of _ tid]) (force simp: gather_thread_def Let_def written_def)
    qed
  next
    case False
    from visit [OF assms(3)] obtain tid where "tid < stride" "j \<in> set (stride_from tid stride ?b)"
      by blast
    then show ?thesis using False assms
      by (intro exI [of _ tid]) (force simp: gather_thread_def Let_def written_def)
  qed
qed

definition src_range :: "copy_desc \<Rightarrow> nat set" where
  "src_range d = {cd_src d..<cd_src d + unat (cd_bytes d)}"

definition descs_ok :: "copy_desc list \<Rightarrow> bool" where
  "descs_ok descs \<longleftrightarrow>
     (\<forall>d\<in>set descs. cd_bytes d \<noteq> 0 \<longrightarrow> cd_src d \<noteq> 0 \<and> cd_dst d \<noteq> 0) \<and>
     (\<forall>j<length descs. \<forall>i<j. desc_range (descs ! i) \<inter> desc_range (descs ! j) = {}) \<and>
     (\<forall>d\<in>set descs. \<forall>e\<in>set descs. src_range d \<inter> desc_range e = {})"

lemma descs_ok_unique:
  assumes "descs_ok descs" "i < length descs" "j < length descs"
    and "a \<in> desc_range (descs ! i)" "a \<in> desc_range (descs ! j)"
  shows "i = j"
  using assms unfolding descs_ok_def
  by (metis IntI empty_iff linorder_neqE_nat)

lemma gather_kernel_memory:
  assumes sched: "set schedule = set (gather_grid (length descs) bd)" and "0 < bd"
    and ok: "descs_ok descs"
  shows "gather_kernel descs bd schedule m a =
    (if \<exists>i<length descs. a \<in> desc_range (descs ! i)
     then let d = descs ! (SOME i. i < length descs \<and> a \<in> desc_range (descs ! i))
          in m (cd_src d + (a - cd_dst d))
     else m a)"
proof -
  let ?st = "kGatherBlocksPerSegment * bd"
  let ?seg = "\<lambda>a. SOME i. i < length descs \<and> a \<in> desc_range (descs ! i)"
  let ?T = "\<lambda>a. m (cd_src (descs ! ?seg a) + (a - cd_dst (descs ! ?seg a)))"
  let ?R = "\<Union>d\<in>set descs. src_range d"
  define g where "g = (\<lambda>(seg, tid). if length descs \<le> seg then []
      else gather_thread (descs ! seg) ?st tid)"
  define cs where "cs = concat (map g schedule)"
  have st: "0 < ?st" using \<open>0 < bd\<close> by (simp add: kGatherBlocksPerSegment_def)
  have seg: "?seg b = i" if "i < length descs" "b \<in> desc_range (descs ! i)" for b i
    using that descs_ok_unique [OF ok] by (intro some_equality) auto
  have mem: "\<exists>i tid. i < length descs \<and> tid < ?st \<and> c \<in> set (gather_thread (descs ! i) ?st tid)"
    if "c \<in> set cs" for c
    using that sched by (fastforce simp: cs_def g_def gather_grid_def split: if_splits)
  have within: "\<exists>i k. i < length descs \<and> d = cd_dst (descs ! i) + k \<and> s = cd_src (descs ! i) + k \<and>
      k + n \<le> unat (cd_bytes (descs ! i))" if "(d, s, n) \<in> set cs" for d s n
    using mem [OF that] gather_thread_within [OF _ st] by blast
  have W: "a \<in> written cs \<longleftrightarrow> (\<exists>i<length descs. a \<in> desc_range (descs ! i))"
  proof
    assume "a \<in> written cs"
    then show "\<exists>i<length descs. a \<in> desc_range (descs ! i)"
      using within by (fastforce simp: written_def desc_range_def)
  next
    assume "\<exists>i<length descs. a \<in> desc_range (descs ! i)"
    then obtain i where i: "i < length descs" "a \<in> desc_range (descs ! i)" by blast
    let ?d = "descs ! i"
    have j: "a - cd_dst ?d < unat (cd_bytes ?d)" "cd_dst ?d + (a - cd_dst ?d) = a"
      using i(2) by (auto simp: desc_range_def)
    then have "cd_bytes ?d \<noteq> 0" by auto
    then have "cd_src ?d \<noteq> 0" "cd_dst ?d \<noteq> 0" using ok i(1) by (auto simp: descs_ok_def)
    from gather_thread_cover [OF this j(1) st] j(2) obtain tid where
      t: "tid < ?st" "a \<in> written (gather_thread ?d ?st tid)" by auto
    have "(i, tid) \<in> set schedule" using i(1) t(1) sched by (auto simp: gather_grid_def)
    then have "set (g (i, tid)) \<subseteq> set cs" by (auto simp: cs_def)
    then have "set (gather_thread ?d ?st tid) \<subseteq> set cs" using i(1) by (simp add: g_def)
    with t(2) show "a \<in> written cs" by (auto simp: written_def)
  qed
  have "run_copies cs m a = (if a \<in> written cs then ?T a else m a)"
  proof (rule run_copies_correct [where R = ?R])
    fix d s n assume c: "(d, s, n) \<in> set cs"
    then obtain i k where ik: "i < length descs" "d = cd_dst (descs ! i) + k"
      "s = cd_src (descs ! i) + k" "k + n \<le> unat (cd_bytes (descs ! i))" using within by blast
    have sub: "{s..<s + n} \<subseteq> src_range (descs ! i)" "{d..<d + n} \<subseteq> desc_range (descs ! i)"
      using ik by (auto simp: src_range_def desc_range_def)
    have mem_i: "descs ! i \<in> set descs" using ik(1) by simp
    have "src_range e \<inter> desc_range (descs ! i) = {}" if "e \<in> set descs" for e
      using ok that mem_i unfolding descs_ok_def by blast
    with sub(2) have "{d..<d + n} \<inter> ?R = {}" by blast
    moreover have "{s..<s + n} \<subseteq> ?R" using sub(1) mem_i by blast
    ultimately show "{s..<s + n} \<subseteq> ?R \<and> {d..<d + n} \<inter> ?R = {}" by blast
    show "?T (d + l) = m (s + l)" if "l < n" for l
    proof -
      have "d + l \<in> desc_range (descs ! i)" using sub(2) that by auto
      from seg [OF ik(1) this] show ?thesis using ik by (simp add: add.assoc)
    qed
  qed simp
  then show ?thesis by (auto simp: gather_kernel_def g_def [symmetric] cs_def [symmetric] W Let_def)
qed

lemma gather_kernel_seg:
  assumes "set schedule = set (gather_grid (length descs) bd)" "0 < bd" "descs_ok descs"
    and "d \<in> set descs"
  shows "mem_read (gather_kernel descs bd schedule m) (cd_dst d) (unat (cd_bytes d))
    = mem_read m (cd_src d) (unat (cd_bytes d))"
proof (rule nth_equalityI)
  fix k assume "k < length (mem_read (gather_kernel descs bd schedule m) (cd_dst d) (unat (cd_bytes d)))"
  then have k: "k < unat (cd_bytes d)" by simp
  obtain i where i: "i < length descs" "d = descs ! i" using assms(4) by (auto simp: in_set_conv_nth)
  let ?a = "cd_dst d + k"
  have a: "?a \<in> desc_range (descs ! i)" using k i by (simp add: desc_range_def)
  have "(SOME i. i < length descs \<and> ?a \<in> desc_range (descs ! i)) = i"
    using i a descs_ok_unique [OF assms(3)] by (intro some_equality) auto
  with a i(1) have "gather_kernel descs bd schedule m ?a = m (cd_src d + (?a - cd_dst d))"
    by (subst gather_kernel_memory [OF assms(1-3)]) (auto simp: i(2) Let_def)
  with k show "mem_read (gather_kernel descs bd schedule m) (cd_dst d) (unat (cd_bytes d)) ! k
      = mem_read m (cd_src d) (unat (cd_bytes d)) ! k" by simp
qed simp

lemma gather_kernel_frame:
  assumes "set schedule = set (gather_grid (length descs) bd)" "0 < bd" "descs_ok descs"
    and "\<forall>d\<in>set descs. a \<notin> desc_range d"
  shows "gather_kernel descs bd schedule m a = m a"
  using assms(4) by (subst gather_kernel_memory [OF assms(1-3)]) auto

text \<open>
  C7. The gather kernel, whatever order its threads run in, copies every segment exactly
  and writes nothing else: 16-byte chunks, byte tails and the unaligned fallback together
  cover each destination range once.
\<close>

theorem gather_kernel_copies:
  assumes "set schedule = set (gather_grid (length descs) bd)" and "0 < bd" and "descs_ok descs"
  shows "(\<forall>d\<in>set descs. mem_read (gather_kernel descs bd schedule m) (cd_dst d) (unat (cd_bytes d))
            = mem_read m (cd_src d) (unat (cd_bytes d))) \<and>
         (\<forall>a. (\<forall>d\<in>set descs. a \<notin> desc_range d) \<longrightarrow> gather_kernel descs bd schedule m a = m a)"
  using gather_kernel_seg [OF assms] gather_kernel_frame [OF assms] by blast

theorem gather_kernel_copies_witness:
  "mem_read (gather_kernel [\<lparr>cd_src = 16, cd_dst = 64, cd_bytes = 20\<rparr>] 1 (gather_grid 1 1)
      word_of_nat) 64 20 = mem_read word_of_nat 16 20"
proof -
  let ?d = "\<lparr>cd_src = 16, cd_dst = 64, cd_bytes = 20\<rparr> :: copy_desc"
  have "descs_ok [?d]" by (auto simp: descs_ok_def src_range_def desc_range_def)
  from gather_kernel_copies [OF _ _ this, of "gather_grid 1 1" 1]
  show ?thesis by simp
qed

subsection \<open>The blob as a byte string\<close>

text \<open>
  The abstract format: header and segments, each padded with zero bytes to a multiple of 16.
\<close>

definition pad16 :: "u8 list \<Rightarrow> u8 list" where
  "pad16 bs = bs @ replicate (round16 (length bs) - length bs) 0"

definition blob_of :: "u8 list list \<Rightarrow> u8 list" where
  "blob_of segs =
     pad16 (le_bytes 4 (length segs) @ concat (map (\<lambda>seg. le_bytes 8 (length seg)) segs)) @
     concat (map pad16 segs)"

lemma length_pad16 [simp]: "length (pad16 bs) = round16 (length bs)"
  using round16_bounds(1) [of "length bs"] by (simp add: pad16_def)

fun slot_offs :: "nat \<Rightarrow> nat list \<Rightarrow> nat list" where
  "slot_offs off [] = []"
| "slot_offs off (s # ss) = off # slot_offs (off + round16 s) ss"

lemma length_slot_offs [simp]: "length (slot_offs off ss) = length ss"
  by (induction ss arbitrary: off) auto

lemma slot_offs_nth:
  "i < length ss \<Longrightarrow> slot_offs off ss ! i = off + sum_list (map round16 (take i ss))"
proof (induction ss arbitrary: off i)
  case (Cons s ss)
  then show ?case by (cases i) auto
qed simp

lemma sum_list_take_nth:
  fixes xs :: "nat list"
  assumes "i < j" "j \<le> length xs"
  shows "sum_list (take i xs) + xs ! i \<le> sum_list (take j xs)"
proof -
  have "take j xs = take (Suc i) xs @ take (j - Suc i) (drop (Suc i) xs)"
    using assms(1) by (metis Suc_leI le_add_diff_inverse take_add)
  moreover have "take (Suc i) xs = take i xs @ [xs ! i]"
    using assms by (simp add: take_Suc_conv_app_nth)
  ultimately show ?thesis by simp
qed

lemma slot_offs_step:
  assumes "i < j" "j < length ss"
  shows "slot_offs off ss ! i + round16 (ss ! i) \<le> slot_offs off ss ! j"
  using assms sum_list_take_nth [of i j "map round16 ss"]
  by (simp add: slot_offs_nth take_map)

lemma slot_offs_end:
  assumes "i < length ss"
  shows "off \<le> slot_offs off ss ! i \<and>
    slot_offs off ss ! i + round16 (ss ! i) \<le> off + sum_list (map round16 ss)"
  using assms sum_list_take_nth [of i "length ss" "map round16 ss"]
  by (simp add: slot_offs_nth take_map)

definition sizes_of :: "output_buffer_info list \<Rightarrow> nat list" where
  "sizes_of outs = map (\<lambda>out. unat (obi_actual_size out)) outs"

definition concat_ok :: "output_buffer_info list \<Rightarrow> bool" where
  "concat_ok outs \<longleftrightarrow> 8 * length outs + 19 < 2 ^ 32 \<and>
     (\<forall>out\<in>set outs. unat (obi_actual_size out) + 15 < 2 ^ 32)"

lemma unat_slot_add:
  assumes "unat s + 15 < 2 ^ 32" "unat off + round16 (unat s) < 2 ^ 64"
  shows "unat (off + slotSize s) = unat off + round16 (unat s)"
  using assms by (simp add: slotSize_def unat_word_ariths align16_small)

lemma concat_descs_nat:
  assumes "\<forall>out\<in>set outs. unat (obi_actual_size out) + 15 < 2 ^ 32"
    and "unat off + sum_list (map round16 (sizes_of outs)) < 2 ^ 64"
  shows "fst (concat_descs base off outs) =
      map (\<lambda>(out, o'). \<lparr>cd_src = obi_d_ptr out, cd_dst = base + o', cd_bytes = obi_actual_size out\<rparr>)
        (zip outs (slot_offs (unat off) (sizes_of outs)))"
    and "unat (snd (concat_descs base off outs)) = unat off + sum_list (map round16 (sizes_of outs))"
  using assms
proof (induction outs arbitrary: off)
  case (Cons out outs)
  case 1
  with Cons.IH(1) [of "off + slotSize (obi_actual_size out)"] show ?case
    by (auto simp: unat_slot_add sizes_of_def split: prod.splits)
next
  case (Cons out outs)
  case 2
  with Cons.IH(2) [of "off + slotSize (obi_actual_size out)"] show ?case
    by (auto simp: unat_slot_add sizes_of_def split: prod.splits)
qed (simp_all add: sizes_of_def)

lemma segment_pointers_nat:
  assumes "\<forall>s\<in>set ss. unat s + 15 < 2 ^ 32"
    and "unat off + sum_list (map (round16 \<circ> unat) ss) < 2 ^ 64"
  shows "segment_pointers base off ss = map ((+) base) (slot_offs (unat off) (map unat ss))"
  using assms
proof (induction ss arbitrary: off)
  case (Cons s ss)
  with Cons.IH [of "off + slotSize s"] show ?case by (simp add: unat_slot_add)
qed simp

lemma calculateConcatSize_descs:
  "calculateConcatSize outs = snd (concat_descs base (headerSize (word_of_nat (length outs))) outs)"
proof -
  have "foldl (\<lambda>t out. t + slotSize (obi_actual_size out)) off outs = snd (concat_descs base off outs)" for off
    by (induction outs arbitrary: off) (auto split: prod.splits)
  then show ?thesis by (simp add: calculateConcatSize_def)
qed

lemma round16_le: "unat s + 15 < 2 ^ 32 \<Longrightarrow> round16 (unat s) < 2 ^ 32"
  using round16_bounds(2) [of "unat s"] by simp

lemma concat_ok_sum:
  assumes "concat_ok outs"
  shows "round16 (4 + 8 * length outs) + sum_list (map round16 (sizes_of outs)) < 2 ^ 64"
proof -
  have "sum_list (map round16 (sizes_of outs)) \<le> length outs * 2 ^ 32"
    if "\<forall>out\<in>set outs. unat (obi_actual_size out) + 15 < 2 ^ 32"
    using that
  proof (induction outs)
    case (Cons out outs)
    then show ?case using round16_le [of "obi_actual_size out"] by (simp add: sizes_of_def)
  qed (simp add: sizes_of_def)
  with assms have "sum_list (map round16 (sizes_of outs)) \<le> length outs * 2 ^ 32"
    by (simp add: concat_ok_def)
  moreover have "round16 (4 + 8 * length outs) < 8 * length outs + 20"
    using round16_bounds(2) [of "4 + 8 * length outs"] by simp
  moreover have "8 * length outs + 19 < 2 ^ 32" using assms by (simp add: concat_ok_def)
  ultimately show ?thesis by simp
qed

lemma unat_headerSize:
  assumes "8 * n + 19 < 2 ^ 32"
  shows "unat (headerSize (word_of_nat n)) = round16 (4 + 8 * n)"
proof -
  have "unat (4 + word_of_nat n * 8 :: size_t) = 4 + 8 * n"
    using assms by (simp add: unat_word_ariths unat_of_nat)
  with assms show ?thesis by (simp add: headerSize_def align16_small)
qed

subsection \<open>Packing implements the format\<close>

definition sources_ok :: "output_buffer_info list \<Rightarrow> dptr \<Rightarrow> bool" where
  "sources_ok outs base \<longleftrightarrow>
     (\<forall>out\<in>set outs. (obi_actual_size out \<noteq> 0 \<longrightarrow> obi_d_ptr out \<noteq> 0) \<and>
       {obi_d_ptr out..<obi_d_ptr out + unat (obi_actual_size out)} \<inter>
       {base..<base + unat (calculateConcatSize outs)} = {})"

definition segments_of :: "dev_mem \<Rightarrow> output_buffer_info list \<Rightarrow> u8 list list" where
  "segments_of m outs = map (\<lambda>out. mem_read m (obi_d_ptr out) (unat (obi_actual_size out))) outs"

lemma concat_header_segments:
  "concat_header outs =
     le_bytes 4 (length (segments_of m outs)) @
     concat (map (\<lambda>seg. le_bytes 8 (length seg)) (segments_of m outs))"
  by (simp add: concat_header_def segments_of_def comp_def)

lemma length_concat_header: "length (concat_header outs) = 4 + 8 * length outs"
  by (simp add: concat_header_def length_concat comp_def sum_list_triv)

lemma unat_calculateConcatSize:
  assumes "concat_ok outs"
  shows "unat (calculateConcatSize outs) =
    round16 (4 + 8 * length outs) + sum_list (map round16 (sizes_of outs))"
proof -
  have h: "unat (headerSize (word_of_nat (length outs))) = round16 (4 + 8 * length outs)"
    using assms by (intro unat_headerSize) (simp add: concat_ok_def)
  show ?thesis
    unfolding calculateConcatSize_descs [of outs 0]
    using concat_descs_nat(2) [of outs "headerSize (word_of_nat (length outs))" 0] assms concat_ok_sum [OF assms] h
    by (simp add: concat_ok_def)
qed

text \<open>
  The descriptors \<open>writeConcatBuffer\<close> builds, read as natural numbers, and what follows for
  the gather kernel run on them.
\<close>

definition concat_desc :: "dptr \<Rightarrow> output_buffer_info list \<Rightarrow> nat \<Rightarrow> copy_desc" where
  "concat_desc base outs i =
     \<lparr>cd_src = obi_d_ptr (outs ! i),
      cd_dst = base + slot_offs (round16 (4 + 8 * length outs)) (sizes_of outs) ! i,
      cd_bytes = obi_actual_size (outs ! i)\<rparr>"

lemma concat_descs_eq:
  assumes "concat_ok outs"
  shows "concat_descs base (headerSize (word_of_nat (length outs))) outs =
    (map (concat_desc base outs) [0..<length outs], calculateConcatSize outs)"
proof (rule prod_eqI)
  have h: "unat (headerSize (word_of_nat (length outs))) = round16 (4 + 8 * length outs)"
    using assms by (intro unat_headerSize) (simp add: concat_ok_def)
  have "fst (concat_descs base (headerSize (word_of_nat (length outs))) outs) =
      map (\<lambda>(out, o'). \<lparr>cd_src = obi_d_ptr out, cd_dst = base + o', cd_bytes = obi_actual_size out\<rparr>)
        (zip outs (slot_offs (round16 (4 + 8 * length outs)) (sizes_of outs)))"
    using concat_descs_nat(1) [of outs "headerSize (word_of_nat (length outs))"] assms
      concat_ok_sum [OF assms] h by (simp add: concat_ok_def)
  then show "fst (concat_descs base (headerSize (word_of_nat (length outs))) outs) =
      fst (map (concat_desc base outs) [0..<length outs], calculateConcatSize outs)"
    by (intro nth_equalityI) (simp_all add: concat_desc_def sizes_of_def)
qed (simp add: calculateConcatSize_descs [of outs base])

lemma concat_desc_range:
  assumes "i < length outs"
  shows "desc_range (concat_desc base outs i) \<subseteq>
    {base + slot_offs (round16 (4 + 8 * length outs)) (sizes_of outs) ! i..<
     base + slot_offs (round16 (4 + 8 * length outs)) (sizes_of outs) ! i + round16 (sizes_of outs ! i)}"
  using assms round16_bounds(1) [of "unat (obi_actual_size (outs ! i))"]
  by (auto simp: desc_range_def concat_desc_def sizes_of_def)

lemma concat_descs_ok:
  assumes "concat_ok outs" "sources_ok outs base" "0 < base"
  shows "descs_ok (map (concat_desc base outs) [0..<length outs])"
  unfolding descs_ok_def
proof (intro conjI ballI allI impI)
  let ?o = "slot_offs (round16 (4 + 8 * length outs)) (sizes_of outs)"
  have len: "length (sizes_of outs) = length outs" by (simp add: sizes_of_def)
  fix d assume d: "d \<in> set (map (concat_desc base outs) [0..<length outs])"
  { assume "cd_bytes d \<noteq> 0"
    with d assms show "cd_src d \<noteq> 0" "cd_dst d \<noteq> 0"
      by (auto simp: concat_desc_def sources_ok_def) }
  fix e assume "e \<in> set (map (concat_desc base outs) [0..<length outs])"
  then obtain j where j: "j < length outs" "e = concat_desc base outs j" by auto
  have "desc_range e \<subseteq> {base..<base + unat (calculateConcatSize outs)}"
  proof -
    have "?o ! j + round16 (sizes_of outs ! j) \<le> unat (calculateConcatSize outs)"
      using slot_offs_end [of j "sizes_of outs"] j(1) len by (simp add: unat_calculateConcatSize [OF assms(1)])
    with concat_desc_range [OF j(1), of base] show ?thesis unfolding j(2) by fastforce
  qed
  moreover have "src_range d \<inter> {base..<base + unat (calculateConcatSize outs)} = {}"
    using d assms(2) by (auto simp: src_range_def concat_desc_def sources_ok_def)
  ultimately show "src_range d \<inter> desc_range e = {}" by blast
next
  let ?o = "slot_offs (round16 (4 + 8 * length outs)) (sizes_of outs)"
  fix i j assume "j < length (map (concat_desc base outs) [0..<length outs])" "i < j"
  then have ij: "i < length outs" "j < length outs" "i < j" by auto
  have "?o ! i + round16 (sizes_of outs ! i) \<le> ?o ! j"
    using ij by (intro slot_offs_step) (simp_all add: sizes_of_def)
  with concat_desc_range [OF ij(1), of base] concat_desc_range [OF ij(2), of base]
  have "desc_range (concat_desc base outs i) \<inter> desc_range (concat_desc base outs j) = {}"
    by fastforce
  with ij show "desc_range (map (concat_desc base outs) [0..<length outs] ! i) \<inter>
      desc_range (map (concat_desc base outs) [0..<length outs] ! j) = {}" by simp
qed

lemma mem_read_slots:
  assumes "length segs = length ss"
    and "\<And>i. i < length ss \<Longrightarrow> mem_read m (base + slot_offs off ss ! i) (round16 (ss ! i)) = pad16 (segs ! i)"
  shows "mem_read m (base + off) (sum_list (map round16 ss)) = concat (map pad16 segs)"
  using assms
proof (induction ss arbitrary: off segs)
  case Nil
  then show ?case by (simp add: mem_read_def)
next
  case (Cons s ss)
  from Cons.prems(1) obtain sg sgs where segs: "segs = sg # sgs" "length sgs = length ss"
    by (metis length_Suc_conv)
  have "mem_read m (base + (off + round16 s)) (sum_list (map round16 ss)) = concat (map pad16 sgs)"
    using Cons.prems(2) [of "Suc _"] segs by (intro Cons.IH) auto
  moreover have "mem_read m (base + off) (round16 s) = pad16 sg"
    using Cons.prems(2) [of 0] segs by simp
  ultimately show ?case using segs by (simp add: mem_read_append add.assoc)
qed

lemma writeConcatBuffer_blob:
  assumes ok: "concat_ok outs" "sources_ok outs base" "0 < base"
    and sched: "set schedule = set (gather_grid (length outs) 256)"
    and w: "writeConcatBuffer outs base schedule (mem_set m base 0 (unat (calculateConcatSize outs))) = (sz, m')"
  shows "sz = calculateConcatSize outs"
    and "mem_read m' base (unat sz) = blob_of (segments_of m outs)"
    and "a \<notin> {base..<base + unat sz} \<Longrightarrow> m' a = m a"
proof -
  let ?n = "length outs" and ?h = "round16 (4 + 8 * length outs)"
  let ?o = "slot_offs ?h (sizes_of outs)" and ?tot = "unat (calculateConcatSize outs)"
  let ?ds = "map (concat_desc base outs) [0..<?n]"
  define m2 where "m2 = mem_write (mem_set m base 0 ?tot) base (concat_header outs)"
  have m': "m' = gather_kernel ?ds 256 schedule m2" and sz: "sz = calculateConcatSize outs"
    using w by (auto simp: writeConcatBuffer_def concat_descs_eq [OF ok(1)] m2_def Let_def)
  have tot: "?tot = ?h + sum_list (map round16 (sizes_of outs))"
    by (rule unat_calculateConcatSize [OF ok(1)])
  have hlen: "4 + 8 * ?n \<le> ?h" by (rule round16_bounds)
  have len: "length (sizes_of outs) = ?n" by (simp add: sizes_of_def)
  have m2_out: "m2 a = m a" if "a \<notin> {base..<base + ?tot}" for a
    using that hlen tot by (auto simp: m2_def mem_write_def mem_set_def length_concat_header)
  have m2_pad: "m2 a = 0" if "base + (4 + 8 * ?n) \<le> a" "a < base + ?tot" for a
    using that by (auto simp: m2_def mem_write_def mem_set_def length_concat_header)
  have sched': "set schedule = set (gather_grid (length ?ds) 256)" using sched by simp
  note seg = gather_kernel_seg [OF sched' _ concat_descs_ok [OF ok], of _ m2, folded m']
  note frame = gather_kernel_frame [OF sched' _ concat_descs_ok [OF ok], of _ m2, folded m']
  have slot_end: "?h \<le> ?o ! i" "?o ! i + round16 (sizes_of outs ! i) \<le> ?tot" if "i < ?n" for i
    using slot_offs_end [of i "sizes_of outs" ?h] that len tot by auto
  have range_ge: "desc_range d \<subseteq> {base + ?h..<base + ?tot}" if "d \<in> set ?ds" for d
  proof -
    from that obtain j where j: "j < ?n" "d = concat_desc base outs j" by auto
    with concat_desc_range [OF j(1), of base] slot_end [OF j(1)] show ?thesis by fastforce
  qed
  have outside: "\<forall>d\<in>set ?ds. b \<notin> desc_range d" if "b \<notin> {base + ?h..<base + ?tot}" for b
    using range_ge that by blast
  show "sz = calculateConcatSize outs" by (rule sz)
  show "m' a = m a" if "a \<notin> {base..<base + unat sz}"
  proof -
    have "m' a = m2 a" using that sz by (intro frame outside) auto
    with m2_out that sz show ?thesis by simp
  qed
  have hdr: "mem_read m' base ?h = pad16 (concat_header outs)"
  proof (rule nth_equalityI)
    fix k assume "k < length (mem_read m' base ?h)"
    then have k: "k < ?h" by simp
    have "m' (base + k) = m2 (base + k)"
      using k by (intro frame outside) auto
    also have "\<dots> = pad16 (concat_header outs) ! k"
      using k tot by (auto simp: m2_def mem_write_def mem_set_def length_concat_header pad16_def nth_append)
    finally show "mem_read m' base ?h ! k = pad16 (concat_header outs) ! k" using k by simp
  qed (simp add: length_concat_header)
  have slots: "mem_read m' (base + ?h) (sum_list (map round16 (sizes_of outs))) =
      concat (map pad16 (segments_of m outs))"
  proof (rule mem_read_slots)
    fix i assume "i < length (sizes_of outs)"
    then have i: "i < ?n" by (simp add: sizes_of_def)
    let ?d = "concat_desc base outs i" and ?s = "sizes_of outs ! i"
    have s: "?s = unat (cd_bytes ?d)" "cd_dst ?d = base + ?o ! i"
      using i by (simp_all add: concat_desc_def sizes_of_def)
    have d: "?d \<in> set ?ds" using i by simp
    have "mem_read m' (base + ?o ! i) ?s = mem_read m2 (cd_src ?d) ?s"
      using seg [OF _ d] s by simp
    also have "\<dots> = segments_of m outs ! i"
    proof -
      have "outs ! i \<in> set outs" using i by simp
      with ok(2) have "{obi_d_ptr (outs ! i)..<obi_d_ptr (outs ! i) + ?s} \<inter> {base..<base + ?tot} = {}"
        using i by (auto simp: sources_ok_def sizes_of_def)
      then have "mem_read m2 (cd_src ?d) ?s = mem_read m (cd_src ?d) ?s"
        by (intro mem_read_cong m2_out) (auto simp: concat_desc_def)
      then show ?thesis using i by (simp add: segments_of_def concat_desc_def sizes_of_def)
    qed
    finally have data: "mem_read m' (base + ?o ! i) ?s = segments_of m outs ! i" .
    have pad: "mem_read m' (base + ?o ! i + ?s) (round16 ?s - ?s) = replicate (round16 ?s - ?s) 0"
    proof (rule nth_equalityI)
      fix k assume "k < length (mem_read m' (base + ?o ! i + ?s) (round16 ?s - ?s))"
      then have k: "k < round16 ?s - ?s" by simp
      let ?a = "base + ?o ! i + ?s + k"
      have "?a \<notin> desc_range (concat_desc base outs j)" if j: "j < ?n" for j
      proof (cases j i rule: linorder_cases)
        case less
        with slot_offs_step [of j i "sizes_of outs" ?h] concat_desc_range [OF j, of base] i len
        show ?thesis by fastforce
      next
        case equal
        then show ?thesis using s by (simp add: desc_range_def)
      next
        case greater
        with slot_offs_step [of i j "sizes_of outs" ?h] concat_desc_range [OF j, of base] j len k
        show ?thesis by fastforce
      qed
      then have "m' ?a = m2 ?a" by (intro frame) auto
      also have "\<dots> = 0" using slot_end [OF i] k hlen by (intro m2_pad) auto
      finally show "mem_read m' (base + ?o ! i + ?s) (round16 ?s - ?s) ! k = replicate (round16 ?s - ?s) 0 ! k"
        using k by simp
    qed simp
    have sl: "length (segments_of m outs ! i) = ?s" using i by (simp add: segments_of_def sizes_of_def)
    have "mem_read m' (base + ?o ! i) (?s + (round16 ?s - ?s)) = pad16 (segments_of m outs ! i)"
      unfolding mem_read_append pad16_def sl data pad by simp
    then show "mem_read m' (base + ?o ! i) (round16 ?s) = pad16 (segments_of m outs ! i)"
      using round16_bounds(1) [of ?s] by simp
  qed (simp add: segments_of_def sizes_of_def)
  show "mem_read m' base (unat sz) = blob_of (segments_of m outs)"
    unfolding sz tot mem_read_append hdr slots blob_of_def concat_header_segments [of outs m] ..
qed

lemma concatOutputs_memory:
  assumes "concatOutputs alloc outs schedule buf m = Inr (p, sz, buf', m')"
  shows "calculateConcatSize outs \<le> pb_capacity buf'"
    and "writeConcatBuffer outs p schedule (mem_set m p 0 (unat (calculateConcatSize outs))) = (sz, m')"
  using assms
  by (auto simp: concatOutputs_def Let_def res_bind_eq_Inr not_less split: if_splits option.splits prod.splits)

text \<open>
  C5. \<open>concatOutputs\<close> implements the format for segments below 4 GiB: when it succeeds on fewer than \<open>2 ^ 29 - 2\<close> outputs, each
  with its size plus 15 below \<open>2 ^ 32\<close> (from there on \<open>align16\<close> cuts the slot size off, and the property does not hold), with
  sources outside the blob, then for any order of the threads of the gather kernel and whatever the recycled pool buffer held
  before, the bytes of the blob are \<open>blob_of\<close> the output segments (so equal segments give byte-identical blobs), the
  reported size is \<open>calculateConcatSize\<close>, and nothing outside the concat buffer changes.
\<close>

theorem concatOutputs_blob:
  assumes "concatOutputs alloc outs schedule buf m = Inr (p, sz, buf', m')"
    and "concat_ok outs" and "sources_ok outs p" and "0 < p"
    and "set schedule = set (gather_grid (length outs) 256)"
  shows "sz = calculateConcatSize outs \<and> sz \<le> pb_capacity buf' \<and>
    mem_read m' p (unat sz) = blob_of (segments_of m outs) \<and>
    (\<forall>a. a \<notin> {p..<p + unat sz} \<longrightarrow> m' a = m a)"
  using writeConcatBuffer_blob [OF assms(2-5) concatOutputs_memory(2) [OF assms(1)]]
    concatOutputs_memory(1) [OF assms(1)] by simp

definition wit_outs :: "output_buffer_info list" where
  "wit_outs = [\<lparr>obi_buffer_id = 3, obi_d_ptr = 16, obi_actual_size = 5, obi_stage_name = ''a'', obi_output_name = ''o''\<rparr>,
     \<lparr>obi_buffer_id = 4, obi_d_ptr = 32, obi_actual_size = 2, obi_stage_name = ''b'', obi_output_name = ''o''\<rparr>]"

lemma wit_outs_ok:
  "calculateConcatSize wit_outs = 64" "concat_ok wit_outs" "sources_ok wit_outs 256"
  "length wit_outs = 2"
  by (simp_all add: wit_outs_def concat_ok_def sources_ok_def calculateConcatSize_def headerSize_def
      slotSize_def align16_def)

theorem concatOutputs_blob_witness:
  "\<exists>p sz buf' m'. concatOutputs (\<lambda>n. Some 256) wit_outs (gather_grid 2 256) \<lparr>pb_ptr = 0, pb_capacity = 0\<rparr>
      word_of_nat = Inr (p, sz, buf', m') \<and>
    mem_read m' p (unat sz) = blob_of (segments_of word_of_nat wit_outs)"
proof -
  obtain m' sz where r: "concatOutputs (\<lambda>n. Some 256) wit_outs (gather_grid 2 256)
      \<lparr>pb_ptr = 0, pb_capacity = 0\<rparr> word_of_nat = Inr (256, sz, \<lparr>pb_ptr = 256, pb_capacity = 64\<rparr>, m')"
    by (cases "writeConcatBuffer wit_outs 256 (gather_grid 2 256) (mem_set word_of_nat 256 0 64)")
      (simp add: concatOutputs_def wit_outs_ok)
  from concatOutputs_blob [OF r wit_outs_ok(2,3)] have "mem_read m' 256 (unat sz) = blob_of (segments_of word_of_nat wit_outs)"
    by (auto simp: wit_outs_ok)
  with r show ?thesis by blast
qed

subsection \<open>Unpacking\<close>

lemma mem_read_sub:
  assumes "off + k \<le> n"
  shows "mem_read m (p + off) k = take k (drop off (mem_read m p n))"
  using assms by (intro nth_equalityI) (auto simp: add.assoc)

lemma take_drop_concat:
  assumes "i < length xs"
  shows "take (length (f (xs ! i))) (drop (sum_list (map (length \<circ> f) (take i xs))) (concat (map f xs))) = f (xs ! i)"
proof -
  have "concat (map f xs) = concat (map f (take i xs)) @ f (xs ! i) @ concat (map f (drop (Suc i) xs))"
    using id_take_nth_drop [OF assms] by (metis concat.simps(2) concat_append list.simps(9) map_append)
  moreover have "length (concat (map f (take i xs))) = sum_list (map (length \<circ> f) (take i xs))"
    by (simp add: length_concat)
  ultimately show ?thesis by (metis append_eq_conv_conj)
qed

lemma take_drop_concat_fixed:
  assumes "i < length xs" "\<And>x. length (f x) = w"
  shows "take w (drop (w * i) (concat (map f xs))) = f (xs ! i)"
  using take_drop_concat [OF assms(1), of f] assms by (simp add: comp_def sum_list_triv mult.commute)

lemma drop_length_add: "drop (length xs + k) (xs @ ys) = drop k ys"
  by simp

definition segs_ok :: "u8 list list \<Rightarrow> bool" where
  "segs_ok segs \<longleftrightarrow> 8 * length segs + 19 < 2 ^ 32 \<and> (\<forall>seg\<in>set segs. length seg + 15 < 2 ^ 32)"

lemma blob_segment:
  assumes "i < length segs"
  shows "take (length (segs ! i)) (drop (slot_offs (round16 (4 + 8 * length segs)) (map length segs) ! i)
      (blob_of segs)) = segs ! i"
proof -
  let ?h = "le_bytes 4 (length segs) @ concat (map (\<lambda>seg. le_bytes 8 (length seg)) segs)"
  let ?s = "sum_list (map (length \<circ> pad16) (take i segs))"
  have h: "length ?h = 4 + 8 * length segs" by (simp add: length_concat comp_def sum_list_triv)
  have o: "slot_offs (round16 (4 + 8 * length segs)) (map length segs) ! i = length (pad16 ?h) + ?s"
    using assms by (simp only: length_pad16 h slot_offs_nth length_map) (simp add: take_map comp_def)
  have "take (length (segs ! i)) (drop ?s (concat (map pad16 segs))) =
      take (length (segs ! i)) (take (length (pad16 (segs ! i))) (drop ?s (concat (map pad16 segs))))"
    using round16_bounds(1) by (simp add: min_def)
  also have "\<dots> = segs ! i" unfolding take_drop_concat [OF assms, of pad16] by (simp add: pad16_def)
  finally show ?thesis unfolding o blob_of_def drop_length_add .
qed

lemma length_blob_of:
  "length (blob_of segs) = round16 (4 + 8 * length segs) + sum_list (map (round16 \<circ> length) segs)"
  by (simp add: blob_of_def length_concat comp_def sum_list_triv mult.commute)

lemma readConcatSegmentSizes_blob:
  assumes "segs_ok segs" "mem_read m p (length (blob_of segs)) = blob_of segs"
  shows "readConcatSegmentSizes m p (length segs) = Inr (map (\<lambda>seg. word_of_nat (length seg)) segs)"
proof -
  let ?n = "length segs" and ?e = "\<lambda>seg. le_bytes 8 (length seg)"
  have h: "length (le_bytes 4 ?n @ concat (map ?e segs)) = 4 + 8 * ?n"
    by (simp add: length_concat comp_def sum_list_triv)
  have "4 + 8 * ?n \<le> length (blob_of segs)"
    using round16_bounds(1) [of "4 + 8 * ?n"] unfolding length_blob_of by linarith
  then have "mem_read m p (4 + ?n * 8) = take (4 + 8 * ?n) (blob_of segs)"
    using mem_read_sub [of 0 "4 + 8 * ?n" _ m p] assms(2) by (simp add: mult.commute)
  also have "\<dots> = le_bytes 4 ?n @ concat (map ?e segs)"
  proof -
    define H where "H = le_bytes 4 ?n @ concat (map ?e segs)"
    have "take (length H) (blob_of segs) = H"
      unfolding blob_of_def H_def [symmetric] by (simp add: pad16_def)
    then show ?thesis using h unfolding H_def by simp
  qed
  finally have host: "mem_read m p (4 + ?n * 8) = le_bytes 4 ?n @ concat (map ?e segs)" .
  have seg: "take 8 (drop (4 + 8 * i) (le_bytes 4 ?n @ concat (map ?e segs))) = ?e (segs ! i)" if "i < ?n" for i
    using take_drop_concat_fixed [OF that, of ?e 8] by simp
  have val: "le_val (?e seg) = length seg" if "seg \<in> set segs" for seg
    using assms(1) that by (auto simp: le_val_le_bytes segs_ok_def)
  have cnt: "le_val (le_bytes 4 ?n) = ?n"
    using assms(1) by (simp add: le_val_le_bytes segs_ok_def)
  have "map (\<lambda>i. word_of_nat (le_val (take 8 (drop (4 + 8 * i) (le_bytes 4 ?n @ concat (map ?e segs)))))) [0..<?n]
      = map (\<lambda>i. word_of_nat (length (segs ! i)) :: size_t) [0..<?n]"
    using seg val by (intro map_cong) (simp_all only: set_upt atLeastLessThan_iff nth_mem)
  also have "\<dots> = map (\<lambda>seg. word_of_nat (length seg)) segs"
    by (rule nth_equalityI) simp_all
  finally show ?thesis
    unfolding readConcatSegmentSizes_def host Let_def by (simp add: cnt)
qed

lemma map_pointers_fold:
  assumes "\<And>b sz. (b, sz) \<in> set xs \<Longrightarrow> ptrs b \<noteq> None"
  shows "res_fold (\<lambda>(b, sz) po. res_bind (case ptrs b of Some p \<Rightarrow> Inr p | None \<Rightarrow> dag_getBuffer bufs b)
      (\<lambda>p. Inr (po(b \<mapsto> (p, sz))))) xs po = Inr (po ++ map_of (rev (map (\<lambda>(b, sz). (b, the (ptrs b), sz)) xs)))"
  using assms
proof (induction xs arbitrary: po)
  case (Cons x xs)
  obtain b sz where x: "x = (b, sz)" by (cases x)
  obtain p where p: "ptrs b = Some p" using Cons.prems x by fastforce
  have IH: "\<And>po. res_fold (\<lambda>(b, sz) po. res_bind (case ptrs b of Some p \<Rightarrow> Inr p | None \<Rightarrow> dag_getBuffer bufs b)
      (\<lambda>p. Inr (po(b \<mapsto> (p, sz))))) xs po = Inr (po ++ map_of (rev (map (\<lambda>(b, sz). (b, the (ptrs b), sz)) xs)))"
    using Cons.prems by (intro Cons.IH) auto
  show ?case unfolding x res_fold.simps prod.case p option.case res_bind_simps IH by (simp add: p)
qed simp

lemma map_of_rev_zip:
  "distinct ids \<Longrightarrow> length ids = length vs \<Longrightarrow> i < length ids \<Longrightarrow> map_of (rev (zip ids vs)) (ids ! i) = Some (vs ! i)"
  by (rule map_of_is_SomeI) (auto simp: rev_map [symmetric] in_set_zip)

lemma mapCompressedBufferPointers_blob:
  assumes ok: "segs_ok segs" and blob: "mem_read m p (length (blob_of segs)) = blob_of segs" and "0 < p"
    and ids: "distinct ids" "length ids = length segs"
  shows "\<exists>po. mapCompressedBufferPointers True p bufs ids (map (\<lambda>seg. word_of_nat (length seg)) segs) = Inr po \<and>
    (\<forall>i<length segs. \<exists>q. po (ids ! i) = Some (q, word_of_nat (length (segs ! i))) \<and>
       mem_read m q (length (segs ! i)) = segs ! i)"
proof -
  let ?n = "length segs" and ?ss = "map (\<lambda>seg. word_of_nat (length seg) :: size_t) segs"
  let ?o = "slot_offs (round16 (4 + 8 * ?n)) (map length segs)"
  have sz: "unat (word_of_nat (length seg) :: size_t) = length seg" if "seg \<in> set segs" for seg
    using ok that by (auto simp: segs_ok_def unat_of_nat)
  then have unat_ss: "map unat ?ss = map length segs" by simp
  define outs where "outs = map (\<lambda>s. \<lparr>obi_buffer_id = 0, obi_d_ptr = 0, obi_actual_size = s,
      obi_stage_name = [], obi_output_name = []\<rparr>) ?ss"
  have "concat_ok outs" "sizes_of outs = map length segs" "length outs = ?n"
    using ok sz by (auto simp: concat_ok_def segs_ok_def outs_def sizes_of_def)
  with concat_ok_sum [of outs] have sum: "round16 (4 + 8 * ?n) + sum_list (map (round16 \<circ> length) segs) < 2 ^ 64"
    by (simp add: comp_def)
  define ptrs where "ptrs = segment_pointers p (headerSize (word_of_nat ?n)) ?ss"
  have ptrs: "ptrs = map ((+) p) ?o"
  proof -
    have h: "unat (headerSize (word_of_nat ?n)) = round16 (4 + 8 * ?n)"
      using ok by (intro unat_headerSize) (simp add: segs_ok_def)
    have e: "map (round16 \<circ> unat) ?ss = map (round16 \<circ> length) segs" using sz by simp
    have "unat (headerSize (word_of_nat ?n)) + sum_list (map (round16 \<circ> unat) ?ss) < 2 ^ 64"
      unfolding e h by (rule sum)
    moreover have "\<forall>s\<in>set ?ss. unat s + 15 < 2 ^ 32" using ok sz by (auto simp: segs_ok_def)
    ultimately show ?thesis
      unfolding ptrs_def using segment_pointers_nat [of ?ss "headerSize (word_of_nat ?n)" p, unfolded h unat_ss] h
      by simp
  qed
  let ?cp = "map_of (rev (zip ids ptrs))"
  have look: "?cp (ids ! i) = Some (p + ?o ! i)" if "i < ?n" for i
    using that ids by (subst map_of_rev_zip) (simp_all add: ptrs)
  let ?xs = "zip ids ?ss"
  have "?cp b \<noteq> None" if "(b, s) \<in> set ?xs" for b s
    using that look ids by (auto simp: in_set_zip)
  note fold = map_pointers_fold [of ?xs ?cp bufs Map.empty, OF this]
  have "map (\<lambda>(b, s). (b, the (?cp b), s)) ?xs = zip ids (zip (map ((+) p) ?o) ?ss)"
    using ids look by (intro nth_equalityI) simp_all
  with fold have po: "mapCompressedBufferPointers True p bufs ids ?ss =
      Inr (map_of (rev (zip ids (zip (map ((+) p) ?o) ?ss))))"
    using \<open>0 < p\<close> ids(2) by (simp add: mapCompressedBufferPointers_def compressed_pointers_def ptrs_def)
  have "mem_read m (p + ?o ! i) (length (segs ! i)) = segs ! i" if i: "i < ?n" for i
  proof -
    have "?o ! i + length (segs ! i) \<le> length (blob_of segs)"
      using slot_offs_end [of i "map length segs" "round16 (4 + 8 * ?n)"] i
        round16_bounds(1) [of "length (segs ! i)"] by (simp add: length_blob_of)
    from mem_read_sub [OF this, of m p] show ?thesis using blob blob_segment [OF i] by simp
  qed
  then have "\<forall>i<?n. \<exists>q. map_of (rev (zip ids (zip (map ((+) p) ?o) ?ss))) (ids ! i) =
      Some (q, word_of_nat (length (segs ! i))) \<and> mem_read m q (length (segs ! i)) = segs ! i"
    using ids by (simp add: map_of_rev_zip)
  with po show ?thesis by blast
qed

text \<open>
  C2. Packing and unpacking round-trip below 4 GiB: if \<open>concatOutputs\<close> succeeded on fewer than \<open>2 ^ 29 - 2\<close> outputs with pairwise
  different buffer ids, each with its size plus 15 below \<open>2 ^ 32\<close> (from there on \<open>align16\<close> cuts the slot size off), with
  sources outside the blob, and the gather kernel ran all its threads in some order, then reading the header of the blob gives
  back every segment size, and the pointers \<open>mapCompressedBufferPointers\<close> computes from them reach exactly the bytes of
  each output segment.
\<close>

theorem concat_roundtrip:
  assumes "concatOutputs alloc outs schedule buf m = Inr (p, sz, buf', m')"
    and "concat_ok outs" and "sources_ok outs p" and "0 < p"
    and "set schedule = set (gather_grid (length outs) 256)"
    and "distinct (map obi_buffer_id outs)"
  shows "readConcatSegmentSizes m' p (length outs) = Inr (map obi_actual_size outs) \<and>
    (\<exists>po. mapCompressedBufferPointers True p bufs (map obi_buffer_id outs) (map obi_actual_size outs) = Inr po \<and>
      (\<forall>out\<in>set outs. \<exists>q. po (obi_buffer_id out) = Some (q, obi_actual_size out) \<and>
         mem_read m' q (unat (obi_actual_size out)) = mem_read m (obi_d_ptr out) (unat (obi_actual_size out))))"
proof -
  let ?segs = "segments_of m outs"
  note w = writeConcatBuffer_blob [OF assms(2-5) concatOutputs_memory(2) [OF assms(1)]]
  have ok: "segs_ok ?segs" using assms(2) by (auto simp: concat_ok_def segs_ok_def segments_of_def)
  have "length (blob_of ?segs) = unat sz" using w(2) by (metis length_mem_read)
  with w(2) have blob: "mem_read m' p (length (blob_of ?segs)) = blob_of ?segs" by simp
  have ss: "map (\<lambda>seg. word_of_nat (length seg)) ?segs = map obi_actual_size outs"
    by (simp add: segments_of_def)
  have len: "length ?segs = length outs" by (simp add: segments_of_def)
  have seg: "?segs ! i = mem_read m (obi_d_ptr (outs ! i)) (unat (obi_actual_size (outs ! i)))"
    "word_of_nat (length (?segs ! i)) = obi_actual_size (outs ! i)" if "i < length outs" for i
    using that by (simp_all add: segments_of_def)
  from mapCompressedBufferPointers_blob [OF ok blob assms(4,6), of bufs] len ss obtain po where
    po: "mapCompressedBufferPointers True p bufs (map obi_buffer_id outs) (map obi_actual_size outs) = Inr po"
    and q: "\<forall>i<length outs. \<exists>q. po (map obi_buffer_id outs ! i) = Some (q, word_of_nat (length (?segs ! i))) \<and>
       mem_read m' q (length (?segs ! i)) = ?segs ! i" by (auto simp: len)
  have "\<exists>q. po (obi_buffer_id out) = Some (q, obi_actual_size out) \<and>
         mem_read m' q (unat (obi_actual_size out)) = mem_read m (obi_d_ptr out) (unat (obi_actual_size out))"
    if "out \<in> set outs" for out
    using that q seg by (auto simp: in_set_conv_nth)
  with po show ?thesis using readConcatSegmentSizes_blob [OF ok blob] by (auto simp: len ss)
qed

theorem concat_roundtrip_witness:
  "\<exists>p sz buf' m'. concatOutputs (\<lambda>n. Some 256) wit_outs (gather_grid 2 256) \<lparr>pb_ptr = 0, pb_capacity = 0\<rparr>
      word_of_nat = Inr (p, sz, buf', m') \<and> readConcatSegmentSizes m' p 2 = Inr [5, 2]"
proof -
  obtain m' sz where r: "concatOutputs (\<lambda>n. Some 256) wit_outs (gather_grid 2 256)
      \<lparr>pb_ptr = 0, pb_capacity = 0\<rparr> word_of_nat = Inr (256, sz, \<lparr>pb_ptr = 256, pb_capacity = 64\<rparr>, m')"
    by (cases "writeConcatBuffer wit_outs 256 (gather_grid 2 256) (mem_set word_of_nat 256 0 64)")
      (simp add: concatOutputs_def wit_outs_ok)
  have "distinct (map obi_buffer_id wit_outs)" "map obi_actual_size wit_outs = [5, 2]"
    by (simp_all add: wit_outs_def)
  with concat_roundtrip [OF r wit_outs_ok(2,3), of Map.empty] have "readConcatSegmentSizes m' 256 2 = Inr [5, 2]"
    by (simp add: wit_outs_ok)
  with r show ?thesis by blast
qed

end
