(* ===== verification/Mempool.thy ===== *)
theory Mempool
  imports Prelude "HOL-Library.AList" "HOL-Library.Multiset"
begin

section \<open>MemoryPool\<close>

text \<open>
  \<open>include/mem/mempool.h\<close> and \<open>src/mem/mempool.cpp\<close>.  The two \<open>unordered_map\<close>s from pointers to
  allocation records are association lists with distinct keys (iteration order never matters
  below); byte counters are \<open>size_t\<close> and wrap.  The CUDA runtime is a parameter: \<open>drv live n\<close> is its
  answer to a request for \<open>n\<close> bytes while the pointers \<open>live\<close> are in use (\<open>None\<close> for an error
  code), and \<open>scale n f\<close> is the conversion \<open>static_cast<size_t>(n * f)\<close> of \<open>getPoolSize\<close>, with the float
  given by its bit pattern.  The CUDA calls an operation issues are returned as a list, in
  order; a failed free is only logged by the source, so it has no other effect.
\<close>

subsection \<open>State\<close>

record alloc_info =
  ai_ptr :: dptr
  ai_size :: size_t
  ai_tag :: string
  ai_in_use :: bool

record persistent_alloc =
  pa_ptr :: dptr
  pa_bytes :: size_t
  pa_tag :: string
  pa_is_pinned :: bool

record pool_config =
  input_data_size :: size_t
  pool_size_multiplier :: u32
  device_id :: int
  enable_reuse :: bool
  force_fallback :: bool

record pool =
  config :: pool_config
  has_mem_pool :: bool
  allocations :: "(dptr \<times> alloc_info) list"
  graph_allocations :: "(dptr \<times> alloc_info) list"
  persistent_allocs :: "persistent_alloc list"
  persistent_device_bytes :: size_t
  persistent_pinned_bytes :: size_t
  total_allocations :: size_t
  total_frees :: size_t
  current_allocated_bytes :: size_t
  overflow_warned :: bool
  initialized :: bool

datatype cuda_call =
    CudaFreeAsync dptr
  | CudaFree dptr
  | CudaFreeHost dptr
  | CudaStreamSynchronize
  | CudaDeviceSynchronize
  | CudaMemPoolDestroy

type_synonym driver = "dptr list \<Rightarrow> size_t \<Rightarrow> dptr option"

subsection \<open>Operations\<close>

definition getPoolSize :: "(size_t \<Rightarrow> u32 \<Rightarrow> size_t) \<Rightarrow> pool_config \<Rightarrow> size_t" where
  "getPoolSize scale c =
     (if input_data_size c = 0 then 1024 * 1024 * 1024
      else scale (input_data_size c) (pool_size_multiplier c))"

text \<open>\<open>env\<close>: whether \<open>FZ_FORCE_MEMPOOL_FALLBACK\<close> is set; \<open>create_ok\<close>: \<open>cudaMemPoolCreate\<close> succeeded.\<close>

definition initializeMemPool :: "pool_config \<Rightarrow> bool \<Rightarrow> bool \<Rightarrow> bool" where
  "initializeMemPool c env create_ok = (if force_fallback c \<or> env then False else create_ok)"

definition make_pool :: "pool_config \<Rightarrow> bool \<Rightarrow> bool \<Rightarrow> pool" where
  "make_pool c env create_ok =
     \<lparr>config = c, has_mem_pool = initializeMemPool c env create_ok, allocations = [],
      graph_allocations = [], persistent_allocs = [], persistent_device_bytes = 0,
      persistent_pinned_bytes = 0, total_allocations = 0, total_frees = 0,
      current_allocated_bytes = 0, overflow_warned = False, initialized = True\<rparr>"

definition live_ptrs :: "pool \<Rightarrow> dptr list" where
  "live_ptrs p = map fst (allocations p) @ map fst (graph_allocations p) @ map pa_ptr (persistent_allocs p)"

definition pool_allocate ::
  "driver \<Rightarrow> (size_t \<Rightarrow> u32 \<Rightarrow> size_t) \<Rightarrow> size_t \<Rightarrow> string \<Rightarrow> bool \<Rightarrow> pool \<Rightarrow> dptr \<times> pool" where
  "pool_allocate drv scale sz tag persistent p =
     (if sz = 0 then (0, p)
      else case drv (live_ptrs p) sz of
             None \<Rightarrow> (0, p)
           | Some ptr \<Rightarrow>
             (let info = \<lparr>ai_ptr = ptr, ai_size = sz, ai_tag = tag, ai_in_use = True\<rparr>;
                  p1 = (if persistent
                        then p\<lparr>graph_allocations := AList.update ptr info (graph_allocations p)\<rparr>
                        else p\<lparr>allocations := AList.update ptr info (allocations p)\<rparr>);
                  cur = current_allocated_bytes p + sz
              in (ptr, p1\<lparr>total_allocations := total_allocations p + 1,
                          current_allocated_bytes := cur,
                          overflow_warned := overflow_warned p \<or> getPoolSize scale (config p) < cur\<rparr>)))"

definition free_calls :: "pool \<Rightarrow> dptr \<Rightarrow> cuda_call list" where
  "free_calls p ptr = (if has_mem_pool p then [CudaFreeAsync ptr] else [CudaStreamSynchronize, CudaFree ptr])"

definition pool_free :: "dptr \<Rightarrow> pool \<Rightarrow> cuda_call list \<times> pool" where
  "pool_free ptr p =
     (if ptr = 0 then ([], p)
      else case map_of (allocations p) ptr of
             Some info \<Rightarrow>
               (free_calls p ptr,
                p\<lparr>current_allocated_bytes := current_allocated_bytes p - ai_size info,
                  allocations := AList.delete ptr (allocations p),
                  total_frees := total_frees p + 1\<rparr>)
           | None \<Rightarrow>
             (case map_of (graph_allocations p) ptr of
                Some info \<Rightarrow>
                  (free_calls p ptr,
                   p\<lparr>current_allocated_bytes := current_allocated_bytes p - ai_size info,
                     graph_allocations := AList.delete ptr (graph_allocations p),
                     total_frees := total_frees p + 1\<rparr>)
              | None \<Rightarrow> ([], p)))"

definition allocatePersistentDevice :: "driver \<Rightarrow> size_t \<Rightarrow> string \<Rightarrow> pool \<Rightarrow> dptr \<times> pool" where
  "allocatePersistentDevice drv bytes tag p =
     (if bytes = 0 then (0, p)
      else case drv (live_ptrs p) bytes of
             None \<Rightarrow> (0, p)
           | Some ptr \<Rightarrow>
               (ptr, p\<lparr>persistent_allocs := persistent_allocs p @
                         [\<lparr>pa_ptr = ptr, pa_bytes = bytes, pa_tag = tag, pa_is_pinned = False\<rparr>],
                       persistent_device_bytes := persistent_device_bytes p + bytes\<rparr>))"

definition allocatePersistentPinned :: "driver \<Rightarrow> size_t \<Rightarrow> string \<Rightarrow> pool \<Rightarrow> dptr \<times> pool" where
  "allocatePersistentPinned drv bytes tag p =
     (if bytes = 0 then (0, p)
      else case drv (live_ptrs p) bytes of
             None \<Rightarrow> (0, p)
           | Some ptr \<Rightarrow>
               (ptr, p\<lparr>persistent_allocs := persistent_allocs p @
                         [\<lparr>pa_ptr = ptr, pa_bytes = bytes, pa_tag = tag, pa_is_pinned = True\<rparr>],
                       persistent_pinned_bytes := persistent_pinned_bytes p + bytes\<rparr>))"

text \<open>\<open>std::find_if\<close> and \<open>erase\<close>: the first matching record goes.\<close>

fun find_erase :: "('a \<Rightarrow> bool) \<Rightarrow> 'a list \<Rightarrow> ('a \<times> 'a list) option" where
  "find_erase P [] = None"
| "find_erase P (x # xs) =
     (if P x then Some (x, xs) else map_option (\<lambda>(y, ys). (y, x # ys)) (find_erase P xs))"

definition freePersistentDevice :: "dptr \<Rightarrow> pool \<Rightarrow> cuda_call list \<times> pool" where
  "freePersistentDevice ptr p =
     (if ptr = 0 then ([], p)
      else case find_erase (\<lambda>a. pa_ptr a = ptr \<and> \<not> pa_is_pinned a) (persistent_allocs p) of
             None \<Rightarrow> ([], p)
           | Some (a, rest) \<Rightarrow>
               ([CudaFree ptr], p\<lparr>persistent_device_bytes := persistent_device_bytes p - pa_bytes a,
                                  persistent_allocs := rest\<rparr>))"

definition freePersistentPinned :: "dptr \<Rightarrow> pool \<Rightarrow> cuda_call list \<times> pool" where
  "freePersistentPinned ptr p =
     (if ptr = 0 then ([], p)
      else case find_erase (\<lambda>a. pa_ptr a = ptr \<and> pa_is_pinned a) (persistent_allocs p) of
             None \<Rightarrow> ([], p)
           | Some (a, rest) \<Rightarrow>
               ([CudaFreeHost ptr], p\<lparr>persistent_pinned_bytes := persistent_pinned_bytes p - pa_bytes a,
                                      persistent_allocs := rest\<rparr>))"

definition pool_reset :: "pool \<Rightarrow> cuda_call list \<times> pool" where
  "pool_reset p =
     ((if has_mem_pool p then [] else [CudaStreamSynchronize]) @
      map (\<lambda>(ptr, info). if has_mem_pool p then CudaFreeAsync ptr else CudaFree ptr) (allocations p),
      p\<lparr>allocations := [],
        total_frees := foldl (\<lambda>n _. n + 1) (total_frees p) (allocations p),
        current_allocated_bytes := 0,
        overflow_warned := False\<rparr>)"

definition setReleaseThreshold :: "bool \<Rightarrow> size_t \<Rightarrow> pool \<Rightarrow> pool" where
  "setReleaseThreshold set_ok bytes p =
     (if \<not> has_mem_pool p then p
      else if \<not> set_ok then p
      else if bytes = - 1 then p
      else p\<lparr>config := (config p)\<lparr>input_data_size := bytes, pool_size_multiplier := 0x3F800000\<rparr>,
             overflow_warned := False\<rparr>)"

definition pool_destroy :: "pool \<Rightarrow> cuda_call list" where
  "pool_destroy p =
     (if \<not> initialized p then []
      else
        (if has_mem_pool p
         then map (CudaFreeAsync \<circ> fst) (allocations p) @ map (CudaFreeAsync \<circ> fst) (graph_allocations p) @
              [CudaDeviceSynchronize, CudaMemPoolDestroy]
         else [CudaDeviceSynchronize] @
              map (CudaFree \<circ> fst) (allocations p) @ map (CudaFree \<circ> fst) (graph_allocations p)) @
        map (\<lambda>a. if pa_is_pinned a then CudaFreeHost (pa_ptr a) else CudaFree (pa_ptr a)) (persistent_allocs p) @
        (if has_mem_pool p then [] else [CudaDeviceSynchronize]))"

definition getAllocationCount :: "pool \<Rightarrow> nat" where
  "getAllocationCount p = length (allocations p) + length (graph_allocations p)"

text \<open>\<open>backend_used\<close> is the pool's own usage attribute, read only when there is a pool.\<close>

definition getCurrentUsage :: "size_t \<Rightarrow> pool \<Rightarrow> size_t" where
  "getCurrentUsage backend_used p = (if \<not> has_mem_pool p then current_allocated_bytes p else backend_used)"

subsection \<open>Well-formedness\<close>

definition sum_sizes :: "(dptr \<times> alloc_info) list \<Rightarrow> size_t" where
  "sum_sizes xs = sum_list (map (ai_size \<circ> snd) xs)"

definition pool_wf :: "pool \<Rightarrow> bool" where
  "pool_wf p \<longleftrightarrow> distinct (live_ptrs p) \<and> 0 \<notin> set (live_ptrs p) \<and>
     (\<forall>(ptr, info)\<in>set (allocations p) \<union> set (graph_allocations p). ai_ptr info = ptr \<and> ai_size info \<noteq> 0) \<and>
     persistent_device_bytes p = sum_list (map pa_bytes (filter (\<lambda>a. \<not> pa_is_pinned a) (persistent_allocs p))) \<and>
     persistent_pinned_bytes p = sum_list (map pa_bytes (filter pa_is_pinned (persistent_allocs p))) \<and>
     total_allocations p - total_frees p = word_of_nat (getAllocationCount p)"

definition accounted :: "pool \<Rightarrow> bool" where
  "accounted p \<longleftrightarrow> current_allocated_bytes p = sum_sizes (allocations p) + sum_sizes (graph_allocations p)"

definition driver_ok :: "driver \<Rightarrow> bool" where
  "driver_ok drv \<longleftrightarrow> (\<forall>live n ptr. drv live n = Some ptr \<longrightarrow> ptr \<noteq> 0 \<and> ptr \<notin> set live)"


subsection \<open>Association lists with one entry per key\<close>

lemma update_fresh: "k \<notin> fst ` set al \<Longrightarrow> AList.update k v al = al @ [(k, v)]"
  by (induction al) auto

lemma delete_split:
  assumes "distinct (map fst al)" "map_of al k = Some v"
  shows "\<exists>xs ys. al = xs @ (k, v) # ys \<and> AList.delete k al = xs @ ys"
proof -
  obtain xs ys where al: "al = xs @ (k, v) # ys"
    using map_of_SomeD [OF assms(2)] by (meson split_list)
  with assms(1) have "k \<notin> fst ` set xs" "k \<notin> fst ` set ys" by auto
  then have "filter (\<lambda>p. k \<noteq> fst p) xs = xs" "filter (\<lambda>p. k \<noteq> fst p) ys = ys"
    by (auto simp: filter_id_conv)
  with al have "AList.delete k al = xs @ ys" by (simp add: AList.delete_eq case_prod_unfold)
  with al show ?thesis by blast
qed

lemma find_erase_split:
  "find_erase P xs = Some (a, rest) \<Longrightarrow> P a \<and> (\<exists>us vs. xs = us @ a # vs \<and> rest = us @ vs)"
proof (induction xs arbitrary: a rest)
  case (Cons x xs)
  show ?case
  proof (cases "P x")
    case True
    with Cons.prems show ?thesis by (auto intro: exI [of _ "[]"])
  next
    case False
    with Cons.prems obtain ys where ys: "find_erase P xs = Some (a, ys)" "rest = x # ys" by auto
    with Cons.IH obtain us vs where "P a" "xs = us @ a # vs" "ys = us @ vs" by blast
    with ys have "P a" "x # xs = (x # us) @ a # vs" "rest = (x # us) @ vs" by simp_all
    then show ?thesis by blast
  qed
qed simp

subsection \<open>Every operation keeps the pool well formed\<close>

lemmas pool_simps = live_ptrs_def getAllocationCount_def sum_sizes_def accounted_def

lemma make_pool_wf: "pool_wf (make_pool c env ok)"
  by (simp add: pool_wf_def make_pool_def pool_simps)

lemma make_pool_accounted: "accounted (make_pool c env ok)"
  by (simp add: make_pool_def pool_simps)

lemma pool_allocate_cases:
  assumes "driver_ok drv" "pool_allocate drv scale sz tag pers p = (ptr, p')"
  obtains (null) "ptr = 0" "p' = p"
  | (fresh) "ptr \<noteq> 0" "ptr \<notin> set (live_ptrs p)" "sz \<noteq> 0"
      "allocations p' = allocations p @ (if pers then [] else [(ptr, \<lparr>ai_ptr = ptr, ai_size = sz, ai_tag = tag, ai_in_use = True\<rparr>)])"
      "graph_allocations p' = graph_allocations p @ (if pers then [(ptr, \<lparr>ai_ptr = ptr, ai_size = sz, ai_tag = tag, ai_in_use = True\<rparr>)] else [])"
      "persistent_allocs p' = persistent_allocs p" "has_mem_pool p' = has_mem_pool p"
      "persistent_device_bytes p' = persistent_device_bytes p"
      "persistent_pinned_bytes p' = persistent_pinned_bytes p"
      "total_allocations p' = total_allocations p + 1" "total_frees p' = total_frees p"
      "current_allocated_bytes p' = current_allocated_bytes p + sz"
proof (cases "sz = 0 \<or> drv (live_ptrs p) sz = None")
  case True
  with assms(2) show ?thesis by (intro null) (auto simp: pool_allocate_def split: if_splits)
next
  case False
  then obtain q where q: "sz \<noteq> 0" "drv (live_ptrs p) sz = Some q" by auto
  with assms(1) have fr: "q \<noteq> 0" "q \<notin> set (live_ptrs p)" by (auto simp: driver_ok_def)
  then have "q \<notin> fst ` set (allocations p)" "q \<notin> fst ` set (graph_allocations p)"
    by (auto simp: live_ptrs_def)
  note up = this [THEN update_fresh]
  from assms(2) q have "ptr = q" by (simp add: pool_allocate_def Let_def)
  with assms(2) q fr up show ?thesis
    by (intro fresh; cases pers) (auto simp: pool_allocate_def Let_def)
qed

lemma pool_allocate_wf:
  assumes "driver_ok drv" "pool_wf p" "pool_allocate drv scale sz tag pers p = (ptr, p')"
  shows "pool_wf p'"
  using assms(1,3)
proof (cases rule: pool_allocate_cases)
  case null
  with assms show ?thesis by simp
next
  case fresh
  have "total_allocations p + 1 - total_frees p = 1 + (total_allocations p - total_frees p)" by simp
  with assms(2) fresh show ?thesis by (cases pers) (auto simp: pool_wf_def pool_simps)
qed

lemma pool_allocate_accounted:
  assumes "driver_ok drv" "accounted p" "pool_allocate drv scale sz tag pers p = (ptr, p')"
  shows "accounted p'"
  using assms(1,3) by (cases rule: pool_allocate_cases) (use assms(2) in \<open>auto simp: pool_simps\<close>)

lemma pool_free_cases:
  assumes "pool_wf p"
  obtains (none) "ptr \<notin> fst ` set (allocations p) \<union> fst ` set (graph_allocations p)" "pool_free ptr p = ([], p)"
  | (stream) xs ys info where "allocations p = xs @ (ptr, info) # ys" "ptr \<noteq> 0"
      "pool_free ptr p = (free_calls p ptr, p\<lparr>current_allocated_bytes := current_allocated_bytes p - ai_size info,
         allocations := xs @ ys, total_frees := total_frees p + 1\<rparr>)"
  | (graph) xs ys info where "graph_allocations p = xs @ (ptr, info) # ys" "ptr \<noteq> 0"
      "ptr \<notin> fst ` set (allocations p)"
      "pool_free ptr p = (free_calls p ptr, p\<lparr>current_allocated_bytes := current_allocated_bytes p - ai_size info,
         graph_allocations := xs @ ys, total_frees := total_frees p + 1\<rparr>)"
proof -
  have wf: "0 \<notin> set (live_ptrs p)" "distinct (map fst (allocations p))" "distinct (map fst (graph_allocations p))"
    using assms by (auto simp: pool_wf_def live_ptrs_def)
  show ?thesis
  proof (cases "map_of (allocations p) ptr")
    case (Some info)
    then have "ptr \<noteq> 0" using wf(1) by (metis live_ptrs_def map_of_eq_None_iff option.distinct(1) Un_iff set_append set_map)
    with delete_split [OF wf(2) Some] Some show ?thesis by (auto simp: pool_free_def intro: stream)
  next
    case none_a: None
    show ?thesis
    proof (cases "map_of (graph_allocations p) ptr")
      case (Some info)
      then have "ptr \<noteq> 0" using wf(1) by (metis live_ptrs_def map_of_eq_None_iff option.distinct(1) Un_iff set_append set_map)
      moreover obtain xs ys where "graph_allocations p = xs @ (ptr, info) # ys"
          "AList.delete ptr (graph_allocations p) = xs @ ys"
        using delete_split [OF wf(3) Some] by blast
      moreover have "ptr \<notin> fst ` set (allocations p)" using none_a by (simp add: map_of_eq_None_iff)
      ultimately show ?thesis using none_a Some by (intro graph [of xs info ys]) (auto simp: pool_free_def)
    next
      case None
      with none_a have "pool_free ptr p = ([], p)" by (simp add: pool_free_def)
      moreover have "ptr \<notin> fst ` set (allocations p) \<union> fst ` set (graph_allocations p)"
        using None none_a by (simp add: map_of_eq_None_iff)
      ultimately show ?thesis by (rule none [rotated])
    qed
  qed
qed

lemma pool_free_wf:
  assumes "pool_wf p"
  shows "pool_wf (snd (pool_free ptr p))"
  using assms
proof (cases rule: pool_free_cases [where ptr = ptr])
  case none
  with assms show ?thesis by simp
next
  case (stream xs ys info)
  have "total_allocations p - (total_frees p + 1) = total_allocations p - total_frees p - 1" by simp
  with assms stream show ?thesis by (auto simp: pool_wf_def pool_simps)
next
  case (graph xs ys info)
  have "total_allocations p - (total_frees p + 1) = total_allocations p - total_frees p - 1" by simp
  with assms graph show ?thesis by (auto simp: pool_wf_def pool_simps)
qed

lemma pool_free_accounted:
  assumes "pool_wf p" "accounted p"
  shows "accounted (snd (pool_free ptr p))"
  using assms(1)
  by (cases rule: pool_free_cases [where ptr = ptr]) (use assms(2) in \<open>auto simp: pool_simps\<close>)

lemma foldl_count: "foldl (\<lambda>n _. n + 1) (a :: size_t) xs = a + word_of_nat (length xs)"
  by (induction xs arbitrary: a) (auto simp: algebra_simps)

lemma pool_reset_wf: "pool_wf p \<Longrightarrow> pool_wf (snd (pool_reset p))"
  by (auto simp: pool_wf_def pool_reset_def pool_simps foldl_count diff_diff_add [symmetric])

lemma persistent_erase:
  assumes "pool_wf p" "find_erase P (persistent_allocs p) = Some (a, rest)" "\<And>x. P x \<Longrightarrow> pa_is_pinned x = b"
  shows "sum_list (map pa_bytes (filter (\<lambda>a. pa_is_pinned a = b) (persistent_allocs p))) - pa_bytes a =
           sum_list (map pa_bytes (filter (\<lambda>a. pa_is_pinned a = b) rest))"
    "filter (\<lambda>a. pa_is_pinned a \<noteq> b) rest = filter (\<lambda>a. pa_is_pinned a \<noteq> b) (persistent_allocs p)"
    "mset (map pa_ptr (persistent_allocs p)) = add_mset (pa_ptr a) (mset (map pa_ptr rest))"
    "set rest \<subseteq> set (persistent_allocs p)"
proof -
  obtain us vs where *: "P a" "persistent_allocs p = us @ a # vs" "rest = us @ vs"
    using find_erase_split [OF assms(2)] by blast
  then have "pa_is_pinned a = b" using assms(3) by blast
  with * show "sum_list (map pa_bytes (filter (\<lambda>a. pa_is_pinned a = b) (persistent_allocs p))) - pa_bytes a =
           sum_list (map pa_bytes (filter (\<lambda>a. pa_is_pinned a = b) rest))"
    "filter (\<lambda>a. pa_is_pinned a \<noteq> b) rest = filter (\<lambda>a. pa_is_pinned a \<noteq> b) (persistent_allocs p)"
    "mset (map pa_ptr (persistent_allocs p)) = add_mset (pa_ptr a) (mset (map pa_ptr rest))"
    "set rest \<subseteq> set (persistent_allocs p)"
    by auto
qed

lemma distinct_erase:
  assumes "distinct (xs @ ys)" "mset ys = add_mset k (mset zs)"
  shows "distinct (xs @ zs)"
proof -
  have "mset (xs @ ys) = mset (k # xs @ zs)" using assms(2) by simp
  with assms(1) have "distinct (k # xs @ zs)" by (metis mset_eq_imp_distinct_iff)
  then show ?thesis by simp
qed

lemma persistent_shrink_wf:
  assumes "pool_wf p" "mset (map pa_ptr (persistent_allocs p)) = add_mset k (mset (map pa_ptr rest))"
    and "db = sum_list (map pa_bytes (filter (\<lambda>a. \<not> pa_is_pinned a) rest))"
    and "pb = sum_list (map pa_bytes (filter pa_is_pinned rest))"
  shows "pool_wf (p\<lparr>persistent_device_bytes := db, persistent_pinned_bytes := pb, persistent_allocs := rest\<rparr>)"
proof -
  have "distinct ((map fst (allocations p) @ map fst (graph_allocations p)) @ map pa_ptr (persistent_allocs p))"
    using assms(1) unfolding pool_wf_def live_ptrs_def by simp
  from distinct_erase [OF this assms(2)]
  have "distinct ((map fst (allocations p) @ map fst (graph_allocations p)) @ map pa_ptr rest)" .
  moreover have "0 \<notin> set (map pa_ptr rest)"
  proof -
    have "set (map pa_ptr rest) \<subseteq> set (map pa_ptr (persistent_allocs p))"
      using arg_cong [OF assms(2), of set_mset] by auto
    moreover have "0 \<notin> set (map pa_ptr (persistent_allocs p))"
      using assms(1) unfolding pool_wf_def live_ptrs_def by simp
    ultimately show ?thesis by blast
  qed
  ultimately show ?thesis
    using assms by (simp add: pool_wf_def live_ptrs_def getAllocationCount_def)
qed

lemma freePersistentDevice_wf:
  assumes "pool_wf p"
  shows "pool_wf (snd (freePersistentDevice ptr p))"
proof (cases "ptr = 0 \<or> find_erase (\<lambda>a. pa_ptr a = ptr \<and> \<not> pa_is_pinned a) (persistent_allocs p) = None")
  case True
  with assms show ?thesis by (auto simp: freePersistentDevice_def)
next
  case False
  then obtain a rest where f: "find_erase (\<lambda>a. pa_ptr a = ptr \<and> \<not> pa_is_pinned a) (persistent_allocs p) = Some (a, rest)"
    by auto
  note er = persistent_erase [OF assms f, of False, simplified]
  have "pool_wf (p\<lparr>persistent_device_bytes := persistent_device_bytes p - pa_bytes a,
      persistent_pinned_bytes := persistent_pinned_bytes p, persistent_allocs := rest\<rparr>)"
    using er assms by (intro persistent_shrink_wf) (auto simp: pool_wf_def)
  with f False show ?thesis by (simp add: freePersistentDevice_def)
qed

lemma freePersistentPinned_wf:
  assumes "pool_wf p"
  shows "pool_wf (snd (freePersistentPinned ptr p))"
proof (cases "ptr = 0 \<or> find_erase (\<lambda>a. pa_ptr a = ptr \<and> pa_is_pinned a) (persistent_allocs p) = None")
  case True
  with assms show ?thesis by (auto simp: freePersistentPinned_def)
next
  case False
  then obtain a rest where f: "find_erase (\<lambda>a. pa_ptr a = ptr \<and> pa_is_pinned a) (persistent_allocs p) = Some (a, rest)"
    by auto
  note er = persistent_erase [OF assms f, of True, simplified]
  have "pool_wf (p\<lparr>persistent_device_bytes := persistent_device_bytes p,
      persistent_pinned_bytes := persistent_pinned_bytes p - pa_bytes a, persistent_allocs := rest\<rparr>)"
    using er assms by (intro persistent_shrink_wf) (auto simp: pool_wf_def)
  with f False show ?thesis by (simp add: freePersistentPinned_def)
qed

lemma allocatePersistent_wf:
  assumes "driver_ok drv" "pool_wf p"
  shows "pool_wf (snd (allocatePersistentDevice drv n tag p))" "pool_wf (snd (allocatePersistentPinned drv n tag p))"
proof -
  consider "n = 0 \<or> drv (live_ptrs p) n = None" | ptr where "n \<noteq> 0" "drv (live_ptrs p) n = Some ptr" by auto
  then have "pool_wf (snd (allocatePersistentDevice drv n tag p)) \<and> pool_wf (snd (allocatePersistentPinned drv n tag p))"
  proof cases
    case 1
    with assms show ?thesis by (auto simp: allocatePersistentDevice_def allocatePersistentPinned_def)
  next
    case (2 ptr)
    with assms(1) have "ptr \<noteq> 0" "ptr \<notin> set (live_ptrs p)" by (auto simp: driver_ok_def)
    with 2 assms(2) show ?thesis
      by (auto simp: allocatePersistentDevice_def allocatePersistentPinned_def pool_wf_def pool_simps)
  qed
  then show "pool_wf (snd (allocatePersistentDevice drv n tag p))" "pool_wf (snd (allocatePersistentPinned drv n tag p))"
    by auto
qed

lemma persistent_accounted:
  assumes "accounted p"
  shows "accounted (snd (allocatePersistentDevice drv n tag p))" "accounted (snd (allocatePersistentPinned drv n tag p))"
    "accounted (snd (freePersistentDevice ptr p))" "accounted (snd (freePersistentPinned ptr p))"
    "accounted (setReleaseThreshold b th p)"
  using assms
  by (auto simp: accounted_def allocatePersistentDevice_def allocatePersistentPinned_def freePersistentDevice_def
      freePersistentPinned_def setReleaseThreshold_def split: option.splits)

lemma setReleaseThreshold_wf: "pool_wf p \<Longrightarrow> pool_wf (setReleaseThreshold b th p)"
  by (auto simp: setReleaseThreshold_def pool_wf_def pool_simps)

subsection \<open>Histories of a pool\<close>

datatype pool_op =
    OpAllocate size_t string bool
  | OpFree dptr
  | OpAllocPersistentDevice size_t string
  | OpAllocPersistentPinned size_t string
  | OpFreePersistentDevice dptr
  | OpFreePersistentPinned dptr
  | OpReset
  | OpSetReleaseThreshold bool size_t

fun pool_exec :: "driver \<Rightarrow> (size_t \<Rightarrow> u32 \<Rightarrow> size_t) \<Rightarrow> pool_op \<Rightarrow> pool \<Rightarrow> pool" where
  "pool_exec drv scale (OpAllocate n tag pers) p = snd (pool_allocate drv scale n tag pers p)"
| "pool_exec drv scale (OpFree ptr) p = snd (pool_free ptr p)"
| "pool_exec drv scale (OpAllocPersistentDevice n tag) p = snd (allocatePersistentDevice drv n tag p)"
| "pool_exec drv scale (OpAllocPersistentPinned n tag) p = snd (allocatePersistentPinned drv n tag p)"
| "pool_exec drv scale (OpFreePersistentDevice ptr) p = snd (freePersistentDevice ptr p)"
| "pool_exec drv scale (OpFreePersistentPinned ptr) p = snd (freePersistentPinned ptr p)"
| "pool_exec drv scale OpReset p = snd (pool_reset p)"
| "pool_exec drv scale (OpSetReleaseThreshold ok n) p = setReleaseThreshold ok n p"

lemma pool_exec_wf: "driver_ok drv \<Longrightarrow> pool_wf p \<Longrightarrow> pool_wf (pool_exec drv scale op p)"
  by (cases op) (auto simp: pool_free_wf allocatePersistent_wf freePersistentDevice_wf freePersistentPinned_wf
      pool_reset_wf setReleaseThreshold_wf intro: pool_allocate_wf prod.collapse [symmetric])

lemma pool_exec_accounted:
  "driver_ok drv \<Longrightarrow> pool_wf p \<Longrightarrow> accounted p \<Longrightarrow> op \<noteq> OpReset \<Longrightarrow> accounted (pool_exec drv scale op p)"
  by (cases op) (auto simp: pool_free_accounted persistent_accounted
      intro: pool_allocate_accounted prod.collapse [symmetric])

lemma fold_pool_exec_wf: "driver_ok drv \<Longrightarrow> pool_wf p \<Longrightarrow> pool_wf (fold (pool_exec drv scale) ops p)"
  by (induction ops arbitrary: p) (auto simp: pool_exec_wf)

lemma fold_pool_exec_accounted:
  "driver_ok drv \<Longrightarrow> pool_wf p \<Longrightarrow> accounted p \<Longrightarrow> OpReset \<notin> set ops \<Longrightarrow> accounted (fold (pool_exec drv scale) ops p)"
  by (induction ops arbitrary: p) (auto simp: pool_exec_wf pool_exec_accounted)

fun first_free_driver :: driver where
  "first_free_driver live n = Some (Suc (fold max live 0))"

lemma fold_max_ge: "x \<in> set xs \<Longrightarrow> x \<le> fold max xs (a::nat)" "a \<le> fold max xs a"
proof (induction xs arbitrary: a)
  case (Cons y ys)
  { case 1 then show ?case using Cons(1)[of "max y a"] Cons(2)[of "max y a"] by auto }
  { case 2 then show ?case using Cons(2)[of "max y a"] by auto }
qed auto

lemma first_free_driver_ok: "driver_ok first_free_driver"
  by (auto simp: driver_ok_def dest: fold_max_ge(1) [where a = 0])

text \<open>
  C24. Whatever sequence of calls a \<open>MemoryPool\<close> receives after its construction (allocations,
  frees of any pointer, known or not, persistent allocations and frees, resets, threshold
  changes), its tables stay consistent: no pointer is tracked twice or by two tables, none is
  null, every record has its key's pointer and a non-zero size, the two persistent byte counters
  are the sums over the persistent records, and allocations minus frees is the number of tracked
  records.  Without a reset the live-byte counter is the sum of the tracked sizes.
\<close>

theorem pool_history_wf:
  assumes "driver_ok drv"
  shows "pool_wf (fold (pool_exec drv scale) ops (make_pool c env ok)) \<and>
    (OpReset \<notin> set ops \<longrightarrow> accounted (fold (pool_exec drv scale) ops (make_pool c env ok)))"
  using assms by (simp add: fold_pool_exec_wf fold_pool_exec_accounted make_pool_wf make_pool_accounted)

definition demo_config :: pool_config where
  "demo_config = \<lparr>input_data_size = 4096, pool_size_multiplier = 0x40400000, device_id = 0,
     enable_reuse = True, force_fallback = False\<rparr>"

definition demo_ops :: "pool_op list" where
  "demo_ops = [OpAllocate 100 ''a'' False, OpAllocate 50 ''g'' True, OpAllocPersistentDevice 8 ''d'', OpFree 1]"

theorem pool_history_wf_witness:
  "let p = fold (pool_exec first_free_driver (\<lambda>n f. n * 3)) demo_ops (make_pool demo_config False True)
   in pool_wf p \<and> accounted p \<and> live_ptrs p = [2, 3] \<and> current_allocated_bytes p = 50"
proof -
  have "OpReset \<notin> set demo_ops" by (simp add: demo_ops_def)
  moreover have "live_ptrs (fold (pool_exec first_free_driver (\<lambda>n f. n * 3)) demo_ops (make_pool demo_config False True)) = [2, 3]"
    "current_allocated_bytes (fold (pool_exec first_free_driver (\<lambda>n f. n * 3)) demo_ops (make_pool demo_config False True)) = 50"
    by (simp_all add: demo_ops_def make_pool_def demo_config_def initializeMemPool_def pool_allocate_def
        pool_free_def allocatePersistentDevice_def live_ptrs_def)
  ultimately show ?thesis
    using pool_history_wf [OF first_free_driver_ok, of "\<lambda>n f. n * 3" demo_ops demo_config False True]
    by (simp add: Let_def)
qed

subsection \<open>Destruction\<close>

fun freed_ptr :: "cuda_call \<Rightarrow> dptr list" where
  "freed_ptr (CudaFreeAsync q) = [q]"
| "freed_ptr (CudaFree q) = [q]"
| "freed_ptr (CudaFreeHost q) = [q]"
| "freed_ptr _ = []"

lemma concat_freed_ptr:
  "concat (map freed_ptr (map (CudaFreeAsync \<circ> f) xs)) = map f xs"
  "concat (map freed_ptr (map (CudaFree \<circ> f) xs)) = map f xs"
  "concat (map freed_ptr (map (\<lambda>a. if P a then CudaFreeHost (f a) else CudaFree (f a)) xs)) = map f xs"
  by (induction xs) auto

lemmas concat_freed_ptr_comp = concat_freed_ptr [unfolded map_map comp_assoc]

lemma pool_destroy_freed:
  "initialized p \<Longrightarrow> concat (map freed_ptr (pool_destroy p)) = live_ptrs p"
  unfolding pool_destroy_def live_ptrs_def
  by (simp add: concat_freed_ptr_comp)

lemma pool_exec_initialized: "initialized (pool_exec drv scale op p) = initialized p"
  by (cases op) (auto simp: pool_allocate_def pool_free_def allocatePersistentDevice_def allocatePersistentPinned_def
      freePersistentDevice_def freePersistentPinned_def pool_reset_def setReleaseThreshold_def Let_def split: option.splits)

lemma fold_pool_exec_initialized: "initialized (fold (pool_exec drv scale) ops p) = initialized p"
  by (induction ops arbitrary: p) (auto simp: pool_exec_initialized)

text \<open>
  C27. After any history the destructor frees every pointer the pool still tracks, stream-ordered,
  graph and persistent alike, each exactly once, and frees nothing else.
\<close>

theorem pool_destroy_no_leak:
  assumes "driver_ok drv"
    and p_def: "p = fold (pool_exec drv scale) ops (make_pool c env ok)"
  shows "distinct (concat (map freed_ptr (pool_destroy p))) \<and>
    set (concat (map freed_ptr (pool_destroy p))) = set (live_ptrs p)"
proof -
  have "pool_wf p" unfolding p_def by (rule fold_pool_exec_wf [OF assms(1) make_pool_wf])
  moreover have "initialized p" unfolding p_def by (simp add: fold_pool_exec_initialized make_pool_def)
  ultimately show ?thesis using pool_destroy_freed [of p] by (simp add: pool_wf_def)
qed

theorem pool_destroy_no_leak_witness:
  "set (concat (map freed_ptr (pool_destroy
     (fold (pool_exec first_free_driver (\<lambda>n f. n * 3)) demo_ops (make_pool demo_config False False))))) = {2, 3}"
proof -
  have "live_ptrs (fold (pool_exec first_free_driver (\<lambda>n f. n * 3)) demo_ops (make_pool demo_config False False)) = [2, 3]"
    by (simp add: demo_ops_def make_pool_def demo_config_def initializeMemPool_def pool_allocate_def
        pool_free_def allocatePersistentDevice_def live_ptrs_def)
  then show ?thesis
    using pool_destroy_no_leak [OF first_free_driver_ok refl, of "\<lambda>n f. n * 3" demo_ops demo_config False False]
    by auto
qed

subsection \<open>The byte counter across a reset\<close>

text \<open>
  \<open>reset\<close> sets the live-byte counter to 0 but keeps the graph allocations.  Freeing one of them
  afterwards subtracts its size from 0: the counter wraps to \<open>2^64 - size\<close>, and the next allocation
  of a smaller size compares that value with the configured pool size.
\<close>

theorem pool_reset_free_wraps:
  assumes "map_of (graph_allocations p) ptr = Some info" "map_of (allocations p) ptr = None" "ptr \<noteq> 0"
    and "ai_size info \<noteq> 0"
  shows "unat (current_allocated_bytes (snd (pool_free ptr (snd (pool_reset p))))) = 2 ^ 64 - unat (ai_size info)"
proof -
  have "current_allocated_bytes (snd (pool_free ptr (snd (pool_reset p)))) = - ai_size info"
    using assms by (simp add: pool_free_def pool_reset_def)
  moreover have "unat (- ai_size info) = 2 ^ 64 - unat (ai_size info)"
    using assms(4) unat_sub_if_size [of 0 "ai_size info"] by (simp add: word_size unat_eq_zero)
  ultimately show ?thesis by simp
qed

theorem pool_reset_free_wraps_witness:
  "unat (current_allocated_bytes (snd (pool_free 1 (snd (pool_reset
     (snd (pool_allocate first_free_driver (\<lambda>n f. n * 3) 50 ''g'' True (make_pool demo_config False True)))))))) = 2 ^ 64 - 50"
  using pool_reset_free_wraps [of "snd (pool_allocate first_free_driver (\<lambda>n f. n * 3) 50 ''g'' True (make_pool demo_config False True))"
      1 "\<lparr>ai_ptr = 1, ai_size = 50, ai_tag = ''g'', ai_in_use = True\<rparr>"]
  by (simp add: pool_allocate_def make_pool_def live_ptrs_def)

subsection \<open>The interface the pipeline relies on\<close>

text \<open>
  What \<open>CompressionDAG\<close> and \<open>Pipeline\<close> need of the pool: an allocation either fails with the null
  pointer and no effect, or returns a pointer nothing else holds; a release drops just that pointer.
\<close>

locale pool_interface =
  fixes alloc :: "'n \<Rightarrow> 's \<Rightarrow> dptr \<times> 's"
    and release :: "dptr \<Rightarrow> 's \<Rightarrow> 's"
    and live :: "'s \<Rightarrow> dptr set"
    and inv :: "'s \<Rightarrow> bool"
  assumes alloc_inv: "inv s \<Longrightarrow> inv (snd (alloc n s))"
    and release_inv: "inv s \<Longrightarrow> inv (release q s)"
    and null_not_live: "inv s \<Longrightarrow> 0 \<notin> live s"
    and alloc_live: "inv s \<Longrightarrow> alloc n s = (q, s') \<Longrightarrow>
          (q = 0 \<and> s' = s) \<or> (q \<noteq> 0 \<and> q \<notin> live s \<and> live s' = insert q (live s))"
    and release_live: "inv s \<Longrightarrow> live (release q s) = live s - {q}"

fun alloc_all :: "('n \<Rightarrow> 's \<Rightarrow> dptr \<times> 's) \<Rightarrow> 'n list \<Rightarrow> 's \<Rightarrow> dptr list \<times> 's" where
  "alloc_all alloc [] s = ([], s)"
| "alloc_all alloc (n # ns) s =
     (let (q, s1) = alloc n s; (qs, s2) = alloc_all alloc ns s1 in (q # qs, s2))"

context pool_interface
begin

lemma alloc_all_inv: "inv s \<Longrightarrow> inv (snd (alloc_all alloc ns s))"
proof (induction ns arbitrary: s)
  case (Cons n ns)
  from Cons.IH [OF alloc_inv [OF Cons.prems, of n]] show ?case by (simp add: case_prod_unfold Let_def)
qed simp

lemma release_all_live: "inv s \<Longrightarrow> live (fold release qs s) = live s - set qs"
  by (induction qs arbitrary: s) (auto simp: release_inv release_live)

lemma alloc_all_live:
  assumes "inv s" "alloc_all alloc ns s = (qs, s')"
  shows "distinct (filter (\<lambda>q. q \<noteq> 0) qs) \<and> (set qs - {0}) \<inter> live s = {} \<and> live s' = live s \<union> (set qs - {0})"
  using assms
proof (induction ns arbitrary: s qs)
  case (Cons n ns)
  obtain q s1 where q: "alloc n s = (q, s1)" by (cases "alloc n s")
  obtain qs1 where qs: "alloc_all alloc ns s1 = (qs1, s')" "qs = q # qs1"
    using Cons.prems(2) q by (auto simp: Let_def split: prod.splits)
  have "inv s1" using alloc_inv [OF Cons.prems(1), of n] q by simp
  note IH = Cons.IH [OF this qs(1)]
  from alloc_live [OF Cons.prems(1) q] IH qs(2) null_not_live [OF Cons.prems(1)] show ?case by auto
qed simp

lemma alloc_release_all:
  assumes "inv s"
  shows "live (fold release (fst (alloc_all alloc ns s)) (snd (alloc_all alloc ns s))) = live s"
proof -
  obtain qs s' where qs: "alloc_all alloc ns s = (qs, s')" by (cases "alloc_all alloc ns s")
  have "inv s'" using alloc_all_inv [OF assms, of ns] qs by simp
  then show ?thesis
    using alloc_all_live [OF assms qs] null_not_live [OF assms] qs by (auto simp: release_all_live)
qed

end

definition tracked :: "pool \<Rightarrow> dptr set" where
  "tracked p = fst ` set (allocations p) \<union> fst ` set (graph_allocations p)"

lemma pool_free_tracked: "pool_wf p \<Longrightarrow> tracked (snd (pool_free ptr p)) = tracked p - {ptr}"
  by (cases rule: pool_free_cases [where ptr = ptr], assumption)
    (auto simp: tracked_def pool_wf_def live_ptrs_def)

lemma pool_allocate_tracked:
  assumes "driver_ok drv" "pool_allocate drv scale n tag pers p = (q, p')"
  shows "(q = 0 \<and> p' = p) \<or> (q \<noteq> 0 \<and> q \<notin> tracked p \<and> tracked p' = insert q (tracked p))"
  using assms by (cases rule: pool_allocate_cases) (auto simp: tracked_def live_ptrs_def)

interpretation mp: pool_interface
  "\<lambda>(n, tag, pers). pool_allocate drv scale n tag pers" "\<lambda>q p. snd (pool_free q p)" tracked
  "\<lambda>p. pool_wf p \<and> driver_ok drv" for drv scale
proof unfold_locales
  show "pool_wf (snd ((case n of (n, tag, pers) \<Rightarrow> pool_allocate drv scale n tag pers) s)) \<and> driver_ok drv"
    if "pool_wf s \<and> driver_ok drv" for s n
    using that by (cases n) (auto intro: pool_allocate_wf prod.collapse [symmetric])
  show "(q = 0 \<and> s' = s) \<or> (q \<noteq> 0 \<and> q \<notin> tracked s \<and> tracked s' = insert q (tracked s))"
    if "pool_wf s \<and> driver_ok drv" "(case n of (n, tag, pers) \<Rightarrow> pool_allocate drv scale n tag pers) s = (q, s')" for s n q s'
    using that by (cases n) (auto dest: pool_allocate_tracked)
qed (auto simp: pool_free_wf pool_free_tracked, auto simp: tracked_def pool_wf_def live_ptrs_def)

text \<open>
  A batch of allocations, stream-ordered or graph, never hands out a pointer twice and never one
  that was already tracked; freeing the batch afterwards leaves exactly the pointers that were
  tracked before, whichever of the allocations failed.
\<close>

theorem pool_batch_alloc_free:
  assumes "pool_wf p" "driver_ok drv"
    and "alloc_all (\<lambda>(n, tag, pers). pool_allocate drv scale n tag pers) reqs p = (qs, p')"
  shows "distinct (filter (\<lambda>q. q \<noteq> 0) qs) \<and> (set qs - {0}) \<inter> tracked p = {} \<and>
    tracked p' = tracked p \<union> (set qs - {0}) \<and>
    tracked (fold (\<lambda>q p. snd (pool_free q p)) qs p') = tracked p"
  using mp.alloc_all_live [of p drv scale reqs qs p'] mp.alloc_release_all [of p drv scale reqs] assms by simp

theorem pool_batch_alloc_free_witness:
  "tracked (fold (\<lambda>q p. snd (pool_free q p)) [1, 0, 2]
     (snd (alloc_all (\<lambda>(n, tag, pers). pool_allocate first_free_driver (\<lambda>n f. n) n tag pers)
       [(8, ''a'', False), (0, ''z'', False), (16, ''b'', True)] (make_pool demo_config False True)))) = {}"
proof -
  let ?run = "alloc_all (\<lambda>(n, tag, pers). pool_allocate first_free_driver (\<lambda>n f. n) n tag pers)
    [(8, ''a'', False), (0, ''z'', False), (16, ''b'', True)] (make_pool demo_config False True)"
  have "?run = ([1, 0, 2], snd ?run)"
    by (simp add: pool_allocate_def make_pool_def live_ptrs_def)
  then show ?thesis
    using pool_batch_alloc_free [OF make_pool_wf first_free_driver_ok, of "\<lambda>n f. n"
        "[(8, ''a'', False), (0, ''z'', False), (16, ''b'', True)]" demo_config False True "[1, 0, 2]" "snd ?run"]
    by (simp add: tracked_def make_pool_def)
qed

end
