(* ===== verification/Dag.thy ===== *)
theory Dag
  imports Prelude "HOL-Library.AList"
begin

section \<open>CompressionDAG: construction and finalization\<close>

text \<open>
  \<open>include/advanced/dag.h\<close> and the construction half of \<open>src/pipeline/dag.cpp\<close>.  A \<open>DAGNode*\<close> is the
  node's index in \<open>nodes_\<close> (its \<open>id\<close>), a \<open>Stage*\<close> an index into the pipeline's stages (\<open>None\<close> for
  null), a CUDA stream a number with 0 for the default stream.  \<open>buffers_\<close> is an
  association list with distinct ids (the order of the hash map never matters); \<open>buffers_[b]\<close> reads a default-constructed record where there is none.  The scratch vectors
  \<open>exec_inputs\<close>, \<open>exec_outputs\<close> and \<open>exec_sizes\<close> hold nothing between two executions and are left out.
  An operation that mutates the graph before it throws returns the mutated graph next to the error.
\<close>

subsection \<open>State\<close>

datatype memory_strategy = MINIMAL | PREALLOCATE

record buffer_info =
  b_size :: size_t
  initial_size :: size_t
  allocated_size :: size_t
  d_ptr :: dptr
  b_tag :: string
  remaining_consumers :: int
  consumer_stage_ids :: "nat list"
  producer_stage_id :: int
  producer_output_index :: int
  is_allocated :: bool
  is_persistent :: bool
  is_external :: bool

definition new_buffer :: buffer_info where
  "new_buffer = \<lparr>b_size = 0, initial_size = 0, allocated_size = 0, d_ptr = 0, b_tag = [],
     remaining_consumers = 0, consumer_stage_ids = [], producer_stage_id = - 1,
     producer_output_index = 0, is_allocated = False, is_persistent = False, is_external = False\<rparr>"

record dag_node =
  n_id :: nat
  n_stage :: "nat option"
  n_name :: string
  input_buffer_ids :: "int list"
  output_buffer_ids :: "int list"
  output_index_to_buffer_id :: "(int \<times> int) list"
  dependencies :: "nat list"
  dependents :: "nat list"
  n_level :: int
  execution_order :: int
  n_stream :: nat
  is_executed :: bool
  has_start_event :: bool

definition new_node :: "nat option \<Rightarrow> dag_node" where
  "new_node s = \<lparr>n_id = 0, n_stage = s, n_name = [], input_buffer_ids = [], output_buffer_ids = [],
     output_index_to_buffer_id = [], dependencies = [], dependents = [], n_level = - 1,
     execution_order = - 1, n_stream = 0, is_executed = False, has_start_event = False\<rparr>"

record fused_group_exec =
  fg_head :: nat
  fg_tail :: nat
  fg_members :: "nat list"
  fg_stages :: "nat list"
  fg_impl :: nat

record dag =
  strategy :: memory_strategy
  nodes :: "dag_node list"
  buffer_table :: "(int \<times> buffer_info) list"
  next_buffer_id :: int
  is_finalized :: bool
  streams :: "nat list"
  owns_streams :: bool
  levels :: "nat list list"
  max_level :: int
  current_memory_usage :: size_t
  peak_memory_usage :: size_t
  profiling_enabled :: bool
  bounds_check_enabled :: bool
  capture_mode :: bool
  coloring_disabled :: bool
  coloring_applied :: bool
  buffer_color :: "int \<Rightarrow> nat option"
  color_region_sizes :: "size_t list"
  color_region_ptrs :: "dptr list"
  fused_groups :: "fused_group_exec list"
  fused_head :: "nat \<Rightarrow> nat option"
  fused_member :: "nat list"
  fused_internal_buffers :: "int list"

definition new_dag :: "memory_strategy \<Rightarrow> dag" where
  "new_dag s = \<lparr>strategy = s, nodes = [], buffer_table = [], next_buffer_id = 0, is_finalized = False,
     streams = [], owns_streams = False, levels = [], max_level = 0, current_memory_usage = 0,
     peak_memory_usage = 0, profiling_enabled = False, bounds_check_enabled = False, capture_mode = False,
     coloring_disabled = False, coloring_applied = False, buffer_color = (\<lambda>_. None), color_region_sizes = [],
     color_region_ptrs = [], fused_groups = [], fused_head = (\<lambda>_. None), fused_member = [],
     fused_internal_buffers = []\<rparr>"

text \<open>The constructor: \<open>pool\<close> tells whether the \<open>MemoryPool*\<close> is non-null.\<close>

definition CompressionDAG :: "bool \<Rightarrow> memory_strategy \<Rightarrow> dag res" where
  "CompressionDAG pool s = (if \<not> pool then Inl (InvalidArgument ''MemoryPool cannot be null'') else Inr (new_dag s))"

definition buffers :: "dag \<Rightarrow> int \<Rightarrow> buffer_info option" where
  "buffers d = map_of (buffer_table d)"

definition buf :: "dag \<Rightarrow> int \<Rightarrow> buffer_info" where
  "buf d b = (case buffers d b of None \<Rightarrow> new_buffer | Some x \<Rightarrow> x)"

definition upd_buf :: "int \<Rightarrow> (buffer_info \<Rightarrow> buffer_info) \<Rightarrow> dag \<Rightarrow> dag" where
  "upd_buf b f d = d\<lparr>buffer_table := AList.update b (f (buf d b)) (buffer_table d)\<rparr>"

definition upd_node :: "nat \<Rightarrow> (dag_node \<Rightarrow> dag_node) \<Rightarrow> dag \<Rightarrow> dag" where
  "upd_node i f d = d\<lparr>nodes := (nodes d)[i := f (nodes d ! i)]\<rparr>"

abbreviation node :: "dag \<Rightarrow> nat \<Rightarrow> dag_node" where
  "node d i \<equiv> nodes d ! i"

subsection \<open>Construction\<close>

text \<open>\<open>std::to_string\<close> of a non-negative number.\<close>

fun to_string :: "nat \<Rightarrow> string" where
  "to_string n = (if n < 10 then [char_of (48 + n)] else to_string (n div 10) @ [char_of (48 + n mod 10)])"

declare to_string.simps [simp del]

text \<open>\<open>ev1\<close>, \<open>ev2\<close>: whether \<open>cudaEventCreate\<close> succeeds for the completion and the start event.\<close>

definition addStage :: "bool \<Rightarrow> bool \<Rightarrow> nat option \<Rightarrow> string \<Rightarrow> dag \<Rightarrow> (nat \<times> dag) res" where
  "addStage ev1 ev2 stage name d =
     (if is_finalized d then Inl (RuntimeError ''Cannot modify DAG after finalization'')
      else if \<not> ev1 then Inl (RuntimeError ''Failed to create CUDA event for stage'')
      else if profiling_enabled d \<and> \<not> ev2
      then Inl (RuntimeError ''Failed to create profiling start event for stage'')
      else
        let i = length (nodes d);
            n = (new_node stage)\<lparr>n_id := i,
                  n_name := (if name = [] then ''stage_'' @ to_string i else name),
                  has_start_event := profiling_enabled d\<rparr>
        in Inr (i, d\<lparr>nodes := nodes d @ [n]\<rparr>))"

definition link :: "nat \<Rightarrow> nat \<Rightarrow> dag \<Rightarrow> dag" where
  "link dependent dependency d =
     upd_node dependency (\<lambda>n. n\<lparr>dependents := dependents n @ [dependent]\<rparr>)
       (upd_node dependent (\<lambda>n. n\<lparr>dependencies := dependencies n @ [dependency]\<rparr>) d)"

text \<open>The three updates the construction calls share: a new record, a producer, a consumer.\<close>

definition fresh_buffer :: "dag \<Rightarrow> int \<times> dag" where
  "fresh_buffer d =
     (let b = next_buffer_id d in (b, upd_buf b (\<lambda>x. x) (d\<lparr>next_buffer_id := b + 1\<rparr>)))"

definition push_output :: "nat \<Rightarrow> int \<Rightarrow> int \<Rightarrow> dag \<Rightarrow> dag" where
  "push_output p output_index b d =
     upd_node p (\<lambda>n. n\<lparr>output_buffer_ids := output_buffer_ids n @ [b],
         output_index_to_buffer_id := AList.update output_index b (output_index_to_buffer_id n)\<rparr>)
       (upd_buf b (\<lambda>x. x\<lparr>producer_output_index := output_index, producer_stage_id := int (n_id (node d p))\<rparr>) d)"

definition push_input :: "nat \<Rightarrow> int \<Rightarrow> dag \<Rightarrow> dag" where
  "push_input c b d =
     upd_node c (\<lambda>n. n\<lparr>input_buffer_ids := input_buffer_ids n @ [b]\<rparr>)
       (upd_buf b (\<lambda>x. x\<lparr>consumer_stage_ids := consumer_stage_ids x @ [n_id (node d c)]\<rparr>) d)"

definition describe :: "int \<Rightarrow> size_t \<Rightarrow> string \<Rightarrow> bool \<Rightarrow> bool \<Rightarrow> dag \<Rightarrow> dag" where
  "describe b sz tag pers ext =
     upd_buf b (\<lambda>x. x\<lparr>b_size := sz, initial_size := sz, b_tag := tag, is_persistent := pers, is_external := ext\<rparr>)"

definition edge_tag :: "dag \<Rightarrow> nat \<Rightarrow> nat \<Rightarrow> string" where
  "edge_tag d p c = n_name (node d p) @ ''_to_'' @ n_name (node d c)"

definition addDependency ::
  "nat option \<Rightarrow> nat option \<Rightarrow> size_t \<Rightarrow> int \<Rightarrow> dag \<Rightarrow> dag \<times> int res" where
  "addDependency dependent dependency buffer_size output_index d =
     (if is_finalized d then (d, Inl (RuntimeError ''Cannot modify DAG after finalization''))
      else case (dependent, dependency) of
        (Some c, Some p) \<Rightarrow>
          (let (b, d1) = fresh_buffer (link c p d) in
           if buffer_size = 0 \<and> n_stage (node d p) \<noteq> None
           then (d1, Inl (RuntimeError ''Buffer size must be provided for dependency''))
           else (push_input c b (push_output p output_index b
                   (describe b buffer_size (edge_tag d p c) False False d1)), Inr b))
      | _ \<Rightarrow> (d, Inl (RuntimeError ''Cannot add null dependency'')))"

definition setInputBuffer :: "nat \<Rightarrow> size_t \<Rightarrow> string \<Rightarrow> dag \<Rightarrow> dag res" where
  "setInputBuffer i sz tag d =
     (if is_finalized d then Inl (RuntimeError ''Cannot modify DAG after finalization'')
      else let (b, d1) = fresh_buffer d in Inr (push_input i b (describe b sz tag True True d1)))"

definition setOutputBuffer :: "nat \<Rightarrow> size_t \<Rightarrow> string \<Rightarrow> dag \<Rightarrow> dag res" where
  "setOutputBuffer i sz tag d =
     (if is_finalized d then Inl (RuntimeError ''Cannot modify DAG after finalization'')
      else let (b, d1) = fresh_buffer d
           in Inr (push_output i (int (length (output_buffer_ids (node d i)))) b
                (describe b sz tag True False d1)))"

definition addUnconnectedOutput :: "nat \<Rightarrow> size_t \<Rightarrow> int \<Rightarrow> string \<Rightarrow> dag \<Rightarrow> (int \<times> dag) res" where
  "addUnconnectedOutput i sz output_index tag d =
     (if is_finalized d then Inl (RuntimeError ''Cannot modify DAG after finalization'')
      else let (b, d1) = fresh_buffer d
           in Inr (b, push_output i output_index b (describe b sz tag False False d1)))"

definition connectExistingOutput :: "nat option \<Rightarrow> nat option \<Rightarrow> int \<Rightarrow> dag \<Rightarrow> (bool \<times> dag) res" where
  "connectExistingOutput producer consumer output_index d =
     (if is_finalized d then Inl (RuntimeError ''Cannot modify DAG after finalization'')
      else case (producer, consumer) of
        (Some p, Some c) \<Rightarrow>
          (case map_of (output_index_to_buffer_id (node d p)) output_index of
             None \<Rightarrow> Inr (False, d)
           | Some b \<Rightarrow>
               Inr (True, upd_buf b (\<lambda>x. x\<lparr>b_tag := edge_tag d p c, is_persistent := False\<rparr>)
                            (push_input c b (link c p d))))
      | _ \<Rightarrow> Inl (RuntimeError ''Cannot connect null nodes''))"

definition updateBufferTag :: "int \<Rightarrow> string \<Rightarrow> dag \<Rightarrow> dag res" where
  "updateBufferTag b tag d =
     (if buffers d b = None then Inl (RuntimeError ''Buffer does not exist'')
      else Inr (upd_buf b (\<lambda>x. x\<lparr>b_tag := tag\<rparr>) d))"

definition setBufferPersistent :: "int \<Rightarrow> bool \<Rightarrow> dag \<Rightarrow> dag res" where
  "setBufferPersistent b pers d =
     (if buffers d b = None then Inl (RuntimeError ''Buffer does not exist'')
      else Inr (upd_buf b (\<lambda>x. x\<lparr>is_persistent := pers\<rparr>) d))"

text \<open>\<open>mk k\<close>: the handles \<open>k\<close> calls of \<open>cudaStreamCreate\<close> return, \<open>None\<close> when one fails.\<close>

definition configureStreams :: "(nat \<Rightarrow> nat list option) \<Rightarrow> int \<Rightarrow> dag \<Rightarrow> dag \<times> unit res" where
  "configureStreams mk num_streams d =
     (if is_finalized d then (d, Inl (RuntimeError ''Cannot configure streams after finalization''))
      else
        let d1 = (if owns_streams d then d\<lparr>streams := []\<rparr> else d) in
        case mk (nat num_streams) of
          None \<Rightarrow> (d1\<lparr>streams := []\<rparr>, Inl (RuntimeError ''Failed to create CUDA stream: ''))
        | Some ss \<Rightarrow> (d1\<lparr>streams := streams d1 @ ss, owns_streams := True\<rparr>, Inr ()))"

subsection \<open>Finalization\<close>

definition in_degrees :: "nat list list \<Rightarrow> int list" where
  "in_degrees deps = map (\<lambda>v. int (sum_list (map (\<lambda>ds. count_list ds v) deps))) [0..<length deps]"

text \<open>One visit of Kahn's loop: decrement each dependent, push those that reach 0.\<close>

fun dec_deps :: "nat list \<Rightarrow> int list \<times> nat list \<Rightarrow> int list \<times> nat list" where
  "dec_deps [] (deg, q) = (deg, q)"
| "dec_deps (v # vs) (deg, q) =
     (if v < length deg
      then dec_deps vs (deg[v := deg ! v - 1], if deg ! v - 1 = 0 then q @ [v] else q)
      else dec_deps vs (deg, q))"

lemma dec_deps_measure:
  "dec_deps vs (deg, q) = (deg', q') \<Longrightarrow>
     sum_list (map nat deg') + length q' \<le> sum_list (map nat deg) + length q \<and> length deg' = length deg"
proof (induction vs arbitrary: deg q)
  case (Cons v vs)
  show ?case
  proof (cases "v < length deg")
    case True
    have "sum_list (map nat (deg[v := deg ! v - 1])) + (if deg ! v - 1 = 0 then 1 else 0) \<le> sum_list (map nat deg)"
    proof -
      have "sum_list (map nat (deg[v := deg ! v - 1])) + nat (deg ! v) = sum_list (map nat deg) + nat (deg ! v - 1)"
        using True by (simp add: map_update sum_list_update)
          (metis (no_types, lifting) add_diff_inverse_nat elem_le_sum_list length_map map_update nth_map
            ab_semigroup_add_class.add_ac(1) add.commute le_add_diff_inverse not_less trans_le_add1)
      then show ?thesis by auto
    qed
    with Cons.IH [of "deg[v := deg ! v - 1]"] Cons.prems True show ?thesis
      by (fastforce split: if_splits)
  next
    case False
    with Cons show ?thesis by auto
  qed
qed auto

function kahn :: "nat list list \<Rightarrow> int list \<Rightarrow> nat list \<Rightarrow> nat \<Rightarrow> nat" where
  "kahn deps deg [] visited = visited"
| "kahn deps deg (cur # q) visited =
     kahn deps (fst (dec_deps (if cur < length deps then deps ! cur else []) (deg, q)))
       (snd (dec_deps (if cur < length deps then deps ! cur else []) (deg, q))) (visited + 1)"
  by pat_completeness auto
termination
proof (relation "measure (\<lambda>(deps, deg, q, visited). sum_list (map nat deg) + length q)", goal_cases)
  case (2 deps deg cur q visited)
  show ?case
    using dec_deps_measure [of "if cur < length deps then deps ! cur else []" deg q] by (auto simp: prod_eq_iff)
qed simp

text \<open>\<open>ord\<close> is the iteration order of the \<open>unordered_map\<close> of in-degrees: any order of the node ids.\<close>

definition kahn_visited :: "nat list \<Rightarrow> dag \<Rightarrow> nat" where
  "kahn_visited ord d =
     (let deps = map dependents (nodes d); deg = in_degrees deps
      in kahn deps deg (filter (\<lambda>i. deg ! i = 0) ord) 0)"

text \<open>
  \<open>assignLevels\<close> works through the nodes in insertion order; a dependency that has not been
  reached yet still has the level it had before, \<open>- 1\<close> in a fresh node.
\<close>

definition node_level :: "dag_node list \<Rightarrow> dag_node \<Rightarrow> int" where
  "node_level ns n =
     (if dependencies n = [] then 0
      else foldl (\<lambda>m p. max m (n_level (ns ! p))) (- 1) (dependencies n) + 1)"

definition assign_level :: "nat \<Rightarrow> dag_node list \<Rightarrow> dag_node list" where
  "assign_level i ns = ns[i := (ns ! i)\<lparr>execution_order := int i, n_level := node_level ns (ns ! i)\<rparr>]"

definition assignLevels :: "dag \<Rightarrow> dag" where
  "assignLevels d =
     (let ns = fold assign_level [0..<length (nodes d)] (nodes d);
          ml = foldl (\<lambda>m n. max m (n_level n)) 0 ns
      in d\<lparr>nodes := ns, max_level := ml,
           levels := map (\<lambda>l. filter (\<lambda>i. n_level (ns ! i) = int l) [0..<length ns]) [0..<nat ml + 1]\<rparr>)"

text \<open>The per-level counter is the number of earlier nodes with the same level.\<close>

definition assignStreams :: "dag \<Rightarrow> dag" where
  "assignStreams d =
     (if streams d = [] then d
      else d\<lparr>nodes := map (\<lambda>i. (node d i)\<lparr>n_stream :=
               streams d ! (length (filter (\<lambda>j. n_level (node d j) = n_level (node d i)) [0..<i])
                 mod length (streams d))\<rparr>) [0..<length (nodes d)]\<rparr>)"

definition getMaxParallelism :: "dag \<Rightarrow> nat" where
  "getMaxParallelism d = foldl (\<lambda>m l. max m (length l)) 0 (levels d)"

definition dag_finalize :: "nat list \<Rightarrow> (nat \<Rightarrow> nat list option) \<Rightarrow> dag \<Rightarrow> dag \<times> unit res" where
  "dag_finalize ord mk d =
     (let d1 = d\<lparr>buffer_table := map (\<lambda>(b, x). (b, x\<lparr>remaining_consumers := int (length (consumer_stage_ids x))\<rparr>))
                 (buffer_table d)\<rparr> in
      if kahn_visited ord d1 \<noteq> length (nodes d1)
      then (d1, Inl (RuntimeError ''Cyclic dependency detected in pipeline graph! ''))
      else
        let d2 = assignLevels d1;
            mp = getMaxParallelism d2;
            fin = (\<lambda>d3. ((assignStreams d3)\<lparr>is_finalized := True\<rparr>, Inr ()))
        in if streams d2 \<noteq> [] then fin d2
           else if 1 < mp then
             (case mk mp of
                None \<Rightarrow> (d2, Inl (RuntimeError ''Failed to auto-create CUDA stream: ''))
              | Some ss \<Rightarrow> fin (d2\<lparr>streams := ss, owns_streams := True\<rparr>))
           else fin (d2\<lparr>streams := [0], owns_streams := False\<rparr>))"

definition set_fused_group :: "dag \<Rightarrow> fused_group_exec \<Rightarrow> int list" where
  "set_fused_group d fg =
     concat (map (\<lambda>m. filter (\<lambda>b. consumer_stage_ids (buf d b) \<noteq> [] \<and>
        list_all (\<lambda>c. c \<in> set (map (\<lambda>m. n_id (node d m)) (fg_members fg))) (consumer_stage_ids (buf d b)))
        (output_buffer_ids (node d m))) (fg_members fg))"

definition setFusedGroups :: "fused_group_exec list \<Rightarrow> dag \<Rightarrow> dag" where
  "setFusedGroups groups d =
     d\<lparr>fused_groups := groups,
       fused_head := map_of (rev (zip (map fg_head groups) [0..<length groups])),
       fused_member := concat (map fg_members groups),
       fused_internal_buffers := concat (map (set_fused_group d) groups)\<rparr>"

text \<open>\<open>graph_ok s\<close>: \<open>isGraphCompatible\<close> of stage \<open>s\<close>.\<close>

definition setCaptureMode :: "(nat \<Rightarrow> bool) \<Rightarrow> bool \<Rightarrow> dag \<Rightarrow> dag res" where
  "setCaptureMode graph_ok capture d =
     (if capture \<and> (\<exists>n\<in>set (nodes d). \<exists>s\<in>set_option (n_stage n). \<not> graph_ok s)
      then Inl (RuntimeError ''Cannot enable CUDA Graph capture mode: the following stages are not graph-compatible: '')
      else Inr (d\<lparr>capture_mode := capture\<rparr>))"

definition getBuffer :: "int \<Rightarrow> dag \<Rightarrow> dptr res" where
  "getBuffer b d = (case buffers d b of None \<Rightarrow> Inl (RuntimeError ''Invalid buffer ID: '') | Some x \<Rightarrow> Inr (d_ptr x))"

definition getBufferSize :: "int \<Rightarrow> dag \<Rightarrow> size_t res" where
  "getBufferSize b d = (case buffers d b of None \<Rightarrow> Inl (RuntimeError ''Invalid buffer ID: '') | Some x \<Rightarrow> Inr (b_size x))"

definition getBufferInfo :: "int \<Rightarrow> dag \<Rightarrow> buffer_info res" where
  "getBufferInfo b d = (case buffers d b of None \<Rightarrow> Inl (RuntimeError ''Invalid buffer ID: '') | Some x \<Rightarrow> Inr x)"

definition updateBufferSize :: "int \<Rightarrow> size_t \<Rightarrow> dag \<Rightarrow> dag res" where
  "updateBufferSize b new_size d =
     (case buffers d b of
        None \<Rightarrow> Inl (RuntimeError ''Invalid buffer ID: '')
      | Some x \<Rightarrow> Inr (upd_buf b (\<lambda>x. x\<lparr>b_size := new_size, initial_size := new_size\<rparr>) d))"

subsection \<open>Cycle detection\<close>

definition dep_edges :: "nat list list \<Rightarrow> (nat \<times> nat) set" where
  "dep_edges deps = {(u, v). u < length deps \<and> v \<in> set (deps ! u)}"

definition deps_ok :: "nat list list \<Rightarrow> bool" where
  "deps_ok deps \<longleftrightarrow> (\<forall>ds\<in>set deps. \<forall>v\<in>set ds. v < length deps)"

definition pending :: "nat list list \<Rightarrow> nat set \<Rightarrow> nat \<Rightarrow> nat" where
  "pending deps P v = (\<Sum>u\<in>{..<length deps} - P. count_list (deps ! u) v)"

lemma pending_0_iff: "pending deps P v = 0 \<longleftrightarrow> (\<forall>u<length deps. u \<notin> P \<longrightarrow> v \<notin> set (deps ! u))"
  by (auto simp: pending_def count_list_0_iff)

lemma pending_insert:
  assumes "c < length deps" "c \<notin> P"
  shows "pending deps P v = count_list (deps ! c) v + pending deps (insert c P) v"
proof -
  have "sum f ({..<length deps} - P) = f c + sum f ({..<length deps} - P - {c})" for f :: "nat \<Rightarrow> nat"
    using assms by (intro sum.remove) auto
  moreover have "{..<length deps} - P - {c} = {..<length deps} - insert c P" by auto
  ultimately show ?thesis unfolding pending_def by metis
qed

lemma dec_deps_spec:
  assumes "dec_deps vs (deg, q) = (deg', q')" "\<forall>v\<in>set vs. v < length deg"
  shows "length deg' = length deg \<and>
    (\<forall>v<length deg. deg' ! v = deg ! v - int (count_list vs v)) \<and>
    (\<exists>new. q' = q @ new \<and> distinct new \<and>
       set new = {v. v < length deg \<and> 0 < deg ! v \<and> deg ! v \<le> int (count_list vs v)})"
  using assms
proof (induction vs arbitrary: deg q)
  case Nil
  then show ?case by auto
next
  case (Cons v vs)
  let ?deg = "deg[v := deg ! v - 1]" and ?q = "if deg ! v - 1 = 0 then q @ [v] else q"
  have v: "v < length deg" using Cons.prems(2) by simp
  have "dec_deps vs (?deg, ?q) = (deg', q')" using Cons.prems(1) v by simp
  from Cons.IH [OF this] Cons.prems(2) obtain new where
    len: "length deg' = length deg" and
    val: "\<And>w. w < length deg \<Longrightarrow> deg' ! w = ?deg ! w - int (count_list vs w)" and
    new: "q' = ?q @ new" "distinct new" and
    mem: "\<And>w. w \<in> set new \<longleftrightarrow> w < length deg \<and> 0 < ?deg ! w \<and> ?deg ! w \<le> int (count_list vs w)"
    by auto
  have deg1: "?deg ! w = (if w = v then deg ! v - 1 else deg ! w)" if "w < length deg" for w
    using that by (simp add: nth_list_update)
  have "\<forall>w<length deg. deg' ! w = deg ! w - int (count_list (v # vs) w)"
    using val deg1 by simp
  moreover have "\<exists>new. q' = q @ new \<and> distinct new \<and>
       set new = {w. w < length deg \<and> 0 < deg ! w \<and> deg ! w \<le> int (count_list (v # vs) w)}"
  proof (cases "deg ! v = 1")
    case True
    have "v \<notin> set new" using mem [of v] deg1 [of v] v True by simp
    moreover have "set (v # new) = {w. w < length deg \<and> 0 < deg ! w \<and> deg ! w \<le> int (count_list (v # vs) w)}"
      (is "_ = ?S")
    proof (rule set_eqI)
      fix w show "w \<in> set (v # new) \<longleftrightarrow> w \<in> ?S"
        using mem [of w] deg1 [of w] v True by (cases "w = v") auto
    qed
    ultimately show ?thesis using new True by (intro exI [of _ "v # new"]) simp
  next
    case False
    have "set new = {w. w < length deg \<and> 0 < deg ! w \<and> deg ! w \<le> int (count_list (v # vs) w)}" (is "_ = ?S")
    proof (rule set_eqI)
      fix w show "w \<in> set new \<longleftrightarrow> w \<in> ?S"
        using mem [of w] deg1 [of w] v False by (cases "w = v") auto
    qed
    with new False show ?thesis by auto
  qed
  ultimately show ?case using len by blast
qed

text \<open>
  The state of Kahn's loop: \<open>P\<close> is the set of nodes popped so far, the in-degrees count the edges
  from the others, the queue holds the nodes at 0 not yet popped, and \<open>f\<close> ranks the popped ones.
\<close>

definition kahn_inv :: "nat list list \<Rightarrow> nat set \<Rightarrow> int list \<Rightarrow> nat list \<Rightarrow> bool" where
  "kahn_inv deps P deg q \<longleftrightarrow>
     P \<subseteq> {..<length deps} \<and> distinct q \<and> set q \<inter> P = {} \<and> set q \<subseteq> {..<length deps} \<and> length deg = length deps \<and>
     (\<forall>v<length deps. deg ! v = int (pending deps P v)) \<and>
     (\<forall>v<length deps. v \<in> P \<union> set q \<longleftrightarrow> deg ! v = 0) \<and>
     (\<exists>f. (\<forall>u\<in>P. f u < card P) \<and> (\<forall>(u, v)\<in>dep_edges deps. v \<in> P \<longrightarrow> f u < (f v :: nat)))"

lemma kahn_inv_closed:
  assumes "kahn_inv deps P deg q" "(u, v) \<in> dep_edges deps" "v \<in> P \<union> set q"
  shows "u \<in> P"
proof -
  have "v < length deps" using assms(1,3) by (auto simp: kahn_inv_def)
  with assms(1,3) have "pending deps P v = 0" by (simp add: kahn_inv_def)
  with assms(2) show ?thesis by (auto simp: pending_0_iff dep_edges_def)
qed

lemma kahn_inv_step:
  assumes inv: "kahn_inv deps P deg (c # q)" and ok: "deps_ok deps"
    and step: "dec_deps (deps ! c) (deg, q) = (deg', q')"
  shows "kahn_inv deps (insert c P) deg' q'"
proof -
  let ?n = "length deps"
  have c: "c < ?n" "c \<notin> P" "c \<notin> set q" and len: "length deg = ?n" using inv by (auto simp: kahn_inv_def)
  have fin: "finite P" using inv by (auto simp: kahn_inv_def intro: finite_subset)
  have "\<forall>v\<in>set (deps ! c). v < length deg" using ok c len by (auto simp: deps_ok_def)
  from dec_deps_spec [OF step this] obtain new where
    sp: "length deg' = ?n" "\<forall>v<?n. deg' ! v = deg ! v - int (count_list (deps ! c) v)"
      "q' = q @ new" "distinct new" "set new = {v. v < ?n \<and> 0 < deg ! v \<and> deg ! v \<le> int (count_list (deps ! c) v)}"
    by (auto simp: len)
  have deg0: "\<forall>v<?n. v \<in> P \<union> set (c # q) \<longleftrightarrow> deg ! v = 0" using inv by (simp add: kahn_inv_def)
  have deg: "\<forall>v<?n. deg ! v = int (pending deps P v)" using inv by (simp add: kahn_inv_def)
  then have deg': "\<forall>v<?n. deg' ! v = int (pending deps (insert c P) v)"
    using sp(2) pending_insert [OF c(1,2)] by simp
  have "\<forall>v<?n. v \<in> insert c P \<union> set q' \<longleftrightarrow> deg' ! v = 0"
  proof (intro allI impI)
    fix v assume v: "v < ?n"
    have nn: "0 \<le> deg' ! v" "0 \<le> deg ! v" using deg deg' v by simp_all
    show "v \<in> insert c P \<union> set q' \<longleftrightarrow> deg' ! v = 0"
    proof -
      have "v \<in> set new \<longleftrightarrow> 0 < deg ! v \<and> deg ! v \<le> int (count_list (deps ! c) v)" using sp(5) v by simp
      moreover have "v \<in> insert c P \<union> set q' \<longleftrightarrow> deg ! v = 0 \<or> v \<in> set new"
        using deg0 [rule_format, OF v] sp(3) by auto
      ultimately show ?thesis using sp(2) [rule_format, OF v] nn by linarith
    qed
  qed
  moreover have "distinct q'" "set q' \<inter> insert c P = {}"
  proof -
    have "set new \<inter> (P \<union> set (c # q)) = {}" using sp(5) deg0 by fastforce
    moreover have "distinct (c # q)" "set (c # q) \<inter> P = {}" using inv by (simp_all add: kahn_inv_def)
    ultimately show "distinct q'" "set q' \<inter> insert c P = {}" using sp(3,4) by auto
  qed
  moreover have "\<exists>f. (\<forall>u\<in>insert c P. f u < card (insert c P)) \<and>
      (\<forall>(u, v)\<in>dep_edges deps. v \<in> insert c P \<longrightarrow> f u < (f v :: nat))"
  proof -
    obtain f where f: "\<forall>u\<in>P. f u < card P" "\<forall>(u, v)\<in>dep_edges deps. v \<in> P \<longrightarrow> f u < (f v :: nat)"
      using inv by (auto simp: kahn_inv_def)
    let ?g = "f(c := card P)"
    have "?g u < ?g v" if "(u, v) \<in> dep_edges deps" "v \<in> insert c P" for u v
    proof -
      have "u \<in> P" using kahn_inv_closed [OF inv that(1)] that(2) by auto
      then show ?thesis using f that c by auto
    qed
    moreover have "\<forall>u\<in>insert c P. ?g u < card (insert c P)" using f(1) c fin by (auto intro: less_SucI)
    ultimately show ?thesis by blast
  qed
  ultimately show ?thesis
    using inv sp c deg' by (auto simp: kahn_inv_def)
qed

lemma kahn_result:
  assumes "kahn_inv deps P deg q" "deps_ok deps" "visited = card P"
  shows "\<exists>P' deg'. kahn_inv deps P' deg' [] \<and> kahn deps deg q visited = card P'"
  using assms
proof (induction deps deg q visited arbitrary: P rule: kahn.induct)
  case (1 deps deg visited)
  then show ?case by auto
next
  case (2 deps deg cur q visited)
  obtain deg' q' where st: "dec_deps (deps ! cur) (deg, q) = (deg', q')" by (cases "dec_deps (deps ! cur) (deg, q)")
  have cur: "cur < length deps" "cur \<notin> P" "finite P"
    using 2(2) by (auto simp: kahn_inv_def intro: finite_subset)
  have "kahn_inv deps (insert cur P) deg' q'" using kahn_inv_step [OF 2(2,3) st] .
  moreover have "visited + 1 = card (insert cur P)" using cur 2(4) by simp
  ultimately show ?case using 2(1) [of "insert cur P"] st cur 2(3) by simp
qed

lemma acyclic_rank:
  assumes "\<forall>(u, v)\<in>E. f u < (f v :: nat)"
  shows "acyclic E"
proof -
  have "E \<subseteq> measure f" using assms by (auto simp: measure_def inv_image_def)
  then show ?thesis using wf_measure by (metis wf_acyclic acyclic_subset)
qed

lemma kahn_all_iff:
  assumes "kahn_inv deps P deg []" "deps_ok deps"
  shows "card P = length deps \<longleftrightarrow> acyclic (dep_edges deps)"
proof
  assume "card P = length deps"
  moreover have "P \<subseteq> {..<length deps}" using assms(1) by (simp add: kahn_inv_def)
  ultimately have "P = {..<length deps}" by (intro card_subset_eq) simp_all
  then have P: "v \<in> P" if "(u, v) \<in> dep_edges deps" for u v
    using assms(2) that by (auto simp: dep_edges_def deps_ok_def)
  obtain f where "\<forall>(u, v)\<in>dep_edges deps. v \<in> P \<longrightarrow> f u < (f v :: nat)"
    using assms(1) by (auto simp: kahn_inv_def)
  with P have "\<forall>(u, v)\<in>dep_edges deps. f u < f v" by blast
  then show "acyclic (dep_edges deps)" using acyclic_rank by blast
next
  assume ac: "acyclic (dep_edges deps)"
  have "dep_edges deps \<subseteq> {..<length deps} \<times> {..<length deps}"
    using assms(2) by (auto simp: dep_edges_def deps_ok_def)
  then have "finite (dep_edges deps)" by (rule finite_subset) simp
  with ac have wf: "wf (dep_edges deps)" by (simp add: finite_acyclic_wf)
  have "v < length deps \<Longrightarrow> v \<in> P" for v
    using wf
  proof (induction v rule: wf_induct_rule)
    case (less v)
    then have "pending deps P v = 0" by (auto simp: pending_0_iff dep_edges_def)
    with assms(1) less.prems show ?case by (simp add: kahn_inv_def)
  qed
  then have "P = {..<length deps}" using assms(1) by (auto simp: kahn_inv_def)
  then show "card P = length deps" by simp
qed

lemma in_degrees_nth: "v < length deps \<Longrightarrow> in_degrees deps ! v = int (pending deps {} v)"
  by (simp add: in_degrees_def pending_def sum_list_sum_nth atLeast0LessThan)

lemma kahn_inv_init:
  assumes "deps_ok deps" "distinct ord" "set ord = {..<length deps}"
  shows "kahn_inv deps {} (in_degrees deps) (filter (\<lambda>i. in_degrees deps ! i = 0) ord)"
  using assms in_degrees_nth [of _ deps] by (simp add: kahn_inv_def) (auto simp: in_degrees_def)

lemma kahn_acyclic:
  assumes "deps_ok deps" "distinct ord" "set ord = {..<length deps}"
  shows "kahn deps (in_degrees deps) (filter (\<lambda>i. in_degrees deps ! i = 0) ord) 0 = length deps \<longleftrightarrow>
    acyclic (dep_edges deps)"
  using kahn_result [OF kahn_inv_init [OF assms] assms(1)] kahn_all_iff [OF _ assms(1)] by fastforce

subsection \<open>Well-formed graphs\<close>

definition wf_links :: "dag \<Rightarrow> bool" where
  "wf_links d \<longleftrightarrow>
     (\<forall>i<length (nodes d). n_id (node d i) = i) \<and>
     (\<forall>i<length (nodes d). \<forall>j\<in>set (dependencies (node d i)). j < length (nodes d)) \<and>
     (\<forall>i<length (nodes d). \<forall>j\<in>set (dependents (node d i)). j < length (nodes d)) \<and>
     (\<forall>u<length (nodes d). \<forall>v<length (nodes d).
        count_list (dependents (node d u)) v = count_list (dependencies (node d v)) u)"

definition wf_dom :: "dag \<Rightarrow> bool" where
  "wf_dom d \<longleftrightarrow> distinct (map fst (buffer_table d)) \<and> 0 \<le> next_buffer_id d \<and> (\<forall>b. buffers d b \<noteq> None \<longleftrightarrow> 0 \<le> b \<and> b < next_buffer_id d)"

definition wf_inputs :: "dag \<Rightarrow> bool" where
  "wf_inputs d \<longleftrightarrow>
     (\<forall>b. \<forall>c\<in>set (consumer_stage_ids (buf d b)). c < length (nodes d)) \<and>
     (\<forall>b. \<forall>i<length (nodes d). count_list (input_buffer_ids (node d i)) b = count_list (consumer_stage_ids (buf d b)) i) \<and>
     (\<forall>b. \<forall>c\<in>set (consumer_stage_ids (buf d b)).
        producer_stage_id (buf d b) = - 1 \<and> is_external (buf d b) \<or> 0 \<le> producer_stage_id (buf d b) \<and> nat (producer_stage_id (buf d b)) \<in> set (dependencies (node d c)))"

definition wf_outputs :: "dag \<Rightarrow> bool" where
  "wf_outputs d \<longleftrightarrow>
     (\<forall>b. - 1 \<le> producer_stage_id (buf d b) \<and> producer_stage_id (buf d b) < int (length (nodes d))) \<and>
     (\<forall>i<length (nodes d). \<forall>b. b \<in> set (output_buffer_ids (node d i)) \<longleftrightarrow> producer_stage_id (buf d b) = int i) \<and>
     (\<forall>i<length (nodes d). distinct (output_buffer_ids (node d i))) \<and>
     (\<forall>i<length (nodes d). \<forall>b\<in>snd ` set (output_index_to_buffer_id (node d i)). b \<in> set (output_buffer_ids (node d i)))"

definition dag_wf :: "dag \<Rightarrow> bool" where
  "dag_wf d \<longleftrightarrow> wf_links d \<and> wf_dom d \<and> wf_inputs d \<and> wf_outputs d"

lemmas dag_wf_defs = dag_wf_def wf_links_def wf_dom_def wf_inputs_def wf_outputs_def

lemma buf_upd_buf [simp]: "buf (upd_buf b f d) c = (if c = b then f (buf d b) else buf d c)"
  by (simp add: buf_def upd_buf_def buffers_def update_conv')

lemma distinct_upd_buf [simp]:
  "distinct (map fst (buffer_table d)) \<Longrightarrow> distinct (map fst (buffer_table (upd_buf b f d)))"
  by (simp add: upd_buf_def distinct_update)

lemma table_upd_node [simp]: "buffer_table (upd_node i f d) = buffer_table d"
  by (simp add: upd_node_def)

lemma buf_upd_node [simp]: "buf (upd_node i f d) c = buf d c"
  by (simp add: buf_def buffers_def)

lemma nodes_upd_buf [simp]: "nodes (upd_buf b f d) = nodes d"
  by (simp add: upd_buf_def)

lemma length_upd_node [simp]: "length (nodes (upd_node i f d)) = length (nodes d)"
  by (simp add: upd_node_def)

lemma node_upd_node [simp]: "i < length (nodes d) \<Longrightarrow> node (upd_node i f d) j = (if j = i then f (node d i) else node d j)"
  by (simp add: upd_node_def)

lemma buffers_upd [simp]:
  "buffers (upd_buf b f d) c = (if c = b then Some (f (buf d b)) else buffers d c)"
  "buffers (upd_node i g d) = buffers d"
  "next_buffer_id (upd_buf b f d) = next_buffer_id d"
  "next_buffer_id (upd_node i g d) = next_buffer_id d"
  by (simp_all add: upd_buf_def upd_node_def buffers_def update_conv')

lemma buffers_next [simp]: "buffers (d\<lparr>next_buffer_id := n\<rparr>) = buffers d" "buf (d\<lparr>next_buffer_id := n\<rparr>) = buf d"
  by (simp_all add: buffers_def buf_def fun_eq_iff)

lemma buf_None: "buffers d b = None \<Longrightarrow> buf d b = new_buffer"
  by (simp add: buf_def)

lemma new_dag_wf: "dag_wf (new_dag s)"
  by (simp add: dag_wf_defs new_dag_def buf_def buffers_def new_buffer_def)

text \<open>Each part of the invariant looks at a few fields only.\<close>

lemma wf_links_cong:
  assumes "length (nodes d') = length (nodes d)" "\<And>i. n_id (node d' i) = n_id (node d i)"
    and "\<And>i. dependencies (node d' i) = dependencies (node d i)" "\<And>i. dependents (node d' i) = dependents (node d i)"
  shows "wf_links d' = wf_links d"
  unfolding wf_links_def assms ..

lemma wf_inputs_cong:
  assumes "length (nodes d') = length (nodes d)" "\<And>i. dependencies (node d' i) = dependencies (node d i)"
    and "\<And>i. input_buffer_ids (node d' i) = input_buffer_ids (node d i)"
    and "\<And>b. consumer_stage_ids (buf d' b) = consumer_stage_ids (buf d b)"
    and "\<And>b. producer_stage_id (buf d' b) = producer_stage_id (buf d b)"
    and "\<And>b. is_external (buf d' b) = is_external (buf d b)"
  shows "wf_inputs d' = wf_inputs d"
  unfolding wf_inputs_def assms ..

lemma wf_outputs_cong:
  assumes "length (nodes d') = length (nodes d)" "\<And>i. output_buffer_ids (node d' i) = output_buffer_ids (node d i)"
    and "\<And>i. output_index_to_buffer_id (node d' i) = output_index_to_buffer_id (node d i)"
    and "\<And>b. producer_stage_id (buf d' b) = producer_stage_id (buf d b)"
  shows "wf_outputs d' = wf_outputs d"
  unfolding wf_outputs_def assms ..

lemma wf_linksD:
  assumes "wf_links d" "i < length (nodes d)"
  shows "n_id (node d i) = i" "j \<in> set (dependencies (node d i)) \<Longrightarrow> j < length (nodes d)"
    "j \<in> set (dependents (node d i)) \<Longrightarrow> j < length (nodes d)"
    "k < length (nodes d) \<Longrightarrow> count_list (dependents (node d i)) k = count_list (dependencies (node d k)) i"
  using assms unfolding wf_links_def by blast+

lemma wf_inputsD:
  assumes "wf_inputs d"
  shows "c \<in> set (consumer_stage_ids (buf d b)) \<Longrightarrow> c < length (nodes d)"
    "i < length (nodes d) \<Longrightarrow> count_list (input_buffer_ids (node d i)) b = count_list (consumer_stage_ids (buf d b)) i"
    "c \<in> set (consumer_stage_ids (buf d b)) \<Longrightarrow>
       producer_stage_id (buf d b) = - 1 \<and> is_external (buf d b) \<or> 0 \<le> producer_stage_id (buf d b) \<and> nat (producer_stage_id (buf d b)) \<in> set (dependencies (node d c))"
  using assms unfolding wf_inputs_def by blast+

lemma wf_outputsD:
  assumes "wf_outputs d"
  shows "- 1 \<le> producer_stage_id (buf d b)" "producer_stage_id (buf d b) < int (length (nodes d))"
    "i < length (nodes d) \<Longrightarrow> b \<in> set (output_buffer_ids (node d i)) \<longleftrightarrow> producer_stage_id (buf d b) = int i"
    "i < length (nodes d) \<Longrightarrow> distinct (output_buffer_ids (node d i))"
    "i < length (nodes d) \<Longrightarrow> b \<in> snd ` set (output_index_to_buffer_id (node d i)) \<Longrightarrow> b \<in> set (output_buffer_ids (node d i))"
  using assms unfolding wf_outputs_def by blast+

lemma wf_dom_cong:
  assumes "next_buffer_id d' = next_buffer_id d" "\<And>b. buffers d' b = None \<longleftrightarrow> buffers d b = None"
    and "distinct (map fst (buffer_table d)) \<Longrightarrow> distinct (map fst (buffer_table d'))" "wf_dom d"
  shows "wf_dom d'"
  using assms by (simp add: wf_dom_def)

lemma wf_links_link:
  assumes "wf_links d" "c < length (nodes d)" "p < length (nodes d)"
  shows "wf_links (link c p d)"
proof -
  let ?d = "link c p d"
  have len: "length (nodes ?d) = length (nodes d)" by (simp add: link_def)
  have id: "n_id (node ?d i) = n_id (node d i)" for i using assms(2,3) by (simp add: link_def)
  have dep: "dependencies (node ?d i) = dependencies (node d i) @ (if i = c then [p] else [])" for i
    using assms(2,3) by (simp add: link_def)
  have dpt: "dependents (node ?d i) = dependents (node d i) @ (if i = p then [c] else [])" for i
    using assms(2,3) by (simp add: link_def)
  note D = wf_linksD [OF assms(1)]
  show ?thesis unfolding wf_links_def len
  proof (intro conjI allI impI ballI)
    fix i assume i: "i < length (nodes d)"
    show "n_id (node ?d i) = i" using D(1) [OF i] id by simp
    show "j < length (nodes d)" if "j \<in> set (dependencies (node ?d i))" for j
      using that D(2) [OF i, of j] assms(3) unfolding dep by (auto split: if_splits)
    show "j < length (nodes d)" if "j \<in> set (dependents (node ?d i))" for j
      using that D(3) [OF i, of j] assms(2) unfolding dpt by (auto split: if_splits)
    show "count_list (dependents (node ?d i)) v = count_list (dependencies (node ?d v)) i"
      if "v < length (nodes d)" for v
      using D(4) [OF i that] unfolding dep dpt by simp
  qed
qed

lemma dag_wf_link:
  assumes "dag_wf d" "c < length (nodes d)" "p < length (nodes d)"
  shows "dag_wf (link c p d)"
proof -
  have "wf_dom (link c p d)" by (rule wf_dom_cong [where d = d]) (use assms(1) in \<open>simp_all add: link_def dag_wf_def\<close>)
  moreover have "wf_outputs (link c p d) = wf_outputs d"
    using assms(2,3) by (intro wf_outputs_cong) (simp_all add: link_def)
  moreover have "wf_inputs (link c p d)"
  proof -
    have dep: "dependencies (node (link c p d) k) = dependencies (node d k) @ (if k = c then [p] else [])" for k
      using assms(2,3) by (simp add: link_def)
    have same: "input_buffer_ids (node (link c p d) k) = input_buffer_ids (node d k)"
      "buf (link c p d) = buf d" "length (nodes (link c p d)) = length (nodes d)" for k
      using assms(2,3) by (simp_all add: link_def fun_eq_iff)
    have "wf_inputs d" using assms(1) by (simp add: dag_wf_def)
    note D = wf_inputsD [OF this]
    show ?thesis unfolding wf_inputs_def same dep
    proof (intro conjI allI impI ballI)
      show "producer_stage_id (buf d b) = - 1 \<and> is_external (buf d b) \<or> 0 \<le> producer_stage_id (buf d b) \<and>
          nat (producer_stage_id (buf d b)) \<in> set (dependencies (node d k) @ (if k = c then [p] else []))"
        if "k \<in> set (consumer_stage_ids (buf d b))" for b k
        using D(3) [OF that] by auto
    qed (rule D, assumption)+
  qed
  ultimately show ?thesis using assms wf_links_link [of d c p] by (simp add: dag_wf_def)
qed

lemma fresh_buffer_wf:
  assumes "dag_wf d" "fresh_buffer d = (b, d')"
  shows "dag_wf d'" "buf d' b = new_buffer" "buffers d' b \<noteq> None" "nodes d' = nodes d"
    "is_finalized d' = is_finalized d" "b = next_buffer_id d"
proof -
  have b: "b = next_buffer_id d" and d': "d' = upd_buf b (\<lambda>x. x) (d\<lparr>next_buffer_id := b + 1\<rparr>)"
    using assms(2) by (auto simp: fresh_buffer_def Let_def)
  show "b = next_buffer_id d" by (rule b)
  have none: "buffers d b = None" using assms(1) b by (auto simp: dag_wf_def wf_dom_def)
  have same: "buf d' c = buf d c" for c unfolding d' by simp
  show nod: "nodes d' = nodes d" and "is_finalized d' = is_finalized d" unfolding d' by (simp_all add: upd_buf_def)
  show "buf d' b = new_buffer" using same none by (simp add: buf_None)
  show "buffers d' b \<noteq> None" unfolding d' by simp
  have "buffers d' c = (if c = b then Some (buf d b) else buffers d c)" for c
    unfolding d' by simp
  moreover have "distinct (map fst (buffer_table d'))"
    using assms(1) unfolding d' by (intro distinct_upd_buf) (simp add: dag_wf_def wf_dom_def)
  moreover have "next_buffer_id d' = next_buffer_id d + 1" unfolding d' by (simp add: b)
  ultimately have "wf_dom d'" using assms(1) b unfolding dag_wf_def wf_dom_def by auto
  moreover have "wf_links d' = wf_links d" "wf_inputs d' = wf_inputs d" "wf_outputs d' = wf_outputs d"
    by (rule wf_links_cong wf_inputs_cong wf_outputs_cong; simp add: nod same)+
  ultimately show "dag_wf d'" using assms(1) by (simp add: dag_wf_def)
qed

lemma meta_wf:
  assumes "dag_wf d" "buffers d b \<noteq> None"
    and "\<And>x. consumer_stage_ids (f x) = consumer_stage_ids x" "\<And>x. producer_stage_id (f x) = producer_stage_id x"
    and "\<And>x. is_external (f x) = is_external x"
  shows "dag_wf (upd_buf b f d)"
proof -
  have "wf_dom (upd_buf b f d)" by (rule wf_dom_cong [where d = d]) (use assms(1,2) in \<open>simp_all add: dag_wf_def\<close>)
  moreover have "wf_links (upd_buf b f d) = wf_links d" "wf_inputs (upd_buf b f d) = wf_inputs d"
      "wf_outputs (upd_buf b f d) = wf_outputs d"
    by (rule wf_links_cong wf_inputs_cong wf_outputs_cong; simp add: assms(3-5))+
  ultimately show ?thesis using assms(1) by (simp add: dag_wf_def)
qed

lemma snd_set_update: "snd ` set (AList.update k v al) \<subseteq> insert v (snd ` set al)"
  by (induction al) auto

lemma wf_outputs_push_output:
  assumes "wf_outputs d" "wf_links d" "producer_stage_id (buf d b) = - 1" "p < length (nodes d)"
  shows "wf_outputs (push_output p oi b d)"
proof -
  let ?d = "push_output p oi b d"
  have id: "n_id (node d p) = p" by (rule wf_linksD [OF assms(2,4)])
  have len: "length (nodes ?d) = length (nodes d)" by (simp add: push_output_def)
  have out: "output_buffer_ids (node ?d i) = output_buffer_ids (node d i) @ (if i = p then [b] else [])" for i
    using assms(4) by (simp add: push_output_def)
  have prod: "producer_stage_id (buf ?d x) = (if x = b then int p else producer_stage_id (buf d x))" for x
    using id by (simp add: push_output_def)
  have idx: "snd ` set (output_index_to_buffer_id (node ?d i)) \<subseteq>
      snd ` set (output_index_to_buffer_id (node d i)) \<union> (if i = p then {b} else {})" for i
    using assms(4) snd_set_update [of oi b] by (auto simp: push_output_def)
  note D = wf_outputsD [OF assms(1)]
  have nb: "b \<notin> set (output_buffer_ids (node d i))" if "i < length (nodes d)" for i
    using assms(3) D(3) [OF that] by simp
  show ?thesis unfolding wf_outputs_def len
  proof (intro conjI allI impI ballI)
    fix i assume i: "i < length (nodes d)"
    show "x \<in> set (output_buffer_ids (node ?d i)) \<longleftrightarrow> producer_stage_id (buf ?d x) = int i" for x
      using assms(3) D(3) [OF i, of x] nb [OF i] unfolding out prod by auto
    show "distinct (output_buffer_ids (node ?d i))"
      using D(4) [OF i] nb [OF i] unfolding out by auto
    show "x \<in> set (output_buffer_ids (node ?d i))" if "x \<in> snd ` set (output_index_to_buffer_id (node ?d i))" for x
      using D(5) [OF i, of x] that idx [of i] unfolding out by (auto split: if_splits)
  qed (use D(1,2) assms(4) in \<open>simp_all add: prod\<close>)
qed

lemma push_output_wf:
  assumes "dag_wf d" "buffers d b \<noteq> None" "producer_stage_id (buf d b) = - 1" "consumer_stage_ids (buf d b) = []"
    and "p < length (nodes d)"
  shows "dag_wf (push_output p oi b d)"
proof -
  let ?d = "push_output p oi b d"
  have "wf_links ?d = wf_links d" by (rule wf_links_cong) (use assms(5) in \<open>simp_all add: push_output_def\<close>)
  moreover have "wf_dom ?d" by (rule wf_dom_cong [where d = d]) (use assms(1,2) in \<open>simp_all add: push_output_def dag_wf_def\<close>)
  moreover have "wf_inputs ?d"
  proof -
    have cons: "consumer_stage_ids (buf ?d x) = consumer_stage_ids (buf d x)"
      and prod: "x \<noteq> b \<Longrightarrow> producer_stage_id (buf ?d x) = producer_stage_id (buf d x)"
      and ext: "is_external (buf ?d x) = is_external (buf d x)" for x
      by (simp_all add: push_output_def)
    have same: "dependencies (node ?d i) = dependencies (node d i)" "input_buffer_ids (node ?d i) = input_buffer_ids (node d i)"
      "length (nodes ?d) = length (nodes d)" for i
      using assms(5) by (simp_all add: push_output_def)
    have "wf_inputs d" using assms(1) by (simp add: dag_wf_def)
    note D = wf_inputsD [OF this]
    show ?thesis unfolding wf_inputs_def same cons
    proof (intro conjI allI impI ballI)
      show "producer_stage_id (buf ?d x) = - 1 \<and> is_external (buf ?d x) \<or>
          0 \<le> producer_stage_id (buf ?d x) \<and> nat (producer_stage_id (buf ?d x)) \<in> set (dependencies (node d k))"
        if k: "k \<in> set (consumer_stage_ids (buf d x))" for x k
        using D(3) [OF k] k assms(4) prod [of x] ext [of x] by (cases "x = b") auto
    qed (use D(1,2) in auto)
  qed
  ultimately show ?thesis using assms wf_outputs_push_output by (simp add: dag_wf_def)
qed

lemma wf_inputs_push_input:
  assumes "wf_inputs d" "wf_links d" "c < length (nodes d)"
    and "producer_stage_id (buf d b) = - 1 \<and> is_external (buf d b) \<or> 0 \<le> producer_stage_id (buf d b) \<and> nat (producer_stage_id (buf d b)) \<in> set (dependencies (node d c))"
  shows "wf_inputs (push_input c b d)"
proof -
  let ?d = "push_input c b d"
  have id: "n_id (node d c) = c" by (rule wf_linksD [OF assms(2,3)])
  have len: "length (nodes ?d) = length (nodes d)" by (simp add: push_input_def)
  have inp: "input_buffer_ids (node ?d i) = input_buffer_ids (node d i) @ (if i = c then [b] else [])"
    and dep: "dependencies (node ?d i) = dependencies (node d i)" for i
    using assms(3) by (simp_all add: push_input_def)
  have cons: "consumer_stage_ids (buf ?d x) = consumer_stage_ids (buf d x) @ (if x = b then [c] else [])"
    and prod: "producer_stage_id (buf ?d x) = producer_stage_id (buf d x)"
    and ext: "is_external (buf ?d x) = is_external (buf d x)" for x
    using id by (simp_all add: push_input_def)
  show ?thesis unfolding wf_inputs_def len
  proof (intro conjI allI impI ballI)
    show "count_list (input_buffer_ids (node ?d i)) x = count_list (consumer_stage_ids (buf ?d x)) i"
      if "i < length (nodes d)" for x i
      using wf_inputsD(2) [OF assms(1) that, of x] unfolding inp cons by auto
    show "producer_stage_id (buf ?d x) = - 1 \<and> is_external (buf ?d x) \<or>
        0 \<le> producer_stage_id (buf ?d x) \<and> nat (producer_stage_id (buf ?d x)) \<in> set (dependencies (node ?d k))"
      if "k \<in> set (consumer_stage_ids (buf ?d x))" for x k
      using wf_inputsD(3) [OF assms(1), of k x] assms(4) that unfolding cons prod dep ext by (auto split: if_splits)
    show "k < length (nodes d)" if "k \<in> set (consumer_stage_ids (buf ?d x))" for x k
      using wf_inputsD(1) [OF assms(1), of k x] assms(3) that unfolding cons by (auto split: if_splits)
  qed
qed

lemma push_input_wf:
  assumes "dag_wf d" "buffers d b \<noteq> None" "c < length (nodes d)"
    and "producer_stage_id (buf d b) = - 1 \<and> is_external (buf d b) \<or> 0 \<le> producer_stage_id (buf d b) \<and> nat (producer_stage_id (buf d b)) \<in> set (dependencies (node d c))"
  shows "dag_wf (push_input c b d)"
proof -
  let ?d = "push_input c b d"
  have "wf_links ?d = wf_links d" by (rule wf_links_cong) (use assms(3) in \<open>simp_all add: push_input_def\<close>)
  moreover have "wf_dom ?d" by (rule wf_dom_cong [where d = d]) (use assms(1,2) in \<open>simp_all add: push_input_def dag_wf_def\<close>)
  moreover have "wf_outputs ?d = wf_outputs d" by (rule wf_outputs_cong) (use assms(3) in \<open>simp_all add: push_input_def\<close>)
  ultimately show ?thesis using assms wf_inputs_push_input by (simp add: dag_wf_def)
qed

subsection \<open>Every construction call keeps the graph well formed\<close>

lemma addStage_wf:
  assumes "dag_wf d" "addStage ev1 ev2 stage name d = Inr (i, d')"
  shows "dag_wf d'" "length (nodes d') = Suc (length (nodes d))" "i = length (nodes d)"
proof -
  define n where "n = (new_node stage)\<lparr>n_id := length (nodes d),
    n_name := (if name = [] then ''stage_'' @ to_string (length (nodes d)) else name), has_start_event := profiling_enabled d\<rparr>"
  have d': "d' = d\<lparr>nodes := nodes d @ [n]\<rparr>" and i: "i = length (nodes d)"
    using assms(2) by (auto simp: addStage_def n_def Let_def split: if_splits)
  show len: "length (nodes d') = Suc (length (nodes d))" "i = length (nodes d)" using d' i by simp_all
  have nd: "node d' j = (if j < length (nodes d) then node d j else n)" if "j < Suc (length (nodes d))" for j
    using that unfolding d' by (auto simp: nth_append less_Suc_eq)
  have bf: "buf d' = buf d" unfolding d' by (simp add: buf_def buffers_def fun_eq_iff)
  have nf: "n_id n = length (nodes d)" "dependencies n = []" "dependents n = []" "input_buffer_ids n = []"
    "output_buffer_ids n = []" "output_index_to_buffer_id n = []"
    by (simp_all add: n_def new_node_def)
  have wf: "wf_links d" "wf_dom d" "wf_inputs d" "wf_outputs d" using assms(1) by (simp_all add: dag_wf_def)
  note L = wf_linksD [OF wf(1)] and I = wf_inputsD [OF wf(3)] and O = wf_outputsD [OF wf(4)]
  have old: "count_list (dependencies (node d j)) (length (nodes d)) = 0" "count_list (dependents (node d j)) (length (nodes d)) = 0"
    if "j < length (nodes d)" for j
    using L(2,3) [OF that, of "length (nodes d)"] by (auto simp: count_list_0_iff)
  have "wf_links d'" unfolding wf_links_def len
  proof (intro conjI allI impI ballI)
    fix j assume j: "j < Suc (length (nodes d))"
    show "n_id (node d' j) = j" using nd [OF j] nf(1) L(1) [of j] j by auto
    show "k < Suc (length (nodes d))" if "k \<in> set (dependencies (node d' j))" for k
      using nd [OF j] that nf(2) L(2) [of j k] by (auto split: if_splits)
    show "k < Suc (length (nodes d))" if "k \<in> set (dependents (node d' j))" for k
      using nd [OF j] that nf(3) L(3) [of j k] by (auto split: if_splits)
    show "count_list (dependents (node d' j)) k = count_list (dependencies (node d' k)) j" if k: "k < Suc (length (nodes d))" for k
      using nd [OF j] nd [OF k] nf(2,3) L(4) [of j k] old j k by (auto simp: less_Suc_eq)
  qed
  moreover have "wf_dom d'" unfolding d' by (rule wf_dom_cong [where d = d]) (use wf(2) in \<open>simp_all add: buffers_def\<close>)
  moreover have "wf_inputs d'" unfolding wf_inputs_def len bf
  proof (intro conjI allI impI ballI)
    fix b
    show "k < Suc (length (nodes d))" if "k \<in> set (consumer_stage_ids (buf d b))" for k
      using I(1) [OF that] by simp
    show "count_list (input_buffer_ids (node d' j)) b = count_list (consumer_stage_ids (buf d b)) j"
      if "j < Suc (length (nodes d))" for j
    proof (cases "j < length (nodes d)")
      case False
      then have "j \<notin> set (consumer_stage_ids (buf d b))" using I(1) by blast
      with nd [OF that] False nf(4) show ?thesis by (simp add: count_list_0_iff)
    qed (use nd [OF that] I(2) in simp)
    show "producer_stage_id (buf d b) = - 1 \<and> is_external (buf d b) \<or>
        0 \<le> producer_stage_id (buf d b) \<and> nat (producer_stage_id (buf d b)) \<in> set (dependencies (node d' k))"
      if "k \<in> set (consumer_stage_ids (buf d b))" for k
      using I(3) [OF that] I(1) [OF that] nd [of k] by auto
  qed
  moreover have "wf_outputs d'" unfolding wf_outputs_def len bf
  proof (intro conjI allI impI ballI)
    fix b
    show "- 1 \<le> producer_stage_id (buf d b)" "producer_stage_id (buf d b) < int (Suc (length (nodes d)))"
      using O(1,2) [of b] by auto
    fix j assume j: "j < Suc (length (nodes d))"
    show "b \<in> set (output_buffer_ids (node d' j)) \<longleftrightarrow> producer_stage_id (buf d b) = int j"
      using nd [OF j] nf(5) O(2) [of b] O(3) [of j b] j by auto
  next
    fix j assume j: "j < Suc (length (nodes d))"
    show "distinct (output_buffer_ids (node d' j))" using nd [OF j] nf(5) O(4) [of j] by auto
    show "b \<in> set (output_buffer_ids (node d' j))" if "b \<in> snd ` set (output_index_to_buffer_id (node d' j))" for b
      using nd [OF j] nf(6) O(5) [of j b] that by (auto split: if_splits)
  qed
  ultimately show "dag_wf d'" using wf by (simp add: dag_wf_def)
qed

lemma describe_simps [simp]:
  "nodes (describe b sz tag pers ext d) = nodes d"
  "consumer_stage_ids (buf (describe b sz tag pers ext d) c) = consumer_stage_ids (buf d c)"
  "producer_stage_id (buf (describe b sz tag pers ext d) c) = producer_stage_id (buf d c)"
  "is_external (buf (describe b sz tag pers ext d) b) = ext"
  by (simp_all add: describe_def)

lemma describe_wf:
  assumes "dag_wf d" "buffers d b \<noteq> None" "consumer_stage_ids (buf d b) = []"
  shows "dag_wf (describe b sz tag pers ext d)"
proof -
  let ?d = "describe b sz tag pers ext d"
  have "wf_dom ?d" by (rule wf_dom_cong [where d = d]) (use assms in \<open>simp_all add: describe_def dag_wf_def\<close>)
  moreover have "wf_links ?d = wf_links d" "wf_outputs ?d = wf_outputs d"
    by (rule wf_links_cong wf_outputs_cong; simp)+
  moreover have "wf_inputs ?d"
  proof -
    have "wf_inputs d" using assms(1) by (simp add: dag_wf_def)
    note D = wf_inputsD [OF this]
    have ext: "x \<noteq> b \<Longrightarrow> is_external (buf ?d x) = is_external (buf d x)" for x by (simp add: describe_def)
    show ?thesis unfolding wf_inputs_def describe_simps
    proof (intro conjI allI impI ballI)
      show "producer_stage_id (buf d x) = - 1 \<and> is_external (buf ?d x) \<or>
          0 \<le> producer_stage_id (buf d x) \<and> nat (producer_stage_id (buf d x)) \<in> set (dependencies (node d k))"
        if k: "k \<in> set (consumer_stage_ids (buf d x))" for x k
        using D(3) [OF k] k assms(3) ext [of x] by (cases "x = b") auto
    qed (rule D, assumption)+
  qed
  ultimately show ?thesis using assms(1) by (simp add: dag_wf_def)
qed

lemma describe_buffers: "buffers d b \<noteq> None \<Longrightarrow> buffers (describe b sz tag pers ext d) b \<noteq> None"
  by (simp add: describe_def)

lemma link_nodes [simp]: "length (nodes (link c p d)) = length (nodes d)"
  by (simp add: link_def)

lemma push_nodes [simp]:
  "length (nodes (push_output p oi b d)) = length (nodes d)" "length (nodes (push_input c b d)) = length (nodes d)"
  by (simp_all add: push_output_def push_input_def)

lemma new_buffer_simps [simp]: "consumer_stage_ids new_buffer = []" "producer_stage_id new_buffer = - 1"
  by (simp_all add: new_buffer_def)

lemma fresh_output_wf:
  assumes "dag_wf d" "fresh_buffer d = (b, d1)" "p < length (nodes d)"
  shows "dag_wf (push_output p oi b (describe b sz tag pers ext d1))"
proof -
  note F = fresh_buffer_wf [OF assms(1,2)]
  show ?thesis
    using assms(3) F by (intro push_output_wf describe_wf describe_buffers) simp_all
qed

lemma addDependency_wf:
  assumes "dag_wf d" "c < length (nodes d)" "p < length (nodes d)"
  shows "dag_wf (fst (addDependency (Some c) (Some p) sz oi d))"
proof (cases "is_finalized d")
  case True
  with assms show ?thesis by (simp add: addDependency_def)
next
  case False
  obtain b d1 where f: "fresh_buffer (link c p d) = (b, d1)" by (cases "fresh_buffer (link c p d)")
  have lw: "dag_wf (link c p d)" by (rule dag_wf_link [OF assms])
  note F = fresh_buffer_wf [OF lw f]
  let ?d2 = "push_output p oi b (describe b sz (edge_tag d p c) False False d1)"
  have w2: "dag_wf ?d2" using fresh_output_wf [OF lw f] assms(3) by simp
  have id: "n_id (node (describe b sz (edge_tag d p c) False False d1) p) = p"
    using F(1) wf_linksD(1) [of d1 p] F(4) assms(3) by (simp add: dag_wf_def)
  have "producer_stage_id (buf ?d2 b) = int p" "buffers ?d2 b \<noteq> None"
    using id by (simp_all add: push_output_def)
  moreover have "p \<in> set (dependencies (node ?d2 c))"
    using assms(2,3) F(4) by (simp add: push_output_def link_def)
  ultimately have "dag_wf (push_input c b ?d2)" using w2 assms(2) F(4) by (intro push_input_wf) simp_all
  with False f F(1) show ?thesis by (simp add: addDependency_def)
qed

lemma setInputBuffer_wf:
  assumes "dag_wf d" "i < length (nodes d)" "setInputBuffer i sz tag d = Inr d'"
  shows "dag_wf d'"
proof -
  obtain b d1 where f: "fresh_buffer d = (b, d1)" by (cases "fresh_buffer d")
  note F = fresh_buffer_wf [OF assms(1) f]
  have "dag_wf (push_input i b (describe b sz tag True True d1))"
    using F assms(2) by (intro push_input_wf describe_wf describe_buffers) simp_all
  with assms(3) f show ?thesis by (auto simp: setInputBuffer_def split: if_splits)
qed

lemma setOutputBuffer_wf:
  assumes "dag_wf d" "i < length (nodes d)" "setOutputBuffer i sz tag d = Inr d'"
  shows "dag_wf d'"
  using fresh_output_wf [OF assms(1) _ assms(2)] assms(3)
  by (auto simp: setOutputBuffer_def split: if_splits prod.splits)

lemma addUnconnectedOutput_wf:
  assumes "dag_wf d" "i < length (nodes d)" "addUnconnectedOutput i sz oi tag d = Inr (b, d')"
  shows "dag_wf d'"
  using fresh_output_wf [OF assms(1) _ assms(2)] assms(3)
  by (auto simp: addUnconnectedOutput_def split: if_splits prod.splits)

lemma connectExistingOutput_wf:
  assumes "dag_wf d" "p < length (nodes d)" "c < length (nodes d)"
    and "connectExistingOutput (Some p) (Some c) oi d = Inr (ok, d')"
  shows "dag_wf d'"
proof (cases "map_of (output_index_to_buffer_id (node d p)) oi")
  case None
  with assms show ?thesis by (auto simp: connectExistingOutput_def split: if_splits)
next
  case (Some b)
  let ?d1 = "link c p d"
  have wo: "wf_outputs d" and wd: "wf_dom d" using assms(1) by (simp_all add: dag_wf_def)
  have "b \<in> snd ` set (output_index_to_buffer_id (node d p))" using map_of_SomeD [OF Some] by force
  then have "b \<in> set (output_buffer_ids (node d p))" by (rule wf_outputsD(5) [OF wo assms(2)])
  then have prod: "producer_stage_id (buf d b) = int p" using wf_outputsD(3) [OF wo assms(2)] by simp
  have "buffers d b \<noteq> None"
  proof
    assume "buffers d b = None"
    from buf_None [OF this] prod show False by simp
  qed
  then have bn: "buffers ?d1 b \<noteq> None" by (simp add: link_def)
  have pr1: "0 \<le> producer_stage_id (buf ?d1 b) \<and> nat (producer_stage_id (buf ?d1 b)) \<in> set (dependencies (node ?d1 c))"
    using prod assms(2,3) by (simp add: link_def)
  have "dag_wf (push_input c b ?d1)"
    using dag_wf_link [OF assms(1,3,2)] bn pr1 assms(3) by (intro push_input_wf) simp_all
  moreover have "buffers (push_input c b ?d1) b \<noteq> None" by (simp add: push_input_def)
  ultimately have "dag_wf (upd_buf b (\<lambda>x. x\<lparr>b_tag := edge_tag d p c, is_persistent := False\<rparr>) (push_input c b ?d1))"
    by (rule meta_wf) simp_all
  with assms(4) Some show ?thesis by (auto simp: connectExistingOutput_def split: if_splits)
qed

text \<open>
  A construction history: calls on a new graph in any order, with failures.  A call on a node
  pointer is only issued for a node of the graph; an exception leaves the graph as the call left it.
\<close>

datatype build_op =
    AddStage bool bool "nat option" string
  | AddDependency nat nat size_t int
  | SetInputBuffer nat size_t string
  | SetOutputBuffer nat size_t string
  | AddUnconnectedOutput nat size_t int string
  | ConnectExistingOutput nat nat int
  | UpdateBufferTag int string
  | SetBufferPersistent int bool
  | UpdateBufferSize int size_t

definition on_ok :: "dag \<Rightarrow> dag res \<Rightarrow> dag" where
  "on_ok d r = (case r of Inl _ \<Rightarrow> d | Inr d' \<Rightarrow> d')"

fun build_exec :: "build_op \<Rightarrow> dag \<Rightarrow> dag" where
  "build_exec (AddStage e1 e2 st name) d = on_ok d (map_sum id snd (addStage e1 e2 st name d))"
| "build_exec (AddDependency c p sz oi) d =
     (if c < length (nodes d) \<and> p < length (nodes d) then fst (addDependency (Some c) (Some p) sz oi d) else d)"
| "build_exec (SetInputBuffer i sz tag) d = (if i < length (nodes d) then on_ok d (setInputBuffer i sz tag d) else d)"
| "build_exec (SetOutputBuffer i sz tag) d = (if i < length (nodes d) then on_ok d (setOutputBuffer i sz tag d) else d)"
| "build_exec (AddUnconnectedOutput i sz oi tag) d =
     (if i < length (nodes d) then on_ok d (map_sum id snd (addUnconnectedOutput i sz oi tag d)) else d)"
| "build_exec (ConnectExistingOutput p c oi) d =
     (if p < length (nodes d) \<and> c < length (nodes d)
      then on_ok d (map_sum id snd (connectExistingOutput (Some p) (Some c) oi d)) else d)"
| "build_exec (UpdateBufferTag b tag) d = on_ok d (updateBufferTag b tag d)"
| "build_exec (SetBufferPersistent b pers) d = on_ok d (setBufferPersistent b pers d)"
| "build_exec (UpdateBufferSize b sz) d = on_ok d (updateBufferSize b sz d)"

definition build :: "memory_strategy \<Rightarrow> build_op list \<Rightarrow> dag" where
  "build s ops = fold build_exec ops (new_dag s)"

lemma on_ok_wf: "dag_wf d \<Longrightarrow> (\<And>d'. r = Inr d' \<Longrightarrow> dag_wf d') \<Longrightarrow> dag_wf (on_ok d r)"
  by (auto simp: on_ok_def split: sum.splits)

lemma map_sum_Inr: "map_sum f g r = Inr y \<longleftrightarrow> (\<exists>x. r = Inr x \<and> y = g x)"
  by (cases r) auto

lemma update_buf_wf:
  assumes "dag_wf d" "updateBufferSize b sz d = Inr d'"
  shows "dag_wf d'"
proof -
  obtain x where x: "buffers d b = Some x" using assms(2) by (auto simp: updateBufferSize_def split: option.splits)
  then have "d' = upd_buf b (\<lambda>x. x\<lparr>b_size := sz, initial_size := sz\<rparr>) d"
    using assms(2) by (simp add: updateBufferSize_def)
  moreover have "dag_wf (upd_buf b (\<lambda>x. x\<lparr>b_size := sz, initial_size := sz\<rparr>) d)"
    using x by (intro meta_wf assms(1)) simp_all
  ultimately show ?thesis by simp
qed

lemma build_exec_wf:
  assumes "dag_wf d"
  shows "dag_wf (build_exec op d)"
proof (cases op)
  case (AddStage e1 e2 st name)
  have "dag_wf d'" if "map_sum id snd (addStage e1 e2 st name d) = Inr d'" for d'
    using that addStage_wf(1) [OF assms] by (auto simp: map_sum_Inr)
  then show ?thesis unfolding AddStage by (simp add: on_ok_wf assms)
next
  case (AddDependency c p sz oi)
  then show ?thesis using addDependency_wf [OF assms] assms by simp
next
  case (SetInputBuffer i sz tag)
  then show ?thesis using setInputBuffer_wf [OF assms] assms by (simp add: on_ok_wf)
next
  case (SetOutputBuffer i sz tag)
  then show ?thesis using setOutputBuffer_wf [OF assms] assms by (simp add: on_ok_wf)
next
  case (AddUnconnectedOutput i sz oi tag)
  have "dag_wf d'" if "i < length (nodes d)" "map_sum id snd (addUnconnectedOutput i sz oi tag d) = Inr d'" for d'
    using that addUnconnectedOutput_wf [OF assms that(1)] by (auto simp: map_sum_Inr)
  then show ?thesis unfolding AddUnconnectedOutput by (simp add: on_ok_wf assms)
next
  case (ConnectExistingOutput p c oi)
  have "dag_wf d'" if "p < length (nodes d)" "c < length (nodes d)"
    "map_sum id snd (connectExistingOutput (Some p) (Some c) oi d) = Inr d'" for d'
    using that connectExistingOutput_wf [OF assms that(1,2)] by (auto simp: map_sum_Inr)
  then show ?thesis unfolding ConnectExistingOutput by (simp add: on_ok_wf assms)
next
  case (UpdateBufferTag b tag)
  have "dag_wf d'" if "updateBufferTag b tag d = Inr d'" for d'
    using that meta_wf [OF assms, of b "\<lambda>x. x\<lparr>b_tag := tag\<rparr>"] by (simp add: updateBufferTag_def split: if_splits)
  then show ?thesis unfolding UpdateBufferTag by (simp add: on_ok_wf assms)
next
  case (SetBufferPersistent b pers)
  have "dag_wf d'" if "setBufferPersistent b pers d = Inr d'" for d'
    using that meta_wf [OF assms, of b "\<lambda>x. x\<lparr>is_persistent := pers\<rparr>"] by (simp add: setBufferPersistent_def split: if_splits)
  then show ?thesis unfolding SetBufferPersistent by (simp add: on_ok_wf assms)
next
  case (UpdateBufferSize b sz)
  then show ?thesis using update_buf_wf [OF assms] assms by (simp add: on_ok_wf)
qed

lemma build_wf: "dag_wf (build s ops)"
proof -
  have "dag_wf d \<Longrightarrow> dag_wf (fold build_exec ops d)" for d
    by (induction ops arbitrary: d) (auto simp: build_exec_wf)
  then show ?thesis by (simp add: build_def new_dag_wf)
qed

text \<open>
  C21. Whatever calls build the graph, in whatever order and with whatever failures, it is
  consistent: node ids are their positions; \<open>dependencies\<close> and \<open>dependents\<close> mirror each other with
  multiplicity; the buffer table holds exactly the ids handed out; a node lists a buffer as input as
  often as the buffer lists the node as consumer; a node lists a buffer as output exactly when the
  buffer names it as producer; and a consumer of a produced buffer depends on its producer.
\<close>

theorem build_consistent: "dag_wf (build s ops)"
  by (rule build_wf)

subsection \<open>Finalization\<close>

definition depends_on :: "dag \<Rightarrow> (nat \<times> nat) set" where
  "depends_on d = {(p, c). c < length (nodes d) \<and> p \<in> set (dependencies (node d c))}"

lemma dep_edges_depends_on:
  assumes "wf_links d"
  shows "dep_edges (map dependents (nodes d)) = depends_on d" "deps_ok (map dependents (nodes d))"
proof -
  note D = wf_linksD [OF assms]
  show ok: "deps_ok (map dependents (nodes d))"
    unfolding deps_ok_def
  proof (intro ballI)
    fix ds v assume "ds \<in> set (map dependents (nodes d))" and v: "v \<in> set ds"
    then obtain i where "i < length (nodes d)" "ds = dependents (node d i)" by (auto simp: in_set_conv_nth)
    with D(3) v show "v < length (map dependents (nodes d))" by simp
  qed
  have mir: "v \<in> set (dependents (node d u)) \<longleftrightarrow> u \<in> set (dependencies (node d v))"
    if "u < length (nodes d)" "v < length (nodes d)" for u v
    using D(4) [OF that] by (metis count_list_0_iff)
  have "(u, v) \<in> dep_edges (map dependents (nodes d)) \<longleftrightarrow> (u, v) \<in> depends_on d" for u v
    using mir [of u v] D(3) [of u v] D(2) [of v u] by (cases "u < length (nodes d)")
      (auto simp: dep_edges_def depends_on_def)
  then show "dep_edges (map dependents (nodes d)) = depends_on d" by auto
qed

lemma kahn_visited_iff:
  assumes "wf_links d" "distinct ord" "set ord = {..<length (nodes d)}"
  shows "kahn_visited ord d = length (nodes d) \<longleftrightarrow> acyclic (depends_on d)"
  using kahn_acyclic [of "map dependents (nodes d)" ord] dep_edges_depends_on [OF assms(1)] assms(2,3)
  by (simp add: kahn_visited_def Let_def)

lemma finalize_cycle_iff:
  assumes "wf_links d" "distinct ord" "set ord = {..<length (nodes d)}"
  shows "snd (dag_finalize ord mk d) = Inl (RuntimeError ''Cyclic dependency detected in pipeline graph! '') \<longleftrightarrow>
    \<not> acyclic (depends_on d)"
proof -
  let ?d1 = "d\<lparr>buffer_table := map (\<lambda>(b, x). (b, x\<lparr>remaining_consumers := int (length (consumer_stage_ids x))\<rparr>)) (buffer_table d)\<rparr>"
  have "kahn_visited ord ?d1 = length (nodes ?d1) \<longleftrightarrow> acyclic (depends_on d)"
    using kahn_visited_iff [OF assms] by (simp add: kahn_visited_def)
  then show ?thesis
    by (auto simp: dag_finalize_def Let_def split: option.splits)
qed

text \<open>
  C19. For every graph the construction calls can build, and whatever order the hash map of
  in-degrees is walked in, \<open>finalize\<close> reports a cyclic dependency exactly when the dependency relation
  has a cycle; an acyclic graph can only fail for want of a CUDA stream.
\<close>

theorem finalize_rejects_cycles:
  assumes "d = build s ops" "distinct ord" "set ord = {..<length (nodes d)}"
  shows "(snd (dag_finalize ord mk d) = Inl (RuntimeError ''Cyclic dependency detected in pipeline graph! '') \<longleftrightarrow>
      \<not> acyclic (depends_on d)) \<and>
    (acyclic (depends_on d) \<longrightarrow> (\<forall>k. mk k \<noteq> None) \<longrightarrow> snd (dag_finalize ord mk d) = Inr ())"
proof -
  have wf: "wf_links d" using build_wf assms(1) by (simp add: dag_wf_def)
  have "kahn_visited ord (d\<lparr>buffer_table := bs\<rparr>) = length (nodes d) \<longleftrightarrow> acyclic (depends_on d)" for bs
    using kahn_visited_iff [OF wf assms(2,3)] by (simp add: kahn_visited_def)
  then show ?thesis
    using finalize_cycle_iff [OF wf assms(2,3)]
    by (auto simp: dag_finalize_def Let_def split: option.splits)
qed

definition cyclic_ops :: "build_op list" where
  "cyclic_ops = [AddStage True True (Some 0) ''a'', AddStage True True (Some 1) ''b'',
     AddDependency 1 0 16 0, AddDependency 0 1 16 0]"

definition diamond_ops :: "build_op list" where
  "diamond_ops = [AddStage True True (Some 0) ''src'', AddStage True True (Some 1) ''l'', AddStage True True (Some 2) ''r'',
     AddStage True True (Some 3) ''join'', SetInputBuffer 0 64 ''input'', AddDependency 1 0 64 0,
     AddDependency 2 0 32 1, AddDependency 3 1 64 0, AddDependency 3 2 32 0, SetOutputBuffer 3 96 ''output'']"

lemma diamond_shape:
  "map dependencies (nodes (build MINIMAL diamond_ops)) = [[], [0], [0], [1, 2]]"
  "length (nodes (build MINIMAL diamond_ops)) = 4"
  by code_simp+

theorem finalize_rejects_cycles_witness:
  "snd (dag_finalize [1, 0] (\<lambda>k. Some [1..<Suc k]) (build MINIMAL cyclic_ops)) =
     Inl (RuntimeError ''Cyclic dependency detected in pipeline graph! '')"
proof -
  let ?d = "build MINIMAL cyclic_ops"
  have sh: "map dependencies (nodes ?d) = [[1], [0]]" by code_simp
  have len: "length (nodes ?d) = 2" by code_simp
  have "dependencies (node ?d 0) = [1]" "dependencies (node ?d 1) = [0]"
    using arg_cong [OF sh, of "\<lambda>xs. xs ! 0"] arg_cong [OF sh, of "\<lambda>xs. xs ! 1"] len by simp_all
  then have "(0, 1) \<in> depends_on ?d" "(1, 0) \<in> depends_on ?d" using len by (simp_all add: depends_on_def)
  then have "(0, 0) \<in> (depends_on ?d)\<^sup>+" by (meson trancl.simps)
  then have "\<not> acyclic (depends_on ?d)" by (auto simp: acyclic_def)
  moreover have "set [1, 0] = {..<length (nodes ?d)}" using len by auto
  ultimately show ?thesis using finalize_rejects_cycles [OF refl, of "[1, 0]" MINIMAL cyclic_ops] by simp
qed

subsection \<open>Levels\<close>

definition leveled :: "nat \<Rightarrow> dag_node list \<Rightarrow> dag_node list" where
  "leveled k ns = fold assign_level [0..<k] ns"

lemma leveled_0 [simp]: "leveled 0 ns = ns"
  by (simp add: leveled_def)

lemma leveled_Suc: "leveled (Suc k) ns = assign_level k (leveled k ns)"
  by (simp add: leveled_def)

lemma length_leveled [simp]: "length (leveled k ns) = length ns"
  by (induction k) (simp_all add: leveled_Suc assign_level_def)

lemma list_update_field:
  "f (v (xs ! i)) = f (xs ! i) \<Longrightarrow> f (xs[i := v (xs ! i)] ! j) = f (xs ! j)"
  by (cases "j = i"; cases "i < length xs") (simp_all add: not_less list_update_beyond)

lemma leveled_frame:
  "dependencies (leveled k ns ! i) = dependencies (ns ! i)" "dependents (leveled k ns ! i) = dependents (ns ! i)"
  "n_id (leveled k ns ! i) = n_id (ns ! i)" "input_buffer_ids (leveled k ns ! i) = input_buffer_ids (ns ! i)"
  "output_buffer_ids (leveled k ns ! i) = output_buffer_ids (ns ! i)"
  "output_index_to_buffer_id (leveled k ns ! i) = output_index_to_buffer_id (ns ! i)"
proof (induction k)
  case (Suc k)
  { case 1 then show ?case using Suc(1) by (simp add: leveled_Suc assign_level_def list_update_field [where v = "\<lambda>n. n\<lparr>execution_order := e, n_level := l\<rparr>" for e l]) }
  { case 2 then show ?case using Suc(2) by (simp add: leveled_Suc assign_level_def list_update_field [where v = "\<lambda>n. n\<lparr>execution_order := e, n_level := l\<rparr>" for e l]) }
  { case 3 then show ?case using Suc(3) by (simp add: leveled_Suc assign_level_def list_update_field [where v = "\<lambda>n. n\<lparr>execution_order := e, n_level := l\<rparr>" for e l]) }
  { case 4 then show ?case using Suc(4) by (simp add: leveled_Suc assign_level_def list_update_field [where v = "\<lambda>n. n\<lparr>execution_order := e, n_level := l\<rparr>" for e l]) }
  { case 5 then show ?case using Suc(5) by (simp add: leveled_Suc assign_level_def list_update_field [where v = "\<lambda>n. n\<lparr>execution_order := e, n_level := l\<rparr>" for e l]) }
  { case 6 then show ?case using Suc(6) by (simp add: leveled_Suc assign_level_def list_update_field [where v = "\<lambda>n. n\<lparr>execution_order := e, n_level := l\<rparr>" for e l]) }
qed simp_all

lemma leveled_step:
  "i < length ns \<Longrightarrow> leveled (Suc k) ns ! i =
     (if i = k then (leveled k ns ! k)\<lparr>execution_order := int k, n_level := node_level (leveled k ns) (leveled k ns ! k)\<rparr>
      else leveled k ns ! i)"
  by (simp add: leveled_Suc assign_level_def nth_list_update)

lemma leveled_stable: "i < k \<Longrightarrow> k \<le> m \<Longrightarrow> m \<le> length ns \<Longrightarrow> n_level (leveled m ns ! i) = n_level (leveled k ns ! i)"
proof (induction m)
  case (Suc m)
  then show ?case by (cases "k = Suc m") (auto simp: leveled_step)
qed simp

lemma leveled_level:
  assumes "i < m" "m \<le> length ns"
  shows "n_level (leveled m ns ! i) = node_level (leveled i ns) (ns ! i)"
proof -
  have "n_level (leveled m ns ! i) = n_level (leveled (Suc i) ns ! i)"
    using assms by (intro leveled_stable) auto
  also have "\<dots> = node_level (leveled i ns) (ns ! i)"
    using assms by (simp add: leveled_step node_level_def leveled_frame)
  finally show ?thesis .
qed

lemma foldl_max_props:
  fixes f :: "'a \<Rightarrow> int"
  shows "m \<le> foldl (\<lambda>m p. max m (f p)) m xs" "x \<in> set xs \<Longrightarrow> f x \<le> foldl (\<lambda>m p. max m (f p)) m xs"
proof (induction xs arbitrary: m)
  case (Cons y ys)
  { case 1 then show ?case using Cons(1) [of "max m (f y)"] by simp }
  { case 2 then show ?case using Cons(1,2) [of "max m (f y)"] by auto }
qed auto

lemma node_level_nonneg: "0 \<le> node_level ns n"
  using foldl_max_props(1) [of "- 1" "\<lambda>p. n_level (ns ! p)" "dependencies n"] by (simp add: node_level_def)

lemma node_level_gt:
  assumes "p \<in> set (dependencies n)"
  shows "n_level (ns ! p) < node_level ns n"
proof -
  have "dependencies n \<noteq> []" using assms by auto
  then show ?thesis
    using foldl_max_props(2) [OF assms, of "\<lambda>p. n_level (ns ! p)" "- 1"] by (simp add: node_level_def)
qed

definition insertion_ordered :: "dag \<Rightarrow> bool" where
  "insertion_ordered d \<longleftrightarrow> (\<forall>i<length (nodes d). \<forall>p\<in>set (dependencies (node d i)). p < i)"

lemma leveled_edge:
  assumes "i < length ns" "p \<in> set (dependencies (ns ! i))" "p < i"
  shows "n_level (leveled (length ns) ns ! p) < n_level (leveled (length ns) ns ! i)"
proof -
  have "n_level (leveled i ns ! p) < node_level (leveled i ns) (ns ! i)" by (rule node_level_gt [OF assms(2)])
  moreover have "n_level (leveled (length ns) ns ! p) = n_level (leveled i ns ! p)"
    using assms by (intro leveled_stable) auto
  ultimately show ?thesis using leveled_level [of i "length ns" ns] assms by simp
qed

lemma assignLevels_nodes: "nodes (assignLevels d) = leveled (length (nodes d)) (nodes d)"
  by (simp add: assignLevels_def leveled_def Let_def)

lemma assignLevels_range:
  assumes "i < length (nodes d)"
  shows "0 \<le> n_level (node (assignLevels d) i)" "n_level (node (assignLevels d) i) \<le> max_level (assignLevels d)"
proof -
  show "0 \<le> n_level (node (assignLevels d) i)"
    using assms by (simp add: assignLevels_nodes leveled_level node_level_nonneg)
  have "max_level (assignLevels d) = foldl (\<lambda>m n. max m (n_level n)) 0 (nodes (assignLevels d))"
    by (simp add: assignLevels_def Let_def)
  then show "n_level (node (assignLevels d) i) \<le> max_level (assignLevels d)"
    using foldl_max_props(2) [of "node (assignLevels d) i" "nodes (assignLevels d)" n_level 0] assms
    by (simp add: assignLevels_nodes)
qed

lemma assignLevels_levels:
  "levels (assignLevels d) = map (\<lambda>l. filter (\<lambda>i. n_level (node (assignLevels d) i) = int l) [0..<length (nodes d)])
     [0..<nat (max_level (assignLevels d)) + 1]"
  by (simp add: assignLevels_def Let_def leveled_def [symmetric])

lemma mem_levels:
  assumes "l < length (levels (assignLevels d))"
  shows "i \<in> set (levels (assignLevels d) ! l) \<longleftrightarrow> i < length (nodes d) \<and> n_level (node (assignLevels d) i) = int l"
  using assms by (simp add: assignLevels_levels del: upt_Suc)

lemma distinct_concat_filter:
  "distinct xs \<Longrightarrow> distinct (concat (map (\<lambda>l. filter (\<lambda>i. f i = int l) xs) [0..<k]))"
  by (induction k) auto

lemma assignLevels_partition:
  "distinct (concat (levels (assignLevels d)))" "set (concat (levels (assignLevels d))) = {..<length (nodes d)}"
proof -
  show "distinct (concat (levels (assignLevels d)))"
    unfolding assignLevels_levels by (rule distinct_concat_filter) simp
  have "\<exists>l\<in>{0..<nat (max_level (assignLevels d)) + 1}. n_level (node (assignLevels d) i) = int l"
    if "i < length (nodes d)" for i
    using assignLevels_range [OF that] by (intro bexI [of _ "nat (n_level (node (assignLevels d) i))"]) auto
  then show "set (concat (levels (assignLevels d))) = {..<length (nodes d)}"
    unfolding assignLevels_levels by (auto simp del: upt_Suc)
qed

subsection \<open>What a successful finalization leaves\<close>

definition reset_counts :: "dag \<Rightarrow> dag" where
  "reset_counts d = d\<lparr>buffer_table := map (\<lambda>(b, x). (b, x\<lparr>remaining_consumers := int (length (consumer_stage_ids x))\<rparr>))
     (buffer_table d)\<rparr>"

lemma nodes_reset_counts [simp]: "nodes (reset_counts d) = nodes d" "streams (reset_counts d) = streams d"
  by (simp_all add: reset_counts_def)

lemma finalize_ok_cases:
  assumes "snd (dag_finalize ord mk d) = Inr ()"
  obtains ss own where
    "fst (dag_finalize ord mk d) = (assignStreams ((assignLevels (reset_counts d))\<lparr>streams := ss, owns_streams := own\<rparr>))\<lparr>is_finalized := True\<rparr>"
    "streams d \<noteq> [] \<and> ss = streams d \<or>
     streams d = [] \<and> 1 < getMaxParallelism (assignLevels (reset_counts d)) \<and> mk (getMaxParallelism (assignLevels (reset_counts d))) = Some ss \<or>
     streams d = [] \<and> getMaxParallelism (assignLevels (reset_counts d)) \<le> 1 \<and> ss = [0]"
proof -
  let ?d2 = "assignLevels (reset_counts d)"
  have st: "streams ?d2 = streams d" by (simp add: assignLevels_def reset_counts_def Let_def)
  have fin: "fst (dag_finalize ord mk d) = (if streams d \<noteq> [] then (assignStreams ?d2)\<lparr>is_finalized := True\<rparr>
      else if 1 < getMaxParallelism ?d2 then (assignStreams (?d2\<lparr>streams := the (mk (getMaxParallelism ?d2)), owns_streams := True\<rparr>))\<lparr>is_finalized := True\<rparr>
      else (assignStreams (?d2\<lparr>streams := [0], owns_streams := False\<rparr>))\<lparr>is_finalized := True\<rparr>)"
    and mk: "streams d = [] \<Longrightarrow> 1 < getMaxParallelism ?d2 \<Longrightarrow> mk (getMaxParallelism ?d2) \<noteq> None"
    using assms unfolding dag_finalize_def reset_counts_def [symmetric] Let_def st
    by (auto split: if_splits option.splits)
  have same: "?d2 = ?d2\<lparr>streams := streams d, owns_streams := owns_streams ?d2\<rparr>" using st by simp
  show ?thesis
  proof (cases "streams d = []")
    case False
    show ?thesis by (rule that [of "owns_streams ?d2" "streams d"]) (use fin False same in auto)
  next
    case True
    show ?thesis
    proof (cases "1 < getMaxParallelism ?d2")
      case par: True
      with mk True obtain ss where "mk (getMaxParallelism ?d2) = Some ss" by auto
      with fin True par show ?thesis by (intro that [of True ss]) auto
    next
      case False
      with fin True show ?thesis by (intro that [of False "[0]"]) auto
    qed
  qed
qed

lemma assignStreams_node:
  assumes "i < length (nodes d)"
  shows "node (assignStreams d) i = (if streams d = [] then node d i else (node d i)\<lparr>n_stream :=
      streams d ! (length (filter (\<lambda>j. n_level (node d j) = n_level (node d i)) [0..<i]) mod length (streams d))\<rparr>)"
  using assms by (simp add: assignStreams_def)

lemma assignStreams_frame [simp]:
  "length (nodes (assignStreams d)) = length (nodes d)" "levels (assignStreams d) = levels d"
  "max_level (assignStreams d) = max_level d"
  by (simp_all add: assignStreams_def)

lemma assignLevels_length [simp]: "length (nodes (assignLevels d)) = length (nodes d)"
  by (simp add: assignLevels_nodes)

lemma finalize_ok_shape:
  assumes "snd (dag_finalize ord mk d) = Inr ()"
  defines "d' \<equiv> fst (dag_finalize ord mk d)" and "d2 \<equiv> assignLevels (reset_counts d)"
  shows "length (nodes d') = length (nodes d)" "levels d' = levels d2" "max_level d' = max_level d2" "is_finalized d'"
    "i < length (nodes d) \<Longrightarrow> n_level (node d' i) = n_level (node d2 i)"
    "i < length (nodes d) \<Longrightarrow> dependencies (node d' i) = dependencies (node d i)"
proof -
  obtain ss own where d': "d' = (assignStreams (d2\<lparr>streams := ss, owns_streams := own\<rparr>))\<lparr>is_finalized := True\<rparr>"
    using assms(1) unfolding d'_def d2_def by (rule finalize_ok_cases)
  show "length (nodes d') = length (nodes d)" "levels d' = levels d2" "max_level d' = max_level d2" "is_finalized d'"
    unfolding d' by (simp_all add: d2_def)
  have "node d' i = (if ss = [] then node d2 i else (node d2 i)\<lparr>n_stream :=
      ss ! (length (filter (\<lambda>j. n_level (node d2 j) = n_level (node d2 i)) [0..<i]) mod length ss)\<rparr>)"
    if "i < length (nodes d)"
    using that assignStreams_node [of i "d2\<lparr>streams := ss, owns_streams := own\<rparr>"] unfolding d' by (simp add: d2_def)
  then show "i < length (nodes d) \<Longrightarrow> n_level (node d' i) = n_level (node d2 i)"
    "i < length (nodes d) \<Longrightarrow> dependencies (node d' i) = dependencies (node d i)"
    by (auto simp: d2_def assignLevels_nodes leveled_frame)
qed

text \<open>
  C23. Finalizing a graph whose stages were added producers first gives every node a level above
  all its dependencies, so running the levels in order runs every stage after the stages it reads
  from; and \<open>levels_\<close> lists every node exactly once, at its level.
\<close>

theorem finalize_levels:
  assumes "snd (dag_finalize ord mk d) = Inr ()" "insertion_ordered d" "d' = fst (dag_finalize ord mk d)"
  shows "(\<forall>(p, c)\<in>depends_on d. n_level (node d' p) < n_level (node d' c)) \<and>
    distinct (concat (levels d')) \<and> set (concat (levels d')) = {..<length (nodes d)} \<and>
    (\<forall>i<length (nodes d). i \<in> set (levels d' ! nat (n_level (node d' i))))"
proof -
  note sh = finalize_ok_shape [OF assms(1), folded assms(3)]
  have "n_level (node d' p) < n_level (node d' c)" if "(p, c) \<in> depends_on d" for p c
  proof -
    have c: "c < length (nodes d)" "p \<in> set (dependencies (node d c))" using that by (auto simp: depends_on_def)
    then have "p < c" using assms(2) by (auto simp: insertion_ordered_def)
    with c leveled_edge [of c "nodes d" p] sh(5) [of p] sh(5) [of c] show ?thesis by (simp add: assignLevels_nodes)
  qed
  moreover have "i \<in> set (levels d' ! nat (n_level (node d' i)))" if "i < length (nodes d)" for i
    using assignLevels_range [of i "reset_counts d"] that sh(2) sh(5) [of i]
    by (auto simp: assignLevels_levels simp del: upt_Suc)
  ultimately show ?thesis using assignLevels_partition [of "reset_counts d"] sh(2) by auto
qed

theorem finalize_levels_witness:
  "map n_level (nodes (fst (dag_finalize [0, 1, 2, 3] (\<lambda>k. Some [1..<Suc k]) (build MINIMAL diamond_ops)))) = [0, 1, 1, 2] \<and>
   set (concat (levels (fst (dag_finalize [0, 1, 2, 3] (\<lambda>k. Some [1..<Suc k]) (build MINIMAL diamond_ops))))) = {..<4} \<and>
   n_level (node (fst (dag_finalize [0, 1, 2, 3] (\<lambda>k. Some [1..<Suc k]) (build MINIMAL diamond_ops))) 1) <
   n_level (node (fst (dag_finalize [0, 1, 2, 3] (\<lambda>k. Some [1..<Suc k]) (build MINIMAL diamond_ops))) 3)"
proof -
  let ?d = "build MINIMAL diamond_ops" and ?f = "dag_finalize [0, 1, 2, 3] (\<lambda>k. Some [1..<Suc k]) (build MINIMAL diamond_ops)"
  have ok: "snd ?f = Inr ()" "map n_level (nodes (fst ?f)) = [0, 1, 1, 2]" by code_simp+
  have deps: "dependencies (node ?d i) = map dependencies (nodes ?d) ! i" if "i < 4" for i
    using that diamond_shape(2) by simp
  have "list_all (\<lambda>i. list_all (\<lambda>p. p < i) (map dependencies (nodes ?d) ! i)) [0..<4]"
    unfolding diamond_shape by code_simp
  then have ord: "insertion_ordered ?d" using diamond_shape(2) by (simp add: insertion_ordered_def list_all_iff)
  have "dependencies (node ?d 3) = [1, 2]" using deps [of 3] unfolding diamond_shape(1) by simp
  then have edge: "(1, 3) \<in> depends_on ?d" using diamond_shape(2) by (simp add: depends_on_def)
  note fl = finalize_levels [OF ok(1) ord refl]
  have "set (concat (levels (fst ?f))) = {..<4}" using fl unfolding diamond_shape(2) by (elim conjE)
  moreover have "n_level (node (fst ?f) 1) < n_level (node (fst ?f) 3)"
    using bspec [OF conjunct1 [OF fl] edge] unfolding prod.case .
  ultimately show ?thesis using ok(2) by (intro conjI)
qed

text \<open>
  Levels follow the order of insertion, not the dependency order.  A stage all of whose
  dependencies were added after it gets level 0, which is at most the level of each of them: it
  is executed before its producers although \<open>finalize\<close> accepts the graph as acyclic.
\<close>

theorem finalize_late_producer:
  assumes "snd (dag_finalize ord mk d) = Inr ()" "c < length (nodes d)" "dependencies (node d c) \<noteq> []"
    and "\<forall>p\<in>set (dependencies (node d c)). c < p \<and> p < length (nodes d) \<and> n_level (node d p) = - 1"
    and "d' = fst (dag_finalize ord mk d)"
  shows "n_level (node d' c) = 0 \<and> (\<forall>p\<in>set (dependencies (node d c)). n_level (node d' c) \<le> n_level (node d' p))"
proof -
  note sh = finalize_ok_shape [OF assms(1), folded assms(5)]
  have early: "leveled k ns ! p = ns ! p" if "k \<le> p" "p < length ns" for k p ns
    using that by (induction k) (auto simp: leveled_step)
  have "n_level (leveled c (nodes d) ! p) = - 1" if "p \<in> set (dependencies (node d c))" for p
  proof -
    have "c < p" "p < length (nodes d)" "n_level (node d p) = - 1" using assms(4) that by auto
    then show ?thesis using early [of c p "nodes d"] by simp
  qed
  then have "foldl (\<lambda>m p. max m (n_level (leveled c (nodes d) ! p))) (- 1) (dependencies (node d c)) = - 1"
  proof -
    have "\<forall>p\<in>set ys. n_level (leveled c (nodes d) ! p) = - 1 \<Longrightarrow>
        foldl (\<lambda>m p. max m (n_level (leveled c (nodes d) ! p))) (- 1) ys = - 1" for ys
      by (induction ys) auto
    with \<open>\<And>p. p \<in> set (dependencies (node d c)) \<Longrightarrow> n_level (leveled c (nodes d) ! p) = - 1\<close> show ?thesis by blast
  qed
  then have "n_level (node d' c) = 0"
    using assms(2,3) sh(5) by (simp add: assignLevels_nodes leveled_level node_level_def)
  moreover have "0 \<le> n_level (node d' p)" if "p \<in> set (dependencies (node d c))" for p
    using assignLevels_range(1) [of p "reset_counts d"] assms(4) that sh(5) [of p] by simp
  ultimately show ?thesis by simp
qed

definition late_ops :: "build_op list" where
  "late_ops = [AddStage True True (Some 0) ''consumer'', AddStage True True (Some 1) ''producer'',
     SetInputBuffer 1 64 ''input'', AddDependency 0 1 64 0]"

theorem finalize_late_producer_witness:
  "levels (fst (dag_finalize [0, 1] (\<lambda>k. Some [1..<Suc k]) (build MINIMAL late_ops))) = [[0, 1]] \<and>
   dependencies (node (build MINIMAL late_ops) 0) = [1] \<and>
   n_level (node (fst (dag_finalize [0, 1] (\<lambda>k. Some [1..<Suc k]) (build MINIMAL late_ops))) 0) = 0"
proof -
  let ?d = "build MINIMAL late_ops" and ?f = "dag_finalize [0, 1] (\<lambda>k. Some [1..<Suc k]) (build MINIMAL late_ops)"
  have "snd ?f = Inr ()" "levels (fst ?f) = [[0, 1]]" "dependencies (node ?d 0) = [1]" "length (nodes ?d) = 2"
    "n_level (node ?d 1) = - 1"
    by code_simp+
  then show ?thesis using finalize_late_producer [of "[0, 1]" "\<lambda>k. Some [1..<Suc k]" ?d 0 "fst ?f"] by simp
qed

subsection \<open>Stream assignment\<close>

lemma foldl_max_len: "x \<in> set ls \<Longrightarrow> length x \<le> foldl (\<lambda>m l. max m (length l)) m ls"
  "m \<le> foldl (\<lambda>m l. max m (length l)) m ls"
proof (induction ls arbitrary: m)
  case (Cons y ys)
  { case 1 then show ?case using Cons(1,2) [of "max m (length y)"] by auto }
  { case 2 then show ?case using Cons(2) [of "max m (length y)"] by simp }
qed auto

lemma filter_upt_prefix:
  assumes "i < j" "P i"
  shows "length (filter P [0..<i]) < length (filter P [0..<j])"
proof -
  have "[0..<j] = [0..<i] @ i # [Suc i..<j]"
    using assms(1) upt_add_eq_append [of 0 i "j - i"] by (simp add: upt_conv_Cons)
  with assms(2) show ?thesis by simp
qed

lemma level_rank_bound:
  fixes d :: dag
  defines "d2 \<equiv> assignLevels d"
  assumes "i < length (nodes d)"
  shows "length (filter (\<lambda>j. n_level (node d2 j) = n_level (node d2 i)) [0..<i]) < getMaxParallelism d2"
proof -
  let ?l = "nat (n_level (node d2 i))"
  let ?P = "\<lambda>j. n_level (node d2 j) = n_level (node d2 i)"
  have rng: "0 \<le> n_level (node d2 i)" "n_level (node d2 i) \<le> max_level d2"
    unfolding d2_def by (rule assignLevels_range [OF assms(2)])+
  then have l: "?l < length (levels d2)" unfolding d2_def by (simp add: assignLevels_levels)
  have "levels d2 ! ?l = filter ?P [0..<length (nodes d)]"
    using rng l unfolding d2_def by (simp add: assignLevels_levels del: upt_Suc)
  then have "length (filter ?P [0..<length (nodes d)]) \<le> getMaxParallelism d2"
    unfolding getMaxParallelism_def using foldl_max_len(1) [OF nth_mem [OF l], of 0] by simp
  moreover have "length (filter ?P [0..<i]) < length (filter ?P [0..<length (nodes d)])"
    by (rule filter_upt_prefix [OF assms(2)]) simp
  ultimately show ?thesis by simp
qed

lemma finalize_stream_of:
  assumes "snd (dag_finalize ord mk d) = Inr ()" "streams d = []" "d' = fst (dag_finalize ord mk d)"
    and "\<forall>k ss. mk k = Some ss \<longrightarrow> length ss = k \<and> distinct ss" "i < length (nodes d)"
    and "d2 = assignLevels (reset_counts d)"
  obtains ss where "distinct ss" "getMaxParallelism d2 \<le> length ss" "streams d' = ss"
    "\<And>i. i < length (nodes d) \<Longrightarrow> n_stream (node d' i) = ss ! length (filter (\<lambda>j. n_level (node d2 j) = n_level (node d2 i)) [0..<i])"
proof -
  obtain ss own where d': "d' = (assignStreams (d2\<lparr>streams := ss, owns_streams := own\<rparr>))\<lparr>is_finalized := True\<rparr>"
    and ss: "distinct ss" "getMaxParallelism d2 \<le> length ss"
    using finalize_ok_cases [OF assms(1)] assms(2-4,6) by (metis distinct_singleton le_refl length_Cons list.size(3) One_nat_def)
  have pos: "0 < getMaxParallelism d2" using level_rank_bound [of i "reset_counts d"] assms(5,6) by simp
  then have ne: "ss \<noteq> []" using ss(2) by auto
  show ?thesis
  proof (rule that [OF ss])
    show "streams d' = ss" unfolding d' by (simp add: assignStreams_def)
    fix i assume i: "i < length (nodes d)"
    have "length (filter (\<lambda>j. n_level (node d2 j) = n_level (node d2 i)) [0..<i]) < length ss"
      using level_rank_bound [of i "reset_counts d"] i ss(2) assms(6) by simp
    then show "n_stream (node d' i) = ss ! length (filter (\<lambda>j. n_level (node d2 j) = n_level (node d2 i)) [0..<i])"
      using assignStreams_node [of i "d2\<lparr>streams := ss, owns_streams := own\<rparr>"] i ne unfolding d' by (simp add: assms(6))
  qed
qed

text \<open>
  When \<open>finalize\<close> creates the streams itself, two nodes of the same level never share a
  stream, so every level can run fully in parallel.
\<close>

theorem finalize_streams_distinct:
  assumes "snd (dag_finalize ord mk d) = Inr ()" "streams d = []" "d' = fst (dag_finalize ord mk d)"
    and "\<forall>k ss. mk k = Some ss \<longrightarrow> length ss = k \<and> distinct ss"
    and "i < length (nodes d)" "j < length (nodes d)" "i \<noteq> j" "n_level (node d' i) = n_level (node d' j)"
  shows "n_stream (node d' i) \<noteq> n_stream (node d' j)"
proof -
  define d2 where "d2 = assignLevels (reset_counts d)"
  let ?r = "\<lambda>i. length (filter (\<lambda>j. n_level (node d2 j) = n_level (node d2 i)) [0..<i])"
  obtain ss where ss: "distinct ss" "getMaxParallelism d2 \<le> length ss"
    "\<And>i. i < length (nodes d) \<Longrightarrow> n_stream (node d' i) = ss ! ?r i"
    using finalize_stream_of [OF assms(1-5) d2_def] by blast
  have lv: "n_level (node d2 i) = n_level (node d2 j)"
    using finalize_ok_shape(5) [OF assms(1)] assms(3,5,6,8) unfolding d2_def by simp
  have "?r i < length ss" "?r j < length ss"
    using level_rank_bound [of i "reset_counts d"] level_rank_bound [of j "reset_counts d"] assms(5,6) ss(2)
    unfolding d2_def by simp_all
  moreover have "?r i \<noteq> ?r j"
    using filter_upt_prefix [of i j "\<lambda>k. n_level (node d2 k) = n_level (node d2 i)"]
      filter_upt_prefix [of j i "\<lambda>k. n_level (node d2 k) = n_level (node d2 i)"] assms(7) lv
    by (cases "i < j") auto
  ultimately show ?thesis using ss(1,3) assms(5,6) nth_eq_iff_index_eq by metis
qed

theorem finalize_streams_distinct_witness:
  "n_stream (node (fst (dag_finalize [0, 1, 2, 3] (\<lambda>k. Some [1..<Suc k]) (build MINIMAL diamond_ops))) 1) \<noteq>
   n_stream (node (fst (dag_finalize [0, 1, 2, 3] (\<lambda>k. Some [1..<Suc k]) (build MINIMAL diamond_ops))) 2)"
proof -
  let ?d = "build MINIMAL diamond_ops" and ?f = "dag_finalize [0, 1, 2, 3] (\<lambda>k. Some [1..<Suc k]) (build MINIMAL diamond_ops)"
  have ev: "snd ?f = Inr ()" "streams ?d = []" by code_simp+
  have lv: "map n_level (nodes (fst ?f)) = [0, 1, 1, 2]" by code_simp
  have "length (nodes (fst ?f)) = 4" using arg_cong [OF lv, of length] by simp
  then have "n_level (node (fst ?f) 1) = 1" "n_level (node (fst ?f) 2) = 1"
    using arg_cong [OF lv, of "\<lambda>xs. xs ! 1"] arg_cong [OF lv, of "\<lambda>xs. xs ! 2"] by (simp_all del: One_nat_def)
  then have eq: "n_level (node (fst ?f) 1) = n_level (node (fst ?f) 2)" by (rule trans [OF _ sym])
  show ?thesis
    by (rule finalize_streams_distinct [OF ev refl _ _ _ _ eq]) (simp_all add: diamond_shape)
qed

end
