(* ===== verification/Dag_Exec.thy ===== *)
theory Dag_Exec
  imports Dag Mempool
begin

section \<open>CompressionDAG: execution\<close>

text \<open>
  The execution half of \<open>src/pipeline/dag.cpp\<close>.  The state is the graph, the memory pool it
  allocates from, device memory and the trace of stream operations issued so far.  The stages and
  fused runners are a parameter: \<open>se_run\<close> is \<open>Stage::execute\<close> followed by the sizes
  \<open>getActualOutputSize\<close> reports (0 beyond the list), \<open>se_fused\<close> a runner's \<open>run\<close> with the archive
  size and the sizes of the side outputs.  \<open>se_debug\<close> tells a build without \<open>NDEBUG\<close>.
  An exception leaves \<open>execute\<close>; the model keeps no state past it.  The failures of event and
  stream calls, which only report an unusable device, are left out.
\<close>

subsection \<open>State\<close>

datatype exec_event =
    EvWait nat nat
  | EvStart nat nat
  | EvRun nat nat "dptr list" "dptr list" "size_t list"
  | EvFused nat nat dptr dptr
  | EvRecord nat nat

record exec_state =
  x_dag :: dag
  x_pool :: pool
  x_mem :: dev_mem
  x_trace :: "exec_event list"

record fused_side_output =
  fso_stage :: "nat option"
  fso_index :: int
  fso_ptr :: dptr
  fso_capacity :: size_t

record fused_side_input =
  fsi_stage :: "nat option"
  fsi_index :: nat
  fsi_ptr :: dptr
  fsi_size :: size_t

record fused_run_context =
  fc_stages :: "nat list"
  fc_input :: dptr
  fc_input_bytes :: size_t
  fc_output :: dptr
  fc_output_capacity :: size_t
  fc_side_outputs :: "fused_side_output list"
  fc_side_inputs :: "fused_side_input list"

record stage_env =
  se_run :: "nat \<Rightarrow> nat \<Rightarrow> dptr list \<Rightarrow> dptr list \<Rightarrow> size_t list \<Rightarrow> pool \<times> dev_mem \<Rightarrow> (size_t list \<times> pool \<times> dev_mem) res"
  se_fused :: "nat \<Rightarrow> fused_run_context \<Rightarrow> pool \<times> dev_mem \<Rightarrow> (size_t \<times> size_t list \<times> pool \<times> dev_mem) res"
  se_debug :: bool
  se_driver :: driver
  se_scale :: "size_t \<Rightarrow> u32 \<Rightarrow> size_t"

definition emit :: "exec_event list \<Rightarrow> exec_state \<Rightarrow> exec_state" where
  "emit es x = x\<lparr>x_trace := x_trace x @ es\<rparr>"

definition on_dag :: "(dag \<Rightarrow> dag) \<Rightarrow> exec_state \<Rightarrow> exec_state" where
  "on_dag f x = x\<lparr>x_dag := f (x_dag x)\<rparr>"

definition charge :: "size_t \<Rightarrow> dag \<Rightarrow> dag" where
  "charge n d = d\<lparr>current_memory_usage := current_memory_usage d + n,
     peak_memory_usage := max (peak_memory_usage d) (current_memory_usage d + n)\<rparr>"

definition release :: "int \<Rightarrow> exec_state \<Rightarrow> exec_state" where
  "release b x =
     (let r = buf (x_dag x) b in
      x\<lparr>x_pool := snd (pool_free (d_ptr r) (x_pool x)),
        x_dag := (upd_buf b (\<lambda>r. r\<lparr>is_allocated := False, d_ptr := 0, allocated_size := 0\<rparr>) (x_dag x))
                   \<lparr>current_memory_usage := current_memory_usage (x_dag x) - allocated_size r\<rparr>\<rparr>)"

subsection \<open>Buffers\<close>

definition allocateBuffer :: "stage_env \<Rightarrow> int \<Rightarrow> exec_state \<Rightarrow> exec_state res" where
  "allocateBuffer env b x =
     (let d = x_dag x; r = buf d b in
      if b \<in> set (fused_internal_buffers d) then Inr x
      else if is_external r then Inr x
      else if b_size r = 0 then
        Inr (if \<not> is_allocated r
             then on_dag (upd_buf b (\<lambda>r. r\<lparr>is_allocated := True, allocated_size := 0, d_ptr := 0\<rparr>)) x else x)
      else if is_allocated r \<and> b_size r \<le> allocated_size r then Inr (on_dag (charge (b_size r)) x)
      else
        let x1 = (if is_allocated r then release b x else x);
            (q, pl) = pool_allocate (se_driver env) (se_scale env) (b_size r) (b_tag r) (is_persistent r) (x_pool x1)
        in if q = 0 then Inl (RuntimeError ''Failed to allocate buffer: '')
           else Inr (x1\<lparr>x_pool := pl,
                  x_dag := charge (b_size r)
                    (upd_buf b (\<lambda>r. r\<lparr>d_ptr := q, is_allocated := True, allocated_size := b_size r\<rparr>) (x_dag x1))\<rparr>))"

definition freeBuffer :: "int \<Rightarrow> exec_state \<Rightarrow> exec_state" where
  "freeBuffer b x =
     (let r = buf (x_dag x) b in
      if is_external r then x
      else if is_allocated r \<and> d_ptr r \<noteq> 0 then release b x else x)"

text \<open>The call returns before the source frees anything when the id is unknown.\<close>

definition setExternalPointer :: "int \<Rightarrow> dptr \<Rightarrow> exec_state \<Rightarrow> exec_state res" where
  "setExternalPointer b ptr x =
     (let d = x_dag x in
      case buffers d b of
        None \<Rightarrow> Inl (RuntimeError ''Invalid buffer ID: '')
      | Some r \<Rightarrow>
        (let x1 = (if is_allocated r \<and> \<not> is_external r \<and> \<not> (coloring_applied d \<and> buffer_color d b \<noteq> None)
                   then x\<lparr>x_pool := snd (pool_free (d_ptr r) (x_pool x)),
                          x_dag := d\<lparr>current_memory_usage := current_memory_usage d - b_size r\<rparr>\<rparr>
                   else x)
         in Inr (on_dag (upd_buf b (\<lambda>r. r\<lparr>d_ptr := ptr, is_external := True, is_allocated := True\<rparr>)) x1)))"

subsection \<open>Nodes\<close>

definition size_at :: "size_t list \<Rightarrow> nat \<Rightarrow> size_t" where
  "size_at sizes k = (if k < length sizes then sizes ! k else 0)"

definition store_sizes :: "int list \<Rightarrow> size_t list \<Rightarrow> dag \<Rightarrow> dag" where
  "store_sizes outs sizes d =
     fold (\<lambda>k d. if 0 < size_at sizes k then upd_buf (outs ! k) (\<lambda>r. r\<lparr>b_size := size_at sizes k\<rparr>) d else d)
       [0..<length outs] d"

definition bounds_check :: "int list \<Rightarrow> size_t list \<Rightarrow> dag \<Rightarrow> unit res" where
  "bounds_check outs sizes d =
     (if list_ex (\<lambda>k. allocated_size (buf d (outs ! k)) \<noteq> 0 \<and> allocated_size (buf d (outs ! k)) < size_at sizes k)
           [0..<length outs]
      then Inl (RuntimeError ''Buffer overwrite detected: '') else Inr ())"

definition run_stage :: "stage_env \<Rightarrow> nat \<Rightarrow> nat \<Rightarrow> nat \<Rightarrow> exec_state \<Rightarrow> exec_state res" where
  "run_stage env st i s x =
     (let d = x_dag x; ins = input_buffer_ids (node d i); outs = output_buffer_ids (node d i);
          inputs = map (\<lambda>b. d_ptr (buf d b)) ins; sizes = map (\<lambda>b. b_size (buf d b)) ins;
          outputs = map (\<lambda>b. d_ptr (buf d b)) outs in
      res_bind (se_run env st s inputs outputs sizes (x_pool x, x_mem x)) (\<lambda>(actual, pl, m).
        let x1 = emit [EvRun i s inputs outputs sizes] (x\<lparr>x_pool := pl, x_mem := m\<rparr>) in
        if capture_mode d then Inr x1
        else
          let x2 = on_dag (store_sizes outs actual) x1 in
          if se_debug env \<or> bounds_check_enabled d
          then res_bind (bounds_check outs actual (x_dag x2)) (\<lambda>_. Inr x2)
          else Inr x2))"

definition consume :: "int \<Rightarrow> exec_state \<Rightarrow> exec_state" where
  "consume b x =
     (let x1 = on_dag (upd_buf b (\<lambda>r. r\<lparr>remaining_consumers := remaining_consumers r - 1\<rparr>)) x;
          r = buf (x_dag x1) b in
      if remaining_consumers r = 0 \<and> \<not> is_persistent r \<and> strategy (x_dag x1) \<noteq> PREALLOCATE
      then freeBuffer b x1 else x1)"

definition exec_stream :: "dag \<Rightarrow> nat \<Rightarrow> nat \<Rightarrow> nat" where
  "exec_stream d stream i = (if capture_mode d \<or> n_stream (node d i) = 0 then stream else n_stream (node d i))"

definition start_events :: "dag \<Rightarrow> nat \<Rightarrow> nat \<Rightarrow> exec_event list" where
  "start_events d i s =
     (if profiling_enabled d \<and> has_start_event (node d i) \<and> \<not> capture_mode d then [EvStart i s] else [])"

definition exec_plain :: "stage_env \<Rightarrow> nat \<Rightarrow> nat \<Rightarrow> exec_state \<Rightarrow> exec_state res" where
  "exec_plain env stream i x =
     (let d = x_dag x; s = exec_stream d stream i;
          x1 = emit (map (EvWait s) (dependencies (node d i))) x in
      res_bind (if strategy d \<noteq> PREALLOCATE then res_fold (allocateBuffer env) (output_buffer_ids (node d i)) x1 else Inr x1)
      (\<lambda>x2. res_bind (case n_stage (node d i) of
               None \<Rightarrow> Inr (emit (start_events d i s) x2)
             | Some st \<Rightarrow> run_stage env st i s (emit (start_events d i s) x2))
      (\<lambda>x3. Inr (fold consume (input_buffer_ids (node d i))
               (on_dag (upd_node i (\<lambda>n. n\<lparr>is_executed := True\<rparr>)) (emit [EvRecord i s] x3))))))"

subsection \<open>Fused groups\<close>

definition side_outputs_of :: "dag \<Rightarrow> fused_group_exec \<Rightarrow> int \<Rightarrow> (int \<times> fused_side_output) list" where
  "side_outputs_of d fg main_out =
     concat (map (\<lambda>m. map (\<lambda>(k, b). (b, \<lparr>fso_stage = n_stage (node d m), fso_index = k, fso_ptr = d_ptr (buf d b),
                                  fso_capacity = allocated_size (buf d b)\<rparr>))
        (filter (\<lambda>(k, b). b \<noteq> main_out \<and> consumer_stage_ids (buf d b) = []) (output_index_to_buffer_id (node d m))))
        (fg_members fg))"

definition side_inputs_of :: "dag \<Rightarrow> fused_group_exec \<Rightarrow> fused_side_input list" where
  "side_inputs_of d fg =
     concat (map (\<lambda>m. map (\<lambda>k. let b = buf d (input_buffer_ids (node d m) ! k) in
                              \<lparr>fsi_stage = n_stage (node d m), fsi_index = k, fsi_ptr = d_ptr b, fsi_size = b_size b\<rparr>)
        (filter (\<lambda>k. \<not> (m = fg_head fg \<and> k = 0) \<and>
            \<not> (0 \<le> producer_stage_id (buf d (input_buffer_ids (node d m) ! k)) \<and>
               nat (producer_stage_id (buf d (input_buffer_ids (node d m) ! k))) \<in> set (map (\<lambda>m. n_id (node d m)) (fg_members fg))))
          [0..<length (input_buffer_ids (node d m))]))
        (fg_members fg))"

definition side_overflow :: "(int \<times> fused_side_output) list \<Rightarrow> size_t list \<Rightarrow> bool" where
  "side_overflow side sizes =
     list_ex (\<lambda>k. fso_capacity (snd (side ! k)) \<noteq> 0 \<and> fso_capacity (snd (side ! k)) < size_at sizes k) [0..<length side]"

text \<open>\<open>None\<close>: the node is in no group.  An input-less head or an output-less tail, undefined in the source, throws.\<close>

definition executeFusedNode :: "stage_env \<Rightarrow> nat \<Rightarrow> nat \<Rightarrow> exec_state \<Rightarrow> exec_state res option" where
  "executeFusedNode env stream i x =
     (let d = x_dag x in
      if i \<notin> set (fused_member d) then None
      else case fused_head d i of
        None \<Rightarrow> Some (Inr (emit [EvRecord i stream] x))
      | Some g \<Rightarrow> Some
        (let fg = fused_groups d ! g;
             x1 = emit (map (EvWait stream) (dependencies (node d i)) @ start_events d i stream) x in
         case (input_buffer_ids (node d i), output_buffer_ids (node d (fg_tail fg))) of
           (in_id # _, out_id # _) \<Rightarrow>
             (let side = side_outputs_of d fg out_id;
                  ctx = \<lparr>fc_stages = fg_stages fg, fc_input = d_ptr (buf d in_id), fc_input_bytes = b_size (buf d in_id),
                         fc_output = d_ptr (buf d out_id), fc_output_capacity = allocated_size (buf d out_id),
                         fc_side_outputs = map snd side, fc_side_inputs = side_inputs_of d fg\<rparr> in
              res_bind (se_fused env (fg_impl fg) ctx (x_pool x, x_mem x)) (\<lambda>(archive, sizes, pl, m).
                let x2 = emit [EvFused g stream (fc_input ctx) (fc_output ctx)] (x1\<lparr>x_pool := pl, x_mem := m\<rparr>);
                    x3 = on_dag (upd_buf out_id (\<lambda>r. r\<lparr>b_size := archive\<rparr>)) x2 in
                if allocated_size (buf d out_id) \<noteq> 0 \<and> allocated_size (buf d out_id) < archive
                then Inl (RuntimeError ''Fused group wrote too many bytes into its buffer'')
                else if side_overflow side sizes
                then Inl (RuntimeError ''Fused group side output overflowed its buffer'')
                else Inr (emit (map (\<lambda>m. EvRecord m stream) (fg_members fg))
                       (on_dag (fold (\<lambda>k. upd_buf (fst (side ! k)) (\<lambda>r. r\<lparr>b_size := size_at sizes k\<rparr>)) [0..<length side]) x3))))
         | _ \<Rightarrow> Inl (OutOfRange ''buffers_.at'')))"

definition exec_node :: "stage_env \<Rightarrow> nat \<Rightarrow> nat \<Rightarrow> exec_state \<Rightarrow> exec_state res" where
  "exec_node env stream i x =
     (case executeFusedNode env stream i x of Some r \<Rightarrow> r | None \<Rightarrow> exec_plain env stream i x)"

subsection \<open>The whole graph\<close>

definition exec_order :: "dag \<Rightarrow> nat list" where
  "exec_order d = concat (map (\<lambda>l. levels d ! l) [0..<nat (max_level d) + 1])"

definition join_events :: "dag \<Rightarrow> nat \<Rightarrow> exec_event list" where
  "join_events d stream =
     (if capture_mode d then []
      else map (EvWait stream)
        (filter (\<lambda>i. is_executed (node d i) \<and> exec_stream d stream i \<noteq> stream) (exec_order d)))"

definition execute :: "stage_env \<Rightarrow> nat \<Rightarrow> exec_state \<Rightarrow> exec_state res" where
  "execute env stream x =
     (if \<not> is_finalized (x_dag x) then Inl (RuntimeError ''DAG must be finalized before execution'')
      else res_bind (res_fold (exec_node env stream) (exec_order (x_dag x)) x)
             (\<lambda>y. Inr (emit (join_events (x_dag y) stream) y)))"

definition reset_buffer :: "int \<Rightarrow> exec_state \<Rightarrow> exec_state" where
  "reset_buffer b x =
     (let r = buf (x_dag x) b;
          x1 = (if strategy (x_dag x) \<noteq> PREALLOCATE \<and> is_allocated r \<and> \<not> is_persistent r \<and> \<not> is_external r
                then if d_ptr r \<noteq> 0 then release b x
                     else on_dag (upd_buf b (\<lambda>r. r\<lparr>is_allocated := False, d_ptr := 0, allocated_size := 0\<rparr>)) x
                else x)
      in on_dag (upd_buf b (\<lambda>r. r\<lparr>remaining_consumers := int (length (consumer_stage_ids r)),
                   b_size := (if is_external r then b_size r else initial_size r)\<rparr>)) x1)"

definition dag_reset :: "exec_state \<Rightarrow> exec_state" where
  "dag_reset x =
     (let x1 = fold reset_buffer (map fst (buffer_table (x_dag x))) x in
      on_dag (\<lambda>d. d\<lparr>nodes := map (\<lambda>n. n\<lparr>is_executed := False\<rparr>) (nodes d),
                   current_memory_usage := (if strategy d \<noteq> PREALLOCATE then 0 else current_memory_usage d)\<rparr>) x1)"

text \<open>The destructor's frees; the events and streams it destroys are not modelled.\<close>

definition dag_destroy :: "exec_state \<Rightarrow> exec_state" where
  "dag_destroy x =
     (let d = x_dag x in
      if coloring_applied d
      then x\<lparr>x_pool := fold (\<lambda>q pl. if q \<noteq> 0 then snd (pool_free q pl) else pl) (color_region_ptrs d) (x_pool x),
             x_dag := d\<lparr>color_region_ptrs := []\<rparr>\<rparr>
      else fold (\<lambda>b x. let r = buf (x_dag x) b in
                   if is_allocated r \<and> \<not> is_external r \<and> d_ptr r \<noteq> 0
                   then on_dag (upd_buf b (\<lambda>r. r\<lparr>is_allocated := False, d_ptr := 0\<rparr>))
                          (x\<lparr>x_pool := snd (pool_free (d_ptr r) (x_pool x))\<rparr>)
                   else x) (map fst (buffer_table d)) x)"

subsection \<open>What an execution leaves alone\<close>

definition shape :: "dag \<Rightarrow> dag_node list \<times> (int \<Rightarrow> nat list \<times> int \<times> bool \<times> bool) \<times> memory_strategy \<times> nat list list
    \<times> int \<times> int list \<times> nat list \<times> bool" where
  "shape d = (map (\<lambda>n. n\<lparr>is_executed := False\<rparr>) (nodes d),
     (\<lambda>b. (consumer_stage_ids (buf d b), producer_stage_id (buf d b), is_persistent (buf d b), is_external (buf d b))),
     strategy d, levels d, max_level d, fused_internal_buffers d, fused_member d, capture_mode d)"

lemma shape_eqD:
  assumes "shape d = shape d'"
  shows "length (nodes d) = length (nodes d')" "strategy d = strategy d'" "fused_internal_buffers d = fused_internal_buffers d'"
    "fused_member d = fused_member d'" "capture_mode d = capture_mode d'" "exec_order d = exec_order d'"
    "consumer_stage_ids (buf d b) = consumer_stage_ids (buf d' b)" "producer_stage_id (buf d b) = producer_stage_id (buf d' b)"
    "is_persistent (buf d b) = is_persistent (buf d' b)" "is_external (buf d b) = is_external (buf d' b)"
  using assms by (auto simp: shape_def exec_order_def fun_eq_iff dest: map_eq_imp_length_eq)

lemma shape_node:
  assumes "shape d = shape d'" "i < length (nodes d)"
  shows "input_buffer_ids (node d i) = input_buffer_ids (node d' i)" "output_buffer_ids (node d i) = output_buffer_ids (node d' i)"
    "dependencies (node d i) = dependencies (node d' i)" "n_stage (node d i) = n_stage (node d' i)"
    "n_stream (node d i) = n_stream (node d' i)"
proof -
  have "map (\<lambda>n. n\<lparr>is_executed := False\<rparr>) (nodes d) ! i = map (\<lambda>n. n\<lparr>is_executed := False\<rparr>) (nodes d') ! i"
    using assms(1) by (simp add: shape_def)
  moreover have "i < length (nodes d')" using assms shape_eqD(1) by metis
  ultimately have eq: "(node d i)\<lparr>is_executed := False\<rparr> = (node d' i)\<lparr>is_executed := False\<rparr>" using assms(2) by simp
  show "input_buffer_ids (node d i) = input_buffer_ids (node d' i)" using arg_cong [OF eq, of input_buffer_ids] by simp
  show "output_buffer_ids (node d i) = output_buffer_ids (node d' i)" using arg_cong [OF eq, of output_buffer_ids] by simp
  show "dependencies (node d i) = dependencies (node d' i)" using arg_cong [OF eq, of dependencies] by simp
  show "n_stage (node d i) = n_stage (node d' i)" using arg_cong [OF eq, of n_stage] by simp
  show "n_stream (node d i) = n_stream (node d' i)" using arg_cong [OF eq, of n_stream] by simp
qed

lemma shape_upd_buf:
  assumes "\<And>r. consumer_stage_ids (f r) = consumer_stage_ids r" "\<And>r. producer_stage_id (f r) = producer_stage_id r"
    "\<And>r. is_persistent (f r) = is_persistent r" "\<And>r. is_external (f r) = is_external r"
  shows "shape (upd_buf b f d) = shape d"
proof -
  have "levels (upd_buf b f d) = levels d" "max_level (upd_buf b f d) = max_level d" "strategy (upd_buf b f d) = strategy d"
    "fused_internal_buffers (upd_buf b f d) = fused_internal_buffers d" "fused_member (upd_buf b f d) = fused_member d"
    "capture_mode (upd_buf b f d) = capture_mode d"
    by (simp_all add: upd_buf_def)
  then show ?thesis using assms by (simp add: shape_def fun_eq_iff)
qed

lemma shape_upd_executed: "shape (upd_node i (\<lambda>n. n\<lparr>is_executed := True\<rparr>) d) = shape d"
proof -
  have "map (\<lambda>n. n\<lparr>is_executed := False\<rparr>) ((nodes d)[i := (node d i)\<lparr>is_executed := True\<rparr>]) = map (\<lambda>n. n\<lparr>is_executed := False\<rparr>) (nodes d)"
    by (rule nth_equalityI)
      (simp_all add: list_update_field [where f = "\<lambda>n. n\<lparr>is_executed := False\<rparr>" and v = "\<lambda>n. n\<lparr>is_executed := True\<rparr>"])
  then show ?thesis by (simp add: shape_def upd_node_def buf_def buffers_def)
qed

lemma buf_usage [simp]:
  "buf (d\<lparr>current_memory_usage := c\<rparr>) b = buf d b" "buf (d\<lparr>peak_memory_usage := c\<rparr>) b = buf d b"
  by (simp_all add: buf_def buffers_def)

lemma shape_usage [simp]: "shape (d\<lparr>current_memory_usage := c\<rparr>) = shape d" "shape (d\<lparr>peak_memory_usage := c\<rparr>) = shape d"
  by (simp_all add: shape_def)

lemma charge_simps [simp]: "buf (charge n d) b = buf d b" "shape (charge n d) = shape d"
  by (simp_all add: charge_def)

lemma emit_simps [simp]:
  "x_dag (emit es x) = x_dag x" "x_pool (emit es x) = x_pool x" "x_mem (emit es x) = x_mem x"
  "x_trace (emit es x) = x_trace x @ es"
  by (simp_all add: emit_def)

lemma on_dag_simps [simp]:
  "x_dag (on_dag f x) = f (x_dag x)" "x_pool (on_dag f x) = x_pool x" "x_mem (on_dag f x) = x_mem x"
  "x_trace (on_dag f x) = x_trace x"
  by (simp_all add: on_dag_def)

subsection \<open>Memory consistency\<close>

text \<open>
  A buffer holds memory when the graph allocated it and its pointer is not null.  The held
  pointers are live in the pool and pairwise different, so freeing one never frees another.
\<close>

definition held :: "exec_state \<Rightarrow> int \<Rightarrow> bool" where
  "held x b \<longleftrightarrow> \<not> is_external (buf (x_dag x) b) \<and> is_allocated (buf (x_dag x) b) \<and> d_ptr (buf (x_dag x) b) \<noteq> 0"

definition mem_ok :: "exec_state \<Rightarrow> bool" where
  "mem_ok x \<longleftrightarrow> pool_wf (x_pool x) \<and>
     (\<forall>b. held x b \<longrightarrow> d_ptr (buf (x_dag x) b) \<in> tracked (x_pool x)) \<and>
     (\<forall>b c. held x b \<longrightarrow> held x c \<longrightarrow> b \<noteq> c \<longrightarrow> d_ptr (buf (x_dag x) b) \<noteq> d_ptr (buf (x_dag x) c)) \<and>
     (\<forall>b. \<not> is_external (buf (x_dag x) b) \<longrightarrow> is_allocated (buf (x_dag x) b) \<longrightarrow>
        (d_ptr (buf (x_dag x) b) = 0 \<longleftrightarrow> allocated_size (buf (x_dag x) b) = 0))"

definition env_ok :: "stage_env \<Rightarrow> bool" where
  "env_ok env \<longleftrightarrow> driver_ok (se_driver env) \<and>
     (\<forall>st s ins outs sizes pl m actual pl' m'. se_run env st s ins outs sizes (pl, m) = Inr (actual, pl', m') \<longrightarrow>
        pool_wf pl \<longrightarrow> pool_wf pl' \<and> tracked pl \<subseteq> tracked pl')"

lemma mem_okD:
  assumes "mem_ok x"
  shows "pool_wf (x_pool x)" "held x b \<Longrightarrow> d_ptr (buf (x_dag x) b) \<in> tracked (x_pool x)"
    "held x b \<Longrightarrow> held x c \<Longrightarrow> d_ptr (buf (x_dag x) b) = d_ptr (buf (x_dag x) c) \<Longrightarrow> b = c"
    "\<not> is_external (buf (x_dag x) b) \<Longrightarrow> is_allocated (buf (x_dag x) b) \<Longrightarrow>
        d_ptr (buf (x_dag x) b) = 0 \<longleftrightarrow> allocated_size (buf (x_dag x) b) = 0"
  using assms unfolding mem_ok_def by blast+

text \<open>Only the pool and four fields of the records matter.\<close>

definition mem_view :: "dag \<Rightarrow> int \<Rightarrow> bool \<times> bool \<times> dptr \<times> size_t" where
  "mem_view d b = (is_external (buf d b), is_allocated (buf d b), d_ptr (buf d b), allocated_size (buf d b))"

lemma mem_ok_cong:
  assumes "mem_ok x" "\<And>b. mem_view (x_dag y) b = mem_view (x_dag x) b" "pool_wf (x_pool y)" "tracked (x_pool x) \<subseteq> tracked (x_pool y)"
  shows "mem_ok y"
proof -
  have eq: "is_external (buf (x_dag y) b) = is_external (buf (x_dag x) b)" "is_allocated (buf (x_dag y) b) = is_allocated (buf (x_dag x) b)"
    "d_ptr (buf (x_dag y) b) = d_ptr (buf (x_dag x) b)" "allocated_size (buf (x_dag y) b) = allocated_size (buf (x_dag x) b)" for b
    using assms(2) [of b] by (simp_all add: mem_view_def)
  have h: "held y b = held x b" for b by (simp add: held_def eq)
  show ?thesis using assms(1,3,4) unfolding mem_ok_def h eq by blast
qed

lemma release_view:
  "buf (x_dag (release b x)) c = (if c = b then (buf (x_dag x) b)\<lparr>is_allocated := False, d_ptr := 0, allocated_size := 0\<rparr> else buf (x_dag x) c)"
  "shape (x_dag (release b x)) = shape (x_dag x)" "x_pool (release b x) = snd (pool_free (d_ptr (buf (x_dag x) b)) (x_pool x))"
  "x_trace (release b x) = x_trace x"
  by (simp_all add: release_def Let_def shape_upd_buf)

lemma release_mem_ok:
  assumes "mem_ok x" "\<not> is_external (buf (x_dag x) b)" "is_allocated (buf (x_dag x) b)"
  shows "mem_ok (release b x)"
proof -
  note M = mem_okD [OF assms(1)]
  let ?y = "release b x"
  have h: "held ?y c \<longleftrightarrow> c \<noteq> b \<and> held x c" for c by (auto simp: held_def release_view)
  have tr: "tracked (x_pool ?y) = tracked (x_pool x) - {d_ptr (buf (x_dag x) b)}"
    using pool_free_tracked [OF M(1)] by (simp add: release_view)
  have ne: "d_ptr (buf (x_dag x) c) \<noteq> d_ptr (buf (x_dag x) b)" if "held x c" "c \<noteq> b" for c
  proof (cases "d_ptr (buf (x_dag x) b) = 0")
    case False
    then have "held x b" using assms by (simp add: held_def)
    then show ?thesis using M(3) that by blast
  qed (use that in \<open>simp add: held_def\<close>)
  show ?thesis unfolding mem_ok_def h
  proof (intro conjI allI impI)
    show "pool_wf (x_pool ?y)" using pool_free_wf [OF M(1)] by (simp add: release_view)
    show "d_ptr (buf (x_dag ?y) c) \<in> tracked (x_pool ?y)" if "c \<noteq> b \<and> held x c" for c
      using that M(2) [of c] ne [of c] by (simp add: tr release_view(1))
    show "d_ptr (buf (x_dag ?y) c) \<noteq> d_ptr (buf (x_dag ?y) e)" if "c \<noteq> b \<and> held x c" "e \<noteq> b \<and> held x e" "c \<noteq> e" for c e
      using that M(3) [of c e] by (auto simp: release_view(1))
    show "d_ptr (buf (x_dag ?y) c) = 0 \<longleftrightarrow> allocated_size (buf (x_dag ?y) c) = 0"
      if "\<not> is_external (buf (x_dag ?y) c)" "is_allocated (buf (x_dag ?y) c)" for c
      using that M(4) [of c] by (simp add: release_view(1) split: if_splits)
  qed
qed

lemma fresh_alloc_mem_ok:
  assumes "mem_ok x" "\<not> is_allocated (buf (x_dag x) b)" "\<not> is_external (buf (x_dag x) b)" "sz \<noteq> 0"
    and "driver_ok drv" "pool_allocate drv scale sz tag pers (x_pool x) = (q, pl)" "q \<noteq> 0"
    and "\<And>c. buf (x_dag y) c = (if c = b then (buf (x_dag x) b)\<lparr>d_ptr := q, is_allocated := True, allocated_size := sz\<rparr> else buf (x_dag x) c)"
    and "x_pool y = pl"
  shows "mem_ok y"
proof -
  note M = mem_okD [OF assms(1)]
  have q: "q \<notin> tracked (x_pool x)" "tracked pl = insert q (tracked (x_pool x))"
    using pool_allocate_tracked [OF assms(5,6)] assms(7) by auto
  have h: "held y c \<longleftrightarrow> c = b \<or> held x c" for c using assms(2,3,7) by (auto simp: held_def assms(8))
  have nb: "\<not> held x b" using assms(2) by (simp add: held_def)
  show ?thesis unfolding mem_ok_def h
  proof (intro conjI allI impI)
    show "pool_wf (x_pool y)" using pool_allocate_wf [OF assms(5) M(1) assms(6)] assms(9) by simp
    show "d_ptr (buf (x_dag y) c) \<in> tracked (x_pool y)" if "c = b \<or> held x c" for c
      using that M(2) [of c] nb q by (auto simp: assms(8,9))
    show "d_ptr (buf (x_dag y) c) \<noteq> d_ptr (buf (x_dag y) e)" if "c = b \<or> held x c" "e = b \<or> held x e" "c \<noteq> e" for c e
      using that M(2) [of c] M(2) [of e] M(3) [of c e] nb q(1) by (auto simp: assms(8))
    show "d_ptr (buf (x_dag y) c) = 0 \<longleftrightarrow> allocated_size (buf (x_dag y) c) = 0"
      if "\<not> is_external (buf (x_dag y) c)" "is_allocated (buf (x_dag y) c)" for c
      using that M(4) [of c] assms(4,7) by (simp add: assms(8) split: if_splits)
  qed
qed

subsection \<open>Allocating the outputs of a node\<close>

text \<open>What an allocation keeps of the other buffers, and the counters it never touches.\<close>

definition grows :: "exec_state \<Rightarrow> exec_state \<Rightarrow> int set \<Rightarrow> bool" where
  "grows x y B \<longleftrightarrow> shape (x_dag y) = shape (x_dag x) \<and>
     (\<forall>b. remaining_consumers (buf (x_dag y) b) = remaining_consumers (buf (x_dag x) b)) \<and>
     (\<forall>b. is_allocated (buf (x_dag x) b) \<longrightarrow> is_allocated (buf (x_dag y) b)) \<and>
     (\<forall>b. b \<notin> B \<longrightarrow> mem_view (x_dag y) b = mem_view (x_dag x) b)"

lemma grows_refl: "grows x x B"
  by (simp add: grows_def)

lemma grows_trans: "grows x y B \<Longrightarrow> grows y z C \<Longrightarrow> grows x z (B \<union> C)"
  by (simp add: grows_def)

lemma allocateBuffer_ok:
  assumes "mem_ok x" "env_ok env" "fused_internal_buffers (x_dag x) = []" "allocateBuffer env b x = Inr y"
  shows "mem_ok y \<and> grows x y {b} \<and> x_trace y = x_trace x \<and> (is_external (buf (x_dag x) b) \<or> is_allocated (buf (x_dag y) b))"
proof -
  let ?r = "buf (x_dag x) b"
  have drv: "driver_ok (se_driver env)" using assms(2) by (simp add: env_ok_def)
  consider (ext) "is_external ?r" | (zero) "\<not> is_external ?r" "b_size ?r = 0"
    | (reuse) "\<not> is_external ?r" "b_size ?r \<noteq> 0" "is_allocated ?r" "b_size ?r \<le> allocated_size ?r"
    | (alloc) "\<not> is_external ?r" "b_size ?r \<noteq> 0" "\<not> (is_allocated ?r \<and> b_size ?r \<le> allocated_size ?r)" by blast
  then show ?thesis
  proof cases
    case ext
    with assms show ?thesis by (auto simp: allocateBuffer_def Let_def grows_refl)
  next
    case zero
    show ?thesis
    proof (cases "is_allocated ?r")
      case True
      with zero assms show ?thesis by (auto simp: allocateBuffer_def Let_def grows_refl)
    next
      case False
      with zero assms have y: "y = on_dag (upd_buf b (\<lambda>r. r\<lparr>is_allocated := True, allocated_size := 0, d_ptr := 0\<rparr>)) x"
        by (simp add: allocateBuffer_def Let_def)
      have h: "held y c \<longleftrightarrow> held x c" for c using False by (auto simp: y held_def)
      have bufy: "buf (x_dag y) c = (if c = b then ?r\<lparr>is_allocated := True, allocated_size := 0, d_ptr := 0\<rparr> else buf (x_dag x) c)" for c
        by (simp add: y)
      have nb: "\<not> held x b" using False by (simp add: held_def)
      have "mem_ok y" unfolding mem_ok_def h
      proof (intro conjI allI impI)
        show "d_ptr (buf (x_dag y) c) \<in> tracked (x_pool y)" if "held x c" for c
          using that nb mem_okD(2) [OF assms(1), of c] by (auto simp: bufy y)
        show "d_ptr (buf (x_dag y) c) \<noteq> d_ptr (buf (x_dag y) e)" if "held x c" "held x e" "c \<noteq> e" for c e
          using that nb mem_okD(3) [OF assms(1), of c e] by (auto simp: bufy)
        show "d_ptr (buf (x_dag y) c) = 0 \<longleftrightarrow> allocated_size (buf (x_dag y) c) = 0"
          if "\<not> is_external (buf (x_dag y) c)" "is_allocated (buf (x_dag y) c)" for c
          using that mem_okD(4) [OF assms(1), of c] by (simp add: bufy split: if_splits)
      qed (use mem_okD(1) [OF assms(1)] in \<open>simp add: y\<close>)
      then show ?thesis by (simp add: y grows_def shape_upd_buf mem_view_def)
    qed
  next
    case reuse
    with assms have y: "y = on_dag (charge (b_size ?r)) x" by (simp add: allocateBuffer_def Let_def)
    have "mem_ok y" by (rule mem_ok_cong [OF assms(1)]) (use mem_okD(1) [OF assms(1)] in \<open>simp_all add: y mem_view_def\<close>)
    with reuse show ?thesis by (simp add: y grows_def mem_view_def)
  next
    case alloc
    define x1 where "x1 = (if is_allocated ?r then release b x else x)"
    obtain q pl where pa: "pool_allocate (se_driver env) (se_scale env) (b_size ?r) (b_tag ?r) (is_persistent ?r) (x_pool x1) = (q, pl)"
      by fastforce
    have q: "q \<noteq> 0" and y: "y = x1\<lparr>x_pool := pl, x_dag := charge (b_size ?r)
        (upd_buf b (\<lambda>r. r\<lparr>d_ptr := q, is_allocated := True, allocated_size := b_size r\<rparr>) (x_dag x1))\<rparr>"
      using alloc assms(3,4) pa unfolding allocateBuffer_def x1_def Let_def
      by (auto split: if_splits)
    have m1: "mem_ok x1" using release_mem_ok [OF assms(1) alloc(1)] assms(1) by (simp add: x1_def)
    have b1: "buf (x_dag x1) c = (if c = b \<and> is_allocated ?r then ?r\<lparr>is_allocated := False, d_ptr := 0, allocated_size := 0\<rparr> else buf (x_dag x) c)" for c
      by (simp add: x1_def release_view)
    have by': "buf (x_dag y) c = (if c = b then (buf (x_dag x1) b)\<lparr>d_ptr := q, is_allocated := True, allocated_size := b_size ?r\<rparr> else buf (x_dag x1) c)" for c
      using b1 [of b] by (simp add: y)
    have "mem_ok y"
      using alloc(1,2) by (intro fresh_alloc_mem_ok [OF m1 _ _ _ drv pa q by']) (simp_all add: b1 y)
    moreover have "shape (x_dag y) = shape (x_dag x)" "x_trace y = x_trace x"
      by (simp_all add: y x1_def shape_upd_buf release_view)
    ultimately show ?thesis by (simp add: grows_def by' b1 mem_view_def)
  qed
qed

lemma allocate_outputs_ok:
  assumes "mem_ok x" "env_ok env" "fused_internal_buffers (x_dag x) = []" "res_fold (allocateBuffer env) bs x = Inr y"
  shows "mem_ok y \<and> grows x y (set bs) \<and> x_trace y = x_trace x \<and> (\<forall>b\<in>set bs. is_external (buf (x_dag x) b) \<or> is_allocated (buf (x_dag y) b))"
  using assms
proof (induction bs arbitrary: x)
  case Nil
  then show ?case by (simp add: grows_refl)
next
  case (Cons b bs)
  from Cons.prems(4) obtain z where z: "allocateBuffer env b x = Inr z" "res_fold (allocateBuffer env) bs z = Inr y"
    by (auto simp: res_bind_eq_Inr)
  note A = allocateBuffer_ok [OF Cons.prems(1-3) z(1)]
  have sh: "shape (x_dag z) = shape (x_dag x)" using A by (simp add: grows_def)
  have "fused_internal_buffers (x_dag z) = []" using Cons.prems(3) shape_eqD(3) [OF sh] by simp
  note B = Cons.IH [OF conjunct1 [OF A] Cons.prems(2) this z(2)]
  have "grows x y ({b} \<union> set bs)" using A B grows_trans by blast
  moreover have "is_external (buf (x_dag x) c) \<or> is_allocated (buf (x_dag y) c)" if "c \<in> set (b # bs)" for c
  proof (cases "c = b")
    case True
    with A B show ?thesis by (auto simp: grows_def)
  next
    case False
    with that B shape_eqD(10) [OF sh, of c] show ?thesis by auto
  qed
  moreover have "x_trace y = x_trace x" using A B by simp
  ultimately show ?case using B by simp
qed

subsection \<open>Consuming the inputs of a node\<close>

lemma freeBuffer_view:
  "buf (x_dag (freeBuffer b x)) c = (if c = b \<and> held x b then (buf (x_dag x) b)\<lparr>is_allocated := False, d_ptr := 0, allocated_size := 0\<rparr> else buf (x_dag x) c)"
  "shape (x_dag (freeBuffer b x)) = shape (x_dag x)" "x_trace (freeBuffer b x) = x_trace x"
  by (auto simp: freeBuffer_def Let_def release_view held_def)

lemma freeBuffer_mem_ok: "mem_ok x \<Longrightarrow> mem_ok (freeBuffer b x)"
  by (auto simp: freeBuffer_def Let_def release_mem_ok)

lemma consume_view:
  fixes b :: int and x :: exec_state
  defines "r \<equiv> buf (x_dag x) b"
  defines "freed \<equiv> remaining_consumers r = 1 \<and> \<not> is_persistent r \<and> strategy (x_dag x) \<noteq> PREALLOCATE \<and> held x b"
  shows "buf (x_dag (consume b x)) c =
      (if c = b then if freed then r\<lparr>remaining_consumers := 0, is_allocated := False, d_ptr := 0, allocated_size := 0\<rparr>
                     else r\<lparr>remaining_consumers := remaining_consumers r - 1\<rparr>
       else buf (x_dag x) c)"
    "shape (x_dag (consume b x)) = shape (x_dag x)" "x_trace (consume b x) = x_trace x"
proof -
  let ?x1 = "on_dag (upd_buf b (\<lambda>r. r\<lparr>remaining_consumers := remaining_consumers r - 1\<rparr>)) x"
  have sh: "shape (x_dag ?x1) = shape (x_dag x)" by (simp add: shape_upd_buf)
  have st: "strategy (x_dag ?x1) = strategy (x_dag x)" by (rule shape_eqD(2) [OF sh])
  have h: "held ?x1 b = held x b" by (simp add: held_def)
  show "buf (x_dag (consume b x)) c =
      (if c = b then if freed then r\<lparr>remaining_consumers := 0, is_allocated := False, d_ptr := 0, allocated_size := 0\<rparr>
                     else r\<lparr>remaining_consumers := remaining_consumers r - 1\<rparr>
       else buf (x_dag x) c)"
    unfolding consume_def Let_def freed_def r_def using st h by (auto simp: freeBuffer_view)
  show "shape (x_dag (consume b x)) = shape (x_dag x)" "x_trace (consume b x) = x_trace x"
    unfolding consume_def Let_def using sh by (auto simp: freeBuffer_view)
qed

lemma consume_mem_ok:
  assumes "mem_ok x"
  shows "mem_ok (consume b x)"
proof -
  let ?x1 = "on_dag (upd_buf b (\<lambda>r. r\<lparr>remaining_consumers := remaining_consumers r - 1\<rparr>)) x"
  have "mem_ok ?x1"
    by (rule mem_ok_cong [OF assms]) (use mem_okD(1) [OF assms] in \<open>simp_all add: mem_view_def\<close>)
  then show ?thesis unfolding consume_def Let_def by (simp add: freeBuffer_mem_ok)
qed

definition consumed :: "int list \<Rightarrow> exec_state \<Rightarrow> exec_state \<Rightarrow> bool" where
  "consumed bs x y \<longleftrightarrow> mem_ok y \<and> shape (x_dag y) = shape (x_dag x) \<and> x_trace y = x_trace x \<and>
    (\<forall>b. remaining_consumers (buf (x_dag y) b) = remaining_consumers (buf (x_dag x) b) - int (count_list bs b)) \<and>
    (\<forall>b. is_persistent (buf (x_dag x) b) \<or> 0 < remaining_consumers (buf (x_dag x) b) - int (count_list bs b) \<longrightarrow>
       mem_view (x_dag y) b = mem_view (x_dag x) b) \<and>
    (\<forall>b. held y b \<longrightarrow> held x b) \<and>
    (\<forall>b\<in>set bs. remaining_consumers (buf (x_dag x) b) = int (count_list bs b) \<longrightarrow> \<not> is_persistent (buf (x_dag x) b) \<longrightarrow>
       strategy (x_dag x) \<noteq> PREALLOCATE \<longrightarrow> \<not> held y b)"

lemma consumedD:
  assumes "consumed bs x y"
  shows "mem_ok y" "shape (x_dag y) = shape (x_dag x)" "x_trace y = x_trace x"
    "remaining_consumers (buf (x_dag y) b) = remaining_consumers (buf (x_dag x) b) - int (count_list bs b)"
    "is_persistent (buf (x_dag x) b) \<or> 0 < remaining_consumers (buf (x_dag x) b) - int (count_list bs b) \<Longrightarrow>
       mem_view (x_dag y) b = mem_view (x_dag x) b"
    "held y b \<Longrightarrow> held x b"
    "b \<in> set bs \<Longrightarrow> remaining_consumers (buf (x_dag x) b) = int (count_list bs b) \<Longrightarrow> \<not> is_persistent (buf (x_dag x) b) \<Longrightarrow>
       strategy (x_dag x) \<noteq> PREALLOCATE \<Longrightarrow> \<not> held y b"
  using assms unfolding consumed_def by blast+

lemma consume_all: "mem_ok x \<Longrightarrow> consumed bs x (fold consume bs x)"
proof (induction bs arbitrary: x)
  case Nil
  then show ?case by (simp add: consumed_def)
next
  case (Cons a bs)
  let ?z = "consume a x" and ?y = "fold consume (a # bs) x"
  note V = consume_view [of a x]
  have "consumed bs ?z ?y" using Cons.IH [OF consume_mem_ok [OF Cons.prems]] by simp
  note D = consumedD [OF this]
  have st: "strategy (x_dag ?z) = strategy (x_dag x)" by (rule shape_eqD(2) [OF V(2)])
  have pers: "is_persistent (buf (x_dag ?z) b) = is_persistent (buf (x_dag x) b)" for b by (rule shape_eqD(9) [OF V(2)])
  have rem: "remaining_consumers (buf (x_dag ?z) b) = remaining_consumers (buf (x_dag x) b) - (if b = a then 1 else 0)" for b
    using V(1) [of b] by auto
  have heldz: "held x b" if "held ?z b" for b
    using that V(1) [of b] by (auto simp: held_def split: if_splits)
  show ?case unfolding consumed_def
  proof (intro conjI allI impI ballI)
    show "mem_ok ?y" by (rule D(1))
    show "shape (x_dag ?y) = shape (x_dag x)" using D(2) V(2) by (rule trans)
    show "x_trace ?y = x_trace x" using D(3) V(3) by (rule trans)
    show "remaining_consumers (buf (x_dag ?y) b) = remaining_consumers (buf (x_dag x) b) - int (count_list (a # bs) b)" for b
      using D(4) [of b] rem [of b] by simp
    show "mem_view (x_dag ?y) b = mem_view (x_dag x) b"
      if "is_persistent (buf (x_dag x) b) \<or> 0 < remaining_consumers (buf (x_dag x) b) - int (count_list (a # bs) b)" for b
    proof -
      have "mem_view (x_dag ?y) b = mem_view (x_dag ?z) b" using D(5) [of b] that rem [of b] pers [of b] by (cases "b = a") auto
      also have "\<dots> = mem_view (x_dag x) b" using that V(1) [of b] by (auto simp: mem_view_def)
      finally show ?thesis .
    qed
    show "held x b" if "held ?y b" for b using D(6) [OF that] by (rule heldz)
    show "\<not> held ?y b" if "b \<in> set (a # bs)" "remaining_consumers (buf (x_dag x) b) = int (count_list (a # bs) b)"
      "\<not> is_persistent (buf (x_dag x) b)" "strategy (x_dag x) \<noteq> PREALLOCATE" for b
    proof (cases "b \<in> set bs")
      case True
      then show ?thesis using D(7) [of b] that rem [of b] pers [of b] st by auto
    next
      case False
      then have "a = b" "remaining_consumers (buf (x_dag x) b) = 1" using that by auto
      then have "\<not> held ?z b" using that V(1) [of b] by (auto simp: held_def)
      then show ?thesis using D(6) [of b] by blast
    qed
  qed
qed

subsection \<open>Running a stage\<close>

lemma store_sizes_view:
  "shape (store_sizes outs sizes d) = shape d \<and> (\<forall>b. mem_view (store_sizes outs sizes d) b = mem_view d b) \<and>
   (\<forall>b. remaining_consumers (buf (store_sizes outs sizes d) b) = remaining_consumers (buf d b))"
proof -
  have "shape (fold (\<lambda>k d. if 0 < size_at sizes k then upd_buf (outs ! k) (\<lambda>r. r\<lparr>b_size := size_at sizes k\<rparr>) d else d) ks d) = shape d \<and>
    (\<forall>b. mem_view (fold (\<lambda>k d. if 0 < size_at sizes k then upd_buf (outs ! k) (\<lambda>r. r\<lparr>b_size := size_at sizes k\<rparr>) d else d) ks d) b = mem_view d b) \<and>
    (\<forall>b. remaining_consumers (buf (fold (\<lambda>k d. if 0 < size_at sizes k then upd_buf (outs ! k) (\<lambda>r. r\<lparr>b_size := size_at sizes k\<rparr>) d else d) ks d) b) =
       remaining_consumers (buf d b))" for ks
    by (induction ks arbitrary: d) (simp_all add: shape_upd_buf mem_view_def)
  then show ?thesis unfolding store_sizes_def by blast
qed

definition kept :: "exec_state \<Rightarrow> exec_state \<Rightarrow> bool" where
  "kept x y \<longleftrightarrow> mem_ok y \<and> shape (x_dag y) = shape (x_dag x) \<and> (\<forall>b. mem_view (x_dag y) b = mem_view (x_dag x) b) \<and>
     (\<forall>b. remaining_consumers (buf (x_dag y) b) = remaining_consumers (buf (x_dag x) b))"

lemma run_stage_kept:
  assumes "mem_ok x" "env_ok env" "run_stage env st i s x = Inr y"
  shows "kept x y" "\<exists>ins outs sizes. x_trace y = x_trace x @ [EvRun i s ins outs sizes]"
proof -
  let ?ins = "map (\<lambda>b. d_ptr (buf (x_dag x) b)) (input_buffer_ids (node (x_dag x) i))"
    and ?outs = "map (\<lambda>b. d_ptr (buf (x_dag x) b)) (output_buffer_ids (node (x_dag x) i))"
    and ?sizes = "map (\<lambda>b. b_size (buf (x_dag x) b)) (input_buffer_ids (node (x_dag x) i))"
  obtain actual pl m where r: "se_run env st s ?ins ?outs ?sizes (x_pool x, x_mem x) = Inr (actual, pl, m)"
    using assms(3) by (auto simp: run_stage_def Let_def res_bind_eq_Inr)
  let ?x1 = "emit [EvRun i s ?ins ?outs ?sizes] (x\<lparr>x_pool := pl, x_mem := m\<rparr>)"
  have y: "y = ?x1 \<or> y = on_dag (store_sizes (output_buffer_ids (node (x_dag x) i)) actual) ?x1"
    using assms(3) r by (auto simp: run_stage_def Let_def res_bind_eq_Inr split: if_splits)
  then show "\<exists>ins outs sizes. x_trace y = x_trace x @ [EvRun i s ins outs sizes]" by auto
  have pool: "pool_wf pl" "tracked (x_pool x) \<subseteq> tracked pl"
    using assms(2) r mem_okD(1) [OF assms(1)] unfolding env_ok_def by blast+
  have "shape (x_dag y) = shape (x_dag x)" "\<forall>b. mem_view (x_dag y) b = mem_view (x_dag x) b"
    "\<forall>b. remaining_consumers (buf (x_dag y) b) = remaining_consumers (buf (x_dag x) b)" "x_pool y = pl"
    using y store_sizes_view [of "output_buffer_ids (node (x_dag x) i)" actual "x_dag x"] by auto
  with pool show "kept x y" unfolding kept_def by (auto intro: mem_ok_cong [OF assms(1)])
qed

subsection \<open>The invariant of an execution\<close>

text \<open>
  \<open>S\<close> is the set of nodes executed so far.  The counters count the consumers still to come; what an
  executed node produced and a later node (or the caller) needs is still allocated; what no node
  needs any more is released.
\<close>

definition exec_inv :: "dag \<Rightarrow> nat set \<Rightarrow> exec_state \<Rightarrow> bool" where
  "exec_inv d0 S x \<longleftrightarrow> shape (x_dag x) = shape d0 \<and> mem_ok x \<and>
     (\<forall>b. remaining_consumers (buf (x_dag x) b) = int (length (filter (\<lambda>c. c \<notin> S) (consumer_stage_ids (buf d0 b))))) \<and>
     (\<forall>b. \<forall>p\<in>S. producer_stage_id (buf d0 b) = int p \<longrightarrow> \<not> is_external (buf d0 b) \<longrightarrow>
        is_persistent (buf d0 b) \<or> \<not> set (consumer_stage_ids (buf d0 b)) \<subseteq> S \<longrightarrow> is_allocated (buf (x_dag x) b)) \<and>
     (\<forall>b. \<not> is_persistent (buf d0 b) \<longrightarrow> consumer_stage_ids (buf d0 b) \<noteq> [] \<longrightarrow>
        set (consumer_stage_ids (buf d0 b)) \<subseteq> S \<longrightarrow> \<not> held x b)"

lemma exec_invD:
  assumes "exec_inv d0 S x"
  shows "shape (x_dag x) = shape d0" "mem_ok x"
    "remaining_consumers (buf (x_dag x) b) = int (length (filter (\<lambda>c. c \<notin> S) (consumer_stage_ids (buf d0 b))))"
    "p \<in> S \<Longrightarrow> producer_stage_id (buf d0 b) = int p \<Longrightarrow> \<not> is_external (buf d0 b) \<Longrightarrow>
        is_persistent (buf d0 b) \<or> \<not> set (consumer_stage_ids (buf d0 b)) \<subseteq> S \<Longrightarrow> is_allocated (buf (x_dag x) b)"
    "\<not> is_persistent (buf d0 b) \<Longrightarrow> consumer_stage_ids (buf d0 b) \<noteq> [] \<Longrightarrow>
        set (consumer_stage_ids (buf d0 b)) \<subseteq> S \<Longrightarrow> \<not> held x b"
  using assms unfolding exec_inv_def by blast+

lemma exec_plain_cases:
  assumes "exec_plain env stream i x = Inr y" "env_ok env" "mem_ok x" "fused_internal_buffers (x_dag x) = []"
    and "strategy (x_dag x) \<noteq> PREALLOCATE"
  obtains x2 x3 mid where
    "grows x x2 (set (output_buffer_ids (node (x_dag x) i)))" "mem_ok x2"
    "\<forall>b\<in>set (output_buffer_ids (node (x_dag x) i)). is_external (buf (x_dag x) b) \<or> is_allocated (buf (x_dag x2) b)"
    "kept x2 x3" "consumed (input_buffer_ids (node (x_dag x) i)) x3 y"
    "x_trace y = x_trace x @ map (EvWait (exec_stream (x_dag x) stream i)) (dependencies (node (x_dag x) i)) @ mid @
       [EvRecord i (exec_stream (x_dag x) stream i)]"
    "n_stage (node (x_dag x) i) \<noteq> None \<Longrightarrow> \<exists>ins outs sizes. EvRun i (exec_stream (x_dag x) stream i) ins outs sizes \<in> set mid"
proof -
  let ?d = "x_dag x" and ?s = "exec_stream (x_dag x) stream i"
  let ?x1 = "emit (map (EvWait ?s) (dependencies (node ?d i))) x"
  obtain a where a: "res_fold (allocateBuffer env) (output_buffer_ids (node ?d i)) ?x1 = Inr a"
    using assms(1,5) by (auto simp: exec_plain_def Let_def res_bind_eq_Inr)
  let ?a = "emit (start_events ?d i ?s) a"
  obtain b where b: "(case n_stage (node ?d i) of None \<Rightarrow> Inr ?a | Some st \<Rightarrow> run_stage env st i ?s ?a) = Inr b"
    and y: "y = fold consume (input_buffer_ids (node ?d i)) (on_dag (upd_node i (\<lambda>n. n\<lparr>is_executed := True\<rparr>)) (emit [EvRecord i ?s] b))"
    using assms(1,5) a by (auto simp: exec_plain_def Let_def res_bind_eq_Inr)
  have m1: "mem_ok ?x1" by (rule mem_ok_cong [OF assms(3)]) (use mem_okD(1) [OF assms(3)] in simp_all)
  note A = allocate_outputs_ok [OF m1 assms(2) _ a, simplified, OF assms(4)]
  have ma: "mem_ok ?a" by (rule mem_ok_cong [of a]) (use A mem_okD(1) [of a] in simp_all)
  let ?c = "on_dag (upd_node i (\<lambda>n. n\<lparr>is_executed := True\<rparr>)) (emit [EvRecord i ?s] b)"
  have kb: "kept ?a b"
    using b ma run_stage_kept(1) [OF ma assms(2)] by (auto simp: kept_def split: option.splits)
  have "mem_ok ?c"
    by (rule mem_ok_cong [of b]) (use kb mem_okD(1) [of b] in \<open>simp_all add: kept_def mem_view_def\<close>)
  then have kc: "kept ?a ?c" using kb by (simp add: kept_def shape_upd_executed mem_view_def)
  have con: "consumed (input_buffer_ids (node ?d i)) ?c y" unfolding y by (rule consume_all) fact
  obtain run where run: "x_trace b = x_trace ?a @ run"
    "n_stage (node ?d i) \<noteq> None \<Longrightarrow> \<exists>ins outs sizes. EvRun i ?s ins outs sizes \<in> set run"
  proof (cases "n_stage (node ?d i)")
    case None
    with b have "b = ?a" by simp
    with None show ?thesis by (intro that [of "[]"]) simp_all
  next
    case (Some st)
    with b run_stage_kept(2) [OF ma assms(2), of st i ?s b] obtain ins outs sizes where
      "x_trace b = x_trace ?a @ [EvRun i ?s ins outs sizes]" by auto
    then show ?thesis by (intro that [of "[EvRun i ?s ins outs sizes]"]) auto
  qed
  have tra: "x_trace a = x_trace x @ map (EvWait ?s) (dependencies (node ?d i))" using A by simp
  show ?thesis
  proof (rule that [of ?a ?c "start_events ?d i ?s @ run"])
    show "x_trace y = x_trace x @ map (EvWait ?s) (dependencies (node ?d i)) @ (start_events ?d i ?s @ run) @ [EvRecord i ?s]"
      using consumedD(3) [OF con] run(1) tra by simp
  qed (use A ma kc con run(2) in \<open>auto simp: grows_def\<close>)
qed

lemma filter_insert_count:
  "i \<notin> S \<Longrightarrow> length (filter (\<lambda>c. c \<notin> insert i S) cs) + count_list cs i = length (filter (\<lambda>c. c \<notin> S) cs)"
  by (induction cs) auto

lemma exec_plain_inv:
  assumes inv: "exec_inv d0 S x" and wf: "dag_wf d0" and step: "exec_plain env stream i x = Inr y"
    and env: "env_ok env" and nofuse: "fused_internal_buffers d0 = []" and strat: "strategy d0 \<noteq> PREALLOCATE"
    and i: "i < length (nodes d0)" "i \<notin> S" and closed: "\<forall>c\<in>S. set (dependencies (node d0 c)) \<subseteq> S"
  shows "exec_inv d0 (insert i S) y"
proof -
  note I = exec_invD [OF inv]
  have st: "strategy (x_dag x) \<noteq> PREALLOCATE" "fused_internal_buffers (x_dag x) = []"
    using shape_eqD(2,3) [OF I(1)] strat nofuse by simp_all
  have ix: "i < length (nodes (x_dag x))" using shape_eqD(1) [OF I(1)] i by simp
  let ?ins = "input_buffer_ids (node d0 i)" and ?outs = "output_buffer_ids (node d0 i)"
  have io: "input_buffer_ids (node (x_dag x) i) = ?ins" "output_buffer_ids (node (x_dag x) i) = ?outs"
    using shape_node [OF I(1) ix] by simp_all
  obtain x2 x3 where g: "grows x x2 (set ?outs)" "mem_ok x2" "kept x2 x3" "consumed ?ins x3 y"
    and outs: "\<forall>b\<in>set ?outs. is_external (buf (x_dag x) b) \<or> is_allocated (buf (x_dag x2) b)"
    using exec_plain_cases [OF step env I(2) st(2,1)] unfolding io by metis
  note C = consumedD [OF g(4)]
  have sh3: "shape (x_dag x3) = shape d0" using g(1,3) I(1) by (simp add: grows_def kept_def)
  have sh: "shape (x_dag y) = shape d0" using C(2) sh3 by simp
  have ext: "is_external (buf (x_dag x) b) = is_external (buf d0 b)" for b by (rule shape_eqD(10) [OF I(1)])
  have pers: "is_persistent (buf (x_dag x3) b) = is_persistent (buf d0 b)" for b by (rule shape_eqD(9) [OF sh3])
  have wi: "wf_inputs d0" and wo: "wf_outputs d0" using wf by (simp_all add: dag_wf_def)
  have cnt: "count_list ?ins b = count_list (consumer_stage_ids (buf d0 b)) i" for b by (rule wf_inputsD(2) [OF wi i(1)])
  have rem3: "remaining_consumers (buf (x_dag x3) b) = int (length (filter (\<lambda>c. c \<notin> S) (consumer_stage_ids (buf d0 b))))" for b
    using g(1,3) I(3) [of b] by (simp add: grows_def kept_def)
  have rem: "remaining_consumers (buf (x_dag x3) b) - int (count_list ?ins b) =
      int (length (filter (\<lambda>c. c \<notin> insert i S) (consumer_stage_ids (buf d0 b))))" for b
    using rem3 [of b] cnt [of b] filter_insert_count [OF i(2), of "consumer_stage_ids (buf d0 b)"] by simp
  have al3: "is_allocated (buf (x_dag x3) b) = is_allocated (buf (x_dag x2) b)" for b
    using g(3) by (simp add: kept_def mem_view_def)
  show ?thesis unfolding exec_inv_def
  proof (intro conjI allI ballI impI)
    show "shape (x_dag y) = shape d0" "mem_ok y" by (rule sh, rule C(1))
    show "remaining_consumers (buf (x_dag y) b) = int (length (filter (\<lambda>c. c \<notin> insert i S) (consumer_stage_ids (buf d0 b))))" for b
      using C(4) [of b] rem [of b] by simp
    show "is_allocated (buf (x_dag y) b)"
      if p: "p \<in> insert i S" "producer_stage_id (buf d0 b) = int p" "\<not> is_external (buf d0 b)"
        "is_persistent (buf d0 b) \<or> \<not> set (consumer_stage_ids (buf d0 b)) \<subseteq> insert i S" for b p
    proof -
      have "is_allocated (buf (x_dag x2) b)"
      proof (cases "p = i")
        case True
        then have "b \<in> set ?outs" using p(2) wf_outputsD(3) [OF wo i(1)] by simp
        then show ?thesis using outs p(3) ext [of b] by auto
      next
        case False
        then have "is_allocated (buf (x_dag x) b)" using p I(4) [of p b] by auto
        then show ?thesis using g(1) by (simp add: grows_def)
      qed
      moreover have "is_persistent (buf (x_dag x3) b) \<or> 0 < remaining_consumers (buf (x_dag x3) b) - int (count_list ?ins b)"
        using p(4) pers [of b] rem [of b] by (auto simp: filter_empty_conv)
      ultimately show ?thesis using C(5) [of b] al3 [of b] by (simp add: mem_view_def)
    qed
    show "\<not> held y b" if b: "\<not> is_persistent (buf d0 b)" "consumer_stage_ids (buf d0 b) \<noteq> []"
      "set (consumer_stage_ids (buf d0 b)) \<subseteq> insert i S" for b
    proof (cases "i \<in> set (consumer_stage_ids (buf d0 b))")
      case True
      then have "b \<in> set ?ins" using cnt [of b] by (metis count_list_0_iff)
      moreover have "filter (\<lambda>c. c \<notin> insert i S) (consumer_stage_ids (buf d0 b)) = []"
        using b(3) by (simp add: filter_empty_conv subset_eq)
      moreover have "strategy (x_dag x3) \<noteq> PREALLOCATE" using shape_eqD(2) [OF sh3] strat by simp
      ultimately show ?thesis using C(7) [of b] rem [of b] b(1) pers [of b] by simp
    next
      case False
      then have sub: "set (consumer_stage_ids (buf d0 b)) \<subseteq> S" using b(3) by auto
      have "b \<notin> set ?outs"
      proof
        assume "b \<in> set ?outs"
        then have "producer_stage_id (buf d0 b) = int i" using wf_outputsD(3) [OF wo i(1)] by simp
        moreover obtain c where c: "c \<in> set (consumer_stage_ids (buf d0 b))" using b(2) by fastforce
        ultimately have "i \<in> set (dependencies (node d0 c))" using wf_inputsD(3) [OF wi c] by auto
        with closed sub c i(2) show False by auto
      qed
      then have "mem_view (x_dag x2) b = mem_view (x_dag x) b" using g(1) by (simp add: grows_def)
      moreover have "mem_view (x_dag x3) b = mem_view (x_dag x2) b" using g(3) by (simp add: kept_def)
      ultimately have "held x3 b = held x b" by (simp add: held_def mem_view_def)
      then show ?thesis using C(6) [of b] I(5) [OF b(1,2) sub] by blast
    qed
  qed
qed

text \<open>Executing nodes in an order in which dependencies come first.\<close>

definition topo_order :: "dag \<Rightarrow> nat list \<Rightarrow> bool" where
  "topo_order d xs \<longleftrightarrow> distinct xs \<and> set xs \<subseteq> {..<length (nodes d)} \<and>
     (\<forall>k<length xs. set (dependencies (node d (xs ! k))) \<subseteq> set (take k xs))"

lemma topo_orderD:
  assumes "topo_order d xs" "k < length xs"
  shows "xs ! k < length (nodes d)" "xs ! k \<notin> set (take k xs)" "set (dependencies (node d (xs ! k))) \<subseteq> set (take k xs)"
proof -
  show "xs ! k < length (nodes d)" using assms nth_mem [OF assms(2)] unfolding topo_order_def by blast
  have "distinct (take (Suc k) xs)" using assms(1) by (simp add: topo_order_def)
  then show "xs ! k \<notin> set (take k xs)" using assms(2) by (simp add: take_Suc_conv_app_nth)
  show "set (dependencies (node d (xs ! k))) \<subseteq> set (take k xs)" using assms by (simp add: topo_order_def)
qed

lemma topo_order_closed:
  assumes "topo_order d xs" "k \<le> length xs" "c \<in> set (take k xs)"
  shows "set (dependencies (node d c)) \<subseteq> set (take k xs)"
proof -
  obtain j where j: "j < k" "c = xs ! j" using assms(2,3) by (auto simp: in_set_conv_nth)
  then have "set (dependencies (node d c)) \<subseteq> set (take j xs)" using assms by (auto simp: topo_order_def)
  also have "\<dots> \<subseteq> set (take k xs)" using j by (intro set_take_subset_set_take) simp
  finally show ?thesis .
qed

lemma res_fold_take_Suc:
  assumes "k < length xs" "res_fold f (take (Suc k) xs) s = Inr t"
  obtains u where "res_fold f (take k xs) s = Inr u" "f (xs ! k) u = Inr t"
  using assms by (auto simp: take_Suc_conv_app_nth res_fold_append res_bind_eq_Inr)

lemma exec_node_plain:
  "fused_member (x_dag x) = [] \<Longrightarrow> exec_node env stream i x = exec_plain env stream i x"
  by (simp add: exec_node_def executeFusedNode_def Let_def)

lemma exec_prefix_inv:
  assumes "exec_inv d0 {} x" "dag_wf d0" "env_ok env" "fused_internal_buffers d0 = []" "fused_member d0 = []"
    and "strategy d0 \<noteq> PREALLOCATE" "topo_order d0 xs" "k \<le> length xs"
    and "res_fold (exec_node env stream) (take k xs) x = Inr y"
  shows "exec_inv d0 (set (take k xs)) y"
  using assms(8,9)
proof (induction k arbitrary: y)
  case 0
  then show ?case using assms(1) by simp
next
  case (Suc k)
  obtain z where z: "res_fold (exec_node env stream) (take k xs) x = Inr z" "exec_node env stream (xs ! k) z = Inr y"
    using res_fold_take_Suc [OF _ Suc.prems(2)] Suc.prems(1) by auto
  have inv: "exec_inv d0 (set (take k xs)) z" using Suc.IH z(1) Suc.prems(1) by simp
  have step: "exec_plain env stream (xs ! k) z = Inr y"
    using z(2) exec_node_plain shape_eqD(4) [OF exec_invD(1) [OF inv]] assms(5) by simp
  have new: "xs ! k < length (nodes d0)" "xs ! k \<notin> set (take k xs)"
    using topo_orderD(1,2) [OF assms(7)] Suc.prems(1) by simp_all
  have "\<forall>c\<in>set (take k xs). set (dependencies (node d0 c)) \<subseteq> set (take k xs)"
    using topo_order_closed [OF assms(7), of k] Suc.prems(1) by simp
  from exec_plain_inv [OF inv assms(2) step assms(3,4,6) new this]
  have "exec_inv d0 (insert (xs ! k) (set (take k xs))) y" .
  moreover have "set (take (Suc k) xs) = insert (xs ! k) (set (take k xs))"
    using Suc.prems(1) by (simp add: take_Suc_conv_app_nth)
  ultimately show ?case by simp
qed

subsection \<open>No use after free, no leak\<close>

lemma initial_exec_inv:
  assumes "mem_ok x" "\<forall>b. remaining_consumers (buf (x_dag x) b) = int (length (consumer_stage_ids (buf (x_dag x) b)))"
  shows "exec_inv (x_dag x) {} x"
  using assms by (simp add: exec_inv_def)


text \<open>
  C22. A completed MINIMAL execution holds on to nothing it does not need.  Take a graph with fresh counters and a consistent memory
  state, in which every stage comes, in level order, after the stages it reads from, as it does when producers are added before
  their consumers (a finalized graph with a consumer added first keeps an intermediate and is excluded), no fused group is
  installed, and the stages keep the pool well formed and free no
  pointer they did not allocate.  After an \<open>execute\<close> that returned, every buffer
  that has consumers, is not marked persistent and is owned by the graph has given its memory back, and the memory still held
  belongs to pairwise different live pool pointers.
\<close>

theorem exec_releases_intermediates:
  assumes "dag_wf (x_dag x)" "topo_order (x_dag x) (exec_order (x_dag x))" "mem_ok x" "env_ok env"
    and "set (exec_order (x_dag x)) = {..<length (nodes (x_dag x))}"
    and "\<forall>b. remaining_consumers (buf (x_dag x) b) = int (length (consumer_stage_ids (buf (x_dag x) b)))"
    and "strategy (x_dag x) = MINIMAL" "fused_member (x_dag x) = []" "fused_internal_buffers (x_dag x) = []"
    and "execute env stream x = Inr y"
  shows "mem_ok y \<and> (\<forall>b. consumer_stage_ids (buf (x_dag x) b) \<noteq> [] \<longrightarrow> \<not> is_persistent (buf (x_dag x) b) \<longrightarrow> \<not> held y b) \<and>
    (\<forall>b. remaining_consumers (buf (x_dag y) b) = 0)"
proof -
  let ?d = "x_dag x" and ?xs = "exec_order (x_dag x)"
  obtain z where z: "res_fold (exec_node env stream) ?xs x = Inr z" "y = emit (join_events (x_dag z) stream) z"
    using assms(10) by (auto simp: execute_def res_bind_eq_Inr split: if_splits)
  have inv: "exec_inv ?d {..<length (nodes ?d)} z"
    using exec_prefix_inv [OF initial_exec_inv [OF assms(3,6)] assms(1,4,9,8) _ assms(2), of "length ?xs" stream z] assms(5,7) z(1)
    by simp
  have wi: "wf_inputs ?d" using assms(1) by (simp add: dag_wf_def)
  have all: "set (consumer_stage_ids (buf ?d b)) \<subseteq> {..<length (nodes ?d)}" for b using wf_inputsD(1) [OF wi] by auto
  have "mem_ok y" using mem_ok_cong [OF exec_invD(2) [OF inv], of y] mem_okD(1) [OF exec_invD(2) [OF inv]] z(2) by simp
  moreover have "\<not> held y b" if "consumer_stage_ids (buf ?d b) \<noteq> []" "\<not> is_persistent (buf ?d b)" for b
    using exec_invD(5) [OF inv that(2,1) all] z(2) by (simp add: held_def)
  moreover have "remaining_consumers (buf (x_dag y) b) = 0" for b
  proof -
    have "filter (\<lambda>c. c \<notin> {..<length (nodes ?d)}) (consumer_stage_ids (buf ?d b)) = []"
      using all [of b] by (simp add: filter_empty_conv subset_eq)
    then show ?thesis using exec_invD(3) [OF inv, of b] z(2) by simp
  qed
  ultimately show ?thesis by blast
qed

subsection \<open>Ordering on the device\<close>

lemma exec_step_trace:
  assumes "exec_inv d0 S x" "exec_plain env stream i x = Inr y" "env_ok env" "fused_internal_buffers d0 = []"
    and "strategy d0 \<noteq> PREALLOCATE" "i < length (nodes d0)"
  obtains mid where
    "x_trace y = x_trace x @ map (EvWait (exec_stream d0 stream i)) (dependencies (node d0 i)) @ mid @ [EvRecord i (exec_stream d0 stream i)]"
    "n_stage (node d0 i) \<noteq> None \<Longrightarrow> \<exists>ins outs sizes. EvRun i (exec_stream d0 stream i) ins outs sizes \<in> set mid"
proof -
  note I = exec_invD [OF assms(1)]
  have st: "strategy (x_dag x) \<noteq> PREALLOCATE" "fused_internal_buffers (x_dag x) = []"
    using shape_eqD(2,3) [OF I(1)] assms(4,5) by simp_all
  have ix: "i < length (nodes (x_dag x))" using shape_eqD(1) [OF I(1)] assms(6) by simp
  note N = shape_node [OF I(1) ix]
  have "exec_stream (x_dag x) stream i = exec_stream d0 stream i"
    using N(5) shape_eqD(5) [OF I(1)] by (simp add: exec_stream_def)
  then show ?thesis
    using exec_plain_cases [OF assms(2,3) I(2) st(2,1)] N(3,4) that by metis
qed

text \<open>
  In the trace \<open>t\<close> the completion of \<open>p\<close> is recorded, then stream \<open>s\<close> waits for it, then \<open>c\<close> runs on \<open>s\<close>.
\<close>

definition device_ordered :: "exec_event list \<Rightarrow> nat \<Rightarrow> nat \<Rightarrow> nat \<Rightarrow> bool" where
  "device_ordered t p c s \<longleftrightarrow> (\<exists>sp t1 t2 t3 t4 ins outs sizes.
     t = t1 @ [EvRecord p sp] @ t2 @ [EvWait s p] @ t3 @ [EvRun c s ins outs sizes] @ t4)"

lemma device_ordered_append:
  assumes "device_ordered t p c s"
  shows "device_ordered (t @ u) p c s"
proof -
  obtain sp t1 t2 t3 t4 ins outs sizes where "t = t1 @ [EvRecord p sp] @ t2 @ [EvWait s p] @ t3 @ [EvRun c s ins outs sizes] @ t4"
    using assms unfolding device_ordered_def by blast
  then have "t @ u = t1 @ [EvRecord p sp] @ t2 @ [EvWait s p] @ t3 @ [EvRun c s ins outs sizes] @ (t4 @ u)" by simp
  then show ?thesis unfolding device_ordered_def by blast
qed

lemma device_orderedI:
  assumes "EvRecord p sp \<in> set t" "EvWait s p \<in> set w" "EvRun c s ins outs sizes \<in> set m"
  shows "device_ordered (t @ w @ m) p c s"
proof -
  obtain t1 t2 where t: "t = t1 @ EvRecord p sp # t2" using assms(1) by (meson split_list)
  obtain w1 w2 where w: "w = w1 @ EvWait s p # w2" using assms(2) by (meson split_list)
  obtain m1 m2 where m: "m = m1 @ EvRun c s ins outs sizes # m2" using assms(3) by (meson split_list)
  have "t @ w @ m = t1 @ [EvRecord p sp] @ (t2 @ w1) @ [EvWait s p] @ (w2 @ m1) @ [EvRun c s ins outs sizes] @ m2"
    unfolding t w m by simp
  then show ?thesis unfolding device_ordered_def by blast
qed

lemma exec_prefix_trace:
  assumes "exec_inv d0 {} x" "dag_wf d0" "env_ok env" "fused_internal_buffers d0 = []" "fused_member d0 = []"
    and "strategy d0 \<noteq> PREALLOCATE" "topo_order d0 xs" "k \<le> length xs"
    and "res_fold (exec_node env stream) (take k xs) x = Inr y"
  shows "\<exists>t. x_trace y = x_trace x @ t \<and> (\<forall>p\<in>set (take k xs). \<exists>s. EvRecord p s \<in> set t) \<and>
    (\<forall>c\<in>set (take k xs). n_stage (node d0 c) \<noteq> None \<longrightarrow> (\<forall>p\<in>set (dependencies (node d0 c)).
       device_ordered t p c (exec_stream d0 stream c)))"
  using assms(8,9)
proof (induction k arbitrary: y)
  case 0
  then show ?case by simp
next
  case (Suc k)
  let ?c = "xs ! k"
  let ?s = "exec_stream d0 stream ?c"
  obtain z where z: "res_fold (exec_node env stream) (take k xs) x = Inr z" "exec_node env stream ?c z = Inr y"
    using res_fold_take_Suc [OF _ Suc.prems(2)] Suc.prems(1) by auto
  have inv: "exec_inv d0 (set (take k xs)) z"
    using exec_prefix_inv [OF assms(1-7) _ z(1)] Suc.prems(1) by simp
  have step: "exec_plain env stream ?c z = Inr y"
    using z(2) exec_node_plain shape_eqD(4) [OF exec_invD(1) [OF inv]] assms(5) by simp
  have cn: "?c < length (nodes d0)" "set (dependencies (node d0 ?c)) \<subseteq> set (take k xs)"
    using topo_orderD(1,3) [OF assms(7), of k] Suc.prems(1) by simp_all
  obtain t where t: "x_trace z = x_trace x @ t" "\<forall>p\<in>set (take k xs). \<exists>s. EvRecord p s \<in> set t"
    "\<forall>c\<in>set (take k xs). n_stage (node d0 c) \<noteq> None \<longrightarrow> (\<forall>p\<in>set (dependencies (node d0 c)).
       device_ordered t p c (exec_stream d0 stream c))"
    using Suc.IH [OF _ z(1)] Suc.prems(1) by auto
  obtain mid where mid: "x_trace y = x_trace z @ map (EvWait ?s) (dependencies (node d0 ?c)) @ mid @ [EvRecord ?c ?s]"
    "n_stage (node d0 ?c) \<noteq> None \<Longrightarrow> \<exists>ins outs sizes. EvRun ?c ?s ins outs sizes \<in> set mid"
    using exec_step_trace [OF inv step assms(3,4,6) cn(1)] by metis
  let ?t = "t @ map (EvWait ?s) (dependencies (node d0 ?c)) @ mid @ [EvRecord ?c ?s]"
  have tk: "set (take (Suc k) xs) = insert ?c (set (take k xs))" using Suc.prems(1) by (simp add: take_Suc_conv_app_nth)
  have new: "device_ordered ?t p ?c ?s"
    if st: "n_stage (node d0 ?c) \<noteq> None" and p: "p \<in> set (dependencies (node d0 ?c))" for p
  proof -
    obtain sp where "EvRecord p sp \<in> set t" using t(2) cn(2) p by blast
    moreover obtain ins outs sizes where "EvRun ?c ?s ins outs sizes \<in> set mid" using mid(2) [OF st] by blast
    ultimately show ?thesis using p by (intro device_orderedI [where ins = ins and outs = outs and sizes = sizes]) auto
  qed
  show ?case
  proof (intro exI [of _ ?t] conjI)
    show "x_trace y = x_trace x @ ?t" using mid(1) t(1) by simp
    show "\<forall>p\<in>set (take (Suc k) xs). \<exists>s. EvRecord p s \<in> set ?t" using t(2) unfolding tk by auto
    show "\<forall>c\<in>set (take (Suc k) xs). n_stage (node d0 c) \<noteq> None \<longrightarrow> (\<forall>p\<in>set (dependencies (node d0 c)).
       device_ordered ?t p c (exec_stream d0 stream c))"
    proof (intro ballI impI)
      fix c p assume "c \<in> set (take (Suc k) xs)" "n_stage (node d0 c) \<noteq> None" "p \<in> set (dependencies (node d0 c))"
      then show "device_ordered ?t p c (exec_stream d0 stream c)"
        using new t(3) device_ordered_append [of t p c] unfolding tk by (cases "c = ?c") auto
    qed
  qed
qed

text \<open>
  C18. The device sees every dependency in order.  Take a graph under MINIMAL with fresh counters and a consistent memory state, in
  which every stage comes, in level order, after the stages it depends on, as it does when producers are added before their
  consumers (a finalized graph with a consumer added first launches it before the event is recorded and is excluded), no fused
  group is installed, and the stages keep the pool well formed and free no
  pointer they did not allocate.  Whatever streams the nodes were given, after
  an \<open>execute\<close> that returned, for each stage that ran and each of its dependencies: the completion event of the dependency is
  recorded first, then the stream of the stage waits for that event, and only then the stage is launched on that stream.
\<close>

theorem exec_device_order:
  assumes "dag_wf (x_dag x)" "topo_order (x_dag x) (exec_order (x_dag x))" "mem_ok x" "env_ok env"
    and "\<forall>b. remaining_consumers (buf (x_dag x) b) = int (length (consumer_stage_ids (buf (x_dag x) b)))"
    and "strategy (x_dag x) = MINIMAL" "fused_member (x_dag x) = []" "fused_internal_buffers (x_dag x) = []"
    and "execute env stream x = Inr y" "x_trace x = []"
    and "c \<in> set (exec_order (x_dag x))" "n_stage (node (x_dag x) c) \<noteq> None" "p \<in> set (dependencies (node (x_dag x) c))"
  shows "device_ordered (x_trace y) p c (exec_stream (x_dag x) stream c)"
proof -
  let ?xs = "exec_order (x_dag x)"
  obtain z where z: "res_fold (exec_node env stream) (take (length ?xs) ?xs) x = Inr z"
    "y = emit (join_events (x_dag z) stream) z"
    using assms(9) by (auto simp: execute_def res_bind_eq_Inr split: if_splits)
  have "strategy (x_dag x) \<noteq> PREALLOCATE" using assms(6) by simp
  from exec_prefix_trace [OF initial_exec_inv [OF assms(3,5)] assms(1,4,8,7) this assms(2) order_refl z(1)]
  have "device_ordered (x_trace z) p c (exec_stream (x_dag x) stream c)" using assms(10-13) by auto
  then show ?thesis using z(2) by (simp add: device_ordered_append)
qed

subsection \<open>Finalized graphs can be executed\<close>

lemma dag_wf_transfer:
  assumes "dag_wf d" "length (nodes d') = length (nodes d)" "next_buffer_id d' = next_buffer_id d"
    and "map fst (buffer_table d') = map fst (buffer_table d)"
    and "\<And>i. i < length (nodes d) \<Longrightarrow> n_id (node d' i) = n_id (node d i)"
    and "\<And>i. i < length (nodes d) \<Longrightarrow> dependencies (node d' i) = dependencies (node d i)"
    and "\<And>i. i < length (nodes d) \<Longrightarrow> dependents (node d' i) = dependents (node d i)"
    and "\<And>i. i < length (nodes d) \<Longrightarrow> input_buffer_ids (node d' i) = input_buffer_ids (node d i)"
    and "\<And>i. i < length (nodes d) \<Longrightarrow> output_buffer_ids (node d' i) = output_buffer_ids (node d i)"
    and "\<And>i. i < length (nodes d) \<Longrightarrow> output_index_to_buffer_id (node d' i) = output_index_to_buffer_id (node d i)"
    and "\<And>b. consumer_stage_ids (buf d' b) = consumer_stage_ids (buf d b)"
    and "\<And>b. producer_stage_id (buf d' b) = producer_stage_id (buf d b)"
    and "\<And>b. is_external (buf d' b) = is_external (buf d b)"
  shows "dag_wf d'"
proof -
  have wf: "wf_links d" "wf_dom d" "wf_inputs d" "wf_outputs d" using assms(1) by (simp_all add: dag_wf_def)
  note L = wf_linksD [OF wf(1)] and I = wf_inputsD [OF wf(3)] and O = wf_outputsD [OF wf(4)]
  have "wf_links d'" unfolding wf_links_def assms(2)
  proof (intro conjI allI impI ballI)
    fix i assume i: "i < length (nodes d)"
    show "n_id (node d' i) = i" using assms(5) [OF i] L(1) [OF i] by simp
    show "j < length (nodes d)" if "j \<in> set (dependencies (node d' i))" for j using that assms(6) [OF i] L(2) [OF i] by simp
    show "j < length (nodes d)" if "j \<in> set (dependents (node d' i))" for j using that assms(7) [OF i] L(3) [OF i] by simp
    show "count_list (dependents (node d' i)) v = count_list (dependencies (node d' v)) i" if "v < length (nodes d)" for v
      using assms(6) [OF that] assms(7) [OF i] L(4) [OF i that] by simp
  qed
  moreover have "wf_dom d'"
  proof -
    have "buffers d' b = None \<longleftrightarrow> buffers d b = None" for b
      unfolding buffers_def map_of_eq_None_iff using arg_cong [OF assms(4), of set] by simp
    then show ?thesis using wf(2) assms(3,4) by (simp add: wf_dom_def)
  qed
  moreover have "wf_inputs d'" unfolding wf_inputs_def assms(2,11,12,13)
  proof (intro conjI allI impI ballI)
    show "count_list (input_buffer_ids (node d' i)) b = count_list (consumer_stage_ids (buf d b)) i" if "i < length (nodes d)" for b i
      using assms(8) [OF that] I(2) [OF that] by simp
    show "producer_stage_id (buf d b) = - 1 \<and> is_external (buf d b) \<or>
        0 \<le> producer_stage_id (buf d b) \<and> nat (producer_stage_id (buf d b)) \<in> set (dependencies (node d' c))"
      if "c \<in> set (consumer_stage_ids (buf d b))" for b c
      using I(3) [OF that] assms(6) [OF I(1) [OF that]] by simp
  qed (rule I(1))
  moreover have "wf_outputs d'" unfolding wf_outputs_def assms(2,12)
  proof (intro conjI allI impI ballI)
    fix i assume i: "i < length (nodes d)"
    show "b \<in> set (output_buffer_ids (node d' i)) \<longleftrightarrow> producer_stage_id (buf d b) = int i" for b
      using assms(9) [OF i] O(3) [OF i] by simp
    show "distinct (output_buffer_ids (node d' i))" using assms(9) [OF i] O(4) [OF i] by simp
    show "b \<in> set (output_buffer_ids (node d' i))" if "b \<in> snd ` set (output_index_to_buffer_id (node d' i))" for b
      using that assms(9,10) [OF i] O(5) [OF i] by simp
  qed (rule O(1), rule O(2))
  ultimately show ?thesis by (simp add: dag_wf_def)
qed

lemma buf_reset_counts:
  "buf (reset_counts d) b = (buf d b)\<lparr>remaining_consumers := int (length (consumer_stage_ids (buf d b)))\<rparr>"
proof -
  have "map_of (map (\<lambda>(b, x). (b, f x)) al) b = map_option f (map_of al b)" for f :: "buffer_info \<Rightarrow> buffer_info" and al :: "(int \<times> buffer_info) list"
    by (induction al) auto
  then show ?thesis
    by (simp add: reset_counts_def buf_def buffers_def new_buffer_def split: option.splits)
qed

lemma finalize_exec_ready:
  assumes "dag_wf d" "snd (dag_finalize ord mk d) = Inr ()" "d' = fst (dag_finalize ord mk d)"
  shows "dag_wf d'" "buf d' b = (buf d b)\<lparr>remaining_consumers := int (length (consumer_stage_ids (buf d b)))\<rparr>"
    "strategy d' = strategy d" "fused_member d' = fused_member d" "fused_internal_buffers d' = fused_internal_buffers d"
    "is_finalized d'" "buffer_table d' = buffer_table (reset_counts d)"
    "i < length (nodes d) \<Longrightarrow> n_stage (node d' i) = n_stage (node d i)"
    "i < length (nodes d) \<Longrightarrow> input_buffer_ids (node d' i) = input_buffer_ids (node d i)"
    "i < length (nodes d) \<Longrightarrow> output_buffer_ids (node d' i) = output_buffer_ids (node d i)"
    "i < length (nodes d) \<Longrightarrow> output_index_to_buffer_id (node d' i) = output_index_to_buffer_id (node d i)"
proof -
  obtain ss own where d': "d' = (assignStreams ((assignLevels (reset_counts d))\<lparr>streams := ss, owns_streams := own\<rparr>))\<lparr>is_finalized := True\<rparr>"
    using finalize_ok_cases [OF assms(2)] assms(3) by metis
  show tab: "buffer_table d' = buffer_table (reset_counts d)" unfolding d' by (simp add: assignStreams_def assignLevels_def Let_def)
  then have bf: "buf d' = buf (reset_counts d)" by (simp add: buf_def buffers_def fun_eq_iff)
  show "buf d' b = (buf d b)\<lparr>remaining_consumers := int (length (consumer_stage_ids (buf d b)))\<rparr>" for b
    unfolding bf by (rule buf_reset_counts)
  then have bfs: "consumer_stage_ids (buf d' b) = consumer_stage_ids (buf d b)" "producer_stage_id (buf d' b) = producer_stage_id (buf d b)"
    "is_external (buf d' b) = is_external (buf d b)" for b by simp_all
  show "strategy d' = strategy d" "fused_member d' = fused_member d" "fused_internal_buffers d' = fused_internal_buffers d" "is_finalized d'"
    unfolding d' by (simp_all add: assignStreams_def assignLevels_def reset_counts_def Let_def)
  have len: "length (nodes d') = length (nodes d)" unfolding d' by simp
  have nd: "\<exists>s. node d' i = (leveled (length (nodes d)) (nodes d) ! i)\<lparr>n_stream := s\<rparr>" if "i < length (nodes d)" for i
  proof -
    let ?e = "(assignLevels (reset_counts d))\<lparr>streams := ss, owns_streams := own\<rparr>"
    have e: "node ?e i = leveled (length (nodes d)) (nodes d) ! i" by (simp add: assignLevels_nodes)
    have "node (assignStreams ?e) i = (if ss = [] then node ?e i else (node ?e i)\<lparr>n_stream :=
        ss ! (length (filter (\<lambda>j. n_level (node ?e j) = n_level (node ?e i)) [0..<i]) mod length ss)\<rparr>)"
      using that assignStreams_node [of i ?e] by simp
    moreover have "leveled (length (nodes d)) (nodes d) ! i = (leveled (length (nodes d)) (nodes d) ! i)\<lparr>n_stream := n_stream (leveled (length (nodes d)) (nodes d) ! i)\<rparr>"
      by simp
    ultimately have "\<exists>s. node (assignStreams ?e) i = (leveled (length (nodes d)) (nodes d) ! i)\<lparr>n_stream := s\<rparr>"
      unfolding e by (cases "ss = []") metis+
    then show ?thesis unfolding d' by simp
  qed
  have st: "n_stage (leveled k ns ! i) = n_stage (ns ! i)" for k ns
    by (induction k) (simp_all add: leveled_Suc assign_level_def list_update_field [where v = "\<lambda>n. n\<lparr>execution_order := e, n_level := l\<rparr>" for e l])
  show "i < length (nodes d) \<Longrightarrow> n_stage (node d' i) = n_stage (node d i)"
    using nd [of i] st [of "length (nodes d)" "nodes d"] by auto
  have fs: "n_id (node d' i) = n_id (node d i)" "dependencies (node d' i) = dependencies (node d i)"
    "dependents (node d' i) = dependents (node d i)" "input_buffer_ids (node d' i) = input_buffer_ids (node d i)"
    "output_buffer_ids (node d' i) = output_buffer_ids (node d i)" "output_index_to_buffer_id (node d' i) = output_index_to_buffer_id (node d i)"
    if i: "i < length (nodes d)" for i
    using nd [OF i] by (auto simp: leveled_frame)
  show "i < length (nodes d) \<Longrightarrow> input_buffer_ids (node d' i) = input_buffer_ids (node d i)"
    "i < length (nodes d) \<Longrightarrow> output_buffer_ids (node d' i) = output_buffer_ids (node d i)"
    "i < length (nodes d) \<Longrightarrow> output_index_to_buffer_id (node d' i) = output_index_to_buffer_id (node d i)"
    using fs(4-6) [of i] by simp_all
  show "dag_wf d'"
    by (rule dag_wf_transfer [OF assms(1) len _ _ fs bfs])
      (simp_all add: d' assignStreams_def assignLevels_def reset_counts_def Let_def comp_def case_prod_unfold)
qed

lemma concat_level_before:
  assumes "distinct (concat ls)" "lp < lc" "lc < length ls" "p \<in> set (ls ! lp)" "ls ! lc \<noteq> []"
    and "k < length (concat ls)" "concat ls ! k \<in> set (ls ! lc)"
  shows "p \<in> set (take k (concat ls))"
proof -
  let ?pre = "concat (take lc ls)"
  have split: "concat ls = ?pre @ ls ! lc @ concat (drop (Suc lc) ls)"
    using assms(3) by (metis id_take_nth_drop concat.simps(2) concat_append)
  have "set ?pre \<inter> set (ls ! lc) = {}" using assms(1) unfolding split by auto
  then have "concat ls ! k \<notin> set ?pre" using assms(7) by auto
  then have k: "length ?pre \<le> k" using split by (metis leI nth_append nth_mem)
  have "ls ! lp \<in> set (take lc ls)" using assms(2,3) by (auto simp: in_set_conv_nth intro!: exI [of _ lp])
  then have "p \<in> set ?pre" using assms(4) by auto
  moreover have "take k (concat ls) = ?pre @ take (k - length ?pre) (ls ! lc @ concat (drop (Suc lc) ls))"
    using k by (subst split) simp
  ultimately show ?thesis by simp
qed

lemma finalize_exec_order:
  assumes "snd (dag_finalize ord mk d) = Inr ()" "d' = fst (dag_finalize ord mk d)"
  shows "exec_order d' = concat (levels d')"
proof -
  note sh = finalize_ok_shape [OF assms(1), folded assms(2)]
  have "length (levels d') = nat (max_level d') + 1" by (simp add: sh assignLevels_levels)
  then show ?thesis unfolding exec_order_def by (metis map_nth)
qed

lemma finalize_topo_order:
  assumes "dag_wf d" "snd (dag_finalize ord mk d) = Inr ()" "insertion_ordered d" "d' = fst (dag_finalize ord mk d)"
  shows "topo_order d' (exec_order d')" "set (exec_order d') = {..<length (nodes d')}"
proof -
  note sh = finalize_ok_shape [OF assms(2), folded assms(4)]
  let ?d2 = "assignLevels (reset_counts d)"
  have xs: "exec_order d' = concat (levels ?d2)" using finalize_exec_order [OF assms(2,4)] sh(2) by simp
  note part = assignLevels_partition [of "reset_counts d"]
  show "set (exec_order d') = {..<length (nodes d')}" unfolding xs using part(2) sh(1) by simp
  have "set (dependencies (node d' (concat (levels ?d2) ! k))) \<subseteq> set (take k (concat (levels ?d2)))"
    if k: "k < length (concat (levels ?d2))" for k
  proof
    let ?c = "concat (levels ?d2) ! k"
    fix p assume p: "p \<in> set (dependencies (node d' ?c))"
    have c: "?c < length (nodes d)" using part(2) nth_mem [OF k] by auto
    have pd: "p \<in> set (dependencies (node d ?c))" using p sh(6) [OF c] by simp
    then have pc: "p < ?c" using assms(3) c by (auto simp: insertion_ordered_def)
    have lv: "n_level (node ?d2 p) < n_level (node ?d2 ?c)"
      using leveled_edge [of ?c "nodes d" p] c pd pc by (simp add: assignLevels_nodes)
    have rp: "0 \<le> n_level (node ?d2 p)" "0 \<le> n_level (node ?d2 ?c)" "n_level (node ?d2 ?c) \<le> max_level ?d2"
      using assignLevels_range [of p "reset_counts d"] assignLevels_range [of ?c "reset_counts d"] c pc by simp_all
    let ?lp = "nat (n_level (node ?d2 p))" and ?lc = "nat (n_level (node ?d2 ?c))"
    have ll: "length (levels ?d2) = nat (max_level ?d2) + 1" by (simp add: assignLevels_levels)
    have len: "?lc < length (levels ?d2)" "?lp < length (levels ?d2)" "?lp < ?lc"
      unfolding ll using rp lv by linarith+
    have "p \<in> set (levels ?d2 ! ?lp)" "?c \<in> set (levels ?d2 ! ?lc)"
      using mem_levels [OF len(2)] mem_levels [OF len(1)] rp c pc by auto
    then show "p \<in> set (take k (concat (levels ?d2)))"
      using concat_level_before [OF part(1) len(3,1)] k by (metis empty_iff empty_set)
  qed
  then show "topo_order d' (exec_order d')"
    unfolding topo_order_def xs using part sh(1) by simp
qed

lemma buf_all:
  assumes "list_all (\<lambda>(b, r). P r) (buffer_table d)" "P new_buffer"
  shows "P (buf d b)"
  using assms by (auto simp: buf_def buffers_def list_all_iff split: option.splits dest: map_of_SomeD)

lemma mem_ok_initial:
  assumes "pool_wf (x_pool x)" "list_all (\<lambda>(b, r). is_external r \<or> \<not> is_allocated r) (buffer_table (x_dag x))"
  shows "mem_ok x"
proof -
  have "is_external (buf (x_dag x) b) \<or> \<not> is_allocated (buf (x_dag x) b)" for b
    by (rule buf_all [OF assms(2)]) (simp add: new_buffer_def)
  then show ?thesis using assms(1) unfolding mem_ok_def held_def by blast
qed

subsection \<open>A run of a two-stage chain\<close>

definition chain_ops :: "build_op list" where
  "chain_ops = [AddStage True True (Some 0) ''a'', AddStage True True (Some 1) ''b'', SetInputBuffer 0 64 ''input'',
     AddDependency 1 0 64 0, SetOutputBuffer 1 64 ''output'']"

text \<open>A stage that writes nothing and reports 16 bytes per output, and a bump allocator.\<close>

definition demo_env :: stage_env where
  "demo_env = \<lparr>se_run = (\<lambda>st s ins outs sizes (pl, m). Inr (map (\<lambda>_. 16) outs, pl, m)),
     se_fused = (\<lambda>_ _ _. Inl (RuntimeError [])), se_debug = True, se_driver = first_free_driver, se_scale = (\<lambda>n f. n * 3)\<rparr>"

lemma demo_env_ok: "env_ok demo_env"
  by (auto simp: env_ok_def demo_env_def first_free_driver_ok)

definition demo_fin :: "dag \<times> unit res" where
  "demo_fin = dag_finalize [0, 1] (\<lambda>k. Some [1..<Suc k]) (build MINIMAL chain_ops)"

definition demo_start :: exec_state where
  "demo_start = \<lparr>x_dag = fst demo_fin, x_pool = make_pool demo_config False True, x_mem = (\<lambda>_. 0), x_trace = []\<rparr>"

lemma chain_insertion_ordered: "insertion_ordered (build MINIMAL chain_ops)"
proof -
  have sh: "map dependencies (nodes (build MINIMAL chain_ops)) = [[], [0]]" "length (nodes (build MINIMAL chain_ops)) = 2"
    by code_simp+
  have "list_all (\<lambda>i. list_all (\<lambda>p. p < i) (map dependencies (nodes (build MINIMAL chain_ops)) ! i)) [0..<2]"
    unfolding sh by code_simp
  then show ?thesis using sh(2) by (simp add: insertion_ordered_def list_all_iff)
qed

lemma demo_fin_ok: "snd demo_fin = Inr ()"
  by code_simp

lemma demo_start_ready:
  "dag_wf (x_dag demo_start)" "topo_order (x_dag demo_start) (exec_order (x_dag demo_start))" "mem_ok demo_start"
  "remaining_consumers (buf (x_dag demo_start) b) = int (length (consumer_stage_ids (buf (x_dag demo_start) b)))"
  "set (exec_order (x_dag demo_start)) = {..<length (nodes (x_dag demo_start))}"
  "strategy (x_dag demo_start) = MINIMAL" "fused_member (x_dag demo_start) = []" "fused_internal_buffers (x_dag demo_start) = []"
proof -
  let ?d = "build MINIMAL chain_ops"
  have fin: "snd (dag_finalize [0, 1] (\<lambda>k. Some [1..<Suc k]) ?d) = Inr ()" using demo_fin_ok by (simp add: demo_fin_def)
  have d': "x_dag demo_start = fst (dag_finalize [0, 1] (\<lambda>k. Some [1..<Suc k]) ?d)"
    by (simp add: demo_start_def demo_fin_def)
  note R = finalize_exec_ready [OF build_wf fin d']
  show "dag_wf (x_dag demo_start)" by (rule R(1))
  show "topo_order (x_dag demo_start) (exec_order (x_dag demo_start))" "set (exec_order (x_dag demo_start)) = {..<length (nodes (x_dag demo_start))}"
    by (rule finalize_topo_order [OF build_wf fin chain_insertion_ordered d'])+
  show "remaining_consumers (buf (x_dag demo_start) b) = int (length (consumer_stage_ids (buf (x_dag demo_start) b)))"
    by (simp add: R(2))
  show "mem_ok demo_start"
  proof (rule mem_ok_initial)
    show "pool_wf (x_pool demo_start)" by (simp add: demo_start_def make_pool_wf)
    show "list_all (\<lambda>(b, r). is_external r \<or> \<not> is_allocated r) (buffer_table (x_dag demo_start))" by code_simp
  qed
  have "strategy ?d = MINIMAL" "fused_member ?d = []" "fused_internal_buffers ?d = []" by code_simp+
  then show "strategy (x_dag demo_start) = MINIMAL" "fused_member (x_dag demo_start) = []" "fused_internal_buffers (x_dag demo_start) = []"
    by (simp_all add: R)
qed


theorem exec_releases_intermediates_witness:
  "\<exists>y. execute demo_env 0 demo_start = Inr y \<and> \<not> held y 1"
proof -
  let ?r = "execute demo_env 0 demo_start"
  have ev: "\<not> isl ?r" "consumer_stage_ids (buf (x_dag demo_start) 1) = [1]" "\<not> is_persistent (buf (x_dag demo_start) 1)"
    by code_simp+
  then obtain y where y: "?r = Inr y" by (cases ?r) auto
  have "\<not> held y 1"
    using exec_releases_intermediates [OF demo_start_ready(1-3) demo_env_ok demo_start_ready(5) _ demo_start_ready(6-8) y]
      demo_start_ready(4) ev(2,3) by simp
  then show ?thesis using y by auto
qed

theorem exec_device_order_witness:
  "\<exists>y. execute demo_env 0 demo_start = Inr y \<and> device_ordered (x_trace y) 0 1 (exec_stream (x_dag demo_start) 0 1)"
proof -
  let ?r = "execute demo_env 0 demo_start"
  have ev: "\<not> isl ?r" "exec_order (x_dag demo_start) = [0, 1]" "n_stage (node (x_dag demo_start) 1) = Some 1"
    "dependencies (node (x_dag demo_start) 1) = [0]" by code_simp+
  then obtain y where y: "?r = Inr y" by (cases ?r) auto
  have "x_trace demo_start = []" by (simp add: demo_start_def)
  then have "device_ordered (x_trace y) 0 1 (exec_stream (x_dag demo_start) 0 1)"
    using exec_device_order [OF demo_start_ready(1-3) demo_env_ok _ demo_start_ready(6-8) y, of 1 0]
      demo_start_ready(4) ev by simp
  then show ?thesis using y by auto
qed

subsection \<open>Reset\<close>

definition restored :: "int \<Rightarrow> exec_state \<Rightarrow> exec_state \<Rightarrow> bool" where
  "restored b x y \<longleftrightarrow> mem_ok y \<and> shape (x_dag y) = shape (x_dag x) \<and>
     (\<forall>c. c \<noteq> b \<longrightarrow> buf (x_dag y) c = buf (x_dag x) c) \<and>
     remaining_consumers (buf (x_dag y) b) = int (length (consumer_stage_ids (buf (x_dag x) b))) \<and>
     (\<not> is_external (buf (x_dag x) b) \<longrightarrow> b_size (buf (x_dag y) b) = initial_size (buf (x_dag y) b)) \<and>
     initial_size (buf (x_dag y) b) = initial_size (buf (x_dag x) b) \<and>
     (strategy (x_dag x) \<noteq> PREALLOCATE \<longrightarrow> \<not> is_persistent (buf (x_dag x) b) \<longrightarrow> \<not> held y b) \<and>
     map fst (buffer_table (x_dag y)) = map fst (buffer_table (x_dag x))"

lemma upd_buf_keys: "buffers d b \<noteq> None \<Longrightarrow> map fst (buffer_table (upd_buf b f d)) = map fst (buffer_table d)"
  by (simp add: upd_buf_def buffers_def update_keys map_of_eq_None_iff)

lemma reset_buffer_restored:
  assumes "mem_ok x" "buffers (x_dag x) b \<noteq> None"
  shows "restored b x (reset_buffer b x)"
proof -
  let ?r = "buf (x_dag x) b"
  define x1 where "x1 = (if strategy (x_dag x) \<noteq> PREALLOCATE \<and> is_allocated ?r \<and> \<not> is_persistent ?r \<and> \<not> is_external ?r
      then if d_ptr ?r \<noteq> 0 then release b x
           else on_dag (upd_buf b (\<lambda>r. r\<lparr>is_allocated := False, d_ptr := 0, allocated_size := 0\<rparr>)) x
      else x)"
  have y: "reset_buffer b x = on_dag (upd_buf b (\<lambda>r. r\<lparr>remaining_consumers := int (length (consumer_stage_ids r)),
      b_size := (if is_external r then b_size r else initial_size r)\<rparr>)) x1"
    by (simp add: reset_buffer_def x1_def Let_def)
  have zero: "mem_ok (on_dag (upd_buf b (\<lambda>r. r\<lparr>is_allocated := False, d_ptr := 0, allocated_size := 0\<rparr>)) x)" if "d_ptr ?r = 0"
  proof -
    let ?z = "on_dag (upd_buf b (\<lambda>r. r\<lparr>is_allocated := False, d_ptr := 0, allocated_size := 0\<rparr>)) x"
    have h: "held ?z c \<longleftrightarrow> held x c" for c using that by (auto simp: held_def)
    have nb: "\<not> held x b" using that by (simp add: held_def)
    show ?thesis unfolding mem_ok_def h
    proof (intro conjI allI impI)
      show "d_ptr (buf (x_dag ?z) c) \<in> tracked (x_pool ?z)" if "held x c" for c
        using that nb mem_okD(2) [OF assms(1), of c] by auto
      show "d_ptr (buf (x_dag ?z) c) \<noteq> d_ptr (buf (x_dag ?z) e)" if "held x c" "held x e" "c \<noteq> e" for c e
        using that nb mem_okD(3) [OF assms(1), of c e] by auto
      show "d_ptr (buf (x_dag ?z) c) = 0 \<longleftrightarrow> allocated_size (buf (x_dag ?z) c) = 0"
        if "\<not> is_external (buf (x_dag ?z) c)" "is_allocated (buf (x_dag ?z) c)" for c
        using that mem_okD(4) [OF assms(1), of c] by (simp split: if_splits)
    qed (use mem_okD(1) [OF assms(1)] in simp)
  qed
  have m1: "mem_ok x1" unfolding x1_def using assms(1) zero release_mem_ok by simp
  have sh: "shape (x_dag x1) = shape (x_dag x)" unfolding x1_def by (simp add: release_view shape_upd_buf)
  have b1: "c \<noteq> b \<Longrightarrow> buf (x_dag x1) c = buf (x_dag x) c" for c unfolding x1_def by (simp add: release_view)
  have i1: "initial_size (buf (x_dag x1) b) = initial_size ?r" "consumer_stage_ids (buf (x_dag x1) b) = consumer_stage_ids ?r"
    "is_external (buf (x_dag x1) b) = is_external ?r"
    unfolding x1_def by (simp_all add: release_view)
  have k1: "map fst (buffer_table (x_dag x1)) = map fst (buffer_table (x_dag x))"
    unfolding x1_def using upd_buf_keys [OF assms(2)] by (simp add: release_def Let_def)
  then have "fst ` set (buffer_table (x_dag x1)) = fst ` set (buffer_table (x_dag x))" by (metis set_map)
  then have "buffers (x_dag x1) b \<noteq> None" using assms(2) by (simp add: buffers_def map_of_eq_None_iff)
  note k2 = upd_buf_keys [OF this]
  have m2: "mem_ok (reset_buffer b x)" unfolding y
    by (rule mem_ok_cong [OF m1]) (use mem_okD(1) [OF m1] in \<open>simp_all add: mem_view_def\<close>)
  have h1: "\<not> held x1 b" if "strategy (x_dag x) \<noteq> PREALLOCATE" "\<not> is_persistent ?r"
    using that unfolding x1_def by (auto simp: held_def release_view)
  have h2: "held (reset_buffer b x) b = held x1 b" unfolding y by (simp add: held_def)
  show ?thesis unfolding restored_def
    using m2 sh b1 i1 k1 k2 h1 h2 by (simp add: y shape_upd_buf)
qed

lemma reset_fold:
  assumes "mem_ok x" "set bs \<subseteq> fst ` set (buffer_table (x_dag x))" "distinct bs"
  shows "mem_ok (fold reset_buffer bs x)" "shape (x_dag (fold reset_buffer bs x)) = shape (x_dag x)"
    "\<forall>b. b \<notin> set bs \<longrightarrow> buf (x_dag (fold reset_buffer bs x)) b = buf (x_dag x) b"
    "\<forall>b\<in>set bs. remaining_consumers (buf (x_dag (fold reset_buffer bs x)) b) = int (length (consumer_stage_ids (buf (x_dag x) b))) \<and>
       (\<not> is_external (buf (x_dag x) b) \<longrightarrow> b_size (buf (x_dag (fold reset_buffer bs x)) b) = initial_size (buf (x_dag (fold reset_buffer bs x)) b)) \<and>
       initial_size (buf (x_dag (fold reset_buffer bs x)) b) = initial_size (buf (x_dag x) b) \<and>
       (strategy (x_dag x) \<noteq> PREALLOCATE \<longrightarrow> \<not> is_persistent (buf (x_dag x) b) \<longrightarrow> \<not> held (fold reset_buffer bs x) b)"
proof -
  have "mem_ok (fold reset_buffer bs x) \<and> shape (x_dag (fold reset_buffer bs x)) = shape (x_dag x) \<and>
    (\<forall>b. b \<notin> set bs \<longrightarrow> buf (x_dag (fold reset_buffer bs x)) b = buf (x_dag x) b) \<and>
    (\<forall>b\<in>set bs. remaining_consumers (buf (x_dag (fold reset_buffer bs x)) b) = int (length (consumer_stage_ids (buf (x_dag x) b))) \<and>
       (\<not> is_external (buf (x_dag x) b) \<longrightarrow> b_size (buf (x_dag (fold reset_buffer bs x)) b) = initial_size (buf (x_dag (fold reset_buffer bs x)) b)) \<and>
       initial_size (buf (x_dag (fold reset_buffer bs x)) b) = initial_size (buf (x_dag x) b) \<and>
       (strategy (x_dag x) \<noteq> PREALLOCATE \<longrightarrow> \<not> is_persistent (buf (x_dag x) b) \<longrightarrow> \<not> held (fold reset_buffer bs x) b))"
    using assms
  proof (induction bs arbitrary: x)
    case Nil
    then show ?case by simp
  next
    case (Cons a bs)
    let ?z = "reset_buffer a x" and ?y = "fold reset_buffer (a # bs) x"
    have "buffers (x_dag x) a \<noteq> None" using Cons.prems(2) by (simp add: buffers_def map_of_eq_None_iff)
    note R = reset_buffer_restored [OF Cons.prems(1) this, unfolded restored_def]
    have "map fst (buffer_table (x_dag ?z)) = map fst (buffer_table (x_dag x))" using R by blast
    then have "fst ` set (buffer_table (x_dag ?z)) = fst ` set (buffer_table (x_dag x))" by (metis set_map)
    then have sub: "set bs \<subseteq> fst ` set (buffer_table (x_dag ?z))" using Cons.prems(2) by simp
    have mz: "mem_ok ?z" and shz: "shape (x_dag ?z) = shape (x_dag x)" using R by simp_all
    have "distinct bs" "a \<notin> set bs" using Cons.prems(3) by simp_all
    note IH = Cons.IH [OF mz sub this(1)]
    have st: "strategy (x_dag ?z) = strategy (x_dag x)" by (rule shape_eqD(2) [OF shz])
    have a: "buf (x_dag ?y) a = buf (x_dag ?z) a" using IH \<open>a \<notin> set bs\<close> by simp
    then have ha: "held ?y a = held ?z a" by (simp add: held_def)
    have rest: "buf (x_dag ?z) b = buf (x_dag x) b" if "b \<in> set bs" for b using R \<open>a \<notin> set bs\<close> that by auto
    show ?case
    proof (intro conjI)
      show "mem_ok ?y" "shape (x_dag ?y) = shape (x_dag x)" using IH shz by simp_all
      show "\<forall>b. b \<notin> set (a # bs) \<longrightarrow> buf (x_dag ?y) b = buf (x_dag x) b" using IH R by simp
      show "\<forall>b\<in>set (a # bs). remaining_consumers (buf (x_dag ?y) b) = int (length (consumer_stage_ids (buf (x_dag x) b))) \<and>
         (\<not> is_external (buf (x_dag x) b) \<longrightarrow> b_size (buf (x_dag ?y) b) = initial_size (buf (x_dag ?y) b)) \<and>
         initial_size (buf (x_dag ?y) b) = initial_size (buf (x_dag x) b) \<and>
         (strategy (x_dag x) \<noteq> PREALLOCATE \<longrightarrow> \<not> is_persistent (buf (x_dag x) b) \<longrightarrow> \<not> held ?y b)" (is "\<forall>b\<in>_. ?Q b")
      proof
        fix b assume "b \<in> set (a # bs)"
        then consider "b = a" | "b \<in> set bs" by auto
        then show "?Q b"
        proof cases
          case 1
          then show ?thesis using R a ha by simp
        next
          case 2
          then show ?thesis using IH rest [OF 2] st by simp
        qed
      qed
    qed
  qed
  then show "mem_ok (fold reset_buffer bs x)" "shape (x_dag (fold reset_buffer bs x)) = shape (x_dag x)"
    "\<forall>b. b \<notin> set bs \<longrightarrow> buf (x_dag (fold reset_buffer bs x)) b = buf (x_dag x) b"
    "\<forall>b\<in>set bs. remaining_consumers (buf (x_dag (fold reset_buffer bs x)) b) = int (length (consumer_stage_ids (buf (x_dag x) b))) \<and>
       (\<not> is_external (buf (x_dag x) b) \<longrightarrow> b_size (buf (x_dag (fold reset_buffer bs x)) b) = initial_size (buf (x_dag (fold reset_buffer bs x)) b)) \<and>
       initial_size (buf (x_dag (fold reset_buffer bs x)) b) = initial_size (buf (x_dag x) b) \<and>
       (strategy (x_dag x) \<noteq> PREALLOCATE \<longrightarrow> \<not> is_persistent (buf (x_dag x) b) \<longrightarrow> \<not> held (fold reset_buffer bs x) b)"
    by blast+
qed

text \<open>
  C33. \<open>reset\<close> makes the graph ready for another execution from any consistent state, even after a
  failed run: the shape is untouched, every consumer counter and every logical size is back at its
  initial value, no node counts as executed, and under MINIMAL all non-persistent memory is
  returned to the pool.
\<close>

theorem reset_restores:
  assumes "mem_ok x" "wf_dom (x_dag x)"
  shows "mem_ok (dag_reset x) \<and> shape (x_dag (dag_reset x)) = shape (x_dag x) \<and>
    (\<forall>b. remaining_consumers (buf (x_dag (dag_reset x)) b) = int (length (consumer_stage_ids (buf (x_dag x) b)))) \<and>
    (\<forall>b. \<not> is_external (buf (x_dag x) b) \<longrightarrow> b_size (buf (x_dag (dag_reset x)) b) = initial_size (buf (x_dag x) b)) \<and>
    (strategy (x_dag x) \<noteq> PREALLOCATE \<longrightarrow> (\<forall>b. \<not> is_persistent (buf (x_dag x) b) \<longrightarrow> \<not> held (dag_reset x) b)) \<and>
    (\<forall>n\<in>set (nodes (x_dag (dag_reset x))). \<not> is_executed n)"
proof -
  let ?bs = "map fst (buffer_table (x_dag x))" and ?y = "fold reset_buffer (map fst (buffer_table (x_dag x))) x"
  note F = reset_fold [OF assms(1), of ?bs]
  have ds: "distinct ?bs" using assms(2) by (simp add: wf_dom_def)
  have mem: "b \<in> set ?bs \<longleftrightarrow> buffers (x_dag x) b \<noteq> None" for b by (simp add: buffers_def map_of_eq_None_iff)
  have bf: "buf (x_dag (dag_reset x)) b = buf (x_dag ?y) b" for b
    by (simp add: dag_reset_def Let_def buf_def buffers_def)
  have pl: "x_pool (dag_reset x) = x_pool ?y" by (simp add: dag_reset_def Let_def)
  have hd: "held (dag_reset x) b = held ?y b" for b by (simp add: held_def bf)
  have my: "mem_ok ?y" using F(1) ds by simp
  have "mem_ok (dag_reset x)"
    by (rule mem_ok_cong [OF my]) (use mem_okD(1) [OF my] in \<open>simp_all add: mem_view_def bf pl\<close>)
  moreover have "shape (x_dag (dag_reset x)) = shape (x_dag ?y)"
    unfolding shape_def bf by (simp add: dag_reset_def Let_def comp_def)
  moreover have "shape (x_dag ?y) = shape (x_dag x)" using F(2) ds by simp
  moreover have "\<not> is_executed n" if "n \<in> set (nodes (x_dag (dag_reset x)))" for n
    using that by (auto simp: dag_reset_def Let_def)
  moreover have "remaining_consumers (buf (x_dag ?y) b) = int (length (consumer_stage_ids (buf (x_dag x) b))) \<and>
      (\<not> is_external (buf (x_dag x) b) \<longrightarrow> b_size (buf (x_dag ?y) b) = initial_size (buf (x_dag x) b)) \<and>
      (strategy (x_dag x) \<noteq> PREALLOCATE \<longrightarrow> \<not> is_persistent (buf (x_dag x) b) \<longrightarrow> \<not> held ?y b)" for b
  proof (cases "b \<in> set ?bs")
    case True
    have "set ?bs \<subseteq> fst ` set (buffer_table (x_dag x))" by simp
    from bspec [OF F(4) [OF this ds] True] show ?thesis by (elim conjE) (intro conjI, simp_all)
  next
    case False
    then have "buffers (x_dag x) b = None" using mem [of b] by blast
    moreover have "buf (x_dag ?y) b = buf (x_dag x) b" using F(3) ds False by simp
    ultimately show ?thesis using buf_None [of "x_dag x" b] by (simp add: new_buffer_def held_def)
  qed
  ultimately show ?thesis unfolding bf hd by auto
qed

theorem reset_restores_witness:
  "mem_ok (dag_reset demo_start) \<and> b_size (buf (x_dag (dag_reset demo_start)) 1) = 64"
proof -
  have "wf_dom (x_dag demo_start)" using demo_start_ready(1) by (simp add: dag_wf_def)
  moreover have "initial_size (buf (x_dag demo_start) 1) = 64" "\<not> is_external (buf (x_dag demo_start) 1)" by code_simp+
  ultimately show ?thesis using reset_restores [OF demo_start_ready(3)] by simp
qed

subsection \<open>The usage counter\<close>

text \<open>
  The usage counter is not kept across \<open>reset\<close>.  \<open>reset\<close> sets it to 0 but leaves persistent
  buffers allocated; when the next run needs such a buffer larger, \<open>allocateBuffer\<close> first subtracts
  the old capacity it no longer counts, so a buffer of \<open>n\<close> bytes that replaces one of \<open>m\<close> bytes is
  counted as \<open>n - m\<close> (and, between the two updates, the counter has wrapped below zero).
\<close>

theorem regrow_undercounts:
  assumes "r = buf (x_dag x) b" "\<not> is_external r" "is_allocated r" "allocated_size r < b_size r"
    and "b \<notin> set (fused_internal_buffers (x_dag x))" "current_memory_usage (x_dag x) = 0"
    and "allocateBuffer env b x = Inr y"
  shows "allocated_size (buf (x_dag y) b) = b_size r \<and> current_memory_usage (x_dag y) = b_size r - allocated_size r"
proof -
  obtain q pl where pa: "pool_allocate (se_driver env) (se_scale env) (b_size r) (b_tag r) (is_persistent r) (x_pool (release b x)) = (q, pl)"
    by fastforce
  have "b_size r \<noteq> 0" using assms(4) by auto
  then have y: "y = (release b x)\<lparr>x_pool := pl, x_dag := charge (b_size r)
      (upd_buf b (\<lambda>r. r\<lparr>d_ptr := q, is_allocated := True, allocated_size := b_size r\<rparr>) (x_dag (release b x)))\<rparr>"
    using assms pa by (auto simp: allocateBuffer_def Let_def split: if_splits)
  have "current_memory_usage (x_dag (release b x)) = - allocated_size r"
    using assms(1,6) by (simp add: release_def Let_def)
  moreover have "current_memory_usage (upd_buf b f d) = current_memory_usage d" for f d by (simp add: upd_buf_def)
  ultimately show ?thesis using assms(1) by (simp add: y charge_def release_view)
qed

definition regrow_state :: exec_state where
  "regrow_state = (case allocateBuffer demo_env 2 demo_start of
     Inl _ \<Rightarrow> demo_start
   | Inr x \<Rightarrow> on_dag (upd_buf 2 (\<lambda>r. r\<lparr>b_size := 100, initial_size := 100\<rparr>)) (dag_reset x))"

theorem regrow_undercounts_witness:
  "\<exists>y. allocateBuffer demo_env 2 regrow_state = Inr y \<and> allocated_size (buf (x_dag y) 2) = 100 \<and>
     current_memory_usage (x_dag y) = 36"
proof -
  let ?r = "allocateBuffer demo_env 2 regrow_state"
  have ev: "\<not> isl ?r" "\<not> is_external (buf (x_dag regrow_state) 2)" "is_allocated (buf (x_dag regrow_state) 2)"
    "allocated_size (buf (x_dag regrow_state) 2) = 64" "b_size (buf (x_dag regrow_state) 2) = 100"
    "fused_internal_buffers (x_dag regrow_state) = []" "current_memory_usage (x_dag regrow_state) = 0"
    by code_simp+
  then obtain y where y: "?r = Inr y" by (cases ?r) auto
  have lt: "allocated_size (buf (x_dag regrow_state) 2) < b_size (buf (x_dag regrow_state) 2)" unfolding ev(4,5) by simp
  have "2 \<notin> set (fused_internal_buffers (x_dag regrow_state))" by (simp add: ev(6))
  from regrow_undercounts [OF refl ev(2,3) lt this ev(7) y] show ?thesis using y unfolding ev(4,5) by simp
qed

text \<open>
  \<open>setExternalPointer\<close> on a buffer the graph owns gives its memory back but subtracts the
  buffer's logical size, not its capacity.  When a stage reported less than the capacity, the
  difference stays in the usage counter.
\<close>

theorem external_pointer_leaks_usage:
  assumes "buffers (x_dag x) b = Some r" "is_allocated r" "\<not> is_external r" "\<not> coloring_applied (x_dag x)"
    and "current_memory_usage (x_dag x) = allocated_size r + rest" "setExternalPointer b ptr x = Inr y"
  shows "current_memory_usage (x_dag y) = rest + (allocated_size r - b_size r) \<and>
    is_external (buf (x_dag y) b) \<and> d_ptr (buf (x_dag y) b) = ptr \<and> x_pool y = snd (pool_free (d_ptr r) (x_pool x))"
proof -
  have "current_memory_usage (upd_buf b f d) = current_memory_usage d" for f d by (simp add: upd_buf_def)
  then show ?thesis using assms by (auto simp: setExternalPointer_def Let_def)
qed

theorem external_pointer_leaks_usage_witness:
  "\<exists>y. setExternalPointer 2 4096 (on_dag (upd_buf 2 (\<lambda>r. r\<lparr>b_size := 16\<rparr>)) (projr (allocateBuffer demo_env 2 demo_start))) = Inr y \<and>
     current_memory_usage (x_dag y) = 48"
proof -
  let ?x = "on_dag (upd_buf 2 (\<lambda>r. r\<lparr>b_size := 16\<rparr>)) (projr (allocateBuffer demo_env 2 demo_start))"
  let ?s = "setExternalPointer 2 4096 ?x"
  have ev: "\<not> isl ?s" "buffers (x_dag ?x) 2 \<noteq> None" "is_allocated (buf (x_dag ?x) 2)" "\<not> is_external (buf (x_dag ?x) 2)"
    "\<not> coloring_applied (x_dag ?x)" "current_memory_usage (x_dag ?x) = 64" "allocated_size (buf (x_dag ?x) 2) = 64"
    "b_size (buf (x_dag ?x) 2) = 16"
    by code_simp+
  then obtain y where y: "?s = Inr y" by (cases ?s) auto
  obtain r where r: "buffers (x_dag ?x) 2 = Some r" using ev(2) by blast
  then have "r = buf (x_dag ?x) 2" by (simp add: buf_def)
  with external_pointer_leaks_usage [OF r _ _ ev(5) _ y, of 0] ev y show ?thesis by auto
qed

end
