(* ===== verification/Dag_Coloring.thy ===== *)
theory Dag_Coloring
  imports Dag_Exec
begin

section \<open>Buffer coloring and pool sizing\<close>

text \<open>
  \<open>src/pipeline/dag_coloring.cpp\<close> and the sizing queries of \<open>src/pipeline/dag_query.cpp\<close>.  The vector
  \<open>buf_ids\<close> that the greedy loop walks is a parameter \<open>ord\<close>: it comes out of a hash map and an
  unstable sort, so the source fixes it only up to the order of equally long live ranges.
  \<open>scratch s sizes\<close> is a stage's \<open>estimateScratchBytes\<close>.
\<close>

subsection \<open>Live ranges\<close>

definition fused_level_of :: "dag \<Rightarrow> nat \<Rightarrow> int" where
  "fused_level_of d i =
     fold (\<lambda>fg l. if i \<in> set (fg_members fg) then n_level (node d (fg_head fg)) else l) (fused_groups d) (n_level (node d i))"

definition colorable :: "dag \<Rightarrow> int list" where
  "colorable d = map fst (filter (\<lambda>(b, r). \<not> is_external r \<and> b \<notin> set (fused_internal_buffers d)) (buffer_table d))"

definition born :: "dag \<Rightarrow> int \<Rightarrow> int" where
  "born d b = (let p = producer_stage_id (buf d b) in if p < 0 then 0 else fused_level_of d (nat p))"

definition dies :: "dag \<Rightarrow> int \<Rightarrow> int" where
  "dies d b = (let cs = consumer_stage_ids (buf d b) in
     if cs = [] then max_level d else foldl (\<lambda>m c. max m (fused_level_of d c)) 0 cs)"

definition interferes :: "dag \<Rightarrow> int \<Rightarrow> int \<Rightarrow> bool" where
  "interferes d a b \<longleftrightarrow> a \<noteq> b \<and> born d a \<le> dies d b \<and> born d b \<le> dies d a"

subsection \<open>Greedy coloring\<close>

function lowest_free_from :: "nat \<Rightarrow> nat list \<Rightarrow> nat" where
  "lowest_free_from c used = (if c \<in> set used then lowest_free_from (Suc c) used else c)"
  by pat_completeness simp
termination
proof (relation "measure (\<lambda>(c, used). card {u \<in> set used. c \<le> u})")
  fix c :: nat and used :: "nat list"
  assume "c \<in> set used"
  then have "c \<in> {u \<in> set used. c \<le> u}" "c \<notin> {u \<in> set used. Suc c \<le> u}" by simp_all
  moreover have "{u \<in> set used. Suc c \<le> u} \<subseteq> {u \<in> set used. c \<le> u}" by (simp add: Collect_mono_iff)
  ultimately have "{u \<in> set used. Suc c \<le> u} \<subset> {u \<in> set used. c \<le> u}" by blast
  then show "((Suc c, used), c, used) \<in> measure (\<lambda>(c, used). card {u \<in> set used. c \<le> u})"
    by (simp add: psubset_card_mono)
qed simp

declare lowest_free_from.simps [simp del]

definition used_colors :: "dag \<Rightarrow> (int \<times> nat) list \<Rightarrow> int \<Rightarrow> nat list" where
  "used_colors d cols b = map snd (filter (\<lambda>(nb, c). interferes d b nb) cols)"

definition grow_region :: "size_t list \<Rightarrow> nat \<Rightarrow> size_t \<Rightarrow> size_t list" where
  "grow_region sizes c sz =
     (let s = (if length sizes \<le> c then sizes @ replicate (c + 1 - length sizes) 0 else sizes)
      in s[c := max (s ! c) sz])"

definition color_step :: "dag \<Rightarrow> int \<Rightarrow> (int \<times> nat) list \<times> size_t list \<Rightarrow> (int \<times> nat) list \<times> size_t list" where
  "color_step d b st =
     (let (cols, sizes) = st; c = lowest_free_from 0 (used_colors d cols b)
      in (cols @ [(b, c)], grow_region sizes c (b_size (buf d b))))"

text \<open>Two buffers of one color whose producers were given different streams.\<close>

definition cross_stream_alias :: "dag \<Rightarrow> (int \<times> nat) list \<Rightarrow> bool" where
  "cross_stream_alias d cols =
     list_ex (\<lambda>(a, ca). list_ex (\<lambda>(b, cb). ca = cb \<and> 0 \<le> producer_stage_id (buf d a) \<and> 0 \<le> producer_stage_id (buf d b) \<and>
        n_stream (node d (nat (producer_stage_id (buf d a)))) \<noteq> n_stream (node d (nat (producer_stage_id (buf d b))))) cols) cols"

definition colorBuffers :: "int list \<Rightarrow> dag \<Rightarrow> dag" where
  "colorBuffers ord d =
     (if fused_groups d \<noteq> [] \<and> 1 < length (streams d) then d
      else
        let (cols, sizes) = fold (color_step d) ord ([], []) in
        if 1 < length (streams d) \<and> cross_stream_alias d cols
        then d\<lparr>buffer_color := (\<lambda>_. None), color_region_sizes := []\<rparr>
        else d\<lparr>buffer_color := map_of cols, color_region_sizes := sizes, coloring_applied := True\<rparr>)"

subsection \<open>Preallocation\<close>

fun alloc_regions :: "stage_env \<Rightarrow> size_t list \<Rightarrow> pool \<Rightarrow> dptr list \<times> pool" where
  "alloc_regions env [] pl = ([], pl)"
| "alloc_regions env (sz # szs) pl =
     (let (q, pl1) = (if 0 < sz then pool_allocate (se_driver env) (se_scale env) sz [] False pl else (0, pl));
          (qs, pl2) = alloc_regions env szs pl1
      in (q # qs, pl2))"

definition assign_region :: "int \<Rightarrow> dag \<Rightarrow> dag" where
  "assign_region b d =
     (if is_external (buf d b) then d
      else case buffer_color d b of
        None \<Rightarrow> d
      | Some c \<Rightarrow> upd_buf b (\<lambda>r. r\<lparr>d_ptr := color_region_ptrs d ! c, is_allocated := True,
                    allocated_size := color_region_sizes d ! c\<rparr>) d)"

definition preallocateBuffers :: "stage_env \<Rightarrow> int list \<Rightarrow> exec_state \<Rightarrow> exec_state res" where
  "preallocateBuffers env ord x =
     (let d = (if strategy (x_dag x) = PREALLOCATE \<and> \<not> coloring_disabled (x_dag x) \<and> \<not> coloring_applied (x_dag x)
               then colorBuffers ord (x_dag x) else x_dag x) in
      if coloring_applied d
      then
        let (ptrs, pl) = alloc_regions env (color_region_sizes d) (x_pool x);
            d1 = fold assign_region (map fst (buffer_table d)) (d\<lparr>color_region_ptrs := ptrs\<rparr>)
        in Inr (x\<lparr>x_pool := pl, x_dag := charge (foldl (+) 0 (color_region_sizes d)) d1\<rparr>)
      else res_fold (\<lambda>b x. if b \<in> set (fused_internal_buffers d) then Inr x else allocateBuffer env b x)
             (map fst (buffer_table d)) (x\<lparr>x_dag := d\<rparr>))"

subsection \<open>Sizing queries\<close>

definition getTotalBufferSize :: "dag \<Rightarrow> size_t" where
  "getTotalBufferSize d =
     foldl (\<lambda>t (b, r). if b \<in> set (fused_internal_buffers d) then t else t + b_size r) 0 (buffer_table d)"

definition node_scratch :: "(nat \<Rightarrow> size_t list \<Rightarrow> size_t) \<Rightarrow> dag \<Rightarrow> dag_node \<Rightarrow> size_t" where
  "node_scratch scratch d n =
     (case n_stage n of None \<Rightarrow> 0 | Some s \<Rightarrow> scratch s (map (\<lambda>b. b_size (buf d b)) (input_buffer_ids n)))"

definition level_alloc :: "(nat \<Rightarrow> size_t list \<Rightarrow> size_t) \<Rightarrow> dag \<Rightarrow> nat \<Rightarrow> size_t" where
  "level_alloc scratch d i =
     foldl (\<lambda>t b. if is_external (buf d b) \<or> b \<in> set (fused_internal_buffers d) then t else t + b_size (buf d b)) 0
       (output_buffer_ids (node d i)) + node_scratch scratch d (node d i)"

definition level_free :: "dag \<Rightarrow> int \<Rightarrow> size_t" where
  "level_free d l = foldl (\<lambda>t b. if dies d b = l then t + b_size (buf d b) else t) 0 (colorable d)"

definition topo_level :: "(nat \<Rightarrow> size_t list \<Rightarrow> size_t) \<Rightarrow> dag \<Rightarrow> nat \<Rightarrow> size_t \<times> size_t \<Rightarrow> size_t \<times> size_t" where
  "topo_level scratch d l st =
     (let (running, peak) = st;
          up = running + (if l < length (levels d) then foldl (\<lambda>t i. t + level_alloc scratch d i) 0 (levels d ! l) else 0)
      in (up - level_free d (int l), max peak up))"

definition computeTopoPoolSize :: "(nat \<Rightarrow> size_t list \<Rightarrow> size_t) \<Rightarrow> dag \<Rightarrow> size_t" where
  "computeTopoPoolSize scratch d =
     (if strategy d = PREALLOCATE
      then foldl (\<lambda>t n. t + node_scratch scratch d n)
             (if coloring_applied d then foldl (+) 0 (color_region_sizes d)
              else foldl (\<lambda>t b. t + b_size (buf d b)) 0 (colorable d)) (nodes d)
      else snd (fold (topo_level scratch d) [0..<nat (max_level d) + 1] (0, 0)))"

subsection \<open>Soundness of the coloring\<close>

lemma lowest_free_from_spec: "lowest_free_from c used \<notin> set used"
proof (induction c used rule: lowest_free_from.induct)
  case (1 c used)
  then show ?case by (subst lowest_free_from.simps) simp
qed

lemma grow_region_props:
  "length (grow_region sizes c sz) = max (length sizes) (Suc c)" "sz \<le> grow_region sizes c sz ! c"
  "k < length sizes \<Longrightarrow> sizes ! k \<le> grow_region sizes c sz ! k"
  by (auto simp: grow_region_def Let_def nth_list_update nth_append max_def)

text \<open>What the greedy loop keeps true of the buffers colored so far.\<close>

definition color_inv :: "dag \<Rightarrow> (int \<times> nat) list \<times> size_t list \<Rightarrow> bool" where
  "color_inv d st \<longleftrightarrow>
     (\<forall>(a, ca)\<in>set (fst st). \<forall>(b, cb)\<in>set (fst st). a \<noteq> b \<longrightarrow> ca = cb \<longrightarrow> \<not> interferes d a b) \<and>
     (\<forall>(a, ca)\<in>set (fst st). ca < length (snd st) \<and> b_size (buf d a) \<le> snd st ! ca)"

lemma interferes_sym: "interferes d a b \<longleftrightarrow> interferes d b a"
  by (auto simp: interferes_def)

lemma color_step_inv:
  assumes "color_inv d st" "b \<notin> fst ` set (fst st)"
  shows "color_inv d (color_step d b st)" "map fst (fst (color_step d b st)) = map fst (fst st) @ [b]"
proof -
  obtain cols sizes where st: "st = (cols, sizes)" by (cases st)
  let ?c = "lowest_free_from 0 (used_colors d cols b)"
  have step: "color_step d b st = (cols @ [(b, ?c)], grow_region sizes ?c (b_size (buf d b)))"
    by (simp add: color_step_def st Let_def)
  show "map fst (fst (color_step d b st)) = map fst (fst st) @ [b]" unfolding step by (simp add: st)
  have free: "?c \<notin> set (used_colors d cols b)" by (rule lowest_free_from_spec)
  have new: "\<not> interferes d b a" if "(a, ?c) \<in> set cols" for a
    using free that by (force simp: used_colors_def)
  show "color_inv d (color_step d b st)" unfolding color_inv_def step fst_conv snd_conv
  proof (intro conjI)
    show "\<forall>(a, ca)\<in>set (cols @ [(b, ?c)]). \<forall>(e, ce)\<in>set (cols @ [(b, ?c)]). a \<noteq> e \<longrightarrow> ca = ce \<longrightarrow> \<not> interferes d a e"
    proof (rule ballI, clarify)
      fix a e c assume ae: "(a, c) \<in> set (cols @ [(b, ?c)])" "(e, c) \<in> set (cols @ [(b, ?c)])" "a \<noteq> e" "interferes d a e"
      have old: "\<not> interferes d a e" if "(a, c) \<in> set cols" "(e, c) \<in> set cols"
        using assms(1) that ae(3) unfolding color_inv_def st fst_conv by blast
      from ae consider "(a, c) \<in> set cols" "(e, c) \<in> set cols" | "a = b" "c = ?c" "(e, c) \<in> set cols"
        | "e = b" "c = ?c" "(a, c) \<in> set cols" by auto
      then show False
        using old ae(4) new [of a] new [of e] interferes_sym [of d a e] by cases simp_all
    qed
    show "\<forall>(a, ca)\<in>set (cols @ [(b, ?c)]). ca < length (grow_region sizes ?c (b_size (buf d b))) \<and>
        b_size (buf d a) \<le> grow_region sizes ?c (b_size (buf d b)) ! ca"
    proof (rule ballI, clarify)
      fix a ca assume "(a, ca) \<in> set (cols @ [(b, ?c)])"
      then consider "a = b" "ca = ?c" | "(a, ca) \<in> set cols" by auto
      then show "ca < length (grow_region sizes ?c (b_size (buf d b))) \<and> b_size (buf d a) \<le> grow_region sizes ?c (b_size (buf d b)) ! ca"
      proof cases
        case 1
        then show ?thesis by (simp add: grow_region_props)
      next
        case 2
        then have "ca < length sizes" "b_size (buf d a) \<le> sizes ! ca" using assms(1) by (auto simp: color_inv_def st)
        then show ?thesis using grow_region_props(3) by (auto simp: grow_region_props(1) intro: order_trans)
      qed
    qed
  qed
qed

lemma color_fold_inv:
  assumes "distinct ord" "color_inv d st" "set ord \<inter> fst ` set (fst st) = {}"
  shows "color_inv d (fold (color_step d) ord st) \<and> map fst (fst (fold (color_step d) ord st)) = map fst (fst st) @ ord"
  using assms
proof (induction ord arbitrary: st)
  case (Cons b ord)
  have b: "b \<notin> fst ` set (fst st)" using Cons.prems(3) by auto
  note S = color_step_inv [OF Cons.prems(2) b]
  have "fst ` set (fst (color_step d b st)) = insert b (fst ` set (fst st))"
    using S(2) by (metis Un_insert_right list.set(2) set_append set_map sup_bot.right_neutral list.simps(15) empty_set)
  then have "set ord \<inter> fst ` set (fst (color_step d b st)) = {}" using Cons.prems(1,3) by auto
  with Cons.IH [of "color_step d b st"] Cons.prems(1) S show ?case by simp
qed simp

lemma colorBuffers_colored:
  assumes "distinct ord" "\<not> coloring_applied d" "coloring_applied (colorBuffers ord d)"
  shows "color_inv d (fold (color_step d) ord ([], []))"
    "buffer_color (colorBuffers ord d) = map_of (fst (fold (color_step d) ord ([], [])))"
    "color_region_sizes (colorBuffers ord d) = snd (fold (color_step d) ord ([], []))"
    "map fst (fst (fold (color_step d) ord ([], []))) = ord"
proof -
  have F: "color_inv d (fold (color_step d) ord ([], [])) \<and> map fst (fst (fold (color_step d) ord ([], []))) = ord"
    using color_fold_inv [OF assms(1), of d "([], [])"] by (simp add: color_inv_def)
  then show "color_inv d (fold (color_step d) ord ([], []))" "map fst (fst (fold (color_step d) ord ([], []))) = ord" by simp_all
  show "buffer_color (colorBuffers ord d) = map_of (fst (fold (color_step d) ord ([], [])))"
    "color_region_sizes (colorBuffers ord d) = snd (fold (color_step d) ord ([], []))"
    using assms(2,3) by (auto simp: colorBuffers_def Let_def split: if_splits prod.splits)
qed

text \<open>
  C25. Whatever order the hash map and the sort produce, a coloring is sound: every
  colorable buffer gets a region that exists and is at least as large as the buffer, and two
  different buffers that share a region have disjoint live ranges.
\<close>

theorem coloring_sound:
  assumes "distinct ord" "\<not> coloring_applied d" "d' = colorBuffers ord d" "coloring_applied d'"
  shows "(\<forall>b. buffer_color d' b \<noteq> None \<longleftrightarrow> b \<in> set ord) \<and>
    (\<forall>b c. buffer_color d' b = Some c \<longrightarrow> c < length (color_region_sizes d') \<and> b_size (buf d b) \<le> color_region_sizes d' ! c) \<and>
    (\<forall>a b c. buffer_color d' a = Some c \<longrightarrow> buffer_color d' b = Some c \<longrightarrow> a \<noteq> b \<longrightarrow>
       dies d a < born d b \<or> dies d b < born d a)"
proof -
  note C = colorBuffers_colored [OF assms(1,2) assms(4) [unfolded assms(3)], folded assms(3)]
  let ?st = "fold (color_step d) ord ([], [])"
  have mem: "(b, c) \<in> set (fst ?st)" if "buffer_color d' b = Some c" for b c
    using that C(2) by (simp add: map_of_SomeD)
  have inv: "\<not> interferes d a b" if "(a, c) \<in> set (fst ?st)" "(b, c) \<in> set (fst ?st)" "a \<noteq> b" for a b c
    using C(1) that unfolding color_inv_def by blast
  have "buffer_color d' b \<noteq> None \<longleftrightarrow> b \<in> set ord" for b
    using C(2,4) by (metis map_of_eq_None_iff set_map)
  moreover have "c < length (color_region_sizes d') \<and> b_size (buf d b) \<le> color_region_sizes d' ! c"
    if "buffer_color d' b = Some c" for b c
    using C(1) mem [OF that] unfolding color_inv_def C(3) by blast
  moreover have "dies d a < born d b \<or> dies d b < born d a"
    if "buffer_color d' a = Some c" "buffer_color d' b = Some c" "a \<noteq> b" for a b c
    using inv [OF mem [OF that(1)] mem [OF that(2)] that(3)] that(3) unfolding interferes_def by linarith
  ultimately show ?thesis by blast
qed

text \<open>
  C26. In a colored graph without fused groups, whose levels increase along every dependency, no node ever writes over data a later
  node still reads.  When the
  output \<open>out\<close> of node \<open>i\<close> shares its region with another buffer \<open>b\<close>, then either every consumer of \<open>b\<close> is at
  a lower level than \<open>i\<close>, so it has run before, or \<open>b\<close> itself is only produced at a higher level.  A
  buffer without consumers, which the caller reads after the run, shares only with buffers whose
  producers run earlier.
\<close>

theorem coloring_no_clobber:
  assumes "distinct ord" "\<not> coloring_applied d" "d' = colorBuffers ord d" "coloring_applied d'"
    and "dag_wf d" "fused_groups d = []" "i < length (nodes d)" "out \<in> set (output_buffer_ids (node d i))"
    and "\<forall>j<length (nodes d). 0 \<le> n_level (node d j) \<and> n_level (node d j) \<le> max_level d"
    and "\<forall>(q, k)\<in>depends_on d. n_level (node d q) < n_level (node d k)"
    and "buffer_color d' out = Some c" "buffer_color d' b = Some c" "out \<noteq> b" "producer_stage_id (buf d b) = int p"
  shows "(consumer_stage_ids (buf d b) \<noteq> [] \<and> (\<forall>k\<in>set (consumer_stage_ids (buf d b)). n_level (node d k) < n_level (node d i))) \<or>
    n_level (node d i) < n_level (node d p)"
proof -
  have wo: "wf_outputs d" using assms(5) by (simp add: dag_wf_def)
  have lv: "fused_level_of d j = n_level (node d j)" for j using assms(6) by (simp add: fused_level_of_def)
  have po: "producer_stage_id (buf d out) = int i" using wf_outputsD(3) [OF wo assms(7)] assms(8) by simp
  then have bo: "born d out = n_level (node d i)" by (simp add: born_def lv)
  have bb: "born d b = n_level (node d p)" using assms(14) by (simp add: born_def lv)
  note C = colorBuffers_colored [OF assms(1,2) assms(4) [unfolded assms(3)], folded assms(3)]
  have "(out, c) \<in> set (fst (fold (color_step d) ord ([], [])))" "(b, c) \<in> set (fst (fold (color_step d) ord ([], [])))"
    using assms(11,12) C(2) by (simp_all add: map_of_SomeD)
  then have "\<not> interferes d out b" using C(1) assms(13) unfolding color_inv_def by blast
  then have dj: "dies d out < born d b \<or> dies d b < born d out" using assms(13) by (auto simp: interferes_def)
  have cl: "n_level (node d k) \<le> dies d e" if "k \<in> set (consumer_stage_ids (buf d e))" for k e
    using that foldl_max_props(2) [OF that, of "fused_level_of d" 0] by (auto simp: dies_def lv Let_def)
  have top: "dies d e = max_level d" if "consumer_stage_ids (buf d e) = []" for e using that by (simp add: dies_def)
  have od: "born d out \<le> dies d out"
  proof (cases "consumer_stage_ids (buf d out) = []")
    case True
    then show ?thesis using assms(7,9) bo top by simp
  next
    case False
    then obtain k where k: "k \<in> set (consumer_stage_ids (buf d out))" by fastforce
    have wi: "wf_inputs d" using assms(5) by (simp add: dag_wf_def)
    have "i \<in> set (dependencies (node d k))" "k < length (nodes d)"
      using wf_inputsD(3,1) [OF wi k] po by auto
    then have "n_level (node d i) < n_level (node d k)" using assms(10) by (auto simp: depends_on_def)
    with cl [OF k] bo show ?thesis by simp
  qed
  from dj show ?thesis
  proof
    assume "dies d out < born d b"
    with od bo bb show ?thesis by simp
  next
    assume less: "dies d b < born d out"
    have "consumer_stage_ids (buf d b) \<noteq> []"
    proof
      assume "consumer_stage_ids (buf d b) = []"
      from top [OF this] less bo assms(9) [rule_format, OF assms(7)] show False by linarith
    qed
    with less bo cl [of _ b] show ?thesis by fastforce
  qed
qed

subsection \<open>Preallocated regions\<close>

lemma alloc_regions_alloc_all:
  "alloc_regions env szs pl = alloc_all (\<lambda>(n, tag, pers). pool_allocate (se_driver env) (se_scale env) n tag pers) (map (\<lambda>sz. (sz, [], False)) szs) pl"
proof (induction szs arbitrary: pl)
  case (Cons sz szs)
  have "(if 0 < sz then pool_allocate (se_driver env) (se_scale env) sz [] False pl else (0, pl)) =
      pool_allocate (se_driver env) (se_scale env) sz [] False pl"
    by (simp add: pool_allocate_def word_gt_0)
  then show ?case using Cons by (simp add: Let_def split: prod.splits)
qed simp

lemma length_alloc_regions: "length (fst (alloc_regions env szs pl)) = length szs"
  by (induction szs arbitrary: pl) (simp_all add: Let_def case_prod_unfold)

lemma assign_region_frame [simp]:
  "buffer_color (assign_region b d) = buffer_color d" "color_region_ptrs (assign_region b d) = color_region_ptrs d"
  "color_region_sizes (assign_region b d) = color_region_sizes d"
  by (simp_all add: assign_region_def upd_buf_def split: option.splits)

lemma fold_assign_region:
  assumes "distinct bs" "b \<in> set bs" "\<not> is_external (buf d b)" "buffer_color d b = Some c"
  shows "d_ptr (buf (fold assign_region bs d) b) = color_region_ptrs d ! c \<and>
    is_allocated (buf (fold assign_region bs d) b) \<and> allocated_size (buf (fold assign_region bs d) b) = color_region_sizes d ! c"
  using assms
proof (induction bs arbitrary: d)
  case (Cons a bs)
  have other: "buf (assign_region a d) e = buf d e" if "e \<noteq> a" for a e and d :: dag
    using that by (simp add: assign_region_def split: option.splits)
  have keep: "buf (fold assign_region es d) b = buf d b" if "b \<notin> set es" for es and d :: dag
    using that by (induction es arbitrary: d) (simp_all add: other)
  show ?case
  proof (cases "a = b")
    case True
    then have "buf (fold assign_region (a # bs) d) b = buf (assign_region b d) b" using keep Cons.prems(1) by simp
    moreover have "buf (assign_region b d) b = (buf d b)\<lparr>d_ptr := color_region_ptrs d ! c, is_allocated := True, allocated_size := color_region_sizes d ! c\<rparr>"
      using Cons.prems(3,4) by (simp add: assign_region_def)
    ultimately show ?thesis by simp
  next
    case False
    then have "b \<in> set bs" "distinct bs" "buf (assign_region a d) b = buf d b" using Cons.prems other by auto
    with Cons.IH [of "assign_region a d"] Cons.prems(3,4) show ?thesis by simp
  qed
qed simp

lemma colorBuffers_frame:
  "buf (colorBuffers ord d) b = buf d b" "buffer_table (colorBuffers ord d) = buffer_table d" "strategy (colorBuffers ord d) = strategy d"
  by (simp_all add: colorBuffers_def buf_def buffers_def Let_def split: prod.splits)

text \<open>
  After a colored preallocation every colorable buffer points to its region with the
  region's capacity, which is at least the buffer's size; regions whose allocation succeeded
  have pairwise different pointers that were not live before.  The allocation results are not
  checked: \<open>preallocateBuffers\<close> succeeds even when the pool refuses a region, and the buffers of that
  region are then marked as allocated with a null pointer.
\<close>

theorem preallocated_regions:
  assumes "strategy (x_dag x) = PREALLOCATE" "\<not> coloring_disabled (x_dag x)" "\<not> coloring_applied (x_dag x)"
    and "distinct ord" "set ord \<subseteq> set (colorable (x_dag x))" "wf_dom (x_dag x)" "pool_wf (x_pool x)" "env_ok env"
    and "coloring_applied (colorBuffers ord (x_dag x))"
  shows "\<exists>y ptrs. preallocateBuffers env ord x = Inr y \<and>
    ptrs = fst (alloc_regions env (color_region_sizes (colorBuffers ord (x_dag x))) (x_pool x)) \<and>
    distinct (filter (\<lambda>q. q \<noteq> 0) ptrs) \<and> (set ptrs - {0}) \<inter> tracked (x_pool x) = {} \<and>
    tracked (x_pool y) = tracked (x_pool x) \<union> (set ptrs - {0}) \<and>
    (\<forall>b c. buffer_color (colorBuffers ord (x_dag x)) b = Some c \<longrightarrow>
       c < length ptrs \<and> d_ptr (buf (x_dag y) b) = ptrs ! c \<and> is_allocated (buf (x_dag y) b) \<and>
       b_size (buf (x_dag x) b) \<le> allocated_size (buf (x_dag y) b))"
proof -
  let ?d = "colorBuffers ord (x_dag x)"
  obtain ptrs pl where al: "alloc_regions env (color_region_sizes ?d) (x_pool x) = (ptrs, pl)" by fastforce
  let ?d1 = "fold assign_region (map fst (buffer_table ?d)) (?d\<lparr>color_region_ptrs := ptrs\<rparr>)"
  let ?y = "x\<lparr>x_pool := pl, x_dag := charge (foldl (+) 0 (color_region_sizes ?d)) ?d1\<rparr>"
  have y: "preallocateBuffers env ord x = Inr ?y" using assms(1-3,9) al by (simp add: preallocateBuffers_def Let_def)
  have drv: "driver_ok (se_driver env)" using assms(8) by (simp add: env_ok_def)
  have live: "distinct (filter (\<lambda>q. q \<noteq> 0) ptrs) \<and> (set ptrs - {0}) \<inter> tracked (x_pool x) = {} \<and> tracked pl = tracked (x_pool x) \<union> (set ptrs - {0})"
    using mp.alloc_all_live [of "x_pool x" "se_driver env"] al assms(7) drv unfolding alloc_regions_alloc_all by blast
  have reg: "c < length ptrs \<and> d_ptr (buf ?d1 b) = ptrs ! c \<and> is_allocated (buf ?d1 b) \<and> b_size (buf (x_dag x) b) \<le> allocated_size (buf ?d1 b)"
    if b: "buffer_color ?d b = Some c" for b c
  proof -
    note C = colorBuffers_colored [OF assms(4,3,9)]
    have m: "(b, c) \<in> set (fst (fold (color_step (x_dag x)) ord ([], [])))" using b C(2) by (simp add: map_of_SomeD)
    then have sz: "c < length (color_region_sizes ?d)" "b_size (buf (x_dag x) b) \<le> color_region_sizes ?d ! c"
      using C(1) unfolding color_inv_def C(3) by blast+
    have "b \<in> set ord" using m C(4) by (metis fst_conv image_eqI set_map)
    then have "b \<in> set (colorable (x_dag x))" using assms(5) by blast
    then obtain r where r: "(b, r) \<in> set (buffer_table (x_dag x))" "\<not> is_external r" by (auto simp: colorable_def)
    have ds: "distinct (map fst (buffer_table (x_dag x)))" using assms(6) by (simp add: wf_dom_def)
    then have "buf (x_dag x) b = r" using r(1) by (simp add: buf_def buffers_def)
    then have ext: "\<not> is_external (buf (?d\<lparr>color_region_ptrs := ptrs\<rparr>) b)"
      using r(2) colorBuffers_frame(1) [of ord "x_dag x" b] by (simp add: buf_def buffers_def)
    have "b \<in> set (map fst (buffer_table ?d))" using r(1) by (force simp: colorBuffers_frame(2))
    from fold_assign_region [OF _ this ext, of c] b ds
    have "d_ptr (buf ?d1 b) = ptrs ! c \<and> is_allocated (buf ?d1 b) \<and> allocated_size (buf ?d1 b) = color_region_sizes ?d ! c"
      by (simp add: colorBuffers_frame(2))
    moreover have "length ptrs = length (color_region_sizes ?d)"
      using length_alloc_regions [of env "color_region_sizes ?d" "x_pool x"] al by simp
    ultimately show ?thesis using sz by simp
  qed
  show ?thesis using y al live reg by (intro exI [of _ ?y] exI [of _ ptrs]) simp
qed

subsection \<open>Coloring across streams\<close>

definition race_ops :: "build_op list" where
  "race_ops = [AddStage True True (Some 0) ''src'', AddStage True True (Some 1) ''a'', AddStage True True (Some 2) ''b'',
     AddStage True True (Some 3) ''c'', SetInputBuffer 0 64 ''input'', AddDependency 1 0 64 0, ConnectExistingOutput 0 2 0,
     AddDependency 3 1 64 0, SetOutputBuffer 2 64 ''out_b'', SetOutputBuffer 3 64 ''out_c'']"

definition race_dag :: dag where
  "race_dag = fst (dag_finalize [0, 1, 2, 3] (\<lambda>k. Some [1..<Suc k]) (build PREALLOCATE race_ops))"

lemma race_shape:
  "map dependencies (nodes race_dag) = [[], [0], [0], [1]]" "map n_stream (nodes race_dag) = [1, 1, 2, 1]"
  "map input_buffer_ids (nodes race_dag) = [[0], [1], [1], [2]]" "map output_buffer_ids (nodes race_dag) = [[1], [2], [3], [4]]"
  by code_simp+

lemma race_coloring:
  "coloring_applied (colorBuffers [1, 2, 3, 4] race_dag)" "buffer_color (colorBuffers [1, 2, 3, 4] race_dag) 1 = Some 0"
  "buffer_color (colorBuffers [1, 2, 3, 4] race_dag) 4 = Some 0" "set (colorable race_dag) = {1, 2, 3, 4}"
  "sorted (rev (map (\<lambda>b. dies race_dag b - born race_dag b) [1, 2, 3, 4]))"
  by code_simp+

text \<open>
  C38. The guard against aliases across streams looks at producers only.  In a graph of four
  stages, with the streams \<open>finalize\<close> assigns and the order the sort produces, buffer 1 and buffer 4
  share a region; stage 2 reads buffer 1 on one stream while stage 3, which neither depends on
  stage 2 nor precedes it, writes buffer 4 on another stream.
\<close>

theorem coloring_cross_stream_race:
  "coloring_applied (colorBuffers [1, 2, 3, 4] race_dag) \<and>
   buffer_color (colorBuffers [1, 2, 3, 4] race_dag) 1 = buffer_color (colorBuffers [1, 2, 3, 4] race_dag) 4 \<and>
   set (colorable race_dag) = {1, 2, 3, 4} \<and> sorted (rev (map (\<lambda>b. dies race_dag b - born race_dag b) [1, 2, 3, 4])) \<and>
   1 \<in> set (input_buffer_ids (node race_dag 2)) \<and> 4 \<in> set (output_buffer_ids (node race_dag 3)) \<and>
   n_stream (node race_dag 2) \<noteq> n_stream (node race_dag 3) \<and>
   (2, 3) \<notin> (depends_on race_dag)\<^sup>+ \<and> (3, 2) \<notin> (depends_on race_dag)\<^sup>+"
proof -
  have len: "length (nodes race_dag) = 4" using arg_cong [OF race_shape(1), of length] by simp
  have nth: "f (node race_dag i) = xs ! i" if "map f (nodes race_dag) = xs" "i < 4" for f :: "dag_node \<Rightarrow> 'a" and xs i
    using that len by auto
  have "\<forall>ds\<in>set (map dependencies (nodes race_dag)). set ds \<subseteq> {0, 1}" unfolding race_shape(1) by simp
  then have "set (dependencies (node race_dag k)) \<subseteq> {0, 1}" if "k < length (nodes race_dag)" for k
    using nth_mem [OF that] by auto
  then have no2: "(2, k) \<notin> depends_on race_dag" "(3, k) \<notin> depends_on race_dag" for k
    unfolding depends_on_def by fastforce+
  have "(2, 3) \<notin> (depends_on race_dag)\<^sup>+" "(3, 2) \<notin> (depends_on race_dag)\<^sup>+"
    using no2 by (meson tranclD)+
  moreover have "1 \<in> set (input_buffer_ids (node race_dag 2))" "4 \<in> set (output_buffer_ids (node race_dag 3))"
    "n_stream (node race_dag 2) \<noteq> n_stream (node race_dag 3)"
    by (simp_all add: nth [OF race_shape(2)] nth [OF race_shape(3)] nth [OF race_shape(4)])
  ultimately show ?thesis using race_coloring by simp
qed

subsection \<open>The theorems on the four-stage graph\<close>

lemma race_fin_ok: "snd (dag_finalize [0, 1, 2, 3] (\<lambda>k. Some [1..<Suc k]) (build PREALLOCATE race_ops)) = Inr ()"
  by code_simp

lemma race_wf: "dag_wf race_dag"
  unfolding race_dag_def by (rule finalize_exec_ready(1) [OF build_wf race_fin_ok refl])

lemma race_flags: "\<not> coloring_applied race_dag" "fused_groups race_dag = []" "strategy race_dag = PREALLOCATE"
  "\<not> coloring_disabled race_dag"
  by code_simp+

theorem coloring_sound_witness:
  "dies race_dag 1 < born race_dag 4 \<or> dies race_dag 4 < born race_dag 1"
proof -
  have "distinct [1, 2, 3, 4 :: int]" by simp
  from coloring_sound [OF this race_flags(1) refl race_coloring(1)]
  have "\<forall>a b c. buffer_color (colorBuffers [1, 2, 3, 4] race_dag) a = Some c \<longrightarrow>
      buffer_color (colorBuffers [1, 2, 3, 4] race_dag) b = Some c \<longrightarrow> a \<noteq> b \<longrightarrow> dies race_dag a < born race_dag b \<or> dies race_dag b < born race_dag a"
    by blast
  from this [rule_format, OF race_coloring(2,3)] show ?thesis by simp
qed

theorem coloring_no_clobber_witness:
  "consumer_stage_ids (buf race_dag 1) = [1, 2] \<and>
   (n_level (node race_dag 1) < n_level (node race_dag 3) \<and> n_level (node race_dag 2) < n_level (node race_dag 3) \<or> n_level (node race_dag 3) < n_level (node race_dag 0))"
proof -
  have ev: "map n_level (nodes race_dag) = [0, 1, 1, 2]" "max_level race_dag = 2" "consumer_stage_ids (buf race_dag 1) = [1, 2]"
    "producer_stage_id (buf race_dag 1) = int 0"
    "list_all (\<lambda>k. list_all (\<lambda>q. n_level (node race_dag q) < n_level (node race_dag k)) (dependencies (node race_dag k))) [0..<4]"
    by code_simp+
  have len: "length (nodes race_dag) = 4" using arg_cong [OF ev(1), of length] by simp
  have "\<forall>l\<in>set (map n_level (nodes race_dag)). 0 \<le> l \<and> l \<le> max_level race_dag" unfolding ev(1,2) by simp
  then have rng: "\<forall>j<length (nodes race_dag). 0 \<le> n_level (node race_dag j) \<and> n_level (node race_dag j) \<le> max_level race_dag" by simp
  have dep: "\<forall>(q, k)\<in>depends_on race_dag. n_level (node race_dag q) < n_level (node race_dag k)"
    using ev(5) len by (auto simp: depends_on_def list_all_iff)
  have "map output_buffer_ids (nodes race_dag) ! 3 = [4]" unfolding race_shape(4) by simp
  then have out: "4 \<in> set (output_buffer_ids (node race_dag 3))" using len by simp
  have i3: "3 < length (nodes race_dag)" using len by simp
  have ds: "distinct [1, 2, 3, 4 :: int]" "(4 :: int) \<noteq> 1" by simp_all
  from coloring_no_clobber [OF ds(1) race_flags(1) refl race_coloring(1) race_wf race_flags(2) i3 out rng dep race_coloring(3,2) ds(2) ev(4)]
  show ?thesis using ev(3) by auto
qed

theorem preallocated_regions_witness:
  "\<exists>y. preallocateBuffers demo_env [1, 2, 3, 4] \<lparr>x_dag = race_dag, x_pool = make_pool demo_config False True, x_mem = (\<lambda>_. 0), x_trace = []\<rparr> = Inr y \<and>
     d_ptr (buf (x_dag y) 1) = d_ptr (buf (x_dag y) 4)"
proof -
  let ?x = "\<lparr>x_dag = race_dag, x_pool = make_pool demo_config False True, x_mem = (\<lambda>_. 0), x_trace = []\<rparr>"
  have "wf_dom race_dag" using race_wf by (simp add: dag_wf_def)
  moreover have "distinct [1, 2, 3, 4 :: int]" "set [1, 2, 3, 4 :: int] \<subseteq> set (colorable race_dag)" using race_coloring(4) by simp_all
  ultimately show ?thesis
    using preallocated_regions [of ?x "[1, 2, 3, 4]" demo_env] race_flags race_coloring(1-3) demo_env_ok make_pool_wf
    by (simp del: set_simps) (metis option.inject)
qed

end
