(* ===== verification/Fzm_Format.thy ===== *)
theory Fzm_Format
  imports Prelude
begin

section \<open>The FZM container: constants, records and their byte images\<close>

text \<open>
  \<open>include/fzm_format.h\<close>.  The three header records are written to disk and read back verbatim, so each
  has a byte image: the fields in declaration order, little-endian, with the six bytes of tail padding
  of \<open>FZMBufferEntry\<close> as a field of their own.  \<open>StageType\<close> and \<open>DataType\<close> are the underlying integers,
  because a reader casts whatever the file holds.  The locale \<open>byte_codec\<close> is what reading and writing
  such a record relies on; it is interpreted on the three records.
\<close>

subsection \<open>Constants and enumerations\<close>

type_synonym stage_type = u16
type_synonym data_type = u8

definition FZM_MAGIC :: u32 where "FZM_MAGIC = 0x464D5A32"
definition FZM_VERSION_MAJOR :: u8 where "FZM_VERSION_MAJOR = 3"
definition FZM_VERSION_MINOR :: u8 where "FZM_VERSION_MINOR = 1"

definition FZM_VERSION :: u16 where
  "FZM_VERSION = push_bit 8 (ucast FZM_VERSION_MAJOR) OR ucast FZM_VERSION_MINOR"

definition FZM_LEGACY_HEADER_CORE_SIZE :: nat where "FZM_LEGACY_HEADER_CORE_SIZE = 72"
definition FZM_FLAG_HAS_DATA_CHECKSUM :: u16 where "FZM_FLAG_HAS_DATA_CHECKSUM = 1"
definition FZM_FLAG_HAS_HEADER_CHECKSUM :: u16 where "FZM_FLAG_HAS_HEADER_CHECKSUM = 2"

definition fzmVersionMajor :: "u16 \<Rightarrow> u8" where
  "fzmVersionMajor v = (if v \<le> 0xFF then ucast v else ucast (drop_bit 8 v))"

definition fzmVersionMinor :: "u16 \<Rightarrow> u8" where
  "fzmVersionMinor v = (if v \<le> 0xFF then 0 else ucast (v AND 0xFF))"

definition FZM_MAX_BUFFERS :: nat where "FZM_MAX_BUFFERS = 32"
definition FZM_MAX_NAME_LEN :: nat where "FZM_MAX_NAME_LEN = 64"
definition FZM_STAGE_CONFIG_SIZE :: nat where "FZM_STAGE_CONFIG_SIZE = 128"
definition FZM_MAX_SOURCES :: nat where "FZM_MAX_SOURCES = 4"
definition FZM_STAGE_FLAG_PRIMARY_SOURCE :: u16 where "FZM_STAGE_FLAG_PRIMARY_SOURCE = 1"
definition FZM_MAX_STAGE_INPUTS :: nat where "FZM_MAX_STAGE_INPUTS = 8"
definition FZM_MAX_STAGE_OUTPUTS :: nat where "FZM_MAX_STAGE_OUTPUTS = 8"

lemmas fzm_consts = FZM_MAGIC_def FZM_VERSION_MAJOR_def FZM_VERSION_MINOR_def
  FZM_LEGACY_HEADER_CORE_SIZE_def FZM_MAX_BUFFERS_def FZM_MAX_NAME_LEN_def FZM_STAGE_CONFIG_SIZE_def
  FZM_MAX_SOURCES_def FZM_MAX_STAGE_INPUTS_def FZM_MAX_STAGE_OUTPUTS_def

text \<open>\<open>enum class StageType\<close> with the names of \<open>stageTypeToString\<close>; an empty name marks an enumerator
  the switch of \<open>stageTypeToString\<close> does not list.\<close>

definition StageType :: "(stage_type \<times> string) list" where
  "StageType = [(0, ''''), (1, ''LorenzoQuant''), (2, ''Difference''), (3, ''Scale''), (4, ''PassThrough''),
     (5, ''RLE''), (6, ''Huffman''), (7, ''BitPack''), (10, ''Split''), (11, ''Merge''), (12, ''Lorenzo''),
     (14, ''Quantizer''), (15, ''Zigzag''), (16, ''Negabinary''), (17, ''Bitshuffle''), (18, ''RZE''),
     (20, ''ANS''), (19, ''ADM''), (22, ''GInterp''), (23, ''BitplaneRZE''), (24, ''AdaptiveBitpack''),
     (25, ''TiledLorenzo''), (26, ''RRE''), (27, ''RARE''), (28, ''RAZE''), (29, ''CLOG''), (30, ''HCLOG''),
     (31, ''TUPL''), (32, ''GPULZ''), (33, ''LogTransform''), (34, ''AdaptiveLorenzo''), (35, ''ROIBinSplit''),
     (36, ''SZx''), (37, ''SZp''), (39, ''CDF97''), (40, ''SPECK2D''), (41, ''Cdf97OutlierCorrect''),
     (42, ''GolombRice''), (43, ''FusedQuantAdaptiveLorenzo'')]"

definition stageTypeToString :: "stage_type \<Rightarrow> string" where
  "stageTypeToString t = (case map_of StageType t of None \<Rightarrow> ''Unknown'' | Some n \<Rightarrow> if n = [] then ''Unknown'' else n)"

text \<open>\<open>enum class DataType\<close>.\<close>

definition DT_INT32 :: data_type where "DT_INT32 = 6"
definition DT_FLOAT32 :: data_type where "DT_FLOAT32 = 8"
definition DT_UNKNOWN :: data_type where "DT_UNKNOWN = 0xFF"

definition getDataTypeSize :: "data_type \<Rightarrow> size_t res" where
  "getDataTypeSize t =
     (if t = 0 \<or> t = 4 then Inr 1
      else if t = 1 \<or> t = 5 then Inr 2
      else if t = 2 \<or> t = 6 \<or> t = 8 then Inr 4
      else if t = 3 \<or> t = 7 \<or> t = 9 then Inr 8
      else Inl (RuntimeError ''Unknown data type''))"

definition dataTypeToString :: "data_type \<Rightarrow> string" where
  "dataTypeToString t =
     (if unat t < 10 then [''uint8'', ''uint16'', ''uint32'', ''uint64'', ''int8'', ''int16'', ''int32'', ''int64'',
        ''float32'', ''float64''] ! unat t
      else ''unknown'')"

subsection \<open>Header records\<close>

record fzm_stage_info =
  si_stage_type :: stage_type
  si_stage_version :: u16
  si_num_inputs :: u8
  si_num_outputs :: u8
  si_stage_flags :: u16
  si_input_buffer_ids :: "u16 list"
  si_output_buffer_ids :: "u16 list"
  si_stage_config :: "u8 list"
  si_config_size :: u32
  si_reserved2 :: "u8 list"

definition FZMStageInfo :: fzm_stage_info where
  "FZMStageInfo = \<lparr>si_stage_type = 0, si_stage_version = 0, si_num_inputs = 0, si_num_outputs = 0, si_stage_flags = 0,
     si_input_buffer_ids = replicate 8 0xFFFF, si_output_buffer_ids = replicate 8 0xFFFF,
     si_stage_config = replicate 128 0, si_config_size = 0, si_reserved2 = replicate 84 0\<rparr>"

record fzm_buffer_entry =
  be_stage_type :: stage_type
  be_stage_version :: u16
  be_data_type :: data_type
  be_producer_output_idx :: u8
  be_dag_buffer_id :: u16
  be_name :: "u8 list"
  be_data_size :: u64
  be_allocated_size :: u64
  be_uncompressed_size :: u64
  be_byte_offset :: u64
  be_stage_config :: "u8 list"
  be_config_size :: u32
  be_reserved2 :: "u8 list"
  be_padding :: "u8 list"

definition FZMBufferEntry :: fzm_buffer_entry where
  "FZMBufferEntry = \<lparr>be_stage_type = 0, be_stage_version = 0, be_data_type = 0, be_producer_output_idx = 0,
     be_dag_buffer_id = 0xFFFF, be_name = replicate 64 0, be_data_size = 0, be_allocated_size = 0,
     be_uncompressed_size = 0, be_byte_offset = 0, be_stage_config = replicate 128 0, be_config_size = 0,
     be_reserved2 = replicate 14 0, be_padding = replicate 6 0\<rparr>"

record fzm_header_core =
  hc_magic :: u32
  hc_version :: u16
  hc_num_buffers :: u16
  hc_uncompressed_size :: u64
  hc_compressed_size :: u64
  hc_header_size :: u64
  hc_num_stages :: u32
  hc_num_sources :: u16
  hc_flags :: u16
  hc_source_uncompressed_sizes :: "u64 list"
  hc_data_checksum :: u32
  hc_header_checksum :: u32

definition FZMHeaderCore :: fzm_header_core where
  "FZMHeaderCore = \<lparr>hc_magic = FZM_MAGIC, hc_version = FZM_VERSION, hc_num_buffers = 0, hc_uncompressed_size = 0,
     hc_compressed_size = 0, hc_header_size = 80, hc_num_stages = 0, hc_num_sources = 0, hc_flags = 0,
     hc_source_uncompressed_sizes = replicate 4 0, hc_data_checksum = 0, hc_header_checksum = 0\<rparr>"

definition computeHeaderSize :: "fzm_header_core \<Rightarrow> u64" where
  "computeHeaderSize c = 80 + ucast (hc_num_stages c) * 256 + ucast (hc_num_buffers c) * 256"

subsection \<open>Byte images\<close>

text \<open>Writing a field appends its image; reading one consumes it from the front.\<close>

definition put :: "nat \<Rightarrow> 'a::len word \<Rightarrow> u8 list" where
  "put n w = le_bytes n (unat w)"

definition get :: "nat \<Rightarrow> u8 list \<Rightarrow> 'a::len word \<times> u8 list" where
  "get n bs = (word_of_nat (le_val (take n bs)), drop n bs)"

definition get_bytes :: "nat \<Rightarrow> u8 list \<Rightarrow> u8 list \<times> u8 list" where
  "get_bytes n bs = (take n bs, drop n bs)"

definition put_all :: "nat \<Rightarrow> 'a::len word list \<Rightarrow> u8 list" where
  "put_all n ws = concat (map (put n) ws)"

fun get_all :: "nat \<Rightarrow> nat \<Rightarrow> u8 list \<Rightarrow> 'a::len word list \<times> u8 list" where
  "get_all 0 n bs = ([], bs)"
| "get_all (Suc k) n bs = (let (w, bs) = get n bs; (ws, bs) = get_all k n bs in (w # ws, bs))"

definition enc_stage :: "fzm_stage_info \<Rightarrow> u8 list" where
  "enc_stage s = put 2 (si_stage_type s) @ put 2 (si_stage_version s) @ put 1 (si_num_inputs s) @ put 1 (si_num_outputs s) @
     put 2 (si_stage_flags s) @ put_all 2 (si_input_buffer_ids s) @ put_all 2 (si_output_buffer_ids s) @
     si_stage_config s @ put 4 (si_config_size s) @ si_reserved2 s"

definition dec_stage :: "u8 list \<Rightarrow> fzm_stage_info" where
  "dec_stage bs =
     (let (t, bs) = get 2 bs; (v, bs) = get 2 bs; (ni, bs) = get 1 bs; (no, bs) = get 1 bs; (fl, bs) = get 2 bs;
          (ins, bs) = get_all 8 2 bs; (outs, bs) = get_all 8 2 bs; (cfg, bs) = get_bytes 128 bs;
          (cs, bs) = get 4 bs; (r, bs) = get_bytes 84 bs
      in \<lparr>si_stage_type = t, si_stage_version = v, si_num_inputs = ni, si_num_outputs = no, si_stage_flags = fl,
          si_input_buffer_ids = ins, si_output_buffer_ids = outs, si_stage_config = cfg, si_config_size = cs,
          si_reserved2 = r\<rparr>)"

definition enc_buffer :: "fzm_buffer_entry \<Rightarrow> u8 list" where
  "enc_buffer b = put 2 (be_stage_type b) @ put 2 (be_stage_version b) @ put 1 (be_data_type b) @
     put 1 (be_producer_output_idx b) @ put 2 (be_dag_buffer_id b) @ be_name b @ put 8 (be_data_size b) @
     put 8 (be_allocated_size b) @ put 8 (be_uncompressed_size b) @ put 8 (be_byte_offset b) @
     be_stage_config b @ put 4 (be_config_size b) @ be_reserved2 b @ be_padding b"

definition dec_buffer :: "u8 list \<Rightarrow> fzm_buffer_entry" where
  "dec_buffer bs =
     (let (t, bs) = get 2 bs; (v, bs) = get 2 bs; (dt, bs) = get 1 bs; (po, bs) = get 1 bs; (id, bs) = get 2 bs;
          (nm, bs) = get_bytes 64 bs; (ds, bs) = get 8 bs; (as, bs) = get 8 bs; (us, bs) = get 8 bs; (off, bs) = get 8 bs;
          (cfg, bs) = get_bytes 128 bs; (cs, bs) = get 4 bs; (r, bs) = get_bytes 14 bs; (p, bs) = get_bytes 6 bs
      in \<lparr>be_stage_type = t, be_stage_version = v, be_data_type = dt, be_producer_output_idx = po, be_dag_buffer_id = id,
          be_name = nm, be_data_size = ds, be_allocated_size = as, be_uncompressed_size = us, be_byte_offset = off,
          be_stage_config = cfg, be_config_size = cs, be_reserved2 = r, be_padding = p\<rparr>)"

definition enc_core :: "fzm_header_core \<Rightarrow> u8 list" where
  "enc_core c = put 4 (hc_magic c) @ put 2 (hc_version c) @ put 2 (hc_num_buffers c) @ put 8 (hc_uncompressed_size c) @
     put 8 (hc_compressed_size c) @ put 8 (hc_header_size c) @ put 4 (hc_num_stages c) @ put 2 (hc_num_sources c) @
     put 2 (hc_flags c) @ put_all 8 (hc_source_uncompressed_sizes c) @ put 4 (hc_data_checksum c) @ put 4 (hc_header_checksum c)"

definition dec_core :: "u8 list \<Rightarrow> fzm_header_core" where
  "dec_core bs =
     (let (m, bs) = get 4 bs; (v, bs) = get 2 bs; (nb, bs) = get 2 bs; (us, bs) = get 8 bs; (cs, bs) = get 8 bs;
          (hs, bs) = get 8 bs; (ns, bs) = get 4 bs; (src, bs) = get 2 bs; (fl, bs) = get 2 bs;
          (ss, bs) = get_all 4 8 bs; (dc, bs) = get 4 bs; (hk, bs) = get 4 bs
      in \<lparr>hc_magic = m, hc_version = v, hc_num_buffers = nb, hc_uncompressed_size = us, hc_compressed_size = cs,
          hc_header_size = hs, hc_num_stages = ns, hc_num_sources = src, hc_flags = fl,
          hc_source_uncompressed_sizes = ss, hc_data_checksum = dc, hc_header_checksum = hk\<rparr>)"

text \<open>An array of records.\<close>

definition enc_array :: "('a \<Rightarrow> u8 list) \<Rightarrow> 'a list \<Rightarrow> u8 list" where
  "enc_array enc xs = concat (map enc xs)"

definition dec_array :: "(u8 list \<Rightarrow> 'a) \<Rightarrow> nat \<Rightarrow> nat \<Rightarrow> u8 list \<Rightarrow> 'a list" where
  "dec_array dec sz n bs = map (\<lambda>i. dec (drop (i * sz) bs)) [0..<n]"

lemma length_dec_array [simp]: "length (dec_array dec sz n bs) = n" by (simp add: dec_array_def)

lemma dec_array_Suc: "dec_array dec sz (Suc n) bs = dec bs # dec_array dec sz n (drop sz bs)"
  by (simp add: dec_array_def upt_conv_Cons map_Suc_upt [symmetric] add.commute del: upt_Suc)

definition wf_stage :: "fzm_stage_info \<Rightarrow> bool" where
  "wf_stage s \<longleftrightarrow> length (si_input_buffer_ids s) = 8 \<and> length (si_output_buffer_ids s) = 8 \<and>
     length (si_stage_config s) = 128 \<and> length (si_reserved2 s) = 84"

definition wf_buffer :: "fzm_buffer_entry \<Rightarrow> bool" where
  "wf_buffer b \<longleftrightarrow> length (be_name b) = 64 \<and> length (be_stage_config b) = 128 \<and> length (be_reserved2 b) = 14 \<and>
     length (be_padding b) = 6"

definition wf_core :: "fzm_header_core \<Rightarrow> bool" where
  "wf_core c \<longleftrightarrow> length (hc_source_uncompressed_sizes c) = 4"

subsection \<open>Reading back what was written\<close>

lemma length_put [simp]: "length (put n w) = n" by (simp add: put_def)

lemma length_put_all [simp]: "length (put_all n ws) = n * length ws"
  by (induction ws) (simp_all add: put_all_def)

lemma get_put [simp]:
  assumes "LENGTH('a) \<le> 8 * n"
  shows "get n (put n (w :: 'a::len word) @ bs) = (w, bs)"
proof -
  have "unat w < 2 ^ (8 * n)" by (rule less_le_trans [OF unat_less_pow]) (simp add: assms power_increasing)
  then have "unat w mod 256 ^ n = unat w" by (simp add: power_mult)
  then show ?thesis by (simp add: get_def put_def le_val_le_bytes)
qed

lemma get_put_end [simp]: "LENGTH('a) \<le> 8 * n \<Longrightarrow> get n (put n (w :: 'a::len word)) = (w, [])"
  using get_put [of n w "[]"] by simp

lemma get_bytes_append [simp]: "length xs = n \<Longrightarrow> get_bytes n (xs @ bs) = (xs, bs)"
  by (simp add: get_bytes_def)

lemma get_bytes_end [simp]: "length xs = n \<Longrightarrow> get_bytes n xs = (xs, [])"
  by (simp add: get_bytes_def)

lemma get_all_put_all [simp]:
  "LENGTH('a) \<le> 8 * n \<Longrightarrow> length ws = k \<Longrightarrow> get_all k n (put_all n (ws :: 'a::len word list) @ bs) = (ws, bs)"
  by (induction ws arbitrary: k) (auto simp: put_all_def)

lemma put_get:
  assumes "n \<le> length bs" "8 * n = LENGTH('a)"
  shows "put n (fst (get n bs) :: 'a::len word) = take n bs"
proof -
  have "le_val (take n bs) < 2 ^ LENGTH('a)" using le_val_less [of "take n bs"] assms by (simp add: power_mult flip: assms(2))
  then have "unat (word_of_nat (le_val (take n bs)) :: 'a word) = le_val (take n bs)"
    by (simp add: unat_of_nat)
  moreover have "le_bytes (length (take n bs)) (le_val (take n bs)) = take n bs" by (rule le_bytes_le_val)
  ultimately show ?thesis using assms(1) by (simp add: put_def get_def)
qed

lemma put_all_get_all:
  "k * n \<le> length bs \<Longrightarrow> 8 * n = LENGTH('a) \<Longrightarrow>
   put_all n (fst (get_all k n bs) :: 'a::len word list) = take (k * n) bs \<and>
   length (fst (get_all k n bs) :: 'a word list) = k \<and> snd (get_all k n bs :: 'a word list \<times> u8 list) = drop (k * n) bs"
proof (induction k arbitrary: bs)
  case 0
  then show ?case by (simp add: put_all_def)
next
  case (Suc k)
  have n: "n \<le> length bs" "k * n \<le> length (drop n bs)" using Suc.prems(1) by auto
  show ?case using Suc.IH [OF n(2) Suc.prems(2)] put_get [OF n(1) Suc.prems(2)]
    by (auto simp: put_all_def get_def split_beta take_add add.commute)
qed


lemma snd_get [simp]: "snd (get n bs) = drop n bs" by (simp add: get_def)

lemma snd_get_all [simp]: "snd (get_all k n bs :: 'a::len word list \<times> u8 list) = drop (k * n) bs"
  by (induction k arbitrary: bs) (simp_all add: split_beta add.commute)

lemma get_bytes_simps [simp]: "fst (get_bytes n bs) = take n bs" "snd (get_bytes n bs) = drop n bs"
  by (simp_all add: get_bytes_def)

lemma take_join:
  "take n bs @ take m (drop n bs) @ r = take (n + m) bs @ r"
  "take n bs @ take m (drop n bs) = take (n + m) bs"
  by (simp_all add: take_add)

subsection \<open>The interface of a fixed-size record\<close>

locale byte_codec =
  fixes enc :: "'a \<Rightarrow> u8 list" and dec :: "u8 list \<Rightarrow> 'a" and sz :: nat and ok :: "'a \<Rightarrow> bool"
  assumes sz_pos: "0 < sz"
    and length_enc: "ok x \<Longrightarrow> length (enc x) = sz"
    and dec_enc: "ok x \<Longrightarrow> dec (enc x @ bs) = x"
    and ok_dec: "sz \<le> length bs \<Longrightarrow> ok (dec bs)"
    and enc_dec: "sz \<le> length bs \<Longrightarrow> enc (dec bs) = take sz bs"
begin

lemma length_enc_array: "list_all ok xs \<Longrightarrow> length (enc_array enc xs) = length xs * sz"
  by (induction xs) (simp_all add: enc_array_def length_enc)

lemma dec_array_enc: "list_all ok xs \<Longrightarrow> dec_array dec sz (length xs) (enc_array enc xs @ bs) = xs"
proof (induction xs)
  case Nil
  then show ?case by (simp add: dec_array_def)
next
  case (Cons x xs)
  then show ?case by (simp add: dec_array_Suc enc_array_def dec_enc length_enc)
qed

lemma enc_dec_array:
  "n * sz \<le> length bs \<Longrightarrow> list_all ok (dec_array dec sz n bs) \<and> enc_array enc (dec_array dec sz n bs) = take (n * sz) bs"
proof (induction n arbitrary: bs)
  case 0
  then show ?case by (simp add: dec_array_def enc_array_def)
next
  case (Suc n)
  then have "n * sz \<le> length (drop sz bs)" "sz \<le> length bs" by auto
  with Suc.IH [of "drop sz bs"] show ?case
    by (simp add: dec_array_Suc enc_array_def ok_dec enc_dec take_add)
qed

end

lemmas codec_defs = split_beta Let_def

lemma dec_enc_stage: "wf_stage s \<Longrightarrow> dec_stage (enc_stage s @ bs) = s"
  by (simp add: dec_stage_def enc_stage_def wf_stage_def)

lemma dec_enc_buffer: "wf_buffer b \<Longrightarrow> dec_buffer (enc_buffer b @ bs) = b"
  by (simp add: dec_buffer_def enc_buffer_def wf_buffer_def)

lemma dec_enc_core: "wf_core c \<Longrightarrow> dec_core (enc_core c @ bs) = c"
  by (simp add: dec_core_def enc_core_def wf_core_def)

lemma enc_dec_stage: "256 \<le> length bs \<Longrightarrow> wf_stage (dec_stage bs) \<and> enc_stage (dec_stage bs) = take 256 bs"
  using put_all_get_all [where ?'a = 16 and k = 8 and n = 2]
  by (simp add: dec_stage_def enc_stage_def wf_stage_def codec_defs put_get take_join del: One_nat_def)

lemma enc_dec_buffer: "256 \<le> length bs \<Longrightarrow> wf_buffer (dec_buffer bs) \<and> enc_buffer (dec_buffer bs) = take 256 bs"
  by (simp add: dec_buffer_def enc_buffer_def wf_buffer_def codec_defs put_get take_join del: One_nat_def)

lemma enc_dec_core: "80 \<le> length bs \<Longrightarrow> wf_core (dec_core bs) \<and> enc_core (dec_core bs) = take 80 bs"
  using put_all_get_all [where ?'a = 64 and k = 4 and n = 8]
  by (simp add: dec_core_def enc_core_def wf_core_def codec_defs put_get take_join del: One_nat_def)

interpretation stage_codec: byte_codec enc_stage dec_stage 256 wf_stage
  by unfold_locales (auto simp: dec_enc_stage enc_dec_stage, simp add: enc_stage_def wf_stage_def)

interpretation buffer_codec: byte_codec enc_buffer dec_buffer 256 wf_buffer
  by unfold_locales (auto simp: dec_enc_buffer enc_dec_buffer, simp add: enc_buffer_def wf_buffer_def)

interpretation core_codec: byte_codec enc_core dec_core 80 wf_core
  by unfold_locales (auto simp: dec_enc_core enc_dec_core, simp add: enc_core_def wf_core_def)

end
