(* ===== verification/Crc32.thy ===== *)
theory Crc32
  imports Prelude
begin

section \<open>The CRC-32 of the file format\<close>

text \<open>
  \<open>crc32Table\<close>, \<open>crc32Feed\<close> and \<open>crc32\<close> of \<open>src/pipeline/compressor_io.cpp\<close>.  The table-driven loop is shown to
  compute the bit-serial division it stands for, and the checksum to change under every change of up to
  four consecutive bytes, which is what makes a corrupted payload or header be refused.
\<close>

subsection \<open>The routine\<close>

definition crc_bit :: "u32 \<Rightarrow> u32" where
  "crc_bit c = (if c AND 1 \<noteq> 0 then 0xEDB88320 XOR drop_bit 1 c else drop_bit 1 c)"

definition crc32Table :: "u32 list" where
  "crc32Table = map (\<lambda>i. (crc_bit ^^ 8) (word_of_nat i)) [0..<256]"

definition crc32Feed :: "u32 \<Rightarrow> u8 list \<Rightarrow> u32" where
  "crc32Feed crc data = foldl (\<lambda>crc p. crc32Table ! unat ((crc XOR ucast p) AND 0xFF) XOR drop_bit 8 crc) crc data"

definition crc32 :: "u8 list \<Rightarrow> u32" where
  "crc32 data = crc32Feed 0xFFFFFFFF data XOR 0xFFFFFFFF"

lemma crc32Feed_append: "crc32Feed c (xs @ ys) = crc32Feed (crc32Feed c xs) ys"
  by (simp add: crc32Feed_def)

lemma word_xor_cancel [simp]:
  "(a :: u32) XOR c = b XOR c \<longleftrightarrow> a = b"
  "c XOR (a :: u32) = c XOR b \<longleftrightarrow> a = b"
  by (auto simp: bit_eq_iff bit_xor_iff)

subsection \<open>The bit-serial reference\<close>

text \<open>Shift the register right by one bit for every message bit, least significant bit of a byte first.\<close>

definition crc_serial :: "u32 \<Rightarrow> u8 list \<Rightarrow> u32" where
  "crc_serial crc data = foldl (\<lambda>crc p. (crc_bit ^^ 8) (crc XOR ucast p)) crc data"

lemma crc_bit_odd: "crc_bit c = (if bit c 0 then 0xEDB88320 XOR drop_bit 1 c else drop_bit 1 c)"
  by (simp add: crc_bit_def and_one_eq bit_0 odd_iff_mod_2_eq_one flip: mod_2_eq_odd)

lemma crc_bit_xor: "crc_bit (a XOR b) = crc_bit a XOR crc_bit b"
  by (simp add: crc_bit_odd bit_xor_iff xor.assoc xor.left_commute drop_bit_xor)

lemma crc_bits_xor: "(crc_bit ^^ n) (a XOR b) = (crc_bit ^^ n) a XOR (crc_bit ^^ n) b"
  by (induction n) (simp_all add: crc_bit_xor)

lemma crc_bits_low_zero: "(\<forall>i<n. \<not> bit c i) \<Longrightarrow> (crc_bit ^^ n) c = drop_bit n c"
proof (induction n)
  case 0
  then show ?case by simp
next
  case (Suc n)
  then have "\<not> bit (drop_bit n c) 0" by (simp add: bit_drop_bit_eq)
  with Suc show ?case by (simp add: crc_bit_odd drop_bit_drop_bit)
qed

lemma crc_bit_top: "bit (crc_bit c) 31 \<longleftrightarrow> bit c 0"
proof -
  have "\<not> bit (drop_bit 1 c) 31" using bit_imp_le_length [of c 32] by (auto simp: bit_drop_bit_eq)
  moreover have "bit (0xEDB88320 :: u32) 31" by code_simp
  ultimately show ?thesis by (simp add: crc_bit_odd bit_xor_iff)
qed

lemma crc_bit_inj: "crc_bit a = crc_bit b \<Longrightarrow> a = b"
proof -
  assume eq: "crc_bit a = crc_bit b"
  then have b0: "bit a 0 \<longleftrightarrow> bit b 0" by (metis crc_bit_top)
  with eq have "drop_bit 1 a = drop_bit 1 b" by (auto simp: crc_bit_odd split: if_splits)
  then have "bit a (Suc n) \<longleftrightarrow> bit b (Suc n)" for n by (metis bit_drop_bit_eq comp_apply plus_1_eq_Suc)
  with b0 have "bit a n \<longleftrightarrow> bit b n" for n by (cases n) auto
  then show "a = b" by (simp add: bit_eq_iff)
qed

lemma crc_bits_inj: "(crc_bit ^^ n) a = (crc_bit ^^ n) b \<longleftrightarrow> a = b"
  by (induction n) (auto dest: crc_bit_inj)

lemma crc_step:
  "crc32Table ! unat ((crc XOR ucast (p :: u8)) AND 0xFF) XOR drop_bit 8 crc = (crc_bit ^^ 8) (crc XOR ucast p)"
proof -
  let ?x = "crc XOR ucast p"
  have m: "(0xFF :: u32) = mask 8" by (simp add: mask_eq_exp_minus_1)
  have lt: "unat (?x AND 0xFF) < 256"
    using and_mask_less_size [of 8 ?x] by (simp add: m word_less_nat_alt word_size)
  have hi: "drop_bit 8 crc = drop_bit 8 (?x AND NOT (mask 8))"
    by (rule bit_word_eqI) (auto simp: bit_drop_bit_eq bit_xor_iff bit_and_iff bit_not_iff bit_mask_iff bit_unsigned_iff
        dest: bit_imp_le_length)
  have split: "?x = (?x AND mask 8) XOR (?x AND NOT (mask 8))"
    by (rule bit_word_eqI) (auto simp: bit_xor_iff bit_and_iff bit_not_iff)
  have "(crc_bit ^^ 8) (?x AND NOT (mask 8)) = drop_bit 8 (?x AND NOT (mask 8))"
    by (rule crc_bits_low_zero) (auto simp: bit_and_iff bit_not_iff bit_mask_iff)
  then have "(crc_bit ^^ 8) ?x = (crc_bit ^^ 8) (?x AND mask 8) XOR drop_bit 8 crc"
    by (subst split) (simp only: crc_bits_xor hi)
  then show ?thesis using lt by (simp add: crc32Table_def m)
qed

lemma crc32Feed_serial: "crc32Feed c data = crc_serial c data"
  by (simp add: crc32Feed_def crc_serial_def crc_step)

text \<open>
  C35. The table-driven checksum is the bit-serial CRC-32: for every byte sequence, the loop over
  the 256-entry table leaves the register that feeding the bits one at a time through the
  reflected polynomial 0xEDB88320 leaves, and the final value is its complement.
\<close>

theorem crc32_table_correct: "crc32 data = NOT (crc_serial 0xFFFFFFFF data)"
proof -
  have m: "(0xFFFFFFFF :: u32) = - 1" by simp
  show ?thesis unfolding crc32_def crc32Feed_serial unfolding m by (simp add: bit_eq_iff bit_xor_iff bit_not_iff bit_minus_1_iff)
qed

subsection \<open>Burst errors\<close>

text \<open>Up to four bytes as one little-endian word.\<close>

fun burst_word :: "u8 list \<Rightarrow> u32" where
  "burst_word [] = 0"
| "burst_word (b # bs) = ucast b XOR push_bit 8 (burst_word bs)"

lemma burst_word_high: "8 * length bs \<le> n \<Longrightarrow> \<not> bit (burst_word bs) n"
proof (induction bs arbitrary: n)
  case Nil
  then show ?case by simp
next
  case (Cons b bs)
  then show ?case by (auto simp: bit_xor_iff bit_push_bit_iff bit_unsigned_iff dest: bit_imp_le_length)
qed

lemma burst_word_inj:
  "length as = length bs \<Longrightarrow> length bs \<le> 4 \<Longrightarrow> burst_word as = burst_word bs \<Longrightarrow> as = bs"
proof (induction as bs rule: list_induct2)
  case Nil
  then show ?case by simp
next
  case (Cons a as b bs)
  have eq: "bit (ucast a XOR push_bit 8 (burst_word as) :: u32) n \<longleftrightarrow> bit (ucast b XOR push_bit 8 (burst_word bs) :: u32) n" for n
    using Cons.prems(2) by simp
  have "bit a n \<longleftrightarrow> bit b n" if "n < 8" for n
    using eq [of n] that by (simp add: bit_xor_iff bit_push_bit_iff bit_unsigned_iff)
  then have "a = b" by (intro bit_word_eqI) simp
  moreover have "bit (burst_word as) n \<longleftrightarrow> bit (burst_word bs) n" for n
  proof (cases "n < 24")
    case True
    then show ?thesis using eq [of "n + 8"]
      by (auto simp: bit_xor_iff bit_push_bit_iff bit_unsigned_iff dest: bit_imp_le_length)
  next
    case False
    then show ?thesis using Cons.prems(1) Cons.hyps burst_word_high [of as n] burst_word_high [of bs n] by simp
  qed
  then have "burst_word as = burst_word bs" by (simp add: bit_eq_iff)
  ultimately show ?case using Cons.IH Cons.prems(1) by simp
qed

lemma crc_serial_burst: "length bs \<le> 4 \<Longrightarrow> crc_serial c bs = (crc_bit ^^ (8 * length bs)) (c XOR burst_word bs)"
proof (induction bs arbitrary: c)
  case Nil
  then show ?case by (simp add: crc_serial_def)
next
  case (Cons b bs)
  have "(crc_bit ^^ 8) (push_bit 8 (burst_word bs)) = drop_bit 8 (push_bit 8 (burst_word bs))"
    by (rule crc_bits_low_zero) (simp add: bit_push_bit_iff)
  also have "\<dots> = burst_word bs"
  proof (rule bit_word_eqI)
    fix n
    show "bit (drop_bit 8 (push_bit 8 (burst_word bs))) n \<longleftrightarrow> bit (burst_word bs) n"
      using burst_word_high [of bs n] Cons.prems by (cases "n < 24") (auto simp: bit_drop_bit_eq bit_push_bit_iff)
  qed
  finally have shift: "(crc_bit ^^ 8) (push_bit 8 (burst_word bs)) = burst_word bs" .
  have "crc_serial c (b # bs) = (crc_bit ^^ (8 * length bs)) ((crc_bit ^^ 8) (c XOR ucast b) XOR burst_word bs)"
    using Cons by (simp add: crc_serial_def)
  also have "(crc_bit ^^ 8) (c XOR ucast b) XOR burst_word bs = (crc_bit ^^ 8) (c XOR burst_word (b # bs))"
    by (simp add: crc_bits_xor shift xor.assoc)
  finally show ?case using funpow_add [of "8 * length bs" 8 crc_bit] by (simp add: add.commute)
qed

lemma crc_serial_register: "crc_serial c bs = crc_serial c' bs \<longleftrightarrow> c = c'"
  by (induction bs arbitrary: c c') (auto simp: crc_serial_def crc_bits_inj)

lemma crc32Feed_register: "crc32Feed c bs = crc32Feed c' bs \<longleftrightarrow> c = c'"
  by (simp add: crc32Feed_serial crc_serial_register)

lemma crc32Feed_burst:
  assumes "length as = length bs" "length bs \<le> 4" "as \<noteq> bs"
  shows "crc32Feed c (pre @ as @ post) \<noteq> crc32Feed c (pre @ bs @ post)"
proof -
  have "crc_serial d as \<noteq> crc_serial d bs" for d
    using assms burst_word_inj [OF assms(1,2)] by (auto simp: crc_serial_burst crc_bits_inj)
  then show ?thesis by (simp add: crc32Feed_append crc32Feed_register) (simp add: crc32Feed_serial)
qed

text \<open>
  A burst is detected: replacing up to four consecutive bytes of a message by other bytes,
  anywhere, changes its checksum.
\<close>

theorem crc32_detects_bursts:
  assumes "length as = length bs" "length bs \<le> 4" "as \<noteq> bs"
  shows "crc32 (pre @ as @ post) \<noteq> crc32 (pre @ bs @ post)"
  using crc32Feed_burst [OF assms] by (simp add: crc32_def)

theorem crc32_detects_bursts_witness: "crc32 [1, 2, 3, 4, 5, 6, 7] \<noteq> crc32 [1, 2, 0xFF, 0, 5, 6, 7]"
  using crc32_detects_bursts [of "[3, 4]" "[0xFF, 0]" "[1, 2]" "[5, 6, 7]"] by simp

end
