(* ===== verification/Pipeline_State.thy ===== *)
theory Pipeline_State
  imports Dag_Coloring Concat_Layout Fzm_Format
begin

section \<open>The state of a pipeline\<close>

text \<open>
  The data members of \<open>Pipeline\<close> (\<open>include/pipeline/compressor.h\<close>) and what its methods ask of a
  stage.  A \<open>Stage*\<close> is a number; \<open>stage_api\<close> gives the values its virtual methods
  (\<open>include/stage/stage.h\<close>) return.  The stages are a parameter of the pipeline: which values they return
  is up to them, and the properties of this development name what they rely on.
  The graph, the pool and device memory are one \<open>exec_state\<close>.
\<close>

subsection \<open>Stages\<close>

record stage_api =
  getName :: "nat \<Rightarrow> string"
  getNumOutputs :: "nat \<Rightarrow> nat"
  getOutputNames :: "nat \<Rightarrow> string list"
  getRequiredInputAlignment :: "nat \<Rightarrow> size_t"
  estimateOutputSizes :: "nat \<Rightarrow> size_t list \<Rightarrow> size_t list"
  getActualOutputSizesByName :: "nat \<Rightarrow> string \<rightharpoonup> size_t"
  getStageTypeId :: "nat \<Rightarrow> u16"
  getOutputDataType :: "nat \<Rightarrow> nat \<Rightarrow> u8"
  getInputDataType :: "nat \<Rightarrow> nat \<Rightarrow> u8"
  serializeHeader :: "nat \<Rightarrow> nat \<Rightarrow> u8 list"
  isGraphCompatible :: "nat \<Rightarrow> bool"

text \<open>\<open>Stage::getOutputIndex\<close>: the first output of that name, or -1.\<close>

definition getOutputIndex :: "stage_api \<Rightarrow> nat \<Rightarrow> string \<Rightarrow> int" where
  "getOutputIndex api s name =
     (let names = getOutputNames api s; k = length (takeWhile (\<lambda>n. n \<noteq> name) names)
      in if k < length names then int k else - 1)"

text \<open>\<open>Stage::getActualOutputSize\<close>.\<close>

definition getActualOutputSize :: "stage_api \<Rightarrow> nat \<Rightarrow> int \<Rightarrow> size_t" where
  "getActualOutputSize api s k =
     (let names = getOutputNames api s in
      if k < 0 \<or> int (length names) \<le> k then 0
      else case getActualOutputSizesByName api s (names ! nat k) of None \<Rightarrow> 0 | Some n \<Rightarrow> n)"

subsection \<open>The pipeline\<close>

record connection_info =
  ci_dependent :: nat
  ci_producer :: nat
  ci_output_name :: string
  ci_output_index :: int

record buffer_metadata =
  bm_buffer_id :: int
  bm_actual_size :: size_t
  bm_allocated_size :: size_t
  bm_name :: string
  bm_producer :: nat
  bm_output_index :: int

record pipeline =
  p_x :: exec_state
  p_strategy :: memory_strategy
  p_stages :: "nat list"
  p_stage_to_node :: "nat \<rightharpoonup> nat"
  p_connections :: "connection_info list"
  p_num_streams :: int
  p_is_finalized :: bool
  p_pool_managed_decomp :: bool
  p_is_compressed :: bool
  p_was_compressed :: bool
  p_profiling_enabled :: bool
  p_coloring_enabled :: bool
  p_input_nodes :: "nat list"
  p_primary_source_stage :: "nat option"
  p_explicit_external_bindings :: "(nat \<times> int) list"
  p_output_nodes :: "nat list"
  p_input_buffer_ids :: "int list"
  p_output_buffer_ids :: "int list"
  p_needs_concat :: bool
  p_input_size :: size_t
  p_source_input_sizes :: "size_t list"
  p_input_alignment_bytes :: size_t
  p_pad_buf :: pool_buffer
  p_original_input_size :: size_t
  p_input_size_hint :: size_t
  p_buffer_metadata :: "buffer_metadata list"
  p_graph_mode_enabled :: bool
  p_graph_captured :: bool
  p_graph_input :: pool_buffer
  p_graph_input_size :: size_t

abbreviation p_dag :: "pipeline \<Rightarrow> dag" where
  "p_dag p \<equiv> x_dag (p_x p)"

abbreviation p_mem :: "pipeline \<Rightarrow> dev_mem" where
  "p_mem p \<equiv> x_mem (p_x p)"

text \<open>The stage of a node; every node a pipeline adds has one.\<close>

definition stage_of :: "dag \<Rightarrow> nat \<Rightarrow> nat" where
  "stage_of d i = the (n_stage (node d i))"

end
