(* ===== verification/Fzm_File.thy ===== *)
theory Fzm_File
  imports Pipeline_State Crc32
begin

section \<open>FZM files: writing, reading and refusing\<close>

text \<open>
  \<open>src/pipeline/compressor_io.cpp\<close>: \<open>buildHeader\<close>, \<open>writeToFile\<close>, \<open>readHeader\<close>, \<open>loadCompressedData\<close>, the in-memory
  header, and the header-side steps of \<open>decompressFromFile\<close>.  A file is its byte sequence.  Failures of
  \<open>malloc\<close>, of the CUDA copies and of opening a file, which only throw, are left out; a short
  read is an error as in the source.
\<close>

subsection \<open>Building the header\<close>

record file_header =
  fh_core :: fzm_header_core
  fh_stages :: "fzm_stage_info list"
  fh_buffers :: "fzm_buffer_entry list"

text \<open>Assigning the leading elements of a fixed-size array.\<close>

definition overlay :: "'a list \<Rightarrow> 'a list \<Rightarrow> 'a list" where
  "overlay xs arr = take (length arr) xs @ drop (length xs) arr"

definition computeHeaderChecksum :: "file_header \<Rightarrow> u32" where
  "computeHeaderChecksum fh =
     (let crc = crc32Feed 0xFFFFFFFF (enc_core (fh_core fh\<lparr>hc_header_checksum := 0\<rparr>));
          crc = crc32Feed crc (enc_array enc_stage (fh_stages fh));
          crc = crc32Feed crc (enc_array enc_buffer (fh_buffers fh))
      in crc XOR 0xFFFFFFFF)"

definition primary_stage :: "pipeline \<Rightarrow> nat option" where
  "primary_stage p =
     (case p_primary_source_stage p of
        Some s \<Rightarrow> Some s
      | None \<Rightarrow> (case p_input_nodes p of [] \<Rightarrow> None | i # _ \<Rightarrow> n_stage (node (p_dag p) i)))"

definition stage_entry :: "stage_api \<Rightarrow> pipeline \<Rightarrow> nat \<Rightarrow> fzm_stage_info" where
  "stage_entry api p i =
     (let n = node (p_dag p) i; s = stage_of (p_dag p) i;
          nout = word_of_nat (length (output_buffer_ids n)) :: u8;
          cfg = (if 0 < nout then serializeHeader api s 0 else [])
      in FZMStageInfo\<lparr>si_stage_type := getStageTypeId api s, si_stage_version := 1,
           si_num_inputs := word_of_nat (length (input_buffer_ids n)), si_num_outputs := nout,
           si_stage_flags := (if n_stage n = primary_stage p then 0 OR FZM_STAGE_FLAG_PRIMARY_SOURCE else 0),
           si_input_buffer_ids := overlay (map word_of_int (input_buffer_ids n)) (replicate 8 0xFFFF),
           si_output_buffer_ids := overlay (map word_of_int (output_buffer_ids n)) (replicate 8 0xFFFF),
           si_stage_config := overlay cfg (replicate 128 0),
           si_config_size := word_of_nat (length cfg)\<rparr>)"

text \<open>\<open>strncpy\<close> into the zeroed 64-byte name field, last byte forced to zero.\<close>

definition name_bytes :: "string \<Rightarrow> u8 list" where
  "name_bytes s = overlay (take 63 (takeWhile (\<lambda>b. b \<noteq> 0) (map of_char s))) (replicate 64 0)"

definition buffer_entry :: "stage_api \<Rightarrow> pipeline \<Rightarrow> buffer_metadata \<Rightarrow> u64 \<Rightarrow> fzm_buffer_entry" where
  "buffer_entry api p m byte_offset =
     (let s = stage_of (p_dag p) (bm_producer m); cfg = serializeHeader api s (nat (bm_output_index m))
      in FZMBufferEntry\<lparr>be_stage_type := getStageTypeId api s, be_stage_version := 1,
           be_data_type := getOutputDataType api s (nat (bm_output_index m)),
           be_producer_output_idx := word_of_int (bm_output_index m),
           be_dag_buffer_id := word_of_int (bm_buffer_id m),
           be_name := name_bytes (bm_name m),
           be_data_size := bm_actual_size m, be_allocated_size := bm_allocated_size m,
           be_uncompressed_size := bm_actual_size m, be_byte_offset := byte_offset,
           be_stage_config := overlay cfg (replicate 128 0),
           be_config_size := word_of_nat (length cfg)\<rparr>)"

fun buffer_entries :: "stage_api \<Rightarrow> pipeline \<Rightarrow> u64 \<Rightarrow> buffer_metadata list \<Rightarrow> fzm_buffer_entry list \<times> u64" where
  "buffer_entries api p off [] = ([], off)"
| "buffer_entries api p off (m # ms) =
     (let (es, end) = buffer_entries api p (off + align16 (bm_actual_size m)) ms
      in (buffer_entry api p m off # es, end))"

definition buildHeader :: "stage_api \<Rightarrow> pipeline \<Rightarrow> file_header res" where
  "buildHeader api p =
     (if \<not> p_is_finalized p then Inl (RuntimeError ''Cannot build header before finalization'')
      else if p_buffer_metadata p = [] then Inl (RuntimeError ''Cannot build header before compress() is called'')
      else
        let nsrc = min (length (p_input_nodes p)) FZM_MAX_SOURCES;
            ssz = map (\<lambda>i. if i < length (p_source_input_sizes p) then p_source_input_sizes p ! i else 0) [0..<nsrc];
            stages = map (stage_entry api p) (concat (levels (p_dag p)));
            (entries, total) = buffer_entries api p 0 (p_buffer_metadata p);
            core = FZMHeaderCore\<lparr>hc_uncompressed_size := p_input_size p, hc_num_sources := word_of_nat nsrc,
                     hc_source_uncompressed_sizes := overlay ssz (replicate 4 0),
                     hc_num_stages := word_of_nat (length stages),
                     hc_num_buffers := word_of_nat (length (p_buffer_metadata p)),
                     hc_compressed_size := total\<rparr>
        in Inr \<lparr>fh_core = core\<lparr>hc_header_size := computeHeaderSize core\<rparr>, fh_stages = stages, fh_buffers = entries\<rparr>)"

subsection \<open>Writing\<close>

text \<open>A copy into the zeroed host blob.\<close>

definition blit :: "u8 list \<Rightarrow> nat \<Rightarrow> u8 list \<Rightarrow> u8 list" where
  "blit h off bs = take off h @ bs @ drop (off + length bs) h"

fun gather_payload :: "pipeline \<Rightarrow> buffer_metadata list \<Rightarrow> size_t \<Rightarrow> u8 list \<Rightarrow> u8 list res" where
  "gather_payload p [] off h = Inr h"
| "gather_payload p (m # ms) off h =
     res_bind (getBuffer (bm_buffer_id m) (p_dag p)) (\<lambda>ptr.
       gather_payload p ms (off + align16 (bm_actual_size m))
         (blit h (unat off) (mem_read (p_mem p) ptr (unat (bm_actual_size m)))))"

definition header_bytes :: "file_header \<Rightarrow> u8 list" where
  "header_bytes fh = enc_core (fh_core fh) @ enc_array enc_stage (fh_stages fh) @ enc_array enc_buffer (fh_buffers fh)"

text \<open>Flags first, then the header checksum over the final core.\<close>

definition seal :: "u16 \<Rightarrow> file_header \<Rightarrow> file_header" where
  "seal flags fh =
     (let fh = fh\<lparr>fh_core := fh_core fh\<lparr>hc_flags := hc_flags (fh_core fh) OR flags\<rparr>\<rparr>
      in fh\<lparr>fh_core := fh_core fh\<lparr>hc_header_checksum := computeHeaderChecksum fh\<rparr>\<rparr>)"

definition writeToFile :: "stage_api \<Rightarrow> pipeline \<Rightarrow> u8 list res" where
  "writeToFile api p =
     (if \<not> p_is_finalized p then Inl (RuntimeError ''Cannot write to file before finalization'')
      else if \<not> p_is_compressed p then Inl (RuntimeError ''compress() must be called before writeToFile()'')
      else res_bind (buildHeader api p) (\<lambda>fh.
        res_bind (gather_payload p (p_buffer_metadata p) 0 (replicate (unat (hc_compressed_size (fh_core fh))) 0)) (\<lambda>data.
          let fh = fh\<lparr>fh_core := fh_core fh\<lparr>hc_data_checksum := crc32 data\<rparr>\<rparr>;
              fh = seal (FZM_FLAG_HAS_DATA_CHECKSUM OR FZM_FLAG_HAS_HEADER_CHECKSUM) fh
          in Inr (header_bytes fh @ data))))"

definition serializeHeaderToMemory :: "stage_api \<Rightarrow> pipeline \<Rightarrow> u8 list res" where
  "serializeHeaderToMemory api p =
     (if \<not> p_is_finalized p then Inl (RuntimeError ''Cannot serialize header before finalization'')
      else if \<not> p_is_compressed p then Inl (RuntimeError ''compress() must be called before serializeHeaderToMemory()'')
      else res_bind (buildHeader api p) (\<lambda>fh. Inr (header_bytes (seal FZM_FLAG_HAS_HEADER_CHECKSUM fh))))"

subsection \<open>Reading\<close>

text \<open>The core of a legacy file ends before the checksums, which keep their initial zeros.\<close>

definition read_core :: "bool \<Rightarrow> u8 list \<Rightarrow> fzm_header_core" where
  "read_core legacy bs =
     dec_core (if legacy then take FZM_LEGACY_HEADER_CORE_SIZE bs @ drop FZM_LEGACY_HEADER_CORE_SIZE (enc_core FZMHeaderCore)
               else bs)"

definition core_read_size :: "bool \<Rightarrow> nat" where
  "core_read_size legacy = (if legacy then FZM_LEGACY_HEADER_CORE_SIZE else 80)"

definition header_checksum_bad :: "bool \<Rightarrow> bool \<Rightarrow> file_header \<Rightarrow> bool" where
  "header_checksum_bad legacy exact fh \<longleftrightarrow>
     \<not> legacy \<and> exact \<and> hc_flags (fh_core fh) AND FZM_FLAG_HAS_HEADER_CHECKSUM \<noteq> 0 \<and>
     computeHeaderChecksum fh \<noteq> hc_header_checksum (fh_core fh)"

definition readHeader :: "u8 list \<Rightarrow> file_header res" where
  "readHeader file =
     (if length file < 6 then Inl (RuntimeError ''Failed to read header from file: '')
      else
        let magic = fst (get 4 file) :: u32; version = fst (get 2 (drop 4 file)) :: u16;
            major = fzmVersionMajor version; minor = fzmVersionMinor version;
            exact = (minor = FZM_VERSION_MINOR); legacy = (minor = 0); n = core_read_size legacy
        in if magic \<noteq> FZM_MAGIC then Inl (RuntimeError ''Invalid FZM file format (bad magic number)'')
           else if major \<noteq> FZM_VERSION_MAJOR then Inl (RuntimeError ''Incompatible FZM major version: file has major '')
           else if length file < n then Inl (RuntimeError ''Failed to read header from file: '')
           else
             let core = read_core legacy file; ns = unat (hc_num_stages core); nb = unat (hc_num_buffers core) in
             if FZM_MAX_BUFFERS < ns \<or> FZM_MAX_BUFFERS < nb then Inl (RuntimeError ''FZM header has too many stages/buffers'')
             else if length file < n + ns * 256 then Inl (RuntimeError ''Failed to read stage data from file: '')
             else if length file < n + ns * 256 + nb * 256 then Inl (RuntimeError ''Failed to read buffer data from file: '')
             else
               let fh = \<lparr>fh_core = core, fh_stages = dec_array dec_stage 256 ns (drop n file),
                          fh_buffers = dec_array dec_buffer 256 nb (drop (n + ns * 256) file)\<rparr> in
               if header_checksum_bad legacy exact fh then Inl (RuntimeError ''FZM header checksum mismatch in '')
               else Inr fh)"

definition parseHeaderFromMemory :: "bool \<Rightarrow> u8 list \<Rightarrow> file_header res" where
  "parseHeaderFromMemory null data =
     (if null then Inl (RuntimeError ''parseHeaderFromMemory: null buffer'')
      else if length data < 6 then Inl (RuntimeError ''parseHeaderFromMemory: buffer too small for magic/version'')
      else
        let magic = fst (get 4 data) :: u32; version = fst (get 2 (drop 4 data)) :: u16;
            major = fzmVersionMajor version; minor = fzmVersionMinor version;
            exact = (minor = FZM_VERSION_MINOR); legacy = (minor = 0); n = core_read_size legacy
        in if magic \<noteq> FZM_MAGIC then Inl (RuntimeError ''parseHeaderFromMemory: invalid FZM header (bad magic number)'')
           else if major \<noteq> FZM_VERSION_MAJOR then Inl (RuntimeError ''parseHeaderFromMemory: incompatible FZM major version '')
           else if length data < n then Inl (RuntimeError ''parseHeaderFromMemory: buffer truncated (core header)'')
           else
             let core = read_core legacy data; ns = unat (hc_num_stages core); nb = unat (hc_num_buffers core) in
             if FZM_MAX_BUFFERS < ns \<or> FZM_MAX_BUFFERS < nb
             then Inl (RuntimeError ''parseHeaderFromMemory: header has too many stages/buffers'')
             else if length data < n + ns * 256 + nb * 256
             then Inl (RuntimeError ''parseHeaderFromMemory: buffer truncated (stage/buffer arrays)'')
             else
               let fh = \<lparr>fh_core = core, fh_stages = dec_array dec_stage 256 ns (drop n data),
                          fh_buffers = dec_array dec_buffer 256 nb (drop (n + ns * 256) data)\<rparr> in
               if header_checksum_bad legacy exact fh
               then Inl (RuntimeError ''parseHeaderFromMemory: header checksum mismatch (corrupt buffer)'')
               else Inr fh)"

text \<open>The payload of a file, verified on the host, and its copy in pool memory.\<close>

definition read_payload :: "u8 list \<Rightarrow> file_header \<Rightarrow> u8 list res" where
  "read_payload file fh =
     (let core = fh_core fh; n = unat (hc_compressed_size core);
          data = take n (drop (unat (hc_header_size core)) file)
      in if length data < n then Inl (RuntimeError ''Failed to read compressed data from file: '')
         else if hc_flags core AND FZM_FLAG_HAS_DATA_CHECKSUM \<noteq> 0 \<and> crc32 data \<noteq> hc_data_checksum core
         then Inl (RuntimeError ''FZM data checksum mismatch in '')
         else Inr data)"

definition loadCompressedData ::
  "driver \<Rightarrow> (size_t \<Rightarrow> u32 \<Rightarrow> size_t) \<Rightarrow> u8 list \<Rightarrow> file_header \<Rightarrow> pool \<times> dev_mem \<Rightarrow> (dptr \<times> pool \<times> dev_mem) res" where
  "loadCompressedData drv scale file fh s =
     res_bind (read_payload file fh) (\<lambda>data.
       let (d, pl) = pool_allocate drv scale (hc_compressed_size (fh_core fh)) ''compressed_data_load'' False (fst s)
       in if d = 0 then Inl (RuntimeError ''Pool allocation failed for compressed data load ('')
          else Inr (d, pl, mem_write (snd s) d data))"

text \<open>\<open>half5\<close> is the truncation of 2.5 times a size through \<open>double\<close>.\<close>

definition computeFilePoolSize :: "(size_t \<Rightarrow> size_t) \<Rightarrow> file_header \<Rightarrow> size_t \<Rightarrow> size_t" where
  "computeFilePoolSize half5 fh override =
     (if 0 < override then override
      else hc_compressed_size (fh_core fh) +
           half5 (foldl (\<lambda>m b. max m (be_uncompressed_size b)) (hc_uncompressed_size (fh_core fh)) (fh_buffers fh)) +
           32 * 1024 * 1024)"

subsection \<open>The topology a header describes\<close>

record fwd_stage_desc =
  fd_stage :: nat
  fd_output_buf_ids :: "int list"
  fd_input_buf_ids :: "int list"

text \<open>The used slots of a port array; the stages are numbered in file order.\<close>

definition used_ports :: "u8 \<Rightarrow> u16 list \<Rightarrow> int list" where
  "used_ports n ids = map uint (filter (\<lambda>b. b \<noteq> 0xFFFF) (take (min (unat n) 8) ids))"

definition reconstructForwardTopology :: "file_header \<Rightarrow> fwd_stage_desc list" where
  "reconstructForwardTopology fh =
     map (\<lambda>i. let si = fh_stages fh ! i in
        \<lparr>fd_stage = i, fd_output_buf_ids = used_ports (si_num_outputs si) (si_output_buffer_ids si),
         fd_input_buf_ids = used_ports (si_num_inputs si) (si_input_buffer_ids si)\<rparr>)
       [0..<unat (hc_num_stages (fh_core fh))]"

fun source_sizes_from :: "file_header \<Rightarrow> int list \<Rightarrow> nat \<Rightarrow> fwd_stage_desc list \<Rightarrow> (nat \<times> size_t) list" where
  "source_sizes_from fh outs k [] = []"
| "source_sizes_from fh outs k (d # ds) =
     (if list_ex (\<lambda>b. b \<in> set outs) (fd_input_buf_ids d) then source_sizes_from fh outs k ds
      else (fd_stage d,
            if k < unat (hc_num_sources (fh_core fh)) \<and> 0 < hc_source_uncompressed_sizes (fh_core fh) ! k
            then hc_source_uncompressed_sizes (fh_core fh) ! k else hc_uncompressed_size (fh_core fh))
           # source_sizes_from fh outs (Suc k) ds)"

definition buildSourceSizesFromHeader :: "file_header \<Rightarrow> fwd_stage_desc list \<Rightarrow> (nat \<times> size_t) list" where
  "buildSourceSizesFromHeader fh topo =
     (case filter (\<lambda>i. si_stage_flags (fh_stages fh ! i) AND FZM_STAGE_FLAG_PRIMARY_SOURCE \<noteq> 0)
             [0..<min (unat (hc_num_stages (fh_core fh))) (length topo)] of
        i # _ \<Rightarrow> [(fd_stage (topo ! i), hc_uncompressed_size (fh_core fh))]
      | [] \<Rightarrow> source_sizes_from fh (concat (map fd_output_buf_ids topo)) 0 topo)"

text \<open>\<open>po_map\<close> of \<open>decompressFromFile\<close>; a later entry for the same buffer id wins.\<close>

definition file_output_map :: "dptr \<Rightarrow> file_header \<Rightarrow> int \<rightharpoonup> dptr \<times> size_t" where
  "file_output_map d fh =
     map_of (rev (map (\<lambda>e. (uint (be_dag_buffer_id e), d + unat (be_byte_offset e), be_data_size e)) (fh_buffers fh)))"

subsection \<open>What a header and a payload look like\<close>

lemma length_overlay [simp]: "length (overlay xs arr) = length arr"
  by (simp add: overlay_def)

lemma wf_stage_entry: "wf_stage (stage_entry api p i)"
  by (simp add: stage_entry_def wf_stage_def FZMStageInfo_def Let_def)

lemma wf_buffer_entry: "wf_buffer (buffer_entry api p m off)"
  by (simp add: buffer_entry_def wf_buffer_def FZMBufferEntry_def name_bytes_def Let_def)

text \<open>The sizes of the segments, and the limits below which no offset computation wraps.\<close>

abbreviation seg_sizes :: "pipeline \<Rightarrow> nat list" where
  "seg_sizes p \<equiv> map (\<lambda>m. unat (bm_actual_size m)) (p_buffer_metadata p)"

definition file_ok :: "pipeline \<Rightarrow> bool" where
  "file_ok p \<longleftrightarrow> length (concat (levels (p_dag p))) \<le> 32 \<and> length (p_buffer_metadata p) \<le> 32 \<and>
     list_all (\<lambda>n. n + 15 < 2 ^ 32) (seg_sizes p)"

lemma round16_sum_bound: "list_all (\<lambda>n. n + 15 < 2 ^ 32) ns \<Longrightarrow> sum_list (map round16 ns) \<le> 2 ^ 32 * length ns"
proof (induction ns)
  case Nil
  then show ?case by simp
next
  case (Cons n ns)
  then have "round16 n \<le> 2 ^ 32" using round16_bounds(2) [of n] by simp
  with Cons show ?case by simp
qed

lemma buffer_entries_spec:
  assumes "list_all (\<lambda>m. unat (bm_actual_size m) + 15 < 2 ^ 32) ms"
    and "unat off + sum_list (map (\<lambda>m. round16 (unat (bm_actual_size m))) ms) < 2 ^ 64"
  shows "fst (buffer_entries api p off ms) =
           map (\<lambda>(m, k). buffer_entry api p m (word_of_nat k)) (zip ms (slot_offs (unat off) (map (\<lambda>m. unat (bm_actual_size m)) ms))) \<and>
         unat (snd (buffer_entries api p off ms)) = unat off + sum_list (map (\<lambda>m. round16 (unat (bm_actual_size m))) ms)"
  using assms
proof (induction ms arbitrary: off)
  case Nil
  then show ?case by simp
next
  case (Cons m ms)
  have a: "unat (align16 (bm_actual_size m)) = round16 (unat (bm_actual_size m))" using Cons.prems(1) by (simp add: align16_small)
  have o: "unat (off + align16 (bm_actual_size m)) = unat off + round16 (unat (bm_actual_size m))"
    using Cons.prems(2) a by (subst unat_add_lem [THEN iffD1]) auto
  have "unat (off + align16 (bm_actual_size m)) + sum_list (map (\<lambda>m. round16 (unat (bm_actual_size m))) ms) < 2 ^ 64"
    using Cons.prems(2) o by simp
  from Cons.IH [OF _ this] Cons.prems(1) show ?case by (simp add: split_beta o add.assoc)
qed

text \<open>The payload is the concatenation of the padded segments.\<close>

definition segment_of :: "pipeline \<Rightarrow> buffer_metadata \<Rightarrow> u8 list" where
  "segment_of p m = mem_read (p_mem p) (d_ptr (buf (p_dag p) (bm_buffer_id m))) (unat (bm_actual_size m))"

definition payload_of :: "pipeline \<Rightarrow> u8 list" where
  "payload_of p = concat (map (\<lambda>m. pad16 (segment_of p m)) (p_buffer_metadata p))"

lemma length_segment_of [simp]: "length (segment_of p m) = unat (bm_actual_size m)"
  by (simp add: segment_of_def)

lemma length_payload_of: "length (payload_of p) = sum_list (map round16 (seg_sizes p))"
  by (simp add: payload_of_def length_concat comp_def)

lemma blit_zero:
  assumes "length bs \<le> n"
  shows "blit (pre @ replicate n 0) (length pre) bs = pre @ bs @ replicate (n - length bs) 0"
  using assms by (simp add: blit_def)

lemma gather_payload_spec:
  assumes "gather_payload p ms off (pre @ replicate (sum_list (map (\<lambda>m. round16 (unat (bm_actual_size m))) ms)) 0) = Inr h"
    and "unat off = length pre"
    and "list_all (\<lambda>m. unat (bm_actual_size m) + 15 < 2 ^ 32) ms"
    and "length pre + sum_list (map (\<lambda>m. round16 (unat (bm_actual_size m))) ms) < 2 ^ 64"
  shows "h = pre @ concat (map (\<lambda>m. pad16 (segment_of p m)) ms)"
  using assms
proof (induction ms arbitrary: off pre)
  case Nil
  then show ?case by simp
next
  case (Cons m ms)
  let ?n = "unat (bm_actual_size m)" and ?s = "sum_list (map (\<lambda>m. round16 (unat (bm_actual_size m))) ms)"
  from Cons.prems(1) obtain ptr where ptr: "getBuffer (bm_buffer_id m) (p_dag p) = Inr ptr"
    and g: "gather_payload p ms (off + align16 (bm_actual_size m))
       (blit (pre @ replicate (round16 ?n + ?s) 0) (unat off) (mem_read (p_mem p) ptr ?n)) = Inr h"
    by (auto simp: res_bind_eq_Inr)
  have seg: "mem_read (p_mem p) ptr ?n = segment_of p m"
    using ptr by (auto simp: getBuffer_def segment_of_def buf_def split: option.splits)
  have le: "?n \<le> round16 ?n + ?s" using round16_bounds(1) [of ?n] by simp
  have "blit (pre @ replicate (round16 ?n + ?s) 0) (unat off) (segment_of p m) = (pre @ pad16 (segment_of p m)) @ replicate ?s 0"
    unfolding Cons.prems(2) using blit_zero [of "segment_of p m" "round16 ?n + ?s" pre] round16_bounds(1) [of ?n] le
    by (simp add: pad16_def replicate_add [symmetric])
  with g seg have g': "gather_payload p ms (off + align16 (bm_actual_size m)) ((pre @ pad16 (segment_of p m)) @ replicate ?s 0) = Inr h"
    by simp
  have a: "unat (align16 (bm_actual_size m)) = round16 ?n" using Cons.prems(3) by (simp add: align16_small)
  have off: "unat (off + align16 (bm_actual_size m)) = length (pre @ pad16 (segment_of p m))"
    using Cons.prems(2,4) a by (subst unat_add_lem [THEN iffD1]) auto
  show ?case using Cons.IH [OF g' off] Cons.prems(3,4) by simp
qed

lemma buildHeader_cases:
  assumes "buildHeader api p = Inr fh" "file_ok p"
  shows "fh_stages fh = map (stage_entry api p) (concat (levels (p_dag p)))"
    and "fh_buffers fh = map (\<lambda>(m, k). buffer_entry api p m (word_of_nat k)) (zip (p_buffer_metadata p) (slot_offs 0 (seg_sizes p)))"
    and "unat (hc_compressed_size (fh_core fh)) = length (payload_of p)"
    and "unat (hc_num_stages (fh_core fh)) = length (fh_stages fh)" "unat (hc_num_buffers (fh_core fh)) = length (fh_buffers fh)"
    and "hc_magic (fh_core fh) = FZM_MAGIC" "hc_version (fh_core fh) = FZM_VERSION" "hc_flags (fh_core fh) = 0"
    and "wf_core (fh_core fh)" "list_all wf_stage (fh_stages fh)" "list_all wf_buffer (fh_buffers fh)"
    and "unat (hc_header_size (fh_core fh)) = 80 + 256 * length (fh_stages fh) + 256 * length (fh_buffers fh)"
    and "hc_uncompressed_size (fh_core fh) = p_input_size p"
    and "length (fh_stages fh) \<le> 32" "length (fh_buffers fh) \<le> 32" "length (fh_buffers fh) = length (p_buffer_metadata p)"
proof -
  let ?ms = "p_buffer_metadata p"
  have ok: "length (concat (levels (p_dag p))) \<le> 32" "length ?ms \<le> 32" "list_all (\<lambda>m. unat (bm_actual_size m) + 15 < 2 ^ 32) ?ms"
    using assms(2) by (auto simp: file_ok_def list_all_iff)
  have "sum_list (map (\<lambda>m. round16 (unat (bm_actual_size m))) ?ms) \<le> 2 ^ 32 * length ?ms"
    using round16_sum_bound [of "seg_sizes p"] ok(3) by (simp add: list_all_iff comp_def)
  then have "unat (0 :: u64) + sum_list (map (\<lambda>m. round16 (unat (bm_actual_size m))) ?ms) < 2 ^ 64" using ok(2) by simp
  note be = buffer_entries_spec [OF ok(3) this, of api p]
  obtain es tot where bes: "buffer_entries api p 0 ?ms = (es, tot)" by fastforce
  show st: "fh_stages fh = map (stage_entry api p) (concat (levels (p_dag p)))"
    using assms(1) by (auto simp: buildHeader_def Let_def split_beta split: if_splits)
  have core: "fh_core fh = FZMHeaderCore\<lparr>hc_uncompressed_size := p_input_size p,
      hc_num_sources := word_of_nat (min (length (p_input_nodes p)) FZM_MAX_SOURCES),
      hc_source_uncompressed_sizes := overlay (map (\<lambda>i. if i < length (p_source_input_sizes p) then p_source_input_sizes p ! i else 0)
         [0..<min (length (p_input_nodes p)) FZM_MAX_SOURCES]) (replicate 4 0),
      hc_num_stages := word_of_nat (length (concat (levels (p_dag p)))), hc_num_buffers := word_of_nat (length ?ms),
      hc_compressed_size := tot,
      hc_header_size := 80 + ucast (word_of_nat (length (concat (levels (p_dag p)))) :: u32) * 256 + ucast (word_of_nat (length ?ms) :: u16) * 256\<rparr>"
    and fb: "fh_buffers fh = es"
    using assms(1) bes by (auto simp: buildHeader_def computeHeaderSize_def Let_def split: if_splits)
  show fb': "fh_buffers fh = map (\<lambda>(m, k). buffer_entry api p m (word_of_nat k)) (zip ?ms (slot_offs 0 (seg_sizes p)))"
    using be bes fb by simp
  show "unat (hc_compressed_size (fh_core fh)) = length (payload_of p)"
    using be bes core by (simp add: length_payload_of comp_def)
  have lb: "length (fh_buffers fh) = length ?ms" using fb' by simp
  have ls: "length (fh_stages fh) = length (concat (levels (p_dag p)))" using st by simp
  have us: "unat (word_of_nat (length (concat (levels (p_dag p)))) :: u32) = length (fh_stages fh)"
    "unat (word_of_nat (length ?ms) :: u16) = length (fh_buffers fh)"
    using ok lb ls by (simp_all add: unat_of_nat)
  show "unat (hc_num_stages (fh_core fh)) = length (fh_stages fh)" "unat (hc_num_buffers (fh_core fh)) = length (fh_buffers fh)"
    using core us by simp_all
  show "unat (hc_header_size (fh_core fh)) = 80 + 256 * length (fh_stages fh) + 256 * length (fh_buffers fh)"
    using core us ok ls lb by (simp add: unat_word_ariths unsigned_ucast_eq take_bit_nat_eq_self)
  show "hc_magic (fh_core fh) = FZM_MAGIC" "hc_version (fh_core fh) = FZM_VERSION" "hc_flags (fh_core fh) = 0"
    "hc_uncompressed_size (fh_core fh) = p_input_size p" "wf_core (fh_core fh)"
    using core by (simp_all add: FZMHeaderCore_def wf_core_def)
  show "list_all wf_stage (fh_stages fh)" "list_all wf_buffer (fh_buffers fh)"
    unfolding st fb' by (auto simp: list_all_iff wf_stage_entry wf_buffer_entry)
  show "length (fh_stages fh) \<le> 32" "length (fh_buffers fh) \<le> 32" "length (fh_buffers fh) = length ?ms"
    using ok lb ls by simp_all
qed

subsection \<open>Reading a header\<close>

lemma dec_core_fields:
  "hc_magic (dec_core bs) = fst (get 4 bs)" "hc_version (dec_core bs) = fst (get 2 (drop 4 bs))"
  "hc_num_buffers (dec_core bs) = fst (get 2 (drop 6 bs))" "hc_num_stages (dec_core bs) = fst (get 4 (drop 32 bs))"
  "hc_flags (dec_core bs) = fst (get 2 (drop 38 bs))" "hc_header_checksum (dec_core bs) = fst (get 4 (drop 76 bs))"
  by (simp_all add: dec_core_def codec_defs)

text \<open>The header region with its checksum field zeroed: what the checksum covers.\<close>

definition checked_bytes :: "nat \<Rightarrow> u8 list \<Rightarrow> u8 list" where
  "checked_bytes n file = take 76 file @ [0, 0, 0, 0] @ take (n - 80) (drop 80 file)"

definition header_len :: "nat \<Rightarrow> nat \<Rightarrow> nat" where
  "header_len ns nb = 80 + 256 * ns + 256 * nb"

definition core_prefix :: "fzm_header_core \<Rightarrow> u8 list" where
  "core_prefix c = put 4 (hc_magic c) @ put 2 (hc_version c) @ put 2 (hc_num_buffers c) @ put 8 (hc_uncompressed_size c) @
     put 8 (hc_compressed_size c) @ put 8 (hc_header_size c) @ put 4 (hc_num_stages c) @ put 2 (hc_num_sources c) @
     put 2 (hc_flags c) @ put_all 8 (hc_source_uncompressed_sizes c) @ put 4 (hc_data_checksum c)"

lemma enc_core_prefix: "enc_core c = core_prefix c @ put 4 (hc_header_checksum c)"
  by (simp add: enc_core_def core_prefix_def)

lemma core_prefix_checksum [simp]: "core_prefix (c\<lparr>hc_header_checksum := x\<rparr>) = core_prefix c"
  by (simp add: core_prefix_def)

lemma enc_core_zeroed:
  assumes "80 \<le> length bs"
  shows "enc_core (dec_core bs\<lparr>hc_header_checksum := 0\<rparr>) = take 76 bs @ [0, 0, 0, 0]"
proof -
  have z: "put 4 (0 :: u32) = [0, 0, 0, 0]" by code_simp
  let ?e = "core_prefix (dec_core bs)"
  have eq: "?e @ put 4 (hc_header_checksum (dec_core bs)) = take 80 bs" using enc_dec_core [OF assms] by (simp add: enc_core_prefix)
  from arg_cong [OF this, of length] assms have "length ?e = 76" by simp
  with arg_cong [OF eq, of "take 76"] have "?e = take 76 bs" by simp
  then show ?thesis using z by (simp add: enc_core_prefix)
qed

lemma checksum_of_bytes:
  assumes "header_len ns nb \<le> length bs"
  shows "computeHeaderChecksum \<lparr>fh_core = dec_core bs, fh_stages = dec_array dec_stage 256 ns (drop 80 bs),
           fh_buffers = dec_array dec_buffer 256 nb (drop (80 + ns * 256) bs)\<rparr> = crc32 (checked_bytes (header_len ns nb) bs)"
proof -
  have len: "80 \<le> length bs" "ns * 256 \<le> length (drop 80 bs)" "nb * 256 \<le> length (drop (80 + ns * 256) bs)"
    using assms by (auto simp: header_len_def)
  have split: "take (header_len ns nb - 80) (drop 80 bs) = take (ns * 256) (drop 80 bs) @ take (nb * 256) (drop (80 + ns * 256) bs)"
    using take_add [of "ns * 256" "nb * 256" "drop 80 bs"] by (simp add: header_len_def add.commute mult.commute)
  have "checked_bytes (header_len ns nb) bs = enc_core (dec_core bs\<lparr>hc_header_checksum := 0\<rparr>) @
      enc_array enc_stage (dec_array dec_stage 256 ns (drop 80 bs)) @ enc_array enc_buffer (dec_array dec_buffer 256 nb (drop (80 + ns * 256) bs))"
    using enc_core_zeroed [OF len(1)] stage_codec.enc_dec_array [OF len(2)] buffer_codec.enc_dec_array [OF len(3)]
    by (simp add: checked_bytes_def split)
  then show ?thesis by (simp add: computeHeaderChecksum_def crc32_def crc32Feed_append Let_def)
qed

lemma version_decode: "fzmVersionMajor FZM_VERSION = 3" "fzmVersionMinor FZM_VERSION = 1"
  by code_simp+

lemma readHeader_current:
  assumes "header_len ns nb \<le> length file" "hc_magic (dec_core file) = FZM_MAGIC" "hc_version (dec_core file) = FZM_VERSION"
    and "unat (hc_num_stages (dec_core file)) = ns" "unat (hc_num_buffers (dec_core file)) = nb" "ns \<le> 32" "nb \<le> 32"
  shows "readHeader file =
    (if hc_flags (dec_core file) AND FZM_FLAG_HAS_HEADER_CHECKSUM \<noteq> 0 \<and>
        crc32 (checked_bytes (header_len ns nb) file) \<noteq> hc_header_checksum (dec_core file)
     then Inl (RuntimeError ''FZM header checksum mismatch in '')
     else Inr \<lparr>fh_core = dec_core file, fh_stages = dec_array dec_stage 256 ns (drop 80 file),
                fh_buffers = dec_array dec_buffer 256 nb (drop (80 + ns * 256) file)\<rparr>)"
proof -
  have len: "\<not> length file < 6" "\<not> length file < 80" "\<not> length file < 80 + ns * 256" "\<not> length file < 80 + ns * 256 + nb * 256"
    using assms(1) by (auto simp: header_len_def)
  show ?thesis
    using assms(2-7) checksum_of_bytes [OF assms(1)] len
    by (simp add: readHeader_def dec_core_fields version_decode core_read_size_def read_core_def fzm_consts header_checksum_bad_def
        Let_def del: One_nat_def)
qed

lemma parse_current:
  assumes "header_len ns nb \<le> length file" "hc_magic (dec_core file) = FZM_MAGIC" "hc_version (dec_core file) = FZM_VERSION"
    and "unat (hc_num_stages (dec_core file)) = ns" "unat (hc_num_buffers (dec_core file)) = nb" "ns \<le> 32" "nb \<le> 32"
  shows "parseHeaderFromMemory False file =
    (if hc_flags (dec_core file) AND FZM_FLAG_HAS_HEADER_CHECKSUM \<noteq> 0 \<and>
        crc32 (checked_bytes (header_len ns nb) file) \<noteq> hc_header_checksum (dec_core file)
     then Inl (RuntimeError ''parseHeaderFromMemory: header checksum mismatch (corrupt buffer)'')
     else Inr \<lparr>fh_core = dec_core file, fh_stages = dec_array dec_stage 256 ns (drop 80 file),
                fh_buffers = dec_array dec_buffer 256 nb (drop (80 + ns * 256) file)\<rparr>)"
proof -
  have len: "\<not> length file < 6" "\<not> length file < 80" "\<not> length file < 80 + ns * 256 + nb * 256"
    using assms(1) by (auto simp: header_len_def)
  show ?thesis
    using assms(2-7) checksum_of_bytes [OF assms(1)] len
    by (simp add: parseHeaderFromMemory_def dec_core_fields version_decode core_read_size_def read_core_def fzm_consts header_checksum_bad_def
        Let_def del: One_nat_def)
qed

text \<open>A header as the writers seal it.\<close>

definition sealed :: "file_header \<Rightarrow> bool" where
  "sealed fh \<longleftrightarrow> wf_core (fh_core fh) \<and> list_all wf_stage (fh_stages fh) \<and> list_all wf_buffer (fh_buffers fh) \<and>
     hc_magic (fh_core fh) = FZM_MAGIC \<and> hc_version (fh_core fh) = FZM_VERSION \<and>
     unat (hc_num_stages (fh_core fh)) = length (fh_stages fh) \<and> unat (hc_num_buffers (fh_core fh)) = length (fh_buffers fh) \<and>
     length (fh_stages fh) \<le> 32 \<and> length (fh_buffers fh) \<le> 32 \<and>
     hc_flags (fh_core fh) AND FZM_FLAG_HAS_HEADER_CHECKSUM \<noteq> 0 \<and>
     computeHeaderChecksum fh = hc_header_checksum (fh_core fh)"

lemma sealedD:
  assumes "sealed fh"
  shows "length (header_bytes fh) = header_len (length (fh_stages fh)) (length (fh_buffers fh))"
    and "dec_core (header_bytes fh @ bs) = fh_core fh"
    and "dec_array dec_stage 256 (length (fh_stages fh)) (drop 80 (header_bytes fh @ bs)) = fh_stages fh"
    and "dec_array dec_buffer 256 (length (fh_buffers fh)) (drop (80 + length (fh_stages fh) * 256) (header_bytes fh @ bs)) = fh_buffers fh"
proof -
  have wf: "wf_core (fh_core fh)" "list_all wf_stage (fh_stages fh)" "list_all wf_buffer (fh_buffers fh)"
    using assms by (simp_all add: sealed_def)
  note len = core_codec.length_enc [OF wf(1)] stage_codec.length_enc_array [OF wf(2)] buffer_codec.length_enc_array [OF wf(3)]
  show "length (header_bytes fh) = header_len (length (fh_stages fh)) (length (fh_buffers fh))"
    using len by (simp add: header_bytes_def header_len_def)
  show "dec_core (header_bytes fh @ bs) = fh_core fh" using core_codec.dec_enc [OF wf(1)] by (simp add: header_bytes_def)
  show "dec_array dec_stage 256 (length (fh_stages fh)) (drop 80 (header_bytes fh @ bs)) = fh_stages fh"
    using len stage_codec.dec_array_enc [OF wf(2)] by (simp add: header_bytes_def)
  show "dec_array dec_buffer 256 (length (fh_buffers fh)) (drop (80 + length (fh_stages fh) * 256) (header_bytes fh @ bs)) = fh_buffers fh"
    using len buffer_codec.dec_array_enc [OF wf(3)] by (simp add: header_bytes_def)
qed

lemma sealed_crc:
  assumes "sealed fh"
  shows "crc32 (checked_bytes (header_len (length (fh_stages fh)) (length (fh_buffers fh))) (header_bytes fh @ bs)) =
         hc_header_checksum (fh_core fh)"
proof -
  have "header_len (length (fh_stages fh)) (length (fh_buffers fh)) \<le> length (header_bytes fh @ bs)"
    using sealedD(1) [OF assms] by simp
  note crc = checksum_of_bytes [OF this, unfolded sealedD(2-) [OF assms, of bs]]
  have "\<lparr>fh_core = fh_core fh, fh_stages = fh_stages fh, fh_buffers = fh_buffers fh\<rparr> = fh" by simp
  with crc assms show ?thesis by (simp add: sealed_def)
qed

lemma read_sealed:
  assumes "sealed fh"
  shows "readHeader (header_bytes fh @ bs) = Inr fh" "parseHeaderFromMemory False (header_bytes fh @ bs) = Inr fh"
proof -
  let ?f = "header_bytes fh @ bs" and ?ns = "length (fh_stages fh)" and ?nb = "length (fh_buffers fh)"
  have "header_len ?ns ?nb \<le> length ?f" using sealedD(1) [OF assms] by simp
  moreover have "hc_magic (dec_core ?f) = FZM_MAGIC" "hc_version (dec_core ?f) = FZM_VERSION"
    "unat (hc_num_stages (dec_core ?f)) = ?ns" "unat (hc_num_buffers (dec_core ?f)) = ?nb" "?ns \<le> 32" "?nb \<le> 32"
    using assms sealedD(2) [OF assms] by (simp_all add: sealed_def)
  ultimately have "readHeader ?f = Inr \<lparr>fh_core = dec_core ?f, fh_stages = dec_array dec_stage 256 ?ns (drop 80 ?f),
                fh_buffers = dec_array dec_buffer 256 ?nb (drop (80 + ?ns * 256) ?f)\<rparr> \<and>
      parseHeaderFromMemory False ?f = Inr \<lparr>fh_core = dec_core ?f, fh_stages = dec_array dec_stage 256 ?ns (drop 80 ?f),
                fh_buffers = dec_array dec_buffer 256 ?nb (drop (80 + ?ns * 256) ?f)\<rparr>"
    using readHeader_current [of ?ns ?nb ?f] parse_current [of ?ns ?nb ?f] sealed_crc [OF assms, of bs] sealedD(2) [OF assms, of bs] by simp
  then show "readHeader ?f = Inr fh" "parseHeaderFromMemory False ?f = Inr fh"
    using sealedD(2-) [OF assms, of bs] by simp_all
qed

lemma seal_simps [simp]:
  "fh_stages (seal f fh) = fh_stages fh" "fh_buffers (seal f fh) = fh_buffers fh"
  "hc_magic (fh_core (seal f fh)) = hc_magic (fh_core fh)" "hc_version (fh_core (seal f fh)) = hc_version (fh_core fh)"
  "hc_num_stages (fh_core (seal f fh)) = hc_num_stages (fh_core fh)" "hc_num_buffers (fh_core (seal f fh)) = hc_num_buffers (fh_core fh)"
  "hc_compressed_size (fh_core (seal f fh)) = hc_compressed_size (fh_core fh)" "hc_header_size (fh_core (seal f fh)) = hc_header_size (fh_core fh)"
  "hc_data_checksum (fh_core (seal f fh)) = hc_data_checksum (fh_core fh)" "hc_flags (fh_core (seal f fh)) = hc_flags (fh_core fh) OR f"
  "hc_uncompressed_size (fh_core (seal f fh)) = hc_uncompressed_size (fh_core fh)" "wf_core (fh_core (seal f fh)) = wf_core (fh_core fh)"
  by (simp_all add: seal_def wf_core_def Let_def)

lemma wf_core_data [simp]: "wf_core (c\<lparr>hc_data_checksum := x\<rparr>) = wf_core c" by (simp add: wf_core_def)

lemma seal_checksum: "computeHeaderChecksum (seal f fh) = hc_header_checksum (fh_core (seal f fh))"
  by (simp add: seal_def computeHeaderChecksum_def Let_def)

lemma flag_bits:
  "(0 OR (FZM_FLAG_HAS_DATA_CHECKSUM OR FZM_FLAG_HAS_HEADER_CHECKSUM)) AND FZM_FLAG_HAS_HEADER_CHECKSUM \<noteq> 0"
  "(0 OR (FZM_FLAG_HAS_DATA_CHECKSUM OR FZM_FLAG_HAS_HEADER_CHECKSUM)) AND FZM_FLAG_HAS_DATA_CHECKSUM \<noteq> 0"
  "(0 OR FZM_FLAG_HAS_HEADER_CHECKSUM) AND FZM_FLAG_HAS_HEADER_CHECKSUM \<noteq> 0"
  by code_simp+

lemma seal_sealed:
  assumes "buildHeader api p = Inr fh" "file_ok p" "(0 OR f) AND FZM_FLAG_HAS_HEADER_CHECKSUM \<noteq> 0"
    and "fh1 = fh\<lparr>fh_core := fh_core fh\<lparr>hc_data_checksum := c\<rparr>\<rparr>"
  shows "sealed (seal f fh)" "sealed (seal f fh1)"
  using buildHeader_cases [OF assms(1,2)] assms(3,4) seal_checksum [of f fh] seal_checksum [of f fh1]
  by (simp_all add: sealed_def)

lemma writeToFile_cases:
  assumes "writeToFile api p = Inr file" "file_ok p"
  obtains fh where "file = header_bytes fh @ payload_of p" "sealed fh"
    "fh_stages fh = map (stage_entry api p) (concat (levels (p_dag p)))"
    "fh_buffers fh = map (\<lambda>(m, k). buffer_entry api p m (word_of_nat k)) (zip (p_buffer_metadata p) (slot_offs 0 (seg_sizes p)))"
    "unat (hc_compressed_size (fh_core fh)) = length (payload_of p)" "unat (hc_header_size (fh_core fh)) = length (header_bytes fh)"
    "hc_flags (fh_core fh) AND FZM_FLAG_HAS_DATA_CHECKSUM \<noteq> 0" "hc_data_checksum (fh_core fh) = crc32 (payload_of p)"
    "hc_uncompressed_size (fh_core fh) = p_input_size p"
proof -
  from assms(1) obtain fh data where fh: "buildHeader api p = Inr fh"
    and data: "gather_payload p (p_buffer_metadata p) 0 (replicate (unat (hc_compressed_size (fh_core fh))) 0) = Inr data"
    and fil: "file = header_bytes (seal (FZM_FLAG_HAS_DATA_CHECKSUM OR FZM_FLAG_HAS_HEADER_CHECKSUM)
         (fh\<lparr>fh_core := fh_core fh\<lparr>hc_data_checksum := crc32 data\<rparr>\<rparr>)) @ data"
    by (auto simp: writeToFile_def res_bind_eq_Inr Let_def split: if_splits)
  let ?fh = "seal (FZM_FLAG_HAS_DATA_CHECKSUM OR FZM_FLAG_HAS_HEADER_CHECKSUM) (fh\<lparr>fh_core := fh_core fh\<lparr>hc_data_checksum := crc32 data\<rparr>\<rparr>)"
  note b = buildHeader_cases [OF fh assms(2)]
  have small: "list_all (\<lambda>m. unat (bm_actual_size m) + 15 < 2 ^ 32) (p_buffer_metadata p)"
    using assms(2) by (simp add: file_ok_def list_all_iff)
  have cs: "unat (hc_compressed_size (fh_core fh)) = sum_list (map (\<lambda>m. round16 (unat (bm_actual_size m))) (p_buffer_metadata p))"
    using b(3) by (simp add: length_payload_of comp_def)
  have bound: "sum_list (map (\<lambda>m. round16 (unat (bm_actual_size m))) (p_buffer_metadata p)) < 2 ^ 64"
    using cs unat_less_64 [of "hc_compressed_size (fh_core fh)"] by simp
  have "data = [] @ concat (map (\<lambda>m. pad16 (segment_of p m)) (p_buffer_metadata p))"
    by (rule gather_payload_spec [of _ _ 0]) (use data small bound cs in simp_all)
  then have d: "data = payload_of p" by (simp add: payload_of_def)
  have s: "sealed ?fh" using seal_sealed(2) [OF fh assms(2) flag_bits(1) refl] .
  have fl: "hc_flags (fh_core ?fh) AND FZM_FLAG_HAS_DATA_CHECKSUM \<noteq> 0" using flag_bits(2) b(8) by simp
  show thesis
    by (rule that [of ?fh]) (use fil d s b fl sealedD(1) [OF s] in \<open>simp_all add: header_len_def\<close>)
qed

lemma read_written:
  assumes "writeToFile api p = Inr file" "file_ok p"
  obtains fh where "readHeader file = Inr fh" "read_payload file fh = Inr (payload_of p)"
    "fh_stages fh = map (stage_entry api p) (concat (levels (p_dag p)))"
    "fh_buffers fh = map (\<lambda>(m, k). buffer_entry api p m (word_of_nat k)) (zip (p_buffer_metadata p) (slot_offs 0 (seg_sizes p)))"
    "unat (hc_compressed_size (fh_core fh)) = length (payload_of p)" "hc_uncompressed_size (fh_core fh) = p_input_size p"
proof -
  from assms obtain fh where fh: "file = header_bytes fh @ payload_of p" "sealed fh"
    "fh_stages fh = map (stage_entry api p) (concat (levels (p_dag p)))"
    "fh_buffers fh = map (\<lambda>(m, k). buffer_entry api p m (word_of_nat k)) (zip (p_buffer_metadata p) (slot_offs 0 (seg_sizes p)))"
    "unat (hc_compressed_size (fh_core fh)) = length (payload_of p)" "unat (hc_header_size (fh_core fh)) = length (header_bytes fh)"
    "hc_flags (fh_core fh) AND FZM_FLAG_HAS_DATA_CHECKSUM \<noteq> 0" "hc_data_checksum (fh_core fh) = crc32 (payload_of p)"
    "hc_uncompressed_size (fh_core fh) = p_input_size p"
    by (rule writeToFile_cases)
  have "readHeader file = Inr fh" unfolding fh(1) by (rule read_sealed(1) [OF fh(2)])
  moreover have "read_payload file fh = Inr (payload_of p)"
    unfolding fh(1) read_payload_def Let_def fh(5,6) by (simp add: fh(8))
  ultimately show thesis using that fh by blast
qed

lemma payload_segment:
  assumes "i < length (p_buffer_metadata p)"
  shows "take (unat (bm_actual_size (p_buffer_metadata p ! i))) (drop (slot_offs 0 (seg_sizes p) ! i) (payload_of p)) =
         segment_of p (p_buffer_metadata p ! i)"
    and "slot_offs 0 (seg_sizes p) ! i + unat (bm_actual_size (p_buffer_metadata p ! i)) \<le> length (payload_of p)"
proof -
  let ?ms = "p_buffer_metadata p" and ?m = "p_buffer_metadata p ! i"
  have off: "slot_offs 0 (seg_sizes p) ! i = sum_list (map (length \<circ> (\<lambda>m. pad16 (segment_of p m))) (take i ?ms))"
    using assms by (simp add: slot_offs_nth take_map comp_def)
  have p: "take (unat (bm_actual_size ?m)) (pad16 (segment_of p ?m)) = segment_of p ?m" by (simp add: pad16_def)
  have le: "unat (bm_actual_size ?m) \<le> length (pad16 (segment_of p ?m))" using round16_bounds(1) by simp
  show "take (unat (bm_actual_size ?m)) (drop (slot_offs 0 (seg_sizes p) ! i) (payload_of p)) = segment_of p ?m"
  proof -
    let ?d = "drop (slot_offs 0 (seg_sizes p) ! i) (payload_of p)"
    have "take (unat (bm_actual_size ?m)) (take (length (pad16 (segment_of p ?m))) ?d) = segment_of p ?m"
      using take_drop_concat [OF assms, of "\<lambda>m. pad16 (segment_of p m)"] p unfolding off payload_of_def by simp
    then show ?thesis using le by (simp add: min_absorb1)
  qed
  show "slot_offs 0 (seg_sizes p) ! i + unat (bm_actual_size ?m) \<le> length (payload_of p)"
    using slot_offs_end [of i "seg_sizes p" 0] assms round16_bounds(1) [of "unat (bm_actual_size ?m)"]
    by (simp add: length_payload_of)
qed

text \<open>
  C6. A file written by \<open>writeToFile\<close> for at most 32 stages and 32 output buffers, the sizes \<open>readHeader\<close> accepts, with
  every output size plus 15 below \<open>2 ^ 32\<close> and pairwise different buffer ids below 65536, reads back: the header is accepted,
  records the pipeline's input size and one entry per stage in execution order, and once the pool has given memory at \<open>q\<close>
  for the payload, the pointer and size \<open>decompressFromFile\<close> derives for every output buffer address exactly the bytes that
  buffer held when the file was written.
\<close>

theorem file_roundtrip:
  assumes "writeToFile api p = Inr file" "file_ok p"
    and "distinct (map bm_buffer_id (p_buffer_metadata p))" "\<forall>m\<in>set (p_buffer_metadata p). 0 \<le> bm_buffer_id m \<and> bm_buffer_id m < 65536"
    and "pool_allocate drv scale (word_of_nat (length (payload_of p))) ''compressed_data_load'' False pl = (q, pl')" "q \<noteq> 0"
  shows "\<exists>fh mem'. readHeader file = Inr fh \<and> hc_uncompressed_size (fh_core fh) = p_input_size p \<and>
    fh_stages fh = map (stage_entry api p) (concat (levels (p_dag p))) \<and>
    loadCompressedData drv scale file fh (pl, mem) = Inr (q, pl', mem') \<and>
    (\<forall>m\<in>set (p_buffer_metadata p). \<exists>ptr. file_output_map q fh (bm_buffer_id m) = Some (ptr, bm_actual_size m) \<and>
       mem_read mem' ptr (unat (bm_actual_size m)) = segment_of p m)"
proof -
  let ?ms = "p_buffer_metadata p"
  from assms(1,2) obtain fh where fh: "readHeader file = Inr fh" "read_payload file fh = Inr (payload_of p)"
    "fh_stages fh = map (stage_entry api p) (concat (levels (p_dag p)))"
    "fh_buffers fh = map (\<lambda>(m, k). buffer_entry api p m (word_of_nat k)) (zip ?ms (slot_offs 0 (seg_sizes p)))"
    "unat (hc_compressed_size (fh_core fh)) = length (payload_of p)" "hc_uncompressed_size (fh_core fh) = p_input_size p"
    by (rule read_written)
  let ?mem = "mem_write mem q (payload_of p)"
  have ld: "loadCompressedData drv scale file fh (pl, mem) = Inr (q, pl', ?mem)"
    using fh(2) assms(5,6) fh(5) [symmetric] by (simp add: loadCompressedData_def)
  let ?ids = "map bm_buffer_id ?ms" and ?vs = "map (\<lambda>(m, k). (q + k, bm_actual_size m)) (zip ?ms (slot_offs 0 (seg_sizes p)))"
  have small: "slot_offs 0 (seg_sizes p) ! i < 2 ^ 64" if "i < length ?ms" for i
    using payload_segment(2) [OF that] fh(5) unat_less_64 [of "hc_compressed_size (fh_core fh)"] by linarith
  have "file_output_map q fh = map_of (rev (zip ?ids ?vs))"
  proof -
    have "map (\<lambda>e. (uint (be_dag_buffer_id e), q + unat (be_byte_offset e), be_data_size e)) (fh_buffers fh) = zip ?ids ?vs"
    proof (rule nth_equalityI)
      fix i assume "i < length (map (\<lambda>e. (uint (be_dag_buffer_id e), q + unat (be_byte_offset e), be_data_size e)) (fh_buffers fh))"
      then have i: "i < length ?ms" by (simp add: fh(4))
      then have "0 \<le> bm_buffer_id (?ms ! i) \<and> bm_buffer_id (?ms ! i) < 65536" using assms(4) nth_mem by blast
      then have "uint (word_of_int (bm_buffer_id (?ms ! i)) :: u16) = bm_buffer_id (?ms ! i)"
        by (simp add: uint_word_of_int)
      moreover have "unat (word_of_nat (slot_offs 0 (seg_sizes p) ! i) :: u64) = slot_offs 0 (seg_sizes p) ! i"
        using small [OF i] by (simp add: unat_of_nat)
      ultimately show "map (\<lambda>e. (uint (be_dag_buffer_id e), q + unat (be_byte_offset e), be_data_size e)) (fh_buffers fh) ! i = zip ?ids ?vs ! i"
        using i by (simp add: fh(4) buffer_entry_def Let_def)
    qed (simp add: fh(4))
    then show ?thesis by (simp add: file_output_map_def)
  qed
  then have po: "file_output_map q fh (bm_buffer_id (?ms ! i)) = Some (q + slot_offs 0 (seg_sizes p) ! i, bm_actual_size (?ms ! i))"
    if "i < length ?ms" for i
    using map_of_rev_zip [of ?ids ?vs i] assms(3) that by simp
  have rd: "mem_read ?mem (q + slot_offs 0 (seg_sizes p) ! i) (unat (bm_actual_size (?ms ! i))) = segment_of p (?ms ! i)"
    if "i < length ?ms" for i
    using mem_read_sub [OF payload_segment(2) [OF that], of ?mem q] payload_segment(1) [OF that]
    by (simp add: mem_read_mem_write)
  have "\<exists>ptr. file_output_map q fh (bm_buffer_id m) = Some (ptr, bm_actual_size m) \<and> mem_read ?mem ptr (unat (bm_actual_size m)) = segment_of p m"
    if "m \<in> set ?ms" for m
    using that po rd by (metis in_set_conv_nth)
  with fh ld show ?thesis by blast
qed

text \<open>
  C28. A corrupted payload is refused: replacing up to four consecutive bytes behind the header of a file written for at most 32
  stages and 32 output buffers below 4 GiB (\<open>readHeader\<close> refuses files with more anyway) leaves the header readable, but
  loading the data fails with a checksum error.
\<close>

theorem payload_corruption_refused:
  assumes "writeToFile api p = Inr file" "file_ok p" "file = pre @ as @ post"
    and "header_len (length (concat (levels (p_dag p)))) (length (p_buffer_metadata p)) \<le> length pre"
    and "length bs = length as" "length as \<le> 4" "as \<noteq> bs"
  shows "\<exists>fh. readHeader (pre @ bs @ post) = Inr fh \<and>
    loadCompressedData drv scale (pre @ bs @ post) fh s = Inl (RuntimeError ''FZM data checksum mismatch in '')"
proof -
  from assms(1,2) obtain fh where fh: "file = header_bytes fh @ payload_of p" "sealed fh"
    "fh_stages fh = map (stage_entry api p) (concat (levels (p_dag p)))"
    "fh_buffers fh = map (\<lambda>(m, k). buffer_entry api p m (word_of_nat k)) (zip (p_buffer_metadata p) (slot_offs 0 (seg_sizes p)))"
    "unat (hc_compressed_size (fh_core fh)) = length (payload_of p)" "unat (hc_header_size (fh_core fh)) = length (header_bytes fh)"
    "hc_flags (fh_core fh) AND FZM_FLAG_HAS_DATA_CHECKSUM \<noteq> 0" "hc_data_checksum (fh_core fh) = crc32 (payload_of p)"
    "hc_uncompressed_size (fh_core fh) = p_input_size p"
    by (rule writeToFile_cases)
  have "length (header_bytes fh) \<le> length pre"
    using assms(4) sealedD(1) [OF fh(2)] by (simp add: fh(3,4))
  moreover have "header_bytes fh @ payload_of p = pre @ as @ post" using fh(1) assms(3) by simp
  ultimately obtain pre' where pre: "pre = header_bytes fh @ pre'" "payload_of p = pre' @ as @ post"
    unfolding append_eq_append_conv_if by (metis append_take_drop_id)
  have rd: "readHeader (pre @ bs @ post) = Inr fh" using read_sealed(1) [OF fh(2), of "pre' @ bs @ post"] by (simp add: pre(1))
  have len: "length (pre' @ bs @ post) = unat (hc_compressed_size (fh_core fh))" using fh(5) pre(2) assms(5) by simp
  have "crc32 (pre' @ bs @ post) \<noteq> crc32 (pre' @ as @ post)" using crc32Feed_burst [of bs as] assms(5-7) by (simp add: crc32_def)
  then have "read_payload (pre @ bs @ post) fh = Inl (RuntimeError ''FZM data checksum mismatch in '')"
    using len fh(7) unfolding read_payload_def Let_def fh(6,8) pre by simp
  then show ?thesis using rd by (simp add: loadCompressedData_def)
qed

lemma get_cong: "take n bs = take n bs' \<Longrightarrow> fst (get n bs :: 'a::len word \<times> u8 list) = fst (get n bs')"
  by (simp add: get_def)

lemma burst_fields:
  assumes "length bs = length as" "40 \<le> length pre" "length pre + length as \<le> 76 \<or> 80 \<le> length pre"
  shows "hc_magic (dec_core (pre @ bs @ post)) = hc_magic (dec_core (pre @ as @ post))"
    "hc_version (dec_core (pre @ bs @ post)) = hc_version (dec_core (pre @ as @ post))"
    "hc_num_buffers (dec_core (pre @ bs @ post)) = hc_num_buffers (dec_core (pre @ as @ post))"
    "hc_num_stages (dec_core (pre @ bs @ post)) = hc_num_stages (dec_core (pre @ as @ post))"
    "hc_flags (dec_core (pre @ bs @ post)) = hc_flags (dec_core (pre @ as @ post))"
    "hc_header_checksum (dec_core (pre @ bs @ post)) = hc_header_checksum (dec_core (pre @ as @ post))"
proof -
  have 1: "take n (drop k (pre @ bs @ post)) = take n (drop k (pre @ as @ post))" if "k + n \<le> 40" for k n
    using that assms(2) by simp
  have 2: "take 4 (drop 76 (pre @ bs @ post)) = take 4 (drop 76 (pre @ as @ post))"
    using assms(3)
  proof
    assume "length pre + length as \<le> 76"
    then show ?thesis using assms(1) by simp
  next
    assume "80 \<le> length pre"
    then show ?thesis by simp
  qed
  show "hc_magic (dec_core (pre @ bs @ post)) = hc_magic (dec_core (pre @ as @ post))"
    unfolding dec_core_fields using get_cong [OF 1 [of 0 4]] by simp
  show "hc_version (dec_core (pre @ bs @ post)) = hc_version (dec_core (pre @ as @ post))"
    unfolding dec_core_fields using get_cong [OF 1 [of 4 2]] by simp
  show "hc_num_buffers (dec_core (pre @ bs @ post)) = hc_num_buffers (dec_core (pre @ as @ post))"
    unfolding dec_core_fields using get_cong [OF 1 [of 6 2]] by simp
  show "hc_num_stages (dec_core (pre @ bs @ post)) = hc_num_stages (dec_core (pre @ as @ post))"
    unfolding dec_core_fields using get_cong [OF 1 [of 32 4]] by simp
  show "hc_flags (dec_core (pre @ bs @ post)) = hc_flags (dec_core (pre @ as @ post))"
    unfolding dec_core_fields using get_cong [OF 1 [of 38 2]] by simp
  show "hc_header_checksum (dec_core (pre @ bs @ post)) = hc_header_checksum (dec_core (pre @ as @ post))"
    unfolding dec_core_fields using get_cong [OF 2] by simp
qed

lemma checked_burst:
  assumes "length bs = length as" "length pre + length as \<le> 76 \<or> 80 \<le> length pre \<and> length pre + length as \<le> n"
  obtains pre' post' where "checked_bytes n (pre @ as @ post) = pre' @ as @ post'" "checked_bytes n (pre @ bs @ post) = pre' @ bs @ post'"
  using assms(2)
proof
  assume a: "length pre + length as \<le> 76"
  show thesis
    by (rule that [of pre "take (76 - length pre - length as) post @ [0, 0, 0, 0] @ take (n - 80) (drop (80 - length pre - length as) post)"])
      (use a assms(1) in \<open>simp_all add: checked_bytes_def\<close>)
next
  assume a: "80 \<le> length pre \<and> length pre + length as \<le> n"
  then have "take (n - 80) (drop 80 pre) = drop 80 pre" "take (n - length pre) as = as" "take (n - length pre) bs = bs"
    using assms(1) by auto
  then show thesis
    by (intro that [of "take 76 pre @ [0, 0, 0, 0] @ drop 80 pre" "take (n - length pre - length as) post"])
      (use a assms(1) in \<open>simp_all add: checked_bytes_def\<close>)
qed

text \<open>
  C31. A corrupted header is refused: in a file written for at most 32 stages and 32 output buffers below 4 GiB (\<open>readHeader\<close>
  refuses files with more anyway), replacing up to four consecutive bytes among the source sizes and the data checksum of the
  core, or anywhere in the stage and buffer tables, makes \<open>readHeader\<close> fail with a checksum error.
\<close>

theorem header_corruption_refused:
  assumes "writeToFile api p = Inr file" "file_ok p" "file = pre @ as @ post"
    and "40 \<le> length pre" "length pre + length as \<le> 76 \<or>
      80 \<le> length pre \<and> length pre + length as \<le> header_len (length (concat (levels (p_dag p)))) (length (p_buffer_metadata p))"
    and "length bs = length as" "length as \<le> 4" "as \<noteq> bs"
  shows "readHeader (pre @ bs @ post) = Inl (RuntimeError ''FZM header checksum mismatch in '')"
proof -
  let ?ns = "length (concat (levels (p_dag p)))" and ?nb = "length (p_buffer_metadata p)"
  from assms(1,2) obtain fh where fh: "file = header_bytes fh @ payload_of p" "sealed fh"
    "fh_stages fh = map (stage_entry api p) (concat (levels (p_dag p)))"
    "fh_buffers fh = map (\<lambda>(m, k). buffer_entry api p m (word_of_nat k)) (zip (p_buffer_metadata p) (slot_offs 0 (seg_sizes p)))"
    "unat (hc_compressed_size (fh_core fh)) = length (payload_of p)" "unat (hc_header_size (fh_core fh)) = length (header_bytes fh)"
    "hc_flags (fh_core fh) AND FZM_FLAG_HAS_DATA_CHECKSUM \<noteq> 0" "hc_data_checksum (fh_core fh) = crc32 (payload_of p)"
    "hc_uncompressed_size (fh_core fh) = p_input_size p"
    by (rule writeToFile_cases)
  have n: "length (fh_stages fh) = ?ns" "length (fh_buffers fh) = ?nb" by (simp_all add: fh(3,4))
  have dc: "dec_core (pre @ as @ post) = fh_core fh" using sealedD(2) [OF fh(2), of "payload_of p"] fh(1) assms(3) by simp
  have rng: "length pre + length as \<le> 76 \<or> 80 \<le> length pre" using assms(5) by blast
  note same = burst_fields [OF assms(6,4) rng, of post, unfolded dc]
  have len: "header_len ?ns ?nb \<le> length (pre @ bs @ post)"
    using sealedD(1) [OF fh(2)] n arg_cong [OF fh(1), of length] assms(3,6) by simp
  obtain a b where ab: "checked_bytes (header_len ?ns ?nb) (pre @ as @ post) = a @ as @ b" "checked_bytes (header_len ?ns ?nb) (pre @ bs @ post) = a @ bs @ b"
    using checked_burst [OF assms(6,5), of post] by blast
  have "crc32 (a @ as @ b) = hc_header_checksum (fh_core fh)"
    using sealed_crc [OF fh(2), of "payload_of p"] n fh(1) assms(3) ab(1) by simp
  moreover have "crc32 (a @ bs @ b) \<noteq> crc32 (a @ as @ b)" using crc32Feed_burst [of bs as] assms(6-8) by (simp add: crc32_def)
  ultimately have bad: "crc32 (checked_bytes (header_len ?ns ?nb) (pre @ bs @ post)) \<noteq> hc_header_checksum (fh_core fh)" using ab(2) by simp
  have s: "hc_magic (fh_core fh) = FZM_MAGIC" "hc_version (fh_core fh) = FZM_VERSION" "unat (hc_num_stages (fh_core fh)) = ?ns"
    "unat (hc_num_buffers (fh_core fh)) = ?nb" "?ns \<le> 32" "?nb \<le> 32" "hc_flags (fh_core fh) AND FZM_FLAG_HAS_HEADER_CHECKSUM \<noteq> 0"
    using fh(2) n by (simp_all add: sealed_def)
  show ?thesis
    using readHeader_current [OF len, unfolded same, OF s(1-6)] s(7) bad by simp
qed

text \<open>
  The in-memory header round-trips: parsing what \<open>serializeHeaderToMemory\<close> produced yields the header
  the pipeline built, with only the checksum flag and the checksum added.
\<close>

theorem memory_header_roundtrip:
  assumes "serializeHeaderToMemory api p = Inr bs" "file_ok p"
  shows "\<exists>fh c. buildHeader api p = Inr fh \<and> parseHeaderFromMemory False bs =
    Inr (fh\<lparr>fh_core := fh_core fh\<lparr>hc_flags := FZM_FLAG_HAS_HEADER_CHECKSUM, hc_header_checksum := c\<rparr>\<rparr>)"
proof -
  from assms(1) obtain fh where fh: "buildHeader api p = Inr fh" "bs = header_bytes (seal FZM_FLAG_HAS_HEADER_CHECKSUM fh)"
    by (auto simp: serializeHeaderToMemory_def res_bind_eq_Inr split: if_splits)
  have "sealed (seal FZM_FLAG_HAS_HEADER_CHECKSUM fh)" by (rule seal_sealed(1) [OF fh(1) assms(2) flag_bits(3) refl])
  from read_sealed(2) [OF this, of "[]"] fh buildHeader_cases(8) [OF fh(1) assms(2)] show ?thesis
    by (auto simp: seal_def Let_def)
qed

subsection \<open>The topology comes back\<close>

definition ports_ok :: "int list \<Rightarrow> bool" where
  "ports_ok ids \<longleftrightarrow> length ids \<le> 8 \<and> list_all (\<lambda>b. 0 \<le> b \<and> b < 65535) ids"

lemma used_ports_overlay:
  assumes "ports_ok ids"
  shows "used_ports (word_of_nat (length ids)) (overlay (map word_of_int ids) (replicate 8 0xFFFF)) = ids"
proof -
  have len: "unat (word_of_nat (length ids) :: u8) = length ids" "length ids \<le> 8" using assms by (simp_all add: ports_ok_def unat_of_nat)
  have u: "uint (word_of_int b :: u16) = b \<and> (word_of_int b :: u16) \<noteq> 0xFFFF" if "b \<in> set ids" for b
  proof -
    have b: "0 \<le> b" "b < 65535" using assms that by (auto simp: ports_ok_def list_all_iff)
    then have e: "uint (word_of_int b :: u16) = b" by (simp add: uint_word_of_int)
    moreover have "uint (0xFFFF :: u16) = 65535" by simp
    ultimately show ?thesis using b(2) by (metis less_irrefl)
  qed
  have "take (min (unat (word_of_nat (length ids) :: u8)) 8) (overlay (map word_of_int ids) (replicate 8 (0xFFFF :: u16))) = map word_of_int ids"
    using len by (simp add: overlay_def)
  then have "used_ports (word_of_nat (length ids)) (overlay (map word_of_int ids) (replicate 8 0xFFFF)) =
      map uint (filter (\<lambda>b. b \<noteq> 0xFFFF) (map word_of_int ids :: u16 list))"
    by (simp add: used_ports_def)
  also have "filter (\<lambda>b. b \<noteq> 0xFFFF) (map word_of_int ids :: u16 list) = map word_of_int ids"
    using u by (simp add: filter_id_conv)
  also have "map uint (map word_of_int ids :: u16 list) = ids" using u by (simp add: map_idI)
  finally show ?thesis .
qed

lemma filter_upt_first:
  assumes "k < n" "P k" "\<And>j. j < k \<Longrightarrow> \<not> P j"
  shows "\<exists>r. filter P [0..<n] = k # r"
proof -
  have "[0..<n] = [0..<k] @ k # [Suc k..<n]"
    using assms(1) upt_add_eq_append [of 0 k "n - k"] upt_conv_Cons [of k n] by simp
  moreover have "filter P [0..<k] = []" using assms(3) by (simp add: filter_empty_conv)
  ultimately show ?thesis using assms(2) by simp
qed

text \<open>
  C34. The header alone restores the graph.  Take a file written for at most 32 stages and 32 output buffers, each output size plus
  15 below \<open>2 ^ 32\<close>, in which every stage has at most 8 inputs and 8 outputs with buffer ids below 65535; \<open>readHeader\<close>
  refuses more stages and \<open>buildHeader\<close> drops further ports, so larger pipelines are excluded.  Then
  \<open>reconstructForwardTopology\<close> returns, stage by stage in execution order, exactly the input and output buffer ids of the
  compressing pipeline, and \<open>buildSourceSizesFromHeader\<close> selects the stage the pipeline designates as primary source, if one
  stage of the graph is, with the recorded input size.
\<close>

theorem topology_roundtrip:
  assumes "writeToFile api p = Inr file" "file_ok p" "order = concat (levels (p_dag p))"
    and "\<forall>i\<in>set order. ports_ok (input_buffer_ids (node (p_dag p) i)) \<and> ports_ok (output_buffer_ids (node (p_dag p) i))"
    and "k < length order" "n_stage (node (p_dag p) (order ! k)) = primary_stage p"
    and "\<forall>j<k. n_stage (node (p_dag p) (order ! j)) \<noteq> primary_stage p"
  shows "\<exists>fh. readHeader file = Inr fh \<and>
    reconstructForwardTopology fh = map (\<lambda>j. \<lparr>fd_stage = j, fd_output_buf_ids = output_buffer_ids (node (p_dag p) (order ! j)),
      fd_input_buf_ids = input_buffer_ids (node (p_dag p) (order ! j))\<rparr>) [0..<length order] \<and>
    buildSourceSizesFromHeader fh (reconstructForwardTopology fh) = [(k, p_input_size p)]"
proof -
  from assms(1,2) obtain fh where fh: "file = header_bytes fh @ payload_of p" "sealed fh"
    "fh_stages fh = map (stage_entry api p) (concat (levels (p_dag p)))"
    "fh_buffers fh = map (\<lambda>(m, k). buffer_entry api p m (word_of_nat k)) (zip (p_buffer_metadata p) (slot_offs 0 (seg_sizes p)))"
    "unat (hc_compressed_size (fh_core fh)) = length (payload_of p)" "unat (hc_header_size (fh_core fh)) = length (header_bytes fh)"
    "hc_flags (fh_core fh) AND FZM_FLAG_HAS_DATA_CHECKSUM \<noteq> 0" "hc_data_checksum (fh_core fh) = crc32 (payload_of p)"
    "hc_uncompressed_size (fh_core fh) = p_input_size p"
    by (rule writeToFile_cases)
  have rd: "readHeader file = Inr fh" unfolding fh(1) by (rule read_sealed(1) [OF fh(2)])
  have n: "unat (hc_num_stages (fh_core fh)) = length order" using fh(2,3) assms(3) by (simp add: sealed_def)
  have st: "fh_stages fh ! j = stage_entry api p (order ! j)" if "j < length order" for j using that assms(3) by (simp add: fh(3))
  have pk: "ports_ok (input_buffer_ids (node (p_dag p) (order ! j)))" "ports_ok (output_buffer_ids (node (p_dag p) (order ! j)))"
    if "j < length order" for j using assms(4) that nth_mem by blast+
  have topo: "reconstructForwardTopology fh = map (\<lambda>j. \<lparr>fd_stage = j, fd_output_buf_ids = output_buffer_ids (node (p_dag p) (order ! j)),
      fd_input_buf_ids = input_buffer_ids (node (p_dag p) (order ! j))\<rparr>) [0..<length order]"
    unfolding reconstructForwardTopology_def n
    by (rule map_cong [OF refl]) (simp add: Let_def st stage_entry_def used_ports_overlay pk)
  have z: "(0 :: u16) AND FZM_STAGE_FLAG_PRIMARY_SOURCE = 0" "(0 OR FZM_STAGE_FLAG_PRIMARY_SOURCE) AND FZM_STAGE_FLAG_PRIMARY_SOURCE \<noteq> 0"
    by (simp_all add: FZM_STAGE_FLAG_PRIMARY_SOURCE_def)
  have flag: "si_stage_flags (fh_stages fh ! j) AND FZM_STAGE_FLAG_PRIMARY_SOURCE \<noteq> 0 \<longleftrightarrow>
      n_stage (node (p_dag p) (order ! j)) = primary_stage p" if "j < length order" for j
    using st [OF that] z by (simp add: stage_entry_def Let_def)
  have "\<exists>r. filter (\<lambda>i. si_stage_flags (fh_stages fh ! i) AND FZM_STAGE_FLAG_PRIMARY_SOURCE \<noteq> 0) [0..<length order] = k # r"
    using assms(5-7) flag by (intro filter_upt_first) auto
  then have "buildSourceSizesFromHeader fh (reconstructForwardTopology fh) = [(fd_stage (reconstructForwardTopology fh ! k), hc_uncompressed_size (fh_core fh))]"
    by (auto simp: buildSourceSizesFromHeader_def n topo)
  then have "buildSourceSizesFromHeader fh (reconstructForwardTopology fh) = [(k, p_input_size p)]"
    using assms(5) fh(9) by (simp add: topo)
  with rd topo show ?thesis by blast
qed

text \<open>
  C39. The writer has no limit the reader has: a pipeline with more than 32 stages, or more than 32
  output buffers, writes a file that \<open>readHeader\<close> refuses.
\<close>

theorem oversized_file_refused:
  assumes "writeToFile api p = Inr file"
    and "32 < length (concat (levels (p_dag p))) \<and> length (concat (levels (p_dag p))) < 2 ^ 32 \<or>
         32 < length (p_buffer_metadata p) \<and> length (p_buffer_metadata p) < 2 ^ 16"
  shows "readHeader file = Inl (RuntimeError ''FZM header has too many stages/buffers'')"
proof -
  from assms(1) obtain fh data where fh: "buildHeader api p = Inr fh"
    and fl: "file = header_bytes (seal (FZM_FLAG_HAS_DATA_CHECKSUM OR FZM_FLAG_HAS_HEADER_CHECKSUM)
         (fh\<lparr>fh_core := fh_core fh\<lparr>hc_data_checksum := crc32 data\<rparr>\<rparr>)) @ data"
    by (auto simp: writeToFile_def res_bind_eq_Inr Let_def split: if_splits)
  let ?fh = "seal (FZM_FLAG_HAS_DATA_CHECKSUM OR FZM_FLAG_HAS_HEADER_CHECKSUM) (fh\<lparr>fh_core := fh_core fh\<lparr>hc_data_checksum := crc32 data\<rparr>\<rparr>)"
  have core: "hc_magic (fh_core fh) = FZM_MAGIC" "hc_version (fh_core fh) = FZM_VERSION" "wf_core (fh_core fh)"
    "hc_num_stages (fh_core fh) = word_of_nat (length (concat (levels (p_dag p))))"
    "hc_num_buffers (fh_core fh) = word_of_nat (length (p_buffer_metadata p))"
    using fh by (auto simp: buildHeader_def Let_def split_beta FZMHeaderCore_def wf_core_def split: if_splits)
  have wf: "wf_core (fh_core ?fh)" using core(3) by simp
  have dc: "dec_core file = fh_core ?fh" unfolding fl header_bytes_def append_assoc by (rule core_codec.dec_enc [OF wf])
  have len: "80 \<le> length file" unfolding fl header_bytes_def using core_codec.length_enc [OF wf] by simp
  have big: "32 < unat (hc_num_stages (dec_core file)) \<or> 32 < unat (hc_num_buffers (dec_core file))"
    using assms(2) core(4,5) by (auto simp: dc unat_of_nat)
  have "hc_magic (dec_core file) = FZM_MAGIC" "hc_version (dec_core file) = FZM_VERSION" using core by (simp_all add: dc)
  with len big show ?thesis
    by (simp add: readHeader_def dec_core_fields version_decode core_read_size_def read_core_def fzm_consts Let_def del: One_nat_def)
qed

subsection \<open>A concrete archive\<close>

text \<open>\<open>n\<close> stages in a row at one level, stage 0 the source, one output buffer of three bytes at address 64.\<close>

definition demo_api :: stage_api where
  "demo_api = \<lparr>getName = (\<lambda>_. ''s''), getNumOutputs = (\<lambda>_. 1), getOutputNames = (\<lambda>_. [''output'']),
     getRequiredInputAlignment = (\<lambda>_. 1), estimateOutputSizes = (\<lambda>_ xs. xs), getActualOutputSizesByName = (\<lambda>_ _. Some 3),
     getStageTypeId = (\<lambda>_. 2), getOutputDataType = (\<lambda>_ _. 0), getInputDataType = (\<lambda>_ _. 0),
     serializeHeader = (\<lambda>_ _. [7, 9]), isGraphCompatible = (\<lambda>_. True)\<rparr>"

definition demo_pipe :: "nat \<Rightarrow> pipeline" where
  "demo_pipe n = \<lparr>p_x = \<lparr>x_dag = (new_dag MINIMAL)\<lparr>nodes := map (\<lambda>i. (new_node (Some i))\<lparr>input_buffer_ids := [int i], output_buffer_ids := [int i + 1]\<rparr>) [0..<n],
         buffer_table := [(1, new_buffer\<lparr>d_ptr := 64\<rparr>)], levels := [[0..<n]]\<rparr>,
       x_pool = make_pool demo_config True True, x_mem = (\<lambda>a. word_of_nat a), x_trace = []\<rparr>,
     p_strategy = MINIMAL, p_stages = [0..<n], p_stage_to_node = (\<lambda>s. if s < n then Some s else None), p_connections = [],
     p_num_streams = 1, p_is_finalized = True, p_pool_managed_decomp = True, p_is_compressed = True, p_was_compressed = True,
     p_profiling_enabled = False, p_coloring_enabled = True, p_input_nodes = [0], p_primary_source_stage = None,
     p_explicit_external_bindings = [], p_output_nodes = [0], p_input_buffer_ids = [0], p_output_buffer_ids = [1],
     p_needs_concat = False, p_input_size = 12, p_source_input_sizes = [12], p_input_alignment_bytes = 1,
     p_pad_buf = \<lparr>pb_ptr = 0, pb_capacity = 0\<rparr>, p_original_input_size = 0, p_input_size_hint = 12,
     p_buffer_metadata = [\<lparr>bm_buffer_id = 1, bm_actual_size = 3, bm_allocated_size = 12, bm_name = ''output'', bm_producer = 0, bm_output_index = 0\<rparr>],
     p_graph_mode_enabled = False, p_graph_captured = False, p_graph_input = \<lparr>pb_ptr = 0, pb_capacity = 0\<rparr>, p_graph_input_size = 0\<rparr>"

lemma demo_file_ok: "n \<le> 32 \<Longrightarrow> file_ok (demo_pipe n)"
  by (simp add: file_ok_def demo_pipe_def)

lemma demo_written: "\<exists>file. writeToFile demo_api (demo_pipe n) = Inr file"
  by (simp add: writeToFile_def buildHeader_def demo_pipe_def getBuffer_def buffers_def res_bind_def Let_def split_beta)

lemma demo_payload: "payload_of (demo_pipe n) = [64, 65, 66] @ replicate 13 0"
  by (simp add: payload_of_def demo_pipe_def segment_of_def pad16_def round16_def buf_def buffers_def mem_read_def upt_conv_Cons)

theorem file_roundtrip_witness:
  "\<exists>file fh ptr mem'. writeToFile demo_api (demo_pipe 1) = Inr file \<and> readHeader file = Inr fh \<and>
     loadCompressedData (\<lambda>_ _. Some 4096) (\<lambda>n _. n) file fh (make_pool demo_config True True, \<lambda>_. 0) =
       Inr (4096, snd (pool_allocate (\<lambda>_ _. Some 4096) (\<lambda>n _. n) 16 ''compressed_data_load'' False (make_pool demo_config True True)), mem') \<and>
     file_output_map 4096 fh 1 = Some (ptr, 3) \<and> mem_read mem' ptr 3 = [64, 65, 66]"
proof -
  let ?pl = "make_pool demo_config True True" and ?drv = "(\<lambda>_ _. Some 4096) :: driver"
  obtain bs where w: "writeToFile demo_api (demo_pipe 1) = Inr bs" using demo_written by blast
  have md: "p_buffer_metadata (demo_pipe 1) = [\<lparr>bm_buffer_id = 1, bm_actual_size = 3, bm_allocated_size = 12, bm_name = ''output'', bm_producer = 0, bm_output_index = 0\<rparr>]"
    by (simp add: demo_pipe_def)
  have seg: "segment_of (demo_pipe 1) (p_buffer_metadata (demo_pipe 1) ! 0) = [64, 65, 66]"
    by (simp add: demo_pipe_def segment_of_def buf_def buffers_def mem_read_def upt_conv_Cons)
  have al: "pool_allocate ?drv (\<lambda>n _. n) (word_of_nat (length (payload_of (demo_pipe 1)))) ''compressed_data_load'' False ?pl =
      (4096, snd (pool_allocate ?drv (\<lambda>n _. n) 16 ''compressed_data_load'' False ?pl))"
    by (simp add: demo_payload pool_allocate_def Let_def)
  from file_roundtrip [OF w demo_file_ok _ _ al, of "\<lambda>_. 0"] md seg w show ?thesis by auto
qed

theorem payload_corruption_refused_witness:
  "\<exists>pre post fh. writeToFile demo_api (demo_pipe 1) = Inr (pre @ [65] @ post) \<and> readHeader (pre @ [0] @ post) = Inr fh \<and>
     loadCompressedData (\<lambda>_ _. Some 4096) (\<lambda>n _. n) (pre @ [0] @ post) fh (make_pool demo_config True True, \<lambda>_. 0) =
       Inl (RuntimeError ''FZM data checksum mismatch in '')"
proof -
  obtain bs where w: "writeToFile demo_api (demo_pipe 1) = Inr bs" using demo_written by blast
  obtain fh where fh: "bs = header_bytes fh @ payload_of (demo_pipe 1)" "sealed fh" "fh_stages fh = map (stage_entry demo_api (demo_pipe 1)) (concat (levels (p_dag (demo_pipe 1))))"
    "fh_buffers fh = map (\<lambda>(m, k). buffer_entry demo_api (demo_pipe 1) m (word_of_nat k)) (zip (p_buffer_metadata (demo_pipe 1)) (slot_offs 0 (seg_sizes (demo_pipe 1))))"
    by (rule writeToFile_cases [OF w demo_file_ok]) auto
  have fl: "bs = (header_bytes fh @ [64]) @ [65] @ ([66] @ replicate 13 0)" by (simp add: fh(1) demo_payload)
  have len: "header_len (length (concat (levels (p_dag (demo_pipe 1))))) (length (p_buffer_metadata (demo_pipe 1))) \<le> length (header_bytes fh @ [64])"
    using sealedD(1) [OF fh(2)] by (simp add: fh(3,4))
  from payload_corruption_refused [OF w demo_file_ok fl len, of "[0]"] w fl show ?thesis by fastforce
qed

theorem header_corruption_refused_witness:
  "\<exists>pre a post. length pre = 200 \<and> writeToFile demo_api (demo_pipe 1) = Inr (pre @ [a] @ post) \<and>
     readHeader (pre @ [a + 1] @ post) = Inl (RuntimeError ''FZM header checksum mismatch in '')"
proof -
  obtain bs where w: "writeToFile demo_api (demo_pipe 1) = Inr bs" using demo_written by blast
  obtain fh where fh: "bs = header_bytes fh @ payload_of (demo_pipe 1)" "sealed fh" "fh_stages fh = map (stage_entry demo_api (demo_pipe 1)) (concat (levels (p_dag (demo_pipe 1))))"
    "fh_buffers fh = map (\<lambda>(m, k). buffer_entry demo_api (demo_pipe 1) m (word_of_nat k)) (zip (p_buffer_metadata (demo_pipe 1)) (slot_offs 0 (seg_sizes (demo_pipe 1))))"
    by (rule writeToFile_cases [OF w demo_file_ok]) auto
  have n: "length (concat (levels (p_dag (demo_pipe 1)))) = 1" "length (p_buffer_metadata (demo_pipe 1)) = 1" by (simp_all add: demo_pipe_def)
  have "592 \<le> length bs" using sealedD(1) [OF fh(2)] n by (simp add: fh header_len_def)
  then have fl: "bs = take 200 bs @ [bs ! 200] @ drop 201 bs" "length (take 200 bs) = 200"
    using id_take_nth_drop [of 200 bs] by simp_all
  have rng: "40 \<le> length (take 200 bs)" "length (take 200 bs) + length [bs ! 200] \<le> 76 \<or> 80 \<le> length (take 200 bs) \<and>
      length (take 200 bs) + length [bs ! 200] \<le> header_len (length (concat (levels (p_dag (demo_pipe 1))))) (length (p_buffer_metadata (demo_pipe 1)))"
    using n fl(2) by (simp_all add: header_len_def)
  have "readHeader (take 200 bs @ [bs ! 200 + 1] @ drop 201 bs) = Inl (RuntimeError ''FZM header checksum mismatch in '')"
    by (rule header_corruption_refused [OF w demo_file_ok fl(1) rng]) simp_all
  with w fl show ?thesis by metis
qed

theorem memory_header_roundtrip_witness:
  "\<exists>bs fh c. serializeHeaderToMemory demo_api (demo_pipe 2) = Inr bs \<and> parseHeaderFromMemory False bs =
     Inr (fh\<lparr>fh_core := fh_core fh\<lparr>hc_flags := FZM_FLAG_HAS_HEADER_CHECKSUM, hc_header_checksum := c\<rparr>\<rparr>)"
proof -
  have "\<exists>bs. serializeHeaderToMemory demo_api (demo_pipe 2) = Inr bs"
    by (simp add: serializeHeaderToMemory_def buildHeader_def demo_pipe_def Let_def split_beta)
  then show ?thesis using memory_header_roundtrip [OF _ demo_file_ok] by fastforce
qed

theorem topology_roundtrip_witness:
  "\<exists>file fh. writeToFile demo_api (demo_pipe 2) = Inr file \<and> readHeader file = Inr fh \<and>
     map fd_output_buf_ids (reconstructForwardTopology fh) = [[1], [2]] \<and>
     buildSourceSizesFromHeader fh (reconstructForwardTopology fh) = [(0, 12)]"
proof -
  obtain bs where w: "writeToFile demo_api (demo_pipe 2) = Inr bs" using demo_written by blast
  have o2: "concat (levels (p_dag (demo_pipe 2))) = [0, 1]" by (simp add: demo_pipe_def upt_conv_Cons)
  have nd: "output_buffer_ids (node (p_dag (demo_pipe 2)) i) = [int i + 1]" "input_buffer_ids (node (p_dag (demo_pipe 2)) i) = [int i]"
    "n_stage (node (p_dag (demo_pipe 2)) i) = Some i" if "i < 2" for i
    using that by (simp_all add: demo_pipe_def new_node_def)
  have pr: "n_stage (node (p_dag (demo_pipe 2)) ([0, 1] ! 0)) = primary_stage (demo_pipe 2)"
    by (simp add: primary_stage_def demo_pipe_def new_node_def)
  have ok: "\<forall>i\<in>set [0, 1]. ports_ok (input_buffer_ids (node (p_dag (demo_pipe 2)) i)) \<and> ports_ok (output_buffer_ids (node (p_dag (demo_pipe 2)) i))"
    using nd by (simp add: ports_ok_def)
  from topology_roundtrip [OF w demo_file_ok o2 [symmetric] ok _ pr] w nd show ?thesis
    by (auto simp: upt_conv_Cons demo_pipe_def new_node_def)
qed

theorem oversized_file_refused_witness:
  "\<exists>file. writeToFile demo_api (demo_pipe 33) = Inr file \<and> readHeader file = Inl (RuntimeError ''FZM header has too many stages/buffers'')"
proof -
  obtain bs where w: "writeToFile demo_api (demo_pipe 33) = Inr bs" using demo_written by blast
  have "length (concat (levels (p_dag (demo_pipe 33)))) = 33" by (simp add: demo_pipe_def)
  with oversized_file_refused [OF w] w show ?thesis by simp
qed

end
