(* ===== verification/Fusion.thy ===== *)
theory Fusion
  imports Pipeline_State
begin

section \<open>Fusion planning and the registry of fused implementations\<close>

text \<open>
  \<open>include/stage/fusion.h\<close>, \<open>src/pipeline/fusion_planner.cpp\<close>, \<open>Pipeline::planAndInstallFusion\<close> of
  \<open>src/pipeline/compressor.cpp\<close> and the matchers and runners of \<open>src/pipeline/fusion_registry.cpp\<close>.  What a
  stage declares is a record \<open>stage_decl\<close>, a parameter of the planner; the class tests of the inverse matcher
  (\<open>dynamic_cast\<close>) are the datatype \<open>stage_class\<close> with the members those tests read.
  Floating-point values appear only as the byte image a runner copies and as the tests the source makes on them.
\<close>

subsection \<open>Declarations of a stage\<close>

datatype fusion_access = Unfusable | Map | BlockLocal | TileAdaptive | Cooperative

record fusion_spec =
  fs_access :: fusion_access
  fs_block_size :: u32
  fs_coder_unit_size :: u32

definition no_spec :: fusion_spec where
  "no_spec = \<lparr>fs_access = Unfusable, fs_block_size = 0, fs_coder_unit_size = 0\<rparr>"

definition fusable :: "fusion_spec \<Rightarrow> bool" where
  "fusable s \<longleftrightarrow> fs_access s \<noteq> Unfusable"

datatype fusion_strategy = ChunkCooperative | WarpRegister

record fused_op_decl =
  fo_strategy :: fusion_strategy
  fo_op_name :: string
  fo_params :: "u8 list"
  fo_elems_per_lane :: u32
  fo_n_ab :: size_t
  fo_ti_op_name :: string

definition no_op :: fused_op_decl where
  "no_op = \<lparr>fo_strategy = ChunkCooperative, fo_op_name = [], fo_params = [], fo_elems_per_lane = 0, fo_n_ab = 0, fo_ti_op_name = []\<rparr>"

definition op_valid :: "fused_op_decl \<Rightarrow> bool" where
  "op_valid op \<longleftrightarrow> fo_op_name op \<noteq> []"

text \<open>\<open>outlier_capacity\<close> tells whether the quantizer's capacity differs from zero.\<close>

datatype stage_class =
    RZEStage (rze_word_size: nat) (rze_chunk_size: nat)
  | BitshuffleStage (bs_element_width: nat) (bs_block_size: nat)
  | DifferenceStage (df_chunk_size: nat)
  | QuantizerStage (q_chunk_inverse: bool) (q_outlier_capacity: bool)
  | OtherStage

record stage_decl =
  sd_name :: string
  sd_input_type :: data_type
  sd_spec :: fusion_spec
  sd_op :: fused_op_decl
  sd_inverse :: bool
  sd_inv_spec :: fusion_spec
  sd_inv_op :: fused_op_decl
  sd_class :: stage_class

subsection \<open>Geometry\<close>

record fusion_geometry =
  ge_block_size :: u32
  ge_selector_tile_size :: u32
  ge_coder_unit_size :: u32

definition no_geometry :: fusion_geometry where
  "no_geometry = \<lparr>ge_block_size = 0, ge_selector_tile_size = 0, ge_coder_unit_size = 0\<rparr>"

definition tileAdaptive :: "fusion_geometry \<Rightarrow> bool" where
  "tileAdaptive g \<longleftrightarrow> ge_selector_tile_size g \<noteq> 0"

datatype fusion_compatibility = Compatible | UnfusableStage | InvalidTileGeometry | TileAfterBlockLocal
  | MultipleTileSelectors | TileInteriorStageUnsupported | StandardBlockMismatch | TileCoderUnitMismatch

definition extendFusionGeometry :: "fusion_geometry \<Rightarrow> fusion_spec \<Rightarrow> fusion_compatibility \<times> fusion_geometry" where
  "extendFusionGeometry g next =
     (if \<not> fusable next then (UnfusableStage, g)
      else if fs_access next = Map then
        (if tileAdaptive g then TileInteriorStageUnsupported else Compatible, g)
      else if fs_access next = TileAdaptive then
        if fs_block_size next = 0 \<or> fs_coder_unit_size next = 0 \<or> fs_block_size next mod fs_coder_unit_size next \<noteq> 0
        then (InvalidTileGeometry, g)
        else if ge_block_size g \<noteq> 0 then (TileAfterBlockLocal, g)
        else if tileAdaptive g then (MultipleTileSelectors, g)
        else (Compatible, g\<lparr>ge_selector_tile_size := fs_block_size next, ge_coder_unit_size := fs_coder_unit_size next\<rparr>)
      else if tileAdaptive g then
        if fs_access next \<noteq> Cooperative then (TileInteriorStageUnsupported, g)
        else if fs_block_size next \<noteq> ge_coder_unit_size g then (TileCoderUnitMismatch, g)
        else (Compatible, g)
      else if fs_block_size next \<noteq> 0 then
        if ge_block_size g \<noteq> 0 \<and> ge_block_size g \<noteq> fs_block_size next then (StandardBlockMismatch, g)
        else (Compatible, g\<lparr>ge_block_size := fs_block_size next\<rparr>)
      else (Compatible, g))"

fun fusionCompatibilityName :: "fusion_compatibility \<Rightarrow> string" where
  "fusionCompatibilityName Compatible = ''compatible''"
| "fusionCompatibilityName UnfusableStage = ''unfusable_stage''"
| "fusionCompatibilityName InvalidTileGeometry = ''invalid_tile_geometry''"
| "fusionCompatibilityName TileAfterBlockLocal = ''tile_after_block_local''"
| "fusionCompatibilityName MultipleTileSelectors = ''multiple_tile_selectors''"
| "fusionCompatibilityName TileInteriorStageUnsupported = ''tile_interior_stage_unsupported''"
| "fusionCompatibilityName StandardBlockMismatch = ''standard_block_mismatch''"
| "fusionCompatibilityName TileCoderUnitMismatch = ''tile_coder_unit_mismatch''"

subsection \<open>Planning\<close>

definition spec_at :: "(nat \<Rightarrow> stage_decl) \<Rightarrow> dag \<Rightarrow> nat \<Rightarrow> fusion_spec" where
  "spec_at decl d i = sd_spec (decl (stage_of d i))"

definition linearFusableEdge :: "(nat \<Rightarrow> stage_decl) \<Rightarrow> dag \<Rightarrow> nat \<Rightarrow> nat \<Rightarrow> bool" where
  "linearFusableEdge decl d pr co \<longleftrightarrow>
     n_stage (node d pr) \<noteq> None \<and> n_stage (node d co) \<noteq> None \<and>
     fusable (spec_at decl d pr) \<and> fusable (spec_at decl d co) \<and>
     dependents (node d pr) = [co] \<and> dependencies (node d co) = [pr]"

record fusion_group =
  g_stages :: "nat list"
  g_stage_names :: "string list"
  g_block_size :: u32
  g_selector_tile_size :: u32
  g_coder_unit_size :: u32
  g_has_tile_adaptive :: bool
  g_has_coder :: bool

text \<open>The loop that extends a chain; \<open>None\<close> when \<open>fuel\<close> iterations did not reach its end.\<close>

fun walk_chain :: "nat \<Rightarrow> (nat \<Rightarrow> stage_decl) \<Rightarrow> dag \<Rightarrow> fusion_geometry \<Rightarrow> nat \<Rightarrow> (nat list \<times> fusion_geometry \<times> bool) option" where
  "walk_chain 0 decl d g cur = None"
| "walk_chain (Suc fuel) decl d g cur =
     (if fs_access (spec_at decl d cur) = Cooperative then Some ([cur], g, True)
      else if length (dependents (node d cur)) \<noteq> 1 then Some ([cur], g, False)
      else
        let nxt = hd (dependents (node d cur)) in
        if \<not> linearFusableEdge decl d cur nxt then Some ([cur], g, False)
        else case extendFusionGeometry g (spec_at decl d nxt) of
          (Compatible, g') \<Rightarrow>
            (case walk_chain fuel decl d g' nxt of
               None \<Rightarrow> None
             | Some (chain, g'', coder) \<Rightarrow> Some (cur # chain, g'', coder))
        | (_, _) \<Rightarrow> Some ([cur], g, False))"

definition is_chain_head :: "(nat \<Rightarrow> stage_decl) \<Rightarrow> dag \<Rightarrow> nat \<Rightarrow> bool" where
  "is_chain_head decl d i \<longleftrightarrow>
     \<not> (length (dependencies (node d i)) = 1 \<and> linearFusableEdge decl d (hd (dependencies (node d i))) i)"

definition make_group :: "dag \<Rightarrow> nat list \<Rightarrow> fusion_geometry \<Rightarrow> bool \<Rightarrow> fusion_group" where
  "make_group d chain g coder =
     \<lparr>g_stages = map (stage_of d) chain, g_stage_names = map (\<lambda>i. n_name (node d i)) chain,
      g_block_size = ge_block_size g, g_selector_tile_size = ge_selector_tile_size g,
      g_coder_unit_size = ge_coder_unit_size g, g_has_tile_adaptive = tileAdaptive g, g_has_coder = coder\<rparr>"

text \<open>One iteration of the loop over the nodes; the state is \<open>consumed\<close> and the chains found so far.\<close>

definition plan_node :: "(nat \<Rightarrow> stage_decl) \<Rightarrow> dag \<Rightarrow> nat \<Rightarrow> nat list \<times> (nat list \<times> fusion_group) list
   \<Rightarrow> (nat list \<times> (nat list \<times> fusion_group) list) option" where
  "plan_node decl d start st =
     (if n_stage (node d start) = None \<or> start \<in> set (fst st) then Some st
      else
        let sspec = spec_at decl d start in
        if \<not> fusable sspec \<or> \<not> is_chain_head decl d start \<or> fs_access sspec = Cooperative then Some st
        else case extendFusionGeometry no_geometry sspec of
          (Compatible, g) \<Rightarrow>
            (case walk_chain (length (nodes d)) decl d g start of
               None \<Rightarrow> None
             | Some (chain, g', coder) \<Rightarrow>
                 Some (chain @ fst st,
                       if 2 \<le> length chain then snd st @ [(chain, make_group d chain g' coder)] else snd st))
        | (_, _) \<Rightarrow> Some st)"

fun plan_nodes :: "(nat \<Rightarrow> stage_decl) \<Rightarrow> dag \<Rightarrow> nat list \<Rightarrow> nat list \<times> (nat list \<times> fusion_group) list
   \<Rightarrow> (nat list \<times> (nat list \<times> fusion_group) list) option" where
  "plan_nodes decl d [] st = Some st"
| "plan_nodes decl d (i # is) st = (case plan_node decl d i st of None \<Rightarrow> None | Some st' \<Rightarrow> plan_nodes decl d is st')"

text \<open>The groups, with the nodes each came from.\<close>

definition plan_chains :: "(nat \<Rightarrow> stage_decl) \<Rightarrow> dag \<Rightarrow> (nat list \<times> fusion_group) list option" where
  "plan_chains decl d = map_option snd (plan_nodes decl d [0..<length (nodes d)] ([], []))"

definition planFusionGroups :: "(nat \<Rightarrow> stage_decl) \<Rightarrow> dag \<Rightarrow> fusion_group list option" where
  "planFusionGroups decl d = map_option (map snd) (plan_chains decl d)"

subsection \<open>The registry\<close>

definition matchesWarpRegister :: "stage_decl list \<Rightarrow> bool" where
  "matchesWarpRegister g \<longleftrightarrow>
     3 \<le> length g \<and> sd_input_type (hd g) = DT_FLOAT32 \<and> sd_input_type (last g) = DT_INT32 \<and>
     list_all (\<lambda>s. op_valid (sd_op s) \<and> fo_strategy (sd_op s) = WarpRegister) g \<and>
     fs_access (sd_spec (hd g)) = Map \<and> fs_access (sd_spec (g ! 1)) = BlockLocal \<and>
     fs_access (sd_spec (last g)) = Cooperative \<and>
     list_all (\<lambda>s. fs_access (sd_spec s) = Map \<or> fs_access (sd_spec s) = BlockLocal) (butlast (drop 2 g))"

definition count_access :: "fusion_access \<Rightarrow> stage_decl list \<Rightarrow> nat" where
  "count_access a g = length (filter (\<lambda>s. fs_access (sd_spec s) = a) g)"

definition matchesChunkCooperative :: "stage_decl list \<Rightarrow> bool" where
  "matchesChunkCooperative g \<longleftrightarrow>
     2 \<le> length g \<and> list_all (\<lambda>s. op_valid (sd_op s) \<and> fo_strategy (sd_op s) = ChunkCooperative) g \<and>
     count_access Map g = 1 \<and> count_access Cooperative g = 1 \<and>
     fs_access (sd_spec (hd g)) = Map \<and> fs_access (sd_spec (last g)) = Cooperative"

fun matchesChunkCooperativeInverse :: "stage_decl list \<Rightarrow> bool" where
  "matchesChunkCooperativeInverse [a, b, c, e] =
     (case (sd_class a, sd_class b, sd_class c, sd_class e) of
        (RZEStage ws cs, BitshuffleStage ew bsz, DifferenceStage dcs, QuantizerStage qi _) \<Rightarrow>
          sd_inverse a \<and> sd_inverse b \<and> sd_inverse c \<and> sd_inverse e \<and> ws = 1 \<and> ew = 4 \<and>
          (cs = 4096 \<or> cs = 8192 \<or> cs = 16384) \<and> bsz = cs \<and> dcs = cs \<and> qi
      | _ \<Rightarrow> False)"
| "matchesChunkCooperativeInverse _ = False"

fun matchesWarpRegisterInverse :: "stage_decl list \<Rightarrow> bool" where
  "matchesWarpRegisterInverse [coder, pred, quant] \<longleftrightarrow>
     list_all (\<lambda>s. sd_inverse s \<and> op_valid (sd_inv_op s) \<and> fo_strategy (sd_inv_op s) = WarpRegister) [coder, pred, quant] \<and>
     fs_access (sd_inv_spec coder) = Cooperative \<and> fs_access (sd_inv_spec pred) = BlockLocal \<and>
     fs_access (sd_inv_spec quant) = Map \<and>
     fs_block_size (sd_inv_spec coder) \<noteq> 0 \<and> fs_block_size (sd_inv_spec pred) = fs_block_size (sd_inv_spec coder)"
| "matchesWarpRegisterInverse _ \<longleftrightarrow> False"

record fused_impl =
  fi_name :: string
  fi_auto_enabled :: bool
  fi_matches :: "stage_decl list \<Rightarrow> bool"

definition kBuiltins :: "fused_impl list" where
  "kBuiltins =
     [\<lparr>fi_name = ''warp-register'', fi_auto_enabled = True, fi_matches = matchesWarpRegister\<rparr>,
      \<lparr>fi_name = ''chunk-coop'', fi_auto_enabled = True, fi_matches = matchesChunkCooperative\<rparr>,
      \<lparr>fi_name = ''chunk-coop-inverse'', fi_auto_enabled = True, fi_matches = matchesChunkCooperativeInverse\<rparr>,
      \<lparr>fi_name = ''warp-register-inverse'', fi_auto_enabled = True, fi_matches = matchesWarpRegisterInverse\<rparr>]"

text \<open>The index of the first implementation that accepts the group.\<close>

definition findFusedImpl :: "stage_decl list \<Rightarrow> bool \<Rightarrow> nat option" where
  "findFusedImpl grp include_experimental =
     (case filter (\<lambda>k. (fi_auto_enabled (kBuiltins ! k) \<or> include_experimental) \<and> fi_matches (kBuiltins ! k) grp)
        [0..<length kBuiltins] of [] \<Rightarrow> None | k # _ \<Rightarrow> Some k)"

subsection \<open>Selection\<close>

record candidate =
  c_begin :: nat
  c_end :: nat
  c_impl :: nat

text \<open>\<open>impl_of\<close> is the registry lookup on a span of the maximal chain.\<close>

definition candidates :: "('s list \<Rightarrow> nat option) \<Rightarrow> 's list \<Rightarrow> candidate list" where
  "candidates impl_of stages =
     concat (map (\<lambda>b. concat (map (\<lambda>e.
         case impl_of (take (e - b) (drop b stages)) of
           None \<Rightarrow> [] | Some k \<Rightarrow> [\<lparr>c_begin = b, c_end = e, c_impl = k\<rparr>])
       (rev [b + 2..<Suc (length stages)]))) [0..<length stages - 1])"

text \<open>The two arrays of the weighted interval selection, filled from the right.\<close>

definition try_candidate :: "nat \<Rightarrow> candidate \<Rightarrow> nat list \<times> candidate option list \<Rightarrow> nat list \<times> candidate option list" where
  "try_candidate ri c st =
     (if c_begin c \<noteq> ri then st
      else
        let score = (c_end c - c_begin c - 1) + fst st ! c_end c in
        if fst st ! ri < score then ((fst st)[ri := score], (snd st)[ri := Some c]) else st)"

definition dp_step :: "candidate list \<Rightarrow> nat \<Rightarrow> nat list \<times> candidate option list \<Rightarrow> nat list \<times> candidate option list" where
  "dp_step cs ri st = fold (try_candidate ri) cs ((fst st)[ri := fst st ! (ri + 1)], snd st)"

definition dp_table :: "candidate list \<Rightarrow> nat \<Rightarrow> nat list \<times> candidate option list" where
  "dp_table cs cnt = fold (dp_step cs) (rev [0..<cnt]) (replicate (cnt + 1) 0, replicate cnt None)"

text \<open>The walk over \<open>choice\<close>; \<open>None\<close> when \<open>fuel\<close> iterations were not enough.\<close>

fun select_spans :: "nat \<Rightarrow> candidate option list \<Rightarrow> nat \<Rightarrow> candidate list option" where
  "select_spans 0 choice i = (if i < length choice then None else Some [])"
| "select_spans (Suc fuel) choice i =
     (if i < length choice then
        case choice ! i of
          None \<Rightarrow> select_spans fuel choice (i + 1)
        | Some c \<Rightarrow> map_option (\<lambda>cs. c # cs) (select_spans fuel choice (c_end c))
      else Some [])"

definition chosen_spans :: "('s list \<Rightarrow> nat option) \<Rightarrow> 's list \<Rightarrow> candidate list option" where
  "chosen_spans impl_of stages =
     select_spans (length stages) (snd (dp_table (candidates impl_of stages) (length stages))) 0"

subsection \<open>Installation\<close>

datatype fusion_policy = Off | Auto | Force

record fusion_group_info =
  gi_implementation :: string
  gi_stages :: "string list"

record fusion_info =
  in_policy :: fusion_policy
  in_legal_group_count :: nat
  in_installed_groups :: "fusion_group_info list"
  in_fallback_reason :: string

definition resolve_policy :: "fusion_policy \<Rightarrow> string option \<Rightarrow> string option \<Rightarrow> fusion_policy" where
  "resolve_policy policy specialize fusion =
     (case (case specialize of None \<Rightarrow> fusion | Some e \<Rightarrow> Some e) of
        None \<Rightarrow> policy
      | Some v \<Rightarrow>
          if v = ''off'' \<or> v = ''0'' then Off
          else if v = ''auto'' \<or> v = ''1'' then Auto
          else if v = ''force'' \<or> v = ''experimental'' \<or> v = ''2'' then Force
          else policy)"

text \<open>A selected span as an executable group; a stage without a node drops it.\<close>

definition install_span :: "(nat \<rightharpoonup> nat) \<Rightarrow> nat list \<Rightarrow> candidate \<Rightarrow> fused_group_exec list" where
  "install_span stage_to_node stages c =
     (let span = take (c_end c - c_begin c) (drop (c_begin c) stages); members = map stage_to_node span in
      if None \<in> set members then []
      else [\<lparr>fg_head = the (hd members), fg_tail = the (last members), fg_members = map the members, fg_stages = span,
             fg_impl = c_impl c\<rparr>])"

definition install_group :: "(nat \<Rightarrow> stage_decl) \<Rightarrow> bool \<Rightarrow> (nat \<rightharpoonup> nat) \<Rightarrow> fusion_group \<Rightarrow> fused_group_exec list option" where
  "install_group decl experimental stage_to_node g =
     map_option (\<lambda>cs. concat (map (install_span stage_to_node (g_stages g)) cs))
       (chosen_spans (\<lambda>span. findFusedImpl (map decl span) experimental) (g_stages g))"

fun install_groups :: "(nat \<Rightarrow> stage_decl) \<Rightarrow> bool \<Rightarrow> (nat \<rightharpoonup> nat) \<Rightarrow> fusion_group list \<Rightarrow> fused_group_exec list option" where
  "install_groups decl ex s2n [] = Some []"
| "install_groups decl ex s2n (g # gs) =
     (case install_group decl ex s2n g of
        None \<Rightarrow> None
      | Some fgs \<Rightarrow> map_option (\<lambda>rest. fgs @ rest) (install_groups decl ex s2n gs))"

definition planAndInstallFusion :: "(nat \<Rightarrow> stage_decl) \<Rightarrow> fusion_policy \<Rightarrow> string option \<Rightarrow> string option \<Rightarrow> pipeline
   \<Rightarrow> (fusion_info \<times> pipeline) option" where
  "planAndInstallFusion decl policy specialize fusion p =
     (let mode = resolve_policy policy specialize fusion in
      if mode = Off
      then Some (\<lparr>in_policy = mode, in_legal_group_count = 0, in_installed_groups = [], in_fallback_reason = ''policy_off''\<rparr>, p)
      else
        case planFusionGroups decl (p_dag p) of
          None \<Rightarrow> None
        | Some gs \<Rightarrow>
          (case install_groups decl (mode = Force) (p_stage_to_node p) gs of
             None \<Rightarrow> None
           | Some installed \<Rightarrow>
             (let info = \<lparr>in_policy = mode, in_legal_group_count = length gs,
                    in_installed_groups = map (\<lambda>fg. \<lparr>gi_implementation = fi_name (kBuiltins ! fg_impl fg),
                       gi_stages = map (\<lambda>s. sd_name (decl s)) (fg_stages fg)\<rparr>) installed,
                    in_fallback_reason = (if installed \<noteq> [] then []
                       else if gs = [] then ''no_legal_group'' else ''no_profitable_implementation'')\<rparr>
              in if installed = [] then Some (info, p)
                 else Some (info, p\<lparr>p_x := p_x p\<lparr>x_dag := setFusedGroups installed (p_dag p)\<rparr>,
                                    p_graph_mode_enabled := False\<rparr>))))"

subsection \<open>Chains\<close>

abbreviation linear_path :: "(nat \<Rightarrow> stage_decl) \<Rightarrow> dag \<Rightarrow> nat list \<Rightarrow> bool" where
  "linear_path decl d \<equiv> successively (linearFusableEdge decl d)"

lemma linear_pred_unique: "linearFusableEdge decl d p c \<Longrightarrow> linearFusableEdge decl d p' c \<Longrightarrow> p = p'"
  by (simp add: linearFusableEdge_def)

lemma chain_head_no_pred: "is_chain_head decl d i \<Longrightarrow> \<not> linearFusableEdge decl d p i"
  by (auto simp: is_chain_head_def linearFusableEdge_def)

lemma successively_nth: "successively P xs \<Longrightarrow> Suc i < length xs \<Longrightarrow> P (xs ! i) (xs ! Suc i)"
proof (induction xs arbitrary: i)
  case Nil
  then show ?case by simp
next
  case (Cons x xs)
  then show ?case by (cases i) (auto simp: successively_Cons hd_conv_nth)
qed

text \<open>Two chains that start at heads and share a node share it at the same position, and start alike.\<close>

lemma path_meet:
  assumes "linear_path decl d xs" "linear_path decl d ys" "i < length xs" "j < length ys" "xs ! i = ys ! j"
    and "is_chain_head decl d (hd xs)" "is_chain_head decl d (hd ys)"
  shows "i = j \<and> hd xs = hd ys"
  using assms(3-5)
proof (induction i arbitrary: j)
  case 0
  have "xs ! 0 = hd xs" using assms(3) by (cases xs) auto
  show ?case
  proof (cases j)
    case 0
    then show ?thesis using "0.prems" by (cases xs; cases ys) auto
  next
    case (Suc k)
    have "linearFusableEdge decl d (ys ! k) (ys ! Suc k)" using successively_nth [OF assms(2)] "0.prems" Suc by simp
    then show ?thesis using chain_head_no_pred [OF assms(6)] "0.prems" Suc \<open>xs ! 0 = hd xs\<close> by metis
  qed
next
  case (Suc i)
  have e: "linearFusableEdge decl d (xs ! i) (xs ! Suc i)" by (rule successively_nth [OF assms(1) Suc.prems(1)])
  show ?case
  proof (cases j)
    case 0
    moreover have "ys ! 0 = hd ys" using Suc.prems(2) by (cases ys) auto
    ultimately show ?thesis using e chain_head_no_pred [OF assms(7)] Suc.prems by metis
  next
    case (Suc k)
    have "linearFusableEdge decl d (ys ! k) (ys ! Suc k)" using successively_nth [OF assms(2)] Suc.prems Suc by simp
    then have "xs ! i = ys ! k" using e Suc.prems(3) Suc linear_pred_unique by metis
    with Suc.IH [of k] Suc.prems Suc show ?thesis by simp
  qed
qed

lemma path_distinct: "linear_path decl d xs \<Longrightarrow> is_chain_head decl d (hd xs) \<Longrightarrow> distinct xs"
  using path_meet [of decl d xs xs] by (auto simp: distinct_conv_nth)

lemma path_range:
  "linear_path decl d xs \<Longrightarrow> wf_links d \<Longrightarrow> xs \<noteq> [] \<Longrightarrow> hd xs < length (nodes d) \<Longrightarrow> set xs \<subseteq> {..<length (nodes d)}"
proof (induction xs)
  case Nil
  then show ?case by simp
next
  case (Cons x xs)
  show ?case
  proof (cases xs)
    case Nil
    then show ?thesis using Cons.prems by simp
  next
    case (Cons y ys)
    then have "linearFusableEdge decl d x y" using Cons.prems(1) by simp
    then have "y \<in> set (dependents (node d x))" by (simp add: linearFusableEdge_def)
    then have "y < length (nodes d)" using wf_linksD(3) Cons.prems(2,4) by simp
    then show ?thesis using Cons.IH Cons Cons.prems by simp
  qed
qed

subsection \<open>Geometry of a chain\<close>

fun extend_all :: "fusion_geometry \<Rightarrow> fusion_spec list \<Rightarrow> fusion_geometry option" where
  "extend_all g [] = Some g"
| "extend_all g (s # ss) = (case extendFusionGeometry g s of (Compatible, g') \<Rightarrow> extend_all g' ss | _ \<Rightarrow> None)"

lemma extend_all_append:
  "extend_all g (xs @ ys) = (case extend_all g xs of None \<Rightarrow> None | Some g' \<Rightarrow> extend_all g' ys)"
  by (induction xs arbitrary: g) (auto split: prod.splits fusion_compatibility.splits)

text \<open>What a set of specs agrees on: one block size, or one selector tile divided into coder units.\<close>

definition geometry_ok :: "fusion_geometry \<Rightarrow> fusion_spec list \<Rightarrow> bool" where
  "geometry_ok g specs \<longleftrightarrow> list_all fusable specs \<and>
     (if tileAdaptive g then
        ge_block_size g = 0 \<and> ge_coder_unit_size g \<noteq> 0 \<and> ge_selector_tile_size g mod ge_coder_unit_size g = 0 \<and>
        length (filter (\<lambda>s. fs_access s = TileAdaptive) specs) = 1 \<and>
        list_all (\<lambda>s. (fs_access s = TileAdaptive \<longrightarrow> fs_block_size s = ge_selector_tile_size g \<and> fs_coder_unit_size s = ge_coder_unit_size g) \<and>
                      (fs_access s = BlockLocal \<longrightarrow> fs_block_size s = 0)) specs
      else
        list_all (\<lambda>s. fs_access s \<noteq> TileAdaptive \<and>
                      (fs_access s \<noteq> Map \<longrightarrow> fs_block_size s = 0 \<or> fs_block_size s = ge_block_size g)) specs)"

lemma extend_geometry_ok:
  assumes "geometry_ok g specs" "extendFusionGeometry g s = (Compatible, g')"
  shows "geometry_ok g' (specs @ [s])"
proof (cases "fs_access s")
  case Unfusable
  then show ?thesis using assms(2) by (simp add: extendFusionGeometry_def fusable_def)
next
  case Map
  then show ?thesis using assms by (auto simp: extendFusionGeometry_def geometry_ok_def fusable_def split: if_splits)
next
  case BlockLocal
  then show ?thesis using assms
    by (auto simp: extendFusionGeometry_def geometry_ok_def fusable_def list_all_iff tileAdaptive_def split: if_splits)
next
  case TileAdaptive
  then have t: "\<not> tileAdaptive g" "ge_block_size g = 0" "fs_block_size s \<noteq> 0" "fs_coder_unit_size s \<noteq> 0"
    "fs_block_size s mod fs_coder_unit_size s = 0" "g' = g\<lparr>ge_selector_tile_size := fs_block_size s, ge_coder_unit_size := fs_coder_unit_size s\<rparr>"
    using assms(2) by (auto simp: extendFusionGeometry_def split: if_splits)
  moreover from t(1) assms(1) have "filter (\<lambda>s. fs_access s = TileAdaptive) specs = []"
    by (auto simp: geometry_ok_def list_all_iff filter_empty_conv)
  ultimately show ?thesis using assms(1) TileAdaptive
    by (auto simp: geometry_ok_def list_all_iff tileAdaptive_def fusable_def)
next
  case Cooperative
  then show ?thesis using assms
    by (auto simp: extendFusionGeometry_def geometry_ok_def fusable_def list_all_iff tileAdaptive_def split: if_splits)
qed

lemma extend_all_ok: "extend_all no_geometry specs = Some g \<Longrightarrow> geometry_ok g specs"
proof (induction specs arbitrary: g rule: rev_induct)
  case Nil
  then show ?case by (auto simp: geometry_ok_def no_geometry_def tileAdaptive_def)
next
  case (snoc s specs)
  then show ?case
    by (auto simp: extend_all_append intro: extend_geometry_ok split: option.splits prod.splits fusion_compatibility.splits)
qed

lemma tile_coder_unit:
  assumes "extend_all no_geometry (specs @ [s]) = Some g" "tileAdaptive g" "fs_access s = Cooperative"
  shows "fs_block_size s = ge_coder_unit_size g"
  using assms
  by (auto simp: extend_all_append extendFusionGeometry_def tileAdaptive_def split: option.splits if_splits)

subsection \<open>The planner\<close>

lemma walk_chain_spec:
  assumes "walk_chain fuel decl d g cur = Some (chain, g', coder)"
  shows "chain \<noteq> [] \<and> hd chain = cur \<and> linear_path decl d chain \<and> extend_all g (map (spec_at decl d) (tl chain)) = Some g' \<and>
    list_all (\<lambda>i. fs_access (spec_at decl d i) \<noteq> Cooperative) (butlast chain) \<and>
    coder = (fs_access (spec_at decl d (last chain)) = Cooperative)"
  using assms
proof (induction fuel arbitrary: g cur chain)
  case 0
  then show ?case by simp
next
  case (Suc fuel)
  let ?n = "hd (dependents (node d cur))"
  show ?case
  proof (cases "fs_access (spec_at decl d cur) = Cooperative \<or> length (dependents (node d cur)) \<noteq> 1 \<or>
      \<not> linearFusableEdge decl d cur ?n \<or> fst (extendFusionGeometry g (spec_at decl d ?n)) \<noteq> Compatible")
    case True
    then have "chain = [cur] \<and> g' = g \<and> coder = (fs_access (spec_at decl d cur) = Cooperative)"
      using Suc.prems by (auto simp: Let_def split: if_splits prod.splits fusion_compatibility.splits)
    then show ?thesis by simp
  next
    case False
    then obtain g1 where g1: "extendFusionGeometry g (spec_at decl d ?n) = (Compatible, g1)" by (metis prod.collapse)
    with False Suc.prems obtain ch where ch: "walk_chain fuel decl d g1 ?n = Some (ch, g', coder)" "chain = cur # ch"
      by (auto simp: Let_def split: if_splits option.splits)
    from Suc.IH [OF ch(1)] ch(2) g1 False show ?thesis
      by (cases ch) (auto simp: successively_Cons)
  qed
qed

lemma walk_chain_None:
  "walk_chain fuel decl d g cur = None \<Longrightarrow> \<exists>xs. length xs = Suc fuel \<and> hd xs = cur \<and> linear_path decl d xs"
proof (induction fuel arbitrary: g cur)
  case 0
  show ?case by (rule exI [of _ "[cur]"]) simp
next
  case (Suc fuel)
  let ?n = "hd (dependents (node d cur))"
  from Suc.prems obtain g1 where "linearFusableEdge decl d cur ?n" "walk_chain fuel decl d g1 ?n = None"
    by (auto simp: Let_def split: if_splits prod.splits fusion_compatibility.splits option.splits)
  with Suc.IH obtain xs where "length xs = Suc fuel" "hd xs = ?n" "linear_path decl d xs" "linearFusableEdge decl d cur ?n" by blast
  then show ?case by (intro exI [of _ "cur # xs"]) (auto simp: successively_Cons)
qed

lemma walk_chain_terminates:
  assumes "wf_links d" "is_chain_head decl d cur" "cur < length (nodes d)"
  shows "walk_chain (length (nodes d)) decl d g cur \<noteq> None"
proof
  assume "walk_chain (length (nodes d)) decl d g cur = None"
  then obtain xs where xs: "length xs = Suc (length (nodes d))" "hd xs = cur" "linear_path decl d xs" using walk_chain_None by blast
  have "distinct xs" using path_distinct [OF xs(3)] assms(2) xs(2) by simp
  moreover have "set xs \<subseteq> {..<length (nodes d)}" using path_range [OF xs(3) assms(1)] xs(1,2) assms(3) by fastforce
  ultimately show False using xs(1) card_mono [of "{..<length (nodes d)}" "set xs"] by (simp add: distinct_card)
qed

text \<open>
  What a planned group is: at least two nodes, each linearly fused to the next, no coder but the
  last, and a geometry all members agree on.
\<close>

definition legal_group :: "(nat \<Rightarrow> stage_decl) \<Rightarrow> dag \<Rightarrow> nat list \<times> fusion_group \<Rightarrow> bool" where
  "legal_group decl d cg \<longleftrightarrow>
     (let chain = fst cg; g = snd cg; specs = map (spec_at decl d) chain;
          geo = \<lparr>ge_block_size = g_block_size g, ge_selector_tile_size = g_selector_tile_size g, ge_coder_unit_size = g_coder_unit_size g\<rparr>
      in 2 \<le> length chain \<and> list_all (\<lambda>i. i < length (nodes d)) chain \<and> g_stages g = map (stage_of d) chain \<and>
         linear_path decl d chain \<and> list_all (\<lambda>s. fs_access s \<noteq> Cooperative) (butlast specs) \<and>
         g_has_coder g = (fs_access (last specs) = Cooperative) \<and> g_has_tile_adaptive g = tileAdaptive geo \<and>
         geometry_ok geo specs \<and>
         (g_has_tile_adaptive g \<and> g_has_coder g \<longrightarrow> fs_block_size (last specs) = g_coder_unit_size g))"

lemma legal_make_group:
  assumes w: "walk_chain fuel decl d g0 start = Some (chain, g, coder)"
    and e: "extendFusionGeometry no_geometry (spec_at decl d start) = (Compatible, g0)"
    and "2 \<le> length chain" "wf_links d" "start < length (nodes d)"
  shows "legal_group decl d (chain, make_group d chain g coder)"
proof -
  note ws = walk_chain_spec [OF w]
  then have ch: "chain = start # tl chain" by (cases chain) auto
  have ext: "extend_all no_geometry (map (spec_at decl d) chain) = Some g"
    using ws e by (subst ch) simp
  have rng: "list_all (\<lambda>i. i < length (nodes d)) chain"
    using path_range [of decl d chain] ws assms(4,5) by (auto simp: list_all_iff)
  have sp: "map (spec_at decl d) chain = butlast (map (spec_at decl d) chain) @ [last (map (spec_at decl d) chain)]"
    using ws by simp
  have geo: "\<lparr>ge_block_size = ge_block_size g, ge_selector_tile_size = ge_selector_tile_size g, ge_coder_unit_size = ge_coder_unit_size g\<rparr> = g" by simp
  have lc: "fs_access (last (map (spec_at decl d) chain)) = Cooperative \<longleftrightarrow> coder" using ws by (simp add: last_map)
  have tu: "tileAdaptive g \<Longrightarrow> coder \<Longrightarrow> fs_block_size (last (map (spec_at decl d) chain)) = ge_coder_unit_size g"
    using tile_coder_unit [of "butlast (map (spec_at decl d) chain)"] ext sp lc by metis
  show ?thesis
    using assms(3) ws rng extend_all_ok [OF ext] lc tu
    by (simp add: legal_group_def make_group_def geo Let_def list_all_iff map_butlast [symmetric])
qed

definition plan_inv :: "(nat \<Rightarrow> stage_decl) \<Rightarrow> dag \<Rightarrow> nat \<Rightarrow> (nat list \<times> fusion_group) list \<Rightarrow> bool" where
  "plan_inv decl d n cgs \<longleftrightarrow> list_all (legal_group decl d) cgs \<and>
     list_all (\<lambda>cg. is_chain_head decl d (hd (fst cg)) \<and> hd (fst cg) < n) cgs \<and> distinct (map (hd \<circ> fst) cgs)"

lemma plan_node_step:
  assumes "wf_links d" "i < length (nodes d)" "plan_inv decl d i (snd st)"
  shows "\<exists>st'. plan_node decl d i st = Some st' \<and> plan_inv decl d (Suc i) (snd st')"
proof (cases "n_stage (node d i) = None \<or> i \<in> set (fst st) \<or> \<not> fusable (spec_at decl d i) \<or> \<not> is_chain_head decl d i \<or>
    fs_access (spec_at decl d i) = Cooperative \<or> fst (extendFusionGeometry no_geometry (spec_at decl d i)) \<noteq> Compatible")
  case True
  then have "plan_node decl d i st = Some st"
    by (auto simp: plan_node_def Let_def split: prod.splits fusion_compatibility.splits)
  moreover have "plan_inv decl d (Suc i) (snd st)" using assms(3) by (auto simp: plan_inv_def list_all_iff)
  ultimately show ?thesis by blast
next
  case False
  then obtain g0 where g0: "extendFusionGeometry no_geometry (spec_at decl d i) = (Compatible, g0)" by (metis prod.collapse)
  obtain chain g coder where w: "walk_chain (length (nodes d)) decl d g0 i = Some (chain, g, coder)"
    using walk_chain_terminates [OF assms(1) _ assms(2)] False by (metis not_None_eq prod_cases3)
  note ws = walk_chain_spec [OF w]
  have "plan_inv decl d (Suc i) (if 2 \<le> length chain then snd st @ [(chain, make_group d chain g coder)] else snd st)"
    using assms(3) ws False legal_make_group [OF w g0 _ assms(1,2)] by (auto simp: plan_inv_def list_all_iff)
  then show ?thesis using False g0 w by (auto simp: plan_node_def)
qed

lemma plan_nodes_inv:
  assumes "wf_links d" "m \<le> length (nodes d)"
  shows "plan_inv decl d k (snd st) \<Longrightarrow> k \<le> m \<Longrightarrow>
    \<exists>st'. plan_nodes decl d [k..<m] st = Some st' \<and> plan_inv decl d m (snd st')"
proof (induction "m - k" arbitrary: k st)
  case 0
  then show ?case by simp
next
  case (Suc n)
  then have k: "k < m" "[k..<m] = k # [Suc k..<m]" by (simp_all add: upt_conv_Cons)
  obtain st1 where st1: "plan_node decl d k st = Some st1" "plan_inv decl d (Suc k) (snd st1)"
    using plan_node_step [OF assms(1) _ Suc.prems(1)] k(1) assms(2) by auto
  from Suc.hyps(1) [OF _ st1(2)] Suc.hyps(2) k st1(1) show ?case by auto
qed

lemma plan_inv_disjoint: "plan_inv decl d n cgs \<Longrightarrow> distinct (concat (map fst cgs))"
proof (induction cgs)
  case Nil
  then show ?case by simp
next
  case (Cons cg cgs)
  have lp: "linear_path decl d (fst c)" "fst c \<noteq> []" if "c \<in> set (cg # cgs)" for c
    using Cons.prems that by (auto simp: plan_inv_def list_all_iff legal_group_def Let_def)
  have hd: "is_chain_head decl d (hd (fst c))" if "c \<in> set (cg # cgs)" for c
    using Cons.prems that by (auto simp: plan_inv_def list_all_iff)
  have "set (fst cg) \<inter> set (fst c) = {}" if c: "c \<in> set cgs" for c
  proof (rule ccontr)
    assume "set (fst cg) \<inter> set (fst c) \<noteq> {}"
    then obtain i j where "i < length (fst cg)" "j < length (fst c)" "fst cg ! i = fst c ! j"
      by (metis disjoint_iff in_set_conv_nth)
    from path_meet [OF lp(1) lp(1) this] hd c have "hd (fst cg) = hd (fst c)" by simp
    moreover have "hd (fst cg) \<noteq> hd (fst c)" using Cons.prems c by (auto simp: plan_inv_def)
    ultimately show False by simp
  qed
  moreover have "distinct (fst cg)" by (rule path_distinct [OF lp(1) hd]) simp_all
  moreover have "distinct (concat (map fst cgs))" using Cons by (simp add: plan_inv_def)
  ultimately show ?case by auto
qed

lemma plan_chains_legal:
  assumes "wf_links d"
  shows "\<exists>cgs. plan_chains decl d = Some cgs \<and> distinct (concat (map fst cgs)) \<and> list_all (legal_group decl d) cgs"
proof -
  have "plan_inv decl d 0 (snd (([], []) :: nat list \<times> (nat list \<times> fusion_group) list))" by (simp add: plan_inv_def)
  from plan_nodes_inv [OF assms order_refl this] obtain st where
    "plan_nodes decl d [0..<length (nodes d)] ([], []) = Some st" "plan_inv decl d (length (nodes d)) (snd st)" by blast
  then show ?thesis using plan_inv_disjoint by (auto simp: plan_chains_def plan_inv_def)
qed

text \<open>
  C32. Planning always ends and returns legal groups only: on a consistent graph the planner
  returns, its groups come from pairwise disjoint node chains, and every group is a chain of at least two
  stages in which each stage is the only consumer of the one before, only the last may be a
  coder, and the block sizes agree (one block size, or one selector tile that is a multiple of the
  coder unit, which is then the coder's block size).
\<close>

theorem planned_groups_legal:
  assumes "dag_wf d"
  shows "\<exists>cgs. planFusionGroups decl d = Some (map snd cgs) \<and> distinct (concat (map fst cgs)) \<and> list_all (legal_group decl d) cgs"
  using plan_chains_legal [of d decl] assms by (auto simp: planFusionGroups_def dag_wf_def)

subsection \<open>The selection is optimal\<close>

definition launches_removed :: "candidate list \<Rightarrow> nat" where
  "launches_removed cs = sum_list (map (\<lambda>c. c_end c - c_begin c - 1) cs)"

text \<open>A choice of pairwise disjoint candidates, from position \<open>i\<close> on, in order.\<close>

definition selection_from :: "candidate list \<Rightarrow> nat \<Rightarrow> candidate list \<Rightarrow> bool" where
  "selection_from cs i sel \<longleftrightarrow> set sel \<subseteq> set cs \<and> sorted_wrt (\<lambda>a b. c_end a \<le> c_begin b) sel \<and> (\<forall>c\<in>set sel. i \<le> c_begin c)"

definition spans_ok :: "nat \<Rightarrow> candidate list \<Rightarrow> bool" where
  "spans_ok n cs \<longleftrightarrow> (\<forall>c\<in>set cs. c_begin c + 2 \<le> c_end c \<and> c_end c \<le> n)"

abbreviation score :: "nat list \<Rightarrow> candidate \<Rightarrow> nat" where
  "score best c \<equiv> c_end c - c_begin c - 1 + best ! c_end c"

text \<open>What the tables satisfy at position \<open>j\<close>.\<close>

definition dp_at :: "candidate list \<Rightarrow> nat list \<times> candidate option list \<Rightarrow> nat \<Rightarrow> bool" where
  "dp_at cs st j \<longleftrightarrow> fst st ! (j + 1) \<le> fst st ! j \<and> (\<forall>c\<in>set cs. c_begin c = j \<longrightarrow> score (fst st) c \<le> fst st ! j) \<and>
     (snd st ! j = None \<and> fst st ! j = fst st ! (j + 1) \<or>
      (\<exists>c\<in>set cs. snd st ! j = Some c \<and> c_begin c = j \<and> fst st ! j = score (fst st) c))"

definition dp_ok :: "candidate list \<Rightarrow> nat \<Rightarrow> nat \<Rightarrow> nat list \<times> candidate option list \<Rightarrow> bool" where
  "dp_ok cs n ri st \<longleftrightarrow> length (fst st) = n + 1 \<and> length (snd st) = n \<and> fst st ! n = 0 \<and>
     (\<forall>j<ri. snd st ! j = None) \<and> (\<forall>j. ri \<le> j \<and> j < n \<longrightarrow> dp_at cs st j)"

lemma try_fold:
  assumes "spans_ok n cs" "ri < n" "length best = n + 1" "length choice = n" "choice ! ri = None"
  shows "set ds \<subseteq> set cs \<Longrightarrow> \<exists>v o'. fold (try_candidate ri) ds (best[ri := best ! (ri + 1)], choice) = (best[ri := v], choice[ri := o']) \<and>
     best ! (ri + 1) \<le> v \<and> (\<forall>c\<in>set ds. c_begin c = ri \<longrightarrow> score best c \<le> v) \<and>
     (o' = None \<and> v = best ! (ri + 1) \<or> (\<exists>c\<in>set cs. o' = Some c \<and> c_begin c = ri \<and> v = score best c))"
proof (induction ds rule: rev_induct)
  case Nil
  show ?case by (rule exI [of _ "best ! (ri + 1)"], rule exI [of _ None]) (use assms(5) list_update_id [of choice ri] in simp)
next
  case (snoc c ds)
  then obtain v o' where IH: "fold (try_candidate ri) ds (best[ri := best ! (ri + 1)], choice) = (best[ri := v], choice[ri := o'])"
    "best ! (ri + 1) \<le> v" "\<forall>c\<in>set ds. c_begin c = ri \<longrightarrow> score best c \<le> v"
    "o' = None \<and> v = best ! (ri + 1) \<or> (\<exists>c\<in>set cs. o' = Some c \<and> c_begin c = ri \<and> v = score best c)"
    by auto
  show ?case
  proof (cases "c_begin c = ri \<and> v < score best c")
    case True
    have "c \<in> set cs" using snoc.prems by simp
    then have ne: "c_end c \<noteq> ri" using assms(1) True unfolding spans_ok_def by fastforce
    have "try_candidate ri c (best[ri := v], choice[ri := o']) = (best[ri := score best c], choice[ri := Some c])"
      using True ne assms(2,3) by (auto simp: try_candidate_def Let_def)
    then show ?thesis using IH True \<open>c \<in> set cs\<close>
      by (intro exI [of _ "score best c"] exI [of _ "Some c"]) (auto intro: less_imp_le le_trans)
  next
    case False
    have ne: "c_begin c = ri \<Longrightarrow> c_end c \<noteq> ri" using assms(1) snoc.prems unfolding spans_ok_def by fastforce
    have "try_candidate ri c (best[ri := v], choice[ri := o']) = (best[ri := v], choice[ri := o'])"
      using False ne assms(2,3) by (auto simp: try_candidate_def Let_def)
    then show ?thesis using IH False by (intro exI [of _ v] exI [of _ o']) auto
  qed
qed

lemma dp_step_ok:
  assumes "spans_ok n cs" "dp_ok cs n (Suc ri) st" "ri < n"
  shows "dp_ok cs n ri (dp_step cs ri st)"
proof -
  obtain best choice where st: "st = (best, choice)" by fastforce
  have len: "length best = n + 1" "length choice = n" "choice ! ri = None" "best ! n = 0"
    and at: "\<And>j. Suc ri \<le> j \<Longrightarrow> j < n \<Longrightarrow> dp_at cs st j" and none: "\<forall>j<Suc ri. choice ! j = None"
    using assms(2) st by (auto simp: dp_ok_def)
  obtain v o' where f: "dp_step cs ri st = (best[ri := v], choice[ri := o'])" "best ! (ri + 1) \<le> v"
    "\<forall>c\<in>set cs. c_begin c = ri \<longrightarrow> score best c \<le> v"
    "o' = None \<and> v = best ! (ri + 1) \<or> (\<exists>c\<in>set cs. o' = Some c \<and> c_begin c = ri \<and> v = score best c)"
    using try_fold [OF assms(1,3) len(1-3) order_refl] by (auto simp: dp_step_def st)
  have ends: "c_begin c < c_end c" if "c \<in> set cs" for c using assms(1) that unfolding spans_ok_def by fastforce
  have sc: "best[ri := v] ! c_end c = best ! c_end c" if "c \<in> set cs" "ri \<le> c_begin c" for c
    using ends [OF that(1)] that(2) by simp
  have "dp_at cs (best[ri := v], choice[ri := o']) ri"
    using f(2-4) sc len assms(3) by (fastforce simp: dp_at_def)
  moreover have "dp_at cs (best[ri := v], choice[ri := o']) j" if "Suc ri \<le> j" "j < n" for j
    using at [OF that] sc that by (fastforce simp: dp_at_def st)
  ultimately have "\<forall>j. ri \<le> j \<and> j < n \<longrightarrow> dp_at cs (best[ri := v], choice[ri := o']) j" by (metis le_eq_less_or_eq Suc_leI)
  then show ?thesis using f(1) len none assms(3) by (simp add: dp_ok_def)
qed

lemma dp_table_ok:
  assumes "spans_ok n cs"
  shows "dp_ok cs n 0 (dp_table cs n)"
proof -
  have "dp_ok cs n (n - k) (fold (dp_step cs) (rev [n - k..<n]) (replicate (n + 1) 0, replicate n None))" if "k \<le> n" for k
    using that
  proof (induction k)
    case 0
    then show ?case by (auto simp: dp_ok_def simp del: replicate_Suc)
  next
    case (Suc k)
    then have e: "[n - Suc k..<n] = (n - Suc k) # [n - k..<n]" "Suc (n - Suc k) = n - k" by (simp_all add: upt_conv_Cons Suc_diff_Suc)
    have "dp_ok cs n (n - k) (fold (dp_step cs) (rev [n - k..<n]) (replicate (n + 1) 0, replicate n None))" using Suc by simp
    then show ?case using dp_step_ok [OF assms, of "n - Suc k"] e Suc.prems by simp
  qed
  from this [of n] show ?thesis by (simp add: dp_table_def)
qed

lemma best_bound:
  assumes "spans_ok n cs" "dp_ok cs n 0 st"
  shows "selection_from cs j sel \<Longrightarrow> j \<le> n \<Longrightarrow> launches_removed sel \<le> fst st ! j"
proof (induction "n - j" arbitrary: j sel rule: less_induct)
  case less
  show ?case
  proof (cases "j < n")
    case False
    have "sel = []"
    proof (cases sel)
      case (Cons c cs')
      then have "c \<in> set cs" "j \<le> c_begin c" using less.prems(1) by (auto simp: selection_from_def)
      then show ?thesis using assms(1) False unfolding spans_ok_def by fastforce
    qed
    then show ?thesis by (simp add: launches_removed_def)
  next
    case j: True
  then have at: "dp_at cs st j" using assms(2) by (simp add: dp_ok_def)
  show ?thesis
  proof (cases "sel \<noteq> [] \<and> c_begin (hd sel) = j")
    case True
    then obtain c r where s: "sel = c # r" "c_begin c = j" by (cases sel) auto
    have c: "c \<in> set cs" using less.prems(1) s by (simp add: selection_from_def)
    then have "c_begin c + 2 \<le> c_end c" "c_end c \<le> n" using assms(1) unfolding spans_ok_def by blast+
    moreover have "selection_from cs (c_end c) r" using less.prems(1) s by (auto simp: selection_from_def)
    ultimately have "launches_removed r \<le> fst st ! c_end c"
      using less.hyps [of "c_end c" r] s(2) by simp
    then show ?thesis using at c s by (fastforce simp: dp_at_def launches_removed_def)
  next
    case False
    have "selection_from cs (Suc j) sel"
    proof -
      have "Suc j \<le> c_begin c" if "c \<in> set sel" for c
      proof -
        have "j \<le> c_begin (hd sel)" using less.prems(1) that by (cases sel) (auto simp: selection_from_def)
        then have h: "j < c_begin (hd sel)" using False that by (cases sel) auto
        show ?thesis
        proof (cases "c = hd sel")
          case False
          then have "c_end (hd sel) \<le> c_begin c" using less.prems(1) that by (cases sel) (auto simp: selection_from_def)
          moreover have "c_begin (hd sel) \<le> c_end (hd sel)"
            using assms(1) less.prems(1) that unfolding spans_ok_def selection_from_def by (cases sel) fastforce+
          ultimately show ?thesis using h by simp
        qed (use h in simp)
      qed
      then show ?thesis using less.prems(1) by (auto simp: selection_from_def)
    qed
    then have "launches_removed sel \<le> fst st ! (j + 1)" using less.hyps [of "Suc j" sel] j by simp
    then show ?thesis using at by (simp add: dp_at_def)
  qed
qed
qed

lemma select_spans_ok:
  assumes "spans_ok n cs" "dp_ok cs n 0 st"
  shows "i \<le> n \<Longrightarrow> n - i \<le> fuel \<Longrightarrow>
    \<exists>sel. select_spans fuel (snd st) i = Some sel \<and> selection_from cs i sel \<and> launches_removed sel = fst st ! i"
proof (induction fuel arbitrary: i)
  case 0
  then show ?case using assms(2) by (simp add: dp_ok_def selection_from_def launches_removed_def)
next
  case (Suc fuel)
  have len: "length (snd st) = n" "fst st ! n = 0" using assms(2) by (simp_all add: dp_ok_def)
  show ?case
  proof (cases "i < n")
    case False
    then show ?thesis using Suc.prems(1) len by (simp add: selection_from_def launches_removed_def)
  next
    case True
    then have at: "dp_at cs st i" using assms(2) by (simp add: dp_ok_def)
    then consider "snd st ! i = None" "fst st ! i = fst st ! (i + 1)"
      | c where "c \<in> set cs" "snd st ! i = Some c" "c_begin c = i" "fst st ! i = score (fst st) c"
      by (auto simp: dp_at_def)
    then show ?thesis
    proof cases
      case 1
      have "i + 1 \<le> n" "n - (i + 1) \<le> fuel" using True Suc.prems by linarith+
      from Suc.IH [OF this] obtain sel where
        "select_spans fuel (snd st) (i + 1) = Some sel" "selection_from cs (i + 1) sel" "launches_removed sel = fst st ! (i + 1)" by blast
      with 1 True len show ?thesis by (fastforce simp: selection_from_def)
    next
      case 2
      then have c: "c_begin c + 2 \<le> c_end c" "c_end c \<le> n" using assms(1) unfolding spans_ok_def by blast+
      have "n - c_end c \<le> fuel" using c Suc.prems 2 True by linarith
      from Suc.IH [OF c(2) this] obtain sel where
        "select_spans fuel (snd st) (c_end c) = Some sel" "selection_from cs (c_end c) sel" "launches_removed sel = fst st ! c_end c" by blast
      with 2 True len c show ?thesis
        by (intro exI [of _ "c # sel"]) (fastforce simp: selection_from_def launches_removed_def)
    qed
  qed
qed

lemma set_candidates:
  "c \<in> set (candidates impl_of stages) \<longleftrightarrow> c_begin c + 2 \<le> c_end c \<and> c_end c \<le> length stages \<and>
     impl_of (take (c_end c - c_begin c) (drop (c_begin c) stages)) = Some (c_impl c)"
proof
  assume "c \<in> set (candidates impl_of stages)"
  then show "c_begin c + 2 \<le> c_end c \<and> c_end c \<le> length stages \<and> impl_of (take (c_end c - c_begin c) (drop (c_begin c) stages)) = Some (c_impl c)"
    by (auto simp: candidates_def split: option.splits)
next
  assume a: "c_begin c + 2 \<le> c_end c \<and> c_end c \<le> length stages \<and> impl_of (take (c_end c - c_begin c) (drop (c_begin c) stages)) = Some (c_impl c)"
  then have b: "c_begin c \<in> set [0..<length stages - 1]" "c_end c \<in> set (rev [c_begin c + 2..<Suc (length stages)])" by auto
  have "c \<in> set (case impl_of (take (c_end c - c_begin c) (drop (c_begin c) stages)) of None \<Rightarrow> [] | Some k \<Rightarrow> [\<lparr>c_begin = c_begin c, c_end = c_end c, c_impl = k\<rparr>])"
    using a by (cases c) simp
  then have inner: "c \<in> set (concat (map (\<lambda>e. case impl_of (take (e - c_begin c) (drop (c_begin c) stages)) of
      None \<Rightarrow> [] | Some k \<Rightarrow> [\<lparr>c_begin = c_begin c, c_end = e, c_impl = k\<rparr>]) (rev [c_begin c + 2..<Suc (length stages)])))"
    unfolding set_concat set_map by (rule UN_I [OF imageI [OF b(2)]])
  show "c \<in> set (candidates impl_of stages)"
    unfolding candidates_def by (subst set_concat, subst set_map, rule UN_I [OF imageI [OF b(1)]]) (rule inner)
qed

lemma chosen_spans_selection:
  "\<exists>sel. chosen_spans impl_of stages = Some sel \<and> selection_from (candidates impl_of stages) 0 sel \<and>
     (\<forall>other. selection_from (candidates impl_of stages) 0 other \<longrightarrow> launches_removed other \<le> launches_removed sel)"
proof -
  let ?cs = "candidates impl_of stages" and ?n = "length stages"
  have ok: "spans_ok ?n ?cs" by (simp add: spans_ok_def set_candidates)
  note dp = dp_table_ok [OF ok]
  from select_spans_ok [OF ok dp, of 0 ?n] best_bound [OF ok dp, of 0] show ?thesis by (auto simp: chosen_spans_def)
qed

definition matching_span :: "('s list \<Rightarrow> nat option) \<Rightarrow> 's list \<Rightarrow> candidate \<Rightarrow> bool" where
  "matching_span impl_of stages c \<longleftrightarrow> c_begin c + 2 \<le> c_end c \<and> c_end c \<le> length stages \<and>
     impl_of (take (c_end c - c_begin c) (drop (c_begin c) stages)) = Some (c_impl c)"

text \<open>
  C29. The selection is total and optimal: for every registry and every chain of stages, the
  table and the walk over it return pairwise disjoint spans inside the chain, each accepted by the
  registry with the recorded implementation, and no set of disjoint accepted spans removes more
  kernel launches.
\<close>

theorem fusion_selection_optimal:
  "\<exists>sel. chosen_spans impl_of stages = Some sel \<and> list_all (matching_span impl_of stages) sel \<and>
     sorted_wrt (\<lambda>a b. c_end a \<le> c_begin b) sel \<and>
     (\<forall>other. list_all (matching_span impl_of stages) other \<and> sorted_wrt (\<lambda>a b. c_end a \<le> c_begin b) other \<longrightarrow>
        launches_removed other \<le> launches_removed sel)"
  using chosen_spans_selection [of impl_of stages]
  by (auto simp: selection_from_def subset_eq set_candidates list_all_iff matching_span_def)

subsection \<open>What gets installed\<close>

text \<open>The pipeline's node table knows every stage of the graph.\<close>

definition nodes_known :: "(nat \<rightharpoonup> nat) \<Rightarrow> dag \<Rightarrow> bool" where
  "nodes_known s2n d \<longleftrightarrow> (\<forall>i<length (nodes d). n_stage (node d i) \<noteq> None \<longrightarrow> s2n (stage_of d i) = Some i)"

definition installed_ok :: "(nat \<Rightarrow> stage_decl) \<Rightarrow> bool \<Rightarrow> dag \<Rightarrow> fused_group_exec \<Rightarrow> bool" where
  "installed_ok decl ex d fg \<longleftrightarrow> 2 \<le> length (fg_members fg) \<and> fg_head fg = hd (fg_members fg) \<and> fg_tail fg = last (fg_members fg) \<and>
     linear_path decl d (fg_members fg) \<and> fg_stages fg = map (stage_of d) (fg_members fg) \<and>
     findFusedImpl (map decl (fg_stages fg)) ex = Some (fg_impl fg)"

lemma sublist_path: "successively P xs \<Longrightarrow> successively P (take k (drop m xs))"
  by (metis append_take_drop_id successively_append_iff)

lemma legal_group_nodes:
  assumes "nodes_known s2n d" "legal_group decl d (chain, g)"
  shows "map s2n (g_stages g) = map Some chain"
proof -
  have lp: "linear_path decl d chain" "2 \<le> length chain" "g_stages g = map (stage_of d) chain" "\<forall>i\<in>set chain. i < length (nodes d)"
    using assms(2) by (auto simp: legal_group_def Let_def list_all_iff)
  have "n_stage (node d (chain ! i)) \<noteq> None" if "i < length chain" for i
  proof (cases "Suc i < length chain")
    case True
    from successively_nth [OF lp(1) this] show ?thesis by (simp add: linearFusableEdge_def)
  next
    case False
    then obtain k where "i = Suc k" using that lp(2) by (cases i) auto
    with successively_nth [OF lp(1), of k] that show ?thesis by (simp add: linearFusableEdge_def)
  qed
  then have "s2n (stage_of d i) = Some i" if "i \<in> set chain" for i
    using assms(1) lp(4) that unfolding nodes_known_def by (metis in_set_conv_nth)
  then show ?thesis by (simp add: lp(3))
qed

lemma install_span_members:
  assumes "map s2n stages = map Some chain" "matching_span impl_of stages c"
  shows "install_span s2n stages c = [\<lparr>fg_head = hd (take (c_end c - c_begin c) (drop (c_begin c) chain)),
     fg_tail = last (take (c_end c - c_begin c) (drop (c_begin c) chain)), fg_members = take (c_end c - c_begin c) (drop (c_begin c) chain),
     fg_stages = take (c_end c - c_begin c) (drop (c_begin c) stages), fg_impl = c_impl c\<rparr>]"
proof -
  let ?m = "take (c_end c - c_begin c) (drop (c_begin c) chain)"
  have len: "length stages = length chain" using arg_cong [OF assms(1), of length] by simp
  have m: "map s2n (take (c_end c - c_begin c) (drop (c_begin c) stages)) = map Some ?m"
    using assms(1) by (metis drop_map take_map)
  have ne: "?m \<noteq> []" using assms(2) len by (auto simp: matching_span_def)
  show ?thesis unfolding install_span_def Let_def m using ne by (simp add: hd_map last_map image_iff comp_def)
qed

lemma disjoint_spans:
  assumes "sorted_wrt (\<lambda>a b. c_end a \<le> c_begin b) sel" "\<forall>c\<in>set sel. c_begin c \<le> c_end c" "distinct chain"
  shows "distinct (concat (map (\<lambda>c. take (c_end c - c_begin c) (drop (c_begin c) chain)) sel))"
  using assms(1,2)
proof (induction sel)
  case Nil
  then show ?case by simp
next
  case (Cons c sel)
  have "set (take (c_end c - c_begin c) (drop (c_begin c) chain)) \<inter> set (take (c_end b - c_begin b) (drop (c_begin b) chain)) = {}"
    if b: "b \<in> set sel" for b
  proof -
    have "c_end c \<le> c_begin b" "c_begin c \<le> c_end c" using Cons.prems b by auto
    then have "set (take (c_end c - c_begin c) (drop (c_begin c) chain)) \<subseteq> set (take (c_begin b) chain)"
      by (metis set_drop_subset drop_take order_trans set_take_subset_set_take)
    moreover have "set (take (c_end b - c_begin b) (drop (c_begin b) chain)) \<subseteq> set (drop (c_begin b) chain)" by (rule set_take_subset)
    moreover have "set (take (c_begin b) chain) \<inter> set (drop (c_begin b) chain) = {}" by (rule set_take_disj_set_drop_if_distinct) (use assms(3) in simp_all)
    ultimately show ?thesis by blast
  qed
  moreover have "distinct (concat (map (\<lambda>c. take (c_end c - c_begin c) (drop (c_begin c) chain)) sel))" using Cons by simp
  ultimately show ?case using assms(3) by auto
qed

lemma install_group_ok:
  assumes "nodes_known s2n d" "legal_group decl d (chain, g)" "distinct chain"
  shows "\<exists>fgs. install_group decl ex s2n g = Some fgs \<and> list_all (installed_ok decl ex d) fgs \<and>
    distinct (concat (map fg_members fgs)) \<and> set (concat (map fg_members fgs)) \<subseteq> set chain"
proof -
  let ?f = "\<lambda>span. findFusedImpl (map decl span) ex" and ?st = "g_stages g"
  have lp: "linear_path decl d chain" "?st = map (stage_of d) chain" using assms(2) by (auto simp: legal_group_def Let_def)
  note mp = legal_group_nodes [OF assms(1,2)]
  obtain sel where sel: "chosen_spans ?f ?st = Some sel" "selection_from (candidates ?f ?st) 0 sel"
    using chosen_spans_selection by blast
  have ms: "matching_span ?f ?st c" if "c \<in> set sel" for c
    using sel(2) that by (auto simp: selection_from_def matching_span_def set_candidates)
  let ?sub = "\<lambda>c. take (c_end c - c_begin c) (drop (c_begin c) chain)"
  let ?fg = "\<lambda>c. \<lparr>fg_head = hd (?sub c), fg_tail = last (?sub c), fg_members = ?sub c,
     fg_stages = take (c_end c - c_begin c) (drop (c_begin c) ?st), fg_impl = c_impl c\<rparr>"
  have "concat (map (install_span s2n ?st) sel) = concat (map (\<lambda>c. [?fg c]) sel)"
    by (rule arg_cong [of _ _ concat], rule map_cong [OF refl], rule install_span_members [OF mp ms])
  then have fgs: "install_group decl ex s2n g = Some (map ?fg sel)"
    using sel(1) by (simp add: install_group_def)
  have "installed_ok decl ex d (?fg c)" if "c \<in> set sel" for c
    using ms [OF that] lp sublist_path [OF lp(1)]
    by (auto simp: installed_ok_def matching_span_def take_map drop_map)
  moreover have "distinct (concat (map ?sub sel))"
  proof (rule disjoint_spans [OF _ _ assms(3)])
    show "sorted_wrt (\<lambda>a b. c_end a \<le> c_begin b) sel" using sel(2) by (simp add: selection_from_def)
    show "\<forall>c\<in>set sel. c_begin c \<le> c_end c" using ms unfolding matching_span_def by fastforce
  qed
  moreover have "set (concat (map ?sub sel)) \<subseteq> set chain" by (auto dest: in_set_takeD in_set_dropD)
  ultimately show ?thesis using fgs by (auto simp: list_all_iff comp_def)
qed

lemma install_groups_ok:
  assumes "nodes_known s2n d"
  shows "list_all (legal_group decl d) cgs \<Longrightarrow> distinct (concat (map fst cgs)) \<Longrightarrow>
    \<exists>fgs. install_groups decl ex s2n (map snd cgs) = Some fgs \<and> list_all (installed_ok decl ex d) fgs \<and>
    distinct (concat (map fg_members fgs)) \<and> set (concat (map fg_members fgs)) \<subseteq> set (concat (map fst cgs))"
proof (induction cgs)
  case Nil
  then show ?case by simp
next
  case (Cons cg cgs)
  obtain chain g where cg: "cg = (chain, g)" by fastforce
  obtain f1 where f1: "install_group decl ex s2n g = Some f1" "list_all (installed_ok decl ex d) f1"
    "distinct (concat (map fg_members f1))" "set (concat (map fg_members f1)) \<subseteq> set chain"
    using install_group_ok [OF assms, of decl chain g ex] Cons.prems cg by auto
  obtain f2 where f2: "install_groups decl ex s2n (map snd cgs) = Some f2" "list_all (installed_ok decl ex d) f2"
    "distinct (concat (map fg_members f2))" "set (concat (map fg_members f2)) \<subseteq> set (concat (map fst cgs))"
    using Cons by auto
  have "set chain \<inter> set (concat (map fst cgs)) = {}" using Cons.prems(2) cg by auto
  then have "distinct (concat (map fg_members (f1 @ f2)))"
    using f1(3,4) f2(3,4) unfolding map_append concat_append distinct_append by blast
  then show ?case using f1 f2 cg by auto
qed

text \<open>
  C30. Installation is total and sound: on a consistent graph \<open>planAndInstallFusion\<close> returns, no node belongs to
  two installed groups, every installed group is a linear chain of at least two nodes with its head
  and tail at the ends, its implementation is the registry's answer for exactly those stages, and graph mode is off
  whenever a group is installed.
\<close>

theorem installed_groups_sound:
  assumes "dag_wf (p_dag p)" "nodes_known (p_stage_to_node p) (p_dag p)" "fused_groups (p_dag p) = []"
  shows "\<exists>info p'. planAndInstallFusion decl policy env1 env2 p = Some (info, p') \<and>
    distinct (concat (map fg_members (fused_groups (p_dag p')))) \<and>
    list_all (installed_ok decl (resolve_policy policy env1 env2 = Force) (p_dag p)) (fused_groups (p_dag p')) \<and>
    length (in_installed_groups info) = length (fused_groups (p_dag p')) \<and>
    (fused_groups (p_dag p') = [] \<or> p_graph_mode_enabled p' = False)"
proof (cases "resolve_policy policy env1 env2 = Off")
  case True
  then show ?thesis using assms(3) by (simp add: planAndInstallFusion_def)
next
  case False
  have "wf_links (p_dag p)" using assms(1) by (simp add: dag_wf_def)
  then obtain cgs where cgs: "plan_chains decl (p_dag p) = Some cgs" "distinct (concat (map fst cgs))" "list_all (legal_group decl (p_dag p)) cgs"
    using plan_chains_legal by blast
  obtain fgs where fgs: "install_groups decl (resolve_policy policy env1 env2 = Force) (p_stage_to_node p) (map snd cgs) = Some fgs"
    "list_all (installed_ok decl (resolve_policy policy env1 env2 = Force) (p_dag p)) fgs" "distinct (concat (map fg_members fgs))"
    using install_groups_ok [OF assms(2) cgs(3,2)] by blast
  show ?thesis
    using False cgs(1) fgs assms(3)
    by (cases "fgs = []") (simp_all add: planAndInstallFusion_def planFusionGroups_def setFusedGroups_def Let_def)
qed

subsection \<open>The runners\<close>

text \<open>
  \<open>launch\<close> stands for the composed kernel: it gets the spec, the packed parameters, the element count and
  the room for outliers, and returns the archive size and the number of outliers met.
\<close>

record chunk_fusion_spec =
  cf_quant_op :: string
  cf_transforms :: "string list"
  cf_coder :: string
  cf_chunk_bytes :: u32

record side_port =
  sp_name :: string
  sp_capacity :: size_t

definition add_chunk_op :: "stage_decl \<Rightarrow> chunk_fusion_spec \<times> u8 list \<times> stage_decl option \<Rightarrow> chunk_fusion_spec \<times> u8 list \<times> stage_decl option" where
  "add_chunk_op s st =
     (let (spec, blob, coder) = st; op = sd_op s in
      case fs_access (sd_spec s) of
        Map \<Rightarrow> (spec\<lparr>cf_quant_op := fo_op_name op\<rparr>, blob @ fo_params op, coder)
      | Cooperative \<Rightarrow> (spec\<lparr>cf_coder := fo_op_name op\<rparr>, blob @ fo_params op, Some s)
      | _ \<Rightarrow> (spec\<lparr>cf_transforms := cf_transforms spec @ [fo_op_name op]\<rparr>, blob @ fo_params op, coder))"

definition assemble_chunk :: "stage_decl list \<Rightarrow> chunk_fusion_spec \<times> u8 list" where
  "assemble_chunk g =
     (let (spec, blob, coder) = fold add_chunk_op g
            (\<lparr>cf_quant_op = ''QuantInplaceZigzag'', cf_transforms = [], cf_coder = ''RZECoder'', cf_chunk_bytes = 16384\<rparr>, [], None)
      in (spec\<lparr>cf_chunk_bytes := fs_block_size (sd_spec (the coder))\<rparr>, blob))"

text \<open>The last port of that name, as the loop over the side outputs leaves it.\<close>

definition port_named :: "string \<Rightarrow> side_port list \<Rightarrow> side_port option" where
  "port_named n ps = (case filter (\<lambda>p. sp_name p = n) ps of [] \<Rightarrow> None | qs \<Rightarrow> Some (last qs))"

definition side_room :: "side_port \<Rightarrow> side_port \<Rightarrow> u32" where
  "side_room i v = (let ci = ucast (sp_capacity i div 4) :: u32; cv = ucast (sp_capacity v div 4) :: u32 in if ci < cv then ci else cv)"

definition runChunkCooperative ::
  "(chunk_fusion_spec \<Rightarrow> u8 list \<Rightarrow> size_t \<Rightarrow> u32 \<Rightarrow> size_t \<times> u32) \<Rightarrow> stage_decl list \<Rightarrow> size_t \<Rightarrow> side_port list
   \<Rightarrow> (size_t \<times> (size_t \<times> size_t) option) res" where
  "runChunkCooperative launch g input_bytes sides =
     (let (spec, blob) = assemble_chunk g; n = input_bytes div 4;
          so_idxs = port_named ''outlier_idxs'' sides; so_vals = port_named ''outlier_vals'' sides
      in case (so_idxs, so_vals) of
           (Some pi, Some pv) \<Rightarrow>
             (let room = side_room pi pv; (archive, outliers) = launch spec blob n room;
                  strict = (case sd_class (hd g) of QuantizerStage _ cap \<Rightarrow> cap | _ \<Rightarrow> False);
                  written = (if outliers < room then outliers else room)
              in if room < outliers \<and> strict then Inl (RuntimeError ''QuantizerStage: outlier overflow'')
                 else Inr (archive, Some (ucast written * 4, ucast written * 4)))
         | _ \<Rightarrow> Inr (fst (launch spec blob n 0), None))"

record warp_fusion_spec =
  wf_predictor :: string
  wf_transforms :: "string list"
  wf_coder :: string
  wf_elems_per_lane :: u32
  wf_predictor_ti :: string
  wf_coder_ti :: string

text \<open>\<open>inv2eb\<close>: the four bytes of the reciprocal quantization step the runner patches in.\<close>

definition assemble_warp :: "u8 list \<Rightarrow> stage_decl list \<Rightarrow> warp_fusion_spec \<times> u8 list" where
  "assemble_warp inv2eb g =
     (let pd = sd_op (g ! 1); cd = sd_op (last g); blob = fo_params pd in
      (\<lparr>wf_predictor = fo_op_name pd, wf_transforms = map (\<lambda>i. fo_op_name (sd_op (g ! i))) [2..<length g - 1],
        wf_coder = fo_op_name cd, wf_elems_per_lane = fo_elems_per_lane pd, wf_predictor_ti = fo_ti_op_name pd,
        wf_coder_ti = fo_ti_op_name cd\<rparr>,
       if 4 \<le> length blob then inv2eb @ drop 4 blob else blob))"

text \<open>
  \<open>step_ok\<close>: the step the head exposes is finite and positive.  Returns the archive size and the size of
  the coder's logical input it reports.
\<close>

definition runWarpRegister ::
  "(warp_fusion_spec \<Rightarrow> size_t \<Rightarrow> u8 list \<Rightarrow> size_t) \<Rightarrow> bool \<Rightarrow> u8 list \<Rightarrow> stage_decl list \<Rightarrow> size_t \<Rightarrow> (size_t \<times> size_t) res" where
  "runWarpRegister launch step_ok inv2eb g input_bytes =
     (if \<not> step_ok then Inl (RuntimeError ''warp-register specialization requires its Map head to expose a finite positive quantization step'')
      else res_bind (getDataTypeSize (sd_input_type (hd g))) (\<lambda>isz.
        let (spec, blob) = assemble_warp inv2eb g; d = fo_n_ab (sd_op (g ! 1));
            n_ab = (if d \<noteq> 0 then d else input_bytes div isz)
        in res_bind (getDataTypeSize (sd_input_type (last g))) (\<lambda>csz. Inr (launch spec n_ab blob, n_ab * csz))))"

lemma add_chunk_interior:
  assumes "\<forall>s\<in>set g. fs_access (sd_spec s) \<noteq> Map \<and> fs_access (sd_spec s) \<noteq> Cooperative"
  shows "fold add_chunk_op g (spec, blob, coder) =
    (spec\<lparr>cf_transforms := cf_transforms spec @ map (\<lambda>s. fo_op_name (sd_op s)) g\<rparr>, blob @ concat (map (\<lambda>s. fo_params (sd_op s)) g), coder)"
  using assms
  by (induction g arbitrary: spec blob) (auto simp: add_chunk_op_def Let_def split: fusion_access.splits)

lemma chunk_group_shape:
  assumes "matchesChunkCooperative g"
  obtains h m t where "g = h # m @ [t]" "fs_access (sd_spec h) = Map" "fs_access (sd_spec t) = Cooperative"
    "\<forall>s\<in>set m. fs_access (sd_spec s) \<noteq> Map \<and> fs_access (sd_spec s) \<noteq> Cooperative"
proof -
  have len: "2 \<le> length g" "fs_access (sd_spec (hd g)) = Map" "fs_access (sd_spec (last g)) = Cooperative"
    "count_access Map g = 1" "count_access Cooperative g = 1"
    using assms by (auto simp: matchesChunkCooperative_def)
  obtain h r where g: "g = h # r" "r \<noteq> []" using len(1) by (cases g) (auto simp: Suc_le_length_iff)
  then obtain m t where r: "r = m @ [t]" by (metis append_butlast_last_id)
  have "filter (\<lambda>s. fs_access (sd_spec s) = Map) m = []" "filter (\<lambda>s. fs_access (sd_spec s) = Cooperative) m = []"
    using len g r by (auto simp: count_access_def)
  then show thesis using that [of h m t] len g r by (auto simp: filter_empty_conv)
qed

lemma ucast_times4_le:
  assumes "unat (w :: u32) \<le> unat (cap :: size_t) div 4"
  shows "(ucast w :: size_t) * 4 \<le> cap"
proof -
  have "unat ((ucast w :: size_t) * 4) = unat w * 4"
    using unat_less_pow [of w] by (simp add: unat_word_ariths unsigned_ucast_eq take_bit_nat_eq_self)
  then show ?thesis using assms by (simp add: word_le_nat_alt)
qed

lemma side_room_fits: "unat (side_room i v) \<le> unat (sp_capacity i) div 4" "unat (side_room i v) \<le> unat (sp_capacity v) div 4"
proof -
  have "unat (ucast (c div 4) :: u32) \<le> unat c div 4" for c :: size_t
    by (simp add: unsigned_ucast_eq unat_div take_bit_eq_mod)
  then have 1: "unat (ucast (sp_capacity i div 4) :: u32) \<le> unat (sp_capacity i) div 4" "unat (ucast (sp_capacity v div 4) :: u32) \<le> unat (sp_capacity v) div 4" by blast+
  show "unat (side_room i v) \<le> unat (sp_capacity i) div 4" "unat (side_room i v) \<le> unat (sp_capacity v) div 4"
    using 1 unfolding side_room_def Let_def by (auto simp: word_less_nat_alt split: if_splits)
qed

text \<open>
  The generic chunk runner composes the chain it was matched for: the first stage's
  operation loads, the interior ones follow in stage order, the last one codes at its own block
  size, and the parameter blob is the stages' parameters in order.  The side outputs it reports
  fit their buffers, and with a non-zero outlier capacity an overflow is an error: when the runner returns, every outlier was kept.
\<close>

theorem chunk_runner_composes:
  assumes "matchesChunkCooperative g"
  shows "(\<exists>q m c. g = q # m @ [c] \<and>
      assemble_chunk g = (\<lparr>cf_quant_op = fo_op_name (sd_op q), cf_transforms = map (\<lambda>s. fo_op_name (sd_op s)) m,
        cf_coder = fo_op_name (sd_op c), cf_chunk_bytes = fs_block_size (sd_spec c)\<rparr>, concat (map (\<lambda>s. fo_params (sd_op s)) g))) \<and>
    (\<forall>launch n sides archive i v pi pv. runChunkCooperative launch g n sides = Inr (archive, Some (i, v)) \<and>
        port_named ''outlier_idxs'' sides = Some pi \<and> port_named ''outlier_vals'' sides = Some pv \<longrightarrow>
        i \<le> sp_capacity pi \<and> v \<le> sp_capacity pv \<and>
        (\<forall>x. sd_class (hd g) = QuantizerStage x True \<longrightarrow>
           i = ucast (snd (launch (fst (assemble_chunk g)) (snd (assemble_chunk g)) (n div 4) (side_room pi pv))) * 4))"
proof (intro conjI allI impI)
  from assms obtain h m t where g: "g = h # m @ [t]" "fs_access (sd_spec h) = Map" "fs_access (sd_spec t) = Cooperative"
    "\<forall>s\<in>set m. fs_access (sd_spec s) \<noteq> Map \<and> fs_access (sd_spec s) \<noteq> Cooperative"
    by (rule chunk_group_shape)
  have "assemble_chunk g = (\<lparr>cf_quant_op = fo_op_name (sd_op h), cf_transforms = map (\<lambda>s. fo_op_name (sd_op s)) m,
        cf_coder = fo_op_name (sd_op t), cf_chunk_bytes = fs_block_size (sd_spec t)\<rparr>, concat (map (\<lambda>s. fo_params (sd_op s)) g))"
    using g add_chunk_interior [OF g(4)] by (simp add: assemble_chunk_def add_chunk_op_def Let_def)
  with g(1) show "\<exists>q m c. g = q # m @ [c] \<and>
      assemble_chunk g = (\<lparr>cf_quant_op = fo_op_name (sd_op q), cf_transforms = map (\<lambda>s. fo_op_name (sd_op s)) m,
        cf_coder = fo_op_name (sd_op c), cf_chunk_bytes = fs_block_size (sd_spec c)\<rparr>, concat (map (\<lambda>s. fo_params (sd_op s)) g))" by blast
next
  fix launch n sides archive i v pi pv
  assume run: "runChunkCooperative launch g n sides = Inr (archive, Some (i, v)) \<and>
        port_named ''outlier_idxs'' sides = Some pi \<and> port_named ''outlier_vals'' sides = Some pv"
  let ?o = "snd (launch (fst (assemble_chunk g)) (snd (assemble_chunk g)) (n div 4) (side_room pi pv))"
  let ?w = "if ?o < side_room pi pv then ?o else side_room pi pv"
  have iv: "i = ucast ?w * 4" "v = ucast ?w * 4"
    using run by (auto simp: runChunkCooperative_def split_beta Let_def split: if_splits)
  have w: "unat ?w \<le> unat (side_room pi pv)" by (auto simp: word_less_nat_alt)
  show "i \<le> sp_capacity pi" unfolding iv(1) by (rule ucast_times4_le) (use w side_room_fits(1) [of pi pv] in linarith)
  show "v \<le> sp_capacity pv" unfolding iv(2) by (rule ucast_times4_le) (use w side_room_fits(2) [of pi pv] in linarith)
  fix x assume "sd_class (hd g) = QuantizerStage x True"
  then have "\<not> side_room pi pv < ?o" using run by (auto simp: runChunkCooperative_def split_beta Let_def split: if_splits)
  then have "?w = ?o" by auto
  then show "i = ucast ?o * 4" using iv(1) by simp
qed

subsection \<open>A concrete chain\<close>

text \<open>A quantizer, two block-local stages and a coder in a row, with block sizes given.\<close>

definition line_ops :: "build_op list" where
  "line_ops = [AddStage True True (Some 0) ''quant'', AddStage True True (Some 1) ''diff'', AddStage True True (Some 2) ''shuffle'',
     AddStage True True (Some 3) ''coder'', SetInputBuffer 0 64 ''input'', AddDependency 1 0 64 0,
     AddDependency 2 1 64 0, AddDependency 3 2 64 0, SetOutputBuffer 3 96 ''output'']"

definition demo_decl :: "fusion_access list \<Rightarrow> u32 list \<Rightarrow> nat \<Rightarrow> stage_decl" where
  "demo_decl accs sizes s = \<lparr>sd_name = ''s'', sd_input_type = DT_FLOAT32,
     sd_spec = \<lparr>fs_access = accs ! s, fs_block_size = sizes ! s, fs_coder_unit_size = 0\<rparr>,
     sd_op = no_op\<lparr>fo_op_name := [CHR ''o''], fo_params := [word_of_nat s]\<rparr>, sd_inverse = False, sd_inv_spec = no_spec, sd_inv_op = no_op,
     sd_class = (if s = 0 then QuantizerStage False True else OtherStage)\<rparr>"

definition line_decl :: "nat \<Rightarrow> stage_decl" where
  "line_decl = demo_decl [Map, BlockLocal, BlockLocal, Cooperative] [0, 4096, 4096, 4096]"

lemma line_shape:
  "map n_stage (nodes (build MINIMAL line_ops)) = [Some 0, Some 1, Some 2, Some 3]"
  "length (nodes (build MINIMAL line_ops)) = 4"
  "fused_groups (build MINIMAL line_ops) = []"
  by code_simp+

definition demo_pipeline :: "dag \<Rightarrow> pipeline" where
  "demo_pipeline d = \<lparr>p_x = \<lparr>x_dag = d, x_pool = make_pool demo_config True True, x_mem = (\<lambda>_. 0), x_trace = []\<rparr>,
     p_strategy = MINIMAL, p_stages = [0..<length (nodes d)], p_stage_to_node = Map.empty, p_connections = [],
     p_num_streams = 1, p_is_finalized = True, p_pool_managed_decomp = True, p_is_compressed = False, p_was_compressed = False,
     p_profiling_enabled = False, p_coloring_enabled = True, p_input_nodes = [0], p_primary_source_stage = None,
     p_explicit_external_bindings = [], p_output_nodes = [], p_input_buffer_ids = [], p_output_buffer_ids = [],
     p_needs_concat = False, p_input_size = 0, p_source_input_sizes = [], p_input_alignment_bytes = 1,
     p_pad_buf = \<lparr>pb_ptr = 0, pb_capacity = 0\<rparr>, p_original_input_size = 0, p_input_size_hint = 0, p_buffer_metadata = [],
     p_graph_mode_enabled = False, p_graph_captured = False, p_graph_input = \<lparr>pb_ptr = 0, pb_capacity = 0\<rparr>, p_graph_input_size = 0\<rparr>"

definition line_pipe :: pipeline where
  "line_pipe = (demo_pipeline (build MINIMAL line_ops))\<lparr>p_stage_to_node := (\<lambda>s. if s < 4 then Some s else None), p_graph_mode_enabled := True\<rparr>"

theorem planned_groups_legal_witness:
  "\<exists>cgs. planFusionGroups line_decl (build MINIMAL line_ops) = Some (map snd cgs) \<and> distinct (concat (map fst cgs)) \<and>
     list_all (legal_group line_decl (build MINIMAL line_ops)) cgs \<and> map (g_stages \<circ> snd) cgs = [[0, 1, 2, 3]]"
proof -
  obtain cgs where c: "planFusionGroups line_decl (build MINIMAL line_ops) = Some (map snd cgs)" "distinct (concat (map fst cgs))"
    "list_all (legal_group line_decl (build MINIMAL line_ops)) cgs"
    using planned_groups_legal [OF build_wf] by blast
  have "map_option (map g_stages) (planFusionGroups line_decl (build MINIMAL line_ops)) = Some [[0, 1, 2, 3]]" by code_simp
  with c show ?thesis by auto
qed

theorem fusion_selection_optimal_witness:
  "\<exists>sel. chosen_spans (\<lambda>xs. if length xs = 2 then Some 0 else None) [0 :: nat, 1, 2, 3] = Some sel \<and> 2 \<le> launches_removed sel"
proof -
  let ?f = "\<lambda>xs :: nat list. if length xs = 2 then Some (0 :: nat) else None"
  let ?o = "[\<lparr>c_begin = 0, c_end = 2, c_impl = 0\<rparr>, \<lparr>c_begin = 2, c_end = 4, c_impl = 0\<rparr>]"
  obtain sel where s: "chosen_spans ?f [0, 1, 2, 3] = Some sel"
    "list_all (matching_span ?f [0, 1, 2, 3]) ?o \<and> sorted_wrt (\<lambda>a b. c_end a \<le> c_begin b) ?o \<Longrightarrow> launches_removed ?o \<le> launches_removed sel"
    using fusion_selection_optimal [of ?f "[0, 1, 2, 3]"] by blast
  have "launches_removed ?o \<le> launches_removed sel" by (rule s(2)) (simp add: matching_span_def)
  with s(1) show ?thesis by (auto simp: launches_removed_def)
qed

theorem installed_groups_sound_witness:
  "\<exists>info p'. planAndInstallFusion line_decl Auto None None line_pipe = Some (info, p') \<and>
     map fg_members (fused_groups (p_dag p')) = [[0, 1, 2, 3]] \<and>
     list_all (installed_ok line_decl False (p_dag line_pipe)) (fused_groups (p_dag p')) \<and> p_graph_mode_enabled p' = False"
proof -
  have known: "nodes_known (p_stage_to_node line_pipe) (p_dag line_pipe)"
  proof -
    have "n_stage (node (build MINIMAL line_ops) i) = Some i" if "i < 4" for i
    proof -
      have "n_stage (node (build MINIMAL line_ops) i) = map n_stage (nodes (build MINIMAL line_ops)) ! i" using that line_shape(2) by simp
      also have "\<dots> = Some i" using that unfolding line_shape(1) by (auto simp: less_Suc_eq numeral_eq_Suc)
      finally show ?thesis .
    qed
    then show ?thesis using line_shape(2) by (simp add: nodes_known_def line_pipe_def demo_pipeline_def stage_of_def)
  qed
  have dag: "p_dag line_pipe = build MINIMAL line_ops" by (simp add: line_pipe_def demo_pipeline_def)
  obtain info p' where r: "planAndInstallFusion line_decl Auto None None line_pipe = Some (info, p')"
    "list_all (installed_ok line_decl (resolve_policy Auto None None = Force) (p_dag line_pipe)) (fused_groups (p_dag p'))"
    "fused_groups (p_dag p') = [] \<or> p_graph_mode_enabled p' = False"
    using installed_groups_sound [of line_pipe line_decl Auto None None] known line_shape(3) build_wf unfolding dag by blast
  have "map_option (\<lambda>(info, p'). map fg_members (fused_groups (p_dag p'))) (planAndInstallFusion line_decl Auto None None line_pipe) = Some [[0, 1, 2, 3]]"
    by code_simp
  with r show ?thesis by (auto simp: resolve_policy_def)
qed

text \<open>
  The planner does not return every maximal legal group.  A chain that a geometry break ends is not
  resumed at the stage that broke it: with block sizes 32, 32, 64, 64 only the first pair is planned,
  although the last two stages are linearly linked and their geometry is compatible.
\<close>

theorem planner_misses_group:
  "map_option (map g_stages) (planFusionGroups (demo_decl [BlockLocal, BlockLocal, BlockLocal, Cooperative] [32, 32, 64, 64]) (build MINIMAL line_ops))
     = Some [[0, 1]] \<and>
   list_all (\<lambda>i. fst (extendFusionGeometry no_geometry (spec_at (demo_decl [BlockLocal, BlockLocal, BlockLocal, Cooperative] [32, 32, 64, 64])
     (build MINIMAL line_ops) i)) = Compatible) [2, 3] \<and>
   linearFusableEdge (demo_decl [BlockLocal, BlockLocal, BlockLocal, Cooperative] [32, 32, 64, 64]) (build MINIMAL line_ops) 2 3"
  by code_simp

theorem chunk_runner_composes_witness:
  "runChunkCooperative (\<lambda>spec blob n room. (100, 3)) (map line_decl [0, 1, 2, 3]) 4000
      [\<lparr>sp_name = ''outlier_idxs'', sp_capacity = 64\<rparr>, \<lparr>sp_name = ''outlier_vals'', sp_capacity = 32\<rparr>] = Inr (100, Some (12, 12)) \<and>
   snd (assemble_chunk (map line_decl [0, 1, 2, 3])) = [0, 1, 2, 3] \<and> (12 :: size_t) \<le> 32"
proof -
  let ?g = "map line_decl [0, 1, 2, 3]" and ?sides = "[\<lparr>sp_name = ''outlier_idxs'', sp_capacity = 64\<rparr>, \<lparr>sp_name = ''outlier_vals'', sp_capacity = 32\<rparr>]"
  have m: "matchesChunkCooperative ?g" by code_simp
  have run: "runChunkCooperative (\<lambda>spec blob n room. (100, 3)) ?g 4000 ?sides = Inr (100, Some (12, 12))"
    "port_named ''outlier_idxs'' ?sides = Some \<lparr>sp_name = ''outlier_idxs'', sp_capacity = 64\<rparr>"
    "port_named ''outlier_vals'' ?sides = Some \<lparr>sp_name = ''outlier_vals'', sp_capacity = 32\<rparr>" by code_simp+
  have "snd (assemble_chunk ?g) = concat (map (\<lambda>s. fo_params (sd_op s)) ?g)" 
    using chunk_runner_composes [OF m] by auto
  moreover have "(12 :: size_t) \<le> sp_capacity \<lparr>sp_name = ''outlier_vals'', sp_capacity = 32\<rparr>"
    using chunk_runner_composes [OF m] run by blast
  ultimately show ?thesis using run(1) by (simp add: line_decl_def demo_decl_def)
qed

end
