(* ===== verification/Kernels.thy ===== *)
theory Kernels
  imports Prelude "HOL-Library.Multiset"
begin

section \<open>Element kernels and lossless stages\<close>

text \<open>
  What the stages share: a device buffer of bytes read as elements of a fixed width
  (\<open>words_of\<close>, \<open>bytes_of\<close>), the two launch patterns of the element-wise kernels (one thread per
  element, and a grid-stride loop), and the contract of a lossless stage as a locale.
  The order in which the threads of a grid run is a parameter \<open>sched\<close>: it maps the list of all thread or
  element indices to the order in which they take effect, and \<open>sched_ok\<close> says that it is a
  permutation.  A template parameter of the source is an \<open>itself\<close> argument.
\<close>

subsection \<open>Bytes as elements\<close>

definition elem_size :: "'a::len itself \<Rightarrow> nat" where
  "elem_size t = LENGTH('a) div 8"

text \<open>The element types are the integers of one, two, four and eight bytes.\<close>

definition elem_type :: "'a::len itself \<Rightarrow> bool" where
  "elem_type t \<longleftrightarrow> LENGTH('a) \<in> {8, 16, 32, 64}"

definition words_of :: "'a::len itself \<Rightarrow> nat \<Rightarrow> u8 list \<Rightarrow> 'a word list" where
  "words_of t n bs = map (\<lambda>i. word_of_nat (le_val (take (elem_size t) (drop (elem_size t * i) bs)))) [0..<n]"

definition bytes_of :: "'a::len word list \<Rightarrow> u8 list" where
  "bytes_of ws = concat (map (\<lambda>w. le_bytes (elem_size TYPE('a)) (unat w)) ws)"

text \<open>A kernel that writes the first elements of a buffer leaves the bytes behind them.\<close>

definition store_words :: "'a::len word list \<Rightarrow> u8 list \<Rightarrow> u8 list" where
  "store_words ws out = bytes_of ws @ drop (elem_size TYPE('a) * length ws) out"

lemma elem_type_pow: "elem_type (t :: 'a::len itself) \<Longrightarrow> 0 < elem_size t \<and> (256 :: nat) ^ elem_size t = 2 ^ LENGTH('a)"
  by (auto simp: elem_type_def elem_size_def)

lemma length_words_of [simp]: "length (words_of t n bs) = n"
  by (simp add: words_of_def)

lemma length_bytes_of [simp]: "length (bytes_of (ws :: 'a::len word list)) = elem_size TYPE('a) * length ws"
  by (induction ws) (simp_all add: bytes_of_def)

lemma bytes_of_Cons: "bytes_of (w # ws) = le_bytes (elem_size TYPE('a)) (unat (w :: 'a::len word)) @ bytes_of ws"
  by (simp add: bytes_of_def)

lemma words_of_Suc: "words_of t (Suc n) bs = word_of_nat (le_val (take (elem_size t) bs)) # words_of t n (drop (elem_size t) bs)"
  by (simp add: words_of_def upt_conv_Cons map_Suc_upt [symmetric] add.commute del: upt_Suc)

lemma words_of_bytes_of:
  assumes "elem_type TYPE('a::len)"
  shows "words_of TYPE('a) (length ws) (bytes_of ws @ rest) = (ws :: 'a word list)"
proof (induction ws)
  case Nil
  then show ?case by (simp add: words_of_def)
next
  case (Cons w ws)
  have "le_val (le_bytes (elem_size TYPE('a)) (unat w)) = unat w"
    using elem_type_pow [OF assms] unat_less_pow [of w] by (simp add: le_val_le_bytes)
  then show ?case using Cons by (simp add: words_of_Suc bytes_of_Cons)
qed

lemma bytes_of_words_of:
  assumes "elem_type TYPE('a::len)" "elem_size TYPE('a) * n \<le> length bs"
  shows "bytes_of (words_of TYPE('a) n bs) = take (elem_size TYPE('a) * n) bs"
  using assms(2)
proof (induction n arbitrary: bs)
  case 0
  then show ?case by (simp add: words_of_def bytes_of_def)
next
  case (Suc n)
  let ?k = "elem_size TYPE('a)" and ?b = "take (elem_size TYPE('a)) bs"
  have len: "length ?b = ?k" using Suc.prems by simp
  have "le_val ?b < 2 ^ LENGTH('a)" using le_val_less [of ?b] elem_type_pow [OF assms(1)] len by simp
  then have "unat (word_of_nat (le_val ?b) :: 'a word) = le_val ?b" by (simp add: unat_of_nat)
  then have "le_bytes ?k (unat (word_of_nat (le_val ?b) :: 'a word)) = ?b" using le_bytes_le_val [of ?b] len by simp
  then show ?case using Suc by (simp add: words_of_Suc bytes_of_Cons take_add)
qed

subsection \<open>Launches\<close>

definition sched_ok :: "(nat list \<Rightarrow> nat list) \<Rightarrow> bool" where
  "sched_ok sched \<longleftrightarrow> (\<forall>xs. mset (sched xs) = mset xs)"

lemma sched_set: "sched_ok sched \<Longrightarrow> set (sched xs) = set xs"
  unfolding sched_ok_def by (metis set_mset_mset)

lemma sched_distinct: "sched_ok sched \<Longrightarrow> distinct xs \<Longrightarrow> distinct (sched xs)"
  unfolding sched_ok_def by (metis mset_eq_imp_distinct_iff)

text \<open>The number of blocks, after the narrowing to \<open>int\<close>; a negative one launches nothing.\<close>

definition grid32 :: "nat \<Rightarrow> nat \<Rightarrow> nat" where
  "grid32 n kBlock = nat (sint (word_of_nat ((n + kBlock - 1) div kBlock) :: 32 word))"

text \<open>One thread per element, with the guard every such kernel has.\<close>

definition elem_kernel :: "nat list \<Rightarrow> nat \<Rightarrow> (nat \<Rightarrow> 'v) \<Rightarrow> 'v list \<Rightarrow> 'v list" where
  "elem_kernel tids n f out = fold (\<lambda>idx out. if idx < n then out[idx := f idx] else out) tids out"

text \<open>A grid-stride loop; \<open>sched\<close> orders the element visits of all threads.\<close>

definition stride_kernel :: "(nat list \<Rightarrow> nat list) \<Rightarrow> nat \<Rightarrow> nat \<Rightarrow> (nat \<Rightarrow> 'v) \<Rightarrow> 'v list \<Rightarrow> 'v list" where
  "stride_kernel sched stride n f out =
     fold (\<lambda>idx out. out[idx := f idx]) (sched (concat (map (\<lambda>tid. stride_from tid stride n) [0..<stride]))) out"

lemma grid32_exact:
  assumes "0 < k" "(n + k - 1) div k < 2 ^ 31"
  shows "grid32 n k = (n + k - 1) div k"
proof -
  let ?g = "(n + k - 1) div k"
  have "sint (word_of_nat ?g :: 32 word) = int ?g"
    using assms(2) by (simp add: sint_uint uint_nat unat_of_nat signed_take_bit_int_eq_self)
  then show ?thesis by (simp add: grid32_def)
qed

lemma fold_writes:
  "fold (\<lambda>idx out. if P idx then out[idx := f idx] else out) is out =
     map (\<lambda>i. if i \<in> set is \<and> P i then f i else out ! i) [0..<length out]"
proof (induction "is" arbitrary: out)
  case Nil
  then show ?case by (simp add: map_nth)
next
  case (Cons j js)
  have "out[j := f j] ! x = (if x = j then f j else out ! x)" if "x < length out" for x using that by auto
  then show ?case by (auto simp: Cons)
qed

lemma fold_offset_writes:
  assumes "j < length data"
  shows "fold (\<lambda>k d. if P k then d[off + k := f k] else d) [0..<m] data ! j =
           (if off \<le> j \<and> j < off + m \<and> P (j - off) then f (j - off) else data ! j)"
    and "length (fold (\<lambda>k d. if P k then d[off + k := f k] else d) [0..<m] data) = length data"
proof -
  have len: "length (fold (\<lambda>k d. if P k then d[off + k := f k] else d) [0..<m] data) = length data" for m
    by (induction m) auto
  show "length (fold (\<lambda>k d. if P k then d[off + k := f k] else d) [0..<m] data) = length data" by (rule len)
  show "fold (\<lambda>k d. if P k then d[off + k := f k] else d) [0..<m] data ! j =
           (if off \<le> j \<and> j < off + m \<and> P (j - off) then f (j - off) else data ! j)"
  proof (induction m)
    case 0
    then show ?case by auto
  next
    case (Suc m)
    show ?case
    proof (cases "j = off + m")
      case True
      then show ?thesis using Suc assms by (simp add: len)
    next
      case False
      then have "j < off + Suc m \<longleftrightarrow> j < off + m" by auto
      then show ?thesis using Suc False by simp
    qed
  qed
qed

text \<open>Every index of a list of threads writes its own group of \<open>m\<close> cells.\<close>

lemma fold_group_writes:
  assumes "0 < m"
  shows "length (fold (\<lambda>i out. if n \<le> i then out else fold (\<lambda>b out. out[i * m + b := g i b]) [0..<m] out) tids out) = length out \<and>
    (\<forall>j<length out. fold (\<lambda>i out. if n \<le> i then out else fold (\<lambda>b out. out[i * m + b := g i b]) [0..<m] out) tids out ! j =
       (if j div m \<in> set tids \<and> j div m < n then g (j div m) (j mod m) else out ! j))"
proof (induction tids arbitrary: out)
  case Nil
  then show ?case by simp
next
  case (Cons i tids)
  let ?w = "\<lambda>out. fold (\<lambda>b out. out[i * m + b := g i b]) [0..<m] out"
  have len: "length (?w out) = length out"
  proof -
    have "length (fold (\<lambda>b out. out[i * m + b := g i b]) bs out) = length out" for bs by (induction bs arbitrary: out) auto
    then show ?thesis .
  qed
  have div: "i * m \<le> j \<and> j < i * m + m \<longleftrightarrow> j div m = i" for j
  proof
    assume a: "i * m \<le> j \<and> j < i * m + m"
    show "j div m = i" by (rule div_nat_eqI) (use a in \<open>simp_all add: mult.commute\<close>)
  next
    assume "j div m = i"
    then show "i * m \<le> j \<and> j < i * m + m" using assms dividend_less_div_times [of m j] div_times_less_eq_dividend [of j m] by auto
  qed
  have w: "?w out ! j = (if j div m = i then g i (j mod m) else out ! j)" if "j < length out" for j
  proof -
    have "j - i * m = j mod m" if "j div m = i" using that by (metis minus_div_mult_eq_mod)
    then show ?thesis using fold_offset_writes(1) [OF that, of "\<lambda>_. True" "i * m" "g i" m] div [of j] by auto
  qed
  show ?case
  proof (cases "n \<le> i")
    case True
    then show ?thesis using Cons.IH [of out] by auto
  next
    case False
    then show ?thesis using Cons.IH [of "?w out"] w len by auto
  qed
qed

lemma elem_kernel_map:
  assumes "{..<n} \<subseteq> set tids" "length out = n"
  shows "elem_kernel tids n f out = map f [0..<n]"
  unfolding elem_kernel_def fold_writes using assms by (intro map_cong) auto

lemma elem_kernel_prefix:
  assumes "{..<n} \<subseteq> set tids" "n \<le> length out"
  shows "elem_kernel tids n f out = map f [0..<n] @ drop n out"
  unfolding elem_kernel_def fold_writes using assms by (intro nth_equalityI) (auto simp: nth_append)

lemma stride_kernel_map:
  assumes "sched_ok sched" "0 < stride" "length out = n"
  shows "stride_kernel sched stride n f out = map f [0..<n]"
proof -
  have "set (concat (map (\<lambda>tid. stride_from tid stride n) [0..<stride])) = {0..<n}"
    using stride_from_cover [OF assms(2), of n] by simp
  then show ?thesis
    using fold_writes [of "\<lambda>_. True" f _ out] assms(3) sched_set [OF assms(1)] unfolding stride_kernel_def by simp
qed

lemma grid_covers:
  assumes "0 < k" "n \<le> k * (2 ^ 31 - 1)"
  shows "n \<le> grid32 n k * k"
proof -
  have "n + k - 1 < k + (n + k - 1) div k * k" by (rule dividend_less_div_times [OF assms(1)])
  then have up: "n \<le> (n + k - 1) div k * k" using assms(1) by linarith
  have "n + k - 1 < 2 ^ 31 * k" using assms by simp
  then have "(n + k - 1) div k < 2 ^ 31" by (rule less_mult_imp_div_less)
  then show ?thesis using grid32_exact [OF assms(1), of n] up by simp
qed

subsection \<open>Lossless stages\<close>

text \<open>
  What the device contributes to one run of a stage: the order of the threads, and what a buffer of
  \<open>n\<close> bytes from the pool holds before the stage writes to it.
\<close>

record run_env =
  re_sched :: "nat list \<Rightarrow> nat list"
  re_stale :: "nat \<Rightarrow> u8 list"

definition run_env_ok :: "run_env \<Rightarrow> bool" where
  "run_env_ok e \<longleftrightarrow> sched_ok (re_sched e) \<and> (\<forall>n. length (re_stale e n) = n)"

text \<open>
  The contract of a lossless stage: on the inputs it accepts, the forward direction returns and the
  inverse direction restores the input, whatever the devices of the two runs do.
\<close>

locale lossless_stage =
  fixes fwd bwd :: "run_env \<Rightarrow> u8 list \<Rightarrow> u8 list res" and accepts :: "u8 list \<Rightarrow> bool"
  assumes restores: "\<lbrakk>accepts bs; run_env_ok e; run_env_ok e'\<rbrakk> \<Longrightarrow> \<exists>c. fwd e bs = Inr c \<and> bwd e' c = Inr bs"
begin

lemma fwd_inj:
  assumes "accepts a" "accepts b" "run_env_ok e" "fwd e a = fwd e b"
  shows "a = b"
  using restores [OF assms(1,3,3)] restores [OF assms(2,3,3)] assms(4) by auto

lemma fwd_total: "accepts bs \<Longrightarrow> run_env_ok e \<Longrightarrow> \<exists>c. fwd e bs = Inr c"
  using restores by blast

end

text \<open>Two stages in a row: the first feeds the second, the inverses run in the opposite order.\<close>

definition then_stage :: "(run_env \<Rightarrow> u8 list \<Rightarrow> u8 list res) \<Rightarrow> (run_env \<Rightarrow> u8 list \<Rightarrow> u8 list res) \<Rightarrow> run_env \<Rightarrow> u8 list \<Rightarrow> u8 list res" where
  "then_stage f g e bs = res_bind (f e bs) (g e)"

locale lossless_pair =
  first: lossless_stage fwd1 bwd1 accepts1 + second: lossless_stage fwd2 bwd2 accepts2
  for fwd1 bwd1 accepts1 fwd2 bwd2 accepts2 +
  assumes feeds: "\<lbrakk>accepts1 bs; run_env_ok e; fwd1 e bs = Inr c\<rbrakk> \<Longrightarrow> accepts2 c"

sublocale lossless_pair \<subseteq> lossless_stage "then_stage fwd1 fwd2" "then_stage bwd2 bwd1" accepts1
proof
  fix bs e e' assume a: "accepts1 bs" "run_env_ok e" "run_env_ok e'"
  from first.restores [OF this] obtain c where c: "fwd1 e bs = Inr c" "bwd1 e' c = Inr bs" by blast
  from second.restores [OF feeds [OF a(1,2) c(1)] a(2,3)] obtain d where "fwd2 e c = Inr d" "bwd2 e' d = Inr c" by blast
  with c show "\<exists>d. then_stage fwd1 fwd2 e bs = Inr d \<and> then_stage bwd2 bwd1 e' d = Inr bs"
    by (simp add: then_stage_def)
qed

end
