(* ===== verification/Byte_Writes.thy ===== *)
theory Byte_Writes
  imports Kernels
begin

section \<open>Kernels as sets of range writes\<close>

text \<open>
  A kernel whose threads write ranges of cells is the list of its writes \<open>(d, xs)\<close>: the cells \<open>xs\<close> stored from
  \<open>d\<close> on.  If all writes agree with one target, the order in which the device performs them does not matter.
\<close>

definition put_at :: "nat \<Rightarrow> 'v list \<Rightarrow> 'v list \<Rightarrow> 'v list" where
  "put_at d xs out = fold (\<lambda>k out. out[d + k := xs ! k]) [0..<length xs] out"

definition run_puts :: "(nat list \<Rightarrow> nat list) \<Rightarrow> (nat \<times> 'v list) list \<Rightarrow> 'v list \<Rightarrow> 'v list" where
  "run_puts sched ws out = fold (\<lambda>i. put_at (fst (ws ! i)) (snd (ws ! i))) (sched [0..<length ws]) out"

definition covers :: "nat \<times> 'v list \<Rightarrow> nat \<Rightarrow> bool" where
  "covers w j \<longleftrightarrow> fst w \<le> j \<and> j < fst w + length (snd w)"

definition agrees :: "(nat \<Rightarrow> 'v) \<Rightarrow> nat \<times> 'v list \<Rightarrow> bool" where
  "agrees W w \<longleftrightarrow> (\<forall>k<length (snd w). W (fst w + k) = snd w ! k)"

lemma length_put_at [simp]: "length (put_at d xs out) = length out"
  unfolding put_at_def by (rule fold_invariant [where Q = "\<lambda>_. True" and P = "\<lambda>x. length x = length out"]) simp_all

lemma put_at_nth: "j < length out \<Longrightarrow> put_at d xs out ! j = (if d \<le> j \<and> j < d + length xs then xs ! (j - d) else out ! j)"
  using fold_offset_writes(1) [of j out "\<lambda>_. True" d "(!) xs" "length xs"] by (simp add: put_at_def)

lemma put_at_agrees: "agrees W w \<Longrightarrow> j < length out \<Longrightarrow> put_at (fst w) (snd w) out ! j = (if covers w j then W j else out ! j)"
  unfolding put_at_nth agrees_def covers_def by (auto dest: spec [of _ "j - fst w"])

lemma length_fold_puts [simp]: "length (fold (\<lambda>w. put_at (fst w) (snd w)) ws out) = length out"
  by (induction ws arbitrary: out) simp_all

lemma fold_puts:
  assumes "\<forall>w\<in>set ws. agrees W w" "j < length out"
  shows "fold (\<lambda>w. put_at (fst w) (snd w)) ws out ! j = (if \<exists>w\<in>set ws. covers w j then W j else out ! j)"
  using assms
proof (induction ws arbitrary: out)
  case (Cons w ws)
  then show ?case using put_at_agrees [of W w j out] Cons.IH [of "put_at (fst w) (snd w) out"] by simp
qed simp

lemma run_puts_nth:
  assumes "sched_ok sched" "\<forall>w\<in>set ws. agrees W w"
  shows "length (run_puts sched ws out) = length out"
    and "j < length out \<Longrightarrow> run_puts sched ws out ! j = (if \<exists>w\<in>set ws. covers w j then W j else out ! j)"
proof -
  have "set (sched [0..<length ws]) = {..<length ws}" by (simp only: sched_set [OF assms(1)] set_upt atLeast0LessThan)
  then have S: "set (map ((!) ws) (sched [0..<length ws])) = set ws"
    by (simp only: set_map) (metis image_set lessThan_atLeast0 map_nth set_upt)
  have r: "run_puts sched ws out = fold (\<lambda>w. put_at (fst w) (snd w)) (map ((!) ws) (sched [0..<length ws])) out"
    by (simp add: run_puts_def fold_map comp_def)
  show "length (run_puts sched ws out) = length out"
    "j < length out \<Longrightarrow> run_puts sched ws out ! j = (if \<exists>w\<in>set ws. covers w j then W j else out ! j)"
    using fold_puts [of "map ((!) ws) (sched [0..<length ws])" W] assms(2) unfolding r S by simp_all
qed

lemma length_run_puts [simp]: "length (run_puts sched ws out) = length out"
  unfolding run_puts_def by (rule fold_invariant [where Q = "\<lambda>_. True" and P = "\<lambda>x. length x = length out"]) simp_all

lemma unat_of_nat32: "n < 2 ^ 32 \<Longrightarrow> unat (word_of_nat n :: u32) = n"
  by (simp add: unat_of_nat)

lemma unat_of_nat31: "n < 2 ^ 31 \<Longrightarrow> unat (word_of_nat n :: u32) = n"
  by (rule unat_of_nat32) simp

subsection \<open>Sections laid out one after the other\<close>

fun placed :: "nat \<Rightarrow> 'v list list \<Rightarrow> (nat \<times> 'v list) list" where
  "placed d [] = []"
| "placed d (xs # xss) = (d, xs) # placed (d + length xs) xss"

lemma placed_append: "placed d (xss @ yss) = placed d xss @ placed (d + length (concat xss)) yss"
  by (induction xss arbitrary: d) (simp_all add: add.assoc)

lemma placed_nth: "placed d xss = map (\<lambda>r. (d + length (concat (take r xss)), xss ! r)) [0..<length xss]"
proof (induction xss arbitrary: d)
  case (Cons xs xss)
  show ?case by (simp add: Cons upt_conv_Cons map_Suc_upt [symmetric] add.assoc del: upt_Suc)
qed simp

lemma length_concat_const: "(\<And>x. x \<in> set xs \<Longrightarrow> length (f x) = k) \<Longrightarrow> length (concat (map f xs)) = k * length xs"
  by (induction xs) simp_all

lemma placed_map_const:
  assumes "\<And>x. length (f x) = k"
  shows "placed d (map f xs) = map (\<lambda>i. (d + k * i, f (xs ! i))) [0..<length xs]"
  unfolding placed_nth using assms by (intro map_cong) (simp_all add: take_map length_concat_const del: length_concat)

lemma placed_section: "w \<in> set (placed d xss) \<Longrightarrow> \<exists>A B. concat xss = A @ snd w @ B \<and> fst w = d + length A"
proof (induction xss arbitrary: d)
  case (Cons xs xss)
  show ?case
  proof (cases "w = (d, xs)")
    case True
    then show ?thesis by (intro exI [of _ "[]"] exI [of _ "concat xss"]) simp
  next
    case False
    then have "w \<in> set (placed (d + length xs) xss)" using Cons.prems by simp
    from Cons.IH [OF this] obtain A B where "concat xss = A @ snd w @ B" "fst w = d + length xs + length A" by blast
    then show ?thesis by (intro exI [of _ "xs @ A"] exI [of _ B]) simp
  qed
qed simp

lemma placed_covers: "j < length (concat xss) \<Longrightarrow> \<exists>w\<in>set (placed d xss). covers w (d + j)"
proof (induction xss arbitrary: d j)
  case (Cons xs xss)
  show ?case
  proof (cases "j < length xs")
    case True
    then show ?thesis by (simp add: covers_def)
  next
    case False
    then have "j - length xs < length (concat xss)" using Cons.prems by simp
    from Cons.IH [OF this, of "d + length xs"] False show ?thesis by simp
  qed
qed simp

text \<open>A kernel whose writes are the sections of a layout behind what is already there, in any order, completes the layout.\<close>

lemma run_puts_behind:
  assumes "sched_ok sched" "\<And>w. snd w \<noteq> [] \<Longrightarrow> w \<in> set ws \<longleftrightarrow> w \<in> set (placed (length P) xss)"
    "take (length P) out = P" "length P + length (concat xss) \<le> length out"
  shows "run_puts sched ws out = P @ concat xss @ drop (length P + length (concat xss)) out"
proof (rule nth_equalityI)
  let ?W = "P @ concat xss"
  have sec: "agrees ((!) ?W) w \<and> length P \<le> fst w \<and> fst w + length (snd w) \<le> length ?W" if w: "w \<in> set ws" "snd w \<noteq> []" for w
  proof -
    have "w \<in> set (placed (length P) xss)" using assms(2) w by blast
    then obtain A B where "concat xss = A @ snd w @ B" "fst w = length P + length A" using placed_section [of w "length P" xss] by auto
    then show ?thesis by (simp add: agrees_def nth_append)
  qed
  have a: "\<forall>w\<in>set ws. agrees ((!) ?W) w" using sec by (metis agrees_def less_nat_zero_code list.size(3))
  show "length (run_puts sched ws out) = length (P @ concat xss @ drop (length P + length (concat xss)) out)" using assms(4) by simp
  fix j assume "j < length (run_puts sched ws out)"
  then have j: "j < length out" by simp
  have "\<not> covers w j" if "w \<in> set ws" "j < length P \<or> length ?W \<le> j" for w
    using sec [OF that(1)] that(2) by (cases "snd w = []") (auto simp: covers_def)
  moreover have "\<exists>w\<in>set ws. covers w j" if "length P \<le> j" "j < length ?W"
  proof -
    have "j - length P < length (concat xss)" using that by auto
    from placed_covers [OF this, of "length P"] that(1) obtain w where w: "w \<in> set (placed (length P) xss)" "covers w j" by auto
    then have "snd w \<noteq> []" by (auto simp: covers_def)
    then show ?thesis using assms(2) w by blast
  qed
  moreover have "out ! j = P ! j" if "j < length P" using arg_cong [OF assms(3), of "\<lambda>l. l ! j"] that by simp
  moreover have "run_puts sched ws out ! j = (if \<exists>w\<in>set ws. covers w j then ?W ! j else out ! j)"
    by (rule run_puts_nth(2) [OF assms(1) a j])
  moreover have "(P @ concat xss @ drop (length P + length (concat xss)) out) ! j = (if j < length ?W then ?W ! j else out ! j)"
    unfolding append_assoc [symmetric] nth_append [of ?W] using assms(4) by simp
  ultimately show "run_puts sched ws out ! j = (P @ concat xss @ drop (length P + length (concat xss)) out) ! j"
    by (metis not_less nth_append)
qed

lemma run_puts_placed:
  assumes "sched_ok sched" "\<And>w. snd w \<noteq> [] \<Longrightarrow> w \<in> set ws \<longleftrightarrow> w \<in> set (placed 0 xss)" "length (concat xss) \<le> length out"
  shows "run_puts sched ws out = concat xss @ drop (length (concat xss)) out"
  using run_puts_behind [OF assms(1), of ws "[]" xss out] assms(2,3) by simp

end
