(* ===== verification/Transforms.thy ===== *)
theory Transforms
  imports Kernels Fzm_Format
begin

section \<open>Zigzag, negabinary and difference stages\<close>

text \<open>
  The three integer transforms of \<open>modules/transforms\<close> and \<open>modules/predictors/diff\<close>: their bit
  formulas, their kernels, \<open>execute\<close> on byte buffers, the serialized configuration and the factories
  that rebuild a stage from it.
  A signed element and its unsigned counterpart are the same word; \<open>>>\<close> on a signed value is the
  arithmetic shift.  \<open>outs\<close> holds what the output buffers held before the call, which matters where a stage
  does not write all the bytes it reports.  \<open>lerr\<close> tells that \<open>cudaGetLastError\<close> reported an error.
  The floating-point instantiations of the difference stage are not modelled.
\<close>

subsection \<open>Bit formulas\<close>

definition zigzag_encode :: "'a::len word \<Rightarrow> 'a word" where
  "zigzag_encode x = push_bit 1 x XOR signed_drop_bit (LENGTH('a) - 1) x"

definition zigzag_decode :: "'a::len word \<Rightarrow> 'a word" where
  "zigzag_decode u = drop_bit 1 u XOR - (u AND 1)"

definition nb_mask :: "'a::len word" where
  "nb_mask = ucast (0xAAAAAAAAAAAAAAAA :: u64)"

definition negabinary_encode :: "'a::len word \<Rightarrow> 'a word" where
  "negabinary_encode n = (n + nb_mask) XOR nb_mask"

definition negabinary_decode :: "'a::len word \<Rightarrow> 'a word" where
  "negabinary_decode u = (u XOR nb_mask) - nb_mask"

subsection \<open>Stages and configurations\<close>

definition signed_dt :: "'a::len itself \<Rightarrow> u8" where
  "signed_dt t = (if LENGTH('a) = 8 then 4 else if LENGTH('a) = 16 then 5 else if LENGTH('a) = 32 then 6
     else if LENGTH('a) = 64 then 7 else 0)"

definition unsigned_dt :: "'a::len itself \<Rightarrow> u8" where
  "unsigned_dt t = (if LENGTH('a) = 8 then 0 else if LENGTH('a) = 16 then 1 else if LENGTH('a) = 32 then 2
     else if LENGTH('a) = 64 then 3 else 0)"

record zigzag_stage =
  zz_is_inverse :: bool
  zz_byte_transparent :: bool
  zz_actual_output_size :: size_t

definition new_zigzag :: zigzag_stage where
  "new_zigzag = \<lparr>zz_is_inverse = False, zz_byte_transparent = False, zz_actual_output_size = 0\<rparr>"

record negabinary_stage =
  nb_is_inverse :: bool
  nb_actual_output_size :: size_t

text \<open>\<open>FusionMode\<close>; \<open>Plain\<close> is the case \<open>TOut = T\<close>, where the mode is ignored.\<close>

datatype fusion_mode = Plain | Negabinary | Zigzag

record diff_stage =
  df_is_inverse :: bool
  df_mode :: fusion_mode
  df_chunk :: size_t
  df_actual_output_size :: size_t
  df_saved_chunk :: size_t
  df_saved_actual :: size_t

subsection \<open>Execution of the element-wise stages\<close>

definition launch_map :: "(nat list \<Rightarrow> nat list) \<Rightarrow> nat \<Rightarrow> nat \<Rightarrow> (nat \<Rightarrow> 'v) \<Rightarrow> 'v list \<Rightarrow> 'v list" where
  "launch_map sched kBlock n f out = (if n = 0 then out else elem_kernel (sched [0..<grid32 n kBlock * kBlock]) n f out)"

definition zigzag_execute :: "'a::len itself \<Rightarrow> (nat list \<Rightarrow> nat list) \<Rightarrow> bool \<Rightarrow> u8 list list \<Rightarrow> u8 list list \<Rightarrow> size_t list
   \<Rightarrow> zigzag_stage \<Rightarrow> (u8 list list \<times> zigzag_stage) res" where
  "zigzag_execute t sched lerr ins outs sizes st =
     (if ins = [] \<or> outs = [] \<or> sizes = [] then Inl (RuntimeError ''ZigzagStage: invalid inputs/outputs'')
      else
        let byte_size = unat (sizes ! 0); kWord = elem_size t; n = byte_size div kWord; tail = byte_size - n * kWord;
            inp = words_of t n (ins ! 0);
            f = (if \<not> zz_is_inverse st then zigzag_encode else zigzag_decode);
            out1 = store_words (launch_map sched 256 n (\<lambda>i. f (inp ! i)) (words_of t n (outs ! 0))) (outs ! 0);
            out2 = (if tail \<noteq> 0 then take (n * kWord) out1 @ take tail (drop (n * kWord) (ins ! 0)) @ drop byte_size out1 else out1)
        in if byte_size = 0 then Inr (outs, st\<lparr>zz_actual_output_size := 0\<rparr>)
           else if lerr then Inl (RuntimeError ''ZigzagStage kernel launch failed: '')
           else Inr (outs[0 := out2], st\<lparr>zz_actual_output_size := sizes ! 0\<rparr>))"

definition negabinary_execute :: "'a::len itself \<Rightarrow> (nat list \<Rightarrow> nat list) \<Rightarrow> bool \<Rightarrow> u8 list list \<Rightarrow> u8 list list \<Rightarrow> size_t list
   \<Rightarrow> negabinary_stage \<Rightarrow> (u8 list list \<times> negabinary_stage) res" where
  "negabinary_execute t sched lerr ins outs sizes st =
     (if ins = [] \<or> outs = [] \<or> sizes = [] then Inl (RuntimeError ''NegabinaryStage: invalid inputs/outputs'')
      else
        let n = unat (sizes ! 0) div elem_size t; inp = words_of t n (ins ! 0);
            f = (if \<not> nb_is_inverse st then negabinary_encode else negabinary_decode);
            out1 = store_words (launch_map sched 256 n (\<lambda>i. f (inp ! i)) (words_of t n (outs ! 0))) (outs ! 0)
        in if n = 0 then Inr (outs, st\<lparr>nb_actual_output_size := 0\<rparr>)
           else if lerr then Inl (RuntimeError ''NegabinaryStage kernel launch failed: '')
           else Inr (outs[0 := out1], st\<lparr>nb_actual_output_size := sizes ! 0\<rparr>))"

subsection \<open>The difference stage\<close>

definition is_boundary :: "nat \<Rightarrow> nat \<Rightarrow> bool" where
  "is_boundary chunk_elems idx \<longleftrightarrow> idx = 0 \<or> 0 < chunk_elems \<and> idx AND (chunk_elems - 1) = 0"

fun diff_enc :: "fusion_mode \<Rightarrow> 'a::len word \<Rightarrow> 'a word" where
  "diff_enc Plain d = d"
| "diff_enc Negabinary d = negabinary_encode d"
| "diff_enc Zigzag d = zigzag_encode d"

fun diff_dec :: "fusion_mode \<Rightarrow> 'a::len word \<Rightarrow> 'a word" where
  "diff_dec Plain d = d"
| "diff_dec Negabinary d = negabinary_decode d"
| "diff_dec Zigzag d = zigzag_decode d"

text \<open>The value the forward kernel writes at \<open>idx\<close>.\<close>

definition diff_at :: "fusion_mode \<Rightarrow> nat \<Rightarrow> 'a::len word list \<Rightarrow> nat \<Rightarrow> 'a word" where
  "diff_at mode ce inp idx = diff_enc mode (if is_boundary ce idx then inp ! idx else inp ! idx - inp ! (idx - 1))"

definition stride_threads :: "nat \<Rightarrow> nat" where
  "stride_threads n =
     (let full = grid32 n 512; grid = min full (full div 8 + 1) in (if grid < 1 then 1 else grid) * 512)"

definition launchDiff :: "(nat list \<Rightarrow> nat list) \<Rightarrow> fusion_mode \<Rightarrow> nat \<Rightarrow> nat \<Rightarrow> 'a::len word list \<Rightarrow> 'a word list \<Rightarrow> 'a word list res" where
  "launchDiff sched mode n ce inp out =
     (if 0 < ce \<and> ce AND (ce - 1) \<noteq> 0 then Inl (RuntimeError ''DifferenceStage: chunk_elems must be a power-of-2'')
      else Inr (stride_kernel sched (stride_threads n) n (diff_at mode ce inp) out))"

text \<open>\<open>cub::BlockScan::InclusiveSum\<close>: the inclusive prefix sums.\<close>

fun prefix_sums :: "'a::len word \<Rightarrow> 'a word list \<Rightarrow> 'a word list" where
  "prefix_sums acc [] = []"
| "prefix_sums acc (x # xs) = (acc + x) # prefix_sums (acc + x) xs"

definition cumsum_tile :: "nat \<Rightarrow> nat \<Rightarrow> nat \<Rightarrow> nat \<Rightarrow> 'a::len word list \<times> 'a word \<Rightarrow> 'a word list \<times> 'a word" where
  "cumsum_tile n base local_n tile st =
     (let (data, prefix) = st;
          val = (\<lambda>tid. if tile + tid < local_n \<and> base + tile + tid < n then data ! (base + tile + tid) else 0);
          scan = prefix_sums 0 (map val [0..<512]); agg = sum_list (map val [0..<512])
      in (fold (\<lambda>tid d. if tile + tid < local_n then d[base + tile + tid := scan ! tid + prefix] else d) [0..<512] data, prefix + agg))"

definition cumsum_block :: "nat \<Rightarrow> nat \<Rightarrow> nat \<Rightarrow> 'a::len word list \<Rightarrow> 'a word list" where
  "cumsum_block n ce blk data =
     (let base = blk * ce in
      if n \<le> base then data
      else let local_n = min ce (n - base) in fst (fold (cumsum_tile n base local_n) (stride_from 0 512 local_n) (data, 0)))"

definition launchChunkedCumsum :: "(nat list \<Rightarrow> nat list) \<Rightarrow> nat \<Rightarrow> nat \<Rightarrow> 'a::len word list \<Rightarrow> 'a word list" where
  "launchChunkedCumsum sched n ce data = fold (cumsum_block n ce) (sched [0..<grid32 n ce]) data"

definition diff_execute :: "'a::len itself \<Rightarrow> (nat list \<Rightarrow> nat list) \<Rightarrow> bool \<Rightarrow> u8 list list \<Rightarrow> u8 list list \<Rightarrow> size_t list
   \<Rightarrow> diff_stage \<Rightarrow> (u8 list list \<times> diff_stage) res" where
  "diff_execute t sched lerr ins outs sizes st =
     (if ins = [] \<or> outs = [] \<or> sizes = []
      then Inl (RuntimeError ''DifferenceStage: inputs, outputs, and sizes vectors must all be non-empty'')
      else
        let n = unat (sizes ! 0) div elem_size t;
            ce = (if 0 < df_chunk st then unat (df_chunk st) div elem_size t else 0);
            inp = words_of t n (ins ! 0); old = words_of t n (outs ! 0)
        in if n = 0 then Inr (outs, st\<lparr>df_actual_output_size := 0\<rparr>)
           else res_bind
             (if \<not> df_is_inverse st then launchDiff sched (df_mode st) n ce inp old
              else
                let d_decoded = (if df_mode st = Plain then inp
                      else stride_kernel sched (stride_threads n) n (\<lambda>i. diff_dec (df_mode st) (inp ! i)) (replicate n 0))
                in Inr (launchChunkedCumsum sched n (if ce = 0 then n else ce) d_decoded))
             (\<lambda>ws. if lerr then Inl (RuntimeError ''DifferenceStage kernel launch failed: '')
                   else Inr (outs[0 := store_words ws (outs ! 0)], st\<lparr>df_actual_output_size := sizes ! 0\<rparr>)))"

subsection \<open>Serialized configurations\<close>

definition zigzag_serializeHeader :: "'a::len itself \<Rightarrow> nat \<Rightarrow> zigzag_stage \<Rightarrow> u8 list" where
  "zigzag_serializeHeader t max_size st =
     (if max_size < 3 then [] else [signed_dt t, unsigned_dt t, if zz_byte_transparent st then 1 else 0])"

definition zigzag_deserializeHeader :: "u8 list \<Rightarrow> zigzag_stage \<Rightarrow> zigzag_stage" where
  "zigzag_deserializeHeader buf st = (if 3 \<le> length buf then st\<lparr>zz_byte_transparent := buf ! 2 \<noteq> 0\<rparr> else st)"

text \<open>The element width of the instantiation the factories pick for a pair of types.\<close>

definition width_of_pair :: "u8 \<Rightarrow> u8 \<Rightarrow> nat option" where
  "width_of_pair tin tout =
     (if tin = 4 \<and> tout = 0 then Some 8 else if tin = 5 \<and> tout = 1 then Some 16
      else if tin = 6 \<and> tout = 2 then Some 32 else if tin = 7 \<and> tout = 3 then Some 64 else None)"

definition Zigzag_fromHeader :: "u8 list \<Rightarrow> (nat \<times> zigzag_stage) res" where
  "Zigzag_fromHeader config =
     (if 2 \<le> length config
      then case width_of_pair (config ! 0) (config ! 1) of
          None \<Rightarrow> Inl (RuntimeError ''Unsupported ZigzagStage type pair: TIn='')
        | Some w \<Rightarrow> Inr (w, zigzag_deserializeHeader config new_zigzag)
      else Inr (32, zigzag_deserializeHeader config new_zigzag))"

definition negabinary_serializeHeader :: "'a::len itself \<Rightarrow> nat \<Rightarrow> u8 list" where
  "negabinary_serializeHeader t max_size = (if max_size < 2 then [] else [signed_dt t, unsigned_dt t])"

definition Negabinary_fromHeader :: "u8 list \<Rightarrow> nat res" where
  "Negabinary_fromHeader config =
     (if 2 \<le> length config
      then case width_of_pair (config ! 0) (config ! 1) of
          None \<Rightarrow> Inl (RuntimeError ''Unsupported NegabinaryStage type pair: TIn='') | Some w \<Rightarrow> Inr w
      else Inr 32)"

fun mode_byte :: "fusion_mode \<Rightarrow> u8" where
  "mode_byte Plain = 0"
| "mode_byte Negabinary = 0"
| "mode_byte Zigzag = 1"

definition diff_serializeHeader :: "u8 \<Rightarrow> u8 \<Rightarrow> nat \<Rightarrow> diff_stage \<Rightarrow> u8 list" where
  "diff_serializeHeader tin tout max_size st =
     (let needed = (if df_mode st = Plain then 6 else 7) in
      if max_size < needed then []
      else [tin, tout] @ le_bytes 4 (unat (ucast (df_chunk st) :: u32)) @ (if needed = 7 then [mode_byte (df_mode st)] else []))"

definition diff_deserializeHeader :: "u8 list \<Rightarrow> diff_stage \<Rightarrow> diff_stage" where
  "diff_deserializeHeader buf st =
     (if 6 \<le> length buf then st\<lparr>df_chunk := word_of_nat (le_val (take 4 (drop 2 buf)))\<rparr> else st)"

definition new_diff :: "fusion_mode \<Rightarrow> diff_stage" where
  "new_diff mode = \<lparr>df_is_inverse = False, df_mode = mode, df_chunk = 0, df_actual_output_size = 0, df_saved_chunk = 0, df_saved_actual = 0\<rparr>"

definition diff_saveState :: "diff_stage \<Rightarrow> diff_stage" where
  "diff_saveState st = st\<lparr>df_saved_chunk := df_chunk st, df_saved_actual := df_actual_output_size st\<rparr>"

definition diff_restoreState :: "diff_stage \<Rightarrow> diff_stage" where
  "diff_restoreState st = st\<lparr>df_chunk := df_saved_chunk st, df_actual_output_size := df_saved_actual st\<rparr>"

text \<open>The types of the same-type instantiations.\<close>

definition plain_types :: "u8 list" where
  "plain_types = [8, 9, 0, 1, 2, 6, 7]"

text \<open>The element type, the output type and the stage of the instantiation the factory picks.\<close>

definition Difference_fromHeader :: "u8 list \<Rightarrow> (u8 \<times> u8 \<times> diff_stage) res" where
  "Difference_fromHeader config =
     (if 2 \<le> length config then
        let tin = config ! 0; tout = config ! 1;
            zig = (7 \<le> length config \<and> config ! 6 = 1)
        in if width_of_pair tin tout \<noteq> None
           then Inr (tin, tout, diff_deserializeHeader config (new_diff (if zig then Zigzag else Negabinary)))
           else if tin \<in> set plain_types then Inr (tin, tin, diff_deserializeHeader config (new_diff Plain))
           else Inl (RuntimeError ''Unsupported Difference data type: '')
      else if 1 \<le> length config then
        if config ! 0 \<in> set plain_types then Inr (config ! 0, config ! 0, new_diff Plain)
        else Inl (RuntimeError ''Unsupported Difference data type: '')
      else Inr (8, 8, new_diff Plain))"

definition diff_getRequiredInputAlignment :: "diff_stage \<Rightarrow> size_t" where
  "diff_getRequiredInputAlignment st = (if 0 < df_chunk st then df_chunk st else 1)"

subsection \<open>The bit formulas are inverse to each other\<close>

lemma signed_drop_all: "signed_drop_bit (LENGTH('a) - 1) x = (if bit x (LENGTH('a) - 1) then - 1 else (0 :: 'a::len word))"
  by (rule bit_word_eqI) (auto simp: bit_signed_drop_bit_iff min_def Suc_le_eq)

lemma neg_bit0: "- (u AND 1) = (if bit u 0 then - 1 else (0 :: 'a::len word))"
  by (simp add: and_one_eq mod_2_eq_odd bit_0)

lemma bit_zigzag_encode:
  "bit (zigzag_encode (x :: 'a::len word)) n \<longleftrightarrow> n < LENGTH('a) \<and> (bit x (LENGTH('a) - 1) \<noteq> (1 \<le> n \<and> bit x (n - 1)))"
  unfolding zigzag_encode_def signed_drop_all bit_xor_iff bit_push_bit_iff by auto

lemma bit_zigzag_decode:
  "bit (zigzag_decode (u :: 'a::len word)) n \<longleftrightarrow> n < LENGTH('a) \<and> (bit u 0 \<noteq> bit u (Suc n))"
  unfolding zigzag_decode_def neg_bit0 bit_xor_iff bit_drop_bit_eq by (auto dest: bit_imp_le_length)

lemma zigzag_inverse [simp]: "zigzag_decode (zigzag_encode x) = (x :: 'a::len word)"
proof (rule bit_word_eqI)
  fix n assume n: "n < LENGTH('a)"
  then have "n = LENGTH('a) - 1" if "\<not> Suc n < LENGTH('a)" using that by simp
  with n show "bit (zigzag_decode (zigzag_encode x)) n = bit x n"
    by (cases "Suc n < LENGTH('a)") (auto simp: bit_zigzag_decode bit_zigzag_encode)
qed

lemma negabinary_inverse [simp]: "negabinary_decode (negabinary_encode n) = n"
  by (simp add: negabinary_decode_def negabinary_encode_def xor.assoc)

lemma diff_dec_enc [simp]: "diff_dec mode (diff_enc mode d) = d"
  by (cases mode) simp_all

subsection \<open>The chunked prefix sum\<close>

definition range_sum :: "'a::len word list \<Rightarrow> nat \<Rightarrow> nat \<Rightarrow> 'a word" where
  "range_sum data a b = sum_list (map ((!) data) [a..<b])"

lemma range_sum_split: "a \<le> m \<Longrightarrow> m \<le> b \<Longrightarrow> range_sum data a b = range_sum data a m + range_sum data m b"
  by (simp add: range_sum_def upt_add_eq_append [of a m "b - m"] flip: sum_list_append map_append)
     (metis le_add_diff_inverse map_append sum_list_append upt_add_eq_append)

lemma range_sum_cong: "(\<And>j. a \<le> j \<Longrightarrow> j < b \<Longrightarrow> data ! j = data' ! j) \<Longrightarrow> range_sum data a b = range_sum data' a b"
  unfolding range_sum_def by (rule arg_cong [where f = sum_list]) (rule map_cong, auto)

lemma prefix_sums_nth: "i < length xs \<Longrightarrow> prefix_sums acc xs ! i = acc + sum_list (take (Suc i) xs)"
proof (induction xs arbitrary: acc i)
  case Nil
  then show ?case by simp
next
  case (Cons x xs)
  then show ?case by (cases i) (simp_all add: add.assoc)
qed

lemma sum_guarded:
  "sum_list (map (\<lambda>k. if t + k < ln then data ! (b + t + k) else 0) [0..<m]) =
     range_sum data (b + t) (b + max t (min (t + m) ln))"
proof (induction m)
  case 0
  then show ?case by (simp add: range_sum_def)
next
  case (Suc m)
  show ?case
  proof (cases "t + m < ln")
    case True
    then have "max t (min (t + Suc m) ln) = Suc (t + m)" "max t (min (t + m) ln) = t + m" by simp_all
    then show ?thesis using Suc True by (simp add: range_sum_def add.assoc)
  next
    case False
    then have "min (t + Suc m) ln = ln" "min (t + m) ln = ln" by simp_all
    then show ?thesis using Suc False by simp
  qed
qed

text \<open>After the tiles below \<open>t\<close>: the first \<open>t\<close> sums of the block are in place, the rest is untouched.\<close>

definition tiles_done :: "'a::len word list \<Rightarrow> nat \<Rightarrow> nat \<Rightarrow> nat \<Rightarrow> 'a word list \<times> 'a word \<Rightarrow> bool" where
  "tiles_done data base ln t st \<longleftrightarrow> length (fst st) = length data \<and> snd st = range_sum data base (base + min t ln) \<and>
     (\<forall>j<length data. fst st ! j = (if base \<le> j \<and> j < base + min t ln then range_sum data base (Suc j) else data ! j))"

lemma cumsum_tile_step:
  assumes "tiles_done data base ln t st" "t < ln" "base + ln \<le> n" "length data = n"
  shows "tiles_done data base ln (t + 512) (cumsum_tile n base ln t st)"
proof -
  obtain d p where st: "st = (d, p)" by (cases st)
  note I = assms(1) [unfolded tiles_done_def st fst_conv snd_conv]
  let ?val = "\<lambda>tid. if t + tid < ln \<and> base + t + tid < n then d ! (base + t + tid) else 0"
  let ?e = "min (t + 512) ln"
  have val: "?val = (\<lambda>tid. if t + tid < ln then d ! (base + t + tid) else 0)" using assms(3) by auto
  have sum: "sum_list (map ?val [0..<m]) = range_sum data (base + t) (base + max t (min (t + m) ln))" for m
    unfolding val sum_guarded using I assms(2-4) by (intro range_sum_cong) auto
  have pre: "p = range_sum data base (base + t)" using I assms(2) by simp
  have scan: "prefix_sums 0 (map ?val [0..<512]) ! i + p = range_sum data base (Suc (base + t + i))" if "i < 512" "t + i < ln" for i
  proof -
    have "prefix_sums 0 (map ?val [0..<512]) ! i = sum_list (map ?val [0..<Suc i])"
      using that by (simp add: prefix_sums_nth take_map del: upt_Suc)
    also have "\<dots> = range_sum data (base + t) (base + Suc (t + i))" unfolding sum using that by (simp add: max_def min_def)
    finally show ?thesis using range_sum_split [of base "base + t" "base + Suc (t + i)" data] by (simp add: pre ac_simps)
  qed
  let ?w = "fold (\<lambda>tid d. if t + tid < ln then d[base + t + tid := prefix_sums 0 (map ?val [0..<512]) ! tid + p] else d) [0..<512] d"
  have res: "cumsum_tile n base ln t st = (?w, p + sum_list (map ?val [0..<512]))"
    by (simp add: cumsum_tile_def st Let_def del: upt_Suc)
  have "p + sum_list (map ?val [0..<512]) = range_sum data base (base + ?e)"
    unfolding sum using range_sum_split [of base "base + t" "base + ?e" data] assms(2) by (simp add: pre max_def min_def)
  moreover have "?w ! j = (if base \<le> j \<and> j < base + ?e then range_sum data base (Suc j) else data ! j)" if j: "j < length data" for j
  proof (cases "base + t \<le> j \<and> j < base + t + 512 \<and> t + (j - (base + t)) < ln")
    case True
    then have "?w ! j = range_sum data base (Suc (base + t + (j - (base + t))))"
      using fold_offset_writes(1) [of j d "\<lambda>tid. t + tid < ln" "base + t"] I j scan by auto
    then show ?thesis using True by auto
  next
    case False
    then have "?w ! j = d ! j" using fold_offset_writes(1) [of j d "\<lambda>tid. t + tid < ln" "base + t"] I j by auto
    then show ?thesis using I j False by auto
  qed
  moreover have "length ?w = length data"
  proof (cases "length data")
    case 0
    then show ?thesis using assms by simp
  next
    case (Suc k)
    then show ?thesis using fold_offset_writes(2) [of 0 d] I by simp
  qed
  ultimately show ?thesis unfolding res tiles_done_def by simp
qed

lemma cumsum_tiles:
  assumes "tiles_done data base ln t st" "base + ln \<le> n" "length data = n"
  shows "\<exists>t'\<ge>ln. tiles_done data base ln t' (fold (cumsum_tile n base ln) (stride_from t 512 ln) st)"
  using assms(1,2)
proof (induction t "512 :: nat" ln arbitrary: st rule: stride_from.induct)
  case (1 t ln)
  show ?case
  proof (cases "t < ln")
    case True
    have "tiles_done data base ln (t + 512) (cumsum_tile n base ln t st)"
      by (rule cumsum_tile_step [OF "1.prems"(1) True "1.prems"(2) assms(3)])
    then show ?thesis using "1.hyps" "1.prems"(2) True by (subst stride_from.simps) simp
  next
    case False
    then have "stride_from t 512 ln = []" by (subst stride_from.simps) simp
    then show ?thesis using "1.prems" False by (intro exI [of _ t]) simp
  qed
qed

lemma cumsum_block_nth:
  assumes "length data = n" "0 < ce"
  shows "length (cumsum_block n ce blk data) = n"
    and "j < n \<Longrightarrow> cumsum_block n ce blk data ! j = (if j div ce = blk then range_sum data (blk * ce) (Suc j) else data ! j)"
proof -
  let ?b = "blk * ce"
  have div: "j div ce = blk \<longleftrightarrow> ?b \<le> j \<and> j < ?b + ce" for j
    using assms(2) by (metis add.commute div_nat_eqI less_mult_imp_div_less mult.commute mult_Suc dividend_less_div_times
        div_times_less_eq_dividend)
  have "length (cumsum_block n ce blk data) = n \<and>
    (\<forall>j<n. cumsum_block n ce blk data ! j = (if j div ce = blk then range_sum data ?b (Suc j) else data ! j))"
  proof (cases "n \<le> ?b")
    case True
    then show ?thesis using assms(1) by (auto simp: cumsum_block_def Let_def div)
  next
    case False
    let ?ln = "min ce (n - ?b)"
    have "tiles_done data ?b ?ln 0 (data, 0)" by (simp add: tiles_done_def range_sum_def)
    moreover have "?b + ?ln \<le> n" using False by simp
    ultimately obtain t where "?ln \<le> t"
      "tiles_done data ?b ?ln t (fold (cumsum_tile n ?b ?ln) (stride_from 0 512 ?ln) (data, 0))" using cumsum_tiles [OF _ _ assms(1)] by blast
    then show ?thesis using False assms(1) by (auto simp: cumsum_block_def Let_def tiles_done_def div min_absorb2)
  qed
  then show "length (cumsum_block n ce blk data) = n"
    "j < n \<Longrightarrow> cumsum_block n ce blk data ! j = (if j div ce = blk then range_sum data (blk * ce) (Suc j) else data ! j)" by auto
qed

lemma cumsum_blocks_nth:
  assumes "length data = n" "0 < ce" "distinct bs"
  shows "length (fold (cumsum_block n ce) bs data) = n"
    and "j < n \<Longrightarrow> fold (cumsum_block n ce) bs data ! j =
           (if j div ce \<in> set bs then range_sum data (j div ce * ce) (Suc j) else data ! j)"
proof -
  have "length (fold (cumsum_block n ce) bs data) = n \<and> (\<forall>j<n. fold (cumsum_block n ce) bs data ! j =
           (if j div ce \<in> set bs then range_sum data (j div ce * ce) (Suc j) else data ! j))"
    using assms(1,3)
  proof (induction bs arbitrary: data)
    case Nil
    then show ?case by simp
  next
    case (Cons b bs)
    let ?d = "cumsum_block n ce b data"
    note nth = cumsum_block_nth [OF Cons.prems(1) assms(2)]
    have IH: "length (fold (cumsum_block n ce) bs ?d) = n"
      "\<And>j. j < n \<Longrightarrow> fold (cumsum_block n ce) bs ?d ! j = (if j div ce \<in> set bs then range_sum ?d (j div ce * ce) (Suc j) else ?d ! j)"
      using Cons.IH [of ?d] nth(1) Cons.prems(2) by auto
    have other: "range_sum ?d (j div ce * ce) (Suc j) = range_sum data (j div ce * ce) (Suc j)" if j: "j < n" "j div ce \<noteq> b" for j
    proof (rule range_sum_cong)
      fix i assume i: "j div ce * ce \<le> i" "i < Suc j"
      then have "i div ce = j div ce" using assms(2) by (metis div_le_mono div_mult_self_is_m le_antisym less_Suc_eq_le)
      then show "?d ! i = data ! i" using nth(2) [of i] i j by simp
    qed
    show ?case using IH nth(2) other Cons.prems(2) by auto
  qed
  then show "length (fold (cumsum_block n ce) bs data) = n"
    "j < n \<Longrightarrow> fold (cumsum_block n ce) bs data ! j =
           (if j div ce \<in> set bs then range_sum data (j div ce * ce) (Suc j) else data ! j)" by auto
qed

lemma launchChunkedCumsum_map:
  assumes "sched_ok sched" "length data = n" "0 < ce" "n < 2 ^ 31"
  shows "launchChunkedCumsum sched n ce data = map (\<lambda>j. range_sum data (j div ce * ce) (Suc j)) [0..<n]"
proof -
  let ?bs = "sched [0..<grid32 n ce]"
  have "(n + ce - 1) div ce \<le> n"
  proof (cases "n = 0")
    case False
    then have "n + ce - 1 < Suc n * ce" using assms(3) by (cases n; cases ce) auto
    then show ?thesis using less_mult_imp_div_less less_Suc_eq_le by blast
  qed (use assms(3) in simp)
  then have g: "grid32 n ce = (n + ce - 1) div ce" using grid32_exact [OF assms(3)] assms(4) by simp
  have "j div ce < grid32 n ce" if "j < n" for j
  proof -
    have "(j + ce) div ce \<le> (n + ce - 1) div ce" using that by (intro div_le_mono) simp
    moreover have "(j + ce) div ce = Suc (j div ce)" using assms(3) by (simp add: div_add_self2)
    ultimately show ?thesis using g by simp
  qed
  then have mem: "j div ce \<in> set ?bs" if "j < n" for j using that sched_set [OF assms(1)] by simp
  have dist: "distinct ?bs" by (rule sched_distinct [OF assms(1)]) simp
  note nth = cumsum_blocks_nth [OF assms(2,3) dist]
  show ?thesis unfolding launchChunkedCumsum_def by (rule nth_equalityI) (use nth mem in auto)
qed

subsection \<open>Differences telescope\<close>

lemma and_pred_zero_pow2:
  assumes "0 < (c :: nat)" "c AND (c - 1) = 0"
  shows "\<exists>k. c = 2 ^ k"
proof -
  from assms(1) obtain k where k: "2 ^ k \<le> c" "c < 2 ^ Suc k"
    using ex_power_ivl1 [of 2 c] by auto
  show ?thesis
  proof (cases "c = 2 ^ k")
    case False
    then have "2 ^ k \<le> c - 1" "c - 1 < 2 ^ Suc k" using k by auto
    then have "c div 2 ^ k = 1" "(c - 1) div 2 ^ k = 1" using k by (auto intro!: div_nat_eqI)
    then have "bit c k" "bit (c - 1) k" by (simp_all add: bit_iff_odd)
    then have "bit (c AND (c - 1)) k" by (simp add: bit_and_iff)
    then show ?thesis using assms(2) by simp
  qed blast
qed

lemma boundary_mod:
  assumes "\<not> (0 < ce \<and> ce AND (ce - 1) \<noteq> 0)"
  shows "is_boundary ce idx \<longleftrightarrow> idx = 0 \<or> 0 < ce \<and> idx mod ce = 0"
proof (cases "0 < ce")
  case True
  then obtain k where k: "ce = 2 ^ k" using and_pred_zero_pow2 assms by blast
  have "idx AND (2 ^ k - 1) = idx mod 2 ^ k" by (metis mask_eq_exp_minus_1 take_bit_eq_mask take_bit_eq_mod)
  then show ?thesis using True k by (simp add: is_boundary_def)
qed (simp add: is_boundary_def)

lemma diff_telescopes:
  assumes "\<And>i. i < n \<Longrightarrow> ds ! i = (if i mod ce = 0 then inp ! i else inp ! i - inp ! (i - 1))" "j < n" "0 < ce"
  shows "range_sum ds (j div ce * ce) (Suc j) = inp ! j"
proof -
  have "b + r < n \<Longrightarrow> r < ce \<Longrightarrow> range_sum ds b (Suc (b + r)) = inp ! (b + r)" if "b mod ce = 0" for b r
  proof (induction r)
    case 0
    then show ?case using assms(1) [of b] that by (simp add: range_sum_def)
  next
    case (Suc r)
    have "(b + Suc r) mod ce = Suc r" using that Suc.prems by (simp add: mod_add_left_eq [of b, symmetric] del: add_Suc_right)
    then have "ds ! (b + Suc r) = inp ! (b + Suc r) - inp ! (b + r)" using assms(1) [of "b + Suc r"] Suc.prems by simp
    then show ?case using Suc range_sum_split [of b "Suc (b + r)" "Suc (b + Suc r)" ds] by (simp add: range_sum_def)
  qed
  from this [of "j div ce * ce" "j mod ce"] assms(2,3) show ?thesis by simp
qed

subsection \<open>Stages as functions on bytes\<close>

definition zigzag_bytes :: "'a::len itself \<Rightarrow> zigzag_stage \<Rightarrow> run_env \<Rightarrow> u8 list \<Rightarrow> u8 list res" where
  "zigzag_bytes t st e bs = map_sum id (\<lambda>(outs, st'). take (unat (zz_actual_output_size st')) (outs ! 0))
     (zigzag_execute t (re_sched e) False [bs] [re_stale e (length bs)] [word_of_nat (length bs)] st)"

definition negabinary_bytes :: "'a::len itself \<Rightarrow> negabinary_stage \<Rightarrow> run_env \<Rightarrow> u8 list \<Rightarrow> u8 list res" where
  "negabinary_bytes t st e bs = map_sum id (\<lambda>(outs, st'). take (unat (nb_actual_output_size st')) (outs ! 0))
     (negabinary_execute t (re_sched e) False [bs] [re_stale e (length bs)] [word_of_nat (length bs)] st)"

definition diff_bytes :: "'a::len itself \<Rightarrow> diff_stage \<Rightarrow> run_env \<Rightarrow> u8 list \<Rightarrow> u8 list res" where
  "diff_bytes t st e bs = map_sum id (\<lambda>(outs, st'). take (unat (df_actual_output_size st')) (outs ! 0))
     (diff_execute t (re_sched e) False [bs] [re_stale e (length bs)] [word_of_nat (length bs)] st)"

lemma launch_map_map:
  assumes "sched_ok sched" "length out = n" "n < 2 ^ 31" "0 < k"
  shows "launch_map sched k n f out = map f [0..<n]"
proof (cases "n = 0")
  case False
  have "n \<le> 2 ^ 31 - 1" using assms(3) by simp
  also have "\<dots> \<le> k * (2 ^ 31 - 1)" using assms(4) by simp
  finally have "n \<le> grid32 n k * k" by (rule grid_covers [OF assms(4)])
  then show ?thesis using False assms(2) sched_set [OF assms(1)] by (auto simp: launch_map_def intro!: elem_kernel_map)
qed (use assms in \<open>simp add: launch_map_def\<close>)

lemma take_store_words:
  "take (elem_size TYPE('a) * length ws) (store_words (ws :: 'a::len word list) out) = bytes_of ws"
  by (simp add: store_words_def)

lemma map_words: "map (\<lambda>i. f (words_of t n bs ! i)) [0..<n] = map f (words_of t n bs)"
  by (rule nth_equalityI) simp_all

lemma size_of_small: "elem_type (t :: 'a::len itself) \<Longrightarrow> length bs = elem_size t * n \<Longrightarrow> n < 2 ^ 31 \<Longrightarrow> unat (word_of_nat (length bs) :: size_t) = length bs"
proof -
  assume a: "elem_type t" "length bs = elem_size t * n" "n < 2 ^ 31"
  have "elem_size t \<le> 8" using a(1) by (auto simp: elem_type_def elem_size_def)
  then have "length bs < 2 ^ 64" using a(2,3) mult_le_mono [of "elem_size t" 8 n "2 ^ 31"] by simp
  then show ?thesis by (simp add: unat_of_nat)
qed

lemma negabinary_bytes_eq:
  assumes "elem_type TYPE('a::len)" "run_env_ok e" "length bs = elem_size TYPE('a) * n" "n < 2 ^ 31"
  shows "negabinary_bytes TYPE('a) st e bs =
    Inr (bytes_of (map (if nb_is_inverse st then negabinary_decode else negabinary_encode) (words_of TYPE('a) n bs)))"
proof -
  have k: "0 < elem_size TYPE('a)" using elem_type_pow [OF assms(1)] by simp
  note sz = size_of_small [OF assms(1,3,4)]
  have n: "length bs div elem_size TYPE('a) = n" using k assms(3) by simp
  have lm: "launch_map (re_sched e) 256 n f (words_of TYPE('a) n old) = map f [0..<n]" for f :: "nat \<Rightarrow> 'a word" and old
    using assms(2,4) by (intro launch_map_map) (auto simp: run_env_ok_def)
  have tk: "take (length bs) (store_words ws old) = bytes_of ws" if "length ws = n" for ws :: "'a word list" and old
    using take_store_words [of ws old] that assms(3) by simp
  show ?thesis
  proof (cases "n = 0")
    case True
    then show ?thesis using assms(3) by (simp add: negabinary_bytes_def negabinary_execute_def words_of_def bytes_of_def Let_def)
  next
    case False
    then show ?thesis by (simp add: negabinary_bytes_def negabinary_execute_def Let_def sz n lm map_words tk)
  qed
qed

lemma zigzag_bytes_eq:
  assumes "elem_type TYPE('a::len)" "run_env_ok e" "length bs < 2 ^ 31"
  shows "zigzag_bytes TYPE('a) st e bs =
    Inr (bytes_of (map (if zz_is_inverse st then zigzag_decode else zigzag_encode)
           (words_of TYPE('a) (length bs div elem_size TYPE('a)) bs)) @
         drop (elem_size TYPE('a) * (length bs div elem_size TYPE('a))) bs)"
proof -
  let ?k = "elem_size TYPE('a)" and ?n = "length bs div elem_size TYPE('a)"
  have k: "0 < ?k" using elem_type_pow [OF assms(1)] by simp
  have n: "?n < 2 ^ 31" using assms(3) div_le_dividend le_less_trans by blast
  have sz: "unat (word_of_nat (length bs) :: size_t) = length bs" using assms(3) by (simp add: unat_of_nat)
  have lm: "launch_map (re_sched e) 256 ?n f (words_of TYPE('a) ?n old) = map f [0..<?n]" for f :: "nat \<Rightarrow> 'a word" and old
    using assms(2) n by (intro launch_map_map) (auto simp: run_env_ok_def)
  have stale: "length (re_stale e m) = m" for m using assms(2) by (simp add: run_env_ok_def)
  have patch: "take (length bs) (take (?n * ?k) (store_words ws old) @ take (length bs - ?n * ?k) (drop (?n * ?k) bs) @ x) =
      bytes_of ws @ drop (?k * ?n) bs" if "length ws = ?n" for ws :: "'a word list" and old x
  proof -
    have "take (?n * ?k) (store_words ws old) = bytes_of ws" using take_store_words [of ws old] that by (simp add: mult.commute)
    moreover have "length (bytes_of ws @ drop (?k * ?n) bs) = length bs" using that div_times_less_eq_dividend [of "length bs" ?k]
      by (simp add: mult.commute)
    moreover have "take (length bs - ?n * ?k) (drop (?n * ?k) bs) = drop (?k * ?n) bs" by (simp add: mult.commute)
    ultimately show ?thesis by (metis append.assoc append_eq_conv_conj)
  qed
  have exact: "store_words ws (re_stale e (length bs)) = bytes_of ws" if "length ws = ?n" "length bs = ?n * ?k" for ws :: "'a word list"
    using that stale [of "length bs"] by (simp add: store_words_def mult.commute)
  show ?thesis
  proof (cases "bs = []")
    case True
    then show ?thesis by (simp add: zigzag_bytes_def zigzag_execute_def words_of_def bytes_of_def Let_def)
  next
    case False
    show ?thesis
    proof (cases "length bs = ?n * ?k")
      case True
      then show ?thesis using False
        by (simp add: zigzag_bytes_def zigzag_execute_def Let_def sz lm map_words exact mult.commute)
    next
      case no: False
      then have pos: "length bs - ?n * ?k \<noteq> 0" by (metis diff_is_0_eq div_times_less_eq_dividend le_antisym)
      show ?thesis using False pos patch by (simp add: zigzag_bytes_def zigzag_execute_def Let_def sz lm map_words)
    qed
  qed
qed

definition diff_ce :: "'a::len itself \<Rightarrow> diff_stage \<Rightarrow> nat" where
  "diff_ce t st = (if 0 < df_chunk st then unat (df_chunk st) div elem_size t else 0)"

lemma stride_threads_pos: "0 < stride_threads n"
  by (simp add: stride_threads_def Let_def)

lemma diff_bytes_eq:
  assumes "elem_type TYPE('a::len)" "run_env_ok e" "length bs = elem_size TYPE('a) * n" "n < 2 ^ 31"
  shows "diff_bytes TYPE('a) st e bs =
    (if n = 0 then Inr []
     else if \<not> df_is_inverse st then
       if 0 < diff_ce TYPE('a) st \<and> diff_ce TYPE('a) st AND (diff_ce TYPE('a) st - 1) \<noteq> 0
       then Inl (RuntimeError ''DifferenceStage: chunk_elems must be a power-of-2'')
       else Inr (bytes_of (map (diff_at (df_mode st) (diff_ce TYPE('a) st) (words_of TYPE('a) n bs)) [0..<n]))
     else
       let ce = (if diff_ce TYPE('a) st = 0 then n else diff_ce TYPE('a) st)
       in Inr (bytes_of (map (\<lambda>j. range_sum (map (diff_dec (df_mode st)) (words_of TYPE('a) n bs)) (j div ce * ce) (Suc j)) [0..<n])))"
proof -
  have k: "0 < elem_size TYPE('a)" using elem_type_pow [OF assms(1)] by simp
  note sz = size_of_small [OF assms(1,3,4)]
  have n: "length bs div elem_size TYPE('a) = n" using k assms(3) by simp
  have so: "sched_ok (re_sched e)" using assms(2) by (simp add: run_env_ok_def)
  have sk: "stride_kernel (re_sched e) (stride_threads n) n f out = map f [0..<n]" if "length out = n" for f :: "nat \<Rightarrow> 'a word" and out
    by (rule stride_kernel_map [OF so stride_threads_pos that])
  have cs: "launchChunkedCumsum (re_sched e) n ce d = map (\<lambda>j. range_sum d (j div ce * ce) (Suc j)) [0..<n]"
    if "length d = n" "0 < ce" for d :: "'a word list" and ce by (rule launchChunkedCumsum_map [OF so that assms(4)])
  have tk: "take (length bs) (store_words ws old) = bytes_of ws" if "length ws = n" for ws :: "'a word list" and old
    using take_store_words [of ws old] that assms(3) by simp
  have dec: "diff_dec Plain = (\<lambda>d :: 'a word. d)" "diff_dec Negabinary = (negabinary_decode :: 'a word \<Rightarrow> _)"
    "diff_dec Zigzag = (zigzag_decode :: 'a word \<Rightarrow> _)" by (rule ext, simp)+
  show ?thesis
    by (cases "df_mode st")
       (simp_all add: diff_bytes_def diff_execute_def launchDiff_def Let_def sz n sk cs tk map_words dec flip: diff_ce_def)
qed

definition diff_accepts :: "'a::len itself \<Rightarrow> diff_stage \<Rightarrow> u8 list \<Rightarrow> bool" where
  "diff_accepts t st bs \<longleftrightarrow> elem_type t \<and> \<not> df_is_inverse st \<and> length bs mod elem_size t = 0 \<and> length bs div elem_size t < 2 ^ 31 \<and>
     \<not> (0 < diff_ce t st \<and> diff_ce t st AND (diff_ce t st - 1) \<noteq> 0)"

lemma diff_restores:
  assumes "diff_accepts TYPE('a::len) st bs" "run_env_ok e" "run_env_ok e'"
  shows "\<exists>c. diff_bytes TYPE('a) st e bs = Inr c \<and> diff_bytes TYPE('a) (st\<lparr>df_is_inverse := True\<rparr>) e' c = Inr bs"
proof -
  let ?k = "elem_size TYPE('a)" and ?ce = "diff_ce TYPE('a) st" and ?inv = "st\<lparr>df_is_inverse := True\<rparr>"
  obtain n where n: "length bs = ?k * n" using assms(1) by (auto simp: diff_accepts_def)
  have a: "elem_type TYPE('a)" "\<not> df_is_inverse st" "\<not> (0 < ?ce \<and> ?ce AND (?ce - 1) \<noteq> 0)" using assms(1) by (auto simp: diff_accepts_def)
  have k: "0 < ?k" using elem_type_pow [OF a(1)] by simp
  have n31: "n < 2 ^ 31" using assms(1) n k by (simp add: diff_accepts_def)
  have mode: "df_mode ?inv = df_mode st" by simp
  have inv_ce: "diff_ce TYPE('a) ?inv = ?ce" by (simp add: diff_ce_def)
  show ?thesis
  proof (cases "n = 0")
    case True
    then show ?thesis using n diff_bytes_eq [OF a(1) assms(2) n n31, of st] diff_bytes_eq [OF a(1) assms(3) n n31, of ?inv] by simp
  next
    case False
    let ?in = "words_of TYPE('a) n bs" and ?c = "if ?ce = 0 then n else ?ce"
    let ?ds = "map (\<lambda>i. if is_boundary ?ce i then ?in ! i else ?in ! i - ?in ! (i - 1)) [0..<n]"
    let ?es = "map (diff_at (df_mode st) ?ce ?in) [0..<n]"
    have es: "map (diff_dec (df_mode st)) ?es = ?ds" by (simp add: diff_at_def)
    have fwd: "diff_bytes TYPE('a) st e bs = Inr (bytes_of ?es)"
      using diff_bytes_eq [OF a(1) assms(2) n n31, of st] a False by auto
    have ln: "length (bytes_of ?es) = ?k * n" by simp
    have ws: "words_of TYPE('a) n (bytes_of ?es) = ?es" using words_of_bytes_of [OF a(1), of ?es "[]"] by simp
    have "range_sum ?ds (j div ?c * ?c) (Suc j) = ?in ! j" if "j < n" for j
    proof (rule diff_telescopes [OF _ that])
      show "0 < ?c" using False by simp
      show "?ds ! i = (if i mod ?c = 0 then ?in ! i else ?in ! i - ?in ! (i - 1))" if "i < n" for i
        using that boundary_mod [OF a(3), of i] by auto
    qed
    then have "map (\<lambda>j. range_sum ?ds (j div ?c * ?c) (Suc j)) [0..<n] = ?in" by (intro nth_equalityI) simp_all
    then have "diff_bytes TYPE('a) ?inv e' (bytes_of ?es) = Inr (bytes_of ?in)"
      using diff_bytes_eq [OF a(1) assms(3) ln n31, of ?inv, unfolded ws Let_def mode es inv_ce] False by simp
    then show ?thesis using fwd bytes_of_words_of [OF a(1), of n bs] n by simp
  qed
qed

interpretation difference: lossless_stage "diff_bytes TYPE('a::len) st" "diff_bytes TYPE('a) (st\<lparr>df_is_inverse := True\<rparr>)" "diff_accepts TYPE('a) st"
  for st by unfold_locales (rule diff_restores)

definition zigzag_accepts :: "'a::len itself \<Rightarrow> zigzag_stage \<Rightarrow> u8 list \<Rightarrow> bool" where
  "zigzag_accepts t st bs \<longleftrightarrow> elem_type t \<and> \<not> zz_is_inverse st \<and> length bs < 2 ^ 31"

lemma zigzag_restores:
  assumes "zigzag_accepts TYPE('a::len) st bs" "run_env_ok e" "run_env_ok e'"
  shows "\<exists>c. zigzag_bytes TYPE('a) st e bs = Inr c \<and> zigzag_bytes TYPE('a) (st\<lparr>zz_is_inverse := True\<rparr>) e' c = Inr bs"
proof -
  let ?k = "elem_size TYPE('a)" and ?n = "length bs div elem_size TYPE('a)"
  have a: "elem_type TYPE('a)" "\<not> zz_is_inverse st" "length bs < 2 ^ 31" using assms(1) by (auto simp: zigzag_accepts_def)
  let ?ws = "map zigzag_encode (words_of TYPE('a) ?n bs)" and ?tl = "drop (?k * ?n) bs"
  have fits: "?k * ?n \<le> length bs" by (simp add: mult.commute)
  let ?c = "bytes_of ?ws @ ?tl"
  have fwd: "zigzag_bytes TYPE('a) st e bs = Inr ?c" using zigzag_bytes_eq [OF a(1) assms(2) a(3), of st] a(2) by simp
  have len: "length ?c = length bs" using fits by simp
  have ws: "words_of TYPE('a) ?n ?c = ?ws" using words_of_bytes_of [OF a(1), of ?ws ?tl] by simp
  have "zigzag_bytes TYPE('a) (st\<lparr>zz_is_inverse := True\<rparr>) e' ?c = Inr (bytes_of (map zigzag_decode ?ws) @ ?tl)"
    using zigzag_bytes_eq [OF a(1) assms(3), of ?c "st\<lparr>zz_is_inverse := True\<rparr>"] a(3) len ws by (simp del: map_map)
  moreover have "map zigzag_decode ?ws = words_of TYPE('a) ?n bs" by (simp add: comp_def)
  ultimately show ?thesis using fwd bytes_of_words_of [OF a(1) fits] by simp
qed

interpretation zigzag: lossless_stage "zigzag_bytes TYPE('a::len) st" "zigzag_bytes TYPE('a) (st\<lparr>zz_is_inverse := True\<rparr>)" "zigzag_accepts TYPE('a) st"
  for st by unfold_locales (rule zigzag_restores)

definition negabinary_accepts :: "'a::len itself \<Rightarrow> negabinary_stage \<Rightarrow> u8 list \<Rightarrow> bool" where
  "negabinary_accepts t st bs \<longleftrightarrow> elem_type t \<and> \<not> nb_is_inverse st \<and> length bs mod elem_size t = 0 \<and> length bs div elem_size t < 2 ^ 31"

lemma whole_words:
  assumes "elem_type TYPE('a::len)" "length bs mod elem_size TYPE('a) = 0"
  obtains n where "length bs = elem_size TYPE('a) * n" "length bs div elem_size TYPE('a) = n"
  using assms elem_type_pow [OF assms(1)] by (metis div_mult_mod_eq add_0_right mult.commute)

lemma negabinary_restores:
  assumes "negabinary_accepts TYPE('a::len) st bs" "run_env_ok e" "run_env_ok e'"
  shows "\<exists>c. negabinary_bytes TYPE('a) st e bs = Inr c \<and> negabinary_bytes TYPE('a) (st\<lparr>nb_is_inverse := True\<rparr>) e' c = Inr bs"
proof -
  have a: "elem_type TYPE('a)" "\<not> nb_is_inverse st" "length bs mod elem_size TYPE('a) = 0" "length bs div elem_size TYPE('a) < 2 ^ 31"
    using assms(1) by (auto simp: negabinary_accepts_def)
  obtain n where n: "length bs = elem_size TYPE('a) * n" "length bs div elem_size TYPE('a) = n" using whole_words [OF a(1,3)] .
  let ?ws = "map negabinary_encode (words_of TYPE('a) n bs)"
  have n31: "n < 2 ^ 31" using a(4) n(2) by simp
  have fwd: "negabinary_bytes TYPE('a) st e bs = Inr (bytes_of ?ws)"
    using negabinary_bytes_eq [OF a(1) assms(2) n(1) n31, of st] a(2) by simp
  have ws: "words_of TYPE('a) n (bytes_of ?ws) = ?ws" using words_of_bytes_of [OF a(1), of ?ws "[]"] by simp
  have "negabinary_bytes TYPE('a) (st\<lparr>nb_is_inverse := True\<rparr>) e' (bytes_of ?ws) = Inr (bytes_of (map negabinary_decode ?ws))"
    using negabinary_bytes_eq [OF a(1) assms(3) _ n31, of "bytes_of ?ws" "st\<lparr>nb_is_inverse := True\<rparr>"] ws by (simp del: map_map)
  moreover have "map negabinary_decode ?ws = words_of TYPE('a) n bs" by (simp add: comp_def)
  ultimately show ?thesis using fwd bytes_of_words_of [OF a(1), of n bs] n(1) by simp
qed

interpretation negabinary: lossless_stage "negabinary_bytes TYPE('a::len) st" "negabinary_bytes TYPE('a) (st\<lparr>nb_is_inverse := True\<rparr>)"
  "negabinary_accepts TYPE('a) st"
  for st by unfold_locales (rule negabinary_restores)

subsection \<open>A difference followed by a transform\<close>

text \<open>The staged chain: plain differences, then the element transform of \<open>mode\<close>.\<close>

definition plain_of :: "diff_stage \<Rightarrow> diff_stage" where
  "plain_of st = st\<lparr>df_mode := Plain\<rparr>"

lemma diff_forward:
  assumes "diff_accepts TYPE('a::len) st bs" "run_env_ok e" "length bs = elem_size TYPE('a) * n"
  shows "diff_bytes TYPE('a) st e bs =
    Inr (bytes_of (map (diff_at (df_mode st) (diff_ce TYPE('a) st) (words_of TYPE('a) n bs)) [0..<n]))"
proof -
  have a: "elem_type TYPE('a)" "n < 2 ^ 31" using assms(1,3) elem_type_pow [of "TYPE('a)"] by (auto simp: diff_accepts_def)
  show ?thesis using diff_bytes_eq [OF a(1) assms(2,3) a(2), of st] assms(1)
    by (auto simp: diff_accepts_def bytes_of_def)
qed

lemma plain_accepts: "diff_accepts t (plain_of st) bs \<longleftrightarrow> diff_accepts t st bs"
  by (simp add: diff_accepts_def diff_ce_def plain_of_def)

lemma diff_keeps_length: "diff_accepts TYPE('a::len) st bs \<Longrightarrow> run_env_ok e \<Longrightarrow> diff_bytes TYPE('a) st e bs = Inr c \<Longrightarrow> length c = length bs"
proof -
  assume a: "diff_accepts TYPE('a) st bs" "run_env_ok e" "diff_bytes TYPE('a) st e bs = Inr c"
  have e: "elem_type TYPE('a)" "length bs mod elem_size TYPE('a) = 0" using a(1) by (auto simp: diff_accepts_def)
  obtain n where n: "length bs = elem_size TYPE('a) * n" using whole_words [OF e] .
  show "length c = length bs" using diff_forward [OF a(1,2) n] a(3) n by auto
qed

interpretation diff_then_zigzag: lossless_pair
  "diff_bytes TYPE('a::len) st" "diff_bytes TYPE('a) (st\<lparr>df_is_inverse := True\<rparr>)" "\<lambda>bs. diff_accepts TYPE('a) st bs \<and> length bs < 2 ^ 31"
  "zigzag_bytes TYPE('a) new_zigzag" "zigzag_bytes TYPE('a) (new_zigzag\<lparr>zz_is_inverse := True\<rparr>)" "zigzag_accepts TYPE('a) new_zigzag"
  for st
proof unfold_locales
  fix bs e e'
  show "diff_accepts TYPE('a) st bs \<and> length bs < 2 ^ 31 \<Longrightarrow> run_env_ok e \<Longrightarrow> run_env_ok e' \<Longrightarrow>
    \<exists>c. diff_bytes TYPE('a) st e bs = Inr c \<and> diff_bytes TYPE('a) (st\<lparr>df_is_inverse := True\<rparr>) e' c = Inr bs"
    using difference.restores by blast
next
  fix bs e c
  assume "diff_accepts TYPE('a) st bs \<and> length bs < 2 ^ 31" "run_env_ok e" "diff_bytes TYPE('a) st e bs = Inr c"
  then show "zigzag_accepts TYPE('a) new_zigzag c"
    using diff_keeps_length [where 'a = 'a, of st bs e c] by (auto simp: zigzag_accepts_def new_zigzag_def diff_accepts_def)
qed

text \<open>
  C9. The difference stage is lossless: for integers of every width, with and without chunking, plain or fused with
  either transform, the inverse restores every input whose length is a whole number of elements (below \<open>2^31\<close> of them), whatever
  the order of the threads in either direction.  The forward kernel takes differences per chunk; the inverse
  rebuilds the values by block scans over tiles of 512 elements with a carried prefix.
\<close>

theorem difference_lossless:
  assumes "diff_accepts TYPE('a::len) st bs" "run_env_ok e" "run_env_ok e'"
  shows "\<exists>c. diff_bytes TYPE('a) st e bs = Inr c \<and> length c = length bs \<and>
    diff_bytes TYPE('a) (st\<lparr>df_is_inverse := True\<rparr>) e' c = Inr bs"
  using difference.restores [OF assms] diff_keeps_length [OF assms(1,2)] by blast

theorem difference_lossless_witness:
  "\<exists>c. diff_bytes TYPE(32) ((new_diff Zigzag)\<lparr>df_chunk := 8\<rparr>) \<lparr>re_sched = rev, re_stale = (\<lambda>n. replicate n 7)\<rparr> [1, 0, 0, 0, 3, 0, 0, 0, 9, 0, 0, 0] = Inr c \<and>
     length c = 12 \<and>
     diff_bytes TYPE(32) ((new_diff Zigzag)\<lparr>df_chunk := 8, df_is_inverse := True\<rparr>) \<lparr>re_sched = id, re_stale = (\<lambda>n. replicate n 0)\<rparr> c
       = Inr [1, 0, 0, 0, 3, 0, 0, 0, 9, 0, 0, 0]"
proof -
  have ok: "diff_accepts TYPE(32) ((new_diff Zigzag)\<lparr>df_chunk := 8\<rparr>) [1, 0, 0, 0, 3, 0, 0, 0, 9, 0, 0, 0]"
    by (simp add: diff_accepts_def elem_type_def elem_size_def diff_ce_def new_diff_def)
  have "run_env_ok \<lparr>re_sched = rev, re_stale = (\<lambda>n. replicate n 7)\<rparr>" "run_env_ok \<lparr>re_sched = id, re_stale = (\<lambda>n. replicate n 0)\<rparr>"
    by (simp_all add: run_env_ok_def sched_ok_def)
  from difference_lossless [OF ok this] obtain c where
    "diff_bytes TYPE(32) ((new_diff Zigzag)\<lparr>df_chunk := 8\<rparr>) \<lparr>re_sched = rev, re_stale = (\<lambda>n. replicate n 7)\<rparr> [1, 0, 0, 0, 3, 0, 0, 0, 9, 0, 0, 0] = Inr c"
    "length c = length [1, 0, 0, 0, 3, 0, 0, 0, 9, 0, 0, 0 :: u8]"
    "diff_bytes TYPE(32) (((new_diff Zigzag)\<lparr>df_chunk := 8\<rparr>)\<lparr>df_is_inverse := True\<rparr>) \<lparr>re_sched = id, re_stale = (\<lambda>n. replicate n 0)\<rparr> c
       = Inr [1, 0, 0, 0, 3, 0, 0, 0, 9, 0, 0, 0]" by blast
  then show ?thesis by (intro exI [of _ c]) simp
qed

text \<open>
  C20. Fusing the transform into the difference kernel changes nothing: a difference stage with the zigzag or the negabinary
  output writes byte for byte what a plain difference stage followed by a \<open>ZigzagStage\<close> or a \<open>NegabinaryStage\<close> writes.
\<close>

theorem fused_difference_equals_staged:
  assumes "diff_accepts TYPE('a::len) st bs" "length bs < 2 ^ 31" "run_env_ok e"
  shows "(df_mode st = Zigzag \<longrightarrow>
      diff_bytes TYPE('a) st e bs = then_stage (diff_bytes TYPE('a) (plain_of st)) (zigzag_bytes TYPE('a) new_zigzag) e bs) \<and>
    (df_mode st = Negabinary \<longrightarrow>
      diff_bytes TYPE('a) st e bs = then_stage (diff_bytes TYPE('a) (plain_of st))
        (negabinary_bytes TYPE('a) \<lparr>nb_is_inverse = False, nb_actual_output_size = 0\<rparr>) e bs)"
proof -
  let ?k = "elem_size TYPE('a)"
  have a: "elem_type TYPE('a)" "length bs mod ?k = 0" using assms(1) by (auto simp: diff_accepts_def)
  obtain n where n: "length bs = ?k * n" "length bs div ?k = n" using whole_words [OF a] .
  have n31: "n < 2 ^ 31" using assms(1) n(2) by (simp add: diff_accepts_def)
  let ?ds = "map (diff_at Plain (diff_ce TYPE('a) st) (words_of TYPE('a) n bs)) [0..<n]"
  have pa: "diff_accepts TYPE('a) (plain_of st) bs" using assms(1) by (simp add: plain_accepts)
  have pe: "df_mode (plain_of st) = Plain" "diff_ce TYPE('a) (plain_of st) = diff_ce TYPE('a) st" by (simp_all add: plain_of_def diff_ce_def)
  have plain: "diff_bytes TYPE('a) (plain_of st) e bs = Inr (bytes_of ?ds)"
    using diff_forward [OF pa assms(3) n(1), unfolded pe] .
  have fused: "diff_bytes TYPE('a) st e bs = Inr (bytes_of (map (diff_enc (df_mode st)) ?ds))"
  proof -
    have "map (diff_at (df_mode st) (diff_ce TYPE('a) st) (words_of TYPE('a) n bs)) [0..<n] = map (diff_enc (df_mode st)) ?ds"
      by (simp add: diff_at_def)
    then show ?thesis using diff_forward [OF assms(1,3) n(1)] by metis
  qed
  have ws: "words_of TYPE('a) n (bytes_of ?ds) = ?ds" using words_of_bytes_of [OF a(1), of ?ds "[]"] by simp
  have dv: "length (bytes_of ?ds) div ?k = n" using n by simp
  have lz: "length (bytes_of ?ds) < 2 ^ 31" using n assms(2) by simp
  have "zigzag_bytes TYPE('a) new_zigzag e (bytes_of ?ds) = Inr (bytes_of (map zigzag_encode ?ds))"
    using zigzag_bytes_eq [OF a(1) assms(3) lz, of new_zigzag, unfolded dv ws] by (simp add: new_zigzag_def)
  moreover have "negabinary_bytes TYPE('a) \<lparr>nb_is_inverse = False, nb_actual_output_size = 0\<rparr> e (bytes_of ?ds) = Inr (bytes_of (map negabinary_encode ?ds))"
    using negabinary_bytes_eq [OF a(1) assms(3) _ n31, of "bytes_of ?ds", unfolded ws] by simp
  ultimately show ?thesis unfolding then_stage_def plain fused by (auto simp: comp_def)
qed

theorem fused_difference_equals_staged_witness:
  "diff_bytes TYPE(32) ((new_diff Zigzag)\<lparr>df_chunk := 8\<rparr>) \<lparr>re_sched = rev, re_stale = (\<lambda>n. replicate n 7)\<rparr> [1, 0, 0, 0, 3, 0, 0, 0, 9, 0, 0, 0] =
     then_stage (diff_bytes TYPE(32) (plain_of ((new_diff Zigzag)\<lparr>df_chunk := 8\<rparr>))) (zigzag_bytes TYPE(32) new_zigzag)
       \<lparr>re_sched = rev, re_stale = (\<lambda>n. replicate n 7)\<rparr> [1, 0, 0, 0, 3, 0, 0, 0, 9, 0, 0, 0]"
proof -
  have ok: "diff_accepts TYPE(32) ((new_diff Zigzag)\<lparr>df_chunk := 8\<rparr>) [1, 0, 0, 0, 3, 0, 0, 0, 9, 0, 0, 0]"
    by (simp add: diff_accepts_def elem_type_def elem_size_def diff_ce_def new_diff_def)
  have "run_env_ok \<lparr>re_sched = rev, re_stale = (\<lambda>n. replicate n 7)\<rparr>" by (simp add: run_env_ok_def sched_ok_def)
  from fused_difference_equals_staged [OF ok _ this] show ?thesis by (simp add: new_diff_def)
qed

text \<open>
  The staged chain of a difference stage and a \<open>ZigzagStage\<close> is lossless as a whole: running both inverses in the
  opposite order restores the input.
\<close>

theorem diff_zigzag_chain_lossless:
  assumes "diff_accepts TYPE('a::len) st bs" "length bs < 2 ^ 31" "run_env_ok e" "run_env_ok e'"
  shows "\<exists>c. then_stage (diff_bytes TYPE('a) st) (zigzag_bytes TYPE('a) new_zigzag) e bs = Inr c \<and>
    then_stage (zigzag_bytes TYPE('a) (new_zigzag\<lparr>zz_is_inverse := True\<rparr>)) (diff_bytes TYPE('a) (st\<lparr>df_is_inverse := True\<rparr>)) e' c = Inr bs"
  by (rule diff_then_zigzag.restores) (use assms in auto)

text \<open>
  The element transforms of the negabinary and the difference stage stop at the last whole element, but both report
  the full input size: the last bytes of a partial element are what the pool buffer held
  before, not the input's.  (\<open>ZigzagStage\<close> copies them through.)
\<close>

theorem partial_element_stale:
  assumes "elem_type TYPE('a::len)" "run_env_ok e" "elem_size TYPE('a) \<le> length bs" "length bs < 2 ^ 31"
  shows "negabinary_bytes TYPE('a) \<lparr>nb_is_inverse = False, nb_actual_output_size = 0\<rparr> e bs =
      Inr (bytes_of (map negabinary_encode (words_of TYPE('a) (length bs div elem_size TYPE('a)) bs)) @
           drop (elem_size TYPE('a) * (length bs div elem_size TYPE('a))) (re_stale e (length bs))) \<and>
    diff_bytes TYPE('a) (new_diff Plain) e bs =
      Inr (bytes_of (map (diff_at Plain 0 (words_of TYPE('a) (length bs div elem_size TYPE('a)) bs)) [0..<length bs div elem_size TYPE('a)]) @
           drop (elem_size TYPE('a) * (length bs div elem_size TYPE('a))) (re_stale e (length bs)))"
proof -
  let ?k = "elem_size TYPE('a)" and ?n = "length bs div elem_size TYPE('a)"
  have k: "0 < ?k" using elem_type_pow [OF assms(1)] by simp
  have n: "?n < 2 ^ 31" "0 < ?n"
    using assms(3,4) k div_le_dividend le_less_trans by (blast, simp add: div_greater_zero_iff)
  have sz: "unat (word_of_nat (length bs) :: size_t) = length bs" using assms(4) by (simp add: unat_of_nat)
  have so: "sched_ok (re_sched e)" and stale: "length (re_stale e m) = m" for m using assms(2) by (auto simp: run_env_ok_def)
  have lm: "launch_map (re_sched e) 256 ?n f (words_of TYPE('a) ?n old) = map f [0..<?n]" for f :: "nat \<Rightarrow> 'a word" and old
    using so n by (intro launch_map_map) auto
  have sk: "stride_kernel (re_sched e) (stride_threads ?n) ?n f (words_of TYPE('a) ?n old) = map f [0..<?n]" for f :: "nat \<Rightarrow> 'a word" and old
    by (rule stride_kernel_map [OF so stride_threads_pos]) simp
  have tk: "take (length bs) (store_words ws (re_stale e (length bs))) = bytes_of ws @ drop (?k * ?n) (re_stale e (length bs))"
    if "length ws = ?n" for ws :: "'a word list"
    using that stale [of "length bs"] div_times_less_eq_dividend [of "length bs" ?k] by (simp add: store_words_def mult.commute)
  have "negabinary_bytes TYPE('a) \<lparr>nb_is_inverse = False, nb_actual_output_size = 0\<rparr> e bs =
      Inr (bytes_of (map negabinary_encode (words_of TYPE('a) ?n bs)) @ drop (?k * ?n) (re_stale e (length bs)))"
    using n by (simp add: negabinary_bytes_def negabinary_execute_def Let_def sz lm map_words tk)
  moreover have "diff_bytes TYPE('a) (new_diff Plain) e bs =
      Inr (bytes_of (map (diff_at Plain 0 (words_of TYPE('a) ?n bs)) [0..<?n]) @ drop (?k * ?n) (re_stale e (length bs)))"
    using n by (simp add: diff_bytes_def diff_execute_def launchDiff_def new_diff_def Let_def sz sk tk)
  ultimately show ?thesis by blast
qed

theorem partial_element_stale_witness:
  "negabinary_bytes TYPE(32) \<lparr>nb_is_inverse = False, nb_actual_output_size = 0\<rparr> \<lparr>re_sched = id, re_stale = (\<lambda>n. replicate n 0xEE)\<rparr> [0, 0, 0, 0, 5] =
     Inr [0, 0, 0, 0, 0xEE]"
proof -
  have t: "elem_type TYPE(32)" "elem_size TYPE(32) \<le> length [0, 0, 0, 0, 5 :: u8]" by (simp_all add: elem_type_def elem_size_def)
  have e: "run_env_ok \<lparr>re_sched = id, re_stale = (\<lambda>n. replicate n 0xEE)\<rparr>" by (simp add: run_env_ok_def sched_ok_def)
  have "bytes_of (map negabinary_encode (words_of TYPE(32) 1 [0, 0, 0, 0, 5])) = [0, 0, 0, 0 :: u8]" by code_simp
  with partial_element_stale [OF t(1) e t(2)] show ?thesis by (simp add: elem_size_def)
qed

theorem diff_zigzag_chain_lossless_witness:
  "\<exists>c. then_stage (diff_bytes TYPE(16) ((new_diff Plain)\<lparr>df_chunk := 4\<rparr>)) (zigzag_bytes TYPE(16) new_zigzag) \<lparr>re_sched = rev, re_stale = (\<lambda>n. replicate n 7)\<rparr> [1, 2, 3, 4, 5, 6] = Inr c \<and>
    then_stage (zigzag_bytes TYPE(16) (new_zigzag\<lparr>zz_is_inverse := True\<rparr>)) (diff_bytes TYPE(16) (((new_diff Plain)\<lparr>df_chunk := 4\<rparr>)\<lparr>df_is_inverse := True\<rparr>))
      \<lparr>re_sched = rev, re_stale = (\<lambda>n. replicate n 7)\<rparr> c = Inr [1, 2, 3, 4, 5, 6]"
proof -
  have ok: "diff_accepts TYPE(16) ((new_diff Plain)\<lparr>df_chunk := 4\<rparr>) [1, 2, 3, 4, 5, 6]"
    by (simp add: diff_accepts_def elem_type_def elem_size_def diff_ce_def new_diff_def)
  have e: "run_env_ok \<lparr>re_sched = rev, re_stale = (\<lambda>n. replicate n 7)\<rparr>" by (simp add: run_env_ok_def sched_ok_def)
  show ?thesis by (rule diff_zigzag_chain_lossless [OF ok _ e e]) simp
qed

text \<open>
  The configuration a transform stage writes into the archive rebuilds it: for every instantiation the library compiles, the
  factory returns a stage of the same element types, with the same mode and byte-transparency, and with the same
  chunk size as long as that fits the four bytes reserved for it.
\<close>

theorem transform_header_roundtrip:
  assumes "elem_type TYPE('a::len)"
  shows "Zigzag_fromHeader (zigzag_serializeHeader TYPE('a) 128 zz) = Inr (LENGTH('a), new_zigzag\<lparr>zz_byte_transparent := zz_byte_transparent zz\<rparr>) \<and>
    Negabinary_fromHeader (negabinary_serializeHeader TYPE('a) 128) = Inr LENGTH('a) \<and>
    (df_mode st \<noteq> Plain \<and> unat (df_chunk st) < 2 ^ 32 \<longrightarrow>
      Difference_fromHeader (diff_serializeHeader (signed_dt TYPE('a)) (unsigned_dt TYPE('a)) 128 st) =
        Inr (signed_dt TYPE('a), unsigned_dt TYPE('a), (new_diff (df_mode st))\<lparr>df_chunk := df_chunk st\<rparr>)) \<and>
    (df_mode st = Plain \<and> unat (df_chunk st) < 2 ^ 32 \<and> dt \<in> set plain_types \<longrightarrow>
      Difference_fromHeader (diff_serializeHeader dt dt 128 st) = Inr (dt, dt, (new_diff Plain)\<lparr>df_chunk := df_chunk st\<rparr>))"
proof (intro conjI impI)
  have w: "width_of_pair (signed_dt TYPE('a)) (unsigned_dt TYPE('a)) = Some LENGTH('a)"
    using assms by (auto simp: elem_type_def width_of_pair_def signed_dt_def unsigned_dt_def)
  show "Zigzag_fromHeader (zigzag_serializeHeader TYPE('a) 128 zz) = Inr (LENGTH('a), new_zigzag\<lparr>zz_byte_transparent := zz_byte_transparent zz\<rparr>)"
    using w by (simp add: Zigzag_fromHeader_def zigzag_serializeHeader_def zigzag_deserializeHeader_def)
  show "Negabinary_fromHeader (negabinary_serializeHeader TYPE('a) 128) = Inr LENGTH('a)"
    using w by (simp add: Negabinary_fromHeader_def negabinary_serializeHeader_def)
  have chunk: "le_val (le_bytes 4 (unat (ucast (df_chunk st) :: u32))) = unat (df_chunk st)" if "unat (df_chunk st) < 2 ^ 32"
    using that by (simp add: le_val_le_bytes unsigned_ucast_eq take_bit_nat_eq_self)
  have des: "diff_deserializeHeader ([a, b] @ le_bytes 4 (unat (ucast (df_chunk st) :: u32)) @ r) s = s\<lparr>df_chunk := df_chunk st\<rparr>"
    if "unat (df_chunk st) < 2 ^ 32" for a b r s
    using that by (simp add: diff_deserializeHeader_def chunk)
  show "Difference_fromHeader (diff_serializeHeader (signed_dt TYPE('a)) (unsigned_dt TYPE('a)) 128 st) =
        Inr (signed_dt TYPE('a), unsigned_dt TYPE('a), (new_diff (df_mode st))\<lparr>df_chunk := df_chunk st\<rparr>)"
    if "df_mode st \<noteq> Plain \<and> unat (df_chunk st) < 2 ^ 32"
  proof -
    let ?h = "[signed_dt TYPE('a), unsigned_dt TYPE('a)] @ le_bytes 4 (unat (ucast (df_chunk st) :: u32)) @ [mode_byte (df_mode st)]"
    have h: "diff_serializeHeader (signed_dt TYPE('a)) (unsigned_dt TYPE('a)) 128 st = ?h" using that by (simp add: diff_serializeHeader_def)
    have "length ?h = 7" "?h ! 0 = signed_dt TYPE('a)" "?h ! 1 = unsigned_dt TYPE('a)" "?h ! 6 = mode_byte (df_mode st)"
      by (simp_all add: nth_append)
    then show ?thesis unfolding Difference_fromHeader_def h Let_def using that w des [of _ _ "[mode_byte (df_mode st)]"]
      by (cases "df_mode st") simp_all
  qed
  show "Difference_fromHeader (diff_serializeHeader dt dt 128 st) = Inr (dt, dt, (new_diff Plain)\<lparr>df_chunk := df_chunk st\<rparr>)"
    if "df_mode st = Plain \<and> unat (df_chunk st) < 2 ^ 32 \<and> dt \<in> set plain_types"
  proof -
    let ?h = "[dt, dt] @ le_bytes 4 (unat (ucast (df_chunk st) :: u32)) @ []"
    have h: "diff_serializeHeader dt dt 128 st = ?h" using that by (simp add: diff_serializeHeader_def)
    have "width_of_pair dt dt = None" using that by (auto simp: width_of_pair_def plain_types_def)
    moreover have "length ?h = 6" "?h ! 0 = dt" "?h ! 1 = dt" by simp_all
    ultimately show ?thesis unfolding Difference_fromHeader_def h Let_def using that des [of dt dt "[]" "new_diff Plain"] by simp
  qed
qed

theorem transform_header_roundtrip_witness:
  "Difference_fromHeader (diff_serializeHeader (signed_dt TYPE(32)) (unsigned_dt TYPE(32)) 128 ((new_diff Zigzag)\<lparr>df_chunk := 16384\<rparr>)) =
     Inr (6, 2, (new_diff Zigzag)\<lparr>df_chunk := 16384\<rparr>)"
proof -
  have t: "elem_type TYPE(32)" by (simp add: elem_type_def)
  show ?thesis using transform_header_roundtrip [OF t, of new_zigzag "(new_diff Zigzag)\<lparr>df_chunk := 16384\<rparr>" 0]
    by (simp add: new_diff_def signed_dt_def unsigned_dt_def)
qed

end
