(* ===== verification/Bitpack.thy ===== *)
theory Bitpack
  imports Kernels Fzm_Format
begin

section \<open>The bit-packing stage\<close>

text \<open>
  \<open>modules/coders/bitpack\<close>: the shift transform, the four kernels, the reductions that pick base, shift and width,
  \<open>execute\<close> in both directions, the size estimates and the serialized configuration.
  \<open>cub::DeviceReduce::Min\<close> and \<open>Max\<close> are the minimum and maximum of the input; the OR reduction is the order-free
  combination of the values all threads visit.  Scratch memory of the reductions is not modelled.
\<close>

record 'b bitpack_stage =
  bp_is_inverse :: bool
  bp_auto_detect :: bool
  bp_auto_base :: bool
  bp_auto_shift :: bool
  bp_nbits :: u8
  bp_shift :: u8
  bp_base :: 'b
  bp_num_elements :: u64
  bp_actual_output_size :: size_t

definition new_bitpack :: "'a::len word bitpack_stage" where
  "new_bitpack = \<lparr>bp_is_inverse = False, bp_auto_detect = False, bp_auto_base = False, bp_auto_shift = False,
     bp_nbits = word_of_nat (8 * elem_size TYPE('a)), bp_shift = 0, bp_base = 0, bp_num_elements = 0, bp_actual_output_size = 0\<rparr>"

text \<open>The types the class admits.\<close>

definition bitpack_type :: "'a::len itself \<Rightarrow> bool" where
  "bitpack_type t \<longleftrightarrow> LENGTH('a) \<in> {8, 16, 32}"

definition setNBits :: "u8 \<Rightarrow> 'a::len word bitpack_stage \<Rightarrow> 'a word bitpack_stage res" where
  "setNBits nbits st =
     (if nbits = 0 \<or> 8 * elem_size TYPE('a) < unat nbits \<or> nbits AND (nbits - 1) \<noteq> 0
      then Inl (InvalidArgument ''BitpackStage::setNBits: nbits must be a power of two '') else Inr (st\<lparr>bp_nbits := nbits\<rparr>))"

definition setShift :: "u8 \<Rightarrow> 'a::len word bitpack_stage \<Rightarrow> 'a word bitpack_stage res" where
  "setShift shift st =
     (if 8 * elem_size TYPE('a) \<le> unat shift then Inl (InvalidArgument ''BitpackStage::setShift: shift must be in [0, '')
      else Inr (st\<lparr>bp_shift := shift\<rparr>))"

definition setAdaptive :: "bool \<Rightarrow> 'a::len word bitpack_stage \<Rightarrow> 'a word bitpack_stage" where
  "setAdaptive enable st = st\<lparr>bp_auto_base := enable, bp_auto_shift := enable, bp_auto_detect := enable\<rparr>"

definition estimateOutputSize :: "'a::len word bitpack_stage \<Rightarrow> nat \<Rightarrow> nat" where
  "estimateOutputSize st nbytes =
     (if \<not> bp_is_inverse st then
        if bp_auto_detect st then nbytes else (nbytes div elem_size TYPE('a) * unat (bp_nbits st) + 7) div 8
      else (nbytes * 8 + unat (bp_nbits st) - 1) div unat (bp_nbits st) * elem_size TYPE('a))"

subsection \<open>Kernels\<close>

definition bitpackFwdTransform :: "'a::len word \<Rightarrow> 'a word \<Rightarrow> nat \<Rightarrow> 'a word" where
  "bitpackFwdTransform v base shift = drop_bit shift (v - base)"

definition bitpackInvTransform :: "'a::len word \<Rightarrow> 'a word \<Rightarrow> nat \<Rightarrow> 'a word" where
  "bitpackInvTransform v base shift = push_bit shift v + base"

text \<open>The byte one thread of the sub-byte encoder writes.\<close>

definition pack_byte :: "'a::len word list \<Rightarrow> nat \<Rightarrow> nat \<Rightarrow> 'a word \<Rightarrow> nat \<Rightarrow> nat \<Rightarrow> u8" where
  "pack_byte inp n nbits base shift byte_idx =
     (let elems_per_byte = 8 div nbits; m = push_bit nbits 1 - 1; base_elem = byte_idx * elems_per_byte in
      fold (\<lambda>k packed. if base_elem + k < n
          then packed OR ucast (push_bit (k * nbits) (bitpackFwdTransform (inp ! (base_elem + k)) base shift AND m)) else packed)
        [0..<elems_per_byte] 0)"

definition unpack_sub :: "u8 list \<Rightarrow> nat \<Rightarrow> 'a::len word \<Rightarrow> nat \<Rightarrow> nat \<Rightarrow> 'a word" where
  "unpack_sub inp nbits base shift idx =
     (let elems_per_byte = 8 div nbits; m = push_bit nbits 1 - 1; slot = idx mod elems_per_byte in
      bitpackInvTransform (ucast (drop_bit (slot * nbits) (inp ! (idx div elems_per_byte)) AND m)) base shift)"

definition multi_mask :: "nat \<Rightarrow> 'a::len word" where
  "multi_mask nbits = (if nbits = 8 * elem_size TYPE('a) then NOT 0 else push_bit nbits 1 - 1)"

text \<open>One thread of the multi-byte encoder: \<open>nbits / 8\<close> bytes, the low one first.\<close>

definition pack_multi :: "'a::len word list \<Rightarrow> nat \<Rightarrow> nat \<Rightarrow> 'a word \<Rightarrow> nat \<Rightarrow> nat \<Rightarrow> u8 list \<Rightarrow> u8 list" where
  "pack_multi inp n nbits base shift idx out =
     (if n \<le> idx then out
      else let v = bitpackFwdTransform (inp ! idx) base shift AND multi_mask nbits; bytes = nbits div 8 in
        fold (\<lambda>b out. out[idx * bytes + b := ucast (drop_bit (8 * b) v AND 0xFF)]) [0..<bytes] out)"

definition unpack_multi :: "u8 list \<Rightarrow> nat \<Rightarrow> 'a::len word \<Rightarrow> nat \<Rightarrow> nat \<Rightarrow> 'a word" where
  "unpack_multi inp nbits base shift idx =
     (let bytes = nbits div 8 in
      bitpackInvTransform (fold (\<lambda>b val. val OR push_bit (8 * b) (ucast (inp ! (idx * bytes + b)))) [0..<bytes] 0) base shift)"

definition launchEncode :: "(nat list \<Rightarrow> nat list) \<Rightarrow> 'a::len word list \<Rightarrow> u8 list \<Rightarrow> nat \<Rightarrow> nat \<Rightarrow> 'a word \<Rightarrow> nat \<Rightarrow> u8 list" where
  "launchEncode sched inp out n nbits base shift =
     (if n = 0 then out
      else if nbits < 8 then
        let n_out = (n * nbits + 7) div 8 in
        elem_kernel (sched [0..<grid32 n_out 256 * 256]) n_out (pack_byte inp n nbits base shift) out
      else fold (pack_multi inp n nbits base shift) (sched [0..<grid32 n 256 * 256]) out)"

definition launchDecode :: "(nat list \<Rightarrow> nat list) \<Rightarrow> u8 list \<Rightarrow> 'a::len word list \<Rightarrow> nat \<Rightarrow> nat \<Rightarrow> 'a word \<Rightarrow> nat \<Rightarrow> 'a word list" where
  "launchDecode sched inp out n nbits base shift =
     (if n = 0 then out
      else elem_kernel (sched [0..<grid32 n 256 * 256]) n
        (if nbits < 8 then unpack_sub inp nbits base shift else unpack_multi inp nbits base shift) out)"

subsection \<open>Detection\<close>

text \<open>The source calls \<open>ctz32\<close> on non-zero words only; on zero its loop would not end.\<close>

function ctz32 :: "u32 \<Rightarrow> nat" where
  "ctz32 v = (if v = 0 \<or> v AND 1 \<noteq> 0 then 0 else Suc (ctz32 (drop_bit 1 v)))"
  by pat_completeness auto
termination
proof (relation "measure unat")
  fix v :: u32 assume "\<not> (v = 0 \<or> v AND 1 \<noteq> 0)"
  then have "unat v \<noteq> 0" by (simp add: unat_eq_zero)
  then show "(drop_bit 1 v, v) \<in> measure unat" by (simp add: drop_bit_eq_div unat_div)
qed simp

declare ctz32.simps [simp del]

function nbits_loop :: "nat \<Rightarrow> 'a::len word \<Rightarrow> nat \<Rightarrow> nat" where
  "nbits_loop full max_val b =
     (if 0 < b \<and> b < full then if max_val < push_bit b 1 then b else nbits_loop full max_val (b * 2) else full)"
  by pat_completeness auto
termination by (relation "measure (\<lambda>(full, _, b). full - b)") auto

declare nbits_loop.simps [simp del]

definition nbits_for_max :: "'a::len word \<Rightarrow> nat" where
  "nbits_for_max max_val = nbits_loop (8 * elem_size TYPE('a)) max_val 1"

definition or_reduce :: "(nat list \<Rightarrow> nat list) \<Rightarrow> 'a::len word list \<Rightarrow> nat \<Rightarrow> 'a word \<Rightarrow> u32" where
  "or_reduce sched inp n base =
     (let stride = min (grid32 n 256) 4096 * 256 in
      fold (\<lambda>i acc. acc OR ucast (inp ! i - base)) (sched (concat (map (\<lambda>tid. stride_from tid stride n) [0..<stride]))) 0)"

definition detectShift :: "(nat list \<Rightarrow> nat list) \<Rightarrow> 'a::len word list \<Rightarrow> nat \<Rightarrow> 'a word \<Rightarrow> u8" where
  "detectShift sched inp n base = (let h_or = or_reduce sched inp n base in if h_or = 0 then 0 else word_of_nat (ctz32 h_or))"

subsection \<open>Execution\<close>

definition detect_parameters :: "(nat list \<Rightarrow> nat list) \<Rightarrow> 'a::len word list \<Rightarrow> nat \<Rightarrow> 'a word bitpack_stage \<Rightarrow> 'a word bitpack_stage" where
  "detect_parameters sched inp n st =
     (let st1 = (if bp_auto_base st then st\<lparr>bp_base := Min (set inp)\<rparr> else st);
          st2 = (if bp_auto_shift st1 then st1\<lparr>bp_shift := detectShift sched inp n (bp_base st1)\<rparr> else st1)
      in if bp_auto_detect st2
         then st2\<lparr>bp_nbits := word_of_nat (nbits_for_max (drop_bit (unat (bp_shift st2)) (Max (set inp) - bp_base st2)))\<rparr>
         else st2)"

definition bitpack_execute :: "(nat list \<Rightarrow> nat list) \<Rightarrow> u8 list list \<Rightarrow> u8 list list \<Rightarrow> size_t list
   \<Rightarrow> 'a::len word bitpack_stage \<Rightarrow> (u8 list list \<times> 'a word bitpack_stage) res" where
  "bitpack_execute sched ins outs sizes st =
     (if ins = [] \<or> outs = [] \<or> sizes = [] then Inl (RuntimeError ''BitpackStage: inputs, outputs, and sizes must be non-empty'')
      else if \<not> bp_is_inverse st then
        let n = unat (sizes ! 0) div elem_size TYPE('a); inp = words_of TYPE('a) n (ins ! 0); st1 = detect_parameters sched inp n st in
        if n = 0 then Inr (outs, st\<lparr>bp_actual_output_size := 0, bp_num_elements := 0\<rparr>)
        else Inr (outs[0 := launchEncode sched inp (outs ! 0) n (unat (bp_nbits st1)) (bp_base st1) (unat (bp_shift st1))],
                  st1\<lparr>bp_num_elements := word_of_nat n, bp_actual_output_size := (word_of_nat n * ucast (bp_nbits st1) + 7) div 8\<rparr>)
      else
        let n = unat (bp_num_elements st) in
        if n = 0 then Inr (outs, st\<lparr>bp_actual_output_size := 0\<rparr>)
        else Inr (outs[0 := store_words (launchDecode sched (ins ! 0) (words_of TYPE('a) n (outs ! 0)) n
                    (unat (bp_nbits st)) (bp_base st) (unat (bp_shift st))) (outs ! 0)],
                  st\<lparr>bp_actual_output_size := word_of_nat n * word_of_nat (elem_size TYPE('a))\<rparr>))"

subsection \<open>Serialized configuration\<close>

definition bitpack_dt :: "'a::len itself \<Rightarrow> u8" where
  "bitpack_dt t = (if LENGTH('a) = 8 then 0 else if LENGTH('a) = 16 then 1 else if LENGTH('a) = 32 then 2 else 0)"

definition bitpack_serializeHeader :: "nat \<Rightarrow> 'a::len word bitpack_stage \<Rightarrow> u8 list" where
  "bitpack_serializeHeader max_size st =
     (if max_size < 15 then []
      else [bitpack_dt TYPE('a), bp_nbits st] @ le_bytes 8 (unat (bp_num_elements st)) @ [bp_shift st] @
           le_bytes 4 (unat (ucast (bp_base st) :: u32)))"

definition bitpack_deserializeHeader :: "u8 list \<Rightarrow> 'a::len word bitpack_stage \<Rightarrow> 'a word bitpack_stage" where
  "bitpack_deserializeHeader buf st =
     (let st1 = (if 2 \<le> length buf then st\<lparr>bp_nbits := buf ! 1\<rparr> else st);
          st2 = (if 10 \<le> length buf then st1\<lparr>bp_num_elements := word_of_nat (le_val (take 8 (drop 2 buf)))\<rparr> else st1)
      in if 15 \<le> length buf
         then st2\<lparr>bp_shift := buf ! 10, bp_base := ucast (word_of_nat (le_val (take 4 (drop 11 buf))) :: u32)\<rparr> else st2)"

text \<open>The width of the instantiation the factory picks.\<close>

definition Bitpack_fromHeader :: "u8 list \<Rightarrow> nat res" where
  "Bitpack_fromHeader config =
     (let dt = (if 0 < length config then config ! 0 else 1) in
      if dt = 0 then Inr 8 else if dt = 1 then Inr 16 else if dt = 2 then Inr 32
      else Inl (RuntimeError ''Unsupported BitpackStage DataType: ''))"

subsection \<open>Packing keeps the bits\<close>

definition valid_width :: "nat \<Rightarrow> bool" where
  "valid_width b \<longleftrightarrow> b \<in> {1, 2, 4, 8, 16, 32}"

text \<open>The transformed value loses no bit: the dropped ones are zero and the rest fits \<open>nbits\<close>.\<close>

definition packs :: "'a::len word \<Rightarrow> nat \<Rightarrow> nat \<Rightarrow> 'a word \<Rightarrow> bool" where
  "packs base shift nbits v \<longleftrightarrow> take_bit shift (v - base) = 0 \<and> unat (bitpackFwdTransform v base shift) < 2 ^ nbits"

lemma inv_fwd_transform: "packs base shift nbits v \<Longrightarrow> bitpackInvTransform (bitpackFwdTransform v base shift) base shift = v"
proof -
  assume "packs base shift nbits v"
  then have z: "take_bit shift (v - base) = 0" by (simp add: packs_def)
  have "push_bit shift (drop_bit shift (v - base)) = v - base"
    using bits_ident [of shift "v - base"] z by simp
  then show ?thesis by (simp add: bitpackInvTransform_def bitpackFwdTransform_def)
qed

lemma small_no_high_bits: "unat (x :: 'a::len word) < 2 ^ m \<Longrightarrow> bit x i \<Longrightarrow> i < m"
proof (rule ccontr)
  assume a: "unat x < 2 ^ m" "bit x i" "\<not> i < m"
  then have "bit (unat x) i" by (simp add: bit_unsigned_iff)
  then have "unat x div 2 ^ i \<noteq> 0" by (metis bit_iff_odd even_zero)
  then have "2 ^ i \<le> unat x" by (simp add: div_eq_0_iff not_less)
  moreover have "(2 :: nat) ^ m \<le> 2 ^ i" using a(3) by simp
  ultimately show False using a(1) by simp
qed

lemma decr_mask: "(push_bit m 1 - 1 :: 'a::len word) = mask m"
  by (simp add: mask_eq_exp_minus_1 push_bit_of_1)

lemma bit_fold_or: "bit (fold (\<lambda>k p. if P k then p OR g k else p) ks (a :: 'a::len word)) i \<longleftrightarrow> bit a i \<or> (\<exists>k\<in>set ks. P k \<and> bit (g k) i)"
  by (induction ks arbitrary: a) (auto simp: bit_or_iff)

lemma bit_pack_byte:
  assumes "nbits \<in> {1, 2, 4}" "8 \<le> LENGTH('a::len)"
  shows "bit (pack_byte (inp :: 'a word list) n nbits base shift j) i \<longleftrightarrow>
    i < 8 \<and> j * (8 div nbits) + i div nbits < n \<and> bit (bitpackFwdTransform (inp ! (j * (8 div nbits) + i div nbits)) base shift) (i mod nbits)"
proof -
  let ?e = "8 div nbits" and ?f = "\<lambda>k. bitpackFwdTransform (inp ! (j * (8 div nbits) + k)) base shift"
  have pos: "0 < nbits" "?e * nbits = 8" using assms(1) by auto
  have g: "bit (ucast (push_bit (k * nbits) (?f k AND mask nbits)) :: u8) i \<longleftrightarrow> i < 8 \<and> k = i div nbits \<and> bit (?f k) (i mod nbits)" for k
  proof -
    have "k * nbits \<le> i \<and> i - k * nbits < nbits \<longleftrightarrow> k = i div nbits"
    proof
      assume a: "k * nbits \<le> i \<and> i - k * nbits < nbits"
      have "i div nbits = k" by (rule div_nat_eqI) (use a in \<open>simp_all add: mult.commute, linarith\<close>)
      then show "k = i div nbits" by simp
    next
      assume "k = i div nbits"
      then show "k * nbits \<le> i \<and> i - k * nbits < nbits" using pos(1) by (simp add: minus_div_mult_eq_mod)
    qed
    moreover have "i - k * nbits = i mod nbits" if "k = i div nbits" using that by (simp add: minus_div_mult_eq_mod)
    ultimately show ?thesis using assms(2) by (auto simp: bit_ucast_iff bit_push_bit_iff bit_and_iff bit_mask_iff)
  qed
  have "i div nbits < ?e" if "i < 8" using that pos by (metis less_mult_imp_div_less)
  then show ?thesis unfolding pack_byte_def Let_def decr_mask bit_fold_or g by auto
qed

lemma unpack_sub_pack:
  assumes "nbits \<in> {1, 2, 4}" "8 \<le> LENGTH('a::len)" "idx < n" "packs base shift nbits (inp ! idx)"
    and "bytes ! (idx div (8 div nbits)) = pack_byte inp n nbits base shift (idx div (8 div nbits))"
  shows "unpack_sub bytes nbits base shift idx = (inp ! idx :: 'a word)"
proof -
  let ?e = "8 div nbits" and ?f = "bitpackFwdTransform (inp ! idx) base shift"
  let ?s = "idx mod ?e" and ?b = "bytes ! (idx div ?e)"
  have pos: "0 < nbits" "?e * nbits = 8" "0 < ?e" using assms(1) by auto
  have "ucast (drop_bit (?s * nbits) ?b AND mask nbits) = ?f"
  proof (rule bit_word_eqI)
    fix r assume "r < LENGTH('a)"
    show "bit (ucast (drop_bit (?s * nbits) ?b AND mask nbits) :: 'a word) r = bit ?f r"
    proof (cases "r < nbits")
      case True
      have "?s * nbits + r < Suc ?s * nbits" using True by simp
      also have "\<dots> \<le> ?e * nbits" using pos by (intro mult_le_mono1) (simp add: Suc_le_eq)
      finally have lt: "?s * nbits + r < 8" using pos(2) by simp
      have dm: "(?s * nbits + r) div nbits = ?s" "(?s * nbits + r) mod nbits = r" using True pos(1) by simp_all
      have ix: "idx div ?e * ?e + ?s = idx" by (rule div_mult_mod_eq)
      have bb: "bit ?b (?s * nbits + r) \<longleftrightarrow> bit ?f r"
        unfolding assms(5) bit_pack_byte [OF assms(1,2)] dm ix using lt assms(3) by simp
      show ?thesis using True lt bb \<open>r < LENGTH('a)\<close> assms(1)
        by (auto simp: bit_ucast_iff bit_and_iff bit_drop_bit_eq bit_mask_iff)
    next
      case False
      then show ?thesis using small_no_high_bits [of ?f nbits r] assms(4)
        by (auto simp: packs_def bit_ucast_iff bit_and_iff bit_mask_iff)
    qed
  qed
  then show ?thesis using inv_fwd_transform [OF assms(4)] unfolding unpack_sub_def Let_def decr_mask by simp
qed

lemma unpack_multi_pack:
  assumes "8 dvd nbits" "nbits \<le> LENGTH('a::len)" "packs base shift nbits (inp ! idx)" "8 * elem_size TYPE('a) = LENGTH('a)"
    and "\<And>b. b < nbits div 8 \<Longrightarrow> bytes ! (idx * (nbits div 8) + b) = ucast (drop_bit (8 * b) (bitpackFwdTransform (inp ! idx) base shift AND multi_mask nbits) AND 0xFF)"
  shows "unpack_multi bytes nbits base shift idx = (inp ! idx :: 'a word)"
proof -
  let ?f = "bitpackFwdTransform (inp ! idx) base shift"
  have mm: "multi_mask nbits = (mask nbits :: 'a word)"
  proof (cases "nbits = LENGTH('a)")
    case True
    then show ?thesis using assms(4) by (simp add: multi_mask_def)
  next
    case False
    then show ?thesis using assms(4) decr_mask by (simp only: multi_mask_def if_False)
  qed
  have ff: "(0xFF :: 'a word) = mask 8" by (simp add: mask_eq_exp_minus_1)
  have "fold (\<lambda>b val. val OR push_bit (8 * b) (ucast (bytes ! (idx * (nbits div 8) + b)))) [0..<nbits div 8] 0 = ?f"
  proof (rule bit_word_eqI)
    fix r assume r: "r < LENGTH('a)"
    have g: "bit (push_bit (8 * b) (ucast (bytes ! (idx * (nbits div 8) + b))) :: 'a word) r \<longleftrightarrow> b = r div 8 \<and> bit ?f r" if "b < nbits div 8" for b
    proof -
      have lt: "r div 8 = b \<Longrightarrow> r < nbits" using that assms(1) by (auto elim!: dvdE)
      have bd: "8 * b \<le> r \<and> r - 8 * b < 8 \<longleftrightarrow> b = r div 8" by auto
      have "8 * b + (r - 8 * b) = r" if "8 * b \<le> r" using that by simp
      then show ?thesis unfolding assms(5) [OF that] mm ff using r lt bd
        by (auto simp: bit_push_bit_iff bit_ucast_iff bit_and_iff bit_drop_bit_eq bit_mask_iff)
    qed
    have hi: "r div 8 < nbits div 8" if "bit ?f r"
      using small_no_high_bits [OF _ that, of nbits] assms(1,3) by (auto simp: packs_def elim!: dvdE intro: less_mult_imp_div_less)
    let ?g = "\<lambda>b. push_bit (8 * b) (ucast (bytes ! (idx * (nbits div 8) + b)) :: 'a word)"
    have "bit (fold (\<lambda>b val. val OR ?g b) [0..<nbits div 8] 0) r \<longleftrightarrow> (\<exists>b\<in>set [0..<nbits div 8]. bit (?g b) r)"
      using bit_fold_or [of "\<lambda>_. True" ?g "[0..<nbits div 8]" 0 r] by simp
    also have "\<dots> \<longleftrightarrow> (\<exists>b\<in>set [0..<nbits div 8]. b = r div 8 \<and> bit ?f r)" by (rule bex_cong [OF refl]) (use g in simp)
    also have "\<dots> \<longleftrightarrow> bit ?f r" using hi by auto
    finally show "bit (fold (\<lambda>b val. val OR ?g b) [0..<nbits div 8] 0) r = bit ?f r" .
  qed
  then show ?thesis using inv_fwd_transform [OF assms(3)] by (simp add: unpack_multi_def Let_def)
qed

definition packed_size :: "nat \<Rightarrow> nat \<Rightarrow> nat" where
  "packed_size n nbits = (n * nbits + 7) div 8"

lemma threads_cover: "n < 2 ^ 31 \<Longrightarrow> sched_ok sched \<Longrightarrow> {..<n} \<subseteq> set (sched [0..<grid32 n 256 * 256])"
  using grid_covers [of 256 n] by (simp add: sched_set subset_iff)

lemma launchEncode_sub:
  assumes "nbits \<in> {1, 2, 4}" "0 < n" "n < 2 ^ 31" "sched_ok sched" "packed_size n nbits \<le> length out"
  shows "launchEncode sched inp out n nbits base shift =
    map (pack_byte inp n nbits base shift) [0..<packed_size n nbits] @ drop (packed_size n nbits) out"
proof -
  have "packed_size n nbits < 2 ^ 31" using assms(1-3) by (auto simp: packed_size_def)
  then show ?thesis using assms(1,2,5) elem_kernel_prefix [OF threads_cover [OF _ assms(4)] assms(5)]
    by (auto simp: launchEncode_def packed_size_def Let_def)
qed

lemma launchEncode_multi:
  assumes "nbits \<in> {8, 16, 32}" "0 < n" "n < 2 ^ 31" "sched_ok sched" "packed_size n nbits \<le> length out"
  shows "length (launchEncode sched inp out n nbits base shift) = length out"
    and "\<lbrakk>idx < n; b < nbits div 8\<rbrakk> \<Longrightarrow> launchEncode sched inp out n nbits base shift ! (idx * (nbits div 8) + b) =
      ucast (drop_bit (8 * b) (bitpackFwdTransform (inp ! idx) base shift AND multi_mask nbits) AND 0xFF)"
proof -
  let ?m = "nbits div 8" and ?tids = "sched [0..<grid32 n 256 * 256]"
  let ?g = "\<lambda>i b. ucast (drop_bit (8 * b) (bitpackFwdTransform (inp ! i) base shift AND multi_mask nbits) AND 0xFF) :: u8"
  have m: "0 < ?m" "packed_size n nbits = n * ?m" using assms(1) by (auto simp: packed_size_def)
  have enc: "launchEncode sched inp out n nbits base shift =
      fold (\<lambda>i out. if n \<le> i then out else fold (\<lambda>b out. out[i * ?m + b := ?g i b]) [0..<?m] out) ?tids out"
  proof -
    have "pack_multi inp n nbits base shift = (\<lambda>i out. if n \<le> i then out else fold (\<lambda>b out. out[i * ?m + b := ?g i b]) [0..<?m] out)"
      by (intro ext) (simp add: pack_multi_def Let_def)
    moreover have "\<not> nbits < 8" using assms(1) by auto
    ultimately show ?thesis using assms(2) by (simp add: launchEncode_def)
  qed
  note gw = fold_group_writes [OF m(1), of n ?g ?tids out]
  show "length (launchEncode sched inp out n nbits base shift) = length out" unfolding enc using gw by blast
  assume a: "idx < n" "b < ?m"
  have "idx * ?m + b < Suc idx * ?m" using a(2) by simp
  also have "\<dots> \<le> n * ?m" using a(1) by (intro mult_le_mono1) simp
  finally have j: "idx * ?m + b < length out" using assms(5) m(2) by simp
  have d: "(idx * ?m + b) div ?m = idx" "(idx * ?m + b) mod ?m = b" using a(2) by simp_all
  have "idx \<in> set ?tids" using threads_cover [OF assms(3,4)] a(1) by auto
  with gw j d a(1) show "launchEncode sched inp out n nbits base shift ! (idx * ?m + b) = ?g idx b"
    unfolding enc by (metis (no_types, lifting))
qed

lemma slot_in_range:
  assumes "c * q = 8" "i < n"
  shows "i div c < (n * q + 7) div (8 :: nat)"
proof -
  have "i div c * c * q \<le> i * q" by (rule mult_le_mono1) (rule div_times_less_eq_dividend)
  then have "i div c * 8 \<le> i * q" using assms(1) by (simp add: mult.assoc)
  moreover have "Suc i * q \<le> n * q" using assms(2) by (intro mult_le_mono1) simp
  moreover have "0 < q" using assms(1) by (cases q) auto
  ultimately have "Suc (i div c) * 8 \<le> n * q + 7" by simp
  then have "Suc (i div c) \<le> (n * q + 7) div 8" by (simp add: less_eq_div_iff_mult_less_eq)
  then show ?thesis by simp
qed

lemma launch_roundtrip:
  assumes "valid_width nbits" "nbits \<le> LENGTH('a::len)" "bitpack_type TYPE('a)" "length inp = n" "0 < n" "n < 2 ^ 31"
    and "\<forall>v\<in>set inp. packs base shift nbits v" "sched_ok sched" "sched_ok sched'" "packed_size n nbits \<le> length out" "length old = n"
  shows "launchDecode sched' (take (packed_size n nbits) (launchEncode sched inp out n nbits base shift)) old n nbits base shift = (inp :: 'a word list)"
proof -
  let ?c = "take (packed_size n nbits) (launchEncode sched inp out n nbits base shift)"
  have L: "8 \<le> LENGTH('a)" "8 * elem_size TYPE('a) = LENGTH('a)" using assms(3) by (auto simp: bitpack_type_def elem_size_def)
  have pk: "packs base shift nbits (inp ! i)" if "i < n" for i using assms(4,7) that by simp
  have dec: "launchDecode sched' ?c old n nbits base shift =
      map (if nbits < 8 then unpack_sub ?c nbits base shift else unpack_multi ?c nbits base shift) [0..<n]"
    using elem_kernel_map [OF threads_cover [OF assms(6,9)] assms(11)] assms(5) by (simp add: launchDecode_def)
  have "(if nbits < 8 then unpack_sub ?c nbits base shift else unpack_multi ?c nbits base shift) i = inp ! i" if i: "i < n" for i
  proof (cases "nbits < 8")
    case True
    then have nb: "nbits \<in> {1, 2, 4}" using assms(1) by (auto simp: valid_width_def)
    have "8 div nbits * nbits = 8" using nb by auto
    then have "i div (8 div nbits) < packed_size n nbits" unfolding packed_size_def by (rule slot_in_range [OF _ i])
    then have "?c ! (i div (8 div nbits)) = pack_byte inp n nbits base shift (i div (8 div nbits))"
      by (simp add: launchEncode_sub [OF nb assms(5,6,8,10)])
    then show ?thesis using unpack_sub_pack [OF nb L(1) i pk [OF i]] True by simp
  next
    case False
    then have nb: "nbits \<in> {8, 16, 32}" using assms(1) by (auto simp: valid_width_def)
    have tk: "?c ! (i * (nbits div 8) + b) = launchEncode sched inp out n nbits base shift ! (i * (nbits div 8) + b)" if "b < nbits div 8" for b
    proof -
      have "i * (nbits div 8) + b < Suc i * (nbits div 8)" using that by simp
      also have "\<dots> \<le> n * (nbits div 8)" using i by (intro mult_le_mono1) simp
      also have "\<dots> = packed_size n nbits" using nb by (auto simp: packed_size_def)
      finally show ?thesis by simp
    qed
    have "unpack_multi ?c nbits base shift i = inp ! i"
    proof (rule unpack_multi_pack [OF _ assms(2) pk [OF i] L(2)])
      show "8 dvd nbits" using nb by auto
      show "?c ! (i * (nbits div 8) + b) = ucast (drop_bit (8 * b) (bitpackFwdTransform (inp ! i) base shift AND multi_mask nbits) AND 0xFF)"
        if "b < nbits div 8" for b using tk [OF that] launchEncode_multi(2) [OF nb assms(5,6,8,10) i that] by (rule trans)
    qed
    then show ?thesis using False by simp
  qed
  then show ?thesis unfolding dec using assms(4) by (intro nth_equalityI) simp_all
qed

subsection \<open>Detection finds lossless parameters\<close>

lemma ctz32_spec: "v \<noteq> 0 \<Longrightarrow> ctz32 v < 32 \<and> take_bit (ctz32 v) v = 0"
proof (induction v rule: ctz32.induct)
  case (1 v)
  show ?case
  proof (cases "v AND 1 = 0")
    case False
    then have "ctz32 v = 0" by (subst ctz32.simps) simp
    then show ?thesis by simp
  next
    case True
    have tb: "take_bit 1 v = 0" using True by (simp add: take_bit_eq_mask)
    then have low: "\<not> bit v 0" by (metis bit_0_eq bit_take_bit_iff bot_apply bot_bool_def zero_less_one)
    have nz: "drop_bit 1 v \<noteq> 0"
    proof
      assume "drop_bit 1 v = 0"
      with bits_ident [of 1 v] tb have "v = 0" by simp
      then show False using "1.prems" by simp
    qed
    have IH: "ctz32 (drop_bit 1 v) < 32" "take_bit (ctz32 (drop_bit 1 v)) (drop_bit 1 v) = 0"
      using 1(1) [OF _ nz] True "1.prems" by auto
    have eq: "ctz32 v = Suc (ctz32 (drop_bit 1 v))" using True "1.prems" by (subst ctz32.simps) simp
    have z: "\<not> bit v i" if "i < ctz32 v" for i
    proof (cases i)
      case (Suc j)
      then have "\<not> bit (take_bit (ctz32 (drop_bit 1 v)) (drop_bit 1 v)) j" using IH(2) by simp
      then show ?thesis using that Suc eq by (auto simp: bit_take_bit_iff bit_drop_bit_eq)
    qed (use low in simp)
    have "ctz32 v < 32"
    proof (rule ccontr)
      assume "\<not> ctz32 v < 32"
      then have "v = 0" using z by (intro bit_word_eqI) auto
      then show False using "1.prems" by simp
    qed
    moreover have "take_bit (ctz32 v) v = 0" using z by (intro bit_word_eqI) (auto simp: bit_take_bit_iff)
    ultimately show ?thesis by blast
  qed
qed

lemma nbits_loop_spec:
  assumes "full = 2 ^ k" "b = 2 ^ i" "full = LENGTH('a::len)" "i \<le> k"
  shows "(\<exists>j\<le>k. nbits_loop full (m :: 'a word) b = 2 ^ j) \<and> unat m < 2 ^ nbits_loop full m b"
  using assms
proof (induction "k - i" arbitrary: i b)
  case 0
  then have "nbits_loop full m b = full" by (subst nbits_loop.simps) simp
  then show ?case using 0 unat_less_pow [of m] by auto
next
  case (Suc d)
  then have lt: "i < k" by simp
  then have b: "0 < b" "b < full" using Suc.prems by simp_all
  show ?case
  proof (cases "m < push_bit b 1")
    case True
    then have eq: "nbits_loop full m b = b" using b by (subst nbits_loop.simps) simp
    have "(push_bit b 1 :: 'a word) = word_of_nat (2 ^ b)" by (simp add: push_bit_of_1)
    then have "unat (push_bit b 1 :: 'a word) = 2 ^ b mod 2 ^ LENGTH('a)" by (simp only: unat_of_nat)
    then have "unat (push_bit b 1 :: 'a word) = 2 ^ b" using b Suc.prems(3) by simp
    then have "unat m < 2 ^ b" using True by (simp add: word_less_nat_alt)
    then show ?thesis using eq Suc.prems lt by (metis less_imp_le)
  next
    case False
    then have eq: "nbits_loop full m b = nbits_loop full m (b * 2)" using b by (subst nbits_loop.simps) simp
    show ?thesis unfolding eq by (rule Suc.hyps(1) [of "Suc i"]) (use Suc.hyps(2) Suc.prems lt in auto)
  qed
qed

lemma nbits_for_max_spec:
  assumes "bitpack_type TYPE('a::len)"
  shows "valid_width (nbits_for_max (m :: 'a word))" "nbits_for_max m \<le> LENGTH('a)" "unat m < 2 ^ nbits_for_max m"
proof -
  obtain k where k: "LENGTH('a) = 2 ^ k" "k \<in> {3, 4, 5}"
  proof -
    have "LENGTH('a) = 2 ^ 3 \<or> LENGTH('a) = 2 ^ 4 \<or> LENGTH('a) = 2 ^ 5" using assms by (auto simp: bitpack_type_def)
    then show thesis using that by blast
  qed
  have L: "8 * elem_size TYPE('a) = LENGTH('a)" using assms by (auto simp: bitpack_type_def elem_size_def)
  have sp: "(\<exists>j\<le>k. nbits_for_max m = 2 ^ j) \<and> unat m < 2 ^ nbits_for_max m"
    unfolding nbits_for_max_def L by (rule nbits_loop_spec [of _ k _ 0]) (use k in auto)
  then obtain j where j: "j \<le> k" "nbits_for_max m = 2 ^ j" by blast
  then have "j \<in> {0, 1, 2, 3, 4, 5}" using k(2) by auto
  then show "valid_width (nbits_for_max m)" using j(2) by (auto simp: valid_width_def)
  show "nbits_for_max m \<le> LENGTH('a)" using j k(1) by simp
  show "unat m < 2 ^ nbits_for_max m" using sp by blast
qed

lemma or_reduce_covers:
  assumes "0 < n" "n < 2 ^ 31" "sched_ok sched" "i < n" "bit (ucast (inp ! i - base) :: u32) r"
  shows "bit (or_reduce sched (inp :: 'a::len word list) n base) r"
proof -
  let ?s = "min (grid32 n 256) 4096 * 256"
  have "n \<le> grid32 n 256 * 256" by (rule grid_covers) (use assms(2) in simp_all)
  then have s: "0 < ?s" using assms(1) by (cases "grid32 n 256") auto
  let ?is = "sched (concat (map (\<lambda>tid. stride_from tid ?s n) [0..<?s]))"
  have "set ?is = {0..<n}" using stride_from_cover [OF s, of n] sched_set [OF assms(3)] by simp
  then show ?thesis using assms(4,5) bit_fold_or [of "\<lambda>_. True" "\<lambda>i. ucast (inp ! i - base) :: u32" ?is 0 r]
    by (auto simp: or_reduce_def Let_def)
qed

lemma detectShift_lossless:
  assumes "bitpack_type TYPE('a::len)" "length inp = n" "0 < n" "n < 2 ^ 31" "sched_ok sched" "v \<in> set inp"
  shows "take_bit (unat (detectShift sched inp n base)) (v - base) = (0 :: 'a word)"
proof -
  let ?o = "or_reduce sched inp n base"
  obtain i where i: "i < n" "v = inp ! i" using assms(2,6) by (metis in_set_conv_nth)
  have L: "LENGTH('a) \<le> 32" using assms(1) by (auto simp: bitpack_type_def)
  have or: "bit ?o r" if "bit (v - base) r" for r
  proof -
    have "bit (ucast (inp ! i - base) :: u32) r" using that i(2) L by (auto simp: bit_ucast_iff dest: bit_imp_le_length)
    then show ?thesis by (rule or_reduce_covers [OF assms(3-5) i(1)])
  qed
  show ?thesis
  proof (cases "?o = 0")
    case True
    then show ?thesis by (simp add: detectShift_def)
  next
    case False
    then have c: "ctz32 ?o < 32" "take_bit (ctz32 ?o) ?o = 0" using ctz32_spec by blast+
    have "\<not> bit (v - base) r" if "r < ctz32 ?o" for r
    proof
      assume "bit (v - base) r"
      then have "bit (take_bit (ctz32 ?o) ?o) r" using or that by (simp add: bit_take_bit_iff)
      then show False using c(2) by simp
    qed
    then have "take_bit (ctz32 ?o) (v - base) = 0" by (intro bit_word_eqI) (auto simp: bit_take_bit_iff)
    moreover have "unat (detectShift sched inp n base) = ctz32 ?o" using False c(1) by (simp add: detectShift_def unat_of_nat)
    ultimately show ?thesis by simp
  qed
qed

lemma detect_packs:
  assumes "bitpack_type TYPE('a::len)" "length inp = n" "0 < n" "n < 2 ^ 31" "sched_ok sched"
    and "bp_auto_base st" "bp_auto_shift st" "bp_auto_detect st" "st1 = detect_parameters sched inp n st"
  shows "valid_width (unat (bp_nbits st1))" "unat (bp_nbits st1) \<le> LENGTH('a)"
    and "\<forall>v\<in>set inp. packs (bp_base st1) (unat (bp_shift st1)) (unat (bp_nbits st1)) (v :: 'a word)"
proof -
  let ?base = "Min (set inp)" and ?shift = "detectShift sched inp n (Min (set inp))"
  let ?nb = "nbits_for_max (drop_bit (unat ?shift) (Max (set inp) - ?base))"
  note nb = nbits_for_max_spec [OF assms(1), of "drop_bit (unat ?shift) (Max (set inp) - ?base)"]
  have L: "LENGTH('a) \<le> 32" using assms(1) by (auto simp: bitpack_type_def)
  have u: "unat (word_of_nat ?nb :: u8) = ?nb" using nb(2) L by (simp add: unat_of_nat)
  have st1: "bp_base st1 = ?base" "bp_shift st1 = ?shift" "unat (bp_nbits st1) = ?nb"
    using assms(6-9) u by (simp_all add: detect_parameters_def Let_def)
  show "valid_width (unat (bp_nbits st1))" "unat (bp_nbits st1) \<le> LENGTH('a)" using nb st1 by simp_all
  show "\<forall>v\<in>set inp. packs (bp_base st1) (unat (bp_shift st1)) (unat (bp_nbits st1)) v"
  proof
    fix v assume v: "v \<in> set inp"
    have "?base \<le> v" "v \<le> Max (set inp)" using v by simp_all
    then have "unat (v - ?base) \<le> unat (Max (set inp) - ?base)" by (simp add: unat_sub word_le_nat_alt diff_le_mono)
    then have "unat (v - ?base) div 2 ^ unat ?shift \<le> unat (Max (set inp) - ?base) div 2 ^ unat ?shift" by (rule div_le_mono)
    then have "unat (bitpackFwdTransform v ?base (unat ?shift)) \<le> unat (drop_bit (unat ?shift) (Max (set inp) - ?base))"
      unfolding bitpackFwdTransform_def unat_drop_bit_eq drop_bit_eq_div [where 'a = nat] .
    also have "\<dots> < 2 ^ ?nb" by (rule nb(3))
    finally show "packs (bp_base st1) (unat (bp_shift st1)) (unat (bp_nbits st1)) v"
      unfolding packs_def st1 using detectShift_lossless [OF assms(1-5) v] by simp
  qed
qed

subsection \<open>The stage on bytes\<close>

definition bitpack_run :: "'a::len word bitpack_stage \<Rightarrow> run_env \<Rightarrow> u8 list \<Rightarrow> (u8 list \<times> 'a word bitpack_stage) res" where
  "bitpack_run st e bs = map_sum id (\<lambda>(outs, st'). (take (unat (bp_actual_output_size st')) (outs ! 0), st'))
     (bitpack_execute (re_sched e) [bs] [re_stale e (estimateOutputSize st (length bs))] [word_of_nat (length bs)] st)"

lemma header_restores:
  assumes "bitpack_type TYPE('a::len)"
  shows "bitpack_deserializeHeader (bitpack_serializeHeader 128 st) st0 =
    st0\<lparr>bp_nbits := bp_nbits st, bp_num_elements := bp_num_elements st, bp_shift := bp_shift st, bp_base := (bp_base st :: 'a word)\<rparr>"
    and "Bitpack_fromHeader (bitpack_serializeHeader 128 st) = Inr LENGTH('a)"
proof -
  let ?h = "[bitpack_dt TYPE('a), bp_nbits st] @ le_bytes 8 (unat (bp_num_elements st)) @ [bp_shift st] @ le_bytes 4 (unat (ucast (bp_base st) :: u32))"
  have h: "bitpack_serializeHeader 128 st = ?h" by (simp add: bitpack_serializeHeader_def)
  have L: "LENGTH('a) \<le> 32" using assms by (auto simp: bitpack_type_def)
  have base: "ucast (ucast (bp_base st) :: u32) = bp_base st" using L by (intro bit_word_eqI) (auto simp: bit_ucast_iff)
  have "take 8 (drop 2 ?h) = le_bytes 8 (unat (bp_num_elements st))" "?h ! 10 = bp_shift st"
    "take 4 (drop 11 ?h) = le_bytes 4 (unat (ucast (bp_base st) :: u32))" "?h ! 1 = bp_nbits st" "length ?h = 15" "?h ! 0 = bitpack_dt TYPE('a)"
    by (simp_all add: nth_append)
  note f = this
  show "bitpack_deserializeHeader (bitpack_serializeHeader 128 st) st0 =
    st0\<lparr>bp_nbits := bp_nbits st, bp_num_elements := bp_num_elements st, bp_shift := bp_shift st, bp_base := bp_base st\<rparr>"
    unfolding h bitpack_deserializeHeader_def Let_def f le_val_le_bytes_word using base by simp
  show "Bitpack_fromHeader (bitpack_serializeHeader 128 st) = Inr LENGTH('a)"
    unfolding h Bitpack_fromHeader_def Let_def f using assms by (auto simp: bitpack_dt_def bitpack_type_def)
qed

lemma packed_le: "valid_width b \<Longrightarrow> b \<le> 8 * k \<Longrightarrow> packed_size n b \<le> k * n"
proof -
  assume "b \<le> 8 * k"
  then have "n * b \<le> n * (8 * k)" by (rule mult_le_mono2)
  then have "(n * b + 7) div 8 \<le> (n * (8 * k) + 7) div 8" by (intro div_le_mono) simp
  also have "\<dots> = (7 + 8 * (k * n)) div 8" by (simp add: ac_simps)
  also have "\<dots> = k * n" using div_mult_self2 [of 8 7 "k * n"] by simp
  finally show ?thesis by (simp add: packed_size_def)
qed

text \<open>What a run of the encoder leaves: the packed elements and a stage with the parameters used.\<close>

lemma forward_run:
  fixes st :: "'a::len word bitpack_stage"
  assumes "bitpack_type TYPE('a)" "\<not> bp_is_inverse st" "length bs = elem_size TYPE('a) * n" "0 < n" "n < 2 ^ 31" "run_env_ok e"
    and "st1 = detect_parameters (re_sched e) (words_of TYPE('a) n bs) n st" "valid_width (unat (bp_nbits st1))" "unat (bp_nbits st1) \<le> LENGTH('a)"
    and "bp_auto_detect st \<or> bp_nbits st1 = bp_nbits st"
  shows "\<exists>out. packed_size n (unat (bp_nbits st1)) \<le> length out \<and>
    bitpack_run st e bs = Inr (take (packed_size n (unat (bp_nbits st1)))
        (launchEncode (re_sched e) (words_of TYPE('a) n bs) out n (unat (bp_nbits st1)) (bp_base st1) (unat (bp_shift st1))),
      st1\<lparr>bp_num_elements := word_of_nat n, bp_actual_output_size := (word_of_nat n * ucast (bp_nbits st1) + 7) div 8\<rparr>)"
proof -
  let ?k = "elem_size TYPE('a)" and ?nb = "unat (bp_nbits st1)" and ?out = "re_stale e (estimateOutputSize st (length bs))"
  have k: "0 < ?k" "8 * ?k = LENGTH('a)" "?k \<le> 4" using assms(1) by (auto simp: bitpack_type_def elem_size_def)
  have n: "length bs div ?k = n" using assms(3) k by simp
  have "length bs < 2 ^ 64" using assms(3,5) k(3) mult_le_mono [of ?k 4 n "2 ^ 31"] by simp
  then have sz: "unat (word_of_nat (length bs) :: size_t) = length bs" by (simp add: unat_of_nat)
  have out: "length ?out = estimateOutputSize st (length bs)" using assms(6) by (simp add: run_env_ok_def)
  have "packed_size n ?nb \<le> estimateOutputSize st (length bs)"
    unfolding estimateOutputSize_def n using assms(2,3,9,10) packed_le [OF assms(8), of ?k n] k by (auto simp: packed_size_def)
  then have "packed_size n ?nb \<le> length ?out" by (simp only: out)
  moreover have "unat ((word_of_nat n * ucast (bp_nbits st1) + 7) div 8 :: size_t) = packed_size n ?nb"
  proof -
    have "n * ?nb \<le> 2 ^ 31 * 32" by (intro mult_le_mono) (use assms(5,9) k in auto)
    then have "unat (word_of_nat n * ucast (bp_nbits st1) + 7 :: size_t) = n * ?nb + 7"
      using assms(5) unat_less_256 [of "bp_nbits st1"]
      by (simp add: unat_word_ariths unat_of_nat unsigned_ucast_eq take_bit_nat_eq_self)
    then show ?thesis by (simp add: unat_div packed_size_def)
  qed
  ultimately show ?thesis using assms(2,4,7) by (intro exI [of _ ?out]) (simp add: bitpack_run_def bitpack_execute_def Let_def sz n)
qed

lemma inverse_run:
  fixes st :: "'a::len word bitpack_stage"
  assumes "bitpack_type TYPE('a)" "bp_is_inverse st" "bp_num_elements st = word_of_nat n" "0 < n" "n < 2 ^ 31" "run_env_ok e"
    and "valid_width (unat (bp_nbits st))" "length c = packed_size n (unat (bp_nbits st))"
    and "\<And>old. length old = n \<Longrightarrow> launchDecode (re_sched e) c old n (unat (bp_nbits st)) (bp_base st) (unat (bp_shift st)) = ws"
  shows "\<exists>st'. bitpack_run st e c = Inr (bytes_of (ws :: 'a word list), st')"
    and "elem_size TYPE('a) * n \<le> estimateOutputSize st (length c)"
proof -
  let ?k = "elem_size TYPE('a)" and ?out = "re_stale e (estimateOutputSize st (length c))" and ?nb = "unat (bp_nbits st)"
  have k: "?k \<le> 4" using assms(1) by (auto simp: bitpack_type_def elem_size_def)
  have n: "unat (bp_num_elements st) = n" using assms(3,5) by (simp add: unat_of_nat)
  have sz: "unat (word_of_nat n * word_of_nat ?k :: size_t) = ?k * n"
  proof -
    have "n * ?k \<le> 2 ^ 31 * 4" by (intro mult_le_mono) (use assms(5) k in auto)
    then show ?thesis using assms(5) k by (simp add: unat_word_ariths unat_of_nat mult.commute)
  qed
  have dec: "launchDecode (re_sched e) c (words_of TYPE('a) n ?out) n ?nb (bp_base st) (unat (bp_shift st)) = ws" by (rule assms(9)) simp
  have "length ws = n"
  proof -
    have "length (elem_kernel tids n f out) = length out" for tids and f :: "nat \<Rightarrow> 'a word" and out
      unfolding elem_kernel_def fold_writes by simp
    then show ?thesis using dec assms(4) by (auto simp: launchDecode_def split: if_splits)
  qed
  then have "take (?k * n) (store_words ws ?out) = bytes_of ws" by (simp add: store_words_def)
  then show "\<exists>st'. bitpack_run st e c = Inr (bytes_of ws, st')"
    using assms(2,4) n dec sz by (simp add: bitpack_run_def bitpack_execute_def Let_def)
  have nb: "0 < ?nb" using assms(7) by (auto simp: valid_width_def)
  have "n * ?nb \<le> length c * 8" using assms(8) by (simp add: packed_size_def)
  then have "n * ?nb \<le> length c * 8 + ?nb - 1" using nb by simp
  then have "n \<le> (length c * 8 + ?nb - 1) div ?nb" using nb by (simp add: less_eq_div_iff_mult_less_eq)
  then show "?k * n \<le> estimateOutputSize st (length c)" using assms(2) by (simp add: estimateOutputSize_def mult.commute)
qed

text \<open>The stage that decodes: rebuilt from the configuration in the archive and switched to the inverse direction.\<close>

definition decoder_of :: "'a::len word bitpack_stage \<Rightarrow> 'a word bitpack_stage" where
  "decoder_of st = (bitpack_deserializeHeader (bitpack_serializeHeader 128 st) new_bitpack)\<lparr>bp_is_inverse := True\<rparr>"

lemma bitpack_roundtrip:
  fixes st :: "'a::len word bitpack_stage"
  assumes "bitpack_type TYPE('a)" "\<not> bp_is_inverse st" "length bs = elem_size TYPE('a) * n" "n < 2 ^ 31" "run_env_ok e" "run_env_ok e'"
    and "st1 = detect_parameters (re_sched e) (words_of TYPE('a) n bs) n st"
    and "0 < n \<Longrightarrow> valid_width (unat (bp_nbits st1)) \<and> unat (bp_nbits st1) \<le> LENGTH('a) \<and> (bp_auto_detect st \<or> bp_nbits st1 = bp_nbits st) \<and>
      (\<forall>v\<in>set (words_of TYPE('a) n bs). packs (bp_base st1) (unat (bp_shift st1)) (unat (bp_nbits st1)) v)"
  shows "\<exists>c st2 st3. bitpack_run st e bs = Inr (c, st2) \<and> length c \<le> length bs \<and> length bs \<le> estimateOutputSize (decoder_of st2) (length c) \<and>
    bitpack_run (decoder_of st2) e' c = Inr (bs, st3)"
proof (cases "n = 0")
  case True
  then show ?thesis using assms(1-3) header_restores(1) [OF assms(1)]
    by (simp add: bitpack_run_def bitpack_execute_def decoder_of_def Let_def)
next
  case False
  let ?ws = "words_of TYPE('a) n bs" and ?nb = "unat (bp_nbits st1)"
  have n: "0 < n" using False by simp
  note a = assms(8) [OF n]
  have k: "8 * elem_size TYPE('a) = LENGTH('a)" "elem_type TYPE('a)" using assms(1) by (auto simp: bitpack_type_def elem_size_def elem_type_def)
  have so: "sched_ok (re_sched e)" "sched_ok (re_sched e')" using assms(5,6) by (auto simp: run_env_ok_def)
  obtain out where out: "packed_size n ?nb \<le> length out"
    "bitpack_run st e bs = Inr (take (packed_size n ?nb) (launchEncode (re_sched e) ?ws out n ?nb (bp_base st1) (unat (bp_shift st1))),
      st1\<lparr>bp_num_elements := word_of_nat n, bp_actual_output_size := (word_of_nat n * ucast (bp_nbits st1) + 7) div 8\<rparr>)"
    using forward_run [OF assms(1-3) n assms(4,5,7)] a by blast
  let ?c = "take (packed_size n ?nb) (launchEncode (re_sched e) ?ws out n ?nb (bp_base st1) (unat (bp_shift st1)))"
  let ?st2 = "st1\<lparr>bp_num_elements := word_of_nat n, bp_actual_output_size := (word_of_nat n * ucast (bp_nbits st1) + 7) div 8\<rparr>"
  have d: "bp_is_inverse (decoder_of ?st2)" "bp_num_elements (decoder_of ?st2) = word_of_nat n" "bp_nbits (decoder_of ?st2) = bp_nbits st1"
    "bp_base (decoder_of ?st2) = bp_base st1" "bp_shift (decoder_of ?st2) = bp_shift st1"
    by (simp_all add: decoder_of_def header_restores(1) [OF assms(1)])
  have len: "length ?c = packed_size n ?nb"
  proof (cases "?nb < 8")
    case True
    then have nb: "?nb \<in> {1, 2, 4}" using a by (auto simp: valid_width_def)
    show ?thesis unfolding launchEncode_sub [OF nb n assms(4) so(1) out(1)] by simp
  next
    case False
    then have nb: "?nb \<in> {8, 16, 32}" using a by (auto simp: valid_width_def)
    show ?thesis using launchEncode_multi(1) [OF nb n assms(4) so(1) out(1), where inp = ?ws and base = "bp_base st1" and shift = "unat (bp_shift st1)"] out(1)
      by simp
  qed
  have dec: "launchDecode (re_sched e') ?c old n ?nb (bp_base st1) (unat (bp_shift st1)) = ?ws" if "length old = n" for old
    by (rule launch_roundtrip [OF _ _ assms(1) _ n assms(4) _ so out(1) that]) (use a in auto)
  have vw: "valid_width (unat (bp_nbits (decoder_of ?st2)))" "length ?c = packed_size n (unat (bp_nbits (decoder_of ?st2)))"
    using a len d(3) by auto
  note ir = inverse_run [OF assms(1) d(1,2) n assms(4,6) vw, unfolded d(3-5), OF dec]
  have small: "length ?c \<le> length bs" unfolding len assms(3) using a k(1) by (intro packed_le) auto
  have "bytes_of ?ws = bs" using bytes_of_words_of [OF k(2), of n bs] assms(3) by simp
  then show ?thesis using out(2) small ir assms(3) by auto
qed

text \<open>
  C15. Adaptive bit packing is lossless: with automatic base, shift and width, for 8, 16 and 32-bit elements and every input of
  fewer than \<open>2^31\<close> elements, the encoder returns at most as many bytes as it was given, the factory
  picks the encoder's element type from the archived configuration, and the decoder rebuilt from that configuration restores
  the input within the buffer its size estimate asks for, whatever the order of the threads.
\<close>

theorem bitpack_adaptive_lossless:
  fixes st :: "'a::len word bitpack_stage"
  assumes "bitpack_type TYPE('a)" "\<not> bp_is_inverse st" "bp_auto_base st" "bp_auto_shift st" "bp_auto_detect st"
    and "length bs = elem_size TYPE('a) * n" "n < 2 ^ 31" "run_env_ok e" "run_env_ok e'"
  shows "\<exists>c st2 st3. bitpack_run st e bs = Inr (c, st2) \<and> length c \<le> length bs \<and>
    Bitpack_fromHeader (bitpack_serializeHeader 128 st2) = Inr LENGTH('a) \<and>
    length bs \<le> estimateOutputSize (decoder_of st2) (length c) \<and> bitpack_run (decoder_of st2) e' c = Inr (bs, st3)"
proof -
  have so: "sched_ok (re_sched e)" using assms(8) by (simp add: run_env_ok_def)
  have "\<exists>c st2 st3. bitpack_run st e bs = Inr (c, st2) \<and> length c \<le> length bs \<and> length bs \<le> estimateOutputSize (decoder_of st2) (length c) \<and>
    bitpack_run (decoder_of st2) e' c = Inr (bs, st3)"
    by (rule bitpack_roundtrip [OF assms(1,2,6-9) refl])
      (use detect_packs [OF assms(1) length_words_of _ assms(7) so assms(3-5) refl] assms(5) in blast)
  then show ?thesis using header_restores(2) [OF assms(1)] by blast
qed

theorem bitpack_adaptive_lossless_witness:
  "\<exists>c st2 st3. bitpack_run (setAdaptive True (new_bitpack :: 16 word bitpack_stage)) \<lparr>re_sched = rev, re_stale = (\<lambda>n. replicate n 7)\<rparr> [0, 1, 16, 1, 8, 1] = Inr (c, st2) \<and>
     length c \<le> 6 \<and> bitpack_run (decoder_of st2) \<lparr>re_sched = rev, re_stale = (\<lambda>n. replicate n 7)\<rparr> c = Inr ([0, 1, 16, 1, 8, 1], st3)"
proof -
  have t: "bitpack_type TYPE(16)" by (simp add: bitpack_type_def)
  have e: "run_env_ok \<lparr>re_sched = rev, re_stale = (\<lambda>n. replicate n 7)\<rparr>" by (simp add: run_env_ok_def sched_ok_def)
  have st: "\<not> bp_is_inverse (setAdaptive True (new_bitpack :: 16 word bitpack_stage))" "bp_auto_base (setAdaptive True (new_bitpack :: 16 word bitpack_stage))"
    "bp_auto_shift (setAdaptive True (new_bitpack :: 16 word bitpack_stage))" "bp_auto_detect (setAdaptive True (new_bitpack :: 16 word bitpack_stage))"
    by (simp_all add: setAdaptive_def new_bitpack_def)
  have l: "length [0, 1, 16, 1, 8, 1 :: u8] = elem_size TYPE(16) * 3" "(3 :: nat) < 2 ^ 31" by (simp_all add: elem_size_def)
  obtain c st2 st3 where r: "bitpack_run (setAdaptive True (new_bitpack :: 16 word bitpack_stage)) \<lparr>re_sched = rev, re_stale = (\<lambda>n. replicate n 7)\<rparr> [0, 1, 16, 1, 8, 1] = Inr (c, st2)"
     "length c \<le> length [0, 1, 16, 1, 8, 1 :: u8]" "bitpack_run (decoder_of st2) \<lparr>re_sched = rev, re_stale = (\<lambda>n. replicate n 7)\<rparr> c = Inr ([0, 1, 16, 1, 8, 1], st3)"
    using bitpack_adaptive_lossless [OF t st l e e] by blast
  from r(2) have "length c \<le> 6" by simp
  with r show ?thesis by blast
qed

text \<open>
  C37. A base set by hand is not always lossless, although \<open>setBase\<close> says so.  With automatic width the width covers the largest
  element minus the base; an element below the base wraps around and loses its high bits: packing the
  16-bit elements 0 and 3 with base 1 restores 4 and 3.
\<close>

theorem bitpack_base_not_lossless:
  "\<exists>c st st'. bitpack_run ((new_bitpack :: 16 word bitpack_stage)\<lparr>bp_auto_detect := True, bp_base := 1\<rparr>) \<lparr>re_sched = id, re_stale = (\<lambda>n. replicate n 0)\<rparr>
       [0, 0, 3, 0] = Inr (c, st) \<and>
     bitpack_run (decoder_of st) \<lparr>re_sched = id, re_stale = (\<lambda>n. replicate n 0)\<rparr> c = Inr ([4, 0, 3, 0], st')"
proof -
  let ?st = "(new_bitpack :: 16 word bitpack_stage)\<lparr>bp_auto_detect := True, bp_base := 1\<rparr>"
  let ?e = "\<lparr>re_sched = id, re_stale = (\<lambda>n. replicate n (0 :: u8))\<rparr>" and ?bs = "[0, 0, 3, 0 :: u8]"
  define st1 where "st1 = detect_parameters (re_sched ?e) (words_of TYPE(16) 2 ?bs) 2 ?st"
  have ws: "words_of TYPE(16) 2 ?bs = [0, 3]" by code_simp
  have nbm: "nbits_for_max (2 :: 16 word) = 2" by code_simp
  have mx: "Max {0, 3 :: 16 word} = 3" by (simp add: max_def)
  have par: "bp_nbits st1 = 2" "bp_base st1 = 1" "bp_shift st1 = 0"
    unfolding st1_def ws by (simp_all add: detect_parameters_def new_bitpack_def Let_def mx nbm)
  have t: "bitpack_type TYPE(16)" "length ?bs = elem_size TYPE(16) * 2" by (simp_all add: bitpack_type_def elem_size_def)
  have e: "run_env_ok ?e" and so: "sched_ok (id :: nat list \<Rightarrow> nat list)" by (simp_all add: run_env_ok_def sched_ok_def)
  have inv: "\<not> bp_is_inverse ?st" by (simp add: new_bitpack_def)
  have h: "(0 :: nat) < 2" "(2 :: nat) < 2 ^ 31" "valid_width (unat (bp_nbits st1))" "unat (bp_nbits st1) \<le> LENGTH(16)"
    "bp_auto_detect ?st \<or> bp_nbits st1 = bp_nbits ?st"
    by (simp_all add: par valid_width_def)
  obtain out where out: "packed_size 2 (unat (bp_nbits st1)) \<le> length out" "bitpack_run ?st ?e ?bs =
      Inr (take (packed_size 2 (unat (bp_nbits st1))) (launchEncode (re_sched ?e) (words_of TYPE(16) 2 ?bs) out 2 (unat (bp_nbits st1)) (bp_base st1) (unat (bp_shift st1))),
        st1\<lparr>bp_num_elements := word_of_nat 2, bp_actual_output_size := (word_of_nat 2 * ucast (bp_nbits st1) + 7) div 8\<rparr>)"
    using forward_run [OF t(1) inv t(2) h(1,2) e st1_def h(3-5)] by blast
  let ?st2 = "st1\<lparr>bp_num_elements := word_of_nat 2, bp_actual_output_size := (word_of_nat 2 * ucast (bp_nbits st1) + 7) div 8\<rparr>"
  have ps: "packed_size 2 2 = 1" by (simp add: packed_size_def)
  have pb: "pack_byte [0, 3 :: 16 word] 2 2 1 0 0 = 11" by code_simp
  have "launchEncode id [0, 3 :: 16 word] out 2 2 1 0 = map (pack_byte [0, 3 :: 16 word] 2 2 1 0) [0..<1] @ drop 1 out"
    using launchEncode_sub [of 2 2 id out "[0, 3 :: 16 word]" 1 0] out(1) so by (simp add: par ps)
  then have run: "bitpack_run ?st ?e ?bs = Inr ([11], ?st2)" unfolding out(2) ws by (simp add: par ps pb)
  have d: "bp_is_inverse (decoder_of ?st2)" "bp_num_elements (decoder_of ?st2) = word_of_nat 2" "bp_nbits (decoder_of ?st2) = 2"
    "bp_base (decoder_of ?st2) = 1" "bp_shift (decoder_of ?st2) = 0"
    using par by (simp_all add: decoder_of_def header_restores(1) [OF t(1)])
  have us: "map (unpack_sub [11] 2 (1 :: 16 word) 0) [0..<2] = [4, 3]" by code_simp
  have dec: "launchDecode (re_sched ?e) [11] old 2 (unat (bp_nbits (decoder_of ?st2))) (bp_base (decoder_of ?st2)) (unat (bp_shift (decoder_of ?st2))) = [4, 3]"
    if "length old = 2" for old
  proof -
    have "elem_kernel (id [0..<grid32 2 256 * 256]) 2 (unpack_sub [11] 2 1 0) old = map (unpack_sub [11] 2 1 0) [0..<2]"
      by (rule elem_kernel_map [OF threads_cover [OF _ so] that]) simp
    then show ?thesis unfolding us launchDecode_def d(3-5) by simp
  qed
  have vw: "valid_width (unat (bp_nbits (decoder_of ?st2)))" "length [11 :: u8] = packed_size 2 (unat (bp_nbits (decoder_of ?st2)))"
    unfolding d(3) by (simp_all add: valid_width_def ps)
  have "\<exists>st'. bitpack_run (decoder_of ?st2) ?e [11] = Inr (bytes_of [4, 3 :: 16 word], st')"
    by (rule inverse_run(1) [OF t(1) d(1,2) h(1,2) e vw dec])
  moreover have "bytes_of [4, 3 :: 16 word] = [4, 0, 3, 0]" by code_simp
  ultimately show ?thesis using run by auto
qed

subsection \<open>As a lossless stage\<close>

text \<open>The archive of the stage: its configuration, then the packed bytes.\<close>

definition bitpack_encode :: "'a::len word bitpack_stage \<Rightarrow> run_env \<Rightarrow> u8 list \<Rightarrow> u8 list res" where
  "bitpack_encode st e bs = map_sum id (\<lambda>(c, st'). bitpack_serializeHeader 128 st' @ c) (bitpack_run st e bs)"

definition bitpack_decode :: "'a::len itself \<Rightarrow> run_env \<Rightarrow> u8 list \<Rightarrow> u8 list res" where
  "bitpack_decode t e ar = map_sum id fst
     (bitpack_run ((bitpack_deserializeHeader (take 15 ar) (new_bitpack :: 'a word bitpack_stage))\<lparr>bp_is_inverse := True\<rparr>) e (drop 15 ar))"

definition bitpack_accepts :: "'a::len word bitpack_stage \<Rightarrow> u8 list \<Rightarrow> bool" where
  "bitpack_accepts st bs \<longleftrightarrow> bitpack_type TYPE('a) \<and> \<not> bp_is_inverse st \<and> bp_auto_base st \<and> bp_auto_shift st \<and> bp_auto_detect st \<and>
     length bs mod elem_size TYPE('a) = 0 \<and> length bs div elem_size TYPE('a) < 2 ^ 31"

interpretation bitpack: lossless_stage "bitpack_encode (st :: 'a::len word bitpack_stage)" "bitpack_decode TYPE('a)" "bitpack_accepts st" for st
proof
  fix bs e e' assume a: "bitpack_accepts st bs" "run_env_ok e" "run_env_ok e'"
  have b: "bitpack_type TYPE('a)" "\<not> bp_is_inverse st" "bp_auto_base st" "bp_auto_shift st" "bp_auto_detect st"
    using a(1) by (auto simp: bitpack_accepts_def)
  obtain n where n: "length bs = elem_size TYPE('a) * n" using a(1) by (auto simp: bitpack_accepts_def)
  have "0 < elem_size TYPE('a)" using b(1) by (auto simp: bitpack_type_def elem_size_def)
  then have n31: "n < 2 ^ 31" using a(1) n by (simp add: bitpack_accepts_def)
  have so: "sched_ok (re_sched e)" using a(2) by (simp add: run_env_ok_def)
  obtain c st2 st3 where r: "bitpack_run st e bs = Inr (c, st2)" "bitpack_run (decoder_of st2) e' c = Inr (bs, st3)"
    using bitpack_roundtrip [OF b(1,2) n n31 a(2,3) refl] detect_packs [OF b(1) length_words_of _ n31 so b(3-5) refl] b(5) by blast
  have "length (bitpack_serializeHeader 128 st2) = 15" by (simp add: bitpack_serializeHeader_def)
  then show "\<exists>ar. bitpack_encode st e bs = Inr ar \<and> bitpack_decode TYPE('a) e' ar = Inr bs"
    using r by (simp add: bitpack_encode_def bitpack_decode_def decoder_of_def)
qed

end
