(* ===== verification/Pipeline_Build.thy ===== *)
theory Pipeline_Build
  imports Fusion Fzm_File
begin

section \<open>Building and finalizing a pipeline\<close>

text \<open>
  The builder calls and \<open>Pipeline::finalize\<close> of \<open>src/pipeline/compressor.cpp\<close>.  A pipeline owns stage
  objects; an object's state is of a type \<open>'s\<close> the model does not fix, and \<open>stage_ops\<close> gives what the virtual
  methods of \<open>include/stage/stage.h\<close> do to it and what they return for the objects' current states.
  The \<open>unordered_map\<close> walks, the CUDA streams and the environment variables of
  \<open>finalize\<close> are the fields of \<open>finalize_env\<close>.  A call that throws ends the use of the object
  here: only its error is returned.
\<close>

subsection \<open>Stage objects and the whole state\<close>

record 's stage_ops =
  so_api :: "(nat \<Rightarrow> 's) \<Rightarrow> stage_api"
  so_env :: "(nat \<Rightarrow> 's) \<Rightarrow> stage_env"
  so_decl :: "(nat \<Rightarrow> 's) \<Rightarrow> nat \<Rightarrow> stage_decl"
  so_setDims :: "size_t list \<Rightarrow> 's \<Rightarrow> 's"
  so_setTerminalOutput :: "bool \<Rightarrow> 's \<Rightarrow> 's"
  so_oracle_valid :: "'s \<Rightarrow> bool"
  so_bindDownstreamEncodingOracle :: "'s \<Rightarrow> 's \<Rightarrow> 's"
  so_onFinalize :: "size_t \<Rightarrow> 's \<times> pool \<Rightarrow> 's \<times> pool"
  so_setInverse :: "bool \<Rightarrow> 's \<Rightarrow> 's"
  so_saveState :: "'s \<Rightarrow> 's"
  so_restoreState :: "'s \<Rightarrow> 's"
  so_ran :: "exec_event list \<Rightarrow> nat \<Rightarrow> 's \<Rightarrow> 's"
  so_postStreamSync :: "dev_mem \<Rightarrow> 's \<Rightarrow> 's"

record inv_dag_cache =
  ic_inv_dag :: dag
  ic_inv_result_map :: "nat \<rightharpoonup> int"
  ic_fwd_to_inv_ext_buf :: "(int \<times> int) list"
  ic_source_sizes :: "nat \<rightharpoonup> size_t"

record 's session =
  ss_p :: pipeline
  ss_obj :: "nat \<Rightarrow> 's"
  ss_dims :: "size_t list"
  ss_policy :: fusion_policy
  ss_fusion_info :: fusion_info
  ss_warmup_on_finalize :: bool
  ss_concat :: pool_buffer
  ss_decomp_outputs :: "dptr list"
  ss_inv_cache :: "inv_dag_cache option"
  ss_graph :: "exec_event list option"

record finalize_env =
  fe_ord :: "dag \<Rightarrow> nat list"
  fe_color_ord :: "dag \<Rightarrow> int list"
  fe_streams :: "nat \<Rightarrow> nat list option"
  fe_specialize :: "string option"
  fe_fusion :: "string option"
  fe_threshold_ok :: bool
  fe_pinned_ok :: bool

definition set_dag :: "dag \<Rightarrow> pipeline \<Rightarrow> pipeline" where
  "set_dag d p = p\<lparr>p_x := p_x p\<lparr>x_dag := d\<rparr>\<rparr>"

definition on_pipe :: "(pipeline \<Rightarrow> pipeline res) \<Rightarrow> 's session \<Rightarrow> 's session res" where
  "on_pipe f s = map_sum id (\<lambda>p. s\<lparr>ss_p := p\<rparr>) (f (ss_p s))"

subsection \<open>Configuration\<close>

text \<open>\<open>CompressionDAG::enableProfiling\<close>: start events of all nodes are created or destroyed.\<close>

definition dag_enableProfiling :: "bool \<Rightarrow> dag \<Rightarrow> dag" where
  "dag_enableProfiling enable d =
     d\<lparr>profiling_enabled := enable, nodes := map (\<lambda>n. n\<lparr>has_start_event := enable\<rparr>) (nodes d)\<rparr>"

definition setColoringEnabled :: "bool \<Rightarrow> dag \<Rightarrow> dag" where
  "setColoringEnabled enable d = d\<lparr>coloring_disabled := \<not> enable\<rparr>"

text \<open>The graph is replaced: its destructor runs and the configuration is applied to the new one.\<close>

definition setMemoryStrategy :: "memory_strategy \<Rightarrow> pipeline \<Rightarrow> pipeline res" where
  "setMemoryStrategy st p =
     (if p_is_finalized p then Inl (RuntimeError ''Cannot change strategy after finalization'')
      else Inr (set_dag (setColoringEnabled (p_coloring_enabled p)
                   (dag_enableProfiling (p_profiling_enabled p) (new_dag st)))
                 (p\<lparr>p_strategy := st, p_x := dag_destroy (p_x p)\<rparr>)))"

definition setNumStreams :: "int \<Rightarrow> pipeline \<Rightarrow> pipeline res" where
  "setNumStreams n p =
     (if p_is_finalized p then Inl (RuntimeError ''Cannot configure streams after finalization'')
      else Inr (p\<lparr>p_num_streams := n\<rparr>))"

definition enableProfiling :: "bool \<Rightarrow> pipeline \<Rightarrow> pipeline" where
  "enableProfiling enable p = set_dag (dag_enableProfiling enable (p_dag p)) (p\<lparr>p_profiling_enabled := enable\<rparr>)"

definition enableGraphMode :: "bool \<Rightarrow> pipeline \<Rightarrow> pipeline res" where
  "enableGraphMode enable p =
     (if p_is_finalized p then Inl (RuntimeError ''Cannot change graph mode after finalization'')
      else Inr (p\<lparr>p_graph_mode_enabled := enable\<rparr>))"

subsection \<open>Adding and connecting stages\<close>

definition output_name :: "stage_api \<Rightarrow> nat \<Rightarrow> nat \<Rightarrow> string" where
  "output_name api s j = (if j < length (getOutputNames api s) then getOutputNames api s ! j else to_string j)"

text \<open>The loop of \<open>addRawStage\<close> and of \<open>buildInverseDAG\<close> that creates one buffer per output port.\<close>

definition add_outputs :: "stage_api \<Rightarrow> nat \<Rightarrow> nat \<Rightarrow> size_t \<Rightarrow> string \<Rightarrow> dag \<Rightarrow> dag res" where
  "add_outputs api s i sz suffix =
     res_fold (\<lambda>j d. map_sum id snd (addUnconnectedOutput i sz (int j) (getName api s @ ''.'' @ output_name api s j @ suffix) d))
       [0..<getNumOutputs api s]"

definition addRawStage :: "stage_api \<Rightarrow> bool \<times> bool \<Rightarrow> nat \<Rightarrow> pipeline \<Rightarrow> pipeline res" where
  "addRawStage api ev s p =
     (if p_is_finalized p then Inl (RuntimeError ''Cannot add stages after finalization'')
      else res_bind (addStage (fst ev) (snd ev) (Some s) (getName api s) (p_dag p)) (\<lambda>(i, d).
             res_bind (add_outputs api s i 1 ''_unconnected'' d) (\<lambda>d'.
               Inr ((set_dag d' p)\<lparr>p_stage_to_node := (p_stage_to_node p)(s \<mapsto> i), p_stages := p_stages p @ [s]\<rparr>))))"

definition connect :: "stage_api \<Rightarrow> nat \<Rightarrow> nat \<Rightarrow> string \<Rightarrow> pipeline \<Rightarrow> (int \<times> pipeline) res" where
  "connect api dependent producer oname p =
     (if p_is_finalized p then Inl (RuntimeError ''Cannot connect stages after finalization'')
      else case (p_stage_to_node p dependent, p_stage_to_node p producer) of
        (Some dep_node, Some prod_node) \<Rightarrow>
          (let oi = getOutputIndex api producer oname in
           if oi < 0 then Inl (RuntimeError ''Stage does not have output'')
           else
             let p1 = p\<lparr>p_connections := p_connections p @ [\<lparr>ci_dependent = dependent, ci_producer = producer,
                        ci_output_name = oname, ci_output_index = oi\<rparr>]\<rparr> in
             res_bind (connectExistingOutput (Some prod_node) (Some dep_node) oi (p_dag p)) (\<lambda>(connected, d).
               res_bind (if connected then Inr d
                         else (case addDependency (Some dep_node) (Some prod_node) 1 oi d of
                                 (_, Inl e) \<Rightarrow> Inl e | (d', Inr _) \<Rightarrow> Inr d')) (\<lambda>d'.
                 Inr (case map_of (output_index_to_buffer_id (node d' prod_node)) oi of Some b \<Rightarrow> b | None \<Rightarrow> - 1,
                      set_dag d' p1))))
      | _ \<Rightarrow> Inl (RuntimeError ''Cannot connect stages not added to pipeline''))"

definition connect_all :: "stage_api \<Rightarrow> nat \<Rightarrow> nat list \<Rightarrow> pipeline \<Rightarrow> (int \<times> pipeline) res" where
  "connect_all api dependent producers p =
     res_fold (\<lambda>q (_, p). connect api dependent q ''output'' p) producers (- 1, p)"

definition bindExternalInput :: "stage_api \<Rightarrow> nat \<Rightarrow> pipeline \<Rightarrow> pipeline res" where
  "bindExternalInput api s p =
     (if p_is_finalized p then Inl (RuntimeError ''bindExternalInput(): cannot call after finalize()'')
      else case p_stage_to_node p s of
        None \<Rightarrow> Inl (RuntimeError ''bindExternalInput(): stage not added to this pipeline (call addStage() first)'')
      | Some i \<Rightarrow>
          res_bind (setInputBuffer i 1 (''pipeline_input_ext_'' @ getName api s) (p_dag p)) (\<lambda>d.
            Inr ((set_dag d p)\<lparr>p_explicit_external_bindings :=
                   p_explicit_external_bindings p @ [(i, last (input_buffer_ids (node d i)))]\<rparr>)))"

subsection \<open>The steps of finalize\<close>

definition validate :: "'s stage_ops \<Rightarrow> 's session \<Rightarrow> 's session res" where
  "validate ops s =
     (let p = ss_p s; connected = map ci_dependent (p_connections p) @ map ci_producer (p_connections p) in
      if p_stages p = [] then Inl (RuntimeError ''Pipeline has no stages'')
      else if p_connections p \<noteq> [] \<and> list_ex (\<lambda>st. st \<notin> set connected) (p_stages p)
      then Inl (RuntimeError ''Stage has no connections'')
      else Inr (s\<lparr>ss_obj := (\<lambda>st. case p_stage_to_node p st of
                   None \<Rightarrow> ss_obj s st
                 | Some i \<Rightarrow> so_setTerminalOutput ops (dependents (node (p_dag p) i) = []) (ss_obj s st))\<rparr>))"

definition is_float :: "u8 \<Rightarrow> bool" where
  "is_float t \<longleftrightarrow> t = 8 \<or> t = 9"

text \<open>\<open>getDataTypeSize\<close> throws for a code outside the enumeration.\<close>

definition typesCompatible :: "u8 \<Rightarrow> u8 \<Rightarrow> bool res" where
  "typesCompatible a b =
     (if a = b then Inr True
      else if is_float a \<or> is_float b then Inr False
      else res_bind (getDataTypeSize a) (\<lambda>x. res_bind (getDataTypeSize b) (\<lambda>y. Inr (x = y))))"

definition position :: "'a \<Rightarrow> 'a list \<Rightarrow> nat" where
  "position x xs = length (takeWhile (\<lambda>y. y \<noteq> x) xs)"

definition check_connection :: "stage_api \<Rightarrow> pipeline \<Rightarrow> connection_info \<Rightarrow> unit res" where
  "check_connection api p c =
     (case (p_stage_to_node p (ci_dependent c), p_stage_to_node p (ci_producer c)) of
        (Some dep, Some prd) \<Rightarrow>
          (case map_of (output_index_to_buffer_id (node (p_dag p) prd)) (ci_output_index c) of
             None \<Rightarrow> Inl (OutOfRange ''unordered_map::at'')
           | Some b \<Rightarrow>
              (let ins = input_buffer_ids (node (p_dag p) dep); k = position b ins in
               if k = length ins
               then Inl (RuntimeError ''typeCheckConnections: internal error -- connection buffer not found on dependent node'')
               else
                 let pt = getOutputDataType api (ci_producer c) (nat (ci_output_index c));
                     ct = getInputDataType api (ci_dependent c) k in
                 if pt = DT_UNKNOWN \<or> ct = DT_UNKNOWN then Inr ()
                 else res_bind (typesCompatible pt ct) (\<lambda>ok. if ok then Inr () else Inl (RuntimeError ''Type mismatch: ''))))
      | _ \<Rightarrow> Inl (OutOfRange ''unordered_map::at''))"

definition typeCheckConnections :: "stage_api \<Rightarrow> pipeline \<Rightarrow> unit res" where
  "typeCheckConnections api p = res_fold (\<lambda>c _. check_connection api p c) (p_connections p) ()"

definition bind_contract :: "'s stage_ops \<Rightarrow> dag \<Rightarrow> nat \<Rightarrow> (nat \<Rightarrow> 's) \<Rightarrow> nat \<Rightarrow> 's" where
  "bind_contract ops d i obj =
     (case (n_stage (node d i), dependents (node d i)) of
        (Some prd, [c]) \<Rightarrow>
          (case n_stage (node d c) of
             None \<Rightarrow> obj
           | Some cns \<Rightarrow>
               if so_oracle_valid ops (obj cns)
               then obj(prd := so_bindDownstreamEncodingOracle ops (obj cns) (obj prd)) else obj)
      | _ \<Rightarrow> obj)"

definition bindSemanticContracts :: "'s stage_ops \<Rightarrow> 's session \<Rightarrow> 's session" where
  "bindSemanticContracts ops s =
     s\<lparr>ss_obj := fold (bind_contract ops (p_dag (ss_p s))) [0..<length (nodes (p_dag (ss_p s)))] (ss_obj s)\<rparr>"

definition getSourceStages :: "pipeline \<Rightarrow> nat list" where
  "getSourceStages p = concat (map (\<lambda>n. case n_stage n of Some s \<Rightarrow> if dependencies n = [] then [s] else [] | None \<Rightarrow> [])
     (nodes (p_dag p)))"

definition getSinkStages :: "pipeline \<Rightarrow> nat list" where
  "getSinkStages p = concat (map (\<lambda>n. case n_stage n of Some s \<Rightarrow> if dependents n = [] then [s] else [] | None \<Rightarrow> [])
     (nodes (p_dag p)))"

definition identifyTopology :: "pipeline \<Rightarrow> (nat list \<times> nat list) res" where
  "identifyTopology p =
     (if getSourceStages p = [] \<and> p_explicit_external_bindings p = [] then Inl (RuntimeError ''Pipeline has no source stages'')
      else if getSinkStages p = [] then Inl (RuntimeError ''Pipeline has no sink stages'')
      else Inr (getSourceStages p, getSinkStages p))"

definition bind_source :: "stage_api \<Rightarrow> bool \<Rightarrow> nat \<times> nat \<Rightarrow> pipeline \<Rightarrow> pipeline res" where
  "bind_source api single src p =
     (let i = the (p_stage_to_node p (snd src)) in
      if i \<in> fst ` set (p_explicit_external_bindings p) then Inr p
      else res_bind (setInputBuffer i 1 (if single then ''pipeline_input''
               else ''pipeline_input_'' @ to_string (fst src) @ ''_'' @ getName api (snd src)) (p_dag p)) (\<lambda>d.
             Inr ((set_dag d p)\<lparr>p_input_nodes := p_input_nodes p @ [i],
                    p_input_buffer_ids := p_input_buffer_ids p @ [last (input_buffer_ids (node d i))]\<rparr>)))"

definition setupInputBuffers :: "stage_api \<Rightarrow> nat list \<Rightarrow> pipeline \<Rightarrow> pipeline res" where
  "setupInputBuffers api sources p =
     res_bind (res_fold (bind_source api (length sources + length (p_explicit_external_bindings p) = 1))
                 (zip [0..<length sources] sources) (p\<lparr>p_input_nodes := [], p_input_buffer_ids := []\<rparr>)) (\<lambda>p1.
       Inr (p1\<lparr>p_input_nodes := p_input_nodes p1 @ map fst (p_explicit_external_bindings p1),
               p_input_buffer_ids := p_input_buffer_ids p1 @ map snd (p_explicit_external_bindings p1)\<rparr>))"

definition detect_output :: "stage_api \<Rightarrow> nat \<Rightarrow> nat \<Rightarrow> nat \<Rightarrow> pipeline \<Rightarrow> pipeline res" where
  "detect_output api i st j p =
     (case map_of (output_index_to_buffer_id (node (p_dag p) i)) (int j) of
        None \<Rightarrow> Inl (RuntimeError ''Missing pre-allocated buffer for output'')
      | Some b \<Rightarrow>
          res_bind (getBufferInfo b (p_dag p)) (\<lambda>info.
            if consumer_stage_ids info \<noteq> [] then Inr p
            else res_bind (updateBufferTag b (''pipeline_output_'' @ getName api st @ ''.'' @ output_name api st j) (p_dag p)) (\<lambda>d.
                 res_bind (setBufferPersistent b True d) (\<lambda>d.
                   Inr ((set_dag d p)\<lparr>p_output_buffer_ids := p_output_buffer_ids p @ [b],
                                      p_output_nodes := p_output_nodes p @ [i]\<rparr>)))))"

text \<open>\<open>static_cast<size_t>(out_idx) >= num_outputs\<close>; a negative index becomes a huge one.\<close>

definition drop_stale :: "nat \<Rightarrow> nat \<Rightarrow> dag \<Rightarrow> dag" where
  "drop_stale num_outputs i d =
     (let stale = filter (\<lambda>(k, b). k < 0 \<or> int num_outputs \<le> k) (output_index_to_buffer_id (node d i)) in
      upd_node i (\<lambda>n. n\<lparr>output_buffer_ids := filter (\<lambda>b. b \<notin> snd ` set stale) (output_buffer_ids n),
        output_index_to_buffer_id := filter (\<lambda>(k, b). \<not> (k < 0 \<or> int num_outputs \<le> k)) (output_index_to_buffer_id n)\<rparr>) d)"

definition detect_node :: "stage_api \<Rightarrow> nat \<Rightarrow> pipeline \<Rightarrow> pipeline res" where
  "detect_node api i p =
     (case n_stage (node (p_dag p) i) of
        None \<Rightarrow> Inr p
      | Some st \<Rightarrow>
          res_bind (res_fold (detect_output api i st) [0..<getNumOutputs api st] p) (\<lambda>p.
            Inr (set_dag (drop_stale (getNumOutputs api st) i (p_dag p)) p)))"

definition autoDetectUnconnectedOutputs :: "stage_api \<Rightarrow> pipeline \<Rightarrow> pipeline res" where
  "autoDetectUnconnectedOutputs api p = res_fold (detect_node api) [0..<length (nodes (p_dag p))] p"

definition detectMultiOutputScenario :: "pipeline \<Rightarrow> pipeline" where
  "detectMultiOutputScenario p = (if 1 < length (p_output_buffer_ids p) then p\<lparr>p_needs_concat := True\<rparr> else p)"

definition configureStreamsIfNeeded :: "finalize_env \<Rightarrow> pipeline \<Rightarrow> pipeline res" where
  "configureStreamsIfNeeded fe p =
     (if 1 < p_num_streams p
      then case configureStreams (fe_streams fe) (p_num_streams p) (p_dag p) of
             (_, Inl e) \<Rightarrow> Inl e | (d, Inr _) \<Rightarrow> Inr (set_dag d p)
      else Inr p)"

text \<open>\<open>std::lcm\<close> at the width of \<open>size_t\<close>.\<close>

definition align_up :: "size_t \<Rightarrow> size_t \<Rightarrow> size_t" where
  "align_up n a = (n + a - 1) div a * a"

definition computeInputAlignment :: "stage_api \<Rightarrow> pipeline \<Rightarrow> pipeline" where
  "computeInputAlignment api p =
     (let align = foldl (\<lambda>m s. let a = getRequiredInputAlignment api s in
                            if 1 < a then word_of_nat (lcm (unat m) (unat a)) else m) 1 (p_stages p)
      in p\<lparr>p_input_alignment_bytes := align,
           p_input_size_hint := (if 1 < align then align_up (p_input_size_hint p) align else p_input_size_hint p)\<rparr>)"

text \<open>One node of \<open>propagateBufferSizes\<close>, the same loop as in \<open>buildInverseDAG\<close>.\<close>

definition propagate_node :: "stage_api \<Rightarrow> nat \<Rightarrow> dag \<Rightarrow> dag res" where
  "propagate_node api i d =
     (let sizes = map (\<lambda>b. getBufferSize b d) (input_buffer_ids (node d i)) in
      res_bind (res_fold (\<lambda>r acc. map_sum id (\<lambda>n. acc @ [n]) r) sizes []) (\<lambda>ins.
        res_fold (\<lambda>(b, n) d. updateBufferSize b n d)
          (zip (output_buffer_ids (node d i)) (estimateOutputSizes api (stage_of d i) ins)) d))"

definition propagate_levels :: "stage_api \<Rightarrow> dag \<Rightarrow> dag res" where
  "propagate_levels api d = res_fold (propagate_node api) (concat (levels d)) d"

definition propagateBufferSizes :: "stage_api \<Rightarrow> bool \<Rightarrow> pipeline \<Rightarrow> pipeline res" where
  "propagateBufferSizes api force p =
     (if p_input_size_hint p = 0 \<and> \<not> force then Inr p
      else res_bind (if force then Inr (p_dag p)
                     else res_fold (\<lambda>b d. updateBufferSize b (p_input_size_hint p) d) (p_input_buffer_ids p) (p_dag p))
             (\<lambda>d. map_sum id (\<lambda>d. set_dag d p) (propagate_levels api d)))"

definition finalize_hook :: "'s stage_ops \<Rightarrow> nat \<Rightarrow> 's session \<Rightarrow> 's session res" where
  "finalize_hook ops i s =
     (let d = p_dag (ss_p s); st = stage_of d i in
      res_bind (case input_buffer_ids (node d i) of [] \<Rightarrow> Inr 0 | b # _ \<Rightarrow> getBufferSize b d) (\<lambda>n.
        let (o', pl) = so_onFinalize ops n (ss_obj s st, x_pool (p_x (ss_p s)))
        in Inr (s\<lparr>ss_obj := (ss_obj s)(st := o'), ss_p := (ss_p s)\<lparr>p_x := p_x (ss_p s)\<lparr>x_pool := pl\<rparr>\<rparr>\<rparr>)))"

definition notifyStagesFinalizeHooks :: "'s stage_ops \<Rightarrow> 's session \<Rightarrow> 's session res" where
  "notifyStagesFinalizeHooks ops s = res_fold (finalize_hook ops) (concat (levels (p_dag (ss_p s)))) s"

text \<open>The computed pool size is only logged; the threshold is pinned to the largest value.\<close>

definition refinePoolSize :: "finalize_env \<Rightarrow> pipeline \<Rightarrow> pipeline" where
  "refinePoolSize fe p =
     (if p_input_size_hint p = 0 then p
      else p\<lparr>p_x := p_x p\<lparr>x_pool := setReleaseThreshold (fe_threshold_ok fe) (- 1) (x_pool (p_x p))\<rparr>\<rparr>)"

text \<open>\<open>PoolBuffer::allocate\<close>: the old allocation is freed first.\<close>

definition pool_buffer_allocate ::
  "stage_env \<Rightarrow> size_t \<Rightarrow> string \<Rightarrow> pool_buffer \<times> pool \<Rightarrow> bool \<times> pool_buffer \<times> pool" where
  "pool_buffer_allocate env bytes tag bp =
     (let (b, pl) = bp;
          (b1, pl1) = (if pb_ptr b \<noteq> 0 then (\<lparr>pb_ptr = 0, pb_capacity = 0\<rparr>, snd (pool_free (pb_ptr b) pl)) else (b, pl));
          (q, pl2) = pool_allocate (se_driver env) (se_scale env) bytes tag True pl1
      in (q \<noteq> 0, \<lparr>pb_ptr = q, pb_capacity = (if q \<noteq> 0 then bytes else pb_capacity b1)\<rparr>, pl2))"

definition setupGraphModeInput :: "stage_env \<Rightarrow> pipeline \<Rightarrow> pipeline res" where
  "setupGraphModeInput env p =
     (if p_strategy p \<noteq> PREALLOCATE then Inl (RuntimeError ''Graph mode requires PREALLOCATE memory strategy.'')
      else if \<not> has_mem_pool (x_pool (p_x p)) then Inl (RuntimeError ''Graph mode is not supported when the CUDA memory pool is unavailable'')
      else if p_input_size_hint p = 0 then Inl (RuntimeError ''Graph mode requires a non-zero input size hint.'')
      else if length (p_input_nodes p) \<noteq> 1 then Inl (RuntimeError ''Graph mode currently supports single-source pipelines only'')
      else
        let padded = (if 1 < p_input_alignment_bytes p then align_up (p_input_size_hint p) (p_input_alignment_bytes p)
                      else p_input_size_hint p);
            (ok, b, pl) = pool_buffer_allocate env padded ''graph_input_slot'' (p_graph_input p, x_pool (p_x p))
        in if \<not> ok then Inl (RuntimeError ''Failed to allocate graph input slot'')
           else Inr (p\<lparr>p_graph_input := b, p_graph_input_size := padded, p_x := p_x p\<lparr>x_pool := pl\<rparr>\<rparr>))"

definition preallocatePadBuffer :: "stage_env \<Rightarrow> pipeline \<Rightarrow> pipeline res" where
  "preallocatePadBuffer env p =
     (if p_input_alignment_bytes p \<le> 1 \<or> p_input_size_hint p = 0 then Inr p
      else
        let padded = align_up (p_input_size_hint p) (p_input_alignment_bytes p) in
        if padded \<le> pb_capacity (p_pad_buf p) then Inr p
        else
          let (ok, b, pl) = pool_buffer_allocate env padded ''pipeline_input_pad'' (p_pad_buf p, x_pool (p_x p))
          in if \<not> ok then Inl (RuntimeError ''Failed to preallocate pipeline input pad buffer'')
             else Inr (p\<lparr>p_pad_buf := b, p_x := p_x p\<lparr>x_pool := pl\<rparr>\<rparr>))"

text \<open>The pinned and device scratch of the gather kernel; \<open>fe_pinned_ok\<close> tells whether it can be had.\<close>

definition preallocateConcatBuffers :: "finalize_env \<Rightarrow> pipeline \<Rightarrow> unit res" where
  "preallocateConcatBuffers fe p =
     (if \<not> p_needs_concat p \<or> p_output_buffer_ids p = [] \<or> fe_pinned_ok fe then Inr ()
      else Inl (RuntimeError ''Failed to allocate pinned concat header buffer''))"

definition apply_dims :: "'s stage_ops \<Rightarrow> nat \<Rightarrow> 's session \<Rightarrow> 's session" where
  "apply_dims ops st s =
     (let s1 = s\<lparr>ss_obj := (ss_obj s)(st := so_setDims ops (ss_dims s) (ss_obj s st))\<rparr>; p = ss_p s1 in
      case p_stage_to_node p st of
        None \<Rightarrow> s1
      | Some i \<Rightarrow> s1\<lparr>ss_p := set_dag (upd_node i (\<lambda>n. n\<lparr>n_name := getName (so_api ops (ss_obj s1)) st\<rparr>) (p_dag p)) p\<rparr>)"

text \<open>\<open>finalize\<close> up to and including \<open>dag_->finalize()\<close>, on the graph alone and with the checks before it.\<close>

definition finalize_graph :: "stage_api \<Rightarrow> finalize_env \<Rightarrow> pipeline \<Rightarrow> pipeline res" where
  "finalize_graph api fe p =
     res_bind (identifyTopology p) (\<lambda>(sources, sinks).
     res_bind (setupInputBuffers api sources p) (\<lambda>p.
     res_bind (autoDetectUnconnectedOutputs api p) (\<lambda>p.
     res_bind (configureStreamsIfNeeded fe (detectMultiOutputScenario p)) (\<lambda>p.
       case dag_finalize (fe_ord fe (p_dag p)) (fe_streams fe) (p_dag p) of
         (_, Inl e) \<Rightarrow> Inl e | (d, Inr _) \<Rightarrow> Inr (set_dag d p)))))"

definition finalize_checked :: "'s stage_ops \<Rightarrow> finalize_env \<Rightarrow> 's session \<Rightarrow> 's session res" where
  "finalize_checked ops fe s =
     res_bind (validate ops (fold (apply_dims ops) (p_stages (ss_p s)) s)) (\<lambda>s.
     res_bind (typeCheckConnections (so_api ops (ss_obj s)) (ss_p s)) (\<lambda>_.
       let s = bindSemanticContracts ops s
       in on_pipe (finalize_graph (so_api ops (ss_obj s)) fe) s))"

definition finalize_memory :: "'s stage_ops \<Rightarrow> finalize_env \<Rightarrow> 's session \<Rightarrow> 's session res" where
  "finalize_memory ops fe s =
     res_bind (on_pipe (\<lambda>p. propagateBufferSizes (so_api ops (ss_obj s)) False
         (computeInputAlignment (so_api ops (ss_obj s)) p)) s) (\<lambda>s.
     res_bind (notifyStagesFinalizeHooks ops s) (\<lambda>s.
     let env = so_env ops (ss_obj s) in
     on_pipe (\<lambda>p.
       res_bind (let p = refinePoolSize fe p in
                 if p_strategy p = PREALLOCATE
                 then map_sum id (\<lambda>x. p\<lparr>p_x := x\<rparr>) (preallocateBuffers env (fe_color_ord fe (p_dag p)) (p_x p))
                 else Inr p) (\<lambda>p.
       res_bind (if p_graph_mode_enabled p then setupGraphModeInput env p else Inr p) (\<lambda>p.
       res_bind (preallocatePadBuffer env p) (\<lambda>p.
       let p = p\<lparr>p_num_streams := max 1 (int (length (streams (p_dag p))))\<rparr> in
       res_bind (preallocateConcatBuffers fe p) (\<lambda>_. Inr (p\<lparr>p_is_finalized := True\<rparr>)))))) s))"

text \<open>
  \<open>finalize\<close> without the warm-up run at its end; \<open>None\<close> when the bounded loops of the fusion planner
  run out, which they do not (\<open>planAndInstallFusion\<close> on a well-formed graph).
\<close>

definition finalize_steps :: "'s stage_ops \<Rightarrow> finalize_env \<Rightarrow> 's session \<Rightarrow> 's session res option" where
  "finalize_steps ops fe s =
     (if p_is_finalized (ss_p s) then Some (Inl (RuntimeError ''Pipeline already finalized''))
      else case finalize_checked ops fe s of
        Inl e \<Rightarrow> Some (Inl e)
      | Inr s1 \<Rightarrow>
          map_option (\<lambda>(info, p). finalize_memory ops fe (s1\<lparr>ss_p := p, ss_fusion_info := info\<rparr>))
            (planAndInstallFusion (so_decl ops (ss_obj s1)) (ss_policy s1) (fe_specialize fe) (fe_fusion fe) (ss_p s1)))"

subsection \<open>Graph operations only add\<close>

definition keeps :: "dag \<Rightarrow> dag \<Rightarrow> bool" where
  "keeps d d' \<longleftrightarrow> length (nodes d) \<le> length (nodes d') \<and>
     (\<forall>i<length (nodes d). n_stage (node d' i) = n_stage (node d i) \<and>
        set (input_buffer_ids (node d i)) \<subseteq> set (input_buffer_ids (node d' i)) \<and>
        map_of (output_index_to_buffer_id (node d i)) \<subseteq>\<^sub>m map_of (output_index_to_buffer_id (node d' i)))"

lemma keeps_refl [simp]: "keeps d d"
  by (simp add: keeps_def)

lemma keepsD:
  assumes "keeps d d'" "i < length (nodes d)"
  shows "i < length (nodes d')" "n_stage (node d' i) = n_stage (node d i)"
    "b \<in> set (input_buffer_ids (node d i)) \<Longrightarrow> b \<in> set (input_buffer_ids (node d' i))"
    "map_of (output_index_to_buffer_id (node d i)) \<subseteq>\<^sub>m map_of (output_index_to_buffer_id (node d' i))"
    "map_of (output_index_to_buffer_id (node d i)) k = Some b \<Longrightarrow> map_of (output_index_to_buffer_id (node d' i)) k = Some b"
proof -
  show "map_of (output_index_to_buffer_id (node d i)) \<subseteq>\<^sub>m map_of (output_index_to_buffer_id (node d' i))"
    using assms by (simp add: keeps_def)
  then show "map_of (output_index_to_buffer_id (node d i)) k = Some b \<Longrightarrow> map_of (output_index_to_buffer_id (node d' i)) k = Some b"
    by (metis domI map_le_def)
qed (use assms in \<open>auto simp: keeps_def\<close>)

lemma keeps_trans:
  assumes "keeps a b" "keeps b c"
  shows "keeps a c"
  unfolding keeps_def
proof (intro conjI allI impI)
  show "length (nodes a) \<le> length (nodes c)" using assms by (simp add: keeps_def)
  fix i assume i: "i < length (nodes a)"
  note D = keepsD [OF assms(1) i] and E = keepsD [OF assms(2) keepsD(1) [OF assms(1) i]]
  show "n_stage (node c i) = n_stage (node a i)" using D(2) E(2) by simp
  show "set (input_buffer_ids (node a i)) \<subseteq> set (input_buffer_ids (node c i))" using D(3) E(3) by blast
  show "map_of (output_index_to_buffer_id (node a i)) \<subseteq>\<^sub>m map_of (output_index_to_buffer_id (node c i))"
    using D(4) E(4) by (rule map_le_trans)
qed

lemma keeps_same_nodes: "nodes d' = nodes d \<Longrightarrow> keeps d d'"
  by (simp add: keeps_def)

lemma keeps_upd_buf [simp]: "keeps d (upd_buf b f d)" "keeps d (describe b sz tag ps ex d)"
  by (simp_all add: keeps_same_nodes)

lemma keeps_upd_node:
  assumes "n_stage (f (node d i)) = n_stage (node d i)"
    "set (input_buffer_ids (node d i)) \<subseteq> set (input_buffer_ids (f (node d i)))"
    "map_of (output_index_to_buffer_id (node d i)) \<subseteq>\<^sub>m map_of (output_index_to_buffer_id (f (node d i)))"
  shows "keeps d (upd_node i f d)"
proof -
  have "node (upd_node i f d) k = (if k = i then f (node d i) else node d k)" if "k < length (nodes d)" for k
    using that by (cases "k = i") (simp_all add: upd_node_def)
  with assms show ?thesis by (simp add: keeps_def)
qed

lemma keeps_link: "keeps d (link c p d)"
  unfolding link_def by (rule keeps_trans [OF keeps_upd_node keeps_upd_node]) simp_all

lemma keeps_push_input: "keeps d (push_input c b d)"
  unfolding push_input_def by (rule keeps_trans [OF keeps_upd_buf(1)]; rule keeps_upd_node) auto

lemma keeps_push_output:
  assumes "p < length (nodes d) \<Longrightarrow> map_of (output_index_to_buffer_id (node d p)) k = None"
  shows "keeps d (push_output p k b d)"
proof (cases "p < length (nodes d)")
  case True
  with assms have none: "map_of (output_index_to_buffer_id (node d p)) k = None" by simp
  show ?thesis unfolding push_output_def
    by (rule keeps_trans [OF keeps_upd_buf(1) keeps_upd_node]) (use none in \<open>auto simp: update_conv' map_le_def\<close>)
qed (simp add: push_output_def upd_node_def keeps_def)

lemma fresh_buffer_simps [simp]:
  "nodes (snd (fresh_buffer d)) = nodes d" "is_finalized (snd (fresh_buffer d)) = is_finalized d"
  by (simp_all add: fresh_buffer_def Let_def upd_buf_def)

lemma finalized_simps [simp]:
  "is_finalized (upd_buf b f d) = is_finalized d" "is_finalized (upd_node i g d) = is_finalized d"
  "is_finalized (link c p d) = is_finalized d" "is_finalized (push_input c b d) = is_finalized d"
  "is_finalized (push_output p k b d) = is_finalized d" "is_finalized (describe b sz tag ps ex d) = is_finalized d"
  by (simp_all add: upd_buf_def upd_node_def link_def push_input_def push_output_def describe_def)

lemma setInputBuffer_keeps:
  assumes "setInputBuffer i sz tag d = Inr d'" "i < length (nodes d)"
  shows "keeps d d'" "\<not> is_finalized d'" "length (nodes d') = length (nodes d)"
    "input_buffer_ids (node d' i) = input_buffer_ids (node d i) @ [next_buffer_id d]"
proof -
  obtain b d1 where f: "fresh_buffer d = (b, d1)" by fastforce
  have d': "d' = push_input i b (describe b sz tag True True d1)" and nf: "\<not> is_finalized d"
    using assms(1) by (auto simp: setInputBuffer_def f split: if_splits)
  have n: "nodes d1 = nodes d" "is_finalized d1 = is_finalized d" using fresh_buffer_simps [of d] f by simp_all
  have "keeps d1 d'" unfolding d' by (rule keeps_trans [OF keeps_upd_buf(2) keeps_push_input])
  with n show "keeps d d'" by (simp add: keeps_def)
  have b: "b = next_buffer_id d" using f by (simp add: fresh_buffer_def Let_def)
  show "\<not> is_finalized d'" "length (nodes d') = length (nodes d)"
    "input_buffer_ids (node d' i) = input_buffer_ids (node d i) @ [next_buffer_id d]"
    using n nf assms(2) b by (simp_all add: d' push_input_def)
qed

lemma addUnconnectedOutput_keeps:
  assumes "addUnconnectedOutput i sz k tag d = Inr (b, d')" "i < length (nodes d)"
    "map_of (output_index_to_buffer_id (node d i)) k = None"
  shows "keeps d d'" "\<not> is_finalized d'" "length (nodes d') = length (nodes d)"
    "map_of (output_index_to_buffer_id (node d' i)) = (map_of (output_index_to_buffer_id (node d i)))(k \<mapsto> b)"
    "b = next_buffer_id d"
    "j \<noteq> i \<Longrightarrow> node d' j = node d j"
    "node d' i = (node d i)\<lparr>output_buffer_ids := output_buffer_ids (node d i) @ [b],
         output_index_to_buffer_id := AList.update k b (output_index_to_buffer_id (node d i))\<rparr>"
proof -
  obtain b1 d1 where f: "fresh_buffer d = (b1, d1)" by fastforce
  have d': "d' = push_output i k b1 (describe b1 sz tag False False d1)" and b: "b = b1" and nf: "\<not> is_finalized d"
    using assms(1) by (auto simp: addUnconnectedOutput_def f split: if_splits)
  have n: "nodes d1 = nodes d" "is_finalized d1 = is_finalized d" using fresh_buffer_simps [of d] f by simp_all
  have "keeps (describe b1 sz tag False False d1) d'" unfolding d' using assms(3) n by (intro keeps_push_output) simp
  with n show "keeps d d'" by (simp add: keeps_def)
  show "\<not> is_finalized d'" "length (nodes d') = length (nodes d)"
    "map_of (output_index_to_buffer_id (node d' i)) = (map_of (output_index_to_buffer_id (node d i)))(k \<mapsto> b)"
    "j \<noteq> i \<Longrightarrow> node d' j = node d j"
    "node d' i = (node d i)\<lparr>output_buffer_ids := output_buffer_ids (node d i) @ [b],
         output_index_to_buffer_id := AList.update k b (output_index_to_buffer_id (node d i))\<rparr>"
    using n nf assms(2) by (simp_all add: d' push_output_def update_conv' b)
  show "b = next_buffer_id d" using f b by (simp add: fresh_buffer_def Let_def)
qed

lemma connectExistingOutput_keeps:
  assumes "connectExistingOutput (Some p) (Some c) k d = Inr (ok, d')" "c < length (nodes d)" "p < length (nodes d)"
  shows "keeps d d'" "\<not> is_finalized d'" "length (nodes d') = length (nodes d)"
    "ok \<longleftrightarrow> map_of (output_index_to_buffer_id (node d p)) k \<noteq> None"
    "\<not> ok \<Longrightarrow> d' = d"
    "map_of (output_index_to_buffer_id (node d p)) k = Some b \<Longrightarrow>
       input_buffer_ids (node d' c) = input_buffer_ids (node d c) @ [b]"
proof -
  have nf: "\<not> is_finalized d" using assms(1) by (auto simp: connectExistingOutput_def split: if_splits)
  show ok: "ok \<longleftrightarrow> map_of (output_index_to_buffer_id (node d p)) k \<noteq> None" and same: "\<not> ok \<Longrightarrow> d' = d"
    using assms(1) nf by (auto simp: connectExistingOutput_def split: option.splits)
  have d': "d' = upd_buf b (\<lambda>x. x\<lparr>b_tag := edge_tag d p c, is_persistent := False\<rparr>) (push_input c b (link c p d))"
    if "map_of (output_index_to_buffer_id (node d p)) k = Some b" for b
    using assms(1) nf that by (simp add: connectExistingOutput_def)
  show "keeps d d'"
  proof (cases "map_of (output_index_to_buffer_id (node d p)) k")
    case (Some b)
    show ?thesis unfolding d' [OF Some]
      by (rule keeps_trans [OF keeps_link], rule keeps_trans [OF keeps_push_input], rule keeps_upd_buf(1))
  qed (use ok same in simp)
  show "\<not> is_finalized d'" "length (nodes d') = length (nodes d)"
    using d' same ok nf by (cases "map_of (output_index_to_buffer_id (node d p)) k"; simp)+
  show "map_of (output_index_to_buffer_id (node d p)) k = Some b \<Longrightarrow>
       input_buffer_ids (node d' c) = input_buffer_ids (node d c) @ [b]"
    using d' [of b] assms(2,3) by (simp add: push_input_def link_def)
qed

lemma addDependency_keeps:
  assumes "addDependency (Some c) (Some p) sz k d = (d', Inr b)" "c < length (nodes d)" "p < length (nodes d)"
    "map_of (output_index_to_buffer_id (node d p)) k = None"
  shows "keeps d d'" "\<not> is_finalized d'" "length (nodes d') = length (nodes d)"
    "map_of (output_index_to_buffer_id (node d' p)) k = Some b" "b \<in> set (input_buffer_ids (node d' c))"
proof -
  obtain b1 d1 where f: "fresh_buffer (link c p d) = (b1, d1)" by fastforce
  have d': "d' = push_input c b (push_output p k b (describe b sz (edge_tag d p c) False False d1))" and b: "b = b1"
    and nf: "\<not> is_finalized d"
    using assms(1) by (auto simp: addDependency_def f split: if_splits)
  have n: "nodes d1 = nodes (link c p d)" "is_finalized d1 = is_finalized d" using fresh_buffer_simps [of "link c p d"] f by simp_all
  let ?d2 = "describe b sz (edge_tag d p c) False False d1"
  have none: "map_of (output_index_to_buffer_id (node ?d2 p)) k = None" using n assms(2-4) by (cases "p = c") (simp_all add: link_def)
  have "keeps ?d2 d'" unfolding d'
    by (rule keeps_trans [OF keeps_push_output keeps_push_input]) (use none in simp)
  moreover have "keeps (link c p d) ?d2" using n by (intro keeps_same_nodes) simp
  ultimately show "keeps d d'" using keeps_link keeps_trans by blast
  show "\<not> is_finalized d'" "length (nodes d') = length (nodes d)" using n nf by (simp_all add: d')
  show "map_of (output_index_to_buffer_id (node d' p)) k = Some b" "b \<in> set (input_buffer_ids (node d' c))"
    using n assms(2,3) by (simp_all add: d' push_input_def push_output_def update_conv')
qed

subsection \<open>Histories of builder calls\<close>

text \<open>
  The builder calls in any order, with failures; a call that throws leaves the pipeline unchanged
  (every check precedes the first update as long as the pipeline is not finalized).  A new stage is a new
  object.  \<open>setMemoryStrategy\<close> is called before the first stage is added: see \<open>strategy_dangling\<close>.
\<close>

datatype pipe_op =
    PAddStage "bool \<times> bool" nat
  | PConnect nat nat string
  | PBindExternalInput nat
  | PSetMemoryStrategy memory_strategy
  | PSetNumStreams int
  | PEnableProfiling bool
  | PEnableGraphMode bool

definition p_ok :: "pipeline \<Rightarrow> pipeline res \<Rightarrow> pipeline" where
  "p_ok p r = (case r of Inl _ \<Rightarrow> p | Inr p' \<Rightarrow> p')"

fun pipe_exec :: "stage_api \<Rightarrow> pipe_op \<Rightarrow> pipeline \<Rightarrow> pipeline" where
  "pipe_exec api (PAddStage ev s) p = (if s \<in> set (p_stages p) then p else p_ok p (addRawStage api ev s p))"
| "pipe_exec api (PConnect c q oname) p = p_ok p (map_sum id snd (connect api c q oname p))"
| "pipe_exec api (PBindExternalInput s) p = p_ok p (bindExternalInput api s p)"
| "pipe_exec api (PSetMemoryStrategy st) p = (if p_stages p = [] then p_ok p (setMemoryStrategy st p) else p)"
| "pipe_exec api (PSetNumStreams n) p = p_ok p (setNumStreams n p)"
| "pipe_exec api (PEnableProfiling b) p = enableProfiling b p"
| "pipe_exec api (PEnableGraphMode b) p = p_ok p (enableGraphMode b p)"

text \<open>The constructor.\<close>

definition new_pipeline :: "size_t \<Rightarrow> memory_strategy \<Rightarrow> pool \<Rightarrow> dev_mem \<Rightarrow> pipeline" where
  "new_pipeline hint st pl m =
     \<lparr>p_x = \<lparr>x_dag = new_dag st, x_pool = pl, x_mem = m, x_trace = []\<rparr>, p_strategy = st, p_stages = [],
      p_stage_to_node = Map.empty, p_connections = [], p_num_streams = 1, p_is_finalized = False,
      p_pool_managed_decomp = True, p_is_compressed = False, p_was_compressed = False, p_profiling_enabled = False,
      p_coloring_enabled = True, p_input_nodes = [], p_primary_source_stage = None, p_explicit_external_bindings = [],
      p_output_nodes = [], p_input_buffer_ids = [], p_output_buffer_ids = [], p_needs_concat = False, p_input_size = 0,
      p_source_input_sizes = [], p_input_alignment_bytes = 1, p_pad_buf = \<lparr>pb_ptr = 0, pb_capacity = 0\<rparr>,
      p_original_input_size = 0, p_input_size_hint = hint, p_buffer_metadata = [], p_graph_mode_enabled = False,
      p_graph_captured = False, p_graph_input = \<lparr>pb_ptr = 0, pb_capacity = 0\<rparr>, p_graph_input_size = 0\<rparr>"

definition build_pipe :: "stage_api \<Rightarrow> pipe_op list \<Rightarrow> pipeline \<Rightarrow> pipeline" where
  "build_pipe api ops p = fold (pipe_exec api) ops p"

definition connection_ok :: "pipeline \<Rightarrow> connection_info \<Rightarrow> bool" where
  "connection_ok p c \<longleftrightarrow>
     (\<exists>dep prd b. p_stage_to_node p (ci_dependent c) = Some dep \<and> p_stage_to_node p (ci_producer c) = Some prd \<and>
        0 \<le> ci_output_index c \<and> map_of (output_index_to_buffer_id (node (p_dag p) prd)) (ci_output_index c) = Some b \<and>
        b \<in> set (input_buffer_ids (node (p_dag p) dep)))"

definition pipe_wf :: "pipeline \<Rightarrow> bool" where
  "pipe_wf p \<longleftrightarrow>
     \<not> p_is_finalized p \<and> \<not> is_finalized (p_dag p) \<and> dag_wf (p_dag p) \<and>
     map n_stage (nodes (p_dag p)) = map Some (p_stages p) \<and> distinct (p_stages p) \<and>
     (\<forall>s i. p_stage_to_node p s = Some i \<longleftrightarrow> i < length (p_stages p) \<and> p_stages p ! i = s) \<and>
     list_all (connection_ok p) (p_connections p) \<and>
     list_all (\<lambda>(i, b). i < length (nodes (p_dag p)) \<and> b \<in> set (input_buffer_ids (node (p_dag p) i)))
       (p_explicit_external_bindings p)"

lemma p_dag_set_dag [simp]: "p_dag (set_dag d p) = d"
  by (simp add: set_dag_def)

lemma set_dag_fields [simp]:
  "p_is_finalized (set_dag d p) = p_is_finalized p" "p_stages (set_dag d p) = p_stages p"
  "p_stage_to_node (set_dag d p) = p_stage_to_node p" "p_connections (set_dag d p) = p_connections p"
  "p_explicit_external_bindings (set_dag d p) = p_explicit_external_bindings p"
  "p_input_nodes (set_dag d p) = p_input_nodes p" "p_input_buffer_ids (set_dag d p) = p_input_buffer_ids p"
  "p_output_nodes (set_dag d p) = p_output_nodes p" "p_output_buffer_ids (set_dag d p) = p_output_buffer_ids p"
  "p_needs_concat (set_dag d p) = p_needs_concat p" "p_num_streams (set_dag d p) = p_num_streams p"
  by (simp_all add: set_dag_def)

lemma pipe_wfD:
  assumes "pipe_wf p"
  shows "\<not> p_is_finalized p" "\<not> is_finalized (p_dag p)" "dag_wf (p_dag p)"
    "map n_stage (nodes (p_dag p)) = map Some (p_stages p)" "distinct (p_stages p)"
    "p_stage_to_node p s = Some i \<longleftrightarrow> i < length (p_stages p) \<and> p_stages p ! i = s"
    "c \<in> set (p_connections p) \<Longrightarrow> connection_ok p c"
    "(i, b) \<in> set (p_explicit_external_bindings p) \<Longrightarrow> i < length (nodes (p_dag p)) \<and> b \<in> set (input_buffer_ids (node (p_dag p) i))"
  using assms unfolding pipe_wf_def list_all_iff by blast+

lemma pipe_wf_stages: "pipe_wf p \<Longrightarrow> length (p_stages p) = length (nodes (p_dag p))"
  using arg_cong [OF pipe_wfD(4), of p length] by simp

lemma pipe_wf_node:
  assumes "pipe_wf p" "p_stage_to_node p s = Some i"
  shows "i < length (nodes (p_dag p))" "n_stage (node (p_dag p) i) = Some s"
proof -
  have i: "i < length (p_stages p)" "p_stages p ! i = s" using pipe_wfD(6) [OF assms(1)] assms(2) by simp_all
  then show l: "i < length (nodes (p_dag p))" using pipe_wf_stages [OF assms(1)] by simp
  show "n_stage (node (p_dag p) i) = Some s"
    using arg_cong [OF pipe_wfD(4) [OF assms(1)], of "\<lambda>xs. xs ! i"] i l by simp
qed

lemma connection_ok_mono:
  assumes "connection_ok p c" "keeps (p_dag p) (p_dag p')" "p_stage_to_node p \<subseteq>\<^sub>m p_stage_to_node p'"
    "\<And>s i. p_stage_to_node p s = Some i \<Longrightarrow> i < length (nodes (p_dag p))"
  shows "connection_ok p' c"
proof -
  obtain dep prd b where c: "p_stage_to_node p (ci_dependent c) = Some dep" "p_stage_to_node p (ci_producer c) = Some prd"
    "0 \<le> ci_output_index c" "map_of (output_index_to_buffer_id (node (p_dag p) prd)) (ci_output_index c) = Some b"
    "b \<in> set (input_buffer_ids (node (p_dag p) dep))"
    using assms(1) unfolding connection_ok_def by blast
  have "p_stage_to_node p' (ci_dependent c) = Some dep" "p_stage_to_node p' (ci_producer c) = Some prd"
    using assms(3) c(1,2) by (metis domI map_le_def)+
  moreover have "map_of (output_index_to_buffer_id (node (p_dag p') prd)) (ci_output_index c) = Some b"
    using keepsD(5) [OF assms(2) assms(4) [OF c(2)] c(4)] .
  moreover have "b \<in> set (input_buffer_ids (node (p_dag p') dep))"
    using keepsD(3) [OF assms(2) assms(4) [OF c(1)] c(5)] .
  ultimately show ?thesis using c(3) unfolding connection_ok_def by blast
qed

text \<open>A step that only grows the graph of a well-formed pipeline keeps what it knows.\<close>

lemma pipe_wf_step:
  assumes wf: "pipe_wf p" and "dag_wf (p_dag p')" "\<not> is_finalized (p_dag p')" "keeps (p_dag p) (p_dag p')"
    "length (nodes (p_dag p')) = length (nodes (p_dag p))"
    "p_is_finalized p' = p_is_finalized p" "p_stages p' = p_stages p" "p_stage_to_node p' = p_stage_to_node p"
    "list_all (\<lambda>c. c \<in> set (p_connections p) \<or> connection_ok p' c) (p_connections p')"
    "list_all (\<lambda>(i, b). (i, b) \<in> set (p_explicit_external_bindings p) \<or>
       i < length (nodes (p_dag p')) \<and> b \<in> set (input_buffer_ids (node (p_dag p') i))) (p_explicit_external_bindings p')"
  shows "pipe_wf p'"
proof -
  have nd: "p_stage_to_node p s = Some i \<Longrightarrow> i < length (nodes (p_dag p))" for s i using pipe_wf_node [OF wf] by blast
  have st: "map n_stage (nodes (p_dag p')) = map n_stage (nodes (p_dag p))"
    using keepsD(2) [OF assms(4)] assms(5) by (intro nth_equalityI) auto
  have "connection_ok p' c" if "c \<in> set (p_connections p')" for c
  proof (cases "c \<in> set (p_connections p)")
    case True
    show ?thesis by (rule connection_ok_mono [OF pipe_wfD(7) [OF wf True] assms(4) _ nd]) (simp_all add: assms(8))
  qed (use assms(9) that in \<open>auto simp: list_all_iff\<close>)
  moreover have "i < length (nodes (p_dag p')) \<and> b \<in> set (input_buffer_ids (node (p_dag p') i))"
    if "(i, b) \<in> set (p_explicit_external_bindings p')" for i b
  proof (cases "(i, b) \<in> set (p_explicit_external_bindings p)")
    case True
    from pipe_wfD(8) [OF wf this] keepsD(1,3) [OF assms(4), of i] show ?thesis by blast
  qed (use assms(10) that in \<open>auto simp: list_all_iff\<close>)
  ultimately show ?thesis
    using pipe_wfD(1,4,5,6) [OF wf] assms(2,3,6,7,8) st unfolding pipe_wf_def list_all_iff by auto
qed

lemma new_pipeline_wf: "pipe_wf (new_pipeline n st pl m)"
  using new_dag_wf [of st] by (simp add: pipe_wf_def new_pipeline_def new_dag_def)

subsection \<open>Output ports\<close>

lemma update_append: "k \<notin> fst ` set al \<Longrightarrow> AList.update k v al = al @ [(k, v)]"
  by (induction al) auto

lemma next_buffer_simps [simp]:
  "next_buffer_id (upd_buf b f d) = next_buffer_id d" "next_buffer_id (upd_node i g d) = next_buffer_id d"
  "next_buffer_id (link c p d) = next_buffer_id d" "next_buffer_id (push_input c b d) = next_buffer_id d"
  "next_buffer_id (push_output p k b d) = next_buffer_id d" "next_buffer_id (describe b sz tag ps ex d) = next_buffer_id d"
  by (simp_all add: upd_buf_def upd_node_def link_def push_input_def push_output_def describe_def)

definition out_ids :: "int \<Rightarrow> nat \<Rightarrow> int list" where
  "out_ids b n = map (\<lambda>j. b + int j) [0..<n]"

definition out_ports :: "int \<Rightarrow> nat \<Rightarrow> (int \<times> int) list" where
  "out_ports b n = map (\<lambda>j. (int j, b + int j)) [0..<n]"

lemma map_of_out_ports: "map_of (out_ports b n) k = (if 0 \<le> k \<and> k < int n then Some (b + k) else None)"
  unfolding out_ports_def by (induction n) (auto simp: map_add_def)

lemma fst_out_ports: "fst ` set (out_ports b n) = {k. 0 \<le> k \<and> k < int n}"
  unfolding out_ports_def by (auto simp: image_image) (metis atLeast0LessThan imageI int_nat_eq lessThan_iff nat_less_iff)

lemma set_out_ids: "set (out_ids b n) = {c. b \<le> c \<and> c < b + int n}"
proof -
  have "c \<in> (\<lambda>j. b + int j) ` {0..<n}" if "b \<le> c" "c < b + int n" for c
    using that by (intro image_eqI [of _ _ "nat (c - b)"]) auto
  then show ?thesis by (auto simp: out_ids_def)
qed

text \<open>What the port loop leaves: \<open>n\<close> new buffers with consecutive ids, all else unchanged.\<close>

definition ports_added :: "nat \<Rightarrow> size_t \<Rightarrow> nat \<Rightarrow> dag \<Rightarrow> dag \<Rightarrow> bool" where
  "ports_added i sz n d d' \<longleftrightarrow>
     dag_wf d' \<and> \<not> is_finalized d' \<and> length (nodes d') = length (nodes d) \<and> next_buffer_id d' = next_buffer_id d + int n \<and>
     (\<forall>j. j \<noteq> i \<longrightarrow> node d' j = node d j) \<and>
     node d' i = (node d i)\<lparr>output_buffer_ids := out_ids (next_buffer_id d) n, output_index_to_buffer_id := out_ports (next_buffer_id d) n\<rparr> \<and>
     (\<forall>b. b < next_buffer_id d \<longrightarrow> buf d' b = buf d b) \<and>
     (\<forall>b. next_buffer_id d \<le> b \<longrightarrow> b < next_buffer_id d + int n \<longrightarrow>
        consumer_stage_ids (buf d' b) = [] \<and> \<not> is_external (buf d' b) \<and> b_size (buf d' b) = sz)"

lemma addUnconnectedOutput_ok:
  assumes "\<not> is_finalized d"
  shows "addUnconnectedOutput i sz k tag d = Inr (next_buffer_id d,
      push_output i k (next_buffer_id d) (describe (next_buffer_id d) sz tag False False (snd (fresh_buffer d))))"
  using assms by (simp add: addUnconnectedOutput_def fresh_buffer_def Let_def)

lemma ports_added_step:
  assumes "ports_added i sz n d d'" "i < length (nodes d)" "dag_wf d"
  shows "\<exists>b d2. addUnconnectedOutput i sz (int n) tag d' = Inr (b, d2) \<and> ports_added i sz (Suc n) d d2"
proof -
  note P = assms(1) [unfolded ports_added_def]
  let ?b = "next_buffer_id d'"
  let ?d1 = "snd (fresh_buffer d')"
  let ?d2 = "push_output i (int n) ?b (describe ?b sz tag False False ?d1)"
  have eq: "addUnconnectedOutput i sz (int n) tag d' = Inr (?b, ?d2)" using P by (intro addUnconnectedOutput_ok) blast
  have i: "i < length (nodes d')" using P assms(2) by simp
  have none: "map_of (output_index_to_buffer_id (node d' i)) (int n) = None" using P by (simp add: map_of_out_ports)
  note K = addUnconnectedOutput_keeps [OF eq i none]
  have wf: "dag_wf ?d2" using addUnconnectedOutput_wf [OF _ i eq] P by blast
  have nb: "buffers d' ?b = None" using P by (auto simp: dag_wf_def wf_dom_def)
  have b1: "buf ?d1 c = buf d' c" for c by (simp add: fresh_buffer_def Let_def)
  have bf: "buf ?d2 c = (if c = ?b then (new_buffer\<lparr>b_size := sz, initial_size := sz, b_tag := tag, is_persistent := False,
      is_external := False, producer_output_index := int n, producer_stage_id := int (n_id (node d' i))\<rparr>) else buf d' c)" for c
    using buf_None [OF nb] by (simp add: push_output_def describe_def b1)
  have nx: "next_buffer_id ?d2 = ?b + 1" by (simp add: fresh_buffer_def Let_def)
  have fresh: "int n \<notin> fst ` set (out_ports (next_buffer_id d) n)" by (simp add: fst_out_ports)
  have "ports_added i sz (Suc n) d ?d2"
    unfolding ports_added_def
  proof (intro conjI allI impI)
    show "node ?d2 i = (node d i)\<lparr>output_buffer_ids := out_ids (next_buffer_id d) (Suc n),
        output_index_to_buffer_id := out_ports (next_buffer_id d) (Suc n)\<rparr>"
      using K(7) P update_append [OF fresh] by (simp add: out_ids_def out_ports_def)
    show "node ?d2 j = node d j" if "j \<noteq> i" for j using K(6) [OF that] P that by simp
    show "buf ?d2 b = buf d b" if "b < next_buffer_id d" for b using bf P that by simp
    show "consumer_stage_ids (buf ?d2 b) = []" "\<not> is_external (buf ?d2 b)" "b_size (buf ?d2 b) = sz"
      if "next_buffer_id d \<le> b" "b < next_buffer_id d + int (Suc n)" for b
      using bf P that by (cases "b = ?b"; simp)+
  qed (use wf K(2,3) P nx in simp_all)
  with eq show ?thesis by blast
qed

lemma add_outputs_spec:
  assumes "dag_wf d" "\<not> is_finalized d" "i < length (nodes d)" "output_buffer_ids (node d i) = []" "output_index_to_buffer_id (node d i) = []"
  obtains d' where "add_outputs api s i sz suffix d = Inr d'" "ports_added i sz (getNumOutputs api s) d d'"
proof -
  let ?f = "\<lambda>j d. map_sum id snd (addUnconnectedOutput i sz (int j) (getName api s @ ''.'' @ output_name api s j @ suffix) d)"
  have "\<exists>d'. res_fold ?f [0..<n] d = Inr d' \<and> ports_added i sz n d d'" for n
  proof (induction n)
    case 0
    have "node d i = (node d i)\<lparr>output_buffer_ids := [], output_index_to_buffer_id := []\<rparr>" using assms(4,5) by simp
    with assms show ?case by (simp add: ports_added_def out_ids_def out_ports_def)
  next
    case (Suc n)
    then obtain d' where d': "res_fold ?f [0..<n] d = Inr d'" "ports_added i sz n d d'" by blast
    from ports_added_step [OF d'(2) assms(3,1)] obtain b d2 where
      "addUnconnectedOutput i sz (int n) (getName api s @ ''.'' @ output_name api s n @ suffix) d' = Inr (b, d2)"
      "ports_added i sz (Suc n) d d2" by blast
    moreover from this(1) have "res_fold ?f ([0..<n] @ [n]) d = Inr d2" unfolding res_fold_append d'(1) by simp
    moreover have "[0..<Suc n] = [0..<n] @ [n]" by simp
    ultimately show ?case by metis
  qed
  then show ?thesis using that unfolding add_outputs_def by blast
qed

subsection \<open>Every builder call keeps the pipeline well formed\<close>

lemma addStage_cases:
  assumes "addStage e1 e2 st name d = Inr (i, d')"
  shows "i = length (nodes d)" "\<not> is_finalized d'" "nodes d' = nodes d @ [node d' i]" "n_stage (node d' i) = st"
    "output_buffer_ids (node d' i) = []" "output_index_to_buffer_id (node d' i) = []" "input_buffer_ids (node d' i) = []"
    "dependencies (node d' i) = []" "dependents (node d' i) = []" "next_buffer_id d' = next_buffer_id d" "buf d' = buf d"
  using assms by (auto simp: addStage_def Let_def new_node_def buf_def buffers_def fun_eq_iff split: if_splits)

lemma addRawStage_wf:
  assumes "pipe_wf p" "s \<notin> set (p_stages p)" "addRawStage api ev s p = Inr p'"
  shows "pipe_wf p'"
proof -
  let ?d = "p_dag p" let ?n = "length (nodes (p_dag p))"
  obtain i d1 d2 where a: "addStage (fst ev) (snd ev) (Some s) (getName api s) ?d = Inr (i, d1)"
    "add_outputs api s i 1 ''_unconnected'' d1 = Inr d2"
    "p' = (set_dag d2 p)\<lparr>p_stage_to_node := (p_stage_to_node p)(s \<mapsto> i), p_stages := p_stages p @ [s]\<rparr>"
    using assms(3) by (auto simp: addRawStage_def res_bind_eq_Inr split: if_splits)
  note A = addStage_cases [OF a(1)]
  have wf1: "dag_wf d1" using addStage_wf(1) [OF pipe_wfD(3) [OF assms(1)] a(1)] .
  note n1 = A(3) and nf1 = A(2)
  have l1: "length (nodes d1) = Suc ?n" using arg_cong [OF n1, of length] by simp
  have i1: "i < length (nodes d1)" using A(1) l1 by simp
  obtain d3 where d3: "add_outputs api s i 1 ''_unconnected'' d1 = Inr d3" and P: "ports_added i 1 (getNumOutputs api s) d1 d3"
    using add_outputs_spec [OF wf1 nf1 i1 A(5,6)] by blast
  have "d3 = d2" using d3 a(2) by simp
  note P = P [unfolded this ports_added_def]
  have old: "node d2 j = node ?d j" if "j < ?n" for j
  proof -
    have "node d2 j = node d1 j" using P that A(1) by simp
    also have "\<dots> = node ?d j" using n1 that by (metis nth_append)
    finally show ?thesis .
  qed
  have new: "n_stage (node d2 i) = Some s" using P A(4) by simp
  have d': "p_dag p' = d2" using a(3) by (simp add: set_dag_def)
  have keep: "keeps ?d (p_dag p')" using P l1 old by (simp add: keeps_def d')
  have len: "length (nodes d2) = Suc ?n" using P l1 by simp
  have st: "map n_stage (nodes d2) = map n_stage (nodes ?d) @ [Some s]"
  proof (rule nth_equalityI)
    fix j assume "j < length (map n_stage (nodes d2))"
    then have "j < ?n \<or> j = ?n" using len by auto
    then show "map n_stage (nodes d2) ! j = (map n_stage (nodes ?d) @ [Some s]) ! j"
      using old new A(1) len by (auto simp: nth_append)
  qed (use len in simp)
  have s2n: "p_stage_to_node p \<subseteq>\<^sub>m p_stage_to_node p'"
  proof -
    have "p_stage_to_node p s = None" using pipe_wfD(6) [OF assms(1), of s] assms(2) by (metis not_None_eq nth_mem)
    then show ?thesis using a(3) by (auto simp: map_le_def)
  qed
  have nd: "p_stage_to_node p t = Some k \<Longrightarrow> k < ?n" for t k using pipe_wf_node(1) [OF assms(1)] .
  show ?thesis unfolding pipe_wf_def list_all_iff
  proof (intro conjI allI)
    show "\<forall>c\<in>set (p_connections p'). connection_ok p' c"
      using connection_ok_mono [OF pipe_wfD(7) [OF assms(1)] keep s2n nd] a(3) by simp
    show "\<forall>(j, b)\<in>set (p_explicit_external_bindings p'). j < length (nodes (p_dag p')) \<and> b \<in> set (input_buffer_ids (node (p_dag p') j))"
      using pipe_wfD(8) [OF assms(1)] keepsD(1,3) [OF keep] a(3) by fastforce
    show "p_stage_to_node p' t = Some k \<longleftrightarrow> k < length (p_stages p') \<and> p_stages p' ! k = t" for t k
      using pipe_wfD(6) [OF assms(1), of t k] pipe_wf_stages [OF assms(1)] assms(2) A(1) a(3)
      by (auto simp: nth_append less_Suc_eq)
  qed (use a(3) d' P st pipe_wfD(1,4,5) [OF assms(1)] assms(2) in simp_all)
qed

lemma connect_wf:
  assumes "pipe_wf p" "connect api c q oname p = Inr (b, p')"
  shows "pipe_wf p'"
proof -
  let ?d = "p_dag p" and ?oi = "getOutputIndex api q oname"
  obtain dep prd where n: "p_stage_to_node p c = Some dep" "p_stage_to_node p q = Some prd" and oi: "0 \<le> ?oi"
    using assms(2) by (auto simp: connect_def Let_def split: if_splits option.splits)
  obtain ok d1 d2 where e: "connectExistingOutput (Some prd) (Some dep) ?oi ?d = Inr (ok, d1)"
    "(if ok then Inr d1 else (case addDependency (Some dep) (Some prd) 1 ?oi d1 of (_, Inl e) \<Rightarrow> Inl e | (d', Inr _) \<Rightarrow> Inr d')) = Inr d2"
    "p' = set_dag d2 (p\<lparr>p_connections := p_connections p @ [\<lparr>ci_dependent = c, ci_producer = q, ci_output_name = oname, ci_output_index = ?oi\<rparr>]\<rparr>)"
    using assms(2) n oi by (auto simp: connect_def Let_def res_bind_eq_Inr split: if_splits)
  have i: "dep < length (nodes ?d)" "prd < length (nodes ?d)" using pipe_wf_node(1) [OF assms(1)] n by simp_all
  note E = connectExistingOutput_keeps [OF e(1) i]
  have wf1: "dag_wf d1" using connectExistingOutput_wf [OF pipe_wfD(3) [OF assms(1)] i(2,1) e(1)] .
  have "dag_wf d2 \<and> \<not> is_finalized d2 \<and> keeps ?d d2 \<and> length (nodes d2) = length (nodes ?d) \<and>
    (\<exists>b. map_of (output_index_to_buffer_id (node d2 prd)) ?oi = Some b \<and> b \<in> set (input_buffer_ids (node d2 dep)))"
  proof (cases ok)
    case True
    then obtain b where b: "map_of (output_index_to_buffer_id (node ?d prd)) ?oi = Some b" using E(4) by auto
    have "map_of (output_index_to_buffer_id (node d1 prd)) ?oi = Some b" using keepsD(5) [OF E(1) i(2) b] .
    with wf1 E(1-3) E(6) [OF b] e(2) True show ?thesis by auto
  next
    case False
    then obtain b where ad: "addDependency (Some dep) (Some prd) 1 ?oi ?d = (d2, Inr b)"
      using e(2) E(5) by (auto split: prod.splits sum.splits)
    have "map_of (output_index_to_buffer_id (node ?d prd)) ?oi = None" using E(4) False by simp
    note D = addDependency_keeps [OF ad i this]
    have "dag_wf d2" using addDependency_wf [OF pipe_wfD(3) [OF assms(1)] i, of 1 ?oi] ad by simp
    with D show ?thesis by blast
  qed
  then show ?thesis
    by (intro pipe_wf_step [OF assms(1)])
      (use e(3) n oi in \<open>auto simp: connection_ok_def list_all_iff\<close>)
qed

lemma bindExternalInput_wf:
  assumes "pipe_wf p" "bindExternalInput api s p = Inr p'"
  shows "pipe_wf p'"
proof -
  obtain i d where i: "p_stage_to_node p s = Some i" "setInputBuffer i 1 (''pipeline_input_ext_'' @ getName api s) (p_dag p) = Inr d"
    "p' = (set_dag d p)\<lparr>p_explicit_external_bindings := p_explicit_external_bindings p @ [(i, last (input_buffer_ids (node d i)))]\<rparr>"
    using assms(2) by (auto simp: bindExternalInput_def res_bind_eq_Inr split: if_splits option.splits)
  note l = pipe_wf_node(1) [OF assms(1) i(1)]
  note K = setInputBuffer_keeps [OF i(2) l]
  have "dag_wf d" using setInputBuffer_wf [OF pipe_wfD(3) [OF assms(1)] l i(2)] .
  moreover have "last (input_buffer_ids (node d i)) \<in> set (input_buffer_ids (node d i))" using K(4) by simp
  ultimately show ?thesis
    by (intro pipe_wf_step [OF assms(1)]) (use K i(3) l in \<open>auto simp: list_all_iff\<close>)
qed

lemma wf_inputs_agree:
  assumes "wf_inputs d" "length (nodes d') = length (nodes d)" "buf d' = buf d"
    "\<And>i. i < length (nodes d) \<Longrightarrow> dependencies (node d' i) = dependencies (node d i) \<and> input_buffer_ids (node d' i) = input_buffer_ids (node d i)"
  shows "wf_inputs d'"
  unfolding wf_inputs_def assms(2,3)
proof (intro conjI allI impI ballI)
  note D = wf_inputsD [OF assms(1)]
  fix b c assume c: "c \<in> set (consumer_stage_ids (buf d b))"
  show "c < length (nodes d)" by (rule D(1) [OF c])
  with assms(4) D(3) [OF c] show "producer_stage_id (buf d b) = - 1 \<and> is_external (buf d b) \<or>
      0 \<le> producer_stage_id (buf d b) \<and> nat (producer_stage_id (buf d b)) \<in> set (dependencies (node d' c))" by simp
qed (use assms(4) wf_inputsD(2) [OF assms(1)] in simp)

lemma dag_enableProfiling_wf:
  assumes "dag_wf d"
  shows "dag_wf (dag_enableProfiling b d)"
proof -
  let ?d = "dag_enableProfiling b d"
  have same: "buffers ?d = buffers d" "buf ?d = buf d" "next_buffer_id ?d = next_buffer_id d" "buffer_table ?d = buffer_table d"
    "length (nodes ?d) = length (nodes d)"
    by (simp_all add: dag_enableProfiling_def buffers_def buf_def fun_eq_iff)
  have nd: "node ?d i = (node d i)\<lparr>has_start_event := b\<rparr>" if "i < length (nodes d)" for i
    using that by (simp add: dag_enableProfiling_def)
  have "wf_links ?d = wf_links d" "wf_outputs ?d = wf_outputs d" "wf_dom ?d = wf_dom d"
    using nd same by (simp_all add: wf_links_def wf_outputs_def wf_dom_def)
  moreover have "wf_inputs ?d"
    by (rule wf_inputs_agree [of d]) (use assms nd same in \<open>simp_all add: dag_wf_def\<close>)
  ultimately show ?thesis using assms by (simp add: dag_wf_def)
qed

lemma enableProfiling_wf:
  assumes "pipe_wf p"
  shows "pipe_wf (enableProfiling b p)"
proof -
  let ?d = "dag_enableProfiling b (p_dag p)"
  have "dag_wf ?d" using pipe_wfD(3) [OF assms] by (simp add: dag_enableProfiling_wf)
  moreover have "keeps (p_dag p) ?d" "length (nodes ?d) = length (nodes (p_dag p))" "is_finalized ?d = is_finalized (p_dag p)"
    by (simp_all add: keeps_def dag_enableProfiling_def)
  ultimately show ?thesis
    by (intro pipe_wf_step [OF assms]) (use pipe_wfD(2) [OF assms] in \<open>auto simp: enableProfiling_def set_dag_def list_all_iff\<close>)
qed

lemma setMemoryStrategy_wf:
  assumes "pipe_wf p" "p_stages p = []" "setMemoryStrategy st p = Inr p'"
  shows "pipe_wf p'"
proof -
  have none: "p_stage_to_node p = Map.empty" using pipe_wfD(6) [OF assms(1)] assms(2) by (intro ext) (metis less_nat_zero_code list.size(3) not_None_eq)
  have empty: "p_connections p = []" "p_explicit_external_bindings p = []"
  proof -
    show "p_connections p = []"
      using pipe_wfD(7) [OF assms(1)] none unfolding connection_ok_def by (metis list.set_intros(1) neq_Nil_conv option.distinct(1))
    have "nodes (p_dag p) = []" using pipe_wf_stages [OF assms(1)] assms(2) by simp
    then show "p_explicit_external_bindings p = []"
      using pipe_wfD(8) [OF assms(1)] by (cases "p_explicit_external_bindings p") (fastforce+)
  qed
  have "dag_wf (setColoringEnabled c (dag_enableProfiling b (new_dag st)))" for c b
  proof -
    have "dag_wf (setColoringEnabled c d) = dag_wf d" for d
      by (simp add: setColoringEnabled_def dag_wf_defs buf_def buffers_def)
    then show ?thesis by (simp add: dag_enableProfiling_wf new_dag_wf)
  qed
  then show ?thesis using assms(3) pipe_wfD(1) [OF assms(1)] assms(2) none empty
    by (auto simp: setMemoryStrategy_def pipe_wf_def set_dag_def setColoringEnabled_def dag_enableProfiling_def new_dag_def
        split: if_splits)
qed

lemma pipe_exec_wf:
  assumes "pipe_wf p"
  shows "pipe_wf (pipe_exec api op p)"
proof (cases op)
  case (PAddStage ev s)
  with assms addRawStage_wf [OF assms] show ?thesis by (auto simp: p_ok_def split: sum.splits)
next
  case (PConnect c q oname)
  with assms connect_wf [OF assms] show ?thesis by (auto simp: p_ok_def map_sum_Inr split: sum.splits)
next
  case (PBindExternalInput s)
  with assms bindExternalInput_wf [OF assms] show ?thesis by (auto simp: p_ok_def split: sum.splits)
next
  case (PSetMemoryStrategy st)
  with assms setMemoryStrategy_wf [OF assms] show ?thesis by (auto simp: p_ok_def split: sum.splits)
next
  case (PSetNumStreams n)
  with assms show ?thesis by (auto simp: p_ok_def setNumStreams_def pipe_wf_def connection_ok_def list_all_iff)
next
  case (PEnableProfiling b)
  with enableProfiling_wf [OF assms] show ?thesis by simp
next
  case (PEnableGraphMode b)
  with assms show ?thesis by (auto simp: p_ok_def enableGraphMode_def pipe_wf_def connection_ok_def list_all_iff)
qed

lemma build_pipe_wf: "pipe_wf p \<Longrightarrow> pipe_wf (build_pipe api ops p)"
  unfolding build_pipe_def by (induction ops arbitrary: p) (simp_all add: pipe_exec_wf)

subsection \<open>Type checking\<close>

definition connection_typed :: "stage_api \<Rightarrow> pipeline \<Rightarrow> connection_info \<Rightarrow> bool" where
  "connection_typed api p c =
     (let b = the (map_of (output_index_to_buffer_id (node (p_dag p) (the (p_stage_to_node p (ci_producer c))))) (ci_output_index c));
          port = position b (input_buffer_ids (node (p_dag p) (the (p_stage_to_node p (ci_dependent c)))));
          pt = getOutputDataType api (ci_producer c) (nat (ci_output_index c)); ct = getInputDataType api (ci_dependent c) port
      in pt = DT_UNKNOWN \<or> ct = DT_UNKNOWN \<or> pt = ct \<or>
         \<not> is_float pt \<and> \<not> is_float ct \<and> pt < 10 \<and> ct < 10 \<and> getDataTypeSize pt = getDataTypeSize ct)"

lemma position_mem: "x \<in> set xs \<Longrightarrow> position x xs < length xs"
  unfolding position_def by (metis (mono_tags, lifting) length_takeWhile_le order_le_less takeWhile_eq_all_conv takeWhile_eq_take take_all_iff le_refl)

lemma data_type_known: "getDataTypeSize t = (if t < 10 then Inr (the (map_of [(0, 1), (4, 1), (1, 2), (5, 2), (2, 4), (6, 4), (8, 4), (3, 8), (7, 8), (9, 8)] t))
   else Inl (RuntimeError ''Unknown data type''))"
proof -
  have "t < 10 \<longleftrightarrow> t = 0 \<or> t = 1 \<or> t = 2 \<or> t = 3 \<or> t = 4 \<or> t = 5 \<or> t = 6 \<or> t = 7 \<or> t = 8 \<or> t = 9"
  proof
    assume "t < 10"
    then have "unat t < 10" by (simp add: word_less_nat_alt)
    then have "unat t \<in> {0,1,2,3,4,5,6,7,8,9}" by auto
    then have "word_of_nat (unat t) \<in> (word_of_nat ` {0,1,2,3,4,5,6,7,8,9} :: u8 set)" by (rule imageI)
    then show "t = 0 \<or> t = 1 \<or> t = 2 \<or> t = 3 \<or> t = 4 \<or> t = 5 \<or> t = 6 \<or> t = 7 \<or> t = 8 \<or> t = 9" by auto
  qed auto
  then show ?thesis by (auto simp: getDataTypeSize_def)
qed

lemma check_connection_typed:
  assumes "connection_ok p c"
  shows "check_connection api p c = Inr () \<longleftrightarrow> connection_typed api p c"
    "check_connection api p c \<in> {Inr (), Inl (RuntimeError ''Type mismatch: ''), Inl (RuntimeError ''Unknown data type'')}"
proof -
  obtain dep prd b where c: "p_stage_to_node p (ci_dependent c) = Some dep" "p_stage_to_node p (ci_producer c) = Some prd"
    "map_of (output_index_to_buffer_id (node (p_dag p) prd)) (ci_output_index c) = Some b"
    "b \<in> set (input_buffer_ids (node (p_dag p) dep))"
    using assms unfolding connection_ok_def by blast
  let ?pt = "getOutputDataType api (ci_producer c) (nat (ci_output_index c))"
  let ?ct = "getInputDataType api (ci_dependent c) (position b (input_buffer_ids (node (p_dag p) dep)))"
  have cc: "check_connection api p c = (if ?pt = DT_UNKNOWN \<or> ?ct = DT_UNKNOWN then Inr ()
      else res_bind (typesCompatible ?pt ?ct) (\<lambda>ok. if ok then Inr () else Inl (RuntimeError ''Type mismatch: '')))"
    using c position_mem [OF c(4)] by (simp add: check_connection_def Let_def)
  show "check_connection api p c = Inr () \<longleftrightarrow> connection_typed api p c"
    unfolding cc using c by (auto simp: connection_typed_def typesCompatible_def data_type_known Let_def res_bind_def)
  show "check_connection api p c \<in> {Inr (), Inl (RuntimeError ''Type mismatch: ''), Inl (RuntimeError ''Unknown data type'')}"
    unfolding cc by (auto simp: typesCompatible_def data_type_known)
qed

lemma check_fold:
  "res_fold (\<lambda>c _. check_connection api p c) cs () = Inr () \<longleftrightarrow> (\<forall>c\<in>set cs. check_connection api p c = Inr ())"
  "res_fold (\<lambda>c _. check_connection api p c) cs () \<in> insert (Inr ()) ((\<lambda>c. check_connection api p c) ` set cs)"
  by (induction cs) (auto simp: res_bind_def split: sum.splits)

text \<open>
  C17. For every history of builder calls, \<open>typeCheckConnections\<close> accepts the pipeline exactly when every connection
  is typed: one side declares no type, the types are equal, or both are integer types of one width;
  the internal errors it guards against (a missing node, port or input buffer) cannot occur.
\<close>

theorem typecheck_exact:
  "(typeCheckConnections api (build_pipe api ops (new_pipeline hint st pl m)) = Inr () \<longleftrightarrow>
      list_all (connection_typed api (build_pipe api ops (new_pipeline hint st pl m)))
        (p_connections (build_pipe api ops (new_pipeline hint st pl m)))) \<and>
    typeCheckConnections api (build_pipe api ops (new_pipeline hint st pl m))
      \<in> {Inr (), Inl (RuntimeError ''Type mismatch: ''), Inl (RuntimeError ''Unknown data type'')}"
proof -
  define p where "p = build_pipe api ops (new_pipeline hint st pl m)"
  have "pipe_wf p" using build_pipe_wf [OF new_pipeline_wf] by (simp add: p_def)
  note ok = check_connection_typed [OF pipe_wfD(7) [OF this]]
  have "typeCheckConnections api p = Inr () \<longleftrightarrow> list_all (connection_typed api p) (p_connections p)"
    using ok(1) check_fold(1) [of api p "p_connections p"] unfolding typeCheckConnections_def list_all_iff by simp
  moreover have "typeCheckConnections api p \<in> {Inr (), Inl (RuntimeError ''Type mismatch: ''), Inl (RuntimeError ''Unknown data type'')}"
    using check_fold(2) [of api p "p_connections p"] ok(2) unfolding typeCheckConnections_def by (elim insertE imageE) (simp, metis)
  ultimately show ?thesis unfolding p_def by blast
qed

end
