(* ===== verification/Pipeline_Final.thy ===== *)
theory Pipeline_Final
  imports Pipeline_Build
begin

section \<open>What finalize accepts and what it leaves\<close>

text \<open>
  The steps of \<open>Pipeline::finalize\<close> on a pipeline that the builder calls made: which graphs are accepted,
  which buffers become pipeline outputs, and the input alignment.
\<close>

subsection \<open>Output ports stay as they were added\<close>

text \<open>A stage names no more outputs than it has.\<close>

definition names_ok :: "stage_api \<Rightarrow> bool" where
  "names_ok api \<longleftrightarrow> (\<forall>s. length (getOutputNames api s) \<le> getNumOutputs api s)"

definition stage_ports_ok :: "stage_api \<Rightarrow> dag \<Rightarrow> bool" where
  "stage_ports_ok api d \<longleftrightarrow>
     (\<forall>i<length (nodes d). \<exists>b. output_index_to_buffer_id (node d i) = out_ports b (getNumOutputs api (stage_of d i)) \<and>
        output_buffer_ids (node d i) = out_ids b (getNumOutputs api (stage_of d i)))"

definition same_outputs :: "dag \<Rightarrow> dag \<Rightarrow> bool" where
  "same_outputs d d' \<longleftrightarrow> length (nodes d') = length (nodes d) \<and>
     (\<forall>i<length (nodes d). n_stage (node d' i) = n_stage (node d i) \<and> output_buffer_ids (node d' i) = output_buffer_ids (node d i) \<and>
        output_index_to_buffer_id (node d' i) = output_index_to_buffer_id (node d i))"

lemma same_outputs_refl [simp]: "same_outputs d d"
  by (simp add: same_outputs_def)

lemma same_outputs_trans: "same_outputs a b \<Longrightarrow> same_outputs b c \<Longrightarrow> same_outputs a c"
  by (simp add: same_outputs_def)

lemma ports_ok_same: "stage_ports_ok api d \<Longrightarrow> same_outputs d d' \<Longrightarrow> stage_ports_ok api d'"
  by (simp add: stage_ports_ok_def same_outputs_def stage_of_def)

lemma same_outputs_upd_node:
  assumes "\<And>n. n_stage (f n) = n_stage n" "\<And>n. output_buffer_ids (f n) = output_buffer_ids n"
    "\<And>n. output_index_to_buffer_id (f n) = output_index_to_buffer_id n"
  shows "same_outputs d (upd_node i f d)"
proof -
  have "node (upd_node i f d) k = (if k = i then f (node d i) else node d k)" if "k < length (nodes d)" for k
    using that by (cases "k = i") (simp_all add: upd_node_def)
  with assms show ?thesis by (simp add: same_outputs_def)
qed

lemma same_outputs_nodes: "nodes d' = nodes d \<Longrightarrow> same_outputs d d'"
  by (simp add: same_outputs_def)

lemma same_outputs_link: "same_outputs d (link c p d)"
  unfolding link_def by (rule same_outputs_trans [OF same_outputs_upd_node same_outputs_upd_node]) simp_all

lemma same_outputs_push_input: "same_outputs d (push_input c b d)"
  unfolding push_input_def by (rule same_outputs_trans [OF same_outputs_nodes same_outputs_upd_node]) simp_all

lemma setInputBuffer_outputs: "setInputBuffer i sz tag d = Inr d' \<Longrightarrow> same_outputs d d'"
proof -
  assume a: "setInputBuffer i sz tag d = Inr d'"
  obtain b d1 where f: "fresh_buffer d = (b, d1)" by fastforce
  have "d' = push_input i b (describe b sz tag True True d1)" using a by (auto simp: setInputBuffer_def f split: if_splits)
  moreover have "nodes (describe b sz tag True True d1) = nodes d" using fresh_buffer_simps [of d] f by simp
  ultimately show ?thesis using same_outputs_trans [OF same_outputs_nodes same_outputs_push_input] by blast
qed

lemma connectExistingOutput_outputs:
  assumes "connectExistingOutput (Some p) (Some c) k d = Inr (ok, d')"
  shows "same_outputs d d'"
proof (cases "map_of (output_index_to_buffer_id (node d p)) k")
  case (Some b)
  then have "d' = upd_buf b (\<lambda>x. x\<lparr>b_tag := edge_tag d p c, is_persistent := False\<rparr>) (push_input c b (link c p d))"
    using assms by (simp add: connectExistingOutput_def split: if_splits)
  then show ?thesis
    using same_outputs_trans [OF same_outputs_link same_outputs_trans [OF same_outputs_push_input same_outputs_nodes]] by simp
qed (use assms in \<open>simp add: connectExistingOutput_def split: if_splits\<close>)

lemma addRawStage_ports:
  assumes "pipe_wf p" "stage_ports_ok api (p_dag p)" "addRawStage api ev s p = Inr p'"
  shows "stage_ports_ok api (p_dag p')"
proof -
  let ?d = "p_dag p"
  obtain i d1 d2 where a: "addStage (fst ev) (snd ev) (Some s) (getName api s) ?d = Inr (i, d1)"
    "add_outputs api s i 1 ''_unconnected'' d1 = Inr d2" "p_dag p' = d2"
    using assms(3) by (auto simp: addRawStage_def res_bind_eq_Inr set_dag_def split: if_splits)
  note A = addStage_cases [OF a(1)]
  have wf1: "dag_wf d1" using addStage_wf(1) [OF pipe_wfD(3) [OF assms(1)] a(1)] .
  have l1: "length (nodes d1) = Suc (length (nodes ?d))" using arg_cong [OF A(3), of length] by simp
  have i1: "i < length (nodes d1)" using A(1) l1 by simp
  obtain d3 where "add_outputs api s i 1 ''_unconnected'' d1 = Inr d3" and P: "ports_added i 1 (getNumOutputs api s) d1 d3"
    using add_outputs_spec [OF wf1 A(2) i1 A(5,6)] by blast
  then have "d3 = d2" using a(2) by simp
  note P = P [unfolded this ports_added_def]
  show ?thesis unfolding stage_ports_ok_def a(3)
  proof (intro allI impI)
    fix j assume "j < length (nodes d2)"
    then consider "j < length (nodes ?d)" | "j = i" using P l1 A(1) by fastforce
    then show "\<exists>b. output_index_to_buffer_id (node d2 j) = out_ports b (getNumOutputs api (stage_of d2 j)) \<and>
        output_buffer_ids (node d2 j) = out_ids b (getNumOutputs api (stage_of d2 j))"
    proof cases
      case 1
      then have "node d2 j = node d1 j" using P A(1) by simp
      also have "\<dots> = node ?d j" using A(3) 1 by (metis nth_append)
      finally have "node d2 j = node ?d j" .
      with assms(2) 1 show ?thesis by (simp add: stage_ports_ok_def stage_of_def)
    next
      case 2
      with P A(4) show ?thesis by (auto simp: stage_of_def)
    qed
  qed
qed

lemma connect_ports:
  assumes "pipe_wf p" "stage_ports_ok api (p_dag p)" "names_ok api" "connect api c q oname p = Inr (b, p')"
  shows "stage_ports_ok api (p_dag p')"
proof -
  let ?d = "p_dag p" and ?oi = "getOutputIndex api q oname"
  obtain dep prd where n: "p_stage_to_node p c = Some dep" "p_stage_to_node p q = Some prd" and oi: "0 \<le> ?oi"
    using assms(4) by (auto simp: connect_def Let_def split: if_splits option.splits)
  obtain ok d1 d2 where e: "connectExistingOutput (Some prd) (Some dep) ?oi ?d = Inr (ok, d1)"
    "(if ok then Inr d1 else (case addDependency (Some dep) (Some prd) 1 ?oi d1 of (_, Inl e) \<Rightarrow> Inl e | (d', Inr _) \<Rightarrow> Inr d')) = Inr d2"
    "p' = set_dag d2 (p\<lparr>p_connections := p_connections p @ [\<lparr>ci_dependent = c, ci_producer = q, ci_output_name = oname, ci_output_index = ?oi\<rparr>]\<rparr>)"
    using assms(4) n oi by (auto simp: connect_def Let_def res_bind_eq_Inr split: if_splits)
  note i = pipe_wf_node [OF assms(1) n(2)] pipe_wf_node(1) [OF assms(1) n(1)]
  have "?oi < int (getNumOutputs api q)"
    using oi assms(3) unfolding names_ok_def getOutputIndex_def Let_def
    by (auto split: if_splits) (meson less_le_trans)
  then have "map_of (output_index_to_buffer_id (node ?d prd)) ?oi \<noteq> None"
    using assms(2) i oi by (auto simp: stage_ports_ok_def stage_of_def map_of_out_ports)
  then have "ok" using connectExistingOutput_keeps(4) [OF e(1) i(3,1)] by simp
  then have "d2 = d1" using e(2) by simp
  with connectExistingOutput_outputs [OF e(1)] ports_ok_same [OF assms(2)] e(3) show ?thesis by simp
qed

lemma pipe_exec_ports:
  assumes "pipe_wf p" "stage_ports_ok api (p_dag p)" "names_ok api"
  shows "stage_ports_ok api (p_dag (pipe_exec api op p))"
proof (cases op)
  case (PAddStage ev s)
  with assms addRawStage_ports [OF assms(1,2)] show ?thesis by (auto simp: p_ok_def split: sum.splits)
next
  case (PConnect c q oname)
  with assms connect_ports [OF assms] show ?thesis by (auto simp: p_ok_def map_sum_Inr split: sum.splits)
next
  case (PBindExternalInput s)
  have "stage_ports_ok api (p_dag p')" if "bindExternalInput api s p = Inr p'" for p'
    using that ports_ok_same [OF assms(2) setInputBuffer_outputs]
    by (auto simp: bindExternalInput_def res_bind_eq_Inr set_dag_def split: if_splits option.splits)
  with PBindExternalInput assms show ?thesis by (auto simp: p_ok_def split: sum.splits)
next
  case (PSetMemoryStrategy st)
  with assms show ?thesis
    by (auto simp: p_ok_def setMemoryStrategy_def stage_ports_ok_def set_dag_def setColoringEnabled_def dag_enableProfiling_def new_dag_def)
next
  case (PEnableProfiling b)
  have "same_outputs (p_dag p) (dag_enableProfiling b (p_dag p))" by (simp add: same_outputs_def dag_enableProfiling_def)
  with PEnableProfiling ports_ok_same [OF assms(2)] show ?thesis by (simp add: enableProfiling_def)
qed (use assms in \<open>simp_all add: p_ok_def setNumStreams_def enableGraphMode_def\<close>)

lemma build_pipe_ports:
  "pipe_wf p \<Longrightarrow> stage_ports_ok api (p_dag p) \<Longrightarrow> names_ok api \<Longrightarrow> stage_ports_ok api (p_dag (build_pipe api ops p))"
  unfolding build_pipe_def by (induction ops arbitrary: p) (simp_all add: pipe_exec_wf pipe_exec_ports)

lemma new_pipeline_ports: "stage_ports_ok api (p_dag (new_pipeline hint st pl m))"
  by (simp add: stage_ports_ok_def new_pipeline_def new_dag_def)

subsection \<open>Source inputs\<close>

text \<open>A step that only appends external inputs to nodes.\<close>

definition inputs_only :: "dag \<Rightarrow> dag \<Rightarrow> bool" where
  "inputs_only d d' \<longleftrightarrow> dag_wf d' \<and> \<not> is_finalized d' \<and> length (nodes d') = length (nodes d) \<and> streams d' = streams d \<and>
     (\<forall>i<length (nodes d). \<exists>xs. node d' i = (node d i)\<lparr>input_buffer_ids := xs\<rparr>) \<and>
     next_buffer_id d \<le> next_buffer_id d' \<and> (\<forall>b. b < next_buffer_id d \<longrightarrow> buf d' b = buf d b)"

lemma inputs_self: "\<exists>xs. (n :: dag_node) = n\<lparr>input_buffer_ids := xs\<rparr>"
  by (rule exI [of _ "input_buffer_ids n"]) simp

lemma inputs_only_refl: "dag_wf d \<Longrightarrow> \<not> is_finalized d \<Longrightarrow> inputs_only d d"
  by (simp add: inputs_only_def inputs_self)

lemma inputs_only_trans:
  assumes "inputs_only a b" "inputs_only b c"
  shows "inputs_only a c"
proof -
  have "\<exists>xs. node c i = (node a i)\<lparr>input_buffer_ids := xs\<rparr>" if i: "i < length (nodes a)" for i
  proof -
    obtain xs where "node b i = (node a i)\<lparr>input_buffer_ids := xs\<rparr>" using assms(1) i unfolding inputs_only_def by blast
    moreover obtain ys where "node c i = (node b i)\<lparr>input_buffer_ids := ys\<rparr>"
      using assms i unfolding inputs_only_def by metis
    ultimately show ?thesis by auto
  qed
  with assms show ?thesis by (simp add: inputs_only_def)
qed

lemma inputs_onlyD:
  assumes "inputs_only d d'" "i < length (nodes d)"
  shows "dependencies (node d' i) = dependencies (node d i)" "dependents (node d' i) = dependents (node d i)"
    "n_stage (node d' i) = n_stage (node d i)" "output_buffer_ids (node d' i) = output_buffer_ids (node d i)"
    "output_index_to_buffer_id (node d' i) = output_index_to_buffer_id (node d i)"
proof -
  obtain xs where "node d' i = (node d i)\<lparr>input_buffer_ids := xs\<rparr>" using assms unfolding inputs_only_def by blast
  then show "dependencies (node d' i) = dependencies (node d i)" "dependents (node d' i) = dependents (node d i)"
    "n_stage (node d' i) = n_stage (node d i)" "output_buffer_ids (node d' i) = output_buffer_ids (node d i)"
    "output_index_to_buffer_id (node d' i) = output_index_to_buffer_id (node d i)"
    by simp_all
qed

lemma streams_simps [simp]:
  "streams (upd_buf b f d) = streams d" "streams (upd_node i g d) = streams d" "streams (push_input c b d) = streams d"
  "streams (describe b sz tag ps ex d) = streams d" "streams (snd (fresh_buffer d)) = streams d"
  by (simp_all add: upd_buf_def upd_node_def push_input_def describe_def fresh_buffer_def Let_def)

lemma setInputBuffer_inputs_only:
  assumes "dag_wf d" "\<not> is_finalized d" "i < length (nodes d)"
  obtains d' where "setInputBuffer i sz tag d = Inr d'" "inputs_only d d'"
proof -
  obtain b d1 where f: "fresh_buffer d = (b, d1)" by fastforce
  have n: "nodes d1 = nodes d" "streams d1 = streams d" using fresh_buffer_simps [of d] streams_simps(5) [of d] f by simp_all
  have b: "b = next_buffer_id d" "next_buffer_id d1 = b + 1" "buf d1 = buf d"
    using f by (auto simp: fresh_buffer_def Let_def)
  let ?d = "push_input i b (describe b sz tag True True d1)"
  have ok: "setInputBuffer i sz tag d = Inr ?d" using assms(2) f by (simp add: setInputBuffer_def)
  have "\<exists>xs. node ?d k = (node d k)\<lparr>input_buffer_ids := xs\<rparr>" if "k < length (nodes d)" for k
  proof (cases "k = i")
    case False
    then show ?thesis using n assms(3) inputs_self by (simp add: push_input_def)
  qed (use n assms(3) in \<open>auto simp: push_input_def\<close>)
  moreover have "buf ?d c = buf d c" if "c < next_buffer_id d" for c using that b by (simp add: push_input_def describe_def)
  ultimately have "inputs_only d ?d"
    using setInputBuffer_wf [OF assms(1,3) ok] setInputBuffer_keeps(2) [OF ok assms(3)] n b by (simp add: inputs_only_def)
  with ok show ?thesis by (rule that)
qed

text \<open>The fields \<open>setupInputBuffers\<close> may change.\<close>

definition sources_bound :: "pipeline \<Rightarrow> pipeline \<Rightarrow> bool" where
  "sources_bound p p' \<longleftrightarrow> inputs_only (p_dag p) (p_dag p') \<and>
     (\<exists>d ns bs. p' = (set_dag d p)\<lparr>p_input_nodes := ns, p_input_buffer_ids := bs\<rparr>)"

lemma sources_bound_trans:
  assumes "sources_bound a b" "sources_bound b c"
  shows "sources_bound a c"
proof -
  obtain d ns bs where "b = (set_dag d a)\<lparr>p_input_nodes := ns, p_input_buffer_ids := bs\<rparr>" using assms(1) by (auto simp: sources_bound_def)
  moreover obtain d' ns' bs' where "c = (set_dag d' b)\<lparr>p_input_nodes := ns', p_input_buffer_ids := bs'\<rparr>"
    using assms(2) by (auto simp: sources_bound_def)
  ultimately have "c = (set_dag d' a)\<lparr>p_input_nodes := ns', p_input_buffer_ids := bs'\<rparr>" by (simp add: set_dag_def)
  then have "\<exists>d ns bs. c = (set_dag d a)\<lparr>p_input_nodes := ns, p_input_buffer_ids := bs\<rparr>" by blast
  with inputs_only_trans assms show ?thesis unfolding sources_bound_def by blast
qed

lemma sources_bound_refl:
  assumes "dag_wf (p_dag p)" "\<not> is_finalized (p_dag p)"
  shows "sources_bound p (p\<lparr>p_input_nodes := ns, p_input_buffer_ids := bs\<rparr>)"
proof -
  have "p\<lparr>p_input_nodes := ns, p_input_buffer_ids := bs\<rparr> = (set_dag (p_dag p) p)\<lparr>p_input_nodes := ns, p_input_buffer_ids := bs\<rparr>"
    by (simp add: set_dag_def)
  with inputs_only_refl [OF assms] show ?thesis unfolding sources_bound_def by auto
qed

lemma sources_boundD:
  assumes "sources_bound p p'"
  shows "p_stage_to_node p' = p_stage_to_node p" "p_explicit_external_bindings p' = p_explicit_external_bindings p"
    "p_output_nodes p' = p_output_nodes p" "p_output_buffer_ids p' = p_output_buffer_ids p" "p_needs_concat p' = p_needs_concat p"
    "p_num_streams p' = p_num_streams p" "inputs_only (p_dag p) (p_dag p')" "p_stages p' = p_stages p"
  using assms unfolding sources_bound_def by (auto simp: set_dag_def)

lemma bind_source_ok:
  assumes "dag_wf (p_dag p)" "\<not> is_finalized (p_dag p)" "p_stage_to_node p (snd src) = Some i" "i < length (nodes (p_dag p))"
  obtains p' where "bind_source api single src p = Inr p'" "sources_bound p p'"
proof (cases "i \<in> fst ` set (p_explicit_external_bindings p)")
  case True
  then have "bind_source api single src p = Inr p" using assms(3) by (simp add: bind_source_def)
  moreover have "sources_bound p p"
    using sources_bound_refl [OF assms(1,2), where ns = "p_input_nodes p" and bs = "p_input_buffer_ids p"] by simp
  ultimately show ?thesis by (rule that)
next
  case False
  let ?tag = "if single then ''pipeline_input'' else ''pipeline_input_'' @ to_string (fst src) @ ''_'' @ getName api (snd src)"
  obtain d' where d': "setInputBuffer i 1 ?tag (p_dag p) = Inr d'" "inputs_only (p_dag p) d'"
    using setInputBuffer_inputs_only [OF assms(1,2,4)] .
  let ?p = "(set_dag d' p)\<lparr>p_input_nodes := p_input_nodes p @ [i],
                    p_input_buffer_ids := p_input_buffer_ids p @ [last (input_buffer_ids (node d' i))]\<rparr>"
  have "bind_source api single src p = Inr ?p" using False assms(3) d'(1) by (simp add: bind_source_def Let_def)
  moreover have "sources_bound p ?p" using d'(2) unfolding sources_bound_def by (auto simp: set_dag_def)
  ultimately show ?thesis by (rule that)
qed

lemma bind_sources_ok:
  assumes "dag_wf (p_dag p)" "\<not> is_finalized (p_dag p)"
    "\<And>src. src \<in> set srcs \<Longrightarrow> \<exists>i<length (nodes (p_dag p)). p_stage_to_node p (snd src) = Some i"
  shows "\<exists>p'. res_fold (bind_source api single) srcs p = Inr p' \<and> sources_bound p p'"
  using assms
proof (induction srcs arbitrary: p)
  case Nil
  have "sources_bound p p"
    using sources_bound_refl [OF Nil(1,2), where ns = "p_input_nodes p" and bs = "p_input_buffer_ids p"] by simp
  then show ?case by simp
next
  case (Cons src srcs)
  obtain i where i: "i < length (nodes (p_dag p))" "p_stage_to_node p (snd src) = Some i" using Cons.prems(3) [of src] by auto
  obtain p1 where p1: "bind_source api single src p = Inr p1" "sources_bound p p1"
    using bind_source_ok [OF Cons.prems(1,2) i(2,1)] .
  note D = sources_boundD [OF p1(2)]
  have w: "dag_wf (p_dag p1)" "\<not> is_finalized (p_dag p1)" "length (nodes (p_dag p1)) = length (nodes (p_dag p))"
    using D(7) by (simp_all add: inputs_only_def)
  obtain p2 where "res_fold (bind_source api single) srcs p1 = Inr p2" "sources_bound p1 p2"
    using Cons.IH [OF w(1,2)] Cons.prems(3) D(1) w(3) by (metis list.set_intros(2))
  with p1 sources_bound_trans show ?case by auto
qed

lemma setupInputBuffers_ok:
  assumes "dag_wf (p_dag p)" "\<not> is_finalized (p_dag p)"
    "\<And>s. s \<in> set sources \<Longrightarrow> \<exists>i<length (nodes (p_dag p)). p_stage_to_node p s = Some i"
  obtains p' where "setupInputBuffers api sources p = Inr p'" "sources_bound p p'"
proof -
  let ?p0 = "p\<lparr>p_input_nodes := [], p_input_buffer_ids := []\<rparr>"
  have "\<exists>p'. res_fold (bind_source api (length sources + length (p_explicit_external_bindings p) = 1)) (zip [0..<length sources] sources) ?p0 = Inr p'
      \<and> sources_bound ?p0 p'"
    by (rule bind_sources_ok) (use assms in \<open>auto dest!: set_zip_rightD\<close>)
  then obtain p1 where p1: "res_fold (bind_source api (length sources + length (p_explicit_external_bindings p) = 1))
      (zip [0..<length sources] sources) ?p0 = Inr p1" "sources_bound ?p0 p1" by blast
  let ?p2 = "p1\<lparr>p_input_nodes := p_input_nodes p1 @ map fst (p_explicit_external_bindings p1),
               p_input_buffer_ids := p_input_buffer_ids p1 @ map snd (p_explicit_external_bindings p1)\<rparr>"
  have "dag_wf (p_dag p1)" "\<not> is_finalized (p_dag p1)" using sources_boundD(7) [OF p1(2)] by (simp_all add: inputs_only_def)
  then have "sources_bound p1 ?p2" by (rule sources_bound_refl)
  with p1(2) sources_bound_refl [OF assms(1,2), of "[]" "[]"] have "sources_bound p ?p2" by (blast intro: sources_bound_trans)
  moreover have "setupInputBuffers api sources p = Inr ?p2" using p1(1) by (simp add: setupInputBuffers_def)
  ultimately show ?thesis using that by blast
qed

subsection \<open>Pipeline outputs\<close>

text \<open>The ports of a node that no stage reads, and those of the graph in node and port order.\<close>

definition port_buffer :: "dag \<Rightarrow> nat \<Rightarrow> nat \<Rightarrow> int" where
  "port_buffer d i j = the (map_of (output_index_to_buffer_id (node d i)) (int j))"

definition node_outputs :: "dag \<Rightarrow> nat \<Rightarrow> nat list \<Rightarrow> (nat \<times> int) list" where
  "node_outputs d i js = map (\<lambda>j. (i, port_buffer d i j)) (filter (\<lambda>j. consumer_stage_ids (buf d (port_buffer d i j)) = []) js)"

definition pipe_outputs :: "stage_api \<Rightarrow> dag \<Rightarrow> (nat \<times> int) list" where
  "pipe_outputs api d =
     concat (map (\<lambda>i. node_outputs d i [0..<getNumOutputs api (stage_of d i)]) [0..<length (nodes d)])"

text \<open>What detection changes: tags and persistence of buffers, and the output lists.\<close>

definition detected :: "pipeline \<Rightarrow> (nat \<times> int) list \<Rightarrow> pipeline \<Rightarrow> bool" where
  "detected p outs p' \<longleftrightarrow>
     p' = (set_dag (p_dag p') p)\<lparr>p_output_nodes := p_output_nodes p @ map fst outs, p_output_buffer_ids := p_output_buffer_ids p @ map snd outs\<rparr> \<and>
     nodes (p_dag p') = nodes (p_dag p) \<and> dag_wf (p_dag p') \<and> is_finalized (p_dag p') = is_finalized (p_dag p) \<and>
     streams (p_dag p') = streams (p_dag p) \<and>
     (\<forall>b. consumer_stage_ids (buf (p_dag p') b) = consumer_stage_ids (buf (p_dag p) b)) \<and>
     (\<forall>b. is_persistent (buf (p_dag p) b) \<or> b \<in> snd ` set outs \<longrightarrow> is_persistent (buf (p_dag p') b))"

lemma detectedD:
  assumes "detected p outs p'"
  shows "p_output_nodes p' = p_output_nodes p @ map fst outs" "p_output_buffer_ids p' = p_output_buffer_ids p @ map snd outs"
    "p_needs_concat p' = p_needs_concat p"
proof -
  have e: "p' = (set_dag (p_dag p') p)\<lparr>p_output_nodes := p_output_nodes p @ map fst outs, p_output_buffer_ids := p_output_buffer_ids p @ map snd outs\<rparr>"
    using assms unfolding detected_def by blast
  show "p_output_nodes p' = p_output_nodes p @ map fst outs" "p_output_buffer_ids p' = p_output_buffer_ids p @ map snd outs"
    "p_needs_concat p' = p_needs_concat p"
    by (subst e, simp)+
qed

lemma detected_refl: "dag_wf (p_dag p) \<Longrightarrow> detected p [] p"
  by (simp add: detected_def set_dag_def)

lemma detected_trans:
  assumes "detected a xs b" "detected b ys c"
  shows "detected a (xs @ ys) c"
proof -
  have b: "b = (set_dag (p_dag b) a)\<lparr>p_output_nodes := p_output_nodes a @ map fst xs, p_output_buffer_ids := p_output_buffer_ids a @ map snd xs\<rparr>"
    using assms(1) unfolding detected_def by blast
  have c: "c = (set_dag (p_dag c) b)\<lparr>p_output_nodes := p_output_nodes b @ map fst ys, p_output_buffer_ids := p_output_buffer_ids b @ map snd ys\<rparr>"
    using assms(2) unfolding detected_def by blast
  have "(set_dag d b)\<lparr>p_output_nodes := p_output_nodes b @ map fst ys, p_output_buffer_ids := p_output_buffer_ids b @ map snd ys\<rparr> =
    (set_dag d a)\<lparr>p_output_nodes := p_output_nodes a @ map fst (xs @ ys), p_output_buffer_ids := p_output_buffer_ids a @ map snd (xs @ ys)\<rparr>" for d
    by (subst (1 2 3) b) (simp add: set_dag_def)
  with c have "c = (set_dag (p_dag c) a)\<lparr>p_output_nodes := p_output_nodes a @ map fst (xs @ ys), p_output_buffer_ids := p_output_buffer_ids a @ map snd (xs @ ys)\<rparr>"
    by metis
  moreover have "\<forall>e. is_persistent (buf (p_dag a) e) \<or> e \<in> snd ` set (xs @ ys) \<longrightarrow> is_persistent (buf (p_dag c) e)"
    using assms unfolding detected_def image_Un set_append by blast
  ultimately show ?thesis using assms unfolding detected_def by simp
qed

lemma detect_output_ok:
  assumes "dag_wf (p_dag p)" "i < length (nodes (p_dag p))" "map_of (output_index_to_buffer_id (node (p_dag p) i)) (int j) = Some b"
  obtains p' where "detect_output api i st j p = Inr p'" "detected p (node_outputs (p_dag p) i [j]) p'"
proof -
  let ?d = "p_dag p"
  have "b \<in> set (output_buffer_ids (node ?d i))"
    using wf_outputsD(5) [of ?d i b] assms map_of_SomeD [OF assms(3)] by (force simp: dag_wf_def)
  then have "producer_stage_id (buf ?d b) = int i" using wf_outputsD(3) [of ?d i b] assms(1,2) by (simp add: dag_wf_def)
  then have "buffers ?d b \<noteq> None" using buf_None [of ?d b] by (force simp: new_buffer_def)
  then obtain x where x: "buffers ?d b = Some x" "buf ?d b = x" by (auto simp: buf_def)
  have pb: "port_buffer ?d i j = b" using assms(3) by (simp add: port_buffer_def)
  show ?thesis
  proof (cases "consumer_stage_ids x = []")
    case False
    then have "detect_output api i st j p = Inr p" using assms(3) x by (simp add: detect_output_def getBufferInfo_def)
    moreover have "detected p (node_outputs ?d i [j]) p" using detected_refl [OF assms(1)] False x pb by (simp add: node_outputs_def)
    ultimately show ?thesis by (rule that)
  next
    case True
    let ?tag = "''pipeline_output_'' @ getName api st @ ''.'' @ output_name api st j"
    let ?d1 = "upd_buf b (\<lambda>x. x\<lparr>b_tag := ?tag\<rparr>) ?d"
    let ?d2 = "upd_buf b (\<lambda>x. x\<lparr>is_persistent := True\<rparr>) ?d1"
    let ?p = "(set_dag ?d2 p)\<lparr>p_output_buffer_ids := p_output_buffer_ids p @ [b], p_output_nodes := p_output_nodes p @ [i]\<rparr>"
    have "detect_output api i st j p = Inr ?p"
      using assms(3) x True by (simp add: detect_output_def getBufferInfo_def updateBufferTag_def setBufferPersistent_def)
    moreover have "dag_wf ?d2" using x by (intro meta_wf assms(1)) simp_all
    then have "detected p (node_outputs ?d i [j]) ?p"
      using True x pb by (simp add: detected_def node_outputs_def set_dag_def)
    ultimately show ?thesis by (rule that)
  qed
qed

lemma node_outputs_detected:
  "detected p outs p' \<Longrightarrow> node_outputs (p_dag p') i js = node_outputs (p_dag p) i js"
  by (simp add: detected_def node_outputs_def port_buffer_def)

lemma detect_outputs_ok:
  assumes "dag_wf (p_dag p)" "i < length (nodes (p_dag p))" "\<And>j. j \<in> set js \<Longrightarrow> map_of (output_index_to_buffer_id (node (p_dag p) i)) (int j) \<noteq> None"
  shows "\<exists>p'. res_fold (detect_output api i st) js p = Inr p' \<and> detected p (node_outputs (p_dag p) i js) p'"
  using assms
proof (induction js arbitrary: p)
  case Nil
  with detected_refl show ?case by (simp add: node_outputs_def)
next
  case (Cons j js)
  obtain b where b: "map_of (output_index_to_buffer_id (node (p_dag p) i)) (int j) = Some b" using Cons.prems(3) [of j] by auto
  obtain p1 where p1: "detect_output api i st j p = Inr p1" "detected p (node_outputs (p_dag p) i [j]) p1"
    using detect_output_ok [OF Cons.prems(1,2) b] .
  have w: "dag_wf (p_dag p1)" "nodes (p_dag p1) = nodes (p_dag p)" using p1(2) by (auto simp: detected_def)
  obtain p2 where p2: "res_fold (detect_output api i st) js p1 = Inr p2" "detected p1 (node_outputs (p_dag p1) i js) p2"
    using Cons.IH [of p1] Cons.prems(2,3) w by (metis list.set_intros(2))
  have "detected p (node_outputs (p_dag p) i [j] @ node_outputs (p_dag p) i js) p2"
    using detected_trans [OF p1(2) p2(2)] node_outputs_detected [OF p1(2)] by simp
  with p1(1) p2(1) show ?case by (simp add: node_outputs_def split: if_splits)
qed

lemma drop_stale_id:
  assumes "i < length (nodes d)" "output_index_to_buffer_id (node d i) = out_ports b n"
  shows "drop_stale n i d = d"
proof -
  have keep: "filter (\<lambda>(k, b). \<not> (k < 0 \<or> int n \<le> k)) (out_ports b n) = out_ports b n"
    "filter (\<lambda>(k, b). k < 0 \<or> int n \<le> k) (out_ports b n) = []"
    by (simp_all add: out_ports_def filter_id_conv filter_empty_conv)
  have "(nodes d)[i := (node d i)\<lparr>output_buffer_ids := output_buffer_ids (node d i), output_index_to_buffer_id := out_ports b n\<rparr>] = nodes d"
    using assms(2) by (simp flip: assms(2))
  then show ?thesis using keep assms(2) by (simp add: drop_stale_def upd_node_def)
qed

lemma detect_node_ok:
  assumes "dag_wf (p_dag p)" "stage_ports_ok api (p_dag p)" "i < length (nodes (p_dag p))" "n_stage (node (p_dag p) i) = Some st"
  obtains p' where "detect_node api i p = Inr p'" "detected p (node_outputs (p_dag p) i [0..<getNumOutputs api st]) p'"
proof -
  obtain b where b: "output_index_to_buffer_id (node (p_dag p) i) = out_ports b (getNumOutputs api st)"
    using assms(2,3,4) by (auto simp: stage_ports_ok_def stage_of_def)
  obtain p1 where p1: "res_fold (detect_output api i st) [0..<getNumOutputs api st] p = Inr p1"
    "detected p (node_outputs (p_dag p) i [0..<getNumOutputs api st]) p1"
    using detect_outputs_ok [OF assms(1,3), of "[0..<getNumOutputs api st]" api st] b by (auto simp: map_of_out_ports)
  have n: "nodes (p_dag p1) = nodes (p_dag p)" using p1(2) by (simp add: detected_def)
  have "drop_stale (getNumOutputs api st) i (p_dag p1) = p_dag p1" using assms(3) b n by (intro drop_stale_id) simp_all
  then have "detect_node api i p = Inr (set_dag (p_dag p1) p1)" using assms(4) p1(1) by (simp add: detect_node_def)
  moreover have "set_dag (p_dag p1) p1 = p1" by (simp add: set_dag_def)
  ultimately show ?thesis using that p1(2) by simp
qed

lemma autoDetect_ok:
  assumes "dag_wf (p_dag p)" "stage_ports_ok api (p_dag p)" "\<And>i. i < length (nodes (p_dag p)) \<Longrightarrow> n_stage (node (p_dag p) i) \<noteq> None"
  obtains p' where "autoDetectUnconnectedOutputs api p = Inr p'" "detected p (pipe_outputs api (p_dag p)) p'"
proof -
  have "\<exists>p'. res_fold (detect_node api) [0..<n] p = Inr p' \<and>
      detected p (concat (map (\<lambda>i. node_outputs (p_dag p) i [0..<getNumOutputs api (stage_of (p_dag p) i)]) [0..<n])) p'"
    if "n \<le> length (nodes (p_dag p))" for n
    using that
  proof (induction n)
    case 0
    with detected_refl [OF assms(1)] show ?case by simp
  next
    case (Suc n)
    then obtain p1 where p1: "res_fold (detect_node api) [0..<n] p = Inr p1"
      "detected p (concat (map (\<lambda>i. node_outputs (p_dag p) i [0..<getNumOutputs api (stage_of (p_dag p) i)]) [0..<n])) p1" by auto
    have n1: "nodes (p_dag p1) = nodes (p_dag p)" "dag_wf (p_dag p1)" using p1(2) by (simp_all add: detected_def)
    have po: "stage_ports_ok api (p_dag p1)" using ports_ok_same [OF assms(2) same_outputs_nodes] n1 by blast
    obtain st where st: "n_stage (node (p_dag p) n) = Some st" using assms(3) [of n] Suc.prems by auto
    obtain p2 where p2: "detect_node api n p1 = Inr p2" "detected p1 (node_outputs (p_dag p1) n [0..<getNumOutputs api st]) p2"
      using detect_node_ok [OF n1(2) po] st n1(1) Suc.prems by (metis Suc_le_eq)
    have "stage_of (p_dag p) n = st" using st by (simp add: stage_of_def)
    then have "detected p (concat (map (\<lambda>i. node_outputs (p_dag p) i [0..<getNumOutputs api (stage_of (p_dag p) i)]) [0..<Suc n])) p2"
      using detected_trans [OF p1(2) p2(2)] node_outputs_detected [OF p1(2)] by simp
    moreover have "res_fold (detect_node api) ([0..<n] @ [n]) p = Inr p2" unfolding res_fold_append p1(1) by (simp add: p2(1))
    ultimately show ?case by auto
  qed
  from this [OF le_refl] show ?thesis using that unfolding autoDetectUnconnectedOutputs_def pipe_outputs_def by blast
qed

lemma port_buffer_ok:
  assumes "dag_wf d" "stage_ports_ok api d" "i < length (nodes d)" "j < getNumOutputs api (stage_of d i)"
  shows "producer_stage_id (buf d (port_buffer d i j)) = int i" "port_buffer d i j < next_buffer_id d"
proof -
  obtain b where b: "output_index_to_buffer_id (node d i) = out_ports b (getNumOutputs api (stage_of d i))"
    using assms(2,3) by (auto simp: stage_ports_ok_def)
  then have "map_of (output_index_to_buffer_id (node d i)) (int j) = Some (port_buffer d i j)"
    using assms(4) by (simp add: port_buffer_def map_of_out_ports)
  then have "port_buffer d i j \<in> set (output_buffer_ids (node d i))"
    using wf_outputsD(5) [of d i] assms(1,3) map_of_SomeD by (force simp: dag_wf_def)
  then show pr: "producer_stage_id (buf d (port_buffer d i j)) = int i" using wf_outputsD(3) [of d i] assms(1,3) by (simp add: dag_wf_def)
  then have "buffers d (port_buffer d i j) \<noteq> None" using buf_None [of d] by (force simp: new_buffer_def)
  then show "port_buffer d i j < next_buffer_id d" using assms(1) by (auto simp: dag_wf_def wf_dom_def)
qed

lemma inj_ports:
  assumes "stage_ports_ok api d" "i < length (nodes d)"
  shows "inj_on (port_buffer d i) {..<getNumOutputs api (stage_of d i)}"
proof -
  obtain b where "output_index_to_buffer_id (node d i) = out_ports b (getNumOutputs api (stage_of d i))"
    using assms by (auto simp: stage_ports_ok_def)
  then show ?thesis by (intro inj_onI) (simp add: port_buffer_def map_of_out_ports)
qed

lemma pipe_outputs_distinct:
  assumes "dag_wf d" "stage_ports_ok api d"
  shows "distinct (map snd (pipe_outputs api d))"
proof -
  let ?out = "\<lambda>i. node_outputs d i [0..<getNumOutputs api (stage_of d i)]"
  have own: "producer_stage_id (buf d b) = int i" if "b \<in> snd ` set (?out i)" "i < length (nodes d)" for i b
    using that port_buffer_ok(1) [OF assms that(2)] by (auto simp: node_outputs_def)
  have one: "distinct (map snd (?out i))" if "i < length (nodes d)" for i
    using inj_ports [OF assms(2) that] unfolding node_outputs_def map_map comp_def snd_conv
    by (intro distinct_map [THEN iffD2] conjI) (auto intro: inj_on_subset)
  have "distinct (concat (map (\<lambda>i. map snd (?out i)) [0..<n])) \<and>
      (\<forall>b\<in>set (concat (map (\<lambda>i. map snd (?out i)) [0..<n])). producer_stage_id (buf d b) < int n)"
    if "n \<le> length (nodes d)" for n
    using that
  proof (induction n)
    case (Suc n)
    then have IH: "distinct (concat (map (\<lambda>i. map snd (?out i)) [0..<n]))"
      "\<forall>b\<in>set (concat (map (\<lambda>i. map snd (?out i)) [0..<n])). producer_stage_id (buf d b) < int n" by simp_all
    have new: "\<forall>b\<in>set (map snd (?out n)). producer_stage_id (buf d b) = int n" using own [of _ n] Suc.prems by auto
    have "concat (map (\<lambda>i. map snd (?out i)) [0..<Suc n]) = concat (map (\<lambda>i. map snd (?out i)) [0..<n]) @ map snd (?out n)" by simp
    moreover have "distinct (map snd (?out n))" using one Suc.prems by simp
    moreover have "\<forall>b\<in>set (concat (map (\<lambda>i. map snd (?out i)) [0..<n])) \<union> set (map snd (?out n)). producer_stage_id (buf d b) < int (Suc n)"
      using IH(2) new by (intro ballI) (elim UnE; fastforce)
    moreover have "set (concat (map (\<lambda>i. map snd (?out i)) [0..<n])) \<inter> set (map snd (?out n)) = {}" using IH(2) new by force
    ultimately show ?case using IH(1) by (simp only: distinct_append set_append simp_thms)
  qed simp
  from this [OF le_refl] show ?thesis by (simp add: pipe_outputs_def map_concat comp_def)
qed

lemma pipe_outputs_inputs_only:
  assumes "dag_wf d" "stage_ports_ok api d" "inputs_only d d'"
  shows "pipe_outputs api d' = pipe_outputs api d"
proof -
  have len: "length (nodes d') = length (nodes d)" using assms(3) by (simp add: inputs_only_def)
  have "node_outputs d' i [0..<getNumOutputs api (stage_of d' i)] = node_outputs d i [0..<getNumOutputs api (stage_of d i)]"
    if i: "i < length (nodes d)" for i
  proof -
    have st: "stage_of d' i = stage_of d i" using inputs_onlyD(3) [OF assms(3) i] by (simp add: stage_of_def)
    have pb: "port_buffer d' i j = port_buffer d i j" for j using inputs_onlyD(5) [OF assms(3) i] by (simp add: port_buffer_def)
    have "buf d' (port_buffer d i j) = buf d (port_buffer d i j)" if "j < getNumOutputs api (stage_of d i)" for j
      using port_buffer_ok(2) [OF assms(1,2) i that] assms(3) by (simp add: inputs_only_def)
    then show ?thesis unfolding node_outputs_def st pb by (intro arg_cong [of _ _ "map _"] filter_cong) auto
  qed
  then show ?thesis unfolding pipe_outputs_def len by (intro arg_cong [of _ _ concat] map_cong) auto
qed

subsection \<open>Sources, sinks and cycles\<close>

lemma finalize_ok_acyclic:
  assumes "wf_links d" "distinct ord" "set ord = {..<length (nodes d)}" "\<forall>k. mk k \<noteq> None"
  shows "snd (dag_finalize ord mk d) = Inr () \<longleftrightarrow> acyclic (depends_on d)"
proof -
  have "kahn_visited ord (d\<lparr>buffer_table := bs\<rparr>) = length (nodes d) \<longleftrightarrow> acyclic (depends_on d)" for bs
    using kahn_visited_iff [OF assms(1-3)] by (simp add: kahn_visited_def)
  moreover have "mk = (\<lambda>k. Some (the (mk k)))" using assms(4) by (intro ext) simp
  then obtain f where "mk = (\<lambda>k. Some (f k))" by (rule that [of "\<lambda>k. the (mk k)"])
  ultimately show ?thesis by (simp add: dag_finalize_def Let_def)
qed

lemma acyclic_ends:
  assumes "wf_links d" "acyclic (depends_on d)" "nodes d \<noteq> []"
  shows "\<exists>i<length (nodes d). dependencies (node d i) = []" "\<exists>i<length (nodes d). dependents (node d i) = []"
proof -
  have sub: "depends_on d \<subseteq> {..<length (nodes d)} \<times> {..<length (nodes d)}"
    using wf_linksD(2) [OF assms(1)] by (auto simp: depends_on_def)
  then have fin: "finite (depends_on d)" by (rule finite_subset) simp
  have "0 \<in> {..<length (nodes d)}" using assms(3) by simp
  from wfE_min [OF finite_acyclic_wf [OF fin assms(2)] this] obtain i where
    i: "i < length (nodes d)" "\<And>j. (j, i) \<in> depends_on d \<Longrightarrow> j \<notin> {..<length (nodes d)}" by (metis lessThan_iff)
  show "\<exists>i<length (nodes d). dependencies (node d i) = []"
  proof (intro exI [of _ i] conjI i(1))
    show "dependencies (node d i) = []"
    proof (rule ccontr)
      assume "dependencies (node d i) \<noteq> []"
      then obtain j where "j \<in> set (dependencies (node d i))" by (meson last_in_set)
      with i wf_linksD(2) [OF assms(1) i(1)] show False by (auto simp: depends_on_def)
    qed
  qed
  have "wf ((depends_on d)\<inverse>)" using finite_acyclic_wf_converse [OF fin assms(2)] .
  from wfE_min [OF this \<open>0 \<in> {..<length (nodes d)}\<close>] obtain k where
    k: "k < length (nodes d)" "\<And>j. (j, k) \<in> (depends_on d)\<inverse> \<Longrightarrow> j \<notin> {..<length (nodes d)}" by (metis lessThan_iff)
  show "\<exists>i<length (nodes d). dependents (node d i) = []"
  proof (intro exI [of _ k] conjI k(1))
    show "dependents (node d k) = []"
    proof (rule ccontr)
      assume "dependents (node d k) \<noteq> []"
      then obtain j where j: "j \<in> set (dependents (node d k))" by (meson last_in_set)
      then have l: "j < length (nodes d)" using wf_linksD(3) [OF assms(1) k(1)] by blast
      have "k \<in> set (dependencies (node d j))" using j wf_linksD(4) [OF assms(1) k(1) l] by (metis count_list_0_iff)
      with k(2) [of j] l show False by (simp add: depends_on_def)
    qed
  qed
qed

lemma getSourceStages_iff: "s \<in> set (getSourceStages p) \<longleftrightarrow> (\<exists>n\<in>set (nodes (p_dag p)). n_stage n = Some s \<and> dependencies n = [])"
  by (force simp: getSourceStages_def split: option.splits if_splits)

lemma getSinkStages_iff: "s \<in> set (getSinkStages p) \<longleftrightarrow> (\<exists>n\<in>set (nodes (p_dag p)). n_stage n = Some s \<and> dependents n = [])"
  by (force simp: getSinkStages_def split: option.splits if_splits)

lemma pipe_wf_staged: "pipe_wf p \<Longrightarrow> i < length (nodes (p_dag p)) \<Longrightarrow> n_stage (node (p_dag p) i) = Some (p_stages p ! i)"
  using pipe_wfD(4) [of p] pipe_wf_stages [of p] by (metis nth_map)

lemma identifyTopology_ok:
  assumes "pipe_wf p" "acyclic (depends_on (p_dag p))" "p_stages p \<noteq> []"
  shows "identifyTopology p = Inr (getSourceStages p, getSinkStages p)"
proof -
  have ne: "nodes (p_dag p) \<noteq> []" using pipe_wf_stages [OF assms(1)] assms(3) by auto
  have wl: "wf_links (p_dag p)" using pipe_wfD(3) [OF assms(1)] by (simp add: dag_wf_def)
  obtain i k where "i < length (nodes (p_dag p))" "dependencies (node (p_dag p) i) = []"
    "k < length (nodes (p_dag p))" "dependents (node (p_dag p) k) = []" using acyclic_ends [OF wl assms(2) ne] by blast
  then have "p_stages p ! i \<in> set (getSourceStages p)" "p_stages p ! k \<in> set (getSinkStages p)"
    using pipe_wf_staged [OF assms(1)] unfolding getSourceStages_iff getSinkStages_iff by (metis nth_mem)+
  then show ?thesis by (auto simp: identifyTopology_def)
qed

subsection \<open>Acceptance\<close>

text \<open>What an accepted pipeline looks like, next to the pipeline the builder calls left.\<close>

definition finalize_result :: "stage_api \<Rightarrow> pipeline \<Rightarrow> pipeline \<Rightarrow> bool" where
  "finalize_result api p p' \<longleftrightarrow>
     is_finalized (p_dag p') \<and> dag_wf (p_dag p') \<and> depends_on (p_dag p') = depends_on (p_dag p) \<and>
     p_output_nodes p' = map fst (pipe_outputs api (p_dag p)) \<and> p_output_buffer_ids p' = map snd (pipe_outputs api (p_dag p)) \<and>
     distinct (p_output_buffer_ids p') \<and> (p_needs_concat p' \<longleftrightarrow> 1 < length (p_output_buffer_ids p')) \<and>
     (\<forall>b\<in>set (p_output_buffer_ids p'). is_persistent (buf (p_dag p') b))"

lemma depends_on_cong:
  assumes "length (nodes d') = length (nodes d)" "\<And>i. i < length (nodes d) \<Longrightarrow> dependencies (node d' i) = dependencies (node d i)"
  shows "depends_on d' = depends_on d"
  using assms by (auto simp: depends_on_def)

lemma build_pipe_outputs_empty:
  "p_output_nodes p = [] \<and> p_output_buffer_ids p = [] \<and> \<not> p_needs_concat p \<Longrightarrow>
   p_output_nodes (build_pipe api ops p) = [] \<and> p_output_buffer_ids (build_pipe api ops p) = [] \<and> \<not> p_needs_concat (build_pipe api ops p)"
proof -
  have "p_output_nodes (pipe_exec api op p) = p_output_nodes p \<and> p_output_buffer_ids (pipe_exec api op p) = p_output_buffer_ids p \<and>
      p_needs_concat (pipe_exec api op p) = p_needs_concat p" for op p
    by (cases op) (auto simp: p_ok_def addRawStage_def connect_def bindExternalInput_def setMemoryStrategy_def setNumStreams_def
        enableProfiling_def enableGraphMode_def set_dag_def Let_def res_bind_def split: sum.splits option.splits prod.splits)
  then show "p_output_nodes p = [] \<and> p_output_buffer_ids p = [] \<and> \<not> p_needs_concat p \<Longrightarrow>
   p_output_nodes (build_pipe api ops p) = [] \<and> p_output_buffer_ids (build_pipe api ops p) = [] \<and> \<not> p_needs_concat (build_pipe api ops p)"
    unfolding build_pipe_def by (induction ops arbitrary: p) simp_all
qed

lemma dag_wf_streams: "dag_wf (d\<lparr>streams := ss, owns_streams := own\<rparr>) = dag_wf d"
  by (simp add: dag_wf_defs buf_def buffers_def)

lemma configureStreams_ok:
  assumes "\<forall>k. fe_streams fe k \<noteq> None" "dag_wf (p_dag p)" "\<not> is_finalized (p_dag p)"
  obtains p' where "configureStreamsIfNeeded fe p = Inr p'" "dag_wf (p_dag p')" "nodes (p_dag p') = nodes (p_dag p)"
    "buf (p_dag p') = buf (p_dag p)" "p' = set_dag (p_dag p') p"
proof (cases "1 < p_num_streams p")
  case True
  obtain ss where ss: "fe_streams fe (nat (p_num_streams p)) = Some ss" using assms(1) by auto
  define d where "d = (p_dag p)\<lparr>streams := (if owns_streams (p_dag p) then [] else streams (p_dag p)) @ ss, owns_streams := True\<rparr>"
  have "configureStreamsIfNeeded fe p = Inr (set_dag d p)"
    using True ss assms(3) by (simp add: configureStreamsIfNeeded_def configureStreams_def Let_def d_def)
  moreover have "dag_wf d" using assms(2) by (simp add: d_def dag_wf_streams)
  moreover have "buf d = buf (p_dag p)" "nodes d = nodes (p_dag p)" by (simp_all add: d_def buf_def buffers_def fun_eq_iff)
  ultimately show ?thesis by (intro that [of "set_dag d p"]) simp_all
next
  case False
  then have "configureStreamsIfNeeded fe p = Inr p" by (simp add: configureStreamsIfNeeded_def)
  then show ?thesis by (rule that) (use assms(2) in \<open>simp_all add: set_dag_def\<close>)
qed

lemma finalize_graph_steps:
  assumes wf: "pipe_wf p" and po: "stage_ports_ok api (p_dag p)" and str: "\<forall>k. fe_streams fe k \<noteq> None"
    and top: "identifyTopology p = Inr (srcs, snks)"
    and empty: "p_output_nodes p = [] \<and> p_output_buffer_ids p = [] \<and> \<not> p_needs_concat p"
  obtains p4 where
    "finalize_graph api fe p = (case dag_finalize (fe_ord fe (p_dag p4)) (fe_streams fe) (p_dag p4) of
         (_, Inl e) \<Rightarrow> Inl e | (d, Inr _) \<Rightarrow> Inr (set_dag d p4))"
    "dag_wf (p_dag p4)" "length (nodes (p_dag p4)) = length (nodes (p_dag p))" "depends_on (p_dag p4) = depends_on (p_dag p)"
    "p_output_nodes p4 = map fst (pipe_outputs api (p_dag p))" "p_output_buffer_ids p4 = map snd (pipe_outputs api (p_dag p))"
    "p_needs_concat p4 \<longleftrightarrow> 1 < length (p_output_buffer_ids p4)"
    "\<forall>b\<in>set (p_output_buffer_ids p4). is_persistent (buf (p_dag p4) b)"
proof -
  let ?d = "p_dag p"
  have srcs: "srcs = getSourceStages p" using top by (auto simp: identifyTopology_def split: if_splits)
  have node_of: "\<exists>i<length (nodes ?d). p_stage_to_node p s = Some i" if "s \<in> set srcs" for s
  proof -
    obtain n where "n \<in> set (nodes ?d)" "n_stage n = Some s" using \<open>s \<in> set srcs\<close> unfolding srcs getSourceStages_iff by blast
    then obtain i where "i < length (nodes ?d)" "n_stage (node ?d i) = Some s" by (auto simp: in_set_conv_nth)
    with pipe_wf_staged [OF wf] pipe_wf_stages [OF wf] pipe_wfD(6) [OF wf, of s i] show ?thesis by auto
  qed
  obtain p1 where p1: "setupInputBuffers api srcs p = Inr p1" "sources_bound p p1"
    using setupInputBuffers_ok [OF pipe_wfD(3,2) [OF wf] node_of] by blast
  note S = sources_boundD [OF p1(2)]
  have w1: "dag_wf (p_dag p1)" "\<not> is_finalized (p_dag p1)" "length (nodes (p_dag p1)) = length (nodes ?d)"
    using S(7) by (simp_all add: inputs_only_def)
  have po1: "stage_ports_ok api (p_dag p1)"
    using ports_ok_same [OF po, of "p_dag p1"] inputs_onlyD [OF S(7)] w1(3) by (simp add: same_outputs_def)
  have st1: "n_stage (node (p_dag p1) i) \<noteq> None" if "i < length (nodes (p_dag p1))" for i
    using inputs_onlyD(3) [OF S(7)] pipe_wf_staged [OF wf] that w1(3) by simp
  obtain p2 where p2: "autoDetectUnconnectedOutputs api p1 = Inr p2" "detected p1 (pipe_outputs api (p_dag p1)) p2"
    using autoDetect_ok [OF w1(1) po1 st1] by blast
  have outs: "pipe_outputs api (p_dag p1) = pipe_outputs api ?d" using pipe_outputs_inputs_only [OF pipe_wfD(3) [OF wf] po S(7)] .
  note D = p2(2) [unfolded detected_def outs]
  let ?p3 = "detectMultiOutputScenario p2"
  have d3: "p_dag ?p3 = p_dag p2" by (simp add: detectMultiOutputScenario_def)
  have l2: "p_output_nodes p2 = map fst (pipe_outputs api ?d)" "p_output_buffer_ids p2 = map snd (pipe_outputs api ?d)" "\<not> p_needs_concat p2"
    using detectedD [OF p2(2)] S(3,4,5) empty outs by simp_all
  obtain p4 where p4: "configureStreamsIfNeeded fe ?p3 = Inr p4" "dag_wf (p_dag p4)" "nodes (p_dag p4) = nodes (p_dag ?p3)"
    "buf (p_dag p4) = buf (p_dag ?p3)" "p4 = set_dag (p_dag p4) ?p3"
    using configureStreams_ok [OF str, of ?p3] D w1(2) d3 by metis
  show ?thesis
  proof (rule that [of p4])
    show "finalize_graph api fe p = (case dag_finalize (fe_ord fe (p_dag p4)) (fe_streams fe) (p_dag p4) of
         (_, Inl e) \<Rightarrow> Inl e | (d, Inr _) \<Rightarrow> Inr (set_dag d p4))"
      unfolding finalize_graph_def top by (simp add: p1(1) p2(1) p4(1))
    show "length (nodes (p_dag p4)) = length (nodes ?d)" using p4(3) d3 D w1(3) by simp
    show "depends_on (p_dag p4) = depends_on ?d"
      using p4(3) d3 D w1(3) inputs_onlyD(1) [OF S(7)] by (intro depends_on_cong) simp_all
    have o4: "p_output_buffer_ids p4 = p_output_buffer_ids p2" "p_output_nodes p4 = p_output_nodes p2"
      by (subst p4(5), simp add: detectMultiOutputScenario_def)+
    show "p_output_nodes p4 = map fst (pipe_outputs api ?d)" "p_output_buffer_ids p4 = map snd (pipe_outputs api ?d)"
      using o4 l2 by simp_all
    show "p_needs_concat p4 \<longleftrightarrow> 1 < length (p_output_buffer_ids p4)"
      unfolding o4 by (subst p4(5)) (use l2(3) in \<open>simp add: detectMultiOutputScenario_def\<close>)
    show "\<forall>b\<in>set (p_output_buffer_ids p4). is_persistent (buf (p_dag p4) b)"
      using o4(1) l2(2) D p4(4) d3 by auto
  qed (rule p4(2))
qed

text \<open>
  C16. A pipeline made by any history of builder calls, with at least one stage, is accepted by the graph
  half of \<open>finalize\<close> exactly when its connections have no cycle (CUDA streams being available), whatever
  order the hash maps are walked in.  The accepted graph has the same edges, and the pipeline's outputs
  are exactly the ports that no stage reads, each once, in node and port order, all persistent; they are concatenated
  exactly when there are several.
\<close>

theorem finalize_accepts_acyclic:
  assumes "p = build_pipe api ops (new_pipeline hint st pl m)" "names_ok api" "p_stages p \<noteq> []"
    "\<And>d. distinct (fe_ord fe d) \<and> set (fe_ord fe d) = {..<length (nodes d)}" "\<forall>k. fe_streams fe k \<noteq> None"
  shows "((\<exists>p'. finalize_graph api fe p = Inr p') \<longleftrightarrow> acyclic (depends_on (p_dag p))) \<and>
    (\<forall>p'. finalize_graph api fe p = Inr p' \<longrightarrow> finalize_result api p p')"
proof -
  have wf: "pipe_wf p" using build_pipe_wf [OF new_pipeline_wf] assms(1) by simp
  have po: "stage_ports_ok api (p_dag p)" using build_pipe_ports [OF new_pipeline_wf new_pipeline_ports assms(2)] assms(1) by simp
  have em: "p_output_nodes p = [] \<and> p_output_buffer_ids p = [] \<and> \<not> p_needs_concat p"
    using build_pipe_outputs_empty [of "new_pipeline hint st pl m" api ops] assms(1) by (simp add: new_pipeline_def)
  show ?thesis
  proof (cases "identifyTopology p")
    case (Inl e)
    then have "\<not> acyclic (depends_on (p_dag p))" using identifyTopology_ok [OF wf _ assms(3)] by auto
    with Inl show ?thesis by (simp add: finalize_graph_def)
  next
    case (Inr ss)
    then obtain srcs snks where top: "identifyTopology p = Inr (srcs, snks)" by (cases ss) auto
    obtain p4 where F: "finalize_graph api fe p = (case dag_finalize (fe_ord fe (p_dag p4)) (fe_streams fe) (p_dag p4) of
         (_, Inl e) \<Rightarrow> Inl e | (d, Inr _) \<Rightarrow> Inr (set_dag d p4))"
      and P: "dag_wf (p_dag p4)" "length (nodes (p_dag p4)) = length (nodes (p_dag p))" "depends_on (p_dag p4) = depends_on (p_dag p)"
        "p_output_nodes p4 = map fst (pipe_outputs api (p_dag p))" "p_output_buffer_ids p4 = map snd (pipe_outputs api (p_dag p))"
        "p_needs_concat p4 \<longleftrightarrow> 1 < length (p_output_buffer_ids p4)"
        "\<forall>b\<in>set (p_output_buffer_ids p4). is_persistent (buf (p_dag p4) b)"
      using finalize_graph_steps [OF wf po assms(5) top em] by blast
    let ?fin = "dag_finalize (fe_ord fe (p_dag p4)) (fe_streams fe) (p_dag p4)"
    have wl: "wf_links (p_dag p4)" using P(1) by (simp add: dag_wf_def)
    have ok: "snd ?fin = Inr () \<longleftrightarrow> acyclic (depends_on (p_dag p))"
      using finalize_ok_acyclic [OF wl, of "fe_ord fe (p_dag p4)" "fe_streams fe"] assms(4,5) P(3) by simp
    have "finalize_result api p p'" if "snd ?fin = Inr ()" "p' = set_dag (fst ?fin) p4" for p'
    proof -
      note R = finalize_exec_ready [OF P(1) that(1) refl]
      have "depends_on (fst ?fin) = depends_on (p_dag p4)"
        using finalize_ok_shape(1,6) [OF that(1)] by (intro depends_on_cong) simp_all
      with P R(1,2,6) that(2) pipe_outputs_distinct [OF pipe_wfD(3) [OF wf] po] show ?thesis by (simp add: finalize_result_def)
    qed
    with ok F show ?thesis by (cases ?fin) (auto split: sum.splits)
  qed
qed

subsection \<open>Alignment\<close>

lemma align_up_unat:
  assumes "0 < a" "unat n + unat a \<le> 2 ^ 64"
  shows "unat (align_up n a) = (unat n + unat a - 1) div unat a * unat a"
proof -
  have a: "0 < unat a" using assms(1) by (simp add: unat_gt_0)
  have "unat (n + a - 1) = unat n + unat a - 1"
  proof -
    have e: "n + a - 1 = n + (a - 1)" by simp
    have m: "unat (a - 1) = unat a - 1" using a by (metis One_nat_def unat_minus_one unat_0 less_numeral_extra(3))
    have "unat n + unat (a - 1) < 2 ^ LENGTH(64)" using assms(2) a unfolding m by (simp only: len_num0 len_bit0 len_num1) simp
    then have "unat (n + (a - 1)) = unat n + unat (a - 1)" by (rule unat_add_lem [THEN iffD1])
    then show ?thesis unfolding e m using a by simp
  qed
  moreover have "unat (x div a * a) = unat x div unat a * unat a" for x :: size_t
  proof -
    have "unat (x div a) * unat a \<le> unat x" by (simp add: unat_div_distrib)
    then have "unat (x div a) * unat a < 2 ^ LENGTH(64)" using unsigned_less [of x, where ?'a = nat] by linarith
    then have "unat (x div a * a) = unat (x div a) * unat a" by (rule unat_mult_lem [THEN iffD1])
    then show ?thesis by (simp add: unat_div_distrib)
  qed
  ultimately show ?thesis by (simp add: align_up_def)
qed

text \<open>The least multiple of \<open>a\<close> that is not below \<open>n\<close>.\<close>

lemma align_up_least:
  assumes "0 < a" "unat n + unat a \<le> 2 ^ 64"
  shows "unat a dvd unat (align_up n a)" "n \<le> align_up n a" "unat a dvd unat n \<Longrightarrow> align_up n a = n"
    "unat (align_up n a) < unat n + unat a"
proof -
  have a: "0 < unat a" using assms(1) by (simp add: unat_gt_0)
  note U = align_up_unat [OF assms]
  show "unat a dvd unat (align_up n a)" unfolding U by simp
  have "(unat n + unat a - 1) div unat a * unat a + (unat n + unat a - 1) mod unat a = unat n + unat a - 1" by simp
  moreover have "(unat n + unat a - 1) mod unat a < unat a" using a by simp
  ultimately have b: "unat n \<le> (unat n + unat a - 1) div unat a * unat a" "(unat n + unat a - 1) div unat a * unat a < unat n + unat a"
    using a by linarith+
  show "n \<le> align_up n a" using b(1) U by (simp add: word_le_nat_alt)
  show "unat (align_up n a) < unat n + unat a" using b(2) U by simp
  show "align_up n a = n" if d: "unat a dvd unat n"
  proof -
    obtain k where k: "unat n = unat a * k" using d by blast
    have "unat n + unat a - 1 = (unat a - 1) + k * unat a" using a k by (simp add: mult.commute)
    moreover have "((unat a - 1) + k * unat a) div unat a = k" using a by (subst div_mult_self1) simp_all
    ultimately have "(unat n + unat a - 1) div unat a = k" by simp
    then show ?thesis using U k by (simp add: word_unat_eq_iff mult.commute)
  qed
qed

lemma fold_lcm:
  assumes "foldl (\<lambda>m s. if 1 < unat (f s) then lcm m (unat (f s)) else m) m0 ss < 2 ^ 64" "0 < m0" "unat (w :: size_t) = m0"
  shows "unat (foldl (\<lambda>m s. let a = f s :: size_t in if 1 < a then word_of_nat (lcm (unat m) (unat a)) else m) w ss) =
    foldl (\<lambda>m s. if 1 < unat (f s) then lcm m (unat (f s)) else m) m0 ss"
  using assms
proof (induction ss arbitrary: m0 w)
  case (Cons s ss)
  let ?g = "\<lambda>m s. if 1 < unat (f s) then lcm m (unat (f s)) else m"
  have mono: "0 < k \<Longrightarrow> k \<le> foldl ?g k ss" for k
  proof (induction ss arbitrary: k)
    case (Cons s ss)
    have "k \<le> ?g k s" using Cons.prems by (auto intro: dvd_imp_le simp: lcm_pos_nat)
    moreover have "?g k s \<le> foldl ?g (?g k s) ss" by (rule Cons.IH) (use Cons.prems in \<open>auto simp: lcm_pos_nat\<close>)
    ultimately show ?case by simp
  qed simp
  have pos: "0 < ?g m0 s" using Cons.prems(2) by (auto simp: lcm_pos_nat)
  have lt: "(1 < f s) = (1 < unat (f s))" by (simp add: word_less_nat_alt)
  have "?g m0 s < 2 ^ 64" using mono [OF pos] Cons.prems(1) by simp
  then have "unat (if 1 < f s then word_of_nat (lcm (unat w) (unat (f s))) else w) = ?g m0 s"
    using Cons.prems(3) lt by (auto simp: unat_of_nat take_bit_nat_eq_self)
  with Cons.IH [of "?g m0 s"] Cons.prems(1) pos show ?case by (simp add: Let_def)
qed simp

definition required_alignment :: "stage_api \<Rightarrow> nat list \<Rightarrow> nat" where
  "required_alignment api ss =
     foldl (\<lambda>m s. if 1 < unat (getRequiredInputAlignment api s) then lcm m (unat (getRequiredInputAlignment api s)) else m) 1 ss"

lemma required_alignment_dvd:
  assumes "s \<in> set ss" "0 < getRequiredInputAlignment api s"
  shows "unat (getRequiredInputAlignment api s) dvd required_alignment api ss"
proof -
  let ?f = "\<lambda>s. unat (getRequiredInputAlignment api s)"
  let ?g = "\<lambda>m s. if 1 < ?f s then lcm m (?f s) else m"
  have keep: "d dvd m \<Longrightarrow> d dvd foldl ?g m ss" for d m ss by (induction ss arbitrary: m) auto
  have "?f s dvd foldl ?g m ss" if "s \<in> set ss" for m
    using that
  proof (induction ss arbitrary: m)
    case (Cons t ss)
    show ?case
    proof (cases "t = s")
      case True
      have "0 < ?f s" using assms(2) by (simp add: unat_gt_0)
      then have "?f s dvd ?g m s" by (auto simp: not_less le_Suc_eq)
      with True keep show ?thesis by simp
    qed (use Cons in simp)
  qed simp
  then show ?thesis using assms(1) by (simp add: required_alignment_def)
qed

lemma required_alignment_pos: "0 < required_alignment api ss"
proof -
  have "0 < m \<Longrightarrow> 0 < foldl (\<lambda>m s. if 1 < unat (getRequiredInputAlignment api s) then lcm m (unat (getRequiredInputAlignment api s)) else m) m ss" for m
    by (induction ss arbitrary: m) (auto simp: lcm_pos_nat)
  then show ?thesis by (simp add: required_alignment_def)
qed

lemma computeInputAlignment_alignment:
  assumes "required_alignment api (p_stages p) < 2 ^ 64"
  shows "unat (p_input_alignment_bytes (computeInputAlignment api p)) = required_alignment api (p_stages p)"
  using fold_lcm [of "getRequiredInputAlignment api" 1 "p_stages p" 1] assms
  by (simp add: computeInputAlignment_def Let_def required_alignment_def)

subsection \<open>A change of strategy after the first stage\<close>

text \<open>
  \<open>setMemoryStrategy\<close> replaces the graph but not \<open>stage_to_node_\<close>: with a stage already added, the map still
  names a node of the graph that was destroyed.
\<close>

lemma strategy_dangling:
  assumes "pipe_wf p" "p_stage_to_node p s = Some i" "setMemoryStrategy st p = Inr p'"
  shows "p_stage_to_node p' s = Some i \<and> nodes (p_dag p') = []"
  using assms(2,3) by (auto simp: setMemoryStrategy_def set_dag_def setColoringEnabled_def dag_enableProfiling_def new_dag_def split: if_splits)

subsection \<open>Examples\<close>

text \<open>Two stages in a row, the first with a second output that nothing reads.\<close>

definition fork_api :: stage_api where
  "fork_api = \<lparr>getName = (\<lambda>s. [char_of (97 + s)]), getNumOutputs = (\<lambda>s. if s = 0 then 2 else 1),
     getOutputNames = (\<lambda>s. if s = 0 then [''codes'', ''outliers''] else [''output'']),
     getRequiredInputAlignment = (\<lambda>s. if s = 0 then 4 else 6), estimateOutputSizes = (\<lambda>s ns. if s = 0 then ns @ ns else ns),
     getActualOutputSizesByName = (\<lambda>s n. None), getStageTypeId = (\<lambda>s. 0), getOutputDataType = (\<lambda>s k. 2), getInputDataType = (\<lambda>s k. 6),
     serializeHeader = (\<lambda>s k. []), isGraphCompatible = (\<lambda>s. True)\<rparr>"

definition fork_ops :: "pipe_op list" where
  "fork_ops = [PAddStage (True, True) 0, PAddStage (True, True) 1, PConnect 1 0 ''codes'', PConnect 0 7 ''output'']"

definition fork_env :: finalize_env where
  "fork_env = \<lparr>fe_ord = (\<lambda>d. rev [0..<length (nodes d)]), fe_color_ord = (\<lambda>d. map fst (buffer_table d)),
     fe_streams = (\<lambda>k. Some [1..<Suc k]), fe_specialize = None, fe_fusion = None, fe_threshold_ok = True, fe_pinned_ok = True\<rparr>"

definition fork_pipe :: pipeline where
  "fork_pipe = build_pipe fork_api fork_ops (new_pipeline 64 MINIMAL (make_pool demo_config True True) (\<lambda>_. 0))"

definition fork_done :: "pipeline res" where
  "fork_done = finalize_graph fork_api fork_env fork_pipe"

lemma fork_shape:
  "p_stages fork_pipe = [0, 1]" "map_sum id p_output_buffer_ids fork_done = Inr [1, 2]"
  "map_sum id p_needs_concat fork_done = Inr True"
  by code_simp+

theorem finalize_accepts_acyclic_witness:
  "\<exists>p'. finalize_graph fork_api fork_env fork_pipe = Inr p' \<and> finalize_result fork_api fork_pipe p' \<and>
     p_output_buffer_ids p' = [1, 2] \<and> acyclic (depends_on (p_dag fork_pipe))"
proof -
  have n: "names_ok fork_api" by (simp add: names_ok_def fork_api_def)
  have ne: "p_stages fork_pipe \<noteq> []" by (simp add: fork_shape)
  have ord: "\<And>d. distinct (fe_ord fork_env d) \<and> set (fe_ord fork_env d) = {..<length (nodes d)}" "\<forall>k. fe_streams fork_env k \<noteq> None"
    by (auto simp: fork_env_def)
  obtain p' where p': "finalize_graph fork_api fork_env fork_pipe = Inr p'" "p_output_buffer_ids p' = [1, 2]"
    using fork_shape(2) unfolding fork_done_def by (cases "finalize_graph fork_api fork_env fork_pipe") auto
  with finalize_accepts_acyclic [OF fork_pipe_def n ne ord] show ?thesis by blast
qed

end
