(* ===== verification/Inverse_Dag.thy ===== *)
theory Inverse_Dag
  imports Pipeline_Final
begin

section \<open>The inverse graph\<close>

text \<open>
  \<open>Pipeline::buildInverseDAG\<close> of \<open>src/pipeline/compressor_inverse_dag.cpp\<close>: from the forward stages in level order
  it builds the graph that runs them backwards.  The stages are in inverse mode, so \<open>api\<close> gives the
  inverse port counts.  \<open>source_sizes\<close> is the association list of the source stages with their
  uncompressed sizes, \<open>outs\<close> the map from a forward buffer id to the compressed bytes of a
  pipeline output.
\<close>

subsection \<open>Stages, edges and sinks\<close>

type_synonym inv_state = "exec_state \<times> (nat \<rightharpoonup> nat)"

definition total_uncompressed :: "(nat \<times> size_t) list \<Rightarrow> size_t" where
  "total_uncompressed source_sizes =
     (let t = foldl (+) 0 (map snd source_sizes) in if t = 0 then 1 else t)"

definition addInverseStage :: "stage_api \<Rightarrow> (nat \<Rightarrow> bool \<times> bool) \<Rightarrow> size_t \<Rightarrow> fwd_stage_desc \<Rightarrow> dag \<times> (nat \<rightharpoonup> nat) \<Rightarrow> (dag \<times> (nat \<rightharpoonup> nat)) res" where
  "addInverseStage api ev tot fd dn =
     (let (d, inv_nodes) = dn; s = fd_stage fd; e = ev (length (nodes d)) in
      res_bind (addStage (fst e) (snd e) (Some s) (getName api s) d) (\<lambda>(i, d1).
        res_bind (add_outputs api s i tot [] d1) (\<lambda>d2. Inr (d2, inv_nodes(s \<mapsto> i)))))"

text \<open>The last reader of a forward buffer: its place in the order and the port it reads at.\<close>

definition buf_to_consumer :: "fwd_stage_desc list \<Rightarrow> int \<rightharpoonup> nat \<times> nat" where
  "buf_to_consumer fwd =
     map_of (rev (concat (map (\<lambda>i. map (\<lambda>j. (fd_input_buf_ids (fwd ! i) ! j, i, j))
       (filter (\<lambda>j. 0 \<le> fd_input_buf_ids (fwd ! i) ! j) [0..<length (fd_input_buf_ids (fwd ! i))])) [0..<length fwd])))"

definition int_string :: "int \<Rightarrow> string" where
  "int_string b = (if b < 0 then ''-'' @ to_string (nat (- b)) else to_string (nat b))"

definition wire_output ::
  "fwd_stage_desc list \<Rightarrow> (int \<rightharpoonup> dptr \<times> size_t) \<Rightarrow> (nat \<rightharpoonup> nat) \<Rightarrow> nat \<Rightarrow> int \<Rightarrow> exec_state \<Rightarrow> exec_state res" where
  "wire_output fwd outs inv_nodes inv_node b x =
     (case buf_to_consumer fwd b of
        Some (ci, cp) \<Rightarrow>
          (case inv_nodes (fd_stage (fwd ! ci)) of
             None \<Rightarrow> Inl (OutOfRange ''unordered_map::at'')
           | Some inv_prod \<Rightarrow>
               res_bind (connectExistingOutput (Some inv_prod) (Some inv_node) (int cp) (x_dag x)) (\<lambda>(ok, d).
                 if ok then Inr (x\<lparr>x_dag := d\<rparr>)
                 else Inl (RuntimeError ''buildInverseDAG: connectExistingOutput failed for output '')))
      | None \<Rightarrow>
          (case outs b of
             None \<Rightarrow> Inl (RuntimeError ''buildInverseDAG: compressed buffer not found for fwd_buf_id='')
           | Some (ptr, sz) \<Rightarrow>
               res_bind (setInputBuffer inv_node sz (''inv_ext_'' @ int_string b) (x_dag x)) (\<lambda>d.
                 setExternalPointer (last (input_buffer_ids (node d inv_node))) ptr (x\<lparr>x_dag := d\<rparr>))))"

definition wire_stage ::
  "fwd_stage_desc list \<Rightarrow> (int \<rightharpoonup> dptr \<times> size_t) \<Rightarrow> (nat \<rightharpoonup> nat) \<Rightarrow> fwd_stage_desc \<Rightarrow> exec_state \<Rightarrow> exec_state res" where
  "wire_stage fwd outs inv_nodes fd x =
     (case inv_nodes (fd_stage fd) of
        None \<Rightarrow> Inl (OutOfRange ''unordered_map::at'')
      | Some i \<Rightarrow> res_fold (wire_output fwd outs inv_nodes i) (fd_output_buf_ids fd) x)"

definition mark_sink ::
  "(nat \<times> size_t) list \<Rightarrow> (nat \<rightharpoonup> nat) \<Rightarrow> fwd_stage_desc \<Rightarrow> dag \<times> (nat \<rightharpoonup> int) \<Rightarrow> (dag \<times> (nat \<rightharpoonup> int)) res" where
  "mark_sink source_sizes inv_nodes fd dr =
     (let (d, rm) = dr; s = fd_stage fd in
      if s \<notin> fst ` set source_sizes then Inr dr
      else case inv_nodes s of
        None \<Rightarrow> Inl (OutOfRange ''unordered_map::at'')
      | Some i \<Rightarrow>
          (case output_buffer_ids (node d i) of
             [] \<Rightarrow> Inl (RuntimeError ''buildInverseDAG: inv_sink has no output buffers'')
           | b # _ \<Rightarrow> res_bind (setBufferPersistent b True d) (\<lambda>d. Inr (d, rm(s \<mapsto> b)))))"

subsection \<open>Inverse fusion\<close>

text \<open>The linear chain from a source node; fuel bounds the walk by the number of nodes.\<close>

fun inv_chain :: "nat \<Rightarrow> dag \<Rightarrow> nat list \<Rightarrow> nat \<Rightarrow> nat list option" where
  "inv_chain 0 d claimed cur = None"
| "inv_chain (Suc fuel) d claimed cur =
     (if cur \<in> set claimed then Some []
      else case dependents (node d cur) of
        [c] \<Rightarrow> if length (dependencies (node d c)) = 1 then map_option ((#) cur) (inv_chain fuel d claimed c) else Some [cur]
      | _ \<Rightarrow> Some [cur])"

text \<open>From each position the longest span with an implementation, then on behind it.\<close>

function inv_spans :: "(nat list \<Rightarrow> nat option) \<Rightarrow> nat list \<Rightarrow> nat \<Rightarrow> (nat \<times> nat \<times> nat) list" where
  "inv_spans impl stages b =
     (if b + 1 < length stages
      then case List.find (\<lambda>e. impl (take (e - b) (drop b stages)) \<noteq> None) (rev [b + 2..<Suc (length stages)]) of
             None \<Rightarrow> inv_spans impl stages (b + 1)
           | Some e \<Rightarrow> (b, e, the (impl (take (e - b) (drop b stages)))) # inv_spans impl stages e
      else [])"
  by pat_completeness auto
termination
proof (relation "measure (\<lambda>(impl, stages, b). length stages - b)", goal_cases)
  case (3 impl stages b e)
  then have "e \<in> set (rev [b + 2..<Suc (length stages)])" by (metis find_Some_iff nth_mem)
  with 3(1) show ?case by auto
qed auto

declare inv_spans.simps [simp del]

definition span_group :: "dag \<Rightarrow> nat list \<Rightarrow> nat \<times> nat \<times> nat \<Rightarrow> fused_group_exec" where
  "span_group d chain sp =
     (let (b, e, impl) = sp; members = take (e - b) (drop b chain) in
      \<lparr>fg_head = hd members, fg_tail = last members, fg_members = members, fg_stages = map (stage_of d) members, fg_impl = impl\<rparr>)"

definition fuse_from ::
  "(nat \<Rightarrow> stage_decl) \<Rightarrow> dag \<Rightarrow> nat \<Rightarrow> nat list \<times> fused_group_exec list \<Rightarrow> (nat list \<times> fused_group_exec list) option" where
  "fuse_from decl d start cg =
     (let (claimed, installed) = cg in
      if dependencies (node d start) \<noteq> [] \<or> start \<in> set claimed then Some cg
      else map_option (\<lambda>chain.
             let fgs = map (span_group d chain) (inv_spans (\<lambda>span. findFusedImpl (map decl span) False) (map (stage_of d) chain) 0)
             in (claimed @ concat (map fg_members fgs), installed @ fgs))
           (inv_chain (length (nodes d)) d claimed start))"

fun fuse_all :: "(nat \<Rightarrow> stage_decl) \<Rightarrow> dag \<Rightarrow> nat list \<Rightarrow> nat list \<times> fused_group_exec list \<Rightarrow> (nat list \<times> fused_group_exec list) option" where
  "fuse_all decl d [] cg = Some cg"
| "fuse_all decl d (i # ks) cg = (case fuse_from decl d i cg of None \<Rightarrow> None | Some cg' \<Rightarrow> fuse_all decl d ks cg')"

definition installInverseFusion :: "(nat \<Rightarrow> stage_decl) \<Rightarrow> dag \<Rightarrow> dag option" where
  "installInverseFusion decl d =
     map_option (\<lambda>(claimed, installed). if installed = [] then d else setFusedGroups installed d)
       (fuse_all decl d [0..<length (nodes d)] ([], []))"

subsection \<open>The whole construction\<close>

definition grow_result :: "(nat \<times> size_t) list \<Rightarrow> (nat \<rightharpoonup> int) \<Rightarrow> fwd_stage_desc \<Rightarrow> dag \<Rightarrow> dag res" where
  "grow_result source_sizes rm fd d =
     (case (map_of source_sizes (fd_stage fd), rm (fd_stage fd)) of
        (Some sz, Some b) \<Rightarrow> res_bind (getBufferSize b d) (\<lambda>est. updateBufferSize b (max est sz) d)
      | _ \<Rightarrow> Inr d)"

text \<open>Steps 1 to 3 of the source: nodes, edges, sinks.\<close>

definition wireInverseDAG ::
  "stage_api \<Rightarrow> (nat \<Rightarrow> bool \<times> bool) \<Rightarrow> fwd_stage_desc list \<Rightarrow> (int \<rightharpoonup> dptr \<times> size_t) \<Rightarrow> (nat \<times> size_t) list \<Rightarrow> exec_state
   \<Rightarrow> (exec_state \<times> (nat \<rightharpoonup> int)) res" where
  "wireInverseDAG api ev fwd outs source_sizes x =
     res_bind (res_fold (addInverseStage api ev (total_uncompressed source_sizes)) (rev fwd) (x_dag x, Map.empty)) (\<lambda>(d, inv_nodes).
     res_bind (res_fold (wire_stage fwd outs inv_nodes) fwd (x\<lparr>x_dag := d\<rparr>)) (\<lambda>x1.
     res_bind (res_fold (mark_sink source_sizes inv_nodes) fwd (x_dag x1, Map.empty)) (\<lambda>(d, rm).
       if rm = Map.empty then Inl (RuntimeError ''buildInverseDAG: no source stages found in forward topology'')
       else Inr (x1\<lparr>x_dag := d\<rparr>, rm))))"

text \<open>Steps 4 and 5, and the preallocation.\<close>

definition sizeInverseDAG ::
  "stage_api \<Rightarrow> stage_env \<Rightarrow> finalize_env \<Rightarrow> fwd_stage_desc list \<Rightarrow> (nat \<times> size_t) list \<Rightarrow> (nat \<rightharpoonup> int) \<Rightarrow> exec_state \<Rightarrow> exec_state res" where
  "sizeInverseDAG api env fe fwd source_sizes rm x =
     (case dag_finalize (fe_ord fe (x_dag x)) (fe_streams fe) (x_dag x) of
        (_, Inl e) \<Rightarrow> Inl e
      | (d, Inr _) \<Rightarrow>
          res_bind (propagate_levels api d) (\<lambda>d.
          res_bind (res_fold (grow_result source_sizes rm) fwd d) (\<lambda>d.
            if strategy d = PREALLOCATE then preallocateBuffers env (fe_color_ord fe d) (x\<lparr>x_dag := d\<rparr>)
            else Inr (x\<lparr>x_dag := d\<rparr>))))"

text \<open>\<open>None\<close>: the fuel of the fusion walk ran out.\<close>

definition buildInverseDAG ::
  "stage_api \<Rightarrow> stage_env \<Rightarrow> (nat \<Rightarrow> stage_decl) \<Rightarrow> (nat \<Rightarrow> bool \<times> bool) \<Rightarrow> finalize_env \<Rightarrow> fwd_stage_desc list
   \<Rightarrow> (int \<rightharpoonup> dptr \<times> size_t) \<Rightarrow> memory_strategy \<Rightarrow> (nat \<times> size_t) list \<Rightarrow> bool \<Rightarrow> bool \<Rightarrow> pool \<times> dev_mem
   \<Rightarrow> (exec_state \<times> (nat \<rightharpoonup> int)) res option" where
  "buildInverseDAG api env decl ev fe fwd outs strat source_sizes profiling fusion pm =
     (let d0 = (if profiling then dag_enableProfiling True (new_dag strat) else new_dag strat) in
      case wireInverseDAG api ev fwd outs source_sizes \<lparr>x_dag = d0, x_pool = fst pm, x_mem = snd pm, x_trace = []\<rparr> of
        Inl e \<Rightarrow> Some (Inl e)
      | Inr (x, rm) \<Rightarrow>
          map_option (\<lambda>d. map_sum id (\<lambda>x. (x, rm)) (sizeInverseDAG api env fe fwd source_sizes rm (x\<lparr>x_dag := d\<rparr>)))
            (if fusion then installInverseFusion decl (x_dag x) else Some (x_dag x)))"

subsection \<open>Forward topologies\<close>

text \<open>
  What the level order of a finalized forward graph gives: distinct stages, every buffer written once, every
  reader behind the writer.
\<close>

definition topo_ok :: "fwd_stage_desc list \<Rightarrow> bool" where
  "topo_ok fwd \<longleftrightarrow> distinct (map fd_stage fwd) \<and>
     (\<forall>i<length fwd. \<forall>b\<in>set (fd_output_buf_ids (fwd ! i)). 0 \<le> b) \<and>
     (\<forall>i<length fwd. \<forall>k<length fwd. \<forall>b\<in>set (fd_output_buf_ids (fwd ! i)). b \<in> set (fd_input_buf_ids (fwd ! k)) \<longrightarrow> i < k)"

lemma buf_to_consumer_Some:
  assumes "buf_to_consumer fwd b = Some (c, k)"
  shows "c < length fwd" "k < length (fd_input_buf_ids (fwd ! c))" "fd_input_buf_ids (fwd ! c) ! k = b"
  using map_of_SomeD [OF assms [unfolded buf_to_consumer_def]] by auto

lemma buf_to_consumer_None:
  assumes "buf_to_consumer fwd b = None" "0 \<le> b" "c < length fwd"
  shows "b \<notin> set (fd_input_buf_ids (fwd ! c))"
proof
  assume "b \<in> set (fd_input_buf_ids (fwd ! c))"
  then obtain k where "k < length (fd_input_buf_ids (fwd ! c))" "fd_input_buf_ids (fwd ! c) ! k = b" by (auto simp: in_set_conv_nth)
  with assms show False unfolding buf_to_consumer_def map_of_eq_None_iff by (fastforce simp: image_iff)
qed

text \<open>The inverse node of forward stage \<open>i\<close>.\<close>

abbreviation inv_of :: "fwd_stage_desc list \<Rightarrow> nat \<Rightarrow> nat" where
  "inv_of fwd i \<equiv> length fwd - 1 - i"

subsection \<open>Step 1: nodes\<close>

definition bare_node :: "stage_api \<Rightarrow> dag \<Rightarrow> nat \<Rightarrow> nat \<Rightarrow> bool" where
  "bare_node api d i s \<longleftrightarrow> n_stage (node d i) = Some s \<and> input_buffer_ids (node d i) = [] \<and> dependencies (node d i) = [] \<and>
     (\<exists>b. output_index_to_buffer_id (node d i) = out_ports b (getNumOutputs api s) \<and> output_buffer_ids (node d i) = out_ids b (getNumOutputs api s))"

text \<open>
  What no step of the construction touches, and what holds of the buffers between the steps: those the graph owns are not allocated,
  external ones have no producer and are read.
\<close>

definition plain :: "dag \<Rightarrow> memory_strategy \<times> nat list \<times> int list \<times> bool" where
  "plain d = (strategy d, fused_member d, fused_internal_buffers d, capture_mode d)"

definition tidy :: "dag \<Rightarrow> bool" where
  "tidy d \<longleftrightarrow> (\<forall>q. (\<not> is_external (buf d q) \<longrightarrow> \<not> is_allocated (buf d q) \<and> allocated_size (buf d q) = 0) \<and>
     (is_external (buf d q) \<longrightarrow> producer_stage_id (buf d q) = - 1 \<and> consumer_stage_ids (buf d q) \<noteq> []))"

definition calm :: "dag \<Rightarrow> dag \<Rightarrow> bool" where
  "calm d d' \<longleftrightarrow> plain d' = plain d \<and> (tidy d \<longrightarrow> tidy d')"

lemma calm_refl: "calm d d"
  by (simp add: calm_def)

lemma calm_trans: "calm d e \<Longrightarrow> calm e f \<Longrightarrow> calm d f"
  by (simp add: calm_def)

lemma plain_simps [simp]:
  "plain (upd_buf b f d) = plain d" "plain (upd_node i g d) = plain d" "plain (link c p d) = plain d"
  "plain (push_input c b d) = plain d" "plain (push_output p k b d) = plain d"
  "plain (describe b sz tag ps ex d) = plain d" "plain (snd (fresh_buffer d)) = plain d"
  by (simp_all add: plain_def upd_buf_def upd_node_def link_def push_input_def push_output_def describe_def fresh_buffer_def Let_def)

lemma addUnconnectedOutput_calm:
  assumes "dag_wf u" "addUnconnectedOutput i sz k tag u = Inr (b, t)"
  shows "calm u t"
proof -
  have nf: "\<not> is_finalized u" using assms(2) by (auto simp: addUnconnectedOutput_def split: if_splits)
  let ?b = "next_buffer_id u"
  have t: "t = push_output i k ?b (describe ?b sz tag False False (snd (fresh_buffer u)))"
    using addUnconnectedOutput_ok [OF nf, of i sz k tag] assms(2) by simp
  have none: "buffers u ?b = None" using assms(1) by (auto simp: dag_wf_def wf_dom_def)
  have b1: "buf (snd (fresh_buffer u)) c = buf u c" for c by (simp add: fresh_buffer_def Let_def)
  have "buf t c = (if c = ?b then (new_buffer\<lparr>b_size := sz, initial_size := sz, b_tag := tag, is_persistent := False,
      is_external := False, producer_output_index := k, producer_stage_id := int (n_id (node u i))\<rparr>) else buf u c)" for c
    using buf_None [OF none] by (simp add: t push_output_def describe_def b1)
  then show ?thesis by (simp add: calm_def tidy_def new_buffer_def) (simp add: t)
qed

lemma add_outputs_calm:
  assumes "dag_wf d" "i < length (nodes d)" "add_outputs api s i sz suffix d = Inr d'"
  shows "calm d d'"
proof -
  have "dag_wf d' \<and> length (nodes d') = length (nodes d) \<and> calm d d'"
  proof (rule res_fold_inv [OF assms(3) [unfolded add_outputs_def], where P = "\<lambda>t. dag_wf t \<and> length (nodes t) = length (nodes d) \<and> calm d t"], goal_cases)
    case (2 j u t)
    then obtain b where b: "addUnconnectedOutput i sz (int j) (getName api s @ ''.'' @ output_name api s j @ suffix) u = Inr (b, t)"
      unfolding map_sum_Inr by auto
    have "length (nodes t) = length (nodes u)" using b by (auto simp: addUnconnectedOutput_def fresh_buffer_def Let_def split: if_splits)
    with addUnconnectedOutput_calm [OF _ b] addUnconnectedOutput_wf [OF _ _ b] 2(2) assms(2) show ?case using calm_trans by auto
  qed (use assms calm_refl in simp_all)
  then show ?thesis by simp
qed

lemma addInverseStage_ok:
  assumes "dag_wf d" "\<not> is_finalized d" "ev = (\<lambda>_. (True, True))"
  obtains d' where "addInverseStage api ev tot fd (d, nds) = Inr (d', nds(fd_stage fd \<mapsto> length (nodes d)))"
    "dag_wf d'" "\<not> is_finalized d'" "length (nodes d') = Suc (length (nodes d))" "\<forall>j<length (nodes d). node d' j = node d j"
    "bare_node api d' (length (nodes d)) (fd_stage fd)" "calm d d'"
proof -
  let ?s = "fd_stage fd" let ?n = "length (nodes d)"
  obtain i d1 where a: "addStage True True (Some ?s) (getName api ?s) d = Inr (i, d1)"
    using assms(2) by (simp add: addStage_def Let_def)
  note A = addStage_cases [OF a]
  have st1: "calm d d1" using a assms(2) A(11) by (auto simp: addStage_def Let_def calm_def plain_def tidy_def)
  have wf1: "dag_wf d1" using addStage_wf(1) [OF assms(1) a] .
  have l1: "length (nodes d1) = Suc ?n" using arg_cong [OF A(3), of length] by simp
  have i1: "i < length (nodes d1)" using A(1) l1 by simp
  obtain d2 where d2: "add_outputs api ?s i tot [] d1 = Inr d2" and P: "ports_added i tot (getNumOutputs api ?s) d1 d2"
    using add_outputs_spec [OF wf1 A(2) i1 A(5,6)] by blast
  note P = P [unfolded ports_added_def]
  show ?thesis
  proof (rule that)
    show "addInverseStage api ev tot fd (d, nds) = Inr (d2, nds(?s \<mapsto> ?n))"
      using a d2 A(1) assms(3) by (simp add: addInverseStage_def Let_def)
    show "\<forall>j<?n. node d2 j = node d j"
    proof (intro allI impI)
      fix j assume j: "j < ?n"
      then have "node d2 j = node d1 j" using P A(1) by simp
      also have "\<dots> = node d j" using A(3) j by (metis nth_append)
      finally show "node d2 j = node d j" .
    qed
    show "bare_node api d2 ?n ?s" using P A(1,4,7,8) by (auto simp: bare_node_def)
    show "calm d d2" using add_outputs_calm [OF wf1 i1 d2] st1 calm_trans by blast
  qed (use P l1 in simp_all)
qed

lemma addInverseStages_ok:
  assumes "dag_wf d" "\<not> is_finalized d" "ev = (\<lambda>_. (True, True))" "distinct (map fd_stage fs)"
  shows "\<exists>d' nds'. res_fold (addInverseStage api ev tot) fs (d, nds) = Inr (d', nds') \<and> dag_wf d' \<and> \<not> is_finalized d' \<and>
    calm d d' \<and> length (nodes d') = length (nodes d) + length fs \<and> (\<forall>j<length (nodes d). node d' j = node d j) \<and>
    (\<forall>k<length fs. bare_node api d' (length (nodes d) + k) (fd_stage (fs ! k)) \<and> nds' (fd_stage (fs ! k)) = Some (length (nodes d) + k)) \<and>
    (\<forall>s. s \<notin> fd_stage ` set fs \<longrightarrow> nds' s = nds s)"
  using assms(1,2,4)
proof (induction fs arbitrary: d nds)
  case (Cons f fs)
  obtain d1 where d1: "addInverseStage api ev tot f (d, nds) = Inr (d1, nds(fd_stage f \<mapsto> length (nodes d)))"
    "dag_wf d1" "\<not> is_finalized d1" "length (nodes d1) = Suc (length (nodes d))" "\<forall>j<length (nodes d). node d1 j = node d j"
    "bare_node api d1 (length (nodes d)) (fd_stage f)" "calm d d1"
    by (rule addInverseStage_ok [OF Cons.prems(1,2) assms(3), where api = api and fd = f and nds = nds and tot = tot])
  have dist: "distinct (map fd_stage fs)" "fd_stage f \<notin> fd_stage ` set fs" using Cons.prems(3) by auto
  obtain d2 nds2 where d2: "res_fold (addInverseStage api ev tot) fs (d1, nds(fd_stage f \<mapsto> length (nodes d))) = Inr (d2, nds2)"
    "dag_wf d2" "\<not> is_finalized d2" "calm d1 d2" "length (nodes d2) = length (nodes d1) + length fs"
    "\<forall>j<length (nodes d1). node d2 j = node d1 j"
    "\<forall>k<length fs. bare_node api d2 (length (nodes d1) + k) (fd_stage (fs ! k)) \<and> nds2 (fd_stage (fs ! k)) = Some (length (nodes d1) + k)"
    "\<forall>s. s \<notin> fd_stage ` set fs \<longrightarrow> nds2 s = (nds(fd_stage f \<mapsto> length (nodes d))) s"
    using Cons.IH [OF d1(2,3) dist(1), of "nds(fd_stage f \<mapsto> length (nodes d))"] by blast
  have "bare_node api d2 (length (nodes d) + k) (fd_stage ((f # fs) ! k)) \<and> nds2 (fd_stage ((f # fs) ! k)) = Some (length (nodes d) + k)"
    if "k < length (f # fs)" for k
  proof (cases k)
    case 0
    have "node d2 (length (nodes d)) = node d1 (length (nodes d))" using d2(6) d1(4) by simp
    with 0 d1(6) d2(8) dist(2) show ?thesis by (simp add: bare_node_def)
  next
    case (Suc j)
    with d2(7) d1(4) that show ?thesis by simp
  qed
  moreover have "res_fold (addInverseStage api ev tot) (f # fs) (d, nds) = Inr (d2, nds2)" using d1(1) d2(1) by simp
  moreover have "\<forall>j<length (nodes d). node d2 j = node d j" using d2(6) d1(4,5) by simp
  moreover have "calm d d2" using calm_trans [OF d1(7) d2(4)] .
  ultimately show ?case using d2 d1(4) by (intro exI [of _ d2] exI [of _ nds2]) auto
qed (auto intro: calm_refl)

subsection \<open>Step 2: edges\<close>

text \<open>
  Where the inverse stage of the writer of forward buffer \<open>b\<close> reads it: from the port of the inverse of the
  last reader at which that reader took \<open>b\<close>, or from the compressed bytes when there is no reader.
\<close>

definition input_of :: "fwd_stage_desc list \<Rightarrow> (int \<rightharpoonup> dptr \<times> size_t) \<Rightarrow> dag \<Rightarrow> int \<Rightarrow> int \<Rightarrow> bool" where
  "input_of fwd outs d b q \<longleftrightarrow>
     (case buf_to_consumer fwd b of
        Some (c, k) \<Rightarrow> map_of (output_index_to_buffer_id (node d (inv_of fwd c))) (int k) = Some q
      | None \<Rightarrow> is_external (buf d q) \<and> producer_stage_id (buf d q) = - 1 \<and> buffers d q \<noteq> None \<and> outs b = Some (d_ptr (buf d q), b_size (buf d q)))"

definition written_at :: "nat \<Rightarrow> (nat \<times> int) list \<Rightarrow> int list" where
  "written_at i dn = map snd (filter (\<lambda>e. fst e = i) dn)"

definition inv_deps :: "fwd_stage_desc list \<Rightarrow> int list \<Rightarrow> nat list" where
  "inv_deps fwd bs = concat (map (\<lambda>b. case buf_to_consumer fwd b of Some (c, k) \<Rightarrow> [inv_of fwd c] | None \<Rightarrow> []) bs)"

definition wired :: "stage_api \<Rightarrow> fwd_stage_desc list \<Rightarrow> (int \<rightharpoonup> dptr \<times> size_t) \<Rightarrow> dag \<Rightarrow> (nat \<times> int) list \<Rightarrow> bool" where
  "wired api fwd outs d dn \<longleftrightarrow>
     dag_wf d \<and> \<not> is_finalized d \<and> length (nodes d) = length fwd \<and>
     (\<forall>i<length fwd. n_stage (node d (inv_of fwd i)) = Some (fd_stage (fwd ! i)) \<and>
        (\<exists>b. output_index_to_buffer_id (node d (inv_of fwd i)) = out_ports b (getNumOutputs api (fd_stage (fwd ! i))) \<and>
             output_buffer_ids (node d (inv_of fwd i)) = out_ids b (getNumOutputs api (fd_stage (fwd ! i)))) \<and>
        dependencies (node d (inv_of fwd i)) = inv_deps fwd (written_at i dn) \<and>
        list_all2 (input_of fwd outs d) (written_at i dn) (input_buffer_ids (node d (inv_of fwd i))))"

lemma wiredD:
  assumes "wired api fwd outs d dn" "i < length fwd"
  shows "n_stage (node d (inv_of fwd i)) = Some (fd_stage (fwd ! i))"
    "\<exists>b. output_index_to_buffer_id (node d (inv_of fwd i)) = out_ports b (getNumOutputs api (fd_stage (fwd ! i))) \<and>
         output_buffer_ids (node d (inv_of fwd i)) = out_ids b (getNumOutputs api (fd_stage (fwd ! i)))"
    "dependencies (node d (inv_of fwd i)) = inv_deps fwd (written_at i dn)"
    "list_all2 (input_of fwd outs d) (written_at i dn) (input_buffer_ids (node d (inv_of fwd i)))"
  using assms unfolding wired_def by blast+

lemma written_at_snoc: "written_at i (dn @ [(j, b)]) = written_at i dn @ (if j = i then [b] else [])"
  by (simp add: written_at_def)

lemma inv_deps_snoc:
  "inv_deps fwd (bs @ [b]) = inv_deps fwd bs @ (case buf_to_consumer fwd b of Some (c, k) \<Rightarrow> [inv_of fwd c] | None \<Rightarrow> [])"
  by (simp add: inv_deps_def)

lemma inv_of_inject: "i < length fwd \<Longrightarrow> j < length fwd \<Longrightarrow> inv_of fwd i = inv_of fwd j \<longleftrightarrow> i = j"
  by auto

lemma inv_of_less: "i < length fwd \<Longrightarrow> inv_of fwd i < length fwd"
  by auto

text \<open>One more buffer wired: what a step has to give.\<close>

lemma wired_snoc:
  assumes w: "wired api fwd outs d dn" and j: "j < length fwd"
    and "dag_wf d'" "\<not> is_finalized d'" "length (nodes d') = length (nodes d)"
    and stay: "\<And>i. i < length fwd \<Longrightarrow> n_stage (node d' (inv_of fwd i)) = n_stage (node d (inv_of fwd i)) \<and>
        output_index_to_buffer_id (node d' (inv_of fwd i)) = output_index_to_buffer_id (node d (inv_of fwd i)) \<and>
        output_buffer_ids (node d' (inv_of fwd i)) = output_buffer_ids (node d (inv_of fwd i))"
    and deps: "\<And>i. i < length fwd \<Longrightarrow> dependencies (node d' (inv_of fwd i)) = dependencies (node d (inv_of fwd i)) @
        (if i = j then (case buf_to_consumer fwd b of Some (c, k) \<Rightarrow> [inv_of fwd c] | None \<Rightarrow> []) else [])"
    and ins: "\<And>i. i < length fwd \<Longrightarrow> input_buffer_ids (node d' (inv_of fwd i)) = input_buffer_ids (node d (inv_of fwd i)) @ (if i = j then [q] else [])"
    and inp: "input_of fwd outs d' b q"
    and old: "\<And>e r. is_external (buf d r) \<Longrightarrow> producer_stage_id (buf d r) = - 1 \<Longrightarrow> buffers d r \<noteq> None \<Longrightarrow>
        is_external (buf d' r) \<and> producer_stage_id (buf d' r) = - 1 \<and> buffers d' r \<noteq> None \<and> d_ptr (buf d' r) = d_ptr (buf d r) \<and> b_size (buf d' r) = b_size (buf d r)"
  shows "wired api fwd outs d' (dn @ [(j, b)])"
proof -
  have keep: "input_of fwd outs d' e r" if "input_of fwd outs d e r" for e r
    using that stay buf_to_consumer_Some(1) [of fwd e] old [of r] unfolding input_of_def by (fastforce split: option.splits)
  have "list_all2 (input_of fwd outs d') (written_at i (dn @ [(j, b)])) (input_buffer_ids (node d' (inv_of fwd i)))" if i: "i < length fwd" for i
  proof -
    have "list_all2 (input_of fwd outs d') (written_at i dn) (input_buffer_ids (node d (inv_of fwd i)))"
      using list_all2_mono [OF wiredD(4) [OF w i] keep] .
    with inp show ?thesis unfolding written_at_snoc ins [OF i] by (cases "i = j") (auto intro: list_all2_appendI)
  qed
  moreover have "dependencies (node d' (inv_of fwd i)) = inv_deps fwd (written_at i (dn @ [(j, b)]))" if i: "i < length fwd" for i
    using deps [OF i] wiredD(3) [OF w i] by (auto simp: written_at_snoc inv_deps_snoc)
  moreover have "length (nodes d') = length fwd" using w assms(5) by (simp add: wired_def)
  ultimately show ?thesis using assms(3,4) stay wiredD(1,2) [OF w] by (simp add: wired_def)
qed

lemma wire_edge:
  assumes w: "wired api fwd outs (x_dag x) dn" and j: "j < length fwd"
    and c: "buf_to_consumer fwd b = Some (c, k)" and nds: "nds (fd_stage (fwd ! c)) = Some (inv_of fwd c)"
    and ports: "length (fd_input_buf_ids (fwd ! c)) \<le> getNumOutputs api (fd_stage (fwd ! c))"
  obtains d' where "wire_output fwd outs nds (inv_of fwd j) b x = Inr (x\<lparr>x_dag := d'\<rparr>)" "wired api fwd outs d' (dn @ [(j, b)])"
    "calm (x_dag x) d'"
proof -
  let ?d = "x_dag x" let ?p = "inv_of fwd c" and ?c = "inv_of fwd j"
  note C = buf_to_consumer_Some [OF c]
  have wf: "dag_wf ?d" "\<not> is_finalized ?d" "length (nodes ?d) = length fwd" using w by (simp_all add: wired_def)
  have l: "?p < length (nodes ?d)" "?c < length (nodes ?d)" using inv_of_less C(1) j wf(3) by simp_all
  obtain b0 where "output_index_to_buffer_id (node ?d ?p) = out_ports b0 (getNumOutputs api (fd_stage (fwd ! c)))"
    using wiredD(2) [OF w C(1)] by blast
  then have q: "map_of (output_index_to_buffer_id (node ?d ?p)) (int k) = Some (b0 + int k)"
    using C(2) ports by (simp add: map_of_out_ports)
  define q where "q = b0 + int k"
  note q = q [folded q_def]
  define d' where "d' = upd_buf q (\<lambda>x. x\<lparr>b_tag := edge_tag ?d ?p ?c, is_persistent := False\<rparr>) (push_input ?c q (link ?c ?p ?d))"
  have ok: "connectExistingOutput (Some ?p) (Some ?c) (int k) ?d = Inr (True, d')"
    using q wf(2) by (simp add: connectExistingOutput_def d'_def)
  note K = connectExistingOutput_keeps [OF ok l(2,1)]
  have nd: "node d' i = (let n = node ?d i; n = (if i = ?c then n\<lparr>dependencies := dependencies n @ [?p]\<rparr> else n);
      n = (if i = ?p then n\<lparr>dependents := dependents n @ [?c]\<rparr> else n)
      in if i = ?c then n\<lparr>input_buffer_ids := input_buffer_ids n @ [q]\<rparr> else n)" for i
    using l unfolding d'_def push_input_def link_def Let_def by simp
  have ext: "r \<noteq> q" if "producer_stage_id (buf ?d r) = - 1" for r
  proof
    assume "r = q"
    have "q \<in> set (output_buffer_ids (node ?d ?p))"
      using wf_outputsD(5) [of ?d ?p q] wf(1) l(1) map_of_SomeD [OF q] by (force simp: dag_wf_def)
    then have "producer_stage_id (buf ?d q) = int ?p" using wf_outputsD(3) [of ?d ?p q] wf(1) l(1) by (simp add: dag_wf_def)
    with that \<open>r = q\<close> show False by simp
  qed
  have bf: "buf d' r = buf ?d r" if "r \<noteq> q" for r using that unfolding d'_def push_input_def link_def by simp
  have bs: "buffers d' r \<noteq> None" if "r \<noteq> q" "buffers ?d r \<noteq> None" for r
    using that unfolding d'_def push_input_def link_def by (simp add: buffers_upd)
  have "wired api fwd outs d' (dn @ [(j, b)])"
  proof (rule wired_snoc [OF w j, where q = q])
    show "dag_wf d'" using connectExistingOutput_wf [OF wf(1) l(1,2) ok] .
    show "\<not> is_finalized d'" "length (nodes d') = length (nodes ?d)" using K(2,3) by simp_all
    show "n_stage (node d' (inv_of fwd i)) = n_stage (node ?d (inv_of fwd i)) \<and>
        output_index_to_buffer_id (node d' (inv_of fwd i)) = output_index_to_buffer_id (node ?d (inv_of fwd i)) \<and>
        output_buffer_ids (node d' (inv_of fwd i)) = output_buffer_ids (node ?d (inv_of fwd i))" for i
      unfolding nd Let_def by simp
    show "dependencies (node d' (inv_of fwd i)) = dependencies (node ?d (inv_of fwd i)) @
        (if i = j then (case buf_to_consumer fwd b of Some (c, k) \<Rightarrow> [inv_of fwd c] | None \<Rightarrow> []) else [])" if "i < length fwd" for i
      using inv_of_inject [OF that j] unfolding nd Let_def c by (cases "i = j") auto
    show "input_buffer_ids (node d' (inv_of fwd i)) = input_buffer_ids (node ?d (inv_of fwd i)) @ (if i = j then [q] else [])" if "i < length fwd" for i
      using inv_of_inject [OF that j] unfolding nd Let_def by (cases "i = j") auto
    have "output_index_to_buffer_id (node d' ?p) = output_index_to_buffer_id (node ?d ?p)" unfolding nd Let_def by simp
    then show "input_of fwd outs d' b q" using q by (simp add: input_of_def c)
  qed (use ext bf bs in auto)
  moreover have "wire_output fwd outs nds ?c b x = Inr (x\<lparr>x_dag := d'\<rparr>)" using c nds ok by (simp add: wire_output_def)
  moreover have "calm ?d d'" unfolding calm_def tidy_def by (simp add: d'_def push_input_def link_def)
  ultimately show ?thesis using that by blast
qed

lemma wire_external:
  assumes w: "wired api fwd outs (x_dag x) dn" and j: "j < length fwd"
    and c: "buf_to_consumer fwd b = None" and o: "outs b = Some (ptr, sz)"
  obtains d' where "wire_output fwd outs nds (inv_of fwd j) b x = Inr (x\<lparr>x_dag := d'\<rparr>)" "wired api fwd outs d' (dn @ [(j, b)])"
    "calm (x_dag x) d'"
proof -
  let ?d = "x_dag x" let ?c = "inv_of fwd j" let ?tag = "''inv_ext_'' @ int_string b"
  have wf: "dag_wf ?d" "\<not> is_finalized ?d" "length (nodes ?d) = length fwd" using w by (simp_all add: wired_def)
  have l: "?c < length (nodes ?d)" using inv_of_less j wf(3) by simp
  define q where "q = next_buffer_id ?d"
  define d1 where "d1 = push_input ?c q (describe q sz ?tag True True (snd (fresh_buffer ?d)))"
  have ok: "setInputBuffer ?c sz ?tag ?d = Inr d1"
    using wf(2) by (simp add: setInputBuffer_def d1_def q_def fresh_buffer_def Let_def)
  note K = setInputBuffer_keeps [OF ok l]
  have none: "buffers ?d q = None" using wf(1) by (auto simp: q_def dag_wf_def wf_dom_def)
  have b0: "buf (snd (fresh_buffer ?d)) r = buf ?d r" for r by (simp add: fresh_buffer_def Let_def)
  have b1: "buf d1 r = (if r = q then new_buffer\<lparr>b_size := sz, initial_size := sz, b_tag := ?tag, is_persistent := True,
      is_external := True, consumer_stage_ids := [n_id (node ?d ?c)]\<rparr> else buf ?d r)" for r
    using buf_None [OF none] by (simp add: d1_def push_input_def describe_def b0)
  have e1: "buffers d1 r \<noteq> None \<longleftrightarrow> r = q \<or> buffers ?d r \<noteq> None" for r
    by (simp add: d1_def push_input_def describe_def fresh_buffer_def Let_def buffers_upd q_def)
  obtain r1 where r1: "buffers d1 q = Some r1" using e1 [of q] by auto
  have "r1 = buf d1 q" using r1 by (simp add: buf_def)
  then have x1: "is_external r1" using b1 [of q] by simp
  have xq: "is_external (buf d1 q) = True" using b1 [of q] by simp
  define d' where "d' = upd_buf q (\<lambda>r. r\<lparr>d_ptr := ptr, is_external := True, is_allocated := True\<rparr>) d1"
  have "last (input_buffer_ids (node d1 ?c)) = q" using K(4) by (simp add: q_def)
  then have run: "wire_output fwd outs nds ?c b x = Inr (x\<lparr>x_dag := d'\<rparr>)"
    using c o ok r1 x1 by (simp add: wire_output_def setExternalPointer_def Let_def on_dag_def d'_def)
  have wf1: "dag_wf d1" using setInputBuffer_wf [OF wf(1) l ok] .
  have nd: "node d' i = (if i = ?c then (node ?d i)\<lparr>input_buffer_ids := input_buffer_ids (node ?d i) @ [q]\<rparr> else node ?d i)" for i
    using l by (simp add: d'_def d1_def push_input_def)
  have bf: "buf d' r = (if r = q then (buf d1 q)\<lparr>d_ptr := ptr, is_external := True, is_allocated := True\<rparr> else buf ?d r)" for r
    using b1 by (simp add: d'_def)
  have bs: "buffers d' r \<noteq> None \<longleftrightarrow> r = q \<or> buffers ?d r \<noteq> None" for r using e1 by (simp add: d'_def buffers_upd)
  have "wired api fwd outs d' (dn @ [(j, b)])"
  proof (rule wired_snoc [OF w j, where q = q])
    have "dag_wf (upd_buf q (\<lambda>r. r\<lparr>d_ptr := ptr, is_external := is_external r, is_allocated := True\<rparr>) d1)"
      using e1 [of q] by (intro meta_wf wf1) simp_all
    moreover have "upd_buf q (\<lambda>r. r\<lparr>d_ptr := ptr, is_external := is_external r, is_allocated := True\<rparr>) d1 = d'"
      unfolding d'_def upd_buf_def by (simp only: xq)
    ultimately show "dag_wf d'" by simp
    show "\<not> is_finalized d'" "length (nodes d') = length (nodes ?d)" using K(2,3) by (simp_all add: d'_def)
    show "input_of fwd outs d' b q" using c o bf [of q] b1 [of q] bs [of q] by (simp add: input_of_def new_buffer_def)
    show "is_external (buf d' r) \<and> producer_stage_id (buf d' r) = - 1 \<and> buffers d' r \<noteq> None \<and> d_ptr (buf d' r) = d_ptr (buf ?d r) \<and>
        b_size (buf d' r) = b_size (buf ?d r)"
      if "is_external (buf ?d r)" "producer_stage_id (buf ?d r) = - 1" "buffers ?d r \<noteq> None" for r
      using that bf [of r] bs [of r] none by auto
  qed (use nd inv_of_inject [OF _ j] c in auto)
  moreover have "plain d' = plain ?d" by (simp add: d'_def d1_def)
  then have "calm ?d d'" using bf b1 [of q] by (simp add: calm_def tidy_def new_buffer_def)
  ultimately show ?thesis using that run by blast
qed

lemma wire_outputs:
  assumes "wired api fwd outs (x_dag x) dn" "j < length fwd"
    and nds: "\<forall>c<length fwd. nds (fd_stage (fwd ! c)) = Some (inv_of fwd c)"
    and ports: "\<forall>c<length fwd. length (fd_input_buf_ids (fwd ! c)) \<le> getNumOutputs api (fd_stage (fwd ! c))"
    and have_outs: "\<forall>b\<in>set bs. buf_to_consumer fwd b = None \<longrightarrow> outs b \<noteq> None"
  shows "\<exists>d'. res_fold (wire_output fwd outs nds (inv_of fwd j)) bs x = Inr (x\<lparr>x_dag := d'\<rparr>) \<and>
    wired api fwd outs d' (dn @ map (Pair j) bs) \<and> calm (x_dag x) d'"
  using assms(1,5)
proof (induction bs arbitrary: x dn)
  case Nil
  then show ?case by (intro exI [of _ "x_dag x"]) (simp add: calm_refl)
next
  case (Cons b bs)
  obtain d1 where d1: "wire_output fwd outs nds (inv_of fwd j) b x = Inr (x\<lparr>x_dag := d1\<rparr>)"
    "wired api fwd outs d1 (dn @ [(j, b)])" "calm (x_dag x) d1"
  proof (cases "buf_to_consumer fwd b")
    case None
    then obtain ptr sz where "outs b = Some (ptr, sz)" using Cons.prems(2) by auto
    from wire_external [OF Cons.prems(1) assms(2) None this] that show ?thesis by metis
  next
    case (Some ck)
    then obtain c k where c: "buf_to_consumer fwd b = Some (c, k)" by (cases ck) simp
    from buf_to_consumer_Some(1) [OF this] nds ports wire_edge [OF Cons.prems(1) assms(2) c] that show ?thesis by metis
  qed
  have "wired api fwd outs (x_dag (x\<lparr>x_dag := d1\<rparr>)) (dn @ [(j, b)])" using d1(2) by simp
  from Cons.IH [OF this] Cons.prems(2) obtain d2 where
    "res_fold (wire_output fwd outs nds (inv_of fwd j)) bs (x\<lparr>x_dag := d1\<rparr>) = Inr (x\<lparr>x_dag := d2\<rparr>)"
    "wired api fwd outs d2 (dn @ map (Pair j) (b # bs))" "calm d1 d2" by auto
  with d1 calm_trans show ?case by (intro exI [of _ d2]) auto
qed

definition all_written :: "fwd_stage_desc list \<Rightarrow> nat \<Rightarrow> (nat \<times> int) list" where
  "all_written fwd n = concat (map (\<lambda>i. map (Pair i) (fd_output_buf_ids (fwd ! i))) [0..<n])"

lemma written_at_all: "written_at i (all_written fwd n) = (if i < n then fd_output_buf_ids (fwd ! i) else [])"
proof (induction n)
  case (Suc n)
  have "written_at i (xs @ ys) = written_at i xs @ written_at i ys" for xs ys by (simp add: written_at_def)
  moreover have "written_at i (map (Pair n) bs) = (if i = n then bs else [])" for bs :: "int list"
    by (auto simp: written_at_def comp_def filter_map)
  ultimately show ?case using Suc by (simp add: all_written_def)
qed (simp add: all_written_def written_at_def)

lemma wire_stages:
  assumes "wired api fwd outs (x_dag x) []"
    and nds: "\<forall>c<length fwd. nds (fd_stage (fwd ! c)) = Some (inv_of fwd c)"
    and ports: "\<forall>c<length fwd. length (fd_input_buf_ids (fwd ! c)) \<le> getNumOutputs api (fd_stage (fwd ! c))"
    and have_outs: "\<forall>i<length fwd. \<forall>b\<in>set (fd_output_buf_ids (fwd ! i)). buf_to_consumer fwd b = None \<longrightarrow> outs b \<noteq> None"
    and "n \<le> length fwd"
  shows "\<exists>d'. res_fold (wire_stage fwd outs nds) (take n fwd) x = Inr (x\<lparr>x_dag := d'\<rparr>) \<and>
    wired api fwd outs d' (all_written fwd n) \<and> calm (x_dag x) d'"
  using assms(5)
proof (induction n)
  case 0
  with assms(1) show ?case by (intro exI [of _ "x_dag x"]) (simp add: all_written_def calm_refl)
next
  case (Suc n)
  then obtain d1 where d1: "res_fold (wire_stage fwd outs nds) (take n fwd) x = Inr (x\<lparr>x_dag := d1\<rparr>)"
    "wired api fwd outs d1 (all_written fwd n)" "calm (x_dag x) d1" by auto
  have n: "n < length fwd" using Suc.prems by simp
  have "wired api fwd outs (x_dag (x\<lparr>x_dag := d1\<rparr>)) (all_written fwd n)" using d1(2) by simp
  from wire_outputs [OF this n nds ports, of "fd_output_buf_ids (fwd ! n)"] have_outs n obtain d2 where
    d2: "res_fold (wire_output fwd outs nds (inv_of fwd n)) (fd_output_buf_ids (fwd ! n)) (x\<lparr>x_dag := d1\<rparr>) = Inr (x\<lparr>x_dag := d2\<rparr>)"
    "wired api fwd outs d2 (all_written fwd (Suc n))" "calm d1 d2" by (auto simp: all_written_def)
  have "take (Suc n) fwd = take n fwd @ [fwd ! n]" using n by (simp add: take_Suc_conv_app_nth)
  then have "res_fold (wire_stage fwd outs nds) (take (Suc n) fwd) x = Inr (x\<lparr>x_dag := d2\<rparr>)"
    using d1(1) d2(1) nds n by (simp add: res_fold_append wire_stage_def)
  with d2 calm_trans [OF d1(3) d2(3)] show ?case by (intro exI [of _ d2]) simp
qed

subsection \<open>Step 3: sinks\<close>

text \<open>The graph changed in nothing but the persistence of buffers of the table.\<close>

definition marked :: "dag \<Rightarrow> int set \<Rightarrow> dag \<Rightarrow> bool" where
  "marked d bs d' \<longleftrightarrow> dag_wf d' \<and> nodes d' = nodes d \<and> is_finalized d' = is_finalized d \<and> plain d' = plain d \<and>
     (\<forall>b. buffers d' b = None \<longleftrightarrow> buffers d b = None) \<and>
     (\<forall>b. buf d' b = (buf d b)\<lparr>is_persistent := (b \<in> bs \<or> is_persistent (buf d b))\<rparr>)"

lemma marked_step:
  assumes "marked d bs d1" "buffers d b \<noteq> None"
  obtains d2 where "setBufferPersistent b True d1 = Inr d2" "marked d (insert b bs) d2"
proof -
  let ?d2 = "upd_buf b (\<lambda>x. x\<lparr>is_persistent := True\<rparr>) d1"
  note M = assms(1) [unfolded marked_def]
  have n: "buffers d1 b \<noteq> None" using M assms(2) by simp
  have wf: "dag_wf ?d2" using M n by (intro meta_wf) simp_all
  have "marked d (insert b bs) ?d2" unfolding marked_def using M wf n assms(2)
    by (auto simp: buffers_upd)
  with n show ?thesis by (intro that [of ?d2]) (simp_all add: setBufferPersistent_def)
qed

lemma marked_calm: "marked d bs d' \<Longrightarrow> calm d d'"
  by (simp add: marked_def calm_def tidy_def)

lemma produced_exists:
  assumes "dag_wf d" "i < length (nodes d)" "b \<in> set (output_buffer_ids (node d i))"
  shows "producer_stage_id (buf d b) = int i" "buffers d b \<noteq> None"
proof -
  show p: "producer_stage_id (buf d b) = int i" using wf_outputsD(3) [of d i b] assms by (simp add: dag_wf_def)
  show "buffers d b \<noteq> None"
  proof
    assume "buffers d b = None"
    from buf_None [OF this] p show False by (simp add: new_buffer_def)
  qed
qed

lemma mark_sinks:
  assumes wf: "dag_wf d" and nds: "\<forall>c<length fwd. nds (fd_stage (fwd ! c)) = Some (inv_of fwd c)"
    and len: "length (nodes d) = length fwd" and dist: "distinct (map fd_stage fwd)"
    and outs: "\<forall>i<length fwd. fd_stage (fwd ! i) \<in> fst ` set ss \<longrightarrow> output_buffer_ids (node d (inv_of fwd i)) \<noteq> []"
    and "n \<le> length fwd"
  defines "res \<equiv> \<lambda>i. hd (output_buffer_ids (node d (inv_of fwd i)))"
  defines "srcs \<equiv> \<lambda>n. {i. i < n \<and> fd_stage (fwd ! i) \<in> fst ` set ss}"
  shows "\<exists>d' rm. res_fold (mark_sink ss nds) (take n fwd) (d, Map.empty) = Inr (d', rm) \<and> marked d (res ` srcs n) d' \<and>
    (\<forall>i\<in>srcs n. rm (fd_stage (fwd ! i)) = Some (res i)) \<and> (\<forall>s. s \<notin> (\<lambda>i. fd_stage (fwd ! i)) ` srcs n \<longrightarrow> rm s = None)"
  using assms(6)
proof (induction n)
  case 0
  have "marked d {} d" using wf by (auto simp: marked_def)
  then show ?case by (intro exI [of _ d] exI [of _ Map.empty]) (simp add: srcs_def)
next
  case (Suc n)
  then obtain d1 rm where d1: "res_fold (mark_sink ss nds) (take n fwd) (d, Map.empty) = Inr (d1, rm)" "marked d (res ` srcs n) d1"
    "\<forall>i\<in>srcs n. rm (fd_stage (fwd ! i)) = Some (res i)" "\<forall>s. s \<notin> (\<lambda>i. fd_stage (fwd ! i)) ` srcs n \<longrightarrow> rm s = None" by auto
  have n: "n < length fwd" using Suc.prems by simp
  have tk: "take (Suc n) fwd = take n fwd @ [fwd ! n]" using n by (simp add: take_Suc_conv_app_nth)
  show ?case
  proof (cases "fd_stage (fwd ! n) \<in> fst ` set ss")
    case False
    then have "srcs (Suc n) = srcs n" by (auto simp: srcs_def less_Suc_eq)
    moreover have "res_fold (mark_sink ss nds) (take (Suc n) fwd) (d, Map.empty) = Inr (d1, rm)"
      using d1(1) False unfolding tk res_fold_append by (simp add: mark_sink_def Let_def)
    ultimately show ?thesis using d1 by (intro exI [of _ d1] exI [of _ rm]) simp
  next
    case True
    have src: "srcs (Suc n) = insert n (srcs n)" using True by (auto simp: srcs_def less_Suc_eq)
    obtain bs where bs: "output_buffer_ids (node d (inv_of fwd n)) = res n # bs"
      using outs n True unfolding res_def by (metis list.collapse)
    have ex: "buffers d (res n) \<noteq> None"
      using produced_exists [OF wf, of "inv_of fwd n" "res n"] bs inv_of_less [OF n] len by simp
    obtain d2 where d2: "setBufferPersistent (res n) True d1 = Inr d2" "marked d (insert (res n) (res ` srcs n)) d2"
      by (rule marked_step [OF d1(2) ex])
    have "node d1 (inv_of fwd n) = node d (inv_of fwd n)" using d1(2) by (simp add: marked_def)
    then have "mark_sink ss nds (fwd ! n) (d1, rm) = Inr (d2, rm(fd_stage (fwd ! n) \<mapsto> res n))"
      using True nds n bs d2(1) by (simp add: mark_sink_def Let_def)
    then have run: "res_fold (mark_sink ss nds) (take (Suc n) fwd) (d, Map.empty) = Inr (d2, rm(fd_stage (fwd ! n) \<mapsto> res n))"
      using d1(1) unfolding tk res_fold_append by simp
    have fresh: "fd_stage (fwd ! i) \<noteq> fd_stage (fwd ! n)" if "i \<in> srcs n" for i
      using dist that n by (auto simp: srcs_def distinct_conv_nth)
    show ?thesis
      using run d2(2) d1(3,4) fresh unfolding src by (intro exI [of _ d2] exI [of _ "rm(fd_stage (fwd ! n) \<mapsto> res n)"]) auto
  qed
qed

subsection \<open>Levels\<close>

lemma insertion_ordered_acyclic: "insertion_ordered d \<Longrightarrow> acyclic (depends_on d)"
  by (rule acyclic_subset [OF wf_acyclic [OF wf_less_than]]) (auto simp: insertion_ordered_def depends_on_def)

subsection \<open>The fusion walk ends\<close>

lemma inv_chain_total:
  assumes "\<forall>i<length (nodes d). \<forall>c\<in>set (dependents (node d i)). i < c \<and> c < length (nodes d)"
    and "cur < length (nodes d)" "length (nodes d) \<le> cur + fuel"
  shows "inv_chain fuel d claimed cur \<noteq> None"
  using assms(2,3)
proof (induction fuel arbitrary: cur)
  case (Suc fuel)
  have "inv_chain fuel d claimed c \<noteq> None" if "dependents (node d cur) = [c]" for c
  proof -
    have "cur < c \<and> c < length (nodes d)" using assms(1) Suc.prems(1) that by (metis list.set_intros(1))
    with Suc.prems show ?thesis by (intro Suc.IH) auto
  qed
  then show ?case by (auto split: list.splits)
qed simp

lemma dependents_above:
  assumes "wf_links d" "insertion_ordered d" "i < length (nodes d)" "c \<in> set (dependents (node d i))"
  shows "i < c" "c < length (nodes d)"
proof -
  show c: "c < length (nodes d)" using wf_linksD(3) [OF assms(1,3)] assms(4) by blast
  have "i \<in> set (dependencies (node d c))" using wf_linksD(4) [OF assms(1,3) c] assms(4) by (metis count_list_0_iff)
  with c assms(2) show "i < c" by (auto simp: insertion_ordered_def)
qed

lemma fuse_all_total:
  assumes "wf_links d" "insertion_ordered d" "set ks \<subseteq> {..<length (nodes d)}"
  shows "fuse_all decl d ks cg \<noteq> None"
proof -
  have up: "\<forall>i<length (nodes d). \<forall>c\<in>set (dependents (node d i)). i < c \<and> c < length (nodes d)"
    using dependents_above [OF assms(1,2)] by blast
  show ?thesis
    using assms(3)
  proof (induction ks arbitrary: cg)
    case (Cons i ks)
    have "inv_chain (length (nodes d)) d claimed i \<noteq> None" for claimed
      by (rule inv_chain_total [OF up]) (use Cons.prems in auto)
    then have "fuse_from decl d i cg \<noteq> None" by (cases cg) (simp add: fuse_from_def)
    then obtain cg' where "fuse_from decl d i cg = Some cg'" by blast
    with Cons.IH [of cg'] Cons.prems show ?case by simp
  qed simp
qed

text \<open>What fusion leaves of the graph.\<close>

lemma installInverseFusion_total:
  assumes "wf_links d" "insertion_ordered d"
  obtains fg fh fm fi where "installInverseFusion decl d =
    Some (d\<lparr>fused_groups := fg, fused_head := fh, fused_member := fm, fused_internal_buffers := fi\<rparr>)"
proof -
  obtain cl ins where f: "fuse_all decl d [0..<length (nodes d)] ([], []) = Some (cl, ins)"
    using fuse_all_total [OF assms, of "[0..<length (nodes d)]" decl "([], [])"] by (auto simp: atLeast0LessThan)
  show ?thesis
  proof (cases "ins = []")
    case True
    have "d = d\<lparr>fused_groups := fused_groups d, fused_head := fused_head d, fused_member := fused_member d,
        fused_internal_buffers := fused_internal_buffers d\<rparr>" by simp
    moreover have "installInverseFusion decl d = Some d" using f True by (simp add: installInverseFusion_def)
    ultimately show ?thesis using that by metis
  next
    case False
    with f that show ?thesis by (simp add: installInverseFusion_def setFusedGroups_def)
  qed
qed

subsection \<open>Sizes\<close>

text \<open>The graph changed in nothing but the sizes of buffers a stage produces.\<close>

definition sized :: "dag \<Rightarrow> dag \<Rightarrow> bool" where
  "sized d d' \<longleftrightarrow> dag_wf d' \<and> nodes d' = nodes d \<and> is_finalized d' = is_finalized d \<and> plain d' = plain d \<and>
     levels d' = levels d \<and> max_level d' = max_level d \<and> (\<forall>b. buffers d' b = None \<longleftrightarrow> buffers d b = None) \<and>
     (\<forall>b. buf d' b = (buf d b)\<lparr>b_size := b_size (buf d' b), initial_size := initial_size (buf d' b)\<rparr>) \<and>
     (\<forall>b. producer_stage_id (buf d b) = - 1 \<longrightarrow> buf d' b = buf d b)"

lemma sized_refl: "dag_wf d \<Longrightarrow> sized d d"
  by (simp add: sized_def)

lemma sized_fields:
  assumes "sized d d'"
  shows "producer_stage_id (buf d' b) = producer_stage_id (buf d b)" "consumer_stage_ids (buf d' b) = consumer_stage_ids (buf d b)"
    "is_persistent (buf d' b) = is_persistent (buf d b)" "is_external (buf d' b) = is_external (buf d b)" "d_ptr (buf d' b) = d_ptr (buf d b)"
proof -
  have e: "buf d' b = (buf d b)\<lparr>b_size := b_size (buf d' b), initial_size := initial_size (buf d' b)\<rparr>" using assms unfolding sized_def by blast
  show "producer_stage_id (buf d' b) = producer_stage_id (buf d b)" by (subst e) simp
  show "consumer_stage_ids (buf d' b) = consumer_stage_ids (buf d b)" by (subst e) simp
  show "is_persistent (buf d' b) = is_persistent (buf d b)" by (subst e) simp
  show "is_external (buf d' b) = is_external (buf d b)" by (subst e) simp
  show "d_ptr (buf d' b) = d_ptr (buf d b)" by (subst e) simp
qed

lemma resize_twice: "x\<lparr>b_size := s, initial_size := t\<rparr>\<lparr>b_size := s', initial_size := t'\<rparr> = x\<lparr>b_size := s', initial_size := t'\<rparr>"
  for x :: buffer_info
  by simp

lemma sized_trans:
  assumes "sized d e" "sized e f"
  shows "sized d f"
proof -
  have "buf f b = (buf d b)\<lparr>b_size := b_size (buf f b), initial_size := initial_size (buf f b)\<rparr>" for b
  proof -
    have "buf f b = (buf e b)\<lparr>b_size := b_size (buf f b), initial_size := initial_size (buf f b)\<rparr>"
      "buf e b = (buf d b)\<lparr>b_size := b_size (buf e b), initial_size := initial_size (buf e b)\<rparr>" using assms unfolding sized_def by blast+
    then show ?thesis by (metis resize_twice)
  qed
  moreover have "producer_stage_id (buf e b) = producer_stage_id (buf d b)" for b using sized_fields(1) [OF assms(1)] .
  ultimately show ?thesis using assms unfolding sized_def by simp
qed

lemma sized_update:
  assumes "dag_wf d" "buffers d b \<noteq> None" "producer_stage_id (buf d b) \<noteq> - 1"
  shows "updateBufferSize b n d = Inr (upd_buf b (\<lambda>x. x\<lparr>b_size := n, initial_size := n\<rparr>) d)"
    "sized d (upd_buf b (\<lambda>x. x\<lparr>b_size := n, initial_size := n\<rparr>) d)"
proof -
  let ?d = "upd_buf b (\<lambda>x. x\<lparr>b_size := n, initial_size := n\<rparr>) d"
  show "updateBufferSize b n d = Inr ?d" using assms(2) by (auto simp: updateBufferSize_def)
  have wf: "dag_wf ?d" by (rule meta_wf [OF assms(1,2)]) simp_all
  have "buf ?d r = (buf d r)\<lparr>b_size := b_size (buf ?d r), initial_size := initial_size (buf ?d r)\<rparr>" for r
    by (cases "r = b") simp_all
  with wf assms show "sized d ?d" unfolding sized_def by (auto simp: buffers_upd) (simp_all add: upd_buf_def)
qed

lemma input_exists:
  assumes "dag_wf d" "i < length (nodes d)" "b \<in> set (input_buffer_ids (node d i))"
  shows "buffers d b \<noteq> None"
proof
  assume n: "buffers d b = None"
  have "count_list (consumer_stage_ids (buf d b)) i \<noteq> 0"
    using wf_inputsD(2) [of d i b] assms unfolding dag_wf_def by (metis count_list_0_iff)
  with buf_None [OF n] show False by (simp add: new_buffer_def)
qed

lemma collect_sizes: "res_fold (\<lambda>r acc. map_sum id (\<lambda>n. acc @ [n]) r) (map Inr ns) acc = Inr (acc @ ns)"
  by (induction ns arbitrary: acc) simp_all

lemma update_sizes:
  assumes "dag_wf e" "distinct (map fst us)" "\<forall>(b, n)\<in>set us. producer_stage_id (buf e b) \<noteq> - 1 \<and> buffers e b \<noteq> None"
  shows "\<exists>e'. res_fold (\<lambda>(b, n) d. updateBufferSize b n d) us e = Inr e' \<and> sized e e' \<and>
    (\<forall>(b, n)\<in>set us. b_size (buf e' b) = n) \<and> (\<forall>b. b \<notin> fst ` set us \<longrightarrow> buf e' b = buf e b)"
  using assms
proof (induction us arbitrary: e)
  case (Cons u us)
  obtain b n where u: "u = (b, n)" by fastforce
  let ?e1 = "upd_buf b (\<lambda>x. x\<lparr>b_size := n, initial_size := n\<rparr>) e"
  have e1: "updateBufferSize b n e = Inr ?e1" "sized e ?e1" using sized_update [of e b n] Cons.prems u by auto
  have "producer_stage_id (buf ?e1 r) = producer_stage_id (buf e r)" for r using sized_fields(1) [OF e1(2)] .
  moreover have "dag_wf ?e1" "buffers ?e1 r = None \<longleftrightarrow> buffers e r = None" for r using e1(2) by (simp_all add: sized_def)
  ultimately obtain e2 where e2: "res_fold (\<lambda>(b, n) d. updateBufferSize b n d) us ?e1 = Inr e2" "sized ?e1 e2"
    "\<forall>(b, n)\<in>set us. b_size (buf e2 b) = n" "\<forall>b. b \<notin> fst ` set us \<longrightarrow> buf e2 b = buf ?e1 b"
    using Cons.IH [of ?e1] Cons.prems(2,3) by auto
  have "b_size (buf e2 b) = n" using e2(4) Cons.prems(2) u by simp
  with e1 e2 u sized_trans show ?case by (intro exI [of _ e2]) auto
qed (auto intro: sized_refl)

lemma propagate_node_ok:
  fixes api :: stage_api
  assumes "dag_wf d" "i < length (nodes d)"
  defines "outs \<equiv> output_buffer_ids (node d i)"
  defines "est \<equiv> estimateOutputSizes api (stage_of d i) (map (\<lambda>b. b_size (buf d b)) (input_buffer_ids (node d i)))"
  shows "\<exists>d'. propagate_node api i d = Inr d' \<and> sized d d' \<and> (\<forall>(b, n)\<in>set (zip outs est). b_size (buf d' b) = n) \<and>
    (\<forall>b. b \<notin> set outs \<longrightarrow> buf d' b = buf d b)"
proof -
  have ins: "map (\<lambda>b. getBufferSize b d) (input_buffer_ids (node d i)) = map Inr (map (\<lambda>b. b_size (buf d b)) (input_buffer_ids (node d i)))"
    using input_exists [OF assms(1,2)] by (auto simp: getBufferSize_def buf_def split: option.splits)
  have "distinct outs" using wf_outputsD(4) [of d i] assms(1,2) by (simp add: dag_wf_def outs_def)
  then have "distinct (map fst (zip outs est))" by (simp add: map_fst_zip_take)
  moreover have "\<forall>(b, n)\<in>set (zip outs est). producer_stage_id (buf d b) \<noteq> - 1 \<and> buffers d b \<noteq> None"
    using produced_exists [OF assms(1,2)] by (auto simp: outs_def dest!: set_zip_leftD)
  ultimately obtain d' where "res_fold (\<lambda>(b, n) d. updateBufferSize b n d) (zip outs est) d = Inr d'" "sized d d'"
    "\<forall>(b, n)\<in>set (zip outs est). b_size (buf d' b) = n" "\<forall>b. b \<notin> fst ` set (zip outs est) \<longrightarrow> buf d' b = buf d b"
    using update_sizes [OF assms(1)] by blast
  moreover have "fst ` set (zip outs est) \<subseteq> set outs" by (auto dest: set_zip_leftD)
  ultimately show ?thesis
    unfolding propagate_node_def Let_def ins collect_sizes append_Nil res_bind_simps outs_def est_def by (intro exI [of _ d']) auto
qed

text \<open>
  Estimates that cover the lengths \<open>L\<close>: from sizes at least as long as a stage's inputs it estimates sizes at
  least as long as its outputs.
\<close>

definition covers :: "stage_api \<Rightarrow> dag \<Rightarrow> (int \<Rightarrow> nat) \<Rightarrow> bool" where
  "covers api d L \<longleftrightarrow>
     (\<forall>b. is_external (buf d b) \<longrightarrow> L b \<le> unat (b_size (buf d b))) \<and>
     (\<forall>i<length (nodes d). \<forall>ns. list_all2 (\<lambda>b n. L b \<le> unat n) (input_buffer_ids (node d i)) ns \<longrightarrow>
        list_all2 (\<lambda>b n. L b \<le> unat n) (output_buffer_ids (node d i)) (estimateOutputSizes api (stage_of d i) ns))"

lemma propagate_levels_ok:
  assumes wf: "dag_wf d" and topo: "topo_order d (concat (levels d))"
  obtains d' where "propagate_levels api d = Inr d'" "sized d d'"
    "\<forall>L. covers api d L \<longrightarrow> (\<forall>b. \<forall>p\<in>set (concat (levels d)). producer_stage_id (buf d b) = int p \<longrightarrow> L b \<le> unat (b_size (buf d' b)))"
proof -
  let ?xs = "concat (levels d)"
  have "\<exists>e. res_fold (propagate_node api) (take k ?xs) d = Inr e \<and> sized d e \<and>
      (\<forall>L. covers api d L \<longrightarrow> (\<forall>b. \<forall>p\<in>set (take k ?xs). producer_stage_id (buf d b) = int p \<longrightarrow> L b \<le> unat (b_size (buf e b))))"
    if "k \<le> length ?xs" for k
    using that
  proof (induction k)
    case 0
    then show ?case using sized_refl [OF wf] by simp
  next
    case (Suc k)
    then obtain e where e: "res_fold (propagate_node api) (take k ?xs) d = Inr e" "sized d e"
      "\<forall>L. covers api d L \<longrightarrow> (\<forall>b. \<forall>p\<in>set (take k ?xs). producer_stage_id (buf d b) = int p \<longrightarrow> L b \<le> unat (b_size (buf e b)))" by auto
    have k: "k < length ?xs" using Suc.prems by simp
    let ?i = "?xs ! k"
    note T = topo_orderD [OF topo k]
    have nd: "nodes e = nodes d" and wfe: "dag_wf e" using e(2) by (simp_all add: sized_def)
    have prod: "producer_stage_id (buf e b) = producer_stage_id (buf d b)" for b using sized_fields(1) [OF e(2)] .
    let ?outs = "output_buffer_ids (node d ?i)" and ?ins = "input_buffer_ids (node d ?i)"
    let ?est = "estimateOutputSizes api (stage_of d ?i) (map (\<lambda>b. b_size (buf e b)) ?ins)"
    have st: "stage_of e ?i = stage_of d ?i" using nd by (simp add: stage_of_def)
    obtain f where f: "propagate_node api ?i e = Inr f" "sized e f" "\<forall>(b, n)\<in>set (zip ?outs ?est). b_size (buf f b) = n"
      "\<forall>b. b \<notin> set ?outs \<longrightarrow> buf f b = buf e b"
      using propagate_node_ok [OF wfe, of ?i api] T(1) unfolding st nd by metis
    have tk: "take (Suc k) ?xs = take k ?xs @ [?i]" using k by (simp add: take_Suc_conv_app_nth)
    have "L b \<le> unat (b_size (buf f b))" if c: "covers api d L" and p: "p \<in> set (take (Suc k) ?xs)" "producer_stage_id (buf d b) = int p" for L b p
    proof (cases "p = ?i")
      case True
      then have b: "b \<in> set ?outs" using p(2) wf_outputsD(3) [of d ?i b] wf T(1) by (simp add: dag_wf_def)
      have "L c \<le> unat (b_size (buf e c))" if cin: "c \<in> set ?ins" for c
      proof -
        have wi: "wf_inputs d" using wf by (simp add: dag_wf_def)
        have con: "?i \<in> set (consumer_stage_ids (buf d c))" using wf_inputsD(2) [OF wi T(1), of c] cin by (metis count_list_0_iff)
        consider "producer_stage_id (buf d c) = - 1" "is_external (buf d c)"
          | q where "producer_stage_id (buf d c) = int q" "q \<in> set (take k ?xs)"
          using wf_inputsD(3) [OF wi con] T(3) by (metis int_nat_eq subsetD)
        then show ?thesis
        proof cases
          case 1
          then have "buf e c = buf d c" using e(2) by (simp add: sized_def)
          with c 1(2) show ?thesis by (simp add: covers_def)
        qed (use e(3) c in blast)
      qed
      then have "list_all2 (\<lambda>b n. L b \<le> unat n) ?ins (map (\<lambda>b. b_size (buf e b)) ?ins)" by (simp add: list_all2_conv_all_nth)
      then have la: "list_all2 (\<lambda>b n. L b \<le> unat n) ?outs ?est" using c T(1) unfolding covers_def by blast
      obtain j where j: "j < length ?outs" "?outs ! j = b" using b by (metis in_set_conv_nth)
      have "(b, ?est ! j) \<in> set (zip ?outs ?est)" using j list_all2_lengthD [OF la] by (metis nth_mem nth_zip length_zip min.idem)
      with f(3) list_all2_nthD [OF la j(1)] j(2) show ?thesis by auto
    next
      case False
      then have p': "p \<in> set (take k ?xs)" using p(1) tk by auto
      have "b \<notin> set ?outs" using p(2) False wf_outputsD(3) [of d ?i b] wf T(1) by (auto simp: dag_wf_def)
      then show ?thesis using f(4) e(3) c p' p(2) by metis
    qed
    moreover have "res_fold (propagate_node api) (take (Suc k) ?xs) d = Inr f" using e(1) f(1) by (simp add: tk res_fold_append)
    ultimately show ?case using sized_trans [OF e(2) f(2)] by blast
  qed
  from this [of "length ?xs"] that show ?thesis unfolding propagate_levels_def by auto
qed

lemma grow_results:
  assumes "dag_wf d" "\<forall>s b. rm s = Some b \<longrightarrow> buffers d b \<noteq> None \<and> producer_stage_id (buf d b) \<noteq> - 1"
  shows "\<exists>e. res_fold (grow_result ss rm) fs d = Inr e \<and> sized d e \<and> (\<forall>b. b_size (buf d b) \<le> b_size (buf e b)) \<and>
    (\<forall>fd\<in>set fs. \<forall>sz b. map_of ss (fd_stage fd) = Some sz \<longrightarrow> rm (fd_stage fd) = Some b \<longrightarrow> sz \<le> b_size (buf e b))"
  using assms
proof (induction fs arbitrary: d)
  case Nil
  then show ?case by (simp add: sized_refl)
next
  case (Cons f fs)
  obtain d1 where d1: "grow_result ss rm f d = Inr d1" "sized d d1" "\<forall>b. b_size (buf d b) \<le> b_size (buf d1 b)"
    "\<forall>sz b. map_of ss (fd_stage f) = Some sz \<longrightarrow> rm (fd_stage f) = Some b \<longrightarrow> sz \<le> b_size (buf d1 b)"
  proof (cases "map_of ss (fd_stage f) = None \<or> rm (fd_stage f) = None")
    case True
    then have "grow_result ss rm f d = Inr d" by (auto simp: grow_result_def split: option.splits)
    with True that [of d] sized_refl [OF Cons.prems(1)] show ?thesis by auto
  next
    case False
    then obtain sz b where sb: "map_of ss (fd_stage f) = Some sz" "rm (fd_stage f) = Some b" by auto
    let ?n = "max (b_size (buf d b)) sz"
    have b: "buffers d b \<noteq> None" "producer_stage_id (buf d b) \<noteq> - 1" using Cons.prems(2) sb(2) by auto
    note U = sized_update [OF Cons.prems(1) b, of ?n]
    have "getBufferSize b d = Inr (b_size (buf d b))" using b(1) by (auto simp: getBufferSize_def buf_def)
    then have "grow_result ss rm f d = Inr (upd_buf b (\<lambda>x. x\<lparr>b_size := ?n, initial_size := ?n\<rparr>) d)"
      using sb U(1) by (simp add: grow_result_def)
    then show ?thesis by (rule that) (use U(2) sb in auto)
  qed
  have "dag_wf d1" "\<forall>s b. rm s = Some b \<longrightarrow> buffers d1 b \<noteq> None \<and> producer_stage_id (buf d1 b) \<noteq> - 1"
    using d1(2) Cons.prems(2) sized_fields(1) [OF d1(2)] by (simp_all add: sized_def)
  from Cons.IH [OF this] obtain e where e: "res_fold (grow_result ss rm) fs d1 = Inr e" "sized d1 e"
    "\<forall>b. b_size (buf d1 b) \<le> b_size (buf e b)"
    "\<forall>fd\<in>set fs. \<forall>sz b. map_of ss (fd_stage fd) = Some sz \<longrightarrow> rm (fd_stage fd) = Some b \<longrightarrow> sz \<le> b_size (buf e b)" by blast
  have "\<forall>b. b_size (buf d b) \<le> b_size (buf e b)" using d1(3) e(3) order_trans by blast
  moreover have "\<forall>fd\<in>set (f # fs). \<forall>sz b. map_of ss (fd_stage fd) = Some sz \<longrightarrow> rm (fd_stage fd) = Some b \<longrightarrow> sz \<le> b_size (buf e b)"
    using d1(4) e(3,4) order_trans unfolding list.set by blast
  ultimately show ?case using d1(1,2) e(1,2) sized_trans by (intro exI [of _ e]) auto
qed

subsection \<open>The inverse graph\<close>

text \<open>Inputs of a node stay what they are while output ports and external buffers do.\<close>

lemma input_of_transfer:
  assumes "input_of fwd outs d b q"
    and "\<And>c. c < length fwd \<Longrightarrow> output_index_to_buffer_id (node d' (inv_of fwd c)) = output_index_to_buffer_id (node d (inv_of fwd c))"
    and "producer_stage_id (buf d q) = - 1 \<Longrightarrow> is_external (buf d q) \<Longrightarrow> is_external (buf d' q) = is_external (buf d q) \<and> producer_stage_id (buf d' q) = - 1 \<and>
      (buffers d' q = None) = (buffers d q = None) \<and> d_ptr (buf d' q) = d_ptr (buf d q) \<and> b_size (buf d' q) = b_size (buf d q)"
  shows "input_of fwd outs d' b q"
proof (cases "buf_to_consumer fwd b")
  case None
  with assms(1,3) show ?thesis by (simp add: input_of_def)
next
  case (Some ck)
  obtain c k where ck: "ck = (c, k)" by fastforce
  have "c < length fwd" using buf_to_consumer_Some(1) Some ck by blast
  with assms(1,2) Some ck show ?thesis by (simp add: input_of_def)
qed

definition inverse_shape :: "fwd_stage_desc list \<Rightarrow> (int \<rightharpoonup> dptr \<times> size_t) \<Rightarrow> dag \<Rightarrow> bool" where
  "inverse_shape fwd outs d \<longleftrightarrow> dag_wf d \<and> length (nodes d) = length fwd \<and>
     (\<forall>i<length fwd. n_stage (node d (inv_of fwd i)) = Some (fd_stage (fwd ! i)) \<and>
        dependencies (node d (inv_of fwd i)) = inv_deps fwd (fd_output_buf_ids (fwd ! i)) \<and>
        list_all2 (input_of fwd outs d) (fd_output_buf_ids (fwd ! i)) (input_buffer_ids (node d (inv_of fwd i))))"

lemma inverse_shape_transfer:
  assumes "inverse_shape fwd outs d" "dag_wf d'" "length (nodes d') = length (nodes d)"
    and nd: "\<And>i. i < length (nodes d) \<Longrightarrow> n_stage (node d' i) = n_stage (node d i) \<and> dependencies (node d' i) = dependencies (node d i) \<and>
        input_buffer_ids (node d' i) = input_buffer_ids (node d i) \<and> output_index_to_buffer_id (node d' i) = output_index_to_buffer_id (node d i)"
    and ext: "\<And>q. producer_stage_id (buf d q) = - 1 \<Longrightarrow> is_external (buf d q) \<Longrightarrow> is_external (buf d' q) = is_external (buf d q) \<and> producer_stage_id (buf d' q) = - 1 \<and>
      (buffers d' q = None) = (buffers d q = None) \<and> d_ptr (buf d' q) = d_ptr (buf d q) \<and> b_size (buf d' q) = b_size (buf d q)"
  shows "inverse_shape fwd outs d'"
proof -
  have len: "length (nodes d) = length fwd" using assms(1) by (simp add: inverse_shape_def)
  have io: "input_of fwd outs d' b q" if "input_of fwd outs d b q" for b q
    using that by (rule input_of_transfer) (use nd inv_of_less len ext in auto)
  have "list_all2 (input_of fwd outs d') (fd_output_buf_ids (fwd ! i)) (input_buffer_ids (node d' (inv_of fwd i)))" if i: "i < length fwd" for i
  proof -
    have "list_all2 (input_of fwd outs d) (fd_output_buf_ids (fwd ! i)) (input_buffer_ids (node d (inv_of fwd i)))"
      using assms(1) i by (simp add: inverse_shape_def)
    moreover have "input_buffer_ids (node d' (inv_of fwd i)) = input_buffer_ids (node d (inv_of fwd i))"
      using nd [of "inv_of fwd i"] inv_of_less [OF i] len by simp
    ultimately show ?thesis using list_all2_mono [OF _ io] by simp
  qed
  moreover have "n_stage (node d' (inv_of fwd i)) = Some (fd_stage (fwd ! i)) \<and>
      dependencies (node d' (inv_of fwd i)) = inv_deps fwd (fd_output_buf_ids (fwd ! i))" if i: "i < length fwd" for i
    using assms(1) i nd [of "inv_of fwd i"] inv_of_less [OF i] len by (simp add: inverse_shape_def)
  ultimately show ?thesis using assms(2,3) len unfolding inverse_shape_def by simp
qed

lemma inverse_shape_ordered:
  assumes "topo_ok fwd" "inverse_shape fwd outs d"
  shows "insertion_ordered d" "depends_on d = {(inv_of fwd c, inv_of fwd i) | i c. i < length fwd \<and>
    (\<exists>b\<in>set (fd_output_buf_ids (fwd ! i)). \<exists>k. buf_to_consumer fwd b = Some (c, k))}"
proof -
  have len: "length (nodes d) = length fwd" using assms(2) by (simp add: inverse_shape_def)
  have mem: "p \<in> set (inv_deps fwd bs) \<longleftrightarrow> (\<exists>b\<in>set bs. \<exists>c k. buf_to_consumer fwd b = Some (c, k) \<and> p = inv_of fwd c)" for p bs
  proof (induction bs)
    case (Cons b bs)
    have "inv_deps fwd (b # bs) = inv_deps fwd [b] @ inv_deps fwd bs" by (simp add: inv_deps_def)
    moreover have "p \<in> set (inv_deps fwd [b]) \<longleftrightarrow> (\<exists>c k. buf_to_consumer fwd b = Some (c, k) \<and> p = inv_of fwd c)"
      by (cases "buf_to_consumer fwd b") (auto simp: inv_deps_def)
    ultimately show ?case using Cons by (simp del: One_nat_def)
  qed (simp add: inv_deps_def)
  have dep: "p \<in> set (dependencies (node d v)) \<longleftrightarrow>
      (\<exists>b\<in>set (fd_output_buf_ids (fwd ! inv_of fwd v)). \<exists>c k. buf_to_consumer fwd b = Some (c, k) \<and> p = inv_of fwd c)" if "v < length fwd" for p v
  proof -
    have "inv_of fwd (inv_of fwd v) = v" "inv_of fwd v < length fwd" using that by auto
    then have "dependencies (node d v) = inv_deps fwd (fd_output_buf_ids (fwd ! inv_of fwd v))"
      using assms(2) unfolding inverse_shape_def by metis
    then show ?thesis by (simp only: mem)
  qed
  show "insertion_ordered d"
    unfolding insertion_ordered_def
  proof (intro allI impI ballI)
    fix v p assume v: "v < length (nodes d)" and p: "p \<in> set (dependencies (node d v))"
    obtain b c k where b: "b \<in> set (fd_output_buf_ids (fwd ! inv_of fwd v))" "buf_to_consumer fwd b = Some (c, k)" "p = inv_of fwd c"
      using dep [of v p] p v len by auto
    have c: "c < length fwd" "b \<in> set (fd_input_buf_ids (fwd ! c))" using buf_to_consumer_Some [OF b(2)] by auto
    moreover have "inv_of fwd v < length fwd" using v len by simp
    ultimately have "inv_of fwd v < c" using assms(1) b(1) unfolding topo_ok_def by blast
    with c(1) b(3) v len show "p < v" by auto
  qed
  show "depends_on d = {(inv_of fwd c, inv_of fwd i) | i c. i < length fwd \<and>
    (\<exists>b\<in>set (fd_output_buf_ids (fwd ! i)). \<exists>k. buf_to_consumer fwd b = Some (c, k))}" (is "_ = ?E")
  proof (intro set_eqI iffI; clarify)
    fix p v assume "(p, v) \<in> depends_on d"
    then have v: "v < length fwd" "p \<in> set (dependencies (node d v))" using len by (auto simp: depends_on_def)
    from v(2) dep [OF v(1)] obtain b c k where "b \<in> set (fd_output_buf_ids (fwd ! inv_of fwd v))" "buf_to_consumer fwd b = Some (c, k)" "p = inv_of fwd c"
      by blast
    moreover have "inv_of fwd (inv_of fwd v) = v" "inv_of fwd v < length fwd" using v by auto
    ultimately show "\<exists>i c. (p, v) = (inv_of fwd c, inv_of fwd i) \<and> i < length fwd \<and>
        (\<exists>b\<in>set (fd_output_buf_ids (fwd ! i)). \<exists>k. buf_to_consumer fwd b = Some (c, k))" by metis
  next
    fix i c b k assume i: "i < length fwd" and b: "b \<in> set (fd_output_buf_ids (fwd ! i))" "buf_to_consumer fwd b = Some (c, k)"
    have "inv_of fwd (inv_of fwd i) = i" "inv_of fwd i < length fwd" using i by auto
    with dep [of "inv_of fwd i" "inv_of fwd c"] b len show "(inv_of fwd c, inv_of fwd i) \<in> depends_on d"
      by (auto simp: depends_on_def)
  qed
qed

definition inv_ports :: "stage_api \<Rightarrow> fwd_stage_desc list \<Rightarrow> dag \<Rightarrow> bool" where
  "inv_ports api fwd d \<longleftrightarrow> (\<forall>i<length fwd. \<exists>b. output_index_to_buffer_id (node d (inv_of fwd i)) = out_ports b (getNumOutputs api (fd_stage (fwd ! i))) \<and>
     output_buffer_ids (node d (inv_of fwd i)) = out_ids b (getNumOutputs api (fd_stage (fwd ! i))))"

lemma wireInverseDAG_ok:
  assumes topo: "topo_ok fwd" and ev: "ev = (\<lambda>_. (True, True))"
    and d0: "dag_wf (x_dag x)" "\<not> is_finalized (x_dag x)" "nodes (x_dag x) = []"
    and ports: "\<forall>c<length fwd. length (fd_input_buf_ids (fwd ! c)) \<le> getNumOutputs api (fd_stage (fwd ! c))"
    and have_outs: "\<forall>i<length fwd. \<forall>b\<in>set (fd_output_buf_ids (fwd ! i)). buf_to_consumer fwd b = None \<longrightarrow> outs b \<noteq> None"
    and sources: "\<forall>i<length fwd. fd_stage (fwd ! i) \<in> fst ` set ss \<longrightarrow> 0 < getNumOutputs api (fd_stage (fwd ! i))"
    and some_source: "i0 < length fwd" "fd_stage (fwd ! i0) \<in> fst ` set ss"
  obtains d rm where "wireInverseDAG api ev fwd outs ss x = Inr (x\<lparr>x_dag := d\<rparr>, rm)" "inverse_shape fwd outs d" "calm (x_dag x) d" "inv_ports api fwd d"
    "\<forall>i<length fwd. fd_stage (fwd ! i) \<in> fst ` set ss \<longrightarrow>
       (\<exists>b. rm (fd_stage (fwd ! i)) = Some b \<and> map_of (output_index_to_buffer_id (node d (inv_of fwd i))) 0 = Some b \<and> is_persistent (buf d b))"
    "\<forall>s b. rm s = Some b \<longrightarrow> buffers d b \<noteq> None \<and> producer_stage_id (buf d b) \<noteq> - 1"
proof -
  let ?n = "length fwd"
  have dist: "distinct (map fd_stage fwd)" using topo by (simp add: topo_ok_def)
  then have "distinct (map fd_stage (rev fwd))" by (simp add: rev_map [symmetric])
  from addInverseStages_ok [OF d0(1,2) ev this, of api "total_uncompressed ss" Map.empty] obtain d1 nds where
    d1: "res_fold (addInverseStage api ev (total_uncompressed ss)) (rev fwd) (x_dag x, Map.empty) = Inr (d1, nds)"
      "dag_wf d1" "\<not> is_finalized d1" "calm (x_dag x) d1" "length (nodes d1) = ?n"
      "\<forall>k<?n. bare_node api d1 k (fd_stage (rev fwd ! k)) \<and> nds (fd_stage (rev fwd ! k)) = Some k"
    using d0(3) by auto
  have bare: "bare_node api d1 (inv_of fwd i) (fd_stage (fwd ! i))" "nds (fd_stage (fwd ! i)) = Some (inv_of fwd i)" if "i < ?n" for i
  proof -
    have "rev fwd ! inv_of fwd i = fwd ! i" "inv_of fwd i < ?n" using that by (simp_all add: rev_nth)
    with d1(6) show "bare_node api d1 (inv_of fwd i) (fd_stage (fwd ! i))" "nds (fd_stage (fwd ! i)) = Some (inv_of fwd i)" by metis+
  qed
  have nds: "\<forall>c<?n. nds (fd_stage (fwd ! c)) = Some (inv_of fwd c)" using bare(2) by blast
  have "wired api fwd outs (x_dag (x\<lparr>x_dag := d1\<rparr>)) []"
    using d1(2,3,5) bare(1) by (simp add: wired_def bare_node_def written_at_def inv_deps_def)
  from wire_stages [OF this nds ports have_outs order_refl] d1(4) obtain d2 where
    d2: "res_fold (wire_stage fwd outs nds) fwd (x\<lparr>x_dag := d1\<rparr>) = Inr (x\<lparr>x_dag := d2\<rparr>)"
      "wired api fwd outs d2 (all_written fwd ?n)" "calm (x_dag x) d2" by (auto dest: calm_trans)
  have wf2: "dag_wf d2" "length (nodes d2) = ?n" using d2(2) by (simp_all add: wired_def)
  have port0: "\<exists>b. hd (output_buffer_ids (node d2 (inv_of fwd i))) = b \<and> output_buffer_ids (node d2 (inv_of fwd i)) \<noteq> [] \<and>
      map_of (output_index_to_buffer_id (node d2 (inv_of fwd i))) 0 = Some b"
    if i: "i < ?n" "fd_stage (fwd ! i) \<in> fst ` set ss" for i
  proof -
    obtain b where b: "output_index_to_buffer_id (node d2 (inv_of fwd i)) = out_ports b (getNumOutputs api (fd_stage (fwd ! i)))"
      "output_buffer_ids (node d2 (inv_of fwd i)) = out_ids b (getNumOutputs api (fd_stage (fwd ! i)))" using wiredD(2) [OF d2(2) i(1)] by blast
    have "0 < getNumOutputs api (fd_stage (fwd ! i))" using sources i by blast
    with b map_of_out_ports [of b "getNumOutputs api (fd_stage (fwd ! i))" 0] show ?thesis
      by (cases "getNumOutputs api (fd_stage (fwd ! i))") (simp_all add: out_ids_def upt_conv_Cons del: upt_Suc)
  qed
  then have ne: "\<forall>i<?n. fd_stage (fwd ! i) \<in> fst ` set ss \<longrightarrow> output_buffer_ids (node d2 (inv_of fwd i)) \<noteq> []" by blast
  let ?res = "\<lambda>i. hd (output_buffer_ids (node d2 (inv_of fwd i)))"
  let ?srcs = "{i. i < ?n \<and> fd_stage (fwd ! i) \<in> fst ` set ss}"
  from mark_sinks [OF wf2(1) nds wf2(2) dist ne order_refl] obtain d3 rm where
    d3: "res_fold (mark_sink ss nds) fwd (d2, Map.empty) = Inr (d3, rm)" "marked d2 (?res ` ?srcs) d3"
      "\<forall>i\<in>?srcs. rm (fd_stage (fwd ! i)) = Some (?res i)" "\<forall>s. s \<notin> (\<lambda>i. fd_stage (fwd ! i)) ` ?srcs \<longrightarrow> rm s = None" by auto
  note M = d3(2) [unfolded marked_def]
  have rm_src: "\<exists>i\<in>?srcs. s = fd_stage (fwd ! i) \<and> b = ?res i" if "rm s = Some b" for s b
  proof -
    have "s \<in> (\<lambda>i. fd_stage (fwd ! i)) ` ?srcs" using d3(4) that by (metis option.distinct(1))
    then obtain i where i: "i \<in> ?srcs" "s = fd_stage (fwd ! i)" by blast
    have "b = ?res i" using bspec [OF d3(3) i(1)] that i(2) by simp
    with i show ?thesis by blast
  qed
  show ?thesis
  proof (rule that)
    have "rm (fd_stage (fwd ! i0)) \<noteq> None" using d3(3) some_source by auto
    then have "rm \<noteq> Map.empty" by auto
    then show "wireInverseDAG api ev fwd outs ss x = Inr (x\<lparr>x_dag := d3\<rparr>, rm)"
      using d1(1) d2(1) d3(1) by (simp add: wireInverseDAG_def)
    have "inverse_shape fwd outs d2" using d2(2) wiredD(1,3,4) [OF d2(2)] by (simp add: inverse_shape_def wired_def written_at_all)
    then show "inverse_shape fwd outs d3"
      by (rule inverse_shape_transfer) (use M in auto)
    show "inv_ports api fwd d3" using M wiredD(2) [OF d2(2)] unfolding inv_ports_def by metis
    show "calm (x_dag x) d3" using marked_calm [OF d3(2)] d2(3) calm_trans by blast
    show "\<forall>i<?n. fd_stage (fwd ! i) \<in> fst ` set ss \<longrightarrow>
       (\<exists>b. rm (fd_stage (fwd ! i)) = Some b \<and> map_of (output_index_to_buffer_id (node d3 (inv_of fwd i))) 0 = Some b \<and> is_persistent (buf d3 b))"
    proof (intro allI impI)
      fix i assume i: "i < ?n" "fd_stage (fwd ! i) \<in> fst ` set ss"
      have "is_persistent (buf d3 (?res i))" using M i by auto
      moreover have "map_of (output_index_to_buffer_id (node d3 (inv_of fwd i))) 0 = Some (?res i)" using port0 [OF i] M by simp
      ultimately show "\<exists>b. rm (fd_stage (fwd ! i)) = Some b \<and> map_of (output_index_to_buffer_id (node d3 (inv_of fwd i))) 0 = Some b \<and> is_persistent (buf d3 b)"
        using d3(3) i by blast
    qed
    show "\<forall>s b. rm s = Some b \<longrightarrow> buffers d3 b \<noteq> None \<and> producer_stage_id (buf d3 b) \<noteq> - 1"
    proof (intro allI impI)
      fix s b assume "rm s = Some b"
      then obtain i where i: "i < ?n" "fd_stage (fwd ! i) \<in> fst ` set ss" "b = ?res i" using rm_src by blast
      have "b \<in> set (output_buffer_ids (node d2 (inv_of fwd i)))" using ne i by simp
      from produced_exists [OF wf2(1) _ this] inv_of_less [OF i(1)] wf2(2) M
      show "buffers d3 b \<noteq> None \<and> producer_stage_id (buf d3 b) \<noteq> - 1" by simp
    qed
  qed
qed

subsection \<open>Preallocation of the inverse graph\<close>

text \<open>What a preallocation may change of a graph: where the buffers it owns live.\<close>

definition unplaced :: "buffer_info \<Rightarrow> buffer_info" where
  "unplaced r = r\<lparr>d_ptr := 0, is_allocated := False, allocated_size := 0\<rparr>"

definition mem_moved :: "dag \<Rightarrow> dag \<Rightarrow> bool" where
  "mem_moved d d' \<longleftrightarrow> nodes d' = nodes d \<and> is_finalized d' = is_finalized d \<and> next_buffer_id d' = next_buffer_id d \<and>
     map fst (buffer_table d') = map fst (buffer_table d) \<and> (\<forall>b. unplaced (buf d' b) = unplaced (buf d b)) \<and>
     (\<forall>b. is_external (buf d b) \<longrightarrow> buf d' b = buf d b)"

lemma unplaced_fields:
  assumes "unplaced r = unplaced s"
  shows "is_external r = is_external s" "is_persistent r = is_persistent s" "b_size r = b_size s"
    "producer_stage_id r = producer_stage_id s" "consumer_stage_ids r = consumer_stage_ids s"
  using arg_cong [OF assms, of is_external] arg_cong [OF assms, of is_persistent] arg_cong [OF assms, of b_size]
    arg_cong [OF assms, of producer_stage_id] arg_cong [OF assms, of consumer_stage_ids] by (simp_all add: unplaced_def)

lemma mem_moved_buf: "mem_moved d d' \<Longrightarrow> unplaced (buf d' b) = unplaced (buf d b)"
  by (simp add: mem_moved_def)

lemmas mem_moved_fields = unplaced_fields [OF mem_moved_buf]

lemma mem_moved_trans:
  assumes "mem_moved d e" "mem_moved e f"
  shows "mem_moved d f"
  using assms mem_moved_fields(1) [OF assms(1)] unfolding mem_moved_def by simp

lemma mem_moved_same_table:
  "nodes d' = nodes d \<Longrightarrow> is_finalized d' = is_finalized d \<Longrightarrow> next_buffer_id d' = next_buffer_id d \<Longrightarrow> buffer_table d' = buffer_table d \<Longrightarrow> mem_moved d d'"
  by (simp add: mem_moved_def buf_def buffers_def)

lemma mem_moved_refl: "mem_moved d d"
  by (rule mem_moved_same_table) simp_all

lemma mem_moved_upd:
  assumes "b \<in> set (map fst (buffer_table d))" "\<not> is_external (buf d b)" "\<And>r. unplaced (f r) = unplaced r"
  shows "mem_moved d (upd_buf b f d)"
proof -
  have "buffers d b \<noteq> None" using assms(1) by (simp add: buffers_def map_of_eq_None_iff)
  then show ?thesis using assms(2,3) upd_buf_keys [of d b] by (simp add: mem_moved_def)
qed

lemma mem_moved_wf:
  assumes "mem_moved d d'" "dag_wf d"
  shows "dag_wf d'"
  by (rule dag_wf_transfer [OF assms(2)]) (use assms(1) mem_moved_fields [OF assms(1)] in \<open>simp_all add: mem_moved_def\<close>)

lemma fold_moved:
  assumes "\<And>b e. b \<in> set bs \<Longrightarrow> mem_moved d e \<Longrightarrow> mem_moved e (f b e)"
  shows "mem_moved d (fold f bs d)"
  by (rule fold_invariant [where Q = "\<lambda>b. b \<in> set bs" and P = "mem_moved d"]) (use assms mem_moved_trans mem_moved_refl in blast)+

lemma assign_region_moved:
  assumes "b \<in> set (map fst (buffer_table d))"
  shows "mem_moved d (assign_region b d)"
  using mem_moved_upd [OF assms] mem_moved_refl by (simp add: assign_region_def unplaced_def split: option.split)

lemma colorBuffers_moved: "mem_moved d (colorBuffers ord d)"
  by (rule mem_moved_same_table) (simp_all add: colorBuffers_def Let_def split: prod.splits)

text \<open>A device that does not run out of memory.\<close>

definition never_full :: "driver \<Rightarrow> bool" where
  "never_full drv \<longleftrightarrow> (\<forall>live n. n \<noteq> 0 \<longrightarrow> (\<exists>q. drv live n = Some q \<and> q \<noteq> 0))"

lemma pool_allocate_never_full: "never_full drv \<Longrightarrow> n \<noteq> 0 \<Longrightarrow> \<exists>q pl'. pool_allocate drv scale n tag per pl = (q, pl') \<and> q \<noteq> 0"
  unfolding never_full_def pool_allocate_def Let_def by (fastforce split: option.splits)

lemma charge_moved: "mem_moved d (charge n d)"
  by (rule mem_moved_same_table) (simp_all add: charge_def)

lemma release_moved:
  assumes "b \<in> set (map fst (buffer_table (x_dag x)))" "\<not> is_external (buf (x_dag x) b)"
  shows "mem_moved (x_dag x) (x_dag (release b x))"
proof -
  let ?d = "upd_buf b (\<lambda>r. r\<lparr>is_allocated := False, d_ptr := 0, allocated_size := 0\<rparr>) (x_dag x)"
  have "mem_moved (x_dag x) ?d" using assms by (rule mem_moved_upd) (simp add: unplaced_def)
  moreover have "mem_moved ?d (?d\<lparr>current_memory_usage := current_memory_usage (x_dag x) - allocated_size (buf (x_dag x) b)\<rparr>)"
    by (rule mem_moved_same_table) simp_all
  ultimately show ?thesis using mem_moved_trans by (simp add: release_def Let_def)
qed

lemma allocateBuffer_moved:
  assumes "never_full (se_driver env)" "b \<in> set (map fst (buffer_table (x_dag x)))"
  shows "\<exists>y. allocateBuffer env b x = Inr y \<and> mem_moved (x_dag x) (x_dag y)"
proof (cases "b \<in> set (fused_internal_buffers (x_dag x)) \<or> is_external (buf (x_dag x) b) \<or> b_size (buf (x_dag x) b) = 0 \<or>
    (is_allocated (buf (x_dag x) b) \<and> b_size (buf (x_dag x) b) \<le> allocated_size (buf (x_dag x) b))")
  case True
  then show ?thesis using mem_moved_refl charge_moved mem_moved_upd [OF assms(2)]
    by (auto simp: allocateBuffer_def Let_def on_dag_def unplaced_def)
next
  case False
  let ?r = "buf (x_dag x) b"
  define x1 where "x1 = (if is_allocated ?r then release b x else x)"
  have m1: "mem_moved (x_dag x) (x_dag x1)" using release_moved [OF assms(2)] False mem_moved_refl by (simp add: x1_def)
  obtain q pl where q: "pool_allocate (se_driver env) (se_scale env) (b_size ?r) (b_tag ?r) (is_persistent ?r) (x_pool x1) = (q, pl)" "q \<noteq> 0"
    using pool_allocate_never_full [OF assms(1)] False by blast
  let ?d = "upd_buf b (\<lambda>r. r\<lparr>d_ptr := q, is_allocated := True, allocated_size := b_size r\<rparr>) (x_dag x1)"
  have "mem_moved (x_dag x1) ?d"
    by (rule mem_moved_upd) (use m1 assms(2) False mem_moved_fields(1) [OF m1] in \<open>simp_all add: mem_moved_def unplaced_def\<close>)
  then have "mem_moved (x_dag x) (charge (b_size ?r) ?d)" using m1 charge_moved mem_moved_trans by blast
  then show ?thesis using False q unfolding x1_def by (cases "is_allocated ?r") (simp_all add: allocateBuffer_def Let_def)
qed

lemma preallocateBuffers_moved:
  assumes "never_full (se_driver env)"
  shows "\<exists>y. preallocateBuffers env ord x = Inr y \<and> mem_moved (x_dag x) (x_dag y)"
proof -
  define d where "d = (if strategy (x_dag x) = PREALLOCATE \<and> \<not> coloring_disabled (x_dag x) \<and> \<not> coloring_applied (x_dag x)
    then colorBuffers ord (x_dag x) else x_dag x)"
  have d: "mem_moved (x_dag x) d" using colorBuffers_moved mem_moved_refl by (simp add: d_def)
  show ?thesis
  proof (cases "coloring_applied d")
    case True
    obtain ptrs pl where al: "alloc_regions env (color_region_sizes d) (x_pool x) = (ptrs, pl)" by fastforce
    let ?d0 = "d\<lparr>color_region_ptrs := ptrs\<rparr>" and ?n = "foldl (+) 0 (color_region_sizes d)"
    have "mem_moved d ?d0" by (rule mem_moved_same_table) simp_all
    moreover have "mem_moved ?d0 (fold assign_region (map fst (buffer_table d)) ?d0)"
      by (rule fold_moved) (rule assign_region_moved, simp add: mem_moved_def)
    ultimately have "mem_moved (x_dag x) (charge ?n (fold assign_region (map fst (buffer_table d)) ?d0))"
      using d charge_moved mem_moved_trans by blast
    then show ?thesis using True al by (simp add: preallocateBuffers_def Let_def d_def [symmetric])
  next
    case False
    let ?f = "\<lambda>b x. if b \<in> set (fused_internal_buffers d) then Inr x else allocateBuffer env b x"
    have "\<exists>y. res_fold ?f bs z = Inr y \<and> mem_moved (x_dag z) (x_dag y)" if "set bs \<subseteq> set (map fst (buffer_table (x_dag z)))" for bs z
      using that
    proof (induction bs arbitrary: z)
      case (Cons b bs)
      then have b: "b \<in> set (map fst (buffer_table (x_dag z)))" by simp
      obtain y where y: "?f b z = Inr y" "mem_moved (x_dag z) (x_dag y)"
        using allocateBuffer_moved [OF assms b] mem_moved_refl by (cases "b \<in> set (fused_internal_buffers d)") auto
      moreover have "set bs \<subseteq> set (map fst (buffer_table (x_dag y)))" using Cons.prems y(2) by (simp add: mem_moved_def)
      ultimately show ?case using Cons.IH [of y] mem_moved_trans by fastforce
    qed (simp add: mem_moved_refl)
    from this [of "map fst (buffer_table d)" "x\<lparr>x_dag := d\<rparr>"] d mem_moved_trans show ?thesis
      using False by (simp add: preallocateBuffers_def Let_def d_def [symmetric]) blast
  qed
qed

lemma sizeInverseDAG_ok:
  assumes topo: "topo_ok fwd" and shape: "inverse_shape fwd outs (x_dag x)"
    and ord: "distinct (fe_ord fe (x_dag x))" "set (fe_ord fe (x_dag x)) = {..<length (nodes (x_dag x))}" and st: "\<forall>k. fe_streams fe k \<noteq> None"
    and rm: "\<forall>s b. rm s = Some b \<longrightarrow> buffers (x_dag x) b \<noteq> None \<and> producer_stage_id (buf (x_dag x) b) \<noteq> - 1"
  obtains d where "sizeInverseDAG api env fe fwd ss rm x =
      (if strategy (x_dag x) = PREALLOCATE then preallocateBuffers env (fe_color_ord fe d) (x\<lparr>x_dag := d\<rparr>) else Inr (x\<lparr>x_dag := d\<rparr>))"
    "inverse_shape fwd outs d" "is_finalized d"
    "\<forall>(p, c)\<in>depends_on d. n_level (node d p) < n_level (node d c)"
    "\<forall>i<length fwd. output_index_to_buffer_id (node d i) = output_index_to_buffer_id (node (x_dag x) i)"
    "\<forall>b. is_persistent (buf d b) = is_persistent (buf (x_dag x) b)"
    "\<forall>fd\<in>set fwd. \<forall>sz b. map_of ss (fd_stage fd) = Some sz \<longrightarrow> rm (fd_stage fd) = Some b \<longrightarrow> sz \<le> b_size (buf d b)"
    "snd (dag_finalize (fe_ord fe (x_dag x)) (fe_streams fe) (x_dag x)) = Inr ()"
    "sized (fst (dag_finalize (fe_ord fe (x_dag x)) (fe_streams fe) (x_dag x))) d"
    "\<forall>L. covers api (x_dag x) L \<longrightarrow> (\<forall>b. 0 \<le> producer_stage_id (buf (x_dag x) b) \<longrightarrow> L b \<le> unat (b_size (buf d b)))"
proof -
  let ?d = "x_dag x"
  have wf: "dag_wf ?d" "length (nodes ?d) = length fwd" using shape by (simp_all add: inverse_shape_def)
  have wl: "wf_links ?d" using wf(1) by (simp add: dag_wf_def)
  have ins: "insertion_ordered ?d" using inverse_shape_ordered(1) [OF topo shape] .
  define d1 where "d1 = fst (dag_finalize (fe_ord fe ?d) (fe_streams fe) ?d)"
  have fin: "snd (dag_finalize (fe_ord fe ?d) (fe_streams fe) ?d) = Inr ()"
    using finalize_ok_acyclic [OF wl ord st] insertion_ordered_acyclic [OF ins] by simp
  then have run1: "dag_finalize (fe_ord fe ?d) (fe_streams fe) ?d = (d1, Inr ())" by (simp add: d1_def prod_eq_iff)
  note R = finalize_exec_ready [OF wf(1) fin d1_def] and S = finalize_ok_shape [OF fin, folded d1_def]
  have none: "buffers d1 b = None \<longleftrightarrow> buffers ?d b = None" for b
    using R(7) by (simp add: buffers_def reset_counts_def map_of_eq_None_iff image_image case_prod_unfold)
  have shape1: "inverse_shape fwd outs d1"
    by (rule inverse_shape_transfer [OF shape R(1) S(1)]) (use R(2,8,9,11) S(6) none in auto)
  have xo: "exec_order d1 = concat (levels d1)" by (rule finalize_exec_order [OF fin d1_def])
  have to: "topo_order d1 (concat (levels d1))" "set (concat (levels d1)) = {..<length (nodes d1)}"
    using finalize_topo_order [OF wf(1) fin ins d1_def] by (simp_all add: xo)
  from propagate_levels_ok [OF R(1) to(1), of api] obtain d2 where d2: "propagate_levels api d1 = Inr d2" "sized d1 d2"
    "\<forall>L. covers api d1 L \<longrightarrow> (\<forall>b. \<forall>p\<in>set (concat (levels d1)). producer_stage_id (buf d1 b) = int p \<longrightarrow> L b \<le> unat (b_size (buf d2 b)))" by blast
  have "\<forall>s b. rm s = Some b \<longrightarrow> buffers d2 b \<noteq> None \<and> producer_stage_id (buf d2 b) \<noteq> - 1"
    using rm none R(2) sized_fields(1) [OF d2(2)] d2(2) by (simp add: sized_def)
  from grow_results [OF _ this, of ss fwd] d2(2) obtain d3 where
    d3: "res_fold (grow_result ss rm) fwd d2 = Inr d3" "sized d2 d3" "\<forall>b. b_size (buf d2 b) \<le> b_size (buf d3 b)"
      "\<forall>fd\<in>set fwd. \<forall>sz b. map_of ss (fd_stage fd) = Some sz \<longrightarrow> rm (fd_stage fd) = Some b \<longrightarrow> sz \<le> b_size (buf d3 b)"
    unfolding sized_def by blast
  have sz: "sized d1 d3" using sized_trans [OF d2(2) d3(2)] .
  note Z = sz [unfolded sized_def]
  have shape3: "inverse_shape fwd outs d3"
    by (rule inverse_shape_transfer [OF shape1]) (use Z in auto)
  have cov: "L b \<le> unat (b_size (buf d3 b))" if c: "covers api ?d L" and b: "0 \<le> producer_stage_id (buf ?d b)" for L b
  proof -
    have "covers api d1 L" using c S(1) R(2,8-10) unfolding covers_def stage_of_def by simp
    moreover have "producer_stage_id (buf d1 b) = int (nat (producer_stage_id (buf d1 b)))" using b R(2) [of b] by simp
    moreover have "nat (producer_stage_id (buf d1 b)) \<in> set (concat (levels d1))"
      using wf_outputsD(2) [of d1 b] R(1) R(2) [of b] b to(2) by (auto simp: dag_wf_def nat_less_iff)
    ultimately have "L b \<le> unat (b_size (buf d2 b))" using d2(3) by blast
    also have "\<dots> \<le> unat (b_size (buf d3 b))" using d3(3) by (simp add: word_le_nat_alt)
    finally show ?thesis .
  qed
  show ?thesis
  proof (rule that)
    have "strategy d3 = strategy ?d" using Z R(3) by (simp add: plain_def)
    then show "sizeInverseDAG api env fe fwd ss rm x =
        (if strategy ?d = PREALLOCATE then preallocateBuffers env (fe_color_ord fe d3) (x\<lparr>x_dag := d3\<rparr>) else Inr (x\<lparr>x_dag := d3\<rparr>))"
      using run1 d2(1) d3(1) by (simp add: sizeInverseDAG_def)
    show "is_finalized d3" using Z S(4) by simp
    show "\<forall>(p, c)\<in>depends_on d3. n_level (node d3 p) < n_level (node d3 c)"
    proof (intro ballI; clarify)
      fix p c assume "(p, c) \<in> depends_on d3"
      then have c: "c < length (nodes ?d)" "p \<in> set (dependencies (node ?d c))" using Z S(1,6) by (auto simp: depends_on_def)
      then have "p < c" using ins by (auto simp: insertion_ordered_def)
      with c leveled_edge [of c "nodes ?d" p] S(5) [of p] S(5) [of c] Z show "n_level (node d3 p) < n_level (node d3 c)"
        by (simp add: assignLevels_nodes)
    qed
    show "\<forall>i<length fwd. output_index_to_buffer_id (node d3 i) = output_index_to_buffer_id (node ?d i)" using Z R(11) wf(2) by simp
    show "\<forall>b. is_persistent (buf d3 b) = is_persistent (buf ?d b)" using sized_fields(3) [OF sz] R(2) by simp
  qed (use shape3 d3(4) fin sz cov d1_def in simp_all)
qed

text \<open>
  What the construction gives: \<open>e\<close> is the wired graph with fused groups installed, \<open>d\<close> the graph after \<open>finalize\<close> and the sizes.
\<close>

definition inverse_built ::
  "stage_api \<Rightarrow> finalize_env \<Rightarrow> fwd_stage_desc list \<Rightarrow> (int \<rightharpoonup> dptr \<times> size_t) \<Rightarrow> memory_strategy \<Rightarrow> (nat \<times> size_t) list \<Rightarrow> bool
   \<Rightarrow> dag \<Rightarrow> dag \<Rightarrow> (nat \<rightharpoonup> int) \<Rightarrow> bool" where
  "inverse_built api fe fwd outs strat source_sizes fusion e d rm \<longleftrightarrow>
     inverse_shape fwd outs e \<and> inv_ports api fwd e \<and> tidy e \<and> strategy e = strat \<and> \<not> capture_mode e \<and>
     (fusion \<or> fused_member e = [] \<and> fused_internal_buffers e = []) \<and>
     snd (dag_finalize (fe_ord fe e) (fe_streams fe) e) = Inr () \<and> sized (fst (dag_finalize (fe_ord fe e) (fe_streams fe) e)) d \<and>
     (\<forall>L. covers api e L \<longrightarrow> (\<forall>b. 0 \<le> producer_stage_id (buf e b) \<longrightarrow> L b \<le> unat (b_size (buf d b)))) \<and>
     inverse_shape fwd outs d \<and> is_finalized d \<and> (\<forall>(p, c)\<in>depends_on d. n_level (node d p) < n_level (node d c)) \<and>
     (\<forall>i<length fwd. \<forall>sz. map_of source_sizes (fd_stage (fwd ! i)) = Some sz \<longrightarrow>
       (\<exists>b. rm (fd_stage (fwd ! i)) = Some b \<and> map_of (output_index_to_buffer_id (node d (inv_of fwd i))) 0 = Some b \<and>
         is_persistent (buf d b) \<and> sz \<le> b_size (buf d b)))"

lemma buildInverseDAG_built:
  assumes "topo_ok fwd" "ev = (\<lambda>_. (True, True))"
    and "\<forall>c<length fwd. length (fd_input_buf_ids (fwd ! c)) \<le> getNumOutputs api (fd_stage (fwd ! c))"
    and "\<forall>i<length fwd. \<forall>b\<in>set (fd_output_buf_ids (fwd ! i)). buf_to_consumer fwd b = None \<longrightarrow> outs b \<noteq> None"
    and "\<forall>i<length fwd. fd_stage (fwd ! i) \<in> fst ` set source_sizes \<longrightarrow> 0 < getNumOutputs api (fd_stage (fwd ! i))"
    and "i0 < length fwd" "fd_stage (fwd ! i0) \<in> fst ` set source_sizes"
    and "\<forall>d. distinct (fe_ord fe d) \<and> set (fe_ord fe d) = {..<length (nodes d)}" "\<forall>k. fe_streams fe k \<noteq> None"
  obtains e d rm where "buildInverseDAG api env decl ev fe fwd outs strat source_sizes profiling fusion pm =
      Some (map_sum id (\<lambda>x. (x, rm)) (if strat = PREALLOCATE
        then preallocateBuffers env (fe_color_ord fe d) \<lparr>x_dag = d, x_pool = fst pm, x_mem = snd pm, x_trace = []\<rparr>
        else Inr \<lparr>x_dag = d, x_pool = fst pm, x_mem = snd pm, x_trace = []\<rparr>))"
    "inverse_built api fe fwd outs strat source_sizes fusion e d rm"
proof -
  define d0 where "d0 = (if profiling then dag_enableProfiling True (new_dag strat) else new_dag strat)"
  define x0 where "x0 = \<lparr>x_dag = d0, x_pool = fst pm, x_mem = snd pm, x_trace = []\<rparr>"
  have d0: "dag_wf (x_dag x0)" "\<not> is_finalized (x_dag x0)" "nodes (x_dag x0) = []" "plain (x_dag x0) = (strat, [], [], False)" "tidy (x_dag x0)"
    using new_dag_wf [of strat]
    by (auto simp: x0_def d0_def dag_enableProfiling_def new_dag_def dag_wf_defs buf_def buffers_def plain_def tidy_def new_buffer_def)
  obtain d rm where w: "wireInverseDAG api ev fwd outs source_sizes x0 = Inr (x0\<lparr>x_dag := d\<rparr>, rm)" "inverse_shape fwd outs d" "calm (x_dag x0) d" "inv_ports api fwd d"
    "\<forall>i<length fwd. fd_stage (fwd ! i) \<in> fst ` set source_sizes \<longrightarrow>
       (\<exists>b. rm (fd_stage (fwd ! i)) = Some b \<and> map_of (output_index_to_buffer_id (node d (inv_of fwd i))) 0 = Some b \<and> is_persistent (buf d b))"
    "\<forall>s b. rm s = Some b \<longrightarrow> buffers d b \<noteq> None \<and> producer_stage_id (buf d b) \<noteq> - 1"
    using wireInverseDAG_ok [OF assms(1,2) d0(1-3) assms(3-7)] by metis
  have wl: "wf_links d" using w(2) by (simp add: inverse_shape_def dag_wf_def)
  obtain fg fh fm fi where f: "(if fusion then installInverseFusion decl d else Some d) =
      Some (d\<lparr>fused_groups := fg, fused_head := fh, fused_member := fm, fused_internal_buffers := fi\<rparr>)"
  proof (cases fusion)
    case False
    have "d = d\<lparr>fused_groups := fused_groups d, fused_head := fused_head d, fused_member := fused_member d,
        fused_internal_buffers := fused_internal_buffers d\<rparr>" by simp
    with False that show ?thesis by metis
  next
    case True
    with installInverseFusion_total [OF wl inverse_shape_ordered(1) [OF assms(1) w(2)], of decl] that show ?thesis by metis
  qed
  define d1 where "d1 = d\<lparr>fused_groups := fg, fused_head := fh, fused_member := fm, fused_internal_buffers := fi\<rparr>"
  have b1: "buf d1 = buf d" "buffers d1 = buffers d" by (simp_all add: d1_def buf_def buffers_def fun_eq_iff)
  have "dag_wf d" using w(2) by (simp add: inverse_shape_def)
  then have wf1: "dag_wf d1" by (rule dag_wf_transfer) (simp_all add: b1, simp_all add: d1_def)
  define y where "y = x0\<lparr>x_dag := d1\<rparr>"
  have yd: "x_dag y = d1" by (simp add: y_def)
  have shape1: "inverse_shape fwd outs (x_dag y)"
    using inverse_shape_transfer [OF w(2) wf1] by (simp add: b1 yd) (simp add: d1_def)
  have rm1: "\<forall>s b. rm s = Some b \<longrightarrow> buffers (x_dag y) b \<noteq> None \<and> producer_stage_id (buf (x_dag y) b) \<noteq> - 1"
    using w(6) by (simp add: b1 yd)
  have strat1: "strategy (x_dag y) = strat" using w(3) d0(4) by (simp add: yd d1_def calm_def plain_def)
  obtain d2 where s: "sizeInverseDAG api env fe fwd source_sizes rm y =
      (if strategy (x_dag y) = PREALLOCATE then preallocateBuffers env (fe_color_ord fe d2) (y\<lparr>x_dag := d2\<rparr>) else Inr (y\<lparr>x_dag := d2\<rparr>))"
    "inverse_shape fwd outs d2" "is_finalized d2" "\<forall>(p, c)\<in>depends_on d2. n_level (node d2 p) < n_level (node d2 c)"
    "\<forall>i<length fwd. output_index_to_buffer_id (node d2 i) = output_index_to_buffer_id (node (x_dag y) i)"
    "\<forall>b. is_persistent (buf d2 b) = is_persistent (buf (x_dag y) b)"
    "\<forall>fd\<in>set fwd. \<forall>sz b. map_of source_sizes (fd_stage fd) = Some sz \<longrightarrow> rm (fd_stage fd) = Some b \<longrightarrow> sz \<le> b_size (buf d2 b)"
    "snd (dag_finalize (fe_ord fe (x_dag y)) (fe_streams fe) (x_dag y)) = Inr ()" "sized (fst (dag_finalize (fe_ord fe (x_dag y)) (fe_streams fe) (x_dag y))) d2"
    "\<forall>L. covers api (x_dag y) L \<longrightarrow> (\<forall>b. 0 \<le> producer_stage_id (buf (x_dag y) b) \<longrightarrow> L b \<le> unat (b_size (buf d2 b)))"
    by (rule sizeInverseDAG_ok [OF assms(1) shape1 conjunct1 [OF spec [OF assms(8)]] conjunct2 [OF spec [OF assms(8)]] assms(9) rm1])
  have s1: "sizeInverseDAG api env fe fwd source_sizes rm (x0\<lparr>x_dag := d1\<rparr>) =
      (if strat = PREALLOCATE then preallocateBuffers env (fe_color_ord fe d2) (x0\<lparr>x_dag := d2\<rparr>) else Inr (x0\<lparr>x_dag := d2\<rparr>))"
    using s(1) unfolding strat1 by (simp add: y_def)
  note s = s [unfolded yd]
  have run: "buildInverseDAG api env decl ev fe fwd outs strat source_sizes profiling fusion pm =
      map_option (\<lambda>d. map_sum id (\<lambda>x. (x, rm)) (sizeInverseDAG api env fe fwd source_sizes rm (x0\<lparr>x_dag := d\<rparr>)))
        (if fusion then installInverseFusion decl d else Some d)"
    unfolding buildInverseDAG_def Let_def d0_def [symmetric] x0_def [symmetric] w(1) by simp
  have built: "buildInverseDAG api env decl ev fe fwd outs strat source_sizes profiling fusion pm =
      Some (map_sum id (\<lambda>x. (x, rm)) (if strat = PREALLOCATE then preallocateBuffers env (fe_color_ord fe d2) (x0\<lparr>x_dag := d2\<rparr>) else Inr (x0\<lparr>x_dag := d2\<rparr>)))"
    unfolding run f [folded d1_def] option.map s1 ..
  moreover have "\<exists>b. rm (fd_stage (fwd ! i)) = Some b \<and> map_of (output_index_to_buffer_id (node d2 (inv_of fwd i))) 0 = Some b \<and>
      is_persistent (buf d2 b) \<and> sz \<le> b_size (buf d2 b)"
    if i: "i < length fwd" "map_of source_sizes (fd_stage (fwd ! i)) = Some sz" for i sz
  proof -
    have "fd_stage (fwd ! i) \<in> fst ` set source_sizes" using map_of_SomeD [OF i(2)] by force
    then obtain b where b: "rm (fd_stage (fwd ! i)) = Some b" "map_of (output_index_to_buffer_id (node d (inv_of fwd i))) 0 = Some b"
      "is_persistent (buf d b)" using w(5) i(1) by blast
    have "map_of (output_index_to_buffer_id (node d2 (inv_of fwd i))) 0 = Some b"
      using b(2) s(5) inv_of_less [OF i(1)] by (simp add: d1_def)
    with b s(6,7) i b1(1) show ?thesis by (metis nth_mem)
  qed
  ultimately have res: "\<forall>i<length fwd. \<forall>sz. map_of source_sizes (fd_stage (fwd ! i)) = Some sz \<longrightarrow>
       (\<exists>b. rm (fd_stage (fwd ! i)) = Some b \<and> map_of (output_index_to_buffer_id (node d2 (inv_of fwd i))) 0 = Some b \<and>
         is_persistent (buf d2 b) \<and> sz \<le> b_size (buf d2 b))" by blast
  have calm: "plain d = (strat, [], [], False)" "tidy d" using w(3) d0(4,5) by (simp_all add: calm_def)
  have ports1: "inv_ports api fwd d1" using w(4) by (simp add: inv_ports_def d1_def)
  have "inverse_built api fe fwd outs strat source_sizes fusion d1 d2 rm"
    unfolding inverse_built_def
  proof (intro conjI)
    show "tidy d1" using calm(2) by (simp add: tidy_def b1)
    show "strategy d1 = strat" "\<not> capture_mode d1" using calm(1) by (simp_all add: d1_def plain_def)
    show "fusion \<or> fused_member d1 = [] \<and> fused_internal_buffers d1 = []"
    proof (cases fusion)
      case False
      then have "d1 = d" using f by (simp add: d1_def)
      with calm(1) show ?thesis by (simp add: plain_def)
    qed simp
  qed (use shape1 [unfolded yd] ports1 s res in \<open>simp_all\<close>)
  moreover have "x0\<lparr>x_dag := d2\<rparr> = \<lparr>x_dag = d2, x_pool = fst pm, x_mem = snd pm, x_trace = []\<rparr>" by (simp add: x0_def)
  ultimately show ?thesis using built by (intro that) simp_all
qed

lemma buildInverseDAG_ok:
  assumes "topo_ok fwd" "ev = (\<lambda>_. (True, True))" "strat \<noteq> PREALLOCATE"
    and "\<forall>c<length fwd. length (fd_input_buf_ids (fwd ! c)) \<le> getNumOutputs api (fd_stage (fwd ! c))"
    and "\<forall>i<length fwd. \<forall>b\<in>set (fd_output_buf_ids (fwd ! i)). buf_to_consumer fwd b = None \<longrightarrow> outs b \<noteq> None"
    and "\<forall>i<length fwd. fd_stage (fwd ! i) \<in> fst ` set source_sizes \<longrightarrow> 0 < getNumOutputs api (fd_stage (fwd ! i))"
    and "i0 < length fwd" "fd_stage (fwd ! i0) \<in> fst ` set source_sizes"
    and "\<forall>d. distinct (fe_ord fe d) \<and> set (fe_ord fe d) = {..<length (nodes d)}" "\<forall>k. fe_streams fe k \<noteq> None"
  obtains e d rm where "buildInverseDAG api env decl ev fe fwd outs strat source_sizes profiling fusion pm =
      Some (Inr (\<lparr>x_dag = d, x_pool = fst pm, x_mem = snd pm, x_trace = []\<rparr>, rm))"
    "inverse_built api fe fwd outs strat source_sizes fusion e d rm"
  by (rule buildInverseDAG_built [OF assms(1,2,4-10), of env decl strat profiling fusion pm]) (rule that, simp_all add: assms(3))

lemma mem_moved_shape:
  assumes "mem_moved d d'" "inverse_shape fwd outs d"
  shows "inverse_shape fwd outs d'"
proof (rule inverse_shape_transfer [OF assms(2)])
  show "dag_wf d'" using assms mem_moved_wf by (auto simp: inverse_shape_def)
  have k: "fst ` set (buffer_table d') = fst ` set (buffer_table d)" using assms(1) unfolding mem_moved_def by (metis set_map)
  fix q assume "producer_stage_id (buf d q) = - 1" "is_external (buf d q)"
  then show "is_external (buf d' q) = is_external (buf d q) \<and> producer_stage_id (buf d' q) = - 1 \<and>
      (buffers d' q = None) = (buffers d q = None) \<and> d_ptr (buf d' q) = d_ptr (buf d q) \<and> b_size (buf d' q) = b_size (buf d q)"
    using assms(1) k by (simp add: mem_moved_def buffers_def map_of_eq_None_iff)
qed (use assms(1) in \<open>simp_all add: mem_moved_def\<close>)


text \<open>
  C10. For a forward topology in level order, whose stages in inverse mode have an output for every forward input, with at least one
  source, and for which the compressed bytes of every unread buffer are at hand, \<open>buildInverseDAG\<close> succeeds under both memory
  strategies, with and without inverse fusion, if streams and events can be created and, under PREALLOCATE, where it also colors
  and allocates the buffers, the device does not run out of memory.  The inverse of the \<open>i\<close>-th of \<open>n\<close> stages is node
  \<open>n - 1 - i\<close>; port by port it reads what the stage wrote: the output of the inverse of the stage that read the buffer, at the
  port it was read at, or the compressed bytes.  The dependencies are the forward ones reversed, every node has a higher level
  than those it reads from, and output 0 of every source stage is a persistent result buffer of at least the source's size.
\<close>

theorem inverse_dag_reverses:
  assumes "topo_ok fwd" "ev = (\<lambda>_. (True, True))" "strat = PREALLOCATE \<longrightarrow> never_full (se_driver env)"
    and "\<forall>c<length fwd. length (fd_input_buf_ids (fwd ! c)) \<le> getNumOutputs api (fd_stage (fwd ! c))"
    and "\<forall>i<length fwd. \<forall>b\<in>set (fd_output_buf_ids (fwd ! i)). buf_to_consumer fwd b = None \<longrightarrow> outs b \<noteq> None"
    and "\<forall>i<length fwd. fd_stage (fwd ! i) \<in> fst ` set source_sizes \<longrightarrow> 0 < getNumOutputs api (fd_stage (fwd ! i))"
    and "i0 < length fwd" "fd_stage (fwd ! i0) \<in> fst ` set source_sizes"
    and "\<forall>d. distinct (fe_ord fe d) \<and> set (fe_ord fe d) = {..<length (nodes d)}" "\<forall>k. fe_streams fe k \<noteq> None"
  shows "\<exists>x rm. buildInverseDAG api env decl ev fe fwd outs strat source_sizes profiling fusion pm = Some (Inr (x, rm)) \<and>
    inverse_shape fwd outs (x_dag x) \<and> is_finalized (x_dag x) \<and>
    depends_on (x_dag x) = {(inv_of fwd c, inv_of fwd i) | i c. i < length fwd \<and>
      (\<exists>b\<in>set (fd_output_buf_ids (fwd ! i)). \<exists>k. buf_to_consumer fwd b = Some (c, k))} \<and>
    (\<forall>(p, c)\<in>depends_on (x_dag x). n_level (node (x_dag x) p) < n_level (node (x_dag x) c)) \<and>
    (\<forall>i<length fwd. \<forall>sz. map_of source_sizes (fd_stage (fwd ! i)) = Some sz \<longrightarrow>
      (\<exists>b. rm (fd_stage (fwd ! i)) = Some b \<and> map_of (output_index_to_buffer_id (node (x_dag x) (inv_of fwd i))) 0 = Some b \<and>
        is_persistent (buf (x_dag x) b) \<and> sz \<le> b_size (buf (x_dag x) b)))"
proof -
  obtain e d rm where b: "buildInverseDAG api env decl ev fe fwd outs strat source_sizes profiling fusion pm =
      Some (map_sum id (\<lambda>x. (x, rm)) (if strat = PREALLOCATE
        then preallocateBuffers env (fe_color_ord fe d) \<lparr>x_dag = d, x_pool = fst pm, x_mem = snd pm, x_trace = []\<rparr>
        else Inr \<lparr>x_dag = d, x_pool = fst pm, x_mem = snd pm, x_trace = []\<rparr>))"
    "inverse_built api fe fwd outs strat source_sizes fusion e d rm"
    by (rule buildInverseDAG_built [OF assms(1,2,4-10)])
  obtain x where x: "buildInverseDAG api env decl ev fe fwd outs strat source_sizes profiling fusion pm = Some (Inr (x, rm))" "mem_moved d (x_dag x)"
  proof (cases "strat = PREALLOCATE")
    case True
    with assms(3) preallocateBuffers_moved [of env "fe_color_ord fe d" "\<lparr>x_dag = d, x_pool = fst pm, x_mem = snd pm, x_trace = []\<rparr>"]
    obtain y where "preallocateBuffers env (fe_color_ord fe d) \<lparr>x_dag = d, x_pool = fst pm, x_mem = snd pm, x_trace = []\<rparr> = Inr y"
      "mem_moved d (x_dag y)" by auto
    with True b(1) show ?thesis by (intro that [of y]) simp_all
  next
    case False
    with b(1) show ?thesis by (intro that [of "\<lparr>x_dag = d, x_pool = fst pm, x_mem = snd pm, x_trace = []\<rparr>"]) (simp_all add: mem_moved_refl)
  qed
  note B = b(2) [unfolded inverse_built_def]
  have same: "nodes (x_dag x) = nodes d" "is_finalized (x_dag x) = is_finalized d" using x(2) by (simp_all add: mem_moved_def)
  have "inverse_shape fwd outs (x_dag x)" using mem_moved_shape [OF x(2)] B by blast
  moreover have "depends_on (x_dag x) = depends_on d" using same(1) by (simp add: depends_on_def)
  ultimately show ?thesis using x(1) B same mem_moved_fields(2,3) [OF x(2)] inverse_shape_ordered(2) [OF assms(1)]
    by (intro exI [of _ x] exI [of _ rm]) simp
qed

text \<open>A split stage between two stages in a row: buffers 3 and 4 are the compressed outputs.\<close>

definition rev_fwd :: "fwd_stage_desc list" where
  "rev_fwd = [\<lparr>fd_stage = 1, fd_output_buf_ids = [1], fd_input_buf_ids = [0]\<rparr>,
     \<lparr>fd_stage = 2, fd_output_buf_ids = [2, 3], fd_input_buf_ids = [1]\<rparr>,
     \<lparr>fd_stage = 3, fd_output_buf_ids = [4], fd_input_buf_ids = [2]\<rparr>]"

definition rev_outs :: "int \<rightharpoonup> dptr \<times> size_t" where
  "rev_outs = [3 \<mapsto> (4096, 10), 4 \<mapsto> (4112, 20)]"

lemma rev_consumers:
  "buf_to_consumer rev_fwd 1 = Some (1, 0)" "buf_to_consumer rev_fwd 2 = Some (2, 0)"
  "buf_to_consumer rev_fwd 3 = None" "buf_to_consumer rev_fwd 4 = None"
  by code_simp+

lemma rev_topo: "topo_ok rev_fwd"
  by (simp add: topo_ok_def rev_fwd_def less_Suc_eq all_conj_distrib numeral_3_eq_3)

theorem inverse_dag_reverses_witness:
  "\<exists>x rm. buildInverseDAG fork_api demo_env line_decl (\<lambda>_. (True, True)) fork_env rev_fwd rev_outs PREALLOCATE [(1, 100)] True True
      (make_pool demo_config True True, \<lambda>_. 0) = Some (Inr (x, rm)) \<and>
    inverse_shape rev_fwd rev_outs (x_dag x) \<and> depends_on (x_dag x) = {(0, 1), (1, 2)} \<and>
    (\<exists>b. rm 1 = Some b \<and> is_persistent (buf (x_dag x) b) \<and> 100 \<le> b_size (buf (x_dag x) b))"
proof -
  have ord: "\<forall>d. distinct (fe_ord fork_env d) \<and> set (fe_ord fork_env d) = {..<length (nodes d)}" "\<forall>k. fe_streams fork_env k \<noteq> None"
    by (auto simp: fork_env_def)
  have nf: "never_full (se_driver demo_env)" by (simp add: never_full_def demo_env_def)
  have len: "length rev_fwd = 3" by (simp add: rev_fwd_def)
  have at: "rev_fwd ! 0 = \<lparr>fd_stage = 1, fd_output_buf_ids = [1], fd_input_buf_ids = [0]\<rparr>"
    "rev_fwd ! 1 = \<lparr>fd_stage = 2, fd_output_buf_ids = [2, 3], fd_input_buf_ids = [1]\<rparr>"
    "rev_fwd ! 2 = \<lparr>fd_stage = 3, fd_output_buf_ids = [4], fd_input_buf_ids = [2]\<rparr>" by (simp_all add: rev_fwd_def)
  have three: "(\<forall>i<length rev_fwd. P i) \<longleftrightarrow> P 0 \<and> P 1 \<and> P 2" for P
    unfolding len by (auto simp: less_Suc_eq numeral_3_eq_3 numeral_2_eq_2)
  have ports: "\<forall>c<length rev_fwd. length (fd_input_buf_ids (rev_fwd ! c)) \<le> getNumOutputs fork_api (fd_stage (rev_fwd ! c))"
    unfolding three at by (simp add: fork_api_def)
  have have_outs: "\<forall>i<length rev_fwd. \<forall>b\<in>set (fd_output_buf_ids (rev_fwd ! i)). buf_to_consumer rev_fwd b = None \<longrightarrow> rev_outs b \<noteq> None"
    unfolding three at by (simp add: rev_consumers rev_outs_def)
  have sources: "\<forall>i<length rev_fwd. fd_stage (rev_fwd ! i) \<in> fst ` set [(1::nat, 100::size_t)] \<longrightarrow> 0 < getNumOutputs fork_api (fd_stage (rev_fwd ! i))"
    unfolding three at by (simp add: fork_api_def)
  have i0: "0 < length rev_fwd" "fd_stage (rev_fwd ! 0) \<in> fst ` set [(1::nat, 100::size_t)]" unfolding len at by simp_all
  have "{(inv_of rev_fwd c, inv_of rev_fwd i) | i c. i < length rev_fwd \<and>
      (\<exists>b\<in>set (fd_output_buf_ids (rev_fwd ! i)). \<exists>k. buf_to_consumer rev_fwd b = Some (c, k))} = {(0, 1), (1, 2)}" (is "?E = _")
  proof -
    have ex: "(\<exists>i. i < length rev_fwd \<and> P i) \<longleftrightarrow> P 0 \<or> P 1 \<or> P 2" for P
      unfolding len by (auto simp: less_Suc_eq numeral_3_eq_3 numeral_2_eq_2)
    have "?E = {e. \<exists>i. i < length rev_fwd \<and> (\<exists>c. e = (inv_of rev_fwd c, inv_of rev_fwd i) \<and>
      (\<exists>b\<in>set (fd_output_buf_ids (rev_fwd ! i)). \<exists>k. buf_to_consumer rev_fwd b = Some (c, k)))}" by blast
    also have "\<dots> = {(0, 1), (1, 2)}" unfolding ex at by (auto simp: rev_consumers len)
    finally show ?thesis .
  qed
  moreover have "map_of [(1::nat, 100::size_t)] (fd_stage (rev_fwd ! 0)) = Some 100" "fd_stage (rev_fwd ! 0) = 1" unfolding at by simp_all
  ultimately show ?thesis
    using inverse_dag_reverses [OF rev_topo refl _ ports have_outs sources i0 ord, of PREALLOCATE demo_env line_decl True True "(make_pool demo_config True True, \<lambda>_. 0)"] i0(1) nf
    by (simp, metis)
qed

end
