(* ===== verification/Dataflow.thy ===== *)
theory Dataflow
  imports Dag_Exec
begin

section \<open>What an execution computes\<close>

text \<open>
  The data flow of an execution: if every stage, given its inputs, writes its results at the output pointers and
  leaves other live memory alone, and device allocations do not overlap, then running the graph under
  the MINIMAL strategy succeeds and leaves in every buffer that is kept the value the stages define.  Reuse of
  memory between buffers, the refinement of sizes after each stage and the frees in between are part of it.
\<close>

subsection \<open>Memory regions\<close>

definition apart :: "dptr \<Rightarrow> nat \<Rightarrow> dptr \<Rightarrow> nat \<Rightarrow> bool" where
  "apart p n q k \<longleftrightarrow> p + n \<le> q \<or> q + k \<le> p"

lemma apart_sym: "apart p n q k \<longleftrightarrow> apart q k p n"
  by (auto simp: apart_def)

lemma apart_mono: "apart p n q k \<Longrightarrow> n' \<le> n \<Longrightarrow> k' \<le> k \<Longrightarrow> apart p n' q k'"
  by (auto simp: apart_def)

definition entries :: "pool \<Rightarrow> (dptr \<times> alloc_info) set" where
  "entries pl = set (allocations pl) \<union> set (graph_allocations pl)"

text \<open>
  Live allocations do not overlap each other.  The memory \<open>F\<close> the graph reads and writes through external
  pointers lies apart from them, or in allocations \<open>K\<close> of the pool that the graph does not own.
\<close>

definition pool_fine :: "(dptr \<times> alloc_info) set \<Rightarrow> (dptr \<times> nat) set \<Rightarrow> pool \<Rightarrow> bool" where
  "pool_fine K F pl \<longleftrightarrow> pool_wf pl \<and> K \<subseteq> entries pl \<and>
     (\<forall>p i q j. (p, i) \<in> entries pl \<longrightarrow> (q, j) \<in> entries pl \<longrightarrow> p \<noteq> q \<longrightarrow> apart p (unat (ai_size i)) q (unat (ai_size j))) \<and>
     (\<forall>p i q n. (p, i) \<in> entries pl \<longrightarrow> p \<notin> fst ` K \<longrightarrow> (q, n) \<in> F \<longrightarrow> apart p (unat (ai_size i)) q n)"

text \<open>The runtime has memory for every request and never hands out memory in use.\<close>

definition roomy :: "(dptr \<times> alloc_info) set \<Rightarrow> (dptr \<times> nat) set \<Rightarrow> driver \<Rightarrow> bool" where
  "roomy K F drv \<longleftrightarrow> (\<forall>pl n. pool_wf pl \<longrightarrow> K \<subseteq> entries pl \<longrightarrow> n \<noteq> 0 \<longrightarrow> (\<exists>q. drv (live_ptrs pl) n = Some q \<and>
     (\<forall>p i. (p, i) \<in> entries pl \<longrightarrow> apart q (unat n) p (unat (ai_size i))) \<and> (\<forall>p k. (p, k) \<in> F \<longrightarrow> apart q (unat n) p k)))"

lemma fst_entries: "fst ` entries pl = tracked pl"
  by (simp add: entries_def tracked_def image_Un)

lemma entries_free:
  assumes "pool_wf pl"
  shows "entries (snd (pool_free q pl)) = {e \<in> entries pl. fst e \<noteq> q}"
proof -
  have d: "distinct (map fst (allocations pl) @ map fst (graph_allocations pl))" using assms by (auto simp: pool_wf_def live_ptrs_def)
  from assms show ?thesis
  proof (cases rule: pool_free_cases [where ptr = q])
    case none
    then show ?thesis by (force simp: entries_def)
  next
    case (stream xs ys info)
    with d have "q \<notin> fst ` set xs" "q \<notin> fst ` set ys" "q \<notin> fst ` set (graph_allocations pl)" by auto
    with stream show ?thesis by (auto simp: entries_def)
  next
    case (graph xs ys info)
    with d have "q \<notin> fst ` set xs" "q \<notin> fst ` set ys" by auto
    with graph show ?thesis by (auto simp: entries_def)
  qed
qed

lemma pool_free_fine: "pool_fine K F pl \<Longrightarrow> q \<notin> fst ` K \<Longrightarrow> pool_fine K F (snd (pool_free q pl))"
  unfolding pool_fine_def by (auto simp: entries_free pool_free_wf)

lemma pool_allocate_fine:
  assumes "pool_fine K F pl" "roomy K F drv" "driver_ok drv" "n \<noteq> 0"
  obtains q info pl' where "pool_allocate drv scale n tag pers pl = (q, pl')" "q \<noteq> 0" "ai_size info = n"
    "entries pl' = insert (q, info) (entries pl)" "pool_fine K F pl'" "q \<notin> fst ` K"
proof -
  have wf: "pool_wf pl" "K \<subseteq> entries pl" using assms(1) by (simp_all add: pool_fine_def)
  obtain q where q: "drv (live_ptrs pl) n = Some q" "\<forall>p i. (p, i) \<in> entries pl \<longrightarrow> apart q (unat n) p (unat (ai_size i))"
    "\<forall>p k. (p, k) \<in> F \<longrightarrow> apart q (unat n) p k" using assms(2,4) wf unfolding roomy_def by metis
  obtain q' pl' where pa: "pool_allocate drv scale n tag pers pl = (q', pl')" by fastforce
  then have qq: "q' = q" using q(1) assms(4) by (simp add: pool_allocate_def Let_def)
  have q0: "q \<noteq> 0" using assms(3) q(1) by (simp add: driver_ok_def)
  let ?i = "\<lparr>ai_ptr = q, ai_size = n, ai_tag = tag, ai_in_use = True\<rparr>"
  from assms(3) pa have ent: "entries pl' = insert (q, ?i) (entries pl)"
    by (cases rule: pool_allocate_cases) (use qq q0 in \<open>auto simp: entries_def\<close>)
  have "pool_fine K F pl'"
    unfolding pool_fine_def ent
  proof (intro conjI allI impI)
    show "pool_wf pl'" using pool_allocate_wf [OF assms(3) wf(1) pa] .
    show "apart p (unat (ai_size i)) r (unat (ai_size j))"
      if "(p, i) \<in> insert (q, ?i) (entries pl)" "(r, j) \<in> insert (q, ?i) (entries pl)" "p \<noteq> r" for p i r j
      using that q(2) assms(1) apart_sym unfolding pool_fine_def by fastforce
    show "apart p (unat (ai_size i)) r k" if "(p, i) \<in> insert (q, ?i) (entries pl)" "p \<notin> fst ` K" "(r, k) \<in> F" for p i r k
      using that q(3) assms(1) unfolding pool_fine_def by auto
    show "K \<subseteq> insert (q, ?i) (entries pl)" using assms(1) by (auto simp: pool_fine_def)
  qed
  moreover have "pool_allocate drv scale n tag pers pl = (q, pl')" using pa qq by simp
  moreover have "q \<notin> tracked pl" using pool_allocate_tracked [OF assms(3) pa] qq q0 by auto
  then have "q \<notin> fst ` K" using wf(2) fst_entries [of pl] by blast
  ultimately show ?thesis using q0 ent by (intro that [of q pl' ?i]) simp_all
qed

subsection \<open>What a stage does\<close>

definition stage_inputs :: "dev_mem \<Rightarrow> dptr list \<Rightarrow> size_t list \<Rightarrow> u8 list list" where
  "stage_inputs m ins sizes = map2 (\<lambda>p n. mem_read m p (unat n)) ins sizes"

text \<open>The output regions, \<open>rooms\<close> long, overlap neither each other nor the inputs.\<close>

definition writes_ok :: "dptr list \<Rightarrow> nat list \<Rightarrow> dptr list \<Rightarrow> size_t list \<Rightarrow> bool" where
  "writes_ok outs rooms ins sizes \<longleftrightarrow> length outs = length rooms \<and> length ins = length sizes \<and>
     (\<forall>j<length outs. \<forall>k<length outs. j \<noteq> k \<longrightarrow> apart (outs ! j) (rooms ! j) (outs ! k) (rooms ! k)) \<and>
     (\<forall>k<length outs. \<forall>j<length ins. apart (outs ! k) (rooms ! k) (ins ! j) (unat (sizes ! j)))"

definition protected :: "(dptr \<times> nat) set \<Rightarrow> pool \<Rightarrow> nat \<Rightarrow> bool" where
  "protected F pl a \<longleftrightarrow> (\<exists>p i. (p, i) \<in> entries pl \<and> p \<le> a \<and> a < p + unat (ai_size i)) \<or> (\<exists>p n. (p, n) \<in> F \<and> p \<le> a \<and> a < p + n)"

text \<open>
  A stage computes \<open>res\<close> from \<open>vals\<close>: it does not fail, reports the lengths, leaves the results at the output
  pointers, writes to live memory inside the rooms only and frees nothing.
\<close>

definition computes :: "stage_env \<Rightarrow> (dptr \<times> alloc_info) set \<Rightarrow> (dptr \<times> nat) set \<Rightarrow> nat \<Rightarrow> u8 list list \<Rightarrow> u8 list list \<Rightarrow> nat list \<Rightarrow> bool" where
  "computes env K F st vals res rooms \<longleftrightarrow>
     (\<forall>s ins outs sizes pl m. stage_inputs m ins sizes = vals \<longrightarrow> writes_ok outs rooms ins sizes \<longrightarrow> pool_fine K F pl \<longrightarrow>
        (\<exists>pl' m'. se_run env st s ins outs sizes (pl, m) = Inr (map (\<lambda>v. word_of_nat (length v)) res, pl', m') \<and>
           pool_fine K F pl' \<and> entries pl \<subseteq> entries pl' \<and>
           (\<forall>k<length outs. mem_read m' (outs ! k) (length (res ! k)) = res ! k) \<and>
           (\<forall>a. (\<forall>k<length outs. a < outs ! k \<or> outs ! k + rooms ! k \<le> a) \<longrightarrow> protected F pl a \<longrightarrow> m' a = m a)))"

subsection \<open>Values of a graph\<close>

text \<open>
  \<open>xcap\<close>: the capacity of the memory behind an external buffer.  \<open>W\<close> solves the equations of the graph: what
  a stage makes of the values of its inputs are the values of its outputs, they are not empty and fit.
\<close>

definition room :: "dag \<Rightarrow> (int \<Rightarrow> nat) \<Rightarrow> int \<Rightarrow> nat" where
  "room d xcap b = (if is_external (buf d b) then xcap b else unat (b_size (buf d b)))"

definition foreign :: "dag \<Rightarrow> (int \<Rightarrow> nat) \<Rightarrow> (dptr \<times> nat) set" where
  "foreign d xcap = {(d_ptr (buf d b), xcap b) | b. is_external (buf d b)}"

definition dataflow :: "stage_env \<Rightarrow> (dptr \<times> alloc_info) set \<Rightarrow> (nat \<Rightarrow> u8 list list \<Rightarrow> u8 list list) \<Rightarrow> dag \<Rightarrow> (int \<Rightarrow> nat) \<Rightarrow> (int \<Rightarrow> u8 list) \<Rightarrow> bool" where
  "dataflow env K sem d xcap W \<longleftrightarrow>
     (\<forall>i<length (nodes d). \<exists>st. n_stage (node d i) = Some st \<and>
        map W (output_buffer_ids (node d i)) = sem st (map W (input_buffer_ids (node d i))) \<and>
        computes env K (foreign d xcap) st (map W (input_buffer_ids (node d i))) (sem st (map W (input_buffer_ids (node d i))))
          (map (room d xcap) (output_buffer_ids (node d i)))) \<and>
     (\<forall>b. 0 \<le> producer_stage_id (buf d b) \<longrightarrow> W b \<noteq> [] \<and> length (W b) \<le> room d xcap b \<and> length (W b) < 2 ^ 64) \<and>
     (\<forall>b. is_external (buf d b) \<longrightarrow> 0 \<le> producer_stage_id (buf d b) \<longrightarrow>
        (allocated_size (buf d b) = 0 \<or> length (W b) \<le> unat (allocated_size (buf d b))) \<and>
        (\<forall>c. is_external (buf d c) \<longrightarrow> b \<noteq> c \<longrightarrow> apart (d_ptr (buf d b)) (xcap b) (d_ptr (buf d c)) (xcap c))) \<and>
     (\<forall>b. is_external (buf d b) \<longrightarrow> producer_stage_id (buf d b) = - 1 \<longrightarrow> length (W b) = unat (b_size (buf d b)) \<and> length (W b) \<le> xcap b)"

lemma dataflowD:
  assumes "dataflow env K sem d xcap W"
  shows "i < length (nodes d) \<Longrightarrow> \<exists>st. n_stage (node d i) = Some st \<and>
      map W (output_buffer_ids (node d i)) = sem st (map W (input_buffer_ids (node d i))) \<and>
      computes env K (foreign d xcap) st (map W (input_buffer_ids (node d i))) (sem st (map W (input_buffer_ids (node d i))))
        (map (room d xcap) (output_buffer_ids (node d i)))"
    "0 \<le> producer_stage_id (buf d b) \<Longrightarrow> W b \<noteq> [] \<and> length (W b) \<le> room d xcap b \<and> length (W b) < 2 ^ 64"
    "is_external (buf d b) \<Longrightarrow> 0 \<le> producer_stage_id (buf d b) \<Longrightarrow> allocated_size (buf d b) = 0 \<or> length (W b) \<le> unat (allocated_size (buf d b))"
    "is_external (buf d b) \<Longrightarrow> 0 \<le> producer_stage_id (buf d b) \<Longrightarrow> is_external (buf d c) \<Longrightarrow> b \<noteq> c \<Longrightarrow>
       apart (d_ptr (buf d b)) (xcap b) (d_ptr (buf d c)) (xcap c)"
    "is_external (buf d b) \<Longrightarrow> producer_stage_id (buf d b) = - 1 \<Longrightarrow> length (W b) = unat (b_size (buf d b)) \<and> length (W b) \<le> xcap b"
  using assms unfolding dataflow_def by blast+

definition value_at :: "exec_state \<Rightarrow> int \<Rightarrow> u8 list \<Rightarrow> bool" where
  "value_at x b v \<longleftrightarrow> unat (b_size (buf (x_dag x) b)) = length v \<and> mem_read (x_mem x) (d_ptr (buf (x_dag x) b)) (length v) = v"

text \<open>Every buffer that holds memory has a pool entry of its size.\<close>

definition backed :: "(dptr \<times> alloc_info) set \<Rightarrow> (dptr \<times> nat) set \<Rightarrow> exec_state \<Rightarrow> bool" where
  "backed K F x \<longleftrightarrow> pool_fine K F (x_pool x) \<and>
     (\<forall>b. held x b \<longrightarrow> d_ptr (buf (x_dag x) b) \<notin> fst ` K \<and>
        (\<exists>info. (d_ptr (buf (x_dag x) b), info) \<in> entries (x_pool x) \<and> ai_size info = allocated_size (buf (x_dag x) b)))"

lemma backedD:
  assumes "backed K F x"
  shows "pool_fine K F (x_pool x)"
    "held x b \<Longrightarrow> \<exists>info. (d_ptr (buf (x_dag x) b), info) \<in> entries (x_pool x) \<and> ai_size info = allocated_size (buf (x_dag x) b)"
    "held x b \<Longrightarrow> d_ptr (buf (x_dag x) b) \<notin> fst ` K"
  using assms unfolding backed_def by blast+

lemma backed_cong:
  assumes "backed K F x" "\<And>b. mem_view (x_dag y) b = mem_view (x_dag x) b" "pool_fine K F (x_pool y)" "entries (x_pool x) \<subseteq> entries (x_pool y)"
  shows "backed K F y"
proof -
  have eq: "is_external (buf (x_dag y) b) = is_external (buf (x_dag x) b)" "is_allocated (buf (x_dag y) b) = is_allocated (buf (x_dag x) b)"
    "d_ptr (buf (x_dag y) b) = d_ptr (buf (x_dag x) b)" "allocated_size (buf (x_dag y) b) = allocated_size (buf (x_dag x) b)" for b
    using assms(2) [of b] by (simp_all add: mem_view_def)
  have h: "held y b = held x b" for b by (simp add: held_def eq)
  show ?thesis using assms(1,3,4) unfolding backed_def h eq by blast
qed

lemma release_backed:
  assumes "mem_ok x" "backed K F x" "\<not> is_external (buf (x_dag x) b)" "is_allocated (buf (x_dag x) b)"
  shows "backed K F (release b x)"
proof -
  have h: "held (release b x) c \<longleftrightarrow> c \<noteq> b \<and> held x c" for c by (auto simp: held_def release_view)
  have ne: "d_ptr (buf (x_dag x) c) \<noteq> d_ptr (buf (x_dag x) b)" if "held x c" "c \<noteq> b" for c
  proof (cases "d_ptr (buf (x_dag x) b) = 0")
    case False
    then have "held x b" using assms by (simp add: held_def)
    then show ?thesis using mem_okD(3) [OF assms(1)] that by blast
  qed (use that in \<open>simp add: held_def\<close>)
  show ?thesis unfolding backed_def h
  proof (intro conjI allI impI)
    show "pool_fine K F (x_pool (release b x))"
    proof (cases "d_ptr (buf (x_dag x) b) = 0")
      case True
      then show ?thesis using backedD(1) [OF assms(2)] by (simp add: release_view pool_free_def)
    next
      case False
      then have "held x b" using assms(3,4) by (simp add: held_def)
      then show ?thesis using pool_free_fine [OF backedD(1) [OF assms(2)]] backedD(3) [OF assms(2)] by (simp add: release_view)
    qed
    show "d_ptr (buf (x_dag (release b x)) c) \<notin> fst ` K" if "c \<noteq> b \<and> held x c" for c
      using that backedD(3) [OF assms(2)] by (simp add: release_view)
    fix c assume c: "c \<noteq> b \<and> held x c"
    then obtain info where "(d_ptr (buf (x_dag x) c), info) \<in> entries (x_pool x)" "ai_size info = allocated_size (buf (x_dag x) c)"
      using backedD(2) [OF assms(2)] by blast
    with c ne [of c] show "\<exists>info. (d_ptr (buf (x_dag (release b x)) c), info) \<in> entries (x_pool (release b x)) \<and>
        ai_size info = allocated_size (buf (x_dag (release b x)) c)"
      by (auto simp: release_view entries_free [OF mem_okD(1) [OF assms(1)]])
  qed
qed

lemma x_mem_release [simp]: "x_mem (release b x) = x_mem x"
  by (simp add: release_def Let_def)

subsection \<open>Allocating, freeing and their memory\<close>

text \<open>The memory, the sizes and every buffer but those of \<open>B\<close> stay.\<close>

definition only_allocates :: "int set \<Rightarrow> exec_state \<Rightarrow> exec_state \<Rightarrow> bool" where
  "only_allocates B x y \<longleftrightarrow> x_mem y = x_mem x \<and> (\<forall>c. b_size (buf (x_dag y) c) = b_size (buf (x_dag x) c)) \<and>
     (\<forall>c. c \<notin> B \<or> is_external (buf (x_dag x) c) \<longrightarrow> mem_view (x_dag y) c = mem_view (x_dag x) c)"

lemma only_allocates_trans: "only_allocates B x y \<Longrightarrow> only_allocates C y z \<Longrightarrow> only_allocates (B \<union> C) x z"
  by (simp add: only_allocates_def mem_view_def)

text \<open>A buffer the graph owns is allocated, for its whole size.\<close>

definition filled :: "exec_state \<Rightarrow> int \<Rightarrow> bool" where
  "filled x b \<longleftrightarrow> is_allocated (buf (x_dag x) b) \<and> d_ptr (buf (x_dag x) b) \<noteq> 0 \<and> b_size (buf (x_dag x) b) \<le> allocated_size (buf (x_dag x) b)"

lemma allocateBuffer_backed:
  assumes "mem_ok x" "backed K F x" "roomy K F (se_driver env)" "env_ok env" "fused_internal_buffers (x_dag x) = []"
    and "is_external (buf (x_dag x) b) \<or> b_size (buf (x_dag x) b) \<noteq> 0"
  obtains y where "allocateBuffer env b x = Inr y" "backed K F y" "only_allocates {b} x y" "is_external (buf (x_dag x) b) \<or> filled y b"
proof -
  let ?r = "buf (x_dag x) b"
  have drv: "driver_ok (se_driver env)" using assms(4) by (simp add: env_ok_def)
  consider (ext) "is_external ?r" | (reuse) "\<not> is_external ?r" "b_size ?r \<noteq> 0" "is_allocated ?r" "b_size ?r \<le> allocated_size ?r"
    | (alloc) "\<not> is_external ?r" "b_size ?r \<noteq> 0" "\<not> (is_allocated ?r \<and> b_size ?r \<le> allocated_size ?r)" using assms(6) by blast
  then show ?thesis
  proof cases
    case ext
    with assms show ?thesis by (intro that [of x]) (auto simp: allocateBuffer_def Let_def only_allocates_def)
  next
    case reuse
    let ?y = "on_dag (charge (b_size ?r)) x"
    have "d_ptr ?r \<noteq> 0" using mem_okD(4) [OF assms(1) reuse(1,3)] reuse(2,4) by auto
    moreover have "backed K F ?y" by (rule backed_cong [OF assms(2)]) (use backedD(1) [OF assms(2)] in \<open>simp_all add: mem_view_def\<close>)
    ultimately show ?thesis
      using reuse assms(5) by (intro that [of ?y]) (simp_all add: allocateBuffer_def Let_def only_allocates_def filled_def mem_view_def)
  next
    case alloc
    define x1 where "x1 = (if is_allocated ?r then release b x else x)"
    have b1: "backed K F x1" using release_backed [OF assms(1,2) alloc(1)] assms(2) by (simp add: x1_def)
    have m1: "x_mem x1 = x_mem x" by (simp add: x1_def)
    obtain q info pl where pa: "pool_allocate (se_driver env) (se_scale env) (b_size ?r) (b_tag ?r) (is_persistent ?r) (x_pool x1) = (q, pl)"
      "q \<noteq> 0" "ai_size info = b_size ?r" "entries pl = insert (q, info) (entries (x_pool x1))" "pool_fine K F pl" "q \<notin> fst ` K"
      using pool_allocate_fine [OF backedD(1) [OF b1] assms(3) drv alloc(2)] by metis
    define y where "y = x1\<lparr>x_pool := pl, x_dag := charge (b_size ?r)
        (upd_buf b (\<lambda>r. r\<lparr>d_ptr := q, is_allocated := True, allocated_size := b_size r\<rparr>) (x_dag x1))\<rparr>"
    have run: "allocateBuffer env b x = Inr y"
      using alloc assms(5) pa(1,2) unfolding allocateBuffer_def x1_def y_def Let_def by (cases "is_allocated ?r") simp_all
    have bx1: "buf (x_dag x1) c = (if c = b \<and> is_allocated ?r then ?r\<lparr>is_allocated := False, d_ptr := 0, allocated_size := 0\<rparr> else buf (x_dag x) c)" for c
      by (simp add: x1_def release_view)
    have by': "buf (x_dag y) c = (if c = b then (buf (x_dag x1) b)\<lparr>d_ptr := q, is_allocated := True, allocated_size := b_size ?r\<rparr> else buf (x_dag x1) c)" for c
      using bx1 [of b] by (simp add: y_def)
    have "d_ptr (buf (x_dag y) c) \<notin> fst ` K \<and>
        (\<exists>info. (d_ptr (buf (x_dag y) c), info) \<in> entries (x_pool y) \<and> ai_size info = allocated_size (buf (x_dag y) c))" if "held y c" for c
    proof (cases "c = b")
      case True
      then show ?thesis using pa(3,4,6) bx1 [of b] by' [of b] by (auto simp: y_def)
    next
      case False
      then have "held x1 c" using that by (simp add: held_def by')
      with backedD(2,3) [OF b1, of c] False show ?thesis using pa(4) by (auto simp: by' y_def)
    qed
    moreover have "pool_fine K F (x_pool y)" using pa(5) by (simp add: y_def)
    ultimately have "backed K F y" unfolding backed_def by blast
    moreover have "only_allocates {b} x y"
      using m1 alloc(1) by (auto simp: only_allocates_def by' bx1 mem_view_def) (simp add: y_def)
    moreover have "filled y b" using pa(2) bx1 [of b] by (simp add: filled_def by')
    ultimately show ?thesis using run that by blast
  qed
qed

lemma filled_only_allocates: "filled x b \<Longrightarrow> only_allocates B x y \<Longrightarrow> b \<notin> B \<Longrightarrow> filled y b"
  by (simp add: filled_def only_allocates_def mem_view_def)

lemma allocate_outputs_backed:
  assumes "mem_ok x" "backed K F x" "roomy K F (se_driver env)" "env_ok env" "fused_internal_buffers (x_dag x) = []" "distinct bs"
    and "\<forall>b\<in>set bs. is_external (buf (x_dag x) b) \<or> b_size (buf (x_dag x) b) \<noteq> 0"
  shows "\<exists>y. res_fold (allocateBuffer env) bs x = Inr y \<and> backed K F y \<and> only_allocates (set bs) x y \<and>
    (\<forall>b\<in>set bs. is_external (buf (x_dag x) b) \<or> filled y b)"
  using assms(1,2,5-7)
proof (induction bs arbitrary: x)
  case Nil
  then show ?case by (simp add: only_allocates_def)
next
  case (Cons b bs)
  obtain z where z: "allocateBuffer env b x = Inr z" "backed K F z" "only_allocates {b} x z" "is_external (buf (x_dag x) b) \<or> filled z b"
    using allocateBuffer_backed [OF Cons.prems(1,2) assms(3,4) Cons.prems(3), of b] Cons.prems(5) by auto
  note A = allocateBuffer_ok [OF Cons.prems(1) assms(4) Cons.prems(3) z(1)]
  have sh: "shape (x_dag z) = shape (x_dag x)" using A by (simp add: grows_def)
  have ext: "is_external (buf (x_dag z) c) = is_external (buf (x_dag x) c)" for c by (rule shape_eqD(10) [OF sh])
  have "fused_internal_buffers (x_dag z) = []" using Cons.prems(3) shape_eqD(3) [OF sh] by simp
  moreover have "\<forall>c\<in>set bs. is_external (buf (x_dag z) c) \<or> b_size (buf (x_dag z) c) \<noteq> 0"
    using Cons.prems(5) z(3) ext by (simp add: only_allocates_def)
  ultimately obtain y where y: "res_fold (allocateBuffer env) bs z = Inr y" "backed K F y" "only_allocates (set bs) z y"
    "\<forall>c\<in>set bs. is_external (buf (x_dag z) c) \<or> filled y c"
    using Cons.IH [of z] A z(2) Cons.prems(4) by auto
  have "only_allocates (set (b # bs)) x y" using only_allocates_trans [OF z(3) y(3)] by simp
  moreover have "is_external (buf (x_dag x) b) \<or> filled y b" using z(4) filled_only_allocates [OF _ y(3)] Cons.prems(4) by auto
  ultimately show ?case using z(1) y ext by (intro exI [of _ y]) auto
qed

text \<open>Reading inputs off: a buffer that is still allocated stands where it stood.\<close>

definition only_frees :: "exec_state \<Rightarrow> exec_state \<Rightarrow> bool" where
  "only_frees x y \<longleftrightarrow> x_mem y = x_mem x \<and> (\<forall>c. b_size (buf (x_dag y) c) = b_size (buf (x_dag x) c)) \<and>
     (\<forall>c. is_external (buf (x_dag x) c) \<or> is_allocated (buf (x_dag y) c) \<longrightarrow> mem_view (x_dag y) c = mem_view (x_dag x) c)"

lemma consume_backed:
  assumes "mem_ok x" "backed K F x"
  shows "backed K F (consume b x) \<and> only_frees x (consume b x)"
proof -
  let ?x1 = "on_dag (upd_buf b (\<lambda>r. r\<lparr>remaining_consumers := remaining_consumers r - 1\<rparr>)) x"
  have m: "mem_ok ?x1" by (rule mem_ok_cong [OF assms(1)]) (use mem_okD(1) [OF assms(1)] in \<open>simp_all add: mem_view_def\<close>)
  have k: "backed K F ?x1" by (rule backed_cong [OF assms(2)]) (use backedD(1) [OF assms(2)] in \<open>simp_all add: mem_view_def\<close>)
  have "backed K F (freeBuffer b ?x1)" using release_backed [OF m k] k by (simp add: freeBuffer_def Let_def)
  with k have "backed K F (consume b x)" by (simp add: consume_def Let_def)
  moreover have "x_mem (consume b x) = x_mem x" by (simp add: consume_def freeBuffer_def Let_def)
  moreover have "b_size (buf (x_dag (consume b x)) c) = b_size (buf (x_dag x) c)" for c using consume_view(1) [of b x c] by auto
  moreover have "mem_view (x_dag (consume b x)) c = mem_view (x_dag x) c"
    if "is_external (buf (x_dag x) c) \<or> is_allocated (buf (x_dag (consume b x)) c)" for c
    using that consume_view(1) [of b x c] by (auto simp: mem_view_def held_def split: if_splits)
  ultimately show ?thesis by (simp add: only_frees_def)
qed

lemma only_frees_trans:
  assumes "only_frees x z" "only_frees z y" "\<And>c. is_external (buf (x_dag z) c) = is_external (buf (x_dag x) c)"
  shows "only_frees x y"
proof -
  have "mem_view (x_dag y) c = mem_view (x_dag x) c" if "is_external (buf (x_dag x) c) \<or> is_allocated (buf (x_dag y) c)" for c
  proof -
    have e: "mem_view (x_dag y) c = mem_view (x_dag z) c" using assms(2,3) that unfolding only_frees_def by blast
    then have "is_external (buf (x_dag x) c) \<or> is_allocated (buf (x_dag z) c)" using that by (auto simp: mem_view_def)
    with assms(1) e show ?thesis unfolding only_frees_def by metis
  qed
  with assms show ?thesis by (simp add: only_frees_def)
qed

lemma consume_all_backed:
  assumes "mem_ok x" "backed K F x"
  shows "backed K F (fold consume bs x) \<and> only_frees x (fold consume bs x)"
  using assms
proof (induction bs arbitrary: x)
  case (Cons b bs)
  let ?z = "consume b x" let ?y = "fold consume bs ?z"
  note C = consume_backed [OF Cons.prems, of b]
  have m: "mem_ok ?z" using consume_mem_ok [OF Cons.prems(1)] .
  have "backed K F ?y \<and> only_frees ?z ?y" using Cons.IH [OF m] C by blast
  moreover have "is_external (buf (x_dag ?z) c) = is_external (buf (x_dag x) c)" for c by (rule shape_eqD(10) [OF consume_view(2)])
  ultimately show ?case using only_frees_trans [of x ?z ?y] C by simp
qed (simp add: only_frees_def)

subsection \<open>One stage\<close>

lemma store_sizes_buf:
  assumes "distinct outs"
  shows "buf (store_sizes outs sizes d) c =
    (if \<exists>k<length outs. outs ! k = c \<and> 0 < size_at sizes k
     then (buf d c)\<lparr>b_size := size_at sizes (THE k. k < length outs \<and> outs ! k = c)\<rparr> else buf d c)"
proof -
  let ?f = "\<lambda>k d. if 0 < size_at sizes k then upd_buf (outs ! k) (\<lambda>r. r\<lparr>b_size := size_at sizes k\<rparr>) d else d"
  have "buf (fold ?f [0..<n] d) c = (if \<exists>k<n. outs ! k = c \<and> 0 < size_at sizes k
     then (buf d c)\<lparr>b_size := size_at sizes (THE k. k < length outs \<and> outs ! k = c)\<rparr> else buf d c)" if "n \<le> length outs" for n
    using that
  proof (induction n)
    case (Suc n)
    have the: "(THE k. k < length outs \<and> outs ! k = outs ! n) = n"
      using Suc.prems assms by (intro the_equality) (auto simp: nth_eq_iff_index_eq)
    have ne: "outs ! k \<noteq> outs ! n" if "k < n" for k using that Suc.prems assms by (simp add: nth_eq_iff_index_eq)
    show ?case
    proof (cases "c = outs ! n")
      case True
      with Suc the ne show ?thesis by (auto simp: less_Suc_eq)
    next
      case False
      with Suc show ?thesis by (auto simp: less_Suc_eq)
    qed
  qed simp
  then show ?thesis unfolding store_sizes_def by simp
qed

lemma store_sizes_nth:
  assumes "distinct outs" "k < length outs" "0 < size_at sizes k"
  shows "buf (store_sizes outs sizes d) (outs ! k) = (buf d (outs ! k))\<lparr>b_size := size_at sizes k\<rparr>"
proof -
  have "(THE j. j < length outs \<and> outs ! j = outs ! k) = k"
    using assms by (intro the_equality) (auto simp: nth_eq_iff_index_eq)
  then show ?thesis using store_sizes_buf [OF assms(1), of sizes d "outs ! k"] assms(2,3) by auto
qed

lemma store_sizes_other: "distinct outs \<Longrightarrow> c \<notin> set outs \<Longrightarrow> buf (store_sizes outs sizes d) c = buf d c"
  using store_sizes_buf [of outs sizes d c] by (auto simp: in_set_conv_nth)

text \<open>The memory a buffer stands on, and when two of them are apart.\<close>

definition span :: "(int \<Rightarrow> nat) \<Rightarrow> exec_state \<Rightarrow> int \<Rightarrow> nat" where
  "span xcap x b = (if is_external (buf (x_dag x) b) then xcap b else unat (allocated_size (buf (x_dag x) b)))"

lemma spans_apart:
  assumes "mem_ok x" "backed K F x" "b \<noteq> c" "is_external (buf (x_dag x) b) \<or> held x b" "is_external (buf (x_dag x) c) \<or> held x c"
    and "\<And>e. is_external (buf (x_dag x) e) \<Longrightarrow> (d_ptr (buf (x_dag x) e), xcap e) \<in> F"
    and "is_external (buf (x_dag x) b) \<Longrightarrow> is_external (buf (x_dag x) c) \<Longrightarrow> apart (d_ptr (buf (x_dag x) b)) (xcap b) (d_ptr (buf (x_dag x) c)) (xcap c)"
  shows "apart (d_ptr (buf (x_dag x) b)) (span xcap x b) (d_ptr (buf (x_dag x) c)) (span xcap x c)"
proof -
  note P = backedD(1) [OF assms(2), unfolded pool_fine_def]
  have own: "\<exists>i. (d_ptr (buf (x_dag x) e), i) \<in> entries (x_pool x) \<and> unat (ai_size i) = span xcap x e" if "held x e" for e
    using backedD(2) [OF assms(2) that] that by (auto simp: span_def held_def)
  have out: "apart (d_ptr (buf (x_dag x) e)) (span xcap x e) (d_ptr (buf (x_dag x) f)) (span xcap x f)"
    if he: "held x e" "is_external (buf (x_dag x) f)" for e f
  proof -
    obtain i where "(d_ptr (buf (x_dag x) e), i) \<in> entries (x_pool x)" "unat (ai_size i) = span xcap x e" using own he(1) by blast
    moreover have "(d_ptr (buf (x_dag x) f), span xcap x f) \<in> F" using assms(6) [OF he(2)] he(2) by (simp add: span_def)
    ultimately show ?thesis using P backedD(3) [OF assms(2) he(1)] by metis
  qed
  show ?thesis
  proof (cases "is_external (buf (x_dag x) b)"; cases "is_external (buf (x_dag x) c)")
    assume "is_external (buf (x_dag x) b)" "is_external (buf (x_dag x) c)"
    with assms(7) show ?thesis by (simp add: span_def)
  next
    assume e: "is_external (buf (x_dag x) b)" "\<not> is_external (buf (x_dag x) c)"
    then have "held x c" using assms(5) by blast
    from out [OF this e(1)] show ?thesis using apart_sym by blast
  next
    assume e: "\<not> is_external (buf (x_dag x) b)" "is_external (buf (x_dag x) c)"
    with out assms(4) show ?thesis by blast
  next
    assume e: "\<not> is_external (buf (x_dag x) b)" "\<not> is_external (buf (x_dag x) c)"
    then have h: "held x b" "held x c" using assms(4,5) by blast+
    obtain i j where "(d_ptr (buf (x_dag x) b), i) \<in> entries (x_pool x)" "unat (ai_size i) = span xcap x b"
      "(d_ptr (buf (x_dag x) c), j) \<in> entries (x_pool x)" "unat (ai_size j) = span xcap x c" using own [OF h(1)] own [OF h(2)] by blast
    moreover have "d_ptr (buf (x_dag x) b) \<noteq> d_ptr (buf (x_dag x) c)" using mem_okD(3) [OF assms(1) h] assms(3) by blast
    ultimately show ?thesis using P by metis
  qed
qed

lemma span_protected:
  assumes "backed K F x" "is_external (buf (x_dag x) b) \<or> held x b" "d_ptr (buf (x_dag x) b) \<le> a" "a < d_ptr (buf (x_dag x) b) + span xcap x b"
    and "is_external (buf (x_dag x) b) \<Longrightarrow> (d_ptr (buf (x_dag x) b), xcap b) \<in> F"
  shows "protected F (x_pool x) a"
proof (cases "is_external (buf (x_dag x) b)")
  case True
  with assms show ?thesis unfolding protected_def by (metis span_def)
next
  case False
  then obtain i where "(d_ptr (buf (x_dag x) b), i) \<in> entries (x_pool x)" "ai_size i = allocated_size (buf (x_dag x) b)"
    using backedD(2) [OF assms(1)] assms(2) by blast
  with False assms(3,4) show ?thesis unfolding protected_def by (metis span_def)
qed

text \<open>The value \<open>v\<close> stands in buffer \<open>b\<close>.\<close>

definition ready :: "(int \<Rightarrow> nat) \<Rightarrow> exec_state \<Rightarrow> int \<Rightarrow> u8 list \<Rightarrow> bool" where
  "ready xcap x b v \<longleftrightarrow> (is_external (buf (x_dag x) b) \<or> held x b) \<and> value_at x b v \<and> length v \<le> span xcap x b"

lemma ready_cong:
  assumes "ready xcap x b v" "x_mem y = x_mem x" "b_size (buf (x_dag y) b) = b_size (buf (x_dag x) b)" "mem_view (x_dag y) b = mem_view (x_dag x) b"
  shows "ready xcap y b v"
  using assms by (auto simp: ready_def value_at_def span_def held_def mem_view_def)

lemma mem_read_nth_eq: "mem_read m p n = v \<longleftrightarrow> length v = n \<and> (\<forall>k<n. m (p + k) = v ! k)"
  by (auto simp: mem_read_def intro: nth_equalityI)

lemma run_stage_data:
  assumes ok: "mem_ok x" "backed K F x" and run: "computes env K F st (map W ins) (map W outs) (map rm outs)"
    and io: "input_buffer_ids (node (x_dag x) i) = ins" "output_buffer_ids (node (x_dag x) i) = outs" "\<not> capture_mode (x_dag x)"
    and dist: "distinct outs" "set ins \<inter> set outs = {}"
    and ext: "\<And>e. is_external (buf (x_dag x) e) \<Longrightarrow> (d_ptr (buf (x_dag x) e), xcap e) \<in> F"
    and xap: "\<And>b c. b \<in> set outs \<Longrightarrow> is_external (buf (x_dag x) b) \<Longrightarrow> is_external (buf (x_dag x) c) \<Longrightarrow> b \<noteq> c \<Longrightarrow>
       apart (d_ptr (buf (x_dag x) b)) (xcap b) (d_ptr (buf (x_dag x) c)) (xcap c)"
    and ins: "\<And>b. b \<in> set ins \<Longrightarrow> ready xcap x b (W b)"
    and outs: "\<And>b. b \<in> set outs \<Longrightarrow> (is_external (buf (x_dag x) b) \<or> held x b) \<and> rm b \<le> span xcap x b \<and>
       W b \<noteq> [] \<and> length (W b) \<le> rm b \<and> length (W b) < 2 ^ 64 \<and>
       (allocated_size (buf (x_dag x) b) = 0 \<or> length (W b) \<le> unat (allocated_size (buf (x_dag x) b)))"
  obtains y where "run_stage env st i s x = Inr y" "backed K F y" "shape (x_dag y) = shape (x_dag x)"
    "\<forall>b\<in>set outs. ready xcap y b (W b)" "\<forall>c v. c \<notin> set outs \<longrightarrow> ready xcap x c v \<longrightarrow> ready xcap y c v"
    "\<forall>c. c \<notin> set outs \<longrightarrow> buf (x_dag y) c = buf (x_dag x) c" "\<forall>c. mem_view (x_dag y) c = mem_view (x_dag x) c"
proof -
  let ?d = "x_dag x"
  let ?inp = "map (\<lambda>b. d_ptr (buf ?d b)) ins" and ?out = "map (\<lambda>b. d_ptr (buf ?d b)) outs" and ?sz = "map (\<lambda>b. b_size (buf ?d b)) ins"
  let ?act = "map (\<lambda>v. word_of_nat (length v)) (map W outs) :: size_t list"
  have "stage_inputs (x_mem x) ?inp ?sz = map (\<lambda>b. mem_read (x_mem x) (d_ptr (buf ?d b)) (unat (b_size (buf ?d b)))) ins"
    by (simp add: stage_inputs_def zip_map_map zip_same_conv_map)
  also have "\<dots> = map W ins" using ins by (auto simp: ready_def value_at_def)
  finally have vals: "stage_inputs (x_mem x) ?inp ?sz = map W ins" .
  have ap: "apart (d_ptr (buf ?d b)) (span xcap x b) (d_ptr (buf ?d c)) (span xcap x c)"
    if "b \<in> set outs" "b \<noteq> c" "is_external (buf ?d c) \<or> held x c" for b c
    using that outs [OF that(1)] ext xap [OF that(1)] by (intro spans_apart [OF ok]) auto
  have inlen: "unat (b_size (buf ?d c)) \<le> span xcap x c" if "c \<in> set ins" for c
    using ins [OF that] by (simp add: ready_def value_at_def)
  have wr: "writes_ok ?out (map rm outs) ?inp ?sz"
    unfolding writes_ok_def
  proof (intro conjI allI impI)
    show "apart (?out ! j) (map rm outs ! j) (?out ! k) (map rm outs ! k)" if "j < length ?out" "k < length ?out" "j \<noteq> k" for j k
    proof -
      have o: "outs ! j \<in> set outs" "outs ! k \<in> set outs" "outs ! j \<noteq> outs ! k" using that dist(1) by (auto simp: nth_eq_iff_index_eq)
      with apart_mono [OF ap [OF o(1,3)]] outs [OF o(1)] outs [OF o(2)] that show ?thesis by simp
    qed
    show "apart (?out ! k) (map rm outs ! k) (?inp ! j) (unat (?sz ! j))" if "k < length ?out" "j < length ?inp" for k j
    proof -
      have o: "outs ! k \<in> set outs" "ins ! j \<in> set ins" using that by auto
      moreover from this dist(2) have "outs ! k \<noteq> ins ! j" by auto
      ultimately show ?thesis using apart_mono [OF ap [of "outs ! k" "ins ! j"]] ins [OF o(2)] outs [OF o(1)] inlen [OF o(2)] that
        by (simp add: ready_def)
    qed
  qed simp_all
  from run [unfolded computes_def, rule_format, OF vals wr backedD(1) [OF ok(2)], of s] obtain pl m where
    R: "se_run env st s ?inp ?out ?sz (x_pool x, x_mem x) = Inr (?act, pl, m)" "pool_fine K F pl" "entries (x_pool x) \<subseteq> entries pl"
      "\<forall>k<length ?out. mem_read m (?out ! k) (length (map W outs ! k)) = map W outs ! k"
      "\<forall>a. (\<forall>k<length ?out. a < ?out ! k \<or> ?out ! k + map rm outs ! k \<le> a) \<longrightarrow> protected F (x_pool x) a \<longrightarrow> m a = x_mem x a" by auto
  define y where "y = on_dag (store_sizes outs ?act) (emit [EvRun i s ?inp ?out ?sz] (x\<lparr>x_pool := pl, x_mem := m\<rparr>))"
  have act: "size_at ?act k = word_of_nat (length (W (outs ! k)))" if "k < length outs" for k using that by (simp add: size_at_def)
  have unact: "unat (word_of_nat (length (W b)) :: size_t) = length (W b)" if "b \<in> set outs" for b
    using outs [OF that] by (simp add: unsigned_of_nat take_bit_nat_eq_self)
  have pos: "0 < size_at ?act k" if "k < length outs" for k
  proof -
    have "unat (size_at ?act k) \<noteq> 0" using unact [of "outs ! k"] outs [of "outs ! k"] that act [OF that] by simp
    then show ?thesis by (simp add: unat_eq_0 word_gt_0)
  qed
  have view: "mem_view (x_dag y) c = mem_view ?d c" for c using store_sizes_view [of outs ?act ?d] by (simp add: y_def)
  have shp: "shape (x_dag y) = shape ?d" using store_sizes_view [of outs ?act ?d] by (simp add: y_def)
  have other: "buf (x_dag y) c = buf ?d c" if "c \<notin> set outs" for c using store_sizes_other [OF dist(1) that] by (simp add: y_def)
  have bnds: "bounds_check outs ?act (x_dag y) = Inr ()"
  proof -
    have "\<not> (allocated_size (buf (x_dag y) (outs ! k)) \<noteq> 0 \<and> allocated_size (buf (x_dag y) (outs ! k)) < size_at ?act k)" if k: "k < length outs" for k
    proof -
      have "allocated_size (buf (x_dag y) (outs ! k)) = allocated_size (buf ?d (outs ! k))" using view [of "outs ! k"] by (simp add: mem_view_def)
      with outs [of "outs ! k"] k unact [of "outs ! k"] act [OF k] show ?thesis by (auto simp: word_less_nat_alt)
    qed
    then show ?thesis by (auto simp: bounds_check_def list_ex_iff)
  qed
  have exec: "run_stage env st i s x = Inr y"
    using R(1) bnds io by (simp add: run_stage_def Let_def y_def)
  have bk: "backed K F y"
    by (rule backed_cong [OF ok(2) view]) (use R(2,3) in \<open>simp_all add: y_def\<close>)
  have new: "ready xcap y b (W b)" if b: "b \<in> set outs" for b
  proof -
    obtain k where k: "k < length outs" "b = outs ! k" using b by (metis in_set_conv_nth)
    have "b_size (buf (x_dag y) b) = word_of_nat (length (W b))"
      using store_sizes_nth [OF dist(1) k(1) pos [OF k(1)], of ?d] act [OF k(1)] k(2) by (simp add: y_def)
    moreover have "mem_read (x_mem y) (d_ptr (buf (x_dag y) b)) (length (W b)) = W b"
      using R(4) k view [of b] by (simp add: y_def mem_view_def)
    moreover have "is_external (buf (x_dag y) b) \<or> held y b" "span xcap y b = span xcap x b"
      using outs [OF b] view [of b] by (auto simp: held_def mem_view_def span_def)
    ultimately show ?thesis using outs [OF b] unact [OF b] by (simp add: ready_def value_at_def)
  qed
  have old: "ready xcap y c v" if c: "c \<notin> set outs" "ready xcap x c v" for c v
  proof -
    have "m a = x_mem x a" if a: "d_ptr (buf ?d c) \<le> a" "a < d_ptr (buf ?d c) + length v" for a
    proof -
      have in_span: "a < d_ptr (buf ?d c) + span xcap x c" using a c(2) by (simp add: ready_def)
      have "a < ?out ! k \<or> ?out ! k + map rm outs ! k \<le> a" if k: "k < length ?out" for k
        using ap [of "outs ! k" c] outs [of "outs ! k"] k c a in_span by (force simp: ready_def apart_def)
      moreover have "protected F (x_pool x) a" using c(2) a(1) in_span ext by (intro span_protected [OF ok(2)]) (auto simp: ready_def)
      ultimately show ?thesis using R(5) by blast
    qed
    then have "mem_read m (d_ptr (buf ?d c)) (length v) = mem_read (x_mem x) (d_ptr (buf ?d c)) (length v)"
      by (simp add: mem_read_def)
    moreover have "x_mem y = m" by (simp add: y_def)
    ultimately show ?thesis using c(2) other [OF c(1)] by (auto simp: ready_def value_at_def held_def span_def)
  qed
  show ?thesis by (rule that [OF exec bk shp]) (use new old other view in simp_all)
qed

subsection \<open>The invariant of the values\<close>

text \<open>
  After the nodes of \<open>S\<close>: external inputs and every buffer a node of \<open>S\<close> produced, unless it was freed, hold
  their values; buffers still to be produced have the size they were planned with.
\<close>

definition known :: "dag \<Rightarrow> nat set \<Rightarrow> exec_state \<Rightarrow> int \<Rightarrow> bool" where
  "known d0 S x b \<longleftrightarrow> is_external (buf d0 b) \<and> producer_stage_id (buf d0 b) = - 1 \<or>
     (\<exists>p\<in>S. producer_stage_id (buf d0 b) = int p) \<and> (is_external (buf d0 b) \<or> is_allocated (buf (x_dag x) b))"

definition data_inv :: "(dptr \<times> alloc_info) set \<Rightarrow> dag \<Rightarrow> (int \<Rightarrow> nat) \<Rightarrow> (int \<Rightarrow> u8 list) \<Rightarrow> nat set \<Rightarrow> exec_state \<Rightarrow> bool" where
  "data_inv K d0 xcap W S x \<longleftrightarrow> exec_inv d0 S x \<and> backed K (foreign d0 xcap) x \<and>
     (\<forall>b. is_external (buf d0 b) \<longrightarrow> mem_view (x_dag x) b = mem_view d0 b) \<and>
     (\<forall>b. known d0 S x b \<longrightarrow> ready xcap x b (W b)) \<and>
     (\<forall>b p. producer_stage_id (buf d0 b) = int p \<longrightarrow> p \<notin> S \<longrightarrow> b_size (buf (x_dag x) b) = b_size (buf d0 b))"

lemma data_invD:
  assumes "data_inv K d0 xcap W S x"
  shows "exec_inv d0 S x" "backed K (foreign d0 xcap) x" "is_external (buf d0 b) \<Longrightarrow> mem_view (x_dag x) b = mem_view d0 b"
    "known d0 S x b \<Longrightarrow> ready xcap x b (W b)"
    "producer_stage_id (buf d0 b) = int p \<Longrightarrow> p \<notin> S \<Longrightarrow> b_size (buf (x_dag x) b) = b_size (buf d0 b)"
  using assms unfolding data_inv_def by blast+

lemma foreign_external:
  assumes "data_inv K d0 xcap W S x" "is_external (buf (x_dag x) b)"
  shows "(d_ptr (buf (x_dag x) b), xcap b) \<in> foreign d0 xcap"
proof -
  have e: "is_external (buf d0 b)" using assms(2) shape_eqD(10) [OF exec_invD(1) [OF data_invD(1) [OF assms(1)]], of b] by simp
  moreover have "d_ptr (buf (x_dag x) b) = d_ptr (buf d0 b)" using data_invD(3) [OF assms(1) e] by (simp add: mem_view_def)
  ultimately show ?thesis by (auto simp: foreign_def)
qed

lemma inputs_known:
  assumes inv: "data_inv K d0 xcap W S x" and wf: "dag_wf d0" and i: "i < length (nodes d0)" "i \<notin> S" "set (dependencies (node d0 i)) \<subseteq> S"
    and b: "b \<in> set (input_buffer_ids (node d0 i))"
  shows "known d0 S x b" "producer_stage_id (buf d0 b) \<noteq> int i"
proof -
  have wi: "wf_inputs d0" using wf by (simp add: dag_wf_def)
  have con: "i \<in> set (consumer_stage_ids (buf d0 b))" using wf_inputsD(2) [OF wi i(1), of b] b by (metis count_list_0_iff)
  consider "producer_stage_id (buf d0 b) = - 1" "is_external (buf d0 b)"
    | p where "producer_stage_id (buf d0 b) = int p" "p \<in> S"
    using wf_inputsD(3) [OF wi con] i(3) by (metis int_nat_eq subsetD)
  then have "known d0 S x b \<and> producer_stage_id (buf d0 b) \<noteq> int i"
  proof cases
    case 2
    have "\<not> set (consumer_stage_ids (buf d0 b)) \<subseteq> S" using con i(2) by blast
    then have "is_external (buf d0 b) \<or> is_allocated (buf (x_dag x) b)"
      using exec_invD(4) [OF data_invD(1) [OF inv] 2(2,1)] by blast
    with 2 i(2) show ?thesis by (auto simp: known_def)
  qed (auto simp: known_def)
  then show "known d0 S x b" "producer_stage_id (buf d0 b) \<noteq> int i" by simp_all
qed

lemma data_step:
  assumes inv: "data_inv K d0 xcap W S x" and flow: "dataflow env K sem d0 xcap W" and wf: "dag_wf d0" and env: "env_ok env"
    and drv: "roomy K (foreign d0 xcap) (se_driver env)"
    and nofuse: "fused_internal_buffers d0 = []" and strat: "strategy d0 \<noteq> PREALLOCATE" and cap: "\<not> capture_mode d0"
    and i: "i < length (nodes d0)" "i \<notin> S" "set (dependencies (node d0 i)) \<subseteq> S" and closed: "\<forall>c\<in>S. set (dependencies (node d0 c)) \<subseteq> S"
  obtains y where "exec_plain env stream i x = Inr y" "data_inv K d0 xcap W (insert i S) y"
proof -
  note I = exec_invD [OF data_invD(1) [OF inv]]
  let ?F = "foreign d0 xcap" and ?ins = "input_buffer_ids (node d0 i)" and ?outs = "output_buffer_ids (node d0 i)"
  have ix: "i < length (nodes (x_dag x))" using shape_eqD(1) [OF I(1)] i by simp
  note nd = shape_node [OF I(1) ix]
  have st: "strategy (x_dag x) \<noteq> PREALLOCATE" "fused_internal_buffers (x_dag x) = []" "\<not> capture_mode (x_dag x)"
    using shape_eqD(2,3,5) [OF I(1)] strat nofuse cap by simp_all
  have ext: "is_external (buf (x_dag x) b) = is_external (buf d0 b)" for b by (rule shape_eqD(10) [OF I(1)])
  have wo: "wf_outputs d0" using wf by (simp add: dag_wf_def)
  have prod: "b \<in> set ?outs \<longleftrightarrow> producer_stage_id (buf d0 b) = int i" for b using wf_outputsD(3) [OF wo i(1)] .
  have dist: "distinct ?outs" using wf_outputsD(4) [OF wo i(1)] .
  have disj: "set ?ins \<inter> set ?outs = {}" using inputs_known(2) [OF inv wf i] prod by blast
  obtain s where s: "n_stage (node d0 i) = Some s" "map W ?outs = sem s (map W ?ins)"
    "computes env K ?F s (map W ?ins) (map W ?outs) (map (room d0 xcap) ?outs)" using dataflowD(1) [OF flow i(1)] by metis
  note fit = dataflowD(2) [OF flow]
  have size0: "b_size (buf (x_dag x) b) = b_size (buf d0 b)" if "b \<in> set ?outs" for b using data_invD(5) [OF inv] that prod i(2) by blast
  let ?str = "exec_stream (x_dag x) stream i"
  let ?x1 = "emit (map (EvWait ?str) (dependencies (node (x_dag x) i))) x"
  have m1: "mem_ok ?x1" by (rule mem_ok_cong [OF I(2)]) (use mem_okD(1) [OF I(2)] in simp_all)
  have k1: "backed K ?F ?x1" by (rule backed_cong [OF data_invD(2) [OF inv]]) (use backedD(1) [OF data_invD(2) [OF inv]] in simp_all)
  have sz: "\<forall>b\<in>set ?outs. is_external (buf (x_dag ?x1) b) \<or> b_size (buf (x_dag ?x1) b) \<noteq> 0"
  proof
    fix b assume b: "b \<in> set ?outs"
    then have "W b \<noteq> []" "length (W b) \<le> room d0 xcap b" using fit [of b] prod by simp_all
    then show "is_external (buf (x_dag ?x1) b) \<or> b_size (buf (x_dag ?x1) b) \<noteq> 0"
      using size0 [OF b] ext [of b] by (auto simp: room_def split: if_splits)
  qed
  obtain x2 where x2: "res_fold (allocateBuffer env) ?outs ?x1 = Inr x2" "backed K ?F x2" "only_allocates (set ?outs) ?x1 x2"
    "\<forall>b\<in>set ?outs. is_external (buf (x_dag ?x1) b) \<or> filled x2 b"
    using allocate_outputs_backed [OF m1 k1 drv env _ dist sz] st(2) by auto
  note A = allocate_outputs_ok [OF m1 env _ x2(1), simplified, OF st(2)]
  have sh2: "shape (x_dag x2) = shape d0" using A I(1) by (simp add: grows_def)
  have ext2: "is_external (buf (x_dag x2) b) = is_external (buf d0 b)" for b by (rule shape_eqD(10) [OF sh2])
  have view2: "mem_view (x_dag x2) b = mem_view (x_dag x) b" if "b \<notin> set ?outs \<or> is_external (buf d0 b)" for b
    using x2(3) that ext [of b] by (auto simp: only_allocates_def)
  have size2: "b_size (buf (x_dag x2) b) = b_size (buf (x_dag x) b)" for b using x2(3) by (simp add: only_allocates_def)
  have mem2: "x_mem x2 = x_mem x" using x2(3) by (simp add: only_allocates_def)
  define x3 where "x3 = emit (start_events (x_dag x) i ?str) x2"
  have e3: "x_dag x3 = x_dag x2" "x_pool x3 = x_pool x2" "x_mem x3 = x_mem x2" by (simp_all add: x3_def)
  have m3: "mem_ok x3" by (rule mem_ok_cong [of x2]) (use A mem_okD(1) [of x2] in \<open>simp_all add: e3\<close>)
  have k3: "backed K ?F x3" by (rule backed_cong [OF x2(2)]) (use backedD(1) [OF x2(2)] in \<open>simp_all add: e3\<close>)
  have keep3: "ready xcap x3 b (W b)" if "known d0 S x b" "b \<notin> set ?outs" for b
    by (rule ready_cong [OF data_invD(4) [OF inv that(1)]]) (use that view2 size2 mem2 in \<open>simp_all add: e3\<close>)
  have extv: "mem_view (x_dag x3) b = mem_view d0 b" if "is_external (buf d0 b)" for b
    using view2 [of b] data_invD(3) [OF inv that] that by (simp add: e3)
  have dptr0: "d_ptr (buf (x_dag x3) b) = d_ptr (buf d0 b)" "allocated_size (buf (x_dag x3) b) = allocated_size (buf d0 b)"
    if "is_external (buf d0 b)" for b using extv [OF that] by (simp_all add: mem_view_def)
  have outs3: "(is_external (buf (x_dag x3) b) \<or> held x3 b) \<and> room d0 xcap b \<le> span xcap x3 b \<and> W b \<noteq> [] \<and> length (W b) \<le> room d0 xcap b \<and>
      length (W b) < 2 ^ 64 \<and> (allocated_size (buf (x_dag x3) b) = 0 \<or> length (W b) \<le> unat (allocated_size (buf (x_dag x3) b)))"
    if b: "b \<in> set ?outs" for b
  proof (cases "is_external (buf d0 b)")
    case True
    with fit [of b] dataflowD(3) [OF flow True] prod b dptr0 [OF True] show ?thesis by (simp add: e3 ext2 span_def room_def)
  next
    case False
    then have "filled x2 b" using x2(4) b ext [of b] by auto
    with False fit [of b] prod b size0 [OF b] size2 [of b] show ?thesis
      by (auto simp: filled_def held_def e3 ext2 span_def room_def word_le_nat_alt)
  qed
  have sh3: "shape (x_dag x3) = shape d0" using sh2 e3(1) by simp
  have i3: "i < length (nodes (x_dag x3))" using shape_eqD(1) [OF sh3] i(1) by simp
  obtain x4 where x4: "run_stage env s i ?str x3 = Inr x4" "backed K ?F x4" "shape (x_dag x4) = shape (x_dag x3)"
    "\<forall>b\<in>set ?outs. ready xcap x4 b (W b)" "\<forall>c v. c \<notin> set ?outs \<longrightarrow> ready xcap x3 c v \<longrightarrow> ready xcap x4 c v"
    "\<forall>c. c \<notin> set ?outs \<longrightarrow> buf (x_dag x4) c = buf (x_dag x3) c" "\<forall>c. mem_view (x_dag x4) c = mem_view (x_dag x3) c"
  proof (rule run_stage_data [OF m3 k3 s(3), of i])
    show "input_buffer_ids (node (x_dag x3) i) = ?ins" "output_buffer_ids (node (x_dag x3) i) = ?outs"
      using shape_node(1,2) [OF sh3 i3] by simp_all
    show "\<not> capture_mode (x_dag x3)" using shape_eqD(5) [OF sh3] cap by simp
    show "distinct ?outs" "set ?ins \<inter> set ?outs = {}" by fact+
    show "(d_ptr (buf (x_dag x3) e), xcap e) \<in> ?F" if "is_external (buf (x_dag x3) e)" for e
      using that dptr0 [of e] by (auto simp: e3 ext2 foreign_def)
    show "apart (d_ptr (buf (x_dag x3) b)) (xcap b) (d_ptr (buf (x_dag x3) c)) (xcap c)"
      if "b \<in> set ?outs" "is_external (buf (x_dag x3) b)" "is_external (buf (x_dag x3) c)" "b \<noteq> c" for b c
      using that dataflowD(4) [OF flow, of b c] prod dptr0 by (simp add: e3 ext2)
    show "ready xcap x3 b (W b)" if "b \<in> set ?ins" for b using keep3 [OF inputs_known(1) [OF inv wf i that]] disj that by blast
  qed (use outs3 that in blast)+
  define x5 where "x5 = on_dag (upd_node i (\<lambda>n. n\<lparr>is_executed := True\<rparr>)) (emit [EvRecord i ?str] x4)"
  define y where "y = fold consume ?ins x5"
  have run: "exec_plain env stream i x = Inr y"
    using x2(1) x4(1) st(1) nd s(1) unfolding exec_plain_def Let_def by (simp add: y_def x5_def x3_def)
  have inv': "exec_inv d0 (insert i S) y" by (rule exec_plain_inv [OF data_invD(1) [OF inv] wf run env nofuse strat i(1,2) closed])
  have m4: "mem_ok x4" using run_stage_kept(1) [OF m3 env x4(1)] by (simp add: kept_def)
  have b5: "buf (x_dag x5) b = buf (x_dag x4) b" "x_pool x5 = x_pool x4" "x_mem x5 = x_mem x4" for b by (simp_all add: x5_def)
  have m5: "mem_ok x5" by (rule mem_ok_cong [OF m4]) (use mem_okD(1) [OF m4] in \<open>simp_all add: b5 mem_view_def\<close>)
  have k5: "backed K ?F x5" by (rule backed_cong [OF x4(2)]) (use backedD(1) [OF x4(2)] in \<open>simp_all add: b5 mem_view_def\<close>)
  have C: "backed K ?F y" "only_frees x5 y" using consume_all_backed [OF m5 k5, of ?ins] by (simp_all add: y_def)
  have ext5: "is_external (buf (x_dag x5) b) = is_external (buf d0 b)" for b using shape_eqD(10) [OF x4(3), of b] by (simp add: b5 e3 ext2)
  have "mem_view (x_dag y) b = mem_view d0 b" if "is_external (buf d0 b)" for b
  proof -
    have "mem_view (x_dag y) b = mem_view (x_dag x5) b" using C(2) ext5 that by (simp add: only_frees_def)
    also have "\<dots> = mem_view (x_dag x3) b" using x4(7) by (simp add: mem_view_def b5)
    finally show ?thesis using extv [OF that] by simp
  qed
  moreover have "ready xcap y b (W b)" if k: "known d0 (insert i S) y b" for b
  proof -
    have fin: "ready xcap y b (W b)" if "ready xcap x4 b (W b)" "is_external (buf d0 b) \<or> is_allocated (buf (x_dag y) b)"
      by (rule ready_cong [OF that(1)]) (use C(2) ext5 that(2) b5 in \<open>auto simp: only_frees_def mem_view_def\<close>)
    show ?thesis
    proof (cases "b \<in> set ?outs")
      case True
      with fin x4(4) k prod show ?thesis by (auto simp: known_def)
    next
      case False
      have "is_external (buf d0 b) \<or> is_allocated (buf (x_dag x) b)"
      proof (cases "is_external (buf d0 b)")
        case False
        then have "is_allocated (buf (x_dag y) b)" using k by (simp add: known_def)
        then have "is_allocated (buf (x_dag x5) b)" using C(2) unfolding only_frees_def mem_view_def by (metis prod.inject)
        then have "is_allocated (buf (x_dag x3) b)" using x4(7) by (simp add: b5 mem_view_def)
        with view2 [of b] \<open>b \<notin> set ?outs\<close> show ?thesis by (simp add: e3 mem_view_def)
      qed simp
      moreover have "(\<exists>p\<in>insert i S. producer_stage_id (buf d0 b) = int p) \<longleftrightarrow> (\<exists>p\<in>S. producer_stage_id (buf d0 b) = int p)"
        using prod False by auto
      ultimately have "known d0 S x b" using k by (auto simp: known_def)
      then have "ready xcap x4 b (W b)" using x4(5) False keep3 [OF _ False] by blast
      with fin k show ?thesis by (auto simp: known_def)
    qed
  qed
  moreover have "b_size (buf (x_dag y) b) = b_size (buf d0 b)" if p: "producer_stage_id (buf d0 b) = int p" "p \<notin> insert i S" for b p
  proof -
    have "b \<notin> set ?outs" using prod p by auto
    then have "b_size (buf (x_dag y) b) = b_size (buf (x_dag x) b)" using C(2) x4(6) size2 by (simp add: only_frees_def b5 e3)
    with data_invD(5) [OF inv p(1)] p(2) show ?thesis by simp
  qed
  ultimately have "data_inv K d0 xcap W (insert i S) y" using inv' C(1) by (simp add: data_inv_def)
  with run that show ?thesis by blast
qed

lemma data_prefix:
  assumes "data_inv K d0 xcap W {} x" and flow: "dataflow env K sem d0 xcap W" and wf: "dag_wf d0" and env: "env_ok env"
    and drv: "roomy K (foreign d0 xcap) (se_driver env)"
    and fuse: "fused_internal_buffers d0 = []" "fused_member d0 = []" and strat: "strategy d0 \<noteq> PREALLOCATE" and cap: "\<not> capture_mode d0"
    and topo: "topo_order d0 xs" and "k \<le> length xs"
  shows "\<exists>y. res_fold (exec_node env stream) (take k xs) x = Inr y \<and> data_inv K d0 xcap W (set (take k xs)) y"
  using assms(11)
proof (induction k)
  case 0
  then show ?case using assms(1) by simp
next
  case (Suc k)
  then obtain z where z: "res_fold (exec_node env stream) (take k xs) x = Inr z" "data_inv K d0 xcap W (set (take k xs)) z" by auto
  have k: "k < length xs" using Suc.prems by simp
  note T = topo_orderD [OF topo k]
  have "\<forall>c\<in>set (take k xs). set (dependencies (node d0 c)) \<subseteq> set (take k xs)" using topo_order_closed [OF topo, of k] k by simp
  from data_step [OF z(2) flow wf env drv fuse(1) strat cap T this] obtain y where
    y: "exec_plain env stream (xs ! k) z = Inr y" "data_inv K d0 xcap W (insert (xs ! k) (set (take k xs))) y" by blast
  have "fused_member (x_dag z) = []" using shape_eqD(4) [OF exec_invD(1) [OF data_invD(1) [OF z(2)]]] fuse(2) by simp
  then have "exec_node env stream (xs ! k) z = Inr y" using y(1) by (simp add: exec_node_plain)
  moreover have tk: "take (Suc k) xs = take k xs @ [xs ! k]" using k by (simp add: take_Suc_conv_app_nth)
  ultimately have "res_fold (exec_node env stream) (take (Suc k) xs) x = Inr y" using z(1) by (simp add: res_fold_append)
  with y(2) tk show ?case by (intro exI [of _ y]) simp
qed

text \<open>What a run starts from, and the memory of the external inputs.\<close>

definition run_ready :: "stage_env \<Rightarrow> (dptr \<times> alloc_info) set \<Rightarrow> (int \<Rightarrow> nat) \<Rightarrow> (int \<Rightarrow> u8 list) \<Rightarrow> exec_state \<Rightarrow> bool" where
  "run_ready env K xcap W x \<longleftrightarrow> dag_wf (x_dag x) \<and> is_finalized (x_dag x) \<and> topo_order (x_dag x) (exec_order (x_dag x)) \<and>
     set (exec_order (x_dag x)) = {..<length (nodes (x_dag x))} \<and>
     strategy (x_dag x) \<noteq> PREALLOCATE \<and> fused_member (x_dag x) = [] \<and> fused_internal_buffers (x_dag x) = [] \<and> \<not> capture_mode (x_dag x) \<and>
     (\<forall>b. remaining_consumers (buf (x_dag x) b) = int (length (consumer_stage_ids (buf (x_dag x) b)))) \<and>
     mem_ok x \<and> backed K (foreign (x_dag x) xcap) x \<and> env_ok env \<and> roomy K (foreign (x_dag x) xcap) (se_driver env) \<and>
     (\<forall>b. is_external (buf (x_dag x) b) \<longrightarrow> producer_stage_id (buf (x_dag x) b) = - 1 \<longrightarrow>
        mem_read (x_mem x) (d_ptr (buf (x_dag x) b)) (unat (b_size (buf (x_dag x) b))) = W b)"

lemma data_inv_emit: "data_inv K d0 xcap W S z \<Longrightarrow> data_inv K d0 xcap W S (emit es z)"
  by (auto simp: data_inv_def exec_inv_def backed_def held_def mem_ok_def known_def ready_def value_at_def span_def)

lemma execute_data:
  assumes "run_ready env K xcap W x" "dataflow env K sem (x_dag x) xcap W"
  shows "\<exists>y. execute env stream x = Inr y \<and> data_inv K (x_dag x) xcap W {..<length (nodes (x_dag x))} y"
proof -
  let ?d = "x_dag x" and ?xs = "exec_order (x_dag x)"
  note R = assms(1) [unfolded run_ready_def]
  have "ready xcap x b (W b)" if "is_external (buf ?d b)" "producer_stage_id (buf ?d b) = - 1" for b
    using that R dataflowD(5) [OF assms(2) that] by (simp add: ready_def value_at_def span_def)
  then have start: "data_inv K ?d xcap W {} x"
    using R initial_exec_inv [of x] by (auto simp: data_inv_def known_def)
  obtain z where z: "res_fold (exec_node env stream) ?xs x = Inr z" "data_inv K ?d xcap W (set ?xs) z"
    using data_prefix [OF start assms(2), of ?xs "length ?xs" stream] R by auto
  have "execute env stream x = Inr (emit (join_events (x_dag z) stream) z)" using R z(1) by (simp add: execute_def)
  moreover have "set ?xs = {..<length (nodes ?d)}" using R by blast
  ultimately show ?thesis using data_inv_emit [OF z(2)] by auto
qed

text \<open>What a buffer that outlives the run holds at the end.\<close>

lemma data_inv_ready:
  assumes "data_inv K d xcap W {..<length (nodes d)} y" "dag_wf d" "0 \<le> producer_stage_id (buf d b)" "is_persistent (buf d b) \<or> is_external (buf d b)"
  shows "ready xcap y b (W b)" "is_external (buf d b) \<or> is_allocated (buf (x_dag y) b)"
proof -
  let ?p = "nat (producer_stage_id (buf d b))"
  have "producer_stage_id (buf d b) < int (length (nodes d))" using wf_outputsD(2) [of d b] assms(2) by (simp add: dag_wf_def)
  then have p: "?p \<in> {..<length (nodes d)}" "producer_stage_id (buf d b) = int ?p" using assms(3) by auto
  then show a: "is_external (buf d b) \<or> is_allocated (buf (x_dag y) b)"
    using exec_invD(4) [OF data_invD(1) [OF assms(1)] p] assms(4) by blast
  then have "known d {..<length (nodes d)} y b" using p unfolding known_def by blast
  then show "ready xcap y b (W b)" by (rule data_invD(4) [OF assms(1)])
qed

lemma execute_values:
  assumes "run_ready env K xcap W x" "dataflow env K sem (x_dag x) xcap W"
  shows "\<exists>y. execute env stream x = Inr y \<and>
    (\<forall>b. 0 \<le> producer_stage_id (buf (x_dag x) b) \<longrightarrow> is_persistent (buf (x_dag x) b) \<or> is_external (buf (x_dag x) b) \<longrightarrow>
       unat (b_size (buf (x_dag y) b)) = length (W b) \<and> mem_read (x_mem y) (d_ptr (buf (x_dag y) b)) (length (W b)) = W b)"
proof -
  obtain y where y: "execute env stream x = Inr y" "data_inv K (x_dag x) xcap W {..<length (nodes (x_dag x))} y"
    using execute_data [OF assms] by blast
  have "dag_wf (x_dag x)" using assms(1) by (simp add: run_ready_def)
  with y data_inv_ready(1) [OF y(2)] show ?thesis by (intro exI [of _ y]) (auto simp: ready_def value_at_def)
qed


subsection \<open>A stage that adds a constant to every byte\<close>

definition far_driver :: "nat \<Rightarrow> driver" where
  "far_driver base live n = Some (fold max live base + 2 ^ 64)"

definition shift_env :: "u8 \<Rightarrow> nat \<Rightarrow> stage_env" where
  "shift_env k base = \<lparr>se_run = (\<lambda>st s ins outs sizes (pl, m).
       Inr (take 1 sizes, pl, mem_write m (hd outs) (map ((+) k) (mem_read m (hd ins) (unat (hd sizes)))))),
     se_fused = (\<lambda>_ _ _. Inl (RuntimeError [])), se_debug = True, se_driver = far_driver base, se_scale = (\<lambda>n f. n * 3)\<rparr>"

definition shift_sem :: "u8 \<Rightarrow> nat \<Rightarrow> u8 list list \<Rightarrow> u8 list list" where
  "shift_sem k st vals = map (map ((+) k)) (take 1 vals)"

lemma far_driver_roomy:
  assumes "\<And>p k. (p, k) \<in> F \<Longrightarrow> p + k \<le> base"
  shows "roomy K F (far_driver base)" "driver_ok (far_driver base)"
proof -
  have "apart (fold max (live_ptrs pl) base + 2 ^ 64) (unat n) p (unat (ai_size i))" if "(p, i) \<in> entries pl" for pl p i and n :: size_t
  proof -
    have "p \<in> set (live_ptrs pl)" using that by (force simp: entries_def live_ptrs_def)
    then have "p \<le> fold max (live_ptrs pl) base" by (rule fold_max_ge(1))
    moreover have "unat (ai_size i) < 2 ^ 64" using unsigned_less [of "ai_size i", where 'a = nat] by simp
    ultimately show ?thesis unfolding apart_def by linarith
  qed
  moreover have "apart (fold max (live_ptrs pl) base + 2 ^ 64) (unat n) p k" if "(p, k) \<in> F" for pl p k and n :: size_t
    using assms [OF that] fold_max_ge(2) [of base "live_ptrs pl"] unfolding apart_def by linarith
  ultimately show "roomy K F (far_driver base)" by (auto simp: roomy_def far_driver_def)
  have "q \<notin> set live" if "q = fold max live base + 2 ^ 64" for q and live :: "nat list"
    using fold_max_ge(1) [of q live base] that by auto
  then show "driver_ok (far_driver base)" by (auto simp: driver_ok_def far_driver_def)
qed

lemma shift_env_ok:
  assumes "\<And>p k. (p, k) \<in> F \<Longrightarrow> p + k \<le> base"
  shows "env_ok (shift_env k base)" "roomy K F (se_driver (shift_env k base))"
  using far_driver_roomy [OF assms] by (auto simp: env_ok_def shift_env_def)

lemma shift_computes:
  assumes "length v \<le> r"
  shows "computes (shift_env k base) K F st [v] (shift_sem k st [v]) [r]"
  unfolding computes_def
proof (intro allI impI)
  fix s ins outs sizes pl m
  assume a: "stage_inputs m ins sizes = [v]" "writes_ok outs [r] ins sizes" "pool_fine K F pl"
  obtain p where p: "ins = [p]" and n: "\<exists>n. sizes = [n]" and q: "\<exists>q. outs = [q]"
    using a(1,2) unfolding stage_inputs_def writes_ok_def
    by (cases ins; cases sizes; cases outs) (auto simp: length_Suc_conv)
  obtain n q where nq: "sizes = [n]" "outs = [q]" using n q by blast
  have v: "mem_read m p (unat n) = v" using a(1) by (simp add: stage_inputs_def p nq)
  then have len: "unat n = length v" by auto
  then have nn: "n = word_of_nat (length v)" by (metis of_nat_unat ucast_id)
  let ?m = "mem_write m q (map ((+) k) v)"
  have "se_run (shift_env k base) st s ins outs sizes (pl, m) = Inr (map (\<lambda>v. word_of_nat (length v)) (shift_sem k st [v]), pl, ?m)"
    using v nn by (simp add: shift_env_def shift_sem_def p nq)
  moreover have "mem_read ?m q (length v) = map ((+) k) v" by (simp add: mem_read_nth_eq mem_write_def)
  moreover have "?m a = m a" if "a < q \<or> q + r \<le> a" for a using that assms by (auto simp: mem_write_def)
  ultimately show "\<exists>pl' m'. se_run (shift_env k base) st s ins outs sizes (pl, m) =
      Inr (map (\<lambda>v. word_of_nat (length v)) (shift_sem k st [v]), pl', m') \<and> pool_fine K F pl' \<and> entries pl \<subseteq> entries pl' \<and>
      (\<forall>k'<length outs. mem_read m' (outs ! k') (length (shift_sem k st [v] ! k')) = shift_sem k st [v] ! k') \<and>
      (\<forall>a. (\<forall>k'<length outs. a < outs ! k' \<or> outs ! k' + [r] ! k' \<le> a) \<longrightarrow> protected F pl a \<longrightarrow> m' a = m a)"
    using a(3) by (intro exI [of _ pl] exI [of _ ?m]) (simp add: nq shift_sem_def)
qed

definition demo_values :: "int \<Rightarrow> u8 list" where
  "demo_values b = replicate 64 (word_of_int b)"

definition demo_cap :: "int \<Rightarrow> nat" where
  "demo_cap b = 64"

lemma demo_buffers:
  "buf (x_dag demo_start) b = (if b = 0 then new_buffer\<lparr>b_size := 64, initial_size := 64, b_tag := ''input'', consumer_stage_ids := [0],
       is_persistent := True, is_external := True, remaining_consumers := 1\<rparr>
     else if b = 1 then (buf (x_dag demo_start) 1) else if b = 2 then (buf (x_dag demo_start) 2) else new_buffer)"
  "is_external (buf (x_dag demo_start) 1) = False" "producer_stage_id (buf (x_dag demo_start) 1) = 0" "b_size (buf (x_dag demo_start) 1) = 64"
  "is_external (buf (x_dag demo_start) 2) = False" "producer_stage_id (buf (x_dag demo_start) 2) = 1" "b_size (buf (x_dag demo_start) 2) = 64"
  "is_persistent (buf (x_dag demo_start) 2)"
proof -
  have "map fst (buffer_table (x_dag demo_start)) = [0, 1, 2]" by code_simp
  then have "b = 0 \<or> b = 1 \<or> b = 2 \<or> buffers (x_dag demo_start) b = None"
    unfolding buffers_def map_of_eq_None_iff by (metis (no_types) empty_iff image_set list.set(1) set_ConsD)
  moreover have "buf (x_dag demo_start) 0 = new_buffer\<lparr>b_size := 64, initial_size := 64, b_tag := ''input'', consumer_stage_ids := [0],
       is_persistent := True, is_external := True, remaining_consumers := 1\<rparr>" by code_simp
  ultimately show "buf (x_dag demo_start) b = (if b = 0 then new_buffer\<lparr>b_size := 64, initial_size := 64, b_tag := ''input'', consumer_stage_ids := [0],
       is_persistent := True, is_external := True, remaining_consumers := 1\<rparr>
     else if b = 1 then (buf (x_dag demo_start) 1) else if b = 2 then (buf (x_dag demo_start) 2) else new_buffer)"
    using buf_None by auto
qed (code_simp+)

lemma demo_external: "is_external (buf (x_dag demo_start) b) \<longleftrightarrow> b = 0" "foreign (x_dag demo_start) demo_cap = {(0, 64)}"
proof -
  show e: "is_external (buf (x_dag demo_start) b) \<longleftrightarrow> b = 0" for b
    using demo_buffers(1) [of b] demo_buffers(2,5) by (auto simp: new_buffer_def)
  have "d_ptr (buf (x_dag demo_start) 0) = 0" by code_simp
  with e show "foreign (x_dag demo_start) demo_cap = {(0, 64)}" by (auto simp: foreign_def demo_cap_def)
qed

lemma demo_produced: "0 \<le> producer_stage_id (buf (x_dag demo_start) b) \<longleftrightarrow> b = 1 \<or> b = 2"
  using demo_buffers(1) [of b] demo_buffers(3,6) by (auto simp: new_buffer_def)

lemma demo_run_ready: "run_ready (shift_env 1 64) {} demo_cap demo_values demo_start"
proof -
  have "is_finalized (x_dag demo_start)" "\<not> capture_mode (x_dag demo_start)" by code_simp+
  moreover have "pool_fine {} F (x_pool demo_start)" for F
    using make_pool_wf by (simp add: pool_fine_def demo_start_def entries_def make_pool_def)
  moreover have "list_all (\<lambda>(b, r). \<not> is_allocated r) (buffer_table (x_dag demo_start))" by code_simp
  then have "\<not> is_allocated (buf (x_dag demo_start) b)" for b by (rule buf_all) (simp add: new_buffer_def)
  moreover have "mem_read (x_mem demo_start) p n = replicate n 0" for p n
    by (simp add: demo_start_def mem_read_def map_replicate_const)
  ultimately show ?thesis
    using demo_start_ready demo_external demo_buffers(1) [of 0] shift_env_ok(1) [of "{(0, 64)}" 64 1] shift_env_ok(2) [where F = "{(0, 64)}" and base = 64 and k = 1 and K = "{}"]
    by (simp add: run_ready_def backed_def held_def demo_values_def)
qed

lemma demo_dataflow: "dataflow (shift_env 1 64) {} (shift_sem 1) (x_dag demo_start) demo_cap demo_values"
proof -
  have nd: "length (nodes (x_dag demo_start)) = 2" "n_stage (node (x_dag demo_start) 0) = Some 0" "n_stage (node (x_dag demo_start) 1) = Some 1"
    "input_buffer_ids (node (x_dag demo_start) 0) = [0]" "output_buffer_ids (node (x_dag demo_start) 0) = [1]"
    "input_buffer_ids (node (x_dag demo_start) 1) = [1]" "output_buffer_ids (node (x_dag demo_start) 1) = [2]" by code_simp+
  have room: "room (x_dag demo_start) demo_cap 1 = 64" "room (x_dag demo_start) demo_cap 2 = 64" by (simp_all add: room_def demo_buffers(2-7))
  have vals: "shift_sem 1 s [demo_values b] = [demo_values (b + 1)]" for s b
    by (simp add: shift_sem_def demo_values_def map_replicate add.commute)
  have "\<exists>st. n_stage (node (x_dag demo_start) i) = Some st \<and>
      map demo_values (output_buffer_ids (node (x_dag demo_start) i)) = shift_sem 1 st (map demo_values (input_buffer_ids (node (x_dag demo_start) i))) \<and>
      computes (shift_env 1 64) {} (foreign (x_dag demo_start) demo_cap) st (map demo_values (input_buffer_ids (node (x_dag demo_start) i)))
        (shift_sem 1 st (map demo_values (input_buffer_ids (node (x_dag demo_start) i)))) (map (room (x_dag demo_start) demo_cap) (output_buffer_ids (node (x_dag demo_start) i)))"
    if "i < length (nodes (x_dag demo_start))" for i
  proof -
    have "i = 0 \<or> i = 1" using that nd(1) by auto
    then show ?thesis
      using shift_computes [of "demo_values 0" 64 1 64] shift_computes [of "demo_values 1" 64 1 64] vals [of _ 0] vals [of _ 1]
      by (elim disjE) (simp_all add: nd nd [unfolded One_nat_def] room demo_values_def)
  qed
  moreover have "length (demo_values b) = 64" "demo_values b \<noteq> []" for b by (simp_all add: demo_values_def)
  moreover have "unat (b_size (buf (x_dag demo_start) 0)) = 64" using demo_buffers(1) [of 0] by simp
  ultimately show ?thesis
    using demo_external(1) demo_produced demo_buffers(2-7) room by (auto simp: dataflow_def demo_cap_def)
qed


end
