(* ===== verification/Roundtrip.thy ===== *)
theory Roundtrip
  imports Inverse_Dag Dataflow
begin

section \<open>The inverse graph restores the input\<close>

text \<open>
  The graph \<open>buildInverseDAG\<close> makes, run by \<open>execute\<close>: if every stage in inverse mode undoes what it did in
  forward mode, the result buffers hold the bytes the forward sources read.  \<open>W\<close> gives the bytes of every buffer
  of the forward run.
\<close>

subsection \<open>The values of the inverse graph\<close>

text \<open>Output \<open>k\<close> of the inverse of a stage is what the stage read at port \<open>k\<close>; external buffers are what memory holds.\<close>

definition inv_value :: "fwd_stage_desc list \<Rightarrow> (int \<Rightarrow> u8 list) \<Rightarrow> dag \<Rightarrow> dev_mem \<Rightarrow> int \<Rightarrow> u8 list" where
  "inv_value fwd W d m q =
     (if 0 \<le> producer_stage_id (buf d q)
      then let v = nat (producer_stage_id (buf d q)) in W (fd_input_buf_ids (fwd ! inv_of fwd v) ! nat (q - hd (output_buffer_ids (node d v))))
      else mem_read m (d_ptr (buf d q)) (unat (b_size (buf d q))))"

text \<open>The compressed bytes of every buffer nobody reads stand where \<open>outs\<close> says.\<close>

definition blobs_hold :: "fwd_stage_desc list \<Rightarrow> (int \<rightharpoonup> dptr \<times> size_t) \<Rightarrow> (int \<Rightarrow> u8 list) \<Rightarrow> dev_mem \<Rightarrow> bool" where
  "blobs_hold fwd outs W m \<longleftrightarrow> (\<forall>i<length fwd. \<forall>b\<in>set (fd_output_buf_ids (fwd ! i)). buf_to_consumer fwd b = None \<longrightarrow>
     (\<exists>p n. outs b = Some (p, n) \<and> mem_read m p (unat n) = W b))"

definition blob_regions :: "(int \<rightharpoonup> dptr \<times> size_t) \<Rightarrow> (dptr \<times> nat) set" where
  "blob_regions outs = {(p, unat n) | p n. \<exists>b. outs b = Some (p, n)}"

text \<open>
  A stage in inverse mode: from what it wrote it computes what it read, into any memory large enough, and its size
  estimates are upper bounds.
\<close>

definition inverts ::
  "stage_api \<Rightarrow> stage_env \<Rightarrow> (dptr \<times> alloc_info) set \<Rightarrow> (nat \<Rightarrow> u8 list list \<Rightarrow> u8 list list) \<Rightarrow> (int \<Rightarrow> u8 list) \<Rightarrow> fwd_stage_desc \<Rightarrow> bool" where
  "inverts api env K isem W fd \<longleftrightarrow>
     (let s = fd_stage fd; wrote = map W (fd_output_buf_ids fd); read = map W (fd_input_buf_ids fd) in
      isem s wrote = read \<and> getNumOutputs api s = length read \<and> list_all (\<lambda>v. v \<noteq> [] \<and> length v < 2 ^ 64) read \<and>
      (\<forall>F rooms. list_all2 (\<lambda>v r. length v \<le> r) read rooms \<longrightarrow> computes env K F s wrote read rooms) \<and>
      (\<forall>ns. list_all2 (\<lambda>v n. length v \<le> unat n) wrote ns \<longrightarrow> list_all2 (\<lambda>v n. length v \<le> unat n) read (estimateOutputSizes api s ns)))"

lemma roomy_mono:
  assumes "roomy K F drv" "F' \<subseteq> F"
  shows "roomy K F' drv"
  unfolding roomy_def
proof (intro allI impI)
  fix pl and n :: size_t assume "pool_wf pl" "K \<subseteq> entries pl" "n \<noteq> 0"
  then obtain q where "drv (live_ptrs pl) n = Some q" "\<forall>p i. (p, i) \<in> entries pl \<longrightarrow> apart q (unat n) p (unat (ai_size i))"
    "\<forall>p k. (p, k) \<in> F \<longrightarrow> apart q (unat n) p k" using assms(1) unfolding roomy_def by metis
  with assms(2) show "\<exists>q. drv (live_ptrs pl) n = Some q \<and> (\<forall>p i. (p, i) \<in> entries pl \<longrightarrow> apart q (unat n) p (unat (ai_size i))) \<and>
      (\<forall>p k. (p, k) \<in> F' \<longrightarrow> apart q (unat n) p k)" by blast
qed

lemma pool_fine_mono: "pool_fine K F pl \<Longrightarrow> F' \<subseteq> F \<Longrightarrow> pool_fine K F' pl"
  unfolding pool_fine_def by blast

subsection \<open>Where the inputs come from\<close>

lemma out_ids_value:
  assumes "dag_wf d" "v < length (nodes d)" "output_buffer_ids (node d v) = out_ids b0 n" "k < n"
  shows "inv_value fwd W d m (b0 + int k) = W (fd_input_buf_ids (fwd ! inv_of fwd v) ! k)"
proof -
  have mem: "b0 + int k \<in> set (output_buffer_ids (node d v))" using assms(3,4) by (auto simp: out_ids_def)
  have p: "producer_stage_id (buf d (b0 + int k)) = int v" using produced_exists(1) [OF assms(1,2) mem] .
  have "hd (output_buffer_ids (node d v)) = b0" using assms(3,4) by (cases n) (simp_all add: out_ids_def upt_conv_Cons del: upt_Suc)
  with p show ?thesis by (simp add: inv_value_def)
qed

lemma port_buffer_value:
  assumes "dag_wf d" "length (nodes d) = length fwd" "inv_ports api fwd d" "c < length fwd" "k < getNumOutputs api (fd_stage (fwd ! c))"
    and "map_of (output_index_to_buffer_id (node d (inv_of fwd c))) (int k) = Some q"
  shows "inv_value fwd W d m q = W (fd_input_buf_ids (fwd ! c) ! k)" "producer_stage_id (buf d q) = int (inv_of fwd c)"
proof -
  obtain b where b: "output_index_to_buffer_id (node d (inv_of fwd c)) = out_ports b (getNumOutputs api (fd_stage (fwd ! c)))"
    "output_buffer_ids (node d (inv_of fwd c)) = out_ids b (getNumOutputs api (fd_stage (fwd ! c)))" using assms(3,4) by (auto simp: inv_ports_def)
  have q: "q = b + int k" using assms(5,6) b(1) by (simp add: map_of_out_ports)
  have v: "inv_of fwd c < length (nodes d)" using inv_of_less [OF assms(4)] assms(2) by simp
  have "inv_of fwd (inv_of fwd c) = c" using assms(4) by auto
  with out_ids_value [OF assms(1) v b(2) assms(5), of fwd W m] show "inv_value fwd W d m q = W (fd_input_buf_ids (fwd ! c) ! k)" by (simp add: q)
  show "producer_stage_id (buf d q) = int (inv_of fwd c)"
    by (rule produced_exists(1) [OF assms(1) v]) (use b(2) assms(5) in \<open>auto simp: q out_ids_def\<close>)
qed

lemma input_value:
  assumes wf: "dag_wf d" "length (nodes d) = length fwd" and ports: "inv_ports api fwd d"
    and inv: "\<forall>c<length fwd. getNumOutputs api (fd_stage (fwd ! c)) = length (fd_input_buf_ids (fwd ! c))"
    and hold: "blobs_hold fwd outs W m" and i: "i < length fwd" "b \<in> set (fd_output_buf_ids (fwd ! i))" and io: "input_of fwd outs d b q"
  shows "inv_value fwd W d m q = W b" "producer_stage_id (buf d q) = - 1 \<Longrightarrow> outs b = Some (d_ptr (buf d q), b_size (buf d q))"
proof -
  have "inv_value fwd W d m q = W b \<and> (producer_stage_id (buf d q) = - 1 \<longrightarrow> outs b = Some (d_ptr (buf d q), b_size (buf d q)))"
  proof (cases "buf_to_consumer fwd b")
    case None
    then have "producer_stage_id (buf d q) = - 1" "outs b = Some (d_ptr (buf d q), b_size (buf d q))" using io by (simp_all add: input_of_def)
    moreover obtain p n where "outs b = Some (p, n)" "mem_read m p (unat n) = W b" using hold None i unfolding blobs_hold_def by blast
    ultimately show ?thesis by (simp add: inv_value_def)
  next
    case (Some ck)
    then obtain c k where c: "buf_to_consumer fwd b = Some (c, k)" by (cases ck) simp
    note C = buf_to_consumer_Some [OF c]
    have "map_of (output_index_to_buffer_id (node d (inv_of fwd c))) (int k) = Some q" using io c by (simp add: input_of_def)
    with port_buffer_value(1) [OF wf ports C(1), of k q W m] port_buffer_value(2) [OF wf ports C(1), of k q] C inv show ?thesis by auto
  qed
  then show "inv_value fwd W d m q = W b" "producer_stage_id (buf d q) = - 1 \<Longrightarrow> outs b = Some (d_ptr (buf d q), b_size (buf d q))" by simp_all
qed

lemma inputs_value:
  assumes "dag_wf d" "inv_ports api fwd d" "\<forall>c<length fwd. getNumOutputs api (fd_stage (fwd ! c)) = length (fd_input_buf_ids (fwd ! c))"
    and "blobs_hold fwd outs W m" "inverse_shape fwd outs d" "i < length fwd"
  shows "map (inv_value fwd W d m) (input_buffer_ids (node d (inv_of fwd i))) = map W (fd_output_buf_ids (fwd ! i))"
proof -
  have len: "length (nodes d) = length fwd" and la: "list_all2 (input_of fwd outs d) (fd_output_buf_ids (fwd ! i)) (input_buffer_ids (node d (inv_of fwd i)))"
    using assms(5,6) by (simp_all add: inverse_shape_def)
  show ?thesis
  proof (rule nth_equalityI)
    show "length (map (inv_value fwd W d m) (input_buffer_ids (node d (inv_of fwd i)))) = length (map W (fd_output_buf_ids (fwd ! i)))"
      using list_all2_lengthD [OF la] by simp
    fix k assume "k < length (map (inv_value fwd W d m) (input_buffer_ids (node d (inv_of fwd i))))"
    then have k: "k < length (fd_output_buf_ids (fwd ! i))" using list_all2_lengthD [OF la] by simp
    then have "fd_output_buf_ids (fwd ! i) ! k \<in> set (fd_output_buf_ids (fwd ! i))" by simp
    from input_value(1) [OF assms(1) len assms(2-4,6) this list_all2_nthD [OF la k]] k list_all2_lengthD [OF la]
    show "map (inv_value fwd W d m) (input_buffer_ids (node d (inv_of fwd i))) ! k = map W (fd_output_buf_ids (fwd ! i)) ! k" by simp
  qed
qed

lemma outputs_value:
  assumes "dag_wf d" "length (nodes d) = length fwd" "inv_ports api fwd d" "i < length fwd"
    and "getNumOutputs api (fd_stage (fwd ! i)) = length (fd_input_buf_ids (fwd ! i))"
  shows "map (inv_value fwd W d m) (output_buffer_ids (node d (inv_of fwd i))) = map W (fd_input_buf_ids (fwd ! i))"
proof -
  obtain b where b: "output_buffer_ids (node d (inv_of fwd i)) = out_ids b (length (fd_input_buf_ids (fwd ! i)))"
    using assms(3-5) by (auto simp: inv_ports_def)
  have v: "inv_of fwd i < length (nodes d)" "inv_of fwd (inv_of fwd i) = i" using assms(2,4) by auto
  have "inv_value fwd W d m (b + int k) = W (fd_input_buf_ids (fwd ! i) ! k)" if "k < length (fd_input_buf_ids (fwd ! i))" for k
    using out_ids_value [OF assms(1) v(1) b that, of fwd W m] v(2) by simp
  then show ?thesis unfolding b out_ids_def by (intro nth_equalityI) simp_all
qed

subsection \<open>The graph is ready to run\<close>

lemma built_graph:
  assumes topo: "topo_ok fwd" and built: "inverse_built api fe fwd outs strat ss False e d rm"
  shows "dag_wf d" "topo_order d (exec_order d)" "set (exec_order d) = {..<length (nodes d)}" "plain d = (strat, [], [], False)"
    "\<forall>b. remaining_consumers (buf d b) = int (length (consumer_stage_ids (buf d b)))" "tidy d" "inv_ports api fwd d" "is_finalized d"
    "length (nodes e) = length fwd" "length (nodes d) = length fwd"
    "\<forall>i<length fwd. n_stage (node d i) = n_stage (node e i) \<and> input_buffer_ids (node d i) = input_buffer_ids (node e i) \<and>
       output_buffer_ids (node d i) = output_buffer_ids (node e i)"
    "\<forall>b. producer_stage_id (buf d b) = producer_stage_id (buf e b) \<and> is_external (buf d b) = is_external (buf e b)"
    "\<forall>b. is_external (buf e b) \<longrightarrow> b_size (buf d b) = b_size (buf e b)"
proof -
  note B = built [unfolded inverse_built_def]
  have e: "dag_wf e" "length (nodes e) = length fwd" using B by (simp_all add: inverse_shape_def)
  have ins: "insertion_ordered e" using inverse_shape_ordered(1) [OF topo] B by blast
  define d1 where "d1 = fst (dag_finalize (fe_ord fe e) (fe_streams fe) e)"
  have fin: "snd (dag_finalize (fe_ord fe e) (fe_streams fe) e) = Inr ()" and z: "sized d1 d" using B by (simp_all add: d1_def)
  note Z = z [unfolded sized_def] and R = finalize_exec_ready [OF e(1) fin d1_def] and S = finalize_ok_shape [OF fin, folded d1_def]
  obtain t own where d1: "d1 = (assignStreams ((assignLevels (reset_counts e))\<lparr>streams := t, owns_streams := own\<rparr>))\<lparr>is_finalized := True\<rparr>"
    using finalize_ok_cases [OF fin] unfolding d1_def by metis
  have cap: "capture_mode d1 = capture_mode e" by (simp add: d1 assignStreams_def assignLevels_def reset_counts_def Let_def)
  have xo: "exec_order d = exec_order d1" using Z by (simp add: exec_order_def)
  show "dag_wf d" "is_finalized d" using Z S(4) by simp_all
  show "length (nodes e) = length fwd" "length (nodes d) = length fwd" using e(2) Z S(1) by simp_all
  show "topo_order d (exec_order d)" "set (exec_order d) = {..<length (nodes d)}"
    using finalize_topo_order [OF e(1) fin ins d1_def] Z unfolding xo by (simp_all add: topo_order_def)
  show "plain d = (strat, [], [], False)" using Z R(3-5) cap B by (simp add: plain_def)
  have bf: "buf d b = (buf d1 b)\<lparr>b_size := b_size (buf d b), initial_size := initial_size (buf d b)\<rparr>" for b using Z by blast
  have rc: "remaining_consumers (buf d b) = remaining_consumers (buf d1 b)" "is_allocated (buf d b) = is_allocated (buf d1 b)"
    "allocated_size (buf d b) = allocated_size (buf d1 b)" for b
    by (subst bf, simp)+
  show "\<forall>b. remaining_consumers (buf d b) = int (length (consumer_stage_ids (buf d b)))"
    using rc(1) R(2) sized_fields(2) [OF z] by simp
  show ext: "\<forall>b. producer_stage_id (buf d b) = producer_stage_id (buf e b) \<and> is_external (buf d b) = is_external (buf e b)"
    using sized_fields [OF z] R(2) by simp
  show "tidy d" using B ext rc(2,3) R(2) sized_fields(2) [OF z] by (simp add: tidy_def)
  show "inv_ports api fwd d" using B Z R(10,11) e(2) inv_of_less [of _ fwd] by (simp add: inv_ports_def)
  show "\<forall>i<length fwd. n_stage (node d i) = n_stage (node e i) \<and> input_buffer_ids (node d i) = input_buffer_ids (node e i) \<and>
       output_buffer_ids (node d i) = output_buffer_ids (node e i)" using Z R(8-10) e(2) by simp
  show "\<forall>b. is_external (buf e b) \<longrightarrow> b_size (buf d b) = b_size (buf e b)"
  proof (intro allI impI)
    fix b assume "is_external (buf e b)"
    then have "producer_stage_id (buf d1 b) = - 1" using B R(2) by (simp add: tidy_def)
    then have "buf d b = buf d1 b" using Z by blast
    then show "b_size (buf d b) = b_size (buf e b)" using R(2) by simp
  qed
qed

lemma built_values:
  assumes topo: "topo_ok fwd" and built: "inverse_built api fe fwd outs strat ss False e d rm"
    and hold: "blobs_hold fwd outs W m" and inv: "\<forall>i<length fwd. inverts api env K isem W (fwd ! i)"
  defines "V \<equiv> inv_value fwd W d m"
  shows "i < length fwd \<Longrightarrow> map V (input_buffer_ids (node d (inv_of fwd i))) = map W (fd_output_buf_ids (fwd ! i))"
    "i < length fwd \<Longrightarrow> map V (output_buffer_ids (node d (inv_of fwd i))) = map W (fd_input_buf_ids (fwd ! i))"
    "0 \<le> producer_stage_id (buf d q) \<Longrightarrow> V q \<noteq> [] \<and> length (V q) < 2 ^ 64"
    "is_external (buf d q) \<Longrightarrow> producer_stage_id (buf d q) = - 1 \<and> (d_ptr (buf d q), unat (b_size (buf d q))) \<in> blob_regions outs \<and>
       V q = mem_read m (d_ptr (buf d q)) (unat (b_size (buf d q)))"
    "0 \<le> producer_stage_id (buf d q) \<Longrightarrow> length (V q) \<le> unat (b_size (buf d q))"
proof -
  note G = built_graph [OF topo built]
  have shape: "inverse_shape fwd outs d" using built by (simp add: inverse_built_def)
  have num: "\<forall>c<length fwd. getNumOutputs api (fd_stage (fwd ! c)) = length (fd_input_buf_ids (fwd ! c))"
    using inv by (simp add: inverts_def Let_def)
  show ins: "map V (input_buffer_ids (node d (inv_of fwd i))) = map W (fd_output_buf_ids (fwd ! i))" if "i < length fwd" for i
    unfolding V_def by (rule inputs_value [OF G(1,7) num hold shape that])
  show outs: "map V (output_buffer_ids (node d (inv_of fwd i))) = map W (fd_input_buf_ids (fwd ! i))" if "i < length fwd" for i
    unfolding V_def by (rule outputs_value [OF G(1,10,7) that]) (use num that in blast)
  show "V q \<noteq> [] \<and> length (V q) < 2 ^ 64" if p: "0 \<le> producer_stage_id (buf d q)"
  proof -
    let ?v = "nat (producer_stage_id (buf d q))"
    have v: "?v < length fwd" using wf_outputsD(2) [of d q] G(1,10) p by (auto simp: dag_wf_def)
    have "q \<in> set (output_buffer_ids (node d ?v))" using wf_outputsD(3) [of d ?v q] G(1,10) p v by (simp add: dag_wf_def)
    moreover have "?v = inv_of fwd (inv_of fwd ?v)" "inv_of fwd ?v < length fwd" using v by auto
    ultimately have "V q \<in> set (map W (fd_input_buf_ids (fwd ! inv_of fwd ?v)))" using outs [of "inv_of fwd ?v"] by (metis imageI list.set_map)
    moreover have "list_all (\<lambda>v. v \<noteq> [] \<and> length v < 2 ^ 64) (map W (fd_input_buf_ids (fwd ! inv_of fwd ?v)))"
      using inv \<open>inv_of fwd ?v < length fwd\<close> by (simp add: inverts_def Let_def)
    ultimately show ?thesis by (auto simp: list_all_iff)
  qed
  show ext: "producer_stage_id (buf d q) = - 1 \<and> (d_ptr (buf d q), unat (b_size (buf d q))) \<in> blob_regions outs \<and>
       V q = mem_read m (d_ptr (buf d q)) (unat (b_size (buf d q)))" if x: "is_external (buf d q)" for q
  proof -
    have p: "producer_stage_id (buf d q) = - 1" "consumer_stage_ids (buf d q) \<noteq> []" using G(6) x by (simp_all add: tidy_def)
    then obtain c where c: "c \<in> set (consumer_stage_ids (buf d q))" by fastforce
    have cl: "c < length fwd" using wf_inputsD(1) [of d c q] c G(1,10) by (simp add: dag_wf_def)
    have "q \<in> set (input_buffer_ids (node d c))"
      using wf_inputsD(2) [of d c q] cl c G(1,10) unfolding dag_wf_def by (metis count_list_0_iff)
    moreover have i: "c = inv_of fwd (inv_of fwd c)" "inv_of fwd c < length fwd" using cl by auto
    moreover have la: "list_all2 (input_of fwd outs d) (fd_output_buf_ids (fwd ! inv_of fwd c)) (input_buffer_ids (node d (inv_of fwd (inv_of fwd c))))"
      using shape i(2) by (simp add: inverse_shape_def)
    ultimately obtain b where b: "b \<in> set (fd_output_buf_ids (fwd ! inv_of fwd c))" "input_of fwd outs d b q"
      by (metis in_set_conv_nth list_all2_lengthD list_all2_nthD2)
    have "outs b = Some (d_ptr (buf d q), b_size (buf d q))" by (rule input_value(2) [OF G(1,10,7) num hold i(2) b p(1)])
    with p(1) show ?thesis by (auto simp: blob_regions_def V_def inv_value_def)
  qed
  show "length (V q) \<le> unat (b_size (buf d q))" if p: "0 \<le> producer_stage_id (buf d q)"
  proof -
    have "list_all2 (\<lambda>b n. length (V b) \<le> unat n) (output_buffer_ids (node e i)) (estimateOutputSizes api (stage_of e i) ns)"
      if i: "i < length fwd" and ns: "list_all2 (\<lambda>b n. length (V b) \<le> unat n) (input_buffer_ids (node e i)) ns" for i ns
    proof -
      let ?k = "inv_of fwd i"
      have k: "i = inv_of fwd ?k" "?k < length fwd" using i by auto
      have "n_stage (node d (inv_of fwd ?k)) = Some (fd_stage (fwd ! ?k))" using shape k(2) unfolding inverse_shape_def by blast
      then have "stage_of e i = fd_stage (fwd ! ?k)" using G(11) i unfolding k(1) [symmetric] by (simp add: stage_of_def)
      moreover have "list_all2 (\<lambda>v n. length v \<le> unat n) (map W (fd_output_buf_ids (fwd ! ?k))) ns"
        unfolding ins [OF k(2), symmetric] k(1) [symmetric] using ns G(11) i by (simp add: list_all2_map1)
      then have "list_all2 (\<lambda>v n. length v \<le> unat n) (map W (fd_input_buf_ids (fwd ! ?k))) (estimateOutputSizes api (fd_stage (fwd ! ?k)) ns)"
        using inv k(2) by (simp add: inverts_def Let_def)
      then have "list_all2 (\<lambda>v n. length v \<le> unat n) (map V (output_buffer_ids (node e i))) (estimateOutputSizes api (fd_stage (fwd ! ?k)) ns)"
        using outs [OF k(2)] G(11) i unfolding k(1) [symmetric] by simp
      ultimately show ?thesis by (simp add: list_all2_map1)
    qed
    moreover have "length (V b) \<le> unat (b_size (buf e b))" if "is_external (buf e b)" for b
      using ext [of b] G(12,13) that by simp
    ultimately have "covers api e (\<lambda>b. length (V b))" using G(9) by (simp add: covers_def)
    moreover have "0 \<le> producer_stage_id (buf e q)" using p G(12) by simp
    ultimately show ?thesis using built unfolding inverse_built_def by blast
  qed
qed

text \<open>The equation of a node, for every memory the graph may be attached to.\<close>

lemma inverse_node:
  assumes topo: "topo_ok fwd" and built: "inverse_built api fe fwd outs strat ss False e d rm"
    and hold: "blobs_hold fwd outs W m" and inv: "\<forall>i<length fwd. inverts api env K isem W (fwd ! i)"
    and v: "v < length (nodes d)"
  defines "V \<equiv> inv_value fwd W d m"
  shows "\<exists>st. n_stage (node d v) = Some st \<and> map V (output_buffer_ids (node d v)) = isem st (map V (input_buffer_ids (node d v))) \<and>
      computes env K F st (map V (input_buffer_ids (node d v))) (isem st (map V (input_buffer_ids (node d v))))
        (map (\<lambda>q. unat (b_size (buf d q))) (output_buffer_ids (node d v)))"
proof -
  note G = built_graph [OF topo built] and B = built_values [OF topo built hold inv, folded V_def]
  have shape: "inverse_shape fwd outs d" using built by (simp add: inverse_built_def)
  let ?i = "inv_of fwd v"
  have i: "v = inv_of fwd ?i" "?i < length fwd" using v G(10) by auto
  have st: "n_stage (node d v) = Some (fd_stage (fwd ! ?i))" using shape i(2) unfolding inverse_shape_def by (metis i(1))
  have I: "isem (fd_stage (fwd ! ?i)) (map W (fd_output_buf_ids (fwd ! ?i))) = map W (fd_input_buf_ids (fwd ! ?i))"
    "\<And>F rooms. list_all2 (\<lambda>v r. length v \<le> r) (map W (fd_input_buf_ids (fwd ! ?i))) rooms \<Longrightarrow>
      computes env K F (fd_stage (fwd ! ?i)) (map W (fd_output_buf_ids (fwd ! ?i))) (map W (fd_input_buf_ids (fwd ! ?i))) rooms"
    using inv i(2) by (simp_all add: inverts_def Let_def)
  note vals = B(1) [OF i(2)] B(2) [OF i(2)]
  have "length (V q) \<le> unat (b_size (buf d q))" if "q \<in> set (output_buffer_ids (node d v))" for q
    using B(5) [of q] produced_exists(1) [OF G(1) v that] by simp
  then have "list_all2 (\<lambda>x r. length x \<le> r) (map V (output_buffer_ids (node d v))) (map (\<lambda>q. unat (b_size (buf d q))) (output_buffer_ids (node d v)))"
    by (simp add: list_all2_map1 list_all2_map2 list_all2_same)
  then show ?thesis using st I vals unfolding i(1) [symmetric] by simp
qed

lemma inverse_dataflow:
  assumes topo: "topo_ok fwd" and built: "inverse_built api fe fwd outs strat ss False e d rm"
    and hold: "blobs_hold fwd outs W m" and inv: "\<forall>i<length fwd. inverts api env K isem W (fwd ! i)"
  shows "dataflow env K isem d (\<lambda>q. unat (b_size (buf d q))) (inv_value fwd W d m)"
    "foreign d (\<lambda>q. unat (b_size (buf d q))) \<subseteq> blob_regions outs"
proof -
  let ?V = "inv_value fwd W d m" and ?cap = "\<lambda>q. unat (b_size (buf d q))"
  note B = built_values [OF topo built hold inv]
  have room: "room d ?cap = ?cap" by (rule ext) (simp add: room_def)
  show "dataflow env K isem d ?cap ?V"
    using inverse_node [OF topo built hold inv] B(3-5) unfolding dataflow_def room by auto
  show "foreign d ?cap \<subseteq> blob_regions outs" using B(4) by (auto simp: foreign_def)
qed

lemma inverse_run_ready:
  assumes topo: "topo_ok fwd" and built: "inverse_built api fe fwd outs strat ss False e d rm" "strat \<noteq> PREALLOCATE"
    and hold: "blobs_hold fwd outs W m" and inv: "\<forall>i<length fwd. inverts api env K isem W (fwd ! i)"
    and env: "env_ok env" "roomy K (blob_regions outs) (se_driver env)" "pool_fine K (blob_regions outs) pl"
  shows "run_ready env K (\<lambda>q. unat (b_size (buf d q))) (inv_value fwd W d m) \<lparr>x_dag = d, x_pool = pl, x_mem = m, x_trace = []\<rparr>"
proof -
  let ?x = "\<lparr>x_dag = d, x_pool = pl, x_mem = m, x_trace = []\<rparr>"
  note G = built_graph [OF topo built(1)] and F = inverse_dataflow(2) [OF topo built(1) hold inv]
  have free: "\<not> held ?x b" "\<not> is_external (buf d b) \<Longrightarrow> \<not> is_allocated (buf d b)" for b using G(6) by (auto simp: held_def tidy_def)
  have "pool_wf pl" using env(3) by (simp add: pool_fine_def)
  then have "mem_ok ?x" using free by (simp add: mem_ok_def)
  moreover have "backed K (foreign d (\<lambda>q. unat (b_size (buf d q)))) ?x" using free(1) pool_fine_mono [OF env(3) F] by (simp add: backed_def)
  moreover have "roomy K (foreign d (\<lambda>q. unat (b_size (buf d q)))) (se_driver env)" using roomy_mono [OF env(2) F] .
  ultimately show ?thesis
    using G(1-5,8) env(1) built(2) built_values(4) [OF topo built(1) hold inv] by (simp add: run_ready_def plain_def)
qed

lemma inverse_graph_values:
  assumes topo: "topo_ok fwd" and hold: "blobs_hold fwd outs W (snd pm)" and inv: "\<forall>i<length fwd. inverts api env K isem W (fwd ! i)"
    and src: "\<forall>i<length fwd. fd_stage (fwd ! i) \<in> fst ` set source_sizes \<longrightarrow> fd_input_buf_ids (fwd ! i) \<noteq> []"
      "i0 < length fwd" "fd_stage (fwd ! i0) \<in> fst ` set source_sizes"
    and fe: "\<forall>d. distinct (fe_ord fe d) \<and> set (fe_ord fe d) = {..<length (nodes d)}" "\<forall>k. fe_streams fe k \<noteq> None"
    and env: "env_ok env" "roomy K (blob_regions outs) (se_driver env)" "pool_fine K (blob_regions outs) (fst pm)" and strat: "strat \<noteq> PREALLOCATE"
  shows "\<exists>x rm y. buildInverseDAG api env decl (\<lambda>_. (True, True)) fe fwd outs strat source_sizes profiling False pm = Some (Inr (x, rm)) \<and>
    execute env stream x = Inr y \<and>
    (\<forall>i<length fwd. fd_stage (fwd ! i) \<in> fst ` set source_sizes \<longrightarrow> (\<exists>b. rm (fd_stage (fwd ! i)) = Some b \<and>
       unat (b_size (buf (x_dag y) b)) = length (W (hd (fd_input_buf_ids (fwd ! i)))) \<and>
       mem_read (x_mem y) (d_ptr (buf (x_dag y) b)) (length (W (hd (fd_input_buf_ids (fwd ! i))))) = W (hd (fd_input_buf_ids (fwd ! i)))))"
proof -
  have num: "\<forall>c<length fwd. getNumOutputs api (fd_stage (fwd ! c)) = length (fd_input_buf_ids (fwd ! c))" using inv by (simp add: inverts_def Let_def)
  have at_hand: "\<forall>i<length fwd. \<forall>b\<in>set (fd_output_buf_ids (fwd ! i)). buf_to_consumer fwd b = None \<longrightarrow> outs b \<noteq> None"
    using hold unfolding blobs_hold_def by (metis option.distinct(1))
  have enough: "\<forall>c<length fwd. length (fd_input_buf_ids (fwd ! c)) \<le> getNumOutputs api (fd_stage (fwd ! c))"
    and some: "\<forall>i<length fwd. fd_stage (fwd ! i) \<in> fst ` set source_sizes \<longrightarrow> 0 < getNumOutputs api (fd_stage (fwd ! i))"
    using num src(1) by simp_all
  obtain e d rm where b: "buildInverseDAG api env decl (\<lambda>_. (True, True)) fe fwd outs strat source_sizes profiling False pm =
      Some (Inr (\<lparr>x_dag = d, x_pool = fst pm, x_mem = snd pm, x_trace = []\<rparr>, rm))"
    "inverse_built api fe fwd outs strat source_sizes False e d rm"
    by (rule buildInverseDAG_ok [OF topo refl strat enough at_hand some src(2,3) fe])
  let ?x = "\<lparr>x_dag = d, x_pool = fst pm, x_mem = snd pm, x_trace = []\<rparr>" and ?V = "inv_value fwd W d (snd pm)"
  note G = built_graph [OF topo b(2)]
  obtain y where y: "execute env stream ?x = Inr y"
    "\<forall>b. 0 \<le> producer_stage_id (buf d b) \<longrightarrow> is_persistent (buf d b) \<or> is_external (buf d b) \<longrightarrow>
       unat (b_size (buf (x_dag y) b)) = length (?V b) \<and> mem_read (x_mem y) (d_ptr (buf (x_dag y) b)) (length (?V b)) = ?V b"
    using execute_values [OF inverse_run_ready [OF topo b(2) strat hold inv env], of isem stream] inverse_dataflow(1) [OF topo b(2) hold inv] by auto
  have "\<exists>b. rm (fd_stage (fwd ! i)) = Some b \<and> 0 \<le> producer_stage_id (buf d b) \<and> is_persistent (buf d b) \<and> ?V b = W (hd (fd_input_buf_ids (fwd ! i)))"
    if i: "i < length fwd" "fd_stage (fwd ! i) \<in> fst ` set source_sizes" for i
  proof -
    obtain sz where sz: "map_of source_sizes (fd_stage (fwd ! i)) = Some sz" using i(2) by (metis map_of_eq_None_iff not_None_eq)
    have res: "\<forall>i<length fwd. \<forall>sz. map_of source_sizes (fd_stage (fwd ! i)) = Some sz \<longrightarrow>
       (\<exists>b. rm (fd_stage (fwd ! i)) = Some b \<and> map_of (output_index_to_buffer_id (node d (inv_of fwd i))) 0 = Some b \<and>
         is_persistent (buf d b) \<and> sz \<le> b_size (buf d b))" using b(2) unfolding inverse_built_def by simp
    obtain q where q: "rm (fd_stage (fwd ! i)) = Some q" "map_of (output_index_to_buffer_id (node d (inv_of fwd i))) (int 0) = Some q" "is_persistent (buf d q)"
      using mp [OF spec [OF mp [OF spec [OF res] i(1)]] sz] by auto
    have k: "0 < getNumOutputs api (fd_stage (fwd ! i))" "fd_input_buf_ids (fwd ! i) \<noteq> []" using num src(1) i by auto
    from port_buffer_value(1) [OF G(1,10,7) i(1) k(1) q(2), of W "snd pm"] port_buffer_value(2) [OF G(1,10,7) i(1) k(1) q(2)] q k(2)
    show ?thesis by (auto simp: hd_conv_nth)
  qed
  then have "\<forall>i<length fwd. fd_stage (fwd ! i) \<in> fst ` set source_sizes \<longrightarrow> (\<exists>b. rm (fd_stage (fwd ! i)) = Some b \<and>
       unat (b_size (buf (x_dag y) b)) = length (W (hd (fd_input_buf_ids (fwd ! i)))) \<and>
       mem_read (x_mem y) (d_ptr (buf (x_dag y) b)) (length (W (hd (fd_input_buf_ids (fwd ! i))))) = W (hd (fd_input_buf_ids (fwd ! i))))"
    using y(2) by metis
  with y(1) b(1) show ?thesis by blast
qed

text \<open>
  C3. Decompression restores the input.  Take a forward topology in level order (every reader behind the writer) and a strategy
  other than PREALLOCATE, under which no inverse groups are fused.  Let the compressed bytes of every buffer nobody reads be at
  hand, and let every stage in inverse mode compute from what it wrote the bytes it read, which are not empty; let device
  memory, streams and events be available.  Then \<open>buildInverseDAG\<close> succeeds, \<open>execute\<close> runs the graph it built, and the
  result buffer of every source stage holds the bytes the stage read from its first input, with their length as the size.
\<close>

theorem inverse_graph_restores:
  assumes "topo_ok fwd" "blobs_hold fwd outs W (snd pm)" "\<forall>i<length fwd. inverts api env K isem W (fwd ! i)"
    and "\<forall>i<length fwd. fd_stage (fwd ! i) \<in> fst ` set source_sizes \<longrightarrow> fd_input_buf_ids (fwd ! i) \<noteq> []"
    and "i0 < length fwd" "fd_stage (fwd ! i0) \<in> fst ` set source_sizes"
    and "\<forall>d. distinct (fe_ord fe d) \<and> set (fe_ord fe d) = {..<length (nodes d)}" "\<forall>k. fe_streams fe k \<noteq> None"
    and "env_ok env" "roomy K (blob_regions outs) (se_driver env)" "pool_fine K (blob_regions outs) (fst pm)" "strat \<noteq> PREALLOCATE"
  shows "\<exists>x rm y. buildInverseDAG api env decl (\<lambda>_. (True, True)) fe fwd outs strat source_sizes profiling False pm = Some (Inr (x, rm)) \<and>
    execute env stream x = Inr y \<and>
    (\<forall>i<length fwd. fd_stage (fwd ! i) \<in> fst ` set source_sizes \<longrightarrow> (\<exists>b. rm (fd_stage (fwd ! i)) = Some b \<and>
       unat (b_size (buf (x_dag y) b)) = length (W (hd (fd_input_buf_ids (fwd ! i)))) \<and>
       mem_read (x_mem y) (d_ptr (buf (x_dag y) b)) (length (W (hd (fd_input_buf_ids (fwd ! i))))) = W (hd (fd_input_buf_ids (fwd ! i)))))"
  by (rule inverse_graph_values [OF assms])

text \<open>Two stages that add one to every byte, undone by two that add 255.\<close>

definition shift_fwd :: "fwd_stage_desc list" where
  "shift_fwd = [\<lparr>fd_stage = 1, fd_output_buf_ids = [1], fd_input_buf_ids = [0]\<rparr>, \<lparr>fd_stage = 2, fd_output_buf_ids = [2], fd_input_buf_ids = [1]\<rparr>]"

definition shift_outs :: "int \<rightharpoonup> dptr \<times> size_t" where
  "shift_outs = [2 \<mapsto> (4096, 64)]"

definition shift_mem :: dev_mem where
  "shift_mem = mem_write (\<lambda>_. 0) 4096 (demo_values 2)"

lemma shift_inverts:
  assumes "s \<noteq> 0"
  shows "inverts fork_api (shift_env 255 base) K (shift_sem 255) demo_values \<lparr>fd_stage = s, fd_output_buf_ids = [b + 1], fd_input_buf_ids = [b]\<rparr>"
proof -
  have sem: "shift_sem 255 s [demo_values (b + 1)] = [demo_values b]" for s
    by (simp add: shift_sem_def demo_values_def map_replicate)
  have len: "length (demo_values b) = 64" for b by (simp add: demo_values_def)
  have "computes (shift_env 255 base) K F s [demo_values (b + 1)] [demo_values b] rooms" if ok: "list_all2 (\<lambda>v r. length v \<le> r) [demo_values b] rooms" for F rooms
  proof -
    obtain r where "rooms = [r]" "64 \<le> r" using ok len by (auto simp: list_all2_Cons1)
    then show ?thesis using shift_computes [of "demo_values (b + 1)" r 255 base K F s] sem len by simp
  qed
  moreover have "demo_values b \<noteq> []" using len [of b] by auto
  moreover have "list_all2 (\<lambda>v n. length v \<le> unat n) [demo_values b] ns" if "list_all2 (\<lambda>v n. length v \<le> unat n) [demo_values (b + 1)] ns" for ns :: "size_t list"
    using that len by (auto simp: list_all2_Cons1)
  ultimately show ?thesis using assms sem len by (simp add: inverts_def fork_api_def)
qed

theorem inverse_graph_restores_witness:
  "\<exists>x rm y b. buildInverseDAG fork_api (shift_env 255 8192) line_decl (\<lambda>_. (True, True)) fork_env shift_fwd shift_outs MINIMAL [(1, 64)] False False
      (make_pool demo_config True True, shift_mem) = Some (Inr (x, rm)) \<and>
    execute (shift_env 255 8192) 0 x = Inr y \<and> rm 1 = Some b \<and>
    unat (b_size (buf (x_dag y) b)) = 64 \<and> mem_read (x_mem y) (d_ptr (buf (x_dag y) b)) 64 = replicate 64 0"
proof -
  have two: "(\<forall>i<length shift_fwd. P i) \<longleftrightarrow> P 0 \<and> P 1" for P by (auto simp: shift_fwd_def less_Suc_eq numeral_2_eq_2)
  have at: "shift_fwd ! 0 = \<lparr>fd_stage = 1, fd_output_buf_ids = [0 + 1], fd_input_buf_ids = [0]\<rparr>"
    "shift_fwd ! 1 = \<lparr>fd_stage = 2, fd_output_buf_ids = [1 + 1], fd_input_buf_ids = [1]\<rparr>" by (simp_all add: shift_fwd_def)
  have cons: "buf_to_consumer shift_fwd 1 = Some (1, 0)" "buf_to_consumer shift_fwd 2 = None" by code_simp+
  have topo: "topo_ok shift_fwd" by (simp add: topo_ok_def shift_fwd_def less_Suc_eq all_conj_distrib numeral_2_eq_2)
  have "mem_read shift_mem 4096 64 = demo_values 2" by (simp add: mem_read_nth_eq shift_mem_def mem_write_def demo_values_def)
  then have hold: "blobs_hold shift_fwd shift_outs demo_values shift_mem" unfolding blobs_hold_def two at by (simp add: cons shift_outs_def)
  have inv: "\<forall>i<length shift_fwd. inverts fork_api (shift_env 255 8192) {} (shift_sem 255) demo_values (shift_fwd ! i)"
    unfolding two at using shift_inverts [of 1 8192 "{}" 0] shift_inverts [of 2 8192 "{}" 1] by simp
  have src: "\<forall>i<length shift_fwd. fd_stage (shift_fwd ! i) \<in> fst ` set [(1::nat, 64::size_t)] \<longrightarrow> fd_input_buf_ids (shift_fwd ! i) \<noteq> []"
    "0 < length shift_fwd" "fd_stage (shift_fwd ! 0) \<in> fst ` set [(1::nat, 64::size_t)]" unfolding two at by (simp_all add: shift_fwd_def)
  have fe: "\<forall>d. distinct (fe_ord fork_env d) \<and> set (fe_ord fork_env d) = {..<length (nodes d)}" "\<forall>k. fe_streams fork_env k \<noteq> None"
    by (auto simp: fork_env_def)
  have env: "env_ok (shift_env 255 8192)" "roomy {} (blob_regions shift_outs) (se_driver (shift_env 255 8192))"
    by (rule shift_env_ok, auto simp: blob_regions_def shift_outs_def split: if_splits)+
  have pool: "pool_fine {} (blob_regions shift_outs) (make_pool demo_config True True)"
    using make_pool_wf by (simp add: pool_fine_def entries_def make_pool_def)
  let ?pm = "(make_pool demo_config True True, shift_mem)"
  have hp: "blobs_hold shift_fwd shift_outs demo_values (snd ?pm)" "pool_fine {} (blob_regions shift_outs) (fst ?pm)" using hold pool by simp_all
  obtain x rm y where run: "buildInverseDAG fork_api (shift_env 255 8192) line_decl (\<lambda>_. (True, True)) fork_env shift_fwd shift_outs MINIMAL [(1, 64)] False False ?pm = Some (Inr (x, rm))"
    "execute (shift_env 255 8192) 0 x = Inr y"
    and res: "\<forall>i<length shift_fwd. fd_stage (shift_fwd ! i) \<in> fst ` set [(1::nat, 64::size_t)] \<longrightarrow> (\<exists>b. rm (fd_stage (shift_fwd ! i)) = Some b \<and>
       unat (b_size (buf (x_dag y) b)) = length (demo_values (hd (fd_input_buf_ids (shift_fwd ! i)))) \<and>
       mem_read (x_mem y) (d_ptr (buf (x_dag y) b)) (length (demo_values (hd (fd_input_buf_ids (shift_fwd ! i))))) = demo_values (hd (fd_input_buf_ids (shift_fwd ! i))))"
    using inverse_graph_restores [OF topo hp(1) inv src fe env hp(2), of MINIMAL line_decl False 0] by blast
  have "demo_values 0 = replicate 64 0" by (simp add: demo_values_def)
  then obtain b where "rm 1 = Some b" "unat (b_size (buf (x_dag y) b)) = 64" "mem_read (x_mem y) (d_ptr (buf (x_dag y) b)) 64 = replicate 64 0"
    using mp [OF mp [OF spec [OF res] src(2)] src(3)] unfolding at by auto
  with run show ?thesis by blast
qed

end
