(* ===== verification/Exec_Fault.thy ===== *)
theory Exec_Fault
  imports Dag_Exec
begin

section \<open>What a failing execution leaves behind\<close>

text \<open>
  \<open>CompressionDAG::execute\<close> (\<open>src/pipeline/dag.cpp\<close>) can throw in the middle of a node: an allocation fails, a stage
  throws, a size check fails.  The callers catch the exception and call \<open>reset\<close> on the state that is left.  Each
  function here gives the state at the point of the throw of the function of \<open>Dag_Exec\<close> it is named after;
  what a throwing stage or fused runner did to the pool and to memory is a parameter.
\<close>

record fault_env =
  ft_run :: "nat \<Rightarrow> nat \<Rightarrow> dptr list \<Rightarrow> dptr list \<Rightarrow> size_t list \<Rightarrow> pool \<times> dev_mem \<Rightarrow> pool \<times> dev_mem"
  ft_fused :: "nat \<Rightarrow> fused_run_context \<Rightarrow> pool \<times> dev_mem \<Rightarrow> pool \<times> dev_mem"

text \<open>The state left by the first step of a loop that throws.\<close>

fun res_left :: "('a \<Rightarrow> 's \<Rightarrow> 's res) \<Rightarrow> ('a \<Rightarrow> 's \<Rightarrow> 's) \<Rightarrow> 'a list \<Rightarrow> 's \<Rightarrow> 's" where
  "res_left f l [] s = s"
| "res_left f l (a # as) s = (case f a s of Inl e \<Rightarrow> l a s | Inr s' \<Rightarrow> res_left f l as s')"

definition allocateBuffer_left :: "stage_env \<Rightarrow> int \<Rightarrow> exec_state \<Rightarrow> exec_state" where
  "allocateBuffer_left env b x =
     (let r = buf (x_dag x) b; x1 = (if is_allocated r then release b x else x) in
      on_dag (upd_buf b (\<lambda>r. r\<lparr>d_ptr := 0\<rparr>))
        (x1\<lparr>x_pool := snd (pool_allocate (se_driver env) (se_scale env) (b_size r) (b_tag r) (is_persistent r) (x_pool x1))\<rparr>))"

definition run_stage_left :: "stage_env \<Rightarrow> fault_env \<Rightarrow> nat \<Rightarrow> nat \<Rightarrow> nat \<Rightarrow> exec_state \<Rightarrow> exec_state" where
  "run_stage_left env ft st i s x =
     (let d = x_dag x; ins = input_buffer_ids (node d i); outs = output_buffer_ids (node d i);
          inputs = map (\<lambda>b. d_ptr (buf d b)) ins; sizes = map (\<lambda>b. b_size (buf d b)) ins;
          outputs = map (\<lambda>b. d_ptr (buf d b)) outs in
      case se_run env st s inputs outputs sizes (x_pool x, x_mem x) of
        Inl e \<Rightarrow> (let (pl, m) = ft_run ft st s inputs outputs sizes (x_pool x, x_mem x) in x\<lparr>x_pool := pl, x_mem := m\<rparr>)
      | Inr (actual, pl, m) \<Rightarrow>
          on_dag (store_sizes outs actual) (emit [EvRun i s inputs outputs sizes] (x\<lparr>x_pool := pl, x_mem := m\<rparr>)))"

definition exec_plain_left :: "stage_env \<Rightarrow> fault_env \<Rightarrow> nat \<Rightarrow> nat \<Rightarrow> exec_state \<Rightarrow> exec_state" where
  "exec_plain_left env ft stream i x =
     (let d = x_dag x; s = exec_stream d stream i;
          x1 = emit (map (EvWait s) (dependencies (node d i))) x in
      case (if strategy d \<noteq> PREALLOCATE then res_fold (allocateBuffer env) (output_buffer_ids (node d i)) x1 else Inr x1) of
        Inl e \<Rightarrow> res_left (allocateBuffer env) (allocateBuffer_left env) (output_buffer_ids (node d i)) x1
      | Inr x2 \<Rightarrow> (case n_stage (node d i) of None \<Rightarrow> x2 | Some st \<Rightarrow> run_stage_left env ft st i s (emit (start_events d i s) x2)))"

text \<open>The loop over the side outputs stores their sizes up to the first that overflows.\<close>

definition executeFusedNode_left :: "stage_env \<Rightarrow> fault_env \<Rightarrow> nat \<Rightarrow> nat \<Rightarrow> exec_state \<Rightarrow> exec_state" where
  "executeFusedNode_left env ft stream i x =
     (let d = x_dag x in
      case fused_head d i of
        None \<Rightarrow> x
      | Some g \<Rightarrow>
        (let fg = fused_groups d ! g;
             x1 = emit (map (EvWait stream) (dependencies (node d i)) @ start_events d i stream) x in
         case (input_buffer_ids (node d i), output_buffer_ids (node d (fg_tail fg))) of
           (in_id # _, out_id # _) \<Rightarrow>
             (let side = side_outputs_of d fg out_id;
                  ctx = \<lparr>fc_stages = fg_stages fg, fc_input = d_ptr (buf d in_id), fc_input_bytes = b_size (buf d in_id),
                         fc_output = d_ptr (buf d out_id), fc_output_capacity = allocated_size (buf d out_id),
                         fc_side_outputs = map snd side, fc_side_inputs = side_inputs_of d fg\<rparr> in
              case se_fused env (fg_impl fg) ctx (x_pool x, x_mem x) of
                Inl e \<Rightarrow> (let (pl, m) = ft_fused ft (fg_impl fg) ctx (x_pool x, x_mem x) in x1\<lparr>x_pool := pl, x_mem := m\<rparr>)
              | Inr (archive, sizes, pl, m) \<Rightarrow>
                  (let x2 = emit [EvFused g stream (fc_input ctx) (fc_output ctx)] (x1\<lparr>x_pool := pl, x_mem := m\<rparr>);
                       x3 = on_dag (upd_buf out_id (\<lambda>r. r\<lparr>b_size := archive\<rparr>)) x2 in
                   if allocated_size (buf d out_id) \<noteq> 0 \<and> allocated_size (buf d out_id) < archive then x3
                   else on_dag (fold (\<lambda>k. upd_buf (fst (side ! k)) (\<lambda>r. r\<lparr>b_size := size_at sizes k\<rparr>))
                          (takeWhile (\<lambda>k. \<not> (fso_capacity (snd (side ! k)) \<noteq> 0 \<and> fso_capacity (snd (side ! k)) < size_at sizes k))
                             [0..<length side])) x3))
         | _ \<Rightarrow> x1))"

definition exec_node_left :: "stage_env \<Rightarrow> fault_env \<Rightarrow> nat \<Rightarrow> nat \<Rightarrow> exec_state \<Rightarrow> exec_state" where
  "exec_node_left env ft stream i x =
     (if executeFusedNode env stream i x = None then exec_plain_left env ft stream i x
      else executeFusedNode_left env ft stream i x)"

definition execute_left :: "stage_env \<Rightarrow> fault_env \<Rightarrow> nat \<Rightarrow> exec_state \<Rightarrow> exec_state" where
  "execute_left env ft stream x =
     (if \<not> is_finalized (x_dag x) then x
      else res_left (exec_node env stream) (exec_node_left env ft stream) (exec_order (x_dag x)) x)"

end
