(* ===== verification/Pipeline_Run.thy ===== *)
theory Pipeline_Run
  imports Exec_Fault Inverse_Dag
begin

section \<open>Compressing and decompressing\<close>

text \<open>
  \<open>src/pipeline/compressor_exec.cpp\<close>, and \<open>warmup\<close>, \<open>captureGraph\<close>, \<open>reset\<close> and the collection of outputs of
  \<open>compressor.cpp\<close>.  Every call takes the session and returns it together with a result or an error, so what an
  exception leaves behind is part of the model.  CUDA copies and synchronisation succeed.  The timers, the
  performance report and the strings that only name an execution path are left out.

  \<open>re_launch\<close> replays a captured graph, \<open>re_malloc\<close> is \<open>cudaMalloc\<close>, \<open>re_sched\<close> the thread order of the gather
  kernel, \<open>re_margin\<close> the product with 1.05 in double precision, \<open>re_fault\<close> what throwing stages leave.
\<close>

record run_env =
  re_fault :: fault_env
  re_launch :: "exec_event list \<Rightarrow> pool \<times> dev_mem \<Rightarrow> (pool \<times> dev_mem) res"
  re_malloc :: "pool \<times> dev_mem \<Rightarrow> size_t \<Rightarrow> dptr option"
  re_sched :: "(nat \<times> nat) list"
  re_margin :: "size_t \<Rightarrow> size_t"
  re_finalize :: finalize_env
  re_events :: "nat \<Rightarrow> bool \<times> bool"

type_synonym ('s, 'a) run = "'s \<Rightarrow> 's \<times> 'a res"

definition and_then :: "('s, 'a) run \<Rightarrow> ('a \<Rightarrow> ('s, 'b) run) \<Rightarrow> ('s, 'b) run" where
  "and_then f g s = (case f s of (s', Inl e) \<Rightarrow> (s', Inl e) | (s', Inr a) \<Rightarrow> g a s')"

text \<open>A call that throws before it changes anything.\<close>

definition attempt :: "('s \<Rightarrow> 's res) \<Rightarrow> ('s, unit) run" where
  "attempt f s = (case f s of Inl e \<Rightarrow> (s, Inl e) | Inr s' \<Rightarrow> (s', Inr ()))"

fun run_each :: "('a \<Rightarrow> ('s, unit) run) \<Rightarrow> 'a list \<Rightarrow> ('s, unit) run" where
  "run_each f [] = (\<lambda>s. (s, Inr ()))"
| "run_each f (a # as) = and_then (f a) (\<lambda>_. run_each f as)"

definition pipe_run :: "(pipeline, 'a) run \<Rightarrow> ('s session, 'a) run" where
  "pipe_run f s = (let (p, r) = f (ss_p s) in (s\<lparr>ss_p := p\<rparr>, r))"

abbreviation session_api :: "'s stage_ops \<Rightarrow> 's session \<Rightarrow> stage_api" where
  "session_api ops s \<equiv> so_api ops (ss_obj s)"

abbreviation session_env :: "'s stage_ops \<Rightarrow> 's session \<Rightarrow> stage_env" where
  "session_env ops s \<equiv> so_env ops (ss_obj s)"

subsection \<open>Compression\<close>

definition prepareInputSource :: "stage_env \<Rightarrow> dptr \<Rightarrow> size_t \<Rightarrow> (pipeline, dptr \<times> size_t) run" where
  "prepareInputSource env d_input input_size p =
     (let a = p_input_alignment_bytes p; unaligned = (1 < a \<and> input_size mod a \<noteq> 0);
          p0 = p\<lparr>p_original_input_size := 0\<rparr> in
      if p_graph_captured p then
        let slot = pb_ptr (p_graph_input p); cap = p_graph_input_size p;
            m1 = mem_copy (p_mem p) slot d_input (unat input_size);
            m2 = (if input_size < cap then mem_set m1 (slot + unat input_size) 0 (unat (cap - input_size)) else m1)
        in (p0\<lparr>p_original_input_size := (if unaligned then input_size else 0), p_x := p_x p\<lparr>x_mem := m2\<rparr>\<rparr>, Inr (slot, cap))
      else if unaligned then
        let padded = align_up input_size a;
            (ok, b, pl) = (if pb_capacity (p_pad_buf p) < padded
                           then pool_buffer_allocate env padded ''pipeline_input_pad'' (p_pad_buf p, x_pool (p_x p))
                           else (True, p_pad_buf p, x_pool (p_x p)));
            p1 = p0\<lparr>p_pad_buf := b, p_x := p_x p\<lparr>x_pool := pl\<rparr>\<rparr> in
        if \<not> ok then (p1, Inl (RuntimeError ''Failed to allocate pipeline input pad buffer''))
        else
          let m = mem_set (mem_copy (p_mem p) (pb_ptr b) d_input (unat input_size)) (pb_ptr b + unat input_size) 0 (unat (padded - input_size))
          in (p1\<lparr>p_original_input_size := input_size, p_x := p_x p1\<lparr>x_mem := m\<rparr>\<rparr>, Inr (pb_ptr b, padded))
      else (p0, Inr (d_input, input_size)))"

definition attach_source :: "dptr \<Rightarrow> size_t \<Rightarrow> int \<Rightarrow> (pipeline, unit) run" where
  "attach_source src n b =
     and_then (attempt (\<lambda>p. map_sum id (\<lambda>x. p\<lparr>p_x := x\<rparr>) (setExternalPointer b src (p_x p))))
       (\<lambda>_. attempt (\<lambda>p. map_sum id (\<lambda>d. set_dag d p) (updateBufferSize b n (p_dag p))))"

text \<open>The size estimates are redone only without a hint; an unknown buffer id, the only error, is no id of a well-formed graph.\<close>

definition connect_sources :: "stage_api \<Rightarrow> dptr \<Rightarrow> size_t \<Rightarrow> (pipeline, unit) run" where
  "connect_sources api src n p =
     and_then (run_each (attach_source src n) (p_input_buffer_ids p))
       (\<lambda>_ p. let p1 = p\<lparr>p_source_input_sizes := replicate (length (p_input_buffer_ids p)) n, p_input_size := n\<rparr> in
          if \<not> p_graph_captured p1 \<and> p_input_size_hint p1 = 0 then attempt (propagateBufferSizes api True) p1 else (p1, Inr ())) p"

definition stage_events :: "exec_state \<Rightarrow> exec_state \<Rightarrow> exec_event list" where
  "stage_events x y = drop (length (x_trace x)) (x_trace y)"

definition ran_stages :: "'s stage_ops \<Rightarrow> exec_event list \<Rightarrow> (nat \<Rightarrow> 's) \<Rightarrow> nat \<Rightarrow> 's" where
  "ran_stages ops es obj = (\<lambda>st. so_ran ops es st (obj st))"

definition sync_stages :: "'s stage_ops \<Rightarrow> 's session \<Rightarrow> 's session" where
  "sync_stages ops s = s\<lparr>ss_obj := (\<lambda>st. if st \<in> set (p_stages (ss_p s)) then so_postStreamSync ops (p_mem (ss_p s)) (ss_obj s st) else ss_obj s st)\<rparr>"

definition run_graph :: "'s stage_ops \<Rightarrow> run_env \<Rightarrow> nat \<Rightarrow> ('s session, unit) run" where
  "run_graph ops re stream s =
     (let p = ss_p s; env = session_env ops s in
      if p_graph_captured p then
        (case re_launch re (the (ss_graph s)) (x_pool (p_x p), p_mem p) of
           Inl e \<Rightarrow> (s, Inl e)
         | Inr (pl, m) \<Rightarrow> (s\<lparr>ss_p := p\<lparr>p_x := p_x p\<lparr>x_pool := pl, x_mem := m\<rparr>\<rparr>, ss_obj := ran_stages ops (the (ss_graph s)) (ss_obj s)\<rparr>, Inr ()))
      else
        (case execute env stream (p_x p) of
           Inl e \<Rightarrow> (let x = execute_left env (re_fault re) stream (p_x p) in
                     (s\<lparr>ss_p := p\<lparr>p_x := x\<rparr>, ss_obj := ran_stages ops (stage_events (p_x p) x) (ss_obj s)\<rparr>, Inl e))
         | Inr x \<Rightarrow> (s\<lparr>ss_p := p\<lparr>p_x := x\<rparr>, ss_obj := ran_stages ops (stage_events (p_x p) x) (ss_obj s)\<rparr>, Inr ())))"

definition buffer_name :: "stage_api \<Rightarrow> nat \<Rightarrow> int \<Rightarrow> string" where
  "buffer_name api st k =
     (if 0 \<le> k \<and> k < int (length (getOutputNames api st)) then getOutputNames api st ! nat k else ''output'')"

text \<open>One entry; \<open>actual\<close> is the stage's reported size for the name, if it is asked.\<close>

definition make_metadata :: "stage_api \<Rightarrow> (nat \<Rightarrow> string \<rightharpoonup> size_t) \<Rightarrow> dag \<Rightarrow> int \<times> nat \<Rightarrow> buffer_metadata res" where
  "make_metadata api actual d bn =
     res_bind (getBufferInfo (fst bn) d) (\<lambda>info.
       let st = stage_of d (snd bn); name = buffer_name api st (producer_output_index info) in
       Inr \<lparr>bm_buffer_id = fst bn,
            bm_actual_size = (case actual st name of Some n \<Rightarrow> n | None \<Rightarrow> b_size info),
            bm_allocated_size = b_size info, bm_name = name, bm_producer = snd bn, bm_output_index = producer_output_index info\<rparr>)"

definition add_metadata :: "stage_api \<Rightarrow> (nat \<Rightarrow> string \<rightharpoonup> size_t) \<Rightarrow> (pipeline, unit) run" where
  "add_metadata api actual p =
     run_each (\<lambda>bn. attempt (\<lambda>p. map_sum id (\<lambda>m. p\<lparr>p_buffer_metadata := p_buffer_metadata p @ [m]\<rparr>) (make_metadata api actual (p_dag p) bn)))
       (zip (p_output_buffer_ids p) (p_output_nodes p)) p"

definition collect_output :: "stage_api \<Rightarrow> dag \<Rightarrow> int \<Rightarrow> output_buffer_info res" where
  "collect_output api d b =
     res_bind (getBufferInfo b d) (\<lambda>info.
       case filter (\<lambda>n. int (n_id n) = producer_stage_id info) (nodes d) of
         [] \<Rightarrow> Inl (RuntimeError ''Producer stage not found for buffer'')
       | n # _ \<Rightarrow>
           (let st = the (n_stage n); name = buffer_name api st (producer_output_index info) in
            res_bind (getBuffer b d) (\<lambda>q.
              Inr \<lparr>obi_buffer_id = b, obi_d_ptr = q,
                   obi_actual_size = (case getActualOutputSizesByName api st name of Some k \<Rightarrow> k | None \<Rightarrow> 0),
                   obi_stage_name = getName api st, obi_output_name = name\<rparr>)))"

definition collectOutputBuffers :: "stage_api \<Rightarrow> pipeline \<Rightarrow> output_buffer_info list res" where
  "collectOutputBuffers api p =
     res_fold (\<lambda>b acc. map_sum id (\<lambda>o'. acc @ [o']) (collect_output api (p_dag p) b)) (p_output_buffer_ids p) []"

text \<open>\<open>concatOutputs\<close> with the pool it takes its buffer from.\<close>

definition concat_outputs :: "'s stage_ops \<Rightarrow> run_env \<Rightarrow> ('s session, dptr \<times> size_t) run" where
  "concat_outputs ops re s =
     (let p = ss_p s in
      case collectOutputBuffers (session_api ops s) p of
        Inl e \<Rightarrow> (s, Inl e)
      | Inr outs \<Rightarrow>
          (let total = calculateConcatSize outs;
               (ok, b, pl) = (if pb_capacity (ss_concat s) < total
                              then pool_buffer_allocate (session_env ops s) total ''concat_output'' (ss_concat s, x_pool (p_x p))
                              else (True, ss_concat s, x_pool (p_x p)));
               s1 = s\<lparr>ss_concat := b, ss_p := p\<lparr>p_x := p_x p\<lparr>x_pool := pl\<rparr>\<rparr>\<rparr> in
           case concatOutputs (\<lambda>_. if ok then Some (pb_ptr b) else None) outs (re_sched re) (ss_concat s) (p_mem p) of
             Inl e \<Rightarrow> (s1, Inl e)
           | Inr (q, n, b', m) \<Rightarrow> (s1\<lparr>ss_concat := b', ss_p := ss_p s1\<lparr>p_x := p_x (ss_p s1)\<lparr>x_mem := m\<rparr>\<rparr>\<rparr>, Inr (q, n))))"

text \<open>One output buffer: its pointer, and the size the stage reports for its first name.\<close>

definition single_output :: "stage_api \<Rightarrow> pipeline \<Rightarrow> (dptr \<times> size_t) res" where
  "single_output api p =
     (case (p_output_buffer_ids p, p_output_nodes p) of
        (b # _, i # _) \<Rightarrow>
          res_bind (getBuffer b (p_dag p)) (\<lambda>q.
            let st = stage_of (p_dag p) i in
            Inr (q, case getOutputNames api st of
                      [] \<Rightarrow> 0
                    | name # _ \<Rightarrow> (case getActualOutputSizesByName api st name of Some n \<Rightarrow> n | None \<Rightarrow> 0)))
      | _ \<Rightarrow> Inl (OutOfRange ''output_buffer_ids_''))"

text \<open>The block inside \<open>try\<close>.\<close>

definition compress_body :: "'s stage_ops \<Rightarrow> run_env \<Rightarrow> nat \<Rightarrow> ('s session, dptr \<times> size_t) run" where
  "compress_body ops re stream =
     and_then (run_graph ops re stream) (\<lambda>_ s0.
       let s = sync_stages ops s0; api = session_api ops s in
       and_then (pipe_run (add_metadata api (getActualOutputSizesByName api)))
         (\<lambda>_ s. if p_needs_concat (ss_p s) then concat_outputs ops re s else (s, single_output api (ss_p s))) s)"

definition compress_failed :: "'s session \<Rightarrow> 's session" where
  "compress_failed s = s\<lparr>ss_p := ss_p s\<lparr>p_x := dag_reset (p_x (ss_p s)), p_buffer_metadata := [], p_input_size := 0, p_was_compressed := False\<rparr>\<rparr>"

definition compress :: "'s stage_ops \<Rightarrow> run_env \<Rightarrow> dptr \<Rightarrow> size_t \<Rightarrow> nat \<Rightarrow> ('s session, dptr \<times> size_t) run" where
  "compress ops re d_input input_size stream s =
     (let p = ss_p s in
      if \<not> p_is_finalized p then (s, Inl (RuntimeError ''Pipeline must be finalized before execution''))
      else if p_input_nodes p = [] then (s, Inl (RuntimeError ''compress(): pipeline has no source stage(s)''))
      else if d_input = 0 then (s, Inl (RuntimeError ''compress(): null device pointer passed as input''))
      else
        let s1 = (if p_was_compressed p then s\<lparr>ss_p := p\<lparr>p_x := dag_reset (p_x p), p_was_compressed := False\<rparr>\<rparr> else s) in
        if 0 < p_input_size_hint p \<and> p_input_size_hint p < input_size
        then (s1, Inl (RuntimeError ''compress(): input size exceeds the finalize-time buffer size hint''))
        else
          and_then (pipe_run (prepareInputSource (session_env ops s1) d_input input_size)) (\<lambda>(src, n).
          and_then (pipe_run (connect_sources (session_api ops s1) src n)) (\<lambda>_ s2.
            case compress_body ops re stream (s2\<lparr>ss_p := ss_p s2\<lparr>p_buffer_metadata := []\<rparr>\<rparr>) of
              (s3, Inl e) \<Rightarrow> (compress_failed s3, Inl e)
            | (s3, Inr r) \<Rightarrow> (s3\<lparr>ss_p := ss_p s3\<lparr>p_is_compressed := True, p_was_compressed := True\<rparr>\<rparr>, Inr r))) s1)"

text \<open>The overload that copies into the caller's buffer.\<close>

definition compress_into :: "'s stage_ops \<Rightarrow> run_env \<Rightarrow> dptr \<Rightarrow> size_t \<Rightarrow> dptr \<Rightarrow> size_t \<Rightarrow> nat \<Rightarrow> ('s session, size_t) run" where
  "compress_into ops re d_input input_size d_output_buf capacity stream s =
     (if p_graph_mode_enabled (ss_p s)
      then (s, Inl (RuntimeError ''compress() with user-owned output is incompatible with CUDA Graph mode.''))
      else if d_output_buf = 0 then (s, Inl (RuntimeError ''compress(): d_output_buf must not be null for user-owned output''))
      else
        and_then (compress ops re d_input input_size stream) (\<lambda>(q, n) s.
          if capacity < n then (s, Inl (RuntimeError ''compress() user-owned output: actual compressed size exceeds the provided buffer capacity''))
          else (s\<lparr>ss_p := ss_p s\<lparr>p_x := p_x (ss_p s)\<lparr>x_mem := mem_copy (p_mem (ss_p s)) d_output_buf q (unat n)\<rparr>\<rparr>\<rparr>, Inr n)) s)"

definition level_bound :: "stage_api \<Rightarrow> dag \<Rightarrow> nat list \<Rightarrow> size_t \<Rightarrow> size_t" where
  "level_bound api d level current =
     (let level_max = fold max (concat (map (\<lambda>i. estimateOutputSizes api (stage_of d i) [current]) level)) 0
      in if 0 < level_max then level_max else current)"

definition getMaxCompressedSize :: "stage_api \<Rightarrow> run_env \<Rightarrow> size_t \<Rightarrow> pipeline \<Rightarrow> size_t res" where
  "getMaxCompressedSize api re input_bytes p =
     (if \<not> p_is_finalized p then Inl (RuntimeError ''getMaxCompressedSize() requires a finalized pipeline'')
      else Inr (re_margin re (fold (level_bound api (p_dag p)) (levels (p_dag p)) input_bytes) +
                (4 + word_of_nat (length (p_output_buffer_ids p)) * 8)))"

definition pipeline_reset :: "pipeline \<Rightarrow> pipeline" where
  "pipeline_reset p = (if \<not> p_is_finalized p then p else p\<lparr>p_x := dag_reset (p_x p), p_was_compressed := False\<rparr>)"

subsection \<open>Decompression\<close>

definition buildStaticBufferMetadata :: "stage_api \<Rightarrow> (pipeline, unit) run" where
  "buildStaticBufferMetadata api p = add_metadata api (\<lambda>_ _. None) (p\<lparr>p_buffer_metadata := []\<rparr>)"

definition prepareInverse :: "stage_api \<Rightarrow> size_t \<Rightarrow> (pipeline, unit) run" where
  "prepareInverse api uncompressed_size p =
     (if \<not> p_is_finalized p then (p, Inl (RuntimeError ''prepareInverse() requires a finalized pipeline''))
      else if uncompressed_size = 0 then (p, Inl (RuntimeError ''prepareInverse() requires a non-zero uncompressed size''))
      else and_then (buildStaticBufferMetadata api)
             (\<lambda>_ p. (p\<lparr>p_source_input_sizes := [uncompressed_size], p_input_size := uncompressed_size\<rparr>, Inr ())) p)"

text \<open>Without concatenation only the first slot is set; the others keep their initial 0.\<close>

definition resolveDecompressSegmentSizes :: "dptr \<Rightarrow> size_t \<Rightarrow> pipeline \<Rightarrow> size_t list res" where
  "resolveDecompressSegmentSizes d_input input_size p =
     (let n = length (p_buffer_metadata p) in
      if d_input \<noteq> 0 \<and> p_needs_concat p then readConcatSegmentSizes (p_mem p) d_input n
      else if d_input \<noteq> 0 then Inr ((replicate n 0)[0 := input_size])
      else Inr (map bm_actual_size (p_buffer_metadata p)))"

definition compressed_buffers :: "dptr \<Rightarrow> size_t list \<Rightarrow> pipeline \<Rightarrow> (int \<rightharpoonup> dptr \<times> size_t) res" where
  "compressed_buffers d_input sizes p =
     mapCompressedBufferPointers (p_needs_concat p) d_input (\<lambda>b. map_option d_ptr (buffers (p_dag p) b))
       (map bm_buffer_id (p_buffer_metadata p)) sizes"

definition resolvePrimarySource :: "pipeline \<Rightarrow> (nat \<times> size_t) res" where
  "resolvePrimarySource p =
     (let srcs = map (stage_of (p_dag p)) (p_input_nodes p) in
      res_bind (case p_primary_source_stage p of
                  None \<Rightarrow> Inr 0
                | Some st \<Rightarrow> if st \<in> set srcs then Inr (position st srcs)
                             else Inl (RuntimeError ''decompress(): setPrimarySource() stage is not a source stage of this pipeline'')) (\<lambda>k.
        if length srcs \<le> k then Inl (OutOfRange ''input_nodes_'')
        else Inr (srcs ! k, if k < length (p_source_input_sizes p) \<and> 0 < p_source_input_sizes p ! k
                            then p_source_input_sizes p ! k else p_input_size p)))"

definition allocateDecompressOutput :: "'s stage_ops \<Rightarrow> run_env \<Rightarrow> size_t \<Rightarrow> dptr \<Rightarrow> size_t \<Rightarrow> ('s session, dptr) run" where
  "allocateDecompressOutput ops re actual_size caller_output caller_capacity s =
     (let p = ss_p s; x = p_x p; env = session_env ops s in
      if caller_output \<noteq> 0 then
        if caller_capacity < actual_size
        then (s, Inl (RuntimeError ''decompress() user-owned output: actual decompressed size exceeds the provided buffer capacity''))
        else (s, Inr caller_output)
      else if p_pool_managed_decomp p then
        if 0 < actual_size then
          let (q, pl) = pool_allocate (se_driver env) (se_scale env) actual_size ''decomp_output'' True (x_pool x);
              s1 = s\<lparr>ss_p := p\<lparr>p_x := x\<lparr>x_pool := pl\<rparr>\<rparr>\<rparr> in
          if q = 0 then (s1, Inl (RuntimeError ''Pool allocation for decompress output failed''))
          else (s1\<lparr>ss_decomp_outputs := ss_decomp_outputs s @ [q]\<rparr>, Inr q)
        else (s, Inr 0)
      else case re_malloc re (x_pool x, x_mem x) actual_size of
             None \<Rightarrow> (s, Inl (RuntimeError ''cudaMalloc for decompress output failed''))
           | Some q \<Rightarrow> (s, Inr q))"

text \<open>\<open>std::stoi\<close>; the caller ignores its exceptions.\<close>

definition stoi :: "string \<Rightarrow> int option" where
  "stoi s =
     (let t = dropWhile (\<lambda>c. c \<in> set [CHR '' '', CHR 0x09, CHR 0x0A, CHR 0x0B, CHR 0x0C, CHR 0x0D]) s;
          (neg, u) = (case t of c # cs \<Rightarrow> if c = CHR ''-'' then (True, cs) else if c = CHR ''+'' then (False, cs) else (False, t) | [] \<Rightarrow> (False, []));
          ds = takeWhile (\<lambda>c. 48 \<le> (of_char c :: nat) \<and> of_char c \<le> (57 :: nat)) u;
          v = foldl (\<lambda>n c. n * 10 + (int (of_char c) - 48)) 0 ds;
          r = (if neg then - v else v)
      in if ds = [] \<or> r < - (2 ^ 31) \<or> 2 ^ 31 \<le> r then None else Some r)"

definition ext_buffers :: "dag \<Rightarrow> (int \<times> int) list" where
  "ext_buffers d =
     foldl (\<lambda>acc b. let info = buf d b in
        if is_external info \<and> 8 < length (b_tag info) \<and> take 8 (b_tag info) = ''inv_ext_''
        then case stoi (drop 8 (b_tag info)) of Some f \<Rightarrow> AList.update f b acc | None \<Rightarrow> acc
        else acc) [] (concat (map input_buffer_ids (nodes d)))"

definition fwd_topology :: "dag \<Rightarrow> fwd_stage_desc list" where
  "fwd_topology d = map (\<lambda>i. \<lparr>fd_stage = stage_of d i, fd_output_buf_ids = output_buffer_ids (node d i), fd_input_buf_ids = input_buffer_ids (node d i)\<rparr>)
     (concat (levels d))"

text \<open>A step on the inverse graph, which shares the pool and the memory of the pipeline.\<close>

definition on_inverse :: "(exec_state, 'a) run \<Rightarrow> ('s session, 'a) run" where
  "on_inverse f s =
     (let c = the (ss_inv_cache s); x = p_x (ss_p s);
          (y, r) = f \<lparr>x_dag = ic_inv_dag c, x_pool = x_pool x, x_mem = x_mem x, x_trace = []\<rparr>
      in (s\<lparr>ss_inv_cache := Some (c\<lparr>ic_inv_dag := x_dag y\<rparr>), ss_p := ss_p s\<lparr>p_x := x\<lparr>x_pool := x_pool y, x_mem := x_mem y\<rparr>\<rparr>\<rparr>, r))"

text \<open>The old graph's destructor runs when the new cache replaces it, or with \<open>inv_cache_.reset()\<close>.\<close>

definition drop_cache :: "'s session \<Rightarrow> 's session" where
  "drop_cache s =
     (if ss_inv_cache s = None then s
      else (fst (on_inverse (\<lambda>x. (dag_destroy x, Inr ())) s))\<lparr>ss_inv_cache := None\<rparr>)"

definition reattach :: "(int \<rightharpoonup> dptr \<times> size_t) \<Rightarrow> int \<times> int \<Rightarrow> (exec_state, unit) run" where
  "reattach po_map fi =
     (case po_map (fst fi) of
        None \<Rightarrow> (\<lambda>x. (x, Inr ()))
      | Some (q, n) \<Rightarrow> and_then (attempt (setExternalPointer (snd fi) q))
                        (\<lambda>_. attempt (\<lambda>x. map_sum id (\<lambda>d. x\<lparr>x_dag := d\<rparr>) (updateBufferSize (snd fi) n (x_dag x)))))"

text \<open>
  A graph that could not be built is destroyed again and gives back what it took from the pool.
  \<open>None\<close>: the fuel of the fusion walk ran out, which \<open>buildInverseDAG\<close> is shown not to do.
\<close>

definition rebuildInvCache ::
  "'s stage_ops \<Rightarrow> run_env \<Rightarrow> (int \<rightharpoonup> dptr \<times> size_t) \<Rightarrow> nat \<times> size_t \<Rightarrow> 's session \<Rightarrow> ('s session \<times> unit res) option" where
  "rebuildInvCache ops re po_map src s =
     (let p = ss_p s; x = p_x p in
      map_option (\<lambda>r. case r of
          Inl e \<Rightarrow> (s, Inl e)
        | Inr (y, rm) \<Rightarrow>
            ((drop_cache (s\<lparr>ss_p := p\<lparr>p_x := x\<lparr>x_pool := x_pool y, x_mem := x_mem y\<rparr>\<rparr>\<rparr>))
               \<lparr>ss_inv_cache := Some \<lparr>ic_inv_dag = x_dag y, ic_inv_result_map = rm, ic_fwd_to_inv_ext_buf = ext_buffers (x_dag y),
                                    ic_source_sizes = [fst src \<mapsto> snd src]\<rparr>\<rparr>, Inr ()))
        (buildInverseDAG (session_api ops s) (session_env ops s) (so_decl ops (ss_obj s)) (re_events re) (re_finalize re)
           (fwd_topology (p_dag p)) po_map (p_strategy p) [src] (p_profiling_enabled p)
           (in_policy (ss_fusion_info s) \<noteq> Off \<and> p_strategy p = PREALLOCATE) (x_pool x, x_mem x)))"

definition buildOrReuseInvCache ::
  "'s stage_ops \<Rightarrow> run_env \<Rightarrow> (int \<rightharpoonup> dptr \<times> size_t) \<Rightarrow> nat \<times> size_t \<Rightarrow> 's session \<Rightarrow> ('s session \<times> unit res) option" where
  "buildOrReuseInvCache ops re po_map src s =
     (let p = ss_p s; x = p_x p in
      case ss_inv_cache s of
        Some c \<Rightarrow>
          if ic_source_sizes c (fst src) = Some (snd src)
          then Some (on_inverse (and_then (run_each (reattach po_map) (ic_fwd_to_inv_ext_buf c))
                 (\<lambda>_ y. (on_dag (dag_enableProfiling (p_profiling_enabled p)) (dag_reset y), Inr ()))) s)
          else rebuildInvCache ops re po_map src s
      | None \<Rightarrow> rebuildInvCache ops re po_map src s)"

definition execute_inverse :: "'s stage_ops \<Rightarrow> run_env \<Rightarrow> nat \<Rightarrow> ('s session, unit) run" where
  "execute_inverse ops re stream s =
     (let env = session_env ops s;
          (s1, r) = on_inverse (\<lambda>x. case execute env stream x of
              Inl e \<Rightarrow> (let y = execute_left env (re_fault re) stream x in (y, Inr (x_trace y, Some e)))
            | Inr y \<Rightarrow> (y, Inr (x_trace y, None))) s
      in case r of
           Inl e \<Rightarrow> (s1, Inl e)
         | Inr (es, err) \<Rightarrow> (s1\<lparr>ss_obj := ran_stages ops es (ss_obj s1)\<rparr>, case err of None \<Rightarrow> Inr () | Some e \<Rightarrow> Inl e))"

definition inverse_stages :: "'s stage_ops \<Rightarrow> 's session \<Rightarrow> 's session" where
  "inverse_stages ops s =
     s\<lparr>ss_obj := (\<lambda>st. if st \<in> set (p_stages (ss_p s)) then so_setInverse ops True (so_saveState ops (ss_obj s st)) else ss_obj s st)\<rparr>"

text \<open>The scope guard of \<open>decompressCore\<close>.\<close>

definition restore_stages :: "'s stage_ops \<Rightarrow> 's session \<Rightarrow> 's session" where
  "restore_stages ops s =
     s\<lparr>ss_obj := (\<lambda>st. if st \<in> set (p_stages (ss_p s)) then so_restoreState ops (so_setInverse ops False (ss_obj s st)) else ss_obj s st)\<rparr>"

definition free_decomp_outputs :: "'s session \<Rightarrow> 's session" where
  "free_decomp_outputs s =
     (let p = ss_p s; x = p_x p in
      s\<lparr>ss_decomp_outputs := [], ss_p := p\<lparr>p_x := x\<lparr>x_pool := fold (\<lambda>q pl. snd (pool_free q pl)) (ss_decomp_outputs s) (x_pool x)\<rparr>\<rparr>\<rparr>)"

text \<open>The size the source stage reports after the run replaces the planned one; the padding is cut off.\<close>

definition refined_size :: "stage_api \<Rightarrow> nat \<Rightarrow> size_t \<Rightarrow> size_t" where
  "refined_size api st n =
     (case getOutputNames api st of
        [] \<Rightarrow> n
      | name # _ \<Rightarrow> (case getActualOutputSizesByName api st name of Some k \<Rightarrow> k | None \<Rightarrow> n))"

definition trimmed_size :: "pipeline \<Rightarrow> size_t \<Rightarrow> size_t" where
  "trimmed_size p n = (if 0 < p_original_input_size p \<and> p_original_input_size p < n then p_original_input_size p else n)"

definition run_inverse ::
  "'s stage_ops \<Rightarrow> run_env \<Rightarrow> nat \<Rightarrow> dptr \<Rightarrow> size_t \<Rightarrow> bool \<Rightarrow> nat \<Rightarrow> ('s session, dptr \<times> size_t) run" where
  "run_inverse ops re src caller_output caller_capacity synchronize stream s =
     (let s1 = (if caller_output = 0 \<and> p_pool_managed_decomp (ss_p s) then free_decomp_outputs s else s);
          c = the (ss_inv_cache s1) in
      case ic_inv_result_map c src of
        None \<Rightarrow> (s1, Inl (RuntimeError ''decompress: no inverse result buffer for source stage''))
      | Some b \<Rightarrow>
          (case getBufferSize b (ic_inv_dag c) of
             Inl e \<Rightarrow> (s1, Inl e)
           | Inr actual \<Rightarrow>
               and_then (allocateDecompressOutput ops re actual caller_output caller_capacity) (\<lambda>d_final.
               and_then (on_inverse (attempt (setExternalPointer b d_final))) (\<lambda>_.
               and_then (execute_inverse ops re stream) (\<lambda>_ s2.
                 let s3 = (if synchronize then sync_stages ops s2 else s2);
                     n = (if synchronize then refined_size (session_api ops s3) src actual else actual);
                     s4 = fst (on_inverse (\<lambda>x. (dag_reset x, Inr ())) s3)
                 in (s4, Inr (d_final, trimmed_size (ss_p s4) n))))) s1))"

definition decompressCore ::
  "'s stage_ops \<Rightarrow> run_env \<Rightarrow> dptr \<Rightarrow> size_t \<Rightarrow> dptr \<Rightarrow> size_t \<Rightarrow> bool \<Rightarrow> nat \<Rightarrow> 's session \<Rightarrow> ('s session \<times> (dptr \<times> size_t) res) option" where
  "decompressCore ops re d_input input_size caller_output caller_capacity synchronize stream s =
     (let p = ss_p s in
      if \<not> p_is_finalized p then Some (s, Inl (RuntimeError ''Pipeline not finalized''))
      else if p_buffer_metadata p = [] then Some (s, Inl (RuntimeError ''decompress() requires compress() or prepareInverse(uncompressed_size) to have been called first''))
      else case res_bind (resolveDecompressSegmentSizes d_input input_size p) (\<lambda>sizes. compressed_buffers d_input sizes p) of
        Inl e \<Rightarrow> Some (s, Inl e)
      | Inr po_map \<Rightarrow>
          (let s1 = inverse_stages ops s in
           case resolvePrimarySource p of
             Inl e \<Rightarrow> Some (restore_stages ops s1, Inl e)
           | Inr src \<Rightarrow>
               map_option (\<lambda>(s2, r).
                   let (s3, r3) = (case r of Inl e \<Rightarrow> (s2, Inl e)
                                   | Inr _ \<Rightarrow> run_inverse ops re (fst src) caller_output caller_capacity synchronize stream s2)
                   in (restore_stages ops s3, r3))
                 (buildOrReuseInvCache ops re po_map src s1)))"

definition decompress :: "'s stage_ops \<Rightarrow> run_env \<Rightarrow> dptr \<Rightarrow> size_t \<Rightarrow> nat \<Rightarrow> 's session \<Rightarrow> ('s session \<times> (dptr \<times> size_t) res) option" where
  "decompress ops re d_input input_size stream = decompressCore ops re d_input input_size 0 0 True stream"

text \<open>The overload with a caller-owned buffer; only the size is reported.\<close>

definition decompress_user ::
  "'s stage_ops \<Rightarrow> run_env \<Rightarrow> dptr \<Rightarrow> size_t \<Rightarrow> dptr \<Rightarrow> size_t \<Rightarrow> nat \<Rightarrow> 's session \<Rightarrow> ('s session \<times> size_t res) option" where
  "decompress_user ops re d_input input_size d_output_buf capacity stream s =
     (if d_output_buf = 0 then Some (s, Inl (RuntimeError ''decompress(): d_output_buf must not be null for user-owned output''))
      else map_option (map_prod id (map_sum id snd)) (decompressCore ops re d_input input_size d_output_buf capacity True stream s))"

definition decompressInto ::
  "'s stage_ops \<Rightarrow> run_env \<Rightarrow> dptr \<Rightarrow> size_t \<Rightarrow> dptr \<Rightarrow> size_t \<Rightarrow> nat \<Rightarrow> 's session \<Rightarrow> ('s session \<times> size_t res) option" where
  "decompressInto ops re d_input input_size d_output_buf capacity stream s =
     (if d_output_buf = 0 then Some (s, Inl (RuntimeError ''decompressInto(): d_output_buf must not be null''))
      else if p_strategy (ss_p s) \<noteq> PREALLOCATE then Some (s, Inl (RuntimeError ''decompressInto() requires PREALLOCATE memory strategy''))
      else map_option (map_prod id (map_sum id snd)) (decompressCore ops re d_input input_size d_output_buf capacity False stream s))"

subsection \<open>The span interface\<close>

definition with_managed_output ::
  "bool \<Rightarrow> ('s session \<Rightarrow> ('s session \<times> 'a res) option) \<Rightarrow> 's session \<Rightarrow> ('s session \<times> 'a res) option" where
  "with_managed_output flag f s =
     map_option (\<lambda>(s', r). (s'\<lparr>ss_p := ss_p s'\<lparr>p_pool_managed_decomp := p_pool_managed_decomp (ss_p s)\<rparr>\<rparr>, r))
       (f (s\<lparr>ss_p := ss_p s\<lparr>p_pool_managed_decomp := flag\<rparr>\<rparr>))"

definition decompressBorrowed :: "'s stage_ops \<Rightarrow> run_env \<Rightarrow> dptr \<Rightarrow> size_t \<Rightarrow> nat \<Rightarrow> 's session \<Rightarrow> ('s session \<times> (dptr \<times> size_t) res) option" where
  "decompressBorrowed ops re d_input input_size stream = with_managed_output True (decompress ops re d_input input_size stream)"

definition decompressOwned :: "'s stage_ops \<Rightarrow> run_env \<Rightarrow> dptr \<Rightarrow> size_t \<Rightarrow> nat \<Rightarrow> 's session \<Rightarrow> ('s session \<times> (dptr \<times> size_t) res) option" where
  "decompressOwned ops re d_input input_size stream = with_managed_output False (decompress ops re d_input input_size stream)"

subsection \<open>Warm-up and graph capture\<close>

text \<open>The temporary input and output of the warm-up run are freed outside the pool, which is not modelled.\<close>

definition warmup :: "'s stage_ops \<Rightarrow> run_env \<Rightarrow> nat \<Rightarrow> 's session \<Rightarrow> ('s session \<times> unit res) option" where
  "warmup ops re stream s =
     (let p = ss_p s; x = p_x p; n = p_input_size_hint p in
      if \<not> p_is_finalized p then Some (s, Inl (RuntimeError ''Pipeline must be finalized before warmup()''))
      else if n = 0 then Some (s, Inr ())
      else case re_malloc re (x_pool x, x_mem x) n of
        None \<Rightarrow> Some (s, Inl (RuntimeError ''CUDA error''))
      | Some dummy \<Rightarrow>
          (let s1 = s\<lparr>ss_p := enableProfiling False (p\<lparr>p_x := x\<lparr>x_mem := mem_set (x_mem x) dummy 0 (unat n)\<rparr>\<rparr>)\<rparr> in
           case compress ops re dummy n stream s1 of
             (s2, Inl e) \<Rightarrow> Some (s2, Inl e)
           | (s2, Inr (q, k)) \<Rightarrow>
               map_option (\<lambda>(s3, _).
                   let s4 = drop_cache (free_decomp_outputs s3);
                       p4 = (ss_p s4)\<lparr>p_x := dag_reset (p_x (ss_p s4)), p_was_compressed := False, p_is_compressed := False, p_buffer_metadata := []\<rparr>
                   in (s4\<lparr>ss_p := enableProfiling (p_profiling_enabled p) p4\<rparr>, Inr ()))
                 (decompress ops re q k stream s2)))"

definition captureGraph :: "'s stage_ops \<Rightarrow> run_env \<Rightarrow> nat \<Rightarrow> ('s session, unit) run" where
  "captureGraph ops re stream s =
     (let p = ss_p s in
      if \<not> p_is_finalized p then (s, Inl (RuntimeError ''Pipeline must be finalized before captureGraph()''))
      else if \<not> p_graph_mode_enabled p then (s, Inl (RuntimeError ''Call enableGraphMode(true) before finalize() to use captureGraph()''))
      else if p_was_compressed p then (s, Inl (RuntimeError ''captureGraph() must be called before the first compress().''))
      else
        let s1 = s\<lparr>ss_graph := None, ss_p := p\<lparr>p_graph_captured := False\<rparr>\<rparr>;
            capture = (\<lambda>on. attempt (\<lambda>p. map_sum id (\<lambda>d. set_dag d p) (setCaptureMode (isGraphCompatible (session_api ops s)) on (p_dag p)))) in
        case p_input_buffer_ids p of
          [] \<Rightarrow> (s1, Inl (OutOfRange ''input_buffer_ids_''))
        | b # _ \<Rightarrow>
            and_then (pipe_run (attach_source (pb_ptr (p_graph_input p)) (p_graph_input_size p) b)) (\<lambda>_.
            and_then (pipe_run (capture True)) (\<lambda>_ s2.
              case run_graph ops re stream s2 of
                (s3, Inl e) \<Rightarrow> (fst (pipe_run (capture False) s3), Inl e)
              | (s3, Inr _) \<Rightarrow>
                  (let s4 = fst (pipe_run (capture False) s3)
                   in (s4\<lparr>ss_graph := Some (stage_events (p_x (ss_p s2)) (p_x (ss_p s3))), ss_p := ss_p s4\<lparr>p_graph_captured := True\<rparr>\<rparr>, Inr ())))) s1)"

subsection \<open>Decompressing a file\<close>

text \<open>
  \<open>createStage\<close> is a parameter: \<open>mk\<close> makes the object of a stage record, in inverse mode.  The file is decompressed in a pool of
  its own; \<open>half5\<close> is the pool size factor, \<open>mk_pool\<close> the pool constructor.
\<close>

definition file_inverse ::
  "'s stage_ops \<Rightarrow> run_env \<Rightarrow> (nat \<Rightarrow> 's) \<Rightarrow> file_header \<Rightarrow> dptr \<Rightarrow> bool \<Rightarrow> nat \<Rightarrow> pool \<times> dev_mem
   \<Rightarrow> (dptr \<times> size_t \<times> dev_mem) res option" where
  "file_inverse ops re obj fh d_compressed do_profile stream pm =
     (let fwd = reconstructForwardTopology fh; sizes = buildSourceSizesFromHeader fh fwd; api = so_api ops obj; env = so_env ops obj in
      if sizes = [] then Some (Inl (RuntimeError ''decompressFromFile: could not identify any source stage in topology''))
      else map_option (\<lambda>built. res_bind built (\<lambda>(x, rm). res_bind (execute env stream x) (\<lambda>y.
             let obj1 = (\<lambda>st. so_postStreamSync ops (x_mem y) (so_ran ops (x_trace y) st (obj st))) in
             case filter (\<lambda>fd. fd_stage fd \<in> fst ` set sizes) fwd of
               [] \<Rightarrow> Inl (RuntimeError ''decompressFromFile: no source stage found in reconstructed topology'')
             | fd # _ \<Rightarrow>
                 (case rm (fd_stage fd) of
                    None \<Rightarrow> Inl (OutOfRange ''unordered_map::at'')
                  | Some b \<Rightarrow>
                      res_bind (getBuffer b (x_dag y)) (\<lambda>q. res_bind (getBufferSize b (x_dag y)) (\<lambda>n0.
                        let n = refined_size (so_api ops obj1) (fd_stage fd) n0 in
                        case re_malloc re (x_pool y, x_mem y) n of
                          None \<Rightarrow> Inl (RuntimeError ''cudaMalloc for decompressed output failed'')
                        | Some d_final \<Rightarrow> Inr (d_final, n, mem_copy (x_mem y) d_final q (unat n))))))))
        (buildInverseDAG api env (so_decl ops obj) (re_events re) (re_finalize re) fwd (file_output_map d_compressed fh) MINIMAL sizes do_profile False pm))"

definition decompressFromFile ::
  "'s stage_ops \<Rightarrow> run_env \<Rightarrow> (fzm_stage_info \<Rightarrow> 's) \<Rightarrow> (size_t \<Rightarrow> size_t) \<Rightarrow> (size_t \<Rightarrow> pool) \<Rightarrow> u8 list \<Rightarrow> bool \<Rightarrow> size_t \<Rightarrow> nat \<Rightarrow> dev_mem
   \<Rightarrow> (dptr \<times> size_t \<times> dev_mem) res option" where
  "decompressFromFile ops re mk half5 mk_pool bytes do_profile pool_override stream m =
     (case readHeader bytes of
        Inl e \<Rightarrow> Some (Inl e)
      | Inr fh \<Rightarrow>
          (let obj = (\<lambda>i. mk (fh_stages fh ! i)); env = so_env ops obj in
           case loadCompressedData (se_driver env) (se_scale env) bytes fh (mk_pool (computeFilePoolSize half5 fh pool_override), m) of
             Inl e \<Rightarrow> Some (Inl e)
           | Inr (d, pl, m1) \<Rightarrow> file_inverse ops re obj fh d do_profile stream (pl, m1)))"

end
