(* ===== verification/Session.thy ===== *)
theory Session
  imports Pipeline_Run Roundtrip
begin

section \<open>A compress call followed by a decompress call\<close>

text \<open>
  The calls of \<open>Pipeline_Run\<close> on a finalized single-source, single-output pipeline under MINIMAL, composed from what
  \<open>Dataflow\<close> says of the forward graph and \<open>Roundtrip\<close> of the inverse one.  Between the two calls the
  compressed bytes stand in a persistent buffer of the pool, and the result is written into a fresh pool allocation.
\<close>

subsection \<open>Regions inside pool allocations\<close>

definition inside :: "(dptr \<times> nat) set \<Rightarrow> (dptr \<times> alloc_info) set \<Rightarrow> bool" where
  "inside F K \<longleftrightarrow> (\<forall>q n. (q, n) \<in> F \<longrightarrow> (\<exists>p i. (p, i) \<in> K \<and> p \<le> q \<and> q + n \<le> p + unat (ai_size i)))"

lemma apart_inside: "apart a k p m \<Longrightarrow> p \<le> q \<Longrightarrow> q + n \<le> p + m \<Longrightarrow> apart a k q n"
  by (auto simp: apart_def)

lemma roomy_inside:
  assumes "roomy {} {} drv" "inside F K"
  shows "roomy K F drv"
  unfolding roomy_def
proof (intro allI impI)
  fix pl and n :: size_t assume a: "pool_wf pl" "K \<subseteq> entries pl" "n \<noteq> 0"
  then obtain r where r: "drv (live_ptrs pl) n = Some r" "\<forall>p i. (p, i) \<in> entries pl \<longrightarrow> apart r (unat n) p (unat (ai_size i))"
    using assms(1) unfolding roomy_def by (metis empty_subsetI)
  have "apart r (unat n) q k" if f: "(q, k) \<in> F" for q k
  proof -
    obtain p i where p: "(p, i) \<in> K" "p \<le> q" "q + k \<le> p + unat (ai_size i)" using assms(2) f unfolding inside_def by blast
    then have "apart r (unat n) p (unat (ai_size i))" using r(2) a(2) by blast
    then show ?thesis by (rule apart_inside [OF _ p(2,3)])
  qed
  with r show "\<exists>q. drv (live_ptrs pl) n = Some q \<and> (\<forall>p i. (p, i) \<in> entries pl \<longrightarrow> apart q (unat n) p (unat (ai_size i))) \<and>
      (\<forall>p k. (p, k) \<in> F \<longrightarrow> apart q (unat n) p k)" by blast
qed

lemma pool_fine_inside:
  assumes "pool_fine K0 F0 pl" "K \<subseteq> entries pl" "inside F K"
  shows "pool_fine K F pl"
proof -
  note P = assms(1) [unfolded pool_fine_def]
  have "apart p (unat (ai_size i)) q n" if e: "(p, i) \<in> entries pl" "p \<notin> fst ` K" "(q, n) \<in> F" for p i q n
  proof -
    obtain r j where r: "(r, j) \<in> K" "r \<le> q" "q + n \<le> r + unat (ai_size j)" using assms(3) e(3) unfolding inside_def by blast
    then have "p \<noteq> r" using e(2) by force
    then have "apart p (unat (ai_size i)) r (unat (ai_size j))" using P e(1) r(1) assms(2) by blast
    then show ?thesis by (rule apart_inside [OF _ r(2,3)])
  qed
  with P assms(2) show ?thesis unfolding pool_fine_def by blast
qed

lemma pool_fine_drop: "pool_fine K F pl \<Longrightarrow> pool_fine {} {} pl"
  by (simp add: pool_fine_def)

subsection \<open>The source buffer\<close>

text \<open>The pad buffer is unused or an allocation of its capacity.\<close>

definition pad_ok :: "pipeline \<Rightarrow> bool" where
  "pad_ok p \<longleftrightarrow> pb_ptr (p_pad_buf p) = 0 \<and> pb_capacity (p_pad_buf p) = 0 \<or>
     (\<exists>i. (pb_ptr (p_pad_buf p), i) \<in> entries (x_pool (p_x p)) \<and> ai_size i = pb_capacity (p_pad_buf p))"

lemma pool_buffer_allocate_fine:
  assumes "pool_fine {} F pl" "roomy {} F (se_driver env)" "driver_ok (se_driver env)" "n \<noteq> 0"
  obtains b pl' i where "pool_buffer_allocate env n tag (b0, pl) = (True, b, pl')" "pool_fine {} F pl'" "(pb_ptr b, i) \<in> entries pl'"
    "ai_size i = n" "pb_capacity b = n"
proof -
  define pl1 where "pl1 = (if pb_ptr b0 \<noteq> 0 then snd (pool_free (pb_ptr b0) pl) else pl)"
  have f1: "pool_fine {} F pl1" using pool_free_fine [OF assms(1)] assms(1) by (simp add: pl1_def)
  obtain q info pl' where q: "pool_allocate (se_driver env) (se_scale env) n tag True pl1 = (q, pl')" "q \<noteq> 0" "ai_size info = n"
    "entries pl' = insert (q, info) (entries pl1)" "pool_fine {} F pl'"
    using pool_allocate_fine [OF f1 assms(2-4)] by metis
  have "pool_buffer_allocate env n tag (b0, pl) = (True, \<lparr>pb_ptr = q, pb_capacity = n\<rparr>, pl')"
    using q(1,2) by (cases "pb_ptr b0 \<noteq> 0") (simp_all add: pool_buffer_allocate_def pl1_def)
  with q show ?thesis by (intro that [of "\<lparr>pb_ptr = q, pb_capacity = n\<rparr>" pl' info]) simp_all
qed

text \<open>The input with zeros up to the next multiple of the alignment.\<close>

definition padded :: "nat \<Rightarrow> u8 list \<Rightarrow> u8 list" where
  "padded a v = v @ replicate ((a - length v mod a) mod a) 0"

lemma pad_amount:
  assumes "0 < a" "a dvd n" "m \<le> n" "n < m + a"
  shows "n - m = (a - m mod a) mod (a :: nat)"
proof -
  obtain j where j: "n = m + j" using assms(3) le_Suc_ex by blast
  let ?x = "m mod a + j"
  have z: "?x mod a = 0" using assms(2) by (simp add: j mod_add_left_eq)
  have lt: "m mod a < a" "j < a" using assms(1,4) by (simp_all add: j)
  have "?x = 0 \<or> ?x = a"
  proof (cases "?x < a")
    case False
    then have "(?x - a) mod a = 0" using z by (simp add: le_mod_geq)
    moreover have "?x - a < a" using lt by linarith
    ultimately show ?thesis using False by simp
  qed (use z in simp)
  then show ?thesis using lt by (auto simp: j)
qed

lemma padded_exact: "a \<le> 1 \<or> length v mod a = 0 \<Longrightarrow> padded a v = v"
  by (cases "a = 0"; cases "a = 1") (auto simp: padded_def)

lemma unat_mod_eq: "1 < a \<Longrightarrow> n mod a \<noteq> 0 \<longleftrightarrow> unat n mod unat a \<noteq> 0" for n a :: size_t
  by (simp add: unat_eq_zero [symmetric] unat_mod del: unat_eq_zero)

lemma padded_read:
  assumes "mem_read m d k = input"
  shows "mem_read (mem_set (mem_copy m b d k) (b + k) 0 j) b (k + j) = input @ replicate j 0"
proof -
  have "mem_read m d k ! i = m (d + i)" if "i < k" for i using that by simp
  with assms show ?thesis by (intro nth_equalityI) (auto simp: mem_set_def mem_copy_def nth_append)
qed

text \<open>
  The prepared source: the caller's buffer, or the pad buffer with the input and zeros.  \<open>K\<close> is the pool allocation it
  stands in, if any.
\<close>

lemma prepare_source:
  assumes "\<not> p_graph_captured p" "pool_fine {} {(d, unat n0)} (x_pool (p_x p))" "roomy {} {(d, unat n0)} (se_driver env)" "roomy {} {} (se_driver env)"
    and "driver_ok (se_driver env)" "pad_ok p" "mem_read (p_mem p) d (unat n0) = input" "n0 \<noteq> 0"
    and "unat n0 + unat (p_input_alignment_bytes p) \<le> 2 ^ 64"
  shows "\<exists>b pl m or src n K. prepareInputSource env d n0 p =
      (p\<lparr>p_original_input_size := or, p_pad_buf := b, p_x := p_x p\<lparr>x_pool := pl, x_mem := m\<rparr>\<rparr>, Inr (src, n)) \<and>
    n0 \<le> n \<and> (or = 0 \<and> n = n0 \<or> or = n0 \<and> n0 < n) \<and> mem_read m src (unat n) = padded (unat (p_input_alignment_bytes p)) input \<and>
    pool_fine K {(src, unat n)} pl \<and> roomy K {(src, unat n)} (se_driver env)"
proof -
  let ?a = "p_input_alignment_bytes p"
  have len: "length input = unat n0" using assms(7) by auto
  show ?thesis
  proof (cases "1 < ?a \<and> n0 mod ?a \<noteq> 0")
    case False
    have "prepareInputSource env d n0 p =
        (p\<lparr>p_original_input_size := 0, p_pad_buf := p_pad_buf p, p_x := p_x p\<lparr>x_pool := x_pool (p_x p), x_mem := x_mem (p_x p)\<rparr>\<rparr>, Inr (d, n0))"
    proof -
      have u: "(1 < ?a \<and> n0 mod ?a \<noteq> 0) = False" using False by blast
      show ?thesis unfolding prepareInputSource_def Let_def u using assms(1) by simp
    qed
    moreover have "unat ?a \<le> 1 \<or> unat n0 mod unat ?a = 0"
      using False unat_mod_eq [of ?a n0] by (cases "1 < ?a") (auto simp: word_less_nat_alt)
    then have "padded (unat ?a) input = input" unfolding len [symmetric] by (rule padded_exact)
    ultimately show ?thesis using assms(2,3,7)
      by (intro exI [of _ "p_pad_buf p"] exI [of _ "x_pool (p_x p)"] exI [of _ "p_mem p"] exI [of _ "0 :: size_t"] exI [of _ d] exI [of _ n0] exI [of _ "{}"]) simp
  next
    case True
    let ?n = "align_up n0 ?a"
    have a0: "0 < ?a" using True by (meson le_less_trans word_zero_le)
    have le: "n0 \<le> ?n" and dv: "unat ?a dvd unat ?n" using align_up_least(1,2) [of ?a n0] a0 assms(9) by simp_all
    have "\<not> unat ?a dvd unat n0" using True by (simp add: unat_eq_zero [symmetric] unat_mod dvd_eq_mod_eq_0 del: unat_eq_zero)
    then have lt: "n0 < ?n" using le dv by (metis order_le_less)
    then have n1: "?n \<noteq> 0" by auto
    define r where "r = (if pb_capacity (p_pad_buf p) < ?n
        then pool_buffer_allocate env ?n ''pipeline_input_pad'' (p_pad_buf p, x_pool (p_x p)) else (True, p_pad_buf p, x_pool (p_x p)))"
    obtain b pl i where r: "r = (True, b, pl)" "pool_fine {} {(d, unat n0)} pl" "(pb_ptr b, i) \<in> entries pl" "?n \<le> ai_size i"
    proof (cases "pb_capacity (p_pad_buf p) < ?n")
      case True
      obtain b pl i where pa: "pool_buffer_allocate env ?n ''pipeline_input_pad'' (p_pad_buf p, x_pool (p_x p)) = (True, b, pl)"
        "pool_fine {} {(d, unat n0)} pl" "(pb_ptr b, i) \<in> entries pl" "ai_size i = ?n" "pb_capacity b = ?n"
        by (rule pool_buffer_allocate_fine [OF assms(2,3,5) n1])
      have "r = (True, b, pl)" unfolding r_def using True pa(1) by simp
      with pa show ?thesis by (intro that [of b pl i]) simp_all
    next
      case False
      then have "?n \<le> pb_capacity (p_pad_buf p)" by simp
      with n1 have "pb_capacity (p_pad_buf p) \<noteq> 0" by (metis word_le_0_iff)
      then obtain i where "(pb_ptr (p_pad_buf p), i) \<in> entries (x_pool (p_x p))" "ai_size i = pb_capacity (p_pad_buf p)"
        using assms(6) by (auto simp: pad_ok_def)
      with False assms(2) show ?thesis by (intro that [of "p_pad_buf p" "x_pool (p_x p)" i]) (simp_all add: r_def)
    qed
    let ?m = "mem_set (mem_copy (p_mem p) (pb_ptr b) d (unat n0)) (pb_ptr b + unat n0) 0 (unat (?n - n0))"
    have nn: "unat ?n = unat n0 + unat (?n - n0)" "unat ?n - unat n0 = unat (?n - n0)"
      using le by (simp_all add: unat_sub word_le_nat_alt)
    have u: "(1 < ?a \<and> n0 mod ?a \<noteq> 0) = True" using True by blast
    have run: "prepareInputSource env d n0 p = (p\<lparr>p_original_input_size := n0, p_pad_buf := b, p_x := p_x p\<lparr>x_pool := pl, x_mem := ?m\<rparr>\<rparr>, Inr (pb_ptr b, ?n))"
      unfolding prepareInputSource_def Let_def u r_def [symmetric] r(1) using assms(1) by simp
    have in1: "inside {(pb_ptr b, unat ?n)} {(pb_ptr b, i)}" using r(4) by (auto simp: inside_def word_le_nat_alt)
    have "unat ?n - unat n0 = (unat ?a - length input mod unat ?a) mod unat ?a"
      unfolding \<open>length input = unat n0\<close> using align_up_least [of ?a n0] a0 assms(9) by (intro pad_amount) (simp_all add: unat_gt_0 word_le_nat_alt)
    then have "mem_read ?m (pb_ptr b) (unat ?n) = padded (unat ?a) input"
      using padded_read [OF assms(7)] nn by (simp add: padded_def)
    moreover have "pool_fine {(pb_ptr b, i)} {(pb_ptr b, unat ?n)} pl" using pool_fine_inside [OF r(2) _ in1] r(3) by simp
    moreover have "roomy {(pb_ptr b, i)} {(pb_ptr b, unat ?n)} (se_driver env)" using roomy_inside [OF assms(4) in1] .
    ultimately show ?thesis using run le lt by blast
  qed
qed

definition source_dag :: "dag \<Rightarrow> int \<Rightarrow> dptr \<Rightarrow> size_t \<Rightarrow> dag" where
  "source_dag d b src n = upd_buf b (\<lambda>r. r\<lparr>b_size := n, initial_size := n\<rparr>)
     (upd_buf b (\<lambda>r. r\<lparr>d_ptr := src, is_external := True, is_allocated := True\<rparr>) d)"

lemma connect_source:
  assumes "p_input_buffer_ids p = [b]" "buffers (p_dag p) b \<noteq> None" "is_external (buf (p_dag p) b)" "p_input_size_hint p \<noteq> 0"
  shows "connect_sources api src n p =
    (p\<lparr>p_x := (p_x p)\<lparr>x_dag := source_dag (p_dag p) b src n\<rparr>, p_source_input_sizes := [n], p_input_size := n\<rparr>, Inr ())"
proof -
  obtain r where r: "buffers (p_dag p) b = Some r" using assms(2) by blast
  then have "is_external r" using assms(3) by (simp add: buf_def)
  then have "attach_source src n b p = (p\<lparr>p_x := (p_x p)\<lparr>x_dag := source_dag (p_dag p) b src n\<rparr>\<rparr>, Inr ())"
    using r by (simp add: attach_source_def and_then_def attempt_def setExternalPointer_def updateBufferSize_def buffers_upd source_dag_def
        set_dag_def on_dag_def Let_def)
  then show ?thesis using assms(1,4) by (simp add: connect_sources_def and_then_def Let_def)
qed

subsection \<open>The forward graph\<close>

text \<open>
  A finalized graph before its first run, with one external buffer \<open>b\<close>, the input, and one buffer nobody reads, \<open>q\<close>; no two
  nodes have the same stage.
\<close>

definition fresh_graph :: "dag \<Rightarrow> int \<Rightarrow> int \<Rightarrow> bool" where
  "fresh_graph d b q \<longleftrightarrow> dag_wf d \<and> is_finalized d \<and> exec_order d = concat (levels d) \<and> topo_order d (exec_order d) \<and>
     set (exec_order d) = {..<length (nodes d)} \<and> strategy d = MINIMAL \<and> fused_member d = [] \<and> fused_internal_buffers d = [] \<and> \<not> capture_mode d \<and>
     (\<forall>c. remaining_consumers (buf d c) = int (length (consumer_stage_ids (buf d c)))) \<and> distinct (map n_stage (nodes d)) \<and>
     (\<forall>i<length (nodes d). n_stage (node d i) \<noteq> None) \<and>
     (\<forall>c. is_external (buf d c) \<longleftrightarrow> c = b) \<and> producer_stage_id (buf d b) = - 1 \<and> buffers d b \<noteq> None \<and>
     (\<forall>c. c \<noteq> b \<longrightarrow> \<not> is_allocated (buf d c)) \<and> 0 \<le> producer_stage_id (buf d q) \<and> is_persistent (buf d q) \<and>
     (\<forall>c. 0 \<le> producer_stage_id (buf d c) \<longrightarrow> consumer_stage_ids (buf d c) = [] \<longrightarrow> c = q)"

lemma upd_buf_same: "f (buf d b) = g (buf d b) \<Longrightarrow> upd_buf b f d = upd_buf b g d"
  by (simp add: upd_buf_def)

lemma source_dag_fields:
  "nodes (source_dag d b src n) = nodes d" "levels (source_dag d b src n) = levels d" "exec_order (source_dag d b src n) = exec_order d"
  "buf (source_dag d b src n) c = (if c = b then (buf d b)\<lparr>d_ptr := src, is_external := True, is_allocated := True, b_size := n, initial_size := n\<rparr> else buf d c)"
  "strategy (source_dag d b src n) = strategy d" "fused_member (source_dag d b src n) = fused_member d" "is_finalized (source_dag d b src n) = is_finalized d"
  "fused_internal_buffers (source_dag d b src n) = fused_internal_buffers d" "capture_mode (source_dag d b src n) = capture_mode d"
  by (simp_all add: source_dag_def exec_order_def) (simp_all add: upd_buf_def)

lemma source_dag_wf:
  assumes "dag_wf d" "buffers d b \<noteq> None" "is_external (buf d b)"
  shows "dag_wf (source_dag d b src n)" "buffers (source_dag d b src n) b \<noteq> None"
proof -
  let ?e = "upd_buf b (\<lambda>r. r\<lparr>d_ptr := src, is_allocated := True\<rparr>) d"
  have e: "upd_buf b (\<lambda>r. r\<lparr>d_ptr := src, is_external := True, is_allocated := True\<rparr>) d = ?e"
    by (rule upd_buf_same) (cases "buf d b"; use assms(3) in simp)
  have "dag_wf ?e" by (rule meta_wf [OF assms(1,2)]) simp_all
  moreover have "buffers ?e b \<noteq> None" by (simp add: buffers_upd)
  ultimately show "dag_wf (source_dag d b src n)" unfolding source_dag_def e by (rule meta_wf) simp_all
  show "buffers (source_dag d b src n) b \<noteq> None" by (simp add: source_dag_def buffers_upd)
qed

text \<open>What the stages do going forward, into any memory large enough.\<close>

definition forward_ok :: "stage_env \<Rightarrow> (nat \<Rightarrow> u8 list list \<Rightarrow> u8 list list) \<Rightarrow> (int \<Rightarrow> u8 list) \<Rightarrow> dag \<Rightarrow> bool" where
  "forward_ok env sem W d \<longleftrightarrow>
     (\<forall>i<length (nodes d). \<exists>st. n_stage (node d i) = Some st \<and>
        sem st (map W (input_buffer_ids (node d i))) = map W (output_buffer_ids (node d i)) \<and>
        (\<forall>K F rooms. list_all2 (\<lambda>v r. length v \<le> r) (map W (output_buffer_ids (node d i))) rooms \<longrightarrow>
           computes env K F st (map W (input_buffer_ids (node d i))) (map W (output_buffer_ids (node d i))) rooms)) \<and>
     (\<forall>c. 0 \<le> producer_stage_id (buf d c) \<longrightarrow> W c \<noteq> [] \<and> length (W c) \<le> unat (b_size (buf d c)) \<and> length (W c) < 2 ^ 64)"

lemma compress_run_spec:
  fixes tr :: "exec_event list"
  assumes g: "fresh_graph d b q" and f: "forward_ok env sem W d" and env: "env_ok env" "roomy K {(src, unat n)} (se_driver env)"
    and pool: "pool_fine K {(src, unat n)} pl" and mem: "mem_read m src (unat n) = W b"
  defines "x \<equiv> \<lparr>x_dag = source_dag d b src n, x_pool = pl, x_mem = m, x_trace = tr\<rparr>"
  shows "run_ready env K (\<lambda>_. unat n) W x" "dataflow env K sem (x_dag x) (\<lambda>_. unat n) W"
proof -
  let ?d = "source_dag d b src n"
  note G = g [unfolded fresh_graph_def] and S = source_dag_fields [of d b src n]
  have ext: "is_external (buf ?d c) \<longleftrightarrow> c = b" for c using G by (simp add: S(4))
  have prod: "producer_stage_id (buf ?d c) = producer_stage_id (buf d c)" for c by (simp add: S(4))
  have foreign: "foreign ?d (\<lambda>_. unat n) = {(src, unat n)}" unfolding foreign_def ext by (simp add: S(4))
  have held: "\<not> held x c" "\<not> is_external (buf ?d c) \<Longrightarrow> \<not> is_allocated (buf ?d c)" for c
    using G ext [of c] by (auto simp: held_def x_def S(4) split: if_splits)
  have wf: "dag_wf ?d" using source_dag_wf(1) [of d b src n] G by blast
  have pw: "pool_wf pl" using pool by (simp add: pool_fine_def)
  have mok: "mem_ok x" using held pw by (auto simp: mem_ok_def x_def)
  have bk: "backed K {(src, unat n)} x" using held(1) pool by (simp add: backed_def x_def)
  have "topo_order d (exec_order d)" using G by blast
  moreover have "topo_order ?d xs = topo_order d xs" for xs by (simp add: topo_order_def S(1))
  ultimately have to: "topo_order ?d (exec_order ?d)" by (simp add: S(3))
  have xd: "x_dag x = ?d" "x_mem x = m" by (simp_all add: x_def)
  have fin: "is_finalized ?d" "set (exec_order ?d) = {..<length (nodes ?d)}" "strategy ?d \<noteq> PREALLOCATE" "fused_member ?d = []"
    "fused_internal_buffers ?d = []" "\<not> capture_mode ?d"
    unfolding S(1,3,5-9) using G by (blast, blast, simp, blast+)
  have rem: "\<forall>c. remaining_consumers (buf ?d c) = int (length (consumer_stage_ids (buf ?d c)))"
    using G by (simp add: S(4))
  have inp: "\<forall>c. is_external (buf ?d c) \<longrightarrow> producer_stage_id (buf ?d c) = - 1 \<longrightarrow>
      mem_read (x_mem x) (d_ptr (buf ?d c)) (unat (b_size (buf ?d c))) = W c"
  proof (intro allI impI)
    fix c assume "is_external (buf ?d c)"
    then have "c = b" by (simp add: ext)
    then show "mem_read (x_mem x) (d_ptr (buf ?d c)) (unat (b_size (buf ?d c))) = W c" by (simp add: S(4) xd mem)
  qed
  show "run_ready env K (\<lambda>_. unat n) W x"
    unfolding run_ready_def xd(1) foreign using wf fin to rem mok bk env inp by blast
  have room: "unat (b_size (buf d c)) = room ?d (\<lambda>_. unat n) c" if "c \<noteq> b" for c using that ext [of c] by (simp add: room_def S(4))
  have pb: "producer_stage_id (buf d b) = - 1" using G by blast
  have out: "list_all2 (\<lambda>v r. length v \<le> r) (map W (output_buffer_ids (node d i))) (map (room ?d (\<lambda>_. unat n)) (output_buffer_ids (node d i)))"
    if i: "i < length (nodes d)" for i
  proof -
    have "length (W c) \<le> room ?d (\<lambda>_. unat n) c" if "c \<in> set (output_buffer_ids (node d i))" for c
    proof -
      have p: "producer_stage_id (buf d c) = int i" using produced_exists(1) [of d i c] G i that by blast
      then have "c \<noteq> b" using pb by auto
      have "length (W c) \<le> unat (b_size (buf d c))" using f p unfolding forward_ok_def by simp
      then show ?thesis using room [OF \<open>c \<noteq> b\<close>] by simp
    qed
    then show ?thesis by (simp add: list_all2_map1 list_all2_map2 list_all2_same)
  qed
  have "\<exists>st. n_stage (node ?d i) = Some st \<and> map W (output_buffer_ids (node ?d i)) = sem st (map W (input_buffer_ids (node ?d i))) \<and>
      computes env K (foreign ?d (\<lambda>_. unat n)) st (map W (input_buffer_ids (node ?d i))) (sem st (map W (input_buffer_ids (node ?d i))))
        (map (room ?d (\<lambda>_. unat n)) (output_buffer_ids (node ?d i)))" if i: "i < length (nodes ?d)" for i
  proof -
    have i': "i < length (nodes d)" using i by (simp add: S)
    then obtain st where "n_stage (node d i) = Some st" "sem st (map W (input_buffer_ids (node d i))) = map W (output_buffer_ids (node d i))"
      "\<forall>K F rooms. list_all2 (\<lambda>v r. length v \<le> r) (map W (output_buffer_ids (node d i))) rooms \<longrightarrow>
           computes env K F st (map W (input_buffer_ids (node d i))) (map W (output_buffer_ids (node d i))) rooms"
      using f unfolding forward_ok_def by blast
    with out [OF i'] show ?thesis by (simp add: S(1))
  qed
  moreover have "W c \<noteq> [] \<and> length (W c) \<le> room ?d (\<lambda>_. unat n) c \<and> length (W c) < 2 ^ 64" if p: "0 \<le> producer_stage_id (buf ?d c)" for c
  proof -
    have "c \<noteq> b" using p pb prod by auto
    have "0 \<le> producer_stage_id (buf d c)" using p by (simp add: prod)
    then have "W c \<noteq> [] \<and> length (W c) \<le> unat (b_size (buf d c)) \<and> length (W c) < 2 ^ 64" using f unfolding forward_ok_def by blast
    then show ?thesis using room [OF \<open>c \<noteq> b\<close>] by simp
  qed
  moreover have "length (W b) = unat n" using mem by (metis length_mem_read)
  ultimately show "dataflow env K sem (x_dag x) (\<lambda>_. unat n) W"
    unfolding dataflow_def using pb by (auto simp: x_def ext prod) (simp add: S(4))
qed

text \<open>After the run the output stands in an allocation of the pool.\<close>

lemma forward_blob:
  assumes g: "fresh_graph d b q" and f: "forward_ok env sem W d" and env: "env_ok env" "roomy K {(src, unat n)} (se_driver env)"
    and pool: "pool_fine K {(src, unat n)} pl" and mem: "mem_read m src (unat n) = W b"
  shows "\<exists>y i. execute env stream \<lparr>x_dag = source_dag d b src n, x_pool = pl, x_mem = m, x_trace = tr\<rparr> = Inr y \<and>
    shape (x_dag y) = shape (source_dag d b src n) \<and> pool_fine {} {} (x_pool y) \<and>
    (d_ptr (buf (x_dag y) q), i) \<in> entries (x_pool y) \<and> length (W q) \<le> unat (ai_size i) \<and> d_ptr (buf (x_dag y) q) \<noteq> 0 \<and>
    unat (b_size (buf (x_dag y) q)) = length (W q) \<and> mem_read (x_mem y) (d_ptr (buf (x_dag y) q)) (length (W q)) = W q"
proof -
  let ?d = "source_dag d b src n" and ?x = "\<lparr>x_dag = source_dag d b src n, x_pool = pl, x_mem = m, x_trace = tr\<rparr>"
  note G = g [unfolded fresh_graph_def] and S = source_dag_fields [of d b src n]
  obtain y where y: "execute env stream ?x = Inr y" "data_inv K ?d (\<lambda>_. unat n) W {..<length (nodes ?d)} y"
    using execute_data [OF compress_run_spec [OF assms, of tr], of stream] by auto
  note I = data_invD [OF y(2)]
  have gq: "0 \<le> producer_stage_id (buf d q)" "is_persistent (buf d q)" "is_external (buf d q) \<longleftrightarrow> q = b" "producer_stage_id (buf d b) = - 1"
    using G by blast+
  then have qb: "q \<noteq> b" by auto
  with gq have q: "0 \<le> producer_stage_id (buf ?d q)" "is_persistent (buf ?d q)" "\<not> is_external (buf ?d q)" by (simp_all add: S(4))
  have wf: "dag_wf ?d" using source_dag_wf(1) [of d b src n] G by blast
  have r: "ready (\<lambda>_. unat n) y q (W q)" by (rule data_inv_ready(1) [OF y(2) wf q(1)]) (use q in simp)
  have sh: "shape (x_dag y) = shape ?d" by (rule exec_invD(1) [OF I(1)])
  have ne: "\<not> is_external (buf (x_dag y) q)" using q(3) shape_eqD(10) [OF sh, of q] by simp
  then have h: "held y q" and v: "value_at y q (W q)" "length (W q) \<le> unat (allocated_size (buf (x_dag y) q))"
    using r by (simp_all add: ready_def span_def)
  obtain i where i: "(d_ptr (buf (x_dag y) q), i) \<in> entries (x_pool y)" "ai_size i = allocated_size (buf (x_dag y) q)"
    using backedD(2) [OF I(2) h] by blast
  have "pool_fine {} {} (x_pool y)" using pool_fine_drop [OF backedD(1) [OF I(2)]] .
  with y(1) sh i v h show ?thesis by (intro exI [of _ y] exI [of _ i]) (simp add: value_at_def held_def)
qed

subsection \<open>The topology handed to the inverse graph\<close>

lemma fwd_topology_shape:
  assumes "shape d' = shape d" "set (concat (levels d)) \<subseteq> {..<length (nodes d)}"
  shows "fwd_topology d' = fwd_topology d"
proof -
  have l: "levels d' = levels d" using assms(1) by (simp add: shape_def)
  have "n_stage (node d' i) = n_stage (node d i) \<and> output_buffer_ids (node d' i) = output_buffer_ids (node d i) \<and>
      input_buffer_ids (node d' i) = input_buffer_ids (node d i)" if "i \<in> set (concat (levels d))" for i
  proof -
    have "i < length (nodes d')" using that assms(2) shape_eqD(1) [OF assms(1)] by auto
    with shape_node [OF assms(1)] show ?thesis by blast
  qed
  then show ?thesis unfolding fwd_topology_def l by (intro map_cong) (simp_all add: stage_of_def)
qed

lemma fwd_topology_ok:
  assumes g: "fresh_graph d b q"
  shows "length (fwd_topology d) = length (nodes d)" "topo_ok (fwd_topology d)"
    "\<lbrakk>i < length (nodes d); c \<in> set (fd_output_buf_ids (fwd_topology d ! i)); buf_to_consumer (fwd_topology d) c = None\<rbrakk> \<Longrightarrow> c = q"
    "\<lbrakk>v < length (nodes d)\<rbrakk> \<Longrightarrow> \<exists>i<length (nodes d). fwd_topology d ! i =
       \<lparr>fd_stage = stage_of d v, fd_output_buf_ids = output_buffer_ids (node d v), fd_input_buf_ids = input_buffer_ids (node d v)\<rparr>"
proof -
  let ?xs = "concat (levels d)" and ?f = "fwd_topology d"
  note G = g [unfolded fresh_graph_def]
  have wf: "dag_wf d" using G by blast
  have eo: "exec_order d = ?xs" using G by blast
  have "topo_order d (exec_order d)" "set (exec_order d) = {..<length (nodes d)}" using G by blast+
  then have to: "topo_order d ?xs" and xs2: "set ?xs = {..<length (nodes d)}" unfolding eo by simp_all
  have "distinct ?xs" using to by (simp add: topo_order_def)
  note xs = this xs2
  have len: "length ?xs = length (nodes d)" using distinct_card [OF xs(1)] xs(2) by simp
  then show lf: "length ?f = length (nodes d)" by (simp add: fwd_topology_def)
  have at: "?f ! i = \<lparr>fd_stage = stage_of d (?xs ! i), fd_output_buf_ids = output_buffer_ids (node d (?xs ! i)), fd_input_buf_ids = input_buffer_ids (node d (?xs ! i))\<rparr>"
    if "i < length (nodes d)" for i using that len by (simp add: fwd_topology_def)
  have lt: "?xs ! i < length (nodes d)" if "i < length (nodes d)" for i using that len xs(2) nth_mem [of i ?xs] by auto
  show ex: "\<exists>i<length (nodes d). ?f ! i =
       \<lparr>fd_stage = stage_of d v, fd_output_buf_ids = output_buffer_ids (node d v), fd_input_buf_ids = input_buffer_ids (node d v)\<rparr>"
    if v: "v < length (nodes d)" for v
  proof -
    have "v \<in> set ?xs" using v xs(2) by simp
    then obtain i where i: "i < length ?xs" "?xs ! i = v" by (meson in_set_conv_nth)
    then show ?thesis using at [of i] unfolding len by (intro exI [of _ i]) simp
  qed
  have st: "i = j" if "i < length (nodes d)" "j < length (nodes d)" "stage_of d (?xs ! i) = stage_of d (?xs ! j)" for i j
  proof -
    have "n_stage (node d (?xs ! i)) \<noteq> None" "n_stage (node d (?xs ! j)) \<noteq> None" using G lt that(1,2) by blast+
    then have "n_stage (node d (?xs ! i)) = n_stage (node d (?xs ! j))" using that(3) unfolding stage_of_def by (metis option.exhaust_sel)
    then have "map n_stage (nodes d) ! (?xs ! i) = map n_stage (nodes d) ! (?xs ! j)" using that(1,2) lt by simp
    moreover have "distinct (map n_stage (nodes d))" using G by blast
    ultimately have "?xs ! i = ?xs ! j" using lt that(1,2) nth_eq_iff_index_eq [of "map n_stage (nodes d)"] by simp
    then show ?thesis using xs(1) len that(1,2) nth_eq_iff_index_eq by metis
  qed
  have nonneg: "0 \<le> c" if i: "i < length (nodes d)" "c \<in> set (fd_output_buf_ids (?f ! i))" for i c
  proof -
    have "buffers d c \<noteq> None" using produced_exists(2) [OF wf lt [OF i(1)]] i at by simp
    then show ?thesis using wf by (simp add: dag_wf_def wf_dom_def)
  qed
  have order: "i < k" if i: "i < length (nodes d)" "k < length (nodes d)" "c \<in> set (fd_output_buf_ids (?f ! i))" "c \<in> set (fd_input_buf_ids (?f ! k))" for i k c
  proof -
    have p: "producer_stage_id (buf d c) = int (?xs ! i)" using produced_exists(1) [OF wf lt [OF i(1)]] i at by simp
    have wi: "wf_inputs d" using wf by (simp add: dag_wf_def)
    have "?xs ! k \<in> set (consumer_stage_ids (buf d c))"
      using wf_inputsD(2) [OF wi lt [OF i(2)], of c] i at by (metis count_list_0_iff fwd_stage_desc.select_convs(3))
    then have "?xs ! i \<in> set (dependencies (node d (?xs ! k)))" using wf_inputsD(3) [OF wi, of "?xs ! k" c] p by auto
    then have "?xs ! i \<in> set (take k ?xs)" using topo_orderD(3) [OF to, of k] i(2) len by auto
    then obtain j where "j < length (take k ?xs)" "take k ?xs ! j = ?xs ! i" by (meson in_set_conv_nth)
    then have "j < k" "j < length ?xs" "?xs ! j = ?xs ! i" by simp_all
    then show ?thesis using xs(1) len i(1) nth_eq_iff_index_eq by metis
  qed
  have "distinct (map fd_stage ?f)" unfolding distinct_conv_nth using st at lf by simp metis
  with nonneg order lf show tk: "topo_ok ?f" by (auto simp: topo_ok_def)
  show "c = q" if i: "i < length (nodes d)" "c \<in> set (fd_output_buf_ids (?f ! i))" "buf_to_consumer ?f c = None"
  proof -
    have p: "producer_stage_id (buf d c) = int (?xs ! i)" using produced_exists(1) [OF wf lt [OF i(1)]] i at by simp
    have "v \<notin> set (consumer_stage_ids (buf d c))" for v
    proof
      assume v: "v \<in> set (consumer_stage_ids (buf d c))"
      have wi: "wf_inputs d" using wf by (simp add: dag_wf_def)
      have vl: "v < length (nodes d)" using wf_inputsD(1) [OF wi v] .
      have "c \<in> set (input_buffer_ids (node d v))" using wf_inputsD(2) [OF wi vl, of c] v by (metis count_list_0_iff)
      with ex [OF vl] obtain k where "k < length ?f" "c \<in> set (fd_input_buf_ids (?f ! k))" using lf by auto
      with buf_to_consumer_None [OF i(3) nonneg [OF i(1,2)]] show False by blast
    qed
    then have "consumer_stage_ids (buf d c) = []" by (cases "consumer_stage_ids (buf d c)") auto
    with G p show ?thesis by simp
  qed
qed

subsection \<open>The result buffer in the caller's memory\<close>

lemma externalize_wf:
  assumes "dag_wf d" "buffers d c \<noteq> None" "0 \<le> producer_stage_id (buf d c)"
  shows "dag_wf (upd_buf c (\<lambda>r. r\<lparr>d_ptr := p, is_external := True, is_allocated := True\<rparr>) d)" (is "dag_wf ?e")
proof -
  have "wf_dom ?e" by (rule wf_dom_cong [where d = d]) (use assms(1,2) in \<open>simp_all add: dag_wf_def\<close>)
  moreover have "wf_inputs ?e" using assms(1) by (auto simp: dag_wf_def wf_inputs_def)
  moreover have pe: "producer_stage_id (buf ?e b) = producer_stage_id (buf d b)" for b by simp
  have "wf_outputs ?e = wf_outputs d" unfolding wf_outputs_def pe by simp
  moreover have "wf_links ?e = wf_links d" by (simp add: wf_links_def)
  ultimately show ?thesis using assms(1) by (simp add: dag_wf_def)
qed

lemma result_run:
  assumes topo: "topo_ok fwd" and built: "inverse_built api fe fwd outs strat ss False e d rm" "strat \<noteq> PREALLOCATE"
    and hold: "blobs_hold fwd outs W m" and inv: "\<forall>i<length fwd. inverts api env K isem W (fwd ! i)"
    and c: "buffers d c \<noteq> None" "0 \<le> producer_stage_id (buf d c)"
    and env: "env_ok env" "roomy K (insert (r, unat (b_size (buf d c))) (blob_regions outs)) (se_driver env)"
      "pool_fine K (insert (r, unat (b_size (buf d c))) (blob_regions outs)) pl"
    and away: "\<forall>p n. (p, n) \<in> blob_regions outs \<longrightarrow> apart r (unat (b_size (buf d c))) p n"
  defines "d3 \<equiv> upd_buf c (\<lambda>r'. r'\<lparr>d_ptr := r, is_external := True, is_allocated := True\<rparr>) d" and "V \<equiv> inv_value fwd W d m"
    and "cap \<equiv> \<lambda>q. unat (b_size (buf d q))"
  shows "run_ready env K cap V \<lparr>x_dag = d3, x_pool = pl, x_mem = m, x_trace = []\<rparr>" "dataflow env K isem d3 cap V"
proof -
  let ?x = "\<lparr>x_dag = d3, x_pool = pl, x_mem = m, x_trace = []\<rparr>" and ?F = "insert (r, unat (b_size (buf d c))) (blob_regions outs)"
  note G = built_graph [OF topo built(1)] and B = built_values [OF topo built(1) hold inv, folded V_def]
  have b3: "buf d3 q = (if q = c then (buf d c)\<lparr>d_ptr := r, is_external := True, is_allocated := True\<rparr> else buf d q)" for q
    by (simp add: d3_def)
  have n3: "nodes d3 = nodes d" by (simp add: d3_def)
  have p3: "strategy d3 = strategy d" "fused_member d3 = fused_member d" "fused_internal_buffers d3 = fused_internal_buffers d"
    "capture_mode d3 = capture_mode d" "exec_order d3 = exec_order d" "is_finalized d3 = is_finalized d"
    by (simp_all add: d3_def exec_order_def) (simp_all add: upd_buf_def)
  have nx: "\<not> is_external (buf d c)" using G(6) c(2) by (auto simp: tidy_def)
  have prod: "producer_stage_id (buf d3 q) = producer_stage_id (buf d q)" "b_size (buf d3 q) = b_size (buf d q)" for q by (simp_all add: b3)
  have ext: "is_external (buf d3 q) \<longleftrightarrow> q = c \<or> is_external (buf d q)" for q by (simp add: b3)
  have reg: "(d_ptr (buf d q), cap q) \<in> blob_regions outs" if "is_external (buf d q)" for q using B(4) [OF that] by (simp add: cap_def)
  have F: "foreign d3 cap \<subseteq> ?F"
    unfolding foreign_def using reg by (auto simp: b3 cap_def split: if_splits)
  have free: "\<not> held ?x q" "\<not> is_external (buf d3 q) \<Longrightarrow> \<not> is_allocated (buf d3 q)" for q
    using G(6) by (auto simp: held_def tidy_def b3 split: if_splits)
  have "pool_wf pl" using env(3) by (simp add: pool_fine_def)
  then have "mem_ok ?x" using free by (auto simp: mem_ok_def)
  moreover have "backed K (foreign d3 cap) ?x" using free(1) pool_fine_mono [OF env(3) F] by (simp add: backed_def)
  moreover have "roomy K (foreign d3 cap) (se_driver env)" using roomy_mono [OF env(2) F] .
  moreover have "dag_wf d3" unfolding d3_def by (rule externalize_wf [OF G(1) c])
  moreover have "topo_order d3 (exec_order d3)" using G(2) by (simp add: topo_order_def p3 n3)
  moreover have "mem_read m (d_ptr (buf d3 q)) (unat (b_size (buf d3 q))) = V q" if "is_external (buf d3 q)" "producer_stage_id (buf d3 q) = - 1" for q
  proof -
    have "q \<noteq> c" using that(2) c(2) by (auto simp: prod)
    with that B(4) [of q] show ?thesis by (simp add: b3 split: if_splits)
  qed
  moreover have "\<forall>q. remaining_consumers (buf d3 q) = int (length (consumer_stage_ids (buf d3 q)))" using G(5) by (simp add: b3)
  ultimately show "run_ready env K cap V ?x"
    using G(3,4,8) env(1) built(2) by (simp add: run_ready_def plain_def p3 n3)
  have room: "room d3 cap = cap" by (rule HOL.ext) (simp add: room_def cap_def prod)
  have c3: "allocated_size (buf d3 q) = 0" "apart (d_ptr (buf d3 q)) (cap q) (d_ptr (buf d3 f)) (cap f)"
    if q: "is_external (buf d3 q)" "0 \<le> producer_stage_id (buf d3 q)" "is_external (buf d3 f)" "q \<noteq> f" for q f
  proof -
    have "q = c" using q(1,2) B(4) [of q] by (auto simp: ext prod)
    then show "allocated_size (buf d3 q) = 0" using G(6) nx by (simp add: b3 tidy_def)
    have "is_external (buf d f)" using \<open>q = c\<close> q(3,4) by (simp add: ext)
    with reg away \<open>q = c\<close> q(4) show "apart (d_ptr (buf d3 q)) (cap q) (d_ptr (buf d3 f)) (cap f)" by (simp add: b3 cap_def)
  qed
  have alloc: "allocated_size (buf d3 q) = 0" if "is_external (buf d3 q)" "0 \<le> producer_stage_id (buf d3 q)" for q
  proof -
    have "q = c" using that B(4) [of q] by (auto simp: ext prod)
    then show ?thesis using G(6) nx by (simp add: b3 tidy_def)
  qed
  have "length (V q) = unat (b_size (buf d3 q)) \<and> length (V q) \<le> cap q" if "is_external (buf d3 q)" "producer_stage_id (buf d3 q) = - 1" for q
  proof -
    have "q \<noteq> c" using that(2) c(2) by (auto simp: prod)
    with that B(4) [of q] show ?thesis by (simp add: ext prod cap_def)
  qed
  then show "dataflow env K isem d3 cap V"
    using inverse_node [OF topo built(1) hold inv, folded V_def cap_def] B(3,5) c3(2) alloc
    unfolding dataflow_def room n3 prod by (simp add: cap_def)
qed

subsection \<open>Stage objects between the calls\<close>

text \<open>The objects of the stages after a run of the graph and the synchronisation, and what \<open>decompress\<close> makes of them.\<close>

definition ran :: "'s stage_ops \<Rightarrow> nat list \<Rightarrow> exec_state \<Rightarrow> exec_state \<Rightarrow> (nat \<Rightarrow> 's) \<Rightarrow> nat \<Rightarrow> 's" where
  "ran ops stages x y obj = (\<lambda>st. let o' = ran_stages ops (stage_events x y) obj st in
     if st \<in> set stages then so_postStreamSync ops (x_mem y) o' else o')"

definition turned :: "'s stage_ops \<Rightarrow> nat list \<Rightarrow> (nat \<Rightarrow> 's) \<Rightarrow> nat \<Rightarrow> 's" where
  "turned ops stages obj = (\<lambda>st. if st \<in> set stages then so_setInverse ops True (so_saveState ops (obj st)) else obj st)"

text \<open>The size a stage reports for its first output.\<close>

definition reports :: "stage_api \<Rightarrow> nat \<Rightarrow> nat \<Rightarrow> bool" where
  "reports api st n \<longleftrightarrow> (\<exists>name names. getOutputNames api st = name # names \<and> getActualOutputSizesByName api st name = Some (word_of_nat n))"

text \<open>
  The stages of a lossless pipeline, on the values \<open>W\<close> of the forward graph \<open>d\<close> with input \<open>b\<close> and output \<open>q\<close>: after a run on
  these values the stage that wrote the output reports its length, and in inverse mode the stages undo what they did; after
  that inverse run the source stage reports the length of the input.
\<close>

definition writer :: "dag \<Rightarrow> int \<Rightarrow> nat" where
  "writer d q = stage_of d (nat (producer_stage_id (buf d q)))"

definition stages_invert ::
  "'s stage_ops \<Rightarrow> (nat \<Rightarrow> 's) \<Rightarrow> nat list \<Rightarrow> (nat \<Rightarrow> u8 list list \<Rightarrow> u8 list list) \<Rightarrow> (nat \<Rightarrow> u8 list list \<Rightarrow> u8 list list) \<Rightarrow> (int \<Rightarrow> u8 list)
   \<Rightarrow> dag \<Rightarrow> int \<Rightarrow> int \<Rightarrow> nat \<Rightarrow> bool" where
  "stages_invert ops obj stages sem isem W d b q src \<longleftrightarrow>
     (\<forall>K x y stream. run_ready (so_env ops obj) K (\<lambda>_. length (W b)) W x \<longrightarrow> dataflow (so_env ops obj) K sem (x_dag x) (\<lambda>_. length (W b)) W \<longrightarrow>
        nodes (x_dag x) = nodes d \<longrightarrow> execute (so_env ops obj) stream x = Inr y \<longrightarrow>
        (let obj1 = ran ops stages x y obj; obj2 = turned ops stages obj1; api2 = so_api ops obj2; env2 = so_env ops obj2 in
         reports (so_api ops obj1) (writer d q) (length (W q)) \<and> env_ok env2 \<and> roomy {} {} (se_driver env2) \<and>
         (\<forall>K. \<forall>fd\<in>set (fwd_topology d). inverts api2 env2 K isem W fd) \<and>
         (\<forall>K cap V u v stream. run_ready env2 K cap V u \<longrightarrow> dataflow env2 K isem (x_dag u) cap V \<longrightarrow> execute env2 stream u = Inr v \<longrightarrow>
            reports (so_api ops (ran ops stages u v obj2)) src (length (W b)))))"

subsection \<open>The compress call\<close>

text \<open>A finalized pipeline before its first call, with one source and one output, under MINIMAL.\<close>

definition session_start :: "'s session \<Rightarrow> int \<Rightarrow> int \<Rightarrow> nat \<Rightarrow> bool" where
  "session_start s b q v \<longleftrightarrow> (let p = ss_p s; d = p_dag p in
     p_is_finalized p \<and> \<not> p_graph_captured p \<and> \<not> p_was_compressed p \<and> \<not> p_needs_concat p \<and> p_strategy p = MINIMAL \<and>
     p_primary_source_stage p = None \<and> p_input_size_hint p \<noteq> 0 \<and> ss_inv_cache s = None \<and> ss_decomp_outputs s = [] \<and>
     p_input_nodes p = [v] \<and> v < length (nodes d) \<and> input_buffer_ids (node d v) \<noteq> [] \<and> hd (input_buffer_ids (node d v)) = b \<and>
     p_input_buffer_ids p = [b] \<and> p_output_buffer_ids p = [q] \<and> p_output_nodes p = [nat (producer_stage_id (buf d q))] \<and>
     fresh_graph d b q \<and> pad_ok p)"

lemma sync_ran:
  "ss_obj (sync_stages ops (s\<lparr>ss_p := ss_p s\<lparr>p_x := y\<rparr>, ss_obj := ran_stages ops (stage_events x y) obj\<rparr>)) = ran ops (p_stages (ss_p s)) x y obj"
  by (rule HOL.ext) (simp add: sync_stages_def ran_def Let_def)

lemma held_exists: "held x b \<Longrightarrow> buffers (x_dag x) b \<noteq> None"
  by (metis buf_None held_def new_buffer_def buffer_info.select_convs)

lemma add_metadata_one:
  assumes "p_output_buffer_ids p = [q]" "p_output_nodes p = [w]" "buffers (p_dag p) q \<noteq> None" "p_buffer_metadata p = []"
  shows "\<exists>md. add_metadata api actual p = (p\<lparr>p_buffer_metadata := [md]\<rparr>, Inr ()) \<and> bm_buffer_id md = q"
proof -
  obtain r where r: "buffers (p_dag p) q = Some r" using assms(3) by blast
  define md where "md = (case make_metadata api actual (p_dag p) (q, w) of Inr m \<Rightarrow> m)"
  have "make_metadata api actual (p_dag p) (q, w) = Inr md" "bm_buffer_id md = q"
    using r by (simp_all add: md_def make_metadata_def getBufferInfo_def Let_def)
  then show ?thesis using assms by (intro exI [of _ md]) (simp add: add_metadata_def and_then_def attempt_def)
qed

lemma single_output_reports:
  assumes "p_output_buffer_ids p = [q]" "p_output_nodes p = [w]" "buffers (p_dag p) q \<noteq> None" "reports api (stage_of (p_dag p) w) n"
  shows "single_output api p = Inr (d_ptr (buf (p_dag p) q), word_of_nat n)"
  using assms by (auto simp: single_output_def getBuffer_def buf_def reports_def)

text \<open>What \<open>compress\<close> returns and leaves: the run of the graph on the prepared source, and the output in a pool allocation.\<close>

lemma compress_ok:
  assumes start: "session_start s b q v" and f: "forward_ok (session_env ops s) sem W (p_dag (ss_p s))"
    and inv: "stages_invert ops (ss_obj s) (p_stages (ss_p s)) sem isem W (p_dag (ss_p s)) b q src"
    and env: "env_ok (session_env ops s)" "roomy {} {} (se_driver (session_env ops s))" "roomy {} {(din, unat n0)} (se_driver (session_env ops s))"
    and pool: "pool_fine {} {(din, unat n0)} (x_pool (p_x (ss_p s)))"
    and input: "mem_read (p_mem (ss_p s)) din (unat n0) = input" "n0 \<noteq> 0" "din \<noteq> 0" "n0 \<le> p_input_size_hint (ss_p s)"
      "unat n0 + unat (p_input_alignment_bytes (ss_p s)) \<le> 2 ^ 64" "W b = padded (unat (p_input_alignment_bytes (ss_p s))) input"
  shows "\<exists>K x y n or pb md i. compress ops re din n0 stream s =
      (s\<lparr>ss_p := (ss_p s)\<lparr>p_original_input_size := or, p_pad_buf := pb, p_x := y, p_source_input_sizes := [n], p_input_size := n,
           p_buffer_metadata := [md], p_is_compressed := True, p_was_compressed := True\<rparr>,
         ss_obj := ran ops (p_stages (ss_p s)) x y (ss_obj s)\<rparr>, Inr (d_ptr (buf (x_dag y) q), word_of_nat (length (W q)))) \<and>
    run_ready (session_env ops s) K (\<lambda>_. length (W b)) W x \<and> dataflow (session_env ops s) K sem (x_dag x) (\<lambda>_. length (W b)) W \<and>
    nodes (x_dag x) = nodes (p_dag (ss_p s)) \<and> execute (session_env ops s) stream x = Inr y \<and>
    fwd_topology (x_dag y) = fwd_topology (p_dag (ss_p s)) \<and> (\<forall>j<length (nodes (p_dag (ss_p s))). stage_of (x_dag y) j = stage_of (p_dag (ss_p s)) j) \<and>
    bm_buffer_id md = q \<and> unat n = length (W b) \<and> (or = 0 \<and> n = n0 \<or> or = n0 \<and> n0 < n) \<and>
    pool_fine {} {} (x_pool y) \<and> (d_ptr (buf (x_dag y) q), i) \<in> entries (x_pool y) \<and> length (W q) \<le> unat (ai_size i) \<and>
    d_ptr (buf (x_dag y) q) \<noteq> 0 \<and> mem_read (x_mem y) (d_ptr (buf (x_dag y) q)) (length (W q)) = W q"
proof -
  let ?p = "ss_p s" and ?d = "p_dag (ss_p s)" and ?env = "session_env ops s" and ?w = "nat (producer_stage_id (buf (p_dag (ss_p s)) q))"
  note S = start [unfolded session_start_def Let_def]
  have g: "fresh_graph ?d b q" and pad: "pad_ok ?p" and gc: "\<not> p_graph_captured ?p" and hint: "p_input_size_hint ?p \<noteq> 0"
    and ids: "p_input_buffer_ids ?p = [b]" "p_output_buffer_ids ?p = [q]" "p_output_nodes ?p = [?w]"
    and fl: "p_is_finalized ?p" "p_input_nodes ?p \<noteq> []" "\<not> p_was_compressed ?p" "\<not> p_needs_concat ?p"
    using S by simp_all
  have drv: "driver_ok (se_driver ?env)" using env(1) by (simp add: env_ok_def)
  obtain pb pl m or src' n K where prep: "prepareInputSource ?env din n0 ?p =
      (?p\<lparr>p_original_input_size := or, p_pad_buf := pb, p_x := p_x ?p\<lparr>x_pool := pl, x_mem := m\<rparr>\<rparr>, Inr (src', n))"
    and P: "n0 \<le> n" "or = 0 \<and> n = n0 \<or> or = n0 \<and> n0 < n" "mem_read m src' (unat n) = W b"
      "pool_fine K {(src', unat n)} pl" "roomy K {(src', unat n)} (se_driver ?env)"
    using prepare_source [OF gc pool env(3,2) drv pad input(1,2,5)] unfolding input(6) by blast
  have n: "unat n = length (W b)" using P(3) by (metis length_mem_read)
  define p1 where "p1 = ?p\<lparr>p_original_input_size := or, p_pad_buf := pb, p_x := p_x ?p\<lparr>x_pool := pl, x_mem := m\<rparr>\<rparr>"
  let ?x = "\<lparr>x_dag = source_dag ?d b src' n, x_pool = pl, x_mem = m, x_trace = x_trace (p_x ?p)\<rparr>"
  let ?p2 = "p1\<lparr>p_x := ?x, p_source_input_sizes := [n], p_input_size := n\<rparr>"
  have bb: "buffers ?d b \<noteq> None" "is_external (buf ?d b)" using g unfolding fresh_graph_def by blast+
  have conn: "connect_sources api src' n p1 = (?p2, Inr ())" for api
    using connect_source [of p1 b api src' n] bb ids(1) hint by (simp add: p1_def)
  obtain y i where run: "execute ?env stream ?x = Inr y" "shape (x_dag y) = shape (source_dag ?d b src' n)" "pool_fine {} {} (x_pool y)"
    "(d_ptr (buf (x_dag y) q), i) \<in> entries (x_pool y)" "length (W q) \<le> unat (ai_size i)" "d_ptr (buf (x_dag y) q) \<noteq> 0"
    "unat (b_size (buf (x_dag y) q)) = length (W q)" "mem_read (x_mem y) (d_ptr (buf (x_dag y) q)) (length (W q)) = W q"
    using forward_blob [OF g f env(1) P(5,4,3)] by blast
  have ready: "run_ready ?env K (\<lambda>_. length (W b)) W ?x" "dataflow ?env K sem (x_dag ?x) (\<lambda>_. length (W b)) W"
    using compress_run_spec [OF g f env(1) P(5,4,3)] unfolding n by blast+
  have nd: "nodes (x_dag ?x) = nodes ?d" by (simp add: source_dag_fields)
  let ?o = "ran ops (p_stages ?p) ?x y (ss_obj s)"
  have rep: "reports (so_api ops ?o) (writer ?d q) (length (W q))"
    using inv [unfolded stages_invert_def, rule_format, OF ready nd run(1)] by (simp add: Let_def)
  have wf: "dag_wf ?d" using g unfolding fresh_graph_def by blast
  have q0: "0 \<le> producer_stage_id (buf ?d q)" using g unfolding fresh_graph_def by blast
  have qx: "d_ptr new_buffer = 0" by (simp add: new_buffer_def)
  have qy: "buffers (x_dag y) q \<noteq> None" using run(6) qx buf_None by metis
  have wl: "?w < length (nodes ?d)" using wf_outputsD(2) [of ?d q] wf q0 by (auto simp: dag_wf_def)
  have st_all: "\<forall>j<length (nodes ?d). stage_of (x_dag y) j = stage_of ?d j"
    using shape_node(4) [OF run(2)] shape_eqD(1) [OF run(2)] by (simp add: source_dag_fields stage_of_def)
  then have st: "stage_of (x_dag y) ?w = writer ?d q" using wl by (simp add: writer_def)
  let ?s3 = "s\<lparr>ss_p := ?p2\<lparr>p_buffer_metadata := [], p_x := y\<rparr>, ss_obj := ?o\<rparr>"
  obtain md where md: "add_metadata (so_api ops ?o) (getActualOutputSizesByName (so_api ops ?o)) (ss_p ?s3) =
      (ss_p ?s3\<lparr>p_buffer_metadata := [md]\<rparr>, Inr ())" "bm_buffer_id md = q"
    using add_metadata_one [of "ss_p ?s3" q ?w] ids qy by (auto simp: p1_def)
  have so: "single_output (so_api ops ?o) (ss_p ?s3\<lparr>p_buffer_metadata := [md]\<rparr>) = Inr (d_ptr (buf (x_dag y) q), word_of_nat (length (W q)))"
    using single_output_reports [of "ss_p ?s3\<lparr>p_buffer_metadata := [md]\<rparr>" q ?w] ids qy rep st by (simp add: p1_def)
  have sync: "sync_stages ops (s\<lparr>ss_p := ?p2\<lparr>p_buffer_metadata := [], p_x := y\<rparr>, ss_obj := ran_stages ops (stage_events ?x y) (ss_obj s)\<rparr>) = ?s3"
    by (rule session.equality) (auto simp: sync_stages_def ran_def Let_def fun_eq_iff p1_def)
  have rg: "run_graph ops re stream (s\<lparr>ss_p := ?p2\<lparr>p_buffer_metadata := []\<rparr>\<rparr>) =
      (s\<lparr>ss_p := ?p2\<lparr>p_buffer_metadata := [], p_x := y\<rparr>, ss_obj := ran_stages ops (stage_events ?x y) (ss_obj s)\<rparr>, Inr ())"
    using gc run(1) by (simp add: run_graph_def Let_def p1_def)
  have body: "compress_body ops re stream (s\<lparr>ss_p := ?p2\<lparr>p_buffer_metadata := []\<rparr>\<rparr>) =
      (?s3\<lparr>ss_p := ss_p ?s3\<lparr>p_buffer_metadata := [md]\<rparr>\<rparr>, Inr (d_ptr (buf (x_dag y) q), word_of_nat (length (W q))))"
    using md(1) so fl(4) unfolding compress_body_def and_then_def rg Let_def prod.case sum.case sync pipe_run_def
    by (simp add: p1_def)
  have h: "\<not> (0 < p_input_size_hint ?p \<and> p_input_size_hint ?p < n0)" using input(4) by (simp add: not_less)
  have "compress ops re din n0 stream s =
      (s\<lparr>ss_p := ?p\<lparr>p_original_input_size := or, p_pad_buf := pb, p_x := y, p_source_input_sizes := [n], p_input_size := n,
           p_buffer_metadata := [md], p_is_compressed := True, p_was_compressed := True\<rparr>, ss_obj := ?o\<rparr>,
       Inr (d_ptr (buf (x_dag y) q), word_of_nat (length (W q))))"
    using fl input(3) h prep conn body unfolding compress_def Let_def
    by (simp add: and_then_def pipe_run_def p1_def)
  moreover have "fwd_topology (x_dag y) = fwd_topology ?d"
  proof -
    have "set (concat (levels ?d)) \<subseteq> {..<length (nodes ?d)}" using g unfolding fresh_graph_def by auto
    then have "fwd_topology (x_dag y) = fwd_topology (source_dag ?d b src' n)"
      by (intro fwd_topology_shape [OF run(2)]) (simp add: source_dag_fields)
    then show ?thesis by (simp add: fwd_topology_def source_dag_fields stage_of_def)
  qed
  ultimately show ?thesis using ready nd run md(2) n P(2) st_all
    by (intro exI [of _ K] exI [of _ ?x] exI [of _ y] exI [of _ n] exI [of _ or] exI [of _ pb] exI [of _ md] exI [of _ i]) simp
qed

subsection \<open>The decompress call\<close>

lemma x_mem_reset: "x_mem (dag_reset x) = x_mem x"
proof -
  have "x_mem (reset_buffer b x) = x_mem x" for b x by (simp add: reset_buffer_def Let_def on_dag_def)
  then have "x_mem (fold reset_buffer bs x) = x_mem x" for bs x by (induction bs arbitrary: x) simp_all
  then show ?thesis by (simp add: dag_reset_def Let_def on_dag_def)
qed

text \<open>Nothing is dropped when there is no cache, and nothing freed when no result is outstanding.\<close>

lemma free_decomp_none: "ss_decomp_outputs s = [] \<Longrightarrow> free_decomp_outputs s = s"
  by (simp add: free_decomp_outputs_def Let_def)

text \<open>The result buffer: allocated by the pool, and the inverse graph runs into it.\<close>

lemma run_inverse_ok:
  assumes topo: "topo_ok fwd" and built: "inverse_built api fe fwd outs MINIMAL ss False e d rm"
    and hold: "blobs_hold fwd outs W m" and inv: "\<forall>K. \<forall>fd\<in>set fwd. inverts api env K isem W fd"
    and outs: "outs = [q \<mapsto> (p, len)]" and blob: "(p, i) \<in> entries pl" "unat len \<le> unat (ai_size i)"
    and env: "env_ok env" "roomy {} {} (se_driver env)" "pool_fine {} {} pl"
    and src: "k < length fwd" "map_of ss (fd_stage (fwd ! k)) = Some sz" "fd_input_buf_ids (fwd ! k) \<noteq> []" "sz \<noteq> 0"
  shows "\<exists>c r pl1 y K. rm (fd_stage (fwd ! k)) = Some c \<and> buffers d c \<noteq> None \<and> b_size (buf d c) \<noteq> 0 \<and>
    pool_allocate (se_driver env) (se_scale env) (b_size (buf d c)) ''decomp_output'' True pl = (r, pl1) \<and> r \<noteq> 0 \<and>
    (let x = \<lparr>x_dag = upd_buf c (\<lambda>r'. r'\<lparr>d_ptr := r, is_external := True, is_allocated := True\<rparr>) d, x_pool = pl1, x_mem = m, x_trace = []\<rparr>;
         cap = (\<lambda>b. unat (b_size (buf d b))); V = inv_value fwd W d m in
     setExternalPointer c r \<lparr>x_dag = d, x_pool = pl1, x_mem = m, x_trace = []\<rparr> = Inr x \<and>
     run_ready env K cap V x \<and> dataflow env K isem (x_dag x) cap V \<and> execute env stream x = Inr y \<and>
     mem_read (x_mem y) r (length (W (hd (fd_input_buf_ids (fwd ! k))))) = W (hd (fd_input_buf_ids (fwd ! k))))"
proof -
  have inv': "\<forall>i<length fwd. inverts api env K isem W (fwd ! i)" for K using inv by simp
  note G = built_graph [OF topo built]
  obtain c where c: "rm (fd_stage (fwd ! k)) = Some c" "map_of (output_index_to_buffer_id (node d (inv_of fwd k))) 0 = Some c"
    "is_persistent (buf d c)" "sz \<le> b_size (buf d c)"
    using built src(1,2) unfolding inverse_built_def by blast
  have num: "0 < getNumOutputs api (fd_stage (fwd ! k))"
    using inv' [of "{}"] src(1,3) by (auto simp: inverts_def Let_def)
  from port_buffer_value [OF G(1,10,7) src(1) num] c(2)
  have cv: "inv_value fwd W d m c = W (fd_input_buf_ids (fwd ! k) ! 0)" "0 \<le> producer_stage_id (buf d c)" by simp_all
  have cb: "buffers d c \<noteq> None"
  proof
    assume "buffers d c = None"
    then have "buf d c = new_buffer" by (rule buf_None)
    then show False using cv(2) by (simp add: new_buffer_def)
  qed
  have sz: "b_size (buf d c) \<noteq> 0" using c(4) src(4) by (metis word_le_0_iff)
  have drv: "driver_ok (se_driver env)" using env(1) by (simp add: env_ok_def)
  have reg: "blob_regions outs = {(p, unat len)}" by (auto simp: blob_regions_def outs)
  have rp: "roomy {(p, i)} {} (se_driver env)" by (rule roomy_inside [OF env(2)]) (simp add: inside_def)
  have fp: "pool_fine {(p, i)} {} pl" by (rule pool_fine_inside [OF env(3)]) (use blob(1) in \<open>simp_all add: inside_def\<close>)
  obtain r info pl1 where pa: "pool_allocate (se_driver env) (se_scale env) (b_size (buf d c)) ''decomp_output'' True pl = (r, pl1)" "r \<noteq> 0"
    "ai_size info = b_size (buf d c)" "entries pl1 = insert (r, info) (entries pl)" "pool_fine {(p, i)} {} pl1" "r \<noteq> p"
    by (rule pool_allocate_fine [OF fp rp drv sz]) simp
  let ?bs = "unat (b_size (buf d c))"
  let ?K = "{(p, i), (r, info)}" and ?F = "insert (r, ?bs) (blob_regions outs)"
  have "\<exists>p' i'. (p', i') \<in> ?K \<and> p' \<le> r \<and> r + ?bs \<le> p' + unat (ai_size i')"
    by (intro exI [of _ r] exI [of _ info]) (simp add: pa(3))
  moreover have "\<exists>p' i'. (p', i') \<in> ?K \<and> p' \<le> p \<and> p + unat len \<le> p' + unat (ai_size i')"
    by (intro exI [of _ p] exI [of _ i]) (simp add: blob(2))
  ultimately have ins: "inside ?F ?K" unfolding reg inside_def by blast
  have room: "roomy ?K ?F (se_driver env)" by (rule roomy_inside [OF env(2) ins])
  have fine: "pool_fine ?K ?F pl1"
    by (rule pool_fine_inside [OF pool_fine_drop [OF pa(5)] _ ins]) (use pa(4) blob(1) in simp)
  have "apart r (unat (ai_size info)) p (unat (ai_size i))" 
  proof -
    have "\<forall>p i q j. (p, i) \<in> entries pl1 \<longrightarrow> (q, j) \<in> entries pl1 \<longrightarrow> p \<noteq> q \<longrightarrow> apart p (unat (ai_size i)) q (unat (ai_size j))"
      using pa(5) unfolding pool_fine_def by (elim conjE)
    moreover have "(r, info) \<in> entries pl1" "(p, i) \<in> entries pl1" using pa(4) blob(1) by simp_all
    ultimately show ?thesis using pa(6) by simp
  qed
  then have "apart r ?bs p (unat len)" using blob(2) pa(3) by (auto simp: apart_def)
  then have away: "\<forall>p' n. (p', n) \<in> blob_regions outs \<longrightarrow> apart r ?bs p' n" by (simp add: reg)
  let ?x = "\<lparr>x_dag = upd_buf c (\<lambda>r'. r'\<lparr>d_ptr := r, is_external := True, is_allocated := True\<rparr>) d, x_pool = pl1, x_mem = m, x_trace = []\<rparr>"
  have min: "MINIMAL \<noteq> PREALLOCATE" by simp
  note R = result_run [OF topo built min hold inv' cb cv(2) env(1) room fine away]
  have "\<not> is_external (buf d c)" using G(6) cv(2) by (auto simp: tidy_def)
  then have na: "\<not> is_allocated (buf d c)" using G(6) by (simp add: tidy_def)
  have sep: "setExternalPointer c r \<lparr>x_dag = d, x_pool = pl1, x_mem = m, x_trace = []\<rparr> = Inr ?x"
    using cb na by (auto simp: setExternalPointer_def buf_def on_dag_def Let_def)
  obtain y where y: "execute env stream ?x = Inr y"
    "data_inv ?K (x_dag ?x) (\<lambda>b. unat (b_size (buf d b))) (inv_value fwd W d m) {..<length (nodes (x_dag ?x))} y"
    using execute_data [OF R(1), of isem stream] R(2) by auto
  have wf: "dag_wf (x_dag ?x)" using R(1) unfolding run_ready_def by simp
  have ec: "is_external (buf (x_dag ?x) c)" "0 \<le> producer_stage_id (buf (x_dag ?x) c)" "d_ptr (buf (x_dag ?x) c) = r" using cv(2) by simp_all
  have "ready (\<lambda>b. unat (b_size (buf d b))) y c (inv_value fwd W d m c)"
    using data_inv_ready(1) [OF y(2) wf ec(2)] ec(1) by blast
  moreover have "d_ptr (buf (x_dag y) c) = r" using data_invD(3) [OF y(2) ec(1)] ec(3) by (simp add: mem_view_def)
  ultimately have "mem_read (x_mem y) r (length (W (hd (fd_input_buf_ids (fwd ! k))))) = W (hd (fd_input_buf_ids (fwd ! k)))"
    using cv(1) src(3) by (simp add: ready_def value_at_def hd_conv_nth)
  with c(1) cb sz pa(1,2) R y(1) sep show ?thesis unfolding Let_def
    by (intro exI [of _ c] exI [of _ r] exI [of _ pl1] exI [of _ y] exI [of _ ?K]) simp
qed

text \<open>The steps of \<open>run_inverse\<close>, from the cached graph to the result.\<close>

lemma run_inverse_steps:
  assumes "ss_inv_cache s = Some ic" "ic_inv_dag ic = d" "ic_inv_result_map ic src = Some c" "buffers d c \<noteq> None"
    and "ss_decomp_outputs s = []" "p_pool_managed_decomp (ss_p s)" "b_size (buf d c) \<noteq> 0"
    and "x_pool (p_x (ss_p s)) = pl" "p_mem (ss_p s) = m" "session_env ops s = env"
    and "pool_allocate (se_driver env) (se_scale env) (b_size (buf d c)) ''decomp_output'' True pl = (r, pl1)" "r \<noteq> 0"
    and "setExternalPointer c r \<lparr>x_dag = d, x_pool = pl1, x_mem = m, x_trace = []\<rparr> = Inr u"
    and "u = \<lparr>x_dag = d3, x_pool = pl1, x_mem = m, x_trace = []\<rparr>" "execute env stream u = Inr y"
    and "reports (so_api ops (ran ops (p_stages (ss_p s)) u y (ss_obj s))) src n"
  shows "\<exists>s'. run_inverse ops re src 0 0 True stream s = (s', Inr (r, trimmed_size (ss_p s) (word_of_nat n))) \<and> p_mem (ss_p s') = x_mem y"
proof -
  obtain e where e: "buffers d c = Some e" using assms(4) by blast
  then have bs: "getBufferSize c d = Inr (b_size (buf d c))" by (simp add: getBufferSize_def buf_def)
  have free: "free_decomp_outputs s = s" by (rule free_decomp_none [OF assms(5)])
  have pos: "0 < b_size (buf d c)" using assms(7) by (simp add: word_greater_zero_iff)
  let ?s1 = "s\<lparr>ss_p := (ss_p s)\<lparr>p_x := (p_x (ss_p s))\<lparr>x_pool := pl1\<rparr>\<rparr>, ss_decomp_outputs := [r]\<rparr>"
  have alloc: "allocateDecompressOutput ops re (b_size (buf d c)) 0 0 s = (?s1, Inr r)"
    using assms(5,6,8,10,11,12) pos by (simp add: allocateDecompressOutput_def Let_def)
  let ?s2 = "?s1\<lparr>ss_inv_cache := Some (ic\<lparr>ic_inv_dag := d3\<rparr>)\<rparr>"
  have set: "on_inverse (attempt (setExternalPointer c r)) ?s1 = (?s2, Inr ())"
    using assms(1,2,9,13,14) by (simp add: on_inverse_def attempt_def Let_def)
  let ?s3 = "?s2\<lparr>ss_inv_cache := Some (ic\<lparr>ic_inv_dag := x_dag y\<rparr>), ss_p := (ss_p ?s2)\<lparr>p_x := (p_x (ss_p ?s2))\<lparr>x_pool := x_pool y, x_mem := x_mem y\<rparr>\<rparr>,
      ss_obj := ran_stages ops (x_trace y) (ss_obj s)\<rparr>"
  have exec: "execute_inverse ops re stream ?s2 = (?s3, Inr ())"
    using assms(9,10,14,15) by (simp add: execute_inverse_def on_inverse_def Let_def)
  have "stage_events u y = x_trace y" by (simp add: stage_events_def assms(14))
  then have "ss_obj (sync_stages ops ?s3) = ran ops (p_stages (ss_p s)) u y (ss_obj s)"
    by (intro HOL.ext) (simp add: sync_stages_def ran_def Let_def)
  then have ref: "refined_size (session_api ops (sync_stages ops ?s3)) src (b_size (buf d c)) = word_of_nat n"
    using assms(16) by (auto simp: refined_size_def reports_def)
  have mem: "p_mem (ss_p (fst (on_inverse (\<lambda>x. (dag_reset x, Inr ())) (sync_stages ops ?s3)))) = x_mem y"
    by (simp add: on_inverse_def sync_stages_def Let_def x_mem_reset)
  have tr: "trimmed_size (ss_p (fst (on_inverse (\<lambda>x. (dag_reset x, Inr ())) (sync_stages ops ?s3)))) k = trimmed_size (ss_p s) k" for k
    by (simp add: on_inverse_def sync_stages_def Let_def trimmed_size_def)
  show ?thesis
    unfolding run_inverse_def Let_def using assms(1-3,6) bs alloc set exec ref mem tr
    by (simp add: free and_then_def)
qed

text \<open>A session with compressed bytes of one output in a pool allocation.\<close>

lemma decompressCore_ok:
  fixes t :: "'s session" and ops :: "'s stage_ops"
  assumes flags: "p_is_finalized (ss_p t)" "p_buffer_metadata (ss_p t) = [md]" "bm_buffer_id md = q" "\<not> p_needs_concat (ss_p t)"
      "p_strategy (ss_p t) = MINIMAL" "ss_inv_cache t = None" "ss_decomp_outputs t = []" "p_pool_managed_decomp (ss_p t)"
    and fwd: "fwd_topology (p_dag (ss_p t)) = fwd" "topo_ok fwd"
      "\<forall>i<length fwd. \<forall>c\<in>set (fd_output_buf_ids (fwd ! i)). buf_to_consumer fwd c = None \<longrightarrow> c = q"
    and src: "resolvePrimarySource (ss_p t) = Inr (src, n)" "n \<noteq> 0" "k < length fwd" "fd_stage (fwd ! k) = src" "fd_input_buf_ids (fwd ! k) \<noteq> []"
    and blob: "c \<noteq> 0" "mem_read (p_mem (ss_p t)) c (unat L) = W q" "(c, i) \<in> entries (x_pool (p_x (ss_p t)))" "unat L \<le> unat (ai_size i)"
      "pool_fine {} {} (x_pool (p_x (ss_p t)))"
    and obj: "env_ok (so_env ops obj2)" "roomy {} {} (se_driver (so_env ops obj2))"
      "\<forall>K. \<forall>fd\<in>set fwd. inverts (so_api ops obj2) (so_env ops obj2) K isem W fd"
      "\<And>K cap V u v. \<lbrakk>run_ready (so_env ops obj2) K cap V u; dataflow (so_env ops obj2) K isem (x_dag u) cap V; execute (so_env ops obj2) stream u = Inr v\<rbrakk>
         \<Longrightarrow> reports (so_api ops (ran ops (p_stages (ss_p t)) u v obj2)) src (length (W (hd (fd_input_buf_ids (fwd ! k)))))"
    and re: "re_events re = (\<lambda>_. (True, True))" "\<forall>d. distinct (fe_ord (re_finalize re) d) \<and> set (fe_ord (re_finalize re) d) = {..<length (nodes d)}"
      "\<forall>k. fe_streams (re_finalize re) k \<noteq> None"
    and obj2_def: "obj2 = turned ops (p_stages (ss_p t)) (ss_obj t)" and b_def: "b = hd (fd_input_buf_ids (fwd ! k))"
  shows "\<exists>t' r. decompressCore ops re c L 0 0 True stream t = Some (t', Inr (r, trimmed_size (ss_p t) (word_of_nat (length (W b))))) \<and>
    mem_read (p_mem (ss_p t')) r (length (W b)) = W b"
proof -
  let ?p = "ss_p t" and ?x = "p_x (ss_p t)" and ?env = "so_env ops obj2" and ?api = "so_api ops obj2" and ?outs = "[q \<mapsto> (c, L)]"
  have sizes: "resolveDecompressSegmentSizes c L ?p = Inr [L]" using flags(2,4) blob(1) by (simp add: resolveDecompressSegmentSizes_def Let_def)
  have po: "compressed_buffers c [L] ?p = Inr ?outs"
    using flags(2-4) blob(1) by (simp add: compressed_buffers_def mapCompressedBufferPointers_def compressed_pointers_def)
  have t1: "inverse_stages ops t = t\<lparr>ss_obj := obj2\<rparr>" by (simp add: inverse_stages_def turned_def obj2_def)
  have hold: "blobs_hold fwd ?outs W (p_mem ?p)" unfolding blobs_hold_def using fwd(3) blob(2) by (metis fun_upd_same)
  have num: "\<forall>j<length fwd. getNumOutputs ?api (fd_stage (fwd ! j)) = length (fd_input_buf_ids (fwd ! j))"
    using obj(3) by (simp add: inverts_def Let_def)
  then have num1: "\<forall>j<length fwd. length (fd_input_buf_ids (fwd ! j)) \<le> getNumOutputs ?api (fd_stage (fwd ! j))" by simp
  have hand: "\<forall>j<length fwd. \<forall>b\<in>set (fd_output_buf_ids (fwd ! j)). buf_to_consumer fwd b = None \<longrightarrow> ?outs b \<noteq> None" using fwd(3) by auto
  have dst: "distinct (map fd_stage fwd)" using fwd(2) by (simp add: topo_ok_def)
  have num2: "\<forall>j<length fwd. fd_stage (fwd ! j) \<in> fst ` set [(src, n)] \<longrightarrow> 0 < getNumOutputs ?api (fd_stage (fwd ! j))"
  proof (intro allI impI)
    fix j assume j: "j < length fwd" "fd_stage (fwd ! j) \<in> fst ` set [(src, n)]"
    then have "map fd_stage fwd ! j = map fd_stage fwd ! k" using src(3,4) by simp
    then have "j = k" using nth_eq_iff_index_eq [OF dst, of j k] j(1) src(3) by simp
    then show "0 < getNumOutputs ?api (fd_stage (fwd ! j))" using num src(3,5) by simp
  qed
  have min: "MINIMAL \<noteq> PREALLOCATE" by simp
  have mem1: "fd_stage (fwd ! k) \<in> fst ` set [(src, n)]" using src(4) by simp
  obtain e d rm where built: "buildInverseDAG ?api ?env (so_decl ops obj2) (re_events re) (re_finalize re) fwd ?outs MINIMAL [(src, n)]
        (p_profiling_enabled ?p) False (x_pool ?x, x_mem ?x) =
      Some (Inr (\<lparr>x_dag = d, x_pool = x_pool ?x, x_mem = x_mem ?x, x_trace = []\<rparr>, rm))"
    "inverse_built ?api (re_finalize re) fwd ?outs MINIMAL [(src, n)] False e d rm"
  proof (rule buildInverseDAG_ok [OF fwd(2) re(1) min num1 hand num2 src(3) mem1 re(2,3), of ?env "so_decl ops obj2" "p_profiling_enabled ?p" False "(x_pool ?x, x_mem ?x)"])
    fix e d rm
    assume a: "buildInverseDAG ?api ?env (so_decl ops obj2) (re_events re) (re_finalize re) fwd ?outs MINIMAL [(src, n)]
          (p_profiling_enabled ?p) False (x_pool ?x, x_mem ?x) =
        Some (Inr (\<lparr>x_dag = d, x_pool = fst (x_pool ?x, x_mem ?x), x_mem = snd (x_pool ?x, x_mem ?x), x_trace = []\<rparr>, rm))"
      "inverse_built ?api (re_finalize re) fwd ?outs MINIMAL [(src, n)] False e d rm"
    show thesis by (rule that [OF a(1) [unfolded fst_conv snd_conv] a(2)])
  qed
  have ms: "map_of [(src, n)] (fd_stage (fwd ! k)) = Some n" using src(4) by simp
  obtain c' r pl1 y K where R: "rm (fd_stage (fwd ! k)) = Some c'" "buffers d c' \<noteq> None" "b_size (buf d c') \<noteq> 0"
    "pool_allocate (se_driver ?env) (se_scale ?env) (b_size (buf d c')) ''decomp_output'' True (x_pool ?x) = (r, pl1)" "r \<noteq> 0"
    and U: "let x = \<lparr>x_dag = upd_buf c' (\<lambda>r'. r'\<lparr>d_ptr := r, is_external := True, is_allocated := True\<rparr>) d, x_pool = pl1, x_mem = p_mem ?p, x_trace = []\<rparr>;
         cap = (\<lambda>b. unat (b_size (buf d b))); V = inv_value fwd W d (p_mem ?p) in
     setExternalPointer c' r \<lparr>x_dag = d, x_pool = pl1, x_mem = p_mem ?p, x_trace = []\<rparr> = Inr x \<and>
     run_ready ?env K cap V x \<and> dataflow ?env K isem (x_dag x) cap V \<and> execute ?env stream x = Inr y \<and>
     mem_read (x_mem y) r (length (W b)) = W b"
    using run_inverse_ok [OF fwd(2) built(2) hold obj(3) refl blob(3,4) obj(1,2) blob(5) src(3) ms src(5,2), of stream] unfolding b_def by metis
  let ?u = "\<lparr>x_dag = upd_buf c' (\<lambda>r'. r'\<lparr>d_ptr := r, is_external := True, is_allocated := True\<rparr>) d, x_pool = pl1, x_mem = p_mem ?p, x_trace = []\<rparr>"
  have u: "setExternalPointer c' r \<lparr>x_dag = d, x_pool = pl1, x_mem = p_mem ?p, x_trace = []\<rparr> = Inr ?u"
    "run_ready ?env K (\<lambda>b. unat (b_size (buf d b))) (inv_value fwd W d (p_mem ?p)) ?u"
    "dataflow ?env K isem (x_dag ?u) (\<lambda>b. unat (b_size (buf d b))) (inv_value fwd W d (p_mem ?p))" "execute ?env stream ?u = Inr y"
    "mem_read (x_mem y) r (length (W b)) = W b"
    using U unfolding Let_def by blast+
  define ic where "ic = \<lparr>ic_inv_dag = d, ic_inv_result_map = rm, ic_fwd_to_inv_ext_buf = ext_buffers d, ic_source_sizes = [src \<mapsto> n]\<rparr>"
  let ?t2 = "t\<lparr>ss_obj := obj2, ss_inv_cache := Some ic\<rparr>"
  have cache: "buildOrReuseInvCache ops re ?outs (src, n) (t\<lparr>ss_obj := obj2\<rparr>) = Some (?t2, Inr ())"
    using flags(5,6) fwd(1) built(1) by (simp add: buildOrReuseInvCache_def rebuildInvCache_def drop_cache_def Let_def ic_def)
  have "reports (so_api ops (ran ops (p_stages (ss_p ?t2)) ?u y (ss_obj ?t2))) src (length (W b))"
    using obj(4) [OF u(2-4)] by (simp add: b_def)
  then obtain t3 where run: "run_inverse ops re src 0 0 True stream ?t2 = (t3, Inr (r, trimmed_size ?p (word_of_nat (length (W b)))))" "p_mem (ss_p t3) = x_mem y"
    using run_inverse_steps [of ?t2 ic d src c' "x_pool ?x" "p_mem ?p" ops ?env r pl1 ?u _ stream y "length (W b)" re] flags(7,8) R src(4) u(1,4)
    by (auto simp: ic_def)
  have "decompressCore ops re c L 0 0 True stream t = Some (restore_stages ops t3, Inr (r, trimmed_size ?p (word_of_nat (length (W b)))))"
    unfolding decompressCore_def Let_def using flags(1,2) sizes po src(1) cache run(1) by (simp add: t1)
  moreover have "p_mem (ss_p (restore_stages ops t3)) = x_mem y" using run(2) by (simp add: restore_stages_def)
  ultimately show ?thesis using u(5) by auto
qed

subsection \<open>Both calls\<close>

lemma take_mem_read: "k \<le> n \<Longrightarrow> take k (mem_read m p n) = mem_read m p k"
  by (rule nth_equalityI) auto


subsection \<open>Two stages that add one to every byte, and take it off again\<close>

text \<open>The object of a stage is its direction; \<open>base\<close> is an address behind everything the caller holds.\<close>

definition flag_env :: "(nat \<Rightarrow> bool) \<Rightarrow> stage_env" where
  "flag_env obj = (shift_env 0 4096)\<lparr>se_run := \<lambda>st. se_run (shift_env (if obj st then 255 else 1) 4096) st\<rparr>"

definition flag_api :: stage_api where
  "flag_api = fork_api\<lparr>getNumOutputs := \<lambda>s. 1, getOutputNames := \<lambda>s. [''output''], estimateOutputSizes := \<lambda>s ns. ns,
     getActualOutputSizesByName := \<lambda>s n. Some 64\<rparr>"

definition flag_ops :: "bool stage_ops" where
  "flag_ops = \<lparr>so_api = (\<lambda>obj. flag_api), so_env = flag_env, so_decl = (\<lambda>obj. line_decl), so_setDims = (\<lambda>_ o'. o'), so_setTerminalOutput = (\<lambda>_ o'. o'),
     so_oracle_valid = (\<lambda>_. False), so_bindDownstreamEncodingOracle = (\<lambda>_ o'. o'), so_onFinalize = (\<lambda>_ r. r), so_setInverse = (\<lambda>b _. b),
     so_saveState = id, so_restoreState = id, so_ran = (\<lambda>es st o'. o'), so_postStreamSync = (\<lambda>m o'. o')\<rparr>"

definition flag_session :: "bool session" where
  "flag_session = \<lparr>ss_p = (new_pipeline 64 MINIMAL (x_pool demo_start) (\<lambda>_. 0))\<lparr>p_x := demo_start, p_stages := [0, 1], p_is_finalized := True,
       p_input_nodes := [0], p_output_nodes := [1], p_input_buffer_ids := [0], p_output_buffer_ids := [2], p_input_alignment_bytes := 4\<rparr>,
     ss_obj = (\<lambda>_. False), ss_dims = [], ss_policy = Off, ss_fusion_info = \<lparr>in_policy = Off, in_legal_group_count = 0, in_installed_groups = [], in_fallback_reason = []\<rparr>,
     ss_warmup_on_finalize = False, ss_concat = \<lparr>pb_ptr = 0, pb_capacity = 0\<rparr>, ss_decomp_outputs = [], ss_inv_cache = None, ss_graph = None\<rparr>"

definition flag_run :: run_env where
  "flag_run = \<lparr>re_fault = \<lparr>ft_run = (\<lambda>_ _ _ _ _ s. s), ft_fused = (\<lambda>_ _ s. s)\<rparr>, re_launch = (\<lambda>_ s. Inr s), re_malloc = (\<lambda>_ _. None), re_sched = [],
     re_margin = id, re_finalize = fork_env, re_events = (\<lambda>_. (True, True))\<rparr>"

lemma flag_computes:
  assumes "length v \<le> r"
  shows "computes (flag_env obj) K F st [v] (shift_sem (if obj st then 255 else 1) st [v]) [r]"
  using shift_computes [OF assms, of "if obj st then 255 else 1" 4096 K F st] by (simp add: computes_def flag_env_def)

lemma flag_env_ok:
  assumes "\<And>p k. (p, k) \<in> F \<Longrightarrow> p + k \<le> 4096"
  shows "env_ok (flag_env obj)" "roomy {} F (se_driver (flag_env obj))"
proof -
  have e: "env_ok (shift_env k 4096)" "roomy {} F (se_driver (shift_env k 4096))" for k by (rule shift_env_ok; use assms in blast)+
  show "env_ok (flag_env obj)" using e(1) [of 0] e(1) [of 1] e(1) [of 255] unfolding env_ok_def flag_env_def by (auto split: if_splits)
  show "roomy {} F (se_driver (flag_env obj))" using e(2) [of 0] by (simp add: flag_env_def)
qed

lemma flag_graph:
  "length (nodes (x_dag demo_start)) = 2" "n_stage (node (x_dag demo_start) 0) = Some 0" "n_stage (node (x_dag demo_start) 1) = Some 1"
  "input_buffer_ids (node (x_dag demo_start) 0) = [0]" "output_buffer_ids (node (x_dag demo_start) 0) = [1]"
  "input_buffer_ids (node (x_dag demo_start) 1) = [1]" "output_buffer_ids (node (x_dag demo_start) 1) = [2]"
  "fwd_topology (x_dag demo_start) = [\<lparr>fd_stage = 0, fd_output_buf_ids = [0 + 1], fd_input_buf_ids = [0]\<rparr>, \<lparr>fd_stage = 1, fd_output_buf_ids = [1 + 1], fd_input_buf_ids = [1]\<rparr>]"
  "map n_stage (nodes (x_dag demo_start)) = [Some 0, Some 1]" "consumer_stage_ids (buf (x_dag demo_start) 1) = [1]"
  "is_finalized (x_dag demo_start)" "\<not> capture_mode (x_dag demo_start)" "exec_order (x_dag demo_start) = concat (levels (x_dag demo_start))"
  "buffers (x_dag demo_start) 0 \<noteq> None" "p_strategy (ss_p flag_session) = MINIMAL"
  by code_simp+

lemma flag_fresh: "fresh_graph (x_dag demo_start) 0 2"
proof -
  let ?d = "x_dag demo_start"
  have st: "distinct (map n_stage (nodes ?d))" unfolding flag_graph(9) by simp
  have "i < 2 \<Longrightarrow> i = 0 \<or> i = 1" for i :: nat by auto
  then have some: "\<forall>i<length (nodes ?d). n_stage (node ?d i) \<noteq> None" using flag_graph(1-3) by (metis option.distinct(1))
  have "list_all (\<lambda>(b, r). \<not> is_allocated r) (buffer_table ?d)" by code_simp
  then have al: "\<not> is_allocated (buf ?d c)" for c by (rule buf_all) (simp add: new_buffer_def)
  have pb: "producer_stage_id (buf ?d 0) = - 1" using demo_buffers(1) [of 0] by (simp add: new_buffer_def)
  have "c = 2" if "0 \<le> producer_stage_id (buf ?d c)" "consumer_stage_ids (buf ?d c) = []" for c
    using that demo_produced [of c] flag_graph(10) by auto
  then show ?thesis unfolding fresh_graph_def
    using demo_start_ready flag_graph(11-14) demo_external(1) st some al pb demo_produced [of 2] demo_buffers(8) by blast
qed

lemma flag_stage_sem:
  "shift_sem 1 st [demo_values b] = [demo_values (b + 1)]" "shift_sem 255 st [demo_values (b + 1)] = [demo_values b]" "length (demo_values b) = 64" "demo_values b \<noteq> []"
  by (simp add: shift_sem_def demo_values_def map_replicate add.commute) (simp_all add: shift_sem_def demo_values_def map_replicate)

lemma flag_forward: "forward_ok (flag_env (\<lambda>_. False)) (shift_sem 1) demo_values (x_dag demo_start)"
proof -
  have "computes (flag_env (\<lambda>_. False)) K F st [demo_values b] [demo_values (b + 1)] rooms"
    if ok: "list_all2 (\<lambda>v r. length v \<le> r) [demo_values (b + 1)] rooms" for K F st b rooms
  proof -
    obtain r where "rooms = [r]" "length (demo_values b) \<le> r" using ok by (auto simp: list_all2_Cons1 flag_stage_sem(3))
    then show ?thesis using flag_computes [of "demo_values b" r "\<lambda>_. False" K F st] flag_stage_sem(1) by simp
  qed
  note C = this [of 0, simplified] this [of 1, simplified]
  have "\<exists>st. n_stage (node (x_dag demo_start) i) = Some st \<and>
      shift_sem 1 st (map demo_values (input_buffer_ids (node (x_dag demo_start) i))) = map demo_values (output_buffer_ids (node (x_dag demo_start) i)) \<and>
      (\<forall>K F rooms. list_all2 (\<lambda>v r. length v \<le> r) (map demo_values (output_buffer_ids (node (x_dag demo_start) i))) rooms \<longrightarrow>
         computes (flag_env (\<lambda>_. False)) K F st (map demo_values (input_buffer_ids (node (x_dag demo_start) i)))
           (map demo_values (output_buffer_ids (node (x_dag demo_start) i))) rooms)" if "i < length (nodes (x_dag demo_start))" for i
  proof -
    have "i = 0 \<or> i = 1" using that flag_graph(1) by auto
    then show ?thesis
      using C flag_stage_sem(1) [of _ 0] flag_stage_sem(1) [of _ 1] by (elim disjE) (simp_all add: flag_graph flag_graph [unfolded One_nat_def])
  qed
  moreover have "demo_values c \<noteq> [] \<and> length (demo_values c) \<le> unat (b_size (buf (x_dag demo_start) c)) \<and> length (demo_values c) < 2 ^ 64"
    if "0 \<le> producer_stage_id (buf (x_dag demo_start) c)" for c
    using that demo_produced [of c] flag_stage_sem(3,4) by (auto simp: demo_buffers(4,7))
  ultimately show ?thesis unfolding forward_ok_def by blast
qed

lemma flag_inverts:
  assumes "obj s"
  shows "inverts flag_api (flag_env obj) K (shift_sem 255) demo_values \<lparr>fd_stage = s, fd_output_buf_ids = [b + 1], fd_input_buf_ids = [b]\<rparr>"
proof -
  have "computes (flag_env obj) K F s [demo_values (b + 1)] [demo_values b] rooms" if ok: "list_all2 (\<lambda>v r. length v \<le> r) [demo_values b] rooms" for F rooms
  proof -
    obtain r where "rooms = [r]" "length (demo_values (b + 1)) \<le> r" using ok by (auto simp: list_all2_Cons1 flag_stage_sem(3))
    then show ?thesis using flag_computes [of "demo_values (b + 1)" r obj K F s] flag_stage_sem(2) assms by simp
  qed
  moreover have "list_all2 (\<lambda>v n. length v \<le> unat n) [demo_values b] ns" if "list_all2 (\<lambda>v n. length v \<le> unat n) [demo_values (b + 1)] ns" for ns :: "size_t list"
    using that by (auto simp: list_all2_Cons1 flag_stage_sem(3))
  ultimately show ?thesis using flag_stage_sem(2-4) by (simp add: inverts_def flag_api_def)
qed

lemma flag_stages:
  "stages_invert flag_ops (\<lambda>_. False) [0, 1] (shift_sem 1) (shift_sem 255) demo_values (x_dag demo_start) 0 2 0"
proof -
  have ran: "ran flag_ops [0, 1] x y obj = obj" for x y obj by (rule HOL.ext) (simp add: ran_def ran_stages_def flag_ops_def Let_def)
  let ?o = "turned flag_ops [0, 1] (\<lambda>_. False)"
  have on: "?o 0" "?o 1" by (simp_all add: turned_def flag_ops_def)
  have rep: "reports flag_api st (length (demo_values b))" for st b by (simp add: reports_def flag_api_def flag_stage_sem(3))
  have inv: "\<forall>K. \<forall>fd\<in>set (fwd_topology (x_dag demo_start)). inverts flag_api (flag_env ?o) K (shift_sem 255) demo_values fd"
    using flag_inverts [of ?o 0 _ 0] flag_inverts [of ?o 1 _ 1] on unfolding flag_graph(8) by simp
  have api: "so_api flag_ops obj = flag_api" "so_env flag_ops = flag_env" for obj by (simp_all add: flag_ops_def)
  show ?thesis
    unfolding stages_invert_def Let_def ran api using rep inv flag_env_ok [of "{}" ?o] by blast
qed


end
