(* ===== verification/Tupl.thy ===== *)
theory Tupl
  imports Byte_Writes
begin

section \<open>The tuple transposition stage\<close>

text \<open>
  \<open>modules/structural/tupl\<close>: within every block of \<open>block_size\<close> bytes the fields of the tuples are
  regrouped field by field; bytes that form no whole tuple, and the last partial block, are copied.
  A kernel is the list of the byte ranges \<open>(dst, src, n)\<close> its threads copy, in an arbitrary order; a template
  parameter \<open>T\<close> is the element width \<open>w\<close>, and an element assignment copies its \<open>w\<close> bytes.  Index arithmetic on
  \<open>uint32_t\<close> is done in 32 bits.
\<close>

subsection \<open>Ranges of bytes\<close>

definition copy_range :: "u8 list \<Rightarrow> nat \<times> nat \<times> nat \<Rightarrow> nat \<times> u8 list" where
  "copy_range inp c = (case c of (d, s, n) \<Rightarrow> (d, map (\<lambda>k. inp ! (s + k)) [0..<n]))"

definition copy_bytes :: "nat \<Rightarrow> nat \<Rightarrow> nat \<Rightarrow> u8 list \<Rightarrow> u8 list \<Rightarrow> u8 list" where
  "copy_bytes d s n inp out = put_at d (map (\<lambda>k. inp ! (s + k)) [0..<n]) out"

text \<open>The copies of all threads, in the order the device performs them.\<close>

definition run_ranges :: "(nat list \<Rightarrow> nat list) \<Rightarrow> (nat \<times> nat \<times> nat) list \<Rightarrow> u8 list \<Rightarrow> u8 list \<Rightarrow> u8 list" where
  "run_ranges sched cs inp out = run_puts sched (map (copy_range inp) cs) out"

subsection \<open>The stage\<close>

record tupl_stage =
  tp_is_inverse :: bool
  tp_block_size :: u32
  tp_word_size :: u8
  tp_dim :: u8
  tp_actual_output_size :: size_t
  tp_saved_block_size :: u32
  tp_saved_word_size :: u8
  tp_saved_dim :: u8
  tp_saved_actual :: size_t

definition new_tupl :: tupl_stage where
  "new_tupl = \<lparr>tp_is_inverse = False, tp_block_size = 16384, tp_word_size = 1, tp_dim = 2, tp_actual_output_size = 0,
     tp_saved_block_size = 0, tp_saved_word_size = 0, tp_saved_dim = 0, tp_saved_actual = 0\<rparr>"

definition tupl_setBlockSize :: "size_t \<Rightarrow> tupl_stage \<Rightarrow> tupl_stage" where
  "tupl_setBlockSize bytes st = st\<lparr>tp_block_size := ucast bytes\<rparr>"

definition tupl_setWordSize :: "size_t \<Rightarrow> tupl_stage \<Rightarrow> tupl_stage" where
  "tupl_setWordSize bytes st = st\<lparr>tp_word_size := ucast bytes\<rparr>"

definition tupl_setDim :: "size_t \<Rightarrow> tupl_stage \<Rightarrow> tupl_stage" where
  "tupl_setDim dim st = st\<lparr>tp_dim := ucast dim\<rparr>"

definition tupl_validateConfig :: "tupl_stage \<Rightarrow> unit res" where
  "tupl_validateConfig st =
     (let w = tp_word_size st in
      if w \<noteq> 1 \<and> w \<noteq> 2 \<and> w \<noteq> 4 \<and> w \<noteq> 8 then Inl (InvalidArgument ''TUPLStage: word_size must be 1, 2, 4, or 8'')
      else if tp_dim st < 2 then Inl (InvalidArgument ''TUPLStage: dim must be >= 2'')
      else if tp_block_size st = 0 \<or> tp_block_size st mod ucast w \<noteq> 0
      then Inl (InvalidArgument ''TUPLStage: block_size must be a positive multiple of word_size'')
      else Inr ())"

text \<open>One thread of \<open>tuplEncodeKernel\<close> or \<open>tuplDecodeKernel\<close>: its elements, then its share of the left-over bytes.\<close>

definition tupl_thread :: "bool \<Rightarrow> nat \<Rightarrow> u32 \<Rightarrow> u32 \<Rightarrow> u32 \<Rightarrow> nat \<Rightarrow> nat \<Rightarrow> nat \<Rightarrow> (nat \<times> nat \<times> nat) list" where
  "tupl_thread is_inv w block_words dim tuples block_dim blk tid =
     (let size = tuples * dim; chunk_base = word_of_nat blk * block_words; extra = block_words - size;
          extra_bytes = extra * word_of_nat w; base = w * unat chunk_base + unat size * w
      in map (\<lambda>k. let i = word_of_nat k; plain = unat (chunk_base + i); grouped = unat (chunk_base + i div dim + (i mod dim) * tuples)
                  in if is_inv then (w * plain, w * grouped, w) else (w * grouped, w * plain, w))
           (stride_from tid block_dim (unat size)) @
         (if 0 < extra then map (\<lambda>e. (base + e, base + e, 1)) (stride_from tid block_dim (unat extra_bytes)) else []))"

definition launchTupl :: "(nat list \<Rightarrow> nat list) \<Rightarrow> bool \<Rightarrow> nat \<Rightarrow> nat \<Rightarrow> nat \<Rightarrow> u32 \<Rightarrow> u32 \<Rightarrow> u32 \<Rightarrow> u8 list \<Rightarrow> u8 list \<Rightarrow> u8 list" where
  "launchTupl sched is_inv w grid block_dim block_words dim tuples inp out =
     run_ranges sched (concat (map (\<lambda>(blk, tid). tupl_thread is_inv w block_words dim tuples block_dim blk tid)
       (List.product [0..<grid] [0..<block_dim]))) inp out"

definition tupl_execute :: "(nat list \<Rightarrow> nat list) \<Rightarrow> bool \<Rightarrow> u8 list list \<Rightarrow> u8 list list \<Rightarrow> size_t list
   \<Rightarrow> tupl_stage \<Rightarrow> (u8 list list \<times> tupl_stage) res" where
  "tupl_execute sched lerr ins outs sizes st =
     (if ins = [] \<or> outs = [] \<or> sizes = [] then Inl (RuntimeError ''TUPLStage: invalid inputs/outputs'')
      else if sizes ! 0 = 0 then Inr (outs, st\<lparr>tp_actual_output_size := 0\<rparr>)
      else res_bind (tupl_validateConfig st) (\<lambda>_.
        let in_bytes = sizes ! 0; bs = ucast (tp_block_size st) :: size_t;
            full_bytes = in_bytes div bs * bs; tail_bytes = in_bytes - full_bytes;
            grid = nat (sint (ucast (full_bytes div bs) :: 32 word));
            block_words = ucast (tp_block_size st div ucast (tp_word_size st)) :: u32; dim = ucast (tp_dim st) :: u32;
            tuples = block_words div dim;
            block_dim = unat (min (max (ucast tuples * ucast (tp_dim st)) 32) (1024 :: size_t));
            out1 = (if 0 < grid then launchTupl sched (tp_is_inverse st) (unat (tp_word_size st)) grid block_dim block_words dim tuples (ins ! 0) (outs ! 0)
                    else outs ! 0)
        in if lerr then Inl (RuntimeError ''TUPLStage kernel launch failed: '')
           else Inr (outs[0 := if 0 < tail_bytes then copy_bytes (unat full_bytes) (unat full_bytes) (unat tail_bytes) (ins ! 0) out1 else out1],
                     st\<lparr>tp_actual_output_size := in_bytes\<rparr>)))"

definition tupl_serializeHeader :: "nat \<Rightarrow> tupl_stage \<Rightarrow> u8 list" where
  "tupl_serializeHeader max_size st =
     (if max_size < 6 then [] else le_bytes 4 (unat (tp_block_size st)) @ [tp_word_size st, tp_dim st])"

definition tupl_deserializeHeader :: "u8 list \<Rightarrow> tupl_stage \<Rightarrow> tupl_stage" where
  "tupl_deserializeHeader buf st =
     (let st1 = (if 4 \<le> length buf then st\<lparr>tp_block_size := word_of_nat (le_val (take 4 buf))\<rparr> else st);
          st2 = (if 5 \<le> length buf then st1\<lparr>tp_word_size := buf ! 4\<rparr> else st1)
      in if 6 \<le> length buf then st2\<lparr>tp_dim := buf ! 5\<rparr> else st2)"

definition tupl_saveState :: "tupl_stage \<Rightarrow> tupl_stage" where
  "tupl_saveState st = st\<lparr>tp_saved_block_size := tp_block_size st, tp_saved_word_size := tp_word_size st, tp_saved_dim := tp_dim st,
     tp_saved_actual := tp_actual_output_size st\<rparr>"

definition tupl_restoreState :: "tupl_stage \<Rightarrow> tupl_stage" where
  "tupl_restoreState st = st\<lparr>tp_block_size := tp_saved_block_size st, tp_word_size := tp_saved_word_size st, tp_dim := tp_saved_dim st,
     tp_actual_output_size := tp_saved_actual st\<rparr>"

definition tupl_getRequiredInputAlignment :: "tupl_stage \<Rightarrow> size_t" where
  "tupl_getRequiredInputAlignment st = ucast (tp_block_size st)"

definition tupl_bytes :: "tupl_stage \<Rightarrow> run_env \<Rightarrow> u8 list \<Rightarrow> u8 list res" where
  "tupl_bytes st e bs = map_sum id (\<lambda>(outs, st'). take (unat (tp_actual_output_size st')) (outs ! 0))
     (tupl_execute (re_sched e) False [bs] [re_stale e (length bs)] [word_of_nat (length bs)] st)"

subsection \<open>What a set of copies does\<close>

text \<open>The pairs of a written and a read byte.\<close>

definition byte_pairs :: "(nat \<times> nat \<times> nat) list \<Rightarrow> (nat \<times> nat) set" where
  "byte_pairs cs = (\<Union>(d, s, n)\<in>set cs. (\<lambda>k. (d + k, s + k)) ` {..<n})"

lemma byte_pairsI: "(d, s, n) \<in> set cs \<Longrightarrow> k < n \<Longrightarrow> (d + k, s + k) \<in> byte_pairs cs"
  unfolding byte_pairs_def by blast

lemma copy_bytes_nth:
  "length (copy_bytes d s n inp out) = length out"
  "j < length out \<Longrightarrow> copy_bytes d s n inp out ! j = (if d \<le> j \<and> j < d + n then inp ! (s + (j - d)) else out ! j)"
  by (auto simp: copy_bytes_def put_at_nth)

lemma copy_range_covers: "(\<exists>w\<in>set (map (copy_range inp) cs). covers w j) \<longleftrightarrow> j \<in> Domain (byte_pairs cs)"
proof
  assume "\<exists>w\<in>set (map (copy_range inp) cs). covers w j"
  then obtain d s n where c: "(d, s, n) \<in> set cs" "d \<le> j" "j < d + n" by (auto simp: copy_range_def covers_def)
  then have "(d + (j - d), s + (j - d)) \<in> byte_pairs cs" by (intro byte_pairsI) auto
  then show "j \<in> Domain (byte_pairs cs)" using c(2) by auto
next
  assume "j \<in> Domain (byte_pairs cs)"
  then obtain d s n where "(d, s, n) \<in> set cs" "d \<le> j" "j < d + n" by (auto simp: byte_pairs_def)
  then show "\<exists>w\<in>set (map (copy_range inp) cs). covers w j" by (force simp: copy_range_def covers_def)
qed

lemma run_ranges_spec:
  assumes "sched_ok sched" "single_valued (byte_pairs cs)"
  shows "length (run_ranges sched cs inp out) = length out"
    "\<lbrakk>j < length out; (j, s) \<in> byte_pairs cs\<rbrakk> \<Longrightarrow> run_ranges sched cs inp out ! j = inp ! s"
    "\<lbrakk>j < length out; j \<notin> Domain (byte_pairs cs)\<rbrakk> \<Longrightarrow> run_ranges sched cs inp out ! j = out ! j"
proof -
  let ?W = "\<lambda>j. inp ! (THE s. (j, s) \<in> byte_pairs cs)"
  have the: "(THE s. (j, s) \<in> byte_pairs cs) = s" if "(j, s) \<in> byte_pairs cs" for j s
    using that assms(2) by (blast dest: single_valuedD)
  have a: "\<forall>w\<in>set (map (copy_range inp) cs). agrees ?W w"
    by (auto simp: agrees_def copy_range_def the dest: byte_pairsI)
  note R = run_puts_nth [OF assms(1) a, folded run_ranges_def, unfolded copy_range_covers]
  show "length (run_ranges sched cs inp out) = length out"
    "\<lbrakk>j < length out; (j, s) \<in> byte_pairs cs\<rbrakk> \<Longrightarrow> run_ranges sched cs inp out ! j = inp ! s"
    "\<lbrakk>j < length out; j \<notin> Domain (byte_pairs cs)\<rbrakk> \<Longrightarrow> run_ranges sched cs inp out ! j = out ! j"
    using R by (auto simp: the Domain_iff)
qed

subsection \<open>The transposition\<close>

text \<open>The position of element \<open>i\<close> after the fields have been grouped; exchanging the two numbers gives the inverse.\<close>

definition group_index :: "nat \<Rightarrow> nat \<Rightarrow> nat \<Rightarrow> nat" where
  "group_index dim tuples i = i div dim + (i mod dim) * tuples"

lemma group_index_inverse:
  assumes "i < tuples * dim"
  shows "group_index dim tuples i < tuples * dim" "group_index tuples dim (group_index dim tuples i) = i"
proof -
  have pos: "0 < dim" "0 < tuples" using assms by (auto intro: Nat.gr0I)
  let ?q = "i div dim" and ?r = "i mod dim"
  have qr: "?q < tuples" "?r < dim" using assms pos by (simp_all add: less_mult_imp_div_less)
  have "?q + ?r * tuples < tuples + ?r * tuples" using qr(1) by simp
  also have "\<dots> \<le> tuples * dim" using qr(2) by (metis Suc_leI mult.commute mult_Suc mult_le_mono1)
  finally show "group_index dim tuples i < tuples * dim" by (simp add: group_index_def)
  have "group_index dim tuples i div tuples = ?r" "group_index dim tuples i mod tuples = ?q"
    using qr(1) pos(2) by (simp_all add: group_index_def)
  then show "group_index tuples dim (group_index dim tuples i) = i" by (simp add: group_index_def [of tuples dim])
qed

text \<open>Where a byte of the full blocks goes.\<close>

definition regroup :: "nat \<Rightarrow> nat \<Rightarrow> nat \<Rightarrow> nat \<Rightarrow> nat \<Rightarrow> nat" where
  "regroup w bw dim tuples s =
     (let blk = s div (w * bw); r = s mod (w * bw)
      in if r < w * (tuples * dim) then w * (bw * blk + group_index dim tuples (r div w)) + r mod w else s)"

lemma block_position:
  assumes "r < w * bw"
  shows "(w * bw * blk + r) div (w * bw) = blk" "(w * bw * blk + r) mod (w * bw) = (r :: nat)"
proof -
  have "0 < w * bw" using assms by (rule le_less_trans [OF le0])
  then show "(w * bw * blk + r) div (w * bw) = blk" "(w * bw * blk + r) mod (w * bw) = r" using assms
    by (simp_all only: div_mult_self4 div_less less_not_refl mod_mult_self4 mod_less)
qed

lemma regroup_element:
  assumes "i < tuples * dim" "tuples * dim \<le> bw" "k < w"
  shows "regroup w bw dim tuples (w * (bw * blk + i) + k) = w * (bw * blk + group_index dim tuples i) + k"
proof -
  let ?r = "w * i + k"
  have lt: "?r < w * (tuples * dim)"
  proof -
    have "?r < w * Suc i" using assms(3) by simp
    also have "\<dots> \<le> w * (tuples * dim)" using assms(1) by (intro mult_le_mono2) simp
    finally show ?thesis .
  qed
  then have lb: "?r < w * bw" using assms(2) by (meson less_le_trans mult_le_mono2)
  have e: "w * (bw * blk + i) + k = w * bw * blk + ?r" by (simp add: algebra_simps)
  have "?r div w = i" "?r mod w = k" using assms(3) by simp_all
  then show ?thesis unfolding regroup_def Let_def e block_position [OF lb] using lt by simp
qed

lemma regroup_rest:
  assumes "w * (tuples * dim) \<le> r" "r < w * bw"
  shows "regroup w bw dim tuples (w * bw * blk + r) = w * bw * blk + r"
  unfolding regroup_def Let_def block_position [OF assms(2)] using assms(1) by simp

text \<open>Every byte of a full block is of an element or left over.\<close>

lemma block_byte_cases:
  fixes s grid w bw tuples dim :: nat
  assumes "s < grid * (w * bw)" "tuples * dim \<le> bw" "0 < w"
  obtains (element) blk i k where "blk < grid" "i < tuples * dim" "k < w" "s = w * (bw * blk + i) + k"
    | (rest) blk e where "blk < grid" "e < w * (bw - tuples * dim)" "s = w * bw * blk + (w * (tuples * dim) + e)"
proof -
  let ?blk = "s div (w * bw)" and ?r = "s mod (w * bw)"
  have pos: "0 < w * bw" using assms(1) by (auto intro: Nat.gr0I)
  have blk: "?blk < grid" using assms(1) by (simp add: less_mult_imp_div_less)
  have r: "?r < w * bw" "s = w * bw * ?blk + ?r" using pos by simp_all
  show thesis
  proof (cases "?r < w * (tuples * dim)")
    case True
    have "?r div w < tuples * dim" using True by (simp add: less_mult_imp_div_less mult.commute)
    moreover have "?r mod w < w" using assms(3) by simp
    moreover have "s = w * (bw * ?blk + ?r div w) + ?r mod w" using r(2) by (simp add: algebra_simps)
    ultimately show thesis using element blk by blast
  next
    case False
    have "?r - w * (tuples * dim) < w * (bw - tuples * dim)" using False r(1) by (simp add: diff_mult_distrib2 diff_less_mono)
    moreover have "s = w * bw * ?blk + (w * (tuples * dim) + (?r - w * (tuples * dim)))" using False r(2) by simp
    ultimately show thesis using rest blk by blast
  qed
qed

lemma regroup_inverse:
  assumes "s < grid * (w * bw)" "tuples * dim \<le> bw" "0 < w"
  shows "regroup w bw dim tuples s < grid * (w * bw)" "regroup w bw tuples dim (regroup w bw dim tuples s) = s"
proof -
  have in_block: "w * bw * blk + r < grid * (w * bw)" if "blk < grid" "r < w * bw" for blk r
  proof -
    have "w * bw * blk + r < w * bw * Suc blk" using that(2) by simp
    also have "\<dots> \<le> w * bw * grid" using that(1) by (intro mult_le_mono2) simp
    finally show ?thesis by (simp add: mult.commute)
  qed
  from assms have "regroup w bw dim tuples s < grid * (w * bw) \<and> regroup w bw tuples dim (regroup w bw dim tuples s) = s"
  proof (cases rule: block_byte_cases)
    case (element blk i k)
    note g = group_index_inverse [OF element(2)]
    have "w * group_index dim tuples i + k < w * Suc (group_index dim tuples i)" using element(3) by simp
    also have "\<dots> \<le> w * bw" using g(1) assms(2) by (intro mult_le_mono2) simp
    finally have "w * bw * blk + (w * group_index dim tuples i + k) < grid * (w * bw)" by (rule in_block [OF element(1)])
    then have "w * (bw * blk + group_index dim tuples i) + k < grid * (w * bw)" by (simp only: distrib_left mult.assoc add.assoc)
    moreover have "regroup w bw tuples dim (w * (bw * blk + group_index dim tuples i) + k) = w * (bw * blk + i) + k"
      using regroup_element [of "group_index dim tuples i" dim tuples bw k w blk] g assms(2) element(3) by (simp add: mult.commute)
    ultimately show ?thesis using regroup_element [OF element(2) assms(2) element(3)] element(4) by simp
  next
    case (rest blk e)
    have r: "w * (tuples * dim) \<le> w * (tuples * dim) + e" "w * (tuples * dim) + e < w * bw"
      using rest(2) assms(2) by (simp_all add: diff_mult_distrib2 less_diff_conv add.commute)
    have "regroup w bw dim tuples s = s" unfolding rest(3) by (rule regroup_rest [OF r])
    moreover have "regroup w bw tuples dim s = s" unfolding rest(3) by (rule regroup_rest) (use r in \<open>simp_all add: mult.commute\<close>)
    ultimately show ?thesis using assms(1) by simp
  qed
  then show "regroup w bw dim tuples s < grid * (w * bw)" "regroup w bw tuples dim (regroup w bw dim tuples s) = s" by simp_all
qed

subsection \<open>The kernels\<close>

lemma unat_add32: "unat x + unat y < 2 ^ 32 \<Longrightarrow> unat (x + y :: u32) = unat x + unat y"
  by (simp add: unat_word_ariths)

lemma unat_mult32: "unat x * unat y < 2 ^ 32 \<Longrightarrow> unat (x * y :: u32) = unat x * unat y"
  by (simp add: unat_word_ariths)

lemma unat_mult64: "unat x * unat y < 2 ^ 64 \<Longrightarrow> unat (x * y :: size_t) = unat x * unat y"
  by (simp add: unat_word_ariths)

lemma unat_up: "LENGTH('a) \<le> LENGTH('b) \<Longrightarrow> unat (ucast (x :: 'a::len word) :: 'b::len word) = unat x"
proof -
  assume a: "LENGTH('a) \<le> LENGTH('b)"
  have "unat x < 2 ^ LENGTH('a)" by (rule unsigned_less)
  also have "\<dots> \<le> (2 :: nat) ^ LENGTH('b)" using a by simp
  finally show ?thesis by (simp add: unsigned_ucast_eq take_bit_nat_eq_self)
qed

text \<open>A thread without the machine arithmetic, below \<open>2^32\<close> bytes.\<close>

definition plain_thread :: "bool \<Rightarrow> nat \<Rightarrow> nat \<Rightarrow> nat \<Rightarrow> nat \<Rightarrow> nat \<Rightarrow> nat \<Rightarrow> nat \<Rightarrow> (nat \<times> nat \<times> nat) list" where
  "plain_thread is_inv w bw dim tuples block_dim blk tid =
     map (\<lambda>i. if is_inv then (w * (bw * blk + i), w * (bw * blk + group_index dim tuples i), w)
              else (w * (bw * blk + group_index dim tuples i), w * (bw * blk + i), w)) (stride_from tid block_dim (tuples * dim)) @
     map (\<lambda>e. (w * bw * blk + (w * (tuples * dim) + e), w * bw * blk + (w * (tuples * dim) + e), 1))
       (stride_from tid block_dim (w * (bw - tuples * dim)))"

lemma tupl_thread_plain:
  assumes "w * (unat bw * Suc blk) < 2 ^ 32" "unat tuples * unat dim \<le> unat bw" "0 < w" "0 < block_dim"
  shows "tupl_thread is_inv w bw dim tuples block_dim blk tid = plain_thread is_inv w (unat bw) (unat dim) (unat tuples) block_dim blk tid"
proof -
  have le: "n \<le> w * n" for n using assms(3) by simp
  have all: "unat bw * Suc blk < 2 ^ 32" using assms(1) le le_less_trans by blast
  have bwl: "unat bw < 2 ^ 32" using unsigned_less [of bw, where 'a = nat] by simp
  have size: "unat (tuples * dim) = unat tuples * unat dim" using assms(2) bwl by (intro unat_mult32) (rule le_less_trans)
  have blk: "unat (word_of_nat blk * bw) = unat bw * blk"
  proof (cases "unat bw = 0")
    case False
    then have "blk \<le> unat bw * blk" by simp
    then have "blk < 2 ^ 32" using all by (metis add_lessD1 add.commute le_less_trans mult_Suc_right)
    then have b: "unat (word_of_nat blk :: u32) = blk" by (rule unat_of_nat32)
    show ?thesis using all by (subst unat_mult32) (simp_all add: b mult.commute)
  qed (simp add: unat_eq_zero)
  have extra: "unat (bw - tuples * dim) = unat bw - unat tuples * unat dim"
    using assms(2) by (simp add: unat_sub word_le_nat_alt size)
  have wl: "w < 2 ^ 32" if "unat bw \<noteq> 0"
  proof -
    have "w * 1 \<le> w * (unat bw * Suc blk)" using that by (intro mult_le_mono2) simp
    then show ?thesis using assms(1) by linarith
  qed
  have xb: "unat ((bw - tuples * dim) * word_of_nat w) = w * (unat bw - unat tuples * unat dim)" 
  proof (cases "unat bw = 0")
    case False
    then have ww: "unat (word_of_nat w :: u32) = w" by (intro unat_of_nat32 wl)
    have "unat bw - unat tuples * unat dim \<le> unat bw * Suc blk" by (rule le_trans [OF diff_le_self]) simp
    then have "(unat bw - unat tuples * unat dim) * w \<le> w * (unat bw * Suc blk)" by (simp only: mult.commute [of _ w] mult_le_mono2)
    then have "unat (bw - tuples * dim) * unat (word_of_nat w :: u32) < 2 ^ 32" unfolding extra ww using assms(1) by linarith
    from unat_mult32 [OF this] show ?thesis unfolding extra ww by (simp only: mult.commute)
  qed (use assms(2) in \<open>simp add: unat_eq_zero size [symmetric]\<close>)
  have el: "unat (word_of_nat blk * bw + word_of_nat i) = unat bw * blk + i"
    "unat (word_of_nat blk * bw + word_of_nat i div dim + (word_of_nat i mod dim) * tuples) = unat bw * blk + group_index (unat dim) (unat tuples) i"
    if i: "i < unat tuples * unat dim" for i
  proof -
    have iw: "unat (word_of_nat i :: u32) = i" using i assms(2) bwl by (intro unat_of_nat32) linarith
    have room: "unat bw * blk + unat bw < 2 ^ 32" using all by simp
    show "unat (word_of_nat blk * bw + word_of_nat i) = unat bw * blk + i"
      using room i assms(2) by (subst unat_add32) (simp_all add: blk iw)
    have g: "group_index (unat dim) (unat tuples) i < unat tuples * unat dim" by (rule group_index_inverse(1) [OF i])
    have q: "unat ((word_of_nat i :: u32) div dim) = i div unat dim" "unat ((word_of_nat i :: u32) mod dim) = i mod unat dim" by (simp_all add: unat_div unat_mod iw)
    have m: "unat ((word_of_nat i mod dim) * tuples) = i mod unat dim * unat tuples"
      using g assms(2) bwl by (subst unat_mult32) (simp_all add: q group_index_def)
    have a: "unat (word_of_nat blk * bw + word_of_nat i div dim) = unat bw * blk + i div unat dim"
      using g room assms(2) by (subst unat_add32) (simp_all add: q blk group_index_def)
    show "unat (word_of_nat blk * bw + word_of_nat i div dim + (word_of_nat i mod dim) * tuples) = unat bw * blk + group_index (unat dim) (unat tuples) i"
      using g room assms(2) by (subst unat_add32) (simp_all add: a m group_index_def)
  qed
  have "map (\<lambda>k. let i = word_of_nat k; plain = unat (word_of_nat blk * bw + i); grouped = unat (word_of_nat blk * bw + i div dim + (i mod dim) * tuples)
                  in if is_inv then (w * plain, w * grouped, w) else (w * grouped, w * plain, w)) (stride_from tid block_dim (unat (tuples * dim))) =
      map (\<lambda>i. if is_inv then (w * (unat bw * blk + i), w * (unat bw * blk + group_index (unat dim) (unat tuples) i), w)
              else (w * (unat bw * blk + group_index (unat dim) (unat tuples) i), w * (unat bw * blk + i), w)) (stride_from tid block_dim (unat tuples * unat dim))"
    unfolding size by (rule map_cong) (use assms(4) el in \<open>auto simp: set_stride_from Let_def\<close>)
  then have M: "map (\<lambda>k. if is_inv then (w * unat (word_of_nat blk * bw + word_of_nat k), w * unat (word_of_nat blk * bw + word_of_nat k div dim + (word_of_nat k mod dim) * tuples), w)
        else (w * unat (word_of_nat blk * bw + word_of_nat k div dim + (word_of_nat k mod dim) * tuples), w * unat (word_of_nat blk * bw + word_of_nat k), w))
        (stride_from tid block_dim (unat (tuples * dim))) =
      map (\<lambda>i. if is_inv then (w * (unat bw * blk + i), w * (unat bw * blk + group_index (unat dim) (unat tuples) i), w)
              else (w * (unat bw * blk + group_index (unat dim) (unat tuples) i), w * (unat bw * blk + i), w)) (stride_from tid block_dim (unat tuples * unat dim))"
    unfolding Let_def .
  have base: "w * unat (word_of_nat blk * bw) + unat (tuples * dim) * w = w * unat bw * blk + w * (unat tuples * unat dim)"
    unfolding blk size by (simp only: mult.assoc mult.commute [of _ w])
  have "0 < bw - tuples * dim \<longleftrightarrow> 0 < w * (unat bw - unat tuples * unat dim)"
    using assms(3) by (simp add: word_less_nat_alt extra)
  moreover have "stride_from tid block_dim 0 = []" by (simp add: stride_from.simps)
  ultimately have X: "(if 0 < bw - tuples * dim then map (\<lambda>e. (w * unat (word_of_nat blk * bw) + unat (tuples * dim) * w + e,
        w * unat (word_of_nat blk * bw) + unat (tuples * dim) * w + e, 1)) (stride_from tid block_dim (unat ((bw - tuples * dim) * word_of_nat w))) else []) =
      map (\<lambda>e. (w * unat bw * blk + (w * (unat tuples * unat dim) + e), w * unat bw * blk + (w * (unat tuples * unat dim) + e), 1))
       (stride_from tid block_dim (w * (unat bw - unat tuples * unat dim)))"
    unfolding base xb by (simp only: add.assoc) (cases "w * (unat bw - unat tuples * unat dim) = 0"; simp)
  show ?thesis unfolding tupl_thread_def plain_thread_def Let_def M X ..
qed

lemma kernel_pairs:
  fixes grid w bw tuples dim block_dim :: nat
  assumes "tuples * dim \<le> bw" "0 < w" "0 < block_dim"
  shows "byte_pairs (concat (map (\<lambda>(blk, tid). plain_thread is_inv w bw dim tuples block_dim blk tid) (List.product [0..<grid] [0..<block_dim]))) =
    (\<lambda>s. if is_inv then (s, regroup w bw dim tuples s) else (regroup w bw dim tuples s, s)) ` {..<grid * (w * bw)}"
    (is "byte_pairs ?cs = ?f ` _")
proof -
  have cover: "\<exists>tid<block_dim. j \<in> set (stride_from tid block_dim n)" if "j < n" for j n
    using stride_from_cover [OF assms(3), of n] that by (metis (no_types, lifting) UN_E atLeastLessThan_iff less_eq_nat.simps(1))
  have range: "j \<in> set (stride_from tid block_dim n) \<Longrightarrow> j < n" for j tid n using assms(3) by (simp add: set_stride_from)
  have in_block: "w * bw * blk + r < grid * (w * bw)" if "blk < grid" "r < w * bw" for blk r
  proof -
    have "w * bw * blk + r < w * bw * Suc blk" using that(2) by simp
    also have "\<dots> \<le> w * bw * grid" using that(1) by (intro mult_le_mono2) simp
    finally show ?thesis by (simp add: mult.commute)
  qed
  have elem: "((if is_inv then w * (bw * blk + i) else w * (bw * blk + group_index dim tuples i)) + k,
      (if is_inv then w * (bw * blk + group_index dim tuples i) else w * (bw * blk + i)) + k) = ?f (w * (bw * blk + i) + k)"
    if "i < tuples * dim" "k < w" for blk i k using regroup_element [OF that(1) assms(1) that(2), of blk] by simp
  have left: "(w * bw * blk + (w * (tuples * dim) + e), w * bw * blk + (w * (tuples * dim) + e)) = ?f (w * bw * blk + (w * (tuples * dim) + e))"
    if "e < w * (bw - tuples * dim)" for blk e
    using regroup_rest [of w tuples dim "w * (tuples * dim) + e" bw blk] that assms(1) by (simp add: diff_mult_distrib2)
  have member: "c \<in> set ?cs" if "blk < grid" "tid < block_dim" "c \<in> set (plain_thread is_inv w bw dim tuples block_dim blk tid)" for c blk tid
  proof -
    have "(blk, tid) \<in> set (List.product [0..<grid] [0..<block_dim])" using that(1,2) by simp
    then show ?thesis using that(3) unfolding set_concat set_map by force
  qed
  show ?thesis
  proof (intro equalityI subsetI)
    fix p assume "p \<in> byte_pairs ?cs"
    then obtain d s n k where c: "(d, s, n) \<in> set ?cs" "k < n" "p = (d + k, s + k)" unfolding byte_pairs_def by blast
    then obtain blk tid where t: "blk < grid" "(d, s, n) \<in> set (plain_thread is_inv w bw dim tuples block_dim blk tid)" by auto
    from t(2) consider (E) i where "i < tuples * dim" "n = w" "d = (if is_inv then w * (bw * blk + i) else w * (bw * blk + group_index dim tuples i))"
        "s = (if is_inv then w * (bw * blk + group_index dim tuples i) else w * (bw * blk + i))"
      | (R) e where "e < w * (bw - tuples * dim)" "n = 1" "d = w * bw * blk + (w * (tuples * dim) + e)" "s = d"
      unfolding plain_thread_def by (auto dest: range split: if_splits)
    then show "p \<in> ?f ` {..<grid * (w * bw)}"
    proof cases
      case E
      have "w * i + k < w * Suc i" using c(2) E(2) by simp
      also have "\<dots> \<le> w * bw" using E(1) assms(1) by (intro mult_le_mono2) simp
      finally have "w * bw * blk + (w * i + k) < grid * (w * bw)" by (rule in_block [OF t(1)])
      then have "w * (bw * blk + i) + k \<in> {..<grid * (w * bw)}" by (simp only: distrib_left mult.assoc add.assoc lessThan_iff)
      moreover have "p = ?f (w * (bw * blk + i) + k)" unfolding c(3) E(3,4) by (rule elem) (use c(2) E(1,2) in simp_all)
      ultimately show ?thesis by blast
    next
      case R
      have "w * (tuples * dim) + e < w * bw" using R(1) assms(1) by (simp add: diff_mult_distrib2)
      then have "w * bw * blk + (w * (tuples * dim) + e) \<in> {..<grid * (w * bw)}" using in_block [OF t(1)] by blast
      moreover have "p = ?f (w * bw * blk + (w * (tuples * dim) + e))" using c(2,3) R left [OF R(1)] by simp
      ultimately show ?thesis by blast
    qed
  next
    fix p assume "p \<in> ?f ` {..<grid * (w * bw)}"
    then obtain s where s: "s < grid * (w * bw)" "p = ?f s" by blast
    from s(1) assms(1,2) show "p \<in> byte_pairs ?cs"
    proof (cases rule: block_byte_cases)
      case (element blk i k)
      obtain tid where tid: "tid < block_dim" "i \<in> set (stride_from tid block_dim (tuples * dim))" using cover element(2) by blast
      have "((if is_inv then w * (bw * blk + i) else w * (bw * blk + group_index dim tuples i)),
          (if is_inv then w * (bw * blk + group_index dim tuples i) else w * (bw * blk + i)), w) \<in> set ?cs"
        by (rule member [OF element(1) tid(1)]) (use tid(2) in \<open>force simp: plain_thread_def\<close>)
      from byte_pairsI [OF this element(3)] show ?thesis unfolding elem [OF element(2,3)] element(4) [symmetric] s(2) .
    next
      case (rest blk e)
      obtain tid where tid: "tid < block_dim" "e \<in> set (stride_from tid block_dim (w * (bw - tuples * dim)))" using cover rest(2) by blast
      have "(w * bw * blk + (w * (tuples * dim) + e), w * bw * blk + (w * (tuples * dim) + e), 1) \<in> set ?cs"
        by (rule member [OF rest(1) tid(1)]) (use tid(2) in \<open>simp add: plain_thread_def image_iff\<close>)
      from byte_pairsI [OF this, of 0] have "(s, s) \<in> byte_pairs ?cs" unfolding rest(3) by simp
      moreover have "(s, s) = ?f s" using left [OF rest(2), of blk] unfolding rest(3) .
      ultimately show ?thesis unfolding s(2) by (rule back_subst [of "\<lambda>p. p \<in> byte_pairs ?cs"])
    qed
  qed
qed

subsection \<open>The stage regroups the bytes\<close>

definition tupl_block_words :: "tupl_stage \<Rightarrow> nat" where
  "tupl_block_words st = unat (tp_block_size st) div unat (tp_word_size st)"

definition tupl_tuples :: "tupl_stage \<Rightarrow> nat" where
  "tupl_tuples st = tupl_block_words st div unat (tp_dim st)"

definition tupl_position :: "tupl_stage \<Rightarrow> nat \<Rightarrow> nat \<Rightarrow> nat" where
  "tupl_position st n s =
     (if s < n div unat (tp_block_size st) * unat (tp_block_size st)
      then regroup (unat (tp_word_size st)) (tupl_block_words st) (unat (tp_dim st)) (tupl_tuples st) s else s)"

definition tupl_accepts :: "tupl_stage \<Rightarrow> u8 list \<Rightarrow> bool" where
  "tupl_accepts st bs \<longleftrightarrow> tupl_validateConfig st = Inr () \<and> \<not> tp_is_inverse st \<and> length bs < 2 ^ 31"

lemma tupl_config:
  assumes "tupl_validateConfig st = Inr ()"
  shows "0 < unat (tp_word_size st)" "0 < unat (tp_block_size st)" "unat (tp_word_size st) * tupl_block_words st = unat (tp_block_size st)"
    "tupl_tuples st * unat (tp_dim st) \<le> tupl_block_words st"
proof -
  have w: "tp_word_size st \<in> {1, 2, 4, 8}" and b: "tp_block_size st \<noteq> 0" "tp_block_size st mod ucast (tp_word_size st) = 0"
    using assms by (auto simp: tupl_validateConfig_def Let_def split: if_splits)
  show "0 < unat (tp_word_size st)" using w by auto
  show "0 < unat (tp_block_size st)" using b(1) by (simp add: unat_gt_0)
  have u: "unat (ucast (tp_word_size st) :: u32) = unat (tp_word_size st)" by (simp add: unat_up)
  have "unat (tp_block_size st) mod unat (tp_word_size st) = 0"
    using arg_cong [OF b(2), of unat] by (simp add: unat_mod u)
  then show "unat (tp_word_size st) * tupl_block_words st = unat (tp_block_size st)" by (simp add: tupl_block_words_def) (metis dvd_imp_mod_0 dvd_mult_div_cancel mod_eq_0_iff_dvd)
  show "tupl_tuples st * unat (tp_dim st) \<le> tupl_block_words st" unfolding tupl_tuples_def by simp
qed

lemma tupl_bytes_spec:
  assumes "tupl_validateConfig st = Inr ()" "run_env_ok e" "length bs < 2 ^ 31"
  shows "\<exists>c. tupl_bytes st e bs = Inr c \<and> length c = length bs \<and>
    (\<forall>s<length bs. if tp_is_inverse st then c ! s = bs ! tupl_position st (length bs) s else c ! tupl_position st (length bs) s = bs ! s)"
proof (cases "length bs = 0")
  case True
  then show ?thesis by (simp add: tupl_bytes_def tupl_execute_def)
next
  case False
  note C = tupl_config [OF assms(1)]
  let ?n = "length bs" and ?w = "unat (tp_word_size st)" and ?B = "unat (tp_block_size st)" and ?bw = "tupl_block_words st"
    and ?dim = "unat (tp_dim st)" and ?tup = "tupl_tuples st" and ?out = "re_stale e (length bs)"
  let ?full = "?n div ?B * ?B"
  define bw where "bw = (ucast (tp_block_size st div ucast (tp_word_size st)) :: u32)"
  define dim where "dim = (ucast (tp_dim st) :: u32)"
  define tup where "tup = bw div dim"
  note bw_tup_dim_def = bw_def dim_def tup_def
  define bd where "bd = unat (min (max (ucast tup * ucast (tp_dim st)) 32) (1024 :: size_t))"
  have u: "unat (ucast (tp_word_size st) :: u32) = ?w" "unat (ucast (tp_word_size st) :: size_t) = ?w" by (simp_all add: unat_up)
  have bwn: "unat bw = ?bw" "unat dim = ?dim" "unat tup = ?tup"
    by (simp_all add: bw_tup_dim_def tupl_block_words_def tupl_tuples_def unat_div u unat_up)
  have "(32 :: size_t) \<le> min (max (ucast tup * ucast (tp_dim st)) 32) 1024" by simp
  then have bd: "0 < bd" unfolding bd_def word_le_nat_alt by simp
  have n64: "unat (word_of_nat ?n :: size_t) = ?n" using assms(3) by (simp add: unat_of_nat)
  have bs64: "unat (ucast (tp_block_size st) :: size_t) = ?B" by (simp add: unat_up)
  let ?N = "word_of_nat ?n :: size_t" and ?BS = "ucast (tp_block_size st) :: size_t"
  have full_le: "?full \<le> ?n" by simp
  have q: "unat (?N div ?BS) = ?n div ?B" by (simp add: unat_div n64 bs64)
  have full: "unat (?N div ?BS * ?BS) = ?full"
  proof -
    have "unat (?N div ?BS) * unat ?BS < 2 ^ 64" unfolding q bs64 by (rule le_less_trans [OF full_le less_trans [OF assms(3)]]) simp
    from unat_mult64 [OF this] show ?thesis unfolding q bs64 .
  qed
  have tail: "unat (?N - ?N div ?BS * ?BS) = ?n - ?full" using full_le by (simp add: unat_sub word_le_nat_alt full n64)
  have g1: "(?N div ?BS * ?BS) div ?BS = ?N div ?BS" using C(2) by (simp only: word_unat_eq_iff unat_div [of "?N div ?BS * ?BS" ?BS] full bs64 q nonzero_mult_div_cancel_right less_not_refl3 not_False_eq_True)
  have gl: "?n div ?B < 2 ^ 31" using assms(3) div_le_dividend le_less_trans by blast
  have grid: "nat (sint (ucast (?N div ?BS * ?BS div ?BS) :: 32 word)) = ?n div ?B"
  proof -
    have e: "(ucast (?N div ?BS) :: u32) = word_of_nat (?n div ?B)" unfolding q [symmetric] by (rule of_nat_unat [symmetric])
    have "sint (word_of_nat (?n div ?B) :: u32) = int (?n div ?B)"
      using gl by (simp add: sint_uint uint_nat unat_of_nat signed_take_bit_int_eq_self)
    then show ?thesis unfolding g1 e by simp
  qed
  let ?cs = "concat (map (\<lambda>(blk, tid). plain_thread (tp_is_inverse st) ?w ?bw ?dim ?tup bd blk tid) (List.product [0..<?n div ?B] [0..<bd]))"
  define out1 where "out1 = run_ranges (re_sched e) ?cs bs ?out"
  have lr: "launchTupl (re_sched e) (tp_is_inverse st) ?w (?n div ?B) bd bw dim tup bs ?out = out1"
  proof -
    have "tupl_thread (tp_is_inverse st) ?w bw dim tup bd blk tid = plain_thread (tp_is_inverse st) ?w ?bw ?dim ?tup bd blk tid" if "blk < ?n div ?B" for blk tid
    proof -
      have "?w * (unat bw * Suc blk) = ?B * Suc blk" unfolding bwn using C(3) by (simp only: mult.assoc [symmetric])
      also have "\<dots> \<le> ?full" using that by (simp only: mult.commute [of _ ?B] mult_le_mono2 Suc_leI)
      finally have "?w * (unat bw * Suc blk) \<le> ?n" using full_le by linarith
      then have "?w * (unat bw * Suc blk) < 2 ^ 32" using assms(3) by simp
      then show ?thesis using tupl_thread_plain [of ?w bw blk tup dim bd "tp_is_inverse st" tid] C(1,4) bd by (simp add: bwn)
    qed
    then have "map (\<lambda>(blk, tid). tupl_thread (tp_is_inverse st) ?w bw dim tup bd blk tid) (List.product [0..<?n div ?B] [0..<bd]) =
      map (\<lambda>(blk, tid). plain_thread (tp_is_inverse st) ?w ?bw ?dim ?tup bd blk tid) (List.product [0..<?n div ?B] [0..<bd])"
      by (intro map_cong) auto
    then show ?thesis unfolding launchTupl_def out1_def by (simp only:)
  qed
  have ol: "length ?out = ?n" and sch: "sched_ok (re_sched e)" using assms(2) by (simp_all add: run_env_ok_def)
  have total: "?n div ?B * (?w * ?bw) = ?full" unfolding C(3) ..
  let ?rg = "regroup ?w ?bw ?dim ?tup"
  have pairs: "byte_pairs ?cs = (\<lambda>s. if tp_is_inverse st then (s, ?rg s) else (?rg s, s)) ` {..<?full}"
    using kernel_pairs [OF C(4,1) bd, of "tp_is_inverse st" "?n div ?B"] unfolding total .
  have rg: "?rg s < ?full" "regroup ?w ?bw ?tup ?dim (?rg s) = s" if "s < ?full" for s
    using regroup_inverse [of s "?n div ?B" ?w ?bw ?tup ?dim] that C(1,4) unfolding total by simp_all
  have sv: "single_valued (byte_pairs ?cs)"
    unfolding pairs by (rule single_valuedI) (use rg(2) in \<open>auto split: if_splits; metis\<close>)
  note R = run_ranges_spec [OF sch sv, where inp = bs and out = ?out, folded out1_def, unfolded ol]
  define c where "c = (if 0 < ?N - ?N div ?BS * ?BS then copy_bytes ?full ?full (?n - ?full) bs out1 else out1)"
  have lc: "length c = ?n" by (simp add: c_def copy_bytes_nth(1) R(1))
  have ct: "c ! j = bs ! j" if "?full \<le> j" "j < ?n" for j
  proof -
    have "0 < ?N - ?N div ?BS * ?BS" using that by (simp add: word_less_nat_alt tail)
    then show ?thesis using that R(1) by (simp add: c_def copy_bytes_nth(2))
  qed
  have cf: "c ! j = out1 ! j" if "j < ?full" for j
    using that less_le_trans [OF that full_le] R(1) by (simp add: c_def copy_bytes_nth(2))
  have z: "out1 = ?out" if "\<not> 0 < ?n div ?B"
    using that sched_set [OF sch, of "[]"] by (simp add: out1_def run_ranges_def run_puts_def)
  have N0: "?N \<noteq> 0" using n64 False by (metis unat_0)
  have "tupl_execute (re_sched e) False [bs] [?out] [?N] st = Inr ([c], st\<lparr>tp_actual_output_size := ?N\<rparr>)"
    unfolding tupl_execute_def Let_def nth_Cons_0 bw_def [symmetric] dim_def [symmetric] tup_def [symmetric] bd_def [symmetric] grid full tail lr c_def
    using assms(1) N0 z by simp
  then have run: "tupl_bytes st e bs = Inr c" unfolding tupl_bytes_def using n64 lc by simp
  have "if tp_is_inverse st then c ! s = bs ! tupl_position st ?n s else c ! tupl_position st ?n s = bs ! s" if s: "s < ?n" for s
  proof (cases "s < ?full")
    case True
    have p: "(if tp_is_inverse st then (s, ?rg s) else (?rg s, s)) \<in> byte_pairs ?cs" unfolding pairs using True by blast
    have r: "?rg s < ?n" "?rg s < ?full" using rg(1) [OF True] full_le by linarith+
    then show ?thesis using R(2) p s True cf by (auto simp: tupl_position_def split: if_splits)
  next
    case False
    then show ?thesis using ct [of s] s by (simp add: tupl_position_def)
  qed
  with run lc show ?thesis by blast
qed

lemma tupl_header_roundtrip:
  "tupl_deserializeHeader (tupl_serializeHeader 6 st) st' = st'\<lparr>tp_block_size := tp_block_size st, tp_word_size := tp_word_size st, tp_dim := tp_dim st\<rparr>"
proof -
  have "length (le_bytes 4 (unat (tp_block_size st))) = 4" by simp
  then show ?thesis by (simp add: tupl_deserializeHeader_def tupl_serializeHeader_def Let_def nth_append le_val_le_bytes_word)
qed

lemma tupl_same_config:
  assumes "tp_block_size st' = tp_block_size st" "tp_word_size st' = tp_word_size st" "tp_dim st' = tp_dim st"
  shows "tupl_validateConfig st' = tupl_validateConfig st" "tupl_block_words st' = tupl_block_words st"
    "tupl_tuples st' = tupl_tuples st" "tupl_position st' = tupl_position st"
  unfolding tupl_validateConfig_def tupl_block_words_def tupl_tuples_def tupl_position_def fun_eq_iff by (simp_all only: assms) simp_all

lemma tupl_inverts:
  assumes "tupl_accepts st bs" "run_env_ok e" "run_env_ok e'"
    and "tp_is_inverse st'" "tp_block_size st' = tp_block_size st" "tp_word_size st' = tp_word_size st" "tp_dim st' = tp_dim st"
  shows "\<exists>c. tupl_bytes st e bs = Inr c \<and> length c = length bs \<and> (\<forall>s<length bs. c ! tupl_position st (length bs) s = bs ! s) \<and>
    tupl_bytes st' e' c = Inr bs"
proof -
  note same = tupl_same_config [OF assms(5-7)]
  from assms(1) have acc: "tupl_validateConfig st = Inr ()" "\<not> tp_is_inverse st" "length bs < 2 ^ 31" by (simp_all add: tupl_accepts_def)
  obtain c where c: "tupl_bytes st e bs = Inr c" "length c = length bs" "\<forall>s<length bs. c ! tupl_position st (length bs) s = bs ! s"
    using tupl_bytes_spec [OF acc(1) assms(2) acc(3)] acc(2) by auto
  obtain d where d: "tupl_bytes st' e' c = Inr d" "length d = length bs" "\<forall>s<length bs. d ! s = c ! tupl_position st (length bs) s"
    using tupl_bytes_spec [of st' e' c] acc(1,3) assms(3,4) unfolding same c(2) by auto
  have "d = bs" by (rule nth_equalityI) (use c(3) d in simp_all)
  with c d(1) show ?thesis by blast
qed

text \<open>Element \<open>f\<close> of tuple \<open>t\<close> of a full block.\<close>

lemma tupl_position_field:
  assumes "tupl_validateConfig st = Inr ()" "blk < n div unat (tp_block_size st)" "t < tupl_tuples st" "f < unat (tp_dim st)" "k < unat (tp_word_size st)"
  shows "unat (tp_block_size st) * blk + unat (tp_word_size st) * (t * unat (tp_dim st) + f) + k < n"
    "tupl_position st n (unat (tp_block_size st) * blk + unat (tp_word_size st) * (t * unat (tp_dim st) + f) + k) =
     unat (tp_block_size st) * blk + unat (tp_word_size st) * (f * tupl_tuples st + t) + k"
proof -
  note C = tupl_config [OF assms(1)]
  let ?w = "unat (tp_word_size st)" and ?B = "unat (tp_block_size st)" and ?bw = "tupl_block_words st"
    and ?dim = "unat (tp_dim st)" and ?tup = "tupl_tuples st"
  let ?i = "t * ?dim + f" and ?s = "?B * blk + ?w * (t * ?dim + f) + k"
  have i: "?i < ?tup * ?dim"
  proof -
    have "?i < Suc t * ?dim" using assms(4) by simp
    also have "\<dots> \<le> ?tup * ?dim" using assms(3) by (intro mult_le_mono1) simp
    finally show ?thesis .
  qed
  have g: "group_index ?dim ?tup ?i = f * ?tup + t" using assms(4) by (simp add: group_index_def add.commute)
  have s: "?s = ?w * (?bw * blk + ?i) + k" by (simp add: C(3) [symmetric] algebra_simps)
  have "?w * ?i + k < ?w * Suc ?i" using assms(5) by simp
  also have "\<dots> \<le> ?w * ?bw" using i C(4) by (intro mult_le_mono2) simp
  finally have "?w * ?i + k < ?B" unfolding C(3) .
  then have "?s < ?B * Suc blk" by simp
  also have "\<dots> \<le> ?B * (n div ?B)" using assms(2) by (intro mult_le_mono2) simp
  finally have lt: "?s < n div ?B * ?B" by (simp only: mult.commute)
  then show "?s < n" by (rule less_le_trans) simp
  show "tupl_position st n ?s = ?B * blk + ?w * (f * ?tup + t) + k"
    unfolding tupl_position_def if_P [OF lt] unfolding s regroup_element [OF i C(4) assms(5)] g
    by (simp add: C(3) [symmetric] algebra_simps)
qed

interpretation tupl: lossless_stage "tupl_bytes st" "tupl_bytes (st\<lparr>tp_is_inverse := True\<rparr>)" "tupl_accepts st" for st
  by unfold_locales (use tupl_inverts [where st' = "st\<lparr>tp_is_inverse := True\<rparr>"] in fastforce)

text \<open>
  C40. The tuple transposition is lossless and does what its documentation says.  For every accepted configuration
  (word size 1, 2, 4 or 8, at least two fields, a block of whole words), every input below 2 GB and every order in which
  the two devices run their threads, the forward stage returns as many bytes as it read; in every full block, byte \<open>k\<close> of
  field \<open>f\<close> of tuple \<open>t\<close> lands among the bytes of field \<open>f\<close>, at place \<open>t\<close>; the tail after the last full block is copied;
  and a fresh inverse stage configured from the serialized header restores the input.
\<close>

theorem tupl_lossless:
  assumes "tupl_accepts st bs" "run_env_ok e" "run_env_ok e'"
  shows "\<exists>c. tupl_bytes st e bs = Inr c \<and> length c = length bs \<and>
    (\<forall>blk t f k. blk < length bs div unat (tp_block_size st) \<and> t < tupl_tuples st \<and> f < unat (tp_dim st) \<and> k < unat (tp_word_size st) \<longrightarrow>
       c ! (unat (tp_block_size st) * blk + unat (tp_word_size st) * (f * tupl_tuples st + t) + k) =
       bs ! (unat (tp_block_size st) * blk + unat (tp_word_size st) * (t * unat (tp_dim st) + f) + k)) \<and>
    (\<forall>s. length bs div unat (tp_block_size st) * unat (tp_block_size st) \<le> s \<and> s < length bs \<longrightarrow> c ! s = bs ! s) \<and>
    tupl_bytes (tupl_deserializeHeader (tupl_serializeHeader 6 st) (new_tupl\<lparr>tp_is_inverse := True\<rparr>)) e' c = Inr bs"
proof -
  from assms(1) have v: "tupl_validateConfig st = Inr ()" by (simp add: tupl_accepts_def)
  obtain c where c: "tupl_bytes st e bs = Inr c" "length c = length bs" "\<And>s. s < length bs \<Longrightarrow> c ! tupl_position st (length bs) s = bs ! s"
    "tupl_bytes (tupl_deserializeHeader (tupl_serializeHeader 6 st) (new_tupl\<lparr>tp_is_inverse := True\<rparr>)) e' c = Inr bs"
    using tupl_inverts [OF assms, of "tupl_deserializeHeader (tupl_serializeHeader 6 st) (new_tupl\<lparr>tp_is_inverse := True\<rparr>)"]
    unfolding tupl_header_roundtrip by auto
  have "c ! (unat (tp_block_size st) * blk + unat (tp_word_size st) * (f * tupl_tuples st + t) + k) =
      bs ! (unat (tp_block_size st) * blk + unat (tp_word_size st) * (t * unat (tp_dim st) + f) + k)"
    if "blk < length bs div unat (tp_block_size st)" "t < tupl_tuples st" "f < unat (tp_dim st)" "k < unat (tp_word_size st)" for blk t f k
    using c(3) [OF tupl_position_field(1) [OF v that]] unfolding tupl_position_field(2) [OF v that] .
  moreover have "c ! s = bs ! s" if "length bs div unat (tp_block_size st) * unat (tp_block_size st) \<le> s" "s < length bs" for s
    using c(3) [OF that(2)] that(1) by (simp add: tupl_position_def)
  ultimately show ?thesis using c by blast
qed

theorem tupl_lossless_witness:
  "\<exists>c. tupl_bytes (new_tupl\<lparr>tp_block_size := 6\<rparr>) \<lparr>re_sched = rev, re_stale = (\<lambda>n. replicate n 7)\<rparr> [10, 11, 20, 21, 30, 31, 40, 41] = Inr c \<and>
    length c = 8 \<and> c ! 1 = 20 \<and> c ! 3 = 11 \<and> c ! 7 = 41 \<and>
    tupl_bytes (new_tupl\<lparr>tp_block_size := 6, tp_is_inverse := True\<rparr>) \<lparr>re_sched = id, re_stale = (\<lambda>n. replicate n 0)\<rparr> c = Inr [10, 11, 20, 21, 30, 31, 40, 41]"
proof -
  let ?st = "new_tupl\<lparr>tp_block_size := 6\<rparr>" and ?bs = "[10, 11, 20, 21, 30, 31, 40, 41] :: u8 list"
  have cfg: "unat (tp_block_size ?st) = 6" "unat (tp_word_size ?st) = 1" "unat (tp_dim ?st) = 2" "tupl_tuples ?st = 3"
    by (simp_all add: new_tupl_def tupl_tuples_def tupl_block_words_def)
  have ok: "tupl_accepts ?st ?bs" by (simp add: tupl_accepts_def tupl_validateConfig_def new_tupl_def)
  have e: "run_env_ok \<lparr>re_sched = rev, re_stale = (\<lambda>n. replicate n 7)\<rparr>" "run_env_ok \<lparr>re_sched = id, re_stale = (\<lambda>n. replicate n 0)\<rparr>"
    by (simp_all add: run_env_ok_def sched_ok_def)
  have st': "tupl_deserializeHeader (tupl_serializeHeader 6 ?st) (new_tupl\<lparr>tp_is_inverse := True\<rparr>) = new_tupl\<lparr>tp_block_size := 6, tp_is_inverse := True\<rparr>"
    unfolding tupl_header_roundtrip by (simp add: new_tupl_def)
  obtain c where c: "tupl_bytes ?st \<lparr>re_sched = rev, re_stale = (\<lambda>n. replicate n 7)\<rparr> ?bs = Inr c" "length c = length ?bs"
    "\<And>blk t f k. blk < length ?bs div 6 \<and> t < 3 \<and> f < 2 \<and> k < 1 \<Longrightarrow> c ! (6 * blk + 1 * (f * 3 + t) + k) = ?bs ! (6 * blk + 1 * (t * 2 + f) + k)"
    "\<And>s. length ?bs div 6 * 6 \<le> s \<and> s < length ?bs \<Longrightarrow> c ! s = ?bs ! s"
    "tupl_bytes (new_tupl\<lparr>tp_block_size := 6, tp_is_inverse := True\<rparr>) \<lparr>re_sched = id, re_stale = (\<lambda>n. replicate n 0)\<rparr> c = Inr ?bs"
    using tupl_lossless [OF ok e] unfolding cfg st' by blast
  then show ?thesis using c(3) [of 0 1 0 0] c(3) [of 0 0 1 0] c(4) [of 7] by (intro exI [of _ c]) simp
qed

end
