(* ===== verification/Rle.thy ===== *)
theory Rle
  imports Transforms Byte_Writes
begin

section \<open>The run-length stage\<close>

text \<open>
  \<open>modules/coders/rle\<close>: the five kernels of the whole-array path, the chunked path, the decoders, the deferred size
  readbacks and the configuration header of \<open>RLEStage\<close>.  The scans of the CUB library are parameters.  Kernels that write at computed
  places are the list of their threads' writes; the persistent scratch arrays live in the stage.
\<close>

subsection \<open>The library scans\<close>

record cub_lib =
  cub_inclusive :: "u32 list \<Rightarrow> u32 list"
  cub_exclusive :: "u32 list \<Rightarrow> u32 list"
  cub_block :: "u32 list \<Rightarrow> u32 list \<times> u32"

text \<open>What their documentation says: prefix sums, and with the block scan the total.\<close>

definition cub_ok :: "cub_lib \<Rightarrow> bool" where
  "cub_ok cub \<longleftrightarrow> (\<forall>xs. cub_inclusive cub xs = map (\<lambda>i. sum_list (take (Suc i) xs)) [0..<length xs] \<and>
     cub_exclusive cub xs = map (\<lambda>i. sum_list (take i xs)) [0..<length xs] \<and>
     cub_block cub xs = (map (\<lambda>i. sum_list (take i xs)) [0..<length xs], sum_list xs))"

subsection \<open>Sizes\<close>

definition rleValuesOffset :: "'a::len itself \<Rightarrow> nat" where
  "rleValuesOffset t = (if 4 < elem_size t then elem_size t else 4)"

definition rleChunkedValuesOffset :: "'a::len itself \<Rightarrow> size_t \<Rightarrow> size_t" where
  "rleChunkedValuesOffset t num_chunks =
     (let hdr = (num_chunks + 2) * 4; al = word_of_nat (elem_size t) in
      if 4 < elem_size t then (hdr + al - 1) AND NOT (al - 1) else hdr)"

subsection \<open>The stage\<close>

record 'b rle_stage =
  rl_is_inverse :: bool
  rl_chunk_size :: u32
  rl_cached_num_elements :: u32
  rl_is_boundary :: "u8 list"
  rl_boundary_scan :: "u32 list"
  rl_boundary_positions :: "u32 list"
  rl_values_scratch :: "'b list"
  rl_lengths_scratch :: "u32 list"
  rl_fwd_scratch_n :: size_t
  rl_h_num_runs :: u32
  rl_fwd_sync_pending :: bool
  rl_actual_output_sizes :: "size_t list"
  rl_h_dec_total_size :: u32
  rl_dec_sync_pending :: bool

definition new_rle :: "'a::len word rle_stage" where
  "new_rle = \<lparr>rl_is_inverse = False, rl_chunk_size = 0, rl_cached_num_elements = 0, rl_is_boundary = [], rl_boundary_scan = [],
     rl_boundary_positions = [], rl_values_scratch = [], rl_lengths_scratch = [], rl_fwd_scratch_n = 0, rl_h_num_runs = 0,
     rl_fwd_sync_pending = False, rl_actual_output_sizes = [], rl_h_dec_total_size = 0, rl_dec_sync_pending = False\<rparr>"

definition rle_setChunkSize :: "size_t \<Rightarrow> 'a::len word rle_stage \<Rightarrow> 'a word rle_stage" where
  "rle_setChunkSize bytes st = st\<lparr>rl_chunk_size := ucast (bytes - bytes mod word_of_nat (elem_size TYPE('a)))\<rparr>"

definition isChunked :: "'a::len word rle_stage \<Rightarrow> bool" where
  "isChunked st \<longleftrightarrow> elem_size TYPE('a) \<le> unat (rl_chunk_size st)"

definition rle_getRequiredInputAlignment :: "'a::len word rle_stage \<Rightarrow> size_t" where
  "rle_getRequiredInputAlignment st = (if isChunked st then ucast (rl_chunk_size st) else 1)"

definition elemsPerChunk :: "'a::len word rle_stage \<Rightarrow> u32" where
  "elemsPerChunk st = ucast (ucast (rl_chunk_size st) div word_of_nat (elem_size TYPE('a)) :: size_t)"

definition numChunks :: "'a::len word rle_stage \<Rightarrow> size_t \<Rightarrow> size_t" where
  "numChunks st in_bytes =
     (let epc = ucast (elemsPerChunk st); n = in_bytes div word_of_nat (elem_size TYPE('a)) in
      if epc \<noteq> 0 then (n + epc - 1) div epc else 0)"

definition rle_estimateScratchBytes :: "size_t \<Rightarrow> 'a::len word rle_stage \<Rightarrow> size_t" where
  "rle_estimateScratchBytes in_bytes st =
     (if rl_is_inverse st then 0
      else in_bytes div word_of_nat (elem_size TYPE('a)) * (1 + 4 + 4 + word_of_nat (elem_size TYPE('a)) + 4))"

text \<open>The mask \<open>~3u\<close> has 32 bits and is widened with zeros.\<close>

definition rle_estimateOutputSize :: "size_t \<Rightarrow> 'a::len word rle_stage \<Rightarrow> size_t" where
  "rle_estimateOutputSize in_bytes st =
     (let k = word_of_nat (elem_size TYPE('a)) in
      if rl_is_inverse st then
        if 0 < rl_cached_num_elements st then ucast (rl_cached_num_elements st) * k else in_bytes * 2
      else let n = in_bytes div k; values_bytes = n * k; values_aligned = (values_bytes + 3) AND ucast (NOT 3 :: u32) in
        if isChunked st then rleChunkedValuesOffset TYPE('a) (numChunks st in_bytes) + values_aligned + n * 4
        else word_of_nat (rleValuesOffset TYPE('a)) + values_aligned + n * 4)"

text \<open>The readbacks the size getters and \<open>postStreamSync\<close> wait for.\<close>

definition completePendingDecodeSync :: "'a::len word rle_stage \<Rightarrow> 'a word rle_stage" where
  "completePendingDecodeSync st =
     (if \<not> rl_dec_sync_pending st then st
      else st\<lparr>rl_actual_output_sizes := [ucast (rl_h_dec_total_size st) * word_of_nat (elem_size TYPE('a))], rl_dec_sync_pending := False\<rparr>)"

definition completePendingSync :: "'a::len word rle_stage \<Rightarrow> 'a word rle_stage" where
  "completePendingSync st =
     (if \<not> rl_fwd_sync_pending st then st
      else let k = word_of_nat (elem_size TYPE('a)); num_runs = ucast (rl_h_num_runs st) :: size_t; values_bytes = num_runs * k;
               values_aligned = (values_bytes + 3) AND NOT 3;
               values_offset = (if isChunked st then rleChunkedValuesOffset TYPE('a) (numChunks st (ucast (rl_cached_num_elements st) * k))
                                else word_of_nat (rleValuesOffset TYPE('a)))
           in st\<lparr>rl_actual_output_sizes := [values_offset + values_aligned + num_runs * 4], rl_fwd_sync_pending := False\<rparr>)"

definition rle_postStreamSync :: "'a::len word rle_stage \<Rightarrow> 'a word rle_stage" where
  "rle_postStreamSync st = completePendingDecodeSync (completePendingSync st)"

definition rle_getActualOutputSize :: "int \<Rightarrow> 'a::len word rle_stage \<Rightarrow> size_t \<times> 'a word rle_stage" where
  "rle_getActualOutputSize index st =
     (let st1 = completePendingDecodeSync (completePendingSync st) in
      (if index = 0 \<and> rl_actual_output_sizes st1 \<noteq> [] then rl_actual_output_sizes st1 ! 0 else 0, st1))"

subsection \<open>The whole-array kernels\<close>

text \<open>All threads of a grid of 256-thread blocks over \<open>n\<close> elements.\<close>

definition rle_threads :: "nat \<Rightarrow> nat list" where
  "rle_threads n = [0..<grid32 n 256 * 256]"

definition rle_mark_boundaries :: "(nat list \<Rightarrow> nat list) \<Rightarrow> nat \<Rightarrow> 'a::len word list \<Rightarrow> u8 list \<Rightarrow> u8 list" where
  "rle_mark_boundaries sched n inp =
     elem_kernel (sched (rle_threads n)) n (\<lambda>idx. if idx = 0 \<or> inp ! idx \<noteq> inp ! (idx - 1) then 1 else 0)"

definition scatter_boundary_positions :: "(nat list \<Rightarrow> nat list) \<Rightarrow> nat \<Rightarrow> u8 list \<Rightarrow> u32 list \<Rightarrow> u32 list \<Rightarrow> u32 list" where
  "scatter_boundary_positions sched n bnd scan =
     run_puts sched (map (\<lambda>idx. (unat (scan ! idx - 1), if idx < n \<and> bnd ! idx \<noteq> 0 then [word_of_nat idx] else [])) (rle_threads n))"

definition rle_extract_values :: "(nat list \<Rightarrow> nat list) \<Rightarrow> nat \<Rightarrow> 'a::len word list \<Rightarrow> u32 list \<Rightarrow> u32 \<Rightarrow> 'a word list \<Rightarrow> 'a word list" where
  "rle_extract_values sched n inp pos num_runs =
     elem_kernel (sched (rle_threads n)) (unat num_runs) (\<lambda>run_id. inp ! unat (pos ! run_id))"

definition rle_extract_lengths :: "(nat list \<Rightarrow> nat list) \<Rightarrow> nat \<Rightarrow> u32 list \<Rightarrow> u32 \<Rightarrow> u32 list \<Rightarrow> u32 list" where
  "rle_extract_lengths sched n pos num_runs =
     elem_kernel (sched (rle_threads n)) (unat num_runs)
       (\<lambda>run_id. (if run_id + 1 < unat num_runs then pos ! (run_id + 1) else word_of_nat n) - pos ! run_id)"

definition rle_pack_thread :: "'a::len word list \<Rightarrow> u32 list \<Rightarrow> u32 \<Rightarrow> nat \<Rightarrow> (nat \<times> u8 list) list" where
  "rle_pack_thread values lens num_runs i =
     (let k = elem_size TYPE('a); values_offset = rleValuesOffset TYPE('a); values_bytes = num_runs * word_of_nat k;
          values_aligned = (values_bytes + 3) AND NOT 3
      in (if i = 0 then [(0, le_bytes 4 (unat num_runs)), (4, replicate (values_offset - 4) 0),
                         (values_offset + unat values_bytes, replicate (unat (values_aligned - values_bytes)) 0)] else []) @
         (if i < unat num_runs then [(values_offset + k * i, le_bytes k (unat (values ! i))),
                                     (values_offset + unat values_aligned + 4 * i, le_bytes 4 (unat (lens ! i)))] else []))"

definition rle_pack :: "(nat list \<Rightarrow> nat list) \<Rightarrow> nat \<Rightarrow> 'a::len word list \<Rightarrow> u32 list \<Rightarrow> u32 \<Rightarrow> u8 list \<Rightarrow> u8 list" where
  "rle_pack sched n values lens num_runs = run_puts sched (concat (map (rle_pack_thread values lens num_runs) (rle_threads n)))"

definition rle_decompress :: "(nat list \<Rightarrow> nat list) \<Rightarrow> 'a::len word list \<Rightarrow> u32 list \<Rightarrow> u32 \<Rightarrow> 'a word list \<Rightarrow> 'a word list" where
  "rle_decompress sched values offs num_runs =
     run_puts sched (map (\<lambda>run_idx.
       if run_idx < unat num_runs then
         let start = (if run_idx = 0 then 0 else unat (offs ! (run_idx - 1))); e = unat (offs ! run_idx)
         in (start, replicate (e - start) (values ! run_idx))
       else (0, [])) (rle_threads (unat num_runs)))"

subsection \<open>The chunked kernels\<close>

text \<open>
  One block of 256 threads per chunk; between its barriers the threads of a block run in any order, and the blocks of a
  grid do.  A block of the encoder carries the run count of the tiles done.
\<close>

definition rle_encode_tile :: "cub_lib \<Rightarrow> (nat list \<Rightarrow> nat list) \<Rightarrow> 'a::len word list \<Rightarrow> nat \<Rightarrow> nat \<Rightarrow> nat
   \<Rightarrow> 'a word list \<times> u32 list \<times> u32 \<Rightarrow> 'a word list \<times> u32 list \<times> u32" where
  "rle_encode_tile cub sched inp start len tile s =
     (case s of (values, starts, run_base) \<Rightarrow>
      let flag = map (\<lambda>t. let i = tile + t in if i < len \<and> (i = 0 \<or> inp ! (start + i) \<noteq> inp ! (start + i - 1)) then 1 else 0) [0..<256];
          pos = fst (cub_block cub flag); tile_runs = snd (cub_block cub flag);
          at = (\<lambda>t. start + unat (run_base + pos ! t))
      in (run_puts sched (map (\<lambda>t. (at t, if flag ! t \<noteq> 0 then [inp ! (start + (tile + t))] else [])) [0..<256]) values,
          run_puts sched (map (\<lambda>t. (at t, if flag ! t \<noteq> 0 then [word_of_nat (tile + t)] else [])) [0..<256]) starts,
          run_base + tile_runs))"

definition rle_chunk_len :: "nat \<Rightarrow> nat \<Rightarrow> nat \<Rightarrow> nat" where
  "rle_chunk_len n epc c = (let start = c * epc; avail = n - start in if avail < epc then avail else epc)"

definition rle_chunk_encode_block :: "cub_lib \<Rightarrow> (nat list \<Rightarrow> nat list) \<Rightarrow> 'a::len word list \<Rightarrow> nat \<Rightarrow> nat \<Rightarrow> nat
   \<Rightarrow> 'a word list \<times> u32 list \<times> u32 list \<times> u32 list \<Rightarrow> 'a word list \<times> u32 list \<times> u32 list \<times> u32 list" where
  "rle_chunk_encode_block cub sched inp n epc c s =
     (case s of (values, lens, starts, runs_per_chunk) \<Rightarrow>
      let start = c * epc; len = rle_chunk_len n epc c in
      if n \<le> start then s
      else case fold (rle_encode_tile cub sched inp start len) (stride_from 0 256 len) (values, starts, 0) of
        (values', starts', runs) \<Rightarrow>
          (values',
           run_puts sched (map (\<lambda>r. (start + r, [(if r + 1 < unat runs then starts' ! (start + r + 1) else word_of_nat len) - starts' ! (start + r)]))
             (concat (map (\<lambda>tid. stride_from tid 256 (unat runs)) [0..<256]))) lens,
           starts', runs_per_chunk[c := runs]))"

definition rle_chunk_encode :: "cub_lib \<Rightarrow> (nat list \<Rightarrow> nat list) \<Rightarrow> 'a::len word list \<Rightarrow> nat \<Rightarrow> nat \<Rightarrow> nat
   \<Rightarrow> 'a word list \<times> u32 list \<times> u32 list \<times> u32 list \<Rightarrow> 'a word list \<times> u32 list \<times> u32 list \<times> u32 list" where
  "rle_chunk_encode cub sched inp n epc nc = fold (rle_chunk_encode_block cub sched inp n epc) (sched [0..<nc])"

definition u32_at :: "u8 list \<Rightarrow> nat \<Rightarrow> u32" where
  "u32_at bs i = word_of_nat (le_val (take 4 (drop (4 * i) bs)))"

definition rle_chunk_finalize_offsets :: "u32 list \<Rightarrow> nat \<Rightarrow> u8 list \<Rightarrow> u8 list" where
  "rle_chunk_finalize_offsets runs_per_chunk num_chunks out =
     (let out1 = put_at 0 (le_bytes 4 num_chunks) out
      in put_at (4 * (1 + num_chunks)) (le_bytes 4 (unat (u32_at out1 num_chunks + runs_per_chunk ! (num_chunks - 1)))) out1)"

definition rle_chunk_compact_block :: "'a::len word list \<Rightarrow> u32 list \<Rightarrow> u8 list \<Rightarrow> nat \<Rightarrow> nat \<Rightarrow> nat \<Rightarrow> nat \<Rightarrow> (nat \<times> u8 list) list" where
  "rle_chunk_compact_block values lens out epc num_chunks values_offset c =
     (let k = elem_size TYPE('a); total_runs = u32_at out (1 + num_chunks); values_bytes = total_runs * word_of_nat k;
          values_aligned = (values_bytes + 3) AND NOT 3; dst = u32_at out (1 + c); runs = u32_at out (1 + (c + 1)) - dst; src = c * epc
      in (if c = 0 then [(4 * (num_chunks + 2), replicate (values_offset - 4 * (num_chunks + 2)) 0),
                         (values_offset + unat values_bytes, replicate (unat (values_aligned - values_bytes)) 0)] else []) @
         concat (map (\<lambda>r. [(values_offset + k * (unat dst + r), le_bytes k (unat (values ! (src + r)))),
                           (values_offset + unat values_aligned + 4 * (unat dst + r), le_bytes 4 (unat (lens ! (src + r))))])
           (concat (map (\<lambda>tid. stride_from tid 256 (unat runs)) [0..<256]))))"

definition rle_chunk_compact :: "(nat list \<Rightarrow> nat list) \<Rightarrow> 'a::len word list \<Rightarrow> u32 list \<Rightarrow> nat \<Rightarrow> nat \<Rightarrow> nat \<Rightarrow> u8 list \<Rightarrow> u8 list" where
  "rle_chunk_compact sched values lens epc num_chunks values_offset out =
     run_puts sched (concat (map (rle_chunk_compact_block values lens out epc num_chunks values_offset) [0..<num_chunks])) out"

definition rle_decode_tile :: "cub_lib \<Rightarrow> (nat list \<Rightarrow> nat list) \<Rightarrow> 'a::len word list \<Rightarrow> u32 list \<Rightarrow> nat \<Rightarrow> nat \<Rightarrow> nat \<Rightarrow> nat \<Rightarrow> nat
   \<Rightarrow> 'a word list \<times> u32 \<Rightarrow> 'a word list \<times> u32" where
  "rle_decode_tile cub sched values lens base runs start len tile s =
     (case s of (output, out_base) \<Rightarrow>
      let run_len = map (\<lambda>t. if tile + t < runs then lens ! (base + (tile + t)) else 0) [0..<256];
          pos = fst (cub_block cub run_len); tile_total = snd (cub_block cub run_len)
      in (run_puts sched (map (\<lambda>t. let r = tile + t; p = unat (out_base + pos ! t) in
            (start + p, if r < runs then replicate (min (unat (run_len ! t)) (len - p)) (values ! (base + r)) else [])) [0..<256]) output,
          out_base + tile_total))"

definition rle_chunk_decode_block :: "cub_lib \<Rightarrow> (nat list \<Rightarrow> nat list) \<Rightarrow> u8 list \<Rightarrow> nat \<Rightarrow> nat \<Rightarrow> nat \<Rightarrow> nat \<Rightarrow> nat
   \<Rightarrow> 'a::len word list \<Rightarrow> 'a word list" where
  "rle_chunk_decode_block cub sched inp n epc num_chunks values_offset c output =
     (let total_runs = u32_at inp (1 + num_chunks); values_bytes = total_runs * word_of_nat (elem_size TYPE('a));
          values_aligned = (values_bytes + 3) AND NOT 3;
          values = words_of TYPE('a) (unat total_runs) (drop values_offset inp);
          lens = words_of TYPE(32) (unat total_runs) (drop (values_offset + unat values_aligned) inp);
          start = c * epc; len = rle_chunk_len n epc c; base = u32_at inp (1 + c); runs = unat (u32_at inp (1 + (c + 1)) - base)
      in fst (fold (rle_decode_tile cub sched values lens (unat base) runs start len) (stride_from 0 256 runs) (output, 0)))"

definition rle_chunk_decode :: "cub_lib \<Rightarrow> (nat list \<Rightarrow> nat list) \<Rightarrow> u8 list \<Rightarrow> nat \<Rightarrow> nat \<Rightarrow> nat \<Rightarrow> nat \<Rightarrow> 'a::len word list \<Rightarrow> 'a word list" where
  "rle_chunk_decode cub sched inp n epc num_chunks values_offset =
     fold (rle_chunk_decode_block cub sched inp n epc num_chunks values_offset) (sched [0..<num_chunks])"

subsection \<open>Execution\<close>

text \<open>Scratch grows with the largest input seen; \<open>stale n\<close> is what new memory of \<open>n\<close> bytes holds.\<close>

definition rle_grow_scratch :: "(nat \<Rightarrow> u8 list) \<Rightarrow> nat \<Rightarrow> 'a::len word rle_stage \<Rightarrow> 'a word rle_stage" where
  "rle_grow_scratch stale n st =
     (if unat (rl_fwd_scratch_n st) < n then
        st\<lparr>rl_is_boundary := stale n, rl_boundary_scan := words_of TYPE(32) n (stale (n * 4)),
           rl_boundary_positions := words_of TYPE(32) n (stale (n * 4)),
           rl_values_scratch := words_of TYPE('a) n (stale (n * elem_size TYPE('a))),
           rl_lengths_scratch := words_of TYPE(32) n (stale (n * 4)), rl_fwd_scratch_n := word_of_nat n\<rparr>
      else st)"

text \<open>\<open>execute\<close> in the forward direction, whole array: five phases over the scratch arrays.\<close>

definition rle_encode_global :: "cub_lib \<Rightarrow> (nat list \<Rightarrow> nat list) \<Rightarrow> nat \<Rightarrow> 'a::len word list \<Rightarrow> u8 list \<Rightarrow> 'a word rle_stage \<Rightarrow> u8 list \<times> 'a word rle_stage" where
  "rle_encode_global cub sched n inp out st =
     (let bnd = rle_mark_boundaries sched n inp (rl_is_boundary st);
          scan = cub_inclusive cub (map ucast (take n bnd)) @ drop n (rl_boundary_scan st);
          num_runs = scan ! (n - 1);
          pos = scatter_boundary_positions sched n bnd scan (rl_boundary_positions st);
          values = rle_extract_values sched n inp pos num_runs (rl_values_scratch st);
          lens = rle_extract_lengths sched n pos num_runs (rl_lengths_scratch st)
      in (rle_pack sched n values lens num_runs out,
          st\<lparr>rl_is_boundary := bnd, rl_boundary_scan := scan, rl_boundary_positions := pos, rl_values_scratch := values,
             rl_lengths_scratch := lens, rl_h_num_runs := num_runs, rl_fwd_sync_pending := True\<rparr>))"

definition rle_encode_chunked :: "cub_lib \<Rightarrow> (nat list \<Rightarrow> nat list) \<Rightarrow> size_t \<Rightarrow> nat \<Rightarrow> 'a::len word list \<Rightarrow> u8 list \<Rightarrow> 'a word rle_stage \<Rightarrow> u8 list \<times> 'a word rle_stage" where
  "rle_encode_chunked cub sched byte_size n inp out st =
     (let epc = unat (elemsPerChunk st); nc = unat (ucast (numChunks st byte_size) :: u32);
          values_offset = unat (ucast (rleChunkedValuesOffset TYPE('a) (word_of_nat nc)) :: u32)
      in case rle_chunk_encode cub sched inp n epc nc
           (rl_values_scratch st, rl_lengths_scratch st, rl_boundary_positions st, rl_boundary_scan st) of
         (values, lens, starts, runs_per_chunk) \<Rightarrow>
           let out1 = put_at 4 (bytes_of (cub_exclusive cub (take nc runs_per_chunk))) out;
               out2 = rle_chunk_finalize_offsets runs_per_chunk nc out1;
               out3 = rle_chunk_compact sched values lens epc nc values_offset out2
           in (out3, st\<lparr>rl_values_scratch := values, rl_lengths_scratch := lens, rl_boundary_positions := starts,
                        rl_boundary_scan := runs_per_chunk, rl_h_num_runs := u32_at out3 (1 + nc), rl_fwd_sync_pending := True\<rparr>))"

definition rle_decode_global :: "cub_lib \<Rightarrow> (nat list \<Rightarrow> nat list) \<Rightarrow> u8 list \<Rightarrow> u8 list \<Rightarrow> 'a::len word rle_stage \<Rightarrow> u8 list \<times> 'a word rle_stage" where
  "rle_decode_global cub sched inp out st =
     (let num_runs = u32_at inp 0; k = elem_size TYPE('a); nr = unat num_runs; values_bytes = ucast num_runs * word_of_nat k :: size_t;
          values_aligned = (values_bytes + 3) AND NOT 3;
          values = words_of TYPE('a) nr (drop (rleValuesOffset TYPE('a)) inp);
          run_lengths = words_of TYPE(32) nr (drop (rleValuesOffset TYPE('a) + unat values_aligned) inp);
          run_offsets = cub_inclusive cub run_lengths
      in if num_runs = 0 then (out, st\<lparr>rl_actual_output_sizes := [0]\<rparr>)
         else (store_words (rle_decompress sched values run_offsets num_runs (words_of TYPE('a) (length out div k) out)) out,
               st\<lparr>rl_h_dec_total_size := run_offsets ! (nr - 1), rl_dec_sync_pending := True\<rparr>))"

definition rle_decode_chunked :: "cub_lib \<Rightarrow> (nat list \<Rightarrow> nat list) \<Rightarrow> u8 list \<Rightarrow> u8 list \<Rightarrow> 'a::len word rle_stage \<Rightarrow> u8 list \<times> 'a word rle_stage" where
  "rle_decode_chunked cub sched inp out st =
     (let k = elem_size TYPE('a); n = ucast (rl_cached_num_elements st) :: size_t; nc = ucast (numChunks st (n * word_of_nat k)) :: u32;
          values_offset = ucast (rleChunkedValuesOffset TYPE('a) (ucast nc)) :: u32
      in if n = 0 then (out, st\<lparr>rl_actual_output_sizes := [0]\<rparr>)
         else (store_words (rle_chunk_decode cub sched inp (unat n) (unat (elemsPerChunk st)) (unat nc) (unat values_offset)
                 (words_of TYPE('a) (length out div k) out)) out,
               st\<lparr>rl_actual_output_sizes := [n * word_of_nat k]\<rparr>))"

definition rle_execute :: "cub_lib \<Rightarrow> (nat list \<Rightarrow> nat list) \<Rightarrow> (nat \<Rightarrow> u8 list) \<Rightarrow> bool \<Rightarrow> u8 list list \<Rightarrow> u8 list list \<Rightarrow> size_t list
   \<Rightarrow> 'a::len word rle_stage \<Rightarrow> (u8 list list \<times> 'a word rle_stage) res" where
  "rle_execute cub sched stale lerr ins outs sizes st =
     (if ins = [] \<or> outs = [] \<or> sizes = [] then Inl (RuntimeError ''RLEStage: Invalid inputs/outputs'')
      else if rl_is_inverse st \<and> isChunked st then
        if lerr \<and> rl_cached_num_elements st \<noteq> 0 then Inl (RuntimeError ''[fzgmod] CUDA error at '')
        else case rle_decode_chunked cub sched (ins ! 0) (outs ! 0) st of (out, st') \<Rightarrow> Inr (outs[0 := out], st')
      else if rl_is_inverse st then case rle_decode_global cub sched (ins ! 0) (outs ! 0) st of (out, st') \<Rightarrow> Inr (outs[0 := out], st')
      else
        let byte_size = sizes ! 0; n = unat (byte_size div word_of_nat (elem_size TYPE('a)));
            st1 = st\<lparr>rl_cached_num_elements := word_of_nat n\<rparr>; st2 = rle_grow_scratch stale n st1; inp = words_of TYPE('a) n (ins ! 0)
        in if n = 0 then Inr (outs[0 := put_at 0 (le_bytes 4 0) (outs ! 0)], st1\<lparr>rl_actual_output_sizes := [4], rl_fwd_sync_pending := False\<rparr>)
           else if lerr then Inl (RuntimeError ''[fzgmod] CUDA error at '')
           else case (if isChunked st then rle_encode_chunked cub sched byte_size n inp (outs ! 0) st2
                      else rle_encode_global cub sched n inp (outs ! 0) st2) of
             (out, st') \<Rightarrow> Inr (outs[0 := out], st'))"

subsection \<open>Serialized configuration\<close>

definition rle_serializeHeader :: "u8 \<Rightarrow> nat \<Rightarrow> 'a::len word rle_stage \<Rightarrow> u8 list" where
  "rle_serializeHeader dt max_size st =
     (if max_size < 9 then []
      else dt # le_bytes 4 (unat (rl_cached_num_elements st)) @ le_bytes 4 (unat (rl_chunk_size st)))"

definition rle_deserializeHeader :: "u8 list \<Rightarrow> 'a::len word rle_stage \<Rightarrow> 'a word rle_stage" where
  "rle_deserializeHeader buf st =
     (let st1 = (if 5 \<le> length buf then st\<lparr>rl_cached_num_elements := word_of_nat (le_val (take 4 (drop 1 buf)))\<rparr> else st)
      in if 9 \<le> length buf then st1\<lparr>rl_chunk_size := word_of_nat (le_val (take 4 (drop 5 buf)))\<rparr> else st1)"

text \<open>The element type of the instantiation the factory picks.\<close>

definition RLE_fromHeader :: "u8 list \<Rightarrow> u8 res" where
  "RLE_fromHeader config =
     (if 1 \<le> length config then
        if config ! 0 < 8 then Inr (config ! 0) else Inl (RuntimeError ''Unsupported RLE data type: '')
      else Inr 1)"

subsection \<open>A sequential reference\<close>

definition rle_add :: "('v \<times> nat) list \<Rightarrow> 'v \<Rightarrow> ('v \<times> nat) list" where
  "rle_add runs x = (if runs \<noteq> [] \<and> fst (last runs) = x then butlast runs @ [(x, Suc (snd (last runs)))] else runs @ [(x, 1)])"

definition rle_reference :: "'v list \<Rightarrow> ('v \<times> nat) list" where
  "rle_reference xs = foldl rle_add [] xs"

definition expand_runs :: "('v \<times> nat) list \<Rightarrow> 'v list" where
  "expand_runs rs = concat (map (\<lambda>(v, l). replicate l v) rs)"

text \<open>Where runs start.\<close>

definition run_start :: "'v list \<Rightarrow> nat \<Rightarrow> bool" where
  "run_start xs i \<longleftrightarrow> i = 0 \<or> xs ! i \<noteq> xs ! (i - 1)"

definition run_starts :: "'v list \<Rightarrow> nat list" where
  "run_starts xs = filter (run_start xs) [0..<length xs]"

text \<open>The number of the run an element belongs to, counted from one.\<close>

definition run_rank :: "'v list \<Rightarrow> nat \<Rightarrow> nat" where
  "run_rank xs i = length (filter (run_start xs) [0..<Suc i])"

lemma run_starts_snoc:
  "run_starts (xs @ [x]) = run_starts xs @ (if xs = [] \<or> last xs \<noteq> x then [length xs] else [])"
proof -
  have "filter (run_start (xs @ [x])) [0..<length xs] = run_starts xs"
    unfolding run_starts_def by (intro filter_cong) (auto simp: run_start_def nth_append)
  moreover have "run_start (xs @ [x]) (length xs) \<longleftrightarrow> xs = [] \<or> last xs \<noteq> x"
    by (cases "xs = []") (auto simp: run_start_def nth_append last_conv_nth)
  ultimately show ?thesis by (simp add: run_starts_def)
qed

lemma expand_runs_snoc: "expand_runs (rs @ [(x, l)]) = expand_runs rs @ replicate l x"
  by (simp add: expand_runs_def)

lemma run_starts_bound: "s \<in> set (run_starts xs) \<Longrightarrow> s < length xs"
  by (auto simp: run_starts_def)

lemma distinct_run_starts [simp]: "distinct (run_starts xs)"
  by (simp add: run_starts_def)

lemma rle_reference_all:
  "expand_runs (rle_reference xs) = xs \<and> (\<forall>r\<in>set (rle_reference xs). 0 < snd r) \<and>
   map fst (rle_reference xs) = map ((!) xs) (run_starts xs) \<and>
   (\<forall>r<length (run_starts xs). run_starts xs ! r = sum_list (map snd (take r (rle_reference xs)))) \<and>
   sum_list (map snd (rle_reference xs)) = length xs"
proof (induction xs rule: rev_induct)
  case Nil
  show ?case by (simp add: rle_reference_def expand_runs_def run_starts_def)
next
  case (snoc x xs)
  let ?R = "rle_reference xs" and ?R' = "rle_reference (xs @ [x])"
  from snoc have IH: "expand_runs ?R = xs" "\<forall>r\<in>set ?R. 0 < snd r" "map fst ?R = map ((!) xs) (run_starts xs)"
    "\<forall>r<length (run_starts xs). run_starts xs ! r = sum_list (map snd (take r ?R))" "sum_list (map snd ?R) = length xs" by blast+
  have R': "?R' = rle_add ?R x" by (simp add: rle_reference_def)
  have len: "length ?R = length (run_starts xs)" using arg_cong [OF IH(3), of length] by simp
  have old: "map ((!) (xs @ [x])) (run_starts xs) = map ((!) xs) (run_starts xs)"
    by (rule map_cong) (auto simp: nth_append dest: run_starts_bound)
  have lst: "(?R = [] \<longleftrightarrow> xs = []) \<and> (?R \<noteq> [] \<longrightarrow> fst (last ?R) = last xs)"
  proof (cases ?R rule: rev_cases)
    case Nil
    then show ?thesis using IH(1) by (simp add: expand_runs_def)
  next
    case (snoc rs r)
    obtain v l where r: "r = (v, l)" by (cases r)
    have "0 < l" using IH(2) unfolding snoc r by simp
    moreover have "xs = expand_runs rs @ replicate l v" using IH(1) unfolding snoc r expand_runs_snoc by simp
    ultimately have "xs \<noteq> [] \<and> last xs = v" by simp
    then show ?thesis unfolding snoc r by simp
  qed
  show ?case
  proof (cases "?R \<noteq> [] \<and> fst (last ?R) = x")
    case True
    then obtain rs l where R: "?R = rs @ [(x, l)]" by (metis append_butlast_last_id prod.collapse)
    have S: "run_starts (xs @ [x]) = run_starts xs" using True lst by (simp add: run_starts_snoc)
    have R1: "?R' = rs @ [(x, Suc l)]" unfolding R' rle_add_def using True by (simp add: R)
    have "expand_runs rs @ replicate l x = xs" using IH(1) unfolding R expand_runs_snoc .
    then have "expand_runs ?R' = xs @ [x]" by (simp add: R1 expand_runs_snoc replicate_append_same [symmetric])
    moreover have "take r ?R' = take r ?R" if "r < length (run_starts xs)" for r using that len unfolding R R1 by simp
    ultimately show ?thesis unfolding S old using IH by (simp add: R R1)
  next
    case False
    then have R1: "?R' = ?R @ [(x, 1)]" unfolding R' rle_add_def by auto
    have S: "run_starts (xs @ [x]) = run_starts xs @ [length xs]" using False lst by (auto simp: run_starts_snoc)
    have "map fst (?R @ [(x, 1)]) = map ((!) (xs @ [x])) (run_starts xs @ [length xs])" using IH(3) unfolding map_append old by simp
    then show ?thesis unfolding S R1 using IH(1,2,4,5) len by (simp add: expand_runs_snoc nth_append less_Suc_eq)
  qed
qed

lemmas rle_reference_runs = conjunct1 [OF rle_reference_all] rle_reference_all [THEN conjunct2, THEN conjunct1]
  rle_reference_all [THEN conjunct2, THEN conjunct2, THEN conjunct1] rle_reference_all [THEN conjunct2, THEN conjunct2, THEN conjunct2, THEN conjunct1]
  rle_reference_all [THEN conjunct2, THEN conjunct2, THEN conjunct2, THEN conjunct2]

lemma length_rle_reference: "length (rle_reference xs) = length (run_starts xs)"
  using arg_cong [OF rle_reference_runs(3), of length] by simp

lemma run_rank_start:
  assumes "i < length xs" "run_start xs i"
  shows "0 < run_rank xs i" "run_rank xs i - 1 < length (run_starts xs)" "run_starts xs ! (run_rank xs i - 1) = i"
proof -
  have "[0..<length xs] = [0..<i] @ i # [Suc i..<length xs]" 
    using assms(1) upt_add_eq_append [of 0 i "length xs - i"] by (simp add: upt_conv_Cons)
  then have s: "run_starts xs = filter (run_start xs) [0..<i] @ i # filter (run_start xs) [Suc i..<length xs]"
    using assms(2) by (simp add: run_starts_def)
  have r: "run_rank xs i = Suc (length (filter (run_start xs) [0..<i]))" using assms(2) by (simp add: run_rank_def)
  show "0 < run_rank xs i" "run_rank xs i - 1 < length (run_starts xs)" "run_starts xs ! (run_rank xs i - 1) = i"
    unfolding r s by simp_all
qed

lemma run_starts_rank:
  assumes "r < length (run_starts xs)"
  shows "run_starts xs ! r < length xs" "run_start xs (run_starts xs ! r)" "run_rank xs (run_starts xs ! r) = Suc r"
proof -
  have "run_starts xs ! r \<in> set (run_starts xs)" using assms by (rule nth_mem)
  then show *: "run_starts xs ! r < length xs" "run_start xs (run_starts xs ! r)" by (auto simp: run_starts_def)
  have "run_rank xs (run_starts xs ! r) - 1 = r"
    using run_rank_start [OF *] assms nth_eq_iff_index_eq [OF distinct_run_starts] by blast
  then show "run_rank xs (run_starts xs ! r) = Suc r" using run_rank_start(1) [OF *] by simp
qed

lemma run_rank_last: "xs \<noteq> [] \<Longrightarrow> run_rank xs (length xs - 1) = length (run_starts xs)"
  by (simp add: run_rank_def run_starts_def)

lemma run_count_bounds: "xs \<noteq> [] \<Longrightarrow> 0 < length (run_starts xs)" "length (run_starts xs) \<le> length xs"
proof -
  show "length (run_starts xs) \<le> length xs" using length_filter_le [of "run_start xs" "[0..<length xs]"] by (simp add: run_starts_def)
  assume "xs \<noteq> []"
  then have "run_start xs 0 \<and> 0 < length xs" by (simp add: run_start_def)
  then show "0 < length (run_starts xs)" using run_rank_start(2) [of 0 xs] by linarith
qed

text \<open>Counting with flags.\<close>

lemma sum_flags: "sum_list (map (\<lambda>i. if P i then 1 else 0) is) = word_of_nat (length (filter P is))"
  by (induction "is") simp_all

text \<open>Where the runs of the reference lie.\<close>

lemma run_end_sum:
  assumes "r < length (run_starts xs)"
  shows "(if r + 1 < length (run_starts xs) then run_starts xs ! (r + 1) else length xs) = run_starts xs ! r + snd (rle_reference xs ! r)"
proof -
  have "sum_list (map snd (take (Suc r) (rle_reference xs))) = run_starts xs ! r + snd (rle_reference xs ! r)"
    using assms rle_reference_runs(4) [of xs] by (simp add: take_Suc_conv_app_nth length_rle_reference)
  moreover have "(if r + 1 < length (run_starts xs) then run_starts xs ! (r + 1) else length xs) = sum_list (map snd (take (Suc r) (rle_reference xs)))"
    using assms rle_reference_runs(4,5) [of xs] by (simp add: length_rle_reference)
  ultimately show ?thesis by simp
qed

subsection \<open>The whole-array encoder writes the reference runs\<close>

definition pad4 :: "nat \<Rightarrow> nat" where
  "pad4 x = (4 - x mod 4) mod 4"

lemma and_not_3: "(y :: 'b::len word) AND NOT 3 = push_bit 2 (drop_bit 2 y)"
proof -
  have m: "(3 :: 'b word) = mask 2" by (simp add: mask_eq_exp_minus_1)
  have s: "2 \<le> n \<Longrightarrow> Suc (Suc (n - 2)) = n" for n by simp
  show ?thesis unfolding m by (rule bit_word_eqI) (auto simp: bit_simps s)
qed

lemma align4_nat: "(x + 3) div 4 * 4 = x + pad4 x"
proof -
  obtain q r where x: "x = 4 * q + r" "r < 4" by (metis mod_less_divisor mult_div_mod_eq zero_less_numeral)
  then have "r = 0 \<or> r = 1 \<or> r = 2 \<or> r = 3" by auto
  then show ?thesis using x(1) by (auto simp: pad4_def)
qed

lemma unat_align4:
  assumes "unat (x :: 'b::len word) + 3 < 2 ^ LENGTH('b)" "2 \<le> LENGTH('b)"
  shows "unat ((x + 3) AND NOT 3) = unat x + pad4 (unat x)"
proof -
  have p: "(2 :: nat) ^ 2 \<le> 2 ^ LENGTH('b)" using assms(2) by (intro power_increasing) simp_all
  then have "unat (3 :: 'b word) = 3" using unat_of_nat [of 3, where 'a = 'b] by simp
  then have u: "unat (x + 3) = unat x + 3" using assms(1) by (simp add: unat_word_ariths)
  have "unat ((x + 3) AND NOT 3) = (unat x + 3) div 4 * 4 mod 2 ^ LENGTH('b)"
    unfolding and_not_3 unsigned_push_bit_eq unsigned_drop_bit_eq u using assms(1) by (simp add: push_bit_eq_mult drop_bit_eq_div take_bit_eq_mod)
  also have "\<dots> = (unat x + 3) div 4 * 4" by (rule mod_less) (use assms(1) in linarith)
  finally show ?thesis by (simp only: align4_nat)
qed

definition rle_layout :: "'a::len word list \<Rightarrow> u8 list list" where
  "rle_layout xs =
     (let R = rle_reference xs in
      [le_bytes 4 (length R), replicate (rleValuesOffset TYPE('a) - 4) 0] @
      map (\<lambda>r. le_bytes (elem_size TYPE('a)) (unat (fst r))) R @
      [replicate (pad4 (elem_size TYPE('a) * length R)) 0] @ map (\<lambda>r. le_bytes 4 (snd r)) R)"

text \<open>The documented wire format: run count, padding, values, padding, run lengths.\<close>

definition rle_wire :: "'a::len word list \<Rightarrow> u8 list" where
  "rle_wire xs = concat (rle_layout xs)"

lemma rleValuesOffset_ge: "4 \<le> rleValuesOffset t"
  by (simp add: rleValuesOffset_def)

lemma length_rle_wire:
  "length (rle_wire (xs :: 'a::len word list)) = rleValuesOffset TYPE('a) +
     (elem_size TYPE('a) * length (rle_reference xs) + pad4 (elem_size TYPE('a) * length (rle_reference xs))) + 4 * length (rle_reference xs)"
  using rleValuesOffset_ge [of "TYPE('a)"] by (simp add: rle_wire_def rle_layout_def Let_def length_concat_const)

lemma placed_rle_layout:
  "set (placed 0 (rle_layout (xs :: 'a::len word list))) =
     {(0, le_bytes 4 (length (rle_reference xs))), (4, replicate (rleValuesOffset TYPE('a) - 4) 0),
      (rleValuesOffset TYPE('a) + elem_size TYPE('a) * length (rle_reference xs), replicate (pad4 (elem_size TYPE('a) * length (rle_reference xs))) 0)} \<union>
     (\<lambda>i. (rleValuesOffset TYPE('a) + elem_size TYPE('a) * i, le_bytes (elem_size TYPE('a)) (unat (fst (rle_reference xs ! i))))) ` {..<length (rle_reference xs)} \<union>
     (\<lambda>i. (rleValuesOffset TYPE('a) + (elem_size TYPE('a) * length (rle_reference xs) + pad4 (elem_size TYPE('a) * length (rle_reference xs))) + 4 * i,
        le_bytes 4 (snd (rle_reference xs ! i)))) ` {..<length (rle_reference xs)}"
  using rleValuesOffset_ge [of "TYPE('a)"]
  by (auto simp: rle_layout_def Let_def placed_append placed_map_const length_concat_const add.assoc)

lemma rle_threads_cover: "n < 2 ^ 31 \<Longrightarrow> sched_ok sched \<Longrightarrow> {..<n} \<subseteq> set (sched (rle_threads n))"
  using grid_covers [of 256 n] by (auto simp: sched_set rle_threads_def)

lemma rle_threads_cover0: "n < 2 ^ 31 \<Longrightarrow> {..<n} \<subseteq> set (rle_threads n)"
  using grid_covers [of 256 n] by (auto simp: rle_threads_def)

text \<open>The scratch arrays hold at least \<open>n\<close> elements.\<close>

definition rle_scratch_ok :: "nat \<Rightarrow> 'a::len word rle_stage \<Rightarrow> bool" where
  "rle_scratch_ok n st \<longleftrightarrow> n \<le> length (rl_is_boundary st) \<and> n \<le> length (rl_boundary_scan st) \<and> n \<le> length (rl_boundary_positions st) \<and>
     n \<le> length (rl_values_scratch st) \<and> n \<le> length (rl_lengths_scratch st)"

lemma rle_boundary_flags:
  assumes "sched_ok sched" "n < 2 ^ 31" "n \<le> length bnd" "length inp = n"
  shows "take n (rle_mark_boundaries sched n inp bnd) = map (\<lambda>i. if run_start inp i then 1 else 0) [0..<n]"
  unfolding rle_mark_boundaries_def elem_kernel_prefix [OF rle_threads_cover [OF assms(2,1)] assms(3)]
  by (simp add: run_start_def)

lemma rle_scan_rank:
  assumes "cub_ok cub" "i < n" "flags = map (\<lambda>i. if run_start inp i then 1 else 0) [0..<n]"
  shows "(cub_inclusive cub (map ucast (flags :: u8 list)) @ rest) ! i = word_of_nat (run_rank inp i)"
proof -
  have f: "map ucast flags = map (\<lambda>i. if run_start inp i then 1 else (0 :: u32)) [0..<n]" unfolding assms(3) by simp
  have "cub_inclusive cub (map ucast flags) = map (\<lambda>i. sum_list (take (Suc i) (map ucast flags))) [0..<n]"
    using assms(1,3) by (simp add: cub_ok_def)
  then have "(cub_inclusive cub (map ucast flags) @ rest) ! i = sum_list (take (Suc i) (map ucast flags))" using assms(2) by (simp add: nth_append)
  also have "\<dots> = word_of_nat (run_rank inp i)"
    unfolding f take_map sum_flags [symmetric] run_rank_def using assms(2) by (simp add: min_def del: upt_Suc)
  finally show ?thesis .
qed

lemma rle_scatter:
  assumes "sched_ok sched" "n < 2 ^ 31" "length inp = n" "n \<le> length pos"
    and "\<And>i. i < n \<Longrightarrow> scan ! i = word_of_nat (run_rank inp i)" "\<And>i. i < n \<Longrightarrow> bnd ! i = (if run_start inp i then 1 else 0)"
    and "r < length (run_starts inp)"
  shows "scatter_boundary_positions sched n bnd scan pos ! r = word_of_nat (run_starts inp ! r)"
proof -
  let ?w = "\<lambda>idx. (unat (scan ! idx - 1), if idx < n \<and> bnd ! idx \<noteq> 0 then [word_of_nat idx :: u32] else [])"
  let ?W = "\<lambda>r. word_of_nat (run_starts inp ! r) :: u32"
  have place: "unat (scan ! i - 1) = run_rank inp i - 1" if "i < n" "run_start inp i" for i
  proof -
    have "0 < run_rank inp i" "run_rank inp i - 1 < length (run_starts inp)" using run_rank_start [of i inp] that assms(3) by auto
    then have b: "run_rank inp i \<le> n" using run_count_bounds(2) [of inp] assms(3) by linarith
    have "scan ! i - 1 = word_of_nat (run_rank inp i - 1)" using assms(5) [OF that(1)] \<open>0 < run_rank inp i\<close> by (simp add: of_nat_diff)
    then show ?thesis using b assms(2) by (simp add: unat_of_nat)
  qed
  have a: "\<forall>w\<in>set (map ?w (rle_threads n)). agrees ?W w"
  proof
    fix w assume "w \<in> set (map ?w (rle_threads n))"
    then obtain i where w: "w = ?w i" by auto
    show "agrees ?W w"
    proof (cases "i < n \<and> bnd ! i \<noteq> 0")
      case True
      then have i: "i < n" "run_start inp i" using assms(6) by (auto split: if_splits)
      then show ?thesis using run_rank_start(3) [of i inp] assms(3) True by (simp add: w agrees_def place)
    qed (auto simp: w agrees_def)
  qed
  let ?i = "run_starts inp ! r"
  have i: "?i < n" "run_start inp ?i" "run_rank inp ?i = Suc r" using run_starts_rank [OF assms(7)] assms(3) by simp_all
  have "?w ?i \<in> set (map ?w (rle_threads n))" using rle_threads_cover0 [OF assms(2)] i(1) by fastforce
  moreover have "covers (?w ?i) r" using i assms(6) by (simp add: covers_def place)
  ultimately have "\<exists>w\<in>set (map ?w (rle_threads n)). covers w r" by blast
  moreover have "r < length pos" using assms(3,4,7) run_count_bounds(2) [of inp] by linarith
  ultimately show ?thesis unfolding scatter_boundary_positions_def using run_puts_nth(2) [OF assms(1) a] by simp
qed

lemma rle_extract:
  fixes inp vals :: "'a::len word list"
  assumes "sched_ok sched" "n < 2 ^ 31" "length inp = n" "n \<le> length vals" "n \<le> length lens"
    and "\<And>r. r < length (run_starts inp) \<Longrightarrow> pos ! r = word_of_nat (run_starts inp ! r)" "unat m = length (run_starts inp)"
    and "r < length (run_starts inp)"
  shows "rle_extract_values sched n inp pos m vals ! r = fst (rle_reference inp ! r)"
    "rle_extract_lengths sched n pos m lens ! r = word_of_nat (snd (rle_reference inp ! r))"
    "snd (rle_reference inp ! r) < 2 ^ 31"
proof -
  let ?S = "run_starts inp" and ?R = "rle_reference inp"
  have m: "unat m \<le> n" using run_count_bounds(2) [of inp] assms(3,7) by simp
  have sub: "{..<unat m} \<subseteq> set (sched (rle_threads n))" using rle_threads_cover [OF assms(2,1)] m by auto
  have small: "?S ! r < n" "\<And>r. r < length ?S \<Longrightarrow> ?S ! r < 2 ^ 32" using run_starts_rank(1) [of _ inp] assms(2,3,8) by fastforce+
  have s: "unat (pos ! r) = ?S ! r" unfolding assms(6) [OF assms(8)] using small assms(8) by (simp add: unat_of_nat)
  have "map fst ?R ! r = map ((!) inp) ?S ! r" unfolding rle_reference_runs(3) ..
  then have "fst (?R ! r) = inp ! (?S ! r)" using assms(8) by (simp add: length_rle_reference)
  moreover have "rle_extract_values sched n inp pos m vals = map (\<lambda>r. inp ! unat (pos ! r)) [0..<unat m] @ drop (unat m) vals"
    unfolding rle_extract_values_def by (rule elem_kernel_prefix [OF sub]) (use m assms(4) in simp)
  ultimately show "rle_extract_values sched n inp pos m vals ! r = fst (?R ! r)" using assms(7,8) s by (simp add: nth_append)
  let ?f = "\<lambda>r. (if r + 1 < unat m then pos ! (r + 1) else word_of_nat n) - pos ! r"
  have "rle_extract_lengths sched n pos m lens = map ?f [0..<unat m] @ drop (unat m) lens"
    unfolding rle_extract_lengths_def by (rule elem_kernel_prefix [OF sub]) (use m assms(5) in simp)
  then have e: "rle_extract_lengths sched n pos m lens ! r = ?f r" using assms(7,8) by (simp add: nth_append)
  have "(if r + 1 < unat m then pos ! (r + 1) else word_of_nat n) = word_of_nat (if r + 1 < length ?S then ?S ! (r + 1) else length inp)"
    using assms(3,6,7) by simp
  also have "\<dots> = word_of_nat (?S ! r + snd (?R ! r))" unfolding run_end_sum [OF assms(8)] ..
  finally show "rle_extract_lengths sched n pos m lens ! r = word_of_nat (snd (?R ! r))" unfolding e assms(6) [OF assms(8)] by simp
  have "?R ! r \<in> set ?R" using assms(8) by (simp add: length_rle_reference)
  then have "snd (?R ! r) \<le> sum_list (map snd ?R)" by (metis member_le_sum_list imageI image_set zero_le)
  then show "snd (?R ! r) < 2 ^ 31" unfolding rle_reference_runs(5) using assms(2,3) by simp
qed

lemma rle_pack_wire:
  fixes inp vals :: "'a::len word list"
  assumes "sched_ok sched" "n < 2 ^ 31" "0 < n" "length inp = n" "elem_size TYPE('a) * n < 2 ^ 31" "m = word_of_nat (length (rle_reference inp))"
    and "\<And>r. r < length (rle_reference inp) \<Longrightarrow> vals ! r = fst (rle_reference inp ! r)"
    and "\<And>r. r < length (rle_reference inp) \<Longrightarrow> unat (lens ! r :: u32) = snd (rle_reference inp ! r)"
    and "length (rle_wire inp) \<le> length out"
  shows "rle_pack sched n vals lens m out = rle_wire inp @ drop (length (rle_wire inp)) out"
proof -
  let ?R = "rle_reference inp" and ?k = "elem_size TYPE('a)" and ?vo = "rleValuesOffset TYPE('a)"
  let ?m = "length ?R"
  have mn: "?m \<le> n" using run_count_bounds(2) [of inp] assms(4) by (simp add: length_rle_reference)
  have um: "unat m = ?m" using mn assms(2,6) by (simp add: unat_of_nat)
  have km: "?k * ?m < 2 ^ 31" using mult_le_mono2 [OF mn, of ?k] assms(5) by linarith
  have vb: "unat (m * word_of_nat ?k) = ?k * ?m"
  proof -
    have "m * word_of_nat ?k = word_of_nat (?k * ?m)" unfolding assms(6) by (simp add: mult.commute)
    then show ?thesis using km by (simp only: unat_of_nat) simp
  qed
  have va: "unat ((m * word_of_nat ?k + 3) AND NOT 3) = ?k * ?m + pad4 (?k * ?m)"
    using unat_align4 [of "m * word_of_nat ?k"] km unfolding vb by simp
  have pad: "unat (((m * word_of_nat ?k + 3) AND NOT 3) - m * word_of_nat ?k) = pad4 (?k * ?m)"
    using va vb by (simp add: unat_sub word_le_nat_alt)
  let ?T = "rle_pack_thread vals lens m"
  have T: "w \<in> set (?T i) \<longleftrightarrow> (i = 0 \<and> (w = (0, le_bytes 4 ?m) \<or> w = (4, replicate (?vo - 4) 0) \<or> w = (?vo + ?k * ?m, replicate (pad4 (?k * ?m)) 0))) \<or>
      (i < ?m \<and> (w = (?vo + ?k * i, le_bytes ?k (unat (fst (?R ! i)))) \<or> w = (?vo + (?k * ?m + pad4 (?k * ?m)) + 4 * i, le_bytes 4 (snd (?R ! i)))))" for w i
    unfolding rle_pack_thread_def Let_def vb va pad um by (auto simp: assms(7,8))
  have zero: "0 \<in> set (rle_threads n)" using rle_threads_cover0 [OF assms(2)] assms(3) by auto
  have all: "i \<in> set (rle_threads n)" if "i < ?m" for i using rle_threads_cover0 [OF assms(2)] mn that by auto
  have "w \<in> set (concat (map ?T (rle_threads n))) \<longleftrightarrow> w \<in> set (placed 0 (rle_layout inp))" for w
    unfolding placed_rle_layout set_concat set_map UN_iff image_iff bex_simps T using zero all by blast
  then show ?thesis unfolding rle_pack_def rle_wire_def
    by (intro run_puts_placed [OF assms(1)]) (use assms(9) in \<open>simp_all add: rle_wire_def\<close>)
qed

lemma rle_encode_global_spec:
  fixes inp :: "'a::len word list"
  assumes "cub_ok cub" "sched_ok sched" "length inp = n" "0 < n" "n < 2 ^ 31" "elem_size TYPE('a) * n < 2 ^ 31" "rle_scratch_ok n st"
    "length (rle_wire inp) \<le> length out"
  shows "fst (rle_encode_global cub sched n inp out st) = rle_wire inp @ drop (length (rle_wire inp)) out"
    "rl_h_num_runs (snd (rle_encode_global cub sched n inp out st)) = word_of_nat (length (rle_reference inp))"
proof -
  define bnd where "bnd = rle_mark_boundaries sched n inp (rl_is_boundary st)"
  define scan where "scan = cub_inclusive cub (map ucast (take n bnd)) @ drop n (rl_boundary_scan st)"
  define pos where "pos = scatter_boundary_positions sched n bnd scan (rl_boundary_positions st)"
  let ?m = "scan ! (n - 1)" and ?R = "rle_reference inp"
  note sc = assms(7) [unfolded rle_scratch_ok_def]
  have f: "take n bnd = map (\<lambda>i. if run_start inp i then 1 else 0) [0..<n]"
    unfolding bnd_def using rle_boundary_flags [OF assms(2,5) _ assms(3)] sc by blast
  have scan: "scan ! i = word_of_nat (run_rank inp i)" if "i < n" for i
    unfolding scan_def by (rule rle_scan_rank [OF assms(1) that f])
  have bnd: "bnd ! i = (if run_start inp i then 1 else 0)" if "i < n" for i
    using arg_cong [OF f, of "\<lambda>l. l ! i"] that by simp
  have pos: "pos ! r = word_of_nat (run_starts inp ! r)" if "r < length (run_starts inp)" for r
    unfolding pos_def by (rule rle_scatter [OF assms(2,5,3) _ scan bnd that]) (use sc in simp_all)
  have m: "?m = word_of_nat (length ?R)"
    using scan [of "n - 1"] assms(3,4) run_rank_last [of inp] by (auto simp: length_rle_reference)
  have um: "unat ?m = length (run_starts inp)"
    unfolding m using run_count_bounds(2) [of inp] assms(3,5) by (simp add: unat_of_nat length_rle_reference)
  note ex = rle_extract [where vals = "rl_values_scratch st" and lens = "rl_lengths_scratch st", OF assms(2,5,3) _ _ pos um, folded length_rle_reference]
  have "rle_pack sched n (rle_extract_values sched n inp pos ?m (rl_values_scratch st)) (rle_extract_lengths sched n pos ?m (rl_lengths_scratch st)) ?m out =
      rle_wire inp @ drop (length (rle_wire inp)) out"
  proof (rule rle_pack_wire [OF assms(2,5,4,3,6) m _ _ assms(8)])
    fix r assume r: "r < length ?R"
    have l: "n \<le> length (rl_values_scratch st)" "n \<le> length (rl_lengths_scratch st)" using sc by blast+
    show "rle_extract_values sched n inp pos ?m (rl_values_scratch st) ! r = fst (?R ! r)"
      "unat (rle_extract_lengths sched n pos ?m (rl_lengths_scratch st) ! r) = snd (?R ! r)"
      using ex [OF l _ r] by (simp_all add: unat_of_nat31)
  qed
  then show "fst (rle_encode_global cub sched n inp out st) = rle_wire inp @ drop (length (rle_wire inp)) out"
    "rl_h_num_runs (snd (rle_encode_global cub sched n inp out st)) = word_of_nat (length ?R)"
    using m by (simp_all add: rle_encode_global_def Let_def bnd_def scan_def pos_def)
qed

subsection \<open>The whole-array decoder expands the runs\<close>

lemma rle_wire_parts:
  fixes xs :: "'a::len word list"
  assumes "length xs < 2 ^ 31"
  shows "take 4 (rle_wire xs @ rest) = le_bytes 4 (length (rle_reference xs))"
    "\<exists>r. drop (rleValuesOffset TYPE('a)) (rle_wire xs @ rest) = bytes_of (map fst (rle_reference xs)) @ r"
    "drop (rleValuesOffset TYPE('a) + (elem_size TYPE('a) * length (rle_reference xs) + pad4 (elem_size TYPE('a) * length (rle_reference xs)))) (rle_wire xs @ rest) =
      bytes_of (map (\<lambda>r. word_of_nat (snd r) :: u32) (rle_reference xs)) @ rest"
proof -
  let ?R = "rle_reference xs" and ?k = "elem_size TYPE('a)"
  have "snd r < 2 ^ 31" if "r \<in> set ?R" for r
  proof -
    have "snd r \<le> sum_list (map snd ?R)" using that by (metis member_le_sum_list imageI image_set zero_le)
    then show ?thesis using assms by (simp add: rle_reference_runs(5))
  qed
  then have l: "concat (map (\<lambda>r. le_bytes 4 (snd r)) ?R) = bytes_of (map (\<lambda>r. word_of_nat (snd r) :: u32) ?R)"
    unfolding bytes_of_def map_map comp_def elem_size_def by (intro arg_cong [where f = concat] map_cong refl) (simp add: unat_of_nat31)
  have w: "rle_wire xs = le_bytes 4 (length ?R) @ replicate (rleValuesOffset TYPE('a) - 4) 0 @ bytes_of (map fst ?R) @
      replicate (pad4 (?k * length ?R)) 0 @ bytes_of (map (\<lambda>r. word_of_nat (snd r) :: u32) ?R)"
    unfolding l [symmetric] by (simp add: rle_wire_def rle_layout_def Let_def bytes_of_def comp_def)
  show "take 4 (rle_wire xs @ rest) = le_bytes 4 (length ?R)" unfolding w by simp
  show "\<exists>r. drop (rleValuesOffset TYPE('a)) (rle_wire xs @ rest) = bytes_of (map fst ?R) @ r"
    unfolding w using rleValuesOffset_ge [of "TYPE('a)"] by simp
  show "drop (rleValuesOffset TYPE('a) + (?k * length ?R + pad4 (?k * length ?R))) (rle_wire xs @ rest) = bytes_of (map (\<lambda>r. word_of_nat (snd r) :: u32) ?R) @ rest"
    unfolding w using rleValuesOffset_ge [of "TYPE('a)"] by simp
qed

lemma rle_decompress_expands:
  fixes xs :: "'a::len word list"
  assumes "cub_ok cub" "sched_ok sched" "length xs < 2 ^ 31" "unat m = length (rle_reference xs)" "length xs \<le> length out"
  shows "rle_decompress sched (map fst (rle_reference xs)) (cub_inclusive cub (map (\<lambda>r. word_of_nat (snd r)) (rle_reference xs))) m out =
    xs @ drop (length xs) out"
    "r < length (rle_reference xs) \<Longrightarrow>
       unat (cub_inclusive cub (map (\<lambda>r. word_of_nat (snd r)) (rle_reference xs)) ! r) = sum_list (map snd (take (Suc r) (rle_reference xs)))"
proof -
  let ?R = "rle_reference xs" and ?L = "map (\<lambda>r. word_of_nat (snd r) :: u32) (rle_reference xs)" and ?offs = "cub_inclusive cub (map (\<lambda>r. word_of_nat (snd r)) (rle_reference xs))"
  have sums: "sum_list (map (\<lambda>r. word_of_nat (snd r) :: u32) rs) = word_of_nat (sum_list (map snd rs))" for rs :: "('a word \<times> nat) list"
    by (induction rs) simp_all
  have part: "sum_list (map snd (take r ?R)) \<le> length xs" for r
  proof -
    have "sum_list (map snd (take r ?R)) + sum_list (map snd (drop r ?R)) = length xs"
      unfolding rle_reference_runs(5) [symmetric] by (metis append_take_drop_id map_append sum_list_append)
    then show ?thesis by linarith
  qed
  show offs: "unat (?offs ! r) = sum_list (map snd (take (Suc r) ?R))" if "r < length ?R" for r
  proof -
    have "?offs ! r = sum_list (take (Suc r) ?L)" using assms(1) that by (simp add: cub_ok_def)
    also have "\<dots> = word_of_nat (sum_list (map snd (take (Suc r) ?R)))" unfolding take_map by (rule sums)
    finally show ?thesis using le_less_trans [OF part [of "Suc r"] assms(3)] by (simp add: unat_of_nat)
  qed
  let ?xss = "map (\<lambda>(v, l). replicate l v) ?R"
  have cl: "length (concat (take r ?xss)) = sum_list (map snd (take r ?R))" for r
    by (simp add: take_map length_concat comp_def case_prod_beta)
  have pl: "placed 0 ?xss = map (\<lambda>r. (sum_list (map snd (take r ?R)), replicate (snd (?R ! r)) (fst (?R ! r)))) [0..<length ?R]"
    unfolding placed_nth cl by (auto simp: case_prod_beta)
  let ?T = "\<lambda>r. if r < unat m then let start = (if r = 0 then 0 else unat (?offs ! (r - 1))); e = unat (?offs ! r) in (start, replicate (e - start) (map fst ?R ! r)) else (0, [])"
  have T: "?T r = (sum_list (map snd (take r ?R)), replicate (snd (?R ! r)) (fst (?R ! r)))" if "r < length ?R" for r
  proof -
    have "(if r = 0 then 0 else unat (?offs ! (r - 1))) = sum_list (map snd (take r ?R))" using offs [of "r - 1"] that by (cases r) auto
    moreover have "unat (?offs ! r) = sum_list (map snd (take r ?R)) + snd (?R ! r)" using that by (simp add: offs take_Suc_conv_app_nth)
    ultimately show ?thesis using that assms(4) by (simp add: Let_def)
  qed
  have m: "unat m < 2 ^ 31" using run_count_bounds(2) [of xs] assms(3,4) by (simp add: length_rle_reference)
  have ws: "w \<in> set (map ?T (rle_threads (unat m))) \<longleftrightarrow> w \<in> set (placed 0 ?xss)" if "snd w \<noteq> []" for w
  proof
    assume "w \<in> set (map ?T (rle_threads (unat m)))"
    then obtain r where r: "w = ?T r" unfolding set_map by blast
    then have "r < length ?R" using that assms(4) by (auto split: if_splits)
    then show "w \<in> set (placed 0 ?xss)" unfolding pl r T [OF \<open>r < length ?R\<close>] unfolding set_map using \<open>r < length ?R\<close> by (intro image_eqI [of _ _ r]) simp_all
  next
    assume "w \<in> set (placed 0 ?xss)"
    then obtain r where r: "r < length ?R" "w = (sum_list (map snd (take r ?R)), replicate (snd (?R ! r)) (fst (?R ! r)))" unfolding pl by auto
    then have "w = ?T r" using T by simp
    moreover have "r \<in> set (rle_threads (unat m))" using rle_threads_cover0 [OF m] r(1) assms(4) by auto
    ultimately show "w \<in> set (map ?T (rle_threads (unat m)))" unfolding set_map by (rule image_eqI)
  qed
  have "concat ?xss = xs" using rle_reference_runs(1) [of xs] by (simp add: expand_runs_def)
  then show "rle_decompress sched (map fst ?R) ?offs m out = xs @ drop (length xs) out"
    unfolding rle_decompress_def using run_puts_placed [OF assms(2) ws, of out] assms(5) by simp
qed

subsection \<open>A run of the stage\<close>

text \<open>
  The pipeline allocates the output from the estimate, executes, and reads the actual size, which waits for the pending readback.
\<close>

definition rle_run :: "cub_lib \<Rightarrow> 'a::len word rle_stage \<Rightarrow> run_env \<Rightarrow> u8 list \<Rightarrow> (u8 list \<times> 'a word rle_stage) res" where
  "rle_run cub st e bs =
     map_sum id (\<lambda>(outs, st'). case rle_getActualOutputSize 0 st' of (sz, st'') \<Rightarrow> (take (unat sz) (outs ! 0), st''))
       (rle_execute cub (re_sched e) (re_stale e) False [bs] [re_stale e (unat (rle_estimateOutputSize (word_of_nat (length bs)) st))]
          [word_of_nat (length bs)] st)"

text \<open>The stage as the archive's reader rebuilds it, switched to the inverse direction.\<close>

definition rle_decoder_of :: "u8 \<Rightarrow> 'a::len word rle_stage \<Rightarrow> 'a word rle_stage" where
  "rle_decoder_of dt st = (rle_deserializeHeader (rle_serializeHeader dt 128 st) new_rle)\<lparr>rl_is_inverse := True\<rparr>"

text \<open>Between two executions: the scratch arrays have their capacity and no readback is pending.\<close>

definition rle_ready :: "'a::len word rle_stage \<Rightarrow> bool" where
  "rle_ready st \<longleftrightarrow> rle_scratch_ok (unat (rl_fwd_scratch_n st)) st \<and> \<not> rl_fwd_sync_pending st \<and> \<not> rl_dec_sync_pending st"

lemma rle_header_restores:
  "rle_deserializeHeader (rle_serializeHeader dt 128 st) st0 =
    st0\<lparr>rl_cached_num_elements := rl_cached_num_elements st, rl_chunk_size := rl_chunk_size (st :: 'a::len word rle_stage)\<rparr>"
proof -
  let ?h = "dt # le_bytes 4 (unat (rl_cached_num_elements st)) @ le_bytes 4 (unat (rl_chunk_size st))"
  have "take 4 (drop 1 ?h) = le_bytes 4 (unat (rl_cached_num_elements st))" "take 4 (drop 5 ?h) = le_bytes 4 (unat (rl_chunk_size st))" "length ?h = 9"
    by simp_all
  note f = this
  have "rle_serializeHeader dt 128 st = ?h" by (simp add: rle_serializeHeader_def)
  then show ?thesis unfolding rle_deserializeHeader_def Let_def f le_val_le_bytes_word by (simp add: f le_val_le_bytes_word)
qed

lemma mask_32_small:
  assumes "unat (y :: size_t) < 2 ^ 32"
  shows "y AND ucast (NOT 3 :: u32) = y AND NOT 3"
proof (rule bit_word_eqI)
  fix i assume "i < LENGTH(64)"
  have "take_bit 32 y = y" using assms by (simp add: word_unat_eq_iff unsigned_take_bit_eq take_bit_nat_eq_self)
  then have "bit y i \<Longrightarrow> i < 32" by (metis bit_take_bit_iff)
  moreover have "(3 :: u32) = mask 2" "(3 :: size_t) = mask 2" by (simp_all add: mask_eq_exp_minus_1)
  ultimately show "bit (y AND ucast (NOT 3 :: u32)) i = bit (y AND NOT 3) i"
    using \<open>i < LENGTH(64)\<close> by (simp only: bit_and_iff bit_not_iff bit_unsigned_iff bit_mask_iff) auto
qed

lemma pad4_mono: "a \<le> b \<Longrightarrow> a + pad4 a \<le> b + pad4 b"
  unfolding align4_nat [symmetric] by (intro mult_le_mono1 div_le_mono) simp

lemma pad4_less: "pad4 a < 4"
  by (simp add: pad4_def)

lemma unat_64_small: "n < 2 ^ 40 \<Longrightarrow> unat (word_of_nat n :: size_t) = n"
  by (simp add: unat_of_nat)

lemma elem_size_bounds: "elem_type (t :: 'a::len itself) \<Longrightarrow> 0 < elem_size t \<and> elem_size t \<le> 8"
  by (auto simp: elem_type_def elem_size_def)

lemma align4_64: "a < 2 ^ 31 \<Longrightarrow> (word_of_nat a + 3 :: size_t) AND NOT 3 = word_of_nat (a + pad4 a)"
proof -
  assume a: "a < 2 ^ 31"
  then have u: "unat (word_of_nat a :: size_t) = a" by (intro unat_64_small) simp
  have "unat ((word_of_nat a + 3 :: size_t) AND NOT 3) = a + pad4 a" using unat_align4 [of "word_of_nat a :: size_t"] a unfolding u by simp
  then show ?thesis by (metis of_nat_unat ucast_id)
qed

lemma rle_estimate_forward:
  fixes st :: "'a::len word rle_stage"
  assumes "elem_type TYPE('a)" "\<not> rl_is_inverse st" "\<not> isChunked st" "L < 2 ^ 31" "n = L div elem_size TYPE('a)"
  shows "unat (rle_estimateOutputSize (word_of_nat L) st) = rleValuesOffset TYPE('a) + (elem_size TYPE('a) * n + pad4 (elem_size TYPE('a) * n)) + 4 * n"
proof -
  let ?k = "elem_size TYPE('a)"
  have k: "0 < ?k" "?k \<le> 8" using elem_size_bounds [OF assms(1)] by auto
  have kn: "?k * n \<le> L" "n \<le> L" unfolding assms(5) by simp_all
  have u: "unat (word_of_nat L :: size_t) = L" "unat (word_of_nat ?k :: size_t) = ?k" using assms(4) k(2) by (simp_all add: unat_64_small)
  have un: "unat (word_of_nat n :: size_t) = n" using kn(2) assms(4) by (intro unat_64_small) simp
  have "(word_of_nat L :: size_t) div word_of_nat ?k = word_of_nat n" by (simp only: word_unat_eq_iff unat_div u un) (rule assms(5) [symmetric])
  moreover have "(word_of_nat n :: size_t) * word_of_nat ?k = word_of_nat (?k * n)" by (simp add: mult.commute)
  moreover have u2: "unat (word_of_nat (?k * n) :: size_t) = ?k * n" using kn assms(4) by (intro unat_64_small) simp
  moreover have "unat (word_of_nat (?k * n) + 3 :: size_t) = ?k * n + 3" using u2 kn(1) assms(4) by (simp add: unat_word_ariths)
  then have "(word_of_nat (?k * n) + 3 :: size_t) AND ucast (NOT 3 :: u32) = (word_of_nat (?k * n) + 3) AND NOT 3"
    using kn(1) assms(4) by (intro mask_32_small) simp
  ultimately have "rle_estimateOutputSize (word_of_nat L) st =
      word_of_nat (rleValuesOffset TYPE('a)) + ((word_of_nat (?k * n) + 3) AND NOT 3) + word_of_nat n * 4"
    using assms(2,3) by (simp add: rle_estimateOutputSize_def Let_def mult.commute [of "word_of_nat n"])
  moreover have "(word_of_nat (?k * n) + 3 :: size_t) AND NOT 3 = word_of_nat (?k * n + pad4 (?k * n))"
    using kn(1) assms(4) by (intro align4_64) simp
  ultimately have "rle_estimateOutputSize (word_of_nat L) st = word_of_nat (rleValuesOffset TYPE('a) + (?k * n + pad4 (?k * n)) + 4 * n)"
    by (simp add: mult.commute)
  moreover have "rleValuesOffset TYPE('a) \<le> 8" using k(2) by (simp add: rleValuesOffset_def)
  then have "rleValuesOffset TYPE('a) + (?k * n + pad4 (?k * n)) + 4 * n < 2 ^ 40" using kn assms(4) pad4_less [of "?k * n"] by simp
  ultimately show ?thesis by (simp only: unat_64_small)
qed

lemma rle_reported_size:
  fixes st :: "'a::len word rle_stage"
  assumes "elem_type TYPE('a)" "\<not> isChunked st" "rl_fwd_sync_pending st" "\<not> rl_dec_sync_pending st" "rl_h_num_runs st = word_of_nat m"
    and "elem_size TYPE('a) * m < 2 ^ 31"
  shows "rle_getActualOutputSize 0 st =
    (word_of_nat (rleValuesOffset TYPE('a) + (elem_size TYPE('a) * m + pad4 (elem_size TYPE('a) * m)) + 4 * m),
     st\<lparr>rl_actual_output_sizes := [word_of_nat (rleValuesOffset TYPE('a) + (elem_size TYPE('a) * m + pad4 (elem_size TYPE('a) * m)) + 4 * m)],
        rl_fwd_sync_pending := False\<rparr>)"
proof -
  let ?k = "elem_size TYPE('a)"
  have k: "0 < ?k" "?k \<le> 8" using elem_size_bounds [OF assms(1)] by auto
  have m: "m < 2 ^ 31" using assms(6) k(1) by (metis One_nat_def Suc_leI le_less_trans mult.commute mult_le_mono2 nat_mult_1_right)
  have "(ucast (rl_h_num_runs st) :: size_t) = word_of_nat m" unfolding assms(5) by (metis of_nat_unat unat_of_nat31 [OF m])
  moreover have "(word_of_nat (m * ?k) + 3 :: size_t) AND NOT 3 = word_of_nat (?k * m + pad4 (?k * m))"
    using align4_64 [of "m * ?k"] assms(6) by (simp only: mult.commute)
  ultimately show ?thesis using assms(2,3,4)
    by (simp add: rle_getActualOutputSize_def completePendingSync_def completePendingDecodeSync_def Let_def mult.commute)
qed

lemma length_elem_kernel [simp]: "length (elem_kernel tids n f out) = length out"
  by (simp add: elem_kernel_def fold_writes)

lemma rle_encode_global_state:
  fixes st :: "'a::len word rle_stage"
  assumes "cub_ok cub" "rle_scratch_ok N st" "n \<le> N" "st' = snd (rle_encode_global cub sched n inp out st)"
  shows "rl_cached_num_elements st' = rl_cached_num_elements st" "rl_chunk_size st' = rl_chunk_size st" "rl_is_inverse st' = rl_is_inverse st"
    "rl_fwd_scratch_n st' = rl_fwd_scratch_n st" "rl_fwd_sync_pending st'" "rl_dec_sync_pending st' = rl_dec_sync_pending st" "rle_scratch_ok N st'"
proof -
  have "\<And>xs. length (cub_inclusive cub xs) = length xs" using assms(1) by (simp add: cub_ok_def)
  then show "rle_scratch_ok N st'" using assms(2,3) unfolding assms(4)
    by (simp add: rle_scratch_ok_def rle_encode_global_def Let_def rle_mark_boundaries_def scatter_boundary_positions_def rle_extract_values_def rle_extract_lengths_def)
qed (simp_all add: assms(4) rle_encode_global_def Let_def)

lemma rle_grow_scratch_state:
  fixes st :: "'a::len word rle_stage"
  assumes "rle_scratch_ok (unat (rl_fwd_scratch_n st)) st" "\<And>n. length (stale n) = n" "n < 2 ^ 31" "st' = rle_grow_scratch stale n st"
  shows "rl_cached_num_elements st' = rl_cached_num_elements st" "rl_chunk_size st' = rl_chunk_size st" "rl_is_inverse st' = rl_is_inverse st"
    "rl_fwd_sync_pending st' = rl_fwd_sync_pending st" "rl_dec_sync_pending st' = rl_dec_sync_pending st"
    "rle_scratch_ok (unat (rl_fwd_scratch_n st')) st'" "n \<le> unat (rl_fwd_scratch_n st')"
proof -
  have "unat (word_of_nat n :: size_t) = n" using assms(3) by (intro unat_64_small) simp
  then show "rle_scratch_ok (unat (rl_fwd_scratch_n st')) st'" "n \<le> unat (rl_fwd_scratch_n st')"
    using assms(1,2) unfolding assms(4) by (auto simp: rle_grow_scratch_def rle_scratch_ok_def)
qed (simp_all add: assms(4) rle_grow_scratch_def)

lemma rle_element_count:
  assumes "elem_type (t :: 'a::len itself)" "L < 2 ^ 31"
  shows "unat (word_of_nat L div word_of_nat (elem_size t) :: size_t) = L div elem_size t" "elem_size t * (L div elem_size t) \<le> L" "L div elem_size t < 2 ^ 31"
proof -
  have "unat (word_of_nat L :: size_t) = L" "unat (word_of_nat (elem_size t) :: size_t) = elem_size t"
    using assms(2) elem_size_bounds [OF assms(1)] by (simp_all add: unat_64_small)
  then show "unat (word_of_nat L div word_of_nat (elem_size t) :: size_t) = L div elem_size t" by (simp add: unat_div)
  show "elem_size t * (L div elem_size t) \<le> L" by simp
  show "L div elem_size t < 2 ^ 31" using div_le_dividend assms(2) by (rule le_less_trans)
qed

lemma rle_wire_fits:
  assumes "length (xs :: 'a::len word list) = n"
  shows "length (rle_wire xs) \<le> rleValuesOffset TYPE('a) + (elem_size TYPE('a) * n + pad4 (elem_size TYPE('a) * n)) + 4 * n"
proof -
  have m: "length (rle_reference xs) \<le> n" using run_count_bounds(2) [of xs] assms by (simp add: length_rle_reference)
  show ?thesis unfolding length_rle_wire using pad4_mono [OF mult_le_mono2 [OF m, of "elem_size TYPE('a)"]] m by linarith
qed

lemma rle_forward:
  fixes st :: "'a::len word rle_stage"
  assumes "elem_type TYPE('a)" "cub_ok cub" "\<not> rl_is_inverse st" "\<not> isChunked st" "rle_ready st" "length bs < 2 ^ 31"
    "n = length bs div elem_size TYPE('a)" "0 < n" "run_env_ok e"
  obtains st1 where "rle_run cub st e bs = Inr (rle_wire (words_of TYPE('a) n bs), st1)" "rl_cached_num_elements st1 = word_of_nat n"
    "rl_chunk_size st1 = rl_chunk_size st" "rl_is_inverse st1 = rl_is_inverse st" "rle_ready st1"
proof -
  let ?k = "elem_size TYPE('a)" and ?xs = "words_of TYPE('a) n bs"
  let ?out = "re_stale e (unat (rle_estimateOutputSize (word_of_nat (length bs)) st))"
  have sch: "sched_ok (re_sched e)" and stale: "\<And>n. length (re_stale e n) = n" using assms(9) by (simp_all add: run_env_ok_def)
  note C = rle_element_count [OF assms(1,6), folded assms(7)]
  define st2 where "st2 = rle_grow_scratch (re_stale e) n (st\<lparr>rl_cached_num_elements := word_of_nat n\<rparr>)"
  have sc0: "rle_scratch_ok (unat (rl_fwd_scratch_n (st\<lparr>rl_cached_num_elements := word_of_nat n\<rparr>))) (st\<lparr>rl_cached_num_elements := word_of_nat n\<rparr>)"
    and np: "\<not> rl_dec_sync_pending st" using assms(5) by (simp_all add: rle_ready_def rle_scratch_ok_def)
  note G = rle_grow_scratch_state [OF sc0 stale C(3) st2_def]
  define ob st3 where "ob = fst (rle_encode_global cub (re_sched e) n ?xs ?out st2)" and "st3 = snd (rle_encode_global cub (re_sched e) n ?xs ?out st2)"
  note S = rle_encode_global_state [OF assms(2) G(6,7) st3_def]
  have ch: "\<not> isChunked st2" "\<not> isChunked st3" using assms(4) G(2) S(2) by (simp_all add: isChunked_def)
  have fit: "length (rle_wire ?xs) \<le> length ?out"
    unfolding stale rle_estimate_forward [OF assms(1,3,4,6,7)] by (rule rle_wire_fits) simp
  have kn: "?k * n < 2 ^ 31" using C(2) assms(6) by linarith
  have so: "rle_scratch_ok n st2" using G(6,7) by (simp add: rle_scratch_ok_def)
  note E = rle_encode_global_spec [OF assms(2) sch length_words_of assms(8) C(3) kn so fit, folded ob_def st3_def]
  have ex: "rle_execute cub (re_sched e) (re_stale e) False [bs] [?out] [word_of_nat (length bs)] st = Inr ([ob], st3)"
    unfolding rle_execute_def using assms(3,8) ch(1) G(2) assms(4)
    by (simp add: Let_def C(1) isChunked_def st2_def [symmetric] ob_def st3_def case_prod_beta)
  let ?m = "length (rle_reference ?xs)"
  have m: "?m \<le> n" using run_count_bounds(2) [of ?xs] by (simp add: length_rle_reference)
  have km: "?k * ?m < 2 ^ 31" using mult_le_mono2 [OF m, of ?k] kn by linarith
  have pend: "rl_fwd_sync_pending st3" "\<not> rl_dec_sync_pending st3" using S(5,6) G(5) np by simp_all
  let ?st1 = "st3\<lparr>rl_actual_output_sizes := [word_of_nat (length (rle_wire ?xs))], rl_fwd_sync_pending := False\<rparr>"
  have sz: "rle_getActualOutputSize 0 st3 = (word_of_nat (length (rle_wire ?xs)), ?st1)"
    unfolding length_rle_wire by (rule rle_reported_size [OF assms(1) ch(2) pend E(2) km])
  have small: "length (rle_wire ?xs) < 2 ^ 40"
  proof -
    have "rleValuesOffset TYPE('a) \<le> 8" using elem_size_bounds [OF assms(1)] by (simp add: rleValuesOffset_def)
    then show ?thesis unfolding length_rle_wire using km m C(3) pad4_less [of "?k * ?m"] by simp
  qed
  have "rle_run cub st e bs = Inr (rle_wire ?xs, ?st1)"
    unfolding rle_run_def ex using sz small by (simp add: unat_64_small E(1))
  moreover have "rle_ready ?st1" using S(4,7) pend(2) by (simp add: rle_ready_def rle_scratch_ok_def)
  ultimately show thesis using that [of ?st1] S(1-3) G(1-3) by simp
qed

lemma rle_forward_empty:
  fixes st :: "'a::len word rle_stage"
  assumes "elem_type TYPE('a)" "\<not> rl_is_inverse st" "\<not> isChunked st" "rle_ready st" "length bs < elem_size TYPE('a)" "run_env_ok e"
  obtains st1 where "rle_run cub st e bs = Inr (le_bytes 4 0, st1)" "rl_cached_num_elements st1 = 0"
    "rl_chunk_size st1 = rl_chunk_size st" "rl_is_inverse st1 = rl_is_inverse st" "rle_ready st1"
proof -
  let ?out = "re_stale e (unat (rle_estimateOutputSize (word_of_nat (length bs)) st))"
  have L: "length bs < 2 ^ 31" "length bs div elem_size TYPE('a) = 0" using assms(5) elem_size_bounds [OF assms(1)] by simp_all
  have "4 \<le> length ?out" using assms(6) rleValuesOffset_ge [of "TYPE('a)"]
    unfolding rle_estimate_forward [OF assms(1-3) L(1) refl] by (simp add: run_env_ok_def rle_estimate_forward [OF assms(1-3) L(1) refl])
  then have t: "take 4 (put_at 0 (le_bytes 4 0) ?out) = le_bytes 4 0" by (intro nth_equalityI) (simp_all add: put_at_nth)
  let ?st1 = "st\<lparr>rl_cached_num_elements := 0, rl_actual_output_sizes := [4], rl_fwd_sync_pending := False\<rparr>"
  have "rle_execute cub (re_sched e) (re_stale e) False [bs] [?out] [word_of_nat (length bs)] st = Inr ([put_at 0 (le_bytes 4 0) ?out], ?st1)"
    unfolding rle_execute_def using assms(2) rle_element_count(1) [OF assms(1) L(1)] L(2) by (simp add: Let_def)
  moreover have "\<not> rl_dec_sync_pending st" using assms(4) by (simp add: rle_ready_def)
  ultimately have "rle_run cub st e bs = Inr (le_bytes 4 0, ?st1)" unfolding rle_run_def
    using t by (simp add: rle_getActualOutputSize_def completePendingSync_def completePendingDecodeSync_def Let_def)
  moreover have "rle_ready ?st1" using assms(4) by (simp add: rle_ready_def rle_scratch_ok_def)
  ultimately show thesis using that [of ?st1] by simp
qed

lemma rle_backward:
  fixes st :: "'a::len word rle_stage" and xs :: "'a word list"
  assumes "elem_type TYPE('a)" "cub_ok cub" "rl_is_inverse st" "\<not> isChunked st" "\<not> rl_fwd_sync_pending st"
    "rl_cached_num_elements st = word_of_nat (length xs)" "0 < length xs" "elem_size TYPE('a) * length xs < 2 ^ 31" "run_env_ok e"
  obtains st2 where "rle_run cub st e (rle_wire xs) = Inr (bytes_of xs, st2)"
proof -
  let ?k = "elem_size TYPE('a)" and ?R = "rle_reference xs" and ?w = "rle_wire xs" and ?n = "length xs"
  let ?out = "re_stale e (unat (rle_estimateOutputSize (word_of_nat (length ?w)) st))" and ?vo = "rleValuesOffset TYPE('a)"
  have k: "0 < ?k" "?k \<le> 8" using elem_size_bounds [OF assms(1)] by auto
  have sch: "sched_ok (re_sched e)" and stale: "\<And>n. length (re_stale e n) = n" using assms(9) by (simp_all add: run_env_ok_def)
  have n: "?n < 2 ^ 31" using assms(8) k(1) by (metis One_nat_def Suc_leI le_less_trans mult.commute mult_le_mono2 nat_mult_1_right)
  have c: "unat (rl_cached_num_elements st) = ?n" unfolding assms(6) using n by (rule unat_of_nat31)
  have cu: "(ucast (rl_cached_num_elements st) :: size_t) = word_of_nat ?n" unfolding c [symmetric] by simp
  have kn: "unat (word_of_nat ?n * word_of_nat ?k :: size_t) = ?k * ?n"
    using unat_64_small [of "?k * ?n"] assms(8) by (simp add: mult.commute)
  have pos: "0 < rl_cached_num_elements st" using c assms(7) by (simp add: word_less_nat_alt)
  have est: "unat (rle_estimateOutputSize (word_of_nat (length ?w)) st) = ?k * ?n"
    using assms(3) pos by (simp add: rle_estimateOutputSize_def Let_def cu kn)
  have lout: "length ?out = ?k * ?n" unfolding stale est ..
  have ln: "length ?out div ?k = ?n" unfolding lout using k(1) by simp
  have m: "length ?R \<le> ?n" "0 < length ?R" using run_count_bounds [of xs] assms(7) by (auto simp: length_rle_reference)
  have m31: "length ?R < 2 ^ 31" using m(1) n by linarith
  define mm where "mm = u32_at ?w 0"
  note P = rle_wire_parts [OF n, of "[]", unfolded append_Nil2]
  have mm: "mm = word_of_nat (length ?R)" "unat mm = length ?R"
  proof -
    show "mm = word_of_nat (length ?R)" unfolding mm_def u32_at_def using P(1) m31 by (simp add: le_val_le_bytes)
    then show "unat mm = length ?R" using m31 by (simp add: unat_of_nat31)
  qed
  have m0: "mm \<noteq> 0" using mm(2) m(2) by auto
  have mu: "(ucast mm :: size_t) = word_of_nat (length ?R)" unfolding mm(2) [symmetric] by simp
  have km: "?k * length ?R < 2 ^ 31" using mult_le_mono2 [OF m(1), of ?k] assms(8) by linarith
  have va: "unat ((ucast mm * word_of_nat ?k + 3 :: size_t) AND NOT 3) = ?k * length ?R + pad4 (?k * length ?R)"
  proof -
    have "(ucast mm * word_of_nat ?k + 3 :: size_t) AND NOT 3 = word_of_nat (?k * length ?R + pad4 (?k * length ?R))"
      unfolding mu using align4_64 [OF km] by (simp add: mult.commute)
    moreover have "?k * length ?R + pad4 (?k * length ?R) < 2 ^ 40" using km pad4_less [of "?k * length ?R"] by simp
    ultimately show ?thesis by (simp only: unat_64_small)
  qed
  have vals: "words_of TYPE('a) (length ?R) (drop ?vo ?w) = map fst ?R"
  proof -
    obtain r where "drop ?vo ?w = bytes_of (map fst ?R) @ r" using P(2) by blast
    then show ?thesis using words_of_bytes_of [OF assms(1), of "map fst ?R" r] by simp
  qed
  have t32: "elem_type TYPE(32)" by (simp add: elem_type_def)
  have lens: "words_of TYPE(32) (length ?R) (drop (?vo + (?k * length ?R + pad4 (?k * length ?R))) ?w) = map (\<lambda>r. word_of_nat (snd r)) ?R"
    unfolding P(3) using words_of_bytes_of [OF t32, of "map (\<lambda>r. word_of_nat (snd r)) ?R" "[]"] by simp
  let ?offs = "cub_inclusive cub (map (\<lambda>r. word_of_nat (snd r)) ?R)"
  have D: "rle_decompress (re_sched e) (map fst ?R) ?offs mm (words_of TYPE('a) ?n ?out) = xs"
    using rle_decompress_expands(1) [OF assms(2) sch n mm(2), of "words_of TYPE('a) ?n ?out"] by simp
  have "unat (?offs ! (length ?R - 1)) = sum_list (map snd (take (Suc (length ?R - 1)) ?R))"
    by (rule rle_decompress_expands(2) [where out = xs, OF assms(2) sch n mm(2)]) (use m(2) in simp_all)
  then have tot: "unat (?offs ! (length ?R - 1)) = ?n" using m(2) by (simp add: rle_reference_runs(5))
  then have tu: "(ucast (?offs ! (length ?R - 1)) :: size_t) = word_of_nat ?n" by (metis of_nat_unat)
  let ?st2 = "st\<lparr>rl_h_dec_total_size := ?offs ! (length ?R - 1), rl_dec_sync_pending := True\<rparr>"
  have dec: "rle_decode_global cub (re_sched e) ?w ?out st = (store_words xs ?out, ?st2)"
    unfolding rle_decode_global_def Let_def mm_def [symmetric] va mm(2) vals lens ln D using m0 by simp
  have "rle_execute cub (re_sched e) (re_stale e) False [?w] [?out] [word_of_nat (length ?w)] st = Inr ([store_words xs ?out], ?st2)"
    unfolding rle_execute_def using assms(3,4) dec by simp
  moreover have "rle_getActualOutputSize 0 ?st2 =
      (word_of_nat ?n * word_of_nat ?k, ?st2\<lparr>rl_actual_output_sizes := [word_of_nat ?n * word_of_nat ?k], rl_dec_sync_pending := False\<rparr>)"
    using assms(5) tu by (simp add: rle_getActualOutputSize_def completePendingSync_def completePendingDecodeSync_def)
  moreover have "take (?k * ?n) (store_words xs ?out) = bytes_of xs" by (simp add: store_words_def)
  ultimately show thesis using that kn by (simp add: rle_run_def)
qed

text \<open>
  C11. The run-length encoder is equivalent to a sequential one.  For every element type, every input of at least one whole element
  below 2 GB and every order of the
  threads of its five kernels, with any stale scratch from earlier runs, the whole-array path writes the documented wire format of
  the runs a sequential scan finds, never more bytes than the estimate the pipeline allocated, and leaves the stage ready for the
  next input.  The prefix sums of CUB return what their documentation says (\<open>cub_ok\<close>).
\<close>

theorem rle_encoder_equals_reference:
  fixes st :: "'a::len word rle_stage"
  assumes "elem_type TYPE('a)" "cub_ok cub" "\<not> rl_is_inverse st" "\<not> isChunked st" "rle_ready st" "length bs < 2 ^ 31"
    "elem_size TYPE('a) \<le> length bs" "run_env_ok e"
  shows "\<exists>st1. rle_run cub st e bs = Inr (rle_wire (words_of TYPE('a) (length bs div elem_size TYPE('a)) bs), st1) \<and> rle_ready st1 \<and>
    length (rle_wire (words_of TYPE('a) (length bs div elem_size TYPE('a)) bs)) \<le> unat (rle_estimateOutputSize (word_of_nat (length bs)) st)"
proof -
  have n: "0 < length bs div elem_size TYPE('a)" using assms(7) elem_size_bounds [OF assms(1)] by (simp add: div_greater_zero_iff)
  obtain st1 where "rle_run cub st e bs = Inr (rle_wire (words_of TYPE('a) (length bs div elem_size TYPE('a)) bs), st1)" "rle_ready st1"
    using rle_forward [OF assms(1-6) refl n assms(8)] by metis
  then show ?thesis unfolding rle_estimate_forward [OF assms(1,3,4,6) refl] using rle_wire_fits [OF length_words_of] by blast
qed

text \<open>
  C12. Run-length coding is lossless.  What the whole-array path wrote for an input below 2 GB, a stage rebuilt from the archived
  header and switched to the inverse direction expands to the whole elements of the input, whatever the devices of the two runs do;
  bytes behind the last whole element are not restored.
\<close>

theorem rle_lossless:
  fixes st :: "'a::len word rle_stage"
  assumes "elem_type TYPE('a)" "cub_ok cub" "cub_ok cub'" "\<not> rl_is_inverse st" "\<not> isChunked st" "rle_ready st" "length bs < 2 ^ 31"
    "run_env_ok e" "run_env_ok e'"
  shows "\<exists>c st1 st2. rle_run cub st e bs = Inr (c, st1) \<and>
    rle_run cub' (rle_decoder_of dt st1) e' c = Inr (take (elem_size TYPE('a) * (length bs div elem_size TYPE('a))) bs, st2)"
proof (cases "length bs < elem_size TYPE('a)")
  case True
  obtain st1 where s: "rle_run cub st e bs = Inr (le_bytes 4 0, st1)" "rl_cached_num_elements st1 = 0" "rl_chunk_size st1 = rl_chunk_size st"
    using rle_forward_empty [OF assms(1,4-6) True assms(8)] by metis
  have "\<not> isChunked (rle_decoder_of dt st1)" using assms(5) s(3) by (simp add: isChunked_def rle_decoder_of_def rle_header_restores)
  then have "\<exists>st2. rle_run cub' (rle_decoder_of dt st1) e' (le_bytes 4 0) = Inr ([], st2)"
    by (simp add: rle_run_def rle_execute_def rle_decode_global_def Let_def u32_at_def le_val_le_bytes rle_decoder_of_def rle_header_restores
        rle_getActualOutputSize_def completePendingSync_def completePendingDecodeSync_def new_rle_def)
  then show ?thesis using s(1) True by (metis div_less mult_0_right take_0)
next
  case False
  let ?n = "length bs div elem_size TYPE('a)" and ?xs = "words_of TYPE('a) (length bs div elem_size TYPE('a)) bs"
  have n: "0 < ?n" using False elem_size_bounds [OF assms(1)] by (simp add: div_greater_zero_iff)
  obtain st1 where s: "rle_run cub st e bs = Inr (rle_wire ?xs, st1)" "rl_cached_num_elements st1 = word_of_nat ?n" "rl_chunk_size st1 = rl_chunk_size st"
    using rle_forward [OF assms(1,2,4-7) refl n assms(8)] by metis
  note C = rle_element_count(2) [OF assms(1,7)]
  let ?d = "rle_decoder_of dt st1"
  have d: "rl_is_inverse ?d" "\<not> isChunked ?d" "\<not> rl_fwd_sync_pending ?d" "rl_cached_num_elements ?d = word_of_nat (length ?xs)"
    using assms(5) s(2,3) by (simp_all add: isChunked_def rle_decoder_of_def rle_header_restores new_rle_def)
  have "elem_size TYPE('a) * length ?xs < 2 ^ 31" using le_less_trans [OF C assms(7)] by simp
  then obtain st2 where "rle_run cub' ?d e' (rle_wire ?xs) = Inr (bytes_of ?xs, st2)"
    using rle_backward [OF assms(1,3) d _ _ assms(9)] n by (metis length_words_of)
  moreover have "bytes_of ?xs = take (elem_size TYPE('a) * ?n) bs" using bytes_of_words_of [OF assms(1) C] .
  ultimately show ?thesis using s(1) by auto
qed

text \<open>The scans as the library documents them, for the examples.\<close>

definition plain_cub :: cub_lib where
  "plain_cub = \<lparr>cub_inclusive = (\<lambda>xs. map (\<lambda>i. sum_list (take (Suc i) xs)) [0..<length xs]),
     cub_exclusive = (\<lambda>xs. map (\<lambda>i. sum_list (take i xs)) [0..<length xs]),
     cub_block = (\<lambda>xs. (map (\<lambda>i. sum_list (take i xs)) [0..<length xs], sum_list xs))\<rparr>"

lemma plain_cub_ok: "cub_ok plain_cub"
  by (simp add: cub_ok_def plain_cub_def)

lemma new_rle_ready: "rle_ready (new_rle\<lparr>rl_chunk_size := k\<rparr>)" "rle_ready new_rle"
  by (simp_all add: rle_ready_def rle_scratch_ok_def new_rle_def)

theorem rle_encoder_equals_reference_witness:
  "\<exists>st1. rle_run plain_cub (new_rle :: 16 word rle_stage) \<lparr>re_sched = rev, re_stale = (\<lambda>n. replicate n 7)\<rparr> [5, 0, 5, 0, 7, 0] =
     Inr ([2, 0, 0, 0, 5, 0, 7, 0, 2, 0, 0, 0, 1, 0, 0, 0], st1) \<and> rle_ready st1"
proof -
  have w: "rle_wire (words_of TYPE(16) (length [5, 0, 5, 0, 7, 0 :: u8] div elem_size TYPE(16)) [5, 0, 5, 0, 7, 0]) = [2, 0, 0, 0, 5, 0, 7, 0, 2, 0, 0, 0, 1, 0, 0, 0]"
    by code_simp
  have a: "elem_type TYPE(16)" "\<not> rl_is_inverse (new_rle :: 16 word rle_stage)" "\<not> isChunked (new_rle :: 16 word rle_stage)"
    "length [5, 0, 5, 0, 7, 0 :: u8] < 2 ^ 31" "elem_size TYPE(16) \<le> length [5, 0, 5, 0, 7, 0 :: u8]"
    "run_env_ok \<lparr>re_sched = rev, re_stale = (\<lambda>n. replicate n 7)\<rparr>"
    by (simp_all add: elem_type_def new_rle_def isChunked_def elem_size_def run_env_ok_def sched_ok_def)
  show ?thesis using rle_encoder_equals_reference [OF a(1) plain_cub_ok a(2,3) new_rle_ready(2) a(4-6)] unfolding w by blast
qed

theorem rle_lossless_witness:
  "\<exists>c st1 st2. rle_run plain_cub (new_rle :: 16 word rle_stage) \<lparr>re_sched = rev, re_stale = (\<lambda>n. replicate n 7)\<rparr> [5, 0, 5, 0, 7, 0, 9] = Inr (c, st1) \<and>
     rle_run plain_cub (rle_decoder_of 1 st1) \<lparr>re_sched = id, re_stale = (\<lambda>n. replicate n 0)\<rparr> c = Inr ([5, 0, 5, 0, 7, 0], st2)"
proof -
  have a: "elem_type TYPE(16)" "\<not> rl_is_inverse (new_rle :: 16 word rle_stage)" "\<not> isChunked (new_rle :: 16 word rle_stage)"
    "length [5, 0, 5, 0, 7, 0, 9 :: u8] < 2 ^ 31"
    "run_env_ok \<lparr>re_sched = rev, re_stale = (\<lambda>n. replicate n 7)\<rparr>" "run_env_ok \<lparr>re_sched = id, re_stale = (\<lambda>n. replicate n 0)\<rparr>"
    by (simp_all add: elem_type_def new_rle_def isChunked_def elem_size_def run_env_ok_def sched_ok_def)
  have t: "take (elem_size TYPE(16) * (length [5, 0, 5, 0, 7, 0, 9 :: u8] div elem_size TYPE(16))) [5, 0, 5, 0, 7, 0, 9 :: u8] = [5, 0, 5, 0, 7, 0]"
    by (simp add: elem_size_def)
  show ?thesis using rle_lossless [OF a(1) plain_cub_ok plain_cub_ok a(2,3) new_rle_ready(2) a(4-6), of 1] unfolding t .
qed

end
