(* ===== verification/Rle_Chunked.thy ===== *)
theory Rle_Chunked
  imports Rle
begin

section \<open>The chunked run-length path\<close>

text \<open>
  The chunked kernels of \<open>Rle\<close> against the same sequential reference, applied to every chunk by itself: the encoder blocks, the
  offset table, the compaction pass and the decoder blocks, and the round trip through the archived header.
\<close>

subsection \<open>Chunks\<close>

definition chunk_of :: "nat \<Rightarrow> 'v list \<Rightarrow> nat \<Rightarrow> 'v list" where
  "chunk_of E xs c = take E (drop (c * E) xs)"

lemma length_chunk_of: "length (chunk_of E xs c) = rle_chunk_len (length xs) E c"
  by (simp add: chunk_of_def rle_chunk_len_def Let_def)

lemma chunk_of_nth: "i < length (chunk_of E xs c) \<Longrightarrow> chunk_of E xs c ! i = xs ! (c * E + i) \<and> c * E + i < length xs \<and> i < E"
  unfolding chunk_of_def by (subst nth_take; simp add: nth_drop less_diff_conv add.commute)

lemma chunk_flag:
  assumes "i < length (chunk_of E xs c)"
  shows "(i = 0 \<or> xs ! (c * E + i) \<noteq> xs ! (c * E + i - 1)) \<longleftrightarrow> run_start (chunk_of E xs c) i"
proof (cases i)
  case (Suc j)
  then have "j < length (chunk_of E xs c)" using assms by simp
  then show ?thesis using chunk_of_nth [OF assms] chunk_of_nth [of j E xs c] Suc by (simp add: run_start_def)
qed (simp add: run_start_def)

text \<open>How many runs start before a position.\<close>

definition runs_before :: "'v list \<Rightarrow> nat \<Rightarrow> nat" where
  "runs_before ch i = length (filter (\<lambda>j. j < length ch \<and> run_start ch j) [0..<i])"

lemma runs_before_add: "runs_before ch (a + b) = runs_before ch a + length (filter (\<lambda>t. a + t < length ch \<and> run_start ch (a + t)) [0..<b])"
proof -
  have "[0..<a + b] = [0..<a] @ map ((+) a) [0..<b]" by (induction b) simp_all
  then show ?thesis by (simp add: runs_before_def filter_map comp_def)
qed

lemma runs_before_all: "length ch \<le> i \<Longrightarrow> runs_before ch i = length (run_starts ch)"
proof -
  assume "length ch \<le> i"
  then obtain b where b: "i = length ch + b" using le_iff_add by blast
  have "filter (\<lambda>j. j < length ch \<and> run_start ch j) [0..<length ch] = run_starts ch" unfolding run_starts_def by (rule filter_cong) auto
  then show ?thesis unfolding b runs_before_add by (simp add: runs_before_def)
qed

lemma runs_before_mono: "i \<le> j \<Longrightarrow> runs_before ch i \<le> runs_before ch j"
  by (metis le_iff_add runs_before_add le_add1)

lemma runs_before_le: "runs_before ch i \<le> length (run_starts ch)"
proof (cases "length ch \<le> i")
  case False
  then show ?thesis using runs_before_mono [of i "length ch" ch] runs_before_all [of ch "length ch"] by simp
qed (simp add: runs_before_all)

lemma runs_before_start:
  assumes "i < length ch" "run_start ch i"
  shows "runs_before ch i < length (run_starts ch)" "run_starts ch ! runs_before ch i = i"
proof -
  have "filter (\<lambda>j. j < length ch \<and> run_start ch j) [0..<i] = filter (run_start ch) [0..<i]" using assms(1) by (intro filter_cong) auto
  then have "run_rank ch i - 1 = runs_before ch i" using assms(2) by (simp add: run_rank_def runs_before_def)
  then show "runs_before ch i < length (run_starts ch)" "run_starts ch ! runs_before ch i = i" using run_rank_start [OF assms] by simp_all
qed

lemma runs_before_of_start:
  assumes "r < length (run_starts ch)"
  shows "runs_before ch (run_starts ch ! r) = r"
  using runs_before_start [OF run_starts_rank(1,2) [OF assms]] assms nth_eq_iff_index_eq [OF distinct_run_starts] by blast

lemma run_starts_between:
  assumes "runs_before ch a \<le> r" "r < runs_before ch b"
  shows "a \<le> run_starts ch ! r" "run_starts ch ! r < b"
proof -
  have r: "r < length (run_starts ch)" using assms(2) runs_before_le [of ch b] by linarith
  let ?i = "run_starts ch ! r"
  have i: "?i < length ch" "run_start ch ?i" "runs_before ch ?i = r" using run_starts_rank(1,2) [OF r] runs_before_of_start [OF r] by simp_all
  show "?i < b" using runs_before_mono [of b ?i ch] assms(2) i(3) by (metis not_less)
  have "runs_before ch (Suc ?i) = Suc r" using runs_before_add [of ch ?i 1] i by simp
  then show "a \<le> ?i" using runs_before_mono [of "Suc ?i" a ch] assms(1) by (metis Suc_n_not_le_n le_trans not_less_eq_eq)
qed

subsection \<open>A block of the encoder\<close>

text \<open>The tiles done so far have placed their runs.\<close>

definition tiles_placed :: "'a::len word list \<Rightarrow> nat \<Rightarrow> nat \<Rightarrow> 'a word list \<Rightarrow> u32 list \<Rightarrow> bool" where
  "tiles_placed ch start t vals starts \<longleftrightarrow> (\<forall>r<runs_before ch t. vals ! (start + r) = ch ! (run_starts ch ! r) \<and>
     starts ! (start + r) = word_of_nat (run_starts ch ! r))"

lemma encode_tile_step:
  fixes xs :: "'a::len word list"
  assumes "cub_ok cub" "sched_ok sched" "ch = chunk_of E xs c" "length ch < 2 ^ 31"
    and "c * E + length ch \<le> length vals" "c * E + length ch \<le> length starts" "tiles_placed ch (c * E) t vals starts"
    and "rle_encode_tile cub sched xs (c * E) (length ch) t (vals, starts, word_of_nat (runs_before ch t)) = (vals', starts', base')"
  shows "base' = word_of_nat (runs_before ch (t + 256))" "tiles_placed ch (c * E) (t + 256) vals' starts'"
    "length vals' = length vals" "length starts' = length starts"
    "\<And>j. j < c * E \<or> c * E + length ch \<le> j \<Longrightarrow> j < length vals \<Longrightarrow> vals' ! j = vals ! j"
proof -
  let ?start = "c * E" and ?S = "run_starts ch"
  define P where "P = (\<lambda>i. i < length ch \<and> run_start ch i)"
  have flag: "map (\<lambda>k. let i = t + k in if i < length ch \<and> (i = 0 \<or> xs ! (?start + i) \<noteq> xs ! (?start + i - 1)) then 1 else 0) [0..<256] =
      map (\<lambda>k. if P (t + k) then 1 else (0 :: u32)) [0..<256]"
  proof -
    have "(i < length ch \<and> (i = 0 \<or> xs ! (?start + i) \<noteq> xs ! (?start + i - 1))) = P i" for i
      unfolding P_def assms(3) using chunk_flag [of i E xs c] by blast
    then show ?thesis by (simp only: Let_def)
  qed
  have ex: "word_of_nat (runs_before ch t) + sum_list (take k (map (\<lambda>k. if P (t + k) then 1 else (0 :: u32)) [0..<256])) = word_of_nat (runs_before ch (t + k))"
    if "k \<le> 256" for k
    unfolding runs_before_add using that by (simp add: take_map sum_flags P_def)
  have small: "runs_before ch i < 2 ^ 31" for i
    using runs_before_le [of ch i] run_count_bounds(2) [of ch] assms(4) by linarith
  let ?w = "\<lambda>f. map (\<lambda>k. (?start + runs_before ch (t + k), if P (t + k) then [f (t + k)] else [])) [0..<256]"
  have run: "vals' = run_puts sched (?w ((!) ch)) vals" "starts' = run_puts sched (?w word_of_nat) starts" "base' = word_of_nat (runs_before ch (t + 256))"
  proof -
    let ?fl = "map (\<lambda>k. if P (t + k) then 1 else (0 :: u32)) [0..<256]"
    have cb: "cub_block cub ?fl = (map (\<lambda>i. sum_list (take i ?fl)) [0..<256], sum_list ?fl)" using assms(1) by (simp add: cub_ok_def)
    have at: "?start + unat (word_of_nat (runs_before ch t) + map (\<lambda>i. sum_list (take i ?fl)) [0..<256] ! k) = ?start + runs_before ch (t + k)" if "k < 256" for k
    proof -
      have "word_of_nat (runs_before ch t) + map (\<lambda>i. sum_list (take i ?fl)) [0..<256] ! k = word_of_nat (runs_before ch (t + k))"
        using ex [of k] that by simp
      then show ?thesis using unat_of_nat31 [OF small] by simp
    qed
    have v: "map (\<lambda>k. (?start + unat (word_of_nat (runs_before ch t) + map (\<lambda>i. sum_list (take i ?fl)) [0..<256] ! k),
        if ?fl ! k \<noteq> 0 then [xs ! (?start + (t + k))] else [])) [0..<256] = ?w ((!) ch)"
      using chunk_of_nth [of _ E xs c] at by (intro map_cong refl) (simp add: P_def assms(3))
    have s: "map (\<lambda>k. (?start + unat (word_of_nat (runs_before ch t) + map (\<lambda>i. sum_list (take i ?fl)) [0..<256] ! k),
        if ?fl ! k \<noteq> 0 then [word_of_nat (t + k)] else [])) [0..<256] = ?w (word_of_nat :: nat \<Rightarrow> u32)"
      using at by (intro map_cong refl) simp
    have "(vals', starts', base') = (run_puts sched (?w ((!) ch)) vals, run_puts sched (?w word_of_nat) starts, word_of_nat (runs_before ch t) + sum_list ?fl)"
      unfolding assms(8) [symmetric] rle_encode_tile_def prod.case Let_def flag [unfolded Let_def] cb fst_conv snd_conv v s ..
    moreover have "word_of_nat (runs_before ch t) + sum_list ?fl = word_of_nat (runs_before ch (t + 256))" using ex [of 256] by simp
    ultimately show "vals' = run_puts sched (?w ((!) ch)) vals" "starts' = run_puts sched (?w word_of_nat) starts"
      "base' = word_of_nat (runs_before ch (t + 256))" by simp_all
  qed
  show "base' = word_of_nat (runs_before ch (t + 256))" by (rule run(3))
  show "length vals' = length vals" "length starts' = length starts" unfolding run by simp_all
  have ag: "\<forall>w\<in>set (?w f). agrees (\<lambda>j. f (?S ! (j - ?start))) w" for f :: "nat \<Rightarrow> 'v"
    using runs_before_start(2) [of _ ch] by (auto simp: agrees_def P_def)
  have cov: "(\<exists>w\<in>set (?w f). covers w j) \<longleftrightarrow> (\<exists>k<256. P (t + k) \<and> j = ?start + runs_before ch (t + k))" for f :: "nat \<Rightarrow> 'v" and j
  proof -
    have "(\<exists>w\<in>set (?w f). covers w j) \<longleftrightarrow> (\<exists>k\<in>{0..<256}. covers (?start + runs_before ch (t + k), if P (t + k) then [f (t + k)] else []) j)"
      by (simp only: set_map set_upt bex_simps)
    then show ?thesis by (auto simp: covers_def split: if_splits)
  qed
  note V = run_puts_nth(2) [OF assms(2) ag [of "(!) ch"], unfolded cov]
  note W = run_puts_nth(2) [OF assms(2) ag [of word_of_nat], unfolded cov]
  show "vals' ! j = vals ! j" if "j < ?start \<or> ?start + length ch \<le> j" "j < length vals" for j
  proof -
    have none: "\<not> (\<exists>k<256. P (t + k) \<and> j = ?start + runs_before ch (t + k))"
      using that(1) runs_before_start(1) [of _ ch] run_count_bounds(2) [of ch] by (fastforce simp: P_def)
    then show ?thesis using V [OF that(2)] unfolding run(1) if_not_P [OF none] by simp
  qed
  show "tiles_placed ch ?start (t + 256) vals' starts'" unfolding tiles_placed_def
  proof (intro allI impI)
    fix r assume r: "r < runs_before ch (t + 256)"
    have rl: "r < length ?S" using r runs_before_le [of ch "t + 256"] by linarith
    have rn: "?start + r < length vals" "?start + r < length starts" using rl run_count_bounds(2) [of ch] assms(5,6) by linarith+
    have "(\<exists>k<256. P (t + k) \<and> ?start + r = ?start + runs_before ch (t + k)) \<or> r < runs_before ch t"
    proof (cases "r < runs_before ch t")
      case False
      then have "t \<le> ?S ! r \<and> ?S ! r < t + 256" using run_starts_between [of ch t r "t + 256"] r by simp
      moreover have "P (?S ! r)" "runs_before ch (?S ! r) = r" using run_starts_rank(1,2) [OF rl] runs_before_of_start [OF rl] by (simp_all add: P_def)
      ultimately have "?S ! r - t < 256 \<and> P (t + (?S ! r - t)) \<and> ?start + r = ?start + runs_before ch (t + (?S ! r - t))" by auto
      then show ?thesis by blast
    qed simp
    then show "vals' ! (?start + r) = ch ! (?S ! r) \<and> starts' ! (?start + r) = word_of_nat (?S ! r)"
      using V [OF rn(1)] W [OF rn(2)] assms(7) unfolding tiles_placed_def run(1,2) by auto
  qed
qed

lemma encode_tiles:
  fixes xs :: "'a::len word list"
  assumes "cub_ok cub" "sched_ok sched" "ch = chunk_of E xs c" "length ch < 2 ^ 31"
    and "c * E + length ch \<le> length vals" "c * E + length ch \<le> length starts" "tiles_placed ch (c * E) t vals starts"
    and "fold (rle_encode_tile cub sched xs (c * E) (length ch)) (stride_from t 256 (length ch)) (vals, starts, word_of_nat (runs_before ch t)) = (vals', starts', base')"
  shows "base' = word_of_nat (length (run_starts ch)) \<and> tiles_placed ch (c * E) (length ch) vals' starts' \<and>
    length vals' = length vals \<and> length starts' = length starts \<and>
    (\<forall>j<length vals. j < c * E \<or> c * E + length ch \<le> j \<longrightarrow> vals' ! j = vals ! j)"
  using assms(5-8)
proof (induction t "256 :: nat" "length ch" arbitrary: vals starts rule: stride_from.induct)
  case (1 t)
  show ?case
  proof (cases "t < length ch")
    case False
    then have s: "stride_from t 256 (length ch) = []" by (subst stride_from.simps) simp
    have "runs_before ch t = runs_before ch (length ch)" using False by (simp add: runs_before_all)
    then show ?thesis using 1(2-5) False unfolding s by (auto simp: tiles_placed_def runs_before_all)
  next
    case True
    then have s: "stride_from t 256 (length ch) = t # stride_from (t + 256) 256 (length ch)" by (subst stride_from.simps) simp
    obtain v1 s1 b1 where step: "rle_encode_tile cub sched xs (c * E) (length ch) t (vals, starts, word_of_nat (runs_before ch t)) = (v1, s1, b1)"
      by (metis prod_cases3)
    note T = encode_tile_step [OF assms(1-4) 1(2,3,4) step]
    have f: "fold (rle_encode_tile cub sched xs (c * E) (length ch)) (stride_from (t + 256) 256 (length ch)) (v1, s1, word_of_nat (runs_before ch (t + 256))) = (vals', starts', base')"
      using 1(5) unfolding s fold_simps step T(1) .
    have "base' = word_of_nat (length (run_starts ch)) \<and> tiles_placed ch (c * E) (length ch) vals' starts' \<and>
        length vals' = length v1 \<and> length starts' = length s1 \<and>
        (\<forall>j<length v1. j < c * E \<or> c * E + length ch \<le> j \<longrightarrow> vals' ! j = v1 ! j)"
      by (rule 1(1) [OF _ _ _ T(2) f]) (use True 1(2,3) T(3,4) in simp_all)
    then show ?thesis using T(3-5) by simp
  qed
qed

text \<open>What a finished block leaves: the runs of its chunk from the chunk's first place on, and their number.\<close>

definition chunk_done :: "nat \<Rightarrow> 'a::len word list \<Rightarrow> nat \<Rightarrow> 'a word list \<times> u32 list \<times> u32 list \<times> u32 list \<Rightarrow> bool" where
  "chunk_done E xs c s = (case s of (vals, lens, starts, rpc) \<Rightarrow>
     rpc ! c = word_of_nat (length (rle_reference (chunk_of E xs c))) \<and>
     (\<forall>r<length (rle_reference (chunk_of E xs c)). vals ! (c * E + r) = fst (rle_reference (chunk_of E xs c) ! r) \<and>
        lens ! (c * E + r) = word_of_nat (snd (rle_reference (chunk_of E xs c) ! r))))"

definition chunk_arrays_ok :: "nat \<Rightarrow> nat \<Rightarrow> 'a::len word list \<times> u32 list \<times> u32 list \<times> u32 list \<Rightarrow> bool" where
  "chunk_arrays_ok n nc s = (case s of (vals, lens, starts, rpc) \<Rightarrow>
     n \<le> length vals \<and> n \<le> length lens \<and> n \<le> length starts \<and> nc \<le> length rpc)"

lemma rle_reference_nth:
  assumes "r < length (run_starts ch)"
  shows "fst (rle_reference ch ! r) = ch ! (run_starts ch ! r)"
    "snd (rle_reference ch ! r) = (if r + 1 < length (run_starts ch) then run_starts ch ! (r + 1) else length ch) - run_starts ch ! r"
proof -
  have "map fst (rle_reference ch) ! r = map ((!) ch) (run_starts ch) ! r" unfolding rle_reference_runs(3) ..
  then show "fst (rle_reference ch ! r) = ch ! (run_starts ch ! r)" using assms by (simp add: length_rle_reference)
  show "snd (rle_reference ch ! r) = (if r + 1 < length (run_starts ch) then run_starts ch ! (r + 1) else length ch) - run_starts ch ! r"
    unfolding run_end_sum [OF assms] by simp
qed

lemma encode_block_spec:
  fixes xs :: "'a::len word list"
  assumes "cub_ok cub" "sched_ok sched" "length xs = n" "n < 2 ^ 31" "c * E < n" "c < nc" "chunk_arrays_ok n nc s"
    and "s' = rle_chunk_encode_block cub sched xs n E c s"
  shows "chunk_done E xs c s'" "chunk_arrays_ok n nc s'" "\<And>c'. c' \<noteq> c \<Longrightarrow> c' * E < n \<Longrightarrow> chunk_done E xs c' s \<Longrightarrow> chunk_done E xs c' s'"
proof -
  define ch where "ch = chunk_of E xs c"
  obtain vals lens starts rpc where s: "s = (vals, lens, starts, rpc)" by (metis prod_cases4)
  have len: "rle_chunk_len n E c = length ch" unfolding ch_def length_chunk_of assms(3) ..
  have ce: "c * E + length ch \<le> n" "length ch \<le> E" using assms(5) unfolding len [symmetric] by (auto simp: rle_chunk_len_def Let_def)
  have l31: "length ch < 2 ^ 31" using ce(1) assms(4) by linarith
  have A: "n \<le> length vals" "n \<le> length lens" "n \<le> length starts" "nc \<le> length rpc" using assms(7) unfolding s chunk_arrays_ok_def by auto
  have le: "c * E + length ch \<le> length vals" "c * E + length ch \<le> length starts" using ce(1) A by linarith+
  obtain v1 s1 b1 where f: "fold (rle_encode_tile cub sched xs (c * E) (length ch)) (stride_from 0 256 (length ch)) (vals, starts, 0) = (v1, s1, b1)"
    by (metis prod_cases3)
  have r0: "(0 :: u32) = word_of_nat (runs_before ch 0)" by (simp add: runs_before_def)
  have t0: "tiles_placed ch (c * E) 0 vals starts" by (simp add: tiles_placed_def runs_before_def)
  let ?S = "run_starts ch" and ?R = "rle_reference ch"
  let ?m = "length ?S"
  have E: "b1 = word_of_nat ?m" "\<And>r. r < ?m \<Longrightarrow> v1 ! (c * E + r) = ch ! (?S ! r) \<and> s1 ! (c * E + r) = word_of_nat (?S ! r)"
    "length v1 = length vals" "length s1 = length starts" "\<And>j. j < length vals \<Longrightarrow> j < c * E \<or> c * E + length ch \<le> j \<Longrightarrow> v1 ! j = vals ! j"
    using encode_tiles [OF assms(1,2) ch_def l31 le t0 f [unfolded r0]] by (auto simp: tiles_placed_def runs_before_all)
  have m: "?m \<le> length ch" by (rule run_count_bounds(2))
  then have um: "unat b1 = ?m" unfolding E(1) using l31 by (intro unat_of_nat31) linarith
  let ?w = "\<lambda>r. (c * E + r, [(if r + 1 < unat b1 then s1 ! (c * E + r + 1) else word_of_nat (length ch)) - s1 ! (c * E + r)])"
  let ?rs = "concat (map (\<lambda>tid. stride_from tid 256 (unat b1)) [0..<256])"
  define l1 where "l1 = run_puts sched (map ?w ?rs) lens"
  have s': "s' = (v1, l1, s1, rpc[c := b1])"
    unfolding assms(8) rle_chunk_encode_block_def s prod.case Let_def len using assms(5) f by (simp add: l1_def)
  have rs: "set ?rs = {..<?m}" using stride_from_cover [of 256 "unat b1"] unfolding um by (auto simp: atLeast0LessThan)
  let ?W = "\<lambda>j. word_of_nat (snd (?R ! (j - c * E))) :: u32"
  have wv: "?w r = (c * E + r, [?W (c * E + r)])" if r: "r < ?m" for r
  proof -
    have "snd (?R ! r) = (if r + 1 < ?m then ?S ! (r + 1) else length ch) - ?S ! r" by (rule rle_reference_nth(2) [OF r])
    moreover have "?S ! r \<le> (if r + 1 < ?m then ?S ! (r + 1) else length ch)" using run_end_sum [OF r] by simp
    ultimately show ?thesis using E(2) [of r] E(2) [of "Suc r"] r by (auto simp: um of_nat_diff)
  qed
  have ag: "\<forall>w\<in>set (map ?w ?rs). agrees ?W w" using wv unfolding set_map rs by (auto simp: agrees_def)
  have cov: "(\<exists>w\<in>set (map ?w ?rs). covers w j) \<longleftrightarrow> (\<exists>r<?m. j = c * E + r)" for j
    unfolding set_map rs bex_simps by (auto simp: covers_def)
  have ll: "length l1 = length lens" by (simp add: l1_def)
  note L = run_puts_nth(2) [OF assms(2) ag, where out = lens, folded l1_def, unfolded cov]
  show "chunk_arrays_ok n nc s'" using A E(3,4) ll by (simp add: s' chunk_arrays_ok_def)
  show "chunk_done E xs c s'"
  proof -
    have "l1 ! (c * E + r) = word_of_nat (snd (?R ! r))" if r: "r < ?m" for r
    proof -
      have "c * E + r < length lens" using r m ce(1) A(2) by linarith
      from L [OF this] r show ?thesis by auto
    qed
    moreover have "v1 ! (c * E + r) = fst (?R ! r)" if "r < ?m" for r using E(2) [OF that] rle_reference_nth(1) [OF that] by simp
    ultimately show ?thesis using assms(6) A(4) E(1) by (simp add: s' chunk_done_def ch_def [symmetric] length_rle_reference)
  qed
  show "chunk_done E xs c' s'" if c': "c' \<noteq> c" "c' * E < n" "chunk_done E xs c' s" for c'
  proof -
    define ch' where "ch' = chunk_of E xs c'"
    have lc: "length ch' \<le> E" "c' * E + length ch' \<le> n" using c'(2) unfolding ch'_def length_chunk_of assms(3) by (auto simp: rle_chunk_len_def Let_def)
    have apart: "c' * E + r < c * E \<or> c * E + length ch \<le> c' * E + r" if "r < length ch'" for r
    proof (cases "c' < c")
      case True
      then have "Suc c' * E \<le> c * E" by (intro mult_le_mono1) simp
      then show ?thesis using that lc(1) by simp
    next
      case False
      then have "Suc c * E \<le> c' * E" using c'(1) by (intro mult_le_mono1) simp
      then show ?thesis using ce(2) by simp
    qed
    have "v1 ! (c' * E + r) = vals ! (c' * E + r) \<and> l1 ! (c' * E + r) = lens ! (c' * E + r)" if r: "r < length (run_starts ch')" for r
    proof -
      have rl: "r < length ch'" using r run_count_bounds(2) [of ch'] by linarith
      then have in_range: "c' * E + r < length vals" "c' * E + r < length lens" using lc(2) A by linarith+
      have none: "\<not> (\<exists>q<?m. c' * E + r = c * E + q)" using apart [OF rl] m by auto
      show ?thesis using E(5) [OF in_range(1) apart [OF rl]] L [OF in_range(2)] unfolding if_not_P [OF none] by simp
    qed
    then show ?thesis using c'(1,3) by (simp add: s' s chunk_done_def ch'_def [symmetric] length_rle_reference)
  qed
qed

lemma chunk_encode_spec:
  fixes xs :: "'a::len word list"
  assumes "cub_ok cub" "sched_ok sched" "length xs = n" "n < 2 ^ 31" "\<And>c. c < nc \<Longrightarrow> c * E < n" "chunk_arrays_ok n nc s"
  shows "chunk_arrays_ok n nc (rle_chunk_encode cub sched xs n E nc s)" "c < nc \<Longrightarrow> chunk_done E xs c (rle_chunk_encode cub sched xs n E nc s)"
proof -
  have "chunk_arrays_ok n nc (fold (rle_chunk_encode_block cub sched xs n E) cs s) \<and> (\<forall>c\<in>set cs. chunk_done E xs c (fold (rle_chunk_encode_block cub sched xs n E) cs s))"
    if "set cs \<subseteq> {..<nc}" for cs
    using that
  proof (induction cs rule: rev_induct)
    case (snoc c cs)
    let ?s = "fold (rle_chunk_encode_block cub sched xs n E) cs s"
    have c: "c < nc" "c * E < n" using snoc.prems assms(5) by auto
    have IH: "chunk_arrays_ok n nc ?s" "\<forall>c\<in>set cs. chunk_done E xs c ?s" using snoc by auto
    note B = encode_block_spec [OF assms(1-4) c(2,1) IH(1) refl]
    have "chunk_done E xs c' (rle_chunk_encode_block cub sched xs n E c ?s)" if "c' \<in> set cs" for c'
      using B(1) B(3) [of c'] IH(2) that snoc.prems assms(5) by (cases "c' = c") auto
    then show ?case using B(1,2) by auto
  qed (simp add: assms(6))
  moreover have "set (sched [0..<nc]) = {..<nc}" by (auto simp: sched_set [OF assms(2)])
  ultimately show "chunk_arrays_ok n nc (rle_chunk_encode cub sched xs n E nc s)" "c < nc \<Longrightarrow> chunk_done E xs c (rle_chunk_encode cub sched xs n E nc s)"
    unfolding rle_chunk_encode_def by simp_all
qed

subsection \<open>The wire format of the chunked path\<close>

text \<open>Lists laid out one after the other, indexed by list and place.\<close>

definition offset_of :: "(nat \<Rightarrow> 'v list) \<Rightarrow> nat \<Rightarrow> nat" where
  "offset_of f c = length (concat (map f [0..<c]))"

lemma offset_of_Suc: "offset_of f (Suc c) = offset_of f c + length (f c)"
  by (simp add: offset_of_def)

lemma offset_of_mono: "c \<le> d \<Longrightarrow> offset_of f c \<le> offset_of f d"
  by (induction d) (auto simp: offset_of_Suc le_Suc_eq)

lemma concat_at:
  assumes "c < m" "r < length (f c)"
  shows "offset_of f c + r < offset_of f m" "concat (map f [0..<m]) ! (offset_of f c + r) = f c ! r"
proof -
  have "offset_of f (Suc c) \<le> offset_of f m" using assms(1) by (intro offset_of_mono) simp
  then show "offset_of f c + r < offset_of f m" using assms(2) by (simp add: offset_of_Suc)
  have "[0..<m] = [0..<c] @ c # [Suc c..<m]" using assms(1) upt_add_eq_append [of 0 c "m - c"] by (simp add: upt_conv_Cons)
  then show "concat (map f [0..<m]) ! (offset_of f c + r) = f c ! r" using assms(2) by (simp add: offset_of_def nth_append)
qed

lemma offset_cases: "i < offset_of f m \<Longrightarrow> \<exists>c<m. \<exists>r<length (f c). i = offset_of f c + r"
proof (induction m)
  case 0
  then show ?case by (simp add: offset_of_def)
next
  case (Suc m)
  show ?case
  proof (cases "i < offset_of f m")
    case True
    then show ?thesis using Suc.IH less_Suc_eq by blast
  next
    case False
    then have "i - offset_of f m < length (f m) \<and> i = offset_of f m + (i - offset_of f m)" using Suc.prems by (simp add: offset_of_Suc)
    then show ?thesis by blast
  qed
qed

definition chunk_runs :: "nat \<Rightarrow> 'a::len word list \<Rightarrow> nat \<Rightarrow> ('a word \<times> nat) list" where
  "chunk_runs E xs c = rle_reference (chunk_of E xs c)"

definition chunk_count :: "nat \<Rightarrow> nat \<Rightarrow> nat" where
  "chunk_count E n = (n + E - 1) div E"

definition all_runs :: "nat \<Rightarrow> 'a::len word list \<Rightarrow> ('a word \<times> nat) list" where
  "all_runs E xs = concat (map (chunk_runs E xs) [0..<chunk_count E (length xs)])"

definition rle_table :: "nat \<Rightarrow> 'a::len word list \<Rightarrow> nat list" where
  "rle_table E xs = chunk_count E (length xs) # map (offset_of (chunk_runs E xs)) [0..<Suc (chunk_count E (length xs))]"

definition chunked_offset :: "'a::len itself \<Rightarrow> nat \<Rightarrow> nat" where
  "chunked_offset t nc = (if 4 < elem_size t then (4 * (nc + 2) + elem_size t - 1) div elem_size t * elem_size t else 4 * (nc + 2))"

definition rle_chunked_layout :: "nat \<Rightarrow> 'a::len word list \<Rightarrow> u8 list list" where
  "rle_chunked_layout E xs =
     (let R = all_runs E xs; nc = chunk_count E (length xs) in
      [replicate (chunked_offset TYPE('a) nc - 4 * (nc + 2)) 0] @ map (\<lambda>r. le_bytes (elem_size TYPE('a)) (unat (fst r))) R @
      [replicate (pad4 (elem_size TYPE('a) * length R)) 0] @ map (\<lambda>r. le_bytes 4 (snd r)) R)"

text \<open>The documented format: chunk count, run offsets, padding, values, padding, run lengths.\<close>

definition rle_chunked_wire :: "nat \<Rightarrow> 'a::len word list \<Rightarrow> u8 list" where
  "rle_chunked_wire E xs = concat (map (le_bytes 4) (rle_table E xs)) @ concat (rle_chunked_layout E xs)"

lemma length_all_runs: "length (all_runs E xs) = offset_of (chunk_runs E xs) (chunk_count E (length xs))"
  by (simp only: all_runs_def offset_of_def)

lemma length_rle_table: "length (concat (map (le_bytes 4) (rle_table E xs))) = 4 * (chunk_count E (length xs) + 2)"
  by (simp add: length_concat_const rle_table_def)

lemma chunked_offset_ge: "4 * (nc + 2) \<le> chunked_offset t nc" "chunked_offset t nc < 4 * (nc + 2) + 8" if "elem_type (t :: 'a::len itself)"
  using that by (auto simp: chunked_offset_def elem_type_def elem_size_def)

lemma u32_at_table: "i < length vs \<Longrightarrow> u32_at (concat (map (le_bytes 4) vs) @ rest) i = word_of_nat (vs ! i)"
proof (induction vs arbitrary: i)
  case (Cons v vs)
  show ?case
  proof (cases i)
    case 0
    have "word_of_nat (v mod 2 ^ 32) = (word_of_nat v :: u32)" by (simp add: word_unat_eq_iff unat_of_nat)
    then show ?thesis using 0 by (simp add: u32_at_def le_val_le_bytes)
  next
    case (Suc j)
    have "u32_at (le_bytes 4 v @ rest') (Suc j) = u32_at rest' j" for rest' by (simp add: u32_at_def)
    then show ?thesis using Cons Suc by simp
  qed
qed simp

lemma put_at_append:
  assumes "length A = d" "length B = length ys"
  shows "put_at d ys (A @ B @ C) = A @ ys @ C"
  using assms by (intro nth_equalityI) (auto simp: put_at_nth nth_append)

lemma chunk_count_last:
  assumes "0 < E" "0 < n"
  shows "0 < chunk_count E n" "c < chunk_count E n \<longleftrightarrow> c * E < n" "chunk_count E n \<le> n"
proof -
  show c: "c < chunk_count E n \<longleftrightarrow> c * E < n" for c
  proof
    assume "c < chunk_count E n"
    then have "Suc c * E \<le> n + E - 1" unfolding chunk_count_def using assms(1) by (metis Suc_leI less_eq_div_iff_mult_less_eq)
    then show "c * E < n" using assms(1) by simp
  next
    assume "c * E < n"
    then have "Suc c * E \<le> n + E - 1" using assms(1) by simp
    then show "c < chunk_count E n" unfolding chunk_count_def using assms(1) by (metis Suc_le_lessD less_eq_div_iff_mult_less_eq)
  qed
  show "0 < chunk_count E n" using c [of 0] assms(2) by simp
  have "\<not> n < chunk_count E n" using c [of n] assms by simp
  then show "chunk_count E n \<le> n" by simp
qed

lemma expand_total: "length (chunk_runs E xs c) \<le> length (chunk_of E xs c)"
  using run_count_bounds(2) [of "chunk_of E xs c"] by (simp add: chunk_runs_def length_rle_reference)

lemma offset_le_elements: "c * E \<le> length xs \<Longrightarrow> offset_of (chunk_runs E xs) c \<le> c * E"
proof (induction c)
  case 0
  then show ?case by (simp add: offset_of_def)
next
  case (Suc c)
  have "length (chunk_runs E xs c) \<le> E" using expand_total [of E xs c] by (simp add: chunk_of_def)
  then show ?case using Suc by (simp add: offset_of_Suc)
qed

lemma all_runs_le: "0 < E \<Longrightarrow> length (all_runs E xs) \<le> length xs"
proof (cases "chunk_count E (length xs)")
  case (Suc c)
  assume E: "0 < E"
  have n: "0 < length xs" using Suc E by (cases xs) (simp_all add: chunk_count_def)
  have c: "c * E < length xs" using chunk_count_last(2) [OF E n, of c] Suc by simp
  have "length (chunk_runs E xs c) \<le> length xs - c * E" using expand_total [of E xs c] by (simp add: chunk_of_def)
  then show ?thesis using offset_le_elements [of c E xs] c unfolding length_all_runs Suc offset_of_Suc by simp
qed (simp add: length_all_runs offset_of_def)

subsection \<open>The offset table and the compaction\<close>

lemma sum_of_nats: "sum_list (map (\<lambda>x. word_of_nat (f x)) xs) = (word_of_nat (sum_list (map f xs)) :: 'b::len word)"
  by (induction xs) simp_all

lemma offset_of_sum: "offset_of f c = sum_list (map (\<lambda>i. length (f i)) [0..<c])"
  by (induction c) (simp_all add: offset_of_Suc offset_of_def)

lemma offset_table_written:
  fixes xs :: "'a::len word list"
  assumes "cub_ok cub" "0 < E" "0 < length xs" "length xs < 2 ^ 31" "nc = chunk_count E (length xs)" "nc \<le> length rpc"
    and "\<And>c. c < nc \<Longrightarrow> rpc ! c = word_of_nat (length (chunk_runs E xs c))" "4 * (nc + 2) \<le> length out"
    and "out2 = rle_chunk_finalize_offsets rpc nc (put_at 4 (bytes_of (cub_exclusive cub (take nc rpc))) out)"
  shows "take (4 * (nc + 2)) out2 = concat (map (le_bytes 4) (rle_table E xs))" "length out2 = length out"
    "drop (4 * (nc + 2)) out2 = drop (4 * (nc + 2)) out"
proof -
  let ?D = "offset_of (chunk_runs E xs)"
  have D31: "?D c < 2 ^ 31" if "c \<le> nc" for c
    using offset_of_mono [OF that, of "chunk_runs E xs"] all_runs_le [OF assms(2), of xs] assms(4) unfolding length_all_runs assms(5) by linarith
  have tk: "take i (take nc rpc) = map (\<lambda>c. word_of_nat (length (chunk_runs E xs c))) [0..<i]" if "i \<le> nc" for i
    using assms(6,7) that by (intro nth_equalityI) auto
  have ex: "cub_exclusive cub (take nc rpc) = map (\<lambda>c. word_of_nat (?D c)) [0..<nc]"
  proof -
    have "cub_exclusive cub (take nc rpc) = map (\<lambda>i. sum_list (take i (take nc rpc))) [0..<nc]" using assms(1,6) by (simp add: cub_ok_def)
    also have "\<dots> = map (\<lambda>c. word_of_nat (?D c)) [0..<nc]"
      by (rule map_cong) (simp_all add: tk offset_of_sum sum_of_nats del: take_take)
    finally show ?thesis .
  qed
  let ?T = "\<lambda>k. concat (map (le_bytes 4) (map ?D [0..<k]))"
  have b: "bytes_of (cub_exclusive cub (take nc rpc)) = ?T nc"
    unfolding ex bytes_of_def map_map comp_def elem_size_def by (intro arg_cong [where f = concat] map_cong refl) (simp add: unat_of_nat31 [OF D31 [OF less_imp_le]])
  define A B C X where "A = take 4 out" and "B = take (4 * nc) (drop 4 out)" and "C = take 4 (drop (4 * nc + 4) out)" and "X = drop (4 * nc + 8) out"
  have out: "out = A @ B @ C @ X"
  proof -
    have "drop (4 * nc) (drop 4 out) = drop (4 * nc + 4) out" "drop 4 (drop (4 * nc + 4) out) = X" by (simp_all add: X_def add.commute)
    then show ?thesis unfolding A_def B_def C_def by (metis append_take_drop_id)
  qed
  have l: "length A = 4" "length B = 4 * nc" "length C = 4" using assms(8) by (simp_all add: A_def B_def C_def)
  have lt: "length (?T k) = 4 * k" for k by (simp add: length_concat_const)
  have o1: "put_at 4 (?T nc) out = A @ ?T nc @ C @ X" unfolding out by (rule put_at_append) (simp_all only: l lt)
  have o2: "put_at 0 (le_bytes 4 nc) (A @ ?T nc @ C @ X) = le_bytes 4 nc @ ?T nc @ C @ X"
    using put_at_append [of "[]" 0 A "le_bytes 4 nc" "?T nc @ C @ X"] l by simp
  have nc: "0 < nc" using chunk_count_last(1) [OF assms(2,3)] assms(5) by simp
  have at: "u32_at (le_bytes 4 nc @ ?T nc @ C @ X) nc = word_of_nat (?D (nc - 1))"
    using u32_at_table [of nc "nc # map ?D [0..<nc]" "C @ X"] nc by (simp add: nth_Cons')
  have last: "le_bytes 4 (unat (u32_at (le_bytes 4 nc @ ?T nc @ C @ X) nc + rpc ! (nc - 1))) = le_bytes 4 (?D nc)"
  proof -
    have "rpc ! (nc - 1) = word_of_nat (length (chunk_runs E xs (nc - 1)))" using assms(7) [of "nc - 1"] nc by simp
    then have "u32_at (le_bytes 4 nc @ ?T nc @ C @ X) nc + rpc ! (nc - 1) = word_of_nat (?D (Suc (nc - 1)))" unfolding at offset_of_Suc by simp
    then show ?thesis using nc D31 [of nc] by (simp add: unat_of_nat31)
  qed
  have "put_at (4 * (1 + nc)) (le_bytes 4 (?D nc)) ((le_bytes 4 nc @ ?T nc) @ C @ X) = (le_bytes 4 nc @ ?T nc) @ le_bytes 4 (?D nc) @ X"
    by (rule put_at_append) (simp_all only: l lt length_append length_le_bytes add_mult_distrib2 mult_1_right)
  then have o3: "out2 = (le_bytes 4 nc @ ?T nc @ le_bytes 4 (?D nc)) @ X"
    unfolding assms(9) rle_chunk_finalize_offsets_def b o1 Let_def o2 last by simp
  have "le_bytes 4 nc @ ?T nc @ le_bytes 4 (?D nc) = concat (map (le_bytes 4) (rle_table E xs))" unfolding rle_table_def assms(5) [symmetric] by simp
  then have o4: "out2 = concat (map (le_bytes 4) (rle_table E xs)) @ X" using o3 by simp
  show "take (4 * (nc + 2)) out2 = concat (map (le_bytes 4) (rle_table E xs))"
    unfolding o4 using length_rle_table [of E xs] assms(5) by simp
  show "length out2 = length out" unfolding o4 using length_rle_table [of E xs] assms(5,8) by (simp add: X_def)
  show "drop (4 * (nc + 2)) out2 = drop (4 * (nc + 2)) out" unfolding o4 using length_rle_table [of E xs] assms(5) by (simp add: X_def add.commute)
qed

lemma chunk_compact_wire:
  fixes xs :: "'a::len word list"
  assumes "elem_type TYPE('a)" "sched_ok sched" "0 < E" "0 < length xs" "elem_size TYPE('a) * length xs < 2 ^ 31" "nc = chunk_count E (length xs)"
    and "\<And>c r. c < nc \<Longrightarrow> r < length (chunk_runs E xs c) \<Longrightarrow> vals ! (c * E + r) = fst (chunk_runs E xs c ! r) \<and> unat (lens ! (c * E + r) :: u32) = snd (chunk_runs E xs c ! r)"
    and "take (4 * (nc + 2)) out = concat (map (le_bytes 4) (rle_table E xs))" "length (rle_chunked_wire E xs) \<le> length out"
  shows "rle_chunk_compact sched vals lens E nc (chunked_offset TYPE('a) nc) out = rle_chunked_wire E xs @ drop (length (rle_chunked_wire E xs)) out"
proof -
  let ?D = "offset_of (chunk_runs E xs)" and ?k = "elem_size TYPE('a)" and ?R = "all_runs E xs" and ?vo = "chunked_offset TYPE('a) nc"
    and ?P = "concat (map (le_bytes 4) (rle_table E xs))"
  let ?T = "length ?R"
  have k: "0 < ?k" using elem_size_bounds [OF assms(1)] by simp
  have T: "?T = ?D nc" "?T \<le> length xs" using all_runs_le [OF assms(3)] by (simp_all add: length_all_runs assms(6))
  have n31: "length xs < 2 ^ 31" using assms(5) k by (metis One_nat_def Suc_leI le_less_trans mult.commute mult_le_mono2 nat_mult_1_right)
  have D31: "?D c < 2 ^ 31" if "c \<le> nc" for c using offset_of_mono [OF that, of "chunk_runs E xs"] T n31 by linarith
  have kT: "?k * ?T < 2 ^ 31" using mult_le_mono2 [OF T(2), of ?k] assms(5) by linarith
  have lP: "length ?P = 4 * (nc + 2)" unfolding length_rle_table assms(6) ..
  have out: "out = ?P @ drop (4 * (nc + 2)) out" using assms(8) by (metis append_take_drop_id)
  have tab: "u32_at out (1 + c) = word_of_nat (?D c)" if "c \<le> nc" for c
  proof -
    have "1 + c < length (rle_table E xs)" "rle_table E xs ! (1 + c) = ?D c" using that by (simp_all add: rle_table_def assms(6) [symmetric] del: upt_Suc)
    then show ?thesis using u32_at_table [of "1 + c" "rle_table E xs" "drop (4 * (nc + 2)) out"] out by simp
  qed
  have uD: "unat (u32_at out (1 + c)) = ?D c" if "c \<le> nc" for c unfolding tab [OF that] using D31 [OF that] by (rule unat_of_nat31)
  have um: "unat (u32_at out (1 + (c + 1)) - u32_at out (1 + c)) = length (chunk_runs E xs c)" if "c < nc" for c
  proof -
    have "u32_at out (1 + (c + 1)) - u32_at out (1 + c) = word_of_nat (length (chunk_runs E xs c))"
      using tab [of c] tab [of "c + 1"] that by (simp add: offset_of_Suc)
    moreover have "length (chunk_runs E xs c) < 2 ^ 31" using D31 [of "Suc c"] that by (simp add: offset_of_Suc)
    ultimately show ?thesis using unat_of_nat31 by simp
  qed
  have tot: "u32_at out (1 + nc) = word_of_nat ?T" using tab [of nc] T(1) by simp
  have vb: "unat (u32_at out (1 + nc) * word_of_nat ?k) = ?k * ?T"
  proof -
    have "u32_at out (1 + nc) * word_of_nat ?k = word_of_nat (?k * ?T)" unfolding tot by (simp add: mult.commute)
    then show ?thesis using kT by (simp only: unat_of_nat31)
  qed
  have va: "unat ((u32_at out (1 + nc) * word_of_nat ?k + 3) AND NOT 3) = ?k * ?T + pad4 (?k * ?T)"
    using unat_align4 [of "u32_at out (1 + nc) * word_of_nat ?k"] kT unfolding vb by simp
  have pad: "unat (((u32_at out (1 + nc) * word_of_nat ?k + 3) AND NOT 3) - u32_at out (1 + nc) * word_of_nat ?k) = pad4 (?k * ?T)"
    using va vb by (simp add: unat_sub word_le_nat_alt)
  let ?val = "\<lambda>i. (?vo + ?k * i, le_bytes ?k (unat (fst (?R ! i))))" and ?len = "\<lambda>i. (?vo + (?k * ?T + pad4 (?k * ?T)) + 4 * i, le_bytes 4 (snd (?R ! i)))"
  have at: "?R ! (?D c + r) = chunk_runs E xs c ! r" "?D c + r < ?T" if "c < nc" "r < length (chunk_runs E xs c)" for c r
    using concat_at [where f = "chunk_runs E xs", OF that] T(1) by (simp_all add: all_runs_def assms(6))
  have rs: "set (concat (map (\<lambda>tid. stride_from tid 256 m) [0..<256])) = {..<m}" for m
    using stride_from_cover [of 256 m] by (auto simp: atLeast0LessThan)
  have two: "set (concat (map (\<lambda>r. [f r, g r]) is)) = (\<Union>r\<in>set is. {f r, g r})" for f g :: "nat \<Rightarrow> nat \<times> u8 list" and "is"
    by auto
  let ?B = "rle_chunk_compact_block vals lens out E nc ?vo"
  have block: "w \<in> set (?B c) \<longleftrightarrow> (c = 0 \<and> (w = (4 * (nc + 2), replicate (?vo - 4 * (nc + 2)) 0) \<or> w = (?vo + ?k * ?T, replicate (pad4 (?k * ?T)) 0))) \<or>
      (\<exists>r<length (chunk_runs E xs c). w = ?val (?D c + r) \<or> w = ?len (?D c + r))" if c: "c < nc" for w c
  proof -
    have le: "c \<le> nc" using c by simp
    have "set (?B c) = (if c = 0 then {(4 * (nc + 2), replicate (?vo - 4 * (nc + 2)) 0), (?vo + ?k * ?T, replicate (pad4 (?k * ?T)) 0)} else {}) \<union>
        (\<Union>r\<in>{..<length (chunk_runs E xs c)}. {(?vo + ?k * (?D c + r), le_bytes ?k (unat (vals ! (c * E + r)))),
           (?vo + (?k * ?T + pad4 (?k * ?T)) + 4 * (?D c + r), le_bytes 4 (unat (lens ! (c * E + r))))})"
      unfolding rle_chunk_compact_block_def Let_def vb va pad uD [OF le] um [OF c] set_append two rs by (cases "c = 0") simp_all
    also have "\<dots> = (if c = 0 then {(4 * (nc + 2), replicate (?vo - 4 * (nc + 2)) 0), (?vo + ?k * ?T, replicate (pad4 (?k * ?T)) 0)} else {}) \<union>
        (\<Union>r\<in>{..<length (chunk_runs E xs c)}. {?val (?D c + r), ?len (?D c + r)})"
      using assms(7) [OF c] at [OF c] by simp
    finally show ?thesis by auto
  qed
  have vo: "4 * (nc + 2) \<le> ?vo" by (rule chunked_offset_ge(1) [OF assms(1)])
  have placed: "set (placed (length ?P) (rle_chunked_layout E xs)) =
      {(4 * (nc + 2), replicate (?vo - 4 * (nc + 2)) 0), (?vo + ?k * ?T, replicate (pad4 (?k * ?T)) 0)} \<union> ?val ` {..<?T} \<union> ?len ` {..<?T}"
    unfolding lP using vo
    by (auto simp: rle_chunked_layout_def Let_def placed_append placed_map_const length_concat_const assms(6) [symmetric] add.assoc)
  have nc: "0 < nc" using chunk_count_last(1) [OF assms(3,4)] assms(6) by simp
  have ws: "w \<in> set (concat (map ?B [0..<nc])) \<longleftrightarrow> w \<in> set (placed (length ?P) (rle_chunked_layout E xs))" for w
  proof
    assume "w \<in> set (concat (map ?B [0..<nc]))"
    then obtain c where c: "c < nc" "w \<in> set (?B c)" by auto
    from c(2) show "w \<in> set (placed (length ?P) (rle_chunked_layout E xs))" unfolding block [OF c(1)] placed using at(2) [OF c(1)] by blast
  next
    assume "w \<in> set (placed (length ?P) (rle_chunked_layout E xs))"
    then consider "w \<in> {(4 * (nc + 2), replicate (?vo - 4 * (nc + 2)) 0), (?vo + ?k * ?T, replicate (pad4 (?k * ?T)) 0)}"
      | i where "i < ?T" "w = ?val i \<or> w = ?len i" unfolding placed by blast
    then have "\<exists>c<nc. w \<in> set (?B c)"
    proof cases
      case 1
      then show ?thesis using block [OF nc] nc by blast
    next
      case 2
      then obtain c r where "c < nc" "r < length (chunk_runs E xs c)" "i = ?D c + r" using offset_cases [of i "chunk_runs E xs" nc] T(1) by auto
      then show ?thesis using block 2(2) by blast
    qed
    then show "w \<in> set (concat (map ?B [0..<nc]))" by auto
  qed
  have lw: "length ?P + length (concat (rle_chunked_layout E xs)) \<le> length out" using assms(9) unfolding rle_chunked_wire_def length_append .
  have tP: "take (length ?P) out = ?P" using assms(8) unfolding lP .
  show ?thesis unfolding rle_chunk_compact_def run_puts_behind [OF assms(2) ws tP lw] by (simp add: rle_chunked_wire_def)
qed

subsection \<open>The chunked encoder writes the runs of its chunks\<close>

lemma encode_tile_lengths:
  "rle_encode_tile cub sched xs start len t (vals, starts, b) = (vals', starts', b') \<Longrightarrow> length vals' = length vals \<and> length starts' = length starts"
  by (auto simp: rle_encode_tile_def Let_def)

lemma encode_tiles_lengths:
  "fold (rle_encode_tile cub sched xs start len) ts (vals, starts, b) = (vals', starts', b') \<Longrightarrow> length vals' = length vals \<and> length starts' = length starts"
proof (induction ts arbitrary: vals starts b)
  case (Cons t ts)
  obtain v s c where t: "rle_encode_tile cub sched xs start len t (vals, starts, b) = (v, s, c)" by (metis prod_cases3)
  then have "fold (rle_encode_tile cub sched xs start len) ts (v, s, c) = (vals', starts', b')" using Cons.prems by simp
  from Cons.IH [OF this] encode_tile_lengths [OF t] show ?case by simp
qed simp

definition array_lengths :: "'a::len word list \<times> u32 list \<times> u32 list \<times> u32 list \<Rightarrow> nat \<times> nat \<times> nat \<times> nat" where
  "array_lengths s = (case s of (vals, lens, starts, rpc) \<Rightarrow> (length vals, length lens, length starts, length rpc))"

lemma encode_lengths: "array_lengths (rle_chunk_encode cub sched xs n E nc s) = array_lengths s"
proof -
  have "array_lengths (rle_chunk_encode_block cub sched xs n E c s) = array_lengths s" for c s
  proof -
    obtain vals lens starts rpc where s: "s = (vals, lens, starts, rpc)" by (metis prod_cases4)
    obtain v1 s1 b1 where f: "fold (rle_encode_tile cub sched xs (c * E) (rle_chunk_len n E c)) (stride_from 0 256 (rle_chunk_len n E c)) (vals, starts, 0) = (v1, s1, b1)"
      by (metis prod_cases3)
    show ?thesis using encode_tiles_lengths [OF f] by (simp add: rle_chunk_encode_block_def s Let_def f array_lengths_def)
  qed
  then show ?thesis unfolding rle_chunk_encode_def by (intro fold_invariant [where Q = "\<lambda>_. True" and P = "\<lambda>s'. array_lengths s' = array_lengths s"]) simp_all
qed

definition chunk_elems :: "'a::len word rle_stage \<Rightarrow> nat" where
  "chunk_elems st = unat (rl_chunk_size st) div elem_size TYPE('a)"

lemma chunk_numbers:
  fixes st :: "'a::len word rle_stage"
  assumes "elem_type TYPE('a)" "isChunked st"
  shows "unat (elemsPerChunk st) = chunk_elems st" "0 < chunk_elems st"
    "L < 2 ^ 31 \<Longrightarrow> unat (numChunks st (word_of_nat L)) = chunk_count (chunk_elems st) (L div elem_size TYPE('a))"
proof -
  let ?k = "elem_size TYPE('a)" and ?E = "chunk_elems st"
  have k: "0 < ?k" "?k \<le> 8" using elem_size_bounds [OF assms(1)] by auto
  have uk: "unat (word_of_nat ?k :: size_t) = ?k" using k(2) by (simp add: unat_64_small)
  have c32: "unat (rl_chunk_size st) < 2 ^ 32" using unat_less_pow [of "rl_chunk_size st"] by simp
  have E32: "?E < 2 ^ 32" unfolding chunk_elems_def using c32 div_le_dividend le_less_trans by blast
  have d: "unat (ucast (rl_chunk_size st) div word_of_nat ?k :: size_t) = ?E" by (simp add: unat_div uk chunk_elems_def unsigned_ucast_eq) (use c32 in \<open>simp add: take_bit_nat_eq_self\<close>)
  then have "(ucast (rl_chunk_size st) div word_of_nat ?k :: size_t) = word_of_nat ?E" by (metis of_nat_unat ucast_id)
  then have e: "elemsPerChunk st = word_of_nat ?E" unfolding elemsPerChunk_def using d by (metis of_nat_unat)
  then show u: "unat (elemsPerChunk st) = ?E" using E32 by (simp add: unat_of_nat32)
  show pos: "0 < ?E" using assms(2) k(1) by (simp add: isChunked_def chunk_elems_def div_greater_zero_iff)
  assume L: "L < 2 ^ 31"
  note C = rle_element_count [OF assms(1) L]
  have ue: "unat (ucast (elemsPerChunk st) :: size_t) = ?E" using u E32 by (simp add: unsigned_ucast_eq take_bit_nat_eq_self)
  then have e0: "(ucast (elemsPerChunk st) :: size_t) \<noteq> 0" using pos by auto
  let ?n = "word_of_nat L div word_of_nat ?k :: size_t" and ?e = "ucast (elemsPerChunk st) :: size_t"
  have "unat (?n + ?e) = L div ?k + ?E" using C(1,3) ue E32 by (simp add: unat_word_ariths)
  moreover have "(1 :: size_t) \<le> ?n + ?e" using calculation pos by (simp add: word_le_nat_alt)
  ultimately have "unat (?n + ?e - 1) = L div ?k + ?E - 1" by (simp add: unat_sub)
  then show "unat (numChunks st (word_of_nat L)) = chunk_count ?E (L div ?k)"
    using e0 by (simp add: numChunks_def Let_def unat_div ue chunk_count_def)
qed

lemma chunked_values_offset:
  assumes "elem_type (t :: 'a::len itself)" "nc < 2 ^ 31"
  shows "rleChunkedValuesOffset t (word_of_nat nc) = word_of_nat (chunked_offset t nc)"
proof -
  have hdr: "((word_of_nat nc + 2) * 4 :: size_t) = word_of_nat (4 * (nc + 2))" by simp
  show ?thesis
  proof (cases "4 < elem_size t")
    case True
    then have k: "elem_size t = 8" using assms(1) by (auto simp: elem_type_def elem_size_def)
    let ?y = "word_of_nat (4 * (nc + 2) + 7) :: size_t"
    have u: "unat ?y = 4 * (nc + 2) + 7" using assms(2) by (intro unat_64_small) simp
    have m: "(7 :: size_t) = mask 3" by (simp add: mask_eq_exp_minus_1)
    have s: "3 \<le> n \<Longrightarrow> Suc (Suc (Suc (n - 3))) = n" for n by simp
    have a: "?y AND NOT 7 = push_bit 3 (drop_bit 3 ?y)" unfolding m by (rule bit_word_eqI) (auto simp: bit_simps s)
    have "unat (?y AND NOT 7) = (4 * (nc + 2) + 7) div 8 * 8"
      unfolding a unsigned_push_bit_eq unsigned_drop_bit_eq u using assms(2)
      by (simp add: push_bit_eq_mult drop_bit_eq_div take_bit_eq_mod)
    then have "?y AND NOT 7 = word_of_nat ((4 * (nc + 2) + 7) div 8 * 8)" by (metis of_nat_unat ucast_id)
    moreover have "rleChunkedValuesOffset t (word_of_nat nc) = ?y AND NOT 7"
      unfolding rleChunkedValuesOffset_def Let_def hdr using k by (simp add: algebra_simps)
    moreover have "chunked_offset t nc = (4 * (nc + 2) + 7) div 8 * 8" unfolding chunked_offset_def using k by (simp only: if_True) simp
    ultimately show ?thesis by simp
  qed (simp add: rleChunkedValuesOffset_def chunked_offset_def hdr Let_def)
qed

lemma length_rle_chunked_wire:
  assumes "elem_type TYPE('a::len)" "nc = chunk_count E (length (xs :: 'a word list))" "T = length (all_runs E xs)"
  shows "length (rle_chunked_wire E xs) = chunked_offset TYPE('a) nc + (elem_size TYPE('a) * T + pad4 (elem_size TYPE('a) * T)) + 4 * T"
  using chunked_offset_ge(1) [OF assms(1), of nc] length_rle_table [of E xs]
  by (simp add: rle_chunked_wire_def rle_chunked_layout_def Let_def length_concat_const assms(2) [symmetric] assms(3) [symmetric])

lemma chunked_wire_head:
  assumes "nc = chunk_count E (length (xs :: 'a::len word list))" "length xs < 2 ^ 31"
  shows "4 * (nc + 2) \<le> length (rle_chunked_wire E xs)"
  using length_rle_table [of E xs] assms(1) by (simp add: rle_chunked_wire_def)

lemma rle_encode_chunked_spec:
  fixes inp :: "'a::len word list"
  assumes "elem_type TYPE('a)" "cub_ok cub" "sched_ok sched" "length inp = n" "0 < n" "isChunked st" "E = chunk_elems st" "L < 2 ^ 31"
    "n = L div elem_size TYPE('a)" "rle_scratch_ok N st" "n \<le> N" "length (rle_chunked_wire E inp) \<le> length out" "chunk_count E n < 2 ^ 29"
    and "out' = fst (rle_encode_chunked cub sched (word_of_nat L) n inp out st)" "st' = snd (rle_encode_chunked cub sched (word_of_nat L) n inp out st)"
  shows "out' = rle_chunked_wire E inp @ drop (length (rle_chunked_wire E inp)) out"
    "rl_h_num_runs st' = word_of_nat (length (all_runs E inp))" "rl_cached_num_elements st' = rl_cached_num_elements st"
    "rl_chunk_size st' = rl_chunk_size st" "rl_is_inverse st' = rl_is_inverse st" "rl_fwd_scratch_n st' = rl_fwd_scratch_n st"
    "rl_fwd_sync_pending st'" "rl_dec_sync_pending st' = rl_dec_sync_pending st" "rle_scratch_ok N st'"
proof -
  let ?k = "elem_size TYPE('a)"
  define nc where "nc = chunk_count E n"
  note C = rle_element_count [OF assms(1,8), folded assms(9)]
  have E: "unat (elemsPerChunk st) = E" "0 < E" using chunk_numbers(1,2) [OF assms(1,6)] assms(7) by simp_all
  note K = chunk_count_last [OF E(2) assms(5), folded nc_def]
  have kn: "?k * n < 2 ^ 31" using C(2) assms(8) by linarith
  have nc29: "nc < 2 ^ 29" using assms(13) by (simp add: nc_def)
  then have nc31: "nc < 2 ^ 31" by simp
  have "unat (numChunks st (word_of_nat L)) = nc" using chunk_numbers(3) [OF assms(1,6,8)] unfolding assms(7) [symmetric] assms(9) [symmetric] nc_def .
  then have ncs: "unat (ucast (numChunks st (word_of_nat L)) :: u32) = nc" using unat_of_nat31 [OF nc31] by (metis of_nat_unat)
  have vos: "unat (ucast (rleChunkedValuesOffset TYPE('a) (word_of_nat nc)) :: u32) = chunked_offset TYPE('a) nc"
  proof -
    have "chunked_offset TYPE('a) nc < 2 ^ 32" using chunked_offset_ge(2) [OF assms(1), of nc] nc29 by simp
    then show ?thesis unfolding chunked_values_offset [OF assms(1) nc31] by (simp add: unsigned_ucast_eq unat_of_nat take_bit_nat_eq_self)
  qed
  obtain vals lens starts rpc where r: "rle_chunk_encode cub sched inp n E nc (rl_values_scratch st, rl_lengths_scratch st, rl_boundary_positions st, rl_boundary_scan st) = (vals, lens, starts, rpc)"
    by (rule prod_cases4)
  have ok0: "chunk_arrays_ok n nc (rl_values_scratch st, rl_lengths_scratch st, rl_boundary_positions st, rl_boundary_scan st)"
    using assms(10,11) K(3) by (simp add: rle_scratch_ok_def chunk_arrays_ok_def)
  have al: "length vals = length (rl_values_scratch st)" "length lens = length (rl_lengths_scratch st)" "length starts = length (rl_boundary_positions st)"
    "length rpc = length (rl_boundary_scan st)"
    using encode_lengths [of cub sched inp n E nc "(rl_values_scratch st, rl_lengths_scratch st, rl_boundary_positions st, rl_boundary_scan st)"]
    unfolding r by (simp_all add: array_lengths_def)
  have lt: "c * E < n" if "c < nc" for c using K(2) [of c] that by simp
  have dn: "chunk_done E inp c (vals, lens, starts, rpc)" if "c < nc" for c
    using chunk_encode_spec(2) [OF assms(2,3,4) C(3) lt ok0 that] unfolding r .
  have rpc: "rpc ! c = word_of_nat (length (chunk_runs E inp c))" if "c < nc" for c
    using dn [OF that] by (simp add: chunk_done_def chunk_runs_def)
  have l31: "length (chunk_of E inp c) < 2 ^ 31" for c using C(3) assms(4) by (simp add: chunk_of_def)
  have vl: "vals ! (c * E + r) = fst (chunk_runs E inp c ! r) \<and> unat (lens ! (c * E + r)) = snd (chunk_runs E inp c ! r)"
    if "c < nc" "r < length (chunk_runs E inp c)" for c r
  proof -
    have "chunk_runs E inp c ! r \<in> set (chunk_runs E inp c)" using that(2) by simp
    then have "snd (chunk_runs E inp c ! r) \<le> sum_list (map snd (chunk_runs E inp c))" by (metis member_le_sum_list imageI image_set zero_le)
    then have "snd (chunk_runs E inp c ! r) < 2 ^ 31" using l31 [of c] unfolding chunk_runs_def rle_reference_runs(5) by linarith
    then show ?thesis using dn [OF that(1)] that(2) by (simp add: chunk_done_def chunk_runs_def unat_of_nat31)
  qed
  have len: "0 < length inp" "length inp < 2 ^ 31" "elem_size TYPE('a) * length inp < 2 ^ 31" "nc = chunk_count E (length inp)" "nc \<le> length rpc"
    using assms(4,5,10,11) C(3) kn nc_def al(4) K(3) by (simp_all add: rle_scratch_ok_def)
  define out2 where "out2 = rle_chunk_finalize_offsets rpc nc (put_at 4 (bytes_of (cub_exclusive cub (take nc rpc))) out)"
  have "4 * (nc + 2) \<le> length (rle_chunked_wire E inp)" by (rule chunked_wire_head [OF len(4,2)])
  then have lo: "4 * (nc + 2) \<le> length out" using assms(12) by linarith
  note T = offset_table_written [OF assms(2) E(2) len(1,2,4,5) rpc lo out2_def]
  have lw: "length (rle_chunked_wire E inp) \<le> length out2" using assms(12) T(2) by simp
  have cw: "rle_chunk_compact sched vals lens E nc (chunked_offset TYPE('a) nc) out2 = rle_chunked_wire E inp @ drop (length (rle_chunked_wire E inp)) out2"
    by (rule chunk_compact_wire [OF assms(1,3) E(2) len(1,3,4) vl T(1) lw])
  define out3 where "out3 = rle_chunk_compact sched vals lens E nc (chunked_offset TYPE('a) nc) out2"
  have enc: "rle_encode_chunked cub sched (word_of_nat L) n inp out st = (out3, st\<lparr>rl_values_scratch := vals, rl_lengths_scratch := lens,
      rl_boundary_positions := starts, rl_boundary_scan := rpc, rl_h_num_runs := u32_at out3 (1 + nc), rl_fwd_sync_pending := True\<rparr>)"
    unfolding rle_encode_chunked_def Let_def E(1) ncs vos r prod.case out2_def [symmetric] out3_def [symmetric] ..
  have d2: "drop (length (rle_chunked_wire E inp)) out2 = drop (length (rle_chunked_wire E inp)) out"
  proof -
    obtain d where "length (rle_chunked_wire E inp) = 4 * (nc + 2) + d" using chunked_wire_head [OF len(4,2)] le_iff_add by blast
    then show ?thesis using arg_cong [OF T(3), of "drop d"] by (simp add: add.commute)
  qed
  show "out' = rle_chunked_wire E inp @ drop (length (rle_chunked_wire E inp)) out"
    unfolding assms(14) enc fst_conv out3_def cw d2 ..
  have "1 + nc < length (rle_table E inp)" "rle_table E inp ! (1 + nc) = length (all_runs E inp)"
    by (simp_all add: rle_table_def len(4) [symmetric] length_all_runs nth_append)
  then have "u32_at out3 (1 + nc) = word_of_nat (length (all_runs E inp))"
    unfolding out3_def cw rle_chunked_wire_def append_assoc using u32_at_table by metis
  then show "rl_h_num_runs st' = word_of_nat (length (all_runs E inp))" unfolding assms(15) enc by simp
  show "rl_cached_num_elements st' = rl_cached_num_elements st"
    "rl_chunk_size st' = rl_chunk_size st" "rl_is_inverse st' = rl_is_inverse st" "rl_fwd_scratch_n st' = rl_fwd_scratch_n st"
    "rl_fwd_sync_pending st'" "rl_dec_sync_pending st' = rl_dec_sync_pending st" unfolding assms(15) enc by simp_all
  show "rle_scratch_ok N st'" using assms(10) al unfolding assms(15) enc by (simp add: rle_scratch_ok_def)
qed

subsection \<open>The chunked decoder expands the runs\<close>

text \<open>Where a run of a chunk begins.\<close>

definition run_pos :: "'v list \<Rightarrow> nat \<Rightarrow> nat" where
  "run_pos ch r = sum_list (map snd (take r (rle_reference ch)))"

definition run_length :: "'v list \<Rightarrow> nat \<Rightarrow> nat" where
  "run_length ch r = (if r < length (rle_reference ch) then snd (rle_reference ch ! r) else 0)"

lemma run_pos_Suc: "run_pos ch (Suc r) = run_pos ch r + run_length ch r"
  by (simp add: run_pos_def run_length_def take_Suc_conv_app_nth)

lemma run_pos_all: "length (rle_reference ch) \<le> r \<Longrightarrow> run_pos ch r = length ch"
  by (simp add: run_pos_def rle_reference_runs(5))

lemma run_pos_add: "run_pos ch (t + k) = run_pos ch t + sum_list (map (\<lambda>i. run_length ch (t + i)) [0..<k])"
  by (induction k) (simp_all add: run_pos_Suc)

lemma run_pos_mono: "a \<le> b \<Longrightarrow> run_pos ch a \<le> run_pos ch b"
  by (metis le_iff_add run_pos_add le_add1)

lemma run_pos_le: "run_pos ch r \<le> length ch"
  using run_pos_mono [of r "r + length (rle_reference ch)" ch] run_pos_all [of ch "r + length (rle_reference ch)"] by simp

lemma placed_runs: "placed 0 (map (\<lambda>(v, l). replicate l v) (rle_reference ch)) =
    map (\<lambda>r. (run_pos ch r, replicate (snd (rle_reference ch ! r)) (fst (rle_reference ch ! r)))) [0..<length (rle_reference ch)]"
proof -
  have "length (concat (take r (map (\<lambda>(v, l). replicate l v) (rle_reference ch)))) = run_pos ch r" for r
    by (simp add: take_map length_concat comp_def case_prod_beta run_pos_def)
  then show ?thesis unfolding placed_nth by (auto simp: case_prod_beta)
qed

lemma expanded: "concat (map (\<lambda>(v, l). replicate l v) (rle_reference ch)) = ch"
  using rle_reference_runs(1) [of ch] by (simp add: expand_runs_def)

lemma run_value:
  assumes "r < length (rle_reference ch)" "k < snd (rle_reference ch ! r)"
  shows "run_pos ch r + k < length ch" "ch ! (run_pos ch r + k) = fst (rle_reference ch ! r)"
proof -
  have "(run_pos ch r, replicate (snd (rle_reference ch ! r)) (fst (rle_reference ch ! r))) \<in> set (placed 0 (map (\<lambda>(v, l). replicate l v) (rle_reference ch)))"
    unfolding placed_runs set_map by (rule image_eqI [of _ _ r]) (use assms(1) in simp_all)
  from placed_section [OF this] obtain A B where "ch = A @ replicate (snd (rle_reference ch ! r)) (fst (rle_reference ch ! r)) @ B" "run_pos ch r = length A"
    unfolding expanded by auto
  note ab = this
  show "run_pos ch r + k < length ch" by (subst ab(1)) (use ab(2) assms(2) in simp)
  show "ch ! (run_pos ch r + k) = fst (rle_reference ch ! r)" by (subst ab(1)) (use ab(2) assms(2) in \<open>simp add: nth_append\<close>)
qed

lemma run_covers:
  assumes "j < length ch"
  obtains r where "r < length (rle_reference ch)" "run_pos ch r \<le> j" "j < run_pos ch (Suc r)"
proof -
  have "j < length (concat (map (\<lambda>(v, l). replicate l v) (rle_reference ch)))" unfolding expanded by (rule assms)
  from placed_covers [OF this, of 0] obtain r where "r < length (rle_reference ch)" "run_pos ch r \<le> j" "j < run_pos ch r + snd (rle_reference ch ! r)"
    unfolding placed_runs by (auto simp: covers_def)
  then show thesis using that by (simp add: run_pos_Suc run_length_def)
qed

lemma decode_tile_step:
  fixes xs :: "'a::len word list"
  assumes "cub_ok cub" "sched_ok sched" "length ch < 2 ^ 31" "m = length (rle_reference ch)"
    and "\<And>r. r < m \<Longrightarrow> vals ! (base + r) = fst (rle_reference ch ! r) \<and> lens ! (base + r) = word_of_nat (snd (rle_reference ch ! r))"
    and "start + length ch \<le> length out" "\<forall>j<run_pos ch t. out ! (start + j) = ch ! j"
    and "rle_decode_tile cub sched vals lens base m start (length ch) t (out, word_of_nat (run_pos ch t)) = (out', b')"
  shows "b' = word_of_nat (run_pos ch (t + 256))" "\<forall>j<run_pos ch (t + 256). out' ! (start + j) = ch ! j" "length out' = length out"
    "\<And>j. j < length out \<Longrightarrow> j < start \<or> start + length ch \<le> j \<Longrightarrow> out' ! j = out ! j"
proof -
  let ?R = "rle_reference ch"
  let ?fl = "map (\<lambda>k. word_of_nat (run_length ch (t + k)) :: u32) [0..<256]"
  have fl: "map (\<lambda>k. if t + k < m then lens ! (base + (t + k)) else 0) [0..<256] = ?fl"
    using assms(5) by (intro map_cong refl) (simp add: run_length_def assms(4))
  have cb: "cub_block cub ?fl = (map (\<lambda>i. sum_list (take i ?fl)) [0..<256], sum_list ?fl)" using assms(1) by (simp add: cub_ok_def)
  have ex: "word_of_nat (run_pos ch t) + sum_list (take k ?fl) = word_of_nat (run_pos ch (t + k))" if "k \<le> 256" for k
    using that by (simp add: run_pos_add take_map sum_of_nats)
  have small: "run_pos ch r < 2 ^ 31" for r using run_pos_le [of ch r] assms(3) by linarith
  let ?w = "map (\<lambda>k. (start + run_pos ch (t + k), if t + k < m then replicate (snd (?R ! (t + k))) (fst (?R ! (t + k))) else [])) [0..<256]"
  have w: "map (\<lambda>k. let r = t + k; p = unat (word_of_nat (run_pos ch t) + map (\<lambda>i. sum_list (take i ?fl)) [0..<256] ! k) in
      (start + p, if r < m then replicate (min (unat (?fl ! k)) (length ch - p)) (vals ! (base + r)) else [])) [0..<256] = ?w"
  proof (rule map_cong [OF refl])
    fix k assume "k \<in> set [0..<256]"
    then have k: "k < 256" by simp
    have p: "unat (word_of_nat (run_pos ch t) + map (\<lambda>i. sum_list (take i ?fl)) [0..<256] ! k) = run_pos ch (t + k)"
      using ex [of k] k unat_of_nat31 [OF small [of "t + k"]] by simp
    have "min (unat (?fl ! k)) (length ch - run_pos ch (t + k)) = snd (?R ! (t + k))" if "t + k < m"
    proof -
      have "run_length ch (t + k) = snd (?R ! (t + k))" using that by (simp add: run_length_def assms(4))
      moreover have "run_pos ch (t + k) + run_length ch (t + k) \<le> length ch" using run_pos_le [of ch "Suc (t + k)"] by (simp add: run_pos_Suc)
      ultimately show ?thesis using k assms(3) by (simp add: unat_of_nat31)
    qed
    then show "(let r = t + k; p = unat (word_of_nat (run_pos ch t) + map (\<lambda>i. sum_list (take i ?fl)) [0..<256] ! k) in
        (start + p, if r < m then replicate (min (unat (?fl ! k)) (length ch - p)) (vals ! (base + r)) else [])) =
        (start + run_pos ch (t + k), if t + k < m then replicate (snd (?R ! (t + k))) (fst (?R ! (t + k))) else [])"
      unfolding Let_def p using assms(5) by simp
  qed
  have "(out', b') = (run_puts sched ?w out, word_of_nat (run_pos ch t) + sum_list ?fl)"
    unfolding assms(8) [symmetric] rle_decode_tile_def prod.case Let_def fl cb fst_conv snd_conv w [unfolded Let_def] ..
  then have run: "out' = run_puts sched ?w out" "b' = word_of_nat (run_pos ch t) + sum_list ?fl" by simp_all
  show "b' = word_of_nat (run_pos ch (t + 256))" using ex [of 256] by (simp add: run(2))
  show "length out' = length out" by (simp add: run(1))
  have ag: "\<forall>w\<in>set ?w. agrees (\<lambda>j. ch ! (j - start)) w" using run_value(2) [of _ ch] by (auto simp: agrees_def assms(4))
  have cov: "(\<exists>w\<in>set ?w. covers w j) \<longleftrightarrow> (\<exists>k<256. t + k < m \<and> start + run_pos ch (t + k) \<le> j \<and> j < start + run_pos ch (Suc (t + k)))" for j
  proof -
    have "(\<exists>w\<in>set ?w. covers w j) \<longleftrightarrow> (\<exists>k\<in>{0..<256}. covers (start + run_pos ch (t + k), if t + k < m then replicate (snd (?R ! (t + k))) (fst (?R ! (t + k))) else []) j)"
      by (simp only: set_map set_upt bex_simps)
    moreover have "covers (start + run_pos ch (t + k), if t + k < m then replicate (snd (?R ! (t + k))) (fst (?R ! (t + k))) else []) j \<longleftrightarrow>
        t + k < m \<and> start + run_pos ch (t + k) \<le> j \<and> j < start + run_pos ch (Suc (t + k))" for k
      by (simp add: covers_def run_pos_Suc run_length_def assms(4) add.assoc)
    ultimately show ?thesis by (simp only: atLeastLessThan_iff Bex_def le0 simp_thms)
  qed
  note V = run_puts_nth(2) [OF assms(2) ag, unfolded cov]
  show "out' ! j = out ! j" if "j < length out" "j < start \<or> start + length ch \<le> j" for j
  proof -
    have none: "\<not> (\<exists>k<256. t + k < m \<and> start + run_pos ch (t + k) \<le> j \<and> j < start + run_pos ch (Suc (t + k)))"
    proof
      assume "\<exists>k<256. t + k < m \<and> start + run_pos ch (t + k) \<le> j \<and> j < start + run_pos ch (Suc (t + k))"
      then obtain k where "start + run_pos ch (t + k) \<le> j" "j < start + run_pos ch (Suc (t + k))" by blast
      then show False using that(2) run_pos_le [of ch "Suc (t + k)"] by linarith
    qed
    show ?thesis using V [OF that(1)] unfolding run(1) if_not_P [OF none] .
  qed
  show "\<forall>j<run_pos ch (t + 256). out' ! (start + j) = ch ! j"
  proof (intro allI impI)
    fix j assume j: "j < run_pos ch (t + 256)"
    have jl: "j < length ch" using j run_pos_le [of ch "t + 256"] by linarith
    then have jo: "start + j < length out" using assms(6) by linarith
    have "(\<exists>k<256. t + k < m \<and> start + run_pos ch (t + k) \<le> start + j \<and> start + j < start + run_pos ch (Suc (t + k))) \<or> j < run_pos ch t"
    proof (cases "j < run_pos ch t")
      case False
      obtain r where r: "r < m" "run_pos ch r \<le> j" "j < run_pos ch (Suc r)" using run_covers [OF jl] assms(4) by metis
      have "\<not> Suc r \<le> t" using run_pos_mono [of "Suc r" t ch] r(3) False by linarith
      moreover have "\<not> t + 256 \<le> r" using run_pos_mono [of "t + 256" r ch] r(2) j by linarith
      ultimately have "r - t < 256 \<and> t + (r - t) = r" by simp
      then have "r - t < 256 \<and> t + (r - t) < m \<and> start + run_pos ch (t + (r - t)) \<le> start + j \<and> start + j < start + run_pos ch (Suc (t + (r - t)))"
        using r by simp
      then show ?thesis by blast
    qed simp
    then show "out' ! (start + j) = ch ! j" using V [OF jo] assms(7) unfolding run(1) by auto
  qed
qed

lemma decode_tiles:
  fixes ch :: "'a::len word list"
  assumes "cub_ok cub" "sched_ok sched" "length ch < 2 ^ 31"
    and "\<And>r. r < length (rle_reference ch) \<Longrightarrow> vals ! (base + r) = fst (rle_reference ch ! r) \<and> lens ! (base + r) = word_of_nat (snd (rle_reference ch ! r))"
    and "start + length ch \<le> length out" "\<forall>j<run_pos ch t. out ! (start + j) = ch ! j"
    and "out' = fst (fold (rle_decode_tile cub sched vals lens base (length (rle_reference ch)) start (length ch)) (stride_from t 256 (length (rle_reference ch))) (out, word_of_nat (run_pos ch t)))"
  shows "(\<forall>j<length ch. out' ! (start + j) = ch ! j) \<and> length out' = length out \<and>
    (\<forall>j<length out. j < start \<or> start + length ch \<le> j \<longrightarrow> out' ! j = out ! j)"
  using assms(5-7)
proof (induction t "256 :: nat" "length (rle_reference ch)" arbitrary: out rule: stride_from.induct)
  case (1 t)
  show ?case
  proof (cases "t < length (rle_reference ch)")
    case False
    then have s: "stride_from t 256 (length (rle_reference ch)) = []" by (subst stride_from.simps) simp
    have "run_pos ch t = length ch" using False by (intro run_pos_all) simp
    then show ?thesis using 1(3,4) unfolding s by simp
  next
    case True
    then have s: "stride_from t 256 (length (rle_reference ch)) = t # stride_from (t + 256) 256 (length (rle_reference ch))" by (subst stride_from.simps) simp
    obtain o1 b1 where step: "rle_decode_tile cub sched vals lens base (length (rle_reference ch)) start (length ch) t (out, word_of_nat (run_pos ch t)) = (o1, b1)"
      by (rule prod.exhaust)
    note T = decode_tile_step [OF assms(1-3) refl assms(4) 1(2,3) step]
    have f: "out' = fst (fold (rle_decode_tile cub sched vals lens base (length (rle_reference ch)) start (length ch)) (stride_from (t + 256) 256 (length (rle_reference ch))) (o1, word_of_nat (run_pos ch (t + 256))))"
      using 1(4) unfolding s fold_simps step by (simp only: T(1))
    have "(\<forall>j<length ch. out' ! (start + j) = ch ! j) \<and> length out' = length o1 \<and>
        (\<forall>j<length o1. j < start \<or> start + length ch \<le> j \<longrightarrow> out' ! j = o1 ! j)"
      by (rule 1(1) [OF _ _ T(2) f]) (use True 1(2) T(3) in simp_all)
    then show ?thesis using T(3,4) by simp
  qed
qed

lemma chunk_decode_spec:
  fixes xs :: "'a::len word list"
  assumes "elem_type TYPE('a)" "cub_ok cub" "sched_ok sched" "length xs = n" "0 < n" "0 < E" "nc = chunk_count E n" "elem_size TYPE('a) * n < 2 ^ 31"
    and "length out = n"
  shows "rle_chunk_decode cub sched (rle_chunked_wire E xs) n E nc (chunked_offset TYPE('a) nc) out = xs"
proof -
  let ?D = "offset_of (chunk_runs E xs)" and ?k = "elem_size TYPE('a)" and ?R = "all_runs E xs" and ?vo = "chunked_offset TYPE('a) nc"
    and ?w = "rle_chunked_wire E xs"
  let ?T = "length ?R"
  have k: "0 < ?k" using elem_size_bounds [OF assms(1)] by simp
  have n31: "n < 2 ^ 31" using assms(8) k by (metis One_nat_def Suc_leI le_less_trans mult.commute mult_le_mono2 nat_mult_1_right)
  have T: "?T = ?D nc" "?T \<le> n" using all_runs_le [OF assms(6), of xs] assms(4) by (simp_all add: length_all_runs assms(7))
  have D31: "?D c < 2 ^ 31" if "c \<le> nc" for c using offset_of_mono [OF that, of "chunk_runs E xs"] T n31 by linarith
  have kT: "?k * ?T < 2 ^ 31" using mult_le_mono2 [OF T(2), of ?k] assms(8) by linarith
  have tab: "u32_at ?w (1 + c) = word_of_nat (?D c)" if "c \<le> nc" for c
  proof -
    have "1 + c < length (rle_table E xs)" "rle_table E xs ! (1 + c) = ?D c"
      using that assms(4,7) by (simp_all add: rle_table_def del: upt_Suc)
    then show ?thesis unfolding rle_chunked_wire_def using u32_at_table by metis
  qed
  have uD: "unat (u32_at ?w (1 + c)) = ?D c" if "c \<le> nc" for c unfolding tab [OF that] using D31 [OF that] by (rule unat_of_nat31)
  have um: "unat (u32_at ?w (1 + (c + 1)) - u32_at ?w (1 + c)) = length (chunk_runs E xs c)" if "c < nc" for c
  proof -
    have "u32_at ?w (1 + (c + 1)) - u32_at ?w (1 + c) = word_of_nat (length (chunk_runs E xs c))"
      using tab [of c] tab [of "c + 1"] that by (simp add: offset_of_Suc)
    moreover have "length (chunk_runs E xs c) < 2 ^ 31" using D31 [of "Suc c"] that by (simp add: offset_of_Suc)
    ultimately show ?thesis using unat_of_nat31 by simp
  qed
  have vb: "unat (u32_at ?w (1 + nc) * word_of_nat ?k) = ?k * ?T"
  proof -
    have "u32_at ?w (1 + nc) * word_of_nat ?k = word_of_nat (?k * ?T)" unfolding tab [OF order_refl] T(1) by (simp add: mult.commute)
    then show ?thesis using kT by (simp only: unat_of_nat31)
  qed
  have va: "unat ((u32_at ?w (1 + nc) * word_of_nat ?k + 3) AND NOT 3) = ?k * ?T + pad4 (?k * ?T)"
    using unat_align4 [of "u32_at ?w (1 + nc) * word_of_nat ?k"] kT unfolding vb by simp
  have ut: "unat (u32_at ?w (1 + nc)) = ?T" using uD [OF order_refl] T(1) by simp
  have runs31: "snd r < 2 ^ 31" if "r \<in> set ?R" for r
  proof -
    obtain c where "c < nc" "r \<in> set (chunk_runs E xs c)" using \<open>r \<in> set ?R\<close> assms(4,7) by (auto simp: all_runs_def)
    then have "snd r \<le> sum_list (map snd (rle_reference (chunk_of E xs c)))" unfolding chunk_runs_def by (metis member_le_sum_list imageI image_set zero_le)
    also have "\<dots> \<le> n" unfolding rle_reference_runs(5) using assms(4) by (simp add: chunk_of_def)
    finally show ?thesis using n31 by linarith
  qed
  have w: "?w = concat (map (le_bytes 4) (rle_table E xs)) @ replicate (?vo - 4 * (nc + 2)) 0 @ bytes_of (map fst ?R) @
      replicate (pad4 (?k * ?T)) 0 @ bytes_of (map (\<lambda>r. word_of_nat (snd r) :: u32) ?R)"
  proof -
    have "concat (map (\<lambda>r. le_bytes 4 (snd r)) ?R) = bytes_of (map (\<lambda>r. word_of_nat (snd r) :: u32) ?R)"
      unfolding bytes_of_def map_map comp_def elem_size_def by (intro arg_cong [where f = concat] map_cong refl) (simp add: unat_of_nat31 [OF runs31])
    then show ?thesis using assms(4,7) by (simp add: rle_chunked_wire_def rle_chunked_layout_def Let_def bytes_of_def comp_def)
  qed
  have lh: "length (concat (map (le_bytes 4) (rle_table E xs)) @ replicate (?vo - 4 * (nc + 2)) 0) = ?vo"
    using length_rle_table [of E xs] chunked_offset_ge(1) [OF assms(1), of nc] assms(4,7) by simp
  have "drop ?vo ?w = bytes_of (map fst ?R) @ replicate (pad4 (?k * ?T)) 0 @ bytes_of (map (\<lambda>r. word_of_nat (snd r) :: u32) ?R)"
    unfolding w append_assoc [symmetric] using lh by (simp add: append_assoc)
  note dv = this
  have vals: "words_of TYPE('a) ?T (drop ?vo ?w) = map fst ?R" unfolding dv using words_of_bytes_of [OF assms(1), of "map fst ?R"] by simp
  have t32: "elem_type TYPE(32)" by (simp add: elem_type_def)
  have "drop (?vo + (?k * ?T + pad4 (?k * ?T))) ?w = drop (?k * ?T + pad4 (?k * ?T)) (drop ?vo ?w)" by (simp add: add.commute)
  also have "\<dots> = bytes_of (map (\<lambda>r. word_of_nat (snd r) :: u32) ?R)" unfolding dv by simp
  finally have lens: "words_of TYPE(32) ?T (drop (?vo + (?k * ?T + pad4 (?k * ?T))) ?w) = map (\<lambda>r. word_of_nat (snd r)) ?R"
    using words_of_bytes_of [OF t32, of "map (\<lambda>r. word_of_nat (snd r)) ?R" "[]"] by simp
  note K = chunk_count_last [OF assms(6,5), folded assms(7)]
  have block: "(\<forall>j<length (chunk_of E xs c). o' ! (c * E + j) = xs ! (c * E + j)) \<and> length o' = length oo \<and>
      (\<forall>j<length oo. j < c * E \<or> c * E + length (chunk_of E xs c) \<le> j \<longrightarrow> o' ! j = oo ! j)"
    if "c < nc" "length oo = n" "o' = rle_chunk_decode_block cub sched ?w n E nc ?vo c oo" for c o' and oo :: "'a word list"
  proof -
    let ?ch = "chunk_of E xs c"
    have len: "rle_chunk_len n E c = length ?ch" unfolding length_chunk_of assms(4) ..
    have le: "c \<le> nc" using that(1) by simp
    have mr: "length (chunk_runs E xs c) = length (rle_reference ?ch)" by (simp add: chunk_runs_def)
    have l31: "length ?ch < 2 ^ 31" using n31 assms(4) by (simp add: chunk_of_def)
    have fits: "c * E + length ?ch \<le> length oo" using K(2) [of c] that(1,2) assms(4) by (simp add: chunk_of_def)
    have at: "map fst ?R ! (?D c + r) = fst (rle_reference ?ch ! r) \<and> map (\<lambda>r. word_of_nat (snd r) :: u32) ?R ! (?D c + r) = word_of_nat (snd (rle_reference ?ch ! r))"
      if r: "r < length (rle_reference ?ch)" for r
      using concat_at [where f = "chunk_runs E xs" and c = c and r = r and m = nc] \<open>c < nc\<close> r T(1) assms(4,7) by (simp add: all_runs_def chunk_runs_def)
    have z: "(0 :: u32) = word_of_nat (run_pos ?ch 0)" "\<forall>j<run_pos ?ch 0. oo ! (c * E + j) = ?ch ! j" by (simp_all add: run_pos_def)
    have o': "o' = fst (fold (rle_decode_tile cub sched (map fst ?R) (map (\<lambda>r. word_of_nat (snd r)) ?R) (?D c) (length (rle_reference ?ch)) (c * E) (length ?ch))
        (stride_from 0 256 (length (rle_reference ?ch))) (oo, word_of_nat (run_pos ?ch 0)))"
      unfolding that(3) rle_chunk_decode_block_def Let_def va ut vals lens uD [OF le] um [OF that(1)] mr len z(1) [symmetric] ..
    have "(\<forall>j<length ?ch. o' ! (c * E + j) = ?ch ! j) \<and> length o' = length oo \<and> (\<forall>j<length oo. j < c * E \<or> c * E + length ?ch \<le> j \<longrightarrow> o' ! j = oo ! j)"
      by (rule decode_tiles [OF assms(2,3) l31 at fits z(2) o'])
    then show ?thesis using chunk_of_nth by metis
  qed
  let ?f = "\<lambda>cs. fold (rle_chunk_decode_block cub sched ?w n E nc ?vo) cs out"
  have all: "length (?f cs) = n \<and> (\<forall>c\<in>set cs. \<forall>j<length (chunk_of E xs c). ?f cs ! (c * E + j) = xs ! (c * E + j))" if "set cs \<subseteq> {..<nc}" for cs
    using that
  proof (induction cs rule: rev_induct)
    case (snoc c cs)
    have IH: "length (?f cs) = n" "\<forall>c\<in>set cs. \<forall>j<length (chunk_of E xs c). ?f cs ! (c * E + j) = xs ! (c * E + j)" using snoc by auto
    have c: "c < nc" using snoc.prems by simp
    note B = block [OF c IH(1) refl]
    have "rle_chunk_decode_block cub sched ?w n E nc ?vo c (?f cs) ! (d * E + j) = xs ! (d * E + j)" if "d \<in> set cs" "j < length (chunk_of E xs d)" for d j
    proof -
      have nj: "d * E + j < n" "j < E" using chunk_of_nth [OF that(2)] assms(4) by auto
      show ?thesis
      proof (cases "d * E + j < c * E \<or> c * E + length (chunk_of E xs c) \<le> d * E + j")
        case True
        have "\<forall>i<n. i < c * E \<or> c * E + length (chunk_of E xs c) \<le> i \<longrightarrow> rle_chunk_decode_block cub sched ?w n E nc ?vo c (?f cs) ! i = ?f cs ! i"
          using B unfolding IH(1) by blast
        then have "rle_chunk_decode_block cub sched ?w n E nc ?vo c (?f cs) ! (d * E + j) = ?f cs ! (d * E + j)" using True nj(1) by blast
        then show ?thesis using IH(2) that by simp
      next
        case False
        then have "d * E + j - c * E < length (chunk_of E xs c) \<and> c * E + (d * E + j - c * E) = d * E + j" by auto
        then show ?thesis using B by metis
      qed
    qed
    then show ?case using B IH(1) by auto
  qed (simp add: assms(9))
  let ?cs = "sched [0..<nc]"
  have cs: "set ?cs = {..<nc}" by (auto simp: sched_set [OF assms(3)])
  note A = all [OF equalityD1 [OF cs]]
  have "?f ?cs = xs"
  proof (rule nth_equalityI)
    show "length (?f ?cs) = length xs" using A assms(4) by simp
    fix i assume "i < length (?f ?cs)"
    then have i: "i < n" using A by simp
    let ?c = "i div E"
    have d: "i = ?c * E + i mod E" "i mod E < E" using assms(6) by simp_all
    then have "?c * E < n" using i by linarith
    then have c: "?c \<in> set ?cs" using K(2) [of ?c] cs by simp
    have "i mod E + ?c * E < n" using i by simp
    then have "i mod E < length (chunk_of E xs ?c)" using d(2) assms(4) by (simp add: chunk_of_def less_diff_conv)
    then show "?f ?cs ! i = xs ! i" using A c d(1) by metis
  qed
  then show ?thesis unfolding rle_chunk_decode_def .
qed

subsection \<open>A run of the stage in chunked mode\<close>

lemma numChunks_small:
  fixes st :: "'a::len word rle_stage"
  assumes "elem_type TYPE('a)" "isChunked st" "L < 2 ^ 31" "nc = chunk_count (chunk_elems st) (L div elem_size TYPE('a))"
  shows "numChunks st (word_of_nat L) = word_of_nat nc"
  using chunk_numbers(3) [OF assms(1,2,3)] unfolding assms(4) [symmetric] by (metis of_nat_unat ucast_id)

lemma rle_estimate_chunked:
  fixes st :: "'a::len word rle_stage"
  assumes "elem_type TYPE('a)" "\<not> rl_is_inverse st" "isChunked st" "L < 2 ^ 31" "n = L div elem_size TYPE('a)" "nc = chunk_count (chunk_elems st) n" "nc < 2 ^ 29"
  shows "unat (rle_estimateOutputSize (word_of_nat L) st) = chunked_offset TYPE('a) nc + (elem_size TYPE('a) * n + pad4 (elem_size TYPE('a) * n)) + 4 * n"
proof -
  let ?k = "elem_size TYPE('a)"
  note C = rle_element_count [OF assms(1,4), folded assms(5)]
  have n31: "?k * n < 2 ^ 31" using C(2) assms(4) by linarith
  have nw: "(word_of_nat L :: size_t) div word_of_nat ?k = word_of_nat n" using C(1) by (metis of_nat_unat ucast_id)
  have nk: "(word_of_nat n :: size_t) * word_of_nat ?k = word_of_nat (?k * n)" by (simp add: mult.commute)
  have u2: "unat (word_of_nat (?k * n) :: size_t) = ?k * n" using n31 by (intro unat_64_small) simp
  have "unat (word_of_nat (?k * n) + 3 :: size_t) = ?k * n + 3" using u2 n31 by (simp add: unat_word_ariths)
  then have m: "(word_of_nat (?k * n) + 3 :: size_t) AND ucast (NOT 3 :: u32) = word_of_nat (?k * n + pad4 (?k * n))"
    using n31 align4_64 [OF n31] by (subst mask_32_small) simp_all
  have nc: "numChunks st (word_of_nat L) = word_of_nat nc" by (rule numChunks_small [OF assms(1,3,4)]) (use assms(5,6) in simp)
  have nc31: "nc < 2 ^ 31" using assms(7) by simp
  have "rle_estimateOutputSize (word_of_nat L) st = word_of_nat (chunked_offset TYPE('a) nc + (?k * n + pad4 (?k * n)) + 4 * n)"
    unfolding rle_estimateOutputSize_def Let_def nw nk m nc chunked_values_offset [OF assms(1) nc31] using assms(2,3) by simp
  moreover have "chunked_offset TYPE('a) nc + (?k * n + pad4 (?k * n)) + 4 * n < 2 ^ 40"
    using chunked_offset_ge(2) [OF assms(1), of nc] assms(7) n31 C(3) pad4_less [of "?k * n"] by simp
  ultimately show ?thesis by (simp only: unat_64_small)
qed

lemma rle_reported_chunked:
  fixes st :: "'a::len word rle_stage"
  assumes "elem_type TYPE('a)" "isChunked st" "rl_fwd_sync_pending st" "\<not> rl_dec_sync_pending st" "rl_h_num_runs st = word_of_nat m"
    and "rl_cached_num_elements st = word_of_nat n" "n < 2 ^ 31" "elem_size TYPE('a) * n < 2 ^ 31" "m \<le> n" "nc = chunk_count (chunk_elems st) n" "nc < 2 ^ 29"
  shows "rle_getActualOutputSize 0 st =
    (word_of_nat (chunked_offset TYPE('a) nc + (elem_size TYPE('a) * m + pad4 (elem_size TYPE('a) * m)) + 4 * m),
     st\<lparr>rl_actual_output_sizes := [word_of_nat (chunked_offset TYPE('a) nc + (elem_size TYPE('a) * m + pad4 (elem_size TYPE('a) * m)) + 4 * m)],
        rl_fwd_sync_pending := False\<rparr>)"
proof -
  let ?k = "elem_size TYPE('a)"
  have k: "0 < ?k" using elem_size_bounds [OF assms(1)] by simp
  have m31: "m < 2 ^ 31" using assms(7,9) by linarith
  have km: "m * ?k < 2 ^ 31" using mult_le_mono1 [OF assms(9), of ?k] assms(8) by (simp only: mult.commute)
  have "(ucast (rl_h_num_runs st) :: size_t) = word_of_nat m" unfolding assms(5) by (metis of_nat_unat unat_of_nat31 [OF m31])
  moreover have "(word_of_nat (m * ?k) + 3 :: size_t) AND NOT 3 = word_of_nat (?k * m + pad4 (?k * m))"
    using align4_64 [OF km] by (simp only: mult.commute)
  moreover have "(ucast (rl_cached_num_elements st) * word_of_nat ?k :: size_t) = word_of_nat (n * ?k)"
    unfolding assms(6) by (metis of_nat_mult of_nat_unat unat_of_nat31 [OF assms(7)])
  moreover have "numChunks st (word_of_nat (n * ?k)) = word_of_nat nc"
    by (rule numChunks_small [OF assms(1,2)]) (use assms(8,10) k in \<open>simp_all add: mult.commute\<close>)
  moreover have "rleChunkedValuesOffset TYPE('a) (word_of_nat nc) = word_of_nat (chunked_offset TYPE('a) nc)"
    by (rule chunked_values_offset [OF assms(1)]) (use assms(11) in simp)
  ultimately show ?thesis using assms(2,3,4)
    by (simp add: rle_getActualOutputSize_def completePendingSync_def completePendingDecodeSync_def Let_def mult.commute [of "word_of_nat m"])
qed

lemma rle_chunked_fits:
  assumes "elem_type TYPE('a::len)" "0 < E" "length (xs :: 'a word list) = n" "nc = chunk_count E n"
  shows "length (rle_chunked_wire E xs) \<le> chunked_offset TYPE('a) nc + (elem_size TYPE('a) * n + pad4 (elem_size TYPE('a) * n)) + 4 * n"
proof -
  have m: "length (all_runs E xs) \<le> n" using all_runs_le [OF assms(2), of xs] assms(3) by simp
  have "length (rle_chunked_wire E xs) = chunked_offset TYPE('a) nc + (elem_size TYPE('a) * length (all_runs E xs) + pad4 (elem_size TYPE('a) * length (all_runs E xs))) + 4 * length (all_runs E xs)"
    by (rule length_rle_chunked_wire [OF assms(1) _ refl]) (use assms(3,4) in simp)
  then show ?thesis using pad4_mono [OF mult_le_mono2 [OF m, of "elem_size TYPE('a)"]] m by linarith
qed

lemma rle_forward_chunked:
  fixes st :: "'a::len word rle_stage"
  assumes "elem_type TYPE('a)" "cub_ok cub" "\<not> rl_is_inverse st" "isChunked st" "rle_ready st" "length bs < 2 ^ 31"
    "n = length bs div elem_size TYPE('a)" "0 < n" "E = chunk_elems st" "chunk_count E n < 2 ^ 29" "run_env_ok e"
  obtains st1 where "rle_run cub st e bs = Inr (rle_chunked_wire E (words_of TYPE('a) n bs), st1)" "rl_cached_num_elements st1 = word_of_nat n"
    "rl_chunk_size st1 = rl_chunk_size st" "rl_is_inverse st1 = rl_is_inverse st" "rle_ready st1"
proof -
  let ?k = "elem_size TYPE('a)" and ?xs = "words_of TYPE('a) n bs" and ?nc = "chunk_count E n"
  let ?out = "re_stale e (unat (rle_estimateOutputSize (word_of_nat (length bs)) st))"
  have sch: "sched_ok (re_sched e)" and stale: "\<And>n. length (re_stale e n) = n" using assms(11) by (simp_all add: run_env_ok_def)
  note C = rle_element_count [OF assms(1,6), folded assms(7)]
  have E: "0 < E" using chunk_numbers(2) [OF assms(1,4)] assms(9) by simp
  define st2 where "st2 = rle_grow_scratch (re_stale e) n (st\<lparr>rl_cached_num_elements := word_of_nat n\<rparr>)"
  have sc0: "rle_scratch_ok (unat (rl_fwd_scratch_n (st\<lparr>rl_cached_num_elements := word_of_nat n\<rparr>))) (st\<lparr>rl_cached_num_elements := word_of_nat n\<rparr>)"
    and np: "\<not> rl_dec_sync_pending st" using assms(5) by (simp_all add: rle_ready_def rle_scratch_ok_def)
  note G = rle_grow_scratch_state [OF sc0 stale C(3) st2_def]
  have ch2: "isChunked st2" "E = chunk_elems st2" using assms(4,9) G(2) by (simp_all add: isChunked_def chunk_elems_def)
  have fit: "length (rle_chunked_wire E ?xs) \<le> length ?out"
    unfolding stale using rle_estimate_chunked [OF assms(1,3,4,6,7) refl] assms(9,10) rle_chunked_fits [OF assms(1) E length_words_of refl] by simp
  define ob st3 where "ob = fst (rle_encode_chunked cub (re_sched e) (word_of_nat (length bs)) n ?xs ?out st2)"
    and "st3 = snd (rle_encode_chunked cub (re_sched e) (word_of_nat (length bs)) n ?xs ?out st2)"
  note S = rle_encode_chunked_spec [OF assms(1,2) sch length_words_of assms(8) ch2 assms(6,7) G(6,7) fit assms(10) ob_def st3_def]
  have ch: "isChunked st3" "E = chunk_elems st3" using ch2 S(4) by (simp_all add: isChunked_def chunk_elems_def)
  have kn: "?k * n < 2 ^ 31" using C(2) assms(6) by linarith
  have ex: "rle_execute cub (re_sched e) (re_stale e) False [bs] [?out] [word_of_nat (length bs)] st = Inr ([ob], st3)"
    unfolding rle_execute_def using assms(3,8) ch2(1) G(2) assms(4)
    by (simp add: Let_def C(1) isChunked_def st2_def [symmetric] ob_def st3_def case_prod_beta)
  let ?m = "length (all_runs E ?xs)"
  have m: "?m \<le> n" using all_runs_le [OF E, of ?xs] by simp
  have pend: "rl_fwd_sync_pending st3" "\<not> rl_dec_sync_pending st3" using S(7,8) G(5) np by simp_all
  have cached: "rl_cached_num_elements st3 = word_of_nat n" using S(3) G(1) by simp
  let ?st1 = "st3\<lparr>rl_actual_output_sizes := [word_of_nat (length (rle_chunked_wire E ?xs))], rl_fwd_sync_pending := False\<rparr>"
  have lw: "length (rle_chunked_wire E ?xs) = chunked_offset TYPE('a) ?nc + (?k * ?m + pad4 (?k * ?m)) + 4 * ?m"
    by (rule length_rle_chunked_wire [OF assms(1) _ refl]) simp
  have nc3: "?nc = chunk_count (chunk_elems st3) n" using ch(2) by simp
  have sz: "rle_getActualOutputSize 0 st3 = (word_of_nat (length (rle_chunked_wire E ?xs)), ?st1)"
    unfolding lw by (rule rle_reported_chunked [OF assms(1) ch(1) pend S(2) cached C(3) kn m nc3 assms(10)])
  have "?k * ?m < 2 ^ 31" using mult_le_mono2 [OF m, of ?k] kn by linarith
  then have small: "length (rle_chunked_wire E ?xs) < 2 ^ 40"
    unfolding lw using chunked_offset_ge(2) [OF assms(1), of ?nc] assms(10) kn m C(3) pad4_less [of "?k * ?m"] by simp
  have "rle_run cub st e bs = Inr (rle_chunked_wire E ?xs, ?st1)"
    unfolding rle_run_def ex using sz small by (simp add: unat_64_small S(1))
  moreover have "rle_ready ?st1" using S(6,9) pend(2) by (simp add: rle_ready_def rle_scratch_ok_def)
  ultimately show thesis using that [of ?st1] S(4,5) cached G(2,3) by simp
qed

lemma rle_backward_chunked:
  fixes st :: "'a::len word rle_stage" and xs :: "'a word list"
  assumes "elem_type TYPE('a)" "cub_ok cub" "rl_is_inverse st" "isChunked st" "\<not> rl_fwd_sync_pending st" "\<not> rl_dec_sync_pending st"
    "rl_cached_num_elements st = word_of_nat (length xs)" "0 < length xs" "elem_size TYPE('a) * length xs < 2 ^ 31" "E = chunk_elems st"
    "chunk_count E (length xs) < 2 ^ 29" "run_env_ok e"
  obtains st2 where "rle_run cub st e (rle_chunked_wire E xs) = Inr (bytes_of xs, st2)"
proof -
  let ?k = "elem_size TYPE('a)" and ?w = "rle_chunked_wire E xs" and ?n = "length xs" and ?nc = "chunk_count E (length xs)"
  let ?out = "re_stale e (unat (rle_estimateOutputSize (word_of_nat (length ?w)) st))"
  have k: "0 < ?k" using elem_size_bounds [OF assms(1)] by simp
  have sch: "sched_ok (re_sched e)" and stale: "\<And>n. length (re_stale e n) = n" using assms(12) by (simp_all add: run_env_ok_def)
  have n: "?n < 2 ^ 31" using assms(9) k by (metis One_nat_def Suc_leI le_less_trans mult.commute mult_le_mono2 nat_mult_1_right)
  have c: "unat (rl_cached_num_elements st) = ?n" unfolding assms(7) using n by (rule unat_of_nat31)
  have cu: "(ucast (rl_cached_num_elements st) :: size_t) = word_of_nat ?n" unfolding c [symmetric] by simp
  have nk: "(word_of_nat ?n * word_of_nat ?k :: size_t) = word_of_nat (?k * ?n)" by (simp add: mult.commute)
  have un: "unat (word_of_nat ?n :: size_t) = ?n" "unat (word_of_nat (?k * ?n) :: size_t) = ?k * ?n" 
    by (rule unat_64_small; use n assms(9) in simp)+
  have E: "unat (elemsPerChunk st) = E" "0 < E" using chunk_numbers(1,2) [OF assms(1,4)] assms(10) by simp_all
  have ncw: "numChunks st (word_of_nat (?k * ?n)) = word_of_nat ?nc"
    by (rule numChunks_small [OF assms(1,4,9)]) (use assms(10) k in simp)
  have nc31: "?nc < 2 ^ 31" using assms(11) by simp
  have unc: "unat (ucast (word_of_nat ?nc :: size_t) :: u32) = ?nc" "ucast (ucast (word_of_nat ?nc :: size_t) :: u32) = (word_of_nat ?nc :: size_t)"
  proof -
    show "unat (ucast (word_of_nat ?nc :: size_t) :: u32) = ?nc" using nc31 by (simp add: unsigned_ucast_eq unat_of_nat take_bit_nat_eq_self)
    then show "ucast (ucast (word_of_nat ?nc :: size_t) :: u32) = (word_of_nat ?nc :: size_t)" by (metis of_nat_unat)
  qed
  have vo: "unat (ucast (word_of_nat (chunked_offset TYPE('a) ?nc) :: size_t) :: u32) = chunked_offset TYPE('a) ?nc"
    using chunked_offset_ge(2) [OF assms(1), of ?nc] assms(11) by (simp add: unsigned_ucast_eq unat_of_nat take_bit_nat_eq_self)
  have pos: "0 < rl_cached_num_elements st" using c assms(8) by (simp add: word_less_nat_alt)
  have est: "unat (rle_estimateOutputSize (word_of_nat (length ?w)) st) = ?k * ?n"
    unfolding rle_estimateOutputSize_def Let_def cu nk using assms(3) pos un(2) by simp
  have lout: "length ?out div ?k = ?n" unfolding stale est using k by simp
  have n0: "(word_of_nat ?n :: size_t) \<noteq> 0" using un(1) assms(8) by auto
  have D: "rle_chunk_decode cub (re_sched e) ?w ?n E ?nc (chunked_offset TYPE('a) ?nc) (words_of TYPE('a) ?n ?out) = xs"
    by (rule chunk_decode_spec [OF assms(1,2) sch refl assms(8) E(2) refl assms(9)]) simp
  let ?st2 = "st\<lparr>rl_actual_output_sizes := [word_of_nat (?k * ?n)]\<rparr>"
  have dec: "rle_decode_chunked cub (re_sched e) ?w ?out st = (store_words xs ?out, ?st2)"
    unfolding rle_decode_chunked_def Let_def cu nk ncw unc chunked_values_offset [OF assms(1) nc31] vo un(1) E(1) lout D using n0 by simp
  have "rle_execute cub (re_sched e) (re_stale e) False [?w] [?out] [word_of_nat (length ?w)] st = Inr ([store_words xs ?out], ?st2)"
    unfolding rle_execute_def using assms(3,4) dec by simp
  moreover have "rle_getActualOutputSize 0 ?st2 = (word_of_nat (?k * ?n), ?st2)"
    using assms(5,6) by (simp add: rle_getActualOutputSize_def completePendingSync_def completePendingDecodeSync_def)
  moreover have "take (?k * ?n) (store_words xs ?out) = bytes_of xs" by (simp add: store_words_def)
  ultimately show thesis using that un(2) by (simp add: rle_run_def)
qed

text \<open>
  C13. Chunked run-length coding is lossless.  With a chunk size set, for every input below 2 GB of fewer than \<open>2 ^ 29\<close> chunks and every
  order of blocks and threads in both runs, the encoder writes the documented chunked format of the runs a sequential scan finds in
  every chunk by itself, within the estimated size; the stage rebuilt from the archived header expands it to the whole elements of
  the input, block by block and without reading a size back.
\<close>

theorem rle_chunked_lossless:
  fixes st :: "'a::len word rle_stage"
  assumes "elem_type TYPE('a)" "cub_ok cub" "cub_ok cub'" "\<not> rl_is_inverse st" "isChunked st" "rle_ready st" "length bs < 2 ^ 31"
    "elem_size TYPE('a) \<le> length bs" "chunk_count (chunk_elems st) (length bs div elem_size TYPE('a)) < 2 ^ 29" "run_env_ok e" "run_env_ok e'"
  shows "\<exists>st1 st2. rle_run cub st e bs = Inr (rle_chunked_wire (chunk_elems st) (words_of TYPE('a) (length bs div elem_size TYPE('a)) bs), st1) \<and> rle_ready st1 \<and>
    length (rle_chunked_wire (chunk_elems st) (words_of TYPE('a) (length bs div elem_size TYPE('a)) bs)) \<le> unat (rle_estimateOutputSize (word_of_nat (length bs)) st) \<and>
    rle_run cub' (rle_decoder_of dt st1) e' (rle_chunked_wire (chunk_elems st) (words_of TYPE('a) (length bs div elem_size TYPE('a)) bs)) =
      Inr (take (elem_size TYPE('a) * (length bs div elem_size TYPE('a))) bs, st2)"
proof -
  let ?n = "length bs div elem_size TYPE('a)" and ?E = "chunk_elems st" and ?xs = "words_of TYPE('a) (length bs div elem_size TYPE('a)) bs"
  have n: "0 < ?n" using assms(8) elem_size_bounds [OF assms(1)] by (simp add: div_greater_zero_iff)
  obtain st1 where s: "rle_run cub st e bs = Inr (rle_chunked_wire ?E ?xs, st1)" "rl_cached_num_elements st1 = word_of_nat ?n"
    "rl_chunk_size st1 = rl_chunk_size st" "rle_ready st1"
    using rle_forward_chunked [OF assms(1,2,4-7) refl n refl assms(9,10)] by metis
  let ?d = "rle_decoder_of dt st1"
  have d: "rl_is_inverse ?d" "isChunked ?d" "\<not> rl_fwd_sync_pending ?d" "\<not> rl_dec_sync_pending ?d" "rl_cached_num_elements ?d = word_of_nat (length ?xs)" "?E = chunk_elems ?d"
    using assms(5) s(2,3) by (simp_all add: isChunked_def chunk_elems_def rle_decoder_of_def rle_header_restores new_rle_def)
  note C = rle_element_count(2) [OF assms(1,7)]
  have l: "0 < length ?xs" "elem_size TYPE('a) * length ?xs < 2 ^ 31" "chunk_count ?E (length ?xs) < 2 ^ 29"
    using n le_less_trans [OF C assms(7)] assms(9) by simp_all
  obtain st2 where "rle_run cub' ?d e' (rle_chunked_wire ?E ?xs) = Inr (bytes_of ?xs, st2)"
    using rle_backward_chunked [OF assms(1,3) d(1-5) l(1,2) d(6) l(3) assms(11)] by metis
  moreover have "bytes_of ?xs = take (elem_size TYPE('a) * ?n) bs" using bytes_of_words_of [OF assms(1) C] .
  moreover have "length (rle_chunked_wire ?E ?xs) \<le> unat (rle_estimateOutputSize (word_of_nat (length bs)) st)"
    unfolding rle_estimate_chunked [OF assms(1,4,5,7) refl refl assms(9)]
    by (rule rle_chunked_fits [OF assms(1) chunk_numbers(2) [OF assms(1,5)] length_words_of refl])
  ultimately show ?thesis using s(1,4) by auto
qed

theorem rle_chunked_lossless_witness:
  "\<exists>st1 st2. rle_run plain_cub (new_rle\<lparr>rl_chunk_size := 4\<rparr> :: 16 word rle_stage) \<lparr>re_sched = rev, re_stale = (\<lambda>n. replicate n 7)\<rparr> [5, 0, 5, 0, 5, 0] =
      Inr ([2, 0, 0, 0, 0, 0, 0, 0, 1, 0, 0, 0, 2, 0, 0, 0, 5, 0, 5, 0, 2, 0, 0, 0, 1, 0, 0, 0], st1) \<and>
    rle_run plain_cub (rle_decoder_of 1 st1) \<lparr>re_sched = id, re_stale = (\<lambda>n. replicate n 0)\<rparr>
      [2, 0, 0, 0, 0, 0, 0, 0, 1, 0, 0, 0, 2, 0, 0, 0, 5, 0, 5, 0, 2, 0, 0, 0, 1, 0, 0, 0] = Inr ([5, 0, 5, 0, 5, 0], st2)"
proof -
  let ?st = "new_rle\<lparr>rl_chunk_size := 4\<rparr> :: 16 word rle_stage" and ?bs = "[5, 0, 5, 0, 5, 0] :: u8 list"
  have e: "chunk_elems ?st = 2" by (simp add: chunk_elems_def elem_size_def)
  have w: "rle_chunked_wire 2 (words_of TYPE(16) (length ?bs div elem_size TYPE(16)) ?bs) =
      [2, 0, 0, 0, 0, 0, 0, 0, 1, 0, 0, 0, 2, 0, 0, 0, 5, 0, 5, 0, 2, 0, 0, 0, 1, 0, 0, 0]"
    by code_simp
  have a: "elem_type TYPE(16)" "\<not> rl_is_inverse ?st" "isChunked ?st" "length ?bs < 2 ^ 31" "elem_size TYPE(16) \<le> length ?bs"
    "chunk_count (chunk_elems ?st) (length ?bs div elem_size TYPE(16)) < 2 ^ 29"
    "run_env_ok \<lparr>re_sched = rev, re_stale = (\<lambda>n. replicate n 7)\<rparr>" "run_env_ok \<lparr>re_sched = id, re_stale = (\<lambda>n. replicate n 0)\<rparr>"
    by (simp_all add: elem_type_def new_rle_def isChunked_def elem_size_def run_env_ok_def sched_ok_def chunk_elems_def chunk_count_def)
  have t: "take (elem_size TYPE(16) * (length ?bs div elem_size TYPE(16))) ?bs = ?bs" by (simp add: elem_size_def)
  show ?thesis using rle_chunked_lossless [OF a(1) plain_cub_ok plain_cub_ok a(2,3) new_rle_ready(1) a(4-8), of 1] unfolding e w t by blast
qed

subsection \<open>The contract of a lossless stage\<close>

text \<open>The archive of a run: the configuration header, then the coded bytes.\<close>

definition rle_encode :: "cub_lib \<Rightarrow> u8 \<Rightarrow> 'a::len word rle_stage \<Rightarrow> run_env \<Rightarrow> u8 list \<Rightarrow> u8 list res" where
  "rle_encode cub dt st e bs = map_sum id (\<lambda>(c, st'). rle_serializeHeader dt 128 st' @ c) (rle_run cub st e bs)"

definition rle_decode :: "cub_lib \<Rightarrow> 'a::len itself \<Rightarrow> run_env \<Rightarrow> u8 list \<Rightarrow> u8 list res" where
  "rle_decode cub t e ar =
     map_sum id fst (rle_run cub ((rle_deserializeHeader (take 9 ar) (new_rle :: 'a word rle_stage))\<lparr>rl_is_inverse := True\<rparr>) e (drop 9 ar))"

definition rle_accepts :: "cub_lib \<Rightarrow> 'a::len word rle_stage \<Rightarrow> u8 list \<Rightarrow> bool" where
  "rle_accepts cub st bs \<longleftrightarrow> cub_ok cub \<and> elem_type TYPE('a) \<and> \<not> rl_is_inverse st \<and> rle_ready st \<and> length bs < 2 ^ 31 \<and>
     elem_size TYPE('a) \<le> length bs \<and> length bs mod elem_size TYPE('a) = 0 \<and>
     (isChunked st \<longrightarrow> chunk_count (chunk_elems st) (length bs div elem_size TYPE('a)) < 2 ^ 29)"

lemma rle_restores:
  assumes "rle_accepts cub (st :: 'a::len word rle_stage) bs" "run_env_ok e" "run_env_ok e'"
  obtains c st1 st2 where "rle_run cub st e bs = Inr (c, st1)" "rle_run cub (rle_decoder_of dt st1) e' c = Inr (bs, st2)"
proof -
  let ?k = "elem_size TYPE('a)"
  have a: "elem_type TYPE('a)" "cub_ok cub" "\<not> rl_is_inverse st" "rle_ready st" "length bs < 2 ^ 31" "?k \<le> length bs" "length bs mod ?k = 0"
    "isChunked st \<Longrightarrow> chunk_count (chunk_elems st) (length bs div ?k) < 2 ^ 29" using assms(1) by (simp_all add: rle_accepts_def)
  have whole: "take (?k * (length bs div ?k)) bs = bs" using a(7) by (simp add: mod_eq_0_iff_dvd)
  let ?n = "length bs div ?k"
  have n: "0 < ?n" using a(6) elem_size_bounds [OF a(1)] by (simp add: div_greater_zero_iff)
  note C = rle_element_count(2) [OF a(1,5)]
  have xs: "bytes_of (words_of TYPE('a) ?n bs) = bs" using bytes_of_words_of [OF a(1) C] whole by simp
  have l: "0 < length (words_of TYPE('a) ?n bs)" "?k * length (words_of TYPE('a) ?n bs) < 2 ^ 31" using n le_less_trans [OF C a(5)] by simp_all
  have keep: "rl_is_inverse (rle_decoder_of dt st1) \<and> isChunked (rle_decoder_of dt st1) = isChunked st \<and> chunk_elems (rle_decoder_of dt st1) = chunk_elems st \<and>
      \<not> rl_fwd_sync_pending (rle_decoder_of dt st1) \<and> \<not> rl_dec_sync_pending (rle_decoder_of dt st1) \<and>
      rl_cached_num_elements (rle_decoder_of dt st1) = rl_cached_num_elements st1"
    if "rl_chunk_size st1 = rl_chunk_size st" for st1 :: "'a word rle_stage"
    using that by (simp add: isChunked_def chunk_elems_def rle_decoder_of_def rle_header_restores new_rle_def)
  show thesis
  proof (cases "isChunked st")
    case True
    obtain st1 where s: "rle_run cub st e bs = Inr (rle_chunked_wire (chunk_elems st) (words_of TYPE('a) ?n bs), st1)"
      "rl_cached_num_elements st1 = word_of_nat ?n" "rl_chunk_size st1 = rl_chunk_size st"
      using rle_forward_chunked [OF a(1-3) True a(4,5) refl n refl a(8) [OF True] assms(2)] by metis
    note K = keep [OF s(3)]
    have d: "rl_is_inverse (rle_decoder_of dt st1)" "isChunked (rle_decoder_of dt st1)" "\<not> rl_fwd_sync_pending (rle_decoder_of dt st1)"
      "\<not> rl_dec_sync_pending (rle_decoder_of dt st1)" "rl_cached_num_elements (rle_decoder_of dt st1) = word_of_nat (length (words_of TYPE('a) ?n bs))"
      "chunk_elems st = chunk_elems (rle_decoder_of dt st1)" "chunk_count (chunk_elems st) (length (words_of TYPE('a) ?n bs)) < 2 ^ 29"
      using K True s(2) a(8) [OF True] by simp_all
    show thesis using rle_backward_chunked [OF a(1,2) d(1-5) l d(6,7) assms(3)] s(1) that unfolding xs by metis
  next
    case False
    obtain st1 where s: "rle_run cub st e bs = Inr (rle_wire (words_of TYPE('a) ?n bs), st1)"
      "rl_cached_num_elements st1 = word_of_nat ?n" "rl_chunk_size st1 = rl_chunk_size st"
      using rle_forward [OF a(1-3) False a(4,5) refl n assms(2)] by metis
    note K = keep [OF s(3)]
    have d: "rl_is_inverse (rle_decoder_of dt st1)" "\<not> isChunked (rle_decoder_of dt st1)" "\<not> rl_fwd_sync_pending (rle_decoder_of dt st1)"
      "rl_cached_num_elements (rle_decoder_of dt st1) = word_of_nat (length (words_of TYPE('a) ?n bs))"
      using K False s(2) by simp_all
    show thesis using rle_backward [OF a(1,2) d l assms(3)] s(1) that unfolding xs by metis
  qed
qed

interpretation rle: lossless_stage "rle_encode cub dt (st :: 'a::len word rle_stage)" "rle_decode cub TYPE('a)" "rle_accepts cub st" for cub dt st
proof
  fix bs e e' assume a: "rle_accepts cub st bs" "run_env_ok e" "run_env_ok e'"
  obtain c st1 st2 where r: "rle_run cub st e bs = Inr (c, st1)" "rle_run cub (rle_decoder_of dt st1) e' c = Inr (bs, st2)"
    using rle_restores [OF a] by metis
  have "length (rle_serializeHeader dt 128 st1) = 9" by (simp add: rle_serializeHeader_def)
  then show "\<exists>ar. rle_encode cub dt st e bs = Inr ar \<and> rle_decode cub TYPE('a) e' ar = Inr bs"
    using r by (simp add: rle_encode_def rle_decode_def rle_decoder_of_def)
qed

subsection \<open>Difference coding followed by run-length coding\<close>

interpretation diff_then_rle: lossless_pair
  "diff_bytes TYPE('a::len) dst" "diff_bytes TYPE('a) (dst\<lparr>df_is_inverse := True\<rparr>)" "\<lambda>bs. diff_accepts TYPE('a) dst bs \<and> rle_accepts cub rst bs"
  "rle_encode cub dt (rst :: 'a word rle_stage)" "rle_decode cub TYPE('a)" "rle_accepts cub rst" for dst cub dt rst
proof unfold_locales
  fix bs e e'
  show "diff_accepts TYPE('a) dst bs \<and> rle_accepts cub rst bs \<Longrightarrow> run_env_ok e \<Longrightarrow> run_env_ok e' \<Longrightarrow>
    \<exists>c. diff_bytes TYPE('a) dst e bs = Inr c \<and> diff_bytes TYPE('a) (dst\<lparr>df_is_inverse := True\<rparr>) e' c = Inr bs"
    using difference.restores by blast
next
  fix bs e c
  assume "diff_accepts TYPE('a) dst bs \<and> rle_accepts cub rst bs" "run_env_ok e" "diff_bytes TYPE('a) dst e bs = Inr c"
  then show "rle_accepts cub rst c" using diff_keeps_length [where 'a = 'a, of dst bs e c] by (simp add: rle_accepts_def)
qed

text \<open>
  C14. The chain a compressor of smooth integer data uses is lossless as a whole.  A difference stage (plain or fused with a transform,
  chunked or not) followed by a run-length stage (whole-array or chunked) of the same element type, then the run-length decoder
  rebuilt from the archive and the inverse difference stage, restores every whole-element input below 2 GB, whatever the order of the
  threads of all kernels in the two runs.
\<close>

theorem difference_rle_lossless:
  assumes "diff_accepts TYPE('a::len) dst bs" "rle_accepts cub (rst :: 'a word rle_stage) bs" "run_env_ok e" "run_env_ok e'"
  shows "\<exists>c. then_stage (diff_bytes TYPE('a) dst) (rle_encode cub dt rst) e bs = Inr c \<and>
    then_stage (rle_decode cub TYPE('a)) (diff_bytes TYPE('a) (dst\<lparr>df_is_inverse := True\<rparr>)) e' c = Inr bs"
  by (rule diff_then_rle.restores) (use assms in auto)

theorem difference_rle_lossless_witness:
  "\<exists>c. then_stage (diff_bytes TYPE(16) ((new_diff Zigzag)\<lparr>df_chunk := 8\<rparr>)) (rle_encode plain_cub 1 (new_rle\<lparr>rl_chunk_size := 4\<rparr> :: 16 word rle_stage))
      \<lparr>re_sched = rev, re_stale = (\<lambda>n. replicate n 7)\<rparr> [1, 0, 2, 0, 3, 0, 4, 0, 5, 0] = Inr c \<and>
    then_stage (rle_decode plain_cub TYPE(16)) (diff_bytes TYPE(16) (((new_diff Zigzag)\<lparr>df_chunk := 8\<rparr>)\<lparr>df_is_inverse := True\<rparr>))
      \<lparr>re_sched = id, re_stale = (\<lambda>n. replicate n 0)\<rparr> c = Inr [1, 0, 2, 0, 3, 0, 4, 0, 5, 0]"
proof -
  have d: "diff_accepts TYPE(16) ((new_diff Zigzag)\<lparr>df_chunk := 8\<rparr>) [1, 0, 2, 0, 3, 0, 4, 0, 5, 0]"
    by (simp add: diff_accepts_def elem_type_def elem_size_def diff_ce_def new_diff_def)
  have ready: "rle_ready (new_rle\<lparr>rl_chunk_size := 4\<rparr> :: 16 word rle_stage)" by (rule new_rle_ready)
  have r: "rle_accepts plain_cub (new_rle\<lparr>rl_chunk_size := 4\<rparr> :: 16 word rle_stage) [1, 0, 2, 0, 3, 0, 4, 0, 5, 0]"
    using plain_cub_ok ready unfolding rle_accepts_def by (simp add: elem_type_def elem_size_def new_rle_def chunk_count_def chunk_elems_def)
  have e: "run_env_ok \<lparr>re_sched = rev, re_stale = (\<lambda>n. replicate n 7)\<rparr>" "run_env_ok \<lparr>re_sched = id, re_stale = (\<lambda>n. replicate n 0)\<rparr>"
    by (simp_all add: run_env_ok_def sched_ok_def)
  show ?thesis by (rule difference_rle_lossless [OF d r e])
qed

end
