(* ===== verification/Spec2Isabelle.thy ===== *)
theory Spec2Isabelle
  imports Prelude Concat_Layout Mempool Dag Dag_Exec Dag_Coloring Fzm_Format Crc32 Pipeline_State Fzm_File Fusion Kernels Byte_Writes Transforms Bitpack Pipeline_Build Pipeline_Final Inverse_Dag Dataflow Roundtrip Exec_Fault Pipeline_Run Session Tupl Rle Rle_Chunked
begin

text \<open>
  \<^bold>\<open>FZModules: a verified model of the compression pipeline.\<close>

  FZModules builds lossy and lossless compressors for scientific data out of \<^emph>\<open>stages\<close>.
  A \<open>Pipeline\<close> (\<open>src/include/pipeline/compressor.h\<close>, \<open>src/src/pipeline/compressor*.cpp\<close>)
  owns stages and a \<open>CompressionDAG\<close> (\<open>src/include/advanced/dag.h\<close>,
  \<open>src/src/pipeline/dag*.cpp\<close>) that connects them by buffers, orders them in levels, gives
  each level streams and events, and takes its memory from a \<open>MemoryPool\<close>
  (\<open>src/src/mem/mempool.cpp\<close>).  \<open>finalize\<close> lets the fusion planner replace chains of
  stages by one fused kernel (\<open>fusion_planner.cpp\<close>, \<open>fusion_registry.cpp\<close>).
  \<open>compress\<close> executes the graph and gathers several outputs into one blob
  (\<open>concat_kernel.cu\<close>); \<open>writeToFile\<close> and \<open>decompressFromFile\<close>
  (\<open>compressor_io.cpp\<close>, \<open>fzm_format.h\<close>) put it in an FZM container and read it
  back.  The stages themselves are under \<open>src/modules\<close>.

  \<^bold>\<open>Theories, and the code each models.\<close>

  \<^item> \<open>Prelude\<close>: types, machine-integer and list lemmas shared by the components.
  \<^item> \<open>Concat_Layout\<close>: \<open>pipeline_utils.h\<close>, \<open>concat_kernel.cu\<close>, and from the pipeline
    \<open>calculateConcatSize\<close>, \<open>writeConcatBuffer\<close>, \<open>concatOutputs\<close>,
    \<open>readConcatSegmentSizes\<close>, \<open>mapCompressedBufferPointers\<close>.  Device memory is a byte
    map; the gather kernel is run under an arbitrary order of its threads.
    Shown: the kernel copies exactly the described segments in every order, the packed blob is
    the abstract blob of its segments, and reading it back gives the segments, for segments below 4 GiB;
    \<open>align16\<close> fails from there on.
  \<^item> \<open>Mempool\<close>: the whole \<open>MemoryPool\<close>, with the CUDA runtime as a parameter.  Shown:
    a well-formedness invariant over every history of calls, and that the destructor returns
    every allocation.
  \<^item> \<open>Dag\<close>: construction calls, the cycle check, levels, streams, fused groups and queries.
    Shown: the cross references of nodes and buffers stay consistent under every history of
    construction calls, \<open>finalize\<close> refuses exactly the cyclic graphs, levels strictly
    increase along edges, nodes of one level get distinct streams.
  \<^item> \<open>Dag_Exec\<close>: \<open>execute\<close> with the trace of the stream operations it issues, allocation,
    reference counts, release, \<open>reset\<close>, external pointers, destructor.  Shown, under MINIMAL for graphs
    in execution order (see Conditions): no read of a released buffer, producers ordered before consumers on
    the device, intermediates released; and \<open>reset\<close> restores the initial counts.
  \<^item> \<open>Dag_Coloring\<close>: liveness, interference, first-fit coloring, preallocation.  Shown:
    buffers that share memory are never live together and executing with shared memory never
    overwrites a value that is still needed (single stream); the cross-stream guard is
    incomplete.
  \<^item> \<open>Fzm_Format\<close>, \<open>Crc32\<close>, \<open>Pipeline_State\<close>, \<open>Fzm_File\<close>: the container's byte images,
    the table-driven checksum, the part of the pipeline's state that reaches the file, and the
    writer and readers.  Shown, for files within the format's limits (32 stages and
    outputs, 8 ports per stage, outputs below 4 GiB): the file round trip, the topology round trip, that a corrupted
    payload or header is refused, equivalence of the checksum with polynomial division and its
    detection of bursts.
  \<^item> \<open>Fusion\<close>: \<open>planFusion\<close>, the geometry rules, the registry and its four matchers, the
    choice of groups, and the composition of a fused chunk kernel.  Shown: planned groups are
    legal, the choice has maximal weight among disjoint ones, what is installed in the graph is
    sound, the fused kernel computes the composition of its members.
  \<^item> \<open>Kernels\<close>: how a stage kernel is modelled (a grid of threads, each reading and writing
    byte buffers, run under any complete order) and the locales \<open>lossless_stage\<close> and
    \<open>lossless_pair\<close>: the contract of a reversible stage, and that a chain of such
    stages is one.
  \<^item> \<open>Pipeline_Build\<close>, \<open>Pipeline_Final\<close>: the builder calls of \<open>compressor.cpp\<close> (stages, connections,
    configuration setters) and the steps of \<open>Pipeline::finalize\<close>, over a table of stage answers.  Shown: the
    connection type check accepts exactly the well-typed pipelines, and the graph half of \<open>finalize\<close> accepts
    exactly the acyclic ones that have a source and a sink.
  \<^item> \<open>Inverse_Dag\<close>, \<open>Dataflow\<close>, \<open>Roundtrip\<close>: \<open>compressor_inverse_dag.cpp\<close>, the values that flow through an
    execution, and the two together.  Shown: the inverse graph reverses the edges of the forward one; an
    execution under MINIMAL computes the data flow of its stages, memory reuse included; the inverse graph run on
    the compressed buffers restores the sources whenever every stage in inverse mode undoes its forward run.
  \<^item> \<open>Exec_Fault\<close>, \<open>Pipeline_Run\<close>: the state an execution leaves when it throws, and \<open>compressor_exec.cpp\<close>:
    \<open>compress\<close>, \<open>decompressBorrowed\<close> and the calls around them, with the pad buffer, the graph cache
    and the saved stage state.  \<open>Session\<close> composes them with the theories above.  Shown: \<open>compress\<close> followed by
    \<open>decompressBorrowed\<close> returns the input, padding removed.
  \<^item> \<open>Byte_Writes\<close>: what a kernel leaves in memory when its threads write disjoint byte ranges, for
    the kernels whose writes are computed offsets.
  \<^item> \<open>Transforms\<close>, \<open>Bitpack\<close>, \<open>Tupl\<close>: the zigzag, negabinary, difference, bit-packing and tuple
    transposition stages, as interpretations of the contract of \<open>Kernels\<close>.  Shown: each is lossless under
    every thread order for the configurations it supports, the fused difference kernel equals the two stages,
    and the configuration headers round trip.
  \<^item> \<open>Rle\<close>, \<open>Rle_Chunked\<close>: the run-length stage (\<open>src/modules/coders/rle\<close>) on whole inputs and on
    independent chunks.  The CUB primitives it calls (prefix sums, reductions) are parameters with the
    hypothesis \<open>cub_ok\<close> that states their documented results.  Shown: the parallel encoder writes the runs of a
    sequential reference encoder, both paths are lossless, and so is the difference stage followed by this one.

  \<^bold>\<open>Conventions.\<close>  A struct is a record with the fields of the source, an exception a value of
  an error type, a \<open>size_t\<close> or a \<open>uint32_t\<close> a word of its width wherever the code can
  wrap.  CUDA calls, stages and fused groups that a component only calls are parameters; what
  a theorem needs of them is a named hypothesis, and its witness instantiates them.
  A kernel launch is a list of thread numbers (a \<open>sched\<close>) that holds each thread of the
  grid, in any order; threads of the kernels modelled touch disjoint outputs or synchronise
  by block barriers, which are modelled as phases.

  \<^bold>\<open>Conditions.\<close>  \<open>finalize\<close> accepts every acyclic graph, but \<open>assignLevels\<close> computes levels in the order of
  insertion: a stage added before its producers gets too low a level and runs before them.  The theorems on
  executions (\<open>Dag_Exec\<close>, \<open>Dataflow\<close>, \<open>Roundtrip\<close>, \<open>Session\<close>) therefore assume that the level order respects the
  dependencies (\<open>topo_order\<close>, for the inverse graph \<open>topo_ok\<close>); \<open>finalize_topo_order\<close> shows this for every graph whose
  producers are added before their consumers.  They are about executions without fused groups, and about MINIMAL, under
  which the pipeline builds an inverse graph without fusion; the construction of the inverse graph is
  covered under both strategies, with preallocation and inverse fusion.

  \<^bold>\<open>Bounds and fuel.\<close>  Every recursion is total.  Three loops are bounded by fuel: following a
  chain of the fusion planner (fuel = number of nodes; a chain visits distinct nodes) and
  expanding the selected spans (fuel = chain length; every step advances), and following the chain of fused
  stages in \<open>buildInverseDAG\<close> (fuel = number of nodes; \<open>inverse_dag_reverses\<close> includes that it is enough).
  \<open>planned_groups_legal\<close> and \<open>fusion_selection_optimal\<close> are stated for the functions with that
  fuel, so the fuel is part of what is proved to be enough.  Stage theorems require fewer than
  \<open>2 ^ 31\<close> elements, the range in which the kernels' 32-bit grid arithmetic does not wrap; the run-length theorems
  take inputs whose 32-bit run counts and offsets do not wrap (below 2 GB, fewer than \<open>2 ^ 29\<close> chunks).

  \<^bold>\<open>Not modelled.\<close>  The TOML configuration loader, the command line, logging and the profiler
  (text and clock I/O without algorithmic state), the CUDA/HIP backend headers, the Python
  module, vendored coders (\<open>dietgpu\<close>, \<open>phf\<close>), and the kernel text generated at run time by
  NVRTC.  Floating-point stages (quantizer, Lorenzo, interpolation, wavelet) rest on device
  floating-point arithmetic that is outside this model.  The integer coders not listed above
  (bit shuffle, the LC-style chunk coders, Golomb-Rice, GPULZ, SPECK) are warp-level kernels that no modelled
  component depends on: the pipeline theorems take any stage that meets the contract.  Failures of single CUDA
  calls are modelled where the code reacts to them (allocation, kernel launch), not for every checked copy.
\<close>

end
